(* ===== verification/Prelude.thy ===== *)
theory Prelude
  imports Main "HOL-Library.Word"
begin

text \<open>
  The vocabulary every component shares. A C++ operation that may throw, fail an assertion or
  run into undefined behaviour returns a value of \<open>'a res\<close>: \<open>Inl\<close> of a \<open>fault\<close> or \<open>Inr\<close> of its
  result. Raw memory operations (\<open>memcpy\<close>, \<open>memmove\<close>, \<open>operator[]\<close>) are bounds-checked here, so
  that a proof that an operation returns \<open>Inr\<close> is also a proof that it stays inside its storage.
  The theory ends with the list, option and word facts that more than one component uses.
\<close>

unbundle bit_operations_syntax

named_theorems fault_simps \<open>rewrite rules of the fault monad\<close>
named_theorems mem_simps \<open>bounds-checked memory operations\<close>

section \<open>Faults\<close>

text \<open>
  \<open>Ensure_failed\<close>: an \<open>ENSURE\<close> check did not hold. \<open>Assert_failed\<close>: an \<open>assert\<close> did not hold.
  \<open>Out_of_bounds\<close>, \<open>Signed_overflow\<close>, \<open>Div_by_zero\<close>, \<open>Bad_shift\<close> and \<open>Null_deref\<close> are undefined
  behaviour of the language. \<open>No_return\<close>: a loop of the code does not end. \<open>Thrown\<close> carries the message of a standard exception.
\<close>

datatype fault =
    Ensure_failed
  | Assert_failed
  | Out_of_bounds
  | Signed_overflow
  | Div_by_zero
  | Bad_shift
  | Null_deref
  | No_return
  | Thrown string

type_synonym 'a res = "fault + 'a"
type_synonym byte = "8 word"

definition rbind :: "'a res \<Rightarrow> ('a \<Rightarrow> 'b res) \<Rightarrow> 'b res" where
  "rbind m f = (case m of Inl e \<Rightarrow> Inl e | Inr x \<Rightarrow> f x)"

definition guard :: "bool \<Rightarrow> fault \<Rightarrow> unit res" where
  "guard b e = (if b then Inr () else Inl e)"

lemma rbind_simps [simp, fault_simps]:
  "rbind (Inl e) f = Inl e"
  "rbind (Inr x) f = f x"
  by (simp_all add: rbind_def)

lemma guard_simps [simp, fault_simps]:
  "guard True e = Inr ()"
  "guard False e = Inl e"
  by (simp_all add: guard_def)

lemma guard_Inr_iff [fault_simps]: "guard b e = Inr u \<longleftrightarrow> b"
  by (cases b) simp_all

lemma rbind_Inr_iff [fault_simps]:
  "rbind m f = Inr y \<longleftrightarrow> (\<exists>x. m = Inr x \<and> f x = Inr y)"
  by (cases m) simp_all

lemma rbind_assoc: "rbind (rbind m f) g = rbind m (\<lambda>x. rbind (f x) g)"
  by (cases m) simp_all

lemma rbind_cong [fundef_cong]:
  "m = m' \<Longrightarrow> (\<And>x. m' = Inr x \<Longrightarrow> f x = g x) \<Longrightarrow> rbind m f = rbind m' g"
  by (cases m') simp_all

text \<open>Running an operation over a list of arguments, stopping at the first fault.\<close>

fun rfold :: "('s \<Rightarrow> 'a \<Rightarrow> 's res) \<Rightarrow> 'a list \<Rightarrow> 's \<Rightarrow> 's res" where
  "rfold f [] s = Inr s"
| "rfold f (x # xs) s = rbind (f s x) (rfold f xs)"

lemma rfold_append: "rfold f (xs @ ys) s = rbind (rfold f xs s) (rfold f ys)"
proof (induction xs arbitrary: s)
  case (Cons x xs)
  then show ?case by (cases "f s x") simp_all
qed simp

lemma rfold_invariant:
  assumes "\<And>s x s'. P s \<Longrightarrow> f s x = Inr s' \<Longrightarrow> P s'"
    and "P s" and "rfold f xs s = Inr s'"
  shows "P s'"
  using assms(2,3)
  by (induction xs arbitrary: s) (auto simp: rbind_Inr_iff intro: assms(1))

section \<open>Bounds-checked memory\<close>

definition load :: "'a list \<Rightarrow> nat \<Rightarrow> nat \<Rightarrow> 'a list res" where
  "load m off n = (if off + n \<le> length m then Inr (take n (drop off m)) else Inl Out_of_bounds)"

definition store :: "'a list \<Rightarrow> nat \<Rightarrow> 'a list \<Rightarrow> 'a list res" where
  "store m off bs =
     (if off + length bs \<le> length m
      then Inr (take off m @ bs @ drop (off + length bs) m) else Inl Out_of_bounds)"

definition at :: "'a list \<Rightarrow> nat \<Rightarrow> 'a res" where
  "at m i = (if i < length m then Inr (m ! i) else Inl Out_of_bounds)"

definition set_at :: "'a list \<Rightarrow> nat \<Rightarrow> 'a \<Rightarrow> 'a list res" where
  "set_at m i x = (if i < length m then Inr (m[i := x]) else Inl Out_of_bounds)"

text \<open>\<open>std::vector::resize\<close>: shrink, or pad with the value-initialised element.\<close>

definition resize :: "'a \<Rightarrow> 'a list \<Rightarrow> nat \<Rightarrow> 'a list" where
  "resize z m n = (if n \<le> length m then take n m else m @ replicate (n - length m) z)"

lemma load_ok [mem_simps]: "off + n \<le> length m \<Longrightarrow> load m off n = Inr (take n (drop off m))"
  by (simp add: load_def)

lemma store_ok [mem_simps]:
  "off + length bs \<le> length m \<Longrightarrow>
   store m off bs = Inr (take off m @ bs @ drop (off + length bs) m)"
  by (simp add: store_def)

lemma at_ok [mem_simps]: "i < length m \<Longrightarrow> at m i = Inr (m ! i)"
  by (simp add: at_def)

lemma set_at_ok [mem_simps]: "i < length m \<Longrightarrow> set_at m i x = Inr (m[i := x])"
  by (simp add: set_at_def)

lemma at_Inr_iff: "at m i = Inr x \<longleftrightarrow> i < length m \<and> x = m ! i"
  by (auto simp: at_def)

lemma length_resize [simp]: "length (resize z m n) = n"
  by (simp add: resize_def)

lemma take_resize: "k \<le> length m \<Longrightarrow> k \<le> n \<Longrightarrow> take k (resize z m n) = take k m"
  by (simp add: resize_def min_def)

section \<open>Machine integers\<close>

text \<open>Signed 64-bit arithmetic: a result outside the range is undefined behaviour.\<close>

definition in_i64 :: "int \<Rightarrow> bool" where
  "in_i64 x \<longleftrightarrow> - (2 ^ 63) \<le> x \<and> x < 2 ^ 63"

definition in_i32 :: "int \<Rightarrow> bool" where
  "in_i32 x \<longleftrightarrow> - (2 ^ 31) \<le> x \<and> x < 2 ^ 31"

definition chk64 :: "int \<Rightarrow> int res" where
  "chk64 x = (if in_i64 x then Inr x else Inl Signed_overflow)"

definition chk32 :: "int \<Rightarrow> int res" where
  "chk32 x = (if in_i32 x then Inr x else Inl Signed_overflow)"

lemma chk64_Inr_iff [fault_simps]: "chk64 x = Inr y \<longleftrightarrow> in_i64 x \<and> y = x"
  by (auto simp: chk64_def)

lemma chk32_Inr_iff [fault_simps]: "chk32 x = Inr y \<longleftrightarrow> in_i32 x \<and> y = x"
  by (auto simp: chk32_def)

text \<open>
  Unsigned 64-bit arithmetic (\<open>size_t\<close>, \<open>uint64_t\<close>) where a component counts in natural numbers:
  the wrap-around at \<open>2 ^ 64\<close> is written out.
\<close>

definition wrap :: "nat \<Rightarrow> nat" where
  "wrap x = x mod 2 ^ 64"

text \<open>Subtraction of \<open>size_t\<close> values.\<close>

definition wsub :: "nat \<Rightarrow> nat \<Rightarrow> nat" where
  "wsub a b = wrap (a + (2 ^ 64 - b mod 2 ^ 64))"

lemma wrap_small [simp]: "x < 2 ^ 64 \<Longrightarrow> wrap x = x"
  by (simp add: wrap_def)

lemma wrap_less [simp]: "wrap x < 2 ^ 64"
  by (simp add: wrap_def)

lemma wsub_small: "b \<le> a \<Longrightarrow> a < 2 ^ 64 \<Longrightarrow> wsub a b = a - b"
proof -
  assume ab: "b \<le> a" "a < 2 ^ 64"
  then have "a + (2 ^ 64 - b mod 2 ^ 64) = (a - b) + 2 ^ 64" by simp
  moreover have "((a - b) + 2 ^ 64) mod 2 ^ 64 = a - b"
    unfolding mod_add_self2 using ab by (intro mod_less) simp
  ultimately show ?thesis by (simp only: wsub_def wrap_def)
qed

lemma wsub_0_1: "wsub 0 1 = 2 ^ 64 - 1"
  by (simp add: wsub_def wrap_def)

text \<open>Whether a number is a \<open>size_t\<close>.\<close>

definition fits_size :: "nat \<Rightarrow> bool" where
  "fits_size n \<longleftrightarrow> n < 2 ^ 64"

text \<open>Evaluation with binary integers.\<close>

lemma fits_size_code [code]: "fits_size n \<longleftrightarrow> int n < 18446744073709551616"
  by (simp add: fits_size_def)

lemma wrap_code [code]: "wrap n = nat (int n mod 18446744073709551616)"
  by (simp add: wrap_def nat_mod_distrib)

lemma wsub_code [code]: "wsub a b = (if b \<le> a \<and> fits_size a then a - b else wrap (a + (2 ^ 64 - b mod 2 ^ 64)))"
  by (simp add: wsub_small fits_size_def) (simp add: wsub_def)

text \<open>Division of C++ rounds towards zero.\<close>

definition cdiv :: "int \<Rightarrow> int \<Rightarrow> int" where
  "cdiv a b = sgn a * sgn b * (\<bar>a\<bar> div \<bar>b\<bar>)"

lemma cdiv_nonneg: "0 \<le> a \<Longrightarrow> 0 < b \<Longrightarrow> cdiv a b = a div b"
  by (cases "a = 0") (simp_all add: cdiv_def sgn_if)

end
