(* ===== verification/Endian.thy ===== *)
theory Endian
  imports Prelude
begin

text \<open>
  Object representations and the byte-order helpers of \<open>src/NetworkInfra/src/endian_utils.h\<close>.
  The byte order of the host is a parameter (\<open>endianness\<close>) of every operation, so the facts below
  hold on both kinds of machine. The main result is that what \<open>HostToNetwork\<close> leaves in memory is
  the big-endian image of the integer whatever the host, and that \<open>NetworkToHost\<close> undoes it.
\<close>

datatype endianness = Little_endian | Big_endian

section \<open>Bytes of a word\<close>

definition le_bytes :: "'a::len word \<Rightarrow> byte list" where
  "le_bytes w = map (\<lambda>i. ucast (drop_bit (8 * i) w)) [0..<LENGTH('a) div 8]"

primrec le_word :: "byte list \<Rightarrow> 'a::len word" where
  "le_word [] = 0"
| "le_word (b # bs) = ucast b OR push_bit 8 (le_word bs)"

definition be_bytes :: "'a::len word \<Rightarrow> byte list" where
  "be_bytes w = rev (le_bytes w)"

text \<open>The object representation of an integer, and the integer stored in given bytes.\<close>

definition obj_bytes :: "endianness \<Rightarrow> 'a::len word \<Rightarrow> byte list" where
  "obj_bytes e w = (case e of Little_endian \<Rightarrow> le_bytes w | Big_endian \<Rightarrow> be_bytes w)"

definition obj_word :: "endianness \<Rightarrow> byte list \<Rightarrow> 'a::len word" where
  "obj_word e bs = le_word (case e of Little_endian \<Rightarrow> bs | Big_endian \<Rightarrow> rev bs)"

definition bswap :: "'a::len word \<Rightarrow> 'a word" where
  "bswap w = le_word (be_bytes w)"

section \<open>The operations of the header\<close>

text \<open>The overloads for the six integer types are one polymorphic definition each.\<close>

definition HostToNetwork :: "endianness \<Rightarrow> 'a::len word \<Rightarrow> 'a word" where
  "HostToNetwork e n = (case e of Little_endian \<Rightarrow> bswap n | Big_endian \<Rightarrow> n)"

definition NetworkToHost :: "endianness \<Rightarrow> 'a::len word \<Rightarrow> 'a word" where
  "NetworkToHost e n = (case e of Little_endian \<Rightarrow> bswap n | Big_endian \<Rightarrow> n)"

section \<open>Facts\<close>

lemma length_le_bytes [simp]: "length (le_bytes (w :: 'a::len word)) = LENGTH('a) div 8"
  by (simp add: le_bytes_def)

lemma length_be_bytes [simp]: "length (be_bytes (w :: 'a::len word)) = LENGTH('a) div 8"
  by (simp add: be_bytes_def)

lemma length_obj_bytes [simp]: "length (obj_bytes e (w :: 'a::len word)) = LENGTH('a) div 8"
  by (cases e) (simp_all add: obj_bytes_def)

lemma nth_le_bytes:
  "i < LENGTH('a) div 8 \<Longrightarrow> le_bytes (w :: 'a::len word) ! i = ucast (drop_bit (8 * i) w)"
  by (simp add: le_bytes_def)

lemma bit_le_word:
  "bit (le_word bs :: 'a::len word) n \<longleftrightarrow>
     n < LENGTH('a) \<and> n div 8 < length bs \<and> bit (bs ! (n div 8)) (n mod 8)"
proof (induction bs arbitrary: n)
  case Nil
  then show ?case by simp
next
  case (Cons b bs)
  show ?case
  proof (cases "n < 8")
    case True
    then show ?thesis by (simp add: bit_or_iff bit_ucast_iff bit_push_bit_iff)
  next
    case False
    then obtain m where m: "n = m + 8" by (metis le_add_diff_inverse2 not_less)
    have "\<not> bit b n" using False bit_imp_le_length [of b n] by auto
    moreover have "n div 8 = Suc (m div 8)" "n mod 8 = m mod 8" using m by simp_all
    ultimately show ?thesis using m
      by (auto simp: bit_or_iff bit_ucast_iff bit_push_bit_iff Cons.IH simp del: div_add_self2)
  qed
qed

lemma le_word_le_bytes [simp]:
  assumes "8 dvd LENGTH('a::len)"
  shows "le_word (le_bytes (w :: 'a word)) = w"
proof (rule bit_word_eqI)
  fix n assume n: "n < LENGTH('a)"
  with assms have *: "n div 8 < LENGTH('a) div 8"
    by (metis dvd_div_mult_self less_mult_imp_div_less)
  have "8 * (n div 8) + n mod 8 = n" by simp
  with n * show "bit (le_word (le_bytes w) :: 'a word) n \<longleftrightarrow> bit w n"
    by (simp add: bit_le_word nth_le_bytes bit_ucast_iff bit_drop_bit_eq)
qed

lemma le_bytes_le_word [simp]:
  assumes "length bs = LENGTH('a::len) div 8"
  shows "le_bytes (le_word bs :: 'a word) = bs"
proof (rule nth_equalityI)
  show "length (le_bytes (le_word bs :: 'a word)) = length bs" using assms by simp
next
  fix i assume "i < length (le_bytes (le_word bs :: 'a word))"
  then have i: "i < length bs" "i < LENGTH('a) div 8" using assms by simp_all
  show "le_bytes (le_word bs :: 'a word) ! i = bs ! i"
  proof (rule bit_word_eqI)
    fix k assume k: "k < LENGTH(8)"
    then have "8 * i + k < LENGTH('a)" "(8 * i + k) div 8 = i" "(8 * i + k) mod 8 = k"
      using i by auto
    with i k show "bit (le_bytes (le_word bs :: 'a word) ! i) k \<longleftrightarrow> bit (bs ! i) k"
      by (simp add: nth_le_bytes bit_ucast_iff bit_drop_bit_eq bit_le_word)
  qed
qed

lemma obj_word_obj_bytes [simp]:
  "8 dvd LENGTH('a::len) \<Longrightarrow> obj_word e (obj_bytes e (w :: 'a word)) = w"
  by (cases e) (simp_all add: obj_word_def obj_bytes_def be_bytes_def)

lemma le_bytes_bswap:
  "8 dvd LENGTH('a::len) \<Longrightarrow> le_bytes (bswap (w :: 'a word)) = be_bytes w"
  by (simp add: bswap_def)

lemma bswap_bswap [simp]:
  assumes "8 dvd LENGTH('a::len)"
  shows "bswap (bswap (w :: 'a word)) = w"
  using assms by (simp add: bswap_def [of "bswap w"] be_bytes_def le_bytes_bswap)

lemma NetworkToHost_HostToNetwork:
  "8 dvd LENGTH('a::len) \<Longrightarrow> NetworkToHost e (HostToNetwork e (w :: 'a word)) = w"
  by (cases e) (simp_all add: NetworkToHost_def HostToNetwork_def)

lemma obj_bytes_HostToNetwork:
  "8 dvd LENGTH('a::len) \<Longrightarrow> obj_bytes e (HostToNetwork e (w :: 'a word)) = be_bytes w"
  by (cases e) (simp_all add: obj_bytes_def HostToNetwork_def le_bytes_bswap)

lemma NetworkToHost_obj_word:
  assumes "8 dvd LENGTH('a::len)"
  shows "NetworkToHost e (obj_word e (be_bytes (w :: 'a word))) = w"
  using assms obj_bytes_HostToNetwork [of e w, symmetric]
  by (simp add: NetworkToHost_HostToNetwork)

end
