(* ===== verification/Net_Buffer.thy ===== *)
theory Net_Buffer
  imports Endian
begin

text \<open>
  The byte buffer of the network library (\<open>src/NetworkInfra/src/buffer.h\<close>, \<open>buffer.cpp\<close>):
  a vector with a reserved prefix, a reader and a writer index. The record \<open>buffer\<close> has the
  class's three members; every member function is one definition, in the order of the source.
  Pointers into the vector are offsets, and reads and writes through them are bounds-checked.
  The abstract view is the list of readable bytes (\<open>contents\<close>); the locale \<open>byte_queue\<close> states
  what the class promises about it and is interpreted on the class's operations. Sizes are natural numbers here: a
  buffer and what is written into it are objects in memory, of fewer than \<open>2 ^ 63\<close> bytes. The theory
  \<open>Buffer_Sizes\<close> has the same operations on machine integers, and shows that the two agree.
\<close>

section \<open>Iterators\<close>

text \<open>An iterator is the offset of its pointer from \<open>buf_.data()\<close>.\<close>

record iterator =
  ptr :: int

definition iter_deref :: "byte list \<Rightarrow> iterator \<Rightarrow> byte res" where
  "iter_deref m it = (if 0 \<le> ptr it then at m (nat (ptr it)) else Inl Out_of_bounds)"

definition iter_index :: "byte list \<Rightarrow> iterator \<Rightarrow> int \<Rightarrow> byte res" where
  "iter_index m it n = iter_deref m \<lparr>ptr = ptr it + n\<rparr>"

definition iter_preinc :: "iterator \<Rightarrow> iterator" where
  "iter_preinc it = it\<lparr>ptr := ptr it + 1\<rparr>"

text \<open>The postfix forms return the old iterator and leave the new one behind.\<close>

definition iter_postinc :: "iterator \<Rightarrow> iterator \<times> iterator" where
  "iter_postinc it = (it, iter_preinc it)"

definition iter_predec :: "iterator \<Rightarrow> iterator" where
  "iter_predec it = it\<lparr>ptr := ptr it - 1\<rparr>"

definition iter_postdec :: "iterator \<Rightarrow> iterator \<times> iterator" where
  "iter_postdec it = (it, iter_predec it)"

definition iter_add_assign :: "iterator \<Rightarrow> int \<Rightarrow> iterator" where
  "iter_add_assign it n = it\<lparr>ptr := ptr it + n\<rparr>"

definition iter_sub_assign :: "iterator \<Rightarrow> int \<Rightarrow> iterator" where
  "iter_sub_assign it n = it\<lparr>ptr := ptr it - n\<rparr>"

definition iter_diff :: "iterator \<Rightarrow> iterator \<Rightarrow> int" where
  "iter_diff lhs rhs = ptr lhs - ptr rhs"

definition iter_eq :: "iterator \<Rightarrow> iterator \<Rightarrow> bool" where
  "iter_eq lhs rhs \<longleftrightarrow> ptr lhs = ptr rhs"

definition iter_ne :: "iterator \<Rightarrow> iterator \<Rightarrow> bool" where
  "iter_ne lhs rhs \<longleftrightarrow> \<not> iter_eq lhs rhs"

definition iter_plus :: "iterator \<Rightarrow> int \<Rightarrow> iterator" where
  "iter_plus it n = (let temp = it; temp = iter_add_assign temp n in temp)"

definition iter_plus_left :: "int \<Rightarrow> iterator \<Rightarrow> iterator" where
  "iter_plus_left n it = iter_plus it n"

text \<open>The free \<open>operator-(Iterator, n)\<close> updates its parameter and returns the untouched copy.\<close>

definition iter_minus :: "iterator \<Rightarrow> int \<Rightarrow> iterator" where
  "iter_minus it n = (let temp = it; it = iter_sub_assign it n in temp)"

definition iter_lt :: "iterator \<Rightarrow> iterator \<Rightarrow> bool" where
  "iter_lt lhs rhs \<longleftrightarrow> iter_diff rhs lhs > 0"

definition iter_gt :: "iterator \<Rightarrow> iterator \<Rightarrow> bool" where
  "iter_gt lhs rhs \<longleftrightarrow> iter_lt rhs lhs"

definition iter_le :: "iterator \<Rightarrow> iterator \<Rightarrow> bool" where
  "iter_le lhs rhs \<longleftrightarrow> \<not> iter_gt lhs rhs"

definition iter_ge :: "iterator \<Rightarrow> iterator \<Rightarrow> bool" where
  "iter_ge lhs rhs \<longleftrightarrow> \<not> iter_lt lhs rhs"

text \<open>\<open>std::string(first, last)\<close>: the bytes of the range, read one by one.\<close>

definition string_of_range :: "byte list \<Rightarrow> iterator \<Rightarrow> iterator \<Rightarrow> byte list res" where
  "string_of_range m b e =
     (if 0 \<le> ptr b \<and> iter_le b e then load m (nat (ptr b)) (nat (iter_diff e b))
      else Inl Out_of_bounds)"

section \<open>The buffer\<close>

record buffer =
  buf :: "byte list"
  reader_index :: nat
  writer_index :: nat

definition kDefaultPrependSize :: nat where
  "kDefaultPrependSize = 8"

definition kDefaultInitialSize :: nat where
  "kDefaultInitialSize = 1024"

definition Buffer_sized :: "nat \<Rightarrow> buffer" where
  "Buffer_sized initial_size =
     \<lparr>buf = replicate (initial_size + kDefaultPrependSize) 0,
      reader_index = kDefaultPrependSize, writer_index = kDefaultPrependSize\<rparr>"

definition Buffer_default :: buffer where
  "Buffer_default = Buffer_sized kDefaultInitialSize"

definition prependable_size :: "buffer \<Rightarrow> nat" where
  "prependable_size b = reader_index b"

definition readable_size :: "buffer \<Rightarrow> nat" where
  "readable_size b = writer_index b - reader_index b"

definition writable_size :: "buffer \<Rightarrow> nat" where
  "writable_size b = length (buf b) - writer_index b"

definition cbegin :: "buffer \<Rightarrow> iterator" where
  "cbegin b = \<lparr>ptr = int (reader_index b)\<rparr>"

definition cend :: "buffer \<Rightarrow> iterator" where
  "cend b = \<lparr>ptr = int (writer_index b)\<rparr>"

definition Peek :: "buffer \<Rightarrow> nat" where
  "Peek b = nat (ptr (cbegin b))"

definition BeginWrite :: "buffer \<Rightarrow> nat" where
  "BeginWrite b = writer_index b"

definition EndWrite :: "buffer \<Rightarrow> nat \<Rightarrow> buffer res" where
  "EndWrite b written_size =
     rbind (guard (written_size \<le> writable_size b) Ensure_failed) (\<lambda>_.
     Inr (b\<lparr>writer_index := writer_index b + written_size\<rparr>))"

definition ReserveWritable :: "buffer \<Rightarrow> nat \<Rightarrow> buffer res" where
  "ReserveWritable b new_size =
     (if new_size \<le> writable_size b then Inr b
      else if prependable_size b + writable_size b < kDefaultPrependSize + new_size
      then Inr (b\<lparr>buf := resize 0 (buf b) (writer_index b + new_size)\<rparr>)
      else let data_size = readable_size b in
        rbind (load (buf b) (reader_index b) data_size) (\<lambda>d.
        rbind (store (buf b) kDefaultPrependSize d) (\<lambda>m.
        Inr (b\<lparr>buf := m, reader_index := kDefaultPrependSize,
               writer_index := kDefaultPrependSize + data_size\<rparr>))))"

definition Write :: "buffer \<Rightarrow> byte list \<Rightarrow> buffer res" where
  "Write b data =
     rbind (ReserveWritable b (length data)) (\<lambda>b.
     rbind (guard (length data \<le> writable_size b) Ensure_failed) (\<lambda>_.
     rbind (store (buf b) (BeginWrite b) data) (\<lambda>m.
     EndWrite (b\<lparr>buf := m\<rparr>) (length data))))"

definition Write_int8 :: "endianness \<Rightarrow> buffer \<Rightarrow> 8 word \<Rightarrow> buffer res" where
  "Write_int8 e b n = Write b (obj_bytes e n)"

text \<open>\<open>Write(int16_t)\<close>, \<open>Write(int32_t)\<close> and \<open>Write(int64_t)\<close>.\<close>

definition Write_int :: "endianness \<Rightarrow> buffer \<Rightarrow> 'a::len word \<Rightarrow> buffer res" where
  "Write_int e b n = (let be = HostToNetwork e n in Write b (obj_bytes e be))"

definition PeekAsInt8 :: "buffer \<Rightarrow> 8 word res" where
  "PeekAsInt8 b =
     rbind (guard (1 \<le> readable_size b) Ensure_failed) (\<lambda>_. at (buf b) (Peek b))"

text \<open>\<open>PeekAsInt16\<close>, \<open>PeekAsInt32\<close> and \<open>PeekAsInt64\<close>.\<close>

definition PeekAsInt :: "endianness \<Rightarrow> buffer \<Rightarrow> 'a::len word res" where
  "PeekAsInt e b =
     rbind (guard (LENGTH('a) div 8 \<le> readable_size b) Ensure_failed) (\<lambda>_.
     rbind (load (buf b) (Peek b) (LENGTH('a) div 8)) (\<lambda>bs.
     Inr (NetworkToHost e (obj_word e bs))))"

definition ConsumeAll :: "buffer \<Rightarrow> buffer" where
  "ConsumeAll b =
     (let b = b\<lparr>reader_index := kDefaultPrependSize\<rparr> in b\<lparr>writer_index := reader_index b\<rparr>)"

definition Consume :: "buffer \<Rightarrow> nat \<Rightarrow> buffer res" where
  "Consume b data_size =
     rbind (guard (data_size \<le> readable_size b) Ensure_failed) (\<lambda>_.
     if data_size < readable_size b
     then Inr (b\<lparr>reader_index := reader_index b + data_size\<rparr>)
     else Inr (ConsumeAll b))"

definition ReadAsInt8 :: "buffer \<Rightarrow> (8 word \<times> buffer) res" where
  "ReadAsInt8 b = rbind (PeekAsInt8 b) (\<lambda>n. rbind (Consume b 1) (\<lambda>b. Inr (n, b)))"

text \<open>\<open>ReadAsInt16\<close>, \<open>ReadAsInt32\<close> and \<open>ReadAsInt64\<close>.\<close>

definition ReadAsInt :: "endianness \<Rightarrow> buffer \<Rightarrow> ('a::len word \<times> buffer) res" where
  "ReadAsInt e b =
     rbind (PeekAsInt e b) (\<lambda>n. rbind (Consume b (LENGTH('a) div 8)) (\<lambda>b. Inr (n, b)))"

definition ReadAsString :: "buffer \<Rightarrow> nat \<Rightarrow> (byte list \<times> buffer) res" where
  "ReadAsString b len =
     rbind (guard (len \<le> readable_size b) Ensure_failed) (\<lambda>_.
     rbind (string_of_range (buf b) (cbegin b) (iter_plus (cbegin b) (int len))) (\<lambda>s.
     rbind (Consume b len) (\<lambda>b. Inr (s, b))))"

definition ReadAllAsString :: "buffer \<Rightarrow> (byte list \<times> buffer) res" where
  "ReadAllAsString b =
     rbind (string_of_range (buf b) (cbegin b) (cend b)) (\<lambda>s. Inr (s, ConsumeAll b))"

definition Prepend :: "buffer \<Rightarrow> byte list \<Rightarrow> buffer res" where
  "Prepend b data =
     rbind (guard (length data \<le> prependable_size b) Ensure_failed) (\<lambda>_.
     let start = reader_index b - length data in
     rbind (store (buf b) start data) (\<lambda>m.
     Inr (b\<lparr>buf := m, reader_index := reader_index b - length data\<rparr>)))"

text \<open>\<open>Prepend(int32_t)\<close> and \<open>Prepend(int64_t)\<close>.\<close>

definition Prepend_int :: "endianness \<Rightarrow> buffer \<Rightarrow> 'a::len word \<Rightarrow> buffer res" where
  "Prepend_int e b n = (let be = HostToNetwork e n in Prepend b (obj_bytes e be))"

text \<open>
  \<open>ReadFD\<close> scatters what \<open>readv\<close> delivers over the writable space and a 65535-byte stack buffer.
  The system call is the parameter \<open>delivered\<close>: \<open>None\<close> when it fails, otherwise the bytes it read.
\<close>

definition kExtraBufSize :: nat where
  "kExtraBufSize = 65535"

definition readv_capacity :: "buffer \<Rightarrow> nat" where
  "readv_capacity b =
     (if writable_size b < kExtraBufSize then writable_size b + kExtraBufSize
      else writable_size b)"

definition ReadFD :: "byte list option \<Rightarrow> buffer \<Rightarrow> (int \<times> buffer) res" where
  "ReadFD delivered b =
     (case delivered of None \<Rightarrow> Inr (-1, b)
      | Some bs \<Rightarrow>
        (let writable = writable_size b;
             vec0 = take writable bs; extra_buf = drop writable bs; size_read = length bs in
         rbind (store (buf b) (BeginWrite b) vec0) (\<lambda>m.
         let b = b\<lparr>buf := m\<rparr> in
         if size_read \<le> writable_size b
         then rbind (EndWrite b size_read) (\<lambda>b. Inr (int size_read, b))
         else let writable = writable_size b in
           rbind (EndWrite b writable) (\<lambda>b.
           rbind (Write b (take (size_read - writable) extra_buf)) (\<lambda>b.
           Inr (int size_read, b))))))"

section \<open>Invariant and abstract view\<close>

definition buffer_inv :: "buffer \<Rightarrow> bool" where
  "buffer_inv b \<longleftrightarrow>
     reader_index b \<le> writer_index b \<and> writer_index b \<le> length (buf b) \<and>
     kDefaultPrependSize \<le> length (buf b)"

definition contents :: "buffer \<Rightarrow> byte list" where
  "contents b = take (readable_size b) (drop (reader_index b) (buf b))"

lemmas size_defs = prependable_size_def readable_size_def writable_size_def
  kDefaultPrependSize_def BeginWrite_def Peek_def cbegin_def cend_def

lemma length_contents [simp]: "buffer_inv b \<Longrightarrow> length (contents b) = readable_size b"
  by (auto simp: buffer_inv_def contents_def size_defs)

lemma buffer_inv_sized: "buffer_inv (Buffer_sized n)"
  by (simp add: buffer_inv_def Buffer_sized_def size_defs)

lemma contents_sized: "contents (Buffer_sized n) = []"
  by (simp add: contents_def Buffer_sized_def size_defs)

lemma EndWrite_ok:
  "n \<le> writable_size b \<Longrightarrow> EndWrite b n = Inr (b\<lparr>writer_index := writer_index b + n\<rparr>)"
  by (simp add: EndWrite_def)

text \<open>Making room keeps the readable bytes, and leaves at least as much room as asked for.\<close>

lemma ReserveWritable_ok:
  assumes "buffer_inv b"
  shows "\<exists>b'. ReserveWritable b n = Inr b' \<and> buffer_inv b' \<and>
    n \<le> writable_size b' \<and> contents b' = contents b"
proof -
  consider (room) "n \<le> writable_size b"
    | (grow) "\<not> n \<le> writable_size b"
        "prependable_size b + writable_size b < kDefaultPrependSize + n"
    | (shift) "\<not> n \<le> writable_size b"
        "\<not> prependable_size b + writable_size b < kDefaultPrependSize + n"
    by blast
  then show ?thesis
  proof cases
    case room
    with assms show ?thesis by (simp add: ReserveWritable_def)
  next
    case grow
    let ?b = "b\<lparr>buf := resize 0 (buf b) (writer_index b + n)\<rparr>"
    have "contents ?b = contents b"
      using assms grow
      by (simp add: contents_def size_defs buffer_inv_def resize_def take_drop min_def)
    moreover have "ReserveWritable b n = Inr ?b" using grow by (simp add: ReserveWritable_def)
    moreover have "buffer_inv ?b" "n \<le> writable_size ?b"
      using assms grow by (auto simp: buffer_inv_def size_defs)
    ultimately show ?thesis by blast
  next
    case shift
    let ?d = "take (readable_size b) (drop (reader_index b) (buf b))"
    let ?m = "take 8 (buf b) @ ?d @ drop (8 + readable_size b) (buf b)"
    let ?b = "b\<lparr>buf := ?m, reader_index := 8, writer_index := 8 + readable_size b\<rparr>"
    have fits: "8 + readable_size b \<le> length (buf b)"
      using assms shift by (auto simp: buffer_inv_def size_defs)
    have d: "length ?d = readable_size b"
      using assms by (auto simp: buffer_inv_def size_defs)
    have "ReserveWritable b n = Inr ?b"
      using assms shift fits d
      by (simp add: ReserveWritable_def load_ok store_ok buffer_inv_def Let_def size_defs)
    moreover have "contents ?b = contents b"
      using fits d by (simp add: contents_def size_defs min_def)
    moreover have "buffer_inv ?b" "n \<le> writable_size ?b"
      using assms shift fits d by (auto simp: buffer_inv_def size_defs)
    ultimately show ?thesis by blast
  qed
qed

lemma fill_ok:
  assumes "buffer_inv b" and "length bs \<le> writable_size b"
  shows "\<exists>m. store (buf b) (BeginWrite b) bs = Inr m \<and> length m = length (buf b) \<and>
    buffer_inv (b\<lparr>buf := m, writer_index := writer_index b + length bs\<rparr>) \<and>
    contents (b\<lparr>buf := m, writer_index := writer_index b + length bs\<rparr>) = contents b @ bs"
proof -
  let ?m = "take (writer_index b) (buf b) @ bs @ drop (writer_index b + length bs) (buf b)"
  let ?b = "b\<lparr>buf := ?m, writer_index := writer_index b + length bs\<rparr>"
  have fits: "reader_index b \<le> writer_index b" "writer_index b + length bs \<le> length (buf b)"
    using assms by (auto simp: buffer_inv_def size_defs)
  then have "store (buf b) (BeginWrite b) bs = Inr ?m"
    by (simp add: store_ok BeginWrite_def)
  moreover have "contents ?b = contents b @ bs"
  proof -
    from fits(1) obtain k where "writer_index b = reader_index b + k"
      using le_Suc_ex by blast
    moreover from this fits(2) have "k \<le> length (buf b) - reader_index b"
      "min (length (buf b)) (reader_index b + k) = reader_index b + k" by simp_all
    ultimately show ?thesis
      by (simp add: contents_def size_defs drop_take)
  qed
  moreover have "buffer_inv ?b" using assms(1) fits by (auto simp: buffer_inv_def)
  moreover have "length ?m = length (buf b)" using fits by simp
  ultimately show ?thesis by blast
qed

lemma Write_ok:
  assumes "buffer_inv b"
  shows "\<exists>b'. Write b bs = Inr b' \<and> buffer_inv b' \<and> contents b' = contents b @ bs"
proof -
  obtain b1 where b1: "ReserveWritable b (length bs) = Inr b1" "buffer_inv b1"
      "length bs \<le> writable_size b1" "contents b1 = contents b"
    using ReserveWritable_ok [OF assms] by blast
  obtain m where m: "store (buf b1) (BeginWrite b1) bs = Inr m" "length m = length (buf b1)"
      "buffer_inv (b1\<lparr>buf := m, writer_index := writer_index b1 + length bs\<rparr>)"
      "contents (b1\<lparr>buf := m, writer_index := writer_index b1 + length bs\<rparr>) = contents b1 @ bs"
    using fill_ok [OF b1(2,3)] by blast
  have "length bs \<le> writable_size (b1\<lparr>buf := m\<rparr>)" using b1(3) m(2) by (simp add: writable_size_def)
  with b1 m show ?thesis by (simp add: Write_def EndWrite_ok)
qed

lemma Consume_ok:
  assumes "buffer_inv b" and "n \<le> readable_size b"
  shows "\<exists>b'. Consume b n = Inr b' \<and> buffer_inv b' \<and> contents b' = drop n (contents b)"
proof (cases "n < readable_size b")
  case True
  with assms show ?thesis
    by (auto simp: Consume_def buffer_inv_def contents_def size_defs drop_take add.commute)
next
  case False
  with assms show ?thesis
    by (auto simp: Consume_def ConsumeAll_def buffer_inv_def contents_def size_defs)
qed

lemma Consume_fault: "\<not> n \<le> readable_size b \<Longrightarrow> Consume b n = Inl Ensure_failed"
  by (simp add: Consume_def)

lemma Prepend_ok:
  assumes "buffer_inv b" and "length bs \<le> prependable_size b"
  shows "\<exists>b'. Prepend b bs = Inr b' \<and> buffer_inv b' \<and> contents b' = bs @ contents b"
proof -
  let ?s = "reader_index b - length bs"
  let ?m = "take ?s (buf b) @ bs @ drop (?s + length bs) (buf b)"
  let ?b = "b\<lparr>buf := ?m, reader_index := ?s\<rparr>"
  have fits: "?s + length bs = reader_index b" "reader_index b \<le> writer_index b"
      "writer_index b \<le> length (buf b)"
    using assms by (auto simp: buffer_inv_def size_defs)
  have "Prepend b bs = Inr ?b"
    using assms fits by (simp add: Prepend_def store_ok Let_def)
  moreover have "contents ?b = bs @ contents b"
  proof -
    have "writer_index b - ?s - length bs = writer_index b - reader_index b" "?s \<le> length (buf b)"
      using fits by auto
    with fits show ?thesis by (simp add: contents_def size_defs min_def)
  qed
  moreover have "buffer_inv ?b" using assms(1) fits by (auto simp: buffer_inv_def)
  ultimately show ?thesis by blast
qed

lemma Prepend_fault: "\<not> length bs \<le> prependable_size b \<Longrightarrow> Prepend b bs = Inl Ensure_failed"
  by (simp add: Prepend_def)

lemma ConsumeAll_ok:
  "buffer_inv b \<Longrightarrow> buffer_inv (ConsumeAll b) \<and> contents (ConsumeAll b) = []"
  by (simp add: ConsumeAll_def buffer_inv_def contents_def size_defs)

lemma load_contents:
  assumes "buffer_inv b" and "n \<le> readable_size b"
  shows "load (buf b) (Peek b) n = Inr (take n (contents b))"
  using assms by (auto simp: load_def contents_def buffer_inv_def size_defs min_def)

section \<open>The contract of a byte queue\<close>

text \<open>
  What the protocol code relies on: writing appends, consuming drops from the front, and peeking
  shows the front. The lemmas of the locale are what a client needs; the interpretation below
  discharges the laws for the class.
\<close>

locale byte_queue =
  fixes inv :: "'b \<Rightarrow> bool"
    and abs :: "'b \<Rightarrow> byte list"
    and put :: "'b \<Rightarrow> byte list \<Rightarrow> 'b res"
    and consume :: "'b \<Rightarrow> nat \<Rightarrow> 'b res"
    and peek :: "'b \<Rightarrow> nat \<Rightarrow> byte list res"
  assumes put_law:
      "inv b \<Longrightarrow> \<exists>b'. put b bs = Inr b' \<and> inv b' \<and> abs b' = abs b @ bs"
    and consume_law:
      "inv b \<Longrightarrow> n \<le> length (abs b) \<Longrightarrow>
       \<exists>b'. consume b n = Inr b' \<and> inv b' \<and> abs b' = drop n (abs b)"
    and peek_law: "inv b \<Longrightarrow> n \<le> length (abs b) \<Longrightarrow> peek b n = Inr (take n (abs b))"
begin

lemma put_chunks:
  "inv b \<Longrightarrow> \<exists>b'. rfold put bss b = Inr b' \<and> inv b' \<and> abs b' = abs b @ concat bss"
proof (induction bss arbitrary: b)
  case Nil
  then show ?case by simp
next
  case (Cons bs bss)
  obtain b1 where b1: "put b bs = Inr b1" "inv b1" "abs b1 = abs b @ bs"
    using put_law [OF Cons.prems] by blast
  from Cons.IH [OF b1(2)] b1 show ?case by auto
qed

lemma front_taken:
  assumes "inv b" and "abs b = bs @ rest"
  shows "peek b (length bs) = Inr bs"
    and "\<exists>b'. consume b (length bs) = Inr b' \<and> inv b' \<and> abs b' = rest"
  using peek_law [OF assms(1), of "length bs"] consume_law [OF assms(1), of "length bs"] assms(2)
  by auto

end

interpretation bq: byte_queue buffer_inv contents Write Consume
  "\<lambda>b n. load (buf b) (Peek b) n"
  by unfold_locales (use Write_ok Consume_ok load_contents in auto)

section \<open>Integers on the wire\<close>

lemma Write_int_eq:
  "8 dvd LENGTH('a::len) \<Longrightarrow> Write_int e b (n :: 'a word) = Write b (be_bytes n)"
  by (simp add: Write_int_def obj_bytes_HostToNetwork)

lemma Prepend_int_eq:
  "8 dvd LENGTH('a::len) \<Longrightarrow> Prepend_int e b (n :: 'a word) = Prepend b (be_bytes n)"
  by (simp add: Prepend_int_def obj_bytes_HostToNetwork)

lemma ReadAsInt_front:
  assumes "8 dvd LENGTH('a::len)" and "buffer_inv b" and "contents b = be_bytes (n :: 'a word) @ rest"
  shows "\<exists>b'. ReadAsInt e b = Inr (n, b') \<and> buffer_inv b' \<and> contents b' = rest"
proof -
  have len: "LENGTH('a) div 8 \<le> readable_size b"
    using arg_cong [OF assms(3), of length] assms(2) by simp
  have "load (buf b) (Peek b) (LENGTH('a) div 8) = Inr (be_bytes n)"
    using bq.front_taken(1) [OF assms(2,3)] by simp
  moreover obtain b' where "Consume b (LENGTH('a) div 8) = Inr b'" "buffer_inv b'" "contents b' = rest"
    using bq.front_taken(2) [OF assms(2,3)] by auto
  ultimately show ?thesis
    using len assms(1) by (simp add: ReadAsInt_def PeekAsInt_def NetworkToHost_obj_word)
qed

text \<open>
  Fact. An integer written by one host is read back unchanged by any other: the bytes that
  \<open>Write\<close> leaves in the sender's buffer, appended to the receiver's buffer, are decoded by
  \<open>ReadAsInt\<close> to the same value whatever the two byte orders are, and what was queued behind it
  stays queued.
\<close>

theorem int_crosses_the_wire:
  fixes n :: "'a::len word"
  assumes "8 dvd LENGTH('a)" and "buffer_inv b" and "contents b = []"
    and "Write_int e b n = Inr b1"
    and "buffer_inv c" and "contents c = []"
    and "rfold Write [contents b1, rest] c = Inr c1"
  shows "\<exists>c2. ReadAsInt e' c1 = Inr (n, c2) \<and> buffer_inv c2 \<and> contents c2 = rest"
proof -
  have "contents b1 = be_bytes n"
    using Write_ok [OF assms(2), of "be_bytes n"] assms(1,3,4) by (auto simp: Write_int_eq)
  with bq.put_chunks [OF assms(5), of "[contents b1, rest]"] assms(6,7)
  have "buffer_inv c1" "contents c1 = be_bytes n @ rest" by auto
  from ReadAsInt_front [OF assms(1) this] show ?thesis .
qed

theorem int_crosses_the_wire_witness:
  "\<exists>b1 c1 c2. Write_int Little_endian (Buffer_sized 0) (0x12345678 :: 32 word) = Inr b1 \<and>
     rfold Write [contents b1, [7]] (Buffer_sized 2) = Inr c1 \<and>
     ReadAsInt Big_endian c1 = Inr (0x12345678 :: 32 word, c2) \<and> contents c2 = [7]"
proof -
  obtain b1 where b1: "Write_int Little_endian (Buffer_sized 0) (0x12345678 :: 32 word) = Inr b1"
    using Write_ok [OF buffer_inv_sized, of 0] by (fastforce simp: Write_int_def)
  obtain c1 where c1: "rfold Write [contents b1, [7]] (Buffer_sized 2) = Inr c1"
    using bq.put_chunks [OF buffer_inv_sized] by blast
  have "8 dvd LENGTH(32)" by simp
  from int_crosses_the_wire [OF this buffer_inv_sized contents_sized b1 buffer_inv_sized
      contents_sized c1, of Big_endian] b1 c1
  show ?thesis by blast
qed

section \<open>Strings and descriptors\<close>

lemma string_of_contents:
  assumes "buffer_inv b" and "n \<le> readable_size b"
  shows "string_of_range (buf b) (cbegin b) (iter_plus (cbegin b) (int n)) = Inr (take n (contents b))"
  using load_contents [OF assms]
  by (simp add: string_of_range_def iter_plus_def iter_add_assign_def iter_le_def iter_gt_def
      iter_lt_def iter_diff_def size_defs)

lemma ReadAsString_ok:
  assumes "buffer_inv b" and "n \<le> readable_size b"
  shows "\<exists>b'. ReadAsString b n = Inr (take n (contents b), b') \<and> buffer_inv b' \<and>
    contents b' = drop n (contents b)"
  using string_of_contents [OF assms] Consume_ok [OF assms] assms(2)
  by (auto simp: ReadAsString_def)

lemma ReadAllAsString_ok:
  assumes "buffer_inv b"
  shows "ReadAllAsString b = Inr (contents b, ConsumeAll b)"
proof -
  have "cend b = iter_plus (cbegin b) (int (readable_size b))"
    using assms by (simp add: buffer_inv_def size_defs iter_plus_def iter_add_assign_def)
  then show ?thesis
    using string_of_contents [OF assms, of "readable_size b"] assms
    by (simp add: ReadAllAsString_def)
qed

lemma ReadFD_ok:
  assumes "buffer_inv b"
  shows "\<exists>b'. ReadFD (Some bs) b = Inr (int (length bs), b') \<and> buffer_inv b' \<and> contents b' = contents b @ bs"
proof -
  let ?w = "writable_size b"
  obtain m where m: "store (buf b) (BeginWrite b) (take ?w bs) = Inr m" "length m = length (buf b)"
      "buffer_inv (b\<lparr>buf := m, writer_index := writer_index b + length (take ?w bs)\<rparr>)"
      "contents (b\<lparr>buf := m, writer_index := writer_index b + length (take ?w bs)\<rparr>) =
        contents b @ take ?w bs"
    using fill_ok [OF assms, of "take ?w bs"] by auto
  have w: "writable_size (b\<lparr>buf := m\<rparr>) = ?w" using m(2) by (simp add: writable_size_def)
  show ?thesis
  proof (cases "length bs \<le> ?w")
    case True
    with m w show ?thesis by (simp add: ReadFD_def EndWrite_ok Let_def)
  next
    case False
    then have n: "length (take ?w bs) = ?w" by simp
    let ?b = "b\<lparr>buf := m, writer_index := writer_index b + ?w\<rparr>"
    have "buffer_inv ?b" "contents ?b = contents b @ take ?w bs" using m n by simp_all
    with Write_ok [of ?b "drop ?w bs"] obtain b' where
      "Write ?b (drop ?w bs) = Inr b'" "buffer_inv b'" "contents b' = contents b @ bs"
      by auto
    with m w n False show ?thesis by (simp add: ReadFD_def EndWrite_ok Let_def)
  qed
qed

text \<open>
  Fact. \<open>ReadFD\<close> appends exactly the bytes the system call delivered, in order, also when
  they overflow the writable space into the stack buffer, and returns their number; a failing call
  returns \<open>-1\<close> and leaves the buffer alone. The hypothesis is what \<open>readv\<close> guarantees: it never
  delivers more than the capacity of the vectors it was given.
\<close>

theorem ReadFD_appends:
  assumes "buffer_inv b" and "length bs \<le> readv_capacity b"
  shows "ReadFD None b = Inr (-1, b) \<and>
    (\<exists>b'. ReadFD (Some bs) b = Inr (int (length bs), b') \<and> buffer_inv b' \<and>
       contents b' = contents b @ bs)"
  using ReadFD_ok [OF assms(1), of bs] by (simp add: ReadFD_def)

theorem ReadFD_appends_witness:
  "\<exists>b'. ReadFD (Some [1, 2, 3]) (Buffer_sized 2) = Inr (3, b') \<and> contents b' = [1, 2, 3]"
proof -
  have "length [1, 2, 3 :: byte] \<le> readv_capacity (Buffer_sized 2)"
    by (simp add: readv_capacity_def kExtraBufSize_def Buffer_sized_def size_defs)
  from ReadFD_appends [OF buffer_inv_sized this] show ?thesis
    by (auto simp: contents_sized)
qed

text \<open>
  Fact. The free \<open>operator-(Iterator, difference_type)\<close> returns its iterator operand
  unchanged, so subtracting an offset never moves an iterator (unlike \<open>-=\<close>, and unlike the
  operator's counterpart \<open>+\<close>).
\<close>

theorem iter_minus_does_not_move:
  "iter_minus it n = it \<and> iter_diff (iter_sub_assign it n) it = - n \<and>
   iter_diff (iter_plus it n) it = n"
  by (simp add: iter_minus_def iter_sub_assign_def iter_plus_def iter_add_assign_def iter_diff_def)

end
