(* ===== verification/Buffer_Sizes.thy ===== *)
theory Buffer_Sizes
  imports Net_Buffer
begin

text \<open>
  The byte buffer of the network library on machine integers (\<open>src/NetworkInfra/src/buffer.cpp\<close>): the sizes and
  indexes wrap around at \<open>2 ^ 64\<close>, and a vector that would become too long throws. The theory shows that the operations
  are those of \<open>Net_Buffer\<close> as long as the buffer stays below \<open>2 ^ 62\<close> bytes, and that whole runs refine a
  queue with a known room in front of and behind it, which says exactly which operations fail a check.
\<close>

section \<open>The operations on machine integers\<close>

definition max_vector :: nat where
  "max_vector = 2 ^ 63 - 1"

definition readable_size64 :: "buffer \<Rightarrow> nat" where
  "readable_size64 b = wsub (writer_index b) (reader_index b)"

definition writable_size64 :: "buffer \<Rightarrow> nat" where
  "writable_size64 b = wsub (length (buf b)) (writer_index b)"

definition resize64 :: "byte list \<Rightarrow> nat \<Rightarrow> byte list res" where
  "resize64 m n = rbind (guard (n \<le> max_vector) (Thrown ''length_error'')) (\<lambda>_. Inr (resize 0 m n))"

definition Buffer_sized64 :: "nat \<Rightarrow> buffer res" where
  "Buffer_sized64 initial_size =
     rbind (resize64 [] (wrap (initial_size + kDefaultPrependSize))) (\<lambda>m.
     Inr \<lparr>buf = m, reader_index = kDefaultPrependSize, writer_index = kDefaultPrependSize\<rparr>)"

definition EndWrite64 :: "buffer \<Rightarrow> nat \<Rightarrow> buffer res" where
  "EndWrite64 b written_size =
     rbind (guard (written_size \<le> writable_size64 b) Ensure_failed) (\<lambda>_.
     Inr (b\<lparr>writer_index := wrap (writer_index b + written_size)\<rparr>))"

definition ReserveWritable64 :: "buffer \<Rightarrow> nat \<Rightarrow> buffer res" where
  "ReserveWritable64 b new_size =
     (if new_size \<le> writable_size64 b then Inr b
      else if wrap (prependable_size b + writable_size64 b) < wrap (kDefaultPrependSize + new_size)
      then rbind (resize64 (buf b) (wrap (writer_index b + new_size))) (\<lambda>m. Inr (b\<lparr>buf := m\<rparr>))
      else let data_size = readable_size64 b in
        rbind (load (buf b) (reader_index b) data_size) (\<lambda>d.
        rbind (store (buf b) kDefaultPrependSize d) (\<lambda>m.
        Inr (b\<lparr>buf := m, reader_index := kDefaultPrependSize,
               writer_index := wrap (kDefaultPrependSize + data_size)\<rparr>))))"

definition Write64 :: "buffer \<Rightarrow> byte list \<Rightarrow> buffer res" where
  "Write64 b data =
     rbind (ReserveWritable64 b (length data)) (\<lambda>b.
     rbind (guard (length data \<le> writable_size64 b) Ensure_failed) (\<lambda>_.
     rbind (store (buf b) (BeginWrite b) data) (\<lambda>m.
     EndWrite64 (b\<lparr>buf := m\<rparr>) (length data))))"

definition Consume64 :: "buffer \<Rightarrow> nat \<Rightarrow> buffer res" where
  "Consume64 b data_size =
     rbind (guard (data_size \<le> readable_size64 b) Ensure_failed) (\<lambda>_.
     if data_size < readable_size64 b
     then Inr (b\<lparr>reader_index := wrap (reader_index b + data_size)\<rparr>)
     else Inr (ConsumeAll b))"

definition ReadAsString64 :: "buffer \<Rightarrow> nat \<Rightarrow> (byte list \<times> buffer) res" where
  "ReadAsString64 b len =
     rbind (guard (len \<le> readable_size64 b) Ensure_failed) (\<lambda>_.
     rbind (string_of_range (buf b) (cbegin b) (iter_plus (cbegin b) (int len))) (\<lambda>s.
     rbind (Consume64 b len) (\<lambda>b. Inr (s, b))))"

definition Prepend64 :: "buffer \<Rightarrow> byte list \<Rightarrow> buffer res" where
  "Prepend64 b data =
     rbind (guard (length data \<le> prependable_size b) Ensure_failed) (\<lambda>_.
     let start = wsub (reader_index b) (length data) in
     rbind (store (buf b) start data) (\<lambda>m.
     Inr (b\<lparr>buf := m, reader_index := wsub (reader_index b) (length data)\<rparr>)))"

datatype buf_op =
    Op_Write "byte list"
  | Op_Prepend "byte list"
  | Op_Consume nat
  | Op_ConsumeAll
  | Op_ReadAsString nat
  | Op_ReadAllAsString

text \<open>An operation with what it reads, and a run with all that was read.\<close>

fun buf_step :: "buffer \<Rightarrow> buf_op \<Rightarrow> (byte list \<times> buffer) res" where
  "buf_step b (Op_Write bs) = rbind (Write64 b bs) (\<lambda>b. Inr ([], b))"
| "buf_step b (Op_Prepend bs) = rbind (Prepend64 b bs) (\<lambda>b. Inr ([], b))"
| "buf_step b (Op_Consume n) = rbind (Consume64 b n) (\<lambda>b. Inr ([], b))"
| "buf_step b Op_ConsumeAll = Inr ([], ConsumeAll b)"
| "buf_step b (Op_ReadAsString n) = ReadAsString64 b n"
| "buf_step b Op_ReadAllAsString = ReadAllAsString b"

fun buf_run :: "buffer \<Rightarrow> buf_op list \<Rightarrow> (byte list list \<times> buffer) res" where
  "buf_run b [] = Inr ([], b)"
| "buf_run b (op # ops) = rbind (buf_step b op) (\<lambda>(s, b). rbind (buf_run b ops) (\<lambda>(ss, b). Inr (s # ss, b)))"

section \<open>A queue with room\<close>

text \<open>
  The bytes that can be read, how many can be put in front of them, and how many fit behind them before the buffer has to
  grow. An operation that has no result fails a check.
\<close>

record room =
  front :: nat
  queue :: "byte list"
  rear :: nat

definition emptied :: "room \<Rightarrow> room" where
  "emptied r = \<lparr>front = 8, queue = [], rear = front r + length (queue r) + rear r - 8\<rparr>"

definition taken :: "nat \<Rightarrow> room \<Rightarrow> room option" where
  "taken n r = (if length (queue r) < n then None
     else if n = length (queue r) then Some (emptied r)
     else Some (r\<lparr>front := front r + n, queue := drop n (queue r)\<rparr>))"

text \<open>What does not fit is moved to the front, if that makes room, and else the buffer grows as far as needed.\<close>

fun room_step :: "room \<Rightarrow> buf_op \<Rightarrow> (byte list \<times> room) option" where
  "room_step r (Op_Write bs) = (let n = length bs in Some ([],
     if n \<le> rear r then r\<lparr>queue := queue r @ bs, rear := rear r - n\<rparr>
     else if 8 + n \<le> front r + rear r then \<lparr>front = 8, queue = queue r @ bs, rear = front r + rear r - 8 - n\<rparr>
     else r\<lparr>queue := queue r @ bs, rear := 0\<rparr>))"
| "room_step r (Op_Prepend bs) = (if length bs \<le> front r then Some ([], r\<lparr>front := front r - length bs, queue := bs @ queue r\<rparr>) else None)"
| "room_step r (Op_Consume n) = map_option (Pair []) (taken n r)"
| "room_step r Op_ConsumeAll = Some ([], emptied r)"
| "room_step r (Op_ReadAsString n) = map_option (Pair (take n (queue r))) (taken n r)"
| "room_step r Op_ReadAllAsString = Some (queue r, emptied r)"

fun room_run :: "room \<Rightarrow> buf_op list \<Rightarrow> (byte list list \<times> room) option" where
  "room_run r [] = Some ([], r)"
| "room_run r (op # ops) = (case room_step r op of None \<Rightarrow> None | Some (s, r) \<Rightarrow>
     (case room_run r ops of None \<Rightarrow> None | Some (ss, r) \<Rightarrow> Some (s # ss, r)))"

fun written :: "buf_op \<Rightarrow> nat" where
  "written (Op_Write bs) = length bs"
| "written _ = 0"

definition room_of :: "buffer \<Rightarrow> room" where
  "room_of b = \<lparr>front = prependable_size b, queue = contents b, rear = writable_size b\<rparr>"

section \<open>Machine integers and natural numbers\<close>

definition moderate :: "buffer \<Rightarrow> bool" where
  "moderate b \<longleftrightarrow> buffer_inv b \<and> length (buf b) \<le> 2 ^ 62 + 8"

lemma moderate_sizes:
  assumes "moderate b"
  shows "readable_size64 b = readable_size b" and "writable_size64 b = writable_size b" and "writer_index b \<le> 2 ^ 62 + 8"
    and "readable_size b \<le> 2 ^ 62 + 8" and "writable_size b \<le> 2 ^ 62 + 8" and "reader_index b \<le> 2 ^ 62 + 8"
  using assms by (auto simp: moderate_def buffer_inv_def readable_size64_def writable_size64_def readable_size_def writable_size_def wsub_small)

lemma EndWrite64_eq: "moderate b \<Longrightarrow> EndWrite64 b n = EndWrite b n"
proof -
  assume m: "moderate b"
  show ?thesis
  proof (cases "n \<le> writable_size b")
    case True
    then have "writer_index b + n < 2 ^ 64" using moderate_sizes(3,5) [OF m] by simp
    then show ?thesis using m by (simp add: EndWrite64_def EndWrite_def moderate_sizes)
  qed (use m in \<open>simp add: EndWrite64_def EndWrite_def moderate_sizes\<close>)
qed

lemma ReserveWritable64_eq:
  assumes "moderate b" and "length (buf b) + n \<le> 2 ^ 62 + 8"
  shows "ReserveWritable64 b n = ReserveWritable b n"
proof -
  note z = moderate_sizes [OF assms(1)]
  have "prependable_size b + writable_size b < 2 ^ 64" "kDefaultPrependSize + n < 2 ^ 64" "writer_index b + n < 2 ^ 63 - 1"
    "kDefaultPrependSize + readable_size b < 2 ^ 64"
    using z(3-6) assms buffer_inv_def [of b] by (simp_all add: moderate_def prependable_size_def kDefaultPrependSize_def)
  then show ?thesis by (simp add: ReserveWritable64_def ReserveWritable_def z(1,2) resize64_def max_vector_def Let_def)
qed

lemma Reserve_room:
  assumes "buffer_inv b"
  shows "\<exists>b'. ReserveWritable b n = Inr b' \<and> buffer_inv b' \<and> contents b' = contents b \<and> n \<le> writable_size b' \<and>
    length (buf b') \<le> length (buf b) + n \<and> length (buf b) \<le> length (buf b') \<and>
    (if n \<le> writable_size b then b' = b
     else if 8 + n \<le> prependable_size b + writable_size b
     then prependable_size b' = 8 \<and> writable_size b' = prependable_size b + writable_size b - 8
     else prependable_size b' = prependable_size b \<and> writable_size b' = n)"
proof -
  obtain b' where b': "ReserveWritable b n = Inr b'" "buffer_inv b'" "n \<le> writable_size b'" "contents b' = contents b"
    using ReserveWritable_ok [OF assms] by blast
  have len: "length (contents b') = readable_size b'" "length (contents b) = readable_size b" using b'(2) assms by simp_all
  have "length (buf b') \<le> length (buf b) + n \<and> length (buf b) \<le> length (buf b') \<and>
    (if n \<le> writable_size b then b' = b
     else if 8 + n \<le> prependable_size b + writable_size b
     then prependable_size b' = 8 \<and> writable_size b' = prependable_size b + writable_size b - 8
     else prependable_size b' = prependable_size b \<and> writable_size b' = n)"
  proof -
    consider (room) "n \<le> writable_size b" | (move) "\<not> n \<le> writable_size b" "8 + n \<le> prependable_size b + writable_size b"
      | (grow) "\<not> n \<le> writable_size b" "\<not> 8 + n \<le> prependable_size b + writable_size b" by blast
    then show ?thesis
    proof cases
      case room
      then show ?thesis using b'(1) by (simp add: ReserveWritable_def)
    next
      case move
      obtain d m where d: "load (buf b) (reader_index b) (readable_size b) = Inr d" "store (buf b) 8 d = Inr m"
        "b' = b\<lparr>buf := m, reader_index := 8, writer_index := 8 + readable_size b\<rparr>"
        using b'(1) move by (auto simp: ReserveWritable_def rbind_Inr_iff Let_def kDefaultPrependSize_def)
      then have "length m = length (buf b)" by (auto simp: store_def split: if_splits)
      then show ?thesis using move d(3) assms by (auto simp: prependable_size_def writable_size_def readable_size_def buffer_inv_def)
    next
      case grow
      then have "b' = b\<lparr>buf := resize 0 (buf b) (writer_index b + n)\<rparr>" using b'(1) by (simp add: ReserveWritable_def kDefaultPrependSize_def)
      then show ?thesis using grow assms by (auto simp: prependable_size_def writable_size_def buffer_inv_def)
    qed
  qed
  then show ?thesis using b' by blast
qed

section \<open>One operation\<close>

lemma write_room:
  assumes "moderate b" and "length (buf b) + length bs \<le> 2 ^ 62 + 8"
  shows "\<exists>b'. Write64 b bs = Inr b' \<and> buffer_inv b' \<and> room_step (room_of b) (Op_Write bs) = Some ([], room_of b') \<and>
    length (buf b') \<le> length (buf b) + length bs"
proof -
  let ?n = "length bs"
  have i: "buffer_inv b" using assms by (simp add: moderate_def)
  obtain c where c: "ReserveWritable b ?n = Inr c" "buffer_inv c" "contents c = contents b" "?n \<le> writable_size c"
    "length (buf c) \<le> length (buf b) + ?n"
    "if ?n \<le> writable_size b then c = b
     else if 8 + ?n \<le> prependable_size b + writable_size b
     then prependable_size c = 8 \<and> writable_size c = prependable_size b + writable_size b - 8
     else prependable_size c = prependable_size b \<and> writable_size c = ?n"
    using Reserve_room [OF i, of ?n] by blast
  have mc: "moderate c" using c(2,5) assms(2) by (simp add: moderate_def)
  obtain m where m: "store (buf c) (BeginWrite c) bs = Inr m" "length m = length (buf c)"
      "buffer_inv (c\<lparr>buf := m, writer_index := writer_index c + ?n\<rparr>)"
      "contents (c\<lparr>buf := m, writer_index := writer_index c + ?n\<rparr>) = contents c @ bs"
    using fill_ok [OF c(2,4)] by blast
  let ?b' = "c\<lparr>buf := m, writer_index := writer_index c + ?n\<rparr>"
  have w: "writable_size (c\<lparr>buf := m\<rparr>) = writable_size c" using m(2) by (simp add: writable_size_def)
  have "moderate (c\<lparr>buf := m\<rparr>)" using mc m(2) by (simp add: moderate_def buffer_inv_def)
  then have "EndWrite64 (c\<lparr>buf := m\<rparr>) ?n = Inr ?b'" using c(4) w by (simp add: EndWrite64_eq EndWrite_def)
  then have "Write64 b bs = Inr ?b'"
    using c(1,4) m(1) ReserveWritable64_eq [OF assms] mc by (simp add: Write64_def moderate_sizes)
  moreover have "prependable_size ?b' = prependable_size c" "writable_size ?b' = writable_size c - ?n"
    using m(2) by (simp_all add: prependable_size_def writable_size_def)
  then have "room_step (room_of b) (Op_Write bs) = Some ([], room_of ?b')"
    using c(3,4,6) m(4) by (auto simp: room_of_def Let_def split: if_splits)
  ultimately show ?thesis using m(2,3) c(5) by fastforce
qed

lemma emptied_room: "buffer_inv b \<Longrightarrow> room_of (ConsumeAll b) = emptied (room_of b)"
  by (auto simp: room_of_def emptied_def ConsumeAll_def contents_def size_defs buffer_inv_def)

lemma consume_room:
  assumes "moderate b"
  shows "case taken n (room_of b) of
      None \<Rightarrow> Consume64 b n = Inl Ensure_failed \<and> readable_size64 b < n
    | Some r \<Rightarrow> \<exists>b'. Consume64 b n = Inr b' \<and> buffer_inv b' \<and> r = room_of b' \<and> length (buf b') = length (buf b) \<and> n \<le> readable_size64 b"
proof -
  have i: "buffer_inv b" using assms by (simp add: moderate_def)
  have len: "length (queue (room_of b)) = readable_size b" using i by (simp add: room_of_def)
  consider "readable_size b < n" | "n = readable_size b" | "n < readable_size b" by linarith
  then show ?thesis
  proof cases
    case 1
    then show ?thesis using assms len by (simp add: taken_def Consume64_def moderate_sizes)
  next
    case 2
    moreover have "length (buf (ConsumeAll b)) = length (buf b)" by (simp add: ConsumeAll_def)
    ultimately show ?thesis using assms len emptied_room [OF i] ConsumeAll_ok [OF i] by (simp add: taken_def Consume64_def moderate_sizes)
  next
    case 3
    let ?b = "b\<lparr>reader_index := reader_index b + n\<rparr>"
    have "reader_index b + n < 2 ^ 64" using 3 moderate_sizes(3,4,6) [OF assms] by simp
    then have "Consume64 b n = Inr ?b" using 3 assms by (simp add: Consume64_def moderate_sizes)
    moreover have "buffer_inv ?b" using 3 i by (auto simp: buffer_inv_def readable_size_def)
    moreover have "contents ?b = drop n (contents b)"
      using 3 by (simp add: contents_def readable_size_def drop_take add.commute)
    ultimately show ?thesis using 3 len assms by (simp add: taken_def room_of_def prependable_size_def writable_size_def moderate_sizes)
  qed
qed

lemma prepend_room:
  assumes "moderate b"
  shows "case room_step (room_of b) (Op_Prepend bs) of
      None \<Rightarrow> Prepend64 b bs = Inl Ensure_failed
    | Some (s, r) \<Rightarrow> \<exists>b'. Prepend64 b bs = Inr b' \<and> s = [] \<and> buffer_inv b' \<and> r = room_of b' \<and> length (buf b') = length (buf b)"
proof (cases "length bs \<le> prependable_size b")
  case True
  have i: "buffer_inv b" using assms by (simp add: moderate_def)
  obtain b' where b': "Prepend b bs = Inr b'" "buffer_inv b'" "contents b' = bs @ contents b" using Prepend_ok [OF i True] by blast
  have "wsub (reader_index b) (length bs) = reader_index b - length bs"
    using True moderate_sizes(6) [OF assms] by (intro wsub_small) (simp_all add: prependable_size_def)
  then have "Prepend64 b bs = Prepend b bs" by (simp add: Prepend64_def Prepend_def)
  moreover have "prependable_size b' = prependable_size b - length bs" "writable_size b' = writable_size b" "length (buf b') = length (buf b)"
    using b'(1) True by (auto simp: Prepend_def rbind_Inr_iff Let_def prependable_size_def writable_size_def store_def split: if_splits)
  ultimately show ?thesis using True b' by (simp add: room_of_def)
qed (simp add: room_of_def Prepend64_def)

lemma step_room:
  assumes "moderate b" and "length (buf b) + written op \<le> 2 ^ 62 + 8"
  shows "case room_step (room_of b) op of
      None \<Rightarrow> buf_step b op = Inl Ensure_failed
    | Some (s, r) \<Rightarrow> \<exists>b'. buf_step b op = Inr (s, b') \<and> buffer_inv b' \<and> r = room_of b' \<and> length (buf b') \<le> length (buf b) + written op"
proof (cases op)
  case (Op_Write bs)
  then show ?thesis using write_room [OF assms(1), of bs] assms(2) by (auto simp del: room_step.simps)
next
  case (Op_Prepend bs)
  then show ?thesis using prepend_room [OF assms(1), of bs] by (auto simp del: room_step.simps split: option.splits prod.splits)
next
  case (Op_Consume n)
  then show ?thesis using consume_room [OF assms(1), of n] by (auto split: option.splits)
next
  case (Op_ReadAsString n)
  have i: "buffer_inv b" using assms(1) by (simp add: moderate_def)
  show ?thesis using Op_ReadAsString consume_room [OF assms(1), of n] string_of_contents [OF i, of n] assms(1)
    by (auto simp: ReadAsString64_def moderate_sizes room_of_def split: option.splits)
next
  case Op_ConsumeAll
  have i: "buffer_inv b" using assms(1) by (simp add: moderate_def)
  have "length (buf (ConsumeAll b)) = length (buf b)" by (simp add: ConsumeAll_def)
  then show ?thesis using Op_ConsumeAll emptied_room [OF i] ConsumeAll_ok [OF i] by simp
next
  case Op_ReadAllAsString
  have i: "buffer_inv b" using assms(1) by (simp add: moderate_def)
  have "length (buf (ConsumeAll b)) = length (buf b)" by (simp add: ConsumeAll_def)
  then show ?thesis using Op_ReadAllAsString emptied_room [OF i] ConsumeAll_ok [OF i] ReadAllAsString_ok [OF i] by (simp add: room_of_def)
qed

lemma run_room:
  "moderate b \<Longrightarrow> length (buf b) + sum_list (map written ops) \<le> 2 ^ 62 + 8 \<Longrightarrow>
   case room_run (room_of b) ops of
      None \<Rightarrow> buf_run b ops = Inl Ensure_failed
    | Some (ss, r) \<Rightarrow> \<exists>b'. buf_run b ops = Inr (ss, b') \<and> buffer_inv b' \<and> r = room_of b'"
proof (induction ops arbitrary: b)
  case Nil
  then show ?case by (simp add: moderate_def)
next
  case (Cons op ops)
  have st: "length (buf b) + written op \<le> 2 ^ 62 + 8" using Cons.prems(2) by simp
  note s = step_room [OF Cons.prems(1) st]
  show ?case
  proof (cases "room_step (room_of b) op")
    case None
    then show ?thesis using s by simp
  next
    case (Some sr)
    obtain x r where x: "sr = (x, r)" by (cases sr)
    obtain b1 where b1: "buf_step b op = Inr (x, b1)" "buffer_inv b1" "r = room_of b1" "length (buf b1) \<le> length (buf b) + written op"
      using s Some x by auto
    have "moderate b1" "length (buf b1) + sum_list (map written ops) \<le> 2 ^ 62 + 8" using b1 Cons.prems(2) by (simp_all add: moderate_def)
    note IH = Cons.IH [OF this]
    show ?thesis using IH b1 Some x by (auto split: option.splits)
  qed
qed

section \<open>Properties\<close>

text \<open>
  Property C11. The buffer refines a queue with room: any sequence of writes, prepends and reads on a fresh buffer, whose bytes written and initial
  size come to at most \<open>2 ^ 62\<close>, reads what a queue of bytes gives, and ends in a buffer with the queue's bytes in it and as much room as the
  queue with room has in front and behind. It fails a check just when bytes are to be read or consumed that are not there, or more is prepended than
  there is room in front. A write always succeeds; in particular nothing reads or writes outside the vector, however growing,
  sliding and prepending interleave, and no size wraps around.
\<close>

theorem buffer_refines_queue:
  assumes "n + sum_list (map written ops) \<le> 2 ^ 62"
  shows "case room_run \<lparr>front = 8, queue = [], rear = n\<rparr> ops of
      None \<Rightarrow> rbind (Buffer_sized64 n) (\<lambda>b. buf_run b ops) = Inl Ensure_failed
    | Some (ss, r) \<Rightarrow> \<exists>b. rbind (Buffer_sized64 n) (\<lambda>b. buf_run b ops) = Inr (ss, b) \<and> buffer_inv b \<and>
        contents b = queue r \<and> prependable_size b = front r \<and> writable_size b = rear r"
proof -
  have n: "n \<le> 2 ^ 62" using assms by simp
  then have new: "Buffer_sized64 n = Inr (Buffer_sized n)"
    by (simp add: Buffer_sized64_def resize64_def resize_def Buffer_sized_def kDefaultPrependSize_def max_vector_def)
  have len: "length (buf (Buffer_sized n)) = n + 8" by (simp add: Buffer_sized_def kDefaultPrependSize_def)
  have m: "moderate (Buffer_sized n)" using n len buffer_inv_sized by (simp add: moderate_def)
  have r: "room_of (Buffer_sized n) = \<lparr>front = 8, queue = [], rear = n\<rparr>"
    using contents_sized [of n] by (simp add: room_of_def Buffer_sized_def prependable_size_def writable_size_def kDefaultPrependSize_def)
  have "length (buf (Buffer_sized n)) + sum_list (map written ops) \<le> 2 ^ 62 + 8" using assms len by simp
  note run = run_room [OF m this, unfolded r]
  show ?thesis unfolding new rbind_simps using run by (auto simp: room_of_def split: option.splits)
qed

definition sample_ops :: "buf_op list" where
  "sample_ops = [Op_Write [1, 2, 3], Op_ReadAsString 2, Op_Write [4, 5, 6, 7], Op_Prepend [9, 8], Op_Consume 1, Op_Write (replicate 20 0), Op_ReadAsString 4]"

theorem buffer_refines_queue_witness:
  "(\<exists>b. rbind (Buffer_sized64 4) (\<lambda>b. buf_run b sample_ops) = Inr ([[], [1, 2], [], [], [], [], [8, 3, 4, 5]], b) \<and>
     contents b = [6, 7] @ replicate 20 0) \<and>
   rbind (Buffer_sized64 4) (\<lambda>b. buf_run b [Op_Write [1], Op_Consume 2]) = Inl Ensure_failed"
proof -
  have "room_run \<lparr>front = 8, queue = [], rear = 4\<rparr> sample_ops =
      Some ([[], [1, 2], [], [], [], [], [8, 3, 4, 5]], \<lparr>front = 13, queue = [6, 7] @ replicate 20 0, rear = 0\<rparr>)" by code_simp
  moreover have "room_run \<lparr>front = 8, queue = [], rear = 4\<rparr> [Op_Write [1], Op_Consume 2] = None" by code_simp
  moreover have "4 + sum_list (map written sample_ops) \<le> 2 ^ 62" "4 + sum_list (map written [Op_Write [1], Op_Consume 2]) \<le> 2 ^ 62"
    by (simp_all add: sample_ops_def)
  ultimately show ?thesis
    using buffer_refines_queue [of 4 sample_ops] buffer_refines_queue [of 4 "[Op_Write [1], Op_Consume 2]"] by auto
qed

end
