(* ===== verification/Token_Bucket.thy ===== *)
theory Token_Bucket
  imports Prelude
begin

text \<open>
  The token-bucket rate limiter (\<open>src/token-bucket-rate-limit/ratelimit/bucket_limiter.cpp\<close>).
  Times and token counts are signed 64-bit integers; every arithmetic step of the source that can
  leave that range is checked (\<open>chk64\<close>), so signed overflow is a visible fault. The clock is a
  parameter of the operations that read it, and the two public takes are split as in the source:
  the tick is computed first, outside the mutex, and the critical section (\<open>DoTake\<close>,
  \<open>DoTakeAvailable\<close>) runs afterwards. The rate limit is proved for calls that follow each other, with the times they read on the clock; two
  calls that overlap may fail an assertion.
\<close>

section \<open>State and operations\<close>

record bucket =
  capacity :: int
  available :: int
  fill_tick :: int
  quantum :: int
  start_time :: int
  latest_tick :: int

definition Bucket_new :: "int \<Rightarrow> int \<Rightarrow> int \<Rightarrow> int \<Rightarrow> bucket res" where
  "Bucket_new cap tick quant now =
     rbind (guard (\<not> cap \<le> 0) (Thrown ''cap must be positive'')) (\<lambda>_.
     rbind (guard (\<not> (quant \<le> 0 \<or> quant > cap))
              (Thrown ''quantum must be positive and must not be greater than cap'')) (\<lambda>_.
     Inr \<lparr>capacity = cap, available = cap, fill_tick = tick, quantum = quant,
          start_time = now, latest_tick = 0\<rparr>))"

definition AdjustAvailableTokens :: "bucket \<Rightarrow> int \<Rightarrow> bucket res" where
  "AdjustAvailableTokens b current_tick =
     rbind (guard (latest_tick b \<le> current_tick) Assert_failed) (\<lambda>_.
     let last_tick = latest_tick b; b = b\<lparr>latest_tick := current_tick\<rparr> in
     if capacity b \<le> available b then Inr b
     else
       rbind (chk64 (current_tick - last_tick)) (\<lambda>elapsed.
       rbind (chk64 (elapsed * quantum b)) (\<lambda>filled_tokens.
       rbind (chk64 (available b + filled_tokens)) (\<lambda>total.
       Inr (b\<lparr>available := min total (capacity b)\<rparr>)))))"

definition DoTakeAvailable :: "bucket \<Rightarrow> int \<Rightarrow> int \<Rightarrow> (int \<times> bucket) res" where
  "DoTakeAvailable b current_ticks count =
     rbind (AdjustAvailableTokens b current_ticks) (\<lambda>b.
     if available b \<le> 0 then Inr (0, b)
     else let taken = min count (available b) in
       Inr (taken, b\<lparr>available := available b - taken\<rparr>))"

definition DoTake :: "bucket \<Rightarrow> int \<Rightarrow> int \<Rightarrow> (int \<times> bucket) res" where
  "DoTake b current_ticks count =
     rbind (AdjustAvailableTokens b current_ticks) (\<lambda>b.
     rbind (chk64 (available b - count)) (\<lambda>remain.
     if 0 \<le> remain then Inr (0, b\<lparr>available := remain\<rparr>)
     else
       rbind (chk64 (- remain)) (\<lambda>owed.
       rbind (chk64 (owed + quantum b)) (\<lambda>s.
       rbind (chk64 (s - 1)) (\<lambda>s.
       let wait_ticks = cdiv s (quantum b); b = b\<lparr>available := remain\<rparr> in
       rbind (chk64 (wait_ticks * fill_tick b)) (\<lambda>dur. Inr (dur, b)))))))"

definition ticks_since_start :: "bucket \<Rightarrow> int \<Rightarrow> int res" where
  "ticks_since_start b now =
     rbind (chk64 (now - start_time b)) (\<lambda>d.
     rbind (guard (fill_tick b \<noteq> 0) Div_by_zero) (\<lambda>_. Inr (cdiv d (fill_tick b))))"

definition Take :: "bucket \<Rightarrow> int \<Rightarrow> int \<Rightarrow> (int \<times> bucket) res" where
  "Take b now count =
     rbind (guard (0 \<le> count) Assert_failed) (\<lambda>_.
     if count \<le> 0 then Inr (0, b)
     else rbind (ticks_since_start b now) (\<lambda>t. DoTake b t count))"

definition TakeAvailable :: "bucket \<Rightarrow> int \<Rightarrow> int \<Rightarrow> (int \<times> bucket) res" where
  "TakeAvailable b now count =
     rbind (guard (0 \<le> count) Assert_failed) (\<lambda>_.
     if count \<le> 0 then Inr (0, b)
     else rbind (ticks_since_start b now) (\<lambda>t. DoTakeAvailable b t count))"

text \<open>\<open>Wait\<close> sleeps for what \<open>Take\<close> returned when it is positive; the model returns that time.\<close>

definition Wait :: "bucket \<Rightarrow> int \<Rightarrow> int \<Rightarrow> (int \<times> bucket) res" where
  "Wait b now count =
     rbind (Take b now count) (\<lambda>(dur, b). if 0 < dur then Inr (dur, b) else Inr (0, b))"

section \<open>Runs\<close>

text \<open>Calls of \<open>TakeAvailable\<close>, each with the time it reads and the tokens it asks for; what they get.\<close>

fun take_all :: "bucket \<Rightarrow> (int \<times> int) list \<Rightarrow> (int list \<times> bucket) res" where
  "take_all b [] = Inr ([], b)"
| "take_all b ((now, c) # calls) =
     rbind (TakeAvailable b now c) (\<lambda>(k, b). rbind (take_all b calls) (\<lambda>(ks, b). Inr (k # ks, b)))"

section \<open>Invariant\<close>

definition bucket_inv :: "bucket \<Rightarrow> bool" where
  "bucket_inv b \<longleftrightarrow> 0 < quantum b \<and> quantum b \<le> capacity b \<and> available b \<le> capacity b \<and>
     0 \<le> latest_tick b"

text \<open>What no operation changes, and the tokens the bucket has issued or still holds.\<close>

definition same_config :: "bucket \<Rightarrow> bucket \<Rightarrow> bool" where
  "same_config b b' \<longleftrightarrow> capacity b' = capacity b \<and> quantum b' = quantum b \<and>
     fill_tick b' = fill_tick b \<and> start_time b' = start_time b"

lemma Bucket_new_ok:
  "Bucket_new cap tick q now = Inr b \<Longrightarrow>
   bucket_inv b \<and> available b = cap \<and> capacity b = cap \<and> quantum b = q \<and> latest_tick b = 0 \<and>
   fill_tick b = tick"
  by (auto simp: Bucket_new_def bucket_inv_def fault_simps)

lemma Adjust_ok:
  assumes "bucket_inv b" and "AdjustAvailableTokens b t = Inr b'"
  shows "bucket_inv b'" and "same_config b b'" and "latest_tick b' = t" and "latest_tick b \<le> t"
    and "available b' = min (available b + (t - latest_tick b) * quantum b) (capacity b)"
proof -
  from assms(2) have t: "latest_tick b \<le> t"
    by (auto simp: AdjustAvailableTokens_def fault_simps)
  have "0 \<le> (t - latest_tick b) * quantum b"
    using t assms(1) by (simp add: bucket_inv_def)
  with assms t show "bucket_inv b'" "same_config b b'" "latest_tick b' = t"
    "available b' = min (available b + (t - latest_tick b) * quantum b) (capacity b)"
    by (auto simp: AdjustAvailableTokens_def bucket_inv_def same_config_def fault_simps Let_def
        split: if_splits)
  from t show "latest_tick b \<le> t" .
qed

lemma DoTakeAvailable_Inr:
  assumes "DoTakeAvailable b t c = Inr (k, b')"
  obtains b1 where "AdjustAvailableTokens b t = Inr b1"
    and "k = (if available b1 \<le> 0 then 0 else min c (available b1))"
    and "b' = b1\<lparr>available := available b1 - k\<rparr>"
proof -
  from assms obtain b1 where b1: "AdjustAvailableTokens b t = Inr b1"
    by (auto simp: DoTakeAvailable_def fault_simps)
  with assms show ?thesis
    by (intro that [OF b1]) (auto simp: DoTakeAvailable_def Let_def split: if_splits)
qed

lemma DoTake_Inr:
  assumes "DoTake b t c = Inr (d, b')"
  obtains b1 where "AdjustAvailableTokens b t = Inr b1"
    and "b' = b1\<lparr>available := available b1 - c\<rparr>"
    and "d = (if c \<le> available b1 then 0
              else cdiv (c - available b1 + quantum b1 - 1) (quantum b1) * fill_tick b1)"
  using assms by (auto simp: DoTake_def fault_simps Let_def split: if_splits)

text \<open>The ticks that have passed at a time of the clock.\<close>

definition ticks_at :: "int \<Rightarrow> int \<Rightarrow> int \<Rightarrow> int" where
  "ticks_at start tick now = (now - start) div tick"

text \<open>A bucket between two calls, and a time at which nothing overflows.\<close>

definition idle_bucket :: "int \<Rightarrow> int \<Rightarrow> int \<Rightarrow> int \<Rightarrow> bucket \<Rightarrow> bool" where
  "idle_bucket cap tick q start b \<longleftrightarrow> bucket_inv b \<and> 0 \<le> available b \<and> capacity b = cap \<and> quantum b = q \<and>
     fill_tick b = tick \<and> start_time b = start"

definition time_ok :: "int \<Rightarrow> int \<Rightarrow> int \<Rightarrow> int \<Rightarrow> int \<Rightarrow> bool" where
  "time_ok cap tick q start now \<longleftrightarrow> 0 < tick \<and> start \<le> now \<and> now - start < 2 ^ 63 \<and> cap + q * ticks_at start tick now < 2 ^ 63"

lemma ticks_at_mono: "0 < tick \<Longrightarrow> s \<le> t \<Longrightarrow> ticks_at start tick s \<le> ticks_at start tick t"
  by (simp add: ticks_at_def zdiv_mono1)

lemma TakeAvailable_call:
  assumes "idle_bucket cap tick q start b" and "time_ok cap tick q start now" and "latest_tick b \<le> ticks_at start tick now" and "0 < c"
  shows "\<exists>k b'. TakeAvailable b now c = Inr (k, b') \<and> idle_bucket cap tick q start b' \<and> latest_tick b' = ticks_at start tick now \<and>
    0 \<le> k \<and> k \<le> c \<and> (k < c \<longrightarrow> available b' = 0) \<and>
    k + available b' = min (available b + (ticks_at start tick now - latest_tick b) * q) cap"
proof -
  let ?t = "ticks_at start tick now"
  have b: "bucket_inv b" "0 \<le> available b" "capacity b = cap" "quantum b = q" "fill_tick b = tick" "start_time b = start"
    using assms(1) by (simp_all add: idle_bucket_def)
  have n: "0 < tick" "0 \<le> now - start" "now - start < 2 ^ 63" "cap + q * ?t < 2 ^ 63" using assms(2) by (simp_all add: time_ok_def)
  have q: "0 < q" "0 \<le> latest_tick b" "available b \<le> cap" using b(1,3,4) by (simp_all add: bucket_inv_def)
  have t: "ticks_since_start b now = Inr ?t"
    using b(5,6) n by (simp add: ticks_since_start_def chk64_def in_i64_def ticks_at_def cdiv_nonneg)
  define d where "d = (?t - latest_tick b) * q"
  have d: "?t - latest_tick b \<le> d" "d \<le> q * ?t" "0 \<le> d"
  proof -
    show "?t - latest_tick b \<le> d" unfolding d_def using q(1) assms(3) mult_left_mono [of 1 q "?t - latest_tick b"] by simp
    show "d \<le> q * ?t" using q by (simp add: d_def algebra_simps)
    show "0 \<le> d" using q(1) assms(3) by (simp add: d_def)
  qed
  have "0 < cap" using b(1,3) by (simp add: bucket_inv_def)
  then have "0 \<le> ?t - latest_tick b" "?t - latest_tick b < 2 ^ 63" "d < 2 ^ 63" "0 \<le> available b + d" "available b + d < 2 ^ 63"
    using d q(3) b(2) n(4) assms(3) by linarith+
  then have chk: "chk64 (?t - latest_tick b) = Inr (?t - latest_tick b)" "chk64 ((?t - latest_tick b) * q) = Inr ((?t - latest_tick b) * q)"
    "chk64 (available b + (?t - latest_tick b) * q) = Inr (available b + (?t - latest_tick b) * q)"
    using d(3) unfolding d_def [symmetric] by (simp_all add: chk64_def in_i64_def)
  have chk': "chk64 ((?t - latest_tick b) * quantum b) = Inr ((?t - latest_tick b) * quantum b)"
    "chk64 (available b + (?t - latest_tick b) * quantum b) = Inr (available b + (?t - latest_tick b) * quantum b)"
    unfolding b(4) by (rule chk)+
  have "\<exists>b1. AdjustAvailableTokens b ?t = Inr b1"
    unfolding AdjustAvailableTokens_def using assms(3) chk(1) chk' by (simp add: Let_def)
  then obtain b1 where b1: "AdjustAvailableTokens b ?t = Inr b1" by blast
  note A = Adjust_ok [OF b(1) b1]
  have a1: "available b1 = min (available b + (?t - latest_tick b) * q) cap" "0 \<le> available b1"
    using A(5) b q assms(3) by simp_all
  let ?k = "if available b1 \<le> 0 then 0 else min c (available b1)"
  let ?b' = "b1\<lparr>available := available b1 - ?k\<rparr>"
  have "TakeAvailable b now c = Inr (?k, ?b')"
    using assms(4) t b1 by (simp add: TakeAvailable_def DoTakeAvailable_def Let_def)
  moreover have "idle_bucket cap tick q start ?b'"
    using A(1,2) a1 b assms(4) by (auto simp: idle_bucket_def bucket_inv_def same_config_def)
  moreover have "latest_tick ?b' = ?t" using A(3) by simp
  moreover have "0 \<le> ?k" "?k \<le> c" "?k < c \<longrightarrow> available ?b' = 0" "?k + available ?b' = min (available b + (?t - latest_tick b) * q) cap"
    using a1 assms(4) by auto
  ultimately show ?thesis by blast
qed

lemma TakeAvailable_nothing: "TakeAvailable b now 0 = Inr (0, b)"
  by (simp add: TakeAvailable_def)

text \<open>
  What the bucket is to hand out: it begins full, gains a quantum a tick and never holds more than its capacity; a call gets what it asks for,
  or else all there is.
\<close>

fun grants :: "int \<Rightarrow> int \<Rightarrow> (int \<Rightarrow> int) \<Rightarrow> int \<Rightarrow> int \<Rightarrow> (int \<times> int) list \<Rightarrow> int list" where
  "grants cap q el level seen [] = []"
| "grants cap q el level seen ((t, c) # calls) =
     (if c = 0 then 0 # grants cap q el level seen calls
      else let filled = min cap (level + q * (el t - seen)); k = min c filled
        in k # grants cap q el (filled - k) (el t) calls)"

text \<open>A run from some state: what it hands out is what the bucket loses and what flows in.\<close>

definition calls_ok :: "int \<Rightarrow> int \<Rightarrow> int \<Rightarrow> int \<Rightarrow> int \<Rightarrow> (int \<times> int) list \<Rightarrow> bool" where
  "calls_ok cap tick q start now calls \<longleftrightarrow> sorted (now # map fst calls) \<and>
     (\<forall>(t, c) \<in> set calls. time_ok cap tick q start t \<and> 0 \<le> c)"

lemma calls_ok_Cons:
  "calls_ok cap tick q start now ((t, c) # calls) \<longleftrightarrow>
   now \<le> t \<and> time_ok cap tick q start t \<and> 0 \<le> c \<and> calls_ok cap tick q start t calls"
  by (auto simp: calls_ok_def)

lemma take_all_run:
  assumes "idle_bucket cap tick q start b" and "latest_tick b \<le> ticks_at start tick now" and "0 < tick" and "calls_ok cap tick q start now calls"
  shows "\<exists>ks b'. take_all b calls = Inr (ks, b') \<and> idle_bucket cap tick q start b' \<and> length ks = length calls \<and>
    ks = grants cap q (ticks_at start tick) (available b) (latest_tick b) calls \<and>
    latest_tick b' \<le> ticks_at start tick (last (now # map fst calls)) \<and>
    sum_list ks + available b' \<le> available b + q * (latest_tick b' - latest_tick b) \<and> latest_tick b \<le> latest_tick b'"
  using assms
proof (induction calls arbitrary: b now)
  case (Cons x calls)
  obtain t c where x: "x = (t, c)" by (cases x)
  have ok: "now \<le> t" "time_ok cap tick q start t" "0 \<le> c" "calls_ok cap tick q start t calls"
    using Cons.prems(4) unfolding x calls_ok_Cons by simp_all
  have le: "latest_tick b \<le> ticks_at start tick t" using Cons.prems(2) ticks_at_mono [OF Cons.prems(3) ok(1)] by (rule order_trans)
  have "\<exists>k b1. TakeAvailable b t c = Inr (k, b1) \<and> idle_bucket cap tick q start b1 \<and> latest_tick b1 \<le> ticks_at start tick t \<and>
    grants cap q (ticks_at start tick) (available b) (latest_tick b) ((t, c) # ls) =
      k # grants cap q (ticks_at start tick) (available b1) (latest_tick b1) ls \<and>
    k + available b1 \<le> available b + q * (latest_tick b1 - latest_tick b) \<and> latest_tick b \<le> latest_tick b1" for ls
  proof (cases "c = 0")
    case True
    then show ?thesis using Cons.prems(1) le by (simp add: TakeAvailable_nothing)
  next
    case False
    obtain k b1 where k: "TakeAvailable b t c = Inr (k, b1)" "idle_bucket cap tick q start b1" "latest_tick b1 = ticks_at start tick t" "0 \<le> k" "k \<le> c"
      "k < c \<longrightarrow> available b1 = 0"
      "k + available b1 = min (available b + (ticks_at start tick t - latest_tick b) * q) cap"
      using TakeAvailable_call [OF Cons.prems(1) ok(2) le, of c] ok(3) False by auto
    have filled: "min cap (available b + q * (ticks_at start tick t - latest_tick b)) = k + available b1" using k(7) by (simp add: mult.commute min.commute)
    have "min c (k + available b1) = k" using k(2,5,6) by (auto simp: idle_bucket_def)
    then have "grants cap q (ticks_at start tick) (available b) (latest_tick b) ((t, c) # ls) =
      k # grants cap q (ticks_at start tick) (available b1) (latest_tick b1) ls"
      using False filled k(3) by (simp add: Let_def)
    moreover have "k + available b1 \<le> available b + q * (latest_tick b1 - latest_tick b)" unfolding k(3,7) by (simp add: mult.commute)
    ultimately show ?thesis using le k(1-3) by auto
  qed
  then obtain k b1 where k: "TakeAvailable b t c = Inr (k, b1)" "idle_bucket cap tick q start b1" "latest_tick b1 \<le> ticks_at start tick t"
    "grants cap q (ticks_at start tick) (available b) (latest_tick b) ((t, c) # calls) =
      k # grants cap q (ticks_at start tick) (available b1) (latest_tick b1) calls"
    "k + available b1 \<le> available b + q * (latest_tick b1 - latest_tick b)" "latest_tick b \<le> latest_tick b1" by blast
  obtain ks b' where r: "take_all b1 calls = Inr (ks, b')" "idle_bucket cap tick q start b'" "length ks = length calls"
    "ks = grants cap q (ticks_at start tick) (available b1) (latest_tick b1) calls" "latest_tick b' \<le> ticks_at start tick (last (t # map fst calls))"
    "sum_list ks + available b' \<le> available b1 + q * (latest_tick b' - latest_tick b1)" "latest_tick b1 \<le> latest_tick b'"
    using Cons.IH [OF k(2,3) Cons.prems(3) ok(4)] by blast
  have "sum_list (k # ks) + available b' \<le> available b + q * (latest_tick b' - latest_tick b)"
    using k(5) r(6) by (simp add: algebra_simps)
  moreover have "take_all b (x # calls) = Inr (k # ks, b')" using k(1) r(1) x by simp
  moreover have "k # ks = grants cap q (ticks_at start tick) (available b) (latest_tick b) (x # calls)" using k(4) r(4) x by simp
  moreover have "latest_tick b' \<le> ticks_at start tick (last (now # map fst (x # calls)))" "latest_tick b \<le> latest_tick b'"
    using r(5,7) k(6) x by simp_all
  moreover have "length (k # ks) = length (x # calls)" using r(3) by simp
  ultimately show ?case using r(2) by blast
qed (auto simp: calls_ok_def)

lemma take_all_append:
  "take_all b (us @ vs) = rbind (take_all b us) (\<lambda>(ks, b). rbind (take_all b vs) (\<lambda>(ls, b). Inr (ks @ ls, b)))"
proof (induction b us rule: take_all.induct)
  case (1 b)
  then show ?case by (cases "take_all b vs") auto
next
  case (2 b now c calls)
  show ?case
  proof (cases "TakeAvailable b now c")
    case (Inr kb)
    obtain k b1 where kb: "kb = (k, b1)" by (cases kb)
    have IH: "take_all b1 (calls @ vs) = rbind (take_all b1 calls) (\<lambda>(ks, b). rbind (take_all b vs) (\<lambda>(ls, b). Inr (ks @ ls, b)))"
      using "2.IH" [OF Inr kb [symmetric]] .
    show ?thesis using Inr kb IH by (cases "take_all b1 calls") (auto simp: rbind_assoc case_prod_beta)
  qed simp
qed

lemma calls_ok_append:
  "calls_ok cap tick q start now (us @ vs) \<Longrightarrow>
   calls_ok cap tick q start now us \<and> calls_ok cap tick q start (last (now # map fst us)) vs"
proof (induction us arbitrary: now)
  case (Cons u us)
  then show ?case by (cases u) (auto simp: calls_ok_Cons)
qed (simp add: calls_ok_def)

text \<open>A window of calls: after the first one that asks for tokens, the bucket was full at best.\<close>

lemma take_all_window:
  assumes "idle_bucket cap tick q start b" and "latest_tick b \<le> ticks_at start tick now" and "0 < tick"
    and "calls_ok cap tick q start now ((t, c) # calls)" and "take_all b ((t, c) # calls) = Inr (ks, b')"
  shows "sum_list ks \<le> cap + q * (ticks_at start tick (last (t # map fst calls)) - ticks_at start tick t)"
  using assms
proof (induction calls arbitrary: b now t c ks)
  case Nil
  have ok: "now \<le> t" "time_ok cap tick q start t" "0 \<le> c" using Nil.prems(4) unfolding calls_ok_Cons by simp_all
  have le: "latest_tick b \<le> ticks_at start tick t" using Nil.prems(2) ticks_at_mono [OF Nil.prems(3) ok(1)] by (rule order_trans)
  obtain k b1 where k: "TakeAvailable b t c = Inr (k, b1)" "ks = [k]" using Nil.prems(5) by (auto simp: rbind_Inr_iff)
  show ?case
  proof (cases "c = 0")
    case True
    then show ?thesis using k Nil.prems(1) by (simp add: TakeAvailable_nothing idle_bucket_def bucket_inv_def)
  next
    case False
    then show ?thesis using TakeAvailable_call [OF Nil.prems(1) ok(2) le, of c] ok(3) k by (auto simp: idle_bucket_def)
  qed
next
  case (Cons x calls)
  obtain t' c' where x: "x = (t', c')" by (cases x)
  have ok: "now \<le> t" "time_ok cap tick q start t" "0 \<le> c" "calls_ok cap tick q start t ((t', c') # calls)"
    using Cons.prems(4) unfolding x calls_ok_Cons by simp_all
  have q: "0 < q" using Cons.prems(1) by (simp add: idle_bucket_def bucket_inv_def)
  have le: "latest_tick b \<le> ticks_at start tick t" using Cons.prems(2) ticks_at_mono [OF Cons.prems(3) ok(1)] by (rule order_trans)
  obtain k b1 ls where k: "TakeAvailable b t c = Inr (k, b1)" "take_all b1 ((t', c') # calls) = Inr (ls, b')" "ks = k # ls"
    using Cons.prems(5) unfolding x by (auto simp: rbind_Inr_iff)
  show ?case
  proof (cases "c = 0")
    case True
    then have b1: "k = 0" "b1 = b" using k(1) by (simp_all add: TakeAvailable_nothing)
    have "ticks_at start tick t \<le> ticks_at start tick t'" using ok(4) ticks_at_mono [OF Cons.prems(3)] unfolding calls_ok_Cons by blast
    then have "q * (ticks_at start tick e - ticks_at start tick t') \<le> q * (ticks_at start tick e - ticks_at start tick t)" for e
      using q by simp
    moreover have "sum_list ls \<le> cap + q * (ticks_at start tick (last (t' # map fst calls)) - ticks_at start tick t')"
      using Cons.IH [OF Cons.prems(1) le Cons.prems(3) ok(4)] k(2) b1 by simp
    ultimately have "sum_list ls \<le> cap + q * (ticks_at start tick (last (t' # map fst calls)) - ticks_at start tick t)"
      by (meson add_left_mono order_trans)
    then show ?thesis using k(3) b1 x by simp
  next
    case False
    then have b1: "idle_bucket cap tick q start b1" "latest_tick b1 = ticks_at start tick t" "k + available b1 \<le> cap"
      using TakeAvailable_call [OF Cons.prems(1) ok(2) le, of c] ok(3) k(1) by auto
    obtain ls' b'' where r: "take_all b1 ((t', c') # calls) = Inr (ls', b'')" "idle_bucket cap tick q start b''"
      "latest_tick b'' \<le> ticks_at start tick (last (t # map fst ((t', c') # calls)))"
      "sum_list ls' + available b'' \<le> available b1 + q * (latest_tick b'' - latest_tick b1)"
      using take_all_run [OF b1(1) eq_refl [OF b1(2)] Cons.prems(3) ok(4)] by blast
    have "q * (latest_tick b'' - latest_tick b1) \<le> q * (ticks_at start tick (last (t # map fst ((t', c') # calls))) - latest_tick b1)"
      using r(3) q by (intro mult_left_mono) simp_all
    moreover have "0 \<le> available b''" "ls' = ls" using r(1,2) k(2) by (simp_all add: idle_bucket_def)
    ultimately show ?thesis using r(4) b1(2,3) k(3) unfolding x by simp
  qed
qed

section \<open>Properties\<close>

text \<open>
  Property C31. The rate limit: calls of \<open>TakeAvailable\<close> that follow each other at times that do not go back never fault; each gets what it asks for or else all there is, where the bucket
  begins full and gains a quantum at each tick, up to its capacity; so in any stretch of consecutive calls the tokens handed out are at most the capacity plus one quantum for each tick of the clock, counted from
  the construction of the bucket, between the first and the last of them. (The tick is positive, no count is negative, and the
  capacity with what flows in until the last call is below \<open>2 ^ 63\<close>, as is the time that has passed.)
\<close>

theorem bucket_rate_limit:
  assumes "Bucket_new cap tick q start = Inr b0" and "calls_ok cap tick q start start calls" and "0 < tick"
  shows "\<exists>ks b. take_all b0 calls = Inr (ks, b) \<and> ks = grants cap q (\<lambda>t. (t - start) div tick) cap 0 calls \<and>
    (\<forall>us vs ws. calls = us @ vs @ ws \<and> vs \<noteq> [] \<longrightarrow>
      sum_list (take (length vs) (drop (length us) ks)) \<le>
        cap + q * ((fst (last vs) - start) div tick - (fst (hd vs) - start) div tick))"
proof -
  have i0: "idle_bucket cap tick q start b0" "latest_tick b0 \<le> ticks_at start tick start"
    using Bucket_new_ok [OF assms(1)] assms(1) by (auto simp: idle_bucket_def bucket_inv_def ticks_at_def Bucket_new_def fault_simps)
  have full: "available b0 = cap" "latest_tick b0 = 0" using Bucket_new_ok [OF assms(1)] by simp_all
  obtain ks b where r: "take_all b0 calls = Inr (ks, b)" "ks = grants cap q (ticks_at start tick) cap 0 calls"
    using take_all_run [OF i0 assms(3,2)] unfolding full by blast
  have "sum_list (take (length vs) (drop (length us) ks)) \<le>
      cap + q * (ticks_at start tick (fst (last vs)) - ticks_at start tick (fst (hd vs)))"
    if c: "calls = us @ vs @ ws" "vs \<noteq> []" for us vs ws
  proof -
    have ok: "calls_ok cap tick q start start us" "calls_ok cap tick q start (last (start # map fst us)) vs"
      using calls_ok_append [of cap tick q start start us "vs @ ws"] calls_ok_append [of cap tick q start _ vs ws] assms(2) c(1) by blast+
    obtain k1 b1 where r1: "take_all b0 us = Inr (k1, b1)" "idle_bucket cap tick q start b1" "length k1 = length us"
      "latest_tick b1 \<le> ticks_at start tick (last (start # map fst us))"
      using take_all_run [OF i0 assms(3) ok(1)] by blast
    obtain k2 b2 where r2: "take_all b1 vs = Inr (k2, b2)" "length k2 = length vs"
      using take_all_run [OF r1(2,4) assms(3) ok(2)] by blast
    obtain k3 where "ks = k1 @ k2 @ k3"
      using r(1) r1(1) r2(1) unfolding c(1) take_all_append by (auto simp: rbind_Inr_iff)
    then have ks: "take (length vs) (drop (length us) ks) = k2" using r1(3) r2(2) by simp
    obtain t c' vs' where v: "vs = (t, c') # vs'" using c(2) by (cases vs) auto
    have "last (t # map fst vs') = fst (last vs)" by (simp add: v last_map)
    then show ?thesis using take_all_window [OF r1(2,4) assms(3), of t c' vs' k2 b2] ok(2) r2(1) ks v by simp
  qed
  moreover have "ticks_at start tick = (\<lambda>t. (t - start) div tick)" by (simp add: fun_eq_iff ticks_at_def)
  ultimately show ?thesis using r by auto
qed

lemmas bucket_eval = Bucket_new_def DoTakeAvailable_def DoTake_def AdjustAvailableTokens_def
  chk64_def in_i64_def cdiv_def

definition sample_calls :: "(int \<times> int) list" where
  "sample_calls = [(1050, 8), (1110, 9), (1150, 0), (1490, 20)]"

theorem bucket_rate_limit_witness:
  "\<exists>b0 ks b. Bucket_new 10 100 3 1000 = Inr b0 \<and> take_all b0 sample_calls = Inr (ks, b) \<and> ks = [8, 5, 0, 9] \<and>
     sum_list (take 3 (drop 1 ks)) \<le> 10 + 3 * (4 - 1)"
proof -
  obtain b0 where b0: "Bucket_new 10 100 3 1000 = Inr b0" by (simp add: Bucket_new_def)
  have ok: "calls_ok 10 100 3 1000 1000 sample_calls" by (simp add: sample_calls_def calls_ok_def time_ok_def ticks_at_def)
  obtain ks b where r: "take_all b0 sample_calls = Inr (ks, b)"
    "\<forall>us vs ws. sample_calls = us @ vs @ ws \<and> vs \<noteq> [] \<longrightarrow> sum_list (take (length vs) (drop (length us) ks)) \<le>
        10 + 3 * ((fst (last vs) - 1000) div 100 - (fst (hd vs) - 1000) div 100)"
    using bucket_rate_limit [OF b0 ok] by auto
  have "ks = [8, 5, 0, 9]" using b0 r(1)
    by (auto simp: bucket_eval sample_calls_def TakeAvailable_def ticks_since_start_def Let_def)
  moreover have "sum_list (take 3 (drop 1 ks)) \<le> 10 + 3 * (4 - 1)"
    using r(2) [rule_format, of "[(1050, 8)]" "[(1110, 9), (1150, 0), (1490, 20)]" "[]"]
    by (simp add: sample_calls_def numeral_3_eq_3)
  ultimately show ?thesis using b0 r(1) by blast
qed

text \<open>
  Fact. A take that overdraws the bucket returns exactly the waiting time that repays the
  debt: after that many ticks the tokens are not negative any more, and one tick earlier they still
  are. A take that is covered returns zero and leaves the difference.
\<close>

theorem DoTake_wait_is_exact:
  assumes "bucket_inv b" and "0 < fill_tick b" and "0 \<le> c" and "DoTake b t c = Inr (d, b')"
  shows "available b' = min (available b + (t - latest_tick b) * quantum b) (capacity b) - c \<and>
    (if 0 \<le> available b' then d = 0
     else \<exists>k > 0. d = k * fill_tick b \<and> 0 \<le> available b' + k * quantum b \<and>
            available b' + (k - 1) * quantum b < 0)"
proof -
  obtain b1 where b1: "AdjustAvailableTokens b t = Inr b1" "b' = b1\<lparr>available := available b1 - c\<rparr>"
      "d = (if c \<le> available b1 then 0
            else cdiv (c - available b1 + quantum b1 - 1) (quantum b1) * fill_tick b1)"
    using assms(4) by (rule DoTake_Inr)
  note A = Adjust_ok [OF assms(1) b1(1)]
  have q: "0 < quantum b" "quantum b1 = quantum b" "fill_tick b1 = fill_tick b"
    using assms(1) A(2) by (simp_all add: bucket_inv_def same_config_def)
  show ?thesis
  proof (cases "c \<le> available b1")
    case True
    with b1 A show ?thesis by simp
  next
    case False
    define owed where "owed = c - available b1"
    define k where "k = (owed + quantum b - 1) div quantum b"
    have "0 < owed" using False by (simp add: owed_def)
    have d: "d = k * fill_tick b"
      using False b1(3) q \<open>0 < owed\<close> by (simp add: k_def owed_def cdiv_nonneg)
    define r where "r = (owed + quantum b - 1) mod quantum b"
    have r: "0 \<le> r" "r < quantum b" using q(1) by (simp_all add: r_def)
    have "owed + quantum b - 1 = k * quantum b + r" by (simp add: k_def r_def)
    then have "owed \<le> k * quantum b" "(k - 1) * quantum b < owed"
      using r by (simp_all add: left_diff_distrib)
    moreover have "0 < k"
      using \<open>owed \<le> k * quantum b\<close> \<open>0 < owed\<close> q(1) by (metis less_le_trans zero_less_mult_pos2)
    ultimately show ?thesis
      using False b1(2) A(5) d by (auto simp: owed_def)
  qed
qed

theorem DoTake_wait_is_exact_witness:
  "\<exists>b0 b'. Bucket_new 10 100 3 0 = Inr b0 \<and> DoTake b0 0 15 = Inr (200, b') \<and> available b' = -5 \<and>
     available b' + 2 * quantum b0 \<ge> 0 \<and> available b' + 1 * quantum b0 < 0"
proof -
  obtain b0 where b0: "Bucket_new 10 100 3 0 = Inr b0" by (simp add: Bucket_new_def)
  note N = Bucket_new_ok [OF b0]
  from b0 obtain b' where b': "DoTake b0 0 15 = Inr (200, b')"
    by (auto simp: bucket_eval Let_def)
  have "0 < fill_tick b0" "bucket_inv b0" using N by simp_all
  from DoTake_wait_is_exact [OF this(2,1) _ b'] N b0 b' show ?thesis by (auto simp: bucket_inv_def)
qed

text \<open>
  Fact. The tick is computed before the mutex is taken. When two callers compute their
  ticks in one order and enter the critical section in the other, the second one fails the
  assertion of \<open>AdjustAvailableTokens\<close>, whatever it asks for.
\<close>

theorem late_entry_fails_assertion:
  assumes "bucket_inv b" and "DoTakeAvailable b later c = Inr (k, b')" and "earlier < later"
  shows "DoTakeAvailable b' earlier c' = Inl Assert_failed \<and> DoTake b' earlier c' = Inl Assert_failed"
proof -
  obtain b1 where b1: "AdjustAvailableTokens b later = Inr b1"
      "b' = b1\<lparr>available := available b1 - k\<rparr>"
    using assms(2) by (blast elim: DoTakeAvailable_Inr)
  with Adjust_ok(3) [OF assms(1) b1(1)] assms(3) show ?thesis
    by (simp add: DoTakeAvailable_def DoTake_def AdjustAvailableTokens_def)
qed

theorem late_entry_fails_assertion_witness:
  "\<exists>b0 k b'. Bucket_new 10 100 3 0 = Inr b0 \<and> DoTakeAvailable b0 5 4 = Inr (k, b') \<and>
     DoTakeAvailable b' 4 1 = Inl Assert_failed"
proof -
  obtain b0 where b0: "Bucket_new 10 100 3 0 = Inr b0" by (simp add: Bucket_new_def)
  then obtain k b' where b': "DoTakeAvailable b0 5 4 = Inr (k, b')"
    by (auto simp: bucket_eval Let_def)
  have "bucket_inv b0" using Bucket_new_ok [OF b0] by simp
  from late_entry_fails_assertion [OF this b', of 4 1] b0 b' show ?thesis by auto
qed

end
