(* ===== verification/Backoff.thy ===== *)
theory Backoff
  imports Prelude
begin

text \<open>
  Retry with backoff (\<open>src/backoff-retry/backoff/backoff_policy.h\<close>, \<open>backoff.h\<close>,
  \<open>backoff_attempt.h\<close>). A duration is a signed 64-bit count of milliseconds; the retry counters
  are 32-bit words. A policy is its state and a function \<open>apply\<close>, as the class template expects;
  the random engine of the jitter policies is the parameter \<open>rnd\<close>, of which only the range is
  used. The locale \<open>delay_policy\<close> is the requirement of the template on its policy, with what the
  retry loop needs to know of the delays; it is interpreted on the five policies of the header.
\<close>

section \<open>Policies\<close>

definition duration_max :: int where
  "duration_max = 2 ^ 63 - 1"

definition constant_apply :: "unit \<Rightarrow> int \<Rightarrow> 32 word \<Rightarrow> (int \<times> unit) res" where
  "constant_apply p base done = Inr (base, p)"

record linear =
  increment :: int
  max_dur :: int

definition linear_new :: "int \<Rightarrow> linear" where
  "linear_new incr = \<lparr>increment = incr, max_dur = duration_max\<rparr>"

definition linear_new_capped :: "int \<Rightarrow> int \<Rightarrow> linear" where
  "linear_new_capped incr mx = \<lparr>increment = incr, max_dur = mx\<rparr>"

definition linear_apply :: "linear \<Rightarrow> int \<Rightarrow> 32 word \<Rightarrow> (int \<times> linear) res" where
  "linear_apply p base done =
     rbind (chk64 (uint done * increment p)) (\<lambda>x.
     rbind (chk64 (base + x)) (\<lambda>y. Inr (min y (max_dur p), p)))"

text \<open>
  \<open>1 << done_retries\<close> on a 32-bit \<open>int\<close>: exact below 31; the bit pattern of the sign bit at 31;
  undefined from 32 on.
\<close>

definition shl1 :: "32 word \<Rightarrow> int res" where
  "shl1 n = (if unat n < 31 then Inr (2 ^ unat n)
             else if unat n = 31 then Inr (- (2 ^ 31)) else Inl Bad_shift)"

definition scaled :: "int \<Rightarrow> 32 word \<Rightarrow> int \<Rightarrow> int res" where
  "scaled base done mx =
     rbind (shl1 done) (\<lambda>f. rbind (chk64 (base * f)) (\<lambda>y. Inr (min y mx)))"

text \<open>The only member of \<open>exponential\<close> is its maximum.\<close>

definition exponential_new :: int where
  "exponential_new = duration_max"

definition exponential_apply :: "int \<Rightarrow> int \<Rightarrow> 32 word \<Rightarrow> (int \<times> int) res" where
  "exponential_apply mx base done = rbind (scaled base done mx) (\<lambda>d. Inr (d, mx))"

record 'g jitter =
  engine :: 'g
  jmax_dur :: int

text \<open>
  \<open>std::uniform_int_distribution\<close> requires a non-empty range; \<open>rnd\<close> draws from it and advances
  the engine.
\<close>

type_synonym 'g rnd = "'g \<Rightarrow> int \<Rightarrow> int \<Rightarrow> int \<times> 'g"

definition draws_in_range :: "'g rnd \<Rightarrow> bool" where
  "draws_in_range rnd \<longleftrightarrow> (\<forall>g a b. a \<le> b \<longrightarrow> a \<le> fst (rnd g a b) \<and> fst (rnd g a b) \<le> b)"

lemma draws_in_rangeD:
  "draws_in_range rnd \<Longrightarrow> rnd g a b = (x, g') \<Longrightarrow> a \<le> b \<Longrightarrow> a \<le> x \<and> x \<le> b"
  by (metis draws_in_range_def fst_conv)

definition draw :: "'g rnd \<Rightarrow> 'g \<Rightarrow> int \<Rightarrow> int \<Rightarrow> (int \<times> 'g) res" where
  "draw rnd g a b = rbind (guard (a \<le> b) Assert_failed) (\<lambda>_. Inr (rnd g a b))"

definition full_jitter_apply ::
  "'g rnd \<Rightarrow> 'g jitter \<Rightarrow> int \<Rightarrow> 32 word \<Rightarrow> (int \<times> 'g jitter) res" where
  "full_jitter_apply rnd p base done =
     rbind (scaled base done (jmax_dur p)) (\<lambda>dur.
     rbind (draw rnd (engine p) 0 dur) (\<lambda>(d, g). Inr (d, p\<lparr>engine := g\<rparr>)))"

record 'g decorrelated = "'g jitter" +
  last_dur :: int

definition decorrelated_new :: "'g \<Rightarrow> int \<Rightarrow> 'g decorrelated" where
  "decorrelated_new seed mx = \<lparr>engine = seed, jmax_dur = mx, last_dur = 0\<rparr>"

definition decorrelated_apply ::
  "'g rnd \<Rightarrow> 'g decorrelated \<Rightarrow> int \<Rightarrow> 32 word \<Rightarrow> (int \<times> 'g decorrelated) res" where
  "decorrelated_apply rnd p base done =
     (let p = (if last_dur p = 0 then p\<lparr>last_dur := base\<rparr> else p) in
      rbind (chk64 (last_dur p * 3)) (\<lambda>bound.
      rbind (draw rnd (engine p) base bound) (\<lambda>(x, g).
      let final = min x (jmax_dur p) in
      Inr (final, p\<lparr>engine := g, last_dur := final\<rparr>))))"

section \<open>The backoff object\<close>

record 'p backoff =
  policy :: 'p
  base_delay :: int
  max_retries :: "32 word"
  done_retries :: "32 word"

definition backoff_new :: "int \<Rightarrow> 32 word \<Rightarrow> 'p \<Rightarrow> 'p backoff" where
  "backoff_new base retries p =
     \<lparr>policy = p, base_delay = base, max_retries = retries, done_retries = 0\<rparr>"

type_synonym 'p apply_fun = "'p \<Rightarrow> int \<Rightarrow> 32 word \<Rightarrow> (int \<times> 'p) res"

definition next_delay :: "'p apply_fun \<Rightarrow> 'p backoff \<Rightarrow> (int option \<times> 'p backoff) res" where
  "next_delay ap b =
     (if done_retries b = max_retries b then Inr (None, b)
      else rbind (ap (policy b) (base_delay b) (done_retries b)) (\<lambda>(d, p).
           Inr (Some d, b\<lparr>policy := p, done_retries := done_retries b + 1\<rparr>)))"

definition reset :: "'p backoff \<Rightarrow> 'p backoff" where
  "reset b = b\<lparr>done_retries := 0\<rparr>"

definition make_constant :: "int \<Rightarrow> 32 word \<Rightarrow> unit backoff" where
  "make_constant delay retries = backoff_new delay retries ()"

definition make_linear :: "int \<Rightarrow> 32 word \<Rightarrow> int \<Rightarrow> linear backoff" where
  "make_linear base retries incr = backoff_new base retries (linear_new incr)"

definition make_linear_capped :: "int \<Rightarrow> 32 word \<Rightarrow> int \<Rightarrow> int \<Rightarrow> linear backoff" where
  "make_linear_capped base retries incr mx = backoff_new base retries (linear_new_capped incr mx)"

definition make_exponential :: "int \<Rightarrow> 32 word \<Rightarrow> int backoff" where
  "make_exponential base retries = backoff_new base retries exponential_new"

definition make_exponential_capped :: "int \<Rightarrow> 32 word \<Rightarrow> int \<Rightarrow> int backoff" where
  "make_exponential_capped base retries mx = backoff_new base retries mx"

definition make_exponential_full_jitter :: "'g \<Rightarrow> int \<Rightarrow> 32 word \<Rightarrow> 'g jitter backoff" where
  "make_exponential_full_jitter seed base retries =
     backoff_new base retries \<lparr>engine = seed, jmax_dur = duration_max\<rparr>"

definition make_exponential_full_jitter_capped ::
  "'g \<Rightarrow> int \<Rightarrow> 32 word \<Rightarrow> int \<Rightarrow> 'g jitter backoff" where
  "make_exponential_full_jitter_capped seed base retries mx =
     backoff_new base retries \<lparr>engine = seed, jmax_dur = mx\<rparr>"

definition make_exponential_decorrelated_jitter :: "'g \<Rightarrow> int \<Rightarrow> 32 word \<Rightarrow> 'g decorrelated backoff" where
  "make_exponential_decorrelated_jitter seed base retries =
     backoff_new base retries (decorrelated_new seed duration_max)"

definition make_exponential_decorrelated_jitter_capped ::
  "'g \<Rightarrow> int \<Rightarrow> 32 word \<Rightarrow> int \<Rightarrow> 'g decorrelated backoff" where
  "make_exponential_decorrelated_jitter_capped seed base retries mx =
     backoff_new base retries (decorrelated_new seed mx)"

section \<open>The retry loop\<close>

datatype result_code = Success | Attempt_failure | Hard_error

definition ok :: "result_code \<Rightarrow> bool" where
  "ok code \<longleftrightarrow> code = Success"

text \<open>
  \<open>fn i\<close> is what the \<open>i\<close>-th call of the attempted function returns. The result carries the number
  of calls made and the delays slept through. The counter moves towards \<open>max_retries\<close> by one on
  every turn, modulo \<open>2 ^ 32\<close>, so the loop ends for every starting state.
\<close>

lemma next_delay_progress [termination_simp]:
  assumes "next_delay ap b = Inr (Some d, b')"
  shows "unat (max_retries b' - done_retries b') < unat (max_retries b - done_retries b)"
proof -
  from assms have ne: "done_retries b \<noteq> max_retries b" and b': "max_retries b' = max_retries b"
      "done_retries b' = done_retries b + 1"
    by (auto simp: next_delay_def fault_simps split: if_splits)
  from ne have "max_retries b - done_retries b \<noteq> 0" by auto
  then have "unat (max_retries b - done_retries b - 1) < unat (max_retries b - done_retries b)"
    by (simp add: unat_minus_one unat_gt_0)
  then show ?thesis by (simp add: b' algebra_simps)
qed

function attempt ::
  "'p apply_fun \<Rightarrow> (nat \<Rightarrow> result_code) \<Rightarrow> 'p backoff \<Rightarrow> nat \<Rightarrow> int list \<Rightarrow>
   (result_code \<times> nat \<times> int list) res" where
  "attempt ap fn b i slept =
     (if fn i \<noteq> Attempt_failure then Inr (fn i, Suc i, slept)
      else case next_delay ap b of
          Inl e \<Rightarrow> Inl e
        | Inr (None, b') \<Rightarrow> Inr (Attempt_failure, Suc i, slept)
        | Inr (Some d, b') \<Rightarrow> attempt ap fn b' (Suc i) (slept @ [d]))"
  by pat_completeness auto
termination
  by (relation "measure (\<lambda>(ap, fn, b, i, slept). unat (max_retries b - done_retries b))")
    (auto dest: next_delay_progress)

declare attempt.simps [simp del]

text \<open>The reference: the first of at most \<open>k + 1\<close> calls that does not fail.\<close>

fun first_settled :: "(nat \<Rightarrow> result_code) \<Rightarrow> nat \<Rightarrow> nat \<Rightarrow> result_code \<times> nat" where
  "first_settled fn i 0 = (fn i, Suc i)"
| "first_settled fn i (Suc k) =
     (if fn i \<noteq> Attempt_failure then (fn i, Suc i) else first_settled fn (Suc i) k)"

section \<open>The contract of a policy\<close>

locale delay_policy =
  fixes ap :: "'p apply_fun"
    and good :: "'p \<Rightarrow> bool"
    and base :: int
    and lo :: int
    and hi :: int
    and limit :: nat
  assumes apply_law:
    "good p \<Longrightarrow> unat n < limit \<Longrightarrow>
     \<exists>d p'. ap p base n = Inr (d, p') \<and> lo \<le> d \<and> d \<le> hi \<and> good p'"
begin

lemma next_delay_law:
  assumes "good (policy b)" and "base_delay b = base" and "unat (max_retries b) \<le> limit"
    and "done_retries b < max_retries b"
  shows "\<exists>d b'. next_delay ap b = Inr (Some d, b') \<and> lo \<le> d \<and> d \<le> hi \<and> good (policy b') \<and>
    base_delay b' = base \<and> max_retries b' = max_retries b \<and>
    unat (done_retries b') = Suc (unat (done_retries b))"
proof -
  have lt: "unat (done_retries b) < unat (max_retries b)"
    using assms(4) by (simp add: word_less_nat_alt)
  then obtain d p' where d: "ap (policy b) base (done_retries b) = Inr (d, p')" "lo \<le> d" "d \<le> hi"
      "good p'"
    using apply_law [OF assms(1), of "done_retries b"] assms(3) by auto
  have "unat (done_retries b + 1) = Suc (unat (done_retries b))"
    using lt unsigned_less [of "max_retries b", where ?'a = nat] by (simp add: unat_word_ariths)
  with d assms(2,4) show ?thesis by (auto simp: next_delay_def)
qed

lemma attempt_law:
  assumes "good (policy b)" and "base_delay b = base" and "unat (max_retries b) \<le> limit"
    and "done_retries b \<le> max_retries b" and "\<forall>d \<in> set slept. lo \<le> d \<and> d \<le> hi"
  shows "\<exists>code calls ds.
    attempt ap fn b i slept = Inr (code, calls, ds) \<and>
    (code, calls) = first_settled fn i (unat (max_retries b) - unat (done_retries b)) \<and>
    length ds + Suc i = length slept + calls \<and> (\<forall>d \<in> set ds. lo \<le> d \<and> d \<le> hi)"
  using assms
proof (induction "unat (max_retries b) - unat (done_retries b)" arbitrary: b i slept)
  case 0
  then have "done_retries b = max_retries b"
    by (simp add: word_le_nat_alt word_unat_eq_iff)
  with 0 show ?case by (cases "fn i") (auto simp: attempt.simps [of ap fn b] next_delay_def)
next
  case (Suc k)
  show ?case
  proof (cases "fn i = Attempt_failure")
    case False
    with Suc.prems Suc.hyps(2) [symmetric] show ?thesis by (simp add: attempt.simps [of ap fn b])
  next
    case True
    have "done_retries b < max_retries b" using Suc.hyps(2) by (simp add: word_less_nat_alt)
    then obtain d b' where d: "next_delay ap b = Inr (Some d, b')" "lo \<le> d" "d \<le> hi"
        "good (policy b')" "base_delay b' = base" "max_retries b' = max_retries b"
        "unat (done_retries b') = Suc (unat (done_retries b))"
      using next_delay_law [OF Suc.prems(1-3)] by blast
    have k: "k = unat (max_retries b') - unat (done_retries b')" using Suc.hyps(2) d by simp
    have "done_retries b' \<le> max_retries b'" using Suc.hyps(2) d by (simp add: word_le_nat_alt)
    from Suc.hyps(1) [OF k, where i = "Suc i" and slept = "slept @ [d]"] this d Suc.prems
    obtain code calls ds where
      "attempt ap fn b' (Suc i) (slept @ [d]) = Inr (code, calls, ds)"
      "(code, calls) = first_settled fn (Suc i) k"
      "length ds + Suc (Suc i) = Suc (length slept) + calls" "\<forall>d \<in> set ds. lo \<le> d \<and> d \<le> hi"
      using k by auto
    with True d(1) Suc.hyps(2) [symmetric] show ?thesis by (auto simp: attempt.simps [of ap fn b])
  qed
qed

end

interpretation const_policy: delay_policy constant_apply "\<lambda>_. True" base base base limit
  for base limit
  by unfold_locales (simp add: constant_apply_def)

lemma linear_apply_ok:
  assumes "0 \<le> base" and "0 \<le> increment p" and "base + 2 ^ 32 * increment p < 2 ^ 63"
  shows "linear_apply p base n = Inr (min (base + uint n * increment p) (max_dur p), p)"
proof -
  have "uint n * increment p \<le> 2 ^ 32 * increment p"
    using assms(2) unsigned_less [of n, where ?'a = int] by (intro mult_right_mono) simp_all
  moreover have "0 \<le> uint n * increment p" using assms(2) by simp
  ultimately have "in_i64 (uint n * increment p)" "in_i64 (base + uint n * increment p)"
    unfolding in_i64_def using assms by linarith+
  then show ?thesis by (simp add: linear_apply_def chk64_def)
qed

lemma linear_delay_lower: "0 \<le> incr \<Longrightarrow> min base mx \<le> base + uint n * incr"
  by (rule min.coboundedI1) simp

interpretation linear_policy: delay_policy linear_apply
  "\<lambda>p. 0 \<le> base \<and> 0 \<le> increment p \<and> base + 2 ^ 32 * increment p < 2 ^ 63 \<and> max_dur p = mx"
  base "min base mx" mx limit
  for base mx limit
  by unfold_locales (auto simp: linear_apply_ok linear_delay_lower)

lemma scaled_ok:
  assumes "0 \<le> base" and "base * 2 ^ 30 < 2 ^ 63" and "unat n < 31"
  shows "scaled base n mx = Inr (min (base * 2 ^ unat n) mx)"
proof -
  have "base * 2 ^ unat n \<le> base * 2 ^ 30"
    using assms(1,3) by (intro mult_left_mono power_increasing) simp_all
  moreover have "0 \<le> base * 2 ^ unat n" using assms(1) by simp
  ultimately have "in_i64 (base * 2 ^ unat n)"
    unfolding in_i64_def using assms(2) by linarith
  then show ?thesis using assms(3) by (simp add: scaled_def shl1_def chk64_def)
qed

lemma scaled_nonneg: "0 \<le> base \<Longrightarrow> 0 \<le> mx \<Longrightarrow> 0 \<le> min (base * 2 ^ k) (mx :: int)"
  by simp

interpretation exp_policy: delay_policy exponential_apply
  "\<lambda>p. p = mx \<and> 0 \<le> mx \<and> 0 \<le> base \<and> base * 2 ^ 30 < 2 ^ 63" base 0 mx 31
  for base mx
  by unfold_locales (auto simp: exponential_apply_def scaled_ok scaled_nonneg)

interpretation full_jitter_policy: delay_policy "full_jitter_apply rnd"
  "\<lambda>p. jmax_dur p = mx \<and> 0 \<le> mx \<and> 0 \<le> base \<and> base * 2 ^ 30 < 2 ^ 63 \<and> draws_in_range rnd"
  base 0 mx 31
  for rnd base mx
proof
  fix p :: "'a jitter" and n :: "32 word"
  assume good: "jmax_dur p = mx \<and> 0 \<le> mx \<and> 0 \<le> base \<and> base * 2 ^ 30 < 2 ^ 63 \<and> draws_in_range rnd"
    and n: "unat n < 31"
  let ?dur = "min (base * 2 ^ unat n) mx"
  obtain d g where r: "rnd (engine p) 0 ?dur = (d, g)" by (cases "rnd (engine p) 0 ?dur")
  have "0 \<le> d" "d \<le> ?dur"
    using good scaled_nonneg [of base mx "unat n"] draws_in_rangeD [where rnd = rnd, OF _ r] by simp_all
  with good n r show "\<exists>d p'. full_jitter_apply rnd p base n = Inr (d, p') \<and> 0 \<le> d \<and> d \<le> mx \<and>
      (jmax_dur p' = mx \<and> 0 \<le> mx \<and> 0 \<le> base \<and> base * 2 ^ 30 < 2 ^ 63 \<and> draws_in_range rnd)"
    by (simp add: full_jitter_apply_def scaled_ok draw_def)
qed

text \<open>The state a decorrelated policy is in before and after its first draw.\<close>

definition decorrelated_good :: "'g rnd \<Rightarrow> int \<Rightarrow> int \<Rightarrow> 'g decorrelated \<Rightarrow> bool" where
  "decorrelated_good rnd base mx p \<longleftrightarrow> jmax_dur p = mx \<and> 0 < base \<and> base \<le> mx \<and> 3 * mx < 2 ^ 63 \<and>
     draws_in_range rnd \<and> (last_dur p = 0 \<or> base \<le> last_dur p \<and> last_dur p \<le> mx)"

interpretation decorrelated_policy: delay_policy "decorrelated_apply rnd" "decorrelated_good rnd base mx"
  base base mx limit
  for rnd base mx limit
proof
  fix p :: "'a decorrelated" and n :: "32 word"
  assume good: "decorrelated_good rnd base mx p"
  let ?last = "if last_dur p = 0 then base else last_dur p"
  have last: "base \<le> ?last" "?last \<le> mx" "0 < base" "3 * mx < 2 ^ 63"
    using good by (auto simp: decorrelated_good_def)
  have fits: "in_i64 (?last * 3)" using last by (simp add: in_i64_def)
  obtain x g where r: "rnd (engine p) base (?last * 3) = (x, g)"
    by (cases "rnd (engine p) base (?last * 3)")
  have "base \<le> ?last * 3" using last by simp
  then have "base \<le> x"
    using good draws_in_rangeD [where rnd = rnd, OF _ r] by (simp add: decorrelated_good_def)
  moreover have "decorrelated_apply rnd p base n =
      Inr (min x mx, p\<lparr>engine := g, last_dur := min x mx\<rparr>)"
    using fits r \<open>base \<le> ?last * 3\<close> good
    by (cases "last_dur p = 0")
      (simp_all add: decorrelated_apply_def draw_def chk64_def decorrelated_good_def Let_def)
  ultimately show "\<exists>d p'. decorrelated_apply rnd p base n = Inr (d, p') \<and> base \<le> d \<and> d \<le> mx \<and>
      decorrelated_good rnd base mx p'"
    using good last by (auto simp: decorrelated_good_def)
qed

section \<open>Properties\<close>

text \<open>
  Property C39. Retrying with capped exponential backoff, for up to 31 retries, a base delay that is not negative and below \<open>2 ^ 33\<close>
  milliseconds (so that its product with \<open>2 ^ 30\<close> fits) and a cap that is not negative: the loop returns,
  its result is that of the first call that succeeds or fails hard among the first
  \<open>max_retries + 1\<close> calls (a plain failure if there is none), it sleeps exactly once between two
  calls, and no sleep exceeds the cap.
\<close>

theorem attempt_exponential:
  assumes "0 \<le> base" and "base * 2 ^ 30 < 2 ^ 63" and "0 \<le> mx" and "unat retries \<le> 31"
  shows "\<exists>code calls ds.
    attempt exponential_apply fn (make_exponential_capped base retries mx) 0 [] = Inr (code, calls, ds) \<and>
    (code, calls) = first_settled fn 0 (unat retries) \<and> length ds + 1 = calls \<and>
    (\<forall>d \<in> set ds. 0 \<le> d \<and> d \<le> mx)"
  using exp_policy.attempt_law [where b = "make_exponential_capped base retries mx" and i = 0
      and slept = "[]" and fn = fn and base = base and mx = mx] assms
  by (simp add: make_exponential_capped_def backoff_new_def)

theorem attempt_exponential_witness:
  "\<exists>ds. attempt exponential_apply (\<lambda>i. if i = 2 then Success else Attempt_failure)
     (make_exponential_capped 100 5 150) 0 [] = Inr (Success, 3, ds) \<and> (\<forall>d \<in> set ds. d \<le> 150)"
proof -
  have "first_settled (\<lambda>i. if i = 2 then Success else Attempt_failure) 0 (unat (5 :: 32 word)) =
      (Success, 3)"
    by code_simp
  with attempt_exponential [of 100 150 5 "\<lambda>i. if i = 2 then Success else Attempt_failure"]
  show ?thesis by fastforce
qed

text \<open>
  Fact. Retrying with decorrelated jitter, for any number of retries and any random engine
  that draws from the range it is given: the loop returns with the result of the first settled
  call, and every delay lies between the base delay and the cap.
\<close>

theorem attempt_decorrelated_jitter:
  assumes "draws_in_range rnd" and "0 < base" and "base \<le> mx" and "3 * mx < 2 ^ 63"
  shows "\<exists>code calls ds.
    attempt (decorrelated_apply rnd) fn
      (make_exponential_decorrelated_jitter_capped seed base retries mx) 0 [] = Inr (code, calls, ds) \<and>
    (code, calls) = first_settled fn 0 (unat retries) \<and> length ds + 1 = calls \<and>
    (\<forall>d \<in> set ds. base \<le> d \<and> d \<le> mx)"
  using decorrelated_policy.attempt_law [where i = 0 and slept = "[]" and fn = fn and limit = "unat retries"
      and b = "make_exponential_decorrelated_jitter_capped seed base retries mx"
      and base = base and mx = mx and rnd = rnd] assms
  by (simp add: make_exponential_decorrelated_jitter_capped_def backoff_new_def
      decorrelated_new_def decorrelated_good_def)

text \<open>An engine for the witnesses: it alternates between the ends of the range.\<close>

definition alternating :: "bool rnd" where
  "alternating g a b = (if g then (a, False) else (b, True))"

lemma alternating_in_range: "draws_in_range alternating"
  by (simp add: draws_in_range_def alternating_def)

theorem attempt_decorrelated_jitter_witness:
  "\<exists>ds. attempt (decorrelated_apply alternating) (\<lambda>i. if i = 2 then Hard_error else Attempt_failure)
     (make_exponential_decorrelated_jitter_capped False 10 5 1000) 0 [] = Inr (Hard_error, 3, ds) \<and>
     (\<forall>d \<in> set ds. 10 \<le> d \<and> d \<le> 1000)"
proof -
  have "first_settled (\<lambda>i. if i = 2 then Hard_error else Attempt_failure) 0 (unat (5 :: 32 word)) =
      (Hard_error, 3)"
    by code_simp
  with attempt_decorrelated_jitter [OF alternating_in_range, of 10 1000
      "\<lambda>i. if i = 2 then Hard_error else Attempt_failure" False 5]
  show ?thesis by fastforce
qed

text \<open>
  Fact. Exponential backoff leaves its domain after 31 retries: the thirty-second delay of a
  positive base is negative, so the sleep is skipped, and every later one shifts an \<open>int\<close> by at
  least its width.
\<close>

theorem exponential_shift_overflow:
  assumes "0 < base" and "base \<le> 2 ^ 32" and "0 \<le> mx"
  shows "(\<exists>d. exponential_apply mx base 31 = Inr (d, mx) \<and> d < 0) \<and>
    (unat n > 31 \<longrightarrow> exponential_apply mx base n = Inl Bad_shift)"
proof -
  have "base * 2147483648 \<le> 9223372036854775808" using assms(2) by simp
  then show ?thesis
    using assms(1,3)
    by (auto simp: exponential_apply_def scaled_def shl1_def chk64_def in_i64_def)
qed

theorem exponential_shift_overflow_witness:
  "\<exists>d. exponential_apply 60000 500 31 = Inr (d, 60000) \<and> d < 0"
  using exponential_shift_overflow [of 500 60000 32] by simp

text \<open>
  Fact. The bound on the base is needed: a base delay of \<open>2 ^ 33\<close> milliseconds or more overflows in the product at the latest at the
  thirty-first delay, before the cap is applied.
\<close>

theorem exponential_base_overflow:
  assumes "2 ^ 33 \<le> base"
  shows "exponential_apply mx base 30 = Inl Signed_overflow"
  using assms by (simp add: exponential_apply_def scaled_def shl1_def chk64_def in_i64_def)

theorem exponential_base_overflow_witness:
  "exponential_apply 60000 (2 ^ 33) 30 = Inl Signed_overflow"
  using exponential_base_overflow [of "2 ^ 33" 60000] by simp

text \<open>
  Fact. With a cap below a third of the base delay the decorrelated policy does not settle
  on the cap: its first draw is clipped to the cap, and the next one asks the distribution for an
  empty range.
\<close>

theorem decorrelated_small_cap_fails:
  assumes "draws_in_range rnd" and "0 < mx" and "3 * mx < base" and "3 * base < 2 ^ 63"
  shows "\<exists>p. decorrelated_apply rnd (decorrelated_new seed mx) base 0 = Inr (mx, p) \<and>
    decorrelated_apply rnd p base 1 = Inl Assert_failed"
proof -
  obtain x g where r: "rnd seed base (base * 3) = (x, g)" by (cases "rnd seed base (base * 3)")
  have "base \<le> base * 3" using assms(2,3) by simp
  then have "base \<le> fst (rnd seed base (base * 3))" using assms(1) by (simp add: draws_in_range_def)
  with r have "min x mx = mx" using assms(2,3) by simp
  with r assms show ?thesis
    by (simp add: decorrelated_apply_def decorrelated_new_def draw_def chk64_def in_i64_def Let_def)
qed

theorem decorrelated_small_cap_fails_witness:
  "\<exists>p. decorrelated_apply alternating (decorrelated_new True 30) 100 0 = Inr (30, p) \<and>
     decorrelated_apply alternating p 100 1 = Inl Assert_failed"
  using decorrelated_small_cap_fails [OF alternating_in_range, of 30 100 True] by simp

end
