(* ===== verification/Conn_Pool.thy ===== *)
theory Conn_Pool
  imports Prelude "HOL-Library.Multiset"
begin

text \<open>
  The connection pool template (\<open>src/conn-pool/conn_pool/pool.h\<close>). The record \<open>pool\<close> has the
  members of \<open>ConnPool\<close>; \<open>'c\<close> is the raw connection type of the traits. Each mutex-protected
  section is one definition, and \<open>Get\<close> and \<open>Put\<close> are their compositions; the connections that a section moves to
  \<open>to_retire\<close> are part of its result, for they are destroyed only after the mutex has been released. The clock value and the
  outcome of \<open>Traits::NewConn()\<close> are parameters. Threads interleave at the sections: \<open>pool_step\<close> is the step relation of a
  pool that is alive, together with the connections its clients hold, those being created and those being destroyed, and the
  invariant is proved for its reachable states. Running out of memory and throwing destructors are not modelled.
\<close>

section \<open>State\<close>

record 'c idle_conn =
  conn :: 'c
  created :: int
  last_active :: int

record 'c client_conn =
  raw_conn :: 'c
  raw_conn_creation :: int

record 'c pool =
  pool_capacity :: nat
  max_idle :: nat
  idle_timeout :: int
  pool_size :: nat
  idle_list :: "'c idle_conn list"

definition ConnPool_new :: "nat \<Rightarrow> nat \<Rightarrow> int \<Rightarrow> 'c pool" where
  "ConnPool_new cap max_reused timeout =
     \<lparr>pool_capacity = cap, max_idle = max_reused, idle_timeout = timeout, pool_size = 0,
      idle_list = []\<rparr>"

definition IdleConn_new :: "'c \<Rightarrow> int \<Rightarrow> int \<Rightarrow> 'c idle_conn" where
  "IdleConn_new c creation now = \<lparr>conn = c, created = creation, last_active = now\<rparr>"

definition Conn_fresh :: "'c \<Rightarrow> int \<Rightarrow> 'c client_conn" where
  "Conn_fresh c now = \<lparr>raw_conn = c, raw_conn_creation = now\<rparr>"

definition Conn_reused :: "'c idle_conn \<Rightarrow> 'c client_conn" where
  "Conn_reused idle = \<lparr>raw_conn = conn idle, raw_conn_creation = created idle\<rparr>"

text \<open>\<open>size_\<close> is unsigned: decrementing zero would wrap.\<close>

definition dec_size :: "nat \<Rightarrow> nat" where
  "dec_size n = (if n = 0 then 2 ^ 64 - 1 else n - 1)"

section \<open>Operations\<close>

text \<open>The loop of \<open>RetireTimeoutIdleConnections\<close> on the size and the idle list.\<close>

fun retire_loop :: "int \<Rightarrow> int \<Rightarrow> nat \<Rightarrow> 'c idle_conn list \<Rightarrow> 'c idle_conn list \<times> nat \<times> 'c idle_conn list" where
  "retire_loop now timeout n [] = ([], n, [])"
| "retire_loop now timeout n (c # cs) =
     (if timeout \<le> now - last_active c
      then let (to_retire, m, ds) = retire_loop now timeout (dec_size n) cs in (c # to_retire, m, ds)
      else ([], n, c # cs))"

definition RetireTimeoutIdleConnections :: "int \<Rightarrow> 'c pool \<Rightarrow> 'c idle_conn list \<times> 'c pool" where
  "RetireTimeoutIdleConnections now p =
     (let (to_retire, n, cs) = retire_loop now (idle_timeout p) (pool_size p) (idle_list p)
      in (to_retire, p\<lparr>pool_size := n, idle_list := cs\<rparr>))"

datatype 'c get_result = Reused "'c client_conn" | Create

text \<open>The critical section of \<open>Get\<close>: reuse the back of the idle list, or account for a new one.\<close>

definition Get_locked :: "'c pool \<Rightarrow> ('c get_result \<times> 'c pool) res" where
  "Get_locked p =
     (if idle_list p \<noteq> []
      then Inr (Reused (Conn_reused (last (idle_list p))), p\<lparr>idle_list := butlast (idle_list p)\<rparr>)
      else if pool_capacity p \<le> pool_size p then Inl (Thrown ''the pool is exhausted'')
      else Inr (Create, p\<lparr>pool_size := pool_size p + 1\<rparr>))"

text \<open>\<open>NewConn\<close> returns, throws what is a \<open>std::exception\<close>, or throws something else, which \<open>Get\<close> does not catch.\<close>

datatype 'c creation = New_conn 'c | Throws_std | Throws_other

definition Get :: "int \<Rightarrow> 'c creation \<Rightarrow> 'c pool \<Rightarrow> 'c client_conn res \<times> 'c pool" where
  "Get now new_conn p =
     (let p = (if 0 < idle_timeout p then snd (RetireTimeoutIdleConnections now p) else p) in
      case Get_locked p of
        Inl e \<Rightarrow> (Inl e, p)
      | Inr (Reused c, p) \<Rightarrow> (Inr c, p)
      | Inr (Create, p) \<Rightarrow>
          (case new_conn of
             New_conn c \<Rightarrow> (Inr (Conn_fresh c now), p)
           | Throws_std \<Rightarrow> (Inl (Thrown ''NewConn''), p\<lparr>pool_size := dec_size (pool_size p)\<rparr>)
           | Throws_other \<Rightarrow> (Inl (Thrown ''NewConn''), p)))"

text \<open>\<open>idle_list_.front()\<close> of an empty list is undefined. The first result is \<open>to_retire\<close>.\<close>

definition Put :: "int \<Rightarrow> 'c \<Rightarrow> int \<Rightarrow> 'c pool \<Rightarrow> ('c idle_conn option \<times> 'c pool) res" where
  "Put now c creation p =
     rbind (if length (idle_list p) = max_idle p
            then rbind (guard (idle_list p \<noteq> []) Out_of_bounds) (\<lambda>_.
              Inr (Some (hd (idle_list p)), p\<lparr>idle_list := tl (idle_list p), pool_size := dec_size (pool_size p)\<rparr>))
            else Inr (None, p)) (\<lambda>(to_retire, p).
     Inr (to_retire, p\<lparr>idle_list := idle_list p @ [IdleConn_new c creation now]\<rparr>))"

text \<open>The destructor of \<open>Conn\<close>: nothing when the pool is gone.\<close>

definition Conn_destroy :: "int \<Rightarrow> 'c client_conn \<Rightarrow> 'c pool option \<Rightarrow> ('c idle_conn option \<times> 'c pool option) res" where
  "Conn_destroy now c po =
     (case po of None \<Rightarrow> Inr (None, None)
      | Some p \<Rightarrow> rbind (Put now (raw_conn c) (raw_conn_creation c) p) (\<lambda>(r, p). Inr (r, Some p)))"

text \<open>The move assignment of \<open>Conn\<close> overwrites the raw connection of the target, which is not put back.\<close>

definition Conn_move_assign :: "'c client_conn \<Rightarrow> 'c client_conn \<Rightarrow> 'c client_conn" where
  "Conn_move_assign target other = other"

section \<open>Interleaved threads\<close>

text \<open>
  The connections held by clients, the number of calls that are inside \<open>NewConn\<close>, and the connections that have been taken off
  the idle list and not been destroyed yet. The ghost \<open>leaked\<close> counts the places in \<open>size_\<close> that are never given back: by a
  move assignment over a held connection, and by an exception from \<open>NewConn\<close> that is not a \<open>std::exception\<close>.
\<close>

record 'c pool_sys =
  pool_of :: "'c pool"
  held :: "'c client_conn list"
  creating :: nat
  retiring :: "'c idle_conn list"
  leaked :: nat

inductive pool_step :: "'c pool_sys \<Rightarrow> 'c pool_sys \<Rightarrow> bool" where
  retire: "RetireTimeoutIdleConnections now (pool_of s) = (r, p) \<Longrightarrow>
     pool_step s (s\<lparr>pool_of := p, retiring := retiring s @ r\<rparr>)"
| reuse: "Get_locked (pool_of s) = Inr (Reused c, p) \<Longrightarrow>
     pool_step s (s\<lparr>pool_of := p, held := c # held s\<rparr>)"
| begin_create: "Get_locked (pool_of s) = Inr (Create, p) \<Longrightarrow>
     pool_step s (s\<lparr>pool_of := p, creating := Suc (creating s)\<rparr>)"
| create_ok: "creating s = Suc k \<Longrightarrow>
     pool_step s (s\<lparr>creating := k, held := Conn_fresh c now # held s\<rparr>)"
| create_fail: "creating s = Suc k \<Longrightarrow>
     pool_step s (s\<lparr>creating := k,
       pool_of := (pool_of s)\<lparr>pool_size := dec_size (pool_size (pool_of s))\<rparr>\<rparr>)"
| create_fail_other: "creating s = Suc k \<Longrightarrow> pool_step s (s\<lparr>creating := k, leaked := Suc (leaked s)\<rparr>)"
| put: "held s = xs @ c # ys \<Longrightarrow> Conn_destroy now c (Some (pool_of s)) = Inr (r, Some p) \<Longrightarrow>
     pool_step s (s\<lparr>pool_of := p, held := xs @ ys, retiring := retiring s @ case_option [] (\<lambda>c. [c]) r\<rparr>)"
| move_assign: "mset (held s) = add_mset c (add_mset d (mset xs)) \<Longrightarrow>
     pool_step s (s\<lparr>held := Conn_move_assign c d # xs, leaked := Suc (leaked s)\<rparr>)"
| retired: "retiring s = xs @ c # ys \<Longrightarrow> pool_step s (s\<lparr>retiring := xs @ ys\<rparr>)"

inductive_cases pool_stepE: "pool_step s t"

inductive pool_reachable :: "nat \<Rightarrow> nat \<Rightarrow> int \<Rightarrow> 'c pool_sys \<Rightarrow> bool" for cap mx timeout where
  start: "pool_reachable cap mx timeout
    \<lparr>pool_of = ConnPool_new cap mx timeout, held = [], creating = 0, retiring = [], leaked = 0\<rparr>"
| step: "pool_reachable cap mx timeout s \<Longrightarrow> pool_step s t \<Longrightarrow> pool_reachable cap mx timeout t"

section \<open>Invariant\<close>

definition pool_inv :: "'c pool_sys \<Rightarrow> bool" where
  "pool_inv s \<longleftrightarrow> (let p = pool_of s in
     pool_size p = length (idle_list p) + length (held s) + creating s + leaked s \<and>
     pool_size p \<le> pool_capacity p \<and>
     length (idle_list p) \<le> max_idle p)"

definition same_limits :: "'c pool \<Rightarrow> 'c pool \<Rightarrow> bool" where
  "same_limits p q \<longleftrightarrow> pool_capacity q = pool_capacity p \<and> max_idle q = max_idle p \<and>
     idle_timeout q = idle_timeout p"

lemma dec_size_pos [simp]: "0 < n \<Longrightarrow> dec_size n = n - 1"
  by (simp add: dec_size_def)

lemma retire_loop_spec:
  assumes "length cs \<le> n" and "retire_loop now timeout n cs = (r, m, ds)"
  shows "r = takeWhile (\<lambda>c. timeout \<le> now - last_active c) cs \<and>
    ds = dropWhile (\<lambda>c. timeout \<le> now - last_active c) cs \<and> m + length cs = n + length ds"
  using assms
proof (induction cs arbitrary: n r)
  case (Cons c cs)
  show ?case
  proof (cases "timeout \<le> now - last_active c")
    case True
    with Cons.prems Cons.IH [of "n - 1"] show ?thesis by (auto split: prod.splits)
  next
    case False
    with Cons.prems show ?thesis by auto
  qed
qed simp

lemma retire_ok:
  fixes p :: "'c pool" and now :: int
  assumes "length (idle_list p) \<le> pool_size p" and "RetireTimeoutIdleConnections now p = (r, q)"
  shows "same_limits p q"
    and "idle_list q = dropWhile (\<lambda>c. idle_timeout p \<le> now - last_active c) (idle_list p)"
    and "r = takeWhile (\<lambda>c. idle_timeout p \<le> now - last_active c) (idle_list p)"
    and "pool_size q + length (idle_list p) = pool_size p + length (idle_list q)"
proof -
  obtain to m ds where l: "retire_loop now (idle_timeout p) (pool_size p) (idle_list p) = (to, m, ds)"
    by (cases "retire_loop now (idle_timeout p) (pool_size p) (idle_list p)")
  then have q: "q = p\<lparr>pool_size := m, idle_list := ds\<rparr>" "r = to"
    using assms(2) by (simp_all add: RetireTimeoutIdleConnections_def)
  from retire_loop_spec [OF assms(1) l] show
    "same_limits p q"
    "idle_list q = dropWhile (\<lambda>c. idle_timeout p \<le> now - last_active c) (idle_list p)"
    "r = takeWhile (\<lambda>c. idle_timeout p \<le> now - last_active c) (idle_list p)"
    "pool_size q + length (idle_list p) = pool_size p + length (idle_list q)"
    by (simp_all add: q same_limits_def)
qed

lemma Get_locked_cases:
  assumes "Get_locked p = Inr (r, q)"
  obtains (reused) cs c where "r = Reused (Conn_reused c)" "idle_list p = cs @ [c]"
      "q = p\<lparr>idle_list := cs\<rparr>"
  | (create) "r = Create" "idle_list p = []" "pool_size p < pool_capacity p"
      "q = p\<lparr>pool_size := pool_size p + 1\<rparr>"
proof (cases "idle_list p = []")
  case True
  with assms show ?thesis by (auto simp: Get_locked_def split: if_splits intro: create)
next
  case False
  with assms reused [of "last (idle_list p)" "butlast (idle_list p)"] show ?thesis
    by (auto simp: Get_locked_def)
qed

lemma Put_ok:
  assumes "0 < max_idle p" and "length (idle_list p) \<le> max_idle p"
    and "length (idle_list p) < pool_size p"
  shows "\<exists>r q. Put now c creation p = Inr (r, q) \<and> same_limits p q \<and>
    length (idle_list q) \<le> max_idle q \<and> pool_size q \<le> pool_size p \<and>
    pool_size q + length (idle_list p) + 1 = pool_size p + length (idle_list q) \<and>
    idle_list q \<noteq> [] \<and> last (idle_list q) = IdleConn_new c creation now"
proof (cases "length (idle_list p) = max_idle p")
  case True
  then have "idle_list p \<noteq> []" "0 < pool_size p" using assms by auto
  with True assms show ?thesis by (auto simp: Put_def same_limits_def)
next
  case False
  with assms show ?thesis by (auto simp: Put_def same_limits_def)
qed

lemma Put_Inr_reuse:
  assumes "Put now c creation p = Inr (r, q)" and "length (idle_list p) \<le> max_idle p"
  shows "0 < max_idle p"
proof (rule ccontr)
  assume "\<not> 0 < max_idle p"
  then have "idle_list p = []" "max_idle p = 0" using assms(2) by simp_all
  then show False using assms(1) by (simp add: Put_def)
qed

lemma length_dropWhile_le: "length (dropWhile P xs) \<le> length xs"
  by (induction xs) auto

lemma pool_step_inv:
  assumes "pool_step s t" and "pool_inv s"
  shows "pool_inv t \<and> same_limits (pool_of s) (pool_of t)"
  using assms
proof (cases rule: pool_step.cases)
  case (retire now r p)
  have "length (idle_list (pool_of s)) \<le> pool_size (pool_of s)"
    using assms(2) by (simp add: pool_inv_def Let_def)
  note R = retire_ok [OF this retire(2)]
  have "length (idle_list p) \<le> length (idle_list (pool_of s))"
    by (simp add: R(2) length_dropWhile_le)
  with R(1,4) assms(2) show ?thesis by (auto simp: retire(1) pool_inv_def Let_def same_limits_def)
next
  case (reuse c p)
  from reuse(2) assms(2) show ?thesis
    by (cases rule: Get_locked_cases) (auto simp: reuse(1) pool_inv_def same_limits_def Let_def)
next
  case (begin_create p)
  from begin_create(2) assms(2) show ?thesis
    by (cases rule: Get_locked_cases) (auto simp: begin_create(1) pool_inv_def same_limits_def Let_def)
next
  case (create_ok k c now)
  with assms(2) show ?thesis by (simp add: pool_inv_def same_limits_def Let_def)
next
  case (create_fail k)
  with assms(2) show ?thesis by (auto simp: pool_inv_def same_limits_def Let_def)
next
  case (create_fail_other k)
  with assms(2) show ?thesis by (auto simp: pool_inv_def same_limits_def Let_def)
next
  case (move_assign c d xs)
  have "length (held s) = Suc (Suc (length xs))" using move_assign(2) by (metis size_add_mset size_mset)
  with move_assign(1) assms(2) show ?thesis by (auto simp: pool_inv_def same_limits_def Let_def)
next
  case (retired xs c ys)
  with assms(2) show ?thesis by (auto simp: pool_inv_def same_limits_def Let_def)
next
  case (put xs c ys now r p)
  have pr: "Put now (raw_conn c) (raw_conn_creation c) (pool_of s) = Inr (r, p)"
    using put(3) by (auto simp: Conn_destroy_def rbind_Inr_iff)
  have "length (idle_list (pool_of s)) < pool_size (pool_of s)" and le: "length (idle_list (pool_of s)) \<le> max_idle (pool_of s)"
    using assms(2) put(2) by (simp_all add: pool_inv_def Let_def)
  from Put_ok [OF Put_Inr_reuse [OF pr le] le this(1), of now "raw_conn c" "raw_conn_creation c"] pr
  have "same_limits (pool_of s) p" "length (idle_list p) \<le> max_idle p"
      "pool_size p \<le> pool_size (pool_of s)"
      "pool_size p + length (idle_list (pool_of s)) + 1 = pool_size (pool_of s) + length (idle_list p)"
    by auto
  with put(1,2) assms(2) show ?thesis
    by (auto simp: pool_inv_def same_limits_def Let_def)
qed

lemma pool_reachable_inv:
  assumes "pool_reachable cap mx timeout s"
  shows "pool_inv s \<and> pool_capacity (pool_of s) = cap \<and> max_idle (pool_of s) = mx"
  using assms
proof (induction rule: pool_reachable.induct)
  case start
  show ?case by (simp add: pool_inv_def ConnPool_new_def)
next
  case (step s t)
  with pool_step_inv [OF step.hyps(2)] show ?case by (simp add: same_limits_def)
qed

lemma pool_can_put:
  assumes "pool_inv s" and "0 < max_idle (pool_of s)" and "c \<in> set (held s)"
  shows "\<exists>r p. Conn_destroy now c (Some (pool_of s)) = Inr (r, Some p)"
proof -
  have "length (held s) \<noteq> 0" using assms(3) by auto
  then have "length (idle_list (pool_of s)) \<le> max_idle (pool_of s)" "length (idle_list (pool_of s)) < pool_size (pool_of s)"
    using assms(1) by (simp_all add: pool_inv_def Let_def)
  from Put_ok [OF assms(2) this, of now "raw_conn c" "raw_conn_creation c"]
  obtain r q where "Put now (raw_conn c) (raw_conn_creation c) (pool_of s) = Inr (r, q)" by blast
  then show ?thesis by (simp add: Conn_destroy_def)
qed

section \<open>Properties\<close>

text \<open>
  Property C18. In every reachable state of a living pool, however its threads interleave (failing
  connection attempts, idle timeouts and move assignments of connections included), the size it keeps is the number of idle
  connections plus those held by clients plus those being created, plus the places leaked by move
  assignments over a held connection and by exceptions from \<open>NewConn\<close> that are no \<open>std::exception\<close>; and it never exceeds the
  capacity. So no more connections exist than the capacity allows, apart from those taken off the idle list that their threads are still
  destroying. No more than \<open>max_reused\<close> connections are idle, and unless \<open>max_reused\<close> is 0, every connection held can
  be returned without fault.
\<close>

theorem pool_never_exceeds_capacity:
  assumes "pool_reachable cap mx timeout s"
  shows "length (idle_list (pool_of s)) + length (held s) + creating s + leaked s = pool_size (pool_of s) \<and>
    pool_size (pool_of s) \<le> cap \<and>
    length (idle_list (pool_of s)) \<le> mx \<and>
    (0 < mx \<longrightarrow> (\<forall>now. \<forall>c \<in> set (held s). \<exists>r p. Conn_destroy now c (Some (pool_of s)) = Inr (r, Some p)))"
proof -
  have i: "pool_inv s" "pool_capacity (pool_of s) = cap" "max_idle (pool_of s) = mx" using pool_reachable_inv [OF assms] by simp_all
  then show ?thesis using pool_can_put [OF i(1)] by (auto simp: pool_inv_def Let_def)
qed

text \<open>A run: a connection is made, returned, and made anew while the one that timed out is still being destroyed.\<close>

definition busy_pool :: "nat pool_sys" where
  "busy_pool = \<lparr>pool_of = (ConnPool_new 1 1 1)\<lparr>pool_size := 1\<rparr>, held = [Conn_fresh 8 9], creating = 0,
     retiring = [IdleConn_new 7 5 6], leaked = 0\<rparr>"

lemma busy_pool_reachable: "pool_reachable 1 1 1 busy_pool"
proof -
  let ?s0 = "\<lparr>pool_of = ConnPool_new 1 1 1, held = [], creating = 0, retiring = [], leaked = 0\<rparr> :: nat pool_sys"
  let ?full = "(ConnPool_new 1 1 1)\<lparr>pool_size := 1\<rparr> :: nat pool"
  let ?s1 = "?s0\<lparr>pool_of := ?full, creating := 1\<rparr>"
  let ?s2 = "?s0\<lparr>pool_of := ?full, held := [Conn_fresh 7 5]\<rparr>"
  let ?s3 = "?s0\<lparr>pool_of := ?full\<lparr>idle_list := [IdleConn_new 7 5 6]\<rparr>\<rparr>"
  let ?s4 = "?s0\<lparr>retiring := [IdleConn_new 7 5 6]\<rparr>"
  let ?s5 = "?s0\<lparr>pool_of := ?full, creating := 1, retiring := [IdleConn_new 7 5 6]\<rparr>"
  have g: "Get_locked (ConnPool_new 1 1 1 :: nat pool) = Inr (Create, ?full)"
    by (simp add: Get_locked_def ConnPool_new_def)
  have "pool_step ?s0 ?s1" using pool_step.begin_create [of ?s0] g by simp
  moreover have "pool_step ?s1 ?s2" using pool_step.create_ok [of ?s1 0 7 5] by simp
  moreover have "pool_step ?s2 ?s3"
    using pool_step.put [of ?s2 "[]" "Conn_fresh 7 5" "[]" 6 None "?full\<lparr>idle_list := [IdleConn_new 7 5 6]\<rparr>"]
    by (simp add: Conn_destroy_def Put_def ConnPool_new_def Conn_fresh_def)
  moreover have "pool_step ?s3 ?s4"
    using pool_step.retire [of 9 ?s3 "[IdleConn_new 7 5 6]" "ConnPool_new 1 1 1"]
    by (simp add: RetireTimeoutIdleConnections_def ConnPool_new_def IdleConn_new_def)
  moreover have "pool_step ?s4 ?s5" using pool_step.begin_create [of ?s4] g by simp
  moreover have "pool_step ?s5 busy_pool" using pool_step.create_ok [of ?s5 0 8 9] by (simp add: busy_pool_def)
  ultimately show ?thesis by (meson pool_reachable.intros)
qed

theorem pool_never_exceeds_capacity_witness:
  "pool_reachable 1 1 1 busy_pool \<and> pool_size (pool_of busy_pool) = length (held busy_pool) \<and>
   (\<exists>r p. Conn_destroy 12 (Conn_fresh 8 9) (Some (pool_of busy_pool)) = Inr (r, Some p))"
  using pool_never_exceeds_capacity [OF busy_pool_reachable] busy_pool_reachable
  by (auto simp: busy_pool_def ConnPool_new_def)

text \<open>
  Fact. A pool with room for one connection can have two alive: \<open>RetireTimeoutIdleConnections\<close> counts a connection as gone
  before it destroys it, outside the mutex, and another thread may make a new one meanwhile.
\<close>

theorem retiring_exceeds_capacity:
  "\<exists>s :: nat pool_sys. pool_reachable 1 1 1 s \<and> length (held s) + length (retiring s) = 2"
  using busy_pool_reachable by (intro exI [of _ busy_pool]) (simp add: busy_pool_def)

text \<open>
  Fact. When \<open>NewConn\<close> throws what is not a \<open>std::exception\<close>, the place is never given back: each such failure makes the pool
  smaller, and one of capacity 1 is exhausted for ever with no connection at all.
\<close>

theorem other_exceptions_shrink_the_pool:
  fixes p :: "'c pool"
  assumes "idle_list p = []" and "pool_size p < pool_capacity p"
  shows "Get now Throws_other p = (Inl (Thrown ''NewConn''), p\<lparr>pool_size := pool_size p + 1\<rparr>)"
    and "Get now r ((ConnPool_new 1 mx timeout)\<lparr>pool_size := 1\<rparr>) =
      (Inl (Thrown ''the pool is exhausted''), (ConnPool_new 1 mx timeout)\<lparr>pool_size := 1\<rparr>)"
  using assms by (simp_all add: Get_def Get_locked_def ConnPool_new_def RetireTimeoutIdleConnections_def Let_def)

theorem other_exceptions_shrink_the_pool_witness:
  "Get 5 Throws_other (ConnPool_new 1 1 0 :: nat pool) = (Inl (Thrown ''NewConn''), (ConnPool_new 1 1 0)\<lparr>pool_size := 1\<rparr>)"
  using other_exceptions_shrink_the_pool(1) [of "ConnPool_new 1 1 0 :: nat pool" 5] by (simp add: ConnPool_new_def)

text \<open>
  Fact. What \<open>Get\<close> returns: with connections left after retiring, the most recently used
  one, with its creation time and without touching the size; otherwise the exhaustion error when
  the size has reached the capacity; otherwise a fresh connection, one more in size, or, when
  creating it throws a \<open>std::exception\<close>, the error with the size as it was.
\<close>

theorem Get_spec:
  fixes p :: "'c pool" and now :: int
  assumes "length (idle_list p) \<le> pool_size p"
  defines "p1 \<equiv> (if 0 < idle_timeout p then snd (RetireTimeoutIdleConnections now p) else p)"
  shows "Get now new_conn p =
    (if idle_list p1 \<noteq> []
     then (Inr (Conn_reused (last (idle_list p1))), p1\<lparr>idle_list := butlast (idle_list p1)\<rparr>)
     else if pool_capacity p \<le> pool_size p1 then (Inl (Thrown ''the pool is exhausted''), p1)
     else case new_conn of
       New_conn c \<Rightarrow> (Inr (Conn_fresh c now), p1\<lparr>pool_size := pool_size p1 + 1\<rparr>)
     | Throws_std \<Rightarrow> (Inl (Thrown ''NewConn''), p1)
     | Throws_other \<Rightarrow> (Inl (Thrown ''NewConn''), p1\<lparr>pool_size := pool_size p1 + 1\<rparr>))"
proof -
  obtain r q where q: "RetireTimeoutIdleConnections now p = (r, q)" by fastforce
  have "pool_capacity p1 = pool_capacity p"
    using retire_ok(1) [OF assms(1) q] by (simp add: p1_def same_limits_def q)
  then show ?thesis
    by (auto simp: Get_def Get_locked_def p1_def [symmetric] split: creation.splits)
qed

theorem Get_spec_witness:
  "fst (Get 100 Throws_std \<lparr>pool_capacity = 2, max_idle = 2, idle_timeout = 50, pool_size = 2,
     idle_list = [IdleConn_new (1 :: nat) 0 10, IdleConn_new 2 7 80]\<rparr>)
   = Inr \<lparr>raw_conn = 2, raw_conn_creation = 7\<rparr>"
  by (subst Get_spec)
    (simp_all add: RetireTimeoutIdleConnections_def IdleConn_new_def Conn_reused_def)

text \<open>
  Fact. Retiring is exact: when the idle list is in the order of last use, which it is as
  long as the clock does not go back, the connections left are those that have not timed out, those retired are the others, and
  the size drops by their number.
\<close>

theorem retire_removes_exactly_the_expired:
  assumes "sorted_wrt (\<lambda>a b. last_active a \<le> last_active b) (idle_list p)"
    and "length (idle_list p) \<le> pool_size p" and "RetireTimeoutIdleConnections now p = (r, q)"
  shows "idle_list q = filter (\<lambda>c. now - last_active c < idle_timeout p) (idle_list p) \<and>
    r = filter (\<lambda>c. idle_timeout p \<le> now - last_active c) (idle_list p) \<and>
    pool_size q = pool_size p - length r"
proof -
  let ?old = "\<lambda>c. idle_timeout p \<le> now - last_active c"
  have drop: "dropWhile ?old cs = filter (\<lambda>c. \<not> ?old c) cs \<and> takeWhile ?old cs = filter ?old cs"
    if "sorted_wrt (\<lambda>a b. last_active a \<le> last_active b) cs" for cs :: "'a idle_conn list"
    using that
  proof (induction cs)
    case (Cons c cs)
    then show ?case by (cases "?old c") (force intro!: filter_True [symmetric] filter_False [symmetric])+
  qed simp
  have "length (filter ?old (idle_list p)) + length (filter (\<lambda>c. \<not> ?old c) (idle_list p)) =
      length (idle_list p)"
    by (rule sum_length_filter_compl)
  with retire_ok [OF assms(2,3)] drop [OF assms(1)] show ?thesis
    by (simp add: not_le)
qed

theorem retire_removes_exactly_the_expired_witness:
  "\<exists>r q. RetireTimeoutIdleConnections 100 \<lparr>pool_capacity = 4, max_idle = 4, idle_timeout = 50,
     pool_size = 3, idle_list = [IdleConn_new (1 :: nat) 0 10, IdleConn_new 2 7 80]\<rparr> = (r, q) \<and>
   idle_list q = [IdleConn_new 2 7 80] \<and> r = [IdleConn_new 1 0 10]"
proof -
  let ?p = "\<lparr>pool_capacity = 4, max_idle = 4, idle_timeout = 50, pool_size = 3,
     idle_list = [IdleConn_new (1 :: nat) 0 10, IdleConn_new 2 7 80]\<rparr>"
  obtain r q where q: "RetireTimeoutIdleConnections 100 ?p = (r, q)" by fastforce
  have "sorted_wrt (\<lambda>a b. last_active a \<le> last_active b) (idle_list ?p)" "length (idle_list ?p) \<le> pool_size ?p"
    by (simp_all add: IdleConn_new_def)
  from retire_removes_exactly_the_expired [OF this q] q show ?thesis by (simp add: IdleConn_new_def)
qed

text \<open>
  Fact. A pool made with \<open>max_reused = 0\<close> cannot take a connection back: returning one reads
  the front of an empty list.
\<close>

theorem Put_without_reuse_is_undefined:
  "Put now c creation (ConnPool_new cap 0 timeout) = Inl Out_of_bounds"
  by (simp add: Put_def ConnPool_new_def)

end
