(* ===== verification/Dictionary.thy ===== *)
theory Dictionary
  imports Prelude "HOL-Library.Sublist"
begin

text \<open>
  What the two dictionary projects share: the alphabet class (\<open>src/TernarySearchTree/src/alphabet.cpp\<close>,
  repeated in \<open>src/TrieFoDict/src/alphabet.cpp\<close>) and the contract of a dictionary of words. The
  locale \<open>word_dictionary\<close> states what \<open>Insert\<close>, \<open>Contains\<close> and \<open>Search\<close> promise each other; its
  lemmas give the behaviour of a dictionary built from a list of words. Both trees interpret it.
\<close>

section \<open>The alphabet\<close>

definition kAlphabet :: string where
  "kAlphabet = ''abcdefghijklmnopqrstuvwxyz-''"

text \<open>\<open>static_cast<size_t>(-1)\<close> on a 64-bit machine.\<close>

definition npos :: nat where
  "npos = 2 ^ 64 - 1"

definition nul :: char where
  "nul = CHR 0x00"

text \<open>\<open>strchr\<close> also finds the terminating null character, at the position after the last one.\<close>

fun strchr :: "string \<Rightarrow> char \<Rightarrow> nat option" where
  "strchr [] ch = (if ch = nul then Some 0 else None)"
| "strchr (c # cs) ch = (if c = ch then Some 0 else map_option Suc (strchr cs ch))"

definition alphabet_length :: nat where
  "alphabet_length = length kAlphabet"

definition GetCharacter :: "nat \<Rightarrow> char res" where
  "GetCharacter index =
     rbind (guard (index < alphabet_length) Assert_failed) (\<lambda>_. Inr (kAlphabet ! index))"

definition GetCharacterIndex :: "char \<Rightarrow> nat" where
  "GetCharacterIndex ch = (case strchr kAlphabet ch of None \<Rightarrow> npos | Some i \<Rightarrow> i)"

text \<open>The words a dictionary accepts.\<close>

definition valid_word :: "string \<Rightarrow> bool" where
  "valid_word w \<longleftrightarrow> set w \<subseteq> set kAlphabet"

lemma strchr_Some_iff:
  "ch \<noteq> nul \<Longrightarrow> strchr cs ch = Some i \<Longrightarrow> i < length cs \<and> cs ! i = ch"
  by (induction cs arbitrary: i) (auto split: if_splits)

lemma strchr_None_iff: "strchr cs ch = None \<longleftrightarrow> ch \<notin> set cs \<and> ch \<noteq> nul"
  by (induction cs) auto

lemma strchr_nul: "nul \<notin> set cs \<Longrightarrow> strchr cs nul = Some (length cs)"
  by (induction cs) auto

lemma alphabet_length_eq [simp]: "alphabet_length = 27"
  by (simp add: alphabet_length_def kAlphabet_def)

lemma length_kAlphabet [simp]: "length kAlphabet = 27"
  by (simp add: kAlphabet_def)

lemma nul_notin_kAlphabet [simp]: "nul \<notin> set kAlphabet"
  by (simp add: kAlphabet_def nul_def)

lemma distinct_kAlphabet: "distinct kAlphabet"
  by (simp add: kAlphabet_def)

lemma index_member:
  assumes "ch \<in> set kAlphabet"
  shows "GetCharacterIndex ch < 27" and "kAlphabet ! GetCharacterIndex ch = ch"
    and "GetCharacterIndex ch \<noteq> npos"
proof -
  from assms have "ch \<noteq> nul" by auto
  with assms obtain i where "strchr kAlphabet ch = Some i" using strchr_None_iff by fastforce
  with strchr_Some_iff [OF \<open>ch \<noteq> nul\<close> this]
  show "GetCharacterIndex ch < 27" "kAlphabet ! GetCharacterIndex ch = ch"
    "GetCharacterIndex ch \<noteq> npos"
    by (simp_all add: GetCharacterIndex_def npos_def)
qed

lemma index_not_member:
  "ch \<notin> set kAlphabet \<Longrightarrow> ch \<noteq> nul \<Longrightarrow> GetCharacterIndex ch = npos"
  by (simp add: GetCharacterIndex_def strchr_None_iff [THEN iffD2])

lemma index_nul: "GetCharacterIndex nul = 27"
  by (simp add: GetCharacterIndex_def strchr_nul)

lemma index_npos_iff: "ch \<noteq> nul \<Longrightarrow> GetCharacterIndex ch = npos \<longleftrightarrow> ch \<notin> set kAlphabet"
  using index_member(3) index_not_member by blast

lemma index_inject:
  assumes "ch \<noteq> nul" "ch' \<noteq> nul" "GetCharacterIndex ch = GetCharacterIndex ch'"
    and "GetCharacterIndex ch \<noteq> npos"
  shows "ch = ch'"
  using assms index_member(2) index_npos_iff by metis

lemma index_of_nth: "i < 27 \<Longrightarrow> GetCharacterIndex (kAlphabet ! i) = i"
  using index_member(1,2) [of "kAlphabet ! i"] distinct_kAlphabet
  by (simp add: nth_eq_iff_index_eq)

section \<open>The contract of a dictionary\<close>

locale word_dictionary =
  fixes inv :: "'t \<Rightarrow> bool"
    and new :: 't
    and insert :: "'t \<Rightarrow> string \<Rightarrow> 't \<times> fault option"
    and contains :: "'t \<Rightarrow> string \<Rightarrow> bool res"
    and search :: "'t \<Rightarrow> string \<Rightarrow> string list res"
    and words :: "'t \<Rightarrow> string set"
  assumes new_law: "inv new" "words new = {}"
    and valid_law: "inv t \<Longrightarrow> w \<in> words t \<Longrightarrow> valid_word w"
    and insert_law: "inv t \<Longrightarrow> nul \<notin> set w \<Longrightarrow> \<exists>t'.
        insert t w = (t', if valid_word w then None else snd (insert t w)) \<and>
        (valid_word w \<longleftrightarrow> snd (insert t w) = None) \<and> inv t' \<and>
        words t' = (if valid_word w then words t \<union> {w} else words t)"
    and contains_law: "inv t \<Longrightarrow> nul \<notin> set w \<Longrightarrow> contains t w = Inr (w \<in> words t)"
    and search_law: "inv t \<Longrightarrow> nul \<notin> set p \<Longrightarrow>
        \<exists>ws. search t p = Inr ws \<and> distinct ws \<and> set ws = {w \<in> words t. prefix p w}"
begin

text \<open>Inserting a list of words, going on after a rejected one.\<close>

definition insert_all :: "'t \<Rightarrow> string list \<Rightarrow> 't" where
  "insert_all t ws = foldl (\<lambda>t w. fst (insert t w)) t ws"

lemma insert_all_law:
  "inv t \<Longrightarrow> \<forall>w \<in> set ws. nul \<notin> set w \<Longrightarrow>
   inv (insert_all t ws) \<and> words (insert_all t ws) = words t \<union> {w \<in> set ws. valid_word w}"
proof (induction ws arbitrary: t)
  case Nil
  then show ?case by (simp add: insert_all_def)
next
  case (Cons w ws)
  have step: "inv (fst (insert t w))"
      "words (fst (insert t w)) = (if valid_word w then words t \<union> {w} else words t)"
    using insert_law [OF Cons.prems(1), of w] Cons.prems(2) by auto
  from Cons.IH [OF step(1)] step(2) Cons.prems(2) show ?case by (auto simp: insert_all_def)
qed

lemma built_contains:
  assumes "\<forall>w \<in> set ws. nul \<notin> set w" and "nul \<notin> set v"
  shows "contains (insert_all new ws) v = Inr (v \<in> set ws \<and> valid_word v)"
  using insert_all_law [OF new_law(1) assms(1)] contains_law assms(2) new_law(2) by auto

lemma built_search:
  assumes "\<forall>w \<in> set ws. nul \<notin> set w" and "nul \<notin> set p"
  shows "\<exists>rs. search (insert_all new ws) p = Inr rs \<and> distinct rs \<and>
    set rs = {w \<in> set ws. valid_word w \<and> prefix p w}"
  using insert_all_law [OF new_law(1) assms(1)] search_law [OF _ assms(2)] new_law(2) by fastforce

end

end
