(* ===== verification/Ternary_Tree.thy ===== *)
theory Ternary_Tree
  imports Dictionary
begin

text \<open>
  The ternary search tree (\<open>src/TernarySearchTree/src/ternary_search_tree.cpp\<close>). A \<open>Node*\<close> is a
  value of the datatype \<open>tnode\<close>: the tree owns its nodes and never shares them, so a path update
  is a new tree. \<open>Insert\<close> throws in the middle of a word that has an illegal character, after it
  has created the nodes of the legal prefix; the model returns the tree it leaves behind together
  with the exception.
\<close>

section \<open>Nodes and operations\<close>

datatype tnode =
    Null
  | Node (char_index: nat) (end_word: bool) (kLeft: tnode) (kMiddle: tnode) (kRight: tnode)

definition new_node :: "nat \<Rightarrow> tnode" where
  "new_node index = Node index False Null Null Null"

text \<open>The sentinel root of \<open>TernaryTree\<close>.\<close>

definition TernaryTree_new :: tnode where
  "TernaryTree_new = new_node npos"

text \<open>
  \<open>insert_at\<close> is the outer loop at a node that matches the characters read so far; \<open>descend\<close> is
  the inner loop with \<open>TouchNodeChild\<close>, which creates the missing child on the way.
\<close>

function (sequential) insert_at :: "string \<Rightarrow> tnode \<Rightarrow> tnode \<times> fault option"
  and descend :: "nat \<Rightarrow> string \<Rightarrow> tnode \<Rightarrow> tnode \<times> fault option" where
  "insert_at w Null = (Null, Some Null_deref)"
| "insert_at [] (Node c e l m r) = (Node c True l m r, None)"
| "insert_at (ch # w) (Node c e l m r) =
     (let index = GetCharacterIndex ch in
      if index = npos then (Node c e l m r, Some (Thrown ''word contains invalid character''))
      else let (m', x) = descend index w m in (Node c e l m' r, x))"
| "descend index w Null = insert_at w (new_node index)"
| "descend index w (Node c e l m r) =
     (if index \<noteq> c then
        if index < c then let (l', x) = descend index w l in (Node c e l' m r, x)
        else let (r', x) = descend index w r in (Node c e l m r', x)
      else insert_at w (Node c e l m r))"
  by pat_completeness auto
termination
  by (relation "measures [\<lambda>a. case a of Inl (w, n) \<Rightarrow> length w | Inr (i, w, n) \<Rightarrow> length w,
        \<lambda>a. case a of Inl (w, n) \<Rightarrow> 0 | Inr (i, w, n) \<Rightarrow> Suc (size n)]") auto

definition Insert :: "tnode \<Rightarrow> string \<Rightarrow> tnode \<times> fault option" where
  "Insert root word = insert_at word root"

text \<open>The inner and the outer loop shared by \<open>Contains\<close> and \<open>Search\<close>.\<close>

fun seek :: "nat \<Rightarrow> tnode \<Rightarrow> tnode option" where
  "seek index Null = None"
| "seek index (Node c e l m r) =
     (if index \<noteq> c then if index < c then seek index l else seek index r
      else Some (Node c e l m r))"

fun walk :: "string \<Rightarrow> tnode \<Rightarrow> tnode option" where
  "walk [] node = Some node"
| "walk (ch # w) node =
     (let index = GetCharacterIndex ch in
      if index = npos then None
      else case seek index (kMiddle node) of None \<Rightarrow> None | Some next_node \<Rightarrow> walk w next_node)"

definition Contains :: "tnode \<Rightarrow> string \<Rightarrow> bool" where
  "Contains root word = (case walk word root of None \<Rightarrow> False | Some node \<Rightarrow> end_word node)"

fun SearchWord :: "tnode \<Rightarrow> string list \<Rightarrow> string \<Rightarrow> string \<Rightarrow> string list res" where
  "SearchWord Null words seq pre = Inr words"
| "SearchWord (Node c e l m r) words seq pre =
     rbind (GetCharacter c) (\<lambda>ch.
     let seq1 = seq @ [ch]; words = (if e then words @ [pre @ seq1] else words) in
     rbind (SearchWord m words seq1 pre) (\<lambda>words.
     rbind (SearchWord l words seq pre) (\<lambda>words.
     SearchWord r words seq pre)))"

definition Search :: "tnode \<Rightarrow> string \<Rightarrow> string list res" where
  "Search root pre =
     (case walk pre root of
        None \<Rightarrow> Inr []
      | Some node \<Rightarrow>
          let words = (if end_word node then [pre] else []) in
          SearchWord (kMiddle node) words [] pre)"

section \<open>Invariant and abstraction\<close>

text \<open>The characters a chain of left and right children offers at one position of a word.\<close>

fun level :: "tnode \<Rightarrow> nat set" where
  "level Null = {}"
| "level (Node c e l m r) = {c} \<union> level l \<union> level r"

fun tst :: "tnode \<Rightarrow> bool" where
  "tst Null = True"
| "tst (Node c e l m r) \<longleftrightarrow> c < 27 \<and> (\<forall>x \<in> level l. x < c) \<and> (\<forall>x \<in> level r. c < x) \<and>
     tst l \<and> tst m \<and> tst r"

definition tst_inv :: "tnode \<Rightarrow> bool" where
  "tst_inv root \<longleftrightarrow> (\<exists>e m. root = Node npos e Null m Null \<and> tst m)"

definition tst_words :: "tnode \<Rightarrow> string set" where
  "tst_words root = {w. valid_word w \<and> Contains root w}"

text \<open>Whether a word continues from a node, and from a level with its first index given.\<close>

definition ends :: "string \<Rightarrow> tnode \<Rightarrow> bool" where
  "ends w n \<longleftrightarrow> (case walk w n of None \<Rightarrow> False | Some m \<Rightarrow> end_word m)"

definition ends_level :: "nat \<Rightarrow> string \<Rightarrow> tnode \<Rightarrow> bool" where
  "ends_level i w n \<longleftrightarrow> (case seek i n of None \<Rightarrow> False | Some m \<Rightarrow> ends w m)"

lemma ends_Nil [simp]: "ends [] n = end_word n"
  by (simp add: ends_def)

lemma ends_Cons:
  "ends (ch # w) n \<longleftrightarrow>
   GetCharacterIndex ch \<noteq> npos \<and> ends_level (GetCharacterIndex ch) w (kMiddle n)"
  by (auto simp: ends_def ends_level_def Let_def split: option.splits)

lemma ends_level_simps [simp]:
  "ends_level i w Null = False"
  "ends_level i w (Node c e l m r) =
     (if i \<noteq> c then if i < c then ends_level i w l else ends_level i w r
      else ends w (Node c e l m r))"
  by (simp_all add: ends_level_def)

lemma ends_sides: "ends w (Node c e l m r) = ends w (Node c e l' m r')"
  by (cases w) (simp_all add: ends_Cons)

lemma Contains_ends: "Contains root w = ends w root"
  by (simp add: Contains_def ends_def)

lemma new_node_not_Null [simp]: "new_node i \<noteq> Null"
  by (simp add: new_node_def)

lemma ends_new_node [simp]: "ends w (new_node i) = False"
  by (cases w) (simp_all add: new_node_def ends_Cons)

section \<open>Insertion\<close>

lemma insert_at_error:
  "n \<noteq> Null \<Longrightarrow> nul \<notin> set w \<Longrightarrow> snd (insert_at w n) = None \<longleftrightarrow> valid_word w"
  "nul \<notin> set w \<Longrightarrow> snd (descend i w n) = None \<longleftrightarrow> valid_word w"
  by (induction w n and i w n rule: insert_at_descend.induct)
    (auto simp: Let_def valid_word_def index_npos_iff new_node_def split: prod.splits)

lemma insert_at_shape:
  "insert_at w (Node c e l m r) = (n', x) \<Longrightarrow>
   \<exists>e' m'. n' = Node c e' l m' r \<and> (w \<noteq> [] \<longrightarrow> e' = e)"
  by (cases w) (auto simp: Let_def split: if_splits prod.splits)

lemma insert_at_ends:
  "n \<noteq> Null \<Longrightarrow> nul \<notin> set w \<Longrightarrow> nul \<notin> set v \<Longrightarrow>
   ends v (fst (insert_at w n)) \<longleftrightarrow> ends v n \<or> (snd (insert_at w n) = None \<and> v = w)"
  "nul \<notin> set w \<Longrightarrow> nul \<notin> set v \<Longrightarrow> i \<noteq> npos \<Longrightarrow>
   ends_level j v (fst (descend i w n)) \<longleftrightarrow>
   ends_level j v n \<or> (snd (descend i w n) = None \<and> j = i \<and> v = w)"
proof (induction w n and i w n arbitrary: v and j v rule: insert_at_descend.induct)
  case (1 w)
  then show ?case by simp
next
  case (2 c e l m r)
  then show ?case by (cases v) (auto simp: ends_Cons)
next
  case (3 ch w c e l m r)
  show ?case
  proof (cases "GetCharacterIndex ch = npos")
    case True
    then show ?thesis by simp
  next
    case False
    note IH = "3.IH" [OF refl False]
    obtain m' x where d: "descend (GetCharacterIndex ch) w m = (m', x)" by fastforce
    show ?thesis
    proof (cases v)
      case Nil
      with False d show ?thesis by simp
    next
      case (Cons a v')
      have "a \<noteq> nul" "ch \<noteq> nul" "nul \<notin> set w" "nul \<notin> set v'" using "3.prems" Cons by auto
      with False d Cons IH [of v' "GetCharacterIndex a"] show ?thesis
        by (auto simp: ends_Cons dest: index_inject)
    qed
  qed
next
  case (4 index w)
  obtain n' x where i: "insert_at w (new_node index) = (n', x)" by fastforce
  then obtain e' m' where n': "n' = Node index e' Null m' Null"
    using insert_at_shape [of w index False Null Null Null n' x]
    by (auto simp: new_node_def)
  have "ends v n' \<longleftrightarrow> x = None \<and> v = w"
    using "4.IH" [OF new_node_not_Null "4.prems"(1,2)] i by simp
  with i n' show ?case by simp
next
  case (5 index w c e l m r)
  obtain l' x where dl: "descend index w l = (l', x)" by fastforce
  obtain r' y where dr: "descend index w r = (r', y)" by fastforce
  obtain n' z where di: "insert_at w (Node c e l m r) = (n', z)" by fastforce
  consider "index < c" | "c < index" | "index = c" by linarith
  then show ?case
  proof cases
    case 1
    with 5 dl ends_sides [of v c e l' m r l r] show ?thesis by auto
  next
    case 2
    with 5 dr ends_sides [of v c e l m r' l r] show ?thesis by auto
  next
    case 3
    with 5 di insert_at_shape [OF di] show ?thesis by auto
  qed
qed

lemma insert_at_tst:
  "nul \<notin> set w \<Longrightarrow> tst (kMiddle n) \<Longrightarrow> n \<noteq> Null \<Longrightarrow> tst (kMiddle (fst (insert_at w n)))"
  "nul \<notin> set w \<Longrightarrow> tst n \<Longrightarrow> i < 27 \<Longrightarrow>
   tst (fst (descend i w n)) \<and> level (fst (descend i w n)) = {i} \<union> level n"
proof (induction w n and i w n rule: insert_at_descend.induct)
  case (1 w)
  then show ?case by simp
next
  case (2 c e l m r)
  then show ?case by simp
next
  case (3 ch w c e l m r)
  show ?case
  proof (cases "GetCharacterIndex ch = npos")
    case True
    with 3 show ?thesis by simp
  next
    case False
    then have "GetCharacterIndex ch < 27"
      using "3.prems"(1) index_member(1) index_npos_iff by fastforce
    with "3.IH" [OF refl False] "3.prems" False show ?thesis
      by (cases "descend (GetCharacterIndex ch) w m") simp
  qed
next
  case (4 index w)
  obtain n' x where i: "insert_at w (new_node index) = (n', x)" by fastforce
  then obtain e' m' where n': "n' = Node index e' Null m' Null"
    using insert_at_shape [of w index False Null Null Null n' x] by (auto simp: new_node_def)
  with 4 i show ?case by (simp add: new_node_def)
next
  case (5 index w c e l m r)
  obtain n' z where di: "insert_at w (Node c e l m r) = (n', z)" by fastforce
  consider "index < c" | "c < index" | "index = c" by linarith
  then show ?case
  proof cases
    case 1
    with 5 show ?thesis by (cases "descend index w l") auto
  next
    case 2
    with 5 show ?thesis by (cases "descend index w r") auto
  next
    case 3
    with 5 di insert_at_shape [OF di] show ?thesis by auto
  qed
qed

lemma Insert_inv:
  assumes "tst_inv root" and "nul \<notin> set w"
  shows "tst_inv (fst (Insert root w))"
proof -
  from assms(1) obtain e m where root: "root = Node npos e Null m Null" "tst m"
    by (auto simp: tst_inv_def)
  obtain n' x where i: "insert_at w root = (n', x)" by fastforce
  with insert_at_shape [of w npos e Null m Null] root obtain e' m' where
    "n' = Node npos e' Null m' Null" by auto
  with insert_at_tst(1) [OF assms(2), of root] root i show ?thesis
    by (simp add: Insert_def tst_inv_def)
qed

lemma Insert_Contains:
  assumes "tst_inv root" and "nul \<notin> set w" and "nul \<notin> set v"
  shows "Contains (fst (Insert root w)) v \<longleftrightarrow> Contains root v \<or> (valid_word w \<and> v = w)"
  using insert_at_ends(1) [OF _ assms(2,3)] insert_at_error(1) [OF _ assms(2)] assms(1)
  by (auto simp: Contains_ends Insert_def tst_inv_def)

section \<open>Enumeration\<close>

text \<open>The words of a level in the order in which \<open>SearchWord\<close> meets them.\<close>

fun level_words :: "tnode \<Rightarrow> string list" where
  "level_words Null = []"
| "level_words (Node c e l m r) =
     (if e then [[kAlphabet ! c]] else []) @ map ((#) (kAlphabet ! c)) (level_words m) @
     level_words l @ level_words r"

lemma SearchWord_eq:
  "tst n \<Longrightarrow> SearchWord n words seq pre = Inr (words @ map (\<lambda>v. pre @ seq @ v) (level_words n))"
  by (induction n arbitrary: words seq) (auto simp: GetCharacter_def Let_def)

lemma ends_level_in_level: "ends_level i w n \<Longrightarrow> i \<in> level n"
  by (induction n) (auto split: if_splits)

lemma level_words_hd: "tst n \<Longrightarrow> v \<in> set (level_words n) \<Longrightarrow>
  v \<noteq> [] \<and> GetCharacterIndex (hd v) \<in> level n"
  by (induction n) (auto simp: index_of_nth split: if_splits)

lemma valid_Cons: "valid_word (ch # w) \<longleftrightarrow> ch \<in> set kAlphabet \<and> valid_word w"
  by (auto simp: valid_word_def)

lemma level_words_iff:
  "tst n \<Longrightarrow> ch # v \<in> set (level_words n) \<longleftrightarrow>
   valid_word (ch # v) \<and> ends_level (GetCharacterIndex ch) v n"
proof (induction n arbitrary: ch v)
  case Null
  then show ?case by simp
next
  case (Node c e l m r)
  have c: "c < 27" using Node.prems by simp
  have own: "ch # v \<in> set (if e then [[kAlphabet ! c]] else []) \<union> (#) (kAlphabet ! c) ` set (level_words m)
      \<longleftrightarrow> valid_word (ch # v) \<and> GetCharacterIndex ch = c \<and> ends v (Node c e l m r)"
  proof (cases v)
    case Nil
    then show ?thesis using c level_words_hd [of m] Node.prems index_of_nth [OF c] index_member(2)
      by (auto simp: valid_Cons valid_word_def)
  next
    case (Cons b v')
    then show ?thesis
      using c Node.IH(2) [of b v'] Node.prems index_of_nth [OF c] index_member(2,3)
      by (auto simp: valid_Cons ends_Cons)
  qed
  have left: "ch # v \<in> set (level_words l) \<longleftrightarrow>
      valid_word (ch # v) \<and> GetCharacterIndex ch < c \<and> ends_level (GetCharacterIndex ch) v l"
    using Node ends_level_in_level [of "GetCharacterIndex ch" v l] by auto
  have right: "ch # v \<in> set (level_words r) \<longleftrightarrow>
      valid_word (ch # v) \<and> c < GetCharacterIndex ch \<and> ends_level (GetCharacterIndex ch) v r"
    using Node ends_level_in_level [of "GetCharacterIndex ch" v r] by auto
  show ?case using own left right by auto
qed

lemma level_words_distinct: "tst n \<Longrightarrow> distinct (level_words n)"
proof (induction n)
  case (Node c e l m r)
  let ?own = "(if e then [[kAlphabet ! c]] else []) @ map ((#) (kAlphabet ! c)) (level_words m)"
  have c: "c < 27" using Node.prems by simp
  have "distinct ?own"
    using Node level_words_hd [of m "[]"] by (auto simp: distinct_map)
  moreover have "set ?own \<inter> set (level_words l) = {}"
  proof -
    have "GetCharacterIndex (hd v) = c" if "v \<in> set ?own" for v
      using that index_of_nth [OF c] by (auto split: if_splits)
    moreover have "GetCharacterIndex (hd v) < c" if "v \<in> set (level_words l)" for v
      using that level_words_hd [of l v] Node.prems by simp
    ultimately show ?thesis by (metis disjoint_iff less_irrefl)
  qed
  moreover have "set ?own \<inter> set (level_words r) = {}"
  proof -
    have "GetCharacterIndex (hd v) = c" if "v \<in> set ?own" for v
      using that index_of_nth [OF c] by (auto split: if_splits)
    moreover have "c < GetCharacterIndex (hd v)" if "v \<in> set (level_words r)" for v
      using that level_words_hd [of r v] Node.prems by simp
    ultimately show ?thesis by (metis disjoint_iff less_irrefl)
  qed
  moreover have "set (level_words l) \<inter> set (level_words r) = {}"
  proof -
    have "GetCharacterIndex (hd v) < c" if "v \<in> set (level_words l)" for v
      using that level_words_hd [of l v] Node.prems by simp
    moreover have "c < GetCharacterIndex (hd v)" if "v \<in> set (level_words r)" for v
      using that level_words_hd [of r v] Node.prems by simp
    ultimately show ?thesis by (metis disjoint_iff less_asym)
  qed
  ultimately have "distinct (?own @ level_words l @ level_words r)"
    using Node.IH(1,3) Node.prems by (simp only: distinct_append set_append Int_Un_distrib) simp
  then show ?case by simp
qed simp

lemma walk_append: "walk (p @ v) n = (case walk p n of None \<Rightarrow> None | Some m \<Rightarrow> walk v m)"
  by (induction p arbitrary: n) (auto simp: Let_def split: option.splits)

lemma seek_tst: "tst n \<Longrightarrow> seek i n = Some m \<Longrightarrow> tst m \<and> m \<noteq> Null"
  by (induction n) (auto split: if_splits)

lemma walk_tst: "tst (kMiddle n) \<Longrightarrow> walk w n = Some m \<Longrightarrow> tst (kMiddle m)"
proof (induction w arbitrary: n)
  case (Cons ch w)
  then obtain k where k: "seek (GetCharacterIndex ch) (kMiddle n) = Some k" "walk w k = Some m"
    by (auto simp: Let_def split: if_splits option.splits)
  have "tst k" "k \<noteq> Null" using seek_tst [OF Cons.prems(1) k(1)] by blast+
  then have "tst (kMiddle k)" by (cases k) auto
  with Cons.IH k(2) show ?case by blast
qed simp

lemma walk_valid: "walk w n = Some m \<Longrightarrow> nul \<notin> set w \<Longrightarrow> valid_word w"
proof (induction w arbitrary: n)
  case Nil
  then show ?case by (simp add: valid_word_def)
next
  case (Cons ch w)
  then show ?case
    by (auto simp: Let_def valid_Cons index_npos_iff split: if_splits option.splits)
qed

lemma Search_spec:
  assumes "tst_inv root" and "nul \<notin> set p"
  shows "\<exists>ws. Search root p = Inr ws \<and> distinct ws \<and> set ws = {w \<in> tst_words root. prefix p w}"
proof (cases "walk p root")
  case None
  then show ?thesis by (auto simp: Search_def tst_words_def Contains_def prefix_def walk_append)
next
  case (Some n)
  have tn: "tst (kMiddle n)" using assms(1) walk_tst [OF _ Some] by (auto simp: tst_inv_def)
  have valid: "valid_word p" by (rule walk_valid [OF Some assms(2)])
  let ?ws = "(if end_word n then [p] else []) @ map ((@) p) (level_words (kMiddle n))"
  have "Search root p = Inr ?ws"
    using Some SearchWord_eq [OF tn] by (simp add: Search_def)
  moreover have "distinct ?ws"
    using level_words_distinct [OF tn] level_words_hd [OF tn, of "[]"]
    by (auto simp: distinct_map inj_on_def)
  moreover have "set ?ws = {w \<in> tst_words root. prefix p w}"
  proof -
    have mem: "p @ v \<in> set ?ws \<longleftrightarrow> valid_word v \<and> ends v n" for v
      using level_words_iff [OF tn] level_words_hd [OF tn, of "[]"] index_member(3)
      by (cases v) (auto simp: valid_word_def ends_Cons)
    have c: "Contains root (p @ v) = ends v n" for v
      using Some by (simp add: Contains_def walk_append ends_def)
    have "w \<in> set ?ws \<longleftrightarrow> w \<in> tst_words root" if pw: "prefix p w" for w
    proof -
      obtain v where w: "w = p @ v" using pw by (rule prefixE)
      have "valid_word (p @ v) \<longleftrightarrow> valid_word v" using valid by (auto simp: valid_word_def)
      then show ?thesis unfolding w mem tst_words_def using c [of v] by simp
    qed
    moreover have "prefix p w" if "w \<in> set ?ws" for w
      using that by (auto split: if_splits)
    ultimately show ?thesis by blast
  qed
  ultimately show ?thesis by blast
qed

section \<open>The tree is a dictionary\<close>

lemma TernaryTree_new_inv: "tst_inv TernaryTree_new"
  by (auto simp: tst_inv_def TernaryTree_new_def new_node_def)

lemma Contains_iff_words:
  "nul \<notin> set w \<Longrightarrow> Contains root w \<longleftrightarrow> w \<in> tst_words root"
  using walk_valid by (auto simp: tst_words_def Contains_def split: option.splits)

interpretation tst_dict: word_dictionary tst_inv TernaryTree_new Insert
  "\<lambda>t w. Inr (Contains t w)" Search tst_words
proof unfold_locales
  show "tst_inv TernaryTree_new" by (rule TernaryTree_new_inv)
  show "tst_words TernaryTree_new = {}"
    using ends_new_node by (simp add: tst_words_def TernaryTree_new_def Contains_ends)
next
  fix t w assume "tst_inv t" "w \<in> tst_words t"
  then show "valid_word w" by (simp add: tst_words_def)
next
  fix t w assume t: "tst_inv t" and w: "nul \<notin> set w"
  have "snd (Insert t w) = None \<longleftrightarrow> valid_word w"
    using insert_at_error(1) [OF _ w] t by (auto simp: Insert_def tst_inv_def)
  moreover have "tst_words (fst (Insert t w)) =
      (if valid_word w then tst_words t \<union> {w} else tst_words t)"
  proof -
    have "nul \<notin> set v" if "valid_word v" for v
      using that by (auto simp: valid_word_def)
    with Insert_Contains [OF t w] show ?thesis by (auto simp: tst_words_def)
  qed
  ultimately show "\<exists>t'. Insert t w = (t', if valid_word w then None else snd (Insert t w)) \<and>
      valid_word w = (snd (Insert t w) = None) \<and> tst_inv t' \<and>
      tst_words t' = (if valid_word w then tst_words t \<union> {w} else tst_words t)"
    using Insert_inv [OF t w] by (cases "Insert t w") auto
next
  fix t w assume "tst_inv t" "nul \<notin> set w"
  then show "(Inr (Contains t w) :: bool res) = Inr (w \<in> tst_words t)"
    by (simp add: Contains_iff_words)
next
  fix t p assume "tst_inv t" "nul \<notin> set p"
  then show "\<exists>ws. Search t p = Inr ws \<and> distinct ws \<and> set ws = {w \<in> tst_words t. prefix p w}"
    by (rule Search_spec)
qed

text \<open>
  Fact. A ternary search tree built from any words (those with an illegal character are
  rejected with an exception and leave no trace) contains exactly the legal ones, and searching a
  prefix lists each of them that starts with it exactly once.
\<close>

theorem ternary_tree_correct:
  assumes "\<forall>w \<in> set ws. nul \<notin> set w" and "nul \<notin> set p"
  defines "t \<equiv> foldl (\<lambda>t w. fst (Insert t w)) TernaryTree_new ws"
  shows "Contains t p = (p \<in> set ws \<and> valid_word p) \<and>
    (\<exists>rs. Search t p = Inr rs \<and> distinct rs \<and> set rs = {w \<in> set ws. valid_word w \<and> prefix p w})"
  using tst_dict.built_contains [OF assms(1,2)] tst_dict.built_search [OF assms(1,2)]
  by (simp add: t_def tst_dict.insert_all_def)

theorem ternary_tree_correct_witness:
  "\<exists>rs. Search (foldl (\<lambda>t w. fst (Insert t w)) TernaryTree_new [''cat'', ''car'', ''C3'', ''do'']) ''ca'' =
     Inr rs \<and> distinct rs \<and> set rs = {''cat'', ''car''}"
proof -
  have ok: "\<forall>w \<in> set [''cat'', ''car'', ''C3'', ''do'']. nul \<notin> set w" "nul \<notin> set ''ca''"
    by (simp_all add: nul_def)
  have "{w \<in> set [''cat'', ''car'', ''C3'', ''do'']. valid_word w \<and> prefix ''ca'' w} = {''cat'', ''car''}"
    by (auto simp: valid_word_def kAlphabet_def)
  with ternary_tree_correct [OF ok] show ?thesis by simp
qed

end
