(* ===== verification/Trie_Dict.thy ===== *)
theory Trie_Dict
  imports Dictionary
begin

text \<open>
  The trie dictionary (\<open>src/TrieFoDict/src/trie.cpp\<close>). A node owns a vector of 27 child pointers,
  a list of options here. \<open>children[pos]\<close> is bounds-checked: the terminating null character has
  index 27, which is one past the last child. \<open>Search\<close> enumerates a subtree with an explicit stack
  of nodes and next-child positions; it is shown equal to a recursive post-order enumeration.
\<close>

section \<open>Nodes and operations\<close>

datatype TrieNode =
  TrieNode (character: char) (last_char_of_word: bool) (children: "TrieNode option list")

definition new_TrieNode :: "char \<Rightarrow> TrieNode" where
  "new_TrieNode ch = TrieNode ch False (replicate alphabet_length None)"

definition Trie_new :: TrieNode where
  "Trie_new = new_TrieNode nul"

text \<open>
  The loop of \<open>Insert\<close>: a path update of the tree. The word may be rejected in the middle, after
  the nodes of its legal prefix have been made.
\<close>

fun Trie_Insert :: "TrieNode \<Rightarrow> string \<Rightarrow> TrieNode \<times> fault option" where
  "Trie_Insert (TrieNode c e cs) [] = (TrieNode c True cs, None)"
| "Trie_Insert (TrieNode c e cs) (ch # w) =
     (let pos = GetCharacterIndex ch in
      if pos = npos then (TrieNode c e cs, Some (Thrown ''word contains illegal character!''))
      else if length cs \<le> pos then (TrieNode c e cs, Some Out_of_bounds)
      else let child = (case cs ! pos of None \<Rightarrow> new_TrieNode ch | Some t \<Rightarrow> t);
               (child', x) = Trie_Insert child w
           in (TrieNode c e (cs[pos := Some child']), x))"

text \<open>The loop that \<open>Contains\<close> and \<open>Search\<close> share: \<open>None\<close> is the early return.\<close>

fun locate :: "string \<Rightarrow> TrieNode \<Rightarrow> TrieNode option res" where
  "locate [] node = Inr (Some node)"
| "locate (ch # w) node =
     (let pos = GetCharacterIndex ch in
      if pos = npos then Inr None
      else rbind (at (children node) pos)
        (\<lambda>child. case child of None \<Rightarrow> Inr None | Some child \<Rightarrow> locate w child))"

definition Trie_Contains :: "TrieNode \<Rightarrow> string \<Rightarrow> bool res" where
  "Trie_Contains header word =
     rbind (locate word header)
       (\<lambda>n. Inr (case n of None \<Rightarrow> False | Some node \<Rightarrow> last_char_of_word node))"

text \<open>
  The inner loop of the enumeration: the next child from position \<open>i\<close> on and the position after
  it, or \<open>None\<close> when no child is left.
\<close>

fun next_child :: "TrieNode option list \<Rightarrow> nat \<Rightarrow> (TrieNode \<times> nat) option" where
  "next_child [] i = None"
| "next_child (Some child # cs) i = Some (child, Suc i)"
| "next_child (None # cs) i = next_child cs (Suc i)"

lemma next_child_Some:
  "next_child cs i = Some (child, j) \<Longrightarrow>
   \<exists>k < length cs. cs ! k = Some child \<and> j = Suc (i + k) \<and> (\<forall>l < k. cs ! l = None)"
proof (induction cs i rule: next_child.induct)
  case (3 cs i)
  then obtain k where k: "k < length cs" "cs ! k = Some child" "j = Suc (Suc i + k)"
    "\<forall>l < k. cs ! l = None" by auto
  then have "\<forall>l < Suc k. (None # cs) ! l = None" by (auto simp: less_Suc_eq_0_disj)
  with k show ?case by (intro exI [of _ "Suc k"]) simp
qed auto

text \<open>
  The outer loop; the head of the list is the back of \<open>processing_nodes\<close>. The word of the node on
  top is the characters of all nodes but the first one.
\<close>

definition path_word :: "(TrieNode \<times> nat) list \<Rightarrow> string" where
  "path_word stack = map (\<lambda>n. character (fst n)) (tl (rev stack))"

abbreviation clude_size :: "TrieNode \<times> nat \<Rightarrow> nat" where
  "clude_size \<equiv> \<lambda>(n, i). Suc (size_list (size_option size) (drop i (children n)))"

lemma next_child_size:
  assumes "next_child (drop i (children node)) i = Some (child, j)"
  shows "clude_size (node, j) + clude_size (child, 0) < clude_size (node, i)"
proof -
  let ?cs = "drop i (children node)"
  obtain k where k: "k < length ?cs" "?cs ! k = Some child" "j = Suc (i + k)"
    using next_child_Some [OF assms] by blast
  have "?cs = take k ?cs @ Some child # drop j (children node)"
    using k id_take_nth_drop [of k ?cs] by (simp add: ac_simps)
  then have "size_list (size_option size) ?cs =
      size_list (size_option size) (take k ?cs @ Some child # drop j (children node))" by simp
  then show ?thesis by (cases child) (simp add: size_list_append)
qed

function enumerate_nodes ::
    "string \<Rightarrow> (TrieNode \<times> nat) list \<Rightarrow> string list \<Rightarrow> string list" where
  "enumerate_nodes pre [] words = words"
| "enumerate_nodes pre ((node, i) # below) words =
     (case next_child (drop i (children node)) i of
        Some (child, j) \<Rightarrow> enumerate_nodes pre ((child, 0) # (node, j) # below) words
      | None \<Rightarrow>
          let words = (if last_char_of_word node
                       then words @ [pre @ path_word ((node, i) # below)] else words)
          in enumerate_nodes pre below words)"
  by pat_completeness auto
termination
proof (relation "measure (\<lambda>(pre, stack, words). sum_list (map clude_size stack))")
  fix pre node i below words c child j
  assume "next_child (drop i (children node)) i = Some c" and "(child, j) = c"
  with next_child_size [of i node child j]
  show "((pre, (child, 0) # (node, j) # below, words), (pre, (node, i) # below, words))
    \<in> measure (\<lambda>(pre, stack, words). sum_list (map clude_size stack))" by auto
qed auto

definition Trie_Search :: "TrieNode \<Rightarrow> string \<Rightarrow> string list res" where
  "Trie_Search header pre =
     rbind (locate pre header)
       (\<lambda>n. Inr (case n of None \<Rightarrow> [] | Some node \<Rightarrow> enumerate_nodes pre [(node, 0)] []))"

section \<open>Invariant and abstraction\<close>

fun trie_ok :: "TrieNode \<Rightarrow> bool" where
  "trie_ok (TrieNode c e cs) \<longleftrightarrow> length cs = 27 \<and>
     (\<forall>i < 27. \<forall>t. cs ! i = Some t \<longrightarrow> character t = kAlphabet ! i) \<and>
     (\<forall>t. Some t \<in> set cs \<longrightarrow> trie_ok t)"

definition accepts :: "TrieNode \<Rightarrow> string \<Rightarrow> bool" where
  "accepts n w \<longleftrightarrow>
     (case locate w n of Inr (Some m) \<Rightarrow> last_char_of_word m | _ \<Rightarrow> False)"

definition trie_words :: "TrieNode \<Rightarrow> string set" where
  "trie_words header = {w. valid_word w \<and> accepts header w}"

lemma trie_okD:
  assumes "trie_ok n"
  shows "length (children n) = 27"
    and "i < 27 \<Longrightarrow> children n ! i = Some t \<Longrightarrow> character t = kAlphabet ! i \<and> trie_ok t"
  using assms nth_mem [of i "children n"] by (cases n; auto)+

lemma trie_ok_new: "trie_ok (new_TrieNode ch)"
  by (simp add: new_TrieNode_def)

lemma accepts_Nil [simp]: "accepts n [] = last_char_of_word n"
  by (simp add: accepts_def)

lemma accepts_Cons:
  assumes "trie_ok n" and "ch \<noteq> nul"
  shows "accepts n (ch # w) \<longleftrightarrow> ch \<in> set kAlphabet \<and>
    (\<exists>t. children n ! GetCharacterIndex ch = Some t \<and> accepts t w)"
proof (cases "ch \<in> set kAlphabet")
  case True
  with index_member [OF this] trie_okD(1) [OF assms(1)] show ?thesis
    by (auto simp: accepts_def at_ok split: option.splits)
next
  case False
  with assms(2) index_npos_iff show ?thesis by (simp add: accepts_def)
qed

lemma accepts_new [simp]: "nul \<notin> set w \<Longrightarrow> accepts (new_TrieNode ch) w = False"
proof (cases w)
  case (Cons a v)
  assume "nul \<notin> set w"
  with Cons accepts_Cons [OF trie_ok_new, of a ch v] index_member(1) [of a] show ?thesis
    by (auto simp: new_TrieNode_def)
qed (simp add: new_TrieNode_def)

text \<open>The locating loop never leaves the vector of children on a word without a null character.\<close>

lemma locate_ok:
  "trie_ok n \<Longrightarrow> nul \<notin> set w \<Longrightarrow>
   \<exists>r. locate w n = Inr r \<and> (\<forall>m. r = Some m \<longrightarrow> trie_ok m \<and> valid_word w)"
proof (induction w arbitrary: n)
  case Nil
  then show ?case by (simp add: valid_word_def)
next
  case (Cons ch w)
  show ?case
  proof (cases "ch \<in> set kAlphabet")
    case True
    note i = index_member [OF True]
    have at: "at (children n) (GetCharacterIndex ch) = Inr (children n ! GetCharacterIndex ch)"
      using trie_okD(1) [OF Cons.prems(1)] i(1) by (simp add: at_ok)
    show ?thesis
    proof (cases "children n ! GetCharacterIndex ch")
      case None
      with at i show ?thesis by simp
    next
      case (Some t)
      have "trie_ok t" using trie_okD(2) [OF Cons.prems(1) i(1) Some] by simp
      with Cons.IH [of t] Cons.prems(2) True Some at i show ?thesis
        by (auto simp: valid_word_def)
    qed
  next
    case False
    then have "GetCharacterIndex ch = npos" using Cons.prems(2) index_npos_iff [of ch] by auto
    then show ?thesis by simp
  qed
qed

lemma Trie_Contains_accepts:
  "trie_ok n \<Longrightarrow> nul \<notin> set w \<Longrightarrow> Trie_Contains n w = Inr (accepts n w)"
  using locate_ok [of n w] by (auto simp: Trie_Contains_def accepts_def split: option.splits)

lemma accepts_valid: "trie_ok n \<Longrightarrow> nul \<notin> set w \<Longrightarrow> accepts n w \<Longrightarrow> valid_word w"
  using locate_ok [of n w] by (auto simp: accepts_def split: option.splits)

section \<open>Insertion\<close>

lemma character_Insert: "character (fst (Trie_Insert n w)) = character n"
  by (cases "(n, w)" rule: Trie_Insert.cases) (auto simp: Let_def split: prod.splits)

lemma trie_ok_update:
  assumes "trie_ok (TrieNode c e cs)" and "i < 27" and "trie_ok t"
    and "character t = kAlphabet ! i"
  shows "trie_ok (TrieNode c e' (cs[i := Some t]))"
proof -
  have "trie_ok t'" if "Some t' \<in> set (cs[i := Some t])" for t'
    using set_update_subset_insert [of cs i "Some t"] that assms(1,3) by auto
  with assms show ?thesis by (auto simp: nth_list_update)
qed

lemma Trie_Insert_law:
  "trie_ok n \<Longrightarrow> nul \<notin> set w \<Longrightarrow>
   trie_ok (fst (Trie_Insert n w)) \<and> (snd (Trie_Insert n w) = None \<longleftrightarrow> valid_word w) \<and>
   (\<forall>v. nul \<notin> set v \<longrightarrow>
      accepts (fst (Trie_Insert n w)) v = (accepts n v \<or> valid_word w \<and> v = w))"
proof (induction n w rule: Trie_Insert.induct)
  case (1 c e cs)
  have ok: "trie_ok (TrieNode c True cs)" using 1(1) by auto
  have "accepts (TrieNode c True cs) v = (accepts (TrieNode c e cs) v \<or> v = [])"
    if "nul \<notin> set v" for v
    using that accepts_Cons [OF 1(1)] accepts_Cons [OF ok] by (cases v) auto
  with ok show ?case by (simp add: valid_word_def)
next
  case (2 c e cs ch w)
  have ch: "ch \<noteq> nul" and w: "nul \<notin> set w" using "2.prems" by auto
  show ?case
  proof (cases "ch \<in> set kAlphabet")
    case False
    then have "GetCharacterIndex ch = npos" using ch index_npos_iff by blast
    with False "2.prems" show ?thesis by (auto simp: valid_word_def)
  next
    case True
    let ?i = "GetCharacterIndex ch"
    let ?t = "case cs ! ?i of None \<Rightarrow> new_TrieNode ch | Some t \<Rightarrow> t"
    note i = index_member [OF True]
    have len: "length cs = 27" using "2.prems"(1) by simp
    obtain t' x where t': "Trie_Insert ?t w = (t', x)" by fastforce
    have t: "trie_ok ?t" "character ?t = ch"
      using trie_okD(2) [OF "2.prems"(1) i(1)] trie_ok_new i(2)
      by (auto simp: new_TrieNode_def split: option.splits)
    have acc_t: "accepts ?t v \<longleftrightarrow> (\<exists>t. cs ! ?i = Some t \<and> accepts t v)" if "nul \<notin> set v" for v
      using that by (auto split: option.splits)
    have "\<not> length cs \<le> ?i" using len i(1) by simp
    note IH = "2.IH" [OF refl i(3) this refl t(1) w, unfolded t' fst_conv snd_conv]
    have c': "character t' = kAlphabet ! ?i"
      using character_Insert [of ?t w] t(2) t' i(2) by simp
    have ins: "Trie_Insert (TrieNode c e cs) (ch # w) = (TrieNode c e (cs[?i := Some t']), x)"
      using t' i len by (simp add: Let_def)
    have ok: "trie_ok (TrieNode c e (cs[?i := Some t']))"
      using trie_ok_update "2.prems"(1) i(1) IH c' by blast
    have "accepts (TrieNode c e (cs[?i := Some t'])) v =
        (accepts (TrieNode c e cs) v \<or> valid_word (ch # w) \<and> v = ch # w)"
      if v: "nul \<notin> set v" for v
    proof (cases v)
      case (Cons a u)
      then have "a \<noteq> nul" "nul \<notin> set u" using v by auto
      note ac = accepts_Cons [OF ok this(1)] accepts_Cons [OF "2.prems"(1) this(1)]
      show ?thesis
      proof (cases "a = ch")
        case True
        with ac Cons IH acc_t [OF \<open>nul \<notin> set u\<close>] \<open>nul \<notin> set u\<close> len i(1) \<open>ch \<in> set kAlphabet\<close>
        show ?thesis by (auto simp: valid_word_def)
      next
        case False
        then have "GetCharacterIndex a \<noteq> ?i" if "a \<in> set kAlphabet"
          using index_member(2) that i(2) by metis
        with ac Cons False show ?thesis by auto
      qed
    qed simp
    moreover have "x = None \<longleftrightarrow> valid_word (ch # w)"
      using IH True by (auto simp: valid_word_def)
    ultimately show ?thesis unfolding ins fst_conv snd_conv using ok by blast
  qed
qed

section \<open>Enumeration\<close>

text \<open>The post-order enumeration of the words below a node.\<close>

fun node_words :: "TrieNode \<Rightarrow> string list" where
  "node_words (TrieNode c e cs) =
     concat (map (\<lambda>child. case child of None \<Rightarrow> []
                           | Some t \<Rightarrow> map ((#) (character t)) (node_words t)) cs) @
     (if e then [[]] else [])"

definition child_words :: "TrieNode option \<Rightarrow> string list" where
  "child_words child = (case child of None \<Rightarrow> [] | Some t \<Rightarrow> map ((#) (character t)) (node_words t))"

lemma child_words_fun:
  "child_words = (\<lambda>child. case child of None \<Rightarrow> [] | Some t \<Rightarrow> map ((#) (character t)) (node_words t))"
  by (simp add: child_words_def fun_eq_iff)

lemma node_words_children:
  "node_words n = concat (map child_words (children n)) @ (if last_char_of_word n then [[]] else [])"
  by (cases n) (simp add: child_words_fun)

lemma Cons_in_child_words:
  "ch # w \<in> set (child_words child) \<longleftrightarrow>
   (\<exists>t. child = Some t \<and> character t = ch \<and> w \<in> set (node_words t))"
  by (auto simp: child_words_def split: option.splits)

text \<open>What the loop still owes for a node whose children before position \<open>i\<close> are done.\<close>

definition rest_words :: "TrieNode \<Rightarrow> nat \<Rightarrow> string list" where
  "rest_words n i = concat (map child_words (drop i (children n))) @
     (if last_char_of_word n then [[]] else [])"

lemma rest_words_0: "rest_words n 0 = node_words n"
  by (simp add: rest_words_def node_words_children)

lemma concat_no_children: "\<forall>l < length cs. cs ! l = None \<Longrightarrow> concat (map child_words cs) = []"
  by (auto simp: child_words_def in_set_conv_nth)

lemma rest_words_next:
  assumes "next_child (drop i (children n)) i = Some (child, j)"
  shows "rest_words n i = map ((#) (character child)) (node_words child) @ rest_words n j"
proof -
  let ?cs = "drop i (children n)"
  obtain k where k: "k < length ?cs" "?cs ! k = Some child" "j = Suc (i + k)"
    "\<forall>l < k. ?cs ! l = None" using next_child_Some [OF assms] by blast
  have "concat (map child_words (take k ?cs)) = []" using k by (intro concat_no_children) auto
  moreover have "?cs = take k ?cs @ Some child # drop j (children n)"
    using k id_take_nth_drop [of k ?cs] by (simp add: ac_simps)
  then have "concat (map child_words ?cs) =
      concat (map child_words (take k ?cs @ Some child # drop j (children n)))" by simp
  ultimately show ?thesis by (simp add: rest_words_def child_words_def)
qed

lemma next_child_None: "next_child cs i = None \<Longrightarrow> \<forall>l < length cs. cs ! l = None"
  by (induction cs i rule: next_child.induct) (auto simp: less_Suc_eq_0_disj)

lemma rest_words_last:
  "next_child (drop i (children n)) i = None \<Longrightarrow>
   rest_words n i = (if last_char_of_word n then [[]] else [])"
  using concat_no_children [OF next_child_None] by (simp add: rest_words_def)

fun owed :: "(TrieNode \<times> nat) list \<Rightarrow> string list" where
  "owed [] = []"
| "owed ((n, i) # below) = map ((@) (path_word ((n, i) # below))) (rest_words n i) @ owed below"

lemma path_word_push:
  "path_word ((child, k) # (n, j) # below) = path_word ((n, i) # below) @ [character child]"
  by (cases "rev below") (simp_all add: path_word_def)

lemma path_word_index: "path_word ((n, i) # below) = path_word ((n, j) # below)"
  by (cases "rev below") (simp_all add: path_word_def)

lemma enumerate_nodes_eq:
  "enumerate_nodes pre stack words = words @ map ((@) pre) (owed stack)"
proof (induction pre stack words rule: enumerate_nodes.induct)
  case (1 pre words)
  then show ?case by simp
next
  case (2 pre node i below words)
  show ?case
  proof (cases "next_child (drop i (children node)) i")
    case None
    with 2 rest_words_last [OF None] show ?thesis by simp
  next
    case (Some c)
    obtain child j where c: "c = (child, j)" by (cases c)
    with Some have nc: "next_child (drop i (children node)) i = Some (child, j)" by simp
    have "owed ((child, 0) # (node, j) # below) = owed ((node, i) # below)"
      using rest_words_next [OF nc] path_word_push [of child 0 node j below i]
        path_word_index [of node i below j] by (simp add: rest_words_0)
    moreover have "enumerate_nodes pre ((node, i) # below) words =
        enumerate_nodes pre ((child, 0) # (node, j) # below) words"
      unfolding enumerate_nodes.simps(2) [of pre node i] nc by simp
    ultimately show ?thesis using "2.IH"(2) [OF nc refl] by (simp only:)
  qed
qed

lemma enumerate_node_words: "enumerate_nodes pre [(n, i)] [] = map ((@) pre) (rest_words n i)"
  by (simp add: enumerate_nodes_eq path_word_def map_idI)

lemma node_words_iff: "trie_ok n \<Longrightarrow> w \<in> set (node_words n) \<longleftrightarrow> valid_word w \<and> accepts n w"
proof (induction w arbitrary: n)
  case Nil
  then show ?case by (cases n) (auto simp: valid_word_def split: option.splits)
next
  case (Cons ch w)
  have len: "length (children n) = 27" using trie_okD(1) [OF Cons.prems] .
  have "ch # w \<in> set (node_words n) \<longleftrightarrow> (\<exists>c \<in> set (children n). ch # w \<in> set (child_words c))"
    by (simp add: node_words_children)
  also have "\<dots> \<longleftrightarrow>
      (\<exists>i < 27. \<exists>t. children n ! i = Some t \<and> character t = ch \<and> w \<in> set (node_words t))"
    unfolding Cons_in_child_words set_conv_nth [of "children n"] len by auto
  also have "\<dots> \<longleftrightarrow> (\<exists>i < 27. \<exists>t. kAlphabet ! i = ch \<and> children n ! i = Some t \<and>
      valid_word w \<and> accepts t w)"
    using trie_okD(2) [OF Cons.prems] Cons.IH by metis
  also have "\<dots> \<longleftrightarrow> ch \<in> set kAlphabet \<and> valid_word w \<and>
      (\<exists>t. children n ! GetCharacterIndex ch = Some t \<and> accepts t w)"
    using index_member(1,2) [of ch] index_of_nth nth_mem [of _ kAlphabet] by auto
  also have "\<dots> \<longleftrightarrow> valid_word (ch # w) \<and> accepts n (ch # w)"
    using accepts_Cons [OF Cons.prems, of ch w] by (cases "ch = nul") (auto simp: valid_word_def)
  finally show ?case .
qed

lemma distinct_concat_upt:
  "(\<And>i. i < n \<Longrightarrow> distinct (f i)) \<Longrightarrow>
   (\<And>i j. i < j \<Longrightarrow> j < n \<Longrightarrow> set (f i) \<inter> set (f j) = {}) \<Longrightarrow>
   distinct (concat (map f [0..<n]))"
proof (induction n)
  case (Suc n)
  have "set (concat (map f [0..<n])) \<inter> set (f n) = {}" using Suc.prems(2) by fastforce
  with Suc show ?case by simp
qed simp

lemma node_words_distinct: "trie_ok n \<Longrightarrow> distinct (node_words n)"
proof (induction n)
  case (TrieNode c e cs)
  have len: "length cs = 27" using TrieNode.prems by simp
  let ?f = "\<lambda>i. child_words (cs ! i)"
  have d: "distinct (?f i)" if "i < 27" for i
  proof (cases "cs ! i")
    case (Some t)
    then have m: "Some t \<in> set cs" using that len nth_mem by metis
    then have "trie_ok t" using TrieNode.prems by simp
    then have "distinct (node_words t)" using TrieNode.IH [OF m] by simp
    with Some show ?thesis by (simp add: child_words_def distinct_map)
  qed (simp add: child_words_def)
  have hd: "w \<noteq> [] \<and> hd w = kAlphabet ! i" if "i < 27" "w \<in> set (?f i)" for i w
    using that trie_okD(2) [OF TrieNode.prems that(1)]
    by (auto simp: child_words_def split: option.splits)
  have "set (?f i) \<inter> set (?f j) = {}" if "i < j" "j < 27" for i j
  proof -
    have "kAlphabet ! i \<noteq> kAlphabet ! j"
      using that distinct_kAlphabet by (simp add: nth_eq_iff_index_eq)
    moreover have "i < 27" using that by simp
    ultimately show ?thesis using hd [of i] hd [of j] that(2) by (metis disjoint_iff)
  qed
  with d have "distinct (concat (map ?f [0..<length cs]))"
    unfolding len by (intro distinct_concat_upt)
  moreover have "map ?f [0..<length cs] = map child_words cs"
    by (intro nth_equalityI) auto
  moreover have "[] \<notin> set (concat (map child_words cs))"
    by (auto simp: child_words_def split: option.splits)
  ultimately show ?case by (simp add: child_words_fun [symmetric])
qed

section \<open>The trie is a dictionary\<close>

lemma Trie_Search_law:
  assumes "trie_ok n" and "nul \<notin> set p"
  shows "\<exists>ws. Trie_Search n p = Inr ws \<and> distinct ws \<and> set ws = {w \<in> trie_words n. prefix p w}"
proof -
  obtain r where r: "locate p n = Inr r" "\<forall>m. r = Some m \<longrightarrow> trie_ok m \<and> valid_word p"
    using locate_ok [OF assms] by blast
  have app: "locate (p @ v) n = (case r of None \<Rightarrow> Inr None | Some m \<Rightarrow> locate v m)" for v
    using r(1)
    by (induction p arbitrary: n)
      (auto simp: Let_def rbind_def split: if_splits sum.splits option.splits)
  show ?thesis
  proof (cases r)
    case None
    with r app show ?thesis
      by (auto simp: Trie_Search_def trie_words_def accepts_def prefix_def)
  next
    case (Some m)
    have m: "trie_ok m" and p: "valid_word p" using r(2) Some by auto
    have acc: "accepts n (p @ v) = accepts m v" for v
      using app Some by (simp add: accepts_def)
    let ?ws = "map ((@) p) (node_words m)"
    have "Trie_Search n p = Inr ?ws"
      using r(1) Some 
        by (simp add: Trie_Search_def enumerate_node_words rest_words_0 del: enumerate_nodes.simps)
    moreover have "distinct ?ws" 
      using node_words_distinct [OF m] by (simp add: distinct_map inj_on_def)
    moreover have "set ?ws = {w \<in> trie_words n. prefix p w}"
      using node_words_iff [OF m] acc p by (auto simp: trie_words_def valid_word_def prefix_def)
    ultimately show ?thesis by blast
  qed
qed

interpretation trie_dict: word_dictionary trie_ok Trie_new Trie_Insert Trie_Contains Trie_Search
  trie_words
proof unfold_locales
  show "trie_ok Trie_new" by (simp add: Trie_new_def trie_ok_new)
  have "nul \<notin> set v" if "valid_word v" for v
    using that by (auto simp: valid_word_def)
  then show "trie_words Trie_new = {}" by (auto simp: trie_words_def Trie_new_def)
next
  fix t w assume "trie_ok t" "w \<in> trie_words t"
  then show "valid_word w" by (simp add: trie_words_def)
next
  fix t w assume t: "trie_ok t" and w: "nul \<notin> set w"
  have "nul \<notin> set v" if "valid_word v" for v
    using that by (auto simp: valid_word_def)
  with Trie_Insert_law [OF t w] show "\<exists>t'.
      Trie_Insert t w = (t', if valid_word w then None else snd (Trie_Insert t w)) \<and>
      valid_word w = (snd (Trie_Insert t w) = None) \<and> trie_ok t' \<and>
      trie_words t' = (if valid_word w then trie_words t \<union> {w} else trie_words t)"
    by (intro exI [of _ "fst (Trie_Insert t w)"]) (auto simp: trie_words_def prod_eq_iff)
next
  fix t w assume "trie_ok t" "nul \<notin> set w"
  then show "Trie_Contains t w = Inr (w \<in> trie_words t)"
    using Trie_Contains_accepts accepts_valid by (auto simp: trie_words_def)
next
  fix t p assume "trie_ok t" "nul \<notin> set p"
  then show "\<exists>ws. Trie_Search t p = Inr ws \<and> distinct ws \<and> set ws = {w \<in> trie_words t. prefix p w}"
    by (rule Trie_Search_law)
qed

lemma Trie_Insert_error:
  "trie_ok n \<Longrightarrow> nul \<notin> set w \<Longrightarrow> snd (Trie_Insert n w) \<in> {None, Some (Thrown ''word contains illegal character!'')}"
proof (induction n w rule: Trie_Insert.induct)
  case (2 c e cs ch w)
  show ?case
  proof (cases "ch \<in> set kAlphabet")
    case False
    then have "GetCharacterIndex ch = npos" using "2.prems" index_npos_iff by auto
    then show ?thesis by simp
  next
    case True
    let ?t = "case cs ! GetCharacterIndex ch of None \<Rightarrow> new_TrieNode ch | Some t \<Rightarrow> t"
    note i = index_member [OF True]
    have len: "\<not> length cs \<le> GetCharacterIndex ch" using "2.prems"(1) i(1) by simp
    have t: "trie_ok ?t" using trie_okD(2) [OF "2.prems"(1) i(1)] trie_ok_new by (auto split: option.splits)
    have w: "nul \<notin> set w" using "2.prems" by simp
    have "snd (Trie_Insert (TrieNode c e cs) (ch # w)) = snd (Trie_Insert ?t w)" using i(3) len by (simp add: Let_def case_prod_beta)
    then show ?thesis using "2.IH" [OF refl i(3) len refl t w] by (simp only:)
  qed
qed simp

lemma insert_exactly:
  assumes "trie_ok t" and "nul \<notin> set w"
  shows "snd (Trie_Insert t w) = (if valid_word w then None else Some (Thrown ''word contains illegal character!''))"
  using Trie_Insert_law [OF assms] Trie_Insert_error [OF assms] by auto

text \<open>
  Property C29. For words and prefixes without null characters: a trie built from any words throws for exactly those with
  an illegal character, each when it is inserted, and contains exactly the legal ones; the stack-driven search of a prefix terminates and
  lists each of them that starts with it exactly once; no insertion or lookup leaves the vector of children.
\<close>

theorem trie_correct:
  assumes "\<forall>w \<in> set ws. nul \<notin> set w" and "nul \<notin> set p"
  defines "build us \<equiv> foldl (\<lambda>t w. fst (Trie_Insert t w)) Trie_new us"
  shows "(\<forall>us w vs. ws = us @ w # vs \<longrightarrow>
      snd (Trie_Insert (build us) w) = (if valid_word w then None else Some (Thrown ''word contains illegal character!''))) \<and>
    Trie_Contains (build ws) p = Inr (p \<in> set ws \<and> valid_word p) \<and>
    (\<exists>rs. Trie_Search (build ws) p = Inr rs \<and> distinct rs \<and> set rs = {w \<in> set ws. valid_word w \<and> prefix p w})"
proof -
  have b: "trie_dict.insert_all Trie_new us = build us" for us by (simp add: build_def trie_dict.insert_all_def)
  have "snd (Trie_Insert (build us) w) = (if valid_word w then None else Some (Thrown ''word contains illegal character!''))"
    if ws: "ws = us @ w # vs" for us w vs
  proof -
    have "\<forall>w \<in> set us. nul \<notin> set w" "nul \<notin> set w" using assms(1) ws by auto
    moreover from trie_dict.insert_all_law [OF trie_dict.new_law(1) this(1)] have "trie_ok (build us)" by (simp add: b)
    ultimately show ?thesis by (intro insert_exactly)
  qed
  then show ?thesis using trie_dict.built_contains [OF assms(1,2)] trie_dict.built_search [OF assms(1,2)] by (simp add: b)
qed

theorem trie_correct_witness:
  "(\<exists>rs. Trie_Search (foldl (\<lambda>t w. fst (Trie_Insert t w)) Trie_new [''cat'', ''car'', ''C3'', ''do'']) ''ca'' =
     Inr rs \<and> distinct rs \<and> set rs = {''cat'', ''car''}) \<and>
   snd (Trie_Insert (foldl (\<lambda>t w. fst (Trie_Insert t w)) Trie_new [''cat'', ''car'']) ''C3'') \<noteq> None"
proof -
  have ok: "\<forall>w \<in> set [''cat'', ''car'', ''C3'', ''do'']. nul \<notin> set w" "nul \<notin> set ''ca''"
    by (simp_all add: nul_def)
  have "{w \<in> set [''cat'', ''car'', ''C3'', ''do'']. valid_word w \<and> prefix ''ca'' w} = {''cat'', ''car''}"
    by (auto simp: valid_word_def kAlphabet_def)
  moreover have "\<not> valid_word ''C3''" by (simp add: valid_word_def kAlphabet_def)
  moreover have "snd (Trie_Insert (foldl (\<lambda>t w. fst (Trie_Insert t w)) Trie_new [''cat'', ''car'']) ''C3'') =
      (if valid_word ''C3'' then None else Some (Thrown ''word contains illegal character!''))"
    using trie_correct [OF ok, THEN conjunct1, rule_format, of "[''cat'', ''car'']" "''C3''" "[''do'']"] by simp
  ultimately show ?thesis using trie_correct [OF ok, THEN conjunct2, THEN conjunct2] by simp
qed

text \<open>
  Fact. The null character is not rejected as illegal: \<open>strchr\<close> finds the terminator of the
  alphabet, the index 27 passes the \<open>npos\<close> check and \<open>Insert\<close> and \<open>Contains\<close> access the child one
  past the end of the vector, in every well-formed trie.
\<close>

theorem trie_null_character_out_of_bounds:
  assumes "trie_ok header"
  shows "Trie_Insert header (nul # w) = (header, Some Out_of_bounds) \<and>
    Trie_Contains header (nul # w) = Inl Out_of_bounds"
  using trie_okD(1) [OF assms]
  by (cases header) (simp add: index_nul npos_def Trie_Contains_def at_def)

theorem trie_null_character_out_of_bounds_witness:
  "Trie_Contains (fst (Trie_Insert Trie_new ''ab'')) [nul, CHR ''a''] = Inl Out_of_bounds"
  using trie_null_character_out_of_bounds [of "fst (Trie_Insert Trie_new ''ab'')" "[CHR ''a'']"]
    Trie_Insert_law [of Trie_new "''ab''"]
  by (simp add: Trie_new_def trie_ok_new nul_def)

end
