(* ===== verification/Buddy_Util.thy ===== *)
theory Buddy_Util
  imports Prelude
begin

text \<open>
  The index and power-of-two helpers of the buddy allocator (\<open>src/BuddyAllocator/src/buddy_util.h\<close>)
  on \<open>size_t\<close> values. The lemmas
  characterise the bit tricks: \<open>IsPowerOf2\<close> is exact, \<open>NearestUpperPowerOf2\<close> is the least power of
  two above its argument up to \<open>2 ^ 32\<close> and wrong beyond it.
\<close>

definition IsPowerOf2 :: "nat \<Rightarrow> bool" where
  "IsPowerOf2 number \<longleftrightarrow> number \<noteq> 0 \<and> number AND wsub number 1 = 0"

text \<open>
  The loop of \<open>NearestUpperPowerOf2\<close>: \<open>i\<close> runs over the powers of two below the half of the bit
  width. The recursion stops as the loop does, when \<open>i\<close> reaches the bound; it starts at 1 and the
  bound is 32.
\<close>

definition half_bit_space :: nat where
  "half_bit_space = push_bit 2 8"

function smear :: "nat \<Rightarrow> nat \<Rightarrow> nat" where
  "smear i number =
     (if i = 0 \<or> half_bit_space \<le> i then number else smear (2 * i) (number OR drop_bit i number))"
  by pat_completeness auto
termination
  by (relation "measure (\<lambda>(i, number). half_bit_space - i)") auto

definition NearestUpperPowerOf2 :: "nat \<Rightarrow> nat" where
  "NearestUpperPowerOf2 number = wrap (smear 1 (wsub number 1) + 1)"

definition Parent :: "nat \<Rightarrow> nat" where
  "Parent i = wsub (wrap (i + 1) div 2) 1"

definition LeftChild :: "nat \<Rightarrow> nat" where
  "LeftChild i = wsub (wrap (2 * wrap (i + 1))) 1"

definition RightChild :: "nat \<Rightarrow> nat" where
  "RightChild i = wrap (2 * wrap (i + 1))"

declare smear.simps [simp del]

section \<open>Indices\<close>

lemma Parent_0: "Parent 0 = 2 ^ 64 - 1"
  using wsub_0_1 by (simp add: Parent_def wrap_def)

lemma Parent_eq: "0 < i \<Longrightarrow> i < 2 ^ 60 \<Longrightarrow> Parent i = (i + 1) div 2 - 1"
  by (simp add: Parent_def wsub_small)

lemma Child_eq:
  assumes "i < 2 ^ 60"
  shows "LeftChild i = 2 * i + 1" and "RightChild i = 2 * i + 2"
  using assms by (simp_all add: LeftChild_def RightChild_def wsub_small)

lemma Parent_Child [simp]:
  "2 * i + 2 < 2 ^ 60 \<Longrightarrow> Parent (2 * i + 1) = i"
  "2 * i + 2 < 2 ^ 60 \<Longrightarrow> Parent (2 * i + 2) = i"
  by (simp_all add: Parent_eq)

lemma Parent_less: "0 < i \<Longrightarrow> i \<noteq> 2 ^ 64 - 1 \<Longrightarrow> Parent i < i"
proof (cases "i < 2 ^ 64")
  case True
  assume "0 < i" "i \<noteq> 2 ^ 64 - 1"
  with True have "i + 1 < 2 ^ 64" by simp
  then have "Parent i = (i + 1) div 2 - 1"
    using \<open>0 < i\<close> by (simp add: Parent_def wsub_small)
  with \<open>0 < i\<close> show ?thesis by linarith
next
  case False
  have "Parent i < 2 ^ 64" unfolding Parent_def wsub_def by (rule wrap_less)
  with False show ?thesis by simp
qed

section \<open>Powers of two\<close>

lemma IsPowerOf2_iff: "x < 2 ^ 64 \<Longrightarrow> IsPowerOf2 x \<longleftrightarrow> (\<exists>d. x = 2 ^ d)"
proof
  assume x: "x < 2 ^ 64" "\<exists>d. x = 2 ^ d"
  then obtain d where d: "x = 2 ^ d" by blast
  then have "x AND wsub x 1 = 2 ^ d AND mask d"
    using x(1) by (simp add: wsub_small mask_eq_exp_minus_1)
  also have "\<dots> = 0" by (simp add: flip: take_bit_eq_mask)
  finally show "IsPowerOf2 x" using d by (simp add: IsPowerOf2_def)
next
  assume x: "x < 2 ^ 64" "IsPowerOf2 x"
  then have "0 < x" by (simp add: IsPowerOf2_def)
  then obtain d where d: "2 ^ d \<le> x" "x < 2 ^ (d + 1)"
    using ex_power_ivl1 [of 2 x] by auto
  show "\<exists>d. x = 2 ^ d"
  proof (rule ccontr)
    assume "\<nexists>d. x = 2 ^ d"
    with d have l: "2 ^ d \<le> x - 1" by (metis Suc_leI diff_Suc_1 le_neq_implies_less less_Suc_eq_le Suc_pred' \<open>0 < x\<close> Suc_eq_plus1)
    have "x div 2 ^ d = 1" "(x - 1) div 2 ^ d = 1"
      using d l by (simp_all add: div_nat_eqI)
    then have "bit x d" "bit (x - 1) d" by (simp_all add: bit_iff_odd)
    then have "bit (x AND (x - 1)) d" by (simp add: bit_and_iff)
    moreover have "x AND (x - 1) = 0"
      using x \<open>0 < x\<close> by (simp add: IsPowerOf2_def wsub_small)
    ultimately show False by simp
  qed
qed

lemma smear_32: "smear 1 x =
  (let x1 = x OR drop_bit 1 x; x2 = x1 OR drop_bit 2 x1; x3 = x2 OR drop_bit 4 x2;
       x4 = x3 OR drop_bit 8 x3 in x4 OR drop_bit 16 x4)"
  by (simp add: smear.simps half_bit_space_def push_bit_eq_mult Let_def)

text \<open>Each step doubles the window of bits that a bit of the result has seen.\<close>

definition seen :: "nat \<Rightarrow> nat \<Rightarrow> nat \<Rightarrow> bool" where
  "seen w m x \<longleftrightarrow> (\<forall>j. bit x j \<longleftrightarrow> (\<exists>k < w. bit m (j + k)))"

lemma seen_step:
  assumes "seen w m x"
  shows "seen (w + w) m (x OR drop_bit w x)"
proof -
  have "(\<exists>k < w + w. bit m (j + k)) \<longleftrightarrow>
      (\<exists>k < w. bit m (j + k)) \<or> (\<exists>k < w. bit m (j + w + k))" for j
  proof
    assume "\<exists>k < w + w. bit m (j + k)"
    then obtain k where k: "k < w + w" "bit m (j + k)" by blast
    show "(\<exists>k < w. bit m (j + k)) \<or> (\<exists>k < w. bit m (j + w + k))"
    proof (cases "k < w")
      case False
      then have "k - w < w" "j + w + (k - w) = j + k" using k(1) by auto
      with k(2) show ?thesis by metis
    qed (use k in blast)
  next
    assume "(\<exists>k < w. bit m (j + k)) \<or> (\<exists>k < w. bit m (j + w + k))"
    then show "\<exists>k < w + w. bit m (j + k)"
      by (metis add.assoc nat_add_left_cancel_less trans_less_add1)
  qed
  with assms show ?thesis by (auto simp: seen_def bit_or_iff bit_drop_bit_eq add.commute)
qed

lemma smear_seen: "seen 32 m (smear 1 m)"
proof -
  have "seen 1 m m" by (simp add: seen_def)
  from seen_step [OF this] have "seen 2 m (m OR drop_bit 1 m)" by (simp add: numeral_2_eq_2)
  from seen_step [OF seen_step [OF seen_step [OF seen_step [OF this]]]]
  show ?thesis unfolding smear_32 Let_def by (simp only: numeral_plus_numeral Num.add_num_simps)
qed

lemma smear_small:
  assumes "m < 2 ^ 32"
  obtains l where "smear 1 m = 2 ^ l - 1" and "m < 2 ^ l" and "l = 0 \<or> 2 ^ (l - 1) \<le> m"
proof (cases "m = 0")
  case True
  have "smear 1 m = 0"
    using smear_seen [of m] True by (auto intro: bit_eqI simp: seen_def)
  then show ?thesis using that [of 0] True by simp
next
  case False
  then obtain d where d: "2 ^ d \<le> m" "m < 2 ^ (d + 1)"
    using ex_power_ivl1 [of 2 m] by auto
  have "m div 2 ^ d = 1" using d by (simp add: div_nat_eqI)
  then have top: "bit m d" by (simp add: bit_iff_odd)
  have none: "\<not> bit m k" if "d < k" for k
  proof -
    have "(2::nat) ^ (d + 1) \<le> 2 ^ k" using that by (intro power_increasing) auto
    then show ?thesis using d(2) by (simp add: bit_iff_odd)
  qed
  have "d < 32"
    using d(1) assms by (metis le_less_trans nat_power_less_imp_less zero_less_numeral)
  have "bit (smear 1 m) j \<longleftrightarrow> j \<le> d" for j
  proof
    assume "bit (smear 1 m) j"
    then obtain k where "bit m (j + k)" using smear_seen [of m] by (auto simp: seen_def)
    then show "j \<le> d" using none by (meson le_add1 le_trans not_le)
  next
    assume "j \<le> d"
    then have "d - j < 32" "j + (d - j) = d" using \<open>d < 32\<close> by auto
    then show "bit (smear 1 m) j" using smear_seen [of m] top by (metis seen_def)
  qed
  then have "smear 1 m = mask (Suc d)" by (intro bit_eqI) (simp add: bit_mask_iff less_Suc_eq_le)
  then show ?thesis using that [of "Suc d"] d by (simp add: mask_eq_exp_minus_1)
qed

lemma NearestUpperPowerOf2_spec:
  assumes "0 < n" and "n \<le> 2 ^ 32"
  obtains l where "NearestUpperPowerOf2 n = 2 ^ l" and "l \<le> 32" and "n \<le> 2 ^ l"
    and "l = 0 \<or> 2 ^ (l - 1) < n"
proof -
  have m: "wsub n 1 = n - 1" "n - 1 < 2 ^ 32" using assms by (simp_all add: wsub_small)
  obtain l where l: "smear 1 (n - 1) = 2 ^ l - 1" "n - 1 < 2 ^ l" "l = 0 \<or> 2 ^ (l - 1) \<le> n - 1"
    using smear_small [OF m(2)] by blast
  have "l \<le> 32"
  proof (rule ccontr)
    assume "\<not> l \<le> 32"
    then have "(2::nat) ^ 32 \<le> 2 ^ (l - 1)" by (intro power_increasing) auto
    with l(3) m(2) \<open>\<not> l \<le> 32\<close> show False by auto
  qed
  then have "(2::nat) ^ l \<le> 2 ^ 32" by (intro power_increasing) auto
  then have "NearestUpperPowerOf2 n = 2 ^ l" using l m by (simp add: NearestUpperPowerOf2_def)
  with that [of l] \<open>l \<le> 32\<close> l assms show ?thesis by (cases "l = 0") auto
qed

lemma or_nat_ge: "x \<le> x OR y" for x y :: nat
proof -
  have "int x \<le> int x OR int y" by (simp add: or_greater_eq)
  then show ?thesis by (simp flip: of_nat_or_eq)
qed

lemma NearestUpperPowerOf2_ge:
  assumes "0 < n" and "n \<le> 2 ^ 63"
  shows "n \<le> NearestUpperPowerOf2 n"
proof -
  let ?m = "n - 1"
  have m: "wsub n 1 = ?m" "?m < 2 ^ 63" using assms by (simp_all add: wsub_small)
  have none: "\<not> bit ?m k" if "63 \<le> k" for k
  proof -
    have "(2::nat) ^ 63 \<le> 2 ^ k" using that by (intro power_increasing) auto
    then have "?m < 2 ^ k" using m(2) by linarith
    then show ?thesis by (simp add: bit_iff_odd)
  qed
  have ge: "?m \<le> smear 1 ?m"
    unfolding smear_32 Let_def by (meson or_nat_ge order_trans)
  have "take_bit 63 (smear 1 ?m) = smear 1 ?m"
  proof (rule bit_eqI)
    fix j
    have "j < 63" if "bit (smear 1 ?m) j"
      using that smear_seen [of ?m] none by (auto simp: seen_def) (meson le_add1 not_le order_trans)
    then show "bit (take_bit 63 (smear 1 ?m)) j = bit (smear 1 ?m) j" by (auto simp: bit_take_bit_iff)
  qed
  then have "smear 1 ?m < 2 ^ 63" by (metis take_bit_nat_less_exp)
  then have "NearestUpperPowerOf2 n = smear 1 ?m + 1"
    using m(1) by (simp add: NearestUpperPowerOf2_def)
  then show ?thesis using ge by linarith
qed

text \<open>
  Fact. The bit trick of \<open>NearestUpperPowerOf2\<close> is the least power of two that is not below
  its argument, for every argument from 1 to \<open>2 ^ 32\<close>.
\<close>

theorem nearest_power_is_least:
  assumes "0 < n" and "n \<le> 2 ^ 32"
  shows "IsPowerOf2 (NearestUpperPowerOf2 n) \<and> n \<le> NearestUpperPowerOf2 n \<and>
    (\<forall>d. n \<le> 2 ^ d \<longrightarrow> NearestUpperPowerOf2 n \<le> 2 ^ d)"
proof -
  obtain l where l: "NearestUpperPowerOf2 n = 2 ^ l" "l \<le> 32" "n \<le> 2 ^ l"
    "l = 0 \<or> 2 ^ (l - 1) < n" using NearestUpperPowerOf2_spec [OF assms] by blast
  have "(2::nat) ^ l \<le> 2 ^ 32" using l(2) by (intro power_increasing) auto
  then have "IsPowerOf2 (2 ^ l)" by (subst IsPowerOf2_iff) auto
  moreover have "l \<le> d" if "n \<le> 2 ^ d" for d
  proof (rule ccontr)
    assume "\<not> l \<le> d"
    then have "(2::nat) ^ d \<le> 2 ^ (l - 1)" by (intro power_increasing) auto
    moreover have "2 ^ (l - 1) < n" using l(4) \<open>\<not> l \<le> d\<close> by auto
    ultimately show False using that by linarith
  qed
  ultimately show ?thesis using l by (simp add: power_increasing)
qed

theorem nearest_power_is_least_witness:
  "IsPowerOf2 (NearestUpperPowerOf2 7) \<and> 7 \<le> NearestUpperPowerOf2 7"
  using nearest_power_is_least [of 7] by simp

text \<open>
  Fact. The loop of \<open>NearestUpperPowerOf2\<close> ends before the shift by half of the bit width, so
  on a 64-bit machine the result for \<open>2 ^ 33 + 1\<close> is not a power of two.
\<close>

theorem nearest_power_wrong_above_32_bits:
  "NearestUpperPowerOf2 (2 ^ 33 + 1) = 2 ^ 34 - 3 \<and> \<not> IsPowerOf2 (NearestUpperPowerOf2 (2 ^ 33 + 1))"
proof -
  have "wsub (2 ^ 33 + 1) 1 = 2 ^ 33" by (simp add: wsub_small)
  then have n: "NearestUpperPowerOf2 (2 ^ 33 + 1) = 2 ^ 34 - 3"
    by (simp add: NearestUpperPowerOf2_def smear_32 [simplified] Let_def drop_bit_eq_div)
  then show ?thesis by (simp add: IsPowerOf2_def wsub_small)
qed

end
