(* ===== verification/Bin_Manager.thy ===== *)
theory Bin_Manager
  imports Buddy_Util
begin

text \<open>
  The bin manager of the buddy allocator (\<open>src/BuddyAllocator/src/bin_manager.cpp\<close>): a complete
  binary tree in a vector whose node holds the size of the largest free bin below it. The vector
  refines a tree of free, used and split bins; \<open>Allocate\<close>, \<open>Free\<close> and \<open>SlotCountFor\<close> are shown to
  implement the operations of that tree, and the locale \<open>bin_provider\<close> states what the allocator on
  top of it relies on.
\<close>

section \<open>State and operations\<close>

record bins =
  total_slot_count :: nat
  max_consecutive_slot :: "nat list"

definition noffset :: nat where
  "noffset = 2 ^ 64 - 1"

text \<open>The most elements a vector of \<open>size_t\<close> holds; \<open>resize\<close> throws beyond it.\<close>

definition vector_max_size :: nat where
  "vector_max_size = 2 ^ 60 - 1"

definition slot_at :: "nat list \<Rightarrow> nat \<Rightarrow> nat res" where
  "slot_at m i = (if i < length m \<and> i < vector_max_size then Inr (m ! i) else Inl Out_of_bounds)"

fun fill_nodes :: "nat \<Rightarrow> nat \<Rightarrow> nat \<Rightarrow> nat list" where
  "fill_nodes 0 i node_slot_count = []"
| "fill_nodes (Suc n) i node_slot_count =
     (let node_slot_count = (if IsPowerOf2 (i + 1) then node_slot_count div 2 else node_slot_count)
      in node_slot_count # fill_nodes n (Suc i) node_slot_count)"

definition BinManager_new :: "nat \<Rightarrow> bins res" where
  "BinManager_new total_slots =
     rbind (guard (IsPowerOf2 total_slots) Ensure_failed) (\<lambda>_.
     let node_count = wsub (wrap (2 * total_slots)) 1 in
     rbind (guard (node_count \<le> vector_max_size) (Thrown ''vector::_M_default_append'')) (\<lambda>_.
     Inr \<lparr>total_slot_count = total_slots,
           max_consecutive_slot = fill_nodes node_count 0 (wrap (2 * total_slots))\<rparr>))"

text \<open>The descent of \<open>Allocate\<close> to a node of the wanted size.\<close>

function find_bin :: "nat list \<Rightarrow> nat \<Rightarrow> nat \<Rightarrow> nat \<Rightarrow> nat res" where
  "find_bin m slots_needed node_slots index =
     (if node_slots = slots_needed then Inr index
      else rbind (slot_at m (LeftChild index)) (\<lambda>l.
        if slots_needed \<le> l then find_bin m slots_needed (node_slots div 2) (LeftChild index)
        else find_bin m slots_needed (node_slots div 2) (RightChild index)))"
  by pat_completeness auto

lemma child_grows:
  assumes "slot_at m (LeftChild i) = Inr l"
  shows "LeftChild i < 2 ^ 60 \<and> RightChild i \<le> 2 ^ 60 \<and> (i \<le> 2 ^ 60 \<longrightarrow> i < LeftChild i \<and> i < RightChild i)"
proof -
  have L: "LeftChild i < 2 ^ 60 - 1"
    using assms by (auto simp: slot_at_def vector_max_size_def split: if_splits)
  show ?thesis
  proof (cases "RightChild i = 0")
    case True
    then have "LeftChild i = 2 ^ 64 - 1"
      by (simp add: LeftChild_def RightChild_def wsub_def wrap_def)
    with L show ?thesis by simp
  next
    case False
    then have "LeftChild i = RightChild i - 1"
      using wrap_less by (simp add: LeftChild_def RightChild_def wsub_small Suc_leI)
    moreover have "RightChild i = 2 * i + 2" if "i \<le> 2 ^ 60"
      using that by (simp add: RightChild_def)
    ultimately show ?thesis using L False by auto
  qed
qed

termination find_bin
proof (relation "measure (\<lambda>(m, s, n, i). if 2 ^ 60 < i then 2 ^ 62 else 2 ^ 61 - i)")
  fix m :: "nat list" and s n i l :: nat
  assume "slot_at m (LeftChild i) = Inr l"
  note g = child_grows [OF this]
  show "((m, s, n div 2, LeftChild i), m, s, n, i) \<in>
      measure (\<lambda>(m, s, n, i). if 2 ^ 60 < i then 2 ^ 62 else 2 ^ 61 - i)"
    and "((m, s, n div 2, RightChild i), m, s, n, i) \<in>
      measure (\<lambda>(m, s, n, i). if 2 ^ 60 < i then 2 ^ 62 else 2 ^ 61 - i)"
    using g by auto
qed simp

text \<open>The ascent of \<open>Allocate\<close>: the maxima of the ancestors are recomputed.\<close>

function raise_maxima :: "nat list \<Rightarrow> nat \<Rightarrow> nat list res" where
  "raise_maxima m index =
     (if index = 0 then Inr m
      else let index = Parent index in
        rbind (slot_at m (LeftChild index)) (\<lambda>l.
        rbind (slot_at m (RightChild index)) (\<lambda>r.
        raise_maxima (m[index := max l r]) index)))"
  by pat_completeness auto

lemma parent_shrinks:
  assumes "0 < i" and "slot_at m (LeftChild (Parent i)) = Inr l"
  shows "Parent i < i"
proof (cases "i = 2 ^ 64 - 1")
  case True
  then have "LeftChild (Parent i) = 2 ^ 64 - 1"
    by (simp add: LeftChild_def Parent_def wrap_def wsub_def)
  with assms(2) show ?thesis by (simp add: slot_at_def vector_max_size_def split: if_splits)
qed (use Parent_less assms(1) in blast)

termination raise_maxima
  by (relation "measure (\<lambda>(m, i). i)") (auto simp: parent_shrinks)

definition Bins_Allocate :: "bins \<Rightarrow> nat \<Rightarrow> (nat \<times> bins) res" where
  "Bins_Allocate b slots_required =
     rbind (guard (slots_required \<noteq> 0) Assert_failed) (\<lambda>_.
     let slots_needed = NearestUpperPowerOf2 slots_required; m = max_consecutive_slot b in
     rbind (slot_at m 0) (\<lambda>top.
     if top < slots_needed then Inr (noffset, b)
     else
       rbind (find_bin m slots_needed (total_slot_count b) 0) (\<lambda>index.
       let offset = wsub (wrap (wrap (index + 1) * slots_needed)) (total_slot_count b) in
       rbind (set_at m index 0) (\<lambda>m.
       rbind (raise_maxima m index) (\<lambda>m.
       Inr (offset, b\<lparr>max_consecutive_slot := m\<rparr>))))))"

text \<open>
  The search of \<open>Free\<close> from a leaf up to the first node whose slot count is 0: \<open>None\<close> when the
  root is reached and is not 0.
\<close>

function find_used :: "nat list \<Rightarrow> nat \<Rightarrow> nat \<Rightarrow> (nat \<times> nat) option res" where
  "find_used m node_slot_count index =
     rbind (slot_at m index) (\<lambda>v.
       if v = 0 then Inr (Some (node_slot_count, index))
       else if index = 0 then Inr None
       else find_used m (wrap (2 * node_slot_count)) (Parent index))"
  by pat_completeness auto

lemma slot_at_less: "slot_at m i = Inr v \<Longrightarrow> i < 2 ^ 60"
  by (auto simp: slot_at_def vector_max_size_def split: if_splits)

termination find_used
  by (relation "measure (\<lambda>(m, c, i). i)") (use slot_at_less in \<open>force intro: Parent_less\<close>)+

text \<open>The ascent of \<open>Free\<close>: buddies that are both free are merged.\<close>

function merge_up :: "nat list \<Rightarrow> nat \<Rightarrow> nat \<Rightarrow> nat list res" where
  "merge_up m node_slot_count index =
     (if index = 0 then Inr m
      else let index = Parent index; node_slot_count = wrap (2 * node_slot_count) in
        rbind (slot_at m (LeftChild index)) (\<lambda>lc_slots.
        rbind (slot_at m (RightChild index)) (\<lambda>rc_slots.
        let v = (if wrap (lc_slots + rc_slots) = node_slot_count then node_slot_count
                 else max lc_slots rc_slots)
        in merge_up (m[index := v]) node_slot_count index)))"
  by pat_completeness auto

termination merge_up
  by (relation "measure (\<lambda>(m, c, i). i)") (auto simp: parent_shrinks)

definition Bins_Free :: "bins \<Rightarrow> nat \<Rightarrow> bins res" where
  "Bins_Free b offset =
     rbind (guard (offset < total_slot_count b) Assert_failed) (\<lambda>_.
     let m = max_consecutive_slot b in
     rbind (find_used m 1 (wsub (wrap (offset + total_slot_count b)) 1)) (\<lambda>found.
     case found of
       None \<Rightarrow> Inr b
     | Some (node_slot_count, index) \<Rightarrow>
         rbind (set_at m index node_slot_count) (\<lambda>m.
         rbind (merge_up m node_slot_count index) (\<lambda>m.
         Inr (b\<lparr>max_consecutive_slot := m\<rparr>)))))"

text \<open>The loop of \<open>SlotCountFor\<close> has no test for the root.\<close>

function slot_count_loop :: "nat list \<Rightarrow> nat \<Rightarrow> nat \<Rightarrow> nat res" where
  "slot_count_loop m node_slot_count i =
     rbind (slot_at m i) (\<lambda>v.
       if v = 0 then Inr node_slot_count
       else slot_count_loop m (wrap (2 * node_slot_count)) (Parent i))"
  by pat_completeness auto

termination slot_count_loop
proof (relation "measure (\<lambda>(m, c, i). if i < 2 ^ 60 then Suc i else 0)")
  fix m :: "nat list" and c i v :: nat
  assume "slot_at m i = Inr v"
  then have "i < 2 ^ 60" by (rule slot_at_less)
  then show "((m, wrap (2 * c), Parent i), m, c, i) \<in>
      measure (\<lambda>(m, c, i). if i < 2 ^ 60 then Suc i else 0)"
    using Parent_0 Parent_less [of i] by (cases "i = 0") auto
qed simp

definition SlotCountFor :: "bins \<Rightarrow> nat \<Rightarrow> nat res" where
  "SlotCountFor b offset =
     rbind (guard (offset < total_slot_count b) Assert_failed) (\<lambda>_.
     slot_count_loop (max_consecutive_slot b) 1 (wsub (wrap (offset + total_slot_count b)) 1))"

declare find_bin.simps [simp del] raise_maxima.simps [simp del] find_used.simps [simp del]
  merge_up.simps [simp del] slot_count_loop.simps [simp del]

section \<open>Trees of bins\<close>

datatype bin = Free | Used | Split bin bin

text \<open>The largest free bin of a tree of height \<open>h\<close>, and the halves of a tree of height \<open>h + 1\<close>.\<close>

fun val :: "nat \<Rightarrow> bin \<Rightarrow> nat" where
  "val h Free = 2 ^ h"
| "val h Used = 0"
| "val h (Split l r) = max (val (h - 1) l) (val (h - 1) r)"

fun left_half :: "bin \<Rightarrow> bin" where
  "left_half (Split l r) = l"
| "left_half t = Free"

fun right_half :: "bin \<Rightarrow> bin" where
  "right_half (Split l r) = r"
| "right_half t = Free"

fun fits :: "nat \<Rightarrow> bin \<Rightarrow> bool" where
  "fits 0 (Split l r) = False"
| "fits (Suc h) (Split l r) \<longleftrightarrow> fits h l \<and> fits h r"
| "fits h t = True"

definition join :: "bin \<Rightarrow> bin \<Rightarrow> bin" where
  "join l r = (if l = Free \<and> r = Free then Free else Split l r)"

text \<open>First fit from the left, and the release of the bin that covers an offset.\<close>

fun bin_alloc :: "nat \<Rightarrow> nat \<Rightarrow> bin \<Rightarrow> bin \<times> nat" where
  "bin_alloc k 0 t = (Used, 0)"
| "bin_alloc k (Suc h) t =
     (if k = Suc h then (Used, 0)
      else if 2 ^ k \<le> val h (left_half t)
      then (Split (fst (bin_alloc k h (left_half t))) (right_half t),
            snd (bin_alloc k h (left_half t)))
      else (Split (left_half t) (fst (bin_alloc k h (right_half t))),
            2 ^ h + snd (bin_alloc k h (right_half t))))"

fun bin_free :: "nat \<Rightarrow> nat \<Rightarrow> bin \<Rightarrow> bin" where
  "bin_free (Suc h) off (Split l r) =
     (if off < 2 ^ h then join (bin_free h off l) r else join l (bin_free h (off - 2 ^ h) r))"
| "bin_free h off t = Free"

text \<open>The used bins of a tree at base \<open>b\<close>: offset and size.\<close>

fun blocks :: "nat \<Rightarrow> nat \<Rightarrow> bin \<Rightarrow> (nat \<times> nat) set" where
  "blocks b h Free = {}"
| "blocks b h Used = {(b, 2 ^ h)}"
| "blocks b h (Split l r) = blocks b (h - 1) l \<union> blocks (b + 2 ^ (h - 1)) (h - 1) r"

definition covers :: "nat \<Rightarrow> nat \<times> nat \<Rightarrow> bool" where
  "covers off blk \<longleftrightarrow> fst blk \<le> off \<and> off < fst blk + snd blk"

definition apart :: "nat \<times> nat \<Rightarrow> nat \<times> nat \<Rightarrow> bool" where
  "apart x y \<longleftrightarrow> fst x + snd x \<le> fst y \<or> fst y + snd y \<le> fst x"

lemma val_le: "fits h t \<Longrightarrow> val h t \<le> 2 ^ h"
  by (induction h t rule: fits.induct) (auto intro: le_trans)

lemma val_full: "fits h t \<Longrightarrow> val h t = 2 ^ h \<longleftrightarrow> t = Free"
proof (cases t)
  case (Split l r)
  assume f: "fits h t"
  with Split obtain h' where h: "h = Suc h'" by (cases h) auto
  have "max (val h' l) (val h' r) \<le> 2 ^ h'"
    using Split f h val_le [of h' l] val_le [of h' r] by simp
  moreover have "(2::nat) ^ h' < 2 ^ h" using h by simp
  moreover have "val h t = max (val h' l) (val h' r)" using Split h by simp
  ultimately have "val h t \<noteq> 2 ^ h" by linarith
  moreover have "t \<noteq> Free" using Split by simp
  ultimately show ?thesis by blast
qed auto

lemma val_half:
  "t \<noteq> Used \<Longrightarrow> 2 ^ k \<le> val (Suc h) t \<Longrightarrow> k \<le> h \<Longrightarrow>
   2 ^ k \<le> val h (left_half t) \<or> 2 ^ k \<le> val h (right_half t)"
  by (cases t) auto

lemma fits_halves: "fits (Suc h) t \<Longrightarrow> fits h (left_half t) \<and> fits h (right_half t)"
  by (cases t; cases h) auto

lemma blocks_shape:
  "fits h t \<Longrightarrow> (off, s) \<in> blocks b h t \<Longrightarrow>
   b \<le> off \<and> off + s \<le> b + 2 ^ h \<and> (\<exists>k \<le> h. s = 2 ^ k \<and> 2 ^ k dvd off - b)"
proof (induction h t arbitrary: b rule: fits.induct)
  case (2 h l r)
  from "2.prems"(2) consider "(off, s) \<in> blocks b h l" | "(off, s) \<in> blocks (b + 2 ^ h) h r" by auto
  then show ?case
  proof cases
    case 1
    then show ?thesis using "2.IH"(1) "2.prems"(1) by fastforce
  next
    case 2
    with "2.IH"(2) "2.prems"(1) obtain k where
      k: "b + 2 ^ h \<le> off" "off + s \<le> b + 2 ^ h + 2 ^ h" "k \<le> h" "s = 2 ^ k"
        "2 ^ k dvd off - (b + 2 ^ h)" by fastforce
    have "(2 :: nat) ^ k dvd 2 ^ h" using k(3) by (rule le_imp_power_dvd)
    then have "2 ^ k dvd (off - (b + 2 ^ h)) + 2 ^ h" using k(5) by (rule dvd_add [rotated])
    then have "2 ^ k dvd off - b" using k(1) by (simp add: algebra_simps)
    with k show ?thesis by (auto intro: exI [of _ k])
  qed
qed auto

lemma blocks_apart:
  "fits h t \<Longrightarrow> x \<in> blocks b h t \<Longrightarrow> y \<in> blocks b h t \<Longrightarrow> x \<noteq> y \<Longrightarrow> apart x y"
proof (induction h t arbitrary: b rule: fits.induct)
  case (2 h l r)
  have f: "fits h l" "fits h r" using "2.prems"(1) by auto
  have mixed: "apart u v \<and> apart v u"
    if "u \<in> blocks b h l" "v \<in> blocks (b + 2 ^ h) h r" for u v
    using blocks_shape [OF f(1), of "fst u" "snd u" b] that
      blocks_shape [OF f(2), of "fst v" "snd v" "b + 2 ^ h"] by (auto simp: apart_def)
  have "x \<in> blocks b h l \<union> blocks (b + 2 ^ h) h r" "y \<in> blocks b h l \<union> blocks (b + 2 ^ h) h r"
    using "2.prems"(2,3) by simp_all
  then show ?case
    using "2.IH"(1) [OF f(1), of b] "2.IH"(2) [OF f(2), of "b + 2 ^ h"] mixed "2.prems"(4) by blast
qed auto

lemma blocks_halves:
  "t \<noteq> Used \<Longrightarrow> blocks b (Suc h) t = blocks b h (left_half t) \<union> blocks (b + 2 ^ h) h (right_half t)"
  by (cases t) auto

lemma bin_alloc_blocks:
  "fits h t \<Longrightarrow> 2 ^ k \<le> val h t \<Longrightarrow>
   fits h (fst (bin_alloc k h t)) \<and>
   blocks b h (fst (bin_alloc k h t)) = blocks b h t \<union> {(b + snd (bin_alloc k h t), 2 ^ k)} \<and>
   (b + snd (bin_alloc k h t), 2 ^ k) \<notin> blocks b h t"
proof (induction h arbitrary: b t)
  case 0
  then have "t = Free" by (cases t) auto
  moreover from 0 this have "k = 0" using one_less_power [of "2::nat" k] by fastforce
  ultimately show ?case by simp
next
  case (Suc h)
  let ?l = "left_half t" and ?r = "right_half t"
  have f: "fits h ?l" "fits h ?r" using fits_halves [OF Suc.prems(1)] by auto
  have "t \<noteq> Used" using Suc.prems(2) by auto
  show ?case
  proof (cases "k = Suc h")
    case True
    then have "val (Suc h) t = 2 ^ Suc h" using val_le [OF Suc.prems(1)] Suc.prems(2) by (metis le_antisym)
    then have "t = Free" using val_full [OF Suc.prems(1)] by blast
    with True show ?thesis by simp
  next
    case False
    have "(2::nat) ^ k \<le> 2 ^ Suc h" using Suc.prems(2) val_le [OF Suc.prems(1)] by linarith
    then have "k \<le> Suc h" by (rule power_le_imp_le_exp [rotated]) simp
    then have "k \<le> h" using False by simp
    note halves = blocks_halves [OF \<open>t \<noteq> Used\<close>, of b h]
    show ?thesis
    proof (cases "2 ^ k \<le> val h ?l")
      case True
      note IH = Suc.IH [OF f(1) True, of b]
      have "b + snd (bin_alloc k h ?l) + 2 ^ k \<le> b + 2 ^ h"
        using blocks_shape [of h "fst (bin_alloc k h ?l)" _ _ b] IH by auto
      then have "\<not> b + 2 ^ h \<le> b + snd (bin_alloc k h ?l)"
        using zero_less_power [of "2::nat" k] by linarith
      then have "(b + snd (bin_alloc k h ?l), 2 ^ k) \<notin> blocks (b + 2 ^ h) h ?r"
        using blocks_shape [OF f(2)] by blast
      with IH False True f halves show ?thesis by auto
    next
      case False2: False
      then have R: "2 ^ k \<le> val h ?r"
        using val_half [OF \<open>t \<noteq> Used\<close> Suc.prems(2) \<open>k \<le> h\<close>] by simp
      note IH = Suc.IH [OF f(2) R, of "b + 2 ^ h"]
      have "(b + 2 ^ h + snd (bin_alloc k h ?r), 2 ^ k) \<notin> blocks b h ?l"
        using blocks_shape [OF f(1), of "b + 2 ^ h + snd (bin_alloc k h ?r)" "2 ^ k" b] by auto
      with IH False False2 f halves show ?thesis by (auto simp: add.assoc)
    qed
  qed
qed

lemma blocks_join: "blocks b (Suc h) (join l r) = blocks b h l \<union> blocks (b + 2 ^ h) h r"
  by (simp add: join_def)

lemma fits_join: "fits h l \<Longrightarrow> fits h r \<Longrightarrow> fits (Suc h) (join l r)"
  by (simp add: join_def)

lemma bin_free_blocks:
  "fits h t \<Longrightarrow> off < 2 ^ h \<Longrightarrow>
   fits h (bin_free h off t) \<and>
   blocks b h (bin_free h off t) = {x \<in> blocks b h t. \<not> covers (b + off) x}"
proof (induction h t arbitrary: b off rule: fits.induct)
  case (2 h l r)
  have f: "fits h l" "fits h r" using "2.prems"(1) by auto
  show ?case
  proof (cases "off < 2 ^ h")
    case True
    have "\<not> covers (b + off) x" if "x \<in> blocks (b + 2 ^ h) h r" for x
      using blocks_shape [OF f(2), of "fst x" "snd x"] that True by (fastforce simp: covers_def)
    with True "2.IH"(1) [OF f(1) True, of b] f show ?thesis
      by (auto simp: blocks_join fits_join)
  next
    case False
    have "\<not> covers (b + off) x" if "x \<in> blocks b h l" for x
      using blocks_shape [OF f(1), of "fst x" "snd x"] that False by (fastforce simp: covers_def)
    moreover have "off - 2 ^ h < 2 ^ h" using "2.prems"(2) by simp
    note "2.IH"(2) [OF f(2) this, of "b + 2 ^ h"]
    ultimately show ?thesis using False f by (auto simp: blocks_join fits_join)
  qed
qed (auto simp: covers_def)

section \<open>The vector represents a tree\<close>

fun fresh :: "nat list \<Rightarrow> nat \<Rightarrow> nat \<Rightarrow> bool" where
  "fresh m i 0 \<longleftrightarrow> i < length m \<and> m ! i = 1"
| "fresh m i (Suc h) \<longleftrightarrow> i < length m \<and> m ! i = 2 ^ Suc h \<and>
     fresh m (2 * i + 1) h \<and> fresh m (2 * i + 2) h"

text \<open>Below a used node the vector keeps the values of a free subtree.\<close>

fun rep :: "nat list \<Rightarrow> nat \<Rightarrow> nat \<Rightarrow> bin \<Rightarrow> bool" where
  "rep m i h Free \<longleftrightarrow> fresh m i h"
| "rep m i 0 Used \<longleftrightarrow> i < length m \<and> m ! i = 0"
| "rep m i (Suc h) Used \<longleftrightarrow> i < length m \<and> m ! i = 0 \<and>
     fresh m (2 * i + 1) h \<and> fresh m (2 * i + 2) h"
| "rep m i 0 (Split l r) \<longleftrightarrow> False"
| "rep m i (Suc h) (Split l r) \<longleftrightarrow> i < length m \<and> m ! i = max (val h l) (val h r) \<and>
     rep m (2 * i + 1) h l \<and> rep m (2 * i + 2) h r"

fun sub :: "nat \<Rightarrow> nat \<Rightarrow> nat set" where
  "sub i 0 = {i}"
| "sub i (Suc h) = {i} \<union> sub (2 * i + 1) h \<union> sub (2 * i + 2) h"

definition agree_off :: "nat set \<Rightarrow> nat list \<Rightarrow> nat list \<Rightarrow> bool" where
  "agree_off s m m' \<longleftrightarrow> length m' = length m \<and> (\<forall>j. j \<notin> s \<longrightarrow> m' ! j = m ! j)"

lemma fresh_root: "fresh m i h \<Longrightarrow> i < length m \<and> m ! i = 2 ^ h"
  by (cases h) auto

lemma rep_root: "rep m i h t \<Longrightarrow> i < length m \<and> m ! i = val h t"
  by (cases "(m, i, h, t)" rule: rep.cases) (auto dest: fresh_root)

lemma rep_fits: "rep m i h t \<Longrightarrow> fits h t"
  by (induction m i h t rule: rep.induct) auto

lemma rep_halves:
  "rep m i (Suc h) t \<Longrightarrow> rep m (2 * i + 1) h (left_half t) \<and> rep m (2 * i + 2) h (right_half t)"
  by (cases t) auto

lemma fresh_length: "fresh m i h \<Longrightarrow> (i + 2) * 2 ^ h \<le> length m + 1"
proof (induction h arbitrary: i)
  case (Suc h)
  have "fresh m (2 * i + 2) h" using Suc.prems by simp
  from Suc.IH [OF this] have "(2 * i + 2 + 2) * 2 ^ h \<le> length m + 1" .
  then show ?case by (simp add: algebra_simps)
qed simp

lemma rep_length: "rep m i h t \<Longrightarrow> (i + 2) * 2 ^ h \<le> length m + 1"
proof (induction h arbitrary: i t)
  case 0
  then show ?case using rep_root by fastforce
next
  case (Suc h)
  from Suc.IH rep_halves [OF Suc.prems] have "(2 * i + 2 + 2) * 2 ^ h \<le> length m + 1" by blast
  then show ?case by (simp add: algebra_simps)
qed

lemma fresh_agree: "agree_off s m m' \<Longrightarrow> sub i h \<inter> s = {} \<Longrightarrow> fresh m i h \<Longrightarrow> fresh m' i h"
  by (induction h arbitrary: i) (auto simp: agree_off_def Int_Un_distrib2)

lemma rep_agree: "agree_off s m m' \<Longrightarrow> sub i h \<inter> s = {} \<Longrightarrow> rep m i h t \<Longrightarrow> rep m' i h t"
proof (induction h arbitrary: i t)
  case 0
  then show ?case by (cases t) (auto simp: agree_off_def)
next
  case (Suc h)
  have d: "sub (2 * i + 1) h \<inter> s = {}" "sub (2 * i + 2) h \<inter> s = {}" "i \<notin> s"
    using Suc.prems(2) by (auto simp: Int_Un_distrib2)
  note a = Suc.prems(1)
  show ?case
  proof (cases t)
    case Free
    then show ?thesis using fresh_agree [OF a Suc.prems(2)] Suc.prems(3) by simp
  next
    case Used
    then show ?thesis using fresh_agree [OF a d(1)] fresh_agree [OF a d(2)] d(3) Suc.prems(3) a
      by (auto simp: agree_off_def)
  next
    case (Split l r)
    then show ?thesis using Suc.IH [OF a d(1)] Suc.IH [OF a d(2)] d(3) Suc.prems(3) a
      by (auto simp: agree_off_def)
  qed
qed

lemma sub_div: "j \<in> sub i h \<Longrightarrow> \<exists>d \<le> h. Suc j div 2 ^ d = Suc i"
proof (induction h arbitrary: i)
  case (Suc h)
  from Suc.prems consider "j = i" | "j \<in> sub (2 * i + 1) h" | "j \<in> sub (2 * i + 2) h" by auto
  then show ?case
  proof cases
    case 1
    then show ?thesis by (intro exI [of _ 0]) simp
  next
    case 2
    then obtain d where "d \<le> h" "Suc j div 2 ^ d = Suc (2 * i + 1)" using Suc.IH by blast
    then have "Suc j div 2 ^ d div 2 = Suc i" by simp
    then have "Suc j div 2 ^ Suc d = Suc i" by (simp only: power_Suc2 div_mult2_eq)
    then show ?thesis using \<open>d \<le> h\<close> by (intro exI [of _ "Suc d"]) simp
  next
    case 3
    then obtain d where "d \<le> h" "Suc j div 2 ^ d = Suc (2 * i + 2)" using Suc.IH by blast
    then have "Suc j div 2 ^ d div 2 = Suc i" by simp
    then have "Suc j div 2 ^ Suc d = Suc i" by (simp only: power_Suc2 div_mult2_eq)
    then show ?thesis using \<open>d \<le> h\<close> by (intro exI [of _ "Suc d"]) simp
  qed
qed auto

lemma div_unique_level:
  fixes q :: nat
  assumes "q div 2 ^ d = x" and "q div 2 ^ e = y" and "0 < x" and "x < y" and "y < 2 * x"
  shows False
proof (cases d e rule: linorder_cases)
  case less
  then obtain c where c: "e = d + Suc c" using less_natE by auto
  have "y = q div (2 ^ d * 2 ^ Suc c)" using assms(2) c by (simp only: power_add)
  then have "y = x div 2 ^ Suc c" using assms(1) by (simp only: div_mult2_eq)
  also have "\<dots> \<le> x" by simp
  finally show False using assms(4) by simp
next
  case greater
  then obtain c where c: "d = e + Suc c" using less_natE by auto
  have "x = q div (2 ^ e * 2 ^ Suc c)" using assms(1) c by (simp only: power_add)
  then have "x = y div 2 ^ Suc c" using assms(2) by (simp only: div_mult2_eq)
  also have "\<dots> = y div 2 div 2 ^ c" by (simp add: div_mult2_eq)
  also have "\<dots> \<le> y div 2" by simp
  finally show False using assms(5) by linarith
qed (use assms in simp)

lemma sub_disjoint:
  "sub (2 * i + 1) h \<inter> sub (2 * i + 2) h = {}" "i \<notin> sub (2 * i + 1) h" "i \<notin> sub (2 * i + 2) h"
proof -
  show "sub (2 * i + 1) h \<inter> sub (2 * i + 2) h = {}"
  proof (rule ccontr)
    assume "sub (2 * i + 1) h \<inter> sub (2 * i + 2) h \<noteq> {}"
    then obtain j where "j \<in> sub (2 * i + 1) h" "j \<in> sub (2 * i + 2) h" by blast
    from sub_div [OF this(1)] sub_div [OF this(2)] obtain d e where
      "Suc j div 2 ^ d = Suc (2 * i + 1)" "Suc j div 2 ^ e = Suc (2 * i + 2)" by blast
    then show False by (rule div_unique_level) auto
  qed
  have le: "i' \<le> j" if "j \<in> sub i' h'" for i' j h'
    using that by (induction h' arbitrary: i') fastforce+
  show "i \<notin> sub (2 * i + 1) h" "i \<notin> sub (2 * i + 2) h" using le by fastforce+
qed

section \<open>One step of an ascent\<close>

lemma index_steps:
  assumes "length m \<le> vector_max_size" and "2 * i + 2 < length m"
  shows "slot_at m (LeftChild i) = Inr (m ! (2 * i + 1))"
    and "slot_at m (RightChild i) = Inr (m ! (2 * i + 2))"
    and "Parent (2 * i + 1) = i" and "Parent (2 * i + 2) = i"
    and "LeftChild i = 2 * i + 1" and "RightChild i = 2 * i + 2"
proof -
  have i: "2 * i + 2 < 2 ^ 60 - 1" using assms by (simp add: vector_max_size_def)
  then have c: "LeftChild i = 2 * i + 1" "RightChild i = 2 * i + 2" by (simp_all add: Child_eq)
  then show "LeftChild i = 2 * i + 1" "RightChild i = 2 * i + 2" by simp_all
  show "slot_at m (LeftChild i) = Inr (m ! (2 * i + 1))"
    "slot_at m (RightChild i) = Inr (m ! (2 * i + 2))"
    using c i assms by (simp_all add: slot_at_def)
  show "Parent (2 * i + 1) = i" "Parent (2 * i + 2) = i" using i by (simp_all only: Parent_Child)
qed

lemma slot_at_ok: "length m \<le> vector_max_size \<Longrightarrow> i < length m \<Longrightarrow> slot_at m i = Inr (m ! i)"
  by (simp add: slot_at_def)

lemma raise_step:
  assumes "length m \<le> vector_max_size" and "2 * i + 2 < length m"
    and "j = 2 * i + 1 \<or> j = 2 * i + 2"
  shows "raise_maxima m j = raise_maxima (m[i := max (m ! (2 * i + 1)) (m ! (2 * i + 2))]) i"
proof -
  have "Parent j = i" "j \<noteq> 0" using assms(3) index_steps(3,4) [OF assms(1,2)] by auto
  then show ?thesis
    unfolding raise_maxima.simps [of m j] 
    by (simp only: Let_def index_steps(1,2) [OF assms(1,2)] rbind_simps if_False)
qed

definition merged :: "nat \<Rightarrow> nat \<Rightarrow> nat \<Rightarrow> nat" where
  "merged h l r = (if l + r = 2 ^ Suc h then 2 ^ Suc h else max l r)"

lemma merge_step:
  assumes "length m \<le> vector_max_size" and "2 * i + 2 < length m" and "h < 60"
    and "j = 2 * i + 1 \<or> j = 2 * i + 2"
    and "m ! (2 * i + 1) \<le> 2 ^ h" and "m ! (2 * i + 2) \<le> 2 ^ h"
  shows "merge_up m (2 ^ h) j =
    merge_up (m[i := merged h (m ! (2 * i + 1)) (m ! (2 * i + 2))]) (2 ^ Suc h) i"
proof -
  have "Parent j = i" "j \<noteq> 0" using assms(4) index_steps(3,4) [OF assms(1,2)] by auto
  moreover have "(2::nat) ^ Suc h \<le> 2 ^ 60" using assms(3) by (intro power_increasing) auto
  then have "wrap (2 * 2 ^ h) = 2 ^ Suc h" by simp
  moreover have "m ! (2 * i + 1) + m ! (2 * i + 2) \<le> 2 ^ Suc h" using assms(5,6) by simp
  then have "wrap (m ! (2 * i + 1) + m ! (2 * i + 2)) = m ! (2 * i + 1) + m ! (2 * i + 2)"
    using \<open>2 ^ Suc h \<le> 2 ^ 60\<close> by (intro wrap_small) (simp del: power_Suc)
  ultimately show ?thesis
    unfolding merge_up.simps [of m "2 ^ h" j]
    by (simp only: Let_def index_steps(1,2) [OF assms(1,2)] rbind_simps if_False merged_def)
qed

lemma rep_below:
  assumes "rep m i (Suc h) t"
  shows "2 * i + 2 < length m"
  using rep_root [OF conjunct2 [OF rep_halves [OF assms]]] by simp

lemma agree_update: "agree_off s m m' \<Longrightarrow> i \<in> s' \<Longrightarrow> s \<subseteq> s' \<Longrightarrow> agree_off s' m (m'[i := v])"
  unfolding agree_off_def by (metis length_list_update nth_list_update_neq subsetD)

text \<open>The node above two represented halves, with any of its three shapes.\<close>

lemma rep_update_self:
  assumes "rep m (2 * i + 1) h l" and "rep m (2 * i + 2) h r"
  shows "rep (m[i := v]) (2 * i + 1) h l" and "rep (m[i := v]) (2 * i + 2) h r"
proof -
  have "agree_off {i} m (m[i := v])" by (simp add: agree_off_def)
  then show "rep (m[i := v]) (2 * i + 1) h l" "rep (m[i := v]) (2 * i + 2) h r"
    using assms sub_disjoint(2,3) [of i h] by (auto intro: rep_agree)
qed

lemma rep_Split_max:
  assumes "rep m (2 * i + 1) h l" and "rep m (2 * i + 2) h r"
  shows "rep (m[i := max (m ! (2 * i + 1)) (m ! (2 * i + 2))]) i (Suc h) (Split l r)"
proof -
  have "i < length m" using rep_root [OF assms(1)] by simp
  then show ?thesis using rep_update_self [OF assms] rep_root [OF assms(1)] rep_root [OF assms(2)]
    by simp
qed

lemma rep_join_merged:
  assumes "rep m (2 * i + 1) h l" and "rep m (2 * i + 2) h r"
  shows "rep (m[i := merged h (m ! (2 * i + 1)) (m ! (2 * i + 2))]) i (Suc h) (join l r)"
proof -
  have i: "i < length m" using rep_root [OF assms(1)] by simp
  have v: "m ! (2 * i + 1) = val h l" "m ! (2 * i + 2) = val h r"
    using rep_root [OF assms(1)] rep_root [OF assms(2)] by auto
  have f: "fits h l" "fits h r" using assms by (auto intro: rep_fits)
  note w = rep_update_self [OF assms]
  show ?thesis
  proof (cases "l = Free \<and> r = Free")
    case True
    then show ?thesis using w i v by (simp add: join_def merged_def)
  next
    case False
    then have "val h l + val h r \<noteq> 2 ^ Suc h"
      using val_le [OF f(1)] val_le [OF f(2)] val_full [OF f(1)] val_full [OF f(2)] by auto
    then show ?thesis using w i v False by (auto simp: join_def merged_def)
  qed
qed

lemma agree_half:
  assumes "agree_off (sub j h) m m'" and "j = 2 * i + 1 \<and> j' = 2 * i + 2 \<or> j = 2 * i + 2 \<and> j' = 2 * i + 1"
    and "rep m j' h t"
  shows "rep m' j' h t" and "agree_off (sub i (Suc h)) m (m'[i := v])"
proof -
  show "rep m' j' h t" using rep_agree [OF assms(1) _ assms(3)] sub_disjoint(1) [of i h] assms(2) by blast
  show "agree_off (sub i (Suc h)) m (m'[i := v])"
    by (rule agree_update [OF assms(1)]) (use assms(2) in auto)
qed

section \<open>Allocate refines the first fit\<close>

lemma find_bin_same: "find_bin m s s i = Inr i"
  by (simp add: find_bin.simps)

lemma find_bin_step:
  assumes "length m \<le> vector_max_size" and "rep m i (Suc h) t" and "k < Suc h"
  shows "find_bin m (2 ^ k) (2 ^ Suc h) i =
    (if 2 ^ k \<le> val h (left_half t) then find_bin m (2 ^ k) (2 ^ h) (2 * i + 1)
     else find_bin m (2 ^ k) (2 ^ h) (2 * i + 2))"
proof -
  note i = index_steps [OF assms(1) rep_below [OF assms(2)]]
  have v: "m ! (2 * i + 1) = val h (left_half t)"
    using rep_root [OF conjunct1 [OF rep_halves [OF assms(2)]]] by simp
  have "(2::nat) ^ Suc h \<noteq> 2 ^ k" using assms(3) by (simp only: power_inject_exp)
  then show ?thesis
    unfolding find_bin.simps [of m "2 ^ k" "2 ^ Suc h" i] i(1) v by (simp add: i(5,6))
qed

lemma alloc_sub:
  assumes len: "length m \<le> vector_max_size"
  shows "rep m i h t \<Longrightarrow> 2 ^ k \<le> val h t \<Longrightarrow>
    \<exists>j m'. find_bin m (2 ^ k) (2 ^ h) i = Inr j \<and> j < length m \<and>
      raise_maxima (m[j := 0]) j = raise_maxima m' i \<and> agree_off (sub i h) m m' \<and>
      rep m' i h (fst (bin_alloc k h t)) \<and> (j + 1) * 2 ^ k = (i + 1) * 2 ^ h + snd (bin_alloc k h t)"
proof (induction h arbitrary: i t)
  case 0
  have "(2::nat) ^ k \<le> 2 ^ 0" using 0 val_le [OF rep_fits [OF 0(1)]] by linarith
  then have "k = 0" using power_le_imp_le_exp [of "2::nat" k 0] by simp
  then show ?case using rep_root [OF 0(1)]
    by (intro exI [of _ i] exI [of _ "m[i := 0]"])
      (auto simp: find_bin_same agree_off_def)
next
  case (Suc h)
  note fits = rep_fits [OF Suc.prems(1)]
  note halves = rep_halves [OF Suc.prems(1)]
  have i: "i < length m" "2 * i + 2 < length m"
    using rep_root [OF Suc.prems(1)] rep_below [OF Suc.prems(1)] by auto
  have "(2::nat) ^ k \<le> 2 ^ Suc h" using Suc.prems(2) val_le [OF fits] by linarith
  then have "k \<le> Suc h" by (rule power_le_imp_le_exp [rotated]) simp
  then consider "k = Suc h" | "k < Suc h" "2 ^ k \<le> val h (left_half t)"
    | "k < Suc h" "\<not> 2 ^ k \<le> val h (left_half t)" by linarith
  then show ?case
  proof cases
    case 1
    then have "val (Suc h) t = 2 ^ Suc h" using val_le [OF fits] Suc.prems(2) by (metis le_antisym)
    then have "t = Free" using val_full [OF fits] by blast
    with rep_update_self [of m i h Free Free 0] halves
    have "rep (m[i := 0]) i (Suc h) Used" using i by simp
    moreover have "agree_off (sub i (Suc h)) m (m[i := 0])" by (simp add: agree_off_def)
    ultimately show ?thesis using 1 i(1)
      by (intro exI [of _ i] exI [of _ "m[i := 0]"]) (simp add: find_bin_same)
  next
    case 2
    from Suc.IH [OF conjunct1 [OF halves] 2(2)] obtain j m' where
      j: "find_bin m (2 ^ k) (2 ^ h) (2 * i + 1) = Inr j" "j < length m"
        "raise_maxima (m[j := 0]) j = raise_maxima m' (2 * i + 1)"
        "agree_off (sub (2 * i + 1) h) m m'"
        "rep m' (2 * i + 1) h (fst (bin_alloc k h (left_half t)))"
        "(j + 1) * 2 ^ k = (2 * i + 1 + 1) * 2 ^ h + snd (bin_alloc k h (left_half t))" by blast
    let ?m = "m'[i := max (m' ! (2 * i + 1)) (m' ! (2 * i + 2))]"
    have l': "length m' = length m" using j(4) by (simp add: agree_off_def)
    have r: "rep m' (2 * i + 2) h (right_half t)" and a: "agree_off (sub i (Suc h)) m ?m"
      using agree_half [OF j(4), of i "2 * i + 2"] halves by auto
    have "raise_maxima m' (2 * i + 1) = raise_maxima ?m i"
      using raise_step [of m' i "2 * i + 1"] len i l' by simp
    moreover have "rep ?m i (Suc h) (Split (fst (bin_alloc k h (left_half t))) (right_half t))"
      by (rule rep_Split_max [OF j(5) r])
    ultimately show ?thesis
      using j(1,2,3,6) a 2 find_bin_step [OF len Suc.prems(1) 2(1)]
      by (intro exI [of _ j] exI [of _ ?m]) simp
  next
    case 3
    have "t \<noteq> Used" using Suc.prems(2) by auto
    then have R: "2 ^ k \<le> val h (right_half t)"
      using val_half [OF _ Suc.prems(2)] 3 by auto
    from Suc.IH [OF conjunct2 [OF halves] R] obtain j m' where
      j: "find_bin m (2 ^ k) (2 ^ h) (2 * i + 2) = Inr j" "j < length m"
        "raise_maxima (m[j := 0]) j = raise_maxima m' (2 * i + 2)"
        "agree_off (sub (2 * i + 2) h) m m'"
        "rep m' (2 * i + 2) h (fst (bin_alloc k h (right_half t)))"
        "(j + 1) * 2 ^ k = (2 * i + 2 + 1) * 2 ^ h + snd (bin_alloc k h (right_half t))" by blast
    let ?m = "m'[i := max (m' ! (2 * i + 1)) (m' ! (2 * i + 2))]"
    have l': "length m' = length m" using j(4) by (simp add: agree_off_def)
    have l: "rep m' (2 * i + 1) h (left_half t)" and a: "agree_off (sub i (Suc h)) m ?m"
      using agree_half [OF j(4), of i "2 * i + 1"] halves by auto
    have "raise_maxima m' (2 * i + 2) = raise_maxima ?m i"
      using raise_step [of m' i "2 * i + 2"] len i l' by simp
    moreover have "rep ?m i (Suc h) (Split (left_half t) (fst (bin_alloc k h (right_half t))))"
      by (rule rep_Split_max [OF l j(5)])
    ultimately show ?thesis
      using j(1,2,3,6) a 3 find_bin_step [OF len Suc.prems(1) 3(1)]
      by (intro exI [of _ j] exI [of _ ?m]) (simp add: algebra_simps)
  qed
qed

section \<open>Free refines the release of a bin\<close>

lemma find_used_step:
  assumes "length m \<le> vector_max_size" and "2 * i + 2 < length m" and "h < 60"
    and "j = 2 * i + 1 \<or> j = 2 * i + 2" and "m ! j \<noteq> 0"
  shows "find_used m (2 ^ h) j = find_used m (2 ^ Suc h) i"
proof -
  have "Parent j = i" "j \<noteq> 0" "j < length m"
    using assms(2,4) index_steps(3,4) [OF assms(1,2)] by auto
  moreover have "(2::nat) ^ Suc h \<le> 2 ^ 60" using assms(3) by (intro power_increasing) auto
  then have "wrap (2 * 2 ^ h) = 2 ^ Suc h" by simp
  ultimately show ?thesis
    unfolding find_used.simps [of m "2 ^ h" j] using assms(5)
    by (simp only: slot_at_ok [OF assms(1)] rbind_simps if_False)
qed

lemma find_used_here:
  "length m \<le> vector_max_size \<Longrightarrow> i < length m \<Longrightarrow> m ! i = 0 \<Longrightarrow>
   find_used m c i = Inr (Some (c, i))"
  by (simp add: find_used.simps [of m c i] slot_at_ok)

lemma rep_height: "length m \<le> vector_max_size \<Longrightarrow> rep m i h t \<Longrightarrow> h < 60"
proof -
  assume "length m \<le> vector_max_size" "rep m i h t"
  with rep_length [of m i h t] have "(i + 2) * 2 ^ h \<le> (2::nat) ^ 60"
    by (simp add: vector_max_size_def)
  moreover have "2 * 2 ^ h \<le> (i + 2) * (2::nat) ^ h" by (rule mult_right_mono) auto
  ultimately have "(2::nat) ^ Suc h \<le> 2 ^ 60" by simp
  then have "Suc h \<le> 60" by (rule power_le_imp_le_exp [rotated]) simp
  then show ?thesis by simp
qed

lemma val_uncovered:
  "fits h t \<Longrightarrow> off < 2 ^ h \<Longrightarrow> \<forall>x \<in> blocks b h t. \<not> covers (b + off) x \<Longrightarrow> 0 < val h t"
proof (induction h t arbitrary: b off rule: fits.induct)
  case (2 h l r)
  show ?case
  proof (cases "off < 2 ^ h")
    case True
    then show ?thesis using "2.IH"(1) [of off b] "2.prems" by auto
  next
    case False
    then have "off - 2 ^ h < 2 ^ h" using "2.prems"(2) by simp
    moreover have "\<forall>x \<in> blocks (b + 2 ^ h) h r. \<not> covers (b + 2 ^ h + (off - 2 ^ h)) x"
      using "2.prems"(3) False by auto
    ultimately show ?thesis using "2.IH"(2) [of "off - 2 ^ h" "b + 2 ^ h"] "2.prems"(1) by auto
  qed
qed (auto simp: covers_def)

lemma leaf_right:
  fixes off :: nat
  assumes "2 ^ h \<le> off"
  shows "(2 * i + 2 + 1) * 2 ^ h + (off - 2 ^ h) - 1 = (i + 1) * 2 ^ Suc h + off - 1"
proof -
  obtain d where "off = 2 ^ h + d" using assms le_Suc_ex by blast
  then show ?thesis by (simp add: algebra_simps)
qed

text \<open>From a leaf in no used bin the search passes through the root of the subtree.\<close>

lemma find_uncovered:
  assumes len: "length m \<le> vector_max_size"
  shows "rep m i h t \<Longrightarrow> off < 2 ^ h \<Longrightarrow> \<forall>x \<in> blocks b h (if t = Used then Free else t). \<not> covers (b + off) x \<Longrightarrow>
    find_used m 1 ((i + 1) * 2 ^ h + off - 1) = find_used m (2 ^ h) i"
proof (induction h arbitrary: i t b off)
  case (Suc h)
  note halves = rep_halves [OF Suc.prems(1)]
  note step = find_used_step [OF len rep_below [OF Suc.prems(1)]]
  have h: "h < 60" using rep_height [OF len] halves by blast
  let ?t = "if t = Used then Free else t"
  have t: "?t \<noteq> Used" "left_half ?t = left_half t" "right_half ?t = right_half t" by auto
  have free: "\<forall>x \<in> blocks b h (left_half t). \<not> covers (b + off) x"
    "\<forall>x \<in> blocks (b + 2 ^ h) h (right_half t). \<not> covers (b + off) x"
    using Suc.prems(3) blocks_halves [OF t(1), of b h] t by auto
  show ?case
  proof (cases "off < 2 ^ h")
    case True
    have v: "0 < val h (left_half t)"
      using val_uncovered [OF rep_fits True free(1)] halves by blast
    then have "left_half t \<noteq> Used" by auto
    then have "find_used m 1 ((2 * i + 1 + 1) * 2 ^ h + off - 1) = find_used m (2 ^ h) (2 * i + 1)"
      using Suc.IH [OF conjunct1 [OF halves] True, of b] free(1) by simp
    moreover have "m ! (2 * i + 1) \<noteq> 0" using rep_root halves v by fastforce
    ultimately show ?thesis using step [OF h, of "2 * i + 1"] by (simp add: algebra_simps)
  next
    case False
    then have o: "off - 2 ^ h < 2 ^ h" "b + 2 ^ h + (off - 2 ^ h) = b + off"
      using Suc.prems(2) by auto
    have v: "0 < val h (right_half t)"
      using val_uncovered [OF rep_fits o(1), of m "2 * i + 2" "right_half t" "b + 2 ^ h"]
        halves free(2) o(2) by simp
    then have "right_half t \<noteq> Used" by auto
    then have "find_used m 1 ((2 * i + 2 + 1) * 2 ^ h + (off - 2 ^ h) - 1) =
        find_used m (2 ^ h) (2 * i + 2)"
      using Suc.IH [OF conjunct2 [OF halves] o(1), of "b + 2 ^ h"] free(2) o(2) by simp
    moreover have "m ! (2 * i + 2) \<noteq> 0" using rep_root halves v by fastforce
    moreover have "(2 * i + 2 + 1) * 2 ^ h + (off - 2 ^ h) - 1 = (i + 1) * 2 ^ Suc h + off - 1"
      using False by (intro leaf_right) simp
    ultimately show ?thesis using step [OF h, of "2 * i + 2"] by (simp only: simp_thms)
  qed
qed simp

lemma free_sub:
  assumes len: "length m \<le> vector_max_size"
  shows "rep m i h t \<Longrightarrow> off < 2 ^ h \<Longrightarrow> x \<in> blocks b h t \<Longrightarrow> covers (b + off) x \<Longrightarrow>
    \<exists>j m'. find_used m 1 ((i + 1) * 2 ^ h + off - 1) = Inr (Some (snd x, j)) \<and> j < length m \<and>
      merge_up (m[j := snd x]) (snd x) j = merge_up m' (2 ^ h) i \<and> agree_off (sub i h) m m' \<and>
      rep m' i h (bin_free h off t)"
proof (induction h arbitrary: i t b off)
  case 0
  then have t: "t = Used" and x: "x = (b, 1)" by (cases t; auto)+
  moreover have "find_used m 1 i = Inr (Some (1, i))"
    using 0 t by (auto intro: find_used_here [OF len])
  ultimately show ?case using 0
    by (intro exI [of _ i] exI [of _ "m[i := 1]"]) (auto simp: agree_off_def)
next
  case (Suc h)
  note halves = rep_halves [OF Suc.prems(1)]
  have i: "i < length m" "2 * i + 2 < length m"
    using rep_root [OF Suc.prems(1)] rep_below [OF Suc.prems(1)] by auto
  have h: "h < 60" using rep_height [OF len] halves by blast
  have small: "rep m' j h t' \<Longrightarrow> m' ! j \<le> 2 ^ h" for m' j t'
    using rep_root val_le rep_fits by metis
  show ?case
  proof (cases "t = Used")
    case True
    then have x: "x = (b, 2 ^ Suc h)" using Suc.prems(3) by simp
    have "find_used m 1 ((i + 1) * 2 ^ Suc h + off - 1) = find_used m (2 ^ Suc h) i"
      using find_uncovered [OF len Suc.prems(1,2), of 0] True by simp
    moreover have "find_used m (2 ^ Suc h) i = Inr (Some (2 ^ Suc h, i))"
      using Suc.prems(1) True by (intro find_used_here [OF len]) simp_all
    moreover have "rep (m[i := 2 ^ Suc h]) i (Suc h) Free"
      using rep_update_self [of m i h Free Free "2 ^ Suc h"] halves i(1) True by simp
    ultimately show ?thesis using x i True
      by (intro exI [of _ i] exI [of _ "m[i := 2 ^ Suc h]"]) (simp add: agree_off_def)
  next
    case False
    then obtain l r where t: "t = Split l r" using Suc.prems(3) by (cases t) auto
    have f: "fits h l" "fits h r" using rep_fits [OF Suc.prems(1)] t by auto
    show ?thesis
    proof (cases "off < 2 ^ h")
      case True
      have "x \<notin> blocks (b + 2 ^ h) h r"
        using blocks_shape [OF f(2), of "fst x" "snd x" "b + 2 ^ h"] Suc.prems(4) True
        by (auto simp: covers_def)
      then have "x \<in> blocks b h l" using Suc.prems(3) t by simp
      from Suc.IH [OF _ True this Suc.prems(4), of "2 * i + 1"] halves t obtain j m' where
        j: "find_used m 1 ((2 * i + 1 + 1) * 2 ^ h + off - 1) = Inr (Some (snd x, j))" "j < length m"
          "merge_up (m[j := snd x]) (snd x) j = merge_up m' (2 ^ h) (2 * i + 1)"
          "agree_off (sub (2 * i + 1) h) m m'" "rep m' (2 * i + 1) h (bin_free h off l)" by auto
      let ?m = "m'[i := merged h (m' ! (2 * i + 1)) (m' ! (2 * i + 2))]"
      have l': "length m' = length m" using j(4) by (simp add: agree_off_def)
      have r: "rep m' (2 * i + 2) h r" and a: "agree_off (sub i (Suc h)) m ?m"
        using agree_half [OF j(4), of i "2 * i + 2"] halves t by auto
      have "merge_up m' (2 ^ h) (2 * i + 1) = merge_up ?m (2 ^ Suc h) i"
        using merge_step [of m' i h "2 * i + 1"] len i l' h small [OF j(5)] small [OF r] by simp
      moreover have "rep ?m i (Suc h) (join (bin_free h off l) r)"
        by (rule rep_join_merged [OF j(5) r])
      ultimately show ?thesis using j(1-3) a t True
        by (intro exI [of _ j] exI [of _ ?m]) (simp add: algebra_simps)
    next
      case False
      then have o: "off - 2 ^ h < 2 ^ h" "b + 2 ^ h + (off - 2 ^ h) = b + off"
        using Suc.prems(2) by auto
      have "x \<notin> blocks b h l"
        using blocks_shape [OF f(1), of "fst x" "snd x" b] Suc.prems(4) False
        by (auto simp: covers_def)
      then have "x \<in> blocks (b + 2 ^ h) h r" using Suc.prems(3) t by simp
      moreover have cov: "covers (b + 2 ^ h + (off - 2 ^ h)) x" unfolding o(2) by (rule Suc.prems(4))
      ultimately obtain j m' where
        j: "find_used m 1 ((2 * i + 2 + 1) * 2 ^ h + (off - 2 ^ h) - 1) = Inr (Some (snd x, j))"
          "j < length m"
          "merge_up (m[j := snd x]) (snd x) j = merge_up m' (2 ^ h) (2 * i + 2)"
          "agree_off (sub (2 * i + 2) h) m m'"
          "rep m' (2 * i + 2) h (bin_free h (off - 2 ^ h) r)"
        using Suc.IH [OF _ o(1), of "2 * i + 2" r "b + 2 ^ h"] halves t by auto
      let ?m = "m'[i := merged h (m' ! (2 * i + 1)) (m' ! (2 * i + 2))]"
      have l': "length m' = length m" using j(4) by (simp add: agree_off_def)
      have l: "rep m' (2 * i + 1) h l" and a: "agree_off (sub i (Suc h)) m ?m"
        using agree_half [OF j(4), of i "2 * i + 1"] halves t by auto
      have "merge_up m' (2 ^ h) (2 * i + 2) = merge_up ?m (2 ^ Suc h) i"
        using merge_step [of m' i h "2 * i + 2"] len i l' h small [OF l] small [OF j(5)] by simp
      moreover have "rep ?m i (Suc h) (join l (bin_free h (off - 2 ^ h) r))"
        by (rule rep_join_merged [OF l j(5)])
      moreover have "(2 * i + 2 + 1) * 2 ^ h + (off - 2 ^ h) - 1 = (i + 1) * 2 ^ Suc h + off - 1"
        using False by (intro leaf_right) simp
      ultimately show ?thesis using j(1-3) a t False
        by (intro exI [of _ j] exI [of _ ?m]) simp
    qed
  qed
qed

lemma slot_count_found: "find_used m c i = Inr (Some (n, j)) \<Longrightarrow> slot_count_loop m c i = Inr n"
proof (induction m c i rule: find_used.induct)
  case (1 m c i)
  then show ?case
    unfolding find_used.simps [of m c i] slot_count_loop.simps [of m c i]
    by (cases "slot_at m i") (auto split: if_splits)
qed

lemma slot_count_lost: "find_used m c i = Inr None \<Longrightarrow> slot_count_loop m c i = Inl Out_of_bounds"
proof (induction m c i rule: find_used.induct)
  case (1 m c i)
  have "slot_count_loop m d (Parent 0) = Inl Out_of_bounds" for d
    unfolding Parent_0 slot_count_loop.simps [of m d "2 ^ 64 - 1"]
    by (simp add: slot_at_def vector_max_size_def)
  with 1 show ?case
    unfolding find_used.simps [of m c i] slot_count_loop.simps [of m c i]
    by (cases "slot_at m i") (auto split: if_splits)
qed

section \<open>The constructor builds a free tree\<close>

fun bitlen :: "nat \<Rightarrow> nat" where
  "bitlen i = (if i = 0 then 0 else Suc (bitlen (i div 2)))"

declare bitlen.simps [simp del]

lemma bitlen_bounds: "i < 2 ^ bitlen i \<and> (0 < i \<longrightarrow> 2 ^ (bitlen i - 1) \<le> i)"
proof (induction i rule: bitlen.induct)
  case (1 i)
  show ?case
  proof (cases "i = 0")
    case False
    then have b: "bitlen i = Suc (bitlen (i div 2))" by (simp add: bitlen.simps [of i])
    have IH: "i div 2 < 2 ^ bitlen (i div 2)" "0 < i div 2 \<longrightarrow> 2 ^ (bitlen (i div 2) - 1) \<le> i div 2"
      using 1 False by auto
    have "2 ^ bitlen (i div 2) \<le> i"
    proof (cases "i div 2 = 0")
      case True
      then show ?thesis using False by (simp add: bitlen.simps)
    next
      case nz: False
      then have "bitlen (i div 2) = Suc (bitlen (i div 2) - 1)" by (simp add: bitlen.simps [of "i div 2"])
      then have "2 ^ bitlen (i div 2) = 2 * (2::nat) ^ (bitlen (i div 2) - 1)" by (metis power_Suc)
      then show ?thesis using IH(2) nz by linarith
    qed
    with IH(1) b show ?thesis by auto
  qed (simp add: bitlen.simps)
qed

lemma bitlen_unique: "i < 2 ^ e \<Longrightarrow> 2 ^ (e - 1) \<le> i \<Longrightarrow> 0 < e \<Longrightarrow> bitlen i = e"
proof -
  assume e: "i < 2 ^ e" "2 ^ (e - 1) \<le> i" "0 < e"
  have "0 < i" using e(2) zero_less_power [of "2::nat" "e - 1"] by linarith
  then have b: "i < 2 ^ bitlen i" "2 ^ (bitlen i - 1) \<le> i" using bitlen_bounds by auto
  have "(2::nat) ^ (bitlen i - 1) < 2 ^ e" "(2::nat) ^ (e - 1) < 2 ^ bitlen i"
    using e b by linarith+
  then have "bitlen i - 1 < e" "e - 1 < bitlen i" by (auto dest: power_less_imp_less_exp [rotated])
  then show ?thesis using e(3) by linarith
qed

lemma bitlen_Suc:
  assumes "i + 1 < 2 ^ 64"
  shows "bitlen (i + 1) = (if IsPowerOf2 (i + 1) then Suc (bitlen i) else bitlen i)"
proof (cases "IsPowerOf2 (i + 1)")
  case True
  then obtain d where d: "i + 1 = 2 ^ d" using IsPowerOf2_iff assms by blast
  have "bitlen (i + 1) = Suc d" by (rule bitlen_unique) (use d in simp_all)
  moreover have "bitlen i = d"
  proof (cases d)
    case 0
    then show ?thesis using d by (simp add: bitlen.simps)
  next
    case (Suc d')
    then show ?thesis using d zero_less_power [of "2::nat" d'] by (intro bitlen_unique) auto
  qed
  ultimately show ?thesis using True by simp
next
  case False
  then have ne: "i + 1 \<noteq> 2 ^ d" for d using IsPowerOf2_iff assms by blast
  have "0 < i" using ne [of 0] by simp
  then have b: "i < 2 ^ bitlen i" "2 ^ (bitlen i - 1) \<le> i" using bitlen_bounds by auto
  have "i + 1 < 2 ^ bitlen i" using b(1) ne [of "bitlen i"] by linarith
  moreover have "0 < bitlen i" using \<open>0 < i\<close> by (simp add: bitlen.simps)
  ultimately show ?thesis using b(2) False by (simp add: bitlen_unique)
qed

lemma length_fill [simp]: "length (fill_nodes n i c) = n"
  by (induction n arbitrary: i c) (auto simp: Let_def)

lemma fill_nth:
  "j < k \<Longrightarrow> i + k < 2 ^ 64 \<Longrightarrow>
   fill_nodes k i (2 ^ n div 2 ^ bitlen i) ! j = 2 ^ n div 2 ^ bitlen (i + j + 1)"
proof (induction k arbitrary: i j)
  case (Suc k)
  have "(if IsPowerOf2 (i + 1) then 2 ^ n div 2 ^ bitlen i div 2 else 2 ^ n div 2 ^ bitlen i) =
      (2::nat) ^ n div 2 ^ bitlen (i + 1)"
    using bitlen_Suc [of i] Suc.prems by (simp add: div_mult2_eq [symmetric] mult.commute)
  with Suc.IH [of "j - 1" "Suc i"] Suc.prems show ?case by (cases j) (simp_all add: Let_def)
qed simp

lemma fresh_fill:
  assumes "n < 60"
  shows "bitlen (i + 1) = Suc n - h \<Longrightarrow> h \<le> n \<Longrightarrow> (i + 2) * 2 ^ h \<le> 2 ^ Suc n \<Longrightarrow>
    fresh (fill_nodes (2 ^ Suc n - 1) 0 (2 ^ Suc n)) i h"
proof (induction h arbitrary: i)
  case 0
  then have "i < 2 ^ Suc n - 1" by simp
  moreover have "(2::nat) ^ Suc n \<le> 2 ^ 60" using assms by (intro power_increasing) auto
  ultimately show ?case using fill_nth [of i "2 ^ Suc n - 1" 0 "Suc n"] 0
    by (simp add: bitlen.simps [of 0])
next
  case (Suc h)
  have "1 * (2::nat) \<le> 2 ^ Suc h" by simp
  then have "(i + 2) * 1 \<le> (i + 2) * 2 ^ Suc h" by (intro mult_left_mono) auto
  from order_trans [OF this Suc.prems(3)] have "i < 2 ^ Suc n - 1" by simp
  moreover have "(2::nat) ^ Suc n \<le> 2 ^ 60" using assms by (intro power_increasing) auto
  ultimately have "fill_nodes (2 ^ Suc n - 1) 0 (2 ^ Suc n) ! i = 2 ^ Suc n div 2 ^ (Suc n - Suc h)"
    using fill_nth [of i "2 ^ Suc n - 1" 0 "Suc n"] Suc.prems(1) by (simp add: bitlen.simps [of 0])
  also have "\<dots> = 2 ^ Suc h" using Suc.prems(2) by (subst power_diff [symmetric]) auto
  finally have "fill_nodes (2 ^ Suc n - 1) 0 (2 ^ Suc n) ! i = 2 ^ Suc h" .
  moreover have "bitlen (2 * i + 1 + 1) = Suc n - h" "bitlen (2 * i + 2 + 1) = Suc n - h"
    using Suc.prems(1,2) by (simp_all add: bitlen.simps [of "Suc (Suc (2 * i))"]
        bitlen.simps [of "Suc (Suc (Suc (2 * i)))"] Suc_diff_le)
  moreover have "(2 * i + 1 + 2) * 2 ^ h \<le> 2 ^ Suc n" "(2 * i + 2 + 2) * 2 ^ h \<le> 2 ^ Suc n"
    using Suc.prems(3) by (simp_all add: algebra_simps)
  ultimately show ?case using Suc.IH [of "2 * i + 1"] Suc.IH [of "2 * i + 2"] Suc.prems(2)
      \<open>i < 2 ^ Suc n - 1\<close> by simp
qed

section \<open>The abstraction of a bin manager\<close>

fun tree_of :: "nat list \<Rightarrow> nat \<Rightarrow> nat \<Rightarrow> bin" where
  "tree_of m i 0 = (if m ! i = 0 then Used else Free)"
| "tree_of m i (Suc h) =
     (if m ! i = 2 ^ Suc h then Free
      else if m ! i = 0 \<and> m ! (2 * i + 1) \<noteq> 0 then Used
      else Split (tree_of m (2 * i + 1) h) (tree_of m (2 * i + 2) h))"

lemma tree_of_rep: "rep m i h t \<Longrightarrow> tree_of m i h = t"
proof (induction h arbitrary: i t)
  case 0
  then show ?case by (cases t) auto
next
  case (Suc h)
  show ?case
  proof (cases t)
    case Free
    then show ?thesis using Suc.prems by simp
  next
    case Used
    then show ?thesis using Suc.prems fresh_root [of m "2 * i + 1" h] by simp
  next
    case (Split l r)
    have "m ! i = val (Suc h) t" "val (Suc h) t \<noteq> 2 ^ Suc h"
      using rep_root [OF Suc.prems] val_full [OF rep_fits [OF Suc.prems]] Split by auto
    then have "m ! i \<noteq> 2 ^ Suc h" by simp
    moreover have "m ! (2 * i + 1) = 0" if "m ! i = 0"
      using that Suc.prems Split rep_root [of m "2 * i + 1" h l] by auto
    moreover have "tree_of m (2 * i + 1) h = l" "tree_of m (2 * i + 2) h = r"
      using Suc.IH Suc.prems Split by auto
    ultimately show ?thesis using Split by (cases "m ! i = 0") simp_all
  qed
qed

fun norm :: "bin \<Rightarrow> bool" where
  "norm (Split l r) \<longleftrightarrow> norm l \<and> norm r \<and> (l \<noteq> Free \<or> r \<noteq> Free)"
| "norm t = True"

definition bins_rep :: "bins \<Rightarrow> nat \<Rightarrow> bin \<Rightarrow> bool" where
  "bins_rep b n t \<longleftrightarrow> n \<le> 32 \<and> total_slot_count b = 2 ^ n \<and>
     length (max_consecutive_slot b) = 2 ^ Suc n - 1 \<and> rep (max_consecutive_slot b) 0 n t \<and> norm t"

definition bins_inv :: "bins \<Rightarrow> bool" where
  "bins_inv b \<longleftrightarrow> (\<exists>n t. bins_rep b n t)"

definition used_bins :: "bins \<Rightarrow> (nat \<times> nat) set" where
  "used_bins b = (let n = bitlen (total_slot_count b) - 1 in
     blocks 0 n (tree_of (max_consecutive_slot b) 0 n))"

lemma bins_rep_facts:
  assumes "bins_rep b n t"
  shows "length (max_consecutive_slot b) \<le> vector_max_size" and "used_bins b = blocks 0 n t"
    and "fits n t" and "norm t" and "rep (max_consecutive_slot b) 0 n t"
    and "total_slot_count b = 2 ^ n" and "n \<le> 32" and "(2::nat) ^ n \<le> 2 ^ 32"
proof -
  show n: "n \<le> 32" "total_slot_count b = 2 ^ n" "norm t" "rep (max_consecutive_slot b) 0 n t"
    using assms by (auto simp: bins_rep_def)
  then show p: "(2::nat) ^ n \<le> 2 ^ 32" by (intro power_increasing) auto
  then show "length (max_consecutive_slot b) \<le> vector_max_size"
    using assms by (simp add: bins_rep_def vector_max_size_def)
  have "bitlen (2 ^ n) = Suc n" by (rule bitlen_unique) auto
  with n show "used_bins b = blocks 0 n t" by (simp add: used_bins_def tree_of_rep)
  show "fits n t" using rep_fits n(4) .
qed

lemma norm_alloc: "norm t \<Longrightarrow> norm (fst (bin_alloc k h t)) \<and> fst (bin_alloc k h t) \<noteq> Free"
proof (induction h arbitrary: t)
  case (Suc h)
  have "norm (left_half t)" "norm (right_half t)" using Suc.prems by (cases t; simp)+
  with Suc.IH show ?case by simp
qed simp

lemma norm_free: "norm t \<Longrightarrow> norm (bin_free h off t)"
  by (induction h off t rule: bin_free.induct) (auto simp: join_def)

lemma pow_gap: "off + 2 ^ k \<le> x \<Longrightarrow> \<not> x \<le> off" for x off :: nat
  using zero_less_power [of "2::nat" k] by linarith

text \<open>In a normal tree an aligned run of unused slots is a free bin.\<close>

lemma norm_empty: "norm t \<Longrightarrow> fits h t \<Longrightarrow> blocks b h t = {} \<Longrightarrow> t = Free"
  by (induction t arbitrary: b h) (case_tac h; fastforce)+

lemma run_gives_val:
  assumes "norm t" and "fits h t" and "k \<le> h" and "2 ^ k dvd off" and "off + 2 ^ k \<le> 2 ^ h"
    and "\<forall>x \<in> blocks b h t. apart (b + off, 2 ^ k) x"
  shows "2 ^ k \<le> val h t"
  using assms
proof (induction h t arbitrary: b off rule: fits.induct)
  case (2 h l r)
  show ?case
  proof (cases "k = Suc h")
    case True
    then have "off = 0" using "2.prems"(5) by simp
    have "blocks b (Suc h) (Split l r) = {}"
    proof (rule equals0I)
      fix x assume x: "x \<in> blocks b (Suc h) (Split l r)"
      obtain p q where pq: "x = (p, q)" by (cases x)
      have "b \<le> p" "p + q \<le> b + 2 ^ Suc h" "0 < q"
        using blocks_shape [OF "2.prems"(2), of p q b] x pq by auto
      moreover have "apart (b, 2 ^ Suc h) (p, q)" using "2.prems"(6) x pq True \<open>off = 0\<close> by auto
      ultimately show False by (simp add: apart_def)
    qed
    then show ?thesis using norm_empty "2.prems"(1,2) by blast
  next
    case False
    then have k: "k \<le> h" using "2.prems"(3) by simp
    obtain c where c: "off = 2 ^ k * c" using "2.prems"(4) by blast
    obtain d where d: "h = k + d" using k le_Suc_ex by blast
    have "off + 2 ^ k \<le> 2 ^ h \<or> 2 ^ h \<le> off"
    proof (cases "c < 2 ^ d")
      case True
      then have "2 ^ k * (c + 1) \<le> 2 ^ k * (2::nat) ^ d" by (intro mult_left_mono) auto
      then show ?thesis using c d by (simp add: power_add)
    next
      case False
      then have "2 ^ k * (2::nat) ^ d \<le> 2 ^ k * c" by (intro mult_left_mono) auto
      then show ?thesis using c d by (simp add: power_add)
    qed
    then show ?thesis
    proof
      assume "off + 2 ^ k \<le> 2 ^ h"
      then have "2 ^ k \<le> val h l" using "2.IH"(1) [OF _ _ k "2.prems"(4), of b] "2.prems"(1,2,6) by simp
      then show ?thesis by simp
    next
      assume o: "2 ^ h \<le> off"
      have "(2::nat) ^ k dvd 2 ^ h" using k by (rule le_imp_power_dvd)
      then have "2 ^ k dvd off - 2 ^ h" using "2.prems"(4) by (simp add: dvd_diff_nat)
      moreover have "off - 2 ^ h + 2 ^ k \<le> 2 ^ h" using o "2.prems"(5) by simp
      moreover have "\<forall>x \<in> blocks (b + 2 ^ h) h r. apart (b + 2 ^ h + (off - 2 ^ h), 2 ^ k) x"
        using "2.prems"(6) o by simp
      ultimately have "2 ^ k \<le> val h r" using "2.IH"(2) [OF _ _ k] "2.prems"(1,2) by simp
      then show ?thesis by simp
    qed
  qed
qed (auto simp: apart_def intro: power_increasing dest: pow_gap)

section \<open>The contract of a bin provider\<close>

locale bin_provider =
  fixes inv :: "'m \<Rightarrow> bool"
    and slots :: "'m \<Rightarrow> nat"
    and used :: "'m \<Rightarrow> (nat \<times> nat) set"
    and allocate :: "'m \<Rightarrow> nat \<Rightarrow> (nat \<times> 'm) res"
    and release :: "'m \<Rightarrow> nat \<Rightarrow> 'm res"
    and size_of :: "'m \<Rightarrow> nat \<Rightarrow> nat res"
  assumes slots_law: "inv m \<Longrightarrow> slots m \<le> 2 ^ 32"
    and used_law: "inv m \<Longrightarrow> (off, s) \<in> used m \<Longrightarrow> 0 < s \<and> off + s \<le> slots m"
    and apart_law: "inv m \<Longrightarrow> x \<in> used m \<Longrightarrow> y \<in> used m \<Longrightarrow> x \<noteq> y \<Longrightarrow> apart x y"
    and allocate_law: "inv m \<Longrightarrow> 0 < r \<Longrightarrow> r \<le> 2 ^ 63 \<Longrightarrow>
        \<exists>off m'. allocate m r = Inr (off, m') \<and> inv m' \<and> slots m' = slots m \<and>
          (off = noffset \<and> m' = m \<or>
           off < slots m \<and> (\<exists>s \<ge> r. (off, s) \<notin> used m \<and> used m' = insert (off, s) (used m)))"
    and release_law: "inv m \<Longrightarrow> off < slots m \<Longrightarrow>
        \<exists>m'. release m off = Inr m' \<and> inv m' \<and> slots m' = slots m \<and>
          used m' = {x \<in> used m. \<not> covers off x}"
    and size_law: "inv m \<Longrightarrow> (off, s) \<in> used m \<Longrightarrow> size_of m off = Inr s"
begin

lemma allocated_apart:
  assumes "inv m" and "0 < r" and "r \<le> 2 ^ 63" and "allocate m r = Inr (off, m')" and "off \<noteq> noffset"
  shows "\<exists>s \<ge> r. size_of m' off = Inr s \<and> used m' = insert (off, s) (used m) \<and> (off, s) \<notin> used m \<and>
    (\<forall>x \<in> used m. apart (off, s) x)"
proof -
  obtain s where s: "r \<le> s" "(off, s) \<notin> used m" "used m' = insert (off, s) (used m)" "inv m'"
    using allocate_law [OF assms(1-3)] assms(4,5) by auto
  then show ?thesis using apart_law [OF s(4), of "(off, s)"] size_law [OF s(4), of off s]
    by (intro exI [of _ s]) auto
qed

lemma release_exact:
  assumes "inv m" and "(off, s) \<in> used m"
  shows "\<exists>m'. release m off = Inr m' \<and> inv m' \<and> slots m' = slots m \<and> used m' = used m - {(off, s)}"
proof -
  have s: "0 < s" "off < slots m" using used_law [OF assms] by auto
  have "covers off x \<longleftrightarrow> x = (off, s)" if "x \<in> used m" for x
  proof (cases "x = (off, s)")
    case True
    then show ?thesis using s by (simp add: covers_def)
  next
    case False
    then have "apart x (off, s)" using apart_law [OF assms(1) that assms(2)] by blast
    then show ?thesis using False s by (auto simp: covers_def apart_def)
  qed
  then have "{x \<in> used m. \<not> covers off x} = used m - {(off, s)}" by auto
  then show ?thesis using release_law [OF assms(1) s(2)] by simp
qed

end

lemma root_index:
  assumes "bins_rep b n t" and "off < 2 ^ n"
  shows "wsub (wrap (off + total_slot_count b)) 1 = (0 + 1) * 2 ^ n + off - 1"
proof -
  have "off + 2 ^ n < 2 ^ 64" using assms(2) bins_rep_facts(8) [OF assms(1)] by simp
  moreover have "1 \<le> off + 2 ^ n" by (simp add: Suc_le_eq)
  ultimately show ?thesis
    using bins_rep_facts(6) [OF assms(1)] wsub_small [of 1 "off + 2 ^ n"] by (simp add: add.commute)
qed

lemma Bins_Allocate_fail:
  assumes "bins_rep b n t" and "0 < r" and "val n t < NearestUpperPowerOf2 r"
  shows "Bins_Allocate b r = Inr (noffset, b)"
proof -
  note f = bins_rep_facts [OF assms(1)]
  have "slot_at (max_consecutive_slot b) 0 = Inr (val n t)"
    using rep_root [OF f(5)] slot_at_ok [OF f(1)] by simp
  then show ?thesis using assms(2,3) by (simp add: Bins_Allocate_def)
qed

lemma Bins_Allocate_ok:
  assumes "bins_rep b n t" and "0 < r" and "NearestUpperPowerOf2 r = 2 ^ k" and "2 ^ k \<le> val n t"
  shows "\<exists>m. Bins_Allocate b r = Inr (snd (bin_alloc k n t), b\<lparr>max_consecutive_slot := m\<rparr>) \<and>
    bins_rep (b\<lparr>max_consecutive_slot := m\<rparr>) n (fst (bin_alloc k n t)) \<and>
    snd (bin_alloc k n t) + 2 ^ k \<le> 2 ^ n"
proof -
  note f = bins_rep_facts [OF assms(1)]
  let ?m = "max_consecutive_slot b" and ?off = "snd (bin_alloc k n t)"
  have top: "slot_at ?m 0 = Inr (val n t)" using rep_root [OF f(5)] slot_at_ok [OF f(1)] by simp
  obtain j m' where j: "find_bin ?m (2 ^ k) (2 ^ n) 0 = Inr j" "j < length ?m"
      "raise_maxima (?m[j := 0]) j = raise_maxima m' 0" "agree_off (sub 0 n) ?m m'"
      "rep m' 0 n (fst (bin_alloc k n t))" "(j + 1) * 2 ^ k = (0 + 1) * 2 ^ n + ?off"
    using alloc_sub [OF f(1,5) assms(4)] by blast
  have off: "?off + 2 ^ k \<le> 2 ^ n"
    using bin_alloc_blocks [OF f(3) assms(4), of 0]
      blocks_shape [of n "fst (bin_alloc k n t)" ?off "2 ^ k" 0] by auto
  have "j + 1 < 2 ^ 60" using j(2) f(1) by (simp add: vector_max_size_def)
  moreover have "(j + 1) * 2 ^ k < 2 ^ 64" using j(6) off f(8) by simp
  ultimately have "wsub (wrap (wrap (j + 1) * 2 ^ k)) (2 ^ n) = ?off"
    using j(6) by (simp add: wsub_small)
  then have "Bins_Allocate b r = Inr (?off, b\<lparr>max_consecutive_slot := m'\<rparr>)"
    using assms(2,3,4) top j(1-3) f(6) by (simp add: Bins_Allocate_def set_at_def Let_def raise_maxima.simps [of m' 0])
  moreover have "length m' = length ?m" using j(4) by (simp add: agree_off_def)
  then have "bins_rep (b\<lparr>max_consecutive_slot := m'\<rparr>) n (fst (bin_alloc k n t))"
    using assms(1) j(5) norm_alloc [OF f(4)] by (simp add: bins_rep_def)
  ultimately show ?thesis using off by blast
qed

lemma Bins_Free_ok:
  assumes "bins_rep b n t" and "off < 2 ^ n"
  shows "\<exists>m. Bins_Free b off = Inr (b\<lparr>max_consecutive_slot := m\<rparr>) \<and>
    (\<exists>t'. bins_rep (b\<lparr>max_consecutive_slot := m\<rparr>) n t' \<and>
      blocks 0 n t' = {x \<in> blocks 0 n t. \<not> covers off x})"
proof (cases "\<exists>x \<in> blocks 0 n t. covers (0 + off) x")
  case True
  note f = bins_rep_facts [OF assms(1)]
  let ?m = "max_consecutive_slot b"
  from True obtain x where x: "x \<in> blocks 0 n t" "covers (0 + off) x" by blast
  obtain j m' where j: "find_used ?m 1 ((0 + 1) * 2 ^ n + off - 1) = Inr (Some (snd x, j))" "j < length ?m"
      "merge_up (?m[j := snd x]) (snd x) j = merge_up m' (2 ^ n) 0" "agree_off (sub 0 n) ?m m'"
      "rep m' 0 n (bin_free n off t)"
    using free_sub [OF f(1,5) assms(2) x] by blast
  have "Bins_Free b off = Inr (b\<lparr>max_consecutive_slot := m'\<rparr>)"
    using j(1-3) assms(2) root_index [OF assms] f(6)
    by (simp add: Bins_Free_def set_at_def Let_def merge_up.simps [of m' _ 0])
  moreover have "length m' = length ?m" using j(4) by (simp add: agree_off_def)
  then have "bins_rep (b\<lparr>max_consecutive_slot := m'\<rparr>) n (bin_free n off t)"
    using assms(1) j(5) norm_free [OF f(4)] by (simp add: bins_rep_def)
  moreover have "blocks 0 n (bin_free n off t) = {x \<in> blocks 0 n t. \<not> covers off x}"
    using bin_free_blocks [OF f(3) assms(2), of 0] by simp
  ultimately show ?thesis by blast
next
  case False
  note f = bins_rep_facts [OF assms(1)]
  let ?m = "max_consecutive_slot b"
  have v: "0 < val n t" using val_uncovered [OF f(3) assms(2), of 0] False by blast
  then have "t \<noteq> Used" by auto
  then have "find_used ?m 1 ((0 + 1) * 2 ^ n + off - 1) = find_used ?m (2 ^ n) 0"
    using find_uncovered [OF f(1,5) assms(2), of 0] False by simp
  also have "\<dots> = Inr None"
    using v rep_root [OF f(5)] slot_at_ok [OF f(1)] by (simp add: find_used.simps [of ?m _ 0])
  finally have "Bins_Free b off = Inr (b\<lparr>max_consecutive_slot := ?m\<rparr>)"
    using assms(2) root_index [OF assms] f(6) by (simp add: Bins_Free_def Let_def)
  moreover have "{x \<in> blocks 0 n t. \<not> covers off x} = blocks 0 n t" using False by auto
  ultimately show ?thesis using assms(1) by (intro exI [of _ ?m]) auto
qed

lemma SlotCountFor_used:
  assumes "bins_rep b n t" and "(p, s) \<in> blocks 0 n t" and "covers off (p, s)"
  shows "SlotCountFor b off = Inr s"
proof -
  note f = bins_rep_facts [OF assms(1)]
  have "p + s \<le> 0 + 2 ^ n" using blocks_shape [OF f(3) assms(2)] by blast
  then have off: "off < 2 ^ n" using assms(3) by (simp add: covers_def)
  have "covers (0 + off) (p, s)" using assms(3) by simp
  from free_sub [OF f(1,5) off assms(2) this] obtain j where
    "find_used (max_consecutive_slot b) 1 ((0 + 1) * 2 ^ n + off - 1) = Inr (Some (s, j))" by auto
  from slot_count_found [OF this] show ?thesis
    using off root_index [OF assms(1) off] f(6) by (simp add: SlotCountFor_def)
qed

lemma BinManager_new_rep:
  assumes "n \<le> 32"
  shows "\<exists>b. BinManager_new (2 ^ n) = Inr b \<and> bins_rep b n Free"
proof -
  have p: "(2::nat) ^ Suc n \<le> 2 ^ 33" using assms by (intro power_increasing) auto
  then have c: "wrap (2 * 2 ^ n) = 2 ^ Suc n" "wsub (2 ^ Suc n) 1 = 2 ^ Suc n - 1"
    by (simp_all add: wsub_small)
  have "IsPowerOf2 (2 ^ n)" using p by (subst IsPowerOf2_iff) auto
  moreover have "2 ^ Suc n - 1 \<le> vector_max_size" using p by (simp add: vector_max_size_def)
  moreover have "fresh (fill_nodes (2 ^ Suc n - 1) 0 (2 ^ Suc n)) 0 n"
    using assms by (intro fresh_fill) (simp_all add: bitlen.simps)
  ultimately show ?thesis unfolding BinManager_new_def c Let_def
    using assms by (simp add: bins_rep_def)
qed

lemma val_le_slots: "bins_rep b n t \<Longrightarrow> val n t \<le> 2 ^ n"
  using bins_rep_facts(3) val_le by blast

interpretation bm: bin_provider bins_inv total_slot_count used_bins Bins_Allocate Bins_Free SlotCountFor
proof unfold_locales
  fix m assume "bins_inv m"
  then obtain n t where "bins_rep m n t" by (auto simp: bins_inv_def)
  then show "total_slot_count m \<le> 2 ^ 32" using bins_rep_facts(6,8) by simp
next
  fix m off s assume "bins_inv m" and u: "(off, s) \<in> used_bins m"
  then obtain n t where r: "bins_rep m n t" by (auto simp: bins_inv_def)
  note f = bins_rep_facts [OF r]
  from blocks_shape [OF f(3), of off s 0] u f(2,6) show "0 < s \<and> off + s \<le> total_slot_count m" by auto
next
  fix m x y assume "bins_inv m" and xy: "x \<in> used_bins m" "y \<in> used_bins m" "x \<noteq> y"
  then obtain n t where r: "bins_rep m n t" by (auto simp: bins_inv_def)
  note f = bins_rep_facts [OF r]
  from blocks_apart [OF f(3)] xy f(2) show "apart x y" by auto
next
  fix m and r :: nat assume "bins_inv m" and r: "0 < r" "r \<le> 2 ^ 63"
  then obtain n t where rep: "bins_rep m n t" by (auto simp: bins_inv_def)
  note f = bins_rep_facts [OF rep]
  show "\<exists>off m'. Bins_Allocate m r = Inr (off, m') \<and> bins_inv m' \<and>
      total_slot_count m' = total_slot_count m \<and>
      (off = noffset \<and> m' = m \<or> off < total_slot_count m \<and>
       (\<exists>s \<ge> r. (off, s) \<notin> used_bins m \<and> used_bins m' = insert (off, s) (used_bins m)))"
  proof (cases "val n t < NearestUpperPowerOf2 r")
    case True
    from Bins_Allocate_fail [OF rep r(1) True] \<open>bins_inv m\<close> show ?thesis by blast
  next
    case False
    then have "r \<le> 2 ^ 32"
      using NearestUpperPowerOf2_ge [OF r] val_le_slots [OF rep] f(8) by linarith
    from NearestUpperPowerOf2_spec [OF r(1) this] obtain k where
      k: "NearestUpperPowerOf2 r = 2 ^ k" "r \<le> 2 ^ k" by blast
    then have v: "2 ^ k \<le> val n t" using False by simp
    obtain m' where m': "Bins_Allocate m r = Inr (snd (bin_alloc k n t), m')"
        "bins_rep m' n (fst (bin_alloc k n t))" "snd (bin_alloc k n t) + 2 ^ k \<le> 2 ^ n"
      using Bins_Allocate_ok [OF rep r(1) k(1) v] by blast
    have "snd (bin_alloc k n t) < 2 ^ n" using m'(3) zero_less_power [of "2::nat" k] by linarith
    moreover note bin_alloc_blocks [OF f(3) v, of 0]
    ultimately show ?thesis using m' bins_rep_facts(2,6) [OF m'(2)] f(2,6) k(2)
      by (intro exI [of _ "snd (bin_alloc k n t)"] exI [of _ m']) (auto simp: bins_inv_def)
  qed
next
  fix m off assume "bins_inv m" and off: "off < total_slot_count m"
  then obtain n t where r: "bins_rep m n t" by (auto simp: bins_inv_def)
  note f = bins_rep_facts [OF r]
  obtain m' t' where m': "Bins_Free m off = Inr m'" "bins_rep m' n t'"
      "blocks 0 n t' = {x \<in> blocks 0 n t. \<not> covers off x}"
    using Bins_Free_ok [OF r, of off] off [unfolded f(6)] by auto
  then show "\<exists>m'. Bins_Free m off = Inr m' \<and> bins_inv m' \<and> total_slot_count m' = total_slot_count m \<and>
      used_bins m' = {x \<in> used_bins m. \<not> covers off x}"
    using bins_rep_facts(2,6) [OF m'(2)] f(2,6) by (auto simp: bins_inv_def)
next
  fix m off s assume "bins_inv m" and u: "(off, s) \<in> used_bins m"
  then obtain n t where r: "bins_rep m n t" by (auto simp: bins_inv_def)
  note f = bins_rep_facts [OF r]
  have "0 < s" using blocks_shape [OF f(3)] u f(2) by fastforce
  then show "SlotCountFor m off = Inr s"
    using SlotCountFor_used [OF r, of off s off] u f(2) by (simp add: covers_def)
qed

section \<open>Properties\<close>

definition free_run :: "bins \<Rightarrow> nat \<Rightarrow> nat \<Rightarrow> bool" where
  "free_run b n off \<longleftrightarrow> n dvd off \<and> off + n \<le> total_slot_count b \<and>
     (\<forall>x \<in> used_bins b. apart (off, n) x)"

text \<open>
  Property C1. \<open>Allocate\<close> succeeds exactly when an aligned run of unused slots of the rounded size
  exists; it then returns such a run that overlaps no used bin, and records it, and only it, as
  used. The downward search, the offset computation and the upward recomputation of the maxima never
  leave the vector. Otherwise it returns \<open>noffset\<close> and changes nothing.
\<close>

theorem bins_allocate_complete:
  assumes "bins_inv b" and "0 < r" and "r \<le> 2 ^ 32"
  shows "if \<exists>off. free_run b (NearestUpperPowerOf2 r) off
    then \<exists>off b'. Bins_Allocate b r = Inr (off, b') \<and> bins_inv b' \<and>
      free_run b (NearestUpperPowerOf2 r) off \<and>
      used_bins b' = insert (off, NearestUpperPowerOf2 r) (used_bins b)
    else Bins_Allocate b r = Inr (noffset, b)"
proof -
  obtain n t where rep: "bins_rep b n t" using assms(1) by (auto simp: bins_inv_def)
  note f = bins_rep_facts [OF rep]
  obtain l where l: "NearestUpperPowerOf2 r = 2 ^ l" using NearestUpperPowerOf2_spec assms(2,3) by blast
  have run: "free_run b (2 ^ l) off \<Longrightarrow> 2 ^ l \<le> val n t" for off
  proof -
    assume "free_run b (2 ^ l) off"
    then have o: "2 ^ l dvd off" "off + 2 ^ l \<le> 2 ^ n" "\<forall>x \<in> blocks 0 n t. apart (0 + off, 2 ^ l) x"
      using l f(2,6) by (auto simp: free_run_def)
    then have "(2::nat) ^ l \<le> 2 ^ n" by linarith
    then have "l \<le> n" by (rule power_le_imp_le_exp [rotated]) simp
    from run_gives_val [OF f(4,3) this o] show ?thesis .
  qed
  show ?thesis
  proof (cases "2 ^ l \<le> val n t")
    case True
    obtain b' where b': "Bins_Allocate b r = Inr (snd (bin_alloc l n t), b')"
        "bins_rep b' n (fst (bin_alloc l n t))" "snd (bin_alloc l n t) + 2 ^ l \<le> 2 ^ n"
      using Bins_Allocate_ok [OF rep assms(2) l True] by blast
    let ?off = "snd (bin_alloc l n t)"
    note bl = bin_alloc_blocks [OF f(3) True, of 0]
    have "2 ^ l dvd ?off"
      using blocks_shape [of n "fst (bin_alloc l n t)" ?off "2 ^ l" 0] bl by auto
    moreover have "apart (?off, 2 ^ l) x" if "x \<in> used_bins b" for x
      using blocks_apart [of n "fst (bin_alloc l n t)" "(?off, 2 ^ l)" 0 x] bl that f(2) by auto
    ultimately have fr: "free_run b (2 ^ l) ?off" using b'(3) l f(6) by (simp add: free_run_def)
    moreover have "bins_inv b'" "used_bins b' = insert (?off, 2 ^ l) (used_bins b)"
      using b'(2) bins_rep_facts(2) [OF b'(2)] bl f(2) l by (auto simp: bins_inv_def)
    ultimately show ?thesis using b'(1) unfolding l by auto
  next
    case False
    then show ?thesis using run Bins_Allocate_fail [OF rep assms(2)] unfolding l by auto
  qed
qed

theorem bins_allocate_complete_witness:
  "\<exists>b off b'. BinManager_new 8 = Inr b \<and> Bins_Allocate b 3 = Inr (off, b') \<and>
     used_bins b' = {(off, NearestUpperPowerOf2 3)}"
proof -
  obtain b where b: "BinManager_new (2 ^ 3) = Inr b" "bins_rep b 3 Free"
    using BinManager_new_rep [of 3] by auto
  then have i: "bins_inv b" by (auto simp: bins_inv_def)
  have n: "NearestUpperPowerOf2 3 = 4"
    by (simp add: NearestUpperPowerOf2_def smear_32 [simplified] Let_def drop_bit_eq_div wsub_small)
  have u: "used_bins b = {}" "total_slot_count b = 8" using bins_rep_facts(2,6) [OF b(2)] by simp_all
  then have "\<exists>off. free_run b (NearestUpperPowerOf2 3) off"
    by (intro exI [of _ 0]) (simp add: free_run_def n)
  with bins_allocate_complete [OF i, of 3] have "\<exists>off b'. Bins_Allocate b 3 = Inr (off, b') \<and>
      used_bins b' = insert (off, NearestUpperPowerOf2 3) (used_bins b)" by auto
  with u(1) b(1) show ?thesis by auto
qed

text \<open>
  Fact. \<open>Free\<close> of any offset of a used bin releases exactly that bin, and of an unused offset
  nothing; freed buddies merge again, so that the slots of the bin can be handed out as one run.
\<close>

theorem bins_free_exact:
  assumes "bins_inv b" and "off < total_slot_count b"
  shows "\<exists>b'. Bins_Free b off = Inr b' \<and> bins_inv b' \<and>
    used_bins b' = {x \<in> used_bins b. \<not> covers off x}"
  using bm.release_law [OF assms] by blast

theorem bins_free_exact_witness:
  "\<exists>b b'. BinManager_new 8 = Inr b \<and> Bins_Free b 5 = Inr b' \<and> used_bins b' = {}"
proof -
  obtain b where b: "BinManager_new (2 ^ 3) = Inr b" "bins_rep b 3 Free"
    using BinManager_new_rep [of 3] by auto
  then have i: "bins_inv b" "used_bins b = {}" "5 < total_slot_count b"
    using bins_rep_facts(2,6) [OF b(2)] by (auto simp: bins_inv_def)
  from bins_free_exact [OF i(1,3)] b(1) i(2) show ?thesis by auto
qed

text \<open>
  Fact. \<open>SlotCountFor\<close> of an offset in no used bin: its loop, which lacks the test for the
  root that \<open>Free\<close> has, walks past the root to the index \<open>Parent(0)\<close>, which is \<open>SIZE_MAX\<close>, and reads
  out of bounds; of an offset inside a used bin it is the size of that bin.
\<close>

theorem slot_count_unused_out_of_bounds:
  assumes "bins_inv b" and "off < total_slot_count b"
  shows "(\<forall>x \<in> used_bins b. covers off x \<longrightarrow> SlotCountFor b off = Inr (snd x)) \<and>
    ((\<forall>x \<in> used_bins b. \<not> covers off x) \<longrightarrow> SlotCountFor b off = Inl Out_of_bounds)"
proof -
  obtain n t where rep: "bins_rep b n t" using assms(1) by (auto simp: bins_inv_def)
  note f = bins_rep_facts [OF rep]
  have off: "off < 2 ^ n" using assms(2) f(6) by simp
  have "SlotCountFor b off = Inl Out_of_bounds" if free: "\<forall>x \<in> used_bins b. \<not> covers off x"
  proof -
    let ?m = "max_consecutive_slot b"
    have v: "0 < val n t" using val_uncovered [OF f(3) off, of 0] free f(2) by simp
    then have "t \<noteq> Used" by auto
    then have "find_used ?m 1 ((0 + 1) * 2 ^ n + off - 1) = find_used ?m (2 ^ n) 0"
      using find_uncovered [OF f(1,5) off, of 0] free f(2) by simp
    also have "\<dots> = Inr None"
      using v rep_root [OF f(5)] slot_at_ok [OF f(1)] by (simp add: find_used.simps [of ?m _ 0])
    finally show ?thesis
      using slot_count_lost off root_index [OF rep off] f(6) by (simp add: SlotCountFor_def)
  qed
  then show ?thesis using SlotCountFor_used [OF rep] f(2) by auto
qed

theorem slot_count_unused_out_of_bounds_witness:
  "\<exists>b. BinManager_new 8 = Inr b \<and> SlotCountFor b 5 = Inl Out_of_bounds"
proof -
  obtain b where b: "BinManager_new (2 ^ 3) = Inr b" "bins_rep b 3 Free"
    using BinManager_new_rep [of 3] by auto
  then have i: "bins_inv b" "used_bins b = {}" "5 < total_slot_count b"
    using bins_rep_facts(2,6) [OF b(2)] by (auto simp: bins_inv_def)
  from slot_count_unused_out_of_bounds [OF i(1,3)] b(1) i(2) show ?thesis by auto
qed

end
