(* ===== verification/Buddy_Allocator.thy ===== *)
theory Buddy_Allocator
  imports Bin_Manager
begin

text \<open>
  The slot memory (\<open>src/BuddyAllocator/src/memory_bin.h\<close>) and the allocator facade
  (\<open>src/BuddyAllocator/src/buddy_allocator.cpp\<close>). Addresses are natural numbers, \<open>nullptr\<close> is 0 and
  the address of the slot array, which the C++ runtime chooses, is an argument of the constructor.
  The facade is a client of the contract \<open>bin_provider\<close>: its proofs use the facts of the
  interpretation \<open>bm\<close> only.
\<close>

section \<open>Slot memory\<close>

definition slot_granularity :: nat where
  "slot_granularity = 4096"

record memory_bin =
  slots_addr :: nat
  slot_count :: nat

definition MemoryBin_new :: "nat \<Rightarrow> nat \<Rightarrow> memory_bin res" where
  "MemoryBin_new addr count =
     rbind (guard (IsPowerOf2 count) Ensure_failed) (\<lambda>_. Inr \<lparr>slots_addr = addr, slot_count = count\<rparr>)"

text \<open>Move construction: the new object and what is left of the old one.\<close>

definition MemoryBin_move :: "memory_bin \<Rightarrow> memory_bin \<times> memory_bin" where
  "MemoryBin_move other = (other, \<lparr>slots_addr = 0, slot_count = 0\<rparr>)"

definition Map :: "memory_bin \<Rightarrow> nat \<Rightarrow> nat res" where
  "Map mb offset =
     rbind (guard (offset < slot_count mb) Ensure_failed)
       (\<lambda>_. Inr (slots_addr mb + offset * slot_granularity))"

section \<open>The facade\<close>

record allocator =
  bin_manager :: bins
  memory_bin :: memory_bin
  allocation_table :: "nat \<rightharpoonup> nat \<times> nat"
  capacity :: nat

definition granularity :: nat where
  "granularity = slot_granularity"

definition BytesToSlots :: "nat \<Rightarrow> bool \<Rightarrow> nat res" where
  "BytesToSlots size_in_bytes strict_mode =
     rbind (guard (strict_mode \<longrightarrow> size_in_bytes mod granularity = 0) Ensure_failed) (\<lambda>_.
     Inr (wsub (wrap (size_in_bytes + granularity)) 1 div granularity))"

definition BuddyAllocator_new :: "nat \<Rightarrow> nat \<Rightarrow> allocator res" where
  "BuddyAllocator_new addr max_byte =
     rbind (BytesToSlots max_byte True) (\<lambda>n.
     rbind (BinManager_new n) (\<lambda>bins.
     rbind (BytesToSlots max_byte True) (\<lambda>n.
     rbind (MemoryBin_new addr n) (\<lambda>mb.
     Inr \<lparr>bin_manager = bins, memory_bin = mb, allocation_table = Map.empty, capacity = max_byte\<rparr>))))"

definition AddAllocationRecord :: "allocator \<Rightarrow> nat \<Rightarrow> nat \<Rightarrow> allocator res" where
  "AddAllocationRecord a ptr offset =
     rbind (SlotCountFor (bin_manager a) offset) (\<lambda>slot_count.
     Inr (a\<lparr>allocation_table := (allocation_table a)(ptr \<mapsto> (slot_count, offset))\<rparr>))"

text \<open>
  The second component is what is written to \<open>*bytes_allocated\<close>: nothing when the pointer is null
  or the request fails.
\<close>

definition Buddy_Allocate :: "allocator \<Rightarrow> nat \<Rightarrow> bool \<Rightarrow> (nat \<times> nat option \<times> allocator) res" where
  "Buddy_Allocate a number_of_bytes want_size =
     rbind (BytesToSlots number_of_bytes False) (\<lambda>slots_required.
     rbind (Bins_Allocate (bin_manager a) slots_required) (\<lambda>(offset, bins).
     let a = a\<lparr>bin_manager := bins\<rparr> in
     if offset = noffset then Inr (0, None, a)
     else
       rbind (if want_size
              then rbind (SlotCountFor bins offset) (\<lambda>n. Inr (Some (wrap (n * granularity))))
              else Inr None) (\<lambda>bytes_allocated.
       rbind (Map (memory_bin a) offset) (\<lambda>addr.
       rbind (AddAllocationRecord a addr offset) (\<lambda>a.
       Inr (addr, bytes_allocated, a))))))"

text \<open>The pointer is passed by reference; the result has its new value.\<close>

definition Deallocate :: "allocator \<Rightarrow> nat \<Rightarrow> (nat \<times> allocator) res" where
  "Deallocate a ptr =
     (case allocation_table a ptr of
        None \<Rightarrow> Inr (ptr, a)
      | Some (slots, offset) \<Rightarrow>
          rbind (Bins_Free (bin_manager a) offset) (\<lambda>bins.
          Inr (0, a\<lparr>bin_manager := bins,
                    allocation_table := (allocation_table a)(ptr := None)\<rparr>)))"

definition QueryAllocatedSize :: "allocator \<Rightarrow> nat \<Rightarrow> nat" where
  "QueryAllocatedSize a ptr =
     (case allocation_table a ptr of None \<Rightarrow> 0 | Some (slots, offset) \<Rightarrow> wrap (slots * granularity))"

section \<open>Invariant\<close>

text \<open>
  The table and the bin manager know the same bins, and the arena lies in the address space above
  the null pointer.
\<close>

definition buddy_inv :: "allocator \<Rightarrow> bool" where
  "buddy_inv a \<longleftrightarrow> bins_inv (bin_manager a) \<and>
     slot_count (memory_bin a) = total_slot_count (bin_manager a) \<and>
     capacity a = total_slot_count (bin_manager a) * granularity \<and>
     0 < slots_addr (memory_bin a) \<and> slots_addr (memory_bin a) + capacity a \<le> 2 ^ 64 \<and>
     (\<forall>p n off. allocation_table a p = Some (n, off) \<longleftrightarrow>
        (off, n) \<in> used_bins (bin_manager a) \<and> p = slots_addr (memory_bin a) + off * granularity)"

text \<open>The blocks of bytes that clients hold.\<close>

definition live :: "allocator \<Rightarrow> (nat \<times> nat) set" where
  "live a = {(p, n * granularity) | p n off. allocation_table a p = Some (n, off)}"

lemma buddy_invD:
  assumes "buddy_inv a"
  shows "bins_inv (bin_manager a)" and "slot_count (memory_bin a) = total_slot_count (bin_manager a)"
    and "capacity a = total_slot_count (bin_manager a) * 4096"
    and "0 < slots_addr (memory_bin a)" and "slots_addr (memory_bin a) + capacity a \<le> 2 ^ 64"
    and "allocation_table a p = Some (n, off) \<longleftrightarrow>
      (off, n) \<in> used_bins (bin_manager a) \<and> p = slots_addr (memory_bin a) + off * 4096"
  using assms by (auto simp: buddy_inv_def granularity_def slot_granularity_def)

lemma live_eq:
  assumes "buddy_inv a"
  shows "live a = (\<lambda>(off, n). (slots_addr (memory_bin a) + off * 4096, n * 4096)) ` used_bins (bin_manager a)"
  using buddy_invD(6) [OF assms]
  by (auto simp: live_def granularity_def slot_granularity_def image_iff split: prod.splits; force)

lemma BytesToSlots_False:
  assumes "0 < n" and "n \<le> 2 ^ 64 - 4096"
  shows "\<exists>r. BytesToSlots n False = Inr r \<and> 0 < r \<and> r \<le> 2 ^ 63 \<and> n \<le> r * 4096"
proof (cases "n = 2 ^ 64 - 4096")
  case True
  then show ?thesis
    by (simp add: BytesToSlots_def granularity_def slot_granularity_def wrap_def wsub_def)
next
  case False
  then have "n + 4096 < 2 ^ 64" using assms(2) by simp
  then have "BytesToSlots n False = Inr ((n + 4095) div 4096)"
    by (simp add: BytesToSlots_def granularity_def slot_granularity_def wsub_small)
  moreover have "0 < (n + 4095) div 4096" "(n + 4095) div 4096 \<le> 2 ^ 63"
    "n \<le> (n + 4095) div 4096 * 4096" using assms by simp_all
  ultimately show ?thesis by blast
qed

lemma arena_offset:
  assumes "buddy_inv a" and "(off, n) \<in> used_bins (bin_manager a)"
  shows "off < total_slot_count (bin_manager a)" and "n * 4096 < 2 ^ 64"
    and "off * 4096 + n * 4096 \<le> capacity a" and "0 < n"
proof -
  note i = buddy_invD [OF assms(1)]
  have u: "0 < n" "off + n \<le> total_slot_count (bin_manager a)"
    using bm.used_law [OF i(1) assms(2)] by auto
  then show "off < total_slot_count (bin_manager a)" "0 < n" by auto
  have "(off + n) * 4096 \<le> capacity a" using u(2) i(3) by simp
  then show "off * 4096 + n * 4096 \<le> capacity a" by (simp add: add_mult_distrib)
  then show "n * 4096 < 2 ^ 64" using i(4,5) by linarith
qed

lemma live_apart:
  assumes "buddy_inv a" and "x \<in> live a" and "y \<in> live a" and "x \<noteq> y"
  shows "apart x y"
proof -
  let ?f = "\<lambda>(off, n). (slots_addr (memory_bin a) + off * 4096, n * 4096)"
  obtain u v where uv: "x = ?f u" "y = ?f v" "u \<in> used_bins (bin_manager a)"
      "v \<in> used_bins (bin_manager a)"
    using assms(2,3) unfolding live_eq [OF assms(1)] by blast
  then have "u \<noteq> v" using assms(4) by auto
  then have "apart u v" using bm.apart_law [OF buddy_invD(1) [OF assms(1)] uv(3,4)] by blast
  then show ?thesis using uv(1,2)
    by (cases u; cases v) (simp add: apart_def, linarith)
qed

lemma Allocate_law:
  assumes "buddy_inv a" and "0 < n" and "n \<le> 2 ^ 64 - 4096"
  shows "\<exists>ptr bytes a'. Buddy_Allocate a n True = Inr (ptr, bytes, a') \<and> buddy_inv a' \<and>
    memory_bin a' = memory_bin a \<and> capacity a' = capacity a \<and>
    (ptr = 0 \<and> bytes = None \<and> live a' = live a \<or>
     (\<exists>s. bytes = Some s \<and> n \<le> s \<and> (ptr, s) \<notin> live a \<and> live a' = insert (ptr, s) (live a) \<and>
        QueryAllocatedSize a' ptr = s \<and> slots_addr (memory_bin a) \<le> ptr))"
proof -
  note i = buddy_invD [OF assms(1)]
  obtain r where r: "BytesToSlots n False = Inr r" "0 < r" "r \<le> 2 ^ 63" "n \<le> r * 4096"
    using BytesToSlots_False [OF assms(2,3)] by blast
  obtain off b where b: "Bins_Allocate (bin_manager a) r = Inr (off, b)" "bins_inv b"
      "total_slot_count b = total_slot_count (bin_manager a)"
      "off = noffset \<and> b = bin_manager a \<or> off < total_slot_count (bin_manager a)"
    using bm.allocate_law [OF i(1) r(2,3)] by blast
  show ?thesis
  proof (cases "off = noffset")
    case True
    then have "b = bin_manager a"
      using b(4) bm.slots_law [OF i(1)] by (auto simp: noffset_def)
    with True r(1) b(1) assms(1) show ?thesis by (simp add: Buddy_Allocate_def)
  next
    case False
    then have off: "off < total_slot_count (bin_manager a)" using b(4) by blast
    obtain s where s: "r \<le> s" "SlotCountFor b off = Inr s"
        "used_bins b = insert (off, s) (used_bins (bin_manager a))"
        "(off, s) \<notin> used_bins (bin_manager a)"
      using bm.allocated_apart [OF i(1) r(2,3) b(1) False] by blast
    let ?p = "slots_addr (memory_bin a) + off * 4096"
    let ?a = "a\<lparr>bin_manager := b, allocation_table := (allocation_table a)(?p \<mapsto> (s, off))\<rparr>"
    have "off + s \<le> total_slot_count b" using bm.used_law [OF b(2), of off s] s(3) by simp
    then have "s * 4096 < 2 ^ 64" using i(3,4,5) b(3) by linarith
    then have run: "Buddy_Allocate a n True = Inr (?p, Some (s * 4096), ?a)"
      using r(1) b(1) False s(2) off i(2)
      by (simp add: Buddy_Allocate_def Map_def AddAllocationRecord_def granularity_def
          slot_granularity_def)
    have "off' \<noteq> off" if "(off', m) \<in> used_bins (bin_manager a)" for off' m
      using bm.apart_law [OF b(2), of "(off', m)" "(off, s)"] bm.used_law [OF b(2), of off' m]
        bm.used_law [OF b(2), of off s] s(3,4) that
      by (cases "m = s") (auto simp: apart_def)
    then have inv: "buddy_inv ?a"
      using i b s(3) by (auto simp: buddy_inv_def granularity_def slot_granularity_def)
    have "live ?a = insert (?p, s * 4096) (live a)"
      unfolding live_eq [OF inv] live_eq [OF assms(1)] using s(3) by simp
    moreover have "(?p, s * 4096) \<notin> live a"
      unfolding live_eq [OF assms(1)] using s(4) by auto
    moreover have "n \<le> s * 4096" using r(4) s(1) by linarith
    moreover have "QueryAllocatedSize ?a ?p = s * 4096"
      using \<open>s * 4096 < 2 ^ 64\<close>
      by (simp add: QueryAllocatedSize_def granularity_def slot_granularity_def)
    ultimately show ?thesis using run inv by (intro exI [of _ ?p] exI [of _ "Some (s * 4096)"] exI [of _ ?a]) auto
  qed
qed

lemma Deallocate_law:
  assumes "buddy_inv a"
  shows "\<exists>ptr a'. Deallocate a p = Inr (ptr, a') \<and> buddy_inv a' \<and>
    memory_bin a' = memory_bin a \<and> capacity a' = capacity a \<and>
    live a' = {x \<in> live a. fst x \<noteq> p} \<and> (ptr = 0 \<longleftrightarrow> p \<in> fst ` live a \<or> p = 0)"
proof (cases "allocation_table a p")
  case None
  then have "p \<notin> fst ` live a" by (auto simp: live_def)
  with None assms show ?thesis by (auto simp: Deallocate_def)
next
  case (Some rec)
  obtain n off where rec: "rec = (n, off)" by (cases rec)
  note i = buddy_invD [OF assms]
  have u: "(off, n) \<in> used_bins (bin_manager a)" "p = slots_addr (memory_bin a) + off * 4096"
    using Some rec i(6) by auto
  obtain b where b: "Bins_Free (bin_manager a) off = Inr b" "bins_inv b"
      "total_slot_count b = total_slot_count (bin_manager a)"
      "used_bins b = used_bins (bin_manager a) - {(off, n)}"
    using bm.release_exact [OF i(1) u(1)] by blast
  let ?a = "a\<lparr>bin_manager := b, allocation_table := (allocation_table a)(p := None)\<rparr>"
  have "Deallocate a p = Inr (0, ?a)" using Some rec b(1) by (simp add: Deallocate_def)
  moreover have "n' = n" if "(off, n') \<in> used_bins (bin_manager a)" for n'
    using bm.apart_law [OF i(1) that u(1)] bm.used_law [OF i(1)] that u(1)
    by (force simp: apart_def)
  then have "buddy_inv ?a"
    using i b u(2) by (auto simp: buddy_inv_def granularity_def slot_granularity_def)
  moreover have "live ?a = {x \<in> live a. fst x \<noteq> p}" by (auto simp: live_def)
  moreover have "p \<in> fst ` live a" using Some rec by (force simp: live_def)
  ultimately show ?thesis by auto
qed

lemma BuddyAllocator_new_law:
  assumes "k \<le> 32" and "0 < addr" and "addr + 2 ^ k * 4096 \<le> 2 ^ 64"
  shows "\<exists>a. BuddyAllocator_new addr (2 ^ k * 4096) = Inr a \<and> buddy_inv a \<and> live a = {} \<and>
    capacity a = 2 ^ k * 4096 \<and> slots_addr (memory_bin a) = addr \<and> bins_rep (bin_manager a) k Free"
proof -
  have k: "(2::nat) ^ k \<le> 2 ^ 32" using assms(1) by (intro power_increasing) auto
  have "BytesToSlots (2 ^ k * 4096) True = Inr (2 ^ k)"
    using k by (simp add: BytesToSlots_def granularity_def slot_granularity_def wsub_small)
  moreover obtain b where b: "BinManager_new (2 ^ k) = Inr b" "bins_rep b k Free"
    using BinManager_new_rep [OF assms(1)] by blast
  moreover have "IsPowerOf2 (2 ^ k)" using k by (subst IsPowerOf2_iff) auto
  ultimately have "BuddyAllocator_new addr (2 ^ k * 4096) = Inr \<lparr>bin_manager = b,
      memory_bin = \<lparr>slots_addr = addr, slot_count = 2 ^ k\<rparr>, allocation_table = Map.empty,
      capacity = 2 ^ k * 4096\<rparr>"
    by (simp add: BuddyAllocator_new_def MemoryBin_new_def)
  moreover have "bins_inv b" using b(2) by (auto simp: bins_inv_def)
  ultimately show ?thesis using bins_rep_facts(2,6) [OF b(2)] assms(2,3) b(2)
    by (simp add: buddy_inv_def live_def granularity_def slot_granularity_def)
qed

section \<open>Properties\<close>

datatype buddy_op = Op_Allocate nat | Op_Deallocate nat

fun buddy_step :: "allocator \<Rightarrow> buddy_op \<Rightarrow> allocator res" where
  "buddy_step a (Op_Allocate n) = rbind (Buddy_Allocate a n True) (\<lambda>(ptr, bytes, a). Inr a)"
| "buddy_step a (Op_Deallocate p) = rbind (Deallocate a p) (\<lambda>(ptr, a). Inr a)"

fun legal :: "buddy_op \<Rightarrow> bool" where
  "legal (Op_Allocate n) \<longleftrightarrow> 0 < n \<and> n \<le> 2 ^ 64 - 4096"
| "legal (Op_Deallocate p) \<longleftrightarrow> True"

lemma buddy_steps:
  "buddy_inv a \<Longrightarrow> list_all legal ops \<Longrightarrow>
   \<exists>a'. rfold buddy_step ops a = Inr a' \<and> buddy_inv a' \<and> memory_bin a' = memory_bin a \<and>
     capacity a' = capacity a"
proof (induction ops arbitrary: a)
  case (Cons op ops)
  have "\<exists>a'. buddy_step a op = Inr a' \<and> buddy_inv a' \<and> memory_bin a' = memory_bin a \<and>
      capacity a' = capacity a"
  proof (cases op)
    case (Op_Allocate n)
    then have "0 < n" "n \<le> 2 ^ 64 - 4096" using Cons.prems(2) by auto
    from Allocate_law [OF Cons.prems(1) this] Op_Allocate show ?thesis by auto
  next
    case (Op_Deallocate p)
    from Deallocate_law [OF Cons.prems(1), of p] Op_Deallocate show ?thesis by auto
  qed
  then obtain a1 where a1: "buddy_step a op = Inr a1" "buddy_inv a1" "memory_bin a1 = memory_bin a"
    "capacity a1 = capacity a" by blast
  from Cons.IH [OF a1(2)] Cons.prems(2) a1 show ?case by auto
qed simp

text \<open>The other sizes round to no slot, 0 itself and those that wrap around.\<close>

fun fits_size_t :: "buddy_op \<Rightarrow> bool" where
  "fits_size_t (Op_Allocate n) \<longleftrightarrow> n < 2 ^ 64"
| "fits_size_t (Op_Deallocate p) \<longleftrightarrow> True"

lemma Allocate_illegal:
  assumes "n < 2 ^ 64" and "\<not> legal (Op_Allocate n)"
  shows "Buddy_Allocate a n w = Inl Assert_failed"
proof -
  have "BytesToSlots n False = Inr 0"
  proof (cases "n = 0")
    case False
    then have n: "2 ^ 64 \<le> n + 4096" "n + 4096 < 2 ^ 64 + 4096" "2 ^ 64 < n + 4096" using assms by simp_all
    then have "wrap (n + 4096) = n + 4096 - 2 ^ 64"
      using mod_if [of "n + 4096" "2 ^ 64"] mod_less [of "n + 4096 - 2 ^ 64" "2 ^ 64"] by (simp add: wrap_def)
    then have "wsub (wrap (n + 4096)) 1 = n + 4096 - 2 ^ 64 - 1" using n by (subst wsub_small) simp_all
    then show ?thesis using n by (simp add: BytesToSlots_def granularity_def slot_granularity_def)
  qed (simp add: BytesToSlots_def granularity_def slot_granularity_def wsub_small)
  then show ?thesis by (simp add: Buddy_Allocate_def Bins_Allocate_def)
qed

lemma buddy_steps_illegal:
  "buddy_inv a \<Longrightarrow> list_all fits_size_t ops \<Longrightarrow> \<not> list_all legal ops \<Longrightarrow> rfold buddy_step ops a = Inl Assert_failed"
proof (induction ops arbitrary: a)
  case (Cons op ops)
  show ?case
  proof (cases "legal op")
    case True
    then obtain a1 where "buddy_step a op = Inr a1" "buddy_inv a1" using buddy_steps [OF Cons.prems(1), of "[op]"] by (auto simp: rbind_Inr_iff)
    then show ?thesis using Cons True by simp
  next
    case False
    then obtain n where "op = Op_Allocate n" by (cases op) auto
    then show ?thesis using Allocate_illegal [of n a True] Cons.prems(2) False by simp
  qed
qed simp

text \<open>
  Property C5. Whatever sequence of allocations of at least one byte and at most \<open>2 ^ 64 - 4096\<close> and of deallocations (of any pointer, also of one that
  was never handed out) runs on a new allocator over up to \<open>2 ^ 32\<close> slots, no call faults, and the blocks that clients hold
  are pairwise disjoint and lie inside the arena. A sequence with any other size - 0, or one so large that rounding it up wraps around to no
  slot - fails an assertion.
\<close>

theorem buddy_blocks_disjoint:
  assumes "k \<le> 32" and "0 < addr" and "addr + 2 ^ k * 4096 \<le> 2 ^ 64" and "list_all fits_size_t ops"
  shows "if list_all legal ops
    then \<exists>a. rbind (BuddyAllocator_new addr (2 ^ k * 4096)) (rfold buddy_step ops) = Inr a \<and>
      (\<forall>x \<in> live a. addr \<le> fst x \<and> 0 < snd x \<and> fst x + snd x \<le> addr + 2 ^ k * 4096) \<and>
      (\<forall>x \<in> live a. \<forall>y \<in> live a. x \<noteq> y \<longrightarrow> apart x y)
    else rbind (BuddyAllocator_new addr (2 ^ k * 4096)) (rfold buddy_step ops) = Inl Assert_failed"
proof -
  obtain a0 where a0: "BuddyAllocator_new addr (2 ^ k * 4096) = Inr a0" "buddy_inv a0"
      "capacity a0 = 2 ^ k * 4096" "slots_addr (memory_bin a0) = addr"
    using BuddyAllocator_new_law [OF assms(1-3)] by blast
  show ?thesis
  proof (cases "list_all legal ops")
    case True
    obtain a where a: "rfold buddy_step ops a0 = Inr a" "buddy_inv a" "memory_bin a = memory_bin a0"
        "capacity a = capacity a0"
      using buddy_steps [OF a0(2) True] by blast
    have "addr \<le> fst x \<and> 0 < snd x \<and> fst x + snd x \<le> addr + 2 ^ k * 4096" if "x \<in> live a" for x
      using that arena_offset [OF a(2)] a(3,4) a0(3,4) unfolding live_eq [OF a(2)] by force
    then show ?thesis using True a0(1) a(1) live_apart [OF a(2)] by auto
  next
    case False
    then show ?thesis using a0(1) buddy_steps_illegal [OF a0(2) assms(4)] by simp
  qed
qed

theorem buddy_blocks_disjoint_witness:
  "(\<exists>a. rbind (BuddyAllocator_new 4096 (2 ^ 4 * 4096))
      (rfold buddy_step [Op_Allocate 64, Op_Allocate 9000, Op_Deallocate 4096, Op_Allocate 1]) = Inr a \<and>
    (\<forall>x \<in> live a. \<forall>y \<in> live a. x \<noteq> y \<longrightarrow> apart x y)) \<and>
   rbind (BuddyAllocator_new 4096 (2 ^ 4 * 4096)) (rfold buddy_step [Op_Allocate 64, Op_Allocate 0]) = Inl Assert_failed"
  using buddy_blocks_disjoint [of 4 4096 "[Op_Allocate 64, Op_Allocate 9000, Op_Deallocate 4096, Op_Allocate 1]"]
    buddy_blocks_disjoint [of 4 4096 "[Op_Allocate 64, Op_Allocate 0]"]
  by auto

text \<open>
  Fact. A successful allocation adds one block, at least as large as requested, whose size is
  the one reported to the caller and by \<open>QueryAllocatedSize\<close>, and \<open>Deallocate\<close> of its address nulls
  the pointer and gives back exactly that block.
\<close>

theorem buddy_allocate_deallocate:
  assumes "buddy_inv a" and "0 < n" and "n \<le> 2 ^ 64 - 4096"
    and "Buddy_Allocate a n True = Inr (ptr, Some s, a')"
  shows "n \<le> s \<and> QueryAllocatedSize a' ptr = s \<and> live a' = insert (ptr, s) (live a) \<and>
    (\<forall>x \<in> live a. apart (ptr, s) x) \<and>
    (\<exists>a''. Deallocate a' ptr = Inr (0, a'') \<and> buddy_inv a'' \<and> live a'' = live a)"
proof -
  have a': "buddy_inv a'" "n \<le> s" "(ptr, s) \<notin> live a" "live a' = insert (ptr, s) (live a)"
      "QueryAllocatedSize a' ptr = s"
    using Allocate_law [OF assms(1-3)] assms(4) by auto
  have ap: "apart (ptr, s) x" if "x \<in> live a" for x
    using live_apart [OF a'(1), of "(ptr, s)" x] a'(3,4) that by auto
  obtain p a'' where a'': "Deallocate a' ptr = Inr (p, a'')" "buddy_inv a''"
      "live a'' = {x \<in> live a'. fst x \<noteq> ptr}" "p = 0"
    using Deallocate_law [OF a'(1), of ptr] a'(4) by force
  have "fst x \<noteq> ptr" if "x \<in> live a" for x
  proof -
    have "0 < snd x" using that arena_offset(4) [OF assms(1)] unfolding live_eq [OF assms(1)] by force
    then show ?thesis using ap [OF that] assms(2) a'(2) by (auto simp: apart_def)
  qed
  then have "live a'' = live a" using a''(3) a'(4) by auto
  then show ?thesis using a' ap a'' by auto
qed

theorem buddy_allocate_deallocate_witness:
  "\<exists>a a' ptr s. BuddyAllocator_new 4096 (2 ^ 4 * 4096) = Inr a \<and> 
     Buddy_Allocate a 5000 True = Inr (ptr, Some s, a') \<and> 5000 \<le> s \<and> QueryAllocatedSize a' ptr = s"
proof -
  obtain a where a: "BuddyAllocator_new 4096 (2 ^ 4 * 4096) = Inr a" "buddy_inv a"
      "slots_addr (memory_bin a) = 4096" "bins_rep (bin_manager a) 4 Free"
    using BuddyAllocator_new_law [of 4 4096] by auto
  have "NearestUpperPowerOf2 2 = 2 ^ 1"
    by (simp add: NearestUpperPowerOf2_def smear_32 [simplified] Let_def drop_bit_eq_div wsub_small)
  from Bins_Allocate_ok [OF a(4) _ this] obtain b' where
    b': "Bins_Allocate (bin_manager a) 2 = Inr (0, b')" "bins_rep b' 4 (fst (bin_alloc 1 4 Free))"
    by (auto simp: numeral_eq_Suc)
  have "SlotCountFor b' 0 = Inr 2"
    by (rule SlotCountFor_used [OF b'(2), of 0]) (simp_all add: covers_def numeral_eq_Suc)
  moreover have m: "slot_count (memory_bin a) = 16"
    using buddy_invD(2) [OF a(2)] bins_rep_facts(6) [OF a(4)] by simp
  moreover note b'(1) a(3)
  ultimately have "\<exists>a'. Buddy_Allocate a 5000 True = Inr (4096, Some 8192, a')"
    by (simp add: Buddy_Allocate_def BytesToSlots_def granularity_def slot_granularity_def wsub_small
        Map_def AddAllocationRecord_def noffset_def)
  then obtain a' where a': "Buddy_Allocate a 5000 True = Inr (4096, Some 8192, a')" by blast
  from buddy_allocate_deallocate [OF a(2) _ _ a'] have "5000 \<le> (8192::nat) \<and> QueryAllocatedSize a' 4096 = 8192"
    by simp
  with a(1) a' show ?thesis by blast
qed

end
