(* ===== verification/Bloom.thy ===== *)
theory Bloom
  imports Endian
begin

text \<open>
  The Bloom filter (\<open>src/bloom-filter/bloom-filter/bloom_filter.cpp\<close>) with the 32-bit MurmurHash2
  it hashes with (\<open>MurmurHash2.cpp\<close>). The sizing of a filter uses floating point: the operations on
  \<open>double\<close> that it needs are a parameter, a record \<open>fp\<close> of functions on an unspecified type, and
  what is proved holds for any of them. Bits, bytes and indices are machine words.
\<close>

section \<open>MurmurHash2\<close>

definition murmur_m :: "32 word" where
  "murmur_m = 0x5bd1e995"

text \<open>The loop that mixes four bytes at a time; the bytes that are left over are returned.\<close>

fun murmur_body :: "endianness \<Rightarrow> 32 word \<Rightarrow> byte list \<Rightarrow> 32 word \<times> byte list" where
  "murmur_body e h (b0 # b1 # b2 # b3 # rest) =
     (let k = obj_word e [b0, b1, b2, b3];
          k = k * murmur_m;
          k = k XOR drop_bit 24 k;
          k = k * murmur_m;
          h = h * murmur_m;
          h = h XOR k
      in murmur_body e h rest)"
| "murmur_body e h rest = (h, rest)"

text \<open>The fall-through \<open>switch\<close> on the number of bytes left over.\<close>

fun murmur_tail :: "32 word \<Rightarrow> byte list \<Rightarrow> 32 word" where
  "murmur_tail h [b0, b1, b2] =
     (((h XOR push_bit 16 (ucast b2)) XOR push_bit 8 (ucast b1)) XOR ucast b0) * murmur_m"
| "murmur_tail h [b0, b1] = ((h XOR push_bit 8 (ucast b1)) XOR ucast b0) * murmur_m"
| "murmur_tail h [b0] = (h XOR ucast b0) * murmur_m"
| "murmur_tail h bs = h"

definition MurmurHash2 :: "endianness \<Rightarrow> byte list \<Rightarrow> 32 word \<Rightarrow> 32 word" where
  "MurmurHash2 e key seed =
     (let h = seed XOR of_nat (length key);
          (h, rest) = murmur_body e h key;
          h = murmur_tail h rest;
          h = h XOR drop_bit 13 h;
          h = h * murmur_m
      in h XOR drop_bit 15 h)"

definition calc_data_hash :: "endianness \<Rightarrow> byte list \<Rightarrow> 32 word \<times> 32 word" where
  "calc_data_hash e data =
     (let a = MurmurHash2 e data 0x9747b28c; b = MurmurHash2 e data a in (a, b))"

section \<open>Sizing\<close>

text \<open>
  \<open>fp_bpe\<close> is \<open>-(log(error) / ln(2)^2)\<close>, \<open>fp_hashes\<close> the rounded-up product with \<open>ln(2)\<close>, \<open>fp_logb\<close>
  the truncated binary exponent of \<open>entries * bpe\<close> and \<open>fp_entries\<close> the truncated quotient of the
  number of bits and \<open>bpe\<close>; the others are comparisons with 0 and 1.
\<close>

record 'd fp =
  fp_le_0 :: "'d \<Rightarrow> bool"
  fp_ge_1 :: "'d \<Rightarrow> bool"
  fp_bpe :: "'d \<Rightarrow> 'd"
  fp_hashes :: "'d \<Rightarrow> 32 word"
  fp_logb :: "32 word \<Rightarrow> 'd \<Rightarrow> 32 word"
  fp_entries :: "64 word \<Rightarrow> 'd \<Rightarrow> 64 word"

definition calc_bits_per_entry :: "'d fp \<Rightarrow> 'd \<Rightarrow> 'd res" where
  "calc_bits_per_entry fp error =
     (let bpe = fp_bpe fp error in
      rbind (guard (\<not> fp_le_0 fp bpe) Assert_failed) (\<lambda>_.
      rbind (guard (fp_ge_1 fp bpe) (Thrown ''invalid bpe'')) (\<lambda>_. Inr bpe)))"

definition calc_optimal_hashes :: "'d fp \<Rightarrow> 'd \<Rightarrow> 32 word res" where
  "calc_optimal_hashes fp bpe =
     rbind (guard (fp_ge_1 fp bpe) Assert_failed) (\<lambda>_. Inr (fp_hashes fp bpe))"

definition calc_capacity :: "'d fp \<Rightarrow> 32 word \<Rightarrow> 'd \<Rightarrow> 64 word res" where
  "calc_capacity fp estimated_entries bpe =
     rbind (guard (0 < estimated_entries \<and> fp_ge_1 fp bpe) Assert_failed) (\<lambda>_.
     let bit_num = fp_logb fp estimated_entries bpe in
     rbind (guard (bit_num \<le> 52) (Thrown ''required capacity is too large'')) (\<lambda>_.
     let bit_num = bit_num + 1; bits = push_bit (unat bit_num) 1 in
     Inr (if bits < 8 then 8 else bits)))"

section \<open>The filter\<close>

datatype access_mode = read | writing

record bloom_filter =
  hashes :: "32 word"
  num_bits :: "64 word"
  max_entries :: "64 word"
  bf_size :: nat
  bytes :: "byte list"

definition bloom_filter_new :: "'d fp \<Rightarrow> 32 word \<Rightarrow> 'd \<Rightarrow> bloom_filter res" where
  "bloom_filter_new fp estimated_max_entries error =
     rbind (guard (estimated_max_entries \<noteq> 0) (Thrown ''estimated max entries cannot be 0'')) (\<lambda>_.
     rbind (guard (\<not> (fp_le_0 fp error \<or> fp_ge_1 fp error)) (Thrown ''invalid error rate'')) (\<lambda>_.
     rbind (calc_bits_per_entry fp error) (\<lambda>bpe.
     rbind (calc_optimal_hashes fp bpe) (\<lambda>h.
     rbind (calc_capacity fp estimated_max_entries bpe) (\<lambda>n.
     Inr \<lparr>hashes = h, num_bits = n, max_entries = fp_entries fp n bpe, bf_size = 0,
           bytes = replicate (unat (n div 8)) 0\<rparr>)))))"

definition test_set_bit :: "bloom_filter \<Rightarrow> 64 word \<Rightarrow> access_mode \<Rightarrow> (bool \<times> bloom_filter) res" where
  "test_set_bit f bit_index mode =
     (let byte_index = unat (bit_index div 8); msk = push_bit (unat (bit_index mod 8)) 1 in
      rbind (at (bytes f) byte_index) (\<lambda>b.
      if b AND msk \<noteq> 0 then Inr (True, f)
      else if mode = writing
      then rbind (set_at (bytes f) byte_index (b OR msk)) (\<lambda>bs. Inr (False, f\<lparr>bytes := bs\<rparr>))
      else Inr (False, f)))"

text \<open>
  The loop of \<open>check_add_hash\<close> from iteration \<open>i\<close> on; \<open>todo\<close> is the number of iterations that are
  left. An unset bit ends the loop in read mode.
\<close>

fun check_loop :: "nat \<Rightarrow> 64 word \<Rightarrow> 64 word \<Rightarrow> 64 word \<Rightarrow> access_mode \<Rightarrow> bool \<Rightarrow> bloom_filter \<Rightarrow>
    (bool \<times> bloom_filter) res" where
  "check_loop 0 i hv_a hv_b mode unset_found f = Inr (if mode = read then True else unset_found, f)"
| "check_loop (Suc todo) i hv_a hv_b mode unset_found f =
     rbind (guard (num_bits f \<noteq> 0) Div_by_zero) (\<lambda>_.
     let idx = (hv_a + i * hv_b) mod num_bits f in
     rbind (test_set_bit f idx mode) (\<lambda>(present, f).
     if \<not> present
     then if mode = read then Inr (False, f)
          else check_loop todo (i + 1) hv_a hv_b mode True f
     else check_loop todo (i + 1) hv_a hv_b mode unset_found f))"

definition check_add_hash :: "bloom_filter \<Rightarrow> 64 word \<Rightarrow> 64 word \<Rightarrow> access_mode \<Rightarrow>
    (bool \<times> bloom_filter) res" where
  "check_add_hash f hv_a hv_b mode = check_loop (unat (hashes f)) 0 hv_a hv_b mode False f"

definition bf_add :: "endianness \<Rightarrow> bloom_filter \<Rightarrow> byte list \<Rightarrow> (bool \<times> bloom_filter) res" where
  "bf_add e f data =
     rbind (guard (0 < length data) (Thrown ''len must be positive'')) (\<lambda>_.
     let (a, b) = calc_data_hash e data in
     rbind (check_add_hash f (ucast a) (ucast b) writing) (\<lambda>(added, f).
     Inr (added, if added then f\<lparr>bf_size := bf_size f + 1\<rparr> else f)))"

definition may_contain :: "endianness \<Rightarrow> bloom_filter \<Rightarrow> byte list \<Rightarrow> bool res" where
  "may_contain e f data =
     rbind (guard (0 < length data) (Thrown ''len must be positive'')) (\<lambda>_.
     let (a, b) = calc_data_hash e data in
     rbind (check_add_hash f (ucast a) (ucast b) read) (\<lambda>(present, f). Inr present))"

section \<open>Invariant and abstraction\<close>

definition bloom_inv :: "bloom_filter \<Rightarrow> bool" where
  "bloom_inv f \<longleftrightarrow> (\<exists>k. 3 \<le> k \<and> k \<le> 53 \<and> unat (num_bits f) = 2 ^ k \<and> length (bytes f) = 2 ^ (k - 3))"

text \<open>The positions of the bits that are set.\<close>

definition set_bits :: "bloom_filter \<Rightarrow> nat set" where
  "set_bits f = {i. i < 8 * length (bytes f) \<and> bit (bytes f ! (i div 8)) (i mod 8)}"

text \<open>The positions a pair of hash values stands for.\<close>

definition positions :: "bloom_filter \<Rightarrow> 64 word \<Rightarrow> 64 word \<Rightarrow> nat set" where
  "positions f a b = (\<lambda>i. unat ((a + of_nat i * b) mod num_bits f)) ` {..< unat (hashes f)}"

lemma bloom_inv_pos:
  assumes "bloom_inv f"
  shows "num_bits f \<noteq> 0" and "unat (x mod num_bits f) < 8 * length (bytes f)"
proof -
  obtain k where k: "3 \<le> k" "unat (num_bits f) = 2 ^ k" "length (bytes f) = 2 ^ (k - 3)"
    using assms by (auto simp: bloom_inv_def)
  then show "num_bits f \<noteq> 0" by (metis unsigned_0 power_not_zero zero_neq_numeral)
  obtain j where "k = 3 + j" using k(1) le_Suc_ex by blast
  then have "(2::nat) ^ k = 8 * 2 ^ (k - 3)" by (simp add: power_add)
  then show "unat (x mod num_bits f) < 8 * length (bytes f)"
    using k by (simp add: unat_mod)
qed

lemma bit_or_single: "n < 8 \<Longrightarrow> bit (b OR 2 ^ n) m \<longleftrightarrow> bit b m \<or> m = n" for b :: byte
  by (auto simp: bit_or_iff bit_exp_iff)

lemma test_set_bit_law:
  assumes "unat bi < 8 * length (bytes f)"
  shows "\<exists>bs. test_set_bit f bi mode = Inr (unat bi \<in> set_bits f, f\<lparr>bytes := bs\<rparr>) \<and>
    length bs = length (bytes f) \<and>
    set_bits (f\<lparr>bytes := bs\<rparr>) = (if mode = writing then insert (unat bi) (set_bits f) else set_bits f) \<and>
    (mode = read \<longrightarrow> bs = bytes f)"
proof -
  let ?i = "unat bi" and ?bs = "bytes f"
  let ?b = "?bs ! (?i div 8)" and ?n = "?i mod 8"
  have byte: "?i div 8 < length ?bs" using assms by (simp add: less_mult_imp_div_less mult.commute)
  have idx: "unat (bi div 8) = ?i div 8" "unat (bi mod 8) = ?n" by (simp_all add: unat_div unat_mod)
  have tst: "?b AND push_bit ?n 1 \<noteq> 0 \<longleftrightarrow> ?i \<in> set_bits f"
    unfolding bit_iff_and_push_bit_not_eq_0 [symmetric] using assms by (simp add: set_bits_def)
  have upd: "set_bits (f\<lparr>bytes := ?bs[?i div 8 := ?b OR push_bit ?n 1]\<rparr>) = insert ?i (set_bits f)"
  proof (rule set_eqI)
    fix j
    show "j \<in> set_bits (f\<lparr>bytes := ?bs[?i div 8 := ?b OR push_bit ?n 1]\<rparr>) \<longleftrightarrow> j \<in> insert ?i (set_bits f)"
    proof (cases "j div 8 = ?i div 8")
      case True
      then have "j = ?i \<longleftrightarrow> j mod 8 = ?n" by (metis div_mult_mod_eq)
      then show ?thesis using True byte assms
        by (auto simp: set_bits_def bit_or_single)
    next
      case False
      then show ?thesis by (auto simp: set_bits_def)
    qed
  qed
  show ?thesis
  proof (cases "?i \<in> set_bits f")
    case True
    then have "test_set_bit f bi mode = Inr (True, f)"
      using tst byte by (simp add: test_set_bit_def idx at_ok Let_def)
    then show ?thesis using True by (intro exI [of _ ?bs]) auto
  next
    case False
    show ?thesis
    proof (cases "mode = writing")
      case w: True
      then have "test_set_bit f bi mode = Inr (False, f\<lparr>bytes := ?bs[?i div 8 := ?b OR push_bit ?n 1]\<rparr>)"
        using tst byte False by (simp add: test_set_bit_def idx at_ok set_at_ok Let_def)
      then show ?thesis using False w upd
        by (intro exI [of _ "?bs[?i div 8 := ?b OR push_bit ?n 1]"]) auto
    next
      case r: False
      then have "test_set_bit f bi mode = Inr (False, f)"
        using tst byte False by (simp add: test_set_bit_def idx at_ok Let_def)
      then show ?thesis using False r by (intro exI [of _ ?bs]) auto
    qed
  qed
qed

lemma bloom_inv_bytes: "bloom_inv f \<Longrightarrow> length bs = length (bytes f) \<Longrightarrow> bloom_inv (f\<lparr>bytes := bs\<rparr>)"
  by (simp add: bloom_inv_def)

text \<open>The positions of the iterations that the loop still has to do.\<close>

abbreviation todo_positions :: "bloom_filter \<Rightarrow> nat \<Rightarrow> nat \<Rightarrow> 64 word \<Rightarrow> 64 word \<Rightarrow> nat set" where
  "todo_positions f i todo a b \<equiv>
     (\<lambda>i. unat ((a + of_nat i * b) mod num_bits f)) ` {i ..< i + todo}"

lemma todo_Suc:
  "todo_positions f i (Suc todo) a b =
   insert (unat ((a + of_nat i * b) mod num_bits f)) (todo_positions f (Suc i) todo a b)"
proof -
  have "{i ..< i + Suc todo} = insert i {Suc i ..< Suc i + todo}" by auto
  then show ?thesis by simp
qed

lemma check_loop_read:
  "bloom_inv f \<Longrightarrow>
   check_loop todo (of_nat i) a b read u f = Inr (todo_positions f i todo a b \<subseteq> set_bits f, f)"
proof (induction todo arbitrary: i u)
  case (Suc todo)
  let ?p = "(a + of_nat i * b) mod num_bits f"
  have t: "test_set_bit f ?p read = Inr (unat ?p \<in> set_bits f, f)"
    using test_set_bit_law [OF bloom_inv_pos(2) [OF Suc.prems], of "a + of_nat i * b" read] by auto
  have "(of_nat i + 1 :: 64 word) = of_nat (Suc i)" by simp
  with Suc.IH [OF Suc.prems, of "Suc i" u] have "check_loop todo (of_nat i + 1) a b read u f =
      Inr (todo_positions f (Suc i) todo a b \<subseteq> set_bits f, f)"
    by (simp only:)
  then show ?case unfolding todo_Suc
    using t bloom_inv_pos(1) [OF Suc.prems] by (simp add: Let_def)
qed simp

lemma check_loop_write:
  "bloom_inv f \<Longrightarrow>
   \<exists>bs. check_loop todo (of_nat i) a b writing u f =
     Inr (u \<or> \<not> todo_positions f i todo a b \<subseteq> set_bits f, f\<lparr>bytes := bs\<rparr>) \<and>
     length bs = length (bytes f) \<and>
     set_bits (f\<lparr>bytes := bs\<rparr>) = set_bits f \<union> todo_positions f i todo a b"
proof (induction todo arbitrary: i u f)
  case 0
  then show ?case by (intro exI [of _ "bytes f"]) simp
next
  case (Suc todo)
  let ?p = "(a + of_nat i * b) mod num_bits f"
  obtain bs where bs: "test_set_bit f ?p writing = Inr (unat ?p \<in> set_bits f, f\<lparr>bytes := bs\<rparr>)"
      "length bs = length (bytes f)" "set_bits (f\<lparr>bytes := bs\<rparr>) = insert (unat ?p) (set_bits f)"
    using test_set_bit_law [OF bloom_inv_pos(2) [OF Suc.prems], of "a + of_nat i * b" writing] by auto
  let ?u = "if unat ?p \<in> set_bits f then u else True"
  have i: "(of_nat i + 1 :: 64 word) = of_nat (Suc i)" by simp
  obtain bs' where bs': "check_loop todo (of_nat (Suc i)) a b writing ?u (f\<lparr>bytes := bs\<rparr>) =
      Inr (?u \<or> \<not> todo_positions f (Suc i) todo a b \<subseteq> insert (unat ?p) (set_bits f), f\<lparr>bytes := bs'\<rparr>)"
      "length bs' = length (bytes f)"
      "set_bits (f\<lparr>bytes := bs'\<rparr>) = insert (unat ?p) (set_bits f) \<union> todo_positions f (Suc i) todo a b"
    using Suc.IH [OF bloom_inv_bytes [OF Suc.prems bs(2)], of "Suc i" ?u] bs(2,3) by auto
  have "check_loop (Suc todo) (of_nat i) a b writing u f =
      check_loop todo (of_nat (Suc i)) a b writing ?u (f\<lparr>bytes := bs\<rparr>)"
    using bs(1) bloom_inv_pos(1) [OF Suc.prems] by (simp add: Let_def i del: of_nat_Suc)
  moreover have "(?u \<or> \<not> todo_positions f (Suc i) todo a b \<subseteq> insert (unat ?p) (set_bits f)) =
      (u \<or> \<not> todo_positions f i (Suc todo) a b \<subseteq> set_bits f)"
    unfolding todo_Suc by auto
  moreover have "insert (unat ?p) (set_bits f) \<union> todo_positions f (Suc i) todo a b =
      set_bits f \<union> todo_positions f i (Suc todo) a b"
    unfolding todo_Suc by auto
  ultimately show ?case using bs' by (intro exI [of _ bs']) simp
qed

lemma positions_todo: "positions f a b = todo_positions f 0 (unat (hashes f)) a b"
  by (simp add: positions_def atLeast0LessThan)

definition key_positions :: "endianness \<Rightarrow> bloom_filter \<Rightarrow> byte list \<Rightarrow> nat set" where
  "key_positions e f data = (let (a, b) = calc_data_hash e data in positions f (ucast a) (ucast b))"

lemma may_contain_law:
  assumes "bloom_inv f" and "data \<noteq> []"
  shows "may_contain e f data = Inr (key_positions e f data \<subseteq> set_bits f)"
proof -
  obtain a b where "calc_data_hash e data = (a, b)" by (cases "calc_data_hash e data")
  then show ?thesis using check_loop_read [OF assms(1), of _ 0] assms(2)
    by (simp add: may_contain_def check_add_hash_def key_positions_def positions_todo)
qed

lemma bf_add_law:
  assumes "bloom_inv f" and "data \<noteq> []"
  shows "\<exists>f'. bf_add e f data = Inr (\<not> key_positions e f data \<subseteq> set_bits f, f') \<and> bloom_inv f' \<and>
    num_bits f' = num_bits f \<and> hashes f' = hashes f \<and>
    bf_size f' = bf_size f + (if key_positions e f data \<subseteq> set_bits f then 0 else 1) \<and>
    set_bits f' = set_bits f \<union> key_positions e f data"
proof -
  obtain a b where h: "calc_data_hash e data = (a, b)" by (cases "calc_data_hash e data")
  let ?k = "key_positions e f data"
  obtain bs where bs: "check_add_hash f (ucast a) (ucast b) writing = Inr (\<not> ?k \<subseteq> set_bits f, f\<lparr>bytes := bs\<rparr>)"
      "length bs = length (bytes f)" "set_bits (f\<lparr>bytes := bs\<rparr>) = set_bits f \<union> ?k"
    using check_loop_write [OF assms(1), of "unat (hashes f)" 0 "ucast a" "ucast b" False] h
    by (auto simp: check_add_hash_def key_positions_def positions_todo)
  have inv: "bloom_inv (f\<lparr>bytes := bs, bf_size := n\<rparr>)" for n
    using assms(1) bs(2) by (simp add: bloom_inv_def)
  have sb: "set_bits (f\<lparr>bytes := bs, bf_size := n\<rparr>) = set_bits (f\<lparr>bytes := bs\<rparr>)" for n
    by (simp add: set_bits_def)
  show ?thesis
    using bs assms h inv sb bloom_inv_bytes [OF assms(1) bs(2)] by (simp add: bf_add_def)
qed

lemma bloom_filter_new_law:
  assumes "bloom_filter_new fp n error = Inr f"
  shows "bloom_inv f \<and> set_bits f = {} \<and> bf_size f = 0"
proof -
  obtain bpe c where c: "calc_capacity fp n bpe = Inr c" "num_bits f = c" "bf_size f = 0"
      "bytes f = replicate (unat (c div 8)) 0"
    using assms by (auto simp: bloom_filter_new_def fault_simps)
  define k where "k = unat (fp_logb fp n bpe + 1)"
  have le: "fp_logb fp n bpe \<le> 52" using c(1) by (auto simp: calc_capacity_def fault_simps Let_def)
  then have "unat (fp_logb fp n bpe) \<le> 52" by (simp add: word_le_nat_alt)
  then have k: "k = unat (fp_logb fp n bpe) + 1" "k \<le> 53"
    unfolding k_def by (subst unat_add_lem [THEN iffD1]; simp)+
  have u: "unat (push_bit k 1 :: 64 word) = 2 ^ k"
  proof -
    have "(2::nat) ^ k \<le> 2 ^ 53" using k(2) by (intro power_increasing) auto
    moreover have "(push_bit k 1 :: 64 word) = of_nat (2 ^ k)" by simp
    ultimately show ?thesis using k(2) by (simp only: unsigned_of_nat) (simp add: take_bit_nat_eq_self)
  qed
  have "c = (if push_bit k 1 < (8 :: 64 word) then 8 else push_bit k 1)"
    using c(1) by (auto simp: calc_capacity_def fault_simps Let_def k_def)
  then have "unat c = 2 ^ max 3 k"
  proof (cases "k < 3")
    case True
    then have "(2::nat) ^ k < 2 ^ 3" by (intro power_strict_increasing) auto
    with True u \<open>c = _\<close> show ?thesis by (simp add: word_less_nat_alt)
  next
    case False
    then have "(2::nat) ^ 3 \<le> 2 ^ k" by (intro power_increasing) auto
    with False u \<open>c = _\<close> show ?thesis by (simp add: word_less_nat_alt max_def)
  qed
  moreover have "(2::nat) ^ max 3 k div 8 = 2 ^ (max 3 k - 3)"
  proof -
    obtain j where "max 3 k = 3 + j" by (metis le_Suc_ex max.cobounded1)
    then show ?thesis by (simp add: power_add)
  qed
  ultimately have "bloom_inv f"
    using c k(2) by (auto simp: bloom_inv_def unat_div intro!: exI [of _ "max 3 k"])
  moreover have "set_bits f = {}" using c(4) by (auto simp: set_bits_def)
  ultimately show ?thesis using c(3) by simp
qed

section \<open>The contract of an approximate set\<close>

text \<open>
  \<open>seen\<close> are the keys a query may answer for; adding a key makes it one of them and takes none away.
\<close>

locale approximate_set =
  fixes inv :: "'s \<Rightarrow> bool"
    and valid :: "'k \<Rightarrow> bool"
    and shown :: "'s \<Rightarrow> 'k \<Rightarrow> bool"
    and count :: "'s \<Rightarrow> nat"
    and add :: "'s \<Rightarrow> 'k \<Rightarrow> (bool \<times> 's) res"
    and query :: "'s \<Rightarrow> 'k \<Rightarrow> bool res"
  assumes add_law: "inv s \<Longrightarrow> valid k \<Longrightarrow> \<exists>s'. add s k = Inr (\<not> shown s k, s') \<and> inv s' \<and> shown s' k \<and>
        (\<forall>j. shown s j \<longrightarrow> shown s' j) \<and> count s' = count s + (if shown s k then 0 else 1)"
    and query_law: "inv s \<Longrightarrow> valid k \<Longrightarrow> query s k = Inr (shown s k)"
begin

definition add_all :: "'s \<Rightarrow> 'k list \<Rightarrow> 's res" where
  "add_all s ks = rfold (\<lambda>s k. rbind (add s k) (\<lambda>(b, s). Inr s)) ks s"

lemma add_all_law:
  "inv s \<Longrightarrow> list_all valid ks \<Longrightarrow> \<exists>s'. add_all s ks = Inr s' \<and> inv s' \<and>
    (\<forall>j. shown s j \<or> j \<in> set ks \<longrightarrow> shown s' j) \<and> count s' \<le> count s + card (set ks - Collect (shown s))"
proof (induction ks arbitrary: s)
  case Nil
  then show ?case by (simp add: add_all_def)
next
  case (Cons k ks)
  obtain s1 where s1: "add s k = Inr (\<not> shown s k, s1)" "inv s1" "shown s1 k"
      "\<forall>j. shown s j \<longrightarrow> shown s1 j" "count s1 = count s + (if shown s k then 0 else 1)"
    using add_law [OF Cons.prems(1), of k] Cons.prems(2) by auto
  obtain s2 where s2: "add_all s1 ks = Inr s2" "inv s2"
      "\<forall>j. shown s1 j \<or> j \<in> set ks \<longrightarrow> shown s2 j"
      "count s2 \<le> count s1 + card (set ks - Collect (shown s1))"
    using Cons.IH [OF s1(2)] Cons.prems(2) by auto
  let ?D = "set ks - Collect (shown s1)"
  have "count s2 \<le> count s + card (set (k # ks) - Collect (shown s))"
  proof (cases "shown s k")
    case True
    have "?D \<subseteq> set (k # ks) - Collect (shown s)" using s1(4) by auto
    then have "card ?D \<le> card (set (k # ks) - Collect (shown s))" by (intro card_mono) auto
    then show ?thesis using s2(4) s1(5) True by simp
  next
    case False
    have "insert k ?D \<subseteq> set (k # ks) - Collect (shown s)" using s1(4) False by auto
    then have "card (insert k ?D) \<le> card (set (k # ks) - Collect (shown s))" by (intro card_mono) auto
    then show ?thesis using s2(4) s1(3,5) False by simp
  qed
  moreover have "add_all s (k # ks) = Inr s2" using s1(1) s2(1) by (simp add: add_all_def)
  ultimately show ?case using s1(3,4) s2(2,3) by auto
qed

lemma never_forgets:
  assumes "inv s" and "list_all valid ks" and "k \<in> set ks"
  shows "\<exists>s'. add_all s ks = Inr s' \<and> query s' k = Inr True \<and> (\<exists>s''. add s' k = Inr (False, s''))"
proof -
  obtain s' where s': "add_all s ks = Inr s'" "inv s'" "shown s' k"
    using add_all_law [OF assms(1,2)] assms(3) by blast
  have "valid k" using assms(2,3) by (simp add: list_all_iff)
  then show ?thesis using s' query_law [OF s'(2)] add_law [OF s'(2)] by fastforce
qed

end

interpretation bloom: approximate_set bloom_inv "\<lambda>k. k \<noteq> []"
  "\<lambda>f k. key_positions e f k \<subseteq> set_bits f" bf_size "bf_add e" "may_contain e" for e
proof unfold_locales
  fix f and k :: "byte list" assume f: "bloom_inv f" and k: "k \<noteq> []"
  obtain f' where f': "bf_add e f k = Inr (\<not> key_positions e f k \<subseteq> set_bits f, f')" "bloom_inv f'"
      "num_bits f' = num_bits f" "hashes f' = hashes f"
      "bf_size f' = bf_size f + (if key_positions e f k \<subseteq> set_bits f then 0 else 1)"
      "set_bits f' = set_bits f \<union> key_positions e f k"
    using bf_add_law [OF f k] by blast
  have "key_positions e f' j = key_positions e f j" for j
    using f'(3,4) by (simp add: key_positions_def positions_def)
  with f' show "\<exists>f'. bf_add e f k = Inr (\<not> key_positions e f k \<subseteq> set_bits f, f') \<and> bloom_inv f' \<and>
      key_positions e f' k \<subseteq> set_bits f' \<and>
      (\<forall>j. key_positions e f j \<subseteq> set_bits f \<longrightarrow> key_positions e f' j \<subseteq> set_bits f') \<and>
      bf_size f' = bf_size f + (if key_positions e f k \<subseteq> set_bits f then 0 else 1)"
    by (intro exI [of _ f']) auto
  show "may_contain e f k = Inr (key_positions e f k \<subseteq> set_bits f)"
    by (rule may_contain_law [OF f k])
qed

section \<open>Properties\<close>

text \<open>
  Property C33. A Bloom filter has no false negatives: in a filter of any accepted size, whatever keys
  are added in whatever order, no access leaves the byte vector, every added key is reported as
  maybe contained, and adding it again reports that it may already be present.
\<close>

theorem bloom_no_false_negatives:
  assumes "bloom_filter_new fp n error = Inr f" and "list_all (\<lambda>k. k \<noteq> []) ks" and "k \<in> set ks"
  shows "\<exists>f'. rfold (\<lambda>f k. rbind (bf_add e f k) (\<lambda>(b, f). Inr f)) ks f = Inr f' \<and>
    may_contain e f' k = Inr True \<and> (\<exists>f''. bf_add e f' k = Inr (False, f''))"
  using bloom.never_forgets [OF conjunct1 [OF bloom_filter_new_law [OF assms(1)]] assms(2,3)]
  by (simp add: bloom.add_all_def)

text \<open>A concrete floating-point parameter: doubles as rationals rounded to naturals.\<close>

definition nat_fp :: "nat fp" where
  "nat_fp = \<lparr>fp_le_0 = (\<lambda>d. d = 0), fp_ge_1 = (\<lambda>d. 100 \<le> d), fp_bpe = (\<lambda>d. 900),
     fp_hashes = (\<lambda>d. 7), fp_logb = (\<lambda>n d. 5), fp_entries = (\<lambda>n d. 7)\<rparr>"

theorem bloom_no_false_negatives_witness:
  "\<exists>f f'. bloom_filter_new nat_fp 4 1 = Inr f \<and>
     rfold (\<lambda>f k. rbind (bf_add Little_endian f k) (\<lambda>(b, f). Inr f)) [[1, 2, 3], [4]] f = Inr f' \<and>
     may_contain Little_endian f' [4] = Inr True"
proof -
  have "\<exists>f. bloom_filter_new nat_fp 4 1 = Inr f"
    by (simp add: bloom_filter_new_def nat_fp_def calc_bits_per_entry_def calc_optimal_hashes_def
        calc_capacity_def Let_def)
  then obtain f where f: "bloom_filter_new nat_fp 4 1 = Inr f" by blast
  from bloom_no_false_negatives [OF f, of "[[1, 2, 3], [4]]" "[4]"] f show ?thesis by auto
qed

text \<open>
  Fact. \<open>add\<close> returns true exactly when \<open>may_contain\<close> denied the key just before, and \<open>size\<close>
  counts these: after any additions it is at most the number of different keys. \<open>may_contain\<close> does
  not change the filter.
\<close>

theorem bloom_size_bound:
  assumes "bloom_filter_new fp n error = Inr f" and "list_all (\<lambda>k. k \<noteq> []) ks"
  shows "\<exists>f'. rfold (\<lambda>f k. rbind (bf_add e f k) (\<lambda>(b, f). Inr f)) ks f = Inr f' \<and>
    bf_size f' \<le> card (set ks) \<and>
    (\<forall>k. k \<noteq> [] \<longrightarrow> (\<exists>f''. bf_add e f' k = Inr (may_contain e f' k = Inr False, f'')))"
proof -
  have f: "bloom_inv f" "bf_size f = 0" using bloom_filter_new_law [OF assms(1)] by auto
  let ?D = "set ks - {k. key_positions e f k \<subseteq> set_bits f}"
  obtain f' where f': "bloom.add_all e f ks = Inr f'" "bloom_inv f'" "bf_size f' \<le> 0 + card ?D"
    using bloom.add_all_law [OF f(1) assms(2), of e] f(2) by auto
  have "card ?D \<le> card (set ks)" by (intro card_mono) auto
  then have "bf_size f' \<le> card (set ks)" using f'(3) by linarith
  moreover have "\<exists>f''. bf_add e f' k = Inr (may_contain e f' k = Inr False, f'')" if "k \<noteq> []" for k
    using bf_add_law [OF f'(2) that, of e] may_contain_law [OF f'(2) that, of e] by auto
  ultimately show ?thesis using f'(1) by (auto simp: bloom.add_all_def)
qed

theorem bloom_size_bound_witness:
  "\<exists>f f'. bloom_filter_new nat_fp 4 1 = Inr f \<and>
     rfold (\<lambda>f k. rbind (bf_add Little_endian f k) (\<lambda>(b, f). Inr f)) [[1, 2, 3], [4], [4]] f = Inr f' \<and>
     bf_size f' \<le> card {[1, 2, 3], [4 :: byte]}"
proof -
  have "\<exists>f. bloom_filter_new nat_fp 4 1 = Inr f"
    by (simp add: bloom_filter_new_def nat_fp_def calc_bits_per_entry_def calc_optimal_hashes_def
        calc_capacity_def Let_def)
  then obtain f where f: "bloom_filter_new nat_fp 4 1 = Inr f" by blast
  from bloom_size_bound [OF f, of "[[1, 2, 3], [4], [4]]" Little_endian] f show ?thesis by auto
qed

end
