(* ===== verification/Hex.thy ===== *)
theory Hex
  imports Prelude
begin

text \<open>
  Numbers as hexadecimal text: the value of a digit and of a string, the lower-case digits of a
  number as \<open>printf("%llx")\<close> and \<open>fmt("{:x}")\<close> write them, and the zero-padded form of \<open>%0wllx\<close>.
\<close>

definition hex_val :: "char \<Rightarrow> nat option" where
  "hex_val c =
     (let n = of_char c :: nat in
      if 48 \<le> n \<and> n \<le> 57 then Some (n - 48)
      else if 97 \<le> n \<and> n \<le> 102 then Some (n - 87)
      else if 65 \<le> n \<and> n \<le> 70 then Some (n - 55)
      else None)"

definition hex_digit :: "nat \<Rightarrow> char" where
  "hex_digit d = ''0123456789abcdef'' ! d"

fun to_hex :: "nat \<Rightarrow> string" where
  "to_hex n = (if n < 16 then [hex_digit n] else to_hex (n div 16) @ [hex_digit (n mod 16)])"

declare to_hex.simps [simp del]

definition is_hex :: "string \<Rightarrow> bool" where
  "is_hex s \<longleftrightarrow> (\<forall>c \<in> set s. hex_val c \<noteq> None)"

definition hex_value :: "string \<Rightarrow> nat" where
  "hex_value s = foldl (\<lambda>n c. n * 16 + the (hex_val c)) 0 s"

text \<open>\<open>%0wllx\<close>: at least \<open>w\<close> digits, filled with zeros on the left.\<close>

definition pad_hex :: "nat \<Rightarrow> nat \<Rightarrow> string" where
  "pad_hex w n = replicate (w - length (to_hex n)) CHR ''0'' @ to_hex n"

lemma hex_val_less: "hex_val c = Some d \<Longrightarrow> d < 16"
  by (auto simp: hex_val_def Let_def split: if_splits)

lemma hex_val_1 [simp]: "hex_val CHR ''1'' = Some 1"
  by (simp add: hex_val_def)

lemma hex_value_snoc: "hex_value (s @ [c]) = hex_value s * 16 + the (hex_val c)"
  by (simp add: hex_value_def)

lemma hex_digit_val: "d < 16 \<Longrightarrow> hex_val (hex_digit d) = Some d"
proof -
  assume "d < 16"
  then have "d \<in> set [0..<16]" by simp
  moreover have "\<forall>d \<in> set [0..<16]. hex_val (hex_digit d) = Some d"
    by (simp add: hex_digit_def hex_val_def upt_rec)
  ultimately show ?thesis by blast
qed

lemma hex_value_to_hex [simp]: "hex_value (to_hex n) = n"
proof (induction n rule: to_hex.induct)
  case (1 n)
  then show ?case
    by (simp add: to_hex.simps [of n] hex_value_snoc hex_digit_val) (simp add: hex_value_def hex_digit_val)
qed

lemma is_hex_to_hex [simp]: "is_hex (to_hex n)"
proof (induction n rule: to_hex.induct)
  case (1 n)
  then show ?case by (simp add: to_hex.simps [of n] is_hex_def hex_digit_val ball_Un)
qed

lemma length_to_hex: "n < 16 ^ w \<Longrightarrow> 0 < w \<Longrightarrow> length (to_hex n) \<le> w"
proof (induction n arbitrary: w rule: to_hex.induct)
  case (1 n)
  show ?case
  proof (cases "n < 16")
    case True
    then show ?thesis using "1.prems"(2) by (simp add: to_hex.simps [of n])
  next
    case False
    obtain v where v: "w = Suc v" using "1.prems"(2) by (cases w) auto
    have "0 < v" using "1.prems"(1) False v by (cases v) auto
    note w = v this
    have "n div 16 < 16 ^ v" using "1.prems"(1) w by (simp add: less_mult_imp_div_less mult.commute)
    then show ?thesis using 1(1) [of v] False w by (simp add: to_hex.simps [of n])
  qed
qed

lemma hex_value_zeros: "hex_value (replicate k CHR ''0'' @ s) = hex_value s"
proof (induction k)
  case (Suc k)
  then show ?case by (simp add: hex_value_def hex_val_def)
qed simp

lemma hex_value_pad [simp]: "hex_value (pad_hex w n) = n"
  by (simp add: pad_hex_def hex_value_zeros)

lemma is_hex_pad [simp]: "is_hex (pad_hex w n)"
  using is_hex_to_hex [of n] by (auto simp: pad_hex_def is_hex_def hex_val_def)

lemma pad_hex_nonempty [simp]: "pad_hex w n \<noteq> []"
  by (simp add: pad_hex_def to_hex.simps [of n])

lemma length_pad_hex: "n < 16 ^ w \<Longrightarrow> 0 < w \<Longrightarrow> length (pad_hex w n) = w"
  using length_to_hex [of n w] by (simp add: pad_hex_def)

end
