(* ===== verification/Hashids.thy ===== *)
theory Hashids
  imports Hex "HOL-Library.Multiset"
begin

text \<open>
  The hashids codec (\<open>src/hashids/hashids/hashids.cpp\<close>): numbers to short strings and back. Strings
  are lists of characters, \<open>std::uint64_t\<close> values are natural numbers with the wrap-around written
  out, and an index outside a string is a fault. The string splitting of the library \<open>esl\<close> and the
  formatting of \<open>fmt\<close>, which are not part of the repository, are parameters; \<open>split_any\<close>, \<open>chunks\<close>
  and \<open>to_hex\<close> say what their documentation promises.
\<close>

section \<open>Shuffling and number conversion\<close>

definition swap_at :: "'a list \<Rightarrow> nat \<Rightarrow> nat \<Rightarrow> 'a list" where
  "swap_at xs i j = xs[i := xs ! j, j := xs ! i]"

text \<open>
  The loop of \<open>reorder\<close> at \<open>i\<close> (counted from the last index down to 1); \<open>sum\<close> is an \<open>int\<close>.
\<close>

fun reorder_loop :: "string \<Rightarrow> nat \<Rightarrow> nat \<Rightarrow> int \<Rightarrow> string \<Rightarrow> string res" where
  "reorder_loop salt 0 salt_idx sm str = Inr str"
| "reorder_loop salt (Suc i') salt_idx sm str =
     (let i = Suc i' in
      rbind (at salt salt_idx) (\<lambda>c.
      let n = int (of_char c) in
      rbind (chk32 (sm + n)) (\<lambda>sm.
      rbind (chk32 (n + sm)) (\<lambda>ns.
      let j = (salt_idx + nat ns) mod i in
      rbind (at str i) (\<lambda>_.
      reorder_loop salt i' ((salt_idx + 1) mod length salt) sm (swap_at str i j))))))"

text \<open>For an empty string \<open>str.size() - 1\<close> wraps around and the first access is out of bounds.\<close>

definition reorder :: "string \<Rightarrow> string \<Rightarrow> string res" where
  "reorder salt str =
     (if salt = [] then Inr str
      else if str = [] then Inl Out_of_bounds
      else reorder_loop salt (length str - 1) 0 0 str)"

definition make_alphabet_salt :: "char \<Rightarrow> string \<Rightarrow> string \<Rightarrow> string" where
  "make_alphabet_salt lottery salt alphabet =
     (let alphabet_salt = [lottery] @ take (min (wsub (length alphabet) 1) (length salt)) salt in
      alphabet_salt @ take (wsub (length alphabet) (length alphabet_salt)) alphabet)"

text \<open>
  The loop of \<open>hash_number\<close> before the reversal. A number of 64 bits has at most 64 digits in any
  base from 2 on, which is the fuel; in base 1 the loop of the code does not end.
\<close>

fun hash_loop :: "nat \<Rightarrow> nat \<Rightarrow> string \<Rightarrow> string res" where
  "hash_loop 0 number alphabet = Inl No_return"
| "hash_loop (Suc fuel) number alphabet =
     rbind (guard (alphabet \<noteq> []) Div_by_zero) (\<lambda>_.
     let ch = alphabet ! (number mod length alphabet);
         number = number div length alphabet in
     if number = 0 then Inr [ch]
     else rbind (hash_loop fuel number alphabet) (\<lambda>hashed. Inr (ch # hashed)))"

definition hash_number :: "nat \<Rightarrow> string \<Rightarrow> string res" where
  "hash_number number alphabet = rbind (hash_loop 64 number alphabet) (\<lambda>hashed. Inr (rev hashed))"

text \<open>\<open>std::string_view::find\<close> of a character.\<close>

fun find_pos :: "char \<Rightarrow> string \<Rightarrow> nat option" where
  "find_pos c [] = None"
| "find_pos c (x # xs) = (if x = c then Some 0 else map_option Suc (find_pos c xs))"

definition unhash :: "string \<Rightarrow> string \<Rightarrow> nat" where
  "unhash hashed alphabet =
     foldl (\<lambda>num c. wrap (wrap (num * length alphabet) +
        (case find_pos c alphabet of None \<Rightarrow> 2 ^ 64 - 1 | Some pos \<Rightarrow> pos))) 0 hashed"

lemma length_swap_at [simp]: "length (swap_at xs i j) = length xs"
  by (simp add: swap_at_def)

lemma reorder_loop_length: "reorder_loop s i k sm str = Inr str' \<Longrightarrow> length str' = length str"
  by (induction s i k sm str rule: reorder_loop.induct) (auto simp: Let_def fault_simps)

lemma reorder_length: "reorder s str = Inr str' \<Longrightarrow> length str' = length str"
  by (auto simp: reorder_def dest: reorder_loop_length split: if_splits)

section \<open>Padding\<close>

text \<open>One iteration of the padding loop, after the alphabet has been shuffled.\<close>

definition pad_once :: "nat \<Rightarrow> string \<Rightarrow> string \<Rightarrow> string" where
  "pad_once min_len alphabet encoded =
     (let mid = length alphabet div 2;
          encoded = drop mid alphabet @ encoded;
          encoded = encoded @ take mid alphabet in
      if min_len < length encoded
      then let excess = length encoded - min_len; idx = excess div 2
           in take min_len (drop idx encoded)
      else encoded)"

lemma length_pad_once: "length (pad_once m a s) = min m (length s + length a)"
proof -
  let ?e = "(drop (length a div 2) a @ s) @ take (length a div 2) a"
  obtain e where e: "e = ?e" "length e = length s + length a" by simp
  have "pad_once m a s = (if m < length e then take m (drop ((length e - m) div 2) e) else e)"
    unfolding pad_once_def Let_def e(1) ..
  then show ?thesis using e(2) by auto
qed

text \<open>With an empty alphabet the loop would never reach the minimum length.\<close>

function pad_loop :: "nat \<Rightarrow> string \<Rightarrow> string \<Rightarrow> string res" where
  "pad_loop min_len alphabet encoded =
     (if min_len \<le> length encoded then Inr encoded
      else if alphabet = [] then Inl No_return
      else rbind (reorder alphabet alphabet) (\<lambda>alphabet.
        pad_loop min_len alphabet (pad_once min_len alphabet encoded)))"
  by pat_completeness auto
termination
proof (relation "measure (\<lambda>(m, a, s). m - length s)")
  fix m and a s a' :: string
  assume "\<not> m \<le> length s" "a \<noteq> []" "reorder a a = Inr a'"
  moreover from this have l: "length a' = length a" "0 < length a"
    using reorder_length [of a a a'] by auto
  ultimately have "m - min m (length s + length a) < m - length s" by linarith
  with l(1) show "((m, a', pad_once m a' s), m, a, s) \<in> measure (\<lambda>(m, a, s). m - length s)"
    by (simp add: length_pad_once)
qed simp

declare pad_loop.simps [simp del]

definition ensure_minimum_length :: "nat \<Rightarrow> nat \<Rightarrow> string \<Rightarrow> string \<Rightarrow> string \<Rightarrow> string res" where
  "ensure_minimum_length value_hash min_len prev_alphabet guards encoded =
     rbind (guard (2 \<le> length encoded) Assert_failed) (\<lambda>_.
     rbind (guard (guards \<noteq> []) Div_by_zero) (\<lambda>_.
     let head_guard_idx = wrap (value_hash + of_char (encoded ! 0)) mod length guards;
         encoded = (guards ! head_guard_idx) # encoded in
     if min_len \<le> length encoded then Inr encoded
     else
       let tail_guard_idx = wrap (value_hash + of_char (encoded ! 2)) mod length guards;
           encoded = encoded @ [guards ! tail_guard_idx]
       in pad_loop min_len prev_alphabet encoded))"

section \<open>The codec\<close>

record hashids =
  min_len :: nat
  salt :: string
  alphabet :: string
  separators :: string
  guards :: string

definition default_alphabet :: string where
  "default_alphabet = ''abcdefghijklmnopqrstuvwxyzABCDEFGHIJKLMNOPQRSTUVWXYZ1234567890''"

definition base_separators :: string where
  "base_separators = ''cfhistuCFHISTU''"

text \<open>The \<open>remove_if\<close> with the set of the characters seen so far.\<close>

fun keep_unseen :: "string \<Rightarrow> char set \<Rightarrow> string \<Rightarrow> string" where
  "keep_unseen seps seen [] = []"
| "keep_unseen seps seen (ch # cs) =
     (if ch \<in> seen \<or> ch \<in> set seps then keep_unseen seps (insert ch seen) cs
      else ch # keep_unseen seps (insert ch seen) cs)"

text \<open>
  The constructor. \<open>std::ceil(n / 3.5)\<close> and \<open>std::ceil(n / 12.)\<close> are exact on the sizes that occur,
  at most 256 characters: a quotient that is not an integer is at least \<open>1 / 12\<close> away from one.
\<close>

definition hashids_new :: "string \<Rightarrow> string \<Rightarrow> nat \<Rightarrow> hashids res" where
  "hashids_new salt_opt custom_alphabet minimum_length =
     (let alph = (if custom_alphabet = [] then default_alphabet else custom_alphabet);
          seps = filter (\<lambda>ch. ch \<in> set alph) base_separators;
          alph = keep_unseen seps {} alph in
      rbind (guard (16 \<le> length seps + length alph)
               (Thrown ''Alphabet must contain at least 16 unique characters'')) (\<lambda>_.
      rbind (reorder salt_opt seps) (\<lambda>seps.
      let min_seps_cnt = (2 * length alph + 6) div 7;
          delta = min_seps_cnt - length seps;
          seps = seps @ take delta alph;
          alph = drop delta alph in
      rbind (reorder salt_opt alph) (\<lambda>alph.
      let guards_cnt = (length alph + 11) div 12 in
      Inr (if length alph < 3
           then \<lparr>min_len = minimum_length, salt = salt_opt, alphabet = alph,
                  separators = drop guards_cnt seps, guards = take guards_cnt seps\<rparr>
           else \<lparr>min_len = minimum_length, salt = salt_opt, alphabet = drop guards_cnt alph,
                  separators = seps, guards = take guards_cnt alph\<rparr>)))))"

definition value_hash_of :: "nat list \<Rightarrow> nat" where
  "value_hash_of values = foldl (\<lambda>h (i, v). wrap (h + v mod (i + 100))) 0 (enumerate 0 values)"

text \<open>The loop of \<open>encode\<close>: the shuffled alphabet and the result so far.\<close>

fun encode_loop :: "hashids \<Rightarrow> char \<Rightarrow> nat \<Rightarrow> nat list \<Rightarrow> string \<Rightarrow> string \<Rightarrow> (string \<times> string) res" where
  "encode_loop h lottery i [] alph result = Inr (alph, result)"
| "encode_loop h lottery i (number # values) alph result =
     (let alphabet_salt = make_alphabet_salt lottery (salt h) alph in
      rbind (reorder alphabet_salt alph) (\<lambda>alph.
      rbind (hash_number number alph) (\<lambda>hashed.
      rbind (at hashed 0) (\<lambda>c.
      rbind (guard (of_char c + i \<noteq> 0 \<and> separators h \<noteq> []) Div_by_zero) (\<lambda>_.
      let sep = separators h ! (number mod (of_char c + i) mod length (separators h)) in
      encode_loop h lottery (Suc i) values alph (result @ hashed @ [sep]))))))"

definition encode :: "hashids \<Rightarrow> nat list \<Rightarrow> string res" where
  "encode h values =
     (if values = [] then Inr []
      else
        let value_hash = value_hash_of values in
        rbind (guard (alphabet h \<noteq> []) Div_by_zero) (\<lambda>_.
        let lottery = alphabet h ! (value_hash mod length (alphabet h)) in
        rbind (encode_loop h lottery 0 values (alphabet h) [lottery]) (\<lambda>(alph, result).
        let result = butlast result in
        if length result < min_len h
        then ensure_minimum_length value_hash (min_len h) alph (guards h) result
        else Inr result)))"

text \<open>The library calls: \<open>split s cs\<close> splits at any of the characters, \<open>by_length n s\<close> cuts pieces.\<close>

type_synonym split_fun = "string \<Rightarrow> string \<Rightarrow> string list"
type_synonym by_length_fun = "nat \<Rightarrow> string \<Rightarrow> string list"

fun decode_loop :: "hashids \<Rightarrow> char \<Rightarrow> string list \<Rightarrow> string \<Rightarrow> nat list res" where
  "decode_loop h lottery [] alph = Inr []"
| "decode_loop h lottery (hashed # view) alph =
     (let alphabet_salt = make_alphabet_salt lottery (salt h) alph in
      rbind (reorder alphabet_salt alph) (\<lambda>alph.
      rbind (decode_loop h lottery view alph) (\<lambda>nums.
      Inr (unhash hashed alph # nums))))"

definition decode :: "split_fun \<Rightarrow> hashids \<Rightarrow> string \<Rightarrow> nat list res" where
  "decode split h hashid =
     (if hashid = [] then Inr []
      else
        let parts = split hashid (guards h) in
        rbind (if length parts = 1 then Inr (parts ! 0)
               else if length parts = 2 \<or> length parts = 3 then Inr (parts ! 1)
               else Inl (Thrown ''incorrect guarding characters'')) (\<lambda>encoded.
        rbind (guard (encoded \<noteq> []) (Thrown ''no real data'')) (\<lambda>_.
        let lottery = hd encoded; encoded = tl encoded in
        rbind (decode_loop h lottery (split encoded (separators h)) (alphabet h)) (\<lambda>nums.
        rbind (encode h nums) (\<lambda>again.
        if again \<noteq> hashid then Inl (Thrown ''hashid mismatched'') else Inr nums)))))"

section \<open>Hexadecimal strings\<close>

text \<open>
  \<open>std::stoull(buf, &cvt_len, 16)\<close> on a buffer that starts with the digit 1, so that neither space,
  sign nor prefix is skipped: the value of the longest run of digits and its length. The buffers
  have at most 13 digits, far below the range of the type.
\<close>

definition stoull16 :: "string \<Rightarrow> nat \<times> nat" where
  "stoull16 buf =
     (let digits = takeWhile (\<lambda>c. hex_val c \<noteq> None) buf in
      (foldl (\<lambda>n c. n * 16 + the (hex_val c)) 0 digits, length digits))"

fun hex_numbers :: "string list \<Rightarrow> nat list res" where
  "hex_numbers [] = Inr []"
| "hex_numbers (part # parts) =
     (let buf = CHR ''1'' # part; (num, cvt_len) = stoull16 buf in
      rbind (guard (cvt_len = length buf) (Thrown ''invalid hex'')) (\<lambda>_.
      rbind (hex_numbers parts) (\<lambda>nums. Inr (num # nums))))"

definition encode_hex :: "by_length_fun \<Rightarrow> hashids \<Rightarrow> string \<Rightarrow> string res" where
  "encode_hex by_length h hex =
     (if hex = [] then Inr []
      else rbind (hex_numbers (by_length 12 hex)) (encode h))"

text \<open>\<open>hex.append(part, 1)\<close> throws when the formatted number is empty.\<close>

definition decode_hex :: "split_fun \<Rightarrow> (nat \<Rightarrow> string) \<Rightarrow> hashids \<Rightarrow> string \<Rightarrow> string res" where
  "decode_hex split fmt_x h hashid =
     (if hashid = [] then Inr []
      else rbind (decode split h hashid)
        (\<lambda>nums. rfold (\<lambda>hex n. let part = fmt_x n in
           rbind (guard (1 \<le> length part) (Thrown ''basic_string::append'')) (\<lambda>_.
           Inr (hex @ drop 1 part))) nums []))"

section \<open>Shuffling permutes\<close>

lemma mset_swap_at: "i < length xs \<Longrightarrow> j < length xs \<Longrightarrow> mset (swap_at xs i j) = mset xs"
  by (simp add: swap_at_def mset_swap)

lemma of_char_less: "(of_char c :: nat) < 256"
proof -
  have "of_char c \<in> range (of_char :: char \<Rightarrow> nat)" by blast
  then show ?thesis using range_nat_of_char by auto
qed

lemma of_char_0: "(of_char c :: nat) = 0 \<Longrightarrow> c = CHR 0x00"
proof -
  assume "(of_char c :: nat) = 0"
  then have "c = char_of (0 :: nat)" by (metis char_of_char)
  then show ?thesis by (simp add: char_of_def)
qed

lemma reorder_loop_perm:
  assumes "s \<noteq> []"
  shows "i < length str \<Longrightarrow> k < length s \<Longrightarrow> 0 \<le> sm \<Longrightarrow> sm \<le> 1000000 \<Longrightarrow> int i * 255 + sm \<le> 1000000 \<Longrightarrow>
    \<exists>str'. reorder_loop s i k sm str = Inr str' \<and> mset str' = mset str"
proof (induction i arbitrary: k sm str)
  case (Suc i)
  let ?n = "int (of_char (s ! k))"
  let ?j = "(k + nat (?n + (sm + ?n))) mod Suc i"
  have "?n < int 256" unfolding of_nat_less_iff by (rule of_char_less)
  then have n: "0 \<le> ?n" "?n \<le> 255" by linarith+
  have sm: "sm + ?n \<le> 1000000" using Suc.prems(5) n by simp
  then have "in_i32 (sm + ?n)" "in_i32 (?n + (sm + ?n))"
    using n Suc.prems(3) by (simp_all add: in_i32_def)
  moreover have j: "?j < length str" using Suc.prems(1) mod_less_divisor [of "Suc i"] less_trans by blast
  moreover have "(k + 1) mod length s < length s" using assms by simp
  ultimately show ?case
    using Suc.IH [of "swap_at str (Suc i) ?j" "(k + 1) mod length s" "sm + ?n"] Suc.prems n sm
    by (simp add: at_ok chk32_def Let_def mset_swap_at)
qed simp

lemma reorder_perm:
  assumes "str \<noteq> []" and "length str \<le> 256"
  shows "\<exists>str'. reorder s str = Inr str' \<and> mset str' = mset str"
proof (cases "s = []")
  case False
  have "length str - 1 < length str" using assms(1) by simp
  then show ?thesis
    using reorder_loop_perm [OF False, of "length str - 1" str 0 0] assms False
    by (simp add: reorder_def)
qed (simp add: reorder_def)

lemma reorder_facts:
  assumes "str \<noteq> []" and "length str \<le> 256"
  obtains str' where "reorder s str = Inr str'" and "mset str' = mset str" and "set str' = set str"
    and "length str' = length str" and "distinct str' = distinct str"
proof -
  obtain str' where s: "reorder s str = Inr str'" "mset str' = mset str"
    using reorder_perm [OF assms] by blast
  then show ?thesis
    using that mset_eq_setD mset_eq_length mset_eq_imp_distinct_iff by blast
qed

section \<open>Numbers survive\<close>

lemma find_pos_nth: "distinct a \<Longrightarrow> i < length a \<Longrightarrow> find_pos (a ! i) a = Some i"
proof (induction a arbitrary: i)
  case (Cons x a)
  then show ?case by (cases i) auto
qed simp

definition value_of :: "string \<Rightarrow> string \<Rightarrow> nat" where
  "value_of a hashed = foldl (\<lambda>num c. num * length a + the (find_pos c a)) 0 hashed"

lemma value_of_snoc: "value_of a (hs @ [c]) = value_of a hs * length a + the (find_pos c a)"
  by (simp add: value_of_def)

lemma hash_loop_value:
  assumes "distinct a" and "2 \<le> length a"
  shows "n < 2 ^ fuel \<Longrightarrow> 0 < fuel \<Longrightarrow>
    \<exists>h. hash_loop fuel n a = Inr h \<and> h \<noteq> [] \<and> set h \<subseteq> set a \<and> value_of a (rev h) = n"
proof (induction fuel arbitrary: n)
  case (Suc fuel)
  let ?b = "length a"
  have a: "a \<noteq> []" "0 < ?b" using assms(2) by auto
  then have m: "n mod ?b < ?b" by simp
  show ?case
  proof (cases "n div ?b = 0")
    case True
    then have "n mod ?b = n" using a(2) by (simp add: div_eq_0_iff)
    then show ?thesis using True a m assms(1)
      by (simp add: value_of_def find_pos_nth)
  next
    case False
    have "n div ?b \<le> n div 2" using assms(2) by (intro div_le_mono2) auto
    also have "\<dots> < 2 ^ fuel" using Suc.prems(1) by auto
    finally have lt: "n div ?b < 2 ^ fuel" .
    with False have "0 < fuel" by (cases fuel) auto
    then obtain h where h: "hash_loop fuel (n div ?b) a = Inr h" "h \<noteq> []" "set h \<subseteq> set a"
        "value_of a (rev h) = n div ?b" using Suc.IH [OF lt] by blast
    have "value_of a (rev (a ! (n mod ?b) # h)) = n"
      using h(4) m assms(1) by (simp add: value_of_snoc find_pos_nth)
    then show ?thesis using False a h m by (simp add: Let_def)
  qed
qed simp

lemma unhash_value:
  assumes "distinct a" and "set h \<subseteq> set a" and "value_of a h < 2 ^ 64"
  shows "unhash h a = value_of a h"
  using assms(2,3)
proof (induction h rule: rev_induct)
  case Nil
  then show ?case by (simp add: unhash_def value_of_def)
next
  case (snoc c h)
  obtain i where i: "i < length a" "a ! i = c" using snoc.prems(1) by (auto simp: in_set_conv_nth)
  then have f: "find_pos c a = Some i" using find_pos_nth [OF assms(1)] by blast
  have v: "value_of a h * length a + i < 2 ^ 64" using snoc.prems(2) f by (simp add: value_of_snoc)
  have "value_of a h * 1 \<le> value_of a h * length a" using i(1) by (intro mult_left_mono) auto
  then have "value_of a h < 2 ^ 64" using v by linarith
  then have "unhash h a = value_of a h" using snoc by simp
  moreover have "unhash (h @ [c]) a = wrap (wrap (unhash h a * length a) + i)"
    using f by (simp add: unhash_def)
  ultimately show ?case using v f by (simp add: value_of_snoc)
qed

lemma hash_number_roundtrip:
  assumes "distinct a" and "2 \<le> length a" and "n < 2 ^ 64"
  obtains h where "hash_number n a = Inr h" and "h \<noteq> []" and "set h \<subseteq> set a" and "unhash h a = n"
proof -
  obtain r where r: "hash_loop 64 n a = Inr r" "r \<noteq> []" "set r \<subseteq> set a" "value_of a (rev r) = n"
    using hash_loop_value [OF assms(1,2,3)] by auto
  have "unhash (rev r) a = n" using unhash_value [OF assms(1), of "rev r"] r assms(3) by simp
  then show ?thesis using that [of "rev r"] r by (simp add: hash_number_def)
qed

section \<open>Splitting\<close>

text \<open>
  What the library promises of \<open>split(s, by_any_char{ds})\<close>: the pieces between the delimiters, empty
  ones included.
\<close>

fun split_any :: "string \<Rightarrow> string \<Rightarrow> string list" where
  "split_any [] ds = [[]]"
| "split_any (c # cs) ds =
     (if c \<in> set ds then [] # split_any cs ds
      else (case split_any cs ds of [] \<Rightarrow> [[c]] | p # ps \<Rightarrow> (c # p) # ps))"

lemma split_any_none: "set w \<inter> set ds = {} \<Longrightarrow> split_any w ds = [w]"
  by (induction w) auto

lemma split_any_append:
  "set w \<inter> set ds = {} \<Longrightarrow> d \<in> set ds \<Longrightarrow> split_any (w @ d # rest) ds = w # split_any rest ds"
  by (induction w) auto

section \<open>Encoding and decoding the core\<close>

definition hashids_inv :: "hashids \<Rightarrow> bool" where
  "hashids_inv h \<longleftrightarrow> distinct (alphabet h @ separators h @ guards h) \<and> 2 \<le> length (alphabet h) \<and>
     length (alphabet h) \<le> 256 \<and> separators h \<noteq> [] \<and> guards h \<noteq> [] \<and> CHR 0x00 \<notin> set (alphabet h)"

text \<open>An alphabet that is a permutation of the one of the codec.\<close>

definition shuffled :: "hashids \<Rightarrow> string \<Rightarrow> bool" where
  "shuffled h a \<longleftrightarrow> mset a = mset (alphabet h)"

lemma shuffledD:
  assumes "hashids_inv h" and "shuffled h a"
  shows "distinct a" and "2 \<le> length a" and "length a \<le> 256" and "a \<noteq> []" and "set a = set (alphabet h)"
proof -
  have m: "mset a = mset (alphabet h)" using assms(2) by (simp add: shuffled_def)
  show "distinct a" using mset_eq_imp_distinct_iff [OF m] assms(1) by (simp add: hashids_inv_def)
  show "2 \<le> length a" "length a \<le> 256" using mset_eq_length [OF m] assms(1) by (auto simp: hashids_inv_def)
  then show "a \<noteq> []" by auto
  show "set a = set (alphabet h)" using mset_eq_setD [OF m] .
qed

lemma shuffle_step:
  assumes "hashids_inv h" and "shuffled h a"
  obtains a' where "reorder s a = Inr a'" and "shuffled h a'"
  using reorder_perm [OF shuffledD(4,3) [OF assms], of s] assms(2) by (auto simp: shuffled_def)

definition join_parts :: "(string \<times> char) list \<Rightarrow> string" where
  "join_parts ps = concat (map (\<lambda>(w, c). w @ [c]) ps)"

text \<open>
  What \<open>encode_loop\<close> appends: a non-empty word over the alphabet and a separator for every number, and
  the decoding loop on the words gives the numbers back.
\<close>

lemma encode_loop_parts:
  assumes "hashids_inv h"
  shows "list_all (\<lambda>v. v < 2 ^ 64) vs \<Longrightarrow> shuffled h a \<Longrightarrow>
    \<exists>a' ps. encode_loop h l i vs a res = Inr (a', res @ join_parts ps) \<and> shuffled h a' \<and>
      length ps = length vs \<and>
      (\<forall>(w, c) \<in> set ps. w \<noteq> [] \<and> set w \<subseteq> set (alphabet h) \<and> c \<in> set (separators h)) \<and>
      decode_loop h l (map fst ps) a = Inr vs"
proof (induction vs arbitrary: i a res)
  case Nil
  then show ?case by (intro exI [of _ a] exI [of _ "[]"]) (simp add: join_parts_def)
next
  case (Cons v vs)
  let ?s = "make_alphabet_salt l (salt h) a"
  obtain a1 where a1: "reorder ?s a = Inr a1" "shuffled h a1"
    using shuffle_step [OF assms Cons.prems(2)] by blast
  have vs: "list_all (\<lambda>v. v < 2 ^ 64) vs" using Cons.prems(1) by simp
  note d = shuffledD [OF assms a1(2)]
  obtain w where w: "hash_number v a1 = Inr w" "w \<noteq> []" "set w \<subseteq> set a1" "unhash w a1 = v"
    using hash_number_roundtrip [OF d(1,2), of v] Cons.prems(1) by auto
  obtain c0 w' where cw: "w = c0 # w'" using w(2) by (cases w) auto
  have "c0 \<in> set (alphabet h)" using w(3) cw d(5) by auto
  then have "c0 \<noteq> CHR 0x00" using assms by (auto simp: hashids_inv_def)
  then have nz: "(of_char c0 :: nat) \<noteq> 0" using of_char_0 by blast
  let ?sep = "separators h ! (v mod (of_char c0 + i) mod length (separators h))"
  have sep: "?sep \<in> set (separators h)" using assms by (simp add: hashids_inv_def)
  obtain a' ps where ps: "encode_loop h l (Suc i) vs a1 (res @ w @ [?sep]) =
        Inr (a', (res @ w @ [?sep]) @ join_parts ps)" "shuffled h a'" "length ps = length vs"
      "\<forall>(w, c) \<in> set ps. w \<noteq> [] \<and> set w \<subseteq> set (alphabet h) \<and> c \<in> set (separators h)"
      "decode_loop h l (map fst ps) a1 = Inr vs"
    using Cons.IH [OF vs a1(2), of "Suc i" "res @ w @ [?sep]"] by blast
  have "encode_loop h l i (v # vs) a res = Inr (a', res @ join_parts ((w, ?sep) # ps))"
    using a1(1) w(1) cw nz assms ps(1) by (simp add: Let_def at_def join_parts_def hashids_inv_def)
  moreover have "decode_loop h l (map fst ((w, ?sep) # ps)) a = Inr (v # vs)"
    using a1(1) ps(5) w(4) by (simp add: Let_def)
  ultimately show ?case using ps w d(5) sep
    by (intro exI [of _ a'] exI [of _ "(w, ?sep) # ps"]) auto
qed

text \<open>Splitting the joined words, without the last separator, gives the words.\<close>

lemma split_join:
  assumes "set seps \<inter> set al = {}"
  shows "ps \<noteq> [] \<Longrightarrow> \<forall>(w, c) \<in> set ps. w \<noteq> [] \<and> set w \<subseteq> set al \<and> c \<in> set seps \<Longrightarrow>
    split_any (butlast (join_parts ps)) seps = map fst ps"
proof (induction ps)
  case (Cons p ps)
  obtain w c where p: "p = (w, c)" by (cases p)
  have w: "set w \<inter> set seps = {}" "c \<in> set seps" using Cons.prems(2) assms p by auto
  show ?case
  proof (cases "ps = []")
    case True
    then show ?thesis using p split_any_none [OF w(1)] by (simp add: join_parts_def butlast_append)
  next
    case False
    then have ne: "join_parts ps \<noteq> []" by (cases ps) (auto simp: join_parts_def)
    have "join_parts (p # ps) = w @ [c] @ join_parts ps" using p by (simp add: join_parts_def)
    then have "butlast (join_parts (p # ps)) = w @ c # butlast (join_parts ps)"
      using ne by (simp add: butlast_append)
    then show ?thesis using split_any_append [OF w] Cons False p by simp
  qed
qed simp

section \<open>Padding keeps the core\<close>

lemma pad_once_shape:
  assumes "length s < m"
  shows "\<exists>pre post. pad_once m a s = pre @ s @ post \<and> set pre \<subseteq> set a \<and> set post \<subseteq> set a"
proof -
  let ?mid = "length a div 2"
  have sub: "set (drop ?mid a) \<subseteq> set a" "set (take ?mid a) \<subseteq> set a"
    by (rule set_drop_subset set_take_subset)+
  show ?thesis
  proof (cases "m < length s + length a")
    case False
    then have "pad_once m a s = drop ?mid a @ s @ take ?mid a" by (simp add: pad_once_def Let_def)
    with sub show ?thesis by blast
  next
    case True
    define idx where "idx = (length s + length a - m) div 2"
    define pre where "pre = drop idx (drop ?mid a)"
    have i: "idx \<le> length (drop ?mid a)" "length pre + length s \<le> m"
      using True assms by (auto simp: idx_def pre_def)
    have "length (drop ?mid a @ s @ take ?mid a) = length s + length a" by simp
    then have "pad_once m a s = take m (drop idx (drop ?mid a @ s @ take ?mid a))"
      using True by (simp add: pad_once_def Let_def idx_def add.commute)
    also have "\<dots> = take m (pre @ s @ take ?mid a)"
      using i(1) unfolding drop_append pre_def by (simp only: diff_is_0_eq' drop_0)
    also have "\<dots> = pre @ s @ take (m - length pre - length s) (take ?mid a)"
      using i(2) unfolding take_append by simp
    finally show ?thesis
      using sub set_drop_subset [of idx "drop ?mid a"] set_take_subset [of "m - length pre - length s" "take ?mid a"]
      by (intro exI [of _ pre] exI [of _ "take (m - length pre - length s) (take ?mid a)"])
        (auto simp: pre_def)
  qed
qed

lemma pad_loop_shape:
  assumes "hashids_inv h"
  shows "shuffled h a \<Longrightarrow> \<exists>pre post. pad_loop m a s = Inr (pre @ s @ post) \<and>
    set pre \<subseteq> set (alphabet h) \<and> set post \<subseteq> set (alphabet h) \<and> m \<le> length (pre @ s @ post)"
proof (induction m a s rule: pad_loop.induct)
  case (1 m a s)
  show ?case
  proof (cases "m \<le> length s")
    case True
    then show ?thesis by (intro exI [of _ "[]"]) (simp add: pad_loop.simps [of m a s])
  next
    case False
    note a = shuffledD [OF assms "1.prems"]
    obtain a' where a': "reorder a a = Inr a'" "shuffled h a'"
      using shuffle_step [OF assms "1.prems"] by blast
    obtain p q where pq: "pad_once m a' s = p @ s @ q" "set p \<subseteq> set a'" "set q \<subseteq> set a'"
      using pad_once_shape [of s m a'] False by auto
    obtain pre post where r: "pad_loop m a' (p @ s @ q) = Inr (pre @ (p @ s @ q) @ post)"
        "set pre \<subseteq> set (alphabet h)" "set post \<subseteq> set (alphabet h)"
        "m \<le> length (pre @ (p @ s @ q) @ post)"
      using "1.IH" [OF False a(4) a'(1) a'(2)] unfolding pq(1) by blast
    have "pad_loop m a s = Inr (pre @ (p @ s @ q) @ post)"
      using False a(4) a'(1) r(1) pq(1) by (simp add: pad_loop.simps [of m a s])
    then show ?thesis using r pq shuffledD(5) [OF assms a'(2)]
      by (intro exI [of _ "pre @ p"] exI [of _ "q @ post"]) auto
  qed
qed

text \<open>The three forms of a result around its core.\<close>

definition wraps :: "hashids \<Rightarrow> string \<Rightarrow> string \<Rightarrow> bool" where
  "wraps h core out \<longleftrightarrow> out = core \<or>
     (\<exists>g \<in> set (guards h). out = g # core) \<or>
     (\<exists>g \<in> set (guards h). \<exists>g' \<in> set (guards h). \<exists>pre post. out = pre @ g # core @ g' # post \<and>
        set pre \<subseteq> set (alphabet h) \<and> set post \<subseteq> set (alphabet h))"

lemma ensure_minimum_length_shape:
  assumes "hashids_inv h" and "shuffled h a" and "2 \<le> length core"
  shows "\<exists>out. ensure_minimum_length vh m a (guards h) core = Inr out \<and> wraps h core out \<and> m \<le> length out"
proof -
  have g: "guards h \<noteq> []" using assms(1) by (simp add: hashids_inv_def)
  define g1 where "g1 = guards h ! (wrap (vh + of_char (core ! 0)) mod length (guards h))"
  define g2 where "g2 = guards h ! (wrap (vh + of_char ((g1 # core) ! 2)) mod length (guards h))"
  have gs: "g1 \<in> set (guards h)" "g2 \<in> set (guards h)" using g by (simp_all add: g1_def g2_def)
  show ?thesis
  proof (cases "m \<le> length (g1 # core)")
    case True
    then have "ensure_minimum_length vh m a (guards h) core = Inr (g1 # core)"
      using assms(3) g unfolding ensure_minimum_length_def Let_def g1_def by simp
    then show ?thesis using True gs(1) by (auto simp: wraps_def)
  next
    case False
    have "ensure_minimum_length vh m a (guards h) core = pad_loop m a (g1 # core @ [g2])"
      using assms(3) g False unfolding ensure_minimum_length_def Let_def g2_def g1_def by simp
    moreover obtain pre post where p: "pad_loop m a (g1 # core @ [g2]) = Inr (pre @ (g1 # core @ [g2]) @ post)"
        "set pre \<subseteq> set (alphabet h)" "set post \<subseteq> set (alphabet h)"
        "m \<le> length (pre @ (g1 # core @ [g2]) @ post)"
      using pad_loop_shape [OF assms(1,2)] by blast
    ultimately show ?thesis using gs by (auto simp: wraps_def)
  qed
qed

lemma split_wraps:
  assumes "hashids_inv h" and "wraps h core out" and "set core \<inter> set (guards h) = {}"
  shows "length (split_any out (guards h)) = 1 \<and> split_any out (guards h) ! 0 = core \<or>
    length (split_any out (guards h)) \<in> {2, 3} \<and> split_any out (guards h) ! 1 = core"
proof -
  have al: "set (alphabet h) \<inter> set (guards h) = {}" using assms(1) by (auto simp: hashids_inv_def)
  note core = split_any_none [OF assms(3)]
  from assms(2) consider "out = core" | g where "g \<in> set (guards h)" "out = [] @ g # core"
    | g g' pre post where "g \<in> set (guards h)" "g' \<in> set (guards h)" "out = pre @ g # core @ g' # post"
      "set pre \<inter> set (guards h) = {}" "set post \<inter> set (guards h) = {}"
    unfolding wraps_def using al by (metis append_Nil disjoint_iff subsetD)
  then show ?thesis
  proof cases
    case 1
    then show ?thesis using core by simp
  next
    case 2
    then show ?thesis using core split_any_append [of "[]" "guards h" g core] by simp
  next
    case 3
    then show ?thesis
      using split_any_append [OF 3(4,1), of "core @ g' # post"] split_any_append [OF assms(3) 3(2), of post]
        split_any_none [OF 3(5)] by simp
  qed
qed

section \<open>Round trip\<close>

lemma encode_shape:
  assumes "hashids_inv h" and "vs \<noteq> []" and "list_all (\<lambda>v. v < 2 ^ 64) vs"
  shows "\<exists>out l body. encode h vs = Inr out \<and> wraps h (l # body) out \<and> min_len h \<le> length out \<and>
    set (l # body) \<inter> set (guards h) = {} \<and>
    decode_loop h l (split_any body (separators h)) (alphabet h) = Inr vs"
proof -
  have al: "alphabet h \<noteq> []" using assms(1) by (auto simp: hashids_inv_def)
  define l where "l = alphabet h ! (value_hash_of vs mod length (alphabet h))"
  have l: "l \<in> set (alphabet h)" using al by (simp add: l_def)
  obtain a' ps where ps: "encode_loop h l 0 vs (alphabet h) [l] = Inr (a', [l] @ join_parts ps)"
      "shuffled h a'" "length ps = length vs"
      "\<forall>(w, c) \<in> set ps. w \<noteq> [] \<and> set w \<subseteq> set (alphabet h) \<and> c \<in> set (separators h)"
      "decode_loop h l (map fst ps) (alphabet h) = Inr vs"
    using encode_loop_parts [OF assms(1,3), of "alphabet h" l 0 "[l]"] by (auto simp: shuffled_def)
  have "ps \<noteq> []" using ps(3) assms(2) by auto
  then have len: "2 \<le> length (join_parts ps)"
    using ps(4) by (cases ps) (auto simp: join_parts_def Suc_le_eq)
  define body where "body = butlast (join_parts ps)"
  have result: "butlast ([l] @ join_parts ps) = l # body" using len by (auto simp: body_def)
  have "set (join_parts ps) \<subseteq> set (alphabet h) \<union> set (separators h)"
    using ps(4) by (auto simp: join_parts_def)
  then have "set body \<subseteq> set (alphabet h) \<union> set (separators h)"
    using in_set_butlastD [of _ "join_parts ps"] by (auto simp: body_def)
  then have core: "set (l # body) \<inter> set (guards h) = {}"
    using l assms(1) by (auto simp: hashids_inv_def)
  have "set (separators h) \<inter> set (alphabet h) = {}" using assms(1) by (auto simp: hashids_inv_def)
  from split_join [OF this \<open>ps \<noteq> []\<close> ps(4)]
  have dec: "decode_loop h l (split_any body (separators h)) (alphabet h) = Inr vs"
    using ps(5) by (simp add: body_def)
  have enc: "encode h vs = (if length (l # body) < min_len h
      then ensure_minimum_length (value_hash_of vs) (min_len h) a' (guards h) (l # body) else Inr (l # body))"
    using assms(2) al unfolding encode_def Let_def l_def [symmetric]
    by (simp only: if_False ps(1) rbind_simps prod.case result guard_simps simp_thms)
  show ?thesis
  proof (cases "length (l # body) < min_len h")
    case True
    have "2 \<le> length (l # body)" using len by (simp add: body_def)
    from ensure_minimum_length_shape [OF assms(1) ps(2) this] True enc core dec show ?thesis by metis
  next
    case False
    then show ?thesis using enc core dec by (auto simp: wraps_def not_less)
  qed
qed

section \<open>The constructor establishes the invariant\<close>

lemma keep_unseen_facts:
  "distinct (keep_unseen seps seen cs) \<and> set (keep_unseen seps seen cs) = set cs - seen - set seps"
  by (induction seps seen cs rule: keep_unseen.induct) auto

lemma distinct_base: "distinct base_separators"
  by (simp add: base_separators_def)

lemma length_distinct_chars: "distinct s \<Longrightarrow> length s \<le> 256" for s :: string
proof -
  assume "distinct s"
  then have "length s = card (set s)" by (simp add: distinct_card)
  also have "\<dots> \<le> card (UNIV :: char set)" by (intro card_mono) auto
  finally show ?thesis by (simp add: card_UNIV_char)
qed

text \<open>
  With a salt the base separators must not be disjoint from the alphabet: \<open>reorder\<close> would be called
  on an empty string.
\<close>

definition accepted :: "string \<Rightarrow> string \<Rightarrow> bool" where
  "accepted sl alph \<longleftrightarrow> CHR 0x00 \<notin> set alph \<and> 16 \<le> card (set alph) \<and>
     (sl = [] \<or> set alph \<inter> set base_separators \<noteq> {})"

lemma hashids_new_inv:
  assumes "accepted sl alph" and "alph \<noteq> []"
  shows "\<exists>h. hashids_new sl alph m = Inr h \<and> hashids_inv h \<and> min_len h = m"
proof -
  define sp where "sp = filter (\<lambda>ch. ch \<in> set alph) base_separators"
  define al where "al = keep_unseen sp {} alph"
  have "length base_separators = 14" by (simp add: base_separators_def)
  then have sp: "distinct sp" "set sp \<subseteq> set alph" "length sp \<le> 14"
    using distinct_base length_filter_le [of "\<lambda>ch. ch \<in> set alph" base_separators]
    by (simp_all add: sp_def subset_iff)
  have al: "distinct al" "set al = set alph - set sp"
    using keep_unseen_facts [of sp "{}" alph] by (auto simp: al_def)
  have "card (set alph) = card (set sp \<union> set al)" using sp(2) al(2) by (simp add: Un_absorb1)
  also have "\<dots> = card (set sp) + card (set al)" using al(2) by (intro card_Un_disjoint) auto
  also have "\<dots> = length sp + length al"
    by (simp only: distinct_card [OF sp(1)] distinct_card [OF al(1)])
  finally have sz: "16 \<le> length sp + length al" using assms(1) by (simp add: accepted_def)
  have "sl \<noteq> [] \<Longrightarrow> sp \<noteq> []" using assms(1) by (auto simp: accepted_def sp_def filter_empty_conv)
  then obtain sp1 where sp1: "reorder sl sp = Inr sp1" "mset sp1 = mset sp"
    using reorder_perm [of sp sl] sp(3) by (cases "sl = []") (auto simp: reorder_def)
  define delta where "delta = (2 * length al + 6) div 7 - length sp1"
  have lsp1: "length sp1 = length sp" using mset_eq_length [OF sp1(2)] .
  have d: "delta \<le> length al" "2 \<le> length al" using sz sp(3) by (auto simp: delta_def)
  have rest: "2 \<le> length (drop delta al)" "sp1 @ take delta al \<noteq> []"
    using sz sp(3) lsp1 by (auto simp: delta_def)
  have "drop delta al \<noteq> []" using rest(1) by auto
  moreover have "length (drop delta al) \<le> 256" using length_distinct_chars [OF al(1)] by simp
  ultimately obtain al1 where al1: "reorder sl (drop delta al) = Inr al1" "mset al1 = mset (drop delta al)"
    using reorder_perm by blast
  define sp2 where "sp2 = sp1 @ take delta al"
  have lal1: "length al1 = length (drop delta al)" using mset_eq_length [OF al1(2)] .
  have mall: "mset (al1 @ sp2) = mset (al @ sp)"
  proof -
    have "mset (al1 @ sp2) = mset (take delta al @ drop delta al) + mset sp"
      using al1(2) sp1(2) by (simp add: sp2_def del: append_take_drop_id)
    then show ?thesis by simp
  qed
  then have dist: "distinct (al1 @ sp2)" and st: "set (al1 @ sp2) = set alph"
    using al sp mset_eq_imp_distinct_iff [OF mall] mset_eq_setD [OF mall] by auto
  define g where "g = (length al1 + 11) div 12"
  define h where "h = (if length al1 < 3
    then \<lparr>min_len = m, salt = sl, alphabet = al1, separators = drop g sp2, guards = take g sp2\<rparr>
    else \<lparr>min_len = m, salt = sl, alphabet = drop g al1, separators = sp2, guards = take g al1\<rparr>)"
  have new: "hashids_new sl alph m = Inr h"
    using assms(2) sz sp1(1) al1(1)
    by (simp add: hashids_new_def Let_def sp_def [symmetric] al_def [symmetric] delta_def [symmetric]
        sp2_def [symmetric] g_def [symmetric] h_def)
  have "hashids_inv h"
  proof (cases "length al1 < 3")
    case True
    have "length al = 2 \<or> delta \<noteq> 0" using True lal1 d(2) by (cases "delta = 0") auto
    then have "2 \<le> length sp2" using sz lsp1 rest lal1 True by (auto simp: sp2_def delta_def)
    moreover have "g = 1" using True rest(1) lal1 by (auto simp: g_def)
    ultimately show ?thesis
      using True dist st rest(1) lal1 assms(1) length_distinct_chars [of al1]
        set_take_subset [of 1 sp2] set_drop_subset [of 1 sp2] distinct_append [of "take 1 sp2" "drop 1 sp2"]
      by (auto simp: hashids_inv_def h_def accepted_def)
  next
    case False
    have g: "0 < g" "g + 2 \<le> length al1" using False by (auto simp: g_def)
    have "mset (drop g al1 @ sp2 @ take g al1) = mset (take g al1 @ drop g al1) + mset sp2"
      by (simp del: append_take_drop_id)
    then have "mset (drop g al1 @ sp2 @ take g al1) = mset (al1 @ sp2)" by simp
    then have "distinct (drop g al1 @ sp2 @ take g al1)" using dist mset_eq_imp_distinct_iff by blast
    moreover have "set (drop g al1) \<subseteq> set alph" using st set_drop_subset [of g al1] by auto
    moreover have "distinct (drop g al1)" using dist by simp
    ultimately show ?thesis using False g rest(2) assms(1) length_distinct_chars [of "drop g al1"]
      by (auto simp: hashids_inv_def h_def accepted_def sp2_def)
  qed
  then show ?thesis using new by (auto simp: h_def)
qed

section \<open>Properties of the codec\<close>

lemma decode_encode:
  assumes "hashids_inv h" and "list_all (\<lambda>v. v < 2 ^ 64) vs" and "split = split_any"
  shows "\<exists>out. encode h vs = Inr out \<and> decode split h out = Inr vs \<and>
    (vs \<noteq> [] \<longrightarrow> out \<noteq> [] \<and> min_len h \<le> length out)"
proof (cases "vs = []")
  case True
  then show ?thesis by (simp add: encode_def decode_def)
next
  case False
  obtain out l body where o: "encode h vs = Inr out" "wraps h (l # body) out" "min_len h \<le> length out"
      "set (l # body) \<inter> set (guards h) = {}"
      "decode_loop h l (split_any body (separators h)) (alphabet h) = Inr vs"
    using encode_shape [OF assms(1) False assms(2)] by blast
  have "out \<noteq> []" using o(2) by (auto simp: wraps_def)
  moreover have "(if length (split_any out (guards h)) = 1 then Inr (split_any out (guards h) ! 0)
      else if length (split_any out (guards h)) = 2 \<or> length (split_any out (guards h)) = 3
      then Inr (split_any out (guards h) ! 1)
      else Inl (Thrown ''incorrect guarding characters'')) = Inr (l # body)"
    using split_wraps [OF assms(1) o(2,4)] by auto
  ultimately have "decode split h out = Inr vs"
    unfolding assms(3) decode_def Let_def using o(1,5) by simp
  then show ?thesis using o(1,3) \<open>out \<noteq> []\<close> by blast
qed

text \<open>
  Property C28. Every sequence of 64-bit numbers survives encoding and decoding, for every salt,
  every alphabet without the null character that the constructor accepts (its reordering of an empty separator string apart) and
  every minimum length; the result of a non-empty sequence has at least the minimum length. The
  shuffles stay inside their strings, the digit and padding loops end, and no intermediate number
  overflows.
\<close>

theorem hashids_roundtrip:
  assumes "accepted sl alph" and "list_all (\<lambda>v. v < 2 ^ 64) vs" and "split = split_any"
  shows "\<exists>h out. hashids_new sl alph m = Inr h \<and> encode h vs = Inr out \<and> decode split h out = Inr vs \<and>
    (vs \<noteq> [] \<longrightarrow> m \<le> length out)"
proof -
  have "alph \<noteq> []" using assms(1) by (auto simp: accepted_def)
  then obtain h where h: "hashids_new sl alph m = Inr h" "hashids_inv h" "min_len h = m"
    using hashids_new_inv [OF assms(1)] by blast
  then show ?thesis using decode_encode [OF h(2) assms(2,3)] by auto
qed

lemma accepted_default: "accepted sl default_alphabet"
proof -
  have "distinct default_alphabet" by (simp add: default_alphabet_def)
  then have "card (set default_alphabet) = 62" by (simp add: distinct_card) (simp add: default_alphabet_def)
  then show ?thesis by (simp add: accepted_def) (simp add: default_alphabet_def base_separators_def)
qed

theorem hashids_roundtrip_witness:
  "\<exists>h out. hashids_new ''salt'' default_alphabet 30 = Inr h \<and> encode h [1, 2, 3] = Inr out \<and>
     decode split_any h out = Inr [1, 2, 3] \<and> 30 \<le> length out"
proof -
  from hashids_roundtrip [OF accepted_default, of "[1, 2, 3]" split_any "''salt''" 30]
  show ?thesis by simp
qed

text \<open>
  Fact. The null character makes an alphabet that is accepted but cannot be used: the code of a character is a divisor when a
  separator is chosen, so encoding two numbers, the first of which is written with that character in front, divides by zero.
\<close>

definition null_alphabet :: string where
  "null_alphabet = ''abcdefghijklmn'' @ CHR 0x00 # ''opqrst''"

definition null_hashids :: hashids where
  "null_hashids = \<lparr>min_len = 0, salt = [], alphabet = ''degjklmn'' @ CHR 0x00 # ''opqr'', separators = ''cfhist'', guards = ''ab''\<rparr>"

lemma null_hashids_made: "hashids_new [] null_alphabet 0 = Inr null_hashids"
proof -
  have "(case hashids_new [] null_alphabet 0 of Inl e \<Rightarrow> False | Inr h \<Rightarrow> h = null_hashids)" by code_simp
  then show ?thesis by (auto split: sum.splits)
qed

theorem null_character_divides_by_zero:
  "\<exists>h n k. hashids_new [] null_alphabet 0 = Inr h \<and> encode h [n, k] = Inl Div_by_zero"
proof -
  let ?h = null_hashids
  have len: "length (alphabet ?h) = 13" "alphabet ?h \<noteq> []" "alphabet ?h ! 0 = CHR ''d''" "CHR 0x00 \<in> set (alphabet ?h)"
    by (simp_all add: null_hashids_def)
  obtain alph where alph: "reorder (make_alphabet_salt CHR ''d'' (salt ?h) (alphabet ?h)) (alphabet ?h) = Inr alph"
      "set alph = set (alphabet ?h)" "length alph = 13"
    using reorder_facts [of "alphabet ?h" "make_alphabet_salt CHR ''d'' (salt ?h) (alphabet ?h)"] len by auto
  obtain n where n: "n < 13" "alph ! n = CHR 0x00" using alph(2,3) len(4) by (metis in_set_conv_nth)
  have hash: "value_hash_of [n, 13 - n] = 13" using n(1) by (simp add: value_hash_of_def)
  have "alph \<noteq> []" using alph(3) by auto
  then have "hash_loop (Suc 63) n alph = Inr [CHR 0x00]" unfolding hash_loop.simps using n alph(3) by simp
  then have "hash_number n alph = Inr [CHR 0x00]" by (simp add: hash_number_def)
  then have "encode_loop ?h CHR ''d'' 0 [n, 13 - n] (alphabet ?h) [CHR ''d''] = Inl Div_by_zero"
    using alph(1) by (simp add: Let_def at_def guard_def)
  then have "encode ?h [n, 13 - n] = Inl Div_by_zero" using len hash by (simp add: encode_def Let_def guard_def)
  then show ?thesis using null_hashids_made by blast
qed

text \<open>
  Fact. \<open>decode\<close> accepts nothing but what this instance encodes: whatever string it accepts
  and however the library splits it, the string is the encoding of the numbers returned, and two
  strings with the same numbers are equal.
\<close>

theorem decode_accepts_only_encoded:
  assumes "decode split h s = Inr vs"
  shows "encode h vs = Inr s"
  using assms by (auto simp: decode_def encode_def fault_simps Let_def split: if_splits)

theorem decode_accepts_only_encoded_witness:
  "decode (\<lambda>s ds. []) \<lparr>min_len = 0, salt = [], alphabet = ''ab'', separators = ''c'', guards = ''d''\<rparr> [] = Inr [] \<and>
   encode \<lparr>min_len = 0, salt = [], alphabet = ''ab'', separators = ''c'', guards = ''d''\<rparr> [] = Inr []"
proof -
  have d: "decode (\<lambda>s ds. []) \<lparr>min_len = 0, salt = [], alphabet = ''ab'', separators = ''c'', guards = ''d''\<rparr> [] = Inr []"
    by (simp add: decode_def)
  from decode_accepts_only_encoded [OF d] d show ?thesis by simp
qed

text \<open>
  Fact. A salt with a custom alphabet that has none of the base separators (but 16 or more
  characters, all the documentation asks for) makes the constructor shuffle an empty string, whose
  \<open>size() - 1\<close> wraps around: it accesses memory out of bounds.
\<close>

theorem hashids_salt_without_separators:
  assumes "sl \<noteq> []" and "16 \<le> card (set alph)" and "set alph \<inter> set base_separators = {}"
  shows "hashids_new sl alph m = Inl Out_of_bounds"
proof -
  have "alph \<noteq> []" using assms(2) by auto
  have sp: "filter (\<lambda>ch. ch \<in> set alph) base_separators = []"
    using assms(3) by (auto simp: filter_empty_conv)
  have "length (keep_unseen [] {} alph) = card (set alph)"
    using keep_unseen_facts [of "[]" "{}" alph] distinct_card [of "keep_unseen [] {} alph"] by auto
  then show ?thesis using assms(1,2) \<open>alph \<noteq> []\<close> sp by (simp add: hashids_new_def Let_def reorder_def)
qed

theorem hashids_salt_without_separators_witness:
  "hashids_new ''salt'' ''abdegjklmnopqrvwxyzABDEGJKLMNOPQRVWXYZ1234567890'' 0 = Inl Out_of_bounds"
proof (rule hashids_salt_without_separators)
  show "16 \<le> card (set ''abdegjklmnopqrvwxyzABDEGJKLMNOPQRVWXYZ1234567890'')"
    by (subst distinct_card) simp_all
  show "set ''abdegjklmnopqrvwxyzABDEGJKLMNOPQRVWXYZ1234567890'' \<inter> set base_separators = {}"
    by (simp add: base_separators_def)
qed simp

section \<open>Hexadecimal round trip\<close>

text \<open>
  What the libraries promise: \<open>split(s, by_length{n})\<close> cuts pieces of \<open>n\<close> characters, the last one may
  be shorter; \<open>fmt::format("{:x}", n)\<close> is the number in lower-case digits without leading zeros.
\<close>

fun chunks :: "nat \<Rightarrow> string \<Rightarrow> string list" where
  "chunks n s = (if n = 0 \<or> s = [] then [] else take n s # chunks n (drop n s))"

declare chunks.simps [simp del]

text \<open>The lower-case digit with the same value.\<close>

definition lower_digit :: "char \<Rightarrow> char" where
  "lower_digit c = (case hex_val c of None \<Rightarrow> c | Some d \<Rightarrow> hex_digit d)"

lemma hex_value_bounds:
  "is_hex s \<Longrightarrow> 16 ^ length s \<le> hex_value (CHR ''1'' # s) \<and> hex_value (CHR ''1'' # s) < 2 * 16 ^ length s"
proof (induction s rule: rev_induct)
  case Nil
  then show ?case by (simp add: hex_value_def)
next
  case (snoc c s)
  then obtain d where d: "hex_val c = Some d" "d < 16" using hex_val_less by (auto simp: is_hex_def)
  have "hex_value (CHR ''1'' # s @ [c]) = hex_value (CHR ''1'' # s) * 16 + d"
    using hex_value_snoc [of "CHR ''1'' # s" c] d by simp
  then show ?case using snoc d by (auto simp: is_hex_def)
qed

lemma to_hex_value: "is_hex s \<Longrightarrow> to_hex (hex_value (CHR ''1'' # s)) = CHR ''1'' # map lower_digit s"
proof (induction s rule: rev_induct)
  case Nil
  then show ?case by (simp add: hex_value_def to_hex.simps hex_digit_def)
next
  case (snoc c s)
  then obtain d where d: "hex_val c = Some d" "d < 16" using hex_val_less by (auto simp: is_hex_def)
  have s: "is_hex s" using snoc.prems by (simp add: is_hex_def)
  let ?v = "hex_value (CHR ''1'' # s)"
  have v: "hex_value (CHR ''1'' # s @ [c]) = ?v * 16 + d"
    using hex_value_snoc [of "CHR ''1'' # s" c] d by simp
  have "1 \<le> ?v" using hex_value_bounds [OF s] one_le_power [of "16::nat" "length s"] by linarith
  then have "to_hex (?v * 16 + d) = to_hex ?v @ [hex_digit d]"
    using d(2) by (simp add: to_hex.simps [of "?v * 16 + d"])
  then show ?case using v snoc.IH [OF s] d(1) by (simp add: lower_digit_def)
qed

lemma stoull16_hex: "is_hex s \<Longrightarrow> stoull16 s = (hex_value s, length s)"
  by (simp add: stoull16_def hex_value_def is_hex_def takeWhile_eq_all_conv [THEN iffD2])

lemma stoull16_not_hex: "\<not> is_hex s \<Longrightarrow> snd (stoull16 s) \<noteq> length s"
proof -
  assume "\<not> is_hex s"
  then have "takeWhile (\<lambda>c. hex_val c \<noteq> None) s \<noteq> s"
    by (auto simp: is_hex_def takeWhile_eq_all_conv)
  then have "length (takeWhile (\<lambda>c. hex_val c \<noteq> None) s) \<noteq> length s"
    by (metis takeWhile_eq_take take_all order_refl)
  then show ?thesis by (simp add: stoull16_def Let_def)
qed

lemma chunks_facts:
  "0 < n \<Longrightarrow> concat (chunks n s) = s \<and> (\<forall>p \<in> set (chunks n s). length p \<le> n) \<and> (s \<noteq> [] \<longrightarrow> chunks n s \<noteq> [])"
proof (induction n s rule: chunks.induct)
  case (1 n s)
  show ?case
  proof (cases "s = []")
    case True
    then show ?thesis by (simp add: chunks.simps)
  next
    case False
    then have "chunks n s = take n s # chunks n (drop n s)" using "1.prems" by (simp add: chunks.simps [of n s])
    then show ?thesis using 1 False by auto
  qed
qed

lemma hex_numbers_ok:
  "\<forall>p \<in> set parts. is_hex p \<and> length p \<le> 12 \<Longrightarrow>
   hex_numbers parts = Inr (map (\<lambda>p. hex_value (CHR ''1'' # p)) parts) \<and>
   list_all (\<lambda>v. v < 2 ^ 64) (map (\<lambda>p. hex_value (CHR ''1'' # p)) parts)"
proof (induction parts)
  case (Cons p parts)
  have p: "is_hex p" "is_hex (CHR ''1'' # p)" "length p \<le> 12" using Cons.prems by (auto simp: is_hex_def)
  have "(16::nat) ^ length p \<le> 16 ^ 12" using p(3) by (intro power_increasing) auto
  then have "hex_value (CHR ''1'' # p) < 2 ^ 64" using hex_value_bounds [OF p(1)] by simp
  then show ?case using Cons stoull16_hex [OF p(2)] by simp
qed simp

lemma decode_parts:
  "\<forall>p \<in> set parts. is_hex p \<Longrightarrow>
   rfold (\<lambda>hex n. let part = to_hex n in
     rbind (guard (1 \<le> length part) (Thrown ''basic_string::append'')) (\<lambda>_. Inr (hex @ drop 1 part)))
     (map (\<lambda>p. hex_value (CHR ''1'' # p)) parts) acc = Inr (acc @ map lower_digit (concat parts))"
  by (induction parts arbitrary: acc) (simp_all add: to_hex_value)

text \<open>
  Fact. A string of hexadecimal digits of any length survives \<open>encode_hex\<close> and \<open>decode_hex\<close>
  (in lower case), leading zeros included, and a string with any other character is rejected with
  an exception.
\<close>

theorem hashids_hex_roundtrip:
  assumes "hashids_inv h" and "split = split_any" and "by_length = chunks" and "fmt_x = to_hex"
  shows "if is_hex hex
    then \<exists>out. encode_hex by_length h hex = Inr out \<and> decode_hex split fmt_x h out = Inr (map lower_digit hex)
    else encode_hex by_length h hex = Inl (Thrown ''invalid hex'')"
proof (cases "is_hex hex")
  case True
  note c = chunks_facts [of 12 hex]
  have parts: "\<forall>p \<in> set (chunks 12 hex). is_hex p \<and> length p \<le> 12"
  proof
    fix p assume p: "p \<in> set (chunks 12 hex)"
    then have "set p \<subseteq> set (concat (chunks 12 hex))" by auto
    then show "is_hex p \<and> length p \<le> 12" using c p True by (auto simp: is_hex_def)
  qed
  let ?vs = "map (\<lambda>p. hex_value (CHR ''1'' # p)) (chunks 12 hex)"
  note n = hex_numbers_ok [OF parts]
  obtain out where out: "encode h ?vs = Inr out" "decode split h out = Inr ?vs" "?vs \<noteq> [] \<longrightarrow> out \<noteq> []"
    using decode_encode [OF assms(1) conjunct2 [OF n] assms(2)] by blast
  show ?thesis
  proof (cases "hex = []")
    case True
    then show ?thesis by (simp add: encode_hex_def decode_hex_def is_hex_def)
  next
    case False
    then have "out \<noteq> []" using c out(3) by simp
    moreover have "encode_hex by_length h hex = Inr out"
      using False n out(1) assms(3) by (simp add: encode_hex_def)
    moreover have "decode_hex split fmt_x h out = Inr (map lower_digit hex)"
      using \<open>out \<noteq> []\<close> out(2) decode_parts [of "chunks 12 hex" "[]"] parts c assms(4)
      by (simp add: decode_hex_def)
    ultimately show ?thesis using True by auto
  qed
next
  case False
  have bad: "hex_numbers ps = Inl (Thrown ''invalid hex'')" if "\<not> is_hex (concat ps)" for ps
    using that
  proof (induction ps)
    case (Cons p ps)
    show ?case
    proof (cases "is_hex p")
      case True
      then have "is_hex (CHR ''1'' # p)" "\<not> is_hex (concat ps)" using Cons.prems by (auto simp: is_hex_def)
      then show ?thesis using Cons.IH stoull16_hex by simp
    next
      case False
      then have "\<not> is_hex (CHR ''1'' # p)" by (simp add: is_hex_def)
      from stoull16_not_hex [OF this] show ?thesis by (simp add: split_beta)
    qed
  qed (simp add: is_hex_def)
  have "hex \<noteq> []" using False by (auto simp: is_hex_def)
  then show ?thesis using bad [of "chunks 12 hex"] chunks_facts [of 12 hex] False assms(3)
    by (simp add: encode_hex_def)
qed

theorem hashids_hex_roundtrip_witness:
  "\<exists>h out. hashids_new ''salt'' default_alphabet 0 = Inr h \<and> encode_hex chunks h ''00fE'' = Inr out \<and>
     decode_hex split_any to_hex h out = Inr ''00fe''"
proof -
  have "default_alphabet \<noteq> []" by (simp add: default_alphabet_def)
  then obtain h where h: "hashids_new ''salt'' default_alphabet 0 = Inr h" "hashids_inv h"
    using hashids_new_inv [OF accepted_default] by blast
  have "is_hex ''00fE''" by (simp add: is_hex_def hex_val_def)
  moreover have "map lower_digit ''00fE'' = ''00fe''"
    by (simp add: lower_digit_def hex_val_def hex_digit_def)
  ultimately show ?thesis using hashids_hex_roundtrip [OF h(2) refl refl refl, of "''00fE''"] h(1) by auto
qed

end
