(* ===== verification/Expr_Tree.thy ===== *)
theory Expr_Tree
  imports Prelude
begin

text \<open>
  The expression tree (\<open>src/Expression Tree/exptree.cpp\<close>): infix to postfix by an operator stack,
  postfix to a tree by a node stack, and evaluation of the tree. Popping an empty vector is a fault,
  \<open>int\<close> arithmetic is checked. The reference is the usual grammar of sums and products with
  left-associative operators; the three passes together compute the value that the grammar gives.
\<close>

section \<open>The program\<close>

datatype node = NULL | node (data: int) (pLeftChild: node) (pRightChild: node)

definition is_digit :: "char \<Rightarrow> bool" where
  "is_digit c \<longleftrightarrow> of_char CHR ''0'' \<le> (of_char c :: nat) \<and> of_char c \<le> (of_char CHR ''9'' :: nat)"

definition GetPriority :: "char \<Rightarrow> int res" where
  "GetPriority op =
     (if op = CHR ''+'' \<or> op = CHR ''-'' then Inr 1
      else if op = CHR ''*'' \<or> op = CHR ''/'' then Inr 2
      else if op = CHR ''('' \<or> op = CHR '')'' then Inr 3
      else Inl Assert_failed)"

text \<open>The loop after a closing parenthesis: pop until the opening one; stacks have their top first.\<close>

fun pop_paren :: "string \<Rightarrow> string \<Rightarrow> (string \<times> string) res" where
  "pop_paren [] postfix = Inl Out_of_bounds"
| "pop_paren (op # st) postfix =
     (if op = CHR ''('' then Inr (postfix, st) else pop_paren st (postfix @ [op]))"

text \<open>The loop at an operator.\<close>

fun push_operator :: "char \<Rightarrow> string \<Rightarrow> string \<Rightarrow> (string \<times> string) res" where
  "push_operator p [] postfix = Inr (postfix, [p])"
| "push_operator p (tp # st) postfix =
     (if tp = CHR ''('' then Inr (postfix, p # tp # st)
      else rbind (GetPriority p) (\<lambda>a. rbind (GetPriority tp) (\<lambda>b.
        if b < a then Inr (postfix, p # tp # st) else push_operator p st (postfix @ [tp]))))"

fun infix_loop :: "string \<Rightarrow> string \<times> string \<Rightarrow> (string \<times> string) res" where
  "infix_loop [] s = Inr s"
| "infix_loop (c # cs) (postfix, st) =
     (if is_digit c then infix_loop cs (postfix @ [c], st)
      else if c = CHR ''('' then infix_loop cs (postfix, c # st)
      else if c = CHR '')'' then rbind (pop_paren st postfix) (infix_loop cs)
      else rbind (push_operator c st postfix) (infix_loop cs))"

definition InfixToPostfix :: "string \<Rightarrow> string res" where
  "InfixToPostfix infix_exp =
     rbind (infix_loop infix_exp ([], [])) (\<lambda>(postfix, st). Inr (postfix @ st))"

definition CreateTree :: "int \<Rightarrow> node \<Rightarrow> node \<Rightarrow> node" where
  "CreateTree d l r = node d l r"

fun construct_loop :: "string \<Rightarrow> node list \<Rightarrow> node list res" where
  "construct_loop [] st = Inr st"
| "construct_loop (c # cs) st =
     (if is_digit c
      then construct_loop cs (CreateTree (of_char c - of_char CHR ''0'') NULL NULL # st)
      else case st of
          r # l # st' \<Rightarrow> construct_loop cs (CreateTree (of_char c) l r # st')
        | _ \<Rightarrow> Inl Out_of_bounds)"

definition ConstructExpTree :: "string \<Rightarrow> node res" where
  "ConstructExpTree postfix_exp =
     rbind (construct_loop postfix_exp [])
       (\<lambda>st. case st of [] \<Rightarrow> Inl Out_of_bounds | root # _ \<Rightarrow> Inr root)"

definition INT_MIN :: int where
  "INT_MIN = - (2 ^ 31)"

definition Calculate :: "int \<Rightarrow> int \<Rightarrow> int \<Rightarrow> int res" where
  "Calculate num num2 op =
     rbind (if op = of_char CHR ''+'' then chk32 (num + num2)
            else if op = of_char CHR ''-'' then chk32 (num - num2)
            else if op = of_char CHR ''*'' then chk32 (num * num2)
            else if op = of_char CHR ''/''
            then rbind (guard (num2 \<noteq> 0) Div_by_zero) (\<lambda>_. chk32 (cdiv num num2))
            else Inr INT_MIN)
       (\<lambda>ret. rbind (guard (ret \<noteq> INT_MIN) Assert_failed) (\<lambda>_. Inr ret))"

fun Eval :: "node \<Rightarrow> int res" where
  "Eval NULL = Inl Null_deref"
| "Eval (node d l r) =
     (if l = NULL \<and> r = NULL then Inr d
      else rbind (Eval l) (\<lambda>num1. rbind (Eval r) (\<lambda>num2. Calculate num1 num2 d)))"

section \<open>The grammar\<close>

datatype add_op = Plus | Minus
datatype mul_op = Times | Divide

datatype expr = Term "term" | SumOf expr add_op "term"
  and "term" = Factor factor | ProductOf "term" mul_op factor
  and factor = Digit nat | Paren expr

fun add_char :: "add_op \<Rightarrow> char" where
  "add_char Plus = CHR ''+''"
| "add_char Minus = CHR ''-''"

fun mul_char :: "mul_op \<Rightarrow> char" where
  "mul_char Times = CHR ''*''"
| "mul_char Divide = CHR ''/''"

definition digit_char :: "nat \<Rightarrow> char" where
  "digit_char d = ''0123456789'' ! d"

primrec show_expr :: "expr \<Rightarrow> string" and show_term :: "term \<Rightarrow> string" and show_factor :: "factor \<Rightarrow> string" where
  "show_expr (Term t) = show_term t"
| "show_expr (SumOf x c t) = show_expr x @ [add_char c] @ show_term t"
| "show_term (Factor f) = show_factor f"
| "show_term (ProductOf t c f) = show_term t @ [mul_char c] @ show_factor f"
| "show_factor (Digit d) = [digit_char d]"
| "show_factor (Paren x) = ''('' @ show_expr x @ '')''"

primrec post_expr :: "expr \<Rightarrow> string" and post_term :: "term \<Rightarrow> string" and post_factor :: "factor \<Rightarrow> string" where
  "post_expr (Term t) = post_term t"
| "post_expr (SumOf x c t) = post_expr x @ post_term t @ [add_char c]"
| "post_term (Factor f) = post_factor f"
| "post_term (ProductOf t c f) = post_term t @ post_factor f @ [mul_char c]"
| "post_factor (Digit d) = [digit_char d]"
| "post_factor (Paren x) = post_expr x"

primrec wf_expr :: "expr \<Rightarrow> bool" and wf_term :: "term \<Rightarrow> bool" and wf_factor :: "factor \<Rightarrow> bool" where
  "wf_expr (Term t) = wf_term t"
| "wf_expr (SumOf x c t) \<longleftrightarrow> wf_expr x \<and> wf_term t"
| "wf_term (Factor f) = wf_factor f"
| "wf_term (ProductOf t c f) \<longleftrightarrow> wf_term t \<and> wf_factor f"
| "wf_factor (Digit d) \<longleftrightarrow> d < 10"
| "wf_factor (Paren x) = wf_expr x"

fun add_val :: "add_op \<Rightarrow> int \<Rightarrow> int \<Rightarrow> int" where
  "add_val Plus a b = a + b"
| "add_val Minus a b = a - b"

fun mul_val :: "mul_op \<Rightarrow> int \<Rightarrow> int \<Rightarrow> int" where
  "mul_val Times a b = a * b"
| "mul_val Divide a b = cdiv a b"

primrec val_expr :: "expr \<Rightarrow> int" and val_term :: "term \<Rightarrow> int" and val_factor :: "factor \<Rightarrow> int" where
  "val_expr (Term t) = val_term t"
| "val_expr (SumOf x c t) = add_val c (val_expr x) (val_term t)"
| "val_term (Factor f) = val_factor f"
| "val_term (ProductOf t c f) = mul_val c (val_term t) (val_factor f)"
| "val_factor (Digit d) = int d"
| "val_factor (Paren x) = val_expr x"

text \<open>Every intermediate value fits an \<open>int\<close> and is not \<open>INT_MIN\<close>, and no divisor is 0.\<close>

definition fits_int :: "int \<Rightarrow> bool" where
  "fits_int v \<longleftrightarrow> INT_MIN < v \<and> v < 2 ^ 31"

primrec safe_expr :: "expr \<Rightarrow> bool" and safe_term :: "term \<Rightarrow> bool" and safe_factor :: "factor \<Rightarrow> bool" where
  "safe_expr (Term t) = safe_term t"
| "safe_expr (SumOf x c t) \<longleftrightarrow> safe_expr x \<and> safe_term t \<and> fits_int (add_val c (val_expr x) (val_term t))"
| "safe_term (Factor f) = safe_factor f"
| "safe_term (ProductOf t c f) \<longleftrightarrow> safe_term t \<and> safe_factor f \<and>
     (c = Divide \<longrightarrow> val_factor f \<noteq> 0) \<and> fits_int (mul_val c (val_term t) (val_factor f))"
| "safe_factor (Digit d) = True"
| "safe_factor (Paren x) = safe_expr x"

section \<open>Infix to postfix\<close>

lemma is_digit_char: "d < 10 \<Longrightarrow> is_digit (digit_char d)"
proof -
  assume "d < 10"
  then have "d \<in> {0, 1, 2, 3, 4, 5, 6, 7, 8, 9}" by auto
  then show ?thesis by (auto simp: is_digit_def digit_char_def)
qed

lemma digit_value: "d < 10 \<Longrightarrow> (of_char (digit_char d) - 48 :: int) = int d"
proof -
  assume "d < 10"
  then have "d \<in> {0, 1, 2, 3, 4, 5, 6, 7, 8, 9}" by auto
  then show ?thesis by (auto simp: digit_char_def)
qed

lemma op_not_digit [simp]:
  "\<not> is_digit (add_char c)" "\<not> is_digit (mul_char m)" "\<not> is_digit CHR ''(''" "\<not> is_digit CHR '')''"
proof -
  show "\<not> is_digit (add_char c)" by (cases c) (simp_all add: is_digit_def)
  show "\<not> is_digit (mul_char m)" by (cases m) (simp_all add: is_digit_def)
qed (simp_all add: is_digit_def)

lemma op_not_paren [simp]:
  "add_char c \<noteq> CHR ''(''" "add_char c \<noteq> CHR '')''" "mul_char m \<noteq> CHR ''(''" "mul_char m \<noteq> CHR '')''"
  "CHR ''('' \<noteq> add_char c" "CHR ''('' \<noteq> mul_char m"
  by (cases c; cases m; simp)+

lemma priority [simp]: "GetPriority (add_char c) = Inr 1" "GetPriority (mul_char m) = Inr 2"
  by (cases c; simp add: GetPriority_def) (cases m; simp add: GetPriority_def)

text \<open>The top of the stack below a sum or below a product.\<close>

fun sum_base :: "string \<Rightarrow> bool" where
  "sum_base [] = True"
| "sum_base (c # st) = (c = CHR ''('')"

fun product_base :: "string \<Rightarrow> bool" where
  "product_base [] = True"
| "product_base (c # st) \<longleftrightarrow> c = CHR ''('' \<or> (\<exists>a. c = add_char a)"

definition pending :: "string \<Rightarrow> bool" where
  "pending ops \<longleftrightarrow> (\<forall>c \<in> set ops. (\<exists>a. c = add_char a) \<or> (\<exists>m. c = mul_char m))"

lemma pop_pending: "pending ops \<Longrightarrow> pop_paren (ops @ CHR ''('' # st) out = Inr (out @ ops, st)"
  by (induction ops arbitrary: out) (auto simp: pending_def)

lemma push_add: "pending ops \<Longrightarrow> sum_base st \<Longrightarrow>
  push_operator (add_char c) (ops @ st) out = Inr (out @ ops, add_char c # st)"
proof (induction ops arbitrary: out)
  case Nil
  then show ?case by (cases st) auto
next
  case (Cons o' ops)
  then have "o' \<noteq> CHR ''(''" "\<exists>p \<ge> 1. GetPriority o' = Inr p" "pending ops"
    by (auto simp: pending_def)
  then show ?case using Cons by auto
qed

lemma push_mul: "list_all (\<lambda>c. \<exists>m. c = mul_char m) ops \<Longrightarrow> product_base st \<Longrightarrow>
  push_operator (mul_char c) (ops @ st) out = Inr (out @ ops, mul_char c # st)"
proof (induction ops arbitrary: out)
  case Nil
  then show ?case by (cases st) auto
qed auto

lemma infix_expr:
  "wf_expr x \<Longrightarrow> sum_base st \<Longrightarrow> \<exists>out' ops. pending ops \<and> out' @ ops = out @ post_expr x \<and>
     (\<forall>rest. infix_loop (show_expr x @ rest) (out, st) = infix_loop rest (out', ops @ st))"
  "wf_term t \<Longrightarrow> product_base st \<Longrightarrow> \<exists>out' ops. list_all (\<lambda>c. \<exists>m. c = mul_char m) ops \<and>
     out' @ ops = out @ post_term t \<and>
     (\<forall>rest. infix_loop (show_term t @ rest) (out, st) = infix_loop rest (out', ops @ st))"
  "wf_factor f \<Longrightarrow> infix_loop (show_factor f @ rest) (out, st) = infix_loop rest (out @ post_factor f, st)"
proof (induction x and t and f arbitrary: out st and out st and out st rest)
  case (Term t)
  have "product_base st" using Term.prems(2) by (cases st) auto
  from Term.IH [OF _ this] Term.prems(1) show ?case
    by (simp add: pending_def list_all_iff) blast
next
  case (SumOf x c t)
  obtain o1 ops1 where o1: "pending ops1" "o1 @ ops1 = out @ post_expr x"
      "\<And>rest. infix_loop (show_expr x @ rest) (out, st) = infix_loop rest (o1, ops1 @ st)"
    using SumOf.IH(1) SumOf.prems by (metis wf_expr.simps(2))
  have "product_base (add_char c # st)" by auto
  then obtain o2 ops2 where o2: "list_all (\<lambda>c. \<exists>m. c = mul_char m) ops2"
      "o2 @ ops2 = (out @ post_expr x) @ post_term t"
      "\<And>rest. infix_loop (show_term t @ rest) (out @ post_expr x, add_char c # st) =
        infix_loop rest (o2, ops2 @ add_char c # st)"
    using SumOf.IH(2) SumOf.prems(1) by (metis wf_expr.simps(2))
  have "infix_loop (show_expr (SumOf x c t) @ rest) (out, st) = infix_loop rest (o2, (ops2 @ [add_char c]) @ st)" for rest
    using o1(3) o2(3) push_add [OF o1(1) SumOf.prems(2), of c o1] o1(2) by simp
  moreover have "pending (ops2 @ [add_char c])" using o2(1) by (auto simp: pending_def list_all_iff)
  moreover have "o2 @ ops2 @ [add_char c] = out @ post_expr (SumOf x c t)" using o2(2) by (metis append.assoc post_expr.simps(2))
  ultimately show ?case by blast
next
  case (Factor f)
  then show ?case by (intro exI [of _ "out @ post_factor f"] exI [of _ "[]"]) simp
next
  case (ProductOf t c f)
  obtain o1 ops1 where o1: "list_all (\<lambda>c. \<exists>m. c = mul_char m) ops1" "o1 @ ops1 = out @ post_term t"
      "\<And>rest. infix_loop (show_term t @ rest) (out, st) = infix_loop rest (o1, ops1 @ st)"
    using ProductOf.IH(1) ProductOf.prems by (metis wf_term.simps(2))
  have "infix_loop (show_term (ProductOf t c f) @ rest) (out, st) =
      infix_loop rest ((out @ post_term t) @ post_factor f, [mul_char c] @ st)" for rest
    using o1(3) push_mul [OF o1(1) ProductOf.prems(2), of c o1] o1(2) ProductOf.IH(2) ProductOf.prems(1)
    by simp
  then show ?case by (intro exI [of _ "(out @ post_term t) @ post_factor f"] exI [of _ "[mul_char c]"]) auto
next
  case (Digit d)
  then show ?case using is_digit_char by simp
next
  case (Paren x)
  obtain o1 ops1 where o1: "pending ops1" "o1 @ ops1 = out @ post_expr x"
      "\<And>rest. infix_loop (show_expr x @ rest) (out, CHR ''('' # st) = infix_loop rest (o1, ops1 @ CHR ''('' # st)"
    using Paren.IH [of "CHR ''('' # st" out] Paren.prems by auto
  then show ?case using pop_pending [OF o1(1)] by simp
qed

lemma InfixToPostfix_show: "wf_expr x \<Longrightarrow> InfixToPostfix (show_expr x) = Inr (post_expr x)"
proof -
  assume "wf_expr x"
  then obtain o1 ops where o: "o1 @ ops = [] @ post_expr x"
      "\<And>rest. infix_loop (show_expr x @ rest) ([], []) = infix_loop rest (o1, ops @ [])"
    using infix_expr(1) [of x "[]" "[]"] by auto
  from o(2) [of "[]"] o(1) show ?thesis by (simp add: InfixToPostfix_def)
qed

section \<open>Postfix to tree to value\<close>

primrec tree_expr :: "expr \<Rightarrow> node" and tree_term :: "term \<Rightarrow> node" and tree_factor :: "factor \<Rightarrow> node" where
  "tree_expr (Term t) = tree_term t"
| "tree_expr (SumOf x c t) = node (of_char (add_char c)) (tree_expr x) (tree_term t)"
| "tree_term (Factor f) = tree_factor f"
| "tree_term (ProductOf t c f) = node (of_char (mul_char c)) (tree_term t) (tree_factor f)"
| "tree_factor (Digit d) = node (int d) NULL NULL"
| "tree_factor (Paren x) = tree_expr x"

lemma construct_tree:
  "wf_expr x \<Longrightarrow> construct_loop (post_expr x @ rest) st = construct_loop rest (tree_expr x # st)"
  "wf_term t \<Longrightarrow> construct_loop (post_term t @ rest) st = construct_loop rest (tree_term t # st)"
  "wf_factor f \<Longrightarrow> construct_loop (post_factor f @ rest) st = construct_loop rest (tree_factor f # st)"
  by (induction x and t and f arbitrary: rest st and rest st and rest st)
    (simp_all add: CreateTree_def is_digit_char digit_value)

lemma tree_not_NULL: "tree_expr x \<noteq> NULL" "tree_term t \<noteq> NULL" "tree_factor f \<noteq> NULL"
  by (induction x and t and f) simp_all

lemma fits_chk: "fits_int v \<Longrightarrow> chk32 v = Inr v \<and> v \<noteq> INT_MIN"
  by (simp add: fits_int_def chk32_def in_i32_def INT_MIN_def)

lemma Calculate_add: "fits_int (add_val c a b) \<Longrightarrow> Calculate a b (of_char (add_char c)) = Inr (add_val c a b)"
  by (cases c) (simp_all add: Calculate_def fits_chk)

lemma Calculate_mul:
  "fits_int (mul_val c a b) \<Longrightarrow> c = Divide \<longrightarrow> b \<noteq> 0 \<Longrightarrow>
   Calculate a b (of_char (mul_char c)) = Inr (mul_val c a b)"
  by (cases c) (simp_all add: Calculate_def fits_chk)

lemma Eval_tree:
  "safe_expr x \<Longrightarrow> Eval (tree_expr x) = Inr (val_expr x)"
  "safe_term t \<Longrightarrow> Eval (tree_term t) = Inr (val_term t)"
  "safe_factor f \<Longrightarrow> Eval (tree_factor f) = Inr (val_factor f)"
  by (induction x and t and f) (simp_all add: tree_not_NULL Calculate_add Calculate_mul)

section \<open>Properties\<close>

text \<open>
  Fact. For every expression of the grammar (sums and products of digits and parenthesised
  expressions, any nesting) the operator stack produces the postfix form of its parse: precedence
  and left association are respected, and no pop meets an empty stack.
\<close>

theorem shunting_yard_correct:
  assumes "wf_expr x"
  shows "InfixToPostfix (show_expr x) = Inr (post_expr x) \<and> ConstructExpTree (post_expr x) = Inr (tree_expr x)"
  using InfixToPostfix_show [OF assms] construct_tree(1) [OF assms, of "[]" "[]"]
  by (simp add: ConstructExpTree_def)

theorem shunting_yard_correct_witness:
  "InfixToPostfix ''1-2*(3+4)-5'' = Inr ''1234+*-5-''"
proof -
  let ?d = "\<lambda>d. Factor (Digit d)"
  let ?x = "SumOf (SumOf (Term (?d 1)) Minus (ProductOf (?d 2) Times (Paren (SumOf (Term (?d 3)) Plus (?d 4))))) Minus (?d 5)"
  have "wf_expr ?x" by simp
  from shunting_yard_correct [OF this] show ?thesis by (simp add: digit_char_def)
qed

text \<open>
  Fact. The three passes compute the value of the expression whenever its intermediate values
  fit an \<open>int\<close> (above \<open>INT_MIN\<close>, which the code uses as its error mark) and no divisor is 0.
\<close>

theorem expression_pipeline:
  assumes "wf_expr x" and "safe_expr x"
  shows "rbind (rbind (InfixToPostfix (show_expr x)) ConstructExpTree) Eval = Inr (val_expr x)"
  using InfixToPostfix_show [OF assms(1)] construct_tree(1) [OF assms(1), of "[]" "[]"] Eval_tree(1) [OF assms(2)]
  by (simp add: ConstructExpTree_def)

theorem expression_pipeline_witness:
  "rbind (rbind (InfixToPostfix ''1-8/(3+1)'') ConstructExpTree) Eval = Inr (- 1)"
proof -
  let ?d = "\<lambda>d. Factor (Digit d)"
  let ?x = "SumOf (Term (?d 1)) Minus (ProductOf (?d 8) Divide (Paren (SumOf (Term (?d 3)) Plus (?d 1))))"
  have "wf_expr ?x" "safe_expr ?x" by (simp_all add: fits_int_def INT_MIN_def cdiv_def)
  from expression_pipeline [OF this] show ?thesis by (simp add: digit_char_def cdiv_def)
qed

end
