(* ===== verification/MD5.thy ===== *)
theory MD5
  imports Endian
begin

text \<open>
  The incremental MD5 of the uuid library (\<open>src/uuid/uuid/md5.cpp\<close>). The 64 steps of a block are the
  table of the source, in its order; registers rotate one place per step as the macro arguments do.
  A context keeps the byte count in two words of 29 and 32 bits and up to 63 pending bytes. The
  reference is the padding of RFC 1321 followed by the compression of whole blocks: any partition
  of a message into updates gives its digest.
\<close>

section \<open>One block\<close>

definition md_F :: "32 word \<Rightarrow> 32 word \<Rightarrow> 32 word \<Rightarrow> 32 word" where
  "md_F x y z = z XOR (x AND (y XOR z))"

definition md_G :: "32 word \<Rightarrow> 32 word \<Rightarrow> 32 word \<Rightarrow> 32 word" where
  "md_G x y z = y XOR (z AND (x XOR y))"

definition md_H :: "32 word \<Rightarrow> 32 word \<Rightarrow> 32 word \<Rightarrow> 32 word" where
  "md_H x y z = (x XOR y) XOR z"

definition md_I :: "32 word \<Rightarrow> 32 word \<Rightarrow> 32 word \<Rightarrow> 32 word" where
  "md_I x y z = y XOR (x OR NOT z)"

type_synonym regs = "32 word \<times> 32 word \<times> 32 word \<times> 32 word"
type_synonym md_step = "(32 word \<Rightarrow> 32 word \<Rightarrow> 32 word \<Rightarrow> 32 word) \<times> nat \<times> 32 word \<times> nat"

definition STEP :: "(32 word \<Rightarrow> 32 word \<Rightarrow> 32 word \<Rightarrow> 32 word) \<Rightarrow>
    32 word \<Rightarrow> 32 word \<Rightarrow> 32 word \<Rightarrow> 32 word \<Rightarrow> 32 word \<Rightarrow> 32 word \<Rightarrow> nat \<Rightarrow> 32 word" where
  "STEP f a b c d x t s =
     (let a = a + (f b c d + x + t);
          a = push_bit s a OR drop_bit (32 - s) (a AND 0xffffffff)
      in a + b)"

definition steps_table :: "md_step list" where
  "steps_table = [
     (md_F, 0, 0xd76aa478, 7), (md_F, 1, 0xe8c7b756, 12),
     (md_F, 2, 0x242070db, 17), (md_F, 3, 0xc1bdceee, 22),
     (md_F, 4, 0xf57c0faf, 7), (md_F, 5, 0x4787c62a, 12),
     (md_F, 6, 0xa8304613, 17), (md_F, 7, 0xfd469501, 22),
     (md_F, 8, 0x698098d8, 7), (md_F, 9, 0x8b44f7af, 12),
     (md_F, 10, 0xffff5bb1, 17), (md_F, 11, 0x895cd7be, 22),
     (md_F, 12, 0x6b901122, 7), (md_F, 13, 0xfd987193, 12),
     (md_F, 14, 0xa679438e, 17), (md_F, 15, 0x49b40821, 22),
     (md_G, 1, 0xf61e2562, 5), (md_G, 6, 0xc040b340, 9),
     (md_G, 11, 0x265e5a51, 14), (md_G, 0, 0xe9b6c7aa, 20),
     (md_G, 5, 0xd62f105d, 5), (md_G, 10, 0x02441453, 9),
     (md_G, 15, 0xd8a1e681, 14), (md_G, 4, 0xe7d3fbc8, 20),
     (md_G, 9, 0x21e1cde6, 5), (md_G, 14, 0xc33707d6, 9),
     (md_G, 3, 0xf4d50d87, 14), (md_G, 8, 0x455a14ed, 20),
     (md_G, 13, 0xa9e3e905, 5), (md_G, 2, 0xfcefa3f8, 9),
     (md_G, 7, 0x676f02d9, 14), (md_G, 12, 0x8d2a4c8a, 20),
     (md_H, 5, 0xfffa3942, 4), (md_H, 8, 0x8771f681, 11),
     (md_H, 11, 0x6d9d6122, 16), (md_H, 14, 0xfde5380c, 23),
     (md_H, 1, 0xa4beea44, 4), (md_H, 4, 0x4bdecfa9, 11),
     (md_H, 7, 0xf6bb4b60, 16), (md_H, 10, 0xbebfbc70, 23),
     (md_H, 13, 0x289b7ec6, 4), (md_H, 0, 0xeaa127fa, 11),
     (md_H, 3, 0xd4ef3085, 16), (md_H, 6, 0x04881d05, 23),
     (md_H, 9, 0xd9d4d039, 4), (md_H, 12, 0xe6db99e5, 11),
     (md_H, 15, 0x1fa27cf8, 16), (md_H, 2, 0xc4ac5665, 23),
     (md_I, 0, 0xf4292244, 6), (md_I, 7, 0x432aff97, 10),
     (md_I, 14, 0xab9423a7, 15), (md_I, 5, 0xfc93a039, 21),
     (md_I, 12, 0x655b59c3, 6), (md_I, 3, 0x8f0ccc92, 10),
     (md_I, 10, 0xffeff47d, 15), (md_I, 1, 0x85845dd1, 21),
     (md_I, 8, 0x6fa87e4f, 6), (md_I, 15, 0xfe2ce6e0, 10),
     (md_I, 6, 0xa3014314, 15), (md_I, 13, 0x4e0811a1, 21),
     (md_I, 4, 0xf7537e82, 6), (md_I, 11, 0xbd3af235, 10),
     (md_I, 2, 0x2ad7d2bb, 15), (md_I, 9, 0xeb86d391, 21)]"

text \<open>\<open>SET\<close> and \<open>GET\<close>: a little-endian word of the block.\<close>

definition SET :: "byte list \<Rightarrow> nat \<Rightarrow> 32 word" where
  "SET ptr n = le_word (take 4 (drop (4 * n) ptr))"

fun md_round :: "byte list \<Rightarrow> regs \<Rightarrow> md_step \<Rightarrow> regs" where
  "md_round ptr (a, b, c, d) (f, n, t, s) = (d, STEP f a b c d (SET ptr n) t s, b, c)"

fun add_regs :: "regs \<Rightarrow> regs \<Rightarrow> regs" where
  "add_regs (a, b, c, d) (sa, sb, sc, sd) = (a + sa, b + sb, c + sc, d + sd)"

definition compress :: "regs \<Rightarrow> byte list \<Rightarrow> regs" where
  "compress saved ptr = add_regs (foldl (md_round ptr) saved steps_table) saved"

section \<open>The context\<close>

text \<open>\<open>abcd\<close> are the four chaining words; \<open>block\<close> is not used on machines that read unaligned words.\<close>

record MD5Context =
  md_lo :: "32 word"
  md_hi :: "32 word"
  abcd :: regs
  md_buffer :: "byte list"

text \<open>The \<open>do ... while (size -= 64)\<close> loop of \<open>Transform\<close>, with the registers and the data pointer.\<close>

function transform_loop :: "regs \<Rightarrow> byte list \<Rightarrow> 64 word \<Rightarrow> (regs \<times> byte list) res" where
  "transform_loop r ptr sz =
     (if length ptr < 64 then Inl Out_of_bounds
      else let r = compress r ptr; ptr = drop 64 ptr; sz = sz - 64 in
        if sz = 0 then Inr (r, ptr) else transform_loop r ptr sz)"
  by pat_completeness auto
termination
  by (relation "measure (\<lambda>(r, ptr, sz). length ptr)") auto

declare transform_loop.simps [simp del]

definition Transform :: "MD5Context \<Rightarrow> byte list \<Rightarrow> 64 word \<Rightarrow> (byte list \<times> MD5Context) res" where
  "Transform ctx data sz =
     rbind (transform_loop (abcd ctx) data sz) (\<lambda>(r, ptr). Inr (ptr, ctx\<lparr>abcd := r\<rparr>))"

definition md_init_regs :: regs where
  "md_init_regs = (0x67452301, 0xefcdab89, 0x98badcfe, 0x10325476)"

definition MD5Init :: "MD5Context \<Rightarrow> MD5Context" where
  "MD5Init ctx = ctx\<lparr>abcd := md_init_regs, md_lo := 0, md_hi := 0\<rparr>"

text \<open>
  The two parts of \<open>MD5Update\<close> after the counters: completing a started block, which may already
  use up the data (\<open>None\<close>), and the whole blocks and the remainder.
\<close>

definition fill_started ::
    "MD5Context \<Rightarrow> nat \<Rightarrow> byte list \<Rightarrow> 64 word \<Rightarrow> ((byte list \<times> 64 word) option \<times> MD5Context) res" where
  "fill_started ctx used data sz =
     (if used \<noteq> 0
      then let free = 64 - used in
        if unat sz < free
        then rbind (load data 0 (unat sz)) (\<lambda>bs. rbind (store (md_buffer ctx) used bs) (\<lambda>buf.
               Inr (None, ctx\<lparr>md_buffer := buf\<rparr>)))
        else rbind (load data 0 free) (\<lambda>bs. rbind (store (md_buffer ctx) used bs) (\<lambda>buf.
               rbind (Transform (ctx\<lparr>md_buffer := buf\<rparr>) buf 64) (\<lambda>(_, ctx).
               Inr (Some (drop free data, sz - of_nat free), ctx))))
      else Inr (Some (data, sz), ctx))"

definition absorb_rest :: "MD5Context \<Rightarrow> byte list \<Rightarrow> 64 word \<Rightarrow> MD5Context res" where
  "absorb_rest ctx data sz =
     rbind (if 64 \<le> sz
            then rbind (Transform ctx data (sz AND NOT 0x3f)) (\<lambda>(data, ctx).
                   Inr (data, sz AND 0x3f, ctx))
            else Inr (data, sz, ctx)) (\<lambda>(data, sz, ctx).
     rbind (load data 0 (unat sz)) (\<lambda>bs. rbind (store (md_buffer ctx) 0 bs) (\<lambda>buf.
     Inr (ctx\<lparr>md_buffer := buf\<rparr>))))"

definition MD5Update :: "MD5Context \<Rightarrow> byte list \<Rightarrow> 64 word \<Rightarrow> MD5Context res" where
  "MD5Update ctx data sz =
     (let saved_lo = md_lo ctx;
          ctx = ctx\<lparr>md_lo := ucast ((ucast saved_lo + sz) AND 0x1fffffff)\<rparr>;
          ctx = (if md_lo ctx < saved_lo then ctx\<lparr>md_hi := md_hi ctx + 1\<rparr> else ctx);
          ctx = ctx\<lparr>md_hi := md_hi ctx + ucast (drop_bit 29 sz)\<rparr>;
          used = unat (saved_lo AND 0x3f) in
      rbind (fill_started ctx used data sz) (\<lambda>(rest, ctx). case rest of
        None \<Rightarrow> Inr ctx
      | Some (data, sz) \<Rightarrow> absorb_rest ctx data sz))"

text \<open>\<open>TuckInto\<close> of the four bytes of a word, in the order of the assignments.\<close>

definition tuck4 :: "32 word \<Rightarrow> byte list" where
  "tuck4 w = [ucast w, ucast (drop_bit 8 w), ucast (drop_bit 16 w), ucast (drop_bit 24 w)]"

text \<open>The context after \<open>memset(&context, 0, sizeof(context))\<close>.\<close>

definition zero_context :: MD5Context where
  "zero_context = \<lparr>md_lo = 0, md_hi = 0, abcd = (0, 0, 0, 0), md_buffer = replicate 64 0\<rparr>"

definition MD5Final :: "MD5Context \<Rightarrow> (byte list \<times> MD5Context) res" where
  "MD5Final ctx =
     (let used = unat (md_lo ctx AND 0x3f) in
      rbind (set_at (md_buffer ctx) used 0x80) (\<lambda>buf.
      let used = used + 1; free = 64 - used in
      rbind (if free < 8
             then rbind (store buf used (replicate free 0)) (\<lambda>buf.
                    rbind (Transform (ctx\<lparr>md_buffer := buf\<rparr>) buf 64) (\<lambda>(_, ctx).
                    Inr (buf, ctx, 0, 64)))
             else Inr (buf, ctx, used, free)) (\<lambda>(buf, ctx, used, free).
      rbind (store buf used (replicate (free - 8) 0)) (\<lambda>buf.
      let lo = push_bit 3 (md_lo ctx) in
      rbind (store buf 56 (tuck4 lo @ tuck4 (md_hi ctx))) (\<lambda>buf.
      rbind (Transform (ctx\<lparr>md_buffer := buf\<rparr>) buf 64) (\<lambda>(_, ctx).
      let (a, b, c, d) = abcd ctx in
      Inr (tuck4 a @ tuck4 b @ tuck4 c @ tuck4 d, zero_context)))))))"

definition kHexDigits :: string where
  "kHexDigits = ''0123456789abcdef''"

definition MD5DigestToString :: "byte list \<Rightarrow> string" where
  "MD5DigestToString digest =
     concat (map (\<lambda>n. [kHexDigits ! unat (drop_bit 4 n AND 0x0F), kHexDigits ! unat (n AND 0x0F)]) digest)"

text \<open>A local context is not initialised: its content is an argument.\<close>

definition MD5Sum :: "MD5Context \<Rightarrow> byte list \<Rightarrow> byte list res" where
  "MD5Sum garbage data =
     rbind (MD5Update (MD5Init garbage) data (of_nat (length data))) (\<lambda>ctx.
     rbind (MD5Final ctx) (\<lambda>(digest, ctx). Inr digest))"

definition MD5String :: "MD5Context \<Rightarrow> byte list \<Rightarrow> string res" where
  "MD5String garbage str = rbind (MD5Sum garbage str) (\<lambda>digest. Inr (MD5DigestToString digest))"

section \<open>The reference\<close>

function compress_all :: "regs \<Rightarrow> byte list \<Rightarrow> regs" where
  "compress_all r bs = (if length bs < 64 then r else compress_all (compress r (take 64 bs)) (drop 64 bs))"
  by pat_completeness auto
termination
  by (relation "measure (\<lambda>(r, bs). length bs)") auto

declare compress_all.simps [simp del]

text \<open>RFC 1321: a one bit, zeros up to 56 modulo 64 bytes, and the bit length in 64 bits.\<close>

definition md5_pad :: "byte list \<Rightarrow> byte list" where
  "md5_pad m = m @ [0x80] @ replicate ((119 - length m mod 64) mod 64) 0 @
     le_bytes (of_nat (8 * length m) :: 64 word)"

definition md5_reference :: "byte list \<Rightarrow> byte list" where
  "md5_reference m =
     (let (a, b, c, d) = compress_all md_init_regs (md5_pad m)
      in le_bytes a @ le_bytes b @ le_bytes c @ le_bytes d)"

section \<open>Blocks\<close>

text \<open>The four registers stay together: no splitting of quantifiers over them.\<close>

declare split_paired_Ex [simp del] split_paired_All [simp del]

lemma table_indices: "\<forall>(f, n, t, s) \<in> set steps_table. n < 16"
  by (simp add: steps_table_def)

lemma SET_take: "n < 16 \<Longrightarrow> SET (take 64 ptr) n = SET ptr n"
proof -
  assume "n < 16"
  then have "min 4 (64 - 4 * n) = 4" by simp
  then show ?thesis by (simp only: SET_def drop_take take_take)
qed

lemma compress_take: "compress r (take 64 ptr) = compress r ptr"
proof -
  have "foldl (md_round (take 64 ptr)) r tbl = foldl (md_round ptr) r tbl"
    if "\<forall>(f, n, t, s) \<in> set tbl. n < 16" for tbl r
    using that
  proof (induction tbl arbitrary: r)
    case (Cons x tbl)
    obtain f n t s where x: "x = (f, n, t, s)" by (cases x)
    obtain a b c d where r: "r = (a, b, c, d)" by (cases r)
    have "md_round (take 64 ptr) r x = md_round ptr r x" using Cons.prems x r SET_take by auto
    with Cons show ?case by simp
  qed simp
  then show ?thesis using table_indices by (simp add: compress_def)
qed

lemma compress_all_short: "length bs < 64 \<Longrightarrow> compress_all r bs = r"
  by (simp add: compress_all.simps [of r bs])

lemma compress_all_block:
  "64 \<le> length bs \<Longrightarrow> compress_all r bs = compress_all (compress r bs) (drop 64 bs)"
  by (simp add: compress_all.simps [of r bs] compress_take)

lemma compress_all_append:
  "64 dvd length xs \<Longrightarrow> compress_all r (xs @ ys) = compress_all (compress_all r xs) ys"
proof (induction r xs rule: compress_all.induct)
  case (1 r xs)
  show ?case
  proof (cases "length xs < 64")
    case True
    then have "xs = []" using 1(2) by (auto dest: dvd_imp_le)
    then show ?thesis by (simp add: compress_all_short)
  next
    case False
    moreover have "64 dvd length (drop 64 xs)" using 1(2) False by (simp add: dvd_diff_nat)
    ultimately show ?thesis
      using 1(1) by (simp add: compress_all.simps [of r xs] compress_all.simps [of r "xs @ ys"])
  qed
qed

lemma transform_blocks:
  "0 < k \<Longrightarrow> unat sz = 64 * k \<Longrightarrow> 64 * k \<le> length ptr \<Longrightarrow>
   transform_loop r ptr sz = Inr (compress_all r (take (64 * k) ptr), drop (64 * k) ptr)"
proof (induction k arbitrary: r ptr sz)
  case (Suc k)
  have len: "64 \<le> length ptr" using Suc.prems by simp
  have "(64 :: 64 word) \<le> sz" using Suc.prems(2) by (simp add: word_le_nat_alt)
  then have u: "unat (sz - 64) = 64 * k" using Suc.prems(2) by (simp add: unat_sub)
  have c: "compress_all r (take (64 * Suc k) ptr) =
      compress_all (compress r ptr) (take (64 * k) (drop 64 ptr))"
  proof -
    have "compress r (take (64 * Suc k) ptr) = compress r ptr"
      using compress_take [of r "take (64 * Suc k) ptr"] compress_take [of r ptr] by (simp add: min_def)
    then show ?thesis using compress_all_block [of "take (64 * Suc k) ptr" r] len Suc.prems(3)
      by (simp add: drop_take)
  qed
  show ?case
  proof (cases "k = 0")
    case True
    then have "sz - 64 = 0" using u by (simp add: unat_eq_0)
    then have "transform_loop r ptr sz = Inr (compress r ptr, drop 64 ptr)"
      using len by (subst transform_loop.simps) (simp add: Let_def)
    then show ?thesis using True c by (simp add: compress_all_short)
  next
    case False
    then have "sz - 64 \<noteq> 0" using u by auto
    then have "transform_loop r ptr sz = transform_loop (compress r ptr) (drop 64 ptr) (sz - 64)"
      using len by (simp add: transform_loop.simps [of r ptr sz] Let_def)
    also have "\<dots> = Inr (compress_all (compress r ptr) (take (64 * k) (drop 64 ptr)), drop (64 * k) (drop 64 ptr))"
      using Suc.IH [of "sz - 64" "drop 64 ptr"] False u Suc.prems(3) by simp
    finally show ?thesis using c by (simp add: add.commute)
  qed
qed simp

lemma Transform_one:
  assumes "length buf = 64"
  shows "Transform ctx buf 64 = Inr ([], ctx\<lparr>abcd := compress (abcd ctx) buf\<rparr>)"
  using assms transform_blocks [of 1 64 buf "abcd ctx"]
  by (simp add: Transform_def compress_all_block compress_all_short)

section \<open>Counters\<close>

lemma lo_update:
  assumes "lo = of_nat (n mod 2 ^ 29)"
  shows "(ucast ((ucast (lo :: 32 word) + sz) AND (0x1fffffff :: 64 word)) :: 32 word) =
    of_nat ((n + unat sz) mod 2 ^ 29)"
proof -
  have n: "n mod 2 ^ 29 < 2 ^ 29" by simp
  have m: "(0x1fffffff :: 64 word) = mask 29" by (simp add: mask_eq_exp_minus_1)
  have "unat ((ucast lo + sz) AND 0x1fffffff) = take_bit 29 (unat (ucast lo + sz))"
    unfolding m by (simp only: take_bit_eq_mask [symmetric] unsigned_take_bit_eq)
  also have "unat (ucast lo + sz :: 64 word) = (unat (ucast lo :: 64 word) + unat sz) mod 2 ^ 64"
    by (simp add: unat_word_ariths)
  also have "unat (ucast lo :: 64 word) = n mod 2 ^ 29"
    using n by (simp add: assms unsigned_ucast_eq unsigned_of_nat take_bit_eq_mod)
  also have "take_bit 29 ((n mod 2 ^ 29 + unat sz) mod 2 ^ 64) = (n + unat sz) mod 2 ^ 29"
    by (simp add: take_bit_eq_mod mod_mod_cancel mod_simps)
  finally have "unat ((ucast lo + sz) AND 0x1fffffff) = (n + unat sz) mod 2 ^ 29" .
  then show ?thesis by (metis of_nat_unat)
qed

lemma ucast_drop_29: "(ucast (drop_bit 29 (sz :: 64 word)) :: 32 word) = of_nat (unat sz div 2 ^ 29)"
proof -
  have "unat (drop_bit 29 sz) = unat sz div 2 ^ 29"
    by (simp add: drop_bit_eq_div unat_div)
  then show ?thesis by (metis of_nat_unat)
qed

lemma carry_iff:
  fixes K :: nat
  assumes "0 < K"
  shows "(n + s) div K = n div K + (if (n + s) mod K < n mod K then 1 else 0) + s div K"
proof -
  define a b where "a = n mod K" and "b = s mod K"
  have ab: "a < K" "b < K" using assms by (simp_all add: a_def b_def)
  have m: "(n + s) mod K = (a + b) mod K" by (simp add: a_def b_def mod_simps)
  have d: "(n + s) div K = n div K + s div K + (a + b) div K"
    unfolding a_def b_def by (rule div_add1_eq)
  show ?thesis
  proof (cases "a + b < K")
    case True
    then show ?thesis using d m by (simp add: a_def [symmetric])
  next
    case False
    then have "(a + b) mod K = a + b - K" "(a + b) div K = 1"
      using ab by (simp_all add: mod_if div_if)
    then show ?thesis using d m ab False by (simp add: a_def [symmetric])
  qed
qed

lemma of_nat_29_less:
  "a < 2 ^ 29 \<Longrightarrow> b < 2 ^ 29 \<Longrightarrow> (of_nat a :: 32 word) < of_nat b \<longleftrightarrow> a < b"
  by (simp add: word_less_nat_alt unsigned_of_nat take_bit_eq_mod)

lemma hi_update:
  fixes lo hi :: "32 word" and sz :: "64 word"
  assumes "lo = of_nat (n mod 2 ^ 29)" and "hi = of_nat (n div 2 ^ 29)"
    and "lo' = of_nat ((n + unat sz) mod 2 ^ 29)"
  shows "(if lo' < lo then hi + 1 else hi) + ucast (drop_bit 29 sz) = of_nat ((n + unat sz) div 2 ^ 29)"
proof -
  have "lo' < lo \<longleftrightarrow> (n + unat sz) mod 2 ^ 29 < n mod 2 ^ 29"
    unfolding assms by (rule of_nat_29_less) simp_all
  moreover have "(n + unat sz) div 2 ^ 29 = n div 2 ^ 29 +
      (if (n + unat sz) mod 2 ^ 29 < n mod 2 ^ 29 then 1 else 0) + unat sz div 2 ^ 29"
    by (rule carry_iff) simp
  ultimately show ?thesis
    by (simp only: ucast_drop_29 assms(2)) (simp add: of_nat_add)
qed

lemma lo_used: "lo = of_nat (n mod 2 ^ 29) \<Longrightarrow> unat ((lo :: 32 word) AND 0x3f) = n mod 64"
proof -
  assume lo: "lo = of_nat (n mod 2 ^ 29)"
  have m: "(0x3f :: 32 word) = mask 6" by (simp add: mask_eq_exp_minus_1)
  have "unat (lo AND 0x3f) = take_bit 6 (unat lo)"
    unfolding m by (simp only: take_bit_eq_mask [symmetric] unsigned_take_bit_eq)
  also have "unat lo = n mod 2 ^ 29"
    unfolding lo by (simp add: unsigned_of_nat take_bit_eq_mod)
  also have "take_bit 6 (n mod 2 ^ 29) = n mod 64"
    by (simp add: take_bit_eq_mod mod_mod_cancel)
  finally show ?thesis .
qed

section \<open>The pending bytes\<close>

lemma set_at_store: "set_at m i x = store m i [x]"
  by (simp add: set_at_def store_def upd_conv_take_nth_drop)

lemma store_store:
  "off + length bs + length cs \<le> length m \<Longrightarrow> store m off bs = Inr m' \<Longrightarrow>
   store m' (off + length bs) cs = store m off (bs @ cs)"
  by (auto simp: store_def add_ac split: if_splits)

lemma length_store: "store m off bs = Inr m' \<Longrightarrow> length m' = length m"
  by (auto simp: store_def split: if_splits)

definition md_state :: "MD5Context \<Rightarrow> byte list \<Rightarrow> bool" where
  "md_state ctx m \<longleftrightarrow> length (md_buffer ctx) = 64 \<and> abcd ctx = compress_all md_init_regs m \<and>
     take (length m mod 64) (md_buffer ctx) = drop (64 * (length m div 64)) m"

definition md_count :: "MD5Context \<Rightarrow> nat \<Rightarrow> bool" where
  "md_count ctx n \<longleftrightarrow> md_lo ctx = of_nat (n mod 2 ^ 29) \<and> md_hi ctx = of_nat (n div 2 ^ 29)"

lemma block_split: "n + b = (n mod 64 + b) + 64 * (n div 64)" for n b :: nat
  by simp

lemma within_block:
  fixes n b :: nat
  assumes "n mod 64 + b < 64"
  shows "(n + b) div 64 = n div 64" and "(n + b) mod 64 = n mod 64 + b"
proof -
  have "((n mod 64 + b) + 64 * (n div 64)) div 64 = n div 64"
    using assms by (subst div_mult_self2) simp_all
  then show "(n + b) div 64 = n div 64" by (simp only: block_split [of n b, symmetric])
  have "((n mod 64 + b) + 64 * (n div 64)) mod 64 = n mod 64 + b"
    using assms by (subst mod_mult_self2) simp
  then show "(n + b) mod 64 = n mod 64 + b" by (simp only: block_split [of n b, symmetric])
qed

lemma to_block_end:
  fixes n b :: nat
  assumes "n mod 64 + b = 64"
  shows "(n + b) mod 64 = 0" and "64 * ((n + b) div 64) = n + b"
proof -
  have n: "n + b = 64 + 64 * (n div 64)" using block_split [of n b] unfolding assms .
  show "(n + b) mod 64 = 0" unfolding n by simp
  show "64 * ((n + b) div 64) = n + b" unfolding n by simp
qed

lemma compress_all_whole: "compress_all r m = compress_all r (take (64 * (length m div 64)) m)"
proof -
  let ?k = "64 * (length m div 64)"
  have k: "64 dvd length (take ?k m)" by (simp add: min_absorb2)
  have "length (drop ?k m) < 64" by (simp add: minus_mult_div_eq_mod)
  then show ?thesis
    using compress_all_append [of "take ?k m" r "drop ?k m"] k by (simp add: compress_all_short)
qed

lemma absorb_pending:
  assumes "md_state ctx m" and "length m mod 64 + length bs < 64"
  shows "\<exists>buf. store (md_buffer ctx) (length m mod 64) bs = Inr buf \<and> md_state (ctx\<lparr>md_buffer := buf\<rparr>) (m @ bs)"
proof -
  let ?u = "length m mod 64"
  define buf where "buf = take ?u (md_buffer ctx) @ bs @ drop (?u + length bs) (md_buffer ctx)"
  have st: "store (md_buffer ctx) ?u bs = Inr buf"
    using assms by (simp add: store_def buf_def md_state_def)
  have div: "length (m @ bs) div 64 = length m div 64" and mod: "length (m @ bs) mod 64 = ?u + length bs"
    using within_block [OF assms(2)] by simp_all
  have tk: "take (64 * (length m div 64)) (m @ bs) = take (64 * (length m div 64)) m" by simp
  have "md_state (ctx\<lparr>md_buffer := buf\<rparr>) (m @ bs)"
    using assms(1) length_store [OF st] unfolding md_state_def div mod
    by (auto simp: buf_def min_def compress_all_whole [of _ m] compress_all_whole [of _ "m @ bs"] div [simplified] tk [simplified])
  with st show ?thesis by blast
qed

lemma absorb_fill:
  assumes "md_state ctx m" and "length m mod 64 + length bs = 64"
  shows "\<exists>buf r. store (md_buffer ctx) (length m mod 64) bs = Inr buf \<and>
    Transform (ctx\<lparr>md_buffer := buf\<rparr>) buf 64 = Inr ([], ctx\<lparr>md_buffer := buf, abcd := r\<rparr>) \<and>
    md_state (ctx\<lparr>md_buffer := buf, abcd := r\<rparr>) (m @ bs)"
proof -
  let ?u = "length m mod 64" and ?k = "64 * (length m div 64)"
  define buf where "buf = take ?u (md_buffer ctx) @ bs"
  have st: "store (md_buffer ctx) ?u bs = Inr buf"
    using assms by (simp add: store_def buf_def md_state_def)
  have len: "length buf = 64" using assms length_store [OF st] by (simp add: md_state_def)
  have "take ?k m @ buf = m @ bs"
    using assms(1) by (simp add: buf_def md_state_def)
  then have "compress_all r (m @ bs) = compress_all (compress_all r (take ?k m)) buf" for r
    using compress_all_append [of "take ?k m" r buf] by (simp add: min_absorb2)
  then have c: "compress_all r (m @ bs) = compress (compress_all r m) buf" for r
    using len by (simp add: compress_all_whole [of r m, symmetric] compress_all_block compress_all_short)
  have "length (m @ bs) mod 64 = 0" "64 * (length (m @ bs) div 64) = length (m @ bs)"
    using to_block_end [OF assms(2)] by simp_all
  then have "md_state (ctx\<lparr>md_buffer := buf, abcd := compress (abcd ctx) buf\<rparr>) (m @ bs)"
    using assms(1) len c by (simp add: md_state_def)
  with st Transform_one [OF len, of "ctx\<lparr>md_buffer := buf\<rparr>"] show ?thesis
    by auto
qed

lemma and_low_6: "unat (sz AND 0x3f) = unat sz mod 64" for sz :: "64 word"
proof -
  have m: "(0x3f :: 64 word) = mask 6" by (simp add: mask_eq_exp_minus_1)
  show ?thesis
    unfolding m by (simp only: take_bit_eq_mask [symmetric] unsigned_take_bit_eq) (simp add: take_bit_eq_mod)
qed

lemma and_not_low_6: "unat (sz AND NOT 0x3f) = 64 * (unat sz div 64)" for sz :: "64 word"
proof -
  have "sz = (sz AND NOT 0x3f) + (sz AND 0x3f)"
    by (subst disjunctive_add) (auto simp: bit_simps bit_eq_iff)
  then have e: "sz AND NOT 0x3f = sz - (sz AND 0x3f)" by (simp add: algebra_simps)
  have "sz AND 0x3f \<le> sz" by (simp add: word_le_nat_alt and_low_6)
  then have "unat (sz AND NOT 0x3f) = unat sz - unat sz mod 64"
    unfolding e by (simp add: unat_sub and_low_6)
  then show ?thesis by (simp add: minus_mod_eq_mult_div)
qed

lemma absorb_blocks:
  assumes "md_state ctx m" and "length m mod 64 = 0" and "0 < k" and "unat sz = 64 * k"
    and "64 * k \<le> length data"
  shows "\<exists>r. Transform ctx data sz = Inr (drop (64 * k) data, ctx\<lparr>abcd := r\<rparr>) \<and>
    md_state (ctx\<lparr>abcd := r\<rparr>) (m @ take (64 * k) data)"
proof -
  have "64 dvd length m" using assms(2) by auto
  then have "compress_all (abcd ctx) (take (64 * k) data) = compress_all md_init_regs (m @ take (64 * k) data)"
    using assms(1) by (simp add: md_state_def compress_all_append)
  moreover have "length (m @ take (64 * k) data) mod 64 = 0"
    using assms(2,5) by (simp add: min_absorb2 mod_add_left_eq [symmetric])
  moreover from this have "drop (64 * (length (m @ take (64 * k) data) div 64)) (m @ take (64 * k) data) = []"
    unfolding minus_mod_eq_mult_div [symmetric] by simp
  ultimately have "md_state (ctx\<lparr>abcd := compress_all (abcd ctx) (take (64 * k) data)\<rparr>) (m @ take (64 * k) data)"
    using assms(1) by (simp only: md_state_def) simp
  then show ?thesis
    using transform_blocks [OF assms(3-5), of "abcd ctx"] by (auto simp: Transform_def)
qed

lemma fill_started_ok:
  assumes "md_state ctx m" and "unat sz = length data"
  obtains rest ctx' where "fill_started ctx (length m mod 64) data sz = Inr (rest, ctx')"
    and "md_lo ctx' = md_lo ctx" and "md_hi ctx' = md_hi ctx"
    and "rest = None \<Longrightarrow> md_state ctx' (m @ data)"
    and "\<And>d s. rest = Some (d, s) \<Longrightarrow> unat s = length d \<and>
      (\<exists>p. data = p @ d \<and> md_state ctx' (m @ p) \<and> length (m @ p) mod 64 = 0)"
proof -
  let ?u = "length m mod 64"
  consider "?u = 0" | "?u \<noteq> 0" "length data < 64 - ?u" | "?u \<noteq> 0" "64 - ?u \<le> length data" by linarith
  then show ?thesis
  proof cases
    case 1
    then show ?thesis using that [of "Some (data, sz)" ctx] assms by (simp add: fill_started_def)
  next
    case 2
    then have "?u + length data < 64" by linarith
    from absorb_pending [OF assms(1) this] obtain buf where
      "store (md_buffer ctx) ?u data = Inr buf" "md_state (ctx\<lparr>md_buffer := buf\<rparr>) (m @ data)" by blast
    then show ?thesis
      using that [of None "ctx\<lparr>md_buffer := buf\<rparr>"] assms 2 by (simp add: fill_started_def load_def)
  next
    case 3
    let ?f = "64 - ?u"
    have len: "?u + length (take ?f data) = 64" using 3 by simp
    obtain buf r where b: "store (md_buffer ctx) ?u (take ?f data) = Inr buf"
        "Transform (ctx\<lparr>md_buffer := buf\<rparr>) buf 64 = Inr ([], ctx\<lparr>md_buffer := buf, abcd := r\<rparr>)"
        "md_state (ctx\<lparr>md_buffer := buf, abcd := r\<rparr>) (m @ take ?f data)"
      using absorb_fill [OF assms(1) len] by blast
    have "unat (of_nat n :: 64 word) = n" if "n \<le> 64" for n
      using that by (simp add: unsigned_of_nat take_bit_eq_mod)
    then have f: "unat (of_nat ?f :: 64 word) = ?f" by (metis diff_le_self)
    moreover have "of_nat ?f \<le> sz" using 3 by (simp only: word_le_nat_alt f assms(2))
    ultimately have u: "unat (sz - of_nat ?f) = length (drop ?f data)"
      by (simp only: unat_sub assms(2) length_drop)
    have z: "length (m @ take ?f data) mod 64 = 0"
      using to_block_end(1) [OF len] by simp
    have p: "\<exists>p. data = p @ drop ?f data \<and> md_state (ctx\<lparr>md_buffer := buf, abcd := r\<rparr>) (m @ p) \<and>
        length (m @ p) mod 64 = 0"
      using b(3) z by (intro exI [of _ "take ?f data"]) simp
    have fs: "fill_started ctx ?u data sz =
        Inr (Some (drop ?f data, sz - of_nat ?f), ctx\<lparr>md_buffer := buf, abcd := r\<rparr>)"
      using 3 b(1,2) assms(2) by (simp add: fill_started_def load_def)
    show ?thesis by (rule that [OF fs]) (use u p in simp_all)
  qed
qed

lemma absorb_rest_ok:
  assumes "md_state ctx m" and "length m mod 64 = 0" and "unat sz = length data"
  obtains ctx' where "absorb_rest ctx data sz = Inr ctx'"
    and "md_lo ctx' = md_lo ctx" and "md_hi ctx' = md_hi ctx" and "md_state ctx' (m @ data)"
proof (cases "64 \<le> length data")
  case False
  obtain buf where "store (md_buffer ctx) 0 data = Inr buf" "md_state (ctx\<lparr>md_buffer := buf\<rparr>) (m @ data)"
    using absorb_pending [OF assms(1), of data] False assms(2) by auto
  then show ?thesis
    using that [of "ctx\<lparr>md_buffer := buf\<rparr>"] False assms(3)
    by (simp add: absorb_rest_def load_def word_le_nat_alt)
next
  case True
  let ?k = "length data div 64" and ?rest = "drop (64 * (length data div 64)) data"
  have k: "unat (sz AND NOT 0x3f) = 64 * ?k" by (simp only: and_not_low_6 assms(3))
  have kd: "0 < ?k" "64 * ?k \<le> length data" using True by (simp_all add: div_greater_zero_iff)
  from absorb_blocks [OF assms(1,2) kd(1) k kd(2)] obtain r where r:
      "Transform ctx data (sz AND NOT 0x3f) = Inr (?rest, ctx\<lparr>abcd := r\<rparr>)"
      "md_state (ctx\<lparr>abcd := r\<rparr>) (m @ take (64 * ?k) data)"
    by blast
  have len: "unat (sz AND 0x3f) = length ?rest" "length ?rest < 64"
    using assms(3) by (simp_all add: and_low_6 minus_mult_div_eq_mod)
  have "length (m @ take (64 * ?k) data) mod 64 = 0"
    using assms(2) by (simp add: min_absorb2 mod_add_left_eq [symmetric])
  then obtain buf where "store (md_buffer ctx) 0 ?rest = Inr buf"
      "md_state (ctx\<lparr>abcd := r, md_buffer := buf\<rparr>) (m @ data)"
    using absorb_pending [OF r(2), of ?rest] len(2) by auto
  then show ?thesis
    using that [of "ctx\<lparr>abcd := r, md_buffer := buf\<rparr>"] True assms(3) r(1) len(1)
    by (simp add: absorb_rest_def load_def word_le_nat_alt)
qed

lemma MD5Update_ok:
  assumes "md_state ctx m" and "md_count ctx (length m)" and "unat sz = length data"
  obtains ctx' where "MD5Update ctx data sz = Inr ctx'" and "md_state ctx' (m @ data)"
    and "md_count ctx' (length (m @ data))"
proof -
  define lo hi where "lo = (of_nat ((length m + length data) mod 2 ^ 29) :: 32 word)"
    and "hi = (of_nat ((length m + length data) div 2 ^ 29) :: 32 word)"
  let ?c = "ctx\<lparr>md_lo := lo, md_hi := hi\<rparr>"
  have l: "md_lo ctx = of_nat (length m mod 2 ^ 29)" "md_hi ctx = of_nat (length m div 2 ^ 29)"
    using assms(2) by (simp_all add: md_count_def)
  have lo: "ucast ((ucast (md_lo ctx) + sz) AND 0x1fffffff) = lo"
    using lo_update [OF l(1), of sz] by (simp only: assms(3) lo_def)
  have hi: "(if lo < md_lo ctx then md_hi ctx + 1 else md_hi ctx) + ucast (drop_bit 29 sz) = hi"
    using hi_update [OF l, of lo sz] by (simp only: assms(3) lo_def hi_def)
  have up: "MD5Update ctx data sz = rbind (fill_started ?c (length m mod 64) data sz)
      (\<lambda>(rest, ctx). case rest of None \<Rightarrow> Inr ctx | Some (data, sz) \<Rightarrow> absorb_rest ctx data sz)"
    using hi by (auto simp: MD5Update_def Let_def lo lo_used [OF l(1)])
  have c: "md_state ?c m" using assms(1) by (simp add: md_state_def)
  obtain rest c1 where f: "fill_started ?c (length m mod 64) data sz = Inr (rest, c1)"
      "md_lo c1 = md_lo ?c" "md_hi c1 = md_hi ?c" "rest = None \<Longrightarrow> md_state c1 (m @ data)"
      "\<And>d s. rest = Some (d, s) \<Longrightarrow> unat s = length d \<and>
        (\<exists>p. data = p @ d \<and> md_state c1 (m @ p) \<and> length (m @ p) mod 64 = 0)"
    using fill_started_ok [OF c assms(3)] by blast
  show ?thesis
  proof (cases rest)
    case None
    then show ?thesis using that up f by (simp add: md_count_def lo_def hi_def)
  next
    case (Some ds)
    then obtain d s p where *: "rest = Some (d, s)" "unat s = length d" "data = p @ d"
        "md_state c1 (m @ p)" "length (m @ p) mod 64 = 0"
      using f(5) by (metis surj_pair)
    obtain c2 where c2: "absorb_rest c1 d s = Inr c2" "md_lo c2 = md_lo c1" "md_hi c2 = md_hi c1"
        "md_state c2 ((m @ p) @ d)"
      using absorb_rest_ok [OF *(4,5,2)] by blast
    then have "md_state c2 (m @ data)" using *(3) by simp
    then show ?thesis using that up f(1-3) c2(1-3) *(1) by (simp add: md_count_def lo_def hi_def)
  qed
qed

section \<open>The length field and the padding\<close>

lemma tuck4_le_bytes: "tuck4 w = le_bytes w"
  by (simp add: tuck4_def le_bytes_def upt_rec [of 0 4] upt_rec [of "Suc 0" 4] upt_rec [of "Suc (Suc 0)" 4]
      upt_rec [of "Suc (Suc (Suc 0))" 4] upt_rec [of 4 4])

lemma le_bytes_64:
  "le_bytes (w :: 64 word) = le_bytes (ucast w :: 32 word) @ le_bytes (ucast (drop_bit 32 w) :: 32 word)"
proof (rule nth_equalityI)
  fix i assume "i < length (le_bytes w)"
  then have i: "i < 8" by simp
  show "le_bytes w ! i = (le_bytes (ucast w :: 32 word) @ le_bytes (ucast (drop_bit 32 w) :: 32 word)) ! i"
  proof (rule bit_eqI)
    fix n assume "possible_bit TYPE(8 word) n"
    then have n: "n < 8" by simp
    have "i < 4 \<or> (\<exists>j. i = j + 4)" by presburger
    then show "bit (le_bytes w ! i) n \<longleftrightarrow>
        bit ((le_bytes (ucast w :: 32 word) @ le_bytes (ucast (drop_bit 32 w) :: 32 word)) ! i) n"
      using i n by (auto simp: nth_append nth_le_bytes bit_simps algebra_simps)
  qed
qed simp

lemma low_bits_of_length: "(of_nat (8 * n) :: 32 word) = push_bit 3 (of_nat (n mod 2 ^ 29))"
proof -
  have "(of_nat (8 * (n mod 2 ^ 29)) :: 32 word) = of_nat (8 * n)"
    by (rule word_unat_eq_iff [THEN iffD2], simp only: unsigned_of_nat take_bit_eq_mod)
      (simp add: mult_mod_right)
  then show ?thesis by (simp add: push_bit_eq_mult mult.commute)
qed

lemma high_bits_of_length: "(ucast (drop_bit 32 (of_nat (8 * n) :: 64 word)) :: 32 word) = of_nat (n div 2 ^ 29)"
proof -
  have "unat (drop_bit 32 (of_nat (8 * n) :: 64 word)) = (8 * n mod 2 ^ 64) div 2 ^ 32"
  proof -
    have "unat (drop_bit 32 w) = unat w div 2 ^ 32" for w :: "64 word"
      by (simp add: drop_bit_eq_div unat_div)
    then show ?thesis by (simp only: unsigned_of_nat take_bit_eq_mod) simp
  qed
  also have "\<dots> = n div 2 ^ 29 mod 2 ^ 32"
    using mod_mult2_eq [of "8 * n" "2 ^ 32" "2 ^ 32"] by (simp add: div_mult2_eq [symmetric])
  finally have "unat (drop_bit 32 (of_nat (8 * n) :: 64 word)) = n div 2 ^ 29 mod 2 ^ 32" .
  then have "(ucast (drop_bit 32 (of_nat (8 * n) :: 64 word)) :: 32 word) = of_nat (n div 2 ^ 29 mod 2 ^ 32)"
    by (metis of_nat_unat)
  also have "\<dots> = of_nat (n div 2 ^ 29)"
    by (rule word_unat_eq_iff [THEN iffD2], simp only: unsigned_of_nat take_bit_eq_mod) simp
  finally show ?thesis .
qed

lemma length_field:
  assumes "md_count ctx n"
  shows "tuck4 (push_bit 3 (md_lo ctx)) @ tuck4 (md_hi ctx) = le_bytes (of_nat (8 * n) :: 64 word)"
proof -
  have "(ucast (of_nat k :: 64 word) :: 32 word) = of_nat k" for k
    by (rule bit_word_eqI) (simp add: bit_simps bit_of_nat_iff)
  then show ?thesis
    using assms
    by (simp only: md_count_def tuck4_le_bytes le_bytes_64 low_bits_of_length high_bits_of_length)
qed

lemma pad_short:
  assumes "u + 9 \<le> (64 :: nat)"
  shows "(119 - u) mod 64 = 64 - (u + 1) - 8"
proof -
  have "119 - u = 64 + (55 - u)" using assms by simp
  moreover have "(64 + (55 - u)) mod 64 = 55 - u" by (simp only: mod_add_self1) simp
  ultimately show ?thesis by (simp only:)
qed

lemma pad_long:
  assumes "\<not> u + 9 \<le> (64 :: nat)" and "u < 64"
  shows "(119 - u) mod 64 = (64 - (u + 1)) + 56"
  using assms by simp

lemma digest_of_state:
  assumes "md_state ctx (md5_pad m)"
  shows "(let (a, b, c, d) = abcd ctx in Inr (tuck4 a @ tuck4 b @ tuck4 c @ tuck4 d, zero_context)) =
    Inr (md5_reference m, zero_context)"
  using assms by (simp add: md_state_def md5_reference_def tuck4_le_bytes split: prod.splits)

lemma first_pad_byte:
  assumes "md_state ctx m"
  obtains b0 where "set_at (md_buffer ctx) (length m mod 64) 0x80 = Inr b0" and "length b0 = 64"
    and "\<And>zs. length m mod 64 + 1 + length zs \<le> 64 \<Longrightarrow>
      store b0 (length m mod 64 + 1) zs = store (md_buffer ctx) (length m mod 64) ([0x80] @ zs)"
proof -
  let ?u = "length m mod 64"
  have l: "length (md_buffer ctx) = 64" using assms by (simp add: md_state_def)
  then obtain b0 where b0: "set_at (md_buffer ctx) ?u 0x80 = Inr b0" "length b0 = 64"
    by (simp add: set_at_def)
  then have "store (md_buffer ctx) ?u [0x80] = Inr b0" by (simp add: set_at_store)
  from store_store [OF _ this] show ?thesis using that [OF b0] l by simp
qed

text \<open>The padding fits the started block, or it completes that block and takes one more.\<close>

lemma MD5Final_one_block:
  assumes "md_state ctx m" and "md_count ctx (length m)" and "length m mod 64 + 9 \<le> 64"
  shows "MD5Final ctx = Inr (md5_reference m, zero_context)"
proof -
  let ?u = "length m mod 64" and ?len = "le_bytes (of_nat (8 * length m) :: 64 word)"
  let ?z = "replicate (64 - (?u + 1) - 8) 0"
  have used: "unat (md_lo ctx AND 0x3f) = ?u" and free: "\<not> 64 - (?u + 1) < 8"
    using assms(2,3) by (simp_all add: md_count_def lo_used)
  obtain b0 where b0: "set_at (md_buffer ctx) ?u 0x80 = Inr b0" "length b0 = 64"
      "\<And>zs. ?u + 1 + length zs \<le> 64 \<Longrightarrow> store b0 (?u + 1) zs = store (md_buffer ctx) ?u ([0x80] @ zs)"
    using first_pad_byte [OF assms(1)] by blast
  have fill: "?u + length ([0x80] @ ?z @ ?len) = 64" using assms(3) by simp
  obtain b2 r where b2: "store (md_buffer ctx) ?u ([0x80] @ ?z @ ?len) = Inr b2"
      "Transform (ctx\<lparr>md_buffer := b2\<rparr>) b2 64 = Inr ([], ctx\<lparr>md_buffer := b2, abcd := r\<rparr>)"
      "md_state (ctx\<lparr>md_buffer := b2, abcd := r\<rparr>) (m @ [0x80] @ ?z @ ?len)"
    using absorb_fill [OF assms(1) fill] by blast
  obtain b1 where b1: "store b0 (?u + 1) ?z = Inr b1" using assms(3) b0(2) by (simp add: store_def)
  have "store b1 56 ?len = store b0 (?u + 1) (?z @ ?len)"
    using store_store [OF _ b1, of ?len] assms(3) b0(2) by simp
  also have "\<dots> = Inr b2" using b0(3) [of "?z @ ?len"] assms(3) b2(1) by simp
  finally have b2': "store b1 56 ?len = Inr b2" .
  have "md_state (ctx\<lparr>md_buffer := b2, abcd := r\<rparr>) (md5_pad m)"
    using b2(3) by (simp only: md5_pad_def pad_short [OF assms(3)])
  from digest_of_state [OF this] show ?thesis
    using free b0(1) b1 b2' b2(2)
    by (simp add: MD5Final_def used Let_def length_field [OF assms(2)] del: replicate_Suc)
qed

lemma MD5Final_two_blocks:
  assumes "md_state ctx m" and "md_count ctx (length m)" and "\<not> length m mod 64 + 9 \<le> 64"
  shows "MD5Final ctx = Inr (md5_reference m, zero_context)"
proof -
  let ?u = "length m mod 64" and ?len = "le_bytes (of_nat (8 * length m) :: 64 word)"
  let ?z = "replicate (64 - (?u + 1)) 0" and ?z' = "replicate 56 0"
  have u: "?u < 64" and used: "unat (md_lo ctx AND 0x3f) = ?u" and free: "64 - (?u + 1) < 8"
    using assms(2,3) by (simp_all add: md_count_def lo_used)
  obtain b0 where b0: "set_at (md_buffer ctx) ?u 0x80 = Inr b0" "length b0 = 64"
      "\<And>zs. ?u + 1 + length zs \<le> 64 \<Longrightarrow> store b0 (?u + 1) zs = store (md_buffer ctx) ?u ([0x80] @ zs)"
    using first_pad_byte [OF assms(1)] by blast
  have fill: "?u + length ([0x80] @ ?z) = 64" using u by simp
  obtain b1 r where b1: "store (md_buffer ctx) ?u ([0x80] @ ?z) = Inr b1"
      "Transform (ctx\<lparr>md_buffer := b1\<rparr>) b1 64 = Inr ([], ctx\<lparr>md_buffer := b1, abcd := r\<rparr>)"
      "md_state (ctx\<lparr>md_buffer := b1, abcd := r\<rparr>) (m @ [0x80] @ ?z)"
    using absorb_fill [OF assms(1) fill] by blast
  have z: "length (m @ [0x80] @ ?z) mod 64 = 0" using to_block_end(1) [OF fill] by simp
  have fill': "length (m @ [0x80] @ ?z) mod 64 + length (?z' @ ?len) = 64" using z by simp
  let ?c1 = "ctx\<lparr>md_buffer := b1, abcd := r\<rparr>"
  obtain b3 r' where b3: "store (md_buffer ?c1) 0 (?z' @ ?len) = Inr b3"
      "Transform (?c1\<lparr>md_buffer := b3\<rparr>) b3 64 = Inr ([], ?c1\<lparr>md_buffer := b3, abcd := r'\<rparr>)"
      "md_state (?c1\<lparr>md_buffer := b3, abcd := r'\<rparr>) ((m @ [0x80] @ ?z) @ ?z' @ ?len)"
    using absorb_fill [OF b1(3) fill', unfolded z] by blast
  have l1: "length b1 = 64" using length_store [OF b1(1)] assms(1) by (simp add: md_state_def)
  obtain b2 where b2: "store b1 0 ?z' = Inr b2" using l1 by (simp add: store_def)
  have b3': "store b2 56 ?len = Inr b3" using store_store [OF _ b2, of ?len] l1 b3(1) by simp
  have "md_state (?c1\<lparr>md_buffer := b3, abcd := r'\<rparr>) (md5_pad m)"
    using b3(3) by (simp only: md5_pad_def pad_long [OF assms(3) u] replicate_add append_assoc)
  from digest_of_state [OF this] show ?thesis
    using free b0(1) b1(2) b2 b3' b3(2) b0(3) [of ?z] b1(1) u
    by (simp add: MD5Final_def used Let_def length_field [OF assms(2)] del: replicate_Suc)
qed

lemma MD5Init_ok:
  "length (md_buffer ctx) = 64 \<Longrightarrow> md_state (MD5Init ctx) [] \<and> md_count (MD5Init ctx) 0"
  by (simp add: MD5Init_def md_state_def md_count_def compress_all_short)

lemma updates_ok:
  assumes "md_state ctx m" and "md_count ctx (length m)" and "\<forall>p \<in> set parts. length p < 2 ^ 64"
  obtains ctx' where "rfold (\<lambda>ctx p. MD5Update ctx p (of_nat (length p))) parts ctx = Inr ctx'"
    and "md_state ctx' (m @ concat parts)" and "md_count ctx' (length (m @ concat parts))"
  using assms
proof (induction parts arbitrary: ctx m thesis)
  case (Cons p parts)
  have "unat (of_nat (length p) :: 64 word) = length p"
    using Cons.prems(4) by (simp add: unsigned_of_nat take_bit_nat_eq_self)
  then obtain c1 where c1: "MD5Update ctx p (of_nat (length p)) = Inr c1" "md_state c1 (m @ p)"
      "md_count c1 (length (m @ p))"
    using MD5Update_ok [OF Cons.prems(2,3)] by blast
  obtain c2 where "rfold (\<lambda>ctx p. MD5Update ctx p (of_nat (length p))) parts c1 = Inr c2"
      "md_state c2 ((m @ p) @ concat parts)" "md_count c2 (length ((m @ p) @ concat parts))"
    using Cons.IH [OF _ c1(2,3)] Cons.prems(4) by auto
  then show ?case using Cons.prems(1) c1(1) by simp
qed simp

lemma md5_updates_final:
  assumes "length (md_buffer ctx) = 64" and "\<forall>p \<in> set parts. length p < 2 ^ 64"
  shows "rbind (rfold (\<lambda>ctx p. MD5Update ctx p (of_nat (length p))) parts (MD5Init ctx)) MD5Final =
    Inr (md5_reference (concat parts), zero_context)"
proof -
  from MD5Init_ok [OF assms(1)] have init: "md_state (MD5Init ctx) []" "md_count (MD5Init ctx) (length ([] :: byte list))"
    by simp_all
  obtain c where c: "rfold (\<lambda>ctx p. MD5Update ctx p (of_nat (length p))) parts (MD5Init ctx) = Inr c"
      "md_state c ([] @ concat parts)" "md_count c (length ([] @ concat parts))"
    using updates_ok [OF init assms(2)] by blast
  then have "MD5Final c = Inr (md5_reference (concat parts), zero_context)"
    using MD5Final_one_block [of c "concat parts"] MD5Final_two_blocks [of c "concat parts"] by auto
  with c(1) show ?thesis by simp
qed

text \<open>The optimised boolean functions are those of RFC 1321, and the table follows its schedule.\<close>

lemma md_F_rfc: "md_F x y z = (x AND y) OR (NOT x AND z)"
  by (rule bit_word_eqI) (auto simp: md_F_def bit_simps)

lemma md_G_rfc: "md_G x y z = (x AND z) OR (y AND NOT z)"
  by (rule bit_word_eqI) (auto simp: md_G_def bit_simps)

lemma table_schedule:
  "map (\<lambda>(f, n, t, s). (n, s)) steps_table =
     map (\<lambda>i. (i, [7, 12, 17, 22] ! (i mod 4))) [0..<16] @
     map (\<lambda>i. ((5 * i + 1) mod 16, [5, 9, 14, 20] ! (i mod 4))) [0..<16] @
     map (\<lambda>i. ((3 * i + 5) mod 16, [4, 11, 16, 23] ! (i mod 4))) [0..<16] @
     map (\<lambda>i. (7 * i mod 16, [6, 10, 15, 21] ! (i mod 4))) [0..<16]"
  by (simp add: steps_table_def upt_rec)

section \<open>Properties\<close>

text \<open>
  Property C19. Streaming: initialising any context and feeding a message to \<open>MD5Update\<close> in pieces of any
  sizes, then \<open>MD5Final\<close>, never leaves the 64-byte buffer or the data and gives the digest of RFC 1321
  of the whole message: padding, length in bits, compression block by block. Any two partitions of
  a message agree; the context is erased, and \<open>MD5Sum\<close> is the case of one piece.
\<close>

theorem md5_streaming:
  assumes "length (md_buffer garbage) = 64" and "\<forall>p \<in> set parts. length p < 2 ^ 64"
    and "concat parts = msg" and "length msg < 2 ^ 64"
  shows "rbind (rfold (\<lambda>ctx p. MD5Update ctx p (of_nat (length p))) parts (MD5Init garbage)) MD5Final =
      Inr (md5_reference msg, zero_context) \<and>
    MD5Sum garbage msg = Inr (md5_reference msg)"
proof
  show "rbind (rfold (\<lambda>ctx p. MD5Update ctx p (of_nat (length p))) parts (MD5Init garbage)) MD5Final =
      Inr (md5_reference msg, zero_context)"
    using md5_updates_final [OF assms(1,2)] assms(3) by simp
  have "rfold (\<lambda>ctx p. MD5Update ctx p (of_nat (length p))) [msg] c =
      MD5Update c msg (of_nat (length msg))" for c
    by (cases "MD5Update c msg (of_nat (length msg))") simp_all
  then show "MD5Sum garbage msg = Inr (md5_reference msg)"
    using md5_updates_final [OF assms(1), of "[msg]"] assms(4) by (auto simp: MD5Sum_def rbind_Inr_iff)
qed

theorem md5_streaming_witness:
  "rbind (rfold (\<lambda>ctx p. MD5Update ctx p (of_nat (length p))) [[97, 98], [], [99]] (MD5Init zero_context)) MD5Final =
    Inr (md5_reference [97, 98, 99], zero_context) \<and>
   MD5Sum zero_context [97, 98, 99] = Inr (md5_reference [97, 98, 99])"
proof -
  have "length (md_buffer zero_context) = 64" by (simp add: zero_context_def)
  from md5_streaming [OF this, of "[[97, 98], [], [99]]" "[97, 98, 99]"] show ?thesis by simp
qed

text \<open>
  Fact. The test vectors of RFC 1321 for the empty message and for \<open>abc\<close>, through the whole of
  \<open>MD5String\<close>.
\<close>

theorem md5_rfc_vectors:
  "MD5String zero_context [] = Inr ''d41d8cd98f00b204e9800998ecf8427e'' \<and>
   MD5String zero_context [0x61, 0x62, 0x63] = Inr ''900150983cd24fb0d6963f7d28e17f72''"
  by code_simp

end
