(* ===== verification/UUID.thy ===== *)
theory UUID
  imports MD5 Hex
begin

text \<open>
  The UUID generators (\<open>src/uuid/uuid/uuid.h\<close>, \<open>uuid.cpp\<close>, \<open>mac_address.cpp\<close>) on top of the MD5 of
  the same library. The system clock, the random engine and the list of network interfaces are
  arguments. The theory shows that time-based UUIDs of one node never repeat, that every generator
  sets version and variant, that name-based UUIDs are the digest of RFC 4122 on machines of either
  byte order, and that the textual form is read back.
\<close>

section \<open>Byte order\<close>

text \<open>
  \<open>endian_utils.h\<close> of this library has two branches: \<open>htobe\<close>/\<open>betoh\<close> on Linux, and an unconditional
  byte swap on Windows, where every host is little-endian.
\<close>

datatype platform = Linux endianness | Windows

fun byte_order :: "platform \<Rightarrow> endianness" where
  "byte_order (Linux e) = e"
| "byte_order Windows = Little_endian"

fun uuid_HostToNetwork :: "platform \<Rightarrow> 'a::len word \<Rightarrow> 'a word" where
  "uuid_HostToNetwork (Linux e) n = (case e of Little_endian \<Rightarrow> bswap n | Big_endian \<Rightarrow> n)"
| "uuid_HostToNetwork Windows n = bswap n"

fun uuid_NetworkToHost :: "platform \<Rightarrow> 'a::len word \<Rightarrow> 'a word" where
  "uuid_NetworkToHost (Linux e) n = (case e of Little_endian \<Rightarrow> bswap n | Big_endian \<Rightarrow> n)"
| "uuid_NetworkToHost Windows n = bswap n"

section \<open>Node identifier\<close>

text \<open>An entry of \<open>getifaddrs\<close>: the address family (\<open>None\<close> for a null address), the loopback flag
  and the hardware address with its length.\<close>

record ifaddr =
  sa_family :: "nat option"
  loopback :: bool
  sll_halen :: nat
  sll_addr :: "byte list"

definition AF_PACKET :: nat where
  "AF_PACKET = 17"

fun first_adapter :: "ifaddr list \<Rightarrow> byte list option res" where
  "first_adapter [] = Inr None"
| "first_adapter (a # rest) =
     (if sa_family a = None \<or> sa_family a \<noteq> Some AF_PACKET \<or> loopback a then first_adapter rest
      else if 6 \<le> sll_halen a then rbind (load (sll_addr a) 0 6) (\<lambda>nid. Inr (Some nid))
      else first_adapter rest)"

definition load_adapter_address :: "ifaddr list option \<Rightarrow> byte list option res" where
  "load_adapter_address addrs = (case addrs of None \<Rightarrow> Inr None | Some as \<Rightarrow> first_adapter as)"

text \<open>The constructor of \<open>node_id_reader\<close>; \<open>value\<close> is what the random generator would return.\<close>

definition node_id_reader_new :: "platform \<Rightarrow> ifaddr list option \<Rightarrow> 64 word \<Rightarrow> byte list res" where
  "node_id_reader_new p addrs val =
     rbind (load_adapter_address addrs) (\<lambda>r. case r of
       Some nid \<Rightarrow> Inr nid
     | None \<Rightarrow> let nid = take 6 (obj_bytes (byte_order p) val) in Inr (nid[0 := (nid ! 0) OR 0x01]))"

section \<open>Clock sequence\<close>

record clock_sequence =
  last_time :: "64 word"
  seq :: "16 word"

definition k_epoch_diff :: "64 word" where
  "k_epoch_diff = 122192928000000000"

text \<open>\<open>unix_time\<close> counts 100 ns intervals since the Unix epoch.\<close>

definition get_timestamp_since_epoch :: "64 word \<Rightarrow> 64 word" where
  "get_timestamp_since_epoch unix_time = k_epoch_diff + unix_time"

definition clock_sequence_new :: "16 word \<Rightarrow> clock_sequence" where
  "clock_sequence_new rand = \<lparr>last_time = 0, seq = rand\<rparr>"

definition clock_read :: "64 word \<Rightarrow> clock_sequence \<Rightarrow> (64 word \<times> 16 word) \<times> clock_sequence" where
  "clock_read unix_time c =
     (let now = get_timestamp_since_epoch unix_time;
          c = (if now \<le> last_time c then c\<lparr>seq := seq c + 1\<rparr> else c);
          c = c\<lparr>last_time := now\<rparr>
      in ((last_time c, seq c), c))"

section \<open>The generators\<close>

record uuid =
  data0 :: "64 word"
  data1 :: "64 word"

datatype uuid_version = v1 | v2 | v3 | v4 | v5

fun version_number :: "uuid_version \<Rightarrow> 64 word" where
  "version_number v1 = 1" | "version_number v2 = 2" | "version_number v3 = 3"
| "version_number v4 = 4" | "version_number v5 = 5"

datatype local_domain = person | group | org

fun domain_number :: "local_domain \<Rightarrow> 64 word" where
  "domain_number person = 0" | "domain_number group = 1" | "domain_number org = 2"

definition set_version :: "uuid_version \<Rightarrow> uuid \<Rightarrow> uuid" where
  "set_version ver u =
     (let u = u\<lparr>data0 := data0 u AND 0xffffffffffff0fff\<rparr>
      in u\<lparr>data0 := data0 u OR push_bit 12 (version_number ver)\<rparr>)"

definition set_variant :: "uuid \<Rightarrow> uuid" where
  "set_variant u =
     (let u = u\<lparr>data1 := data1 u AND 0x3fffffffffffffff\<rparr>
      in u\<lparr>data1 := data1 u OR 0x8000000000000000\<rparr>)"

text \<open>The part of \<open>make_v1\<close> after the clock is read; \<open>nid\<close> is what the fetcher stores.\<close>

definition v1_from :: "platform \<Rightarrow> byte list \<Rightarrow> 64 word \<Rightarrow> 16 word \<Rightarrow> uuid" where
  "v1_from p nid time sq =
     (let d0 = push_bit 32 time;
          d0 = d0 OR drop_bit 16 (time AND 0x0000ffff00000000);
          d0 = d0 OR drop_bit 48 time;
          d1 = push_bit 48 (ucast (sq AND 0xff00)) :: 64 word;
          d1 = d1 OR push_bit 48 (ucast (sq AND 0xff));
          bytes = obj_bytes (byte_order p) d1;
          d1 = obj_word (byte_order p) (rev nid @ drop (length nid) bytes)
      in set_version v1 (set_variant \<lparr>data0 = d0, data1 = d1\<rparr>))"

definition make_v1 :: "platform \<Rightarrow> byte list \<Rightarrow> 64 word \<Rightarrow> clock_sequence \<Rightarrow> uuid \<times> clock_sequence" where
  "make_v1 p nid unix_time c =
     (let ((time, sq), c) = clock_read unix_time c in (v1_from p nid time sq, c))"

definition make_v2 ::
    "platform \<Rightarrow> byte list \<Rightarrow> local_domain \<Rightarrow> 32 word \<Rightarrow> 64 word \<Rightarrow> clock_sequence \<Rightarrow> uuid \<times> clock_sequence" where
  "make_v2 p node domain lid unix_time c =
     (let (u, c) = make_v1 p node unix_time c;
          u = u\<lparr>data1 := data1 u AND 0xff00ffffffffffff\<rparr>;
          u = u\<lparr>data1 := data1 u OR push_bit 48 (domain_number domain)\<rparr>;
          u = u\<lparr>data0 := data0 u AND 0x00000000ffffffff\<rparr>;
          u = u\<lparr>data0 := data0 u OR push_bit 32 (ucast lid)\<rparr>
      in (set_version v2 u, c))"

definition make_v3 :: "platform \<Rightarrow> MD5Context \<Rightarrow> uuid \<Rightarrow> byte list \<Rightarrow> uuid res" where
  "make_v3 p garbage ns name =
     (let part1 = uuid_HostToNetwork p (data0 ns); part2 = uuid_HostToNetwork p (data1 ns) in
      rbind (MD5Update (MD5Init garbage) (obj_bytes (byte_order p) part1) 8) (\<lambda>ctx.
      rbind (MD5Update ctx (obj_bytes (byte_order p) part2) 8) (\<lambda>ctx.
      rbind (MD5Update ctx name (of_nat (length name))) (\<lambda>ctx.
      rbind (MD5Final ctx) (\<lambda>(digest, ctx).
      let u = \<lparr>data0 = obj_word (byte_order p) (take 8 digest),
               data1 = obj_word (byte_order p) (take 8 (drop 8 digest))\<rparr>;
          u = u\<lparr>data0 := uuid_NetworkToHost p (data0 u)\<rparr>;
          u = u\<lparr>data1 := uuid_NetworkToHost p (data1 u)\<rparr>
      in Inr (set_version v3 (set_variant u)))))))"

text \<open>\<open>generator\<close> is the random generator as a state transformer.\<close>

definition make_v4 :: "('g \<Rightarrow> 64 word \<times> 'g) \<Rightarrow> 'g \<Rightarrow> uuid \<times> 'g" where
  "make_v4 generator g =
     (let (d0, g) = generator g; (d1, g) = generator g
      in (set_version v4 (set_variant \<lparr>data0 = d0, data1 = d1\<rparr>), g))"

section \<open>Text\<close>

definition k_canonical_len :: nat where
  "k_canonical_len = 36"

text \<open>\<open>snprintf\<close> keeps one character less than its buffer for the terminator; the buffer was zeroed.\<close>

definition uuid_string :: "uuid \<Rightarrow> string" where
  "uuid_string u =
     (let txt = pad_hex 8 (unat (drop_bit 32 (data0 u))) @ ''-'' @
                pad_hex 4 (unat (drop_bit 16 (data0 u) AND 0xffff)) @ ''-'' @
                pad_hex 4 (unat (data0 u AND 0xffff)) @ ''-'' @
                pad_hex 4 (unat (drop_bit 48 (data1 u))) @ ''-'' @
                pad_hex 12 (unat (data1 u AND 0xffffffffffff))
      in resize CHR 0x00 (take k_canonical_len txt) k_canonical_len)"

text \<open>
  \<open>std::stoull(part, nullptr, 16)\<close>: white space, a sign and a \<open>0x\<close> prefix are skipped, the rest of the
  string after the digits is ignored.
\<close>

definition is_space :: "char \<Rightarrow> bool" where
  "is_space c \<longleftrightarrow> c = CHR '' '' \<or> (9 \<le> (of_char c :: nat) \<and> (of_char c :: nat) \<le> 13)"

fun skip_sign :: "string \<Rightarrow> bool \<times> string" where
  "skip_sign (c # s) =
     (if c = CHR ''-'' then (True, s) else if c = CHR ''+'' then (False, s) else (False, c # s))"
| "skip_sign [] = (False, [])"

fun skip_prefix :: "string \<Rightarrow> string" where
  "skip_prefix (a # b # c # s) =
     (if a = CHR ''0'' \<and> (b = CHR ''x'' \<or> b = CHR ''X'') \<and> hex_val c \<noteq> None then c # s
      else a # b # c # s)"
| "skip_prefix s = s"

definition stoull :: "string \<Rightarrow> 64 word res" where
  "stoull s =
     (let (neg, s) = skip_sign (dropWhile is_space s);
          digits = takeWhile (\<lambda>c. hex_val c \<noteq> None) (skip_prefix s)
      in if digits = [] then Inl (Thrown ''stoull'')
         else let n = hex_value digits in
           if 2 ^ 64 \<le> n then Inl (Thrown ''stoull: out of range'')
           else Inr (if neg then - of_nat n else of_nat n))"

text \<open>The loop of \<open>make_from\<close> over the parts between dashes.\<close>

fun until_dash :: "string \<Rightarrow> string \<times> string option" where
  "until_dash [] = ([], None)"
| "until_dash (c # s) =
     (if c = CHR ''-'' then ([], Some s) else let (part, rest) = until_dash s in (c # part, rest))"

lemma until_dash_shorter: "until_dash s = (part, Some rest) \<Longrightarrow> length rest < length s"
  by (induction s arbitrary: part) (auto split: if_splits prod.splits)

function parse_parts :: "string \<Rightarrow> 64 word list res" where
  "parse_parts s =
     (let (part, rest) = until_dash s in
      rbind (stoull part) (\<lambda>n. case rest of
        None \<Rightarrow> Inr [n]
      | Some s' \<Rightarrow> rbind (parse_parts s') (\<lambda>ns. Inr (n # ns))))"
  by pat_completeness auto
termination
  by (relation "measure length") (metis in_measure until_dash_shorter wf_measure)+

declare parse_parts.simps [simp del]

definition make_from :: "string \<Rightarrow> uuid res" where
  "make_from src =
     rbind (parse_parts src) (\<lambda>parts.
     rbind (guard (length parts = 5) Assert_failed) (\<lambda>_.
     let d0 = push_bit 32 (parts ! 0); d0 = d0 OR push_bit 16 (parts ! 1); d0 = d0 OR parts ! 2;
         d1 = push_bit 48 (parts ! 3); d1 = d1 OR parts ! 4
     in Inr \<lparr>data0 = d0, data1 = d1\<rparr>))"

section \<open>Version and variant\<close>

lemma data1_set_version [simp]: "data1 (set_version v u) = data1 u"
  by (simp add: set_version_def Let_def)

lemma data0_set_variant [simp]: "data0 (set_variant u) = data0 u"
  by (simp add: set_variant_def Let_def)

lemma not_version_mask: "(0xffffffffffff0fff :: 64 word) = NOT (push_bit 12 (mask 4))"
  by (simp add: mask_eq_exp_minus_1 push_bit_eq_mult)

lemma bit_below: "unat w < 2 ^ k \<Longrightarrow> bit (w :: 'a::len word) n \<Longrightarrow> n < k"
proof -
  assume w: "unat w < 2 ^ k" and b: "bit w n"
  have "take_bit k (unat w) = unat w" using w by (rule take_bit_nat_eq_self)
  moreover have "bit (unat w) n" using b by (simp add: bit_unsigned_iff)
  ultimately show "n < k" by (metis bit_take_bit_iff)
qed

lemma bit_version_number: "bit (version_number v) n \<Longrightarrow> n < 4"
  by (rule bit_below [of "version_number v"]) (cases v; simp)

lemma bit_set_version:
  "bit (data0 (set_version v u)) n \<longleftrightarrow>
     (if 12 \<le> n \<and> n < 16 then bit (version_number v) (n - 12) else bit (data0 u) n)"
  using bit_version_number [of v "n - 12"] bit_imp_le_length [of "data0 u" n]
  unfolding set_version_def Let_def not_version_mask
  by (auto simp: bit_simps)

lemma bit_set_variant:
  "bit (data1 (set_variant u)) n \<longleftrightarrow> (if n < 62 then bit (data1 u) n else n = 63)"
proof -
  have m: "(0x3fffffffffffffff :: 64 word) = mask 62" "(0x8000000000000000 :: 64 word) = push_bit 63 1"
    by (simp_all add: mask_eq_exp_minus_1 push_bit_eq_mult)
  have "bit (0x8000000000000000 :: 64 word) n \<longleftrightarrow> n = 63"
    unfolding m(2) bit_push_bit_iff by (auto simp: bit_1_iff)
  then show ?thesis
    unfolding set_variant_def Let_def m(1) by (auto simp: bit_simps)
qed

definition has_version :: "uuid_version \<Rightarrow> uuid \<Rightarrow> bool" where
  "has_version v u \<longleftrightarrow> drop_bit 12 (data0 u) AND 0xf = version_number v"

definition has_rfc_variant :: "uuid \<Rightarrow> bool" where
  "has_rfc_variant u \<longleftrightarrow> drop_bit 62 (data1 u) = 2"

lemma has_version_set [simp]: "has_version v (set_version v u)"
proof -
  have m: "(0xf :: 64 word) = mask 4" by (simp add: mask_eq_exp_minus_1)
  show ?thesis
    unfolding has_version_def m
  proof (rule bit_word_eqI)
    fix n
    show "bit (drop_bit 12 (data0 (set_version v u)) AND mask 4) n \<longleftrightarrow> bit (version_number v) n"
      using bit_version_number [of v n]
      by (auto simp: bit_simps bit_set_version)
  qed
qed

lemma has_rfc_variant_set [simp]: "has_rfc_variant (set_version v (set_variant u))"
proof -
  have m: "(2 :: 64 word) = push_bit 1 1" by simp
  show ?thesis
    unfolding has_rfc_variant_def m
    by (rule bit_word_eqI) (auto simp: bit_simps bit_set_variant bit_1_iff)
qed

section \<open>Time-based UUIDs\<close>

text \<open>The fields of RFC 4122 section 4.1.2 read from the two halves.\<close>

definition v1_time :: "uuid \<Rightarrow> 64 word" where
  "v1_time u = drop_bit 32 (data0 u) OR push_bit 32 (drop_bit 16 (data0 u) AND mask 16) OR
     push_bit 48 (data0 u AND mask 12)"

definition v1_seq :: "uuid \<Rightarrow> 64 word" where
  "v1_seq u = drop_bit 48 (data1 u) AND mask 14"

definition v1_node :: "uuid \<Rightarrow> byte list" where
  "v1_node u = drop 2 (be_bytes (data1 u))"

lemma data0_v1:
  "data0 (v1_from p nid t sq) = data0 (set_version v1 \<lparr>data0 =
     push_bit 32 t OR drop_bit 16 (t AND push_bit 32 (mask 16)) OR drop_bit 48 t, data1 = 0\<rparr>)"
proof -
  have "(0x0000ffff00000000 :: 64 word) = push_bit 32 (mask 16)"
    by (simp add: mask_eq_exp_minus_1 push_bit_eq_mult)
  then show ?thesis by (simp add: v1_from_def Let_def set_version_def or.assoc)
qed

lemma bit_data0_v1:
  "bit (data0 (v1_from p nid t sq)) n \<longleftrightarrow>
     (if 12 \<le> n \<and> n < 16 then n = 12
      else if 32 \<le> n then n < 64 \<and> bit t (n - 32)
      else if 16 \<le> n then bit t (n + 16) else bit t (n + 48))"
proof -
  have "bit (version_number v1) (n - 12) \<longleftrightarrow> n \<le> 12" by (simp add: bit_1_iff)
  then show ?thesis
    unfolding data0_v1 bit_set_version using bit_imp_le_length [of t "n + 16"] bit_imp_le_length [of t "n + 48"]
    by (auto simp: bit_simps add.commute)
qed

lemma v1_time_from:
  assumes "unat t < 2 ^ 60"
  shows "v1_time (v1_from p nid t sq) = t"
proof (rule bit_word_eqI)
  fix n assume n: "n < LENGTH(64)"
  have hi: "k + 48 < 60" if "bit t (k + 48)" for k using bit_below [OF assms that] .
  have "n < 32 \<or> (\<exists>m. n = m + 32 \<and> m < 16) \<or> (\<exists>m. n = m + 48 \<and> m < 16)"
    using n by simp presburger
  then show "bit (v1_time (v1_from p nid t sq)) n \<longleftrightarrow> bit t n"
    using n by (auto simp: v1_time_def bit_data0_v1 bit_simps algebra_simps dest: hi)
qed

lemma bit_node_store:
  assumes "length nid = 6"
  shows "bit (le_word (rev nid @ drop 6 (le_bytes d)) :: 64 word) n \<longleftrightarrow>
    (if n < 48 then bit (rev nid ! (n div 8)) (n mod 8) else bit (d :: 64 word) n)"
proof (cases "n < 64")
  case True
  have e: "8 * (n div 8) + n mod 8 = n" by simp
  have "n div 8 < 6 \<longleftrightarrow> n < 48" "n div 8 < 8" using True by auto
  then show ?thesis
    using assms True e by (auto simp: bit_le_word nth_append nth_le_bytes bit_simps)
next
  case False
  then show ?thesis using bit_imp_le_length [of d n] by (auto simp: bit_le_word)
qed

lemma data1_v1:
  assumes "byte_order p = Little_endian" and "length nid = 6"
  shows "bit (data1 (v1_from p nid t sq)) n \<longleftrightarrow>
    (if n < 48 then bit (rev nid ! (n div 8)) (n mod 8)
     else if n < 62 then bit sq (n - 48) else n = 63)"
proof -
  let ?d = "push_bit 48 (ucast (sq AND 0xff00)) OR push_bit 48 (ucast (sq AND 0xff)) :: 64 word"
  have m: "(0xff00 :: 16 word) = NOT (mask 8)" "(0xff :: 16 word) = mask 8"
    by (simp_all add: mask_eq_exp_minus_1)
  have d: "bit ?d n \<longleftrightarrow> 48 \<le> n \<and> n < 64 \<and> bit sq (n - 48)" for n
    unfolding m using bit_imp_le_length [of sq "n - 48"] by (auto simp: bit_simps)
  have e: "data1 (v1_from p nid t sq) =
      data1 (set_variant \<lparr>data0 = 0, data1 = le_word (rev nid @ drop 6 (le_bytes ?d))\<rparr>)"
    using assms by (simp add: v1_from_def Let_def obj_bytes_def obj_word_def set_variant_def)
  show ?thesis unfolding e bit_set_variant uuid.simps bit_node_store [OF assms(2)] d by auto
qed

lemma v1_seq_from:
  assumes "byte_order p = Little_endian" and "length nid = 6"
  shows "v1_seq (v1_from p nid t sq) = ucast sq AND mask 14"
  by (rule bit_word_eqI) (auto simp: v1_seq_def bit_simps data1_v1 [OF assms])

lemma v1_node_from:
  assumes "byte_order p = Little_endian" and "length nid = 6"
  shows "v1_node (v1_from p nid t sq) = nid"
proof -
  have "take 6 (le_bytes (data1 (v1_from p nid t sq))) = rev nid"
  proof (rule nth_equalityI)
    fix i assume "i < length (take 6 (le_bytes (data1 (v1_from p nid t sq))))"
    then have i: "i < 6" by simp
    then have "8 * i + k < 48" "(8 * i + k) div 8 = i" "(8 * i + k) mod 8 = k" if "k < 8" for k
      using that by auto
    then have "bit (le_bytes (data1 (v1_from p nid t sq)) ! i) k \<longleftrightarrow> bit (rev nid ! i) k" if "k < 8" for k
      using i that by (simp add: nth_le_bytes bit_simps data1_v1 [OF assms])
    then show "take 6 (le_bytes (data1 (v1_from p nid t sq))) ! i = rev nid ! i"
      using i by (auto intro: bit_word_eqI)
  qed (use assms in simp)
  then show ?thesis by (simp add: v1_node_def be_bytes_def drop_rev)
qed

text \<open>The clock: as long as no read increments the sequence, the timestamps grow.\<close>

fun clock_reads :: "64 word list \<Rightarrow> clock_sequence \<Rightarrow> (64 word \<times> 16 word) list" where
  "clock_reads [] c = []"
| "clock_reads (t # ts) c = (let (r, c) = clock_read t c in r # clock_reads ts c)"

fun v1_run :: "platform \<Rightarrow> byte list \<Rightarrow> 64 word list \<Rightarrow> clock_sequence \<Rightarrow> uuid list" where
  "v1_run p nid [] c = []"
| "v1_run p nid (t # ts) c = (let (u, c) = make_v1 p nid t c in u # v1_run p nid ts c)"

lemma v1_run_reads: "v1_run p nid ts c = map (\<lambda>(t, s). v1_from p nid t s) (clock_reads ts c)"
  by (induction ts arbitrary: c) (auto simp: make_v1_def split: prod.splits)

lemma reads_progress:
  assumes "(t, s) \<in> set (clock_reads ts c)"
  shows "\<exists>k \<le> length ts. s = seq c + of_nat k \<and> (k = 0 \<longrightarrow> last_time c < t)"
  using assms
proof (induction ts arbitrary: c)
  case (Cons u ts)
  obtain r c1 where r: "clock_read u c = (r, c1)" by fastforce
  let ?now = "get_timestamp_since_epoch u"
  obtain j where j: "j \<le> 1" "seq c1 = seq c + of_nat j" "j = 0 \<longrightarrow> last_time c < ?now"
      "last_time c1 = ?now" "r = (?now, seq c1)"
    using r that [of 0] that [of 1] by (cases "?now \<le> last_time c") (auto simp: clock_read_def Let_def)
  show ?case
  proof (cases "(t, s) = r")
    case True
    then show ?thesis using j by (intro exI [of _ j]) auto
  next
    case False
    then have "(t, s) \<in> set (clock_reads ts c1)" using Cons.prems r by simp
    then obtain k where "k \<le> length ts" "s = seq c1 + of_nat k" "k = 0 \<longrightarrow> last_time c1 < t"
      using Cons.IH by blast
    then show ?thesis using j by (intro exI [of _ "j + k"]) auto
  qed
qed simp

lemma sequence_differs:
  assumes "0 < k" and "k < 2 ^ 14"
  shows "(ucast (s + of_nat k :: 16 word) :: 64 word) AND mask 14 \<noteq> ucast s AND mask 14"
proof
  assume "(ucast (s + of_nat k :: 16 word) :: 64 word) AND mask 14 = ucast s AND mask 14"
  then have "unat (take_bit 14 (ucast (s + of_nat k :: 16 word) :: 64 word)) = unat (take_bit 14 (ucast s :: 64 word))"
    by (simp only: take_bit_eq_mask)
  moreover have "unat s mod 2 ^ 64 = unat s" using unsigned_less [of s, where 'a = nat] by simp
  ultimately have "(unat s + k) mod 2 ^ 16 mod 2 ^ 14 = unat s mod 2 ^ 14"
    using assms by (simp add: unsigned_take_bit_eq take_bit_eq_mod unsigned_ucast_eq unat_word_ariths unsigned_of_nat mod_simps mod_mod_cancel)
  then have "(unat s + k) mod 2 ^ 14 = (unat s + 0) mod 2 ^ 14" by (simp add: mod_mod_cancel)
  then have "2 ^ 14 dvd k" by (metis mod_eq_dvd_iff_nat le_add1 add_diff_cancel_left' add.right_neutral)
  with assms show False by (auto dest: dvd_imp_le)
qed

lemma reads_are_timestamps: "(t, s) \<in> set (clock_reads ts c) \<Longrightarrow> \<exists>u \<in> set ts. t = get_timestamp_since_epoch u"
  by (induction ts arbitrary: c) (auto simp: clock_read_def Let_def)

lemma v1_distinct:
  assumes "byte_order p = Little_endian" and "length nid = 6" and "length ts \<le> 2 ^ 14"
    and "\<forall>u \<in> set ts. unat (get_timestamp_since_epoch u) < 2 ^ 60"
  shows "distinct (v1_run p nid ts c)"
  using assms(3,4)
proof (induction ts arbitrary: c)
  case (Cons u ts)
  let ?now = "get_timestamp_since_epoch u"
  define c1 where "c1 = snd (clock_read u c)"
  have c1: "clock_read u c = ((?now, seq c1), c1)" "last_time c1 = ?now"
    by (simp_all add: c1_def clock_read_def Let_def)
  have "v1_from p nid ?now (seq c1) \<noteq> v1_from p nid t s" if ts: "(t, s) \<in> set (clock_reads ts c1)" for t s
  proof
    assume eq: "v1_from p nid ?now (seq c1) = v1_from p nid t s"
    have "unat ?now < 2 ^ 60" "unat t < 2 ^ 60"
      using Cons.prems(2) reads_are_timestamps [OF ts] by auto
    then have t: "t = ?now" using eq v1_time_from by metis
    obtain k where k: "k \<le> length ts" "s = seq c1 + of_nat k" "k = 0 \<longrightarrow> last_time c1 < t"
      using reads_progress [OF ts] by blast
    then have "0 < k" "k < 2 ^ 14" using t c1(2) Cons.prems(1) by auto
    from sequence_differs [OF this, of "seq c1"] show False
      using eq k(2) v1_seq_from [OF assms(1,2)] by metis
  qed
  moreover have "v1_run p nid (u # ts) c = v1_from p nid ?now (seq c1) # v1_run p nid ts c1"
    using c1(1) by (simp add: make_v1_def)
  ultimately show ?case
    using Cons.IH [of c1] Cons.prems by (auto simp: v1_run_reads)
qed simp

section \<open>The textual form\<close>

lemma hex_not_special:
  "hex_val c \<noteq> None \<Longrightarrow> \<not> is_space c \<and> c \<noteq> CHR ''-'' \<and> c \<noteq> CHR ''+'' \<and> c \<noteq> CHR ''x'' \<and> c \<noteq> CHR ''X''"
  by (auto simp: hex_val_def is_space_def Let_def split: if_splits)

lemma skip_prefix_hex: "is_hex s \<Longrightarrow> skip_prefix s = s"
  by (cases s rule: skip_prefix.cases) (auto simp: is_hex_def hex_val_def)

lemma stoull_hex:
  assumes "is_hex s" and "s \<noteq> []" and "hex_value s < 2 ^ 64"
  shows "stoull s = Inr (of_nat (hex_value s))"
proof -
  obtain c r where s: "s = c # r" using assms(2) by (cases s) auto
  have "hex_val c \<noteq> None" using assms(1) s by (simp add: is_hex_def)
  then have "skip_sign (dropWhile is_space s) = (False, s)"
    using s hex_not_special [of c] by simp
  moreover have "takeWhile (\<lambda>c. \<exists>y. hex_val c = Some y) (skip_prefix s) = s"
    using assms(1) by (simp add: skip_prefix_hex) (simp add: is_hex_def takeWhile_eq_all_conv)
  ultimately show ?thesis
    using assms by (simp add: stoull_def Let_def)
qed

lemma until_dash_hex:
  "is_hex s \<Longrightarrow> until_dash (s @ CHR ''-'' # r) = (s, Some r)"
  "is_hex s \<Longrightarrow> until_dash s = (s, None)"
  by (induction s) (auto simp: is_hex_def hex_val_def)

lemma parse_hex_parts:
  assumes "is_hex s" and "s \<noteq> []" and "hex_value s < 2 ^ 64"
  shows "parse_parts (s @ CHR ''-'' # r) = rbind (parse_parts r) (\<lambda>ns. Inr (of_nat (hex_value s) # ns))"
    and "parse_parts s = Inr [of_nat (hex_value s)]"
  using assms
  by (simp_all add: parse_parts.simps [of "s @ CHR ''-'' # r"] parse_parts.simps [of s] until_dash_hex stoull_hex)

lemma string_fields:
  obtains a b c d e where
    "a = pad_hex 8 (unat (drop_bit 32 (data0 u)))" "b = pad_hex 4 (unat (drop_bit 16 (data0 u) AND 0xffff))"
    "c = pad_hex 4 (unat (data0 u AND 0xffff))" "d = pad_hex 4 (unat (drop_bit 48 (data1 u)))"
    "e = pad_hex 12 (unat (data1 u AND 0xffffffffffff))"
    "length a = 8" "length b = 4" "length c = 4" "length d = 4" "length e = 12"
    "uuid_string u = a @ CHR ''-'' # b @ CHR ''-'' # c @ CHR ''-'' # d @ CHR ''-'' # e"
proof -
  have low: "unat (w AND mask k) < 2 ^ k" for w :: "64 word" and k
    unfolding take_bit_eq_mask [symmetric] unsigned_take_bit_eq by simp
  have m: "(0xffff :: 64 word) = mask 16" "(0xffffffffffff :: 64 word) = mask 48"
    by (simp_all add: mask_eq_exp_minus_1)
  have high: "unat (drop_bit 32 w) < 2 ^ 32" "unat (drop_bit 48 w) < 2 ^ 16" for w :: "64 word"
    using unsigned_less [of w, where 'a = nat] by (simp_all add: drop_bit_eq_div unat_div less_mult_imp_div_less)
  have "length (pad_hex 8 (unat (drop_bit 32 (data0 u)))) = 8"
    "length (pad_hex 4 (unat (drop_bit 16 (data0 u) AND 0xffff))) = 4"
    "length (pad_hex 4 (unat (data0 u AND 0xffff))) = 4"
    "length (pad_hex 4 (unat (drop_bit 48 (data1 u)))) = 4"
    "length (pad_hex 12 (unat (data1 u AND 0xffffffffffff))) = 12"
    using high(1) [of "data0 u"] high(2) [of "data1 u"] low [of "drop_bit 16 (data0 u)" 16]
      low [of "data0 u" 16] low [of "data1 u" 48]
    unfolding m by (auto intro!: length_pad_hex)
  moreover from this have "uuid_string u = pad_hex 8 (unat (drop_bit 32 (data0 u))) @ CHR ''-'' #
      pad_hex 4 (unat (drop_bit 16 (data0 u) AND 0xffff)) @ CHR ''-'' #
      pad_hex 4 (unat (data0 u AND 0xffff)) @ CHR ''-'' #
      pad_hex 4 (unat (drop_bit 48 (data1 u))) @ CHR ''-'' # pad_hex 12 (unat (data1 u AND 0xffffffffffff))"
    by (simp add: uuid_string_def k_canonical_len_def resize_def)
  ultimately show ?thesis using that by blast
qed

lemma halves_recombine:
  "push_bit 32 (drop_bit 32 w) OR push_bit 16 (drop_bit 16 w AND 0xffff) OR (w AND 0xffff) = w" (is ?A)
  "push_bit 48 (drop_bit 48 w) OR (w AND 0xffffffffffff) = w" (is ?B) for w :: "64 word"
proof -
  have m: "(0xffff :: 64 word) = mask 16" "(0xffffffffffff :: 64 word) = mask 48"
    by (simp_all add: mask_eq_exp_minus_1)
  show ?A unfolding m
  proof (rule bit_word_eqI)
    fix n assume "n < LENGTH(64)"
    moreover have "n < 16 \<or> (\<exists>m. n = m + 16 \<and> m < 16) \<or> (\<exists>m. n = m + 32)" by presburger
    ultimately show "bit (push_bit 32 (drop_bit 32 w) OR push_bit 16 (drop_bit 16 w AND mask 16) OR (w AND mask 16)) n
        \<longleftrightarrow> bit w n"
      by (auto simp: bit_simps algebra_simps)
  qed
  show ?B unfolding m by (rule bit_word_eqI) (auto simp: bit_simps)
qed

lemma make_from_string: "make_from (uuid_string u) = Inr u"
proof -
  obtain a b c d e where f:
    "a = pad_hex 8 (unat (drop_bit 32 (data0 u)))" "b = pad_hex 4 (unat (drop_bit 16 (data0 u) AND 0xffff))"
    "c = pad_hex 4 (unat (data0 u AND 0xffff))" "d = pad_hex 4 (unat (drop_bit 48 (data1 u)))"
    "e = pad_hex 12 (unat (data1 u AND 0xffffffffffff))"
    "length a = 8" "length b = 4" "length c = 4" "length d = 4" "length e = 12"
    "uuid_string u = a @ CHR ''-'' # b @ CHR ''-'' # c @ CHR ''-'' # d @ CHR ''-'' # e"
    by (rule string_fields)
  have lt: "unat (w :: 64 word) < 2 ^ 64" for w using unsigned_less [of w, where 'a = nat] by simp
  have p: "parse_parts (s @ CHR ''-'' # r) = rbind (parse_parts r) (\<lambda>ns. Inr (w # ns))"
    "parse_parts s = Inr [w]" if "s = pad_hex k (unat w)" for s k r w
    using parse_hex_parts(1) [of s r] parse_hex_parts(2) [of s] that lt [of w] by auto
  have "parse_parts (uuid_string u) =
      Inr [drop_bit 32 (data0 u), drop_bit 16 (data0 u) AND 0xffff, data0 u AND 0xffff,
           drop_bit 48 (data1 u), data1 u AND 0xffffffffffff]"
    unfolding f(11)
    by (simp add: p(1) [OF f(1)] p(1) [OF f(2)] p(1) [OF f(3)] p(1) [OF f(4)] p(2) [OF f(5)])
  then show ?thesis
    using halves_recombine(1) [of "data0 u"] halves_recombine(2) [of "data1 u"]
    by (cases u) (simp add: make_from_def or.assoc)
qed

section \<open>Name-based UUIDs\<close>

text \<open>RFC 4122 section 4.3: the digest of the name space in network order followed by the name.\<close>

definition uuid_bytes :: "uuid \<Rightarrow> byte list" where
  "uuid_bytes u = be_bytes (data0 u) @ be_bytes (data1 u)"

definition v3_reference :: "uuid \<Rightarrow> byte list \<Rightarrow> uuid" where
  "v3_reference ns name =
     (let digest = md5_reference (uuid_bytes ns @ name)
      in set_version v3 (set_variant \<lparr>data0 = le_word (rev (take 8 digest)), data1 = le_word (rev (drop 8 digest))\<rparr>))"

lemma bytes_HostToNetwork:
  "obj_bytes (byte_order p) (uuid_HostToNetwork p (w :: 64 word)) = be_bytes w"
  by (cases p; cases "byte_order p") (simp_all add: obj_bytes_def le_bytes_bswap)

lemma NetworkToHost_bytes:
  assumes "length bs = 8"
  shows "uuid_NetworkToHost p (obj_word (byte_order p) bs :: 64 word) = le_word (rev bs)"
proof -
  have "le_bytes (le_word bs :: 64 word) = bs" using assms by simp
  then show ?thesis
    by (cases p; cases "byte_order p") (simp_all add: obj_word_def bswap_def be_bytes_def)
qed

lemma length_md5_reference: "length (md5_reference m) = 16"
  by (simp add: md5_reference_def split: prod.split)

lemma make_v3_ok:
  assumes "length (md_buffer garbage) = 64" and "length name < 2 ^ 64"
  shows "make_v3 p garbage ns name = Inr (v3_reference ns name)"
proof -
  let ?parts = "[be_bytes (data0 ns), be_bytes (data1 ns), name]"
  let ?d = "md5_reference (uuid_bytes ns @ name)"
  have "rbind (rfold (\<lambda>ctx p. MD5Update ctx p (of_nat (length p))) ?parts (MD5Init garbage)) MD5Final =
      Inr (?d, zero_context)"
    using md5_updates_final [OF assms(1), of ?parts] assms(2) by (simp add: uuid_bytes_def)
  then obtain c1 c2 c3 where "MD5Update (MD5Init garbage) (be_bytes (data0 ns)) 8 = Inr c1"
      "MD5Update c1 (be_bytes (data1 ns)) 8 = Inr c2" "MD5Update c2 name (of_nat (length name)) = Inr c3"
      "MD5Final c3 = Inr (?d, zero_context)"
    by (auto simp: rbind_Inr_iff)
  moreover have "take 8 (drop 8 ?d) = drop 8 ?d" "length (take 8 ?d) = 8" "length (drop 8 ?d) = 8"
    using length_md5_reference by simp_all
  ultimately show ?thesis
    by (simp add: make_v3_def Let_def bytes_HostToNetwork NetworkToHost_bytes v3_reference_def)
qed

section \<open>Properties\<close>

text \<open>
  Property C21. Time-based UUIDs do not repeat: on a little-endian machine, any run of up to 2^14 calls of
  \<open>make_v1\<close> from any state of the clock sequence, whatever the clock shows (standing still, jumping
  back, or read by threads that enter the lock in another order), gives pairwise distinct UUIDs, as
  long as the timestamps fit the 60 bits of the format.
\<close>

theorem uuid_v1_never_repeats:
  assumes "byte_order p = Little_endian" and "length nid = 6" and "length ts \<le> 2 ^ 14"
    and "\<forall>u \<in> set ts. unat (get_timestamp_since_epoch u) < 2 ^ 60"
  shows "distinct (v1_run p nid ts c)"
  by (rule v1_distinct [OF assms])

theorem uuid_v1_never_repeats_witness:
  "distinct (v1_run Windows [1, 2, 3, 4, 5, 6] [7, 7, 5, 7] (clock_sequence_new 65535))"
proof (rule uuid_v1_never_repeats)
  show "\<forall>u \<in> set [7, 7, 5, 7]. unat (get_timestamp_since_epoch u) < 2 ^ 60"
    by (simp add: get_timestamp_since_epoch_def k_epoch_diff_def)
qed simp_all

text \<open>
  Fact. A time-based UUID carries its timestamp, the low 14 bits of the clock sequence and the
  node identifier in the fields of RFC 4122, with version 1 and the variant of the RFC.
\<close>

theorem uuid_v1_layout:
  assumes "byte_order p = Little_endian" and "length nid = 6" and "unat t < 2 ^ 60"
  shows "v1_time (v1_from p nid t sq) = t \<and> v1_seq (v1_from p nid t sq) = ucast sq AND mask 14 \<and>
    v1_node (v1_from p nid t sq) = nid \<and>
    has_version v1 (v1_from p nid t sq) \<and> has_rfc_variant (v1_from p nid t sq)"
  using v1_time_from [OF assms(3)] v1_seq_from [OF assms(1,2)] v1_node_from [OF assms(1,2)]
  by (simp add: v1_from_def Let_def)

theorem uuid_v1_layout_witness:
  "v1_time (v1_from (Linux Little_endian) [1, 2, 3, 4, 5, 6] 0x1ec9414c232ab00 0xb3c8) = 0x1ec9414c232ab00 \<and>
   v1_node (v1_from (Linux Little_endian) [1, 2, 3, 4, 5, 6] 0x1ec9414c232ab00 0xb3c8) = [1, 2, 3, 4, 5, 6]"
  using uuid_v1_layout [of "Linux Little_endian" "[1, 2, 3, 4, 5, 6]" "0x1ec9414c232ab00" "0xb3c8"] by simp

text \<open>
  Fact. On a big-endian machine the node identifier is stored over the clock sequence: the
  UUID does not depend on the sequence at all, so two reads of the clock at one time give the same
  UUID.
\<close>

theorem uuid_v1_big_endian_loses_sequence:
  assumes "length nid = 6"
  shows "v1_from (Linux Big_endian) nid t a = v1_from (Linux Big_endian) nid t b"
proof -
  have "take 2 (le_bytes (push_bit 48 x OR push_bit 48 y :: 64 word)) = [0, 0]" for x y
  proof (rule nth_equalityI)
    fix i assume "i < length (take 2 (le_bytes (push_bit 48 x OR push_bit 48 y :: 64 word)))"
    then have i: "i < 2" by simp
    have "le_bytes (push_bit 48 x OR push_bit 48 y :: 64 word) ! i = 0"
      using i by (intro bit_word_eqI) (simp add: nth_le_bytes bit_simps)
    then show "take 2 (le_bytes (push_bit 48 x OR push_bit 48 y :: 64 word)) ! i = [0, 0] ! i"
      using i by (cases i) simp_all
  qed simp
  then show ?thesis
    using assms by (simp add: v1_from_def Let_def obj_bytes_def be_bytes_def drop_rev)
qed

theorem uuid_v1_big_endian_loses_sequence_witness:
  "v1_from (Linux Big_endian) [1, 2, 3, 4, 5, 6] 9 0 = v1_from (Linux Big_endian) [1, 2, 3, 4, 5, 6] 9 1"
  by (rule uuid_v1_big_endian_loses_sequence) simp

text \<open>
  Property C38. Name-based UUIDs: on every platform \<open>make_v3\<close> returns and gives the UUID of RFC 4122, the MD5
  digest of the name space in network byte order followed by the name, with version 3 and the
  variant; the bytes the local context starts with do not matter.
\<close>

theorem uuid_v3_is_rfc4122:
  assumes "length (md_buffer garbage) = 64" and "length name < 2 ^ 64"
  shows "make_v3 p garbage ns name = Inr (v3_reference ns name) \<and>
    has_version v3 (v3_reference ns name) \<and> has_rfc_variant (v3_reference ns name)"
  using make_v3_ok [OF assms] by (simp add: v3_reference_def Let_def)

theorem uuid_v3_is_rfc4122_witness:
  "make_v3 (Linux Big_endian) zero_context \<lparr>data0 = 0x6ba7b8109dad11d1, data1 = 0x80b400c04fd430c8\<rparr> [119] =
     make_v3 Windows zero_context \<lparr>data0 = 0x6ba7b8109dad11d1, data1 = 0x80b400c04fd430c8\<rparr> [119]"
proof -
  have z: "length (md_buffer zero_context) = 64" by (simp add: zero_context_def)
  show ?thesis
    using uuid_v3_is_rfc4122 [OF z, of "[119]" "Linux Big_endian"] uuid_v3_is_rfc4122 [OF z, of "[119]" Windows] by simp
qed

text \<open>
  Fact. The textual form is five groups of 8, 4, 4, 4 and 12 hexadecimal digits between dashes,
  and \<open>make_from\<close> reads every UUID back from it.
\<close>

theorem uuid_text_roundtrip:
  "make_from (uuid_string u) = Inr u \<and>
   (\<exists>a b c d e. list_all is_hex [a, b, c, d, e] \<and> map length [a, b, c, d, e] = [8, 4, 4, 4, 12] \<and>
      uuid_string u = a @ ''-'' @ b @ ''-'' @ c @ ''-'' @ d @ ''-'' @ e)"
proof
  obtain a b c d e where f: "length a = 8" "length b = 4" "length c = 4" "length d = 4" "length e = 12"
      "uuid_string u = a @ CHR ''-'' # b @ CHR ''-'' # c @ CHR ''-'' # d @ CHR ''-'' # e"
      "is_hex a" "is_hex b" "is_hex c" "is_hex d" "is_hex e"
    using string_fields [of u] is_hex_pad by metis
  then show "\<exists>a b c d e. list_all is_hex [a, b, c, d, e] \<and> map length [a, b, c, d, e] = [8, 4, 4, 4, 12] \<and>
      uuid_string u = a @ ''-'' @ b @ ''-'' @ c @ ''-'' @ d @ ''-'' @ e"
    by (intro exI [of _ a] exI [of _ b] exI [of _ c] exI [of _ d] exI [of _ e]) simp
qed (rule make_from_string)

end
