(* ===== verification/Simulation.thy ===== *)
theory Simulation
  imports Prelude
begin

text \<open>
  The refinement contract several components share: a concrete step that may fault, an abstract
  step that is partial (undefined where a client breaks the contract), an invariant and an
  abstraction function. Where the abstract step is defined the concrete one does not fault, keeps
  the invariant and commutes with the abstraction; the locale lifts this to sequences of steps. A
  second locale is for the components with several threads, whose steps are a relation. The theory ends
  with counting threads and with steps that an environment chooses.
\<close>

text \<open>Running a partial abstract operation over a list of arguments.\<close>

fun ofold :: "('s \<Rightarrow> 'a \<Rightarrow> 's option) \<Rightarrow> 'a list \<Rightarrow> 's \<Rightarrow> 's option" where
  "ofold f [] s = Some s"
| "ofold f (x # xs) s = (case f s x of None \<Rightarrow> None | Some s' \<Rightarrow> ofold f xs s')"

lemma ofold_append:
  "ofold f (xs @ ys) s = (case ofold f xs s of None \<Rightarrow> None | Some s' \<Rightarrow> ofold f ys s')"
  by (induction xs arbitrary: s) (auto split: option.split)

locale simulation =
  fixes inv :: "nat \<Rightarrow> 'c \<Rightarrow> bool"
    and absn :: "'c \<Rightarrow> 'a"
    and cstep :: "'c \<Rightarrow> 'op \<Rightarrow> 'c res"
    and astep :: "'a \<Rightarrow> 'op \<Rightarrow> 'a option"
    and bound :: nat
  assumes step_law: "inv n s \<Longrightarrow> n < bound \<Longrightarrow> astep (absn s) op = Some a \<Longrightarrow>
      \<exists>s'. cstep s op = Inr s' \<and> inv (Suc n) s' \<and> absn s' = a"
begin

text \<open>The number of steps so far bounds the resources a run may use up.\<close>

lemma run_law:
  assumes "inv n s" and "n + length ops \<le> bound" and "ofold astep ops (absn s) = Some a"
  shows "\<exists>s'. rfold cstep ops s = Inr s' \<and> inv (n + length ops) s' \<and> absn s' = a"
  using assms
proof (induction ops arbitrary: n s)
  case (Cons op ops)
  then obtain a1 where a1: "astep (absn s) op = Some a1" "ofold astep ops a1 = Some a"
    by (auto split: option.splits)
  obtain s1 where s1: "cstep s op = Inr s1" "inv (Suc n) s1" "absn s1 = a1"
    using step_law [OF Cons.prems(1) _ a1(1)] Cons.prems(2) by auto
  then show ?case using Cons.IH [OF s1(2)] Cons.prems(2) a1(2) by simp
qed simp

end

text \<open>A transition system with an inductive invariant: every reachable state satisfies it.\<close>

locale invariant_system =
  fixes start :: 's
    and step :: "'s \<Rightarrow> 's \<Rightarrow> bool"
    and inv :: "'s \<Rightarrow> bool"
  assumes start_law: "inv start"
    and step_law: "inv s \<Longrightarrow> step s s' \<Longrightarrow> inv s'"
begin

lemma reachable_law: "step\<^sup>*\<^sup>* start s \<Longrightarrow> inv s"
  by (induction rule: rtranclp_induct) (auto intro: start_law step_law)

end

section \<open>Counting threads\<close>

text \<open>The sum of a weight over the places of all threads, of which finitely many weigh anything.\<close>

definition few :: "('p \<Rightarrow> nat) \<Rightarrow> (nat \<Rightarrow> 'p) \<Rightarrow> bool" where
  "few c pl \<longleftrightarrow> finite {t. c (pl t) \<noteq> 0}"

definition total :: "('p \<Rightarrow> nat) \<Rightarrow> (nat \<Rightarrow> 'p) \<Rightarrow> nat" where
  "total c pl = (\<Sum>t \<in> {t. c (pl t) \<noteq> 0}. c (pl t))"

lemma total_upd:
  assumes "few c pl"
  shows "total c (pl(t := p)) + c (pl t) = total c pl + c p" and "few c (pl(t := p))"
proof -
  let ?A = "insert t {u. c (pl u) \<noteq> 0}"
  have fin: "finite ?A" using assms by (simp add: few_def)
  have sub: "{u. c ((pl(t := p)) u) \<noteq> 0} \<subseteq> ?A" by auto
  show "few c (pl(t := p))" unfolding few_def by (rule finite_subset [OF sub fin])
  have "total c (pl(t := p)) = (\<Sum>u \<in> ?A. c ((pl(t := p)) u))"
    unfolding total_def by (rule sum.mono_neutral_left [OF fin sub]) auto
  also have "\<dots> = c p + (\<Sum>u \<in> ?A - {t}. c ((pl(t := p)) u))"
    using sum.remove [OF fin, of t "\<lambda>u. c ((pl(t := p)) u)"] by simp
  also have "(\<Sum>u \<in> ?A - {t}. c ((pl(t := p)) u)) = (\<Sum>u \<in> ?A - {t}. c (pl u))" by (rule sum.cong) auto
  finally have new: "total c (pl(t := p)) = c p + (\<Sum>u \<in> ?A - {t}. c (pl u))" .
  have "total c pl = (\<Sum>u \<in> ?A. c (pl u))"
    unfolding total_def by (rule sum.mono_neutral_left [OF fin]) auto
  also have "\<dots> = c (pl t) + (\<Sum>u \<in> ?A - {t}. c (pl u))" using sum.remove [OF fin, of t "\<lambda>u. c (pl u)"] by simp
  finally show "total c (pl(t := p)) + c (pl t) = total c pl + c p" using new by simp
qed

lemma total_ge:
  assumes "few c pl"
  shows "c (pl t) \<le> total c pl"
proof (cases "c (pl t) = 0")
  case False
  then show ?thesis unfolding total_def using assms by (intro member_le_sum) (auto simp: few_def)
qed simp

lemma total_ge2:
  assumes "few c pl" and "t \<noteq> u"
  shows "c (pl t) + c (pl u) \<le> total c pl"
proof -
  let ?A = "insert t (insert u {v. c (pl v) \<noteq> 0})"
  have fin: "finite ?A" using assms(1) by (simp add: few_def)
  have "total c pl = (\<Sum>v \<in> ?A. c (pl v))"
    unfolding total_def by (rule sum.mono_neutral_left [OF fin]) auto
  moreover have "(\<Sum>v \<in> {t, u}. c (pl v)) \<le> (\<Sum>v \<in> ?A. c (pl v))" by (rule sum_mono2 [OF fin]) auto
  ultimately show ?thesis using assms(2) by simp
qed

lemma total_zero: "few c pl \<Longrightarrow> total c pl = 0 \<longleftrightarrow> (\<forall>t. c (pl t) = 0)"
  by (auto simp: total_def few_def)

section \<open>Steps of an environment\<close>

text \<open>Running a step that the environment may refuse and that may fault.\<close>

fun orun :: "('s \<Rightarrow> 'e \<Rightarrow> 's res option) \<Rightarrow> 'e list \<Rightarrow> 's \<Rightarrow> 's res option" where
  "orun f [] s = Some (Inr s)"
| "orun f (e # es) s = (case f s e of None \<Rightarrow> None | Some (Inl x) \<Rightarrow> if es = [] then Some (Inl x) else None | Some (Inr s') \<Rightarrow> orun f es s')"

definition yields :: "'s res option \<Rightarrow> ('s \<Rightarrow> bool) \<Rightarrow> bool" where
  "yields m P \<longleftrightarrow> (case m of Some (Inr s) \<Rightarrow> P s | _ \<Rightarrow> False)"

lemma yieldsD: "yields m P \<Longrightarrow> \<exists>s. m = Some (Inr s) \<and> P s"
  by (auto simp: yields_def split: option.splits sum.splits)

lemma orun_invariant:
  assumes "\<And>s e s'. P s \<Longrightarrow> f s e = Some (Inr s') \<Longrightarrow> P s'" and "P s" and "orun f es s = Some (Inr s')"
  shows "P s'"
  using assms(2,3) by (induction es arbitrary: s) (auto split: option.splits sum.splits if_splits intro: assms(1))

end
