(* ===== verification/RC_String.thy ===== *)
theory RC_String
  imports Simulation
begin

text \<open>
  The reference-counted, copy-on-write string (\<open>src/RCString/src/rc_string.cpp\<close>). String data lives in
  an explicit heap of cells that several string objects may share; the theory shows that strings
  nevertheless behave as independent values, that the reference count is exact, and that the last
  owner frees the cell. What a new object finds in memory (the member \<open>capacity_\<close>, which no
  constructor sets, and the bytes of a new array) is a parameter of the model.
\<close>

section \<open>String data\<close>

record string_data =
  buffer :: "byte list option"
  capacity :: nat
  sd_size :: nat
  ref_count :: nat

text \<open>\<open>junk_capacity\<close>: the uninitialised \<open>capacity_\<close>; \<open>new_bytes n\<close>: the content of \<open>new char[n]\<close>.\<close>

record memory =
  junk_capacity :: nat
  new_bytes :: "nat \<Rightarrow> byte list"

definition kBaseSize :: nat where
  "kBaseSize = 4"

definition kUnsharedRefMark :: nat where
  "kUnsharedRefMark = 2 ^ 32 - 1"

definition RoundToMultiple :: "nat \<Rightarrow> nat \<Rightarrow> nat" where
  "RoundToMultiple num factor =
     (if factor = 0 then 0
      else wrap (wsub (wsub num 1) (wsub num 1 mod factor) + factor))"

text \<open>
  \<open>memcpy_s(dest + off, dest_size, src, count)\<close>: copying nothing succeeds; a null pointer or a too
  small destination runs the invalid parameter handler.
\<close>

definition memcpy_s :: "byte list option \<Rightarrow> nat \<Rightarrow> nat \<Rightarrow> byte list option \<Rightarrow> nat \<Rightarrow> byte list option res" where
  "memcpy_s dest off dest_size src cnt =
     (if cnt = 0 then Inr dest
      else case dest of
        None \<Rightarrow> Inl Null_deref
      | Some d \<Rightarrow>
          (case src of
             None \<Rightarrow> Inl Null_deref
           | Some s \<Rightarrow>
               if dest_size < cnt then Inl (Thrown ''invalid parameter'')
               else rbind (load s 0 cnt) (\<lambda>bs. rbind (store d off bs) (\<lambda>d. Inr (Some d)))))"

definition Unique :: "string_data \<Rightarrow> bool" where
  "Unique d \<longleftrightarrow> ref_count d = 1 \<or> ref_count d = kUnsharedRefMark"

definition Unsharedable :: "string_data \<Rightarrow> bool" where
  "Unsharedable d \<longleftrightarrow> ref_count d = kUnsharedRefMark"

definition MakeUnsharedable :: "string_data \<Rightarrow> string_data res" where
  "MakeUnsharedable d =
     rbind (guard (Unique d) Assert_failed) (\<lambda>_. Inr (d\<lparr>ref_count := kUnsharedRefMark\<rparr>))"

definition ResetSharedable :: "string_data \<Rightarrow> string_data res" where
  "ResetSharedable d =
     rbind (guard (Unique d) Assert_failed) (\<lambda>_. Inr (d\<lparr>ref_count := 1\<rparr>))"

definition AddRef :: "string_data \<Rightarrow> string_data res" where
  "AddRef d =
     rbind (guard (0 < ref_count d) Assert_failed) (\<lambda>_.
     Inr (d\<lparr>ref_count := (ref_count d + 1) mod 2 ^ 32\<rparr>))"

definition Release :: "string_data \<Rightarrow> (bool \<times> string_data) res" where
  "Release d =
     rbind (guard (0 < ref_count d) Assert_failed) (\<lambda>_.
     if Unsharedable d then Inr (True, d)
     else let d = d\<lparr>ref_count := ref_count d - 1\<rparr> in Inr (ref_count d = 0, d))"

definition Reserve :: "memory \<Rightarrow> nat \<Rightarrow> string_data \<Rightarrow> string_data res" where
  "Reserve mem required_capacity d =
     (if required_capacity \<le> capacity d then Inr d
      else let new_base = max (wrap (capacity d * 3) div 2) required_capacity;
               new_capacity = RoundToMultiple new_base kBaseSize;
               new_buf = Some (new_bytes mem new_capacity) in
        rbind (memcpy_s new_buf 0 new_capacity (buffer d) (sd_size d)) (\<lambda>new_buf.
        Inr (d\<lparr>buffer := new_buf, capacity := new_capacity\<rparr>)))"

definition StringData_new :: "memory \<Rightarrow> nat \<Rightarrow> string_data res" where
  "StringData_new mem cap =
     Reserve mem cap \<lparr>buffer = None, capacity = junk_capacity mem, sd_size = 0, ref_count = 1\<rparr>"

definition CopyData :: "byte list option \<Rightarrow> nat \<Rightarrow> nat \<Rightarrow> string_data \<Rightarrow> string_data res" where
  "CopyData str len pos d =
     rbind (guard (Unique d) Assert_failed) (\<lambda>_.
     rbind (guard (pos \<le> sd_size d) Assert_failed) (\<lambda>_.
     rbind (guard (wrap (pos + len) \<le> capacity d) Assert_failed) (\<lambda>_.
     rbind (memcpy_s (buffer d) pos (capacity d) str len) (\<lambda>buf.
     Inr (d\<lparr>buffer := buf, sd_size := max (wrap (pos + len)) (sd_size d)\<rparr>)))))"

definition Clone :: "memory \<Rightarrow> nat \<Rightarrow> string_data \<Rightarrow> string_data res" where
  "Clone mem new_capacity d =
     rbind (StringData_new mem (max new_capacity (capacity d))) (CopyData (buffer d) (sd_size d) 0)"

section \<open>The heap and the string objects\<close>

text \<open>A string object is the address \<open>data_\<close> of its cell; \<open>brk\<close> is the next fresh address.\<close>

record heap =
  cells :: "nat \<Rightarrow> string_data option"
  brk :: nat

definition deref :: "heap \<Rightarrow> nat \<Rightarrow> string_data res" where
  "deref h a = (case cells h a of None \<Rightarrow> Inl Null_deref | Some d \<Rightarrow> Inr d)"

definition write_cell :: "heap \<Rightarrow> nat \<Rightarrow> string_data \<Rightarrow> heap" where
  "write_cell h a d = h\<lparr>cells := (cells h)(a := Some d)\<rparr>"

definition alloc_cell :: "heap \<Rightarrow> string_data \<Rightarrow> nat \<times> heap" where
  "alloc_cell h d = (brk h, h\<lparr>cells := (cells h)(brk h := Some d), brk := brk h + 1\<rparr>)"

text \<open>\<open>delete\<close>, with the assertion of the destructor of the data.\<close>

definition delete_cell :: "heap \<Rightarrow> nat \<Rightarrow> heap res" where
  "delete_cell h a =
     rbind (deref h a) (\<lambda>d.
     rbind (guard (ref_count d = 0 \<or> ref_count d = kUnsharedRefMark) Assert_failed) (\<lambda>_.
     Inr (h\<lparr>cells := (cells h)(a := None)\<rparr>)))"

definition RCString_new :: "memory \<Rightarrow> heap \<Rightarrow> (nat \<times> heap) res" where
  "RCString_new mem h = rbind (StringData_new mem kBaseSize) (\<lambda>d. Inr (alloc_cell h d))"

definition RCString_copy :: "memory \<Rightarrow> heap \<Rightarrow> nat \<Rightarrow> (nat \<times> heap) res" where
  "RCString_copy mem h other =
     rbind (deref h other) (\<lambda>d.
     if \<not> Unsharedable d then rbind (AddRef d) (\<lambda>d. Inr (other, write_cell h other d))
     else rbind (Clone mem (sd_size d) d) (\<lambda>d. Inr (alloc_cell h d)))"

definition RCString_sized :: "memory \<Rightarrow> heap \<Rightarrow> byte list \<Rightarrow> nat \<Rightarrow> (nat \<times> heap) res" where
  "RCString_sized mem h str len =
     rbind (StringData_new mem len) (\<lambda>d.
     rbind (CopyData (Some str) len 0 d) (\<lambda>d. Inr (alloc_cell h d)))"

text \<open>\<open>strlen\<close>: a string without terminator is read past its end.\<close>

definition strlen :: "byte list \<Rightarrow> nat res" where
  "strlen str =
     (let n = length (takeWhile (\<lambda>c. c \<noteq> 0) str) in if n < length str then Inr n else Inl Out_of_bounds)"

definition RCString_cstr :: "memory \<Rightarrow> heap \<Rightarrow> byte list \<Rightarrow> (nat \<times> heap) res" where
  "RCString_cstr mem h str = rbind (strlen str) (RCString_sized mem h str)"

definition RCString_destroy :: "heap \<Rightarrow> nat \<Rightarrow> heap res" where
  "RCString_destroy h a =
     rbind (deref h a) (\<lambda>d. rbind (Release d) (\<lambda>(last, d).
     let h = write_cell h a d in if last then delete_cell h a else Inr h))"

definition PrepareToModify :: "memory \<Rightarrow> heap \<Rightarrow> nat \<Rightarrow> nat \<Rightarrow> bool \<Rightarrow> (nat \<times> heap) res" where
  "PrepareToModify mem h a required_capacity make_unsharedable =
     rbind (deref h a) (\<lambda>d.
     rbind (if \<not> Unique d
            then rbind (Clone mem required_capacity d) (\<lambda>new_data.
                 let (b, h) = alloc_cell h new_data in
                 rbind (Release d) (\<lambda>(_, d). Inr (b, write_cell h a d)))
            else rbind (Reserve mem required_capacity d) (\<lambda>d. Inr (a, write_cell h a d))) (\<lambda>(a, h).
     rbind (deref h a) (\<lambda>d.
     rbind (if make_unsharedable then MakeUnsharedable d else ResetSharedable d) (\<lambda>d.
     Inr (a, write_cell h a d)))))"

definition Append :: "memory \<Rightarrow> heap \<Rightarrow> nat \<Rightarrow> byte list \<Rightarrow> nat \<Rightarrow> (nat \<times> heap) res" where
  "Append mem h a str len =
     rbind (deref h a) (\<lambda>d.
     let new_size = wrap (sd_size d + len) in
     rbind (PrepareToModify mem h a new_size False) (\<lambda>(a, h).
     rbind (deref h a) (\<lambda>d.
     rbind (CopyData (Some str) len (sd_size d) d) (\<lambda>d. Inr (a, write_cell h a d)))))"

definition Append_cstr :: "memory \<Rightarrow> heap \<Rightarrow> nat \<Rightarrow> byte list \<Rightarrow> (nat \<times> heap) res" where
  "Append_cstr mem h a str = rbind (strlen str) (Append mem h a str)"

definition rc_size :: "heap \<Rightarrow> nat \<Rightarrow> nat res" where
  "rc_size h a = rbind (deref h a) (\<lambda>d. Inr (sd_size d))"

definition char_at :: "string_data \<Rightarrow> nat \<Rightarrow> byte res" where
  "char_at d pos = (case buffer d of None \<Rightarrow> Inl Null_deref | Some b \<Rightarrow> at b pos)"

definition const_subscript :: "heap \<Rightarrow> nat \<Rightarrow> nat \<Rightarrow> byte res" where
  "const_subscript h a pos = rbind (deref h a) (\<lambda>d. char_at d pos)"

text \<open>\<open>operator[]\<close> returns a reference: the cell and the position. \<open>assign\<close> stores through it.\<close>

definition subscript :: "memory \<Rightarrow> heap \<Rightarrow> nat \<Rightarrow> nat \<Rightarrow> ((nat \<times> nat) \<times> nat \<times> heap) res" where
  "subscript mem h a pos =
     rbind (rc_size h a) (\<lambda>n.
     rbind (PrepareToModify mem h a n True) (\<lambda>(a, h). Inr ((a, pos), a, h)))"

definition assign :: "heap \<Rightarrow> nat \<times> nat \<Rightarrow> byte \<Rightarrow> heap res" where
  "assign h ref c =
     rbind (deref h (fst ref)) (\<lambda>d. case buffer d of
       None \<Rightarrow> Inl Null_deref
     | Some b \<Rightarrow> rbind (set_at b (snd ref) c) (\<lambda>b. Inr (write_cell h (fst ref) (d\<lparr>buffer := Some b\<rparr>))))"

text \<open>\<open>operator<<\<close>: the bytes written to the stream.\<close>

definition rc_output :: "heap \<Rightarrow> nat \<Rightarrow> byte list res" where
  "rc_output h a =
     rbind (deref h a) (\<lambda>d.
     if sd_size d = 0 then Inr []
     else case buffer d of None \<Rightarrow> Inl Null_deref | Some b \<Rightarrow> load b 0 (sd_size d))"

section \<open>Cells\<close>

text \<open>
  \<open>good_memory\<close>: new objects happen to find \<open>capacity_ = 0\<close>, which the code relies on without
  initialising it; \<open>good_data\<close> is the invariant of a cell, \<open>sd_value\<close> the string it stands for.
\<close>

definition good_memory :: "memory \<Rightarrow> bool" where
  "good_memory mem \<longleftrightarrow> junk_capacity mem = 0 \<and> (\<forall>n. length (new_bytes mem n) = n)"

definition good_data :: "string_data \<Rightarrow> bool" where
  "good_data d \<longleftrightarrow> sd_size d \<le> capacity d \<and> capacity d \<le> 2 ^ 61 \<and>
     (case buffer d of None \<Rightarrow> capacity d = 0 | Some b \<Rightarrow> length b = capacity d)"

definition sd_value :: "string_data \<Rightarrow> byte list" where
  "sd_value d = (case buffer d of None \<Rightarrow> [] | Some b \<Rightarrow> take (sd_size d) b)"

lemma length_sd_value: "good_data d \<Longrightarrow> length (sd_value d) = sd_size d"
  by (auto simp: good_data_def sd_value_def split: option.splits)

lemma value_ref_count [simp]: "sd_value (d\<lparr>ref_count := k\<rparr>) = sd_value d"
  by (simp add: sd_value_def split: option.split)

lemma good_ref_count [simp]: "good_data (d\<lparr>ref_count := k\<rparr>) = good_data d"
  by (auto simp: good_data_def split: option.splits)

lemma RoundToMultiple_ok:
  assumes "0 < n" and "n \<le> 2 ^ 61"
  shows "n \<le> RoundToMultiple n kBaseSize \<and> RoundToMultiple n kBaseSize \<le> 2 ^ 61"
proof -
  have w: "wsub n 1 = n - 1" using assms by (simp add: wsub_small)
  have m: "(n - 1) mod 4 \<le> n - 1" by simp
  have "wsub (n - 1) ((n - 1) mod 4) = 4 * ((n - 1) div 4)"
    using assms m by (subst wsub_small) (simp_all add: minus_mod_eq_mult_div)
  moreover have "(n - 1) div 4 < 2 ^ 59" using assms by (intro less_mult_imp_div_less) simp
  ultimately have "RoundToMultiple n kBaseSize = 4 * ((n - 1) div 4) + 4"
    using w by (simp add: RoundToMultiple_def kBaseSize_def)
  moreover have "n - 1 < 4 * ((n - 1) div 4) + 4" by (simp add: dividend_less_div_times [of 4 "n - 1"] mult.commute)
  ultimately show ?thesis using \<open>(n - 1) div 4 < 2 ^ 59\<close> by simp
qed

lemma Reserve_ok:
  assumes "good_memory mem" and "good_data d" and "capacity d * 3 div 2 \<le> 2 ^ 61 \<or> req \<le> capacity d" and "req \<le> 2 ^ 61"
  obtains d' where "Reserve mem req d = Inr d'" and "good_data d'" and "req \<le> capacity d'"
    and "sd_size d' = sd_size d" and "ref_count d' = ref_count d" and "sd_value d' = sd_value d"
proof (cases "req \<le> capacity d")
  case True
  then show ?thesis using that [of d] assms(2) by (simp add: Reserve_def)
next
  case False
  let ?base = "max (capacity d * 3 div 2) req"
  define cap where "cap = RoundToMultiple ?base kBaseSize"
  have w: "wrap (capacity d * 3) = capacity d * 3" using assms(2) by (simp add: good_data_def)
  have cap: "?base \<le> cap" "cap \<le> 2 ^ 61"
    using RoundToMultiple_ok [of ?base] False assms(3,4) by (auto simp: cap_def)
  have sz: "sd_size d \<le> cap" using assms(2) False cap(1) by (simp add: good_data_def)
  have len: "length (new_bytes mem cap) = cap" using assms(1) by (simp add: good_memory_def)
  define buf where "buf = (if sd_size d = 0 then new_bytes mem cap
    else sd_value d @ drop (sd_size d) (new_bytes mem cap))"
  have "memcpy_s (Some (new_bytes mem cap)) 0 cap (buffer d) (sd_size d) = Inr (Some buf)"
    using assms(2) sz len
    by (auto simp: memcpy_s_def good_data_def buf_def sd_value_def load_def store_def split: option.splits)
  then have "Reserve mem req d = Inr (d\<lparr>buffer := Some buf, capacity := cap\<rparr>)"
    using False by (simp add: Reserve_def Let_def w cap_def)
  moreover have "length buf = cap" "take (sd_size d) buf = sd_value d"
    using len sz length_sd_value [OF assms(2)] by (auto simp: buf_def)
  ultimately show ?thesis
    using that [of "d\<lparr>buffer := Some buf, capacity := cap\<rparr>"] cap sz
    by (simp add: good_data_def sd_value_def)
qed

lemma CopyData_ok:
  assumes "good_data d" and "Unique d" and "sd_size d + len \<le> capacity d"
    and "len \<noteq> 0 \<Longrightarrow> src = Some bs \<and> len \<le> length bs" and "len = 0 \<Longrightarrow> bs = []"
  obtains d' where "CopyData src len (sd_size d) d = Inr d'" and "good_data d'" and "capacity d' = capacity d"
    and "ref_count d' = ref_count d" and "sd_value d' = sd_value d @ take len bs"
proof (cases "len = 0")
  case True
  then show ?thesis
    using that [of d] assms(1-3,5) by (simp add: CopyData_def memcpy_s_def good_data_def)
next
  case False
  then obtain b where b: "buffer d = Some b" "length b = capacity d"
    using assms(1,3) by (auto simp: good_data_def split: option.splits)
  have w: "wrap (sd_size d + len) = sd_size d + len" using assms(1,3) by (simp add: good_data_def)
  let ?b = "take (sd_size d) b @ take len bs @ drop (sd_size d + len) b"
  have "CopyData src len (sd_size d) d = Inr (d\<lparr>buffer := Some ?b, sd_size := sd_size d + len\<rparr>)"
    using False assms(2-4) b by (simp add: CopyData_def w memcpy_s_def load_def store_def min_absorb2)
  then show ?thesis
    using that [of "d\<lparr>buffer := Some ?b, sd_size := sd_size d + len\<rparr>"] False assms(1,3,4) b
    by (simp add: good_data_def sd_value_def min_absorb2)
qed

lemma StringData_new_ok:
  assumes "good_memory mem" and "cap \<le> 2 ^ 61"
  obtains d where "StringData_new mem cap = Inr d" and "good_data d" and "cap \<le> capacity d"
    and "sd_size d = 0" and "ref_count d = 1" and "sd_value d = []"
proof -
  let ?d = "\<lparr>buffer = None, capacity = junk_capacity mem, sd_size = 0, ref_count = 1\<rparr>"
  have "good_data ?d" "capacity ?d * 3 div 2 \<le> 2 ^ 61 \<or> cap \<le> capacity ?d"
    using assms(1) by (simp_all add: good_data_def good_memory_def)
  from Reserve_ok [OF assms(1) this assms(2)] show ?thesis
    using that by (metis StringData_new_def sd_value_def string_data.select_convs(1,3,4) option.simps(4))
qed

lemma Clone_ok:
  assumes "good_memory mem" and "good_data d" and "cap \<le> 2 ^ 61"
  obtains d' where "Clone mem cap d = Inr d'" and "good_data d'" and "cap \<le> capacity d'"
    and "ref_count d' = 1" and "sd_value d' = sd_value d"
proof -
  have c: "max cap (capacity d) \<le> 2 ^ 61" using assms(2,3) by (simp add: good_data_def)
  obtain n where n: "StringData_new mem (max cap (capacity d)) = Inr n" "good_data n"
      "max cap (capacity d) \<le> capacity n" "sd_size n = 0" "ref_count n = 1" "sd_value n = []"
    using StringData_new_ok [OF assms(1) c] by blast
  have sz: "sd_size n + sd_size d \<le> capacity n" using n(3,4) assms(2) by (simp add: good_data_def)
  have src: "buffer d = Some (the (buffer d)) \<and> sd_size d \<le> length (the (buffer d))" if "sd_size d \<noteq> 0"
    using assms(2) that by (auto simp: good_data_def split: option.splits)
  have u: "Unique n" using n(5) by (simp add: Unique_def)
  obtain d' where d': "CopyData (buffer d) (sd_size d) (sd_size n) n = Inr d'" "good_data d'"
      "capacity d' = capacity n" "ref_count d' = ref_count n"
      "sd_value d' = sd_value n @ take (sd_size d) (if sd_size d = 0 then [] else the (buffer d))"
    using CopyData_ok [OF n(2) u sz, of "buffer d" "if sd_size d = 0 then [] else the (buffer d)"] src by auto
  have "take (sd_size d) (if sd_size d = 0 then [] else the (buffer d)) = sd_value d"
    using src by (auto simp: sd_value_def split: option.splits)
  then show ?thesis using that [of d'] d' n by (simp add: Clone_def)
qed

section \<open>A program of string objects\<close>

text \<open>Variables hold string objects; a program constructs, copies, changes and destroys them.\<close>

record rc_sys =
  hp :: heap
  vars :: "nat \<Rightarrow> nat option"

datatype rc_op =
    Make nat
  | Make_str nat "byte list"
  | Copy_of nat nat
  | Append_to nat "byte list"
  | Assign_at nat nat byte
  | Drop nat

definition object_of :: "rc_sys \<Rightarrow> nat \<Rightarrow> nat res" where
  "object_of s x = (case vars s x of None \<Rightarrow> Inl Null_deref | Some a \<Rightarrow> Inr a)"

definition bind_var :: "rc_sys \<Rightarrow> nat \<Rightarrow> nat \<times> heap \<Rightarrow> rc_sys" where
  "bind_var s x r = \<lparr>hp = snd r, vars = (vars s)(x := Some (fst r))\<rparr>"

fun rc_step :: "memory \<Rightarrow> rc_sys \<Rightarrow> rc_op \<Rightarrow> rc_sys res" where
  "rc_step mem s (Make x) = rbind (RCString_new mem (hp s)) (\<lambda>r. Inr (bind_var s x r))"
| "rc_step mem s (Make_str x str) =
     rbind (RCString_sized mem (hp s) str (length str)) (\<lambda>r. Inr (bind_var s x r))"
| "rc_step mem s (Copy_of x y) =
     rbind (object_of s y) (\<lambda>a. rbind (RCString_copy mem (hp s) a) (\<lambda>r. Inr (bind_var s x r)))"
| "rc_step mem s (Append_to x str) =
     rbind (object_of s x) (\<lambda>a. rbind (Append mem (hp s) a str (length str)) (\<lambda>r. Inr (bind_var s x r)))"
| "rc_step mem s (Assign_at x i c) =
     rbind (object_of s x) (\<lambda>a. rbind (subscript mem (hp s) a i) (\<lambda>(ref, a, h).
     rbind (assign h ref c) (\<lambda>h. Inr (bind_var s x (a, h)))))"
| "rc_step mem s (Drop x) =
     rbind (object_of s x) (\<lambda>a. rbind (RCString_destroy (hp s) a) (\<lambda>h.
     Inr \<lparr>hp = h, vars = (vars s)(x := None)\<rparr>))"

text \<open>The specification: independent values. It is undefined where the program misuses a variable.\<close>

definition max_string :: nat where
  "max_string = 2 ^ 60"

fun value_step :: "(nat \<Rightarrow> byte list option) \<Rightarrow> rc_op \<Rightarrow> (nat \<Rightarrow> byte list option) option" where
  "value_step m (Make x) = (if m x = None then Some (m(x \<mapsto> [])) else None)"
| "value_step m (Make_str x str) =
     (if m x = None \<and> length str \<le> max_string then Some (m(x \<mapsto> str)) else None)"
| "value_step m (Copy_of x y) =
     (if m x = None then case m y of None \<Rightarrow> None | Some v \<Rightarrow> Some (m(x \<mapsto> v)) else None)"
| "value_step m (Append_to x str) =
     (case m x of None \<Rightarrow> None
      | Some v \<Rightarrow> if length v + length str \<le> max_string then Some (m(x \<mapsto> v @ str)) else None)"
| "value_step m (Assign_at x i c) =
     (case m x of None \<Rightarrow> None | Some v \<Rightarrow> if i < length v then Some (m(x \<mapsto> v[i := c])) else None)"
| "value_step m (Drop x) = (if m x = None then None else Some (m(x := None)))"

definition owners :: "rc_sys \<Rightarrow> nat \<Rightarrow> nat set" where
  "owners s a = {x. vars s x = Some a}"

text \<open>The count is exact, or the data is marked and has one owner.\<close>

definition counted :: "string_data \<Rightarrow> nat \<Rightarrow> bool" where
  "counted d k \<longleftrightarrow> 0 < k \<and> (ref_count d = k \<or> ref_count d = kUnsharedRefMark \<and> k = 1)"

definition cell_ok :: "string_data option \<Rightarrow> nat set \<Rightarrow> bool" where
  "cell_ok c S \<longleftrightarrow> (case c of None \<Rightarrow> S = {} | Some d \<Rightarrow> good_data d \<and> counted d (card S))"

definition rc_inv :: "nat \<Rightarrow> rc_sys \<Rightarrow> bool" where
  "rc_inv n s \<longleftrightarrow> finite (dom (vars s)) \<and> card (dom (vars s)) \<le> n \<and>
     (\<forall>a \<ge> brk (hp s). cells (hp s) a = None) \<and>
     (\<forall>a. cell_ok (cells (hp s) a) (owners s a))"

definition rc_abs :: "rc_sys \<Rightarrow> nat \<Rightarrow> byte list option" where
  "rc_abs s x = (case vars s x of None \<Rightarrow> None | Some a \<Rightarrow> map_option sd_value (cells (hp s) a))"

lemma bind_var_simps [simp]:
  "hp (bind_var s x (a, h)) = h"
  "vars (bind_var s x (a, h)) = (vars s)(x := Some a)"
  by (simp_all add: bind_var_def)

lemma cell_ok_simps [simp]:
  "cell_ok None S \<longleftrightarrow> S = {}"
  "cell_ok (Some d) S \<longleftrightarrow> good_data d \<and> counted d (card S)"
  by (simp_all add: cell_ok_def)

lemma write_cell_simps [simp]:
  "cells (write_cell h a d) = (cells h)(a := Some d)"
  "brk (write_cell h a d) = brk h"
  by (simp_all add: write_cell_def)

lemma owners_subset: "owners s a \<subseteq> dom (vars s)"
  by (auto simp: owners_def)

lemma rc_invD:
  assumes "rc_inv n s" and "vars s x = Some a"
  obtains d where "cells (hp s) a = Some d" and "good_data d" and "counted d (card (owners s a))"
    and "finite (owners s a)" and "x \<in> owners s a" and "card (owners s a) \<le> n"
proof -
  have f: "finite (owners s a)" using assms(1) owners_subset by (auto simp: rc_inv_def intro: finite_subset)
  moreover have "card (owners s a) \<le> n"
    using assms(1) card_mono [OF _ owners_subset [of s a]] by (auto simp: rc_inv_def intro: le_trans)
  moreover have "x \<in> owners s a" using assms(2) by (simp add: owners_def)
  moreover have ok: "cell_ok (cells (hp s) a) (owners s a)" using assms(1) by (simp add: rc_inv_def)
  ultimately show ?thesis using that by (cases "cells (hp s) a") auto
qed

lemma rc_inv_mono: "rc_inv n s \<Longrightarrow> n \<le> m \<Longrightarrow> rc_inv m s"
  by (simp add: rc_inv_def)

lemma cell_below_brk: "rc_inv n s \<Longrightarrow> cells (hp s) a = Some d \<Longrightarrow> a < brk (hp s)"
  by (metis rc_inv_def not_less option.distinct(1))

lemma owners_bind: "owners (bind_var s x (a, h)) b = (if b = a then insert x (owners s b) else owners s b - {x})"
  by (auto simp: owners_def bind_var_def)

lemma unique_owner:
  assumes "counted d (card S)" and "Unique d" and "x \<in> S" and "card S < kUnsharedRefMark"
  shows "S = {x}"
proof -
  have "card S = 1" using assms by (auto simp: counted_def Unique_def)
  then show ?thesis using assms(3) by (auto simp: card_1_singleton_iff)
qed

lemma owners_fresh: "rc_inv n s \<Longrightarrow> owners s (brk (hp s)) = {}"
  unfolding rc_inv_def by (metis order_refl cell_ok_simps(1))

lemma abs_frame:
  assumes "\<And>b. b \<noteq> a \<Longrightarrow> owners s b \<noteq> {} \<Longrightarrow> b \<noteq> a' \<Longrightarrow> cells h b = cells (hp s) b"
    and "\<And>y. y \<noteq> x \<Longrightarrow> vars s y = Some a' \<Longrightarrow> map_option sd_value (cells h a') = map_option sd_value (cells (hp s) a')"
    and "cells h a = Some d" and "\<And>y. y \<noteq> x \<Longrightarrow> vars s y = Some a \<Longrightarrow> map_option sd_value (cells (hp s) a) = Some (sd_value d)"
  shows "rc_abs (bind_var s x (a, h)) = (rc_abs s)(x \<mapsto> sd_value d)"
proof
  fix y
  show "rc_abs (bind_var s x (a, h)) y = ((rc_abs s)(x \<mapsto> sd_value d)) y"
  proof (cases "y = x \<or> vars s y = None \<or> vars s y = Some a")
    case True
    then show ?thesis using assms(3) assms(4) [of y] by (cases "y = x") (auto simp: rc_abs_def)
  next
    case False
    then obtain b where b: "vars s y = Some b" "b \<noteq> a" "y \<noteq> x" by auto
    then have "owners s b \<noteq> {}" by (auto simp: owners_def)
    then show ?thesis using assms(1,2) b by (cases "b = a'") (auto simp: rc_abs_def)
  qed
qed

text \<open>A new cell for a variable that was unbound.\<close>

lemma bind_fresh:
  assumes "rc_inv n s" and "vars s x = None" and "good_data d" and "ref_count d = 1"
  shows "rc_inv (Suc n) (bind_var s x (alloc_cell (hp s) d)) \<and>
    rc_abs (bind_var s x (alloc_cell (hp s) d)) = (rc_abs s)(x \<mapsto> sd_value d)"
proof
  let ?a = "brk (hp s)" and ?h = "(hp s)\<lparr>cells := (cells (hp s))(brk (hp s) := Some d), brk := brk (hp s) + 1\<rparr>"
  let ?s = "bind_var s x (?a, ?h)"
  have al: "alloc_cell (hp s) d = (?a, ?h)" by (simp add: alloc_cell_def)
  have "x \<notin> owners s b" for b using assms(2) by (simp add: owners_def)
  then have own: "owners ?s b = (if b = ?a then {x} else owners s b)" for b
    using owners_fresh [OF assms(1)] by (simp add: owners_bind)
  have "dom (vars ?s) = insert x (dom (vars s))" by auto
  moreover have "x \<notin> dom (vars s)" using assms(2) by auto
  ultimately have "finite (dom (vars ?s))" "card (dom (vars ?s)) \<le> Suc n"
    using assms(1) by (simp_all add: rc_inv_def)
  moreover have "\<forall>a \<ge> brk ?h. cells ?h a = None" using assms(1) by (simp add: rc_inv_def)
  moreover have "cell_ok (cells ?h b) (owners ?s b)" for b
    using assms(1,3,4) unfolding own by (simp add: rc_inv_def counted_def)
  ultimately show "rc_inv (Suc n) (bind_var s x (alloc_cell (hp s) d))"
    unfolding al rc_inv_def bind_var_simps by blast
  have "vars s y \<noteq> Some ?a" for y using owners_fresh [OF assms(1)] by (auto simp: owners_def)
  then show "rc_abs (bind_var s x (alloc_cell (hp s) d)) = (rc_abs s)(x \<mapsto> sd_value d)"
    unfolding al by (intro abs_frame [of ?a s ?a]) auto
qed

text \<open>A variable that was unbound joins the owners of a cell.\<close>

lemma bind_shared:
  assumes "rc_inv n s" and "n < kUnsharedRefMark - 1" and "vars s x = None" and "vars s y = Some a"
    and "cells (hp s) a = Some d" and "\<not> Unsharedable d"
  shows "\<exists>d'. AddRef d = Inr d' \<and> rc_inv (Suc n) (bind_var s x (a, write_cell (hp s) a d')) \<and>
    rc_abs (bind_var s x (a, write_cell (hp s) a d')) = (rc_abs s)(x \<mapsto> sd_value d)"
proof -
  let ?k = "card (owners s a)"
  obtain *: "good_data d" "counted d ?k" "finite (owners s a)" "y \<in> owners s a" "?k \<le> n"
    using rc_invD [OF assms(1,4)] assms(5) by (metis option.inject)
  then have k: "ref_count d = ?k" "0 < ?k" using assms(6) by (auto simp: counted_def Unsharedable_def)
  let ?d = "d\<lparr>ref_count := Suc ?k\<rparr>"
  have add: "AddRef d = Inr ?d" using k *(5) assms(2) by (simp add: AddRef_def kUnsharedRefMark_def)
  let ?s = "bind_var s x (a, write_cell (hp s) a ?d)"
  have x: "x \<notin> owners s b" for b using assms(3) by (simp add: owners_def)
  then have own: "owners ?s b = (if b = a then insert x (owners s a) else owners s b)" for b
    by (simp add: owners_bind)
  have "dom (vars ?s) = insert x (dom (vars s))" by auto
  moreover have "x \<notin> dom (vars s)" using assms(3) by auto
  ultimately have "finite (dom (vars ?s))" "card (dom (vars ?s)) \<le> Suc n"
    using assms(1) by (simp_all add: rc_inv_def)
  moreover have "\<forall>b \<ge> brk (hp ?s). cells (hp ?s) b = None"
    using assms(1) cell_below_brk [OF assms(1,5)] by (simp add: rc_inv_def)
  moreover have "cell_ok (cells (hp ?s) b) (owners ?s b)" for b
    using assms(1) * x [of a] unfolding own by (simp add: rc_inv_def counted_def)
  ultimately have "rc_inv (Suc n) ?s" unfolding rc_inv_def by blast
  moreover have "rc_abs ?s = (rc_abs s)(x \<mapsto> sd_value ?d)"
    using assms(5) by (intro abs_frame [of a s a]) auto
  ultimately show ?thesis using add by auto
qed

text \<open>The only owner of a cell replaces its content.\<close>

lemma rewrite_unique:
  assumes "rc_inv n s" and "n < kUnsharedRefMark" and "vars s x = Some a" and "cells (hp s) a = Some d"
    and "Unique d" and "good_data d'" and "Unique d'"
  shows "rc_inv n (bind_var s x (a, write_cell (hp s) a d')) \<and>
    rc_abs (bind_var s x (a, write_cell (hp s) a d')) = (rc_abs s)(x \<mapsto> sd_value d')"
proof
  let ?s = "bind_var s x (a, write_cell (hp s) a d')"
  obtain *: "good_data d" "counted d (card (owners s a))" "x \<in> owners s a" "card (owners s a) \<le> n"
    using rc_invD [OF assms(1,3)] assms(4) by (metis option.inject)
  then have one: "owners s a = {x}" using unique_owner assms(2,5) by (meson le_less_trans)
  have vs: "vars ?s = vars s" using assms(3) by auto
  then have own: "owners ?s b = owners s b" for b by (simp add: owners_def)
  have "\<forall>b \<ge> brk (hp ?s). cells (hp ?s) b = None"
    using assms(1) cell_below_brk [OF assms(1,4)] by (simp add: rc_inv_def)
  moreover have "cell_ok (cells (hp ?s) b) (owners ?s b)" for b
    using assms(1,6,7) one unfolding own by (simp add: rc_inv_def counted_def Unique_def)
  ultimately show "rc_inv n ?s" using assms(1) unfolding rc_inv_def vs by blast
  have "vars s y = Some a \<Longrightarrow> y = x" for y using one by (auto simp: owners_def)
  then show "rc_abs ?s = (rc_abs s)(x \<mapsto> sd_value d')"
    by (intro abs_frame [of a s a]) auto
qed

text \<open>An owner among several leaves the cell.\<close>

lemma release_shared:
  assumes "counted d k" and "\<not> Unique d" and "k < kUnsharedRefMark"
  shows "Release d = Inr (False, d\<lparr>ref_count := k - 1\<rparr>) \<and> 1 < k \<and> counted (d\<lparr>ref_count := k - 1\<rparr>) (k - 1)"
  using assms by (auto simp: Release_def counted_def Unique_def Unsharedable_def Let_def)

lemma detach:
  assumes "rc_inv n s" and "n < kUnsharedRefMark" and "vars s x = Some a" and "cells (hp s) a = Some d"
    and "\<not> Unique d" and "good_data nd" and "Unique nd" and "alloc_cell (hp s) nd = (b, h)"
  shows "\<exists>r d'. Release d = Inr (r, d') \<and> rc_inv n (bind_var s x (b, write_cell h a d')) \<and>
    rc_abs (bind_var s x (b, write_cell h a d')) = (rc_abs s)(x \<mapsto> sd_value nd)"
proof -
  let ?k = "card (owners s a)"
  obtain *: "good_data d" "counted d ?k" "finite (owners s a)" "x \<in> owners s a" "?k \<le> n"
    using rc_invD [OF assms(1,3)] assms(4) by (metis option.inject)
  let ?d = "d\<lparr>ref_count := ?k - 1\<rparr>"
  have r: "Release d = Inr (False, ?d)" "1 < ?k" "counted ?d (?k - 1)"
    using release_shared [OF *(2) assms(5)] *(5) assms(2) by auto
  have b: "b = brk (hp s)" "h = (hp s)\<lparr>cells := (cells (hp s))(b := Some nd), brk := b + 1\<rparr>"
    using assms(8) by (auto simp: alloc_cell_def)
  have ab: "a < b" using cell_below_brk [OF assms(1,4)] b(1) by simp
  let ?s = "bind_var s x (b, write_cell h a ?d)"
  have "x \<notin> owners s c" if "c \<noteq> a" for c using assms(3) that by (simp add: owners_def)
  then have own: "owners ?s c = (if c = b then {x} else if c = a then owners s a - {x} else owners s c)" for c
    using owners_fresh [OF assms(1)] b(1) ab by (auto simp: owners_bind)
  have dm: "dom (vars ?s) = dom (vars s)" using assms(3) by auto
  have "\<forall>c \<ge> brk (hp ?s). cells (hp ?s) c = None"
    using assms(1) ab b by (simp add: rc_inv_def)
  moreover have "counted nd 1" using assms(7) by (auto simp: counted_def Unique_def)
  then have "cell_ok (cells (hp ?s) c) (owners ?s c)" for c
    using assms(1,6) * r(3) ab b(2) unfolding own by (simp add: rc_inv_def)
  ultimately have "rc_inv n ?s" using assms(1) unfolding rc_inv_def dm by blast
  moreover have "vars s y \<noteq> Some b" for y using owners_fresh [OF assms(1)] b(1) by (auto simp: owners_def)
  then have "rc_abs ?s = (rc_abs s)(x \<mapsto> sd_value nd)"
    using assms(4) ab b(2) by (intro abs_frame [of b s a]) auto
  ultimately show ?thesis using r(1) by blast
qed

text \<open>A variable goes out of scope; the last owner frees the cell.\<close>

lemma drop_var:
  assumes "rc_inv n s" and "n < kUnsharedRefMark" and "vars s x = Some a"
  shows "\<exists>h. RCString_destroy (hp s) a = Inr h \<and> rc_inv n \<lparr>hp = h, vars = (vars s)(x := None)\<rparr> \<and>
    rc_abs \<lparr>hp = h, vars = (vars s)(x := None)\<rparr> = (rc_abs s)(x := None)"
proof -
  let ?k = "card (owners s a)"
  obtain d where *: "cells (hp s) a = Some d" "good_data d" "counted d ?k" "finite (owners s a)"
      "x \<in> owners s a" "?k \<le> n"
    using rc_invD [OF assms(1,3)] by blast
  obtain h c where h: "RCString_destroy (hp s) a = Inr h" "cells h = (cells (hp s))(a := c)" "brk h = brk (hp s)"
      "cell_ok c (owners s a - {x})" "owners s a \<noteq> {x} \<Longrightarrow> map_option sd_value c = Some (sd_value d)"
  proof (cases "Unique d")
    case True
    then have "owners s a = {x}" using unique_owner [OF *(3) _ *(5)] *(6) assms(2) by linarith
    then show ?thesis
      using that [of "(hp s)\<lparr>cells := (cells (hp s))(a := None)\<rparr>" None] True *(1)
      by (auto simp: RCString_destroy_def deref_def Release_def Unique_def Unsharedable_def kUnsharedRefMark_def
          delete_cell_def Let_def write_cell_def)
  next
    case False
    have r: "Release d = Inr (False, d\<lparr>ref_count := ?k - 1\<rparr>)" "counted (d\<lparr>ref_count := ?k - 1\<rparr>) (?k - 1)"
      using release_shared [OF *(3) False] *(6) assms(2) by auto
    then show ?thesis
      using that [of "write_cell (hp s) a (d\<lparr>ref_count := ?k - 1\<rparr>)" "Some (d\<lparr>ref_count := ?k - 1\<rparr>)"] *
      by (simp add: RCString_destroy_def deref_def Let_def)
  qed
  let ?s = "\<lparr>hp = h, vars = (vars s)(x := None)\<rparr>"
  have "x \<notin> owners s b" if "b \<noteq> a" for b using assms(3) that by (simp add: owners_def)
  then have own: "owners ?s b = (if b = a then owners s a - {x} else owners s b)" for b
    by (auto simp: owners_def)
  have "finite (dom (vars ?s))" "card (dom (vars ?s)) \<le> n"
    using assms(1) card_Diff1_le [of "dom (vars s)" x] by (auto simp: rc_inv_def)
  moreover have "\<forall>b \<ge> brk (hp ?s). cells (hp ?s) b = None"
    using assms(1) cell_below_brk [OF assms(1) *(1)] h(2,3) by (simp add: rc_inv_def)
  moreover have "cell_ok (cells (hp ?s) b) (owners ?s b)" for b
    using assms(1) h(2,4) unfolding own by (simp add: rc_inv_def)
  ultimately have "rc_inv n ?s" unfolding rc_inv_def by blast
  moreover have "owners s a \<noteq> {x}" if "y \<noteq> x" "vars s y = Some a" for y
    using that by (auto simp: owners_def)
  then have "rc_abs ?s = (rc_abs s)(x := None)"
    using h(2,5) *(1) by (fastforce simp: rc_abs_def split: option.split)
  ultimately show ?thesis using h(1) by blast
qed

section \<open>The operations\<close>

lemma bind_var_twice [simp]: "bind_var (bind_var s x r) x r' = bind_var s x r'"
  by (simp add: bind_var_def)

lemma abs_of_var: "vars s x = Some a \<Longrightarrow> cells (hp s) a = Some d \<Longrightarrow> rc_abs s x = Some (sd_value d)"
  by (simp add: rc_abs_def)

lemma PrepareToModify_ok:
  assumes "good_memory mem" and "rc_inv n s" and "n < kUnsharedRefMark" and "vars s x = Some a"
    and "cells (hp s) a = Some d" and "req \<le> 2 ^ 60 \<or> req \<le> capacity d"
  obtains b h d' where "PrepareToModify mem (hp s) a req flag = Inr (b, h)"
    and "rc_inv n (bind_var s x (b, h))" and "rc_abs (bind_var s x (b, h)) = rc_abs s"
    and "cells h b = Some d'" and "good_data d'" and "req \<le> capacity d'" and "sd_value d' = sd_value d"
    and "Unique d'" and "ref_count d' = (if flag then kUnsharedRefMark else 1)"
proof -
  have good: "good_data d" using rc_invD [OF assms(2,4)] assms(5) by (metis option.inject)
  then have req: "req \<le> 2 ^ 61" using assms(6) by (auto simp: good_data_def)
  have abs: "(rc_abs s)(x \<mapsto> sd_value d) = rc_abs s" using abs_of_var [OF assms(4,5)] by auto
  obtain b h1 d1 where *: "(if \<not> Unique d
        then rbind (Clone mem req d) (\<lambda>new_data. let (b, h) = alloc_cell (hp s) new_data in
             rbind (Release d) (\<lambda>(_, d). Inr (b, write_cell h a d)))
        else rbind (Reserve mem req d) (\<lambda>d. Inr (a, write_cell (hp s) a d))) = Inr (b, h1)"
      "rc_inv n (bind_var s x (b, h1))" "rc_abs (bind_var s x (b, h1)) = rc_abs s"
      "cells h1 b = Some d1" "good_data d1" "req \<le> capacity d1" "sd_value d1 = sd_value d" "Unique d1"
  proof (cases "Unique d")
    case True
    have "capacity d * 3 div 2 \<le> 2 ^ 61 \<or> req \<le> capacity d" using assms(6) by auto
    from Reserve_ok [OF assms(1) good this req] obtain d1 where d1: "Reserve mem req d = Inr d1"
        "good_data d1" "req \<le> capacity d1" "ref_count d1 = ref_count d" "sd_value d1 = sd_value d" by blast
    moreover have "Unique d1" using True d1(4) by (simp add: Unique_def)
    ultimately show ?thesis
      using that [of a "write_cell (hp s) a d1" d1] True abs
        rewrite_unique [OF assms(2-5) True, of d1] by simp
  next
    case False
    obtain nd where nd: "Clone mem req d = Inr nd" "good_data nd" "req \<le> capacity nd" "ref_count nd = 1"
        "sd_value nd = sd_value d"
      using Clone_ok [OF assms(1) good req] by blast
    obtain b h where bh: "alloc_cell (hp s) nd = (b, h)" by fastforce
    have u: "Unique nd" using nd(4) by (simp add: Unique_def)
    obtain r d' where "Release d = Inr (r, d')" "rc_inv n (bind_var s x (b, write_cell h a d'))"
        "rc_abs (bind_var s x (b, write_cell h a d')) = (rc_abs s)(x \<mapsto> sd_value nd)"
      using detach [OF assms(2-5) False nd(2) u bh] by blast
    moreover have "cells (write_cell h a d') b = Some nd"
      using bh cell_below_brk [OF assms(2,5)] by (auto simp: alloc_cell_def)
    ultimately show ?thesis
      using that [of b "write_cell h a d'" nd] False nd bh u abs by simp
  qed
  let ?d = "d1\<lparr>ref_count := if flag then kUnsharedRefMark else 1\<rparr>"
  have "rc_inv n (bind_var s x (b, write_cell h1 b ?d)) \<and>
      rc_abs (bind_var s x (b, write_cell h1 b ?d)) = (rc_abs s)(x \<mapsto> sd_value d)"
    using rewrite_unique [OF *(2) assms(3), of x b d1 ?d] *(3-8) by (simp add: Unique_def)
  moreover have "PrepareToModify mem (hp s) a req flag = Inr (b, write_cell h1 b ?d)"
    using *(1,4,8) assms(5)
    by (simp add: PrepareToModify_def deref_def MakeUnsharedable_def ResetSharedable_def)
  ultimately show ?thesis
    using that [of b "write_cell h1 b ?d" ?d] *(5-7) abs by (simp add: Unique_def)
qed

lemma assign_ok:
  assumes "rc_inv n s" and "n < kUnsharedRefMark" and "vars s x = Some a" and "cells (hp s) a = Some d"
    and "Unique d" and "good_data d" and "i < length (sd_value d)"
  shows "\<exists>h. assign (hp s) (a, i) c = Inr h \<and> rc_inv n (bind_var s x (a, h)) \<and>
    rc_abs (bind_var s x (a, h)) = (rc_abs s)(x \<mapsto> (sd_value d)[i := c])"
proof -
  obtain b where b: "buffer d = Some b" "length b = capacity d" "sd_size d \<le> capacity d"
    using assms(6,7) by (auto simp: good_data_def sd_value_def split: option.splits)
  let ?d = "d\<lparr>buffer := Some (b[i := c])\<rparr>"
  have i: "i < length b" "i < sd_size d" using assms(7) b by (auto simp: sd_value_def)
  have "good_data ?d" "Unique ?d" using assms(5,6) b by (simp_all add: good_data_def Unique_def)
  moreover have "sd_value ?d = (sd_value d)[i := c]" using b(1) i by (simp add: sd_value_def take_update_swap)
  ultimately show ?thesis
    using rewrite_unique [OF assms(1-5), of ?d] i(1) b(1) assms(4)
    by (simp add: assign_def deref_def set_at_def)
qed

lemma copy_ok:
  assumes "good_memory mem" and "rc_inv n s" and "n < kUnsharedRefMark - 1" and "vars s x = None"
    and "vars s y = Some a" and "cells (hp s) a = Some d"
  shows "\<exists>r. RCString_copy mem (hp s) a = Inr r \<and> rc_inv (Suc n) (bind_var s x r) \<and>
    rc_abs (bind_var s x r) = (rc_abs s)(x \<mapsto> sd_value d) \<and>
    (Unsharedable d \<longrightarrow> cells (snd r) a = Some d)"
proof (cases "Unsharedable d")
  case True
  have good: "good_data d" using rc_invD [OF assms(2,5)] assms(6) by (metis option.inject)
  then have "sd_size d \<le> 2 ^ 61" by (simp add: good_data_def)
  then obtain nd where nd: "Clone mem (sd_size d) d = Inr nd" "good_data nd" "ref_count nd = 1" "sd_value nd = sd_value d"
    using Clone_ok [OF assms(1) good] by blast
  have "a \<noteq> brk (hp s)" using cell_below_brk [OF assms(2,6)] by simp
  then show ?thesis
    using bind_fresh [OF assms(2,4) nd(2,3)] nd assms(6) True
    by (simp add: RCString_copy_def deref_def alloc_cell_def)
next
  case False
  then show ?thesis
    using bind_shared [OF assms(2-6) False] assms(6) by (auto simp: RCString_copy_def deref_def)
qed

lemma rc_abs_Some:
  assumes "rc_inv n s" and "rc_abs s x = Some v"
  obtains a d where "vars s x = Some a" and "cells (hp s) a = Some d" and "good_data d" and "v = sd_value d"
    and "rc_output (hp s) a = Inr v" and "rc_size (hp s) a = Inr (length v)"
proof -
  obtain a d where ad: "vars s x = Some a" "cells (hp s) a = Some d" "v = sd_value d"
    using assms(2) by (auto simp: rc_abs_def split: option.splits)
  have g: "good_data d" using rc_invD [OF assms(1) ad(1)] ad(2) by (metis option.inject)
  then have "rc_output (hp s) a = Inr v"
    using ad(2,3) by (auto simp: rc_output_def deref_def good_data_def sd_value_def load_def split: option.splits)
  then show ?thesis using that ad g length_sd_value [OF g] by (simp add: rc_size_def deref_def)
qed

lemma rc_abs_None: "rc_inv n s \<Longrightarrow> rc_abs s x = None \<Longrightarrow> vars s x = None"
proof (cases "vars s x")
  case (Some a)
  assume "rc_inv n s" and none: "rc_abs s x = None"
  then obtain d where "cells (hp s) a = Some d" using rc_invD [OF _ Some] by blast
  with none Some show ?thesis by (simp add: rc_abs_def)
qed simp

lemma Append_ok:
  assumes "good_memory mem" and "rc_inv n s" and "n < kUnsharedRefMark" and "rc_abs s x = Some v"
    and "length v + length str \<le> max_string"
  shows "\<exists>s'. rc_step mem s (Append_to x str) = Inr s' \<and> rc_inv n s' \<and> rc_abs s' = (rc_abs s)(x \<mapsto> v @ str)"
proof -
  obtain a d where ad: "vars s x = Some a" "cells (hp s) a = Some d" "good_data d" "v = sd_value d"
    using rc_abs_Some [OF assms(2,4)] by blast
  have sz: "sd_size d = length v" using length_sd_value ad(3,4) by simp
  then have w: "wrap (sd_size d + length str) = sd_size d + length str" "sd_size d + length str \<le> 2 ^ 60"
    using assms(5) by (simp_all add: max_string_def)
  obtain b h d1 where p: "PrepareToModify mem (hp s) a (sd_size d + length str) False = Inr (b, h)"
      "rc_inv n (bind_var s x (b, h))" "rc_abs (bind_var s x (b, h)) = rc_abs s" "cells h b = Some d1"
      "good_data d1" "sd_size d + length str \<le> capacity d1" "sd_value d1 = sd_value d" "Unique d1"
    using PrepareToModify_ok [OF assms(1-3) ad(1,2) disjI1 [OF w(2)]] by blast
  have "sd_size d1 = sd_size d" using length_sd_value [OF p(5)] p(7) sz ad(4) by simp
  then obtain d2 where d2: "CopyData (Some str) (length str) (sd_size d1) d1 = Inr d2" "good_data d2"
      "ref_count d2 = ref_count d1" "sd_value d2 = sd_value d1 @ take (length str) str"
    using CopyData_ok [OF p(5,8), of "length str" "Some str" str] p(6) by auto
  have "Unique d2" using p(8) d2(3) by (simp add: Unique_def)
  from rewrite_unique [OF p(2) assms(3) _ _ p(8) d2(2) this, of x b] show ?thesis
    using p d2 ad w(1) by (simp add: Append_def object_of_def deref_def)
qed

lemma Assign_ok:
  assumes "good_memory mem" and "rc_inv n s" and "n < kUnsharedRefMark" and "rc_abs s x = Some v" and "i < length v"
  shows "\<exists>s'. rc_step mem s (Assign_at x i c) = Inr s' \<and> rc_inv n s' \<and> rc_abs s' = (rc_abs s)(x \<mapsto> v[i := c])"
proof -
  obtain a d where ad: "vars s x = Some a" "cells (hp s) a = Some d" "good_data d" "v = sd_value d"
      "rc_size (hp s) a = Inr (length v)"
    using rc_abs_Some [OF assms(2,4)] by blast
  have "length v \<le> capacity d" using length_sd_value [OF ad(3)] ad(3,4) by (simp add: good_data_def)
  then obtain b h d1 where p: "PrepareToModify mem (hp s) a (length v) True = Inr (b, h)"
      "rc_inv n (bind_var s x (b, h))" "rc_abs (bind_var s x (b, h)) = rc_abs s" "cells h b = Some d1"
      "good_data d1" "sd_value d1 = sd_value d" "Unique d1"
    using PrepareToModify_ok [OF assms(1-3) ad(1,2)] by blast
  from assign_ok [OF p(2) assms(3) _ _ p(7,5), of x b i c] show ?thesis
    using p ad assms(5) by (auto simp: subscript_def object_of_def)
qed

lemma rc_step_simulates:
  assumes "good_memory mem" and "rc_inv n s" and "n < kUnsharedRefMark - 1" and "value_step (rc_abs s) op = Some m"
  shows "\<exists>s'. rc_step mem s op = Inr s' \<and> rc_inv (Suc n) s' \<and> rc_abs s' = m"
proof (cases op)
  case (Make x)
  obtain d where d: "StringData_new mem kBaseSize = Inr d" "good_data d" "ref_count d = 1" "sd_value d = []"
    using StringData_new_ok [OF assms(1), of kBaseSize] by (auto simp: kBaseSize_def)
  have "vars s x = None" "m = (rc_abs s)(x \<mapsto> [])"
    using assms(2,4) Make rc_abs_None by (auto split: if_splits)
  then show ?thesis using bind_fresh [OF assms(2) _ d(2,3)] d Make by (simp add: RCString_new_def)
next
  case (Make_str x str)
  then have x: "vars s x = None" "m = (rc_abs s)(x \<mapsto> str)" "length str \<le> 2 ^ 61"
    using assms(2,4) rc_abs_None by (auto simp: max_string_def split: if_splits)
  obtain d where d: "StringData_new mem (length str) = Inr d" "good_data d" "length str \<le> capacity d"
      "sd_size d = 0" "ref_count d = 1" "sd_value d = []"
    using StringData_new_ok [OF assms(1) x(3)] by blast
  obtain d' where "CopyData (Some str) (length str) (sd_size d) d = Inr d'" "good_data d'" "ref_count d' = ref_count d"
      "sd_value d' = sd_value d @ take (length str) str"
    using CopyData_ok [OF d(2), of "length str" "Some str" str] d(3-5) by (auto simp: Unique_def)
  then show ?thesis
    using bind_fresh [OF assms(2) x(1), of d'] d x Make_str by (simp add: RCString_sized_def)
next
  case (Copy_of x y)
  then obtain v where "rc_abs s y = Some v" "m = (rc_abs s)(x \<mapsto> v)" "vars s x = None"
    using assms(2,4) rc_abs_None by (auto split: if_splits option.splits)
  moreover from this(1) obtain a d where "vars s y = Some a" "cells (hp s) a = Some d" "v = sd_value d"
    using rc_abs_Some [OF assms(2)] by blast
  ultimately show ?thesis
    using copy_ok [OF assms(1-3), of x y a d] Copy_of by (auto simp: object_of_def)
next
  case (Append_to x str)
  then show ?thesis
    using assms Append_ok [OF assms(1,2)] rc_inv_mono [of n _ "Suc n"]
    by (fastforce split: option.splits if_splits)
next
  case (Assign_at x i c)
  then show ?thesis
    using assms Assign_ok [OF assms(1,2)] rc_inv_mono [of n _ "Suc n"]
    by (fastforce split: option.splits if_splits)
next
  case (Drop x)
  then obtain v where "rc_abs s x = Some v" "m = (rc_abs s)(x := None)"
    using assms(4) by (auto split: if_splits)
  then obtain a where "vars s x = Some a" using rc_abs_Some [OF assms(2)] by blast
  then show ?thesis
    using drop_var [OF assms(2)] assms(3) Drop \<open>m = _\<close> rc_inv_mono [of n _ "Suc n"]
    by (fastforce simp: object_of_def)
qed

interpretation rc: simulation "\<lambda>n s. good_memory mem \<and> rc_inv n s" rc_abs "rc_step mem" value_step "kUnsharedRefMark - 1"
  for mem :: memory
  by unfold_locales (use rc_step_simulates in blast)

section \<open>Properties\<close>

definition rc_start :: rc_sys where
  "rc_start = \<lparr>hp = \<lparr>cells = \<lambda>_. None, brk = 0\<rparr>, vars = \<lambda>_. None\<rparr>"

lemma rc_start_ok: "rc_inv 0 rc_start \<and> rc_abs rc_start = Map.empty"
  by (auto simp: rc_inv_def rc_abs_def rc_start_def owners_def)

text \<open>
  Property C13. Copy-on-write strings are values: in any program of constructions, copies, appends, writes
  through \<open>operator[]\<close> and destructions no operation faults, and every string reads as if strings were
  never shared. The cells on the heap are exactly those some string object points to, so nothing
  leaks and nothing dangles. (New objects are assumed to find \<open>capacity_\<close> zero in their memory.)
\<close>

theorem rc_strings_are_values:
  assumes "good_memory mem" and "length ops \<le> 2 ^ 32 - 2" and "ofold value_step ops Map.empty = Some m"
  shows "\<exists>s. rfold (rc_step mem) ops rc_start = Inr s \<and>
    (\<forall>x. case m x of None \<Rightarrow> vars s x = None
       | Some v \<Rightarrow> \<exists>a. vars s x = Some a \<and> rc_output (hp s) a = Inr v \<and> rc_size (hp s) a = Inr (length v)) \<and>
    (\<forall>a. cells (hp s) a \<noteq> None \<longleftrightarrow> (\<exists>x. vars s x = Some a))"
proof -
  have "0 + length ops \<le> kUnsharedRefMark - 1" using assms(2) by (simp add: kUnsharedRefMark_def)
  from rc.run_law [OF _ this, of mem rc_start m] obtain s where s: "rfold (rc_step mem) ops rc_start = Inr s"
      "rc_inv (length ops) s" "rc_abs s = m"
    using assms(1,3) rc_start_ok by auto
  have "case m x of None \<Rightarrow> vars s x = None
      | Some v \<Rightarrow> \<exists>a. vars s x = Some a \<and> rc_output (hp s) a = Inr v \<and> rc_size (hp s) a = Inr (length v)" for x
    using rc_abs_None [OF s(2)] rc_abs_Some [OF s(2)] s(3) by (fastforce split: option.split)
  moreover have "cells (hp s) a \<noteq> None \<longleftrightarrow> (\<exists>x. vars s x = Some a)" for a
  proof -
    have "cell_ok (cells (hp s) a) (owners s a)" using s(2) by (simp add: rc_inv_def)
    then have "cells (hp s) a \<noteq> None \<longleftrightarrow> owners s a \<noteq> {}"
      by (cases "cells (hp s) a") (auto simp: counted_def)
    then show ?thesis by (auto simp: owners_def)
  qed
  ultimately show ?thesis using s(1) by blast
qed

definition zero_memory :: memory where
  "zero_memory = \<lparr>junk_capacity = 0, new_bytes = \<lambda>n. replicate n 0\<rparr>"

definition rc_example :: "rc_op list" where
  "rc_example = [Make_str 0 [104, 105], Copy_of 1 0, Assign_at 1 0 72, Copy_of 2 1, Append_to 2 [33], Drop 0]"

theorem rc_strings_are_values_witness:
  "\<exists>s a. rfold (rc_step zero_memory) rc_example rc_start = Inr s \<and> vars s 0 = None \<and>
     vars s 2 = Some a \<and> rc_output (hp s) a = Inr [72, 105, 33]"
proof -
  let ?m = "[1 \<mapsto> [72, 105], 2 \<mapsto> [72, 105, 33]] :: nat \<Rightarrow> byte list option"
  have "good_memory zero_memory" "length rc_example \<le> 2 ^ 32 - 2"
    by (simp_all add: good_memory_def zero_memory_def rc_example_def)
  moreover have "ofold value_step rc_example Map.empty = Some ?m"
    by (auto simp: rc_example_def max_string_def)
  ultimately obtain s where s: "rfold (rc_step zero_memory) rc_example rc_start = Inr s"
      "\<And>x. case ?m x of None \<Rightarrow> vars s x = None
        | Some v \<Rightarrow> \<exists>a. vars s x = Some a \<and> rc_output (hp s) a = Inr v \<and> rc_size (hp s) a = Inr (length v)"
    using rc_strings_are_values [of zero_memory rc_example ?m] by blast
  show ?thesis using s(1) s(2) [of 0] s(2) [of 2] by auto
qed

text \<open>
  Fact. A reference obtained from \<open>operator[]\<close> stays private to its string: a copy made while the
  reference is alive gets data of its own, so a later write through the reference changes the
  original and not the copy.
\<close>

theorem rc_reference_is_private:
  assumes "good_memory mem" and "rc_inv n s" and "n < 2 ^ 32 - 2" and "rc_abs s x = Some v" and "i < length v"
    and "vars s y = None"
  shows "\<exists>a ref b h r h'. vars s x = Some a \<and> subscript mem (hp s) a i = Inr (ref, b, h) \<and>
    RCString_copy mem h b = Inr r \<and> assign (snd r) ref c = Inr h' \<and>
    rc_abs (bind_var (bind_var s x (b, h)) y (fst r, h')) = (rc_abs s)(y \<mapsto> v, x \<mapsto> v[i := c])"
proof -
  have n: "n < kUnsharedRefMark - 1" "n < kUnsharedRefMark" "Suc n < kUnsharedRefMark"
    using assms(3) by (simp_all add: kUnsharedRefMark_def)
  obtain a d where ad: "vars s x = Some a" "cells (hp s) a = Some d" "good_data d" "v = sd_value d"
      "rc_size (hp s) a = Inr (length v)"
    using rc_abs_Some [OF assms(2,4)] by blast
  have "length v \<le> capacity d" using length_sd_value [OF ad(3)] ad(3,4) by (simp add: good_data_def)
  then obtain b h d1 where p: "PrepareToModify mem (hp s) a (length v) True = Inr (b, h)"
      "rc_inv n (bind_var s x (b, h))" "rc_abs (bind_var s x (b, h)) = rc_abs s" "cells h b = Some d1"
      "good_data d1" "sd_value d1 = sd_value d" "Unique d1" "ref_count d1 = kUnsharedRefMark"
    using PrepareToModify_ok [OF assms(1,2) n(2) ad(1,2), of "length v" True, unfolded if_True] by metis
  let ?s = "bind_var s x (b, h)"
  have xy: "x \<noteq> y" using ad(1) assms(6) by auto
  obtain r where r: "RCString_copy mem h b = Inr r" "rc_inv (Suc n) (bind_var ?s y r)"
      "rc_abs (bind_var ?s y r) = (rc_abs ?s)(y \<mapsto> sd_value d1)" "cells (snd r) b = Some d1"
    using copy_ok [OF assms(1) p(2) n(1), of y x b d1] p(4,8) assms(6) xy by (auto simp: Unsharedable_def)
  obtain e k where ek: "r = (e, k)" by fastforce
  have "i < length (sd_value d1)" using assms(5) p(6) ad(4) by simp
  then obtain h' where h': "assign k (b, i) c = Inr h'"
      "rc_abs (bind_var (bind_var ?s y r) x (b, h')) = (rc_abs (bind_var ?s y r))(x \<mapsto> (sd_value d1)[i := c])"
    using assign_ok [OF r(2) n(3), of x b d1 i c] xy r(4) p(5,7) ek by auto
  have "bind_var (bind_var ?s y r) x (b, h') = bind_var ?s y (e, h')"
    using xy ek by (auto simp: bind_var_def)
  then show ?thesis
    using ad p(1,3,6) r(1,3) h' ek by (auto simp: subscript_def)
qed

theorem rc_reference_is_private_witness:
  "\<exists>s ref b h r h'. rc_abs s 0 = Some [104, 105] \<and> subscript zero_memory (hp s) 0 1 = Inr (ref, b, h) \<and>
     RCString_copy zero_memory h b = Inr r \<and> assign (snd r) ref 111 = Inr h' \<and>
     rc_abs (bind_var (bind_var s 0 (b, h)) 1 (fst r, h')) = [0 \<mapsto> [104, 111], 1 \<mapsto> [104, 105]]"
proof -
  have mem: "good_memory zero_memory" by (simp add: good_memory_def zero_memory_def)
  let ?d = "\<lparr>buffer = Some [104, 105, 0, 0], capacity = 4, sd_size = 2, ref_count = 1\<rparr>"
  let ?s = "bind_var rc_start 0 (alloc_cell (hp rc_start) ?d)"
  have "good_data ?d" "sd_value ?d = [104, 105]" by (simp_all add: good_data_def sd_value_def)
  then have s: "rc_inv (Suc 0) ?s" "rc_abs ?s = [0 \<mapsto> [104, 105]]"
    using bind_fresh [of 0 rc_start 0 ?d] rc_start_ok by (auto simp: rc_start_def)
  have "vars ?s 0 = Some 0" "vars ?s 1 = None" by (simp_all add: alloc_cell_def rc_start_def)
  moreover have "[0 \<mapsto> [104, 105], Suc 0 \<mapsto> [104, 105], 0 \<mapsto> [104, 111]] = [0 \<mapsto> [104, 111], 1 \<mapsto> [104, 105 :: byte]]"
    by auto
  ultimately show ?thesis
    using rc_reference_is_private [OF mem s(1), of 0 "[104, 105]" 1 1 111] s(2)
    by (intro exI [of _ ?s]) simp
qed

text \<open>
  Fact. The member \<open>capacity_\<close> is read before it is set: when the memory of the new data holds a
  number not below the requested length, no buffer is allocated and constructing the string writes
  through a null pointer.
\<close>

theorem rc_uninitialised_capacity:
  assumes "0 < len" and "len \<le> junk_capacity mem" and "len \<le> length str" and "junk_capacity mem < 2 ^ 64"
  shows "RCString_sized mem h str len = Inl Null_deref"
  using assms
  by (simp add: RCString_sized_def StringData_new_def Reserve_def CopyData_def Unique_def memcpy_s_def)

theorem rc_uninitialised_capacity_witness:
  "RCString_sized \<lparr>junk_capacity = 32, new_bytes = \<lambda>n. replicate n 0\<rparr> (hp rc_start) [104, 105] 2 = Inl Null_deref"
  by (rule rc_uninitialised_capacity) simp_all

end
