(* ===== verification/TS_String.thy ===== *)
theory TS_String
  imports RC_String
begin

text \<open>
  The thread-safe variant of the string (\<open>src/RCString/src/thread_safe_rc_string.cpp\<close>). Its functions are those of the other
  string, but the reference count is atomic and every access to it is a step that other threads may
  come between. The theory shows that strings used by several threads, each object by one thread at a time except for
  copying from it, never fault and are still independent values.
\<close>

section \<open>Threads\<close>

text \<open>What is done to a string once its data is its own: \<open>Append\<close>, or an assignment through \<open>operator[]\<close>.\<close>

datatype edit = Add "byte list" | Put nat byte

text \<open>What follows a release: the end of the destructor, or the rest of \<open>PrepareToModify\<close>.\<close>

datatype after = Finish | Then_mark nat edit

text \<open>
  The place of a thread, named after its next access to a count; what lies between two accesses concerns data
  of the thread's own. String objects are numbered; the number of a \<open>Rel\<close> or \<open>Del\<close> place is the address of the
  data that is let go.
\<close>

datatype place =
    Idle
  | Copy_check nat nat | Copy_assert nat nat | Copy_add nat nat | Copy_clone nat nat
  | Mod_check nat edit | Mod_reserve nat edit nat | Mod_clone nat edit nat
  | Rel_assert nat after | Rel_check nat after | Rel_sub nat after | Del nat after
  | Mark_assert nat edit | Mark_store nat edit | Edit_write nat edit

text \<open>\<open>history\<close> is not the code's: what the threads have done to the strings, in order.\<close>

record world =
  wheap :: heap
  owner :: "nat \<Rightarrow> nat option"
  place :: "nat \<Rightarrow> place"
  threads :: nat
  history :: "rc_op list"

definition world_new :: "nat \<Rightarrow> world" where
  "world_new n = \<lparr>wheap = \<lparr>cells = (\<lambda>_. None), brk = 0\<rparr>, owner = (\<lambda>_. None), place = (\<lambda>_. Idle), threads = n, history = []\<rparr>"

text \<open>The string objects that a thread reads and those that it changes.\<close>

fun after_writes :: "after \<Rightarrow> nat set" where
  "after_writes Finish = {}"
| "after_writes (Then_mark h e) = {h}"

fun reads :: "place \<Rightarrow> nat set" where
  "reads (Copy_check s d) = {s}"
| "reads (Copy_assert s d) = {s}"
| "reads (Copy_add s d) = {s}"
| "reads (Copy_clone s d) = {s}"
| "reads p = {}"

fun writes :: "place \<Rightarrow> nat set" where
  "writes Idle = {}"
| "writes (Copy_check s d) = {d}"
| "writes (Copy_assert s d) = {d}"
| "writes (Copy_add s d) = {d}"
| "writes (Copy_clone s d) = {d}"
| "writes (Mod_check h e) = {h}"
| "writes (Mod_reserve h e n) = {h}"
| "writes (Mod_clone h e n) = {h}"
| "writes (Rel_assert a k) = after_writes k"
| "writes (Rel_check a k) = after_writes k"
| "writes (Rel_sub a k) = after_writes k"
| "writes (Del a k) = after_writes k"
| "writes (Mark_assert h e) = {h}"
| "writes (Mark_store h e) = {h}"
| "writes (Edit_write h e) = {h}"

definition used_by_others :: "world \<Rightarrow> nat \<Rightarrow> nat \<Rightarrow> bool" where
  "used_by_others w t h \<longleftrightarrow> list_ex (\<lambda>u. u \<noteq> t \<and> (h \<in> reads (place w u) \<or> h \<in> writes (place w u))) [0..<threads w]"

definition written_by_others :: "world \<Rightarrow> nat \<Rightarrow> nat \<Rightarrow> bool" where
  "written_by_others w t h \<longleftrightarrow> list_ex (\<lambda>u. u \<noteq> t \<and> h \<in> writes (place w u)) [0..<threads w]"

section \<open>Steps\<close>

definition goto :: "nat \<Rightarrow> place \<Rightarrow> world \<Rightarrow> world" where
  "goto t p w = w\<lparr>place := (place w)(t := p)\<rparr>"

definition done_with :: "nat \<Rightarrow> after \<Rightarrow> world \<Rightarrow> world" where
  "done_with t k w = goto t (case k of Finish \<Rightarrow> Idle | Then_mark h e \<Rightarrow> Mark_assert h e) w"

definition set_cell :: "nat \<Rightarrow> string_data \<Rightarrow> world \<Rightarrow> world" where
  "set_cell a x w = w\<lparr>wheap := write_cell (wheap w) a x\<rparr>"

definition new_cell :: "nat \<Rightarrow> string_data \<Rightarrow> world \<Rightarrow> world" where
  "new_cell h x w = (case alloc_cell (wheap w) x of (a, hp') \<Rightarrow> w\<lparr>wheap := hp', owner := (owner w)(h := Some a)\<rparr>)"

definition log_op :: "rc_op \<Rightarrow> world \<Rightarrow> world" where
  "log_op e w = w\<lparr>history := history w @ [e]\<rparr>"

definition data_of :: "world \<Rightarrow> nat \<Rightarrow> (nat \<times> string_data) res" where
  "data_of w h = (case owner w h of None \<Rightarrow> Inl Null_deref | Some a \<Rightarrow> rbind (deref (wheap w) a) (\<lambda>x. Inr (a, x)))"

text \<open>The capacity that \<open>Append\<close> and \<open>operator[]\<close> ask for.\<close>

definition required :: "edit \<Rightarrow> string_data \<Rightarrow> nat" where
  "required e x = (case e of Add bs \<Rightarrow> wrap (sd_size x + length bs) | Put i c \<Rightarrow> sd_size x)"

definition fetch_add :: "string_data \<Rightarrow> string_data" where
  "fetch_add x = x\<lparr>ref_count := (ref_count x + 1) mod 2 ^ 32\<rparr>"

definition fetch_sub :: "string_data \<Rightarrow> string_data" where
  "fetch_sub x = x\<lparr>ref_count := (ref_count x + (2 ^ 32 - 1)) mod 2 ^ 32\<rparr>"

definition apply_edit :: "edit \<Rightarrow> string_data \<Rightarrow> string_data res" where
  "apply_edit e x = (case e of
     Add bs \<Rightarrow> CopyData (Some bs) (length bs) (sd_size x) x
   | Put i c \<Rightarrow> (case buffer x of
       None \<Rightarrow> Inl Null_deref
     | Some b \<Rightarrow> rbind (set_at b i c) (\<lambda>b. Inr (x\<lparr>buffer := Some b\<rparr>))))"

definition edit_op :: "nat \<Rightarrow> edit \<Rightarrow> rc_op" where
  "edit_op h e = (case e of Add bs \<Rightarrow> Append_to h bs | Put i c \<Rightarrow> Assign_at h i c)"

text \<open>
  The next access of a thread. In \<open>Mod_clone\<close> the object takes the new data before the old is released; the code
  sets \<open>data_\<close> after that, but nobody else may look at it meanwhile.
\<close>

definition advance :: "memory \<Rightarrow> nat \<Rightarrow> world \<Rightarrow> world res" where
  "advance mem t w = (case place w t of
     Idle \<Rightarrow> Inr w
   | Copy_check s d \<Rightarrow> rbind (data_of w s) (\<lambda>(a, x).
       Inr (goto t (if \<not> Unsharedable x then Copy_assert s d else Copy_clone s d) w))
   | Copy_assert s d \<Rightarrow> rbind (data_of w s) (\<lambda>(a, x).
       rbind (guard (0 < ref_count x) Assert_failed) (\<lambda>_. Inr (goto t (Copy_add s d) w)))
   | Copy_add s d \<Rightarrow> rbind (data_of w s) (\<lambda>(a, x).
       Inr (goto t Idle (log_op (Copy_of d s) ((set_cell a (fetch_add x) w)\<lparr>owner := (owner w)(d := Some a)\<rparr>))))
   | Copy_clone s d \<Rightarrow> rbind (data_of w s) (\<lambda>(a, x).
       rbind (Clone mem (sd_size x) x) (\<lambda>y. Inr (goto t Idle (log_op (Copy_of d s) (new_cell d y w)))))
   | Mod_check h e \<Rightarrow> rbind (data_of w h) (\<lambda>(a, x).
       Inr (goto t (if \<not> Unique x then Mod_clone h e (required e x) else Mod_reserve h e (required e x)) w))
   | Mod_reserve h e n \<Rightarrow> rbind (data_of w h) (\<lambda>(a, x).
       rbind (Reserve mem n x) (\<lambda>x. Inr (goto t (Mark_assert h e) (set_cell a x w))))
   | Mod_clone h e n \<Rightarrow> rbind (data_of w h) (\<lambda>(a, x).
       rbind (Clone mem n x) (\<lambda>y. Inr (goto t (Rel_assert a (Then_mark h e)) (new_cell h y w))))
   | Rel_assert a k \<Rightarrow> rbind (deref (wheap w) a) (\<lambda>x.
       rbind (guard (0 < ref_count x) Assert_failed) (\<lambda>_. Inr (goto t (Rel_check a k) w)))
   | Rel_check a k \<Rightarrow> rbind (deref (wheap w) a) (\<lambda>x.
       Inr (goto t (if Unsharedable x then Del a k else Rel_sub a k) w))
   | Rel_sub a k \<Rightarrow> rbind (deref (wheap w) a) (\<lambda>x.
       let x = fetch_sub x; w = set_cell a x w
       in Inr (if ref_count x = 0 then goto t (Del a k) w else done_with t k w))
   | Del a k \<Rightarrow> rbind (delete_cell (wheap w) a) (\<lambda>hp'. Inr (done_with t k (w\<lparr>wheap := hp'\<rparr>)))
   | Mark_assert h e \<Rightarrow> rbind (data_of w h) (\<lambda>(a, x).
       rbind (guard (Unique x) Assert_failed) (\<lambda>_. Inr (goto t (Mark_store h e) w)))
   | Mark_store h e \<Rightarrow> rbind (data_of w h) (\<lambda>(a, x).
       Inr (goto t (Edit_write h e) (set_cell a (x\<lparr>ref_count := (case e of Put i c \<Rightarrow> kUnsharedRefMark | Add bs \<Rightarrow> 1)\<rparr>) w)))
   | Edit_write h e \<Rightarrow> rbind (data_of w h) (\<lambda>(a, x).
       rbind (apply_edit e x) (\<lambda>x. Inr (goto t Idle (log_op (edit_op h e) (set_cell a x w))))))"

text \<open>
  What a thread may begin: an object is used by one thread at a time, except that several may copy from it; strings stay
  below their maximal size, and there are at most \<open>2 ^ 30\<close> objects and threads.
\<close>

definition value_of :: "world \<Rightarrow> nat \<Rightarrow> byte list option" where
  "value_of w h = (case owner w h of None \<Rightarrow> None | Some a \<Rightarrow> map_option sd_value (cells (wheap w) a))"

definition limit :: nat where
  "limit = 2 ^ 30"

definition edit_allowed :: "edit \<Rightarrow> nat \<Rightarrow> bool" where
  "edit_allowed e n \<longleftrightarrow> (case e of Add bs \<Rightarrow> n + length bs \<le> max_string | Put i c \<Rightarrow> i < n)"

definition below_limit :: "nat \<Rightarrow> bool" where
  "below_limit h \<longleftrightarrow> h < limit"

text \<open>Large bounds are compared as integers.\<close>

lemma large_code [code]:
  "below_limit h \<longleftrightarrow> int h < 2 ^ 30"
  "edit_allowed e n \<longleftrightarrow> (case e of Add bs \<Rightarrow> int (n + length bs) \<le> 2 ^ 60 | Put i c \<Rightarrow> i < n)"
  "Unsharedable x \<longleftrightarrow> int (ref_count x) = 2 ^ 32 - 1"
  "Unique x \<longleftrightarrow> ref_count x = 1 \<or> int (ref_count x) = 2 ^ 32 - 1"
  "fetch_add x = x\<lparr>ref_count := nat ((int (ref_count x) + 1) mod 2 ^ 32)\<rparr>"
  "fetch_sub x = x\<lparr>ref_count := nat ((int (ref_count x) + (2 ^ 32 - 1)) mod 2 ^ 32)\<rparr>"
proof -
  have m: "int n = 2 ^ 32 - 1 \<longleftrightarrow> n = kUnsharedRefMark" for n
  proof -
    have "int kUnsharedRefMark = 2 ^ 32 - 1" by (simp add: kUnsharedRefMark_def)
    then show ?thesis by (metis of_nat_eq_iff)
  qed
  show "below_limit h \<longleftrightarrow> int h < 2 ^ 30" by (simp add: below_limit_def limit_def)
  show "edit_allowed e n \<longleftrightarrow> (case e of Add bs \<Rightarrow> int (n + length bs) \<le> 2 ^ 60 | Put i c \<Rightarrow> i < n)"
  proof -
    have "int k \<le> 2 ^ 60 \<longleftrightarrow> k \<le> 2 ^ 60" for k by simp
    then show ?thesis unfolding edit_allowed_def max_string_def by (simp only:)
  qed
  show "Unsharedable x \<longleftrightarrow> int (ref_count x) = 2 ^ 32 - 1" unfolding Unsharedable_def m ..
  show "Unique x \<longleftrightarrow> ref_count x = 1 \<or> int (ref_count x) = 2 ^ 32 - 1" unfolding Unique_def m ..
  show "fetch_add x = x\<lparr>ref_count := nat ((int (ref_count x) + 1) mod 2 ^ 32)\<rparr>"
    by (simp add: fetch_add_def nat_mod_distrib nat_add_distrib)
  show "fetch_sub x = x\<lparr>ref_count := nat ((int (ref_count x) + (2 ^ 32 - 1)) mod 2 ^ 32)\<rparr>"
    by (simp add: fetch_sub_def nat_mod_distrib nat_add_distrib)
qed

definition start :: "memory \<Rightarrow> nat \<Rightarrow> rc_op \<Rightarrow> world \<Rightarrow> world res option" where
  "start mem t e w =
     (if place w t \<noteq> Idle \<or> \<not> t < threads w then None
      else case e of
        Make h \<Rightarrow> (if owner w h = None \<and> below_limit h \<and> \<not> used_by_others w t h
          then Some (rbind (StringData_new mem kBaseSize) (\<lambda>x. Inr (log_op e (new_cell h x w)))) else None)
      | Make_str h str \<Rightarrow> (if owner w h = None \<and> below_limit h \<and> \<not> used_by_others w t h \<and> edit_allowed (Add str) 0
          then Some (rbind (StringData_new mem (length str)) (\<lambda>x.
            rbind (CopyData (Some str) (length str) 0 x) (\<lambda>x. Inr (log_op e (new_cell h x w))))) else None)
      | Copy_of d s \<Rightarrow> (if owner w s \<noteq> None \<and> owner w d = None \<and> below_limit d \<and> \<not> used_by_others w t d \<and> \<not> written_by_others w t s
          then Some (Inr (goto t (Copy_check s d) w)) else None)
      | Append_to h str \<Rightarrow> (case value_of w h of
          None \<Rightarrow> None
        | Some v \<Rightarrow> if \<not> used_by_others w t h \<and> edit_allowed (Add str) (length v)
            then Some (Inr (goto t (Mod_check h (Add str)) w)) else None)
      | Assign_at h i c \<Rightarrow> (case value_of w h of
          None \<Rightarrow> None
        | Some v \<Rightarrow> if \<not> used_by_others w t h \<and> edit_allowed (Put i c) (length v)
            then Some (Inr (goto t (Mod_check h (Put i c)) w)) else None)
      | Drop h \<Rightarrow> (case owner w h of
          None \<Rightarrow> None
        | Some a \<Rightarrow> if \<not> used_by_others w t h
            then Some (Inr (goto t (Rel_assert a Finish) (log_op e (w\<lparr>owner := (owner w)(h := None)\<rparr>)))) else None))"

datatype action = Start nat rc_op | Advance nat

definition ts_step :: "memory \<Rightarrow> world \<Rightarrow> action \<Rightarrow> world res option" where
  "ts_step mem w x = (case x of Start t e \<Rightarrow> start mem t e w | Advance t \<Rightarrow> Some (advance mem t w))"

section \<open>Who holds what\<close>

text \<open>Data is held by the objects that share it and by the threads that are about to let it go.\<close>

fun spare :: "place \<Rightarrow> nat option" where
  "spare (Rel_assert a k) = Some a"
| "spare (Rel_check a k) = Some a"
| "spare (Rel_sub a k) = Some a"
| "spare p = None"

fun dying :: "place \<Rightarrow> nat option" where
  "dying (Del a k) = Some a"
| "dying p = None"

definition held :: "world \<Rightarrow> nat + nat \<Rightarrow> nat option" where
  "held w y = (case y of Inl h \<Rightarrow> owner w h | Inr t \<Rightarrow> spare (place w t))"

definition holders :: "world \<Rightarrow> nat \<Rightarrow> (nat + nat) set" where
  "holders w a = {y. held w y = Some a}"

definition deleting :: "world \<Rightarrow> nat \<Rightarrow> nat set" where
  "deleting w a = {t. dying (place w t) = Some a}"

definition cell_fine :: "string_data option \<Rightarrow> (nat + nat) set \<Rightarrow> nat set \<Rightarrow> bool" where
  "cell_fine c H D \<longleftrightarrow> (case c of
     None \<Rightarrow> H = {} \<and> D = {}
   | Some x \<Rightarrow> good_data x \<and>
       (D = {} \<and> counted x (card H) \<or>
        H = {} \<and> (\<exists>t. D = {t}) \<and> (ref_count x = 0 \<or> ref_count x = kUnsharedRefMark)))"

definition cell_of :: "world \<Rightarrow> nat \<Rightarrow> string_data option" where
  "cell_of w h = (case owner w h of None \<Rightarrow> None | Some a \<Rightarrow> cells (wheap w) a)"

definition own :: "world \<Rightarrow> nat \<Rightarrow> (string_data \<Rightarrow> bool) \<Rightarrow> bool" where
  "own w h P \<longleftrightarrow> (\<exists>a x. owner w h = Some a \<and> cells (wheap w) a = Some x \<and> holders w a = {Inl h} \<and> P x)"

definition ready :: "world \<Rightarrow> nat \<Rightarrow> edit \<Rightarrow> bool" where
  "ready w h e \<longleftrightarrow> own w h (\<lambda>x. required e x \<le> capacity x \<and> edit_allowed e (sd_size x))"

definition see :: "world \<Rightarrow> nat \<Rightarrow> (string_data \<Rightarrow> bool) \<Rightarrow> bool" where
  "see w h P \<longleftrightarrow> (\<exists>x. cell_of w h = Some x \<and> P x)"

definition shared_ref :: "string_data \<Rightarrow> bool" where
  "shared_ref x \<longleftrightarrow> ref_count x \<noteq> kUnsharedRefMark"

fun after_fine :: "world \<Rightarrow> after \<Rightarrow> bool" where
  "after_fine w Finish = True"
| "after_fine w (Then_mark h e) = ready w h e"

fun place_fine :: "world \<Rightarrow> place \<Rightarrow> bool" where
  "place_fine w Idle = True"
| "place_fine w (Copy_check s d) \<longleftrightarrow> see w s (\<lambda>_. True) \<and> owner w d = None \<and> d < limit"
| "place_fine w (Copy_assert s d) \<longleftrightarrow> see w s shared_ref \<and> owner w d = None \<and> d < limit"
| "place_fine w (Copy_add s d) \<longleftrightarrow> see w s shared_ref \<and> owner w d = None \<and> d < limit"
| "place_fine w (Copy_clone s d) \<longleftrightarrow> see w s (\<lambda>_. True) \<and> owner w d = None \<and> d < limit"
| "place_fine w (Mod_check h e) \<longleftrightarrow> see w h (\<lambda>x. edit_allowed e (sd_size x))"
| "place_fine w (Mod_reserve h e n) \<longleftrightarrow> own w h (\<lambda>x. edit_allowed e (sd_size x) \<and> n = required e x)"
| "place_fine w (Mod_clone h e n) \<longleftrightarrow> see w h (\<lambda>x. edit_allowed e (sd_size x) \<and> n = required e x)"
| "place_fine w (Rel_assert a k) = after_fine w k"
| "place_fine w (Rel_check a k) = after_fine w k"
| "place_fine w (Rel_sub a k) \<longleftrightarrow> after_fine w k \<and> (\<forall>x. cells (wheap w) a = Some x \<longrightarrow> shared_ref x)"
| "place_fine w (Del a k) = after_fine w k"
| "place_fine w (Mark_assert h e) = ready w h e"
| "place_fine w (Mark_store h e) = ready w h e"
| "place_fine w (Edit_write h e) = ready w h e"

definition apart :: "(nat \<Rightarrow> place) \<Rightarrow> bool" where
  "apart pl \<longleftrightarrow> (\<forall>t u. t \<noteq> u \<longrightarrow> writes (pl t) \<inter> (reads (pl u) \<union> writes (pl u)) = {})"

definition world_ok :: "world \<Rightarrow> bool" where
  "world_ok w \<longleftrightarrow> (\<forall>h. owner w h \<noteq> None \<longrightarrow> h < limit) \<and> (\<forall>t. place w t \<noteq> Idle \<longrightarrow> t < limit) \<and>
     (\<forall>a \<ge> brk (wheap w). cells (wheap w) a = None) \<and> (\<forall>a. cell_fine (cells (wheap w) a) (holders w a) (deleting w a)) \<and>
     (\<forall>t. place_fine w (place w t)) \<and> apart (place w)"

section \<open>Counting\<close>

lemma finite_holders:
  assumes "world_ok w"
  shows "finite (holders w a)" and "card (holders w a) \<le> 2 ^ 31"
proof -
  have sub: "holders w a \<subseteq> Inl ` {..<limit} \<union> Inr ` {..<limit}"
  proof
    fix y assume "y \<in> holders w a"
    then have "held w y = Some a" by (simp add: holders_def)
    then show "y \<in> Inl ` {..<limit} \<union> Inr ` {..<limit}"
    proof (cases y)
      case (Inl h)
      then show ?thesis using assms \<open>held w y = Some a\<close> by (auto simp: world_ok_def held_def)
    next
      case (Inr t)
      then have "place w t \<noteq> Idle" using \<open>held w y = Some a\<close> by (auto simp: held_def)
      then show ?thesis using assms Inr by (auto simp: world_ok_def)
    qed
  qed
  have fin: "finite (Inl ` {..<limit} \<union> Inr ` {..<limit} :: (nat + nat) set)" by simp
  then show "finite (holders w a)" using sub by (rule rev_finite_subset)
  have "card (holders w a) \<le> card (Inl ` {..<limit} \<union> Inr ` {..<limit} :: (nat + nat) set)" using card_mono [OF fin sub] .
  also have "\<dots> \<le> card (Inl ` {..<limit} :: (nat + nat) set) + card (Inr ` {..<limit} :: (nat + nat) set)" by (rule card_Un_le)
  also have "\<dots> = limit + limit" by (simp add: card_image)
  also have "\<dots> = 2 ^ 31" by (simp add: limit_def)
  finally show "card (holders w a) \<le> 2 ^ 31" .
qed

text \<open>Data that somebody holds is there, and counted.\<close>

lemma held_cell:
  assumes "world_ok w" and "held w y = Some a"
  shows "\<exists>x. cells (wheap w) a = Some x \<and> good_data x \<and> deleting w a = {} \<and> counted x (card (holders w a))"
proof -
  have "y \<in> holders w a" using assms(2) by (simp add: holders_def)
  moreover have "cell_fine (cells (wheap w) a) (holders w a) (deleting w a)" using assms(1) by (simp add: world_ok_def)
  ultimately show ?thesis by (auto simp: cell_fine_def split: option.splits)
qed

lemma owned_cell: "world_ok w \<Longrightarrow> owner w h = Some a \<Longrightarrow>
    \<exists>x. cells (wheap w) a = Some x \<and> good_data x \<and> deleting w a = {} \<and> counted x (card (holders w a)) \<and> Inl h \<in> holders w a"
  using held_cell [of w "Inl h" a] by (auto simp: held_def holders_def)

lemma unique_iff:
  assumes "world_ok w" and "held w y = Some a" and "cells (wheap w) a = Some x"
  shows "Unique x \<longleftrightarrow> holders w a = {y}"
proof -
  have y: "y \<in> holders w a" using assms(2) by (simp add: holders_def)
  have c: "counted x (card (holders w a))" using held_cell [OF assms(1,2)] assms(3) by auto
  have "card (holders w a) < kUnsharedRefMark" using finite_holders(2) [OF assms(1), of a] by (simp add: kUnsharedRefMark_def)
  then have "Unique x \<longleftrightarrow> card (holders w a) = 1" using c by (auto simp: Unique_def counted_def)
  also have "\<dots> \<longleftrightarrow> holders w a = {y}" using y by (auto simp: card_1_singleton_iff)
  finally show ?thesis .
qed

section \<open>What other threads keep\<close>

definition milder :: "string_data \<Rightarrow> string_data \<Rightarrow> bool" where
  "milder x x' \<longleftrightarrow> sd_size x' = sd_size x \<and> capacity x' = capacity x \<and> (shared_ref x \<longrightarrow> shared_ref x')"

lemma required_milder: "milder x x' \<Longrightarrow> required e x' = required e x"
  by (auto simp: milder_def required_def split: edit.split)

text \<open>
  A step of thread \<open>t\<close> that changes objects \<open>W\<close> that no other thread uses, and changes data held by others at most
  in its count, keeps what the others rely on.
\<close>

definition quiet :: "nat \<Rightarrow> nat set \<Rightarrow> world \<Rightarrow> world \<Rightarrow> bool" where
  "quiet t W w w' \<longleftrightarrow> (\<forall>h. h \<notin> W \<longrightarrow> owner w' h = owner w h) \<and>
     (\<forall>u. u \<noteq> t \<longrightarrow> place w' u = place w u \<and> W \<inter> (reads (place w u) \<union> writes (place w u)) = {}) \<and>
     (\<forall>y a x. held w y = Some a \<and> cells (wheap w) a = Some x \<and> y \<notin> Inl ` W \<and> y \<noteq> Inr t \<longrightarrow>
        (\<exists>x'. cells (wheap w') a = Some x' \<and> milder x x')) \<and>
     (\<forall>u h a. u \<noteq> t \<and> h \<in> writes (place w u) \<and> holders w a = {Inl h} \<longrightarrow> holders w' a = {Inl h})"

lemma quiet_see:
  assumes "quiet t W w w'" and "see w h P" and "u \<noteq> t" and "h \<in> reads (place w u) \<union> writes (place w u)"
    and "\<And>x x'. milder x x' \<Longrightarrow> P x \<Longrightarrow> P x'"
  shows "see w' h P"
proof -
  have hW: "h \<notin> W" using assms(1,3,4) by (auto simp: quiet_def)
  obtain a x where ax: "owner w h = Some a" "cells (wheap w) a = Some x" "P x" using assms(2) by (auto simp: see_def cell_of_def split: option.splits)
  have "held w (Inl h) = Some a" using ax by (simp add: held_def)
  then obtain x' where "cells (wheap w') a = Some x'" "milder x x'" using assms(1) ax(2) hW unfolding quiet_def by blast
  moreover have "owner w' h = Some a" using assms(1) hW ax(1) by (simp add: quiet_def)
  ultimately show ?thesis using assms(5) ax(3) by (auto simp: see_def cell_of_def)
qed

lemma quiet_own:
  assumes "quiet t W w w'" and "own w h P" and "u \<noteq> t" and "h \<in> writes (place w u)"
    and "\<And>x x'. milder x x' \<Longrightarrow> P x \<Longrightarrow> P x'"
  shows "own w' h P"
proof -
  have hW: "h \<notin> W" using assms(1,3,4) by (auto simp: quiet_def)
  obtain a x where ax: "owner w h = Some a" "cells (wheap w) a = Some x" "holders w a = {Inl h}" "P x" using assms(2) by (auto simp: own_def)
  have "held w (Inl h) = Some a" using ax by (simp add: held_def)
  then obtain x' where "cells (wheap w') a = Some x'" "milder x x'" using assms(1) ax(2) hW unfolding quiet_def by blast
  moreover have "owner w' h = Some a" using assms(1) hW ax(1) by (simp add: quiet_def)
  moreover have "holders w' a = {Inl h}" using assms(1,3,4) ax(3) unfolding quiet_def by blast
  ultimately show ?thesis using assms(5) ax(4) by (auto simp: own_def)
qed

lemma quiet_ready: "quiet t W w w' \<Longrightarrow> ready w h e \<Longrightarrow> u \<noteq> t \<Longrightarrow> h \<in> writes (place w u) \<Longrightarrow> ready w' h e"
  unfolding ready_def by (erule quiet_own) (auto simp: required_milder, auto simp: milder_def)

lemma quiet_others:
  assumes "world_ok w" and "quiet t W w w'" and "u \<noteq> t"
  shows "place_fine w' (place w' u)"
proof -
  have pl: "place w' u = place w u" and disj: "W \<inter> (reads (place w u) \<union> writes (place w u)) = {}" using assms(2,3) by (simp_all add: quiet_def)
  have f: "place_fine w (place w u)" using assms(1) by (simp add: world_ok_def)
  note see = quiet_see [OF assms(2) _ assms(3)] and rdy = quiet_ready [OF assms(2) _ assms(3)] and own = quiet_own [OF assms(2) _ assms(3)]
  have none: "owner w' d = owner w d" if "d \<in> writes (place w u)" for d using assms(2) disj that by (auto simp: quiet_def)
  have aft: "after_fine w' k" if "after_fine w k" "after_writes k \<subseteq> writes (place w u)" for k
    using that rdy by (cases k) auto
  have "place_fine w' (place w u)" using f
  proof (cases "place w u")
    case (Copy_check s d)
    then show ?thesis using f none [of d] see [of s] by simp
  next
    case (Copy_assert s d)
    then show ?thesis using f none [of d] see [of s shared_ref] by (simp add: milder_def)
  next
    case (Copy_add s d)
    then show ?thesis using f none [of d] see [of s shared_ref] by (simp add: milder_def)
  next
    case (Copy_clone s d)
    then show ?thesis using f none [of d] see [of s] by simp
  next
    case (Mod_check h e)
    then show ?thesis using f see [of h "\<lambda>x. edit_allowed e (sd_size x)"] by (simp add: milder_def)
  next
    case (Mod_reserve h e n)
    then show ?thesis using f own [of h "\<lambda>x. edit_allowed e (sd_size x) \<and> n = required e x"] by (simp add: required_milder) (simp add: milder_def)
  next
    case (Mod_clone h e n)
    then show ?thesis using f see [of h "\<lambda>x. edit_allowed e (sd_size x) \<and> n = required e x"] by (simp add: required_milder) (simp add: milder_def)
  next
    case (Rel_sub a k)
    have "held w (Inr u) = Some a" using Rel_sub by (simp add: held_def)
    moreover have "Inr u \<notin> Inl ` W" by auto
    moreover obtain x where "cells (wheap w) a = Some x" using held_cell [OF assms(1) \<open>held w (Inr u) = Some a\<close>] by blast
    ultimately obtain x' where "cells (wheap w') a = Some x'" "milder x x'"
      using assms(2,3) unfolding quiet_def by (metis sum.inject(2))
    then show ?thesis using f Rel_sub aft [of k] \<open>cells (wheap w) a = Some x\<close> by (auto simp: milder_def)
  next
    case (Rel_assert a k)
    then show ?thesis using f aft [of k] by simp
  next
    case (Rel_check a k)
    then show ?thesis using f aft [of k] by simp
  next
    case (Del a k)
    then show ?thesis using f aft [of k] by simp
  next
    case (Mark_assert h e)
    then show ?thesis using f rdy by simp
  next
    case (Mark_store h e)
    then show ?thesis using f rdy by simp
  next
    case (Edit_write h e)
    then show ?thesis using f rdy by simp
  qed simp
  then show ?thesis by (simp only: pl)
qed

section \<open>Steps keep the invariant\<close>

lemma world_step:
  assumes "world_ok w" and "quiet t W w w'" and "place_fine w' (place w' t)"
    and "\<And>h. owner w' h \<noteq> None \<Longrightarrow> h < limit" and "t < limit"
    and "\<And>a. a \<ge> brk (wheap w') \<Longrightarrow> cells (wheap w') a = None"
    and "\<And>a. cell_fine (cells (wheap w') a) (holders w' a) (deleting w' a)"
    and "\<And>u. u \<noteq> t \<Longrightarrow> writes (place w' t) \<inter> (reads (place w u) \<union> writes (place w u)) = {} \<and> reads (place w' t) \<inter> writes (place w u) = {}"
  shows "world_ok w'"
proof -
  have pl: "\<And>u. u \<noteq> t \<Longrightarrow> place w' u = place w u" using assms(2) by (simp add: quiet_def)
  have "apart (place w')"
    unfolding apart_def
  proof (intro allI impI)
    fix x y :: nat assume ne: "x \<noteq> y"
    consider "x = t" | "y = t" | "x \<noteq> t" "y \<noteq> t" by blast
    then show "writes (place w' x) \<inter> (reads (place w' y) \<union> writes (place w' y)) = {}"
    proof cases
      case 1
      then show ?thesis using ne pl [of y] assms(8) [of y] by auto
    next
      case 2
      then have x: "x \<noteq> t" using ne by simp
      have "writes (place w' t) \<inter> (reads (place w x) \<union> writes (place w x)) = {} \<and> reads (place w' t) \<inter> writes (place w x) = {}"
        by (rule assms(8) [OF x])
      then show ?thesis using 2 pl [OF x] by auto
    next
      case 3
      then show ?thesis using ne pl assms(1) unfolding world_ok_def apart_def by metis
    qed
  qed
  moreover have "place_fine w' (place w' u)" for u
    using quiet_others [OF assms(1,2), of u] assms(3) by (cases "u = t") auto
  moreover have "place w' u \<noteq> Idle \<longrightarrow> u < limit" for u
    using assms(1,5) pl [of u] by (cases "u = t") (auto simp: world_ok_def)
  ultimately show ?thesis using assms(4,6,7) by (simp add: world_ok_def)
qed

lemma step_apart:
  assumes "world_ok w" and "writes p \<subseteq> writes (place w t)" and "reads p \<subseteq> reads (place w t) \<union> writes (place w t)" and "u \<noteq> t"
  shows "writes p \<inter> (reads (place w u) \<union> writes (place w u)) = {} \<and> reads p \<inter> writes (place w u) = {}"
proof -
  have "writes (place w t) \<inter> (reads (place w u) \<union> writes (place w u)) = {}" "writes (place w u) \<inter> (reads (place w t) \<union> writes (place w t)) = {}"
    using assms(1,4) unfolding world_ok_def apart_def by metis+
  then show ?thesis using assms(2,3) by blast
qed

lemma goto_simps [simp]:
  "wheap (goto t p w) = wheap w" "owner (goto t p w) = owner w" "place (goto t p w) = (place w)(t := p)" "history (goto t p w) = history w"
  "held (goto t p w) = (held w)(Inr t := spare p)" "deleting (goto t p w) a = (if dying p = Some a then insert t (deleting w a) else deleting w a - {t})"
  by (auto simp: goto_def held_def deleting_def fun_eq_iff split: sum.split)

lemma set_cell_simps [simp]:
  "wheap (set_cell a x w) = write_cell (wheap w) a x" "owner (set_cell a x w) = owner w" "place (set_cell a x w) = place w" "history (set_cell a x w) = history w"
  "held (set_cell a x w) = held w" "deleting (set_cell a x w) = deleting w"
  by (auto simp: set_cell_def held_def deleting_def fun_eq_iff split: sum.split)

lemma new_cell_simps [simp]:
  "cells (wheap (new_cell h x w)) = (cells (wheap w))(brk (wheap w) := Some x)" "brk (wheap (new_cell h x w)) = brk (wheap w) + 1"
  "owner (new_cell h x w) = (owner w)(h := Some (brk (wheap w)))" "place (new_cell h x w) = place w" "history (new_cell h x w) = history w"
  "held (new_cell h x w) = (held w)(Inl h := Some (brk (wheap w)))" "deleting (new_cell h x w) = deleting w"
  by (auto simp: new_cell_def alloc_cell_def held_def deleting_def fun_eq_iff split: sum.split)

lemma log_op_simps [simp]:
  "wheap (log_op e w) = wheap w" "owner (log_op e w) = owner w" "place (log_op e w) = place w" "history (log_op e w) = history w @ [e]"
  "held (log_op e w) = held w" "deleting (log_op e w) = deleting w"
  by (auto simp: log_op_def held_def deleting_def fun_eq_iff split: sum.split)

lemma owner_simps [simp]:
  "wheap (w\<lparr>owner := f\<rparr>) = wheap w" "held (w\<lparr>owner := (owner w)(h := v)\<rparr>) = (held w)(Inl h := v)" "deleting (w\<lparr>owner := f\<rparr>) = deleting w"
  by (auto simp: held_def deleting_def fun_eq_iff split: sum.split)

lemma ts_write_cell_simps [simp]: "cells (write_cell m a x) = (cells m)(a := Some x)" "brk (write_cell m a x) = brk m"
  by (simp_all add: write_cell_def)

lemma holders_upd:
  assumes "held w' = (held w)(y := v)"
  shows "holders w' a = (if v = Some a then insert y (holders w a) else holders w a - {y})"
  using assms by (auto simp: holders_def)

lemma holders_same: "held w' = held w \<Longrightarrow> holders w' = holders w"
  by (simp add: holders_def fun_eq_iff)

lemma place_fine_cong:
  assumes "owner w' = owner w" and "wheap w' = wheap w" and "holders w' = holders w"
  shows "place_fine w' p = place_fine w p"
proof -
  have c: "cell_of w' h = cell_of w h" for h using assms(1,2) by (simp only: cell_of_def)
  have "own w' h P = own w h P" for h P using assms by (simp add: own_def)
  moreover have "see w' h P = see w h P" for h P by (simp add: see_def c)
  moreover have "after_fine w' k = after_fine w k" for k by (cases k) (simp_all add: ready_def calculation)
  ultimately show ?thesis using assms(1,2) by (cases p) (simp_all add: ready_def)
qed

text \<open>A step that only moves on.\<close>

lemma ts_goto_ok:
  assumes "world_ok w" and "t < limit" and "spare p = spare (place w t)" and "dying p = None" and "dying (place w t) = None"
    and "place_fine w p"
    and ap: "\<And>u. u \<noteq> t \<Longrightarrow> writes p \<inter> (reads (place w u) \<union> writes (place w u)) = {} \<and> reads p \<inter> writes (place w u) = {}"
  shows "world_ok (goto t p w)"
proof -
  have h: "held (goto t p w) = held w" using assms(3) by (simp add: fun_eq_iff held_def split: sum.split)
  have d: "deleting (goto t p w) a = deleting w a" for a using assms(4,5) by (auto simp: deleting_def)
  show ?thesis
  proof (rule world_step [OF assms(1)])
    show "quiet t {} w (goto t p w)"
      unfolding quiet_def holders_same [OF h] by (auto simp: milder_def)
    show "place_fine (goto t p w) (place (goto t p w) t)" using assms(6) place_fine_cong [OF _ _ holders_same [OF h], of p] by simp
    show "cell_fine (cells (wheap (goto t p w)) a) (holders (goto t p w) a) (deleting (goto t p w) a)" for a
      using assms(1) unfolding holders_same [OF h] d by (simp add: world_ok_def)
  qed (use assms(1,2) ap in \<open>auto simp: world_ok_def\<close>)
qed

text \<open>A step that changes data of the thread's own.\<close>

lemma private_ok:
  assumes "world_ok w" and "t < limit" and "holders w a = {Inl h}" and "h \<in> writes (place w t)" and "cells (wheap w) a \<noteq> None"
    and "good_data x" and "ref_count x = 1 \<or> ref_count x = kUnsharedRefMark"
    and "spare (place w t) = None" and "dying (place w t) = None" and "spare p = None" and "dying p = None"
    and "place_fine (set_cell a x w) p" and "writes p \<subseteq> writes (place w t)" and "reads p = {}"
    and w': "wheap w' = wheap (set_cell a x w)" "owner w' = owner w" "place w' = (place w)(t := p)"
  shows "world_ok w'"
proof -
  have h: "held w' = held w" using assms(8,10) w' by (auto simp: fun_eq_iff held_def split: sum.split)
  have d: "deleting w' b = deleting w b" for b using assms(9,11) w' by (auto simp: deleting_def)
  have other: "b \<noteq> a" if "held w y = Some b" "y \<notin> Inl ` {h}" for y b
  proof
    assume "b = a"
    then have "y \<in> holders w a" using that(1) by (simp add: holders_def)
    then show False using that(2) assms(3) by simp
  qed
  show ?thesis
  proof (rule world_step [OF assms(1)])
    show "quiet t {h} w w'"
      unfolding quiet_def holders_same [OF h]
    proof (intro conjI allI impI)
      fix u assume "u \<noteq> t"
      then show "place w' u = place w u" using w' by simp
      have "writes (place w t) \<inter> (reads (place w u) \<union> writes (place w u)) = {}" using assms(1) \<open>u \<noteq> t\<close> unfolding world_ok_def apart_def by metis
      then show "{h} \<inter> (reads (place w u) \<union> writes (place w u)) = {}" using assms(4) by blast
    next
      fix y b z assume "held w y = Some b \<and> cells (wheap w) b = Some z \<and> y \<notin> Inl ` {h} \<and> y \<noteq> Inr t"
      then show "\<exists>x'. cells (wheap w') b = Some x' \<and> milder z x'" using other [of y b] w' by (auto simp: milder_def)
    qed (use w' in auto)
    show "place_fine w' (place w' t)"
      using assms(12) place_fine_cong [of w' "set_cell a x w" p] w' holders_same [OF h] holders_same [of "set_cell a x w" w] by simp
    show "cell_fine (cells (wheap w') b) (holders w' b) (deleting w' b)" for b
    proof (cases "b = a")
      case True
      obtain z where "cells (wheap w) a = Some z" using assms(5) by blast
      moreover have "cell_fine (cells (wheap w) a) (holders w a) (deleting w a)" using assms(1) by (simp add: world_ok_def)
      ultimately have "deleting w a = {}" using assms(3) by (simp add: cell_fine_def)
      moreover have "counted x (card {Inl h :: nat + nat})" using assms(7) by (simp add: counted_def)
      moreover have "cells (wheap w') b = Some x" using True w' by simp
      ultimately show ?thesis unfolding holders_same [OF h] d using True assms(3,6) by (simp add: cell_fine_def)
    next
      case False
      then show ?thesis using assms(1) w' unfolding holders_same [OF h] d by (simp add: world_ok_def)
    qed
    show "writes (place w' t) \<inter> (reads (place w u) \<union> writes (place w u)) = {} \<and> reads (place w' t) \<inter> writes (place w u) = {}" if "u \<noteq> t" for u
      using step_apart [OF assms(1) assms(13) _ that] assms(14) w' by simp
  qed (use assms(1,2,5) w' in \<open>auto simp: world_ok_def\<close>)
qed

lemma cell_fine_at: "world_ok w \<Longrightarrow> cell_fine (cells (wheap w) a) (holders w a) (deleting w a)"
  by (simp add: world_ok_def)

lemma fresh:
  assumes "world_ok w"
  shows "cells (wheap w) (brk (wheap w)) = None" and "holders w (brk (wheap w)) = {}" and "deleting w (brk (wheap w)) = {}"
proof -
  show n: "cells (wheap w) (brk (wheap w)) = None" using assms by (simp add: world_ok_def)
  note cell_fine_at [OF assms, of "brk (wheap w)"]
  then show "holders w (brk (wheap w)) = {}" "deleting w (brk (wheap w)) = {}" using n by (simp_all add: cell_fine_def)
qed

lemma apart_uses: "world_ok w \<Longrightarrow> u \<noteq> t \<Longrightarrow> h \<in> writes (place w t) \<Longrightarrow> h \<notin> reads (place w u) \<union> writes (place w u)"
  using step_apart [of w "place w t" t u] by blast

text \<open>A new string, or a copy made by cloning.\<close>

lemma ts_new_ok:
  assumes "world_ok w" and "t < limit" and "good_data x" and "ref_count x = 1" and "h < limit" and "owner w h = None"
    and "\<And>u. u \<noteq> t \<Longrightarrow> h \<notin> reads (place w u) \<union> writes (place w u)"
    and "spare (place w t) = None" and "dying (place w t) = None"
    and w': "wheap w' = wheap (new_cell h x w)" "owner w' = owner (new_cell h x w)" "place w' = (place w)(t := Idle)"
  shows "world_ok w'"
proof -
  let ?b = "brk (wheap w)"
  note fr = fresh [OF assms(1)]
  have h: "held w' = (held w)(Inl h := Some ?b)" using assms(8) w' by (auto simp: fun_eq_iff held_def split: sum.split)
  have d: "deleting w' a = deleting w a" for a using assms(9) w' by (auto simp: deleting_def)
  have hol: "holders w' a = (if a = ?b then {Inl h} else holders w a)" for a
    using holders_upd [OF h, of a] fr(2) assms(6) by (auto simp: holders_def held_def)
  show ?thesis
  proof (rule world_step [OF assms(1)])
    show "quiet t {h} w w'"
      unfolding quiet_def hol
    proof (intro conjI allI impI)
      fix u assume "u \<noteq> t"
      then show "place w' u = place w u" "{h} \<inter> (reads (place w u) \<union> writes (place w u)) = {}" using assms(7) [of u] w'(3) by auto
    next
      fix y b z assume y: "held w y = Some b \<and> cells (wheap w) b = Some z \<and> y \<notin> Inl ` {h} \<and> y \<noteq> Inr t"
      then have "b \<noteq> ?b" using fr(1) by auto
      then show "\<exists>x'. cells (wheap w') b = Some x' \<and> milder z x'" using y w' by (auto simp: milder_def)
    next
      fix u g a assume a: "u \<noteq> t \<and> g \<in> writes (place w u) \<and> holders w a = {Inl g}"
      then have "a \<noteq> ?b" using fr(2) by auto
      then show "(if a = ?b then {Inl h} else holders w a) = {Inl g}" using a by simp
    qed (use w' in auto)
    show "cell_fine (cells (wheap w') a) (holders w' a) (deleting w' a)" for a
      using cell_fine_at [OF assms(1), of a] fr(3) assms(3,4) w' by (simp add: hol d cell_fine_def counted_def)
  qed (use assms(1,2,5) w' in \<open>auto simp: world_ok_def\<close>)
qed

text \<open>\<open>AddRef\<close>: another object holds the data.\<close>

lemma add_ok:
  assumes "world_ok w" and "place w t = Copy_add s d" and "owner w s = Some a" and "cells (wheap w) a = Some x"
    and w': "wheap w' = write_cell (wheap w) a (fetch_add x)" "owner w' = (owner w)(d := Some a)" "place w' = (place w)(t := Idle)"
  shows "world_ok w'"
proof -
  have t: "t < limit" and d: "owner w d = None" "d < limit" and sh: "shared_ref x"
    using assms(1-4) unfolding world_ok_def by (metis place.distinct(5), metis place_fine.simps(4), metis place_fine.simps(4),
      metis (no_types) cell_of_def option.inject option.simps(5) place_fine.simps(4) see_def)
  have c: "good_data x" "deleting w a = {}" "counted x (card (holders w a))" "Inl s \<in> holders w a"
    using owned_cell [OF assms(1,3)] assms(4) by auto
  have ref: "ref_count x = card (holders w a)" using c(3) sh by (simp add: counted_def shared_ref_def)
  have le: "card (holders w a) \<le> 2 ^ 31" by (rule finite_holders(2) [OF assms(1)])
  have new: "ref_count (fetch_add x) = card (holders w a) + 1" using ref le by (simp add: fetch_add_def)
  have h: "held w' = (held w)(Inl d := Some a)" using assms(2) w' by (auto simp: fun_eq_iff held_def split: sum.split)
  have dl: "deleting w' b = deleting w b" for b using assms(2) w' by (auto simp: deleting_def)
  have hol: "holders w' b = (if b = a then insert (Inl d) (holders w a) else holders w b)" for b
    using holders_upd [OF h, of b] d(1) by (auto simp: holders_def held_def)
  have dn: "Inl d \<notin> holders w a" using d(1) by (simp add: holders_def held_def)
  have nm: "card (holders w a) + 1 \<noteq> kUnsharedRefMark" using le by (simp add: kUnsharedRefMark_def)
  show ?thesis
  proof (rule world_step [OF assms(1) _ _ _ t])
    show "quiet t {d} w w'"
      unfolding quiet_def hol
    proof (intro conjI allI impI)
      fix u assume u: "u \<noteq> t"
      then show "place w' u = place w u" using w' by simp
      show "{d} \<inter> (reads (place w u) \<union> writes (place w u)) = {}" using apart_uses [OF assms(1) u, of d] assms(2) by simp
    next
      fix y b z assume y: "held w y = Some b \<and> cells (wheap w) b = Some z \<and> y \<notin> Inl ` {d} \<and> y \<noteq> Inr t"
      have "milder x (fetch_add x)" using new nm by (simp add: milder_def shared_ref_def fetch_add_def)
      then show "\<exists>x'. cells (wheap w') b = Some x' \<and> milder z x'" using y w' assms(4) by (auto simp: milder_def)
    next
      fix u g b assume g: "u \<noteq> t \<and> g \<in> writes (place w u) \<and> holders w b = {Inl g}"
      have "b \<noteq> a"
      proof
        assume "b = a"
        then have "s = g" using c(4) g by simp
        moreover have "g \<notin> reads (place w t) \<union> writes (place w t)" using apart_uses [OF assms(1), of t u g] g by auto
        ultimately show False using assms(2) by simp
      qed
      then show "(if b = a then insert (Inl d) (holders w a) else holders w b) = {Inl g}" using g by simp
    qed (use w' in auto)
    show "cell_fine (cells (wheap w') b) (holders w' b) (deleting w' b)" for b
    proof (cases "b = a")
      case True
      have "good_data (fetch_add x)" using c(1) by (simp add: fetch_add_def)
      moreover have "counted (fetch_add x) (card (insert (Inl d) (holders w a)))"
        using new dn finite_holders(1) [OF assms(1)] by (simp add: counted_def)
      ultimately show ?thesis using True w' c(2) by (simp add: hol dl cell_fine_def)
    next
      case False
      then show ?thesis using cell_fine_at [OF assms(1), of b] w' by (simp add: hol dl)
    qed
  qed (use assms(1,4) d w' in \<open>auto simp: world_ok_def\<close>)
qed

lemma card_swap: "finite A \<Longrightarrow> x \<in> A \<Longrightarrow> y \<notin> A \<Longrightarrow> card (insert y (A - {x})) = card A"
  by (simp only: card_insert_disjoint finite_Diff Diff_iff simp_thms card_Suc_Diff1)

lemma ready_keep:
  assumes "ready w h e" and "y \<in> holders w a" and "y \<noteq> Inl h" and "owner w' h = owner w h"
    and "\<And>b. b \<noteq> a \<Longrightarrow> holders w b = {Inl h} \<Longrightarrow> cells (wheap w') b = cells (wheap w) b \<and> holders w' b = holders w b"
  shows "ready w' h e"
proof -
  obtain b x where b: "owner w h = Some b" "cells (wheap w) b = Some x" "holders w b = {Inl h}"
    "required e x \<le> capacity x \<and> edit_allowed e (sd_size x)" using assms(1) by (auto simp: ready_def own_def)
  have "b \<noteq> a" using b(3) assms(2,3) by auto
  then have "cells (wheap w') b = Some x" "holders w' b = {Inl h}" using assms(5) b(2,3) by simp_all
  then show ?thesis using b(1,4) assms(4) by (simp add: ready_def own_def)
qed

lemma after_keep:
  assumes "after_fine w k" and "Inr t \<in> holders w a" and "owner w' = owner w"
    and "\<And>b. b \<noteq> a \<Longrightarrow> cells (wheap w') b = cells (wheap w) b \<and> holders w' b = holders w b"
  shows "after_fine w' k"
proof (cases k)
  case (Then_mark h e)
  then show ?thesis using ready_keep [of w h e "Inr t" a w'] assms by simp
qed simp

text \<open>A clone takes the place of the shared data, which the thread holds until it has let it go.\<close>

lemma clone_ok:
  assumes "world_ok w" and "place w t = Mod_clone h e n" and "owner w h = Some a"
    and "good_data x" and "ref_count x = 1" and "required e x \<le> capacity x" and "edit_allowed e (sd_size x)"
  shows "world_ok (goto t (Rel_assert a (Then_mark h e)) (new_cell h x w))"
proof -
  let ?w = "goto t (Rel_assert a (Then_mark h e)) (new_cell h x w)"
  let ?b = "brk (wheap w)"
  note fr = fresh [OF assms(1)]
  have t: "t < limit" and hl: "h < limit" using assms(1-3) by (auto simp: world_ok_def)
  have tn: "held w (Inr t) = None" using assms(2) by (simp add: held_def)
  have ha: "held w (Inl h) = Some a" using assms(3) by (simp add: held_def)
  have h: "held ?w = (held w)(Inl h := Some ?b, Inr t := Some a)" by simp
  have ab: "a \<noteq> ?b" using ha fr(2) by (auto simp: holders_def)
  have hol: "holders ?w c = (if c = ?b then {Inl h} else if c = a then insert (Inr t) (holders w a - {Inl h}) else holders w c)" for c
    using fr(2) ab ha tn unfolding holders_def h by auto
  have dl: "deleting ?w c = deleting w c" for c using assms(2) by (auto simp: deleting_def)
  have cnt: "card (insert (Inr t) (holders w a - {Inl h})) = card (holders w a)"
  proof -
    have "Inl h \<in> holders w a" "Inr t \<notin> holders w a" using ha tn by (simp_all add: holders_def)
    then show ?thesis using finite_holders(1) [OF assms(1), of a] by (intro card_swap)
  qed
  show ?thesis
  proof (rule world_step [OF assms(1) _ _ _ t])
    show "quiet t {h} w ?w"
      unfolding quiet_def hol
    proof (intro conjI allI impI)
      fix u assume u: "u \<noteq> t"
      then show "place ?w u = place w u" by simp
      show "{h} \<inter> (reads (place w u) \<union> writes (place w u)) = {}" using apart_uses [OF assms(1) u, of h] assms(2) by simp
    next
      fix y b z assume y: "held w y = Some b \<and> cells (wheap w) b = Some z \<and> y \<notin> Inl ` {h} \<and> y \<noteq> Inr t"
      then have "b \<noteq> ?b" using fr(1) by auto
      then show "\<exists>x'. cells (wheap ?w) b = Some x' \<and> milder z x'" using y by (auto simp: milder_def)
    next
      fix u g c assume g: "u \<noteq> t \<and> g \<in> writes (place w u) \<and> holders w c = {Inl g}"
      have "c \<noteq> ?b" using fr(2) g by auto
      moreover have "c \<noteq> a"
      proof
        assume "c = a"
        then have "h = g" using ha g by (auto simp: holders_def)
        moreover have "h \<notin> writes (place w u)" using apart_uses [OF assms(1), of u t h] g assms(2) by auto
        ultimately show False using g by simp
      qed
      ultimately show "(if c = ?b then {Inl h} else if c = a then insert (Inr t) (holders w a - {Inl h}) else holders w c) = {Inl g}" using g by simp
    qed auto
    show "place_fine ?w (place ?w t)" using assms(6,7) hol [of ?b] by (simp add: ready_def own_def)
    show "cell_fine (cells (wheap ?w) c) (holders ?w c) (deleting ?w c)" for c
    proof -
      consider "c = ?b" | "c = a" | "c \<noteq> ?b" "c \<noteq> a" by blast
      then show ?thesis
      proof cases
        case 1
        then show ?thesis using assms(4,5) fr(3) unfolding hol dl by (simp add: cell_fine_def counted_def)
      next
        case 2
        obtain z where z: "cells (wheap w) a = Some z" "good_data z" "deleting w a = {}" "counted z (card (holders w a))"
          using owned_cell [OF assms(1,3)] by blast
        then show ?thesis using 2 ab cnt unfolding hol dl by (simp add: cell_fine_def)
      next
        case 3
        then show ?thesis using cell_fine_at [OF assms(1), of c] unfolding hol dl by simp
      qed
    qed
    show "writes (place ?w t) \<inter> (reads (place w u) \<union> writes (place w u)) = {} \<and> reads (place ?w t) \<inter> writes (place w u) = {}" if "u \<noteq> t" for u
      using apart_uses [OF assms(1) that, of h] assms(2) by simp
  qed (use assms(1) hl in \<open>auto simp: world_ok_def\<close>)
qed

text \<open>The last holder lets the data go: it is to be deleted.\<close>

lemma letting_go:
  assumes "world_ok w" and "spare (place w t) = Some a" and "cells (wheap w) a = Some x" and "after_fine w k"
    and "dying (place w t) = None" and "after_writes k \<subseteq> writes (place w t)"
    and w': "owner w' = owner w" "wheap w' = write_cell (wheap w) a x'" "place w' = (place w)(t := p)"
    and x': "good_data x'" and "milder x x'"
    and p: "p = Del a k \<and> holders w a = {Inr t} \<and> (ref_count x' = 0 \<or> ref_count x' = kUnsharedRefMark) \<or>
      p = (case k of Finish \<Rightarrow> Idle | Then_mark h e \<Rightarrow> Mark_assert h e) \<and> counted x' (card (holders w a - {Inr t}))"
  shows "world_ok w'"
proof -
  have tt: "Inr t \<in> holders w a" using assms(2) by (simp add: holders_def held_def)
  have "place w t \<noteq> Idle" using assms(2) by auto
  then have t: "t < limit" using assms(1) by (simp add: world_ok_def)
  have pp: "p = Del a k \<or> p = (case k of Finish \<Rightarrow> Idle | Then_mark h e \<Rightarrow> Mark_assert h e)" using p by blast
  have sp: "spare p = None" using pp by (cases k) auto
  have h: "held w' = (held w)(Inr t := None)" using sp w' by (simp add: fun_eq_iff held_def split: sum.split)
  have hol: "holders w' b = (if b = a then holders w a - {Inr t} else holders w b)" for b
    using tt holders_upd [OF h, of b] by (auto simp: holders_def)
  have da: "deleting w a = {}" using held_cell [of w "Inr t" a] assms(1,2) by (auto simp: held_def)
  have dl: "deleting w' b = (if dying p = Some b then insert t (deleting w b) else deleting w b)" for b
    using assms(5) w' by (auto simp: deleting_def)
  have wr: "writes p \<subseteq> writes (place w t)" "reads p = {}" using pp assms(6) by (cases k; auto)+
  have aft: "after_fine w' k" using after_keep [OF assms(4) tt w'(1)] w'(2) hol by simp
  show ?thesis
  proof (rule world_step [OF assms(1) _ _ _ t])
    show "quiet t {} w w'"
      unfolding quiet_def hol
    proof (intro conjI allI impI)
      fix y b z assume y: "held w y = Some b \<and> cells (wheap w) b = Some z \<and> y \<notin> Inl ` {} \<and> y \<noteq> Inr t"
      then show "\<exists>x'. cells (wheap w') b = Some x' \<and> milder z x'" using assms(3) \<open>milder x x'\<close> w'(2) by (auto simp: milder_def)
    next
      fix u g c assume g: "u \<noteq> t \<and> g \<in> writes (place w u) \<and> holders w c = {Inl g}"
      then have "c \<noteq> a" using tt by auto
      then show "(if c = a then holders w a - {Inr t} else holders w c) = {Inl g}" using g by simp
    qed (use w' in auto)
    show "place_fine w' (place w' t)" using pp aft w'(3) by (cases k) auto
    show "cell_fine (cells (wheap w') b) (holders w' b) (deleting w' b)" for b
    proof (cases "b = a")
      case True
      have dp: "dying p = (if p = Del a k then Some a else None)" using pp by (cases k) auto
      show ?thesis
      proof (cases "p = Del a k")
        case del: True
        then have "holders w a - {Inr t} = {} \<and> (ref_count x' = 0 \<or> ref_count x' = kUnsharedRefMark)"
          using p by (cases k) auto
        then show ?thesis using True del dp x'(1) w'(2) da unfolding hol dl by (simp add: cell_fine_def)
      next
        case False
        then have "counted x' (card (holders w a - {Inr t}))" using p by blast
        then show ?thesis using True False dp x'(1) w'(2) da unfolding hol dl by (simp add: cell_fine_def)
      qed
    next
      case False
      then have "dying p \<noteq> Some b" using pp by (cases k) auto
      then show ?thesis using False cell_fine_at [OF assms(1), of b] w'(2) unfolding hol dl by simp
    qed
    show "writes (place w' t) \<inter> (reads (place w u) \<union> writes (place w u)) = {} \<and> reads (place w' t) \<inter> writes (place w u) = {}" if "u \<noteq> t" for u
      using step_apart [OF assms(1) wr(1) _ that] wr(2) w'(3) by simp
  qed (use assms(1,3) w' in \<open>auto simp: world_ok_def\<close>)
qed

text \<open>Deleting it.\<close>

lemma ts_delete_ok:
  assumes "world_ok w" and "place w t = Del a k"
  shows "\<exists>m. delete_cell (wheap w) a = Inr m \<and> world_ok (done_with t k (w\<lparr>wheap := m\<rparr>))"
proof -
  have td: "t \<in> deleting w a" using assms(2) by (simp add: deleting_def)
  then obtain x where x: "cells (wheap w) a = Some x" "holders w a = {}" "deleting w a = {t}" "ref_count x = 0 \<or> ref_count x = kUnsharedRefMark"
    using cell_fine_at [OF assms(1), of a] by (auto simp: cell_fine_def split: option.splits)
  let ?m = "(wheap w)\<lparr>cells := (cells (wheap w))(a := None)\<rparr>"
  define w' where "w' = done_with t k (w\<lparr>wheap := ?m\<rparr>)"
  define p where "p = (case k of Finish \<Rightarrow> Idle | Then_mark h e \<Rightarrow> Mark_assert h e)"
  have del: "delete_cell (wheap w) a = Inr ?m" using x(1,4) by (auto simp: delete_cell_def deref_def)
  have w': "owner w' = owner w" "wheap w' = ?m" "place w' = (place w)(t := p)" by (simp_all add: w'_def done_with_def goto_def p_def)
  have t: "t < limit" and aft0: "after_fine w k"
    using assms unfolding world_ok_def by (metis place.distinct(21), metis place_fine.simps(12))
  have h: "held w' = held w" using assms(2) w' by (auto simp: fun_eq_iff held_def p_def split: sum.split after.split)
  have hol: "holders w' = holders w" by (rule holders_same [OF h])
  have dl: "deleting w' b = (if b = a then {} else deleting w b)" for b
    using assms(2) w' x(3) by (auto simp: deleting_def p_def split: after.split)
  have wr: "writes p \<subseteq> writes (place w t)" "reads p = {}" using assms(2) by (auto simp: p_def split: after.splits)
  have aft: "after_fine w' k"
  proof (cases k)
    case (Then_mark g e)
    then obtain b z where b: "owner w g = Some b" "cells (wheap w) b = Some z" "holders w b = {Inl g}" "required e z \<le> capacity z \<and> edit_allowed e (sd_size z)"
      using aft0 by (auto simp: ready_def own_def)
    moreover have "b \<noteq> a" using b(3) x(2) by auto
    ultimately show ?thesis using Then_mark w' hol by (simp add: ready_def own_def)
  qed simp
  have "world_ok w'"
  proof (rule world_step [OF assms(1) _ _ _ t])
    show "quiet t {} w w'"
      unfolding quiet_def hol
    proof (intro conjI allI impI)
      fix y b z assume y: "held w y = Some b \<and> cells (wheap w) b = Some z \<and> y \<notin> Inl ` {} \<and> y \<noteq> Inr t"
      then have "b \<noteq> a" using x(2) by (auto simp: holders_def)
      then show "\<exists>x'. cells (wheap w') b = Some x' \<and> milder z x'" using y w'(2) by (auto simp: milder_def)
    qed (use w' in auto)
    show "place_fine w' (place w' t)" using aft w'(3) by (auto simp: p_def split: after.splits)
    show "cell_fine (cells (wheap w') b) (holders w' b) (deleting w' b)" for b
    proof (cases "b = a")
      case True
      then show ?thesis using x(2) w'(2) unfolding hol dl by (simp add: cell_fine_def)
    next
      case False
      then show ?thesis using cell_fine_at [OF assms(1), of b] w'(2) unfolding hol dl by simp
    qed
    show "writes (place w' t) \<inter> (reads (place w u) \<union> writes (place w u)) = {} \<and> reads (place w' t) \<inter> writes (place w u) = {}" if "u \<noteq> t" for u
      using step_apart [OF assms(1) wr(1) _ that] wr(2) w'(3) by simp
  qed (use assms(1) w' in \<open>auto simp: world_ok_def\<close>)
  then show ?thesis using del by (auto simp: w'_def)
qed

text \<open>The destructor begins: the thread holds what the object held.\<close>

lemma ts_drop_ok:
  assumes "world_ok w" and "place w t = Idle" and "t < limit" and "owner w h = Some a"
    and "\<And>u. u \<noteq> t \<Longrightarrow> h \<notin> reads (place w u) \<union> writes (place w u)"
    and w': "wheap w' = wheap w" "owner w' = (owner w)(h := None)" "place w' = (place w)(t := Rel_assert a Finish)"
  shows "world_ok w'"
proof -
  have ha: "Inl h \<in> holders w a" and tn: "Inr t \<notin> holders w b" for b using assms(2,4) by (simp_all add: holders_def held_def)
  have hh: "held w' = (held w)(Inl h := None, Inr t := Some a)" using w' by (auto simp: fun_eq_iff held_def split: sum.split)
  have hol: "holders w' b = (if b = a then insert (Inr t) (holders w a - {Inl h}) else holders w b)" for b
    using ha tn [of b] unfolding holders_def hh by auto
  have dl: "deleting w' b = deleting w b" for b using assms(2) w' by (auto simp: deleting_def)
  have cnt: "card (insert (Inr t) (holders w a - {Inl h})) = card (holders w a)"
    using ha tn [of a] finite_holders(1) [OF assms(1), of a] by (intro card_swap)
  show ?thesis
  proof (rule world_step [OF assms(1) _ _ _ assms(3)])
    show "quiet t {h} w w'"
      unfolding quiet_def hol
    proof (intro conjI allI impI)
      fix u assume u: "u \<noteq> t"
      then show "place w' u = place w u" "{h} \<inter> (reads (place w u) \<union> writes (place w u)) = {}" using w' assms(5) [OF u] by auto
    next
      fix u g c assume g: "u \<noteq> t \<and> g \<in> writes (place w u) \<and> holders w c = {Inl g}"
      have "c \<noteq> a"
      proof
        assume "c = a"
        then have "h = g" using ha g by simp
        then show False using assms(5) [of u] g by simp
      qed
      then show "(if c = a then insert (Inr t) (holders w a - {Inl h}) else holders w c) = {Inl g}" using g by simp
    qed (use w' in \<open>auto simp: milder_def\<close>)
    show "place_fine w' (place w' t)" using w' by simp
    show "cell_fine (cells (wheap w') b) (holders w' b) (deleting w' b)" for b
    proof (cases "b = a")
      case True
      obtain z where "cells (wheap w) a = Some z" "good_data z" "deleting w a = {}" "counted z (card (holders w a))"
        using owned_cell [OF assms(1,4)] by blast
      then show ?thesis using True cnt w' unfolding hol dl by (simp add: cell_fine_def)
    next
      case False
      then show ?thesis using cell_fine_at [OF assms(1), of b] w' unfolding hol dl by simp
    qed
  qed (use assms(1) w' in \<open>auto simp: world_ok_def split: if_splits\<close>)
qed

section \<open>What the strings are\<close>

lemma value_goto [simp]: "value_of (goto t p w) = value_of w" "value_of (log_op e w) = value_of w" "value_of (done_with t k w) = value_of w"
  by (simp_all add: value_of_def done_with_def fun_eq_iff split: option.split)

lemma value_set_cell: "cells (wheap w) a = Some x \<Longrightarrow> sd_value x' = sd_value x \<Longrightarrow> value_of (set_cell a x' w) = value_of w"
  by (auto simp: value_of_def fun_eq_iff split: option.split)

lemma value_new_cell:
  assumes "world_ok w"
  shows "value_of (new_cell h x w) = (value_of w)(h \<mapsto> sd_value x)"
proof -
  have "owner w g \<noteq> Some (brk (wheap w))" for g
  proof
    assume "owner w g = Some (brk (wheap w))"
    then have "Inl g \<in> holders w (brk (wheap w))" by (simp add: holders_def held_def)
    then show False using fresh(2) [OF assms] by simp
  qed
  then show ?thesis by (auto simp: value_of_def fun_eq_iff split: option.split)
qed

lemma value_own:
  assumes "holders w a = {Inl h}" and "owner w h = Some a"
  shows "value_of (set_cell a x' w) = (value_of w)(h \<mapsto> sd_value x')"
proof -
  have other: "owner w g \<noteq> Some a" if "g \<noteq> h" for g
  proof
    assume "owner w g = Some a"
    then have "Inl g \<in> holders w a" by (simp add: holders_def held_def)
    then show False using assms(1) that by simp
  qed
  show ?thesis
  proof
    fix g show "value_of (set_cell a x' w) g = ((value_of w)(h \<mapsto> sd_value x')) g"
    proof (cases "g = h")
      case False
      then show ?thesis using other [of g] by (simp add: value_of_def split: option.split)
    qed (simp add: value_of_def assms(2))
  qed
qed

lemma value_some:
  assumes "world_ok w" and "value_of w h = Some v"
  obtains a x where "owner w h = Some a" and "cells (wheap w) a = Some x" and "good_data x" and "v = sd_value x" and "length v = sd_size x"
proof -
  obtain a x where a: "owner w h = Some a" "cells (wheap w) a = Some x" "v = sd_value x" using assms(2) by (auto simp: value_of_def split: option.splits)
  moreover have "good_data x" using owned_cell [OF assms(1) a(1)] a(2) by auto
  ultimately show ?thesis using that length_sd_value by blast
qed

lemma data_of_ok: "owner w h = Some a \<Longrightarrow> cells (wheap w) a = Some x \<Longrightarrow> data_of w h = Inr (a, x)"
  by (simp add: data_of_def deref_def)

lemma required_add: "good_data x \<Longrightarrow> edit_allowed e (sd_size x) \<Longrightarrow> required e x \<le> 2 ^ 61 \<and> (required e x \<le> capacity x \<or> required e x \<le> 2 ^ 60) \<and>
    (\<forall>bs. e = Add bs \<longrightarrow> required e x = sd_size x + length bs)"
  by (cases e) (auto simp: required_def edit_allowed_def max_string_def good_data_def)

lemma apply_edit_ok:
  assumes "good_data x" and "Unique x" and "required e x \<le> capacity x" and "edit_allowed e (sd_size x)"
  shows "\<exists>x'. apply_edit e x = Inr x' \<and> good_data x' \<and> ref_count x' = ref_count x \<and>
    sd_value x' = (case e of Add bs \<Rightarrow> sd_value x @ bs | Put i c \<Rightarrow> (sd_value x)[i := c])"
proof (cases e)
  case (Add bs)
  have "sd_size x + length bs \<le> capacity x" using required_add [OF assms(1,4)] assms(3) Add by simp
  then show ?thesis using CopyData_ok [OF assms(1,2), of "length bs" "Some bs" bs] Add by (auto simp: apply_edit_def)
next
  case (Put i c)
  then have i: "i < sd_size x" using assms(4) by (simp add: edit_allowed_def)
  then obtain b where b: "buffer x = Some b" "length b = capacity x" "sd_size x \<le> capacity x"
    using assms(1) by (auto simp: good_data_def split: option.splits)
  then show ?thesis using Put i assms(1) by (simp add: apply_edit_def set_at_def good_data_def sd_value_def take_update_swap)
qed

definition does :: "world \<Rightarrow> world \<Rightarrow> rc_op list \<Rightarrow> bool" where
  "does w w' es \<longleftrightarrow> world_ok w' \<and> history w' = history w @ es \<and> ofold value_step es (value_of w) = Some (value_of w')"

lemma goto_does:
  assumes "world_ok w" and "spare p = spare (place w t)" and "dying p = None" and "dying (place w t) = None"
    and "place_fine w p" and "writes p \<subseteq> writes (place w t)" and "reads p \<subseteq> reads (place w t)" and "place w t \<noteq> Idle"
  shows "does w (goto t p w) []"
proof -
  have "t < limit" using assms(1,8) by (simp add: world_ok_def)
  then have "world_ok (goto t p w)" using ts_goto_ok [OF assms(1) _ assms(2-5)] step_apart [OF assms(1,6)] assms(7) by blast
  then show ?thesis by (simp add: does_def)
qed

lemma see_data:
  assumes "see w h P"
  obtains a x where "owner w h = Some a" and "cells (wheap w) a = Some x" and "P x" and "data_of w h = Inr (a, x)"
  using assms that data_of_ok by (auto simp: see_def cell_of_def split: option.splits)

lemma own_data:
  assumes "world_ok w" and "own w h P"
  obtains a x where "owner w h = Some a" and "cells (wheap w) a = Some x" and "P x" and "data_of w h = Inr (a, x)"
    and "holders w a = {Inl h}" and "good_data x" and "Unique x"
proof -
  obtain a x where a: "owner w h = Some a" "cells (wheap w) a = Some x" "holders w a = {Inl h}" "P x" using assms(2) by (auto simp: own_def)
  have "good_data x" using owned_cell [OF assms(1) a(1)] a(2) by auto
  moreover have "Unique x" using unique_iff [OF assms(1) _ a(2), of "Inl h"] a(1,3) by (simp add: held_def)
  ultimately show ?thesis using that a data_of_ok by blast
qed

lemma advance_copy:
  assumes "world_ok w" and "good_memory mem" and p: "place w t \<in> {Copy_check s d, Copy_assert s d, Copy_add s d, Copy_clone s d}"
  shows "\<exists>w' es. advance mem t w = Inr w' \<and> does w w' es"
proof -
  have f: "place_fine w (place w t)" using assms(1) by (simp add: world_ok_def)
  then have sd: "see w s (\<lambda>_. True)" "owner w d = None" "d < limit" using p by (auto simp: see_def)
  obtain a x where x: "owner w s = Some a" "cells (wheap w) a = Some x" "data_of w s = Inr (a, x)" using see_data [OF sd(1)] by blast
  have c: "good_data x" "counted x (card (holders w a))" using owned_cell [OF assms(1) x(1)] x(2) by auto
  have t: "t < limit" using assms(1) p by (auto simp: world_ok_def)
  have dv: "value_of w d = None" "value_of w s = Some (sd_value x)" using sd(2) x by (simp_all add: value_of_def)
  consider "place w t = Copy_check s d" | "place w t = Copy_assert s d" | "place w t = Copy_add s d" | "place w t = Copy_clone s d" using p by blast
  then show ?thesis
  proof cases
    case 1
    let ?p = "if \<not> Unsharedable x then Copy_assert s d else Copy_clone s d"
    have "place_fine w ?p" using sd x by (auto simp: see_def cell_of_def shared_ref_def Unsharedable_def)
    then have "does w (goto t ?p w) []" using 1 by (intro goto_does [OF assms(1)]) (auto split: if_splits)
    moreover have "advance mem t w = Inr (goto t ?p w)" using 1 x(3) by (simp add: advance_def)
    ultimately show ?thesis by blast
  next
    case 2
    have "does w (goto t (Copy_add s d) w) []" using 2 f by (intro goto_does [OF assms(1)]) auto
    moreover have "advance mem t w = Inr (goto t (Copy_add s d) w)" using 2 x(3) c(2) by (auto simp: advance_def counted_def kUnsharedRefMark_def)
    ultimately show ?thesis by blast
  next
    case 3
    let ?v = "(set_cell a (fetch_add x) w)\<lparr>owner := (owner w)(d := Some a)\<rparr>"
    let ?w = "goto t Idle (log_op (Copy_of d s) ?v)"
    have "world_ok ?w" by (rule add_ok [OF assms(1) 3 x(1,2)]) (simp_all add: goto_def log_op_def set_cell_def)
    moreover have "value_of ?v = (value_of w)(d \<mapsto> sd_value x)"
    proof
      fix g show "value_of ?v g = ((value_of w)(d \<mapsto> sd_value x)) g"
        using x(2) by (cases "g = d") (auto simp: value_of_def fetch_add_def split: option.split)
    qed
    ultimately have "does w ?w [Copy_of d s]" using dv by (simp add: does_def)
    moreover have "advance mem t w = Inr ?w" using 3 x(3) by (simp add: advance_def)
    ultimately show ?thesis by blast
  next
    case 4
    have "sd_size x \<le> 2 ^ 61" using c(1) by (simp add: good_data_def)
    then obtain y where y: "Clone mem (sd_size x) x = Inr y" "good_data y" "ref_count y = 1" "sd_value y = sd_value x"
      using Clone_ok [OF assms(2) c(1)] by metis
    let ?w = "goto t Idle (log_op (Copy_of d s) (new_cell d y w))"
    have "world_ok ?w"
    proof (rule ts_new_ok [OF assms(1) t y(2,3) sd(3,2)])
      show "d \<notin> reads (place w u) \<union> writes (place w u)" if "u \<noteq> t" for u using apart_uses [OF assms(1) that, of d] 4 by simp
    qed (use 4 in simp_all)
    then have "does w ?w [Copy_of d s]" using dv y(4) value_new_cell [OF assms(1)] by (simp add: does_def)
    moreover have "advance mem t w = Inr ?w" using 4 x(3) y(1) by (simp add: advance_def)
    ultimately show ?thesis by blast
  qed
qed

lemma advance_mod:
  assumes "world_ok w" and "good_memory mem" and p: "place w t \<in> {Mod_check h e, Mod_reserve h e n, Mod_clone h e n}"
  shows "\<exists>w' es. advance mem t w = Inr w' \<and> does w w' es"
proof -
  have f: "place_fine w (place w t)" using assms(1) by (simp add: world_ok_def)
  have t: "t < limit" using assms(1) p by (auto simp: world_ok_def)
  consider "place w t = Mod_check h e" | "place w t = Mod_reserve h e n" | "place w t = Mod_clone h e n" using p by blast
  then show ?thesis
  proof cases
    case 1
    then obtain a x where x: "owner w h = Some a" "cells (wheap w) a = Some x" "edit_allowed e (sd_size x)" "data_of w h = Inr (a, x)"
      using f see_data [of w h] by auto
    let ?p = "if \<not> Unique x then Mod_clone h e (required e x) else Mod_reserve h e (required e x)"
    have "Unique x \<Longrightarrow> holders w a = {Inl h}" using unique_iff [OF assms(1) _ x(2), of "Inl h"] x(1) by (simp add: held_def)
    then have "place_fine w ?p" using x by (auto simp: see_def own_def cell_of_def)
    then have "does w (goto t ?p w) []" using 1 by (intro goto_does [OF assms(1)]) (auto split: if_splits)
    moreover have "advance mem t w = Inr (goto t ?p w)" using 1 x(4) by (simp add: advance_def)
    ultimately show ?thesis by blast
  next
    case 2
    then have o: "own w h (\<lambda>x. edit_allowed e (sd_size x) \<and> n = required e x)" using f by simp
    obtain a x where x: "owner w h = Some a" "cells (wheap w) a = Some x" "edit_allowed e (sd_size x)" "n = required e x" "data_of w h = Inr (a, x)"
      "holders w a = {Inl h}" "good_data x" "Unique x"
      using own_data [OF assms(1) o] by blast
    note req = required_add [OF x(7,3)]
    have cap: "capacity x * 3 div 2 \<le> 2 ^ 61 \<or> n \<le> capacity x" and n: "n \<le> 2 ^ 61" using req x(4) by auto
    obtain x' where x': "Reserve mem n x = Inr x'" "good_data x'" "n \<le> capacity x'" "sd_size x' = sd_size x" "ref_count x' = ref_count x" "sd_value x' = sd_value x"
      using Reserve_ok [OF assms(2) x(7) cap n] by blast
    let ?w = "goto t (Mark_assert h e) (set_cell a x' w)"
    have hol: "holders (set_cell a x' w) = holders w" by (rule holders_same) simp
    have "required e x' = n" using x'(4) x(4) by (simp add: required_def split: edit.split)
    then have rdy: "place_fine (set_cell a x' w) (Mark_assert h e)" using x(1,3,6) x'(3,4) by (simp add: ready_def own_def hol)
    have "world_ok ?w"
      by (rule private_ok [where p = "Mark_assert h e", OF assms(1) t x(6) _ _ x'(2)]) (use 2 x(2,8) x'(5) rdy in \<open>auto simp: Unique_def\<close>)
    then have "does w ?w []" using value_set_cell [OF x(2) x'(6)] by (simp add: does_def)
    moreover have "advance mem t w = Inr ?w" using 2 x(5) x'(1) by (simp add: advance_def)
    ultimately show ?thesis by blast
  next
    case 3
    then have o: "see w h (\<lambda>x. edit_allowed e (sd_size x) \<and> n = required e x)" using f by simp
    obtain a x where x: "owner w h = Some a" "cells (wheap w) a = Some x" "edit_allowed e (sd_size x)" "n = required e x" "data_of w h = Inr (a, x)"
      using see_data [OF o] by blast
    have g: "good_data x" using owned_cell [OF assms(1) x(1)] x(2) by auto
    have "n \<le> 2 ^ 61" using required_add [OF g x(3)] x(4) by simp
    then obtain y where y: "Clone mem n x = Inr y" "good_data y" "n \<le> capacity y" "ref_count y = 1" "sd_value y = sd_value x"
      using Clone_ok [OF assms(2) g] by metis
    have sz: "sd_size y = sd_size x" using length_sd_value [OF y(2)] length_sd_value [OF g] y(5) by simp
    then have "required e y = required e x" by (simp add: required_def split: edit.split)
    then have "required e y \<le> capacity y" "edit_allowed e (sd_size y)" using x(3,4) y(3) sz by simp_all
    then have "world_ok (goto t (Rel_assert a (Then_mark h e)) (new_cell h y w))" using clone_ok [OF assms(1) 3 x(1) y(2,4)] by simp
    moreover have "value_of (new_cell h y w) = value_of w"
      using value_new_cell [OF assms(1)] y(5) x(1,2) by (auto simp: value_of_def fun_eq_iff)
    ultimately have "does w (goto t (Rel_assert a (Then_mark h e)) (new_cell h y w)) []" by (simp add: does_def)
    moreover have "advance mem t w = Inr (goto t (Rel_assert a (Then_mark h e)) (new_cell h y w))" using 3 x(5) y(1) by (simp add: advance_def)
    ultimately show ?thesis by blast
  qed
qed

lemma advance_rel:
  assumes "world_ok w" and p: "place w t \<in> {Rel_assert a k, Rel_check a k, Rel_sub a k, Del a k}"
  shows "\<exists>w' es. advance mem t w = Inr w' \<and> does w w' es"
proof -
  have f: "place_fine w (place w t)" using assms(1) by (simp add: world_ok_def)
  then have aft: "after_fine w k" using p by auto
  show ?thesis
  proof (cases "place w t = Del a k")
    case True
    obtain m where m: "delete_cell (wheap w) a = Inr m" "world_ok (done_with t k (w\<lparr>wheap := m\<rparr>))" using ts_delete_ok [OF assms(1) True] by blast
    have no: "owner w g \<noteq> Some a" for g
    proof
      assume g: "owner w g = Some a"
      have "t \<in> deleting w a" using True by (simp add: deleting_def)
      then show False using owned_cell [OF assms(1) g] by auto
    qed
    have "cells m b = cells (wheap w) b" if "b \<noteq> a" for b
      using m(1) that by (auto simp: delete_cell_def rbind_Inr_iff)
    then have "map_option sd_value (cells m b) = map_option sd_value (cells (wheap w) b)" if "owner w g = Some b" for g b
      using no [of g] that by (cases "b = a") simp_all
    then have "value_of (w\<lparr>wheap := m\<rparr>) = value_of w" by (auto simp: value_of_def fun_eq_iff split: option.split)
    then have "does w (done_with t k (w\<lparr>wheap := m\<rparr>)) []" using m(2) by (simp add: does_def done_with_def)
    then show ?thesis using True m(1) by (auto simp: advance_def)
  next
    case False
    then have sp: "spare (place w t) = Some a" and dy: "dying (place w t) = None" and wr: "after_writes k \<subseteq> writes (place w t)"
      and ni: "place w t \<noteq> Idle" using p by auto
    have hd': "held w (Inr t) = Some a" using sp by (simp add: held_def)
    obtain x where x: "cells (wheap w) a = Some x" "good_data x" "counted x (card (holders w a))" using held_cell [OF assms(1) hd'] by blast
    have dr: "deref (wheap w) a = Inr x" using x(1) by (simp add: deref_def)
    have tt: "Inr t \<in> holders w a" using hd' by (simp add: holders_def)
    have fin: "finite (holders w a)" by (rule finite_holders(1) [OF assms(1)])
    have le: "card (holders w a) \<le> 2 ^ 31" by (rule finite_holders(2) [OF assms(1)])
    consider "place w t = Rel_assert a k" | "place w t = Rel_check a k" | "place w t = Rel_sub a k" using p False by blast
    then show ?thesis
    proof cases
      case 1
      have "does w (goto t (Rel_check a k) w) []" using 1 aft by (intro goto_does [OF assms(1)]) auto
      moreover have "advance mem t w = Inr (goto t (Rel_check a k) w)" using 1 dr x(3) by (auto simp: advance_def counted_def kUnsharedRefMark_def)
      ultimately show ?thesis by blast
    next
      case 2
      show ?thesis
      proof (cases "Unsharedable x")
        case True
        then have "card (holders w a) = 1" using x(3) le by (auto simp: counted_def Unsharedable_def kUnsharedRefMark_def)
        then have "holders w a = {Inr t}" using tt by (auto simp: card_1_singleton_iff)
        then have "world_ok (goto t (Del a k) w)"
          using True x(1,2)
          by (intro letting_go [OF assms(1) sp x(1) aft dy wr, where x' = x and p = "Del a k"]) (auto simp: write_cell_def milder_def Unsharedable_def fun_upd_idem)
        then have "does w (goto t (Del a k) w) []" by (simp add: does_def)
        then show ?thesis using 2 dr True by (auto simp: advance_def)
      next
        case False
        have "place_fine w (Rel_sub a k)" using aft False x(1) by (simp add: shared_ref_def Unsharedable_def)
        then have "does w (goto t (Rel_sub a k) w) []" using 2 by (intro goto_does [OF assms(1)]) auto
        then show ?thesis using 2 dr False by (auto simp: advance_def)
      qed
    next
      case 3
      have sh: "shared_ref x" using 3 f x(1) by simp
      have ref: "ref_count x = card (holders w a)" using x(3) sh by (simp add: counted_def shared_ref_def)
      have pos: "card (holders w a) > 0" using x(3) by (simp add: counted_def)
      have sub: "ref_count (fetch_sub x) = card (holders w a) - 1"
      proof -
        obtain m where m: "card (holders w a) = Suc m" using pos gr0_implies_Suc by blast
        have "(Suc m + (2 ^ 32 - 1)) mod 2 ^ 32 = (m + 2 ^ 32) mod 2 ^ 32" by simp
        also have "\<dots> = m" using le m by simp
        finally show ?thesis using ref m by (simp add: fetch_sub_def)
      qed
      have "card (holders w a) - 1 \<noteq> kUnsharedRefMark" using le by (simp add: kUnsharedRefMark_def)
      then have "shared_ref (fetch_sub x)" using sub by (simp add: shared_ref_def)
      then have mild: "milder x (fetch_sub x)" by (simp add: milder_def) (simp add: fetch_sub_def)
      have good: "good_data (fetch_sub x)" and val: "sd_value (fetch_sub x) = sd_value x" using x(2) by (simp_all add: fetch_sub_def)
      have c': "card (holders w a - {Inr t}) = card (holders w a) - 1" using tt fin by simp
      define w' where "w' = (if ref_count (fetch_sub x) = 0 then goto t (Del a k) (set_cell a (fetch_sub x) w) else done_with t k (set_cell a (fetch_sub x) w))"
      define p where "p = (if ref_count (fetch_sub x) = 0 then Del a k else (case k of Finish \<Rightarrow> Idle | Then_mark h e \<Rightarrow> Mark_assert h e))"
      have eq: "owner w' = owner w" "wheap w' = write_cell (wheap w) a (fetch_sub x)" "place w' = (place w)(t := p)"
        by (simp_all add: w'_def p_def done_with_def)
      have alt: "p = Del a k \<and> holders w a = {Inr t} \<and> (ref_count (fetch_sub x) = 0 \<or> ref_count (fetch_sub x) = kUnsharedRefMark) \<or>
          p = (case k of Finish \<Rightarrow> Idle | Then_mark h e \<Rightarrow> Mark_assert h e) \<and> counted (fetch_sub x) (card (holders w a - {Inr t}))"
      proof (cases "ref_count (fetch_sub x) = 0")
        case True
        then have "card (holders w a) = 1" using sub pos by simp
        then have "holders w a = {Inr t}" using tt by (auto simp: card_1_singleton_iff)
        then show ?thesis using True by (simp add: p_def)
      next
        case False
        then have "counted (fetch_sub x) (card (holders w a - {Inr t}))" using sub c' by (simp add: counted_def)
        then show ?thesis using False by (simp add: p_def)
      qed
      have "world_ok w'" by (rule letting_go [OF assms(1) sp x(1) aft dy wr eq good mild alt])
      moreover have "value_of w' = value_of w" using value_set_cell [OF x(1) val] by (simp add: w'_def)
      ultimately have "does w w' []" by (simp add: does_def) (simp add: w'_def done_with_def)
      moreover have "advance mem t w = Inr w'" using 3 dr by (simp add: advance_def Let_def w'_def)
      ultimately show ?thesis by blast
    qed
  qed
qed

lemma advance_edit:
  assumes "world_ok w" and p: "place w t \<in> {Mark_assert h e, Mark_store h e, Edit_write h e}"
  shows "\<exists>w' es. advance mem t w = Inr w' \<and> does w w' es"
proof -
  have "place_fine w (place w t)" using assms(1) by (simp add: world_ok_def)
  then have rdy: "ready w h e" using p by auto
  obtain a x where x: "owner w h = Some a" "cells (wheap w) a = Some x" "required e x \<le> capacity x \<and> edit_allowed e (sd_size x)"
    "data_of w h = Inr (a, x)" "holders w a = {Inl h}" "good_data x" "Unique x"
    using own_data [OF assms(1) rdy [unfolded ready_def]] by blast
  have t: "t < limit" using assms(1) p by (auto simp: world_ok_def)
  have v: "value_of w h = Some (sd_value x)" using x(1,2) by (simp add: value_of_def)
  consider "place w t = Mark_assert h e" | "place w t = Mark_store h e" | "place w t = Edit_write h e" using p by blast
  then show ?thesis
  proof cases
    case 1
    have "does w (goto t (Mark_store h e) w) []" using 1 rdy by (intro goto_does [OF assms(1)]) auto
    then show ?thesis using 1 x(4,7) by (auto simp: advance_def)
  next
    case 2
    let ?x = "x\<lparr>ref_count := (case e of Put i c \<Rightarrow> kUnsharedRefMark | Add bs \<Rightarrow> 1)\<rparr>"
    let ?w = "goto t (Edit_write h e) (set_cell a ?x w)"
    have hol: "holders (set_cell a ?x w) = holders w" by (rule holders_same) simp
    have "required e ?x = required e x" by (simp add: required_def split: edit.split)
    then have "place_fine (set_cell a ?x w) (Edit_write h e)" using x(1,3,5) by (simp add: ready_def own_def hol)
    then have "world_ok ?w"
      by (intro private_ok [where p = "Edit_write h e" and x = ?x, OF assms(1) t x(5)]) (use 2 x(2,6) in \<open>auto split: edit.split\<close>)
    then have "does w ?w []" using value_set_cell [OF x(2), of ?x] by (simp add: does_def)
    then show ?thesis using 2 x(4) by (auto simp: advance_def)
  next
    case 3
    obtain x' where x': "apply_edit e x = Inr x'" "good_data x'" "ref_count x' = ref_count x"
      "sd_value x' = (case e of Add bs \<Rightarrow> sd_value x @ bs | Put i c \<Rightarrow> (sd_value x)[i := c])"
      using apply_edit_ok [OF x(6,7)] x(3) by blast
    let ?w = "goto t Idle (log_op (edit_op h e) (set_cell a x' w))"
    have "world_ok ?w"
      by (rule private_ok [where p = Idle and x = x', OF assms(1) t x(5)]) (use 3 x(2,7) x'(2,3) in \<open>auto simp: Unique_def\<close>)
    moreover have "value_step (value_of w) (edit_op h e) = Some ((value_of w)(h \<mapsto> sd_value x'))"
      using v x(3) x'(4) length_sd_value [OF x(6)] by (cases e) (auto simp: edit_op_def edit_allowed_def)
    ultimately have "does w ?w [edit_op h e]" using value_own [OF x(5,1)] by (simp add: does_def)
    then show ?thesis using 3 x(4) x'(1) by (auto simp: advance_def)
  qed
qed

lemma advance_does:
  assumes "world_ok w" and "good_memory mem"
  shows "\<exists>w' es. advance mem t w = Inr w' \<and> does w w' es"
proof (cases "place w t")
  case Idle
  then have "does w w [] \<and> advance mem t w = Inr w" using assms(1) by (simp add: does_def advance_def)
  then show ?thesis by blast
qed (use advance_copy [OF assms, of t] advance_mod [OF assms, of t] advance_rel [OF assms(1), of t] advance_edit [OF assms(1), of t] in \<open>simp_all\<close>)

text \<open>Only the threads there are do something.\<close>

definition bounded :: "world \<Rightarrow> bool" where
  "bounded w \<longleftrightarrow> threads w \<le> limit \<and> (\<forall>t. threads w \<le> t \<longrightarrow> place w t = Idle)"

lemma others_idle:
  assumes "bounded w" and "u \<noteq> t"
  shows "\<not> used_by_others w t h \<Longrightarrow> h \<notin> reads (place w u) \<union> writes (place w u)"
    and "\<not> written_by_others w t h \<Longrightarrow> h \<notin> writes (place w u)"
proof -
  have "u < threads w" if "place w u \<noteq> Idle" using assms(1) that by (meson bounded_def not_less)
  then show "\<not> used_by_others w t h \<Longrightarrow> h \<notin> reads (place w u) \<union> writes (place w u)"
    "\<not> written_by_others w t h \<Longrightarrow> h \<notin> writes (place w u)"
    using assms(2) by (cases "place w u = Idle"; auto simp: used_by_others_def written_by_others_def list_ex_iff)+
qed

lemma start_new:
  assumes "world_ok w" and "bounded w" and "place w t = Idle" and "t < limit" and "owner w h = None" and "h < limit" and "\<not> used_by_others w t h"
    and "good_data x" and "ref_count x = 1" and "value_step (value_of w) e = Some ((value_of w)(h \<mapsto> sd_value x))"
  shows "does w (log_op e (new_cell h x w)) [e]"
proof -
  have "place w = (place w)(t := Idle)" using assms(3) by (simp add: fun_eq_iff)
  then have "world_ok (log_op e (new_cell h x w))"
    using assms(3) others_idle(1) [OF assms(2) _ assms(7)] by (intro ts_new_ok [OF assms(1,4,8,9,6,5)]) auto
  then show ?thesis using value_new_cell [OF assms(1)] assms(10) by (simp add: does_def)
qed

lemma start_goto:
  assumes "world_ok w" and "place w t = Idle" and "t < limit" and "spare p = None" and "dying p = None" and "place_fine w p"
    and "\<And>u. u \<noteq> t \<Longrightarrow> writes p \<inter> (reads (place w u) \<union> writes (place w u)) = {} \<and> reads p \<inter> writes (place w u) = {}"
  shows "does w (goto t p w) []"
  using ts_goto_ok [OF assms(1,3) _ assms(5) _ assms(6,7)] assms(2,4) by (simp add: does_def)

lemma start_edit:
  assumes "world_ok w" and "place w t = Idle" and "t < limit" and "bounded w" and "value_of w h = Some v" and "edit_allowed e (length v)" and "\<not> used_by_others w t h"
  shows "does w (goto t (Mod_check h e) w) []"
proof -
  obtain a x where "owner w h = Some a" "cells (wheap w) a = Some x" "length v = sd_size x" using value_some [OF assms(1,5)] by metis
  then have "place_fine w (Mod_check h e)" using assms(6) by (simp add: see_def cell_of_def)
  then show ?thesis using others_idle(1) [OF assms(4) _ assms(7)] by (intro start_goto [OF assms(1-3)]) auto
qed

lemma start_does:
  assumes "world_ok w" and "good_memory mem" and "start mem t e w = Some r" and b: "bounded w"
  shows "\<exists>w' es. r = Inr w' \<and> does w w' es"
proof -
  have t': "place w t = Idle" "t < threads w" using assms(3) by (auto simp: start_def split: if_splits)
  have t: "place w t = Idle" "t < limit" using t' b by (auto simp: bounded_def)
  note st = assms(3) [unfolded start_def]
  show ?thesis
  proof (cases e)
    case (Make h)
    then have h: "owner w h = None" "h < limit" "\<not> used_by_others w t h" using st t' by (auto simp: below_limit_def edit_allowed_def split: if_splits)
    have "kBaseSize \<le> 2 ^ 61" by (simp add: kBaseSize_def)
    then obtain x where x: "StringData_new mem kBaseSize = Inr x" "good_data x" "ref_count x = 1" "sd_value x = []"
      using StringData_new_ok [OF assms(2)] by metis
    have "value_step (value_of w) e = Some ((value_of w)(h \<mapsto> sd_value x))" using Make h(1) x(4) by (simp add: value_of_def)
    then have "does w (log_op e (new_cell h x w)) [e]" by (rule start_new [OF assms(1) b t h(1,2,3) x(2,3)])
    moreover have "r = Inr (log_op e (new_cell h x w))" using st t' Make h x(1) by (simp add: below_limit_def)
    ultimately show ?thesis by blast
  next
    case (Make_str h str)
    then have h: "owner w h = None" "h < limit" "\<not> used_by_others w t h" "length str \<le> max_string" using st t' by (auto simp: below_limit_def edit_allowed_def split: if_splits)
    have "length str \<le> 2 ^ 61" using h(4) by (simp add: max_string_def)
    then obtain x where x: "StringData_new mem (length str) = Inr x" "good_data x" "length str \<le> capacity x" "sd_size x = 0" "ref_count x = 1" "sd_value x = []"
      using StringData_new_ok [OF assms(2)] by metis
    have "Unique x" "sd_size x + length str \<le> capacity x" using x by (simp_all add: Unique_def)
    then obtain y where y: "CopyData (Some str) (length str) (sd_size x) x = Inr y" "good_data y" "ref_count y = ref_count x" "sd_value y = sd_value x @ take (length str) str"
      using CopyData_ok [OF x(2), of "length str" "Some str" str] by auto
    have "value_step (value_of w) e = Some ((value_of w)(h \<mapsto> sd_value y))" using Make_str h(1,4) x(6) y(4) by (simp add: value_of_def)
    then have "does w (log_op e (new_cell h y w)) [e]" using x(5) y(3) by (intro start_new [OF assms(1) b t h(1,2,3) y(2)]) simp_all
    moreover have "r = Inr (log_op e (new_cell h y w))" using st t' Make_str h x(1,4) y(1) by (simp add: below_limit_def edit_allowed_def)
    ultimately show ?thesis by blast
  next
    case (Copy_of d s)
    then have c: "owner w s \<noteq> None" "owner w d = None" "d < limit" "\<not> used_by_others w t d" "\<not> written_by_others w t s"
      and r: "r = Inr (goto t (Copy_check s d) w)" using st t' by (auto simp: below_limit_def edit_allowed_def split: if_splits)
    obtain a where a: "owner w s = Some a" using c(1) by auto
    then have "place_fine w (Copy_check s d)" using owned_cell [OF assms(1) a] c(2,3) by (auto simp: see_def cell_of_def)
    then have "does w (goto t (Copy_check s d) w) []"
      using others_idle(1) [OF b _ c(4)] others_idle(2) [OF b _ c(5)] by (intro start_goto [OF assms(1) t]) auto
    then show ?thesis using r by blast
  next
    case (Append_to h str)
    then obtain v where "value_of w h = Some v" "edit_allowed (Add str) (length v)" "\<not> used_by_others w t h" "r = Inr (goto t (Mod_check h (Add str)) w)"
      using st t' by (auto split: option.splits if_splits)
    then show ?thesis using start_edit [OF assms(1) t b] by blast
  next
    case (Assign_at h i c)
    then obtain v where "value_of w h = Some v" "edit_allowed (Put i c) (length v)" "\<not> used_by_others w t h" "r = Inr (goto t (Mod_check h (Put i c)) w)"
      using st t' by (auto split: option.splits if_splits)
    then show ?thesis using start_edit [OF assms(1) t b] by blast
  next
    case (Drop h)
    then obtain a where a: "owner w h = Some a" "\<not> used_by_others w t h"
      "r = Inr (goto t (Rel_assert a Finish) (log_op e (w\<lparr>owner := (owner w)(h := None)\<rparr>)))" using st t' by (auto split: option.splits if_splits)
    let ?v = "w\<lparr>owner := (owner w)(h := None)\<rparr>"
    let ?w = "goto t (Rel_assert a Finish) (log_op e ?v)"
    have "world_ok ?w" using others_idle(1) [OF b _ a(2)] by (intro ts_drop_ok [OF assms(1) t a(1)]) auto
    moreover have "value_of ?v = (value_of w)(h := None)" by (auto simp: value_of_def fun_eq_iff split: option.split)
    moreover have "value_of w h \<noteq> None" using owned_cell [OF assms(1) a(1)] a(1) by (auto simp: value_of_def)
    ultimately have "does w ?w [e]" using Drop by (auto simp: does_def)
    then show ?thesis using a(3) by blast
  qed
qed

text \<open>A thread moves no other, and none that has nothing to do.\<close>

lemma goto_threads [simp]: "threads (goto t p w) = threads w" "threads (set_cell a x w) = threads w" "threads (log_op e w) = threads w"
    "threads (new_cell h x w) = threads w" "threads (done_with t k w) = threads w" "u \<noteq> t \<Longrightarrow> place (done_with t k w) u = place w u"
  by (simp_all add: goto_def set_cell_def log_op_def new_cell_def alloc_cell_def done_with_def)

lemma advance_bounded:
  assumes "bounded w" and "advance mem t w = Inr w'"
  shows "bounded w'"
proof -
  have "threads w' = threads w \<and> (\<forall>u. u \<noteq> t \<longrightarrow> place w' u = place w u)"
    using assms(2) by (cases "place w t") (auto simp: advance_def rbind_Inr_iff Let_def split: if_splits)
  moreover have "t < threads w" if "place w t \<noteq> Idle" using assms(1) that by (meson bounded_def not_less)
  moreover have "w' = w" if "place w t = Idle" using assms(2) that by (simp add: advance_def)
  ultimately show ?thesis using assms(1) unfolding bounded_def by (metis not_less)
qed

lemma start_bounded:
  assumes "bounded w" and "start mem t e w = Some (Inr w')"
  shows "bounded w'"
proof -
  have "t < threads w" using assms(2) by (auto simp: start_def split: if_splits)
  moreover have "threads w' = threads w \<and> (\<forall>u. u \<noteq> t \<longrightarrow> place w' u = place w u)"
    using assms(2) by (cases e) (auto simp: start_def rbind_Inr_iff split: if_splits option.splits)
  ultimately show ?thesis using assms(1) by (auto simp: bounded_def)
qed

lemma ts_step_does:
  "world_ok w \<Longrightarrow> bounded w \<Longrightarrow> good_memory mem \<Longrightarrow> ts_step mem w x = Some r \<Longrightarrow> \<exists>w' es. r = Inr w' \<and> does w w' es \<and> bounded w'"
proof (cases x)
  case (Start t e)
  assume a: "world_ok w" "bounded w" "good_memory mem" "ts_step mem w x = Some r"
  then have s: "start mem t e w = Some r" using Start by (simp add: ts_step_def)
  then obtain w' es where "r = Inr w'" "does w w' es" using start_does [OF a(1,3) s a(2)] by blast
  then show ?thesis using start_bounded [OF a(2), of mem t e w'] s by blast
next
  case (Advance t)
  assume a: "world_ok w" "bounded w" "good_memory mem" "ts_step mem w x = Some r"
  obtain w' es where "advance mem t w = Inr w'" "does w w' es" using advance_does [OF a(1,3)] by blast
  moreover have "r = advance mem t w" using a(4) Advance by (simp add: ts_step_def)
  ultimately show ?thesis using advance_bounded [OF a(2), of mem t w'] by auto
qed

lemma world_new_ok: "world_ok (world_new n)"
  by (auto simp: world_ok_def world_new_def cell_fine_def holders_def held_def deleting_def apart_def split: sum.splits)

section \<open>Properties\<close>

text \<open>
  Property C12. As long as each string object is used by one thread at a time, except that several may copy from it at once while
  none changes it: whatever else the threads do and however their accesses to the counts interleave, nothing faults, and the strings are
  those that the operations give when they are done one after the other on independent values. (New objects are assumed to find
  \<open>capacity_\<close> zero in their memory, which the code relies on without writing it; there are at most \<open>2 ^ 30\<close> objects and threads,
  strings have at most \<open>2 ^ 60\<close> bytes, and what is assigned by index lies inside the string.)
\<close>

theorem ts_strings_are_values:
  assumes "good_memory mem" and "n \<le> limit" and "orun (ts_step mem) xs (world_new n) = Some r"
  shows "\<exists>w. r = Inr w \<and> ofold value_step (history w) (\<lambda>_. None) = Some (value_of w)"
proof -
  have "\<exists>w'. r = Inr w' \<and> ofold value_step (history w') (\<lambda>_. None) = Some (value_of w')"
    if "world_ok w" "bounded w" "ofold value_step (history w) (\<lambda>_. None) = Some (value_of w)" "orun (ts_step mem) xs w = Some r" for w
    using that
  proof (induction xs arbitrary: w)
    case (Cons x xs)
    obtain r1 where r1: "ts_step mem w x = Some r1" using Cons.prems(4) by (auto split: option.splits)
    obtain w1 es where w1: "r1 = Inr w1" "does w w1 es" "bounded w1" using ts_step_does [OF Cons.prems(1,2) assms(1) r1] by blast
    then have "ofold value_step (history w1) (\<lambda>_. None) = Some (value_of w1)" using Cons.prems(3) by (simp add: does_def ofold_append)
    then show ?case using Cons.IH [of w1] w1 r1 Cons.prems(4) by (simp add: does_def)
  qed auto
  moreover have "ofold value_step (history (world_new n)) (\<lambda>_. None) = Some (value_of (world_new n))"
    by (simp add: world_new_def value_of_def fun_eq_iff)
  moreover have "bounded (world_new n)" using assms(2) by (simp add: bounded_def world_new_def)
  ultimately show ?thesis using world_new_ok assms(3) by blast
qed

definition sample_actions :: "action list" where
  "sample_actions = Start 0 (Make_str 0 [1, 2]) # Start 0 (Copy_of 1 0) # Advance 0 # Advance 0 # Advance 0 #
     Start 0 (Append_to 0 [3]) # Start 1 (Append_to 1 [4]) # concat (replicate 9 [Advance 0, Advance 1]) @
     [Start 1 (Drop 0), Advance 1, Advance 1, Advance 1, Advance 1]"

theorem ts_strings_are_values_witness:
  "\<exists>w. orun (ts_step zero_memory) sample_actions (world_new 2) = Some (Inr w) \<and> ofold value_step (history w) (\<lambda>_. None) = Some (value_of w) \<and>
     value_of w 0 = None \<and> value_of w 1 = Some [1, 2, 4]"
proof -
  have "yields (orun (ts_step zero_memory) sample_actions (world_new 2)) (\<lambda>w. value_of w 0 = None \<and> value_of w 1 = Some [1, 2, 4])"
    by code_simp
  then obtain w where w: "orun (ts_step zero_memory) sample_actions (world_new 2) = Some (Inr w)" "value_of w 0 = None \<and> value_of w 1 = Some [1, 2, 4]"
    using yieldsD by blast
  have "good_memory zero_memory" "2 \<le> limit" by (simp_all add: good_memory_def zero_memory_def limit_def)
  then show ?thesis using ts_strings_are_values [OF _ _ w(1)] w by simp
qed

end
