(* ===== verification/Date_Functions.thy ===== *)
theory Date_Functions
  imports Prelude
begin

text \<open>
  Calendar arithmetic (\<open>src/Date Functions/Data Functions Design.cpp\<close>): the day of the year, the
  difference of two dates, the weekday and the printed month. The reference is the successor of a
  date in the Gregorian calendar: the difference of a date and its \<open>n\<close>-th successor is \<open>n\<close>.
  Arithmetic is on \<open>int\<close>; a result outside 32 bits is a fault.
\<close>

section \<open>The program\<close>

record Date =
  Year :: int
  Month :: int
  Day :: int

text \<open>The remainder of C++ has the sign of the dividend; it is 0 in the same cases as \<open>mod\<close>.\<close>

definition cmod :: "int \<Rightarrow> int \<Rightarrow> int" where
  "cmod a b = a - b * cdiv a b"

definition IsLeapYear :: "int \<Rightarrow> bool" where
  "IsLeapYear y \<longleftrightarrow> (cmod y 4 = 0 \<and> cmod y 100 \<noteq> 0) \<or> cmod y 400 = 0"

definition daysPastPerMonth :: "int list" where
  "daysPastPerMonth = [31, 59, 90, 120, 151, 181, 212, 243, 273, 304, 334]"

definition at_int :: "'a list \<Rightarrow> int \<Rightarrow> 'a res" where
  "at_int xs i = (if i < 0 then Inl Out_of_bounds else at xs (nat i))"

definition GetDaysPast :: "Date \<Rightarrow> int res" where
  "GetDaysPast date =
     rbind (if 1 < Month date
            then rbind (at_int daysPastPerMonth (Month date - 2)) (\<lambda>p. chk32 (p + Day date))
            else Inr (Day date)) (\<lambda>days.
     if IsLeapYear (Year date) \<and> 2 < Month date then chk32 (days + 1) else Inr days)"

text \<open>The loop of \<open>DateDiff\<close> over the years from \<open>i\<close> up to but not including \<open>e\<close>.\<close>

function leap_loop :: "int \<Rightarrow> int \<Rightarrow> int \<Rightarrow> int res" where
  "leap_loop i e diff =
     (if i < e
      then rbind (if IsLeapYear i then chk32 (diff + 1) else Inr diff) (leap_loop (i + 1) e)
      else Inr diff)"
  by pat_completeness auto
termination
  by (relation "measure (\<lambda>(i, e, diff). nat (e - i))") auto

declare leap_loop.simps [simp del]

definition DateDiff :: "Date \<Rightarrow> Date \<Rightarrow> int res" where
  "DateDiff dateFirst dateSecond =
     rbind (GetDaysPast dateFirst) (\<lambda>day1.
     rbind (GetDaysPast dateSecond) (\<lambda>day2.
     if Year dateFirst = Year dateSecond then chk32 (day2 - day1)
     else rbind (chk32 (day2 - day1)) (\<lambda>d.
          rbind (chk32 (Year dateSecond - Year dateFirst)) (\<lambda>y.
          rbind (chk32 (y * 365)) (\<lambda>y.
          rbind (chk32 (d + y)) (leap_loop (Year dateFirst) (Year dateSecond)))))))"

definition eraDay :: Date where
  "eraDay = \<lparr>Year = 1899, Month = 12, Day = 31\<rparr>"

definition QueryWeekday :: "Date \<Rightarrow> int res" where
  "QueryWeekday date = rbind (DateDiff eraDay date) (\<lambda>dayDiff. Inr (cmod dayDiff 7))"

definition daysPerMon :: "int list" where
  "daysPerMon = [31, 28, 31, 30, 31, 30, 31, 31, 30, 31, 30, 31]"

text \<open>Decimal output of a number by the stream.\<close>

fun show_nat :: "nat \<Rightarrow> string" where
  "show_nat n = (if n < 10 then [''0123456789'' ! n] else show_nat (n div 10) @ [''0123456789'' ! (n mod 10)])"

declare show_nat.simps [simp del]

definition tab :: string where
  "tab = [char_of (9 :: nat)]"

definition endl :: string where
  "endl = [char_of (10 :: nat)]"

definition calendar_head :: string where
  "calendar_head =
     ''Sun'' @ tab @ ''Mon'' @ tab @ ''Tue'' @ tab @ ''Wen'' @ tab @ ''Thu'' @ tab @ ''Fri'' @ tab @ ''Sat'' @ endl"

fun print_days :: "int \<Rightarrow> nat \<Rightarrow> nat \<Rightarrow> string" where
  "print_days e i 0 = []"
| "print_days e i (Suc n) =
     show_nat i @ (if cmod (int i) 7 = e then endl else tab) @ print_days e (i + 1) n"

definition PrintCalendar :: "int \<Rightarrow> int \<Rightarrow> string res" where
  "PrintCalendar y m =
     rbind (at_int daysPerMon (m - 1)) (\<lambda>daysTotal.
     let daysTotal = (if IsLeapYear y \<and> m = 2 then daysTotal + 1 else daysTotal) in
     rbind (QueryWeekday \<lparr>Year = y, Month = m, Day = 1\<rparr>) (\<lambda>firstWeekday.
     let e = (if firstWeekday \<noteq> 0 then 7 - firstWeekday else 0) in
     Inr (calendar_head @ concat (replicate (nat firstWeekday) tab) @ print_days e 1 (nat daysTotal))))"

section \<open>The reference calendar\<close>

definition leap :: "int \<Rightarrow> bool" where
  "leap y \<longleftrightarrow> 4 dvd y \<and> (\<not> 100 dvd y \<or> 400 dvd y)"

definition month_days :: "int \<Rightarrow> int \<Rightarrow> int" where
  "month_days y m = (if m = 2 then (if leap y then 29 else 28) else if m \<in> {4, 6, 9, 11} then 30 else 31)"

definition valid_date :: "Date \<Rightarrow> bool" where
  "valid_date d \<longleftrightarrow> 1 \<le> Month d \<and> Month d \<le> 12 \<and> 1 \<le> Day d \<and> Day d \<le> month_days (Year d) (Month d)"

definition next_day :: "Date \<Rightarrow> Date" where
  "next_day d =
     (if Day d < month_days (Year d) (Month d) then d\<lparr>Day := Day d + 1\<rparr>
      else if Month d < 12 then d\<lparr>Month := Month d + 1, Day := 1\<rparr>
      else \<lparr>Year = Year d + 1, Month = 1, Day = 1\<rparr>)"

text \<open>The exact value of the difference, without the bounds of the machine.\<close>

definition day_of_year :: "Date \<Rightarrow> int" where
  "day_of_year d = sum_list (map (month_days (Year d)) [1..Month d - 1]) + Day d"

definition leaps :: "int \<Rightarrow> int \<Rightarrow> int" where
  "leaps a b = int (card {y \<in> {a..<b}. leap y})"

definition diff :: "Date \<Rightarrow> Date \<Rightarrow> int" where
  "diff a b = day_of_year b - day_of_year a + (Year b - Year a) * 365 + leaps (Year a) (Year b)"

section \<open>Facts\<close>

lemma cmod_sgn: "0 < b \<Longrightarrow> cmod a b = sgn a * (\<bar>a\<bar> mod b)"
  by (cases "0 \<le> a") (auto simp: cmod_def cdiv_def sgn_if minus_mult_div_eq_mod [symmetric] algebra_simps)

lemma cmod_0_iff: "0 < b \<Longrightarrow> cmod a b = 0 \<longleftrightarrow> b dvd a"
  by (auto simp: cmod_sgn sgn_0_0)

lemma cmod_nonneg: "0 \<le> a \<Longrightarrow> 0 < b \<Longrightarrow> cmod a b = a mod b"
  by (cases "a = 0") (simp_all add: cmod_sgn)

lemma IsLeapYear_leap: "IsLeapYear y = leap y"
proof -
  have "400 dvd y \<Longrightarrow> 4 dvd y" by (rule dvd_trans [of 4 400]) simp_all
  then show ?thesis by (auto simp: IsLeapYear_def leap_def cmod_0_iff)
qed

lemma months: "1 \<le> m \<Longrightarrow> m \<le> 12 \<Longrightarrow> m \<in> {1, 2, 3, 4, 5, 6, 7, 8, 9, 10, 11, 12 :: int}"
  by simp arith

lemma month_sums:
  "m \<in> {1, 2, 3, 4, 5, 6, 7, 8, 9, 10, 11, 12} \<Longrightarrow>
   sum_list (map (month_days y) [1..m - 1]) =
     (if m = 1 then 0 else daysPastPerMonth ! nat (m - 2) + (if 2 < m \<and> leap y then 1 else 0))"
  by (elim insertE emptyE) (simp_all add: upto_rec1 month_days_def daysPastPerMonth_def)

lemma prefix_bounds:
  "m \<in> {2, 3, 4, 5, 6, 7, 8, 9, 10, 11, 12 :: int} \<Longrightarrow>
   0 \<le> daysPastPerMonth ! nat (m - 2) \<and> daysPastPerMonth ! nat (m - 2) \<le> 334 \<and> nat (m - 2) < length daysPastPerMonth"
  by (elim insertE emptyE) (simp_all add: daysPastPerMonth_def)

lemma month_days_bounds: "28 \<le> month_days y m \<and> month_days y m \<le> 31"
  by (simp add: month_days_def)

lemma GetDaysPast_ok:
  assumes "valid_date d"
  shows "GetDaysPast d = Inr (day_of_year d)" and "1 \<le> day_of_year d" and "day_of_year d \<le> 366"
proof -
  have m: "Month d \<in> {1, 2, 3, 4, 5, 6, 7, 8, 9, 10, 11, 12}" and day: "1 \<le> Day d" "Day d \<le> 31"
    using assms months [of "Month d"] month_days_bounds [of "Year d" "Month d"] by (auto simp: valid_date_def)
  have "GetDaysPast d = Inr (day_of_year d) \<and> 1 \<le> day_of_year d \<and> day_of_year d \<le> 366"
  proof (cases "Month d = 1")
    case True
    then show ?thesis using day by (simp add: GetDaysPast_def day_of_year_def)
  next
    case False
    then have "Month d \<in> {2, 3, 4, 5, 6, 7, 8, 9, 10, 11, 12}" using m by auto
    from prefix_bounds [OF this] False show ?thesis
      using m day
      by (auto simp: GetDaysPast_def day_of_year_def month_sums at_int_def at_def IsLeapYear_leap chk32_def in_i32_def)
  qed
  then show "GetDaysPast d = Inr (day_of_year d)" "1 \<le> day_of_year d" "day_of_year d \<le> 366" by auto
qed

lemma leaps_step: "a < b \<Longrightarrow> leaps a b = (if leap a then 1 else 0) + leaps (a + 1) b"
proof -
  assume "a < b"
  then have e: "{y \<in> {a..<b}. leap y} = (if leap a then insert a else id) {y \<in> {a + 1..<b}. leap y}"
    by (auto simp: order_le_less)
  have "card (insert a {y \<in> {a + 1..<b}. leap y}) = Suc (card {y \<in> {a + 1..<b}. leap y})"
    by (intro card_insert_disjoint finite_subset [of "{y \<in> {a + 1..<b}. leap y}" "{a + 1..<b}"]) auto
  then show ?thesis unfolding leaps_def e by (simp only: id_apply split: if_split) simp
qed

lemma leaps_last: "a \<le> b \<Longrightarrow> leaps a (b + 1) = leaps a b + (if leap b then 1 else 0)"
proof -
  assume "a \<le> b"
  then have e: "{y \<in> {a..<b + 1}. leap y} = (if leap b then insert b else id) {y \<in> {a..<b}. leap y}"
    by (auto simp: order_le_less)
  have "card (insert b {y \<in> {a..<b}. leap y}) = Suc (card {y \<in> {a..<b}. leap y})"
    by (intro card_insert_disjoint finite_subset [of "{y \<in> {a..<b}. leap y}" "{a..<b}"]) auto
  then show ?thesis unfolding leaps_def e by (simp only: id_apply split: if_split) simp
qed

lemma leaps_bounds: "0 \<le> leaps a b \<and> (a \<le> b \<longrightarrow> leaps a b \<le> b - a)"
proof -
  have "card {y \<in> {a..<b}. leap y} \<le> card {a..<b}" by (intro card_mono) auto
  then show ?thesis by (auto simp: leaps_def)
qed

lemma leap_loop_ok:
  assumes "- (2 ^ 31) \<le> s" and "i \<le> e" and "s + (e - i) < 2 ^ 31"
  shows "leap_loop i e s = Inr (s + leaps i e)"
  using assms
proof (induction i e s rule: leap_loop.induct)
  case (1 i e s)
  show ?case
  proof (cases "i < e")
    case True
    then show ?thesis
      using 1 by (auto simp: leap_loop.simps [of i e s] leaps_step IsLeapYear_leap chk32_def in_i32_def)
  next
    case False
    then have "leap_loop i e s = Inr s" by (subst leap_loop.simps) simp
    then show ?thesis using False by (simp add: leaps_def)
  qed
qed

text \<open>The years for which no intermediate value leaves 32 bits.\<close>

definition fair_year :: "int \<Rightarrow> bool" where
  "fair_year y \<longleftrightarrow> - 1000000 \<le> y \<and> y \<le> 1000000"

lemma DateDiff_ok:
  assumes "valid_date a" and "valid_date b" and "Year a \<le> Year b" and "fair_year (Year a)" and "fair_year (Year b)"
  shows "DateDiff a b = Inr (diff a b)"
proof -
  note ga = GetDaysPast_ok [OF assms(1)] and gb = GetDaysPast_ok [OF assms(2)]
  show ?thesis
  proof (cases "Year a = Year b")
    case True
    then show ?thesis using ga gb by (simp add: DateDiff_def diff_def leaps_def chk32_def in_i32_def)
  next
    case False
    let ?s = "day_of_year b - day_of_year a + (Year b - Year a) * 365"
    have s: "- 366 \<le> ?s" "?s + (Year b - Year a) < 2 ^ 31"
      using ga gb assms(3-5) by (simp_all add: fair_year_def)
    have "leap_loop (Year a) (Year b) ?s = Inr (diff a b)"
      using leap_loop_ok [of ?s "Year a" "Year b"] s assms(3) by (simp add: diff_def)
    then show ?thesis
      using False ga gb s assms(3-5) by (simp add: DateDiff_def chk32_def in_i32_def fair_year_def)
  qed
qed

section \<open>Days follow each other\<close>

lemma year_length: "sum_list (map (month_days y) [1..11]) + 31 = 365 + (if leap y then 1 else 0)"
  using month_sums [of 12 y] by (simp add: daysPastPerMonth_def)

lemma month_list: "1 \<le> m \<Longrightarrow> sum_list (map (month_days y) [1..m]) = sum_list (map (month_days y) [1..m - 1]) + month_days y m"
  using upto_rec2 [of 1 m] by simp

lemma valid_next: "valid_date d \<Longrightarrow> valid_date (next_day d)"
  using month_days_bounds [of "Year d" "Month d + 1"] month_days_bounds [of "Year d + 1" 1]
  by (auto simp: valid_date_def next_day_def)

lemma diff_next:
  assumes "valid_date d" and "Year a \<le> Year d"
  shows "diff a (next_day d) = diff a d + 1"
proof -
  consider (inside) "Day d < month_days (Year d) (Month d)"
    | (month) "Day d = month_days (Year d) (Month d)" "Month d < 12"
    | (year) "Day d = 31" "Month d = 12"
    using assms(1) by (fastforce simp: valid_date_def month_days_def split: if_splits)
  then show ?thesis
  proof cases
    case inside
    then show ?thesis by (simp add: next_day_def diff_def day_of_year_def)
  next
    case month
    then show ?thesis
      using assms(1) month_list [of "Month d" "Year d"]
      by (simp add: next_day_def diff_def day_of_year_def valid_date_def)
  next
    case year
    then have "day_of_year d = 365 + (if leap (Year d) then 1 else 0)"
      using year_length [of "Year d"] by (simp add: day_of_year_def)
    moreover have "next_day d = \<lparr>Year = Year d + 1, Month = 1, Day = 1\<rparr>"
      using year by (simp add: next_day_def month_days_def)
    ultimately show ?thesis
      using leaps_last [OF assms(2)] by (simp add: diff_def day_of_year_def algebra_simps)
  qed
qed

lemma Year_next: "Year d \<le> Year (next_day d)"
  by (simp add: next_day_def)

lemma days_later:
  assumes "valid_date d"
  shows "valid_date ((next_day ^^ n) d) \<and> Year d \<le> Year ((next_day ^^ n) d) \<and> diff d ((next_day ^^ n) d) = int n"
proof (induction n)
  case 0
  then show ?case using assms by (simp add: diff_def leaps_def)
next
  case (Suc n)
  then show ?case
    using valid_next [of "(next_day ^^ n) d"] diff_next [of "(next_day ^^ n) d" d] Year_next [of "(next_day ^^ n) d"] by auto
qed

lemma next_in_month:
  "1 + int n \<le> month_days y m \<Longrightarrow> (next_day ^^ n) \<lparr>Year = y, Month = m, Day = 1\<rparr> = \<lparr>Year = y, Month = m, Day = 1 + int n\<rparr>"
  by (induction n) (simp_all add: next_day_def)

lemma diff_trans: "Year a \<le> Year b \<Longrightarrow> Year b \<le> Year c \<Longrightarrow> diff a c = diff a b + diff b c"
proof -
  assume y: "Year a \<le> Year b" "Year b \<le> Year c"
  have "{y \<in> {Year a..<Year c}. leap y} = {y \<in> {Year a..<Year b}. leap y} \<union> {y \<in> {Year b..<Year c}. leap y}"
    using y by auto
  moreover have "card ({y \<in> {Year a..<Year b}. leap y} \<union> {y \<in> {Year b..<Year c}. leap y}) =
      card {y \<in> {Year a..<Year b}. leap y} + card {y \<in> {Year b..<Year c}. leap y}"
    by (intro card_Un_disjoint finite_subset [of "{y \<in> {Year a..<Year b}. leap y}" "{Year a..<Year b}"]
        finite_subset [of "{y \<in> {Year b..<Year c}. leap y}" "{Year b..<Year c}"]) auto
  ultimately have "leaps (Year a) (Year c) = leaps (Year a) (Year b) + leaps (Year b) (Year c)"
    by (simp only: leaps_def of_nat_add)
  then show ?thesis by (simp add: diff_def algebra_simps)
qed

lemma valid_era: "valid_date eraDay"
  by (simp add: valid_date_def eraDay_def month_days_def)

text \<open>A date from 1900 on, and every later one, is after the Sunday from which weekdays are counted.\<close>

lemma QueryWeekday_ok:
  assumes "valid_date d" and "1900 \<le> Year d" and "fair_year (Year d)"
  shows "QueryWeekday d = Inr (diff eraDay d mod 7)" and "0 < diff eraDay d"
proof -
  have "0 \<le> leaps 1899 (Year d)" "366 \<le> 365 * (Year d - 1899) + 1" using leaps_bounds assms(2) by simp_all
  moreover have "day_of_year eraDay = 365"
    using year_length [of 1899] by (simp add: day_of_year_def eraDay_def leap_def)
  ultimately show pos: "0 < diff eraDay d"
    using GetDaysPast_ok(2) [OF assms(1)] by (simp add: diff_def eraDay_def algebra_simps)
  have "DateDiff eraDay d = Inr (diff eraDay d)"
    using assms valid_era by (intro DateDiff_ok) (simp_all add: eraDay_def fair_year_def)
  then show "QueryWeekday d = Inr (diff eraDay d mod 7)"
    using pos by (simp add: QueryWeekday_def cmod_nonneg)
qed

lemma days_total:
  assumes "1 \<le> m" and "m \<le> 12"
  shows "\<exists>k. at_int daysPerMon (m - 1) = Inr k \<and> (if IsLeapYear y \<and> m = 2 then k + 1 else k) = month_days y m"
  using months [OF assms]
  by (elim insertE emptyE) (simp_all add: at_int_def at_def daysPerMon_def month_days_def IsLeapYear_leap)

lemma print_days_eq:
  "print_days e i n = concat (map (\<lambda>i. show_nat i @ (if cmod (int i) 7 = e then endl else tab)) [i..<i + n])"
  by (induction n arbitrary: i) (simp_all add: upt_conv_Cons del: upt_Suc)

lemma end_of_week:
  assumes "0 \<le> w" and "w < 7"
  shows "i mod 7 = (if w \<noteq> 0 then 7 - w else 0) \<longleftrightarrow> (w + i - 1) mod 7 = (6 :: int)"
proof -
  have "(w + i - 1) mod 7 = 6 \<longleftrightarrow> (w + i) mod 7 = 0"
    using mod_add_cong [of "w + i" 7 0 "- 1" "- 1"] mod_add_cong [of "w + i - 1" 7 6 1 1] by auto
  moreover have "(w + i) mod 7 = 0 \<longleftrightarrow> i mod 7 = (7 - w) mod 7"
    using mod_add_cong [of "w + i" 7 0 "- w" "- w"] mod_add_cong [of i 7 "7 - w" w w] by (auto simp: add.commute)
  moreover have "(7 - w) mod 7 = (if w \<noteq> 0 then 7 - w else 0)"
  proof (cases "w = 0")
    case False
    then have "0 \<le> 7 - w" "7 - w < 7" using assms by simp_all
    then have "(7 - w) mod 7 = 7 - w" by (rule mod_pos_pos_trivial)
    then show ?thesis using False by (simp only: if_True simp_thms)
  qed simp
  ultimately show ?thesis by simp
qed

section \<open>Properties\<close>

text \<open>
  Fact. \<open>DateDiff\<close> counts days: between a date and the one \<open>n\<close> days later in the Gregorian
  calendar (months, leap years and centuries included) it returns \<open>n\<close>, and no intermediate value
  overflows, for all dates between the years -1000000 and 1000000.
\<close>

theorem date_diff_counts_days:
  assumes "valid_date d" and "fair_year (Year d)" and "fair_year (Year ((next_day ^^ n) d))"
  shows "DateDiff d ((next_day ^^ n) d) = Inr (int n)"
  using days_later [OF assms(1), of n] DateDiff_ok [OF assms(1) _ _ assms(2,3)] by simp

theorem date_diff_counts_days_witness:
  "DateDiff \<lparr>Year = 2012, Month = 2, Day = 28\<rparr> \<lparr>Year = 2012, Month = 3, Day = 1\<rparr> = Inr 2"
proof -
  have "(next_day ^^ 2) \<lparr>Year = 2012, Month = 2, Day = 28\<rparr> = \<lparr>Year = 2012, Month = 3, Day = 1\<rparr>"
    by (simp add: numeral_2_eq_2 next_day_def month_days_def leap_def)
  then show ?thesis
    using date_diff_counts_days [of "\<lparr>Year = 2012, Month = 2, Day = 28\<rparr>" 2]
    by (simp add: valid_date_def month_days_def fair_year_def)
qed

text \<open>
  Fact. The calendar of a month from 1900 on: the heading, one tab for each weekday before the
  first of the month, then every day of the month followed by a line break exactly when it is a
  Saturday, as \<open>QueryWeekday\<close> of that very day says.
\<close>

theorem calendar_rows:
  assumes "1 \<le> m" and "m \<le> 12" and "1900 \<le> y" and "y \<le> 1000000"
  shows "\<exists>w. QueryWeekday \<lparr>Year = y, Month = m, Day = 1\<rparr> = Inr w \<and> 0 \<le> w \<and> w < 7 \<and>
    PrintCalendar y m = Inr (calendar_head @ concat (replicate (nat w) tab) @
      concat (map (\<lambda>i. show_nat i @
        (if QueryWeekday \<lparr>Year = y, Month = m, Day = int i\<rparr> = Inr 6 then endl else tab))
        [1..<1 + nat (month_days y m)]))"
proof -
  let ?d = "\<lambda>i. \<lparr>Year = y, Month = m, Day = i\<rparr>"
  have valid: "valid_date (?d i)" if "1 \<le> i" "i \<le> month_days y m" for i
    using assms that by (simp add: valid_date_def)
  have fair: "fair_year y" using assms by (simp add: fair_year_def)
  define w where "w = diff eraDay (?d 1) mod 7"
  have w: "QueryWeekday (?d 1) = Inr w" "0 \<le> w" "w < 7"
    using QueryWeekday_ok(1) [OF valid [of 1]] month_days_bounds [of y m] assms fair by (simp_all add: w_def)
  have day: "QueryWeekday (?d (int i)) = Inr ((w + int i - 1) mod 7)" if "1 \<le> i" "int i \<le> month_days y m" for i
  proof -
    have "diff eraDay (?d (int i)) = diff eraDay (?d 1) + (int i - 1)"
      by (simp add: diff_def day_of_year_def)
    moreover have "(diff eraDay (?d 1) mod 7 + int i - 1) mod 7 = (diff eraDay (?d 1) + (int i - 1)) mod 7"
      using mod_add_left_eq [of "diff eraDay (?d 1)" 7 "int i - 1"] by (simp add: algebra_simps)
    ultimately show ?thesis
      using QueryWeekday_ok(1) [OF valid [of "int i"]] that assms fair by (simp add: w_def)
  qed
  have range: "1 \<le> i \<and> int i \<le> month_days y m" if "i \<in> set [1..<1 + nat (month_days y m)]" for i
    using that month_days_bounds [of y m] by (auto simp del: upt_Suc)
  have "cmod (int i) 7 = (if w \<noteq> 0 then 7 - w else 0) \<longleftrightarrow> QueryWeekday (?d (int i)) = Inr 6"
    if "1 \<le> i" "int i \<le> month_days y m" for i
    using end_of_week [OF w(2,3), of "int i"] day [OF that] by (simp add: cmod_nonneg)
  then have "print_days (if w \<noteq> 0 then 7 - w else 0) 1 (nat (month_days y m)) =
      concat (map (\<lambda>i. show_nat i @ (if QueryWeekday (?d (int i)) = Inr 6 then endl else tab)) [1..<1 + nat (month_days y m)])"
    unfolding print_days_eq by (intro arg_cong [of _ _ concat] map_cong refl) (use range in presburger)
  moreover obtain k where "at_int daysPerMon (m - 1) = Inr k" "(if IsLeapYear y \<and> m = 2 then k + 1 else k) = month_days y m"
    using days_total [OF assms(1,2)] by blast
  ultimately have "PrintCalendar y m = Inr (calendar_head @ concat (replicate (nat w) tab) @
      concat (map (\<lambda>i. show_nat i @ (if QueryWeekday (?d (int i)) = Inr 6 then endl else tab)) [1..<1 + nat (month_days y m)]))"
    using w(1) by (simp only: PrintCalendar_def Let_def rbind_simps)
  then show ?thesis using w by blast
qed

theorem calendar_rows_witness:
  "\<exists>w t. QueryWeekday \<lparr>Year = 2011, Month = 11, Day = 1\<rparr> = Inr w \<and> PrintCalendar 2011 11 = Inr (calendar_head @ t)"
  using calendar_rows [of 11 2011] by auto

end
