(* ===== verification/Blocking_Queue.thy ===== *)
theory Blocking_Queue
  imports Simulation
begin

text \<open>
  The blocking queue (\<open>src/BlockingQueue/src/blocking_queue.h\<close>) under any interleaving of its callers.
  A critical section is one step; releasing the lock and notifying the condition variable are
  separate steps, a notified thread has to take the lock again, and wake-ups may be spurious. The
  theory shows that elements leave in the order in which they came and that no wake-up is lost.
\<close>

section \<open>Critical sections\<close>

definition Push :: "'a list \<Rightarrow> 'a \<Rightarrow> 'a list" where
  "Push q ele = q @ [ele]"

text \<open>The predicate of \<open>wait\<close> and the rest of \<open>Pop\<close> after it: \<open>front\<close> and \<open>pop\<close> of a non-empty queue.\<close>

definition not_empty :: "'a list \<Rightarrow> bool" where
  "not_empty q \<longleftrightarrow> q \<noteq> []"

definition Pop :: "'a list \<Rightarrow> ('a \<times> 'a list) res" where
  "Pop q = (case q of [] \<Rightarrow> Inl Out_of_bounds | x # xs \<Rightarrow> Inr (x, xs))"

definition TryPop :: "'a list \<Rightarrow> 'a option \<times> 'a list" where
  "TryPop q = (if \<not> not_empty q then (None, q) else (Some (hd q), tl q))"

definition bq_copy :: "'a list \<Rightarrow> 'a list" where
  "bq_copy other = other"

definition bq_size :: "'a list \<Rightarrow> nat" where
  "bq_size q = length q"

section \<open>Threads\<close>

text \<open>
  \<open>sleeping\<close>: blocked on the condition variable; \<open>woken\<close>: notified, before taking the lock again;
  \<open>notifies\<close>: pushing threads that have left the critical section and not notified yet. The last two
  fields record what went in and what came out.
\<close>

record 'a bq =
  bq_queue :: "'a list"
  sleeping :: "nat set"
  woken :: "nat set"
  notifies :: nat
  pushed :: "'a list"
  popped :: "'a list"

definition bq_new :: "'a bq" where
  "bq_new = \<lparr>bq_queue = [], sleeping = {}, woken = {}, notifies = 0, pushed = [], popped = []\<rparr>"

definition take_out :: "'a bq \<Rightarrow> 'a \<times> 'a list \<Rightarrow> 'a bq" where
  "take_out s r = s\<lparr>bq_queue := snd r, popped := popped s @ [fst r]\<rparr>"

inductive bq_step :: "'a bq \<Rightarrow> 'a bq \<Rightarrow> bool" where
  push: "bq_step s (s\<lparr>bq_queue := Push (bq_queue s) x, notifies := notifies s + 1, pushed := pushed s @ [x]\<rparr>)"
| notify_one: "0 < notifies s \<Longrightarrow> t \<in> sleeping s \<Longrightarrow>
    bq_step s (s\<lparr>notifies := notifies s - 1, sleeping := sleeping s - {t}, woken := insert t (woken s)\<rparr>)"
| notify_nobody: "0 < notifies s \<Longrightarrow> sleeping s = {} \<Longrightarrow> bq_step s (s\<lparr>notifies := notifies s - 1\<rparr>)"
| spurious: "t \<in> sleeping s \<Longrightarrow> bq_step s (s\<lparr>sleeping := sleeping s - {t}, woken := insert t (woken s)\<rparr>)"
| pop_waits: "\<not> not_empty (bq_queue s) \<Longrightarrow> t \<notin> sleeping s \<Longrightarrow>
    bq_step s (s\<lparr>sleeping := insert t (sleeping s), woken := woken s - {t}\<rparr>)"
| pop: "not_empty (bq_queue s) \<Longrightarrow> t \<notin> sleeping s \<Longrightarrow> Pop (bq_queue s) = Inr r \<Longrightarrow>
    bq_step s ((take_out s r)\<lparr>woken := woken s - {t}\<rparr>)"
| try_pop: "TryPop (bq_queue s) = (Some x, q) \<Longrightarrow> bq_step s (take_out s (x, q))"
| try_pop_fails: "TryPop (bq_queue s) = (None, q) \<Longrightarrow> bq_step s (s\<lparr>bq_queue := q\<rparr>)"

inductive_cases bq_stepE: "bq_step s s'"

section \<open>Invariants\<close>

lemma Pop_iff: "Pop q = Inr r \<longleftrightarrow> q = fst r # snd r"
  by (cases q; cases r) (auto simp: Pop_def)

lemma TryPop_iff: "TryPop q = (Some x, q') \<longleftrightarrow> q = x # q'"
  by (cases q) (auto simp: TryPop_def not_empty_def)

lemma TryPop_None: "TryPop q = (None, q') \<longleftrightarrow> q = [] \<and> q' = []"
  by (cases q) (auto simp: TryPop_def not_empty_def)

text \<open>Each element in the queue has a thread on its way to it, as long as any thread sleeps.\<close>

definition bq_inv :: "'a bq \<Rightarrow> bool" where
  "bq_inv s \<longleftrightarrow> pushed s = popped s @ bq_queue s \<and> finite (woken s) \<and> sleeping s \<inter> woken s = {} \<and>
     (sleeping s \<noteq> {} \<longrightarrow> length (bq_queue s) \<le> card (woken s) + notifies s)"

lemma card_remove_one: "finite A \<Longrightarrow> card A \<le> Suc (card (A - {t}))"
  using card_Suc_Diff1 [of A t] by (cases "t \<in> A") auto

lemma bq_step_inv:
  assumes "bq_step s s'" and "bq_inv s"
  shows "bq_inv s'"
  using assms
proof (cases rule: bq_step.cases)
  case (notify_one t)
  then have "t \<notin> woken s" using assms(2) by (auto simp: bq_inv_def)
  then show ?thesis using notify_one assms(2) by (auto simp: bq_inv_def)
next
  case (spurious t)
  then have "t \<notin> woken s" using assms(2) by (auto simp: bq_inv_def)
  then show ?thesis using spurious assms(2) by (auto simp: bq_inv_def)
next
  case (pop t r)
  then show ?thesis
    using assms(2) card_remove_one [of "woken s" t] by (auto simp: bq_inv_def take_out_def Pop_iff)
qed (auto simp: bq_inv_def Push_def take_out_def TryPop_iff TryPop_None not_empty_def)

interpretation bq: invariant_system bq_new bq_step bq_inv
proof unfold_locales
  show "bq_inv bq_new" by (simp add: bq_inv_def bq_new_def)
qed (rule bq_step_inv)

section \<open>Properties\<close>

text \<open>
  Fact. First in, first out: whatever the threads do in whatever order, what was pushed is what was
  popped followed by what is still in the queue. No element is lost, doubled or overtaken.
\<close>

theorem bq_fifo:
  assumes "bq_step\<^sup>*\<^sup>* bq_new s"
  shows "pushed s = popped s @ bq_queue s"
  using bq.reachable_law [OF assms] by (simp add: bq_inv_def)

text \<open>One thread sleeps in \<open>Pop\<close>, another pushes two elements.\<close>

definition bq_example :: "nat bq" where
  "bq_example = \<lparr>bq_queue = [7, 8], sleeping = {1}, woken = {}, notifies = 2, pushed = [7, 8], popped = []\<rparr>"

lemma bq_example_reachable: "bq_step\<^sup>*\<^sup>* bq_new bq_example"
proof -
  let ?s1 = "\<lparr>bq_queue = [], sleeping = {1}, woken = {}, notifies = 0, pushed = [], popped = []\<rparr> :: nat bq"
  let ?s2 = "\<lparr>bq_queue = [7], sleeping = {1}, woken = {}, notifies = 1, pushed = [7], popped = []\<rparr> :: nat bq"
  have "bq_step bq_new ?s1" using bq_step.pop_waits [of bq_new 1] by (simp add: bq_new_def not_empty_def)
  moreover have "bq_step ?s1 ?s2" using bq_step.push [of ?s1 7] by (simp add: Push_def)
  moreover have "bq_step ?s2 bq_example" using bq_step.push [of ?s2 8] by (simp add: Push_def bq_example_def numeral_2_eq_2)
  ultimately show ?thesis by (meson converse_rtranclp_into_rtranclp rtranclp.rtrancl_refl)
qed

theorem bq_fifo_witness: "pushed bq_example = popped bq_example @ bq_queue bq_example"
  by (rule bq_fifo [OF bq_example_reachable])

text \<open>
  Fact. No lost wake-up: whenever the queue is not empty while threads are blocked in \<open>Pop\<close>, at
  most two steps of threads that are already on their way (a pending notification, a notified
  thread taking the lock) take the front element out.
\<close>

theorem bq_no_lost_wakeup:
  assumes "bq_step\<^sup>*\<^sup>* bq_new s" and "sleeping s \<noteq> {}" and "bq_queue s = x # q"
  shows "\<exists>s' s''. (s' = s \<or> bq_step s s') \<and> bq_step s' s'' \<and> popped s'' = popped s @ [x]"
proof -
  have inv: "bq_inv s" using bq.reachable_law [OF assms(1)] .
  have take: "\<exists>s''. bq_step s' s'' \<and> popped s'' = popped s' @ [x]"
    if "t \<in> woken s'" "bq_inv s'" "bq_queue s' = x # q" for s' :: "'a bq" and t
  proof -
    have "t \<notin> sleeping s'" using that(1,2) by (auto simp: bq_inv_def)
    from bq_step.pop [OF _ this, of "(x, q)"] show ?thesis
      using that(3) by (auto simp: not_empty_def Pop_iff take_out_def)
  qed
  show ?thesis
  proof (cases "woken s = {}")
    case False
    then show ?thesis using take [of _ s] inv assms(3) by blast
  next
    case True
    then have "0 < notifies s" using inv assms(2,3) by (auto simp: bq_inv_def)
    moreover obtain t where "t \<in> sleeping s" using assms(2) by blast
    ultimately have step: "bq_step s (s\<lparr>notifies := notifies s - 1, sleeping := sleeping s - {t}, woken := insert t (woken s)\<rparr>)"
      (is "bq_step s ?s") by (rule bq_step.notify_one)
    then show ?thesis using take [of t ?s] bq_step_inv [OF step inv] assms(3) by fastforce
  qed
qed

theorem bq_no_lost_wakeup_witness:
  "\<exists>s' s''. (s' = bq_example \<or> bq_step bq_example s') \<and> bq_step s' s'' \<and> popped s'' = [7]"
  using bq_no_lost_wakeup [OF bq_example_reachable, of 7 "[8]"] by (simp add: bq_example_def)

end
