(* ===== verification/Thread_Pool.thy ===== *)
theory Thread_Pool
  imports Simulation
begin

text \<open>
  The thread pool (\<open>src/TinyThreadPool/tiny_thread_pool.h\<close>, \<open>.cpp\<close>) under any interleaving of its
  workers with the threads that post tasks and the one that destroys the pool. The theory shows
  that tasks start in the order in which they were posted, each once; that after the destructor has
  begun every run of the workers is finite and cannot get stuck before all of them have returned,
  so that the destructor joins them; and that by then every task that blocks shutdown has been run.
\<close>

section \<open>The pool\<close>

datatype TaskShutdownBehavior = BlockShutdown | SkipOnShutdown

type_synonym task = "nat \<times> TaskShutdownBehavior"

text \<open>
  A worker is about to call \<open>RetrieveTask\<close> (\<open>Ready\<close>), blocked on the condition variable (\<open>Blocked\<close>),
  notified and about to test the predicate again (\<open>Notified\<close>), inside a task (\<open>Busy\<close>), or has
  returned from \<open>RunInThread\<close>.
\<close>

datatype worker = Ready | Blocked | Notified | Busy task | Returned

text \<open>
  \<open>notify_ones\<close>: posters that have left the critical section and not notified yet; \<open>notify_all\<close>: the
  destructor is at that point. The last two fields record what was posted and, in order, what came
  of it: run (\<open>True\<close>) or skipped.
\<close>

record thread_pool =
  task_queue :: "task list"
  running :: bool
  workers :: "worker list"
  notify_ones :: nat
  notify_all :: bool
  posted :: "task list"
  handled :: "(task \<times> bool) list"

definition TinyThreadPool_new :: "nat \<Rightarrow> thread_pool" where
  "TinyThreadPool_new num =
     \<lparr>task_queue = [], running = True, workers = replicate num Ready, notify_ones = 0, notify_all = False,
      posted = [], handled = []\<rparr>"

text \<open>The critical section of \<open>PostTaskWithShutdownBehavior\<close>.\<close>

definition PostTask :: "task \<Rightarrow> thread_pool \<Rightarrow> thread_pool res" where
  "PostTask t s =
     rbind (guard (running s) Ensure_failed) (\<lambda>_.
     Inr (s\<lparr>task_queue := task_queue s @ [t], notify_ones := notify_ones s + 1, posted := posted s @ [t]\<rparr>))"

text \<open>The critical section of the destructor.\<close>

definition begin_shutdown :: "thread_pool \<Rightarrow> thread_pool" where
  "begin_shutdown s = s\<lparr>running := False, notify_all := True\<rparr>"

text \<open>The predicate \<open>RetrieveTask\<close> waits for, and its loop: the task, the rest and the tasks dropped.\<close>

definition may_retrieve :: "thread_pool \<Rightarrow> bool" where
  "may_retrieve s \<longleftrightarrow> \<not> running s \<or> task_queue s \<noteq> []"

fun retrieve :: "bool \<Rightarrow> task list \<Rightarrow> task option \<times> task list \<times> task list" where
  "retrieve r [] = (None, [], [])"
| "retrieve r (t # q) =
     (if \<not> r \<and> snd t = SkipOnShutdown
      then let (found, rest, dropped) = retrieve r q in (found, rest, t # dropped)
      else (Some t, q, []))"

text \<open>The end of \<open>RetrieveTask\<close> and the test of \<open>RunInThread\<close> for the empty task.\<close>

definition retrieve_step :: "nat \<Rightarrow> thread_pool \<Rightarrow> thread_pool" where
  "retrieve_step i s =
     (let (found, rest, dropped) = retrieve (running s) (task_queue s);
          s = s\<lparr>task_queue := rest, handled := handled s @ map (\<lambda>t. (t, False)) dropped\<rparr>
      in case found of
           None \<Rightarrow> s\<lparr>workers := (workers s)[i := Returned]\<rparr>
         | Some t \<Rightarrow> s\<lparr>workers := (workers s)[i := Busy t], handled := handled s @ [(t, True)]\<rparr>)"

definition wake_all :: "worker list \<Rightarrow> worker list" where
  "wake_all = map (\<lambda>w. if w = Blocked then Notified else w)"

text \<open>
  The steps of the workers and of pending notifications, and those that need not happen: of the
  clients, and spurious wake-ups.
\<close>

inductive work_step :: "thread_pool \<Rightarrow> thread_pool \<Rightarrow> bool" where
  wait: "i < length (workers s) \<Longrightarrow> workers s ! i = Ready \<or> workers s ! i = Notified \<Longrightarrow> \<not> may_retrieve s \<Longrightarrow>
    work_step s (s\<lparr>workers := (workers s)[i := Blocked]\<rparr>)"
| fetch: "i < length (workers s) \<Longrightarrow> workers s ! i = Ready \<or> workers s ! i = Notified \<Longrightarrow> may_retrieve s \<Longrightarrow>
    work_step s (retrieve_step i s)"
| finish: "i < length (workers s) \<Longrightarrow> workers s ! i = Busy t \<Longrightarrow>
    work_step s (s\<lparr>workers := (workers s)[i := Ready]\<rparr>)"
| notify_one: "0 < notify_ones s \<Longrightarrow> i < length (workers s) \<Longrightarrow> workers s ! i = Blocked \<Longrightarrow>
    work_step s (s\<lparr>notify_ones := notify_ones s - 1, workers := (workers s)[i := Notified]\<rparr>)"
| notify_nobody: "0 < notify_ones s \<Longrightarrow> Blocked \<notin> set (workers s) \<Longrightarrow>
    work_step s (s\<lparr>notify_ones := notify_ones s - 1\<rparr>)"
| wake: "notify_all s \<Longrightarrow> work_step s (s\<lparr>notify_all := False, workers := wake_all (workers s)\<rparr>)"

inductive spurious_step :: "thread_pool \<Rightarrow> thread_pool \<Rightarrow> bool" where
  spurious: "i < length (workers s) \<Longrightarrow> workers s ! i = Blocked \<Longrightarrow>
    spurious_step s (s\<lparr>workers := (workers s)[i := Notified]\<rparr>)"

inductive tp_step :: "thread_pool \<Rightarrow> thread_pool \<Rightarrow> bool" where
  work: "work_step s s' \<Longrightarrow> tp_step s s'"
| wakes: "spurious_step s s' \<Longrightarrow> tp_step s s'"
| post: "PostTask t s = Inr s' \<Longrightarrow> tp_step s s'"
| shutdown: "running s \<Longrightarrow> tp_step s (begin_shutdown s)"

section \<open>Invariant\<close>

lemma retrieve_spec:
  "retrieve r q = (found, rest, dropped) \<Longrightarrow>
   q = dropped @ (case found of None \<Rightarrow> [] | Some t \<Rightarrow> [t]) @ rest \<and> (found = None \<longrightarrow> rest = []) \<and>
   (\<forall>t \<in> set dropped. snd t = SkipOnShutdown \<and> \<not> r)"
proof (induction q arbitrary: found rest dropped)
  case (Cons t q)
  then show ?case by (auto split: if_splits prod.splits)
qed auto

text \<open>
  What was posted is what was handled followed by the queue. Only tasks that may be skipped are, and
  only in a pool that is shutting down. A worker returns only then, and leaves the queue empty. Once
  all were notified nobody is blocked any more.
\<close>

definition tp_inv :: "nat \<Rightarrow> thread_pool \<Rightarrow> bool" where
  "tp_inv num s \<longleftrightarrow> length (workers s) = num \<and> posted s = map fst (handled s) @ task_queue s \<and>
     (\<forall>(t, run) \<in> set (handled s). \<not> run \<longrightarrow> snd t = SkipOnShutdown \<and> \<not> running s) \<and>
     (Returned \<in> set (workers s) \<longrightarrow> \<not> running s \<and> task_queue s = []) \<and>
     (\<not> running s \<and> \<not> notify_all s \<longrightarrow> Blocked \<notin> set (workers s))"

lemma set_update: "x \<in> set (xs[i := y]) \<Longrightarrow> x = y \<or> x \<in> set xs"
  using set_update_subset_insert [of xs i y] by auto

lemma retrieve_step_inv:
  assumes "tp_inv num s" and "may_retrieve s" and "i < length (workers s)"
  shows "tp_inv num (retrieve_step i s)"
proof -
  obtain found rest dropped where r: "retrieve (running s) (task_queue s) = (found, rest, dropped)"
    by (metis prod_cases3)
  note spec = retrieve_spec [OF r]
  show ?thesis
  proof (cases found)
    case None
    then have "\<not> running s"
      using assms(2) spec by (cases dropped) (auto simp: may_retrieve_def)
    then show ?thesis
      using None assms(1) spec r
      by (auto simp: tp_inv_def retrieve_step_def o_def dest!: set_update)
  next
    case (Some t)
    then have "Returned \<notin> set (workers s)" using assms(1) spec by (auto simp: tp_inv_def)
    then show ?thesis
      using Some assms(1) spec r
      by (auto simp: tp_inv_def retrieve_step_def o_def dest!: set_update)
  qed
qed

lemma work_step_inv:
  assumes "work_step s s'" and "tp_inv num s"
  shows "tp_inv num s'"
  using assms
proof (cases rule: work_step.cases)
  case (fetch i)
  then show ?thesis using retrieve_step_inv [OF assms(2)] by simp
qed (auto simp: tp_inv_def may_retrieve_def wake_all_def dest!: set_update split: if_splits)

lemma tp_step_inv:
  assumes "tp_inv num s" and "tp_step s s'"
  shows "tp_inv num s'"
  using assms(2)
proof (cases rule: tp_step.cases)
  case work
  then show ?thesis using work_step_inv assms(1) by blast
next
  case wakes
  then show ?thesis using assms(1) by (auto simp: tp_inv_def elim!: spurious_step.cases dest!: set_update)
next
  case (post t)
  then show ?thesis using assms(1) by (auto simp: tp_inv_def PostTask_def fault_simps)
next
  case shutdown
  then show ?thesis using assms(1) by (auto simp: tp_inv_def begin_shutdown_def)
qed

interpretation tp: invariant_system "TinyThreadPool_new num" tp_step "tp_inv num" for num :: nat
proof unfold_locales
  show "tp_inv num (TinyThreadPool_new num)" by (auto simp: tp_inv_def TinyThreadPool_new_def)
qed (rule tp_step_inv)

section \<open>Shutdown terminates\<close>

fun weight :: "worker \<Rightarrow> nat" where
  "weight Ready = 1" | "weight Notified = 1" | "weight (Busy t) = 2" | "weight Blocked = 2" | "weight Returned = 0"

definition work_left :: "thread_pool \<Rightarrow> nat" where
  "work_left s = 2 * length (task_queue s) + sum_list (map weight (workers s)) + notify_ones s +
     (if notify_all s then 1 else 0)"

lemma weight_update:
  "i < length ws \<Longrightarrow> sum_list (map weight (ws[i := w])) + weight (ws ! i) = sum_list (map weight ws) + weight w"
  by (induction ws arbitrary: i) (auto split: nat.split)

lemma weight_wake: "sum_list (map weight (wake_all ws)) \<le> sum_list (map weight ws)"
  by (induction ws) (auto simp: wake_all_def)

lemma retrieve_less:
  assumes "\<not> running s" and "i < length (workers s)" and "workers s ! i = Ready \<or> workers s ! i = Notified"
  shows "work_left (retrieve_step i s) < work_left s"
proof -
  obtain found rest dropped where r: "retrieve (running s) (task_queue s) = (found, rest, dropped)"
    by (metis prod_cases3)
  note spec = retrieve_spec [OF r]
  show ?thesis
  proof (cases found)
    case None
    then show ?thesis
      using weight_update [OF assms(2), of Returned] assms(3) spec r by (auto simp: work_left_def retrieve_step_def)
  next
    case (Some t)
    then have "length (task_queue s) = length dropped + 1 + length rest" using spec by simp
    then show ?thesis
      using Some weight_update [OF assms(2), of "Busy t"] assms(3) r by (auto simp: work_left_def retrieve_step_def)
  qed
qed

lemma shutdown_step:
  assumes "\<not> running s" and "work_step s s' \<or> spurious_step s s'"
  shows "\<not> running s' \<and> work_left s' < work_left s"
proof -
  have "running (retrieve_step i s) = running s" for i
    by (simp add: retrieve_step_def Let_def split: prod.split option.split)
  note run = this
  from assms(2) show ?thesis
  proof
    assume "work_step s s'"
    then show ?thesis
    proof (cases rule: work_step.cases)
      case (wait i)
      then show ?thesis using assms(1) by (simp add: may_retrieve_def)
    next
      case (fetch i)
      then show ?thesis using retrieve_less [OF assms(1)] assms(1) run by simp
    next
      case (finish i t)
      then show ?thesis using weight_update [of i "workers s" Ready] assms(1) by (simp add: work_left_def)
    next
      case (notify_one i)
      then show ?thesis using weight_update [of i "workers s" Notified] assms(1) by (simp add: work_left_def)
    next
      case notify_nobody
      then show ?thesis using assms(1) by (simp add: work_left_def)
    next
      case wake
      then show ?thesis using weight_wake [of "workers s"] assms(1) by (simp add: work_left_def)
    qed
  next
    assume "spurious_step s s'"
    then obtain i where "i < length (workers s)" "workers s ! i = Blocked" "s' = s\<lparr>workers := (workers s)[i := Notified]\<rparr>"
      by (auto elim: spurious_step.cases)
    then show ?thesis using weight_update [of i "workers s" Notified] assms(1) by (simp add: work_left_def)
  qed
qed

lemma stuck_means_joined:
  assumes "tp_inv num s" and "\<not> running s" and "\<nexists>s'. work_step s s'"
  shows "set (workers s) \<subseteq> {Returned}"
proof
  fix w assume "w \<in> set (workers s)"
  then obtain i where i: "i < length (workers s)" "workers s ! i = w" by (auto simp: in_set_conv_nth)
  have "\<not> notify_all s" using assms(3) work_step.wake by blast
  then have "w \<noteq> Blocked" using assms(1,2) \<open>w \<in> _\<close> by (auto simp: tp_inv_def)
  moreover have "w \<noteq> Ready" "w \<noteq> Notified"
    using work_step.fetch [OF i(1)] i(2) assms(2,3) by (auto simp: may_retrieve_def)
  moreover have "w \<noteq> Busy t" for t using work_step.finish [OF i(1), of t] i(2) assms(3) by blast
  ultimately show "w \<in> {Returned}" by (cases w) auto
qed

section \<open>Properties\<close>

text \<open>
  Fact. Tasks are handled in the order in which they were posted, each exactly once: in every
  reachable state the posted tasks are those already started or skipped followed by the queue. A
  task is skipped only if its poster allowed that, and only once the pool is shutting down.
\<close>

theorem pool_handles_in_order:
  assumes "tp_step\<^sup>*\<^sup>* (TinyThreadPool_new num) s"
  shows "posted s = map fst (handled s) @ task_queue s \<and>
    (\<forall>(t, run) \<in> set (handled s). \<not> run \<longrightarrow> snd t = SkipOnShutdown \<and> \<not> running s)"
  using tp.reachable_law [OF assms] by (simp add: tp_inv_def)

text \<open>A pool of one worker that has started the first of two tasks.\<close>

definition pool_example :: thread_pool where
  "pool_example = \<lparr>task_queue = [(2, SkipOnShutdown)], running = True, workers = [Busy (1, BlockShutdown)], notify_ones = 2,
     notify_all = False, posted = [(1, BlockShutdown), (2, SkipOnShutdown)], handled = [((1, BlockShutdown), True)]\<rparr>"

lemma pool_example_reachable: "tp_step\<^sup>*\<^sup>* (TinyThreadPool_new 1) pool_example"
proof -
  let ?t1 = "(1, BlockShutdown)" and ?t2 = "(2, SkipOnShutdown)"
  let ?s0 = "TinyThreadPool_new 1"
  let ?s1 = "?s0\<lparr>task_queue := [?t1], notify_ones := 1, posted := [?t1]\<rparr>"
  let ?s2 = "?s0\<lparr>task_queue := [?t1, ?t2], notify_ones := 2, posted := [?t1, ?t2]\<rparr>"
  have "tp_step ?s0 ?s1" by (rule tp_step.post [of ?t1]) (simp add: PostTask_def TinyThreadPool_new_def)
  moreover have "tp_step ?s1 ?s2"
    by (rule tp_step.post [of ?t2]) (simp add: PostTask_def TinyThreadPool_new_def numeral_2_eq_2)
  moreover have "work_step ?s2 pool_example"
    using work_step.fetch [of 0 ?s2]
    by (simp add: TinyThreadPool_new_def may_retrieve_def retrieve_step_def pool_example_def)
  ultimately show ?thesis
    by (meson converse_rtranclp_into_rtranclp rtranclp.rtrancl_refl tp_step.work)
qed

theorem pool_handles_in_order_witness:
  "posted pool_example = map fst (handled pool_example) @ task_queue pool_example"
  using pool_handles_in_order [OF pool_example_reachable] by blast

text \<open>
  Property C16. Destroying the pool ends: from any reachable state in which the destructor has begun,
  every run of the workers (spurious wake-ups included) has a bounded number of steps, and a state
  in which no worker and no notification can proceed is one in which all workers have returned. If
  there is a worker at all, every posted task has then been handled and every task that blocks
  shutdown has been run.
\<close>

theorem pool_shutdown_completes:
  assumes "tp_step\<^sup>*\<^sup>* (TinyThreadPool_new num) s" and "\<not> running s"
    and "((\<lambda>s s'. work_step s s' \<or> spurious_step s s') ^^ n) s s'"
  shows "n \<le> work_left s \<and>
    ((\<nexists>s''. work_step s' s'') \<longrightarrow> set (workers s') \<subseteq> {Returned} \<and>
      (0 < num \<longrightarrow> posted s' = map fst (handled s') \<and>
        (\<forall>t \<in> set (posted s'). snd t = BlockShutdown \<longrightarrow> (t, True) \<in> set (handled s'))))"
proof -
  have "tp_inv num s' \<and> \<not> running s' \<and> n + work_left s' \<le> work_left s"
    using assms(3)
  proof (induction n arbitrary: s')
    case 0
    then show ?case using tp.reachable_law [OF assms(1)] assms(2) by simp
  next
    case (Suc n)
    then obtain m where m: "((\<lambda>s s'. work_step s s' \<or> spurious_step s s') ^^ n) s m"
        "work_step m s' \<or> spurious_step m s'" by auto
    then have "tp_step m s'" by (auto intro: tp_step.intros)
    then show ?case using Suc.IH [OF m(1)] shutdown_step [OF _ m(2)] tp_step_inv by fastforce
  qed
  then have inv: "tp_inv num s'" "\<not> running s'" "n \<le> work_left s" by auto
  moreover have "posted s' = map fst (handled s') \<and>
      (\<forall>t \<in> set (posted s'). snd t = BlockShutdown \<longrightarrow> (t, True) \<in> set (handled s'))"
    if joined: "set (workers s') \<subseteq> {Returned}" and num: "0 < num"
  proof -
    have "Returned \<in> set (workers s')" using joined num inv(1) by (cases "workers s'") (auto simp: tp_inv_def)
    then have "task_queue s' = []" using inv(1) by (simp add: tp_inv_def)
    then show ?thesis using inv(1) by (fastforce simp: tp_inv_def)
  qed
  ultimately show ?thesis using stuck_means_joined [OF inv(1,2)] by blast
qed

text \<open>The example pool is destroyed: its worker finishes, skips the second task and returns.\<close>

theorem pool_shutdown_completes_witness:
  "\<exists>s'. ((\<lambda>s s'. work_step s s' \<or> spurious_step s s') ^^ 2) (begin_shutdown pool_example) s' \<and>
     2 \<le> work_left (begin_shutdown pool_example) \<and> workers s' = [Returned] \<and>
     handled s' = [((1, BlockShutdown), True), ((2, SkipOnShutdown), False)]"
proof -
  let ?s0 = "begin_shutdown pool_example"
  let ?s1 = "?s0\<lparr>workers := [Ready]\<rparr>"
  let ?s2 = "retrieve_step 0 ?s1"
  have "work_step ?s0 ?s1" using work_step.finish [of 0 ?s0] by (simp add: begin_shutdown_def pool_example_def)
  moreover have "work_step ?s1 ?s2" by (rule work_step.fetch) (simp_all add: begin_shutdown_def may_retrieve_def)
  ultimately have run: "((\<lambda>s s'. work_step s s' \<or> spurious_step s s') ^^ 2) ?s0 ?s2"
    by (auto simp: numeral_2_eq_2)
  have "tp_step pool_example ?s0" by (rule tp_step.shutdown) (simp add: pool_example_def)
  with pool_example_reachable have "tp_step\<^sup>*\<^sup>* (TinyThreadPool_new 1) ?s0" by (rule rtranclp.rtrancl_into_rtrancl)
  from pool_shutdown_completes [OF this _ run] show ?thesis
    using run by (intro exI [of _ ?s2]) (simp add: begin_shutdown_def pool_example_def retrieve_step_def)
qed

end
