(* ===== verification/Timer_Queue.thy ===== *)
theory Timer_Queue
  imports Simulation "HOL-Library.Multiset"
begin

text \<open>
  Timers of the event loop (\<open>src/NetworkInfra/src/timer.cpp\<close>, \<open>timer_queue.cpp\<close>): a multimap of
  timers by expiration and one timer descriptor armed for the earliest of them. Time points count
  nanoseconds and intervals microseconds, both signed 64-bit integers. The clock, the result of
  \<open>timerfd_settime\<close> and what a handler does while it runs, that is the timers it adds and whether it throws, are the environment.
  An operation that throws leaves a queue behind, so its result is the queue with the fault, if any. The theory
  shows that the descriptor is always armed in time for the earliest timer, that timers are neither
  doubled nor called early and lost only in a tick that throws, and that a timer due exactly at the time of the tick fails a check.
\<close>

section \<open>Timers\<close>

record 'h timer =
  timer_tick_handler :: 'h
  expiration :: int
  interval :: int

definition Timer_new :: "'h option \<Rightarrow> int \<Rightarrow> int \<Rightarrow> 'h timer res" where
  "Timer_new handler when interv = (case handler of
     None \<Rightarrow> Inl Ensure_failed
   | Some h \<Rightarrow> Inr \<lparr>timer_tick_handler = h, expiration = when, interval = interv\<rparr>)"

definition is_repeating :: "'h timer \<Rightarrow> bool" where
  "is_repeating t \<longleftrightarrow> 0 < interval t"

definition Restart :: "int \<Rightarrow> 'h timer \<Rightarrow> 'h timer res" where
  "Restart now t =
     rbind (guard (is_repeating t) Ensure_failed) (\<lambda>_.
     rbind (chk64 (interval t * 1000)) (\<lambda>ns.
     rbind (chk64 (now + ns)) (\<lambda>e. Inr (t\<lparr>expiration := e\<rparr>))))"

section \<open>The descriptor\<close>

record timespec =
  tv_sec :: int
  tv_nsec :: int

definition spec_ns :: "timespec \<Rightarrow> int" where
  "spec_ns spec = tv_sec spec * 1000000000 + tv_nsec spec"

definition kMinDuration :: int where
  "kMinDuration = 100"

definition ConvertDurationToTimespec :: "int \<Rightarrow> timespec" where
  "ConvertDurationToTimespec duration =
     (let duration = (if duration < kMinDuration then kMinDuration else duration);
          sec_part = cdiv duration 1000000;
          nano_part = (duration - sec_part * 1000000) * 1000
      in \<lparr>tv_sec = sec_part, tv_nsec = nano_part\<rparr>)"

text \<open>
  What lies outside: the readings of \<open>system_clock::now()\<close> in the order in which they are taken,
  whether \<open>timerfd_settime\<close> accepts a time, and what a handler does when it is called after so many other calls: the timers it adds,
  and whether it throws afterwards.
\<close>

record 'h timer_env =
  clock :: "nat \<Rightarrow> int"
  settime :: "timespec \<Rightarrow> bool"
  calls :: "'h \<Rightarrow> nat \<Rightarrow> ('h option \<times> int \<times> int) list \<times> bool"

text \<open>
  \<open>armed\<close>: the setting of the descriptor with the time it was set at; \<open>fired\<close>: it has expired and
  was not read since. The last three fields record the timers added, the calls made, with the time
  of the tick, and the timers destroyed without having been called or queued again.
\<close>

record 'h timer_queue =
  timers :: "(int \<times> 'h timer) list"
  armed :: "(int \<times> timespec) option"
  fired :: bool
  reads :: nat
  added :: "'h timer list"
  ticked :: "('h timer \<times> int) list"
  lost :: "'h timer list"

definition TimerQueue_new :: "'h timer_queue" where
  "TimerQueue_new = \<lparr>timers = [], armed = None, fired = False, reads = 0, added = [], ticked = [], lost = []\<rparr>"

type_synonym 'h outcome = "'h timer_queue \<times> fault option"

definition ResetTimerFD :: "'h timer_env \<Rightarrow> int \<Rightarrow> 'h timer_queue \<Rightarrow> 'h outcome" where
  "ResetTimerFD env when q =
     (let now = clock env (reads q); q = q\<lparr>reads := Suc (reads q)\<rparr> in
      case chk64 (when - now) of Inl e \<Rightarrow> (q, Some e) | Inr d \<Rightarrow>
      let spec = ConvertDurationToTimespec (cdiv d 1000) in
      if \<not> settime env spec then (q, Some Ensure_failed)
      else (q\<lparr>armed := Some (now, spec), fired := False\<rparr>, None))"

definition ConsumeTimerFD :: "'h timer_queue \<Rightarrow> 'h timer_queue" where
  "ConsumeTimerFD q = q\<lparr>fired := False\<rparr>"

section \<open>The queue\<close>

text \<open>\<open>multimap::emplace\<close>: behind the entries with an equal key.\<close>

fun emplace :: "int \<Rightarrow> 'v \<Rightarrow> (int \<times> 'v) list \<Rightarrow> (int \<times> 'v) list" where
  "emplace k v [] = [(k, v)]"
| "emplace k v (e # m) = (if k < fst e then (k, v) # e # m else e # emplace k v m)"

definition timer_Insert :: "'h timer \<Rightarrow> 'h timer_queue \<Rightarrow> bool \<times> 'h timer_queue" where
  "timer_Insert new_timer q =
     (let when = expiration new_timer;
          earliest_changed = (timers q = [] \<or> when < fst (hd (timers q)))
      in (earliest_changed, q\<lparr>timers := emplace when new_timer (timers q)\<rparr>))"

definition ExtractExpired :: "int \<Rightarrow> (int \<times> 'h timer) list \<Rightarrow> ('h timer list \<times> (int \<times> 'h timer) list) res" where
  "ExtractExpired sentry_time m =
     (let before = takeWhile (\<lambda>e. fst e < sentry_time) m;
          from_end = dropWhile (\<lambda>e. fst e < sentry_time) m
      in rbind (guard (from_end = [] \<or> sentry_time < fst (hd from_end)) Ensure_failed)
           (\<lambda>_. Inr (map snd before, from_end)))"

definition AddTimer :: "'h timer_env \<Rightarrow> bool \<Rightarrow> 'h option \<times> int \<times> int \<Rightarrow> 'h timer_queue \<Rightarrow> 'h outcome" where
  "AddTimer env on_loop_thread call q =
     (case call of (handler, when, interv) \<Rightarrow>
      if \<not> on_loop_thread then (q, Some Ensure_failed)
      else case Timer_new handler when interv of Inl e \<Rightarrow> (q, Some e) | Inr t \<Rightarrow>
        let (new_earliest, q) = timer_Insert t (q\<lparr>added := added q @ [t]\<rparr>) in
        if new_earliest then ResetTimerFD env when q else (q, None))"

text \<open>\<open>Timer::Tick\<close>: a handler runs on the loop thread; it adds timers, and what one addition throws leaves it.\<close>

fun add_timers :: "'h timer_env \<Rightarrow> ('h option \<times> int \<times> int) list \<Rightarrow> bool \<Rightarrow> 'h timer_queue \<Rightarrow> 'h outcome" where
  "add_timers env [] throws q = (q, if throws then Some (Thrown ''handler'') else None)"
| "add_timers env (c # cs) throws q =
     (case AddTimer env True c q of (q, Some e) \<Rightarrow> (q, Some e) | (q, None) \<Rightarrow> add_timers env cs throws q)"

definition Tick :: "'h timer_env \<Rightarrow> int \<Rightarrow> 'h timer \<Rightarrow> 'h timer_queue \<Rightarrow> 'h outcome" where
  "Tick env sentry t q =
     (let (cs, throws) = calls env (timer_tick_handler t) (length (ticked q))
      in add_timers env cs throws (q\<lparr>ticked := ticked q @ [(t, sentry)]\<rparr>))"

text \<open>
  The body of the loop of \<open>OnTick\<close>. When it throws, the vector of the expired timers is destroyed: \<open>lost\<close> gets
  a repeating timer that was not queued again and, in the loop, the timers after it.
\<close>

definition tick_one :: "'h timer_env \<Rightarrow> int \<Rightarrow> 'h timer \<Rightarrow> 'h timer_queue \<Rightarrow> 'h outcome" where
  "tick_one env sentry t q =
     (case Tick env sentry t q of
        (q, Some e) \<Rightarrow> (if is_repeating t then q\<lparr>lost := lost q @ [t]\<rparr> else q, Some e)
      | (q, None) \<Rightarrow>
          if is_repeating t
          then (case Restart sentry t of
                  Inl e \<Rightarrow> (q\<lparr>lost := lost q @ [t]\<rparr>, Some e)
                | Inr t \<Rightarrow> (snd (timer_Insert t q), None))
          else (q, None))"

fun tick_all :: "'h timer_env \<Rightarrow> int \<Rightarrow> 'h timer list \<Rightarrow> 'h timer_queue \<Rightarrow> 'h outcome" where
  "tick_all env sentry [] q = (q, None)"
| "tick_all env sentry (t # ts) q =
     (case tick_one env sentry t q of
        (q, Some e) \<Rightarrow> (q\<lparr>lost := lost q @ ts\<rparr>, Some e)
      | (q, None) \<Rightarrow> tick_all env sentry ts q)"

definition OnTick :: "'h timer_env \<Rightarrow> bool \<Rightarrow> 'h timer_queue \<Rightarrow> 'h outcome" where
  "OnTick env on_loop_thread q =
     (if \<not> on_loop_thread then (q, Some Ensure_failed)
      else let sentry = clock env (reads q); q = ConsumeTimerFD (q\<lparr>reads := Suc (reads q)\<rparr>) in
        case ExtractExpired sentry (timers q) of Inl e \<Rightarrow> (q, Some e) | Inr (expired, rest) \<Rightarrow>
        (case tick_all env sentry expired (q\<lparr>timers := rest\<rparr>) of
           (q, Some e) \<Rightarrow> (q, Some e)
         | (q, None) \<Rightarrow> if timers q \<noteq> [] then ResetTimerFD env (fst (hd (timers q))) q else (q, None)))"

text \<open>The descriptor expires: a one-shot setting is used up.\<close>

definition timer_fires :: "'h timer_queue \<Rightarrow> 'h timer_queue" where
  "timer_fires q = (if armed q = None then q else q\<lparr>armed := None, fired := True\<rparr>)"

datatype 'h timer_op = Op_Add "'h option" int int | Op_Fire | Op_Tick

fun timer_step :: "'h timer_env \<Rightarrow> 'h timer_queue \<Rightarrow> 'h timer_op \<Rightarrow> 'h outcome" where
  "timer_step env q (Op_Add h w i) = AddTimer env True (h, w, i) q"
| "timer_step env q Op_Fire = (timer_fires q, None)"
| "timer_step env q Op_Tick = OnTick env True q"

text \<open>A run goes on after operations that throw; the second one does not.\<close>

definition timer_run :: "'h timer_env \<Rightarrow> 'h timer_op list \<Rightarrow> 'h timer_queue" where
  "timer_run env ops = foldl (\<lambda>q op. fst (timer_step env q op)) TimerQueue_new ops"

definition strict_step :: "'h timer_env \<Rightarrow> 'h timer_queue \<Rightarrow> 'h timer_op \<Rightarrow> 'h timer_queue res" where
  "strict_step env q op = (case timer_step env q op of (q, None) \<Rightarrow> Inr q | (q, Some e) \<Rightarrow> Inl e)"

section \<open>Lemmas\<close>

lemma mset_emplace [simp]: "mset (emplace k v m) = add_mset (k, v) (mset m)"
  by (induction m) simp_all

lemma set_emplace [simp]: "set (emplace k v m) = insert (k, v) (set m)"
  by (induction m) auto

lemma emplace_not_Nil [simp]: "emplace k v m \<noteq> []"
  by (cases m) simp_all

lemma sorted_emplace: "sorted (map fst m) \<Longrightarrow> sorted (map fst (emplace k v m))"
  by (induction m) auto

lemma hd_emplace:
  "fst (hd (emplace k v m)) = (if m = [] \<or> k < fst (hd m) then k else fst (hd m))"
  by (cases m) simp_all

lemma spec_ns_Convert: "spec_ns (ConvertDurationToTimespec d) = 1000 * max d 100"
  by (simp add: spec_ns_def ConvertDurationToTimespec_def kMinDuration_def Let_def max_def)

lemma cdiv_1000_le: "1000 * max (cdiv d 1000) 100 \<le> max d 100000"
proof (cases "0 \<le> d")
  case True
  have "1000 * (d div 1000) \<le> d" by arith
  then show ?thesis using True by (simp add: cdiv_nonneg max_def)
next
  case False
  then have "cdiv d 1000 \<le> 0" by (simp add: cdiv_def sgn_if pos_imp_zdiv_nonneg_iff)
  then show ?thesis by simp
qed

text \<open>The entries are sorted and filed under the expiration of their timer.\<close>

definition keyed :: "(int \<times> 'h timer) list \<Rightarrow> bool" where
  "keyed m \<longleftrightarrow> sorted (map fst m) \<and> (\<forall>e \<in> set m. fst e = expiration (snd e))"

text \<open>The descriptor will wake the loop by the time the earliest timer expires, or in 100 microseconds.\<close>

definition wakes_for :: "int \<Rightarrow> 'h timer_queue \<Rightarrow> bool" where
  "wakes_for earliest q \<longleftrightarrow> fired q \<or> (\<exists>now spec. armed q = Some (now, spec) \<and>
     0 < spec_ns spec \<and> now + spec_ns spec \<le> max earliest (now + 100000))"

definition wake_ok :: "'h timer_queue \<Rightarrow> bool" where
  "wake_ok q \<longleftrightarrow> timers q \<noteq> [] \<longrightarrow> wakes_for (fst (hd (timers q))) q"

lemma ResetTimerFD_cases:
  obtains (fails) e where "ResetTimerFD env when q = (q\<lparr>reads := Suc (reads q)\<rparr>, Some e)"
  | (sets) now spec where "ResetTimerFD env when q = (q\<lparr>reads := Suc (reads q), armed := Some (now, spec), fired := False\<rparr>, None)"
      and "now = clock env (reads q)" and "spec = ConvertDurationToTimespec (cdiv (when - now) 1000)"
proof -
  let ?now = "clock env (reads q)"
  let ?spec = "ConvertDurationToTimespec (cdiv (when - ?now) 1000)"
  show ?thesis
  proof (cases "chk64 (when - ?now)")
    case (Inl e)
    then show ?thesis by (intro fails) (simp add: ResetTimerFD_def Let_def)
  next
    case (Inr d)
    then have d: "d = when - ?now" by (simp add: chk64_def split: if_splits)
    show ?thesis
    proof (cases "settime env ?spec")
      case True
      then show ?thesis by (intro sets) (simp_all add: ResetTimerFD_def Let_def Inr [unfolded d])
    next
      case False
      then show ?thesis by (intro fails [of Ensure_failed]) (simp add: ResetTimerFD_def Let_def Inr [unfolded d])
    qed
  qed
qed

lemma ResetTimerFD_wakes: "ResetTimerFD env when q = (q', None) \<Longrightarrow> wakes_for when q'"
proof (cases env "when" q rule: ResetTimerFD_cases)
  case (sets now spec)
  assume "ResetTimerFD env when q = (q', None)"
  then have "q' = q\<lparr>reads := Suc (reads q), armed := Some (now, spec), fired := False\<rparr>" using sets(1) by simp
  then show ?thesis
    using cdiv_1000_le [of "when - now"] sets(3) by (auto simp: wakes_for_def spec_ns_Convert max_def split: if_splits)
qed simp

text \<open>How an operation may grow the queue: by timers that it adds.\<close>

definition grows :: "'h timer_queue \<Rightarrow> 'h timer list \<Rightarrow> 'h timer_queue \<Rightarrow> bool" where
  "grows q new q' \<longleftrightarrow> added q' = added q @ new \<and> mset (map snd (timers q')) = mset (map snd (timers q)) + mset new \<and>
     ticked q' = ticked q \<and> lost q' = lost q \<and> (keyed (timers q) \<longrightarrow> keyed (timers q'))"

lemma keyed_emplace: "keyed m \<Longrightarrow> k = expiration t \<Longrightarrow> keyed (emplace k t m)"
  by (auto simp: keyed_def sorted_emplace)

lemma mset_snd_emplace: "mset (map snd (emplace k v m)) = add_mset v (mset (map snd m))"
  by (simp add: mset_map)

lemma ResetTimerFD_grows: "ResetTimerFD env when q = (q', e) \<Longrightarrow> grows q [] q' \<and> timers q' = timers q"
  by (cases env "when" q rule: ResetTimerFD_cases) (auto simp: grows_def)

lemma grows_trans: "grows q xs q1 \<Longrightarrow> grows q1 ys q2 \<Longrightarrow> grows q (xs @ ys) q2"
  by (auto simp: grows_def)

lemma AddTimer_eq:
  "AddTimer env True (Some h, when, interv) q =
     (let t = \<lparr>timer_tick_handler = h, expiration = when, interval = interv\<rparr>;
          q' = q\<lparr>added := added q @ [t], timers := emplace when t (timers q)\<rparr>
      in if timers q = [] \<or> when < fst (hd (timers q)) then ResetTimerFD env when q' else (q', None))"
  by (simp add: AddTimer_def Timer_new_def timer_Insert_def Let_def)

lemma AddTimer_grows:
  assumes "AddTimer env b c q = (q', e)"
  shows "\<exists>new. grows q new q' \<and> (e = None \<longrightarrow> (\<exists>t. new = [t])) \<and> (e = None \<and> wake_ok q \<longrightarrow> wake_ok q')"
proof -
  obtain handler at_time interv where c: "c = (handler, at_time, interv)" by (cases c)
  show ?thesis
  proof (cases "b \<and> handler \<noteq> None")
    case False
    then have "q' = q" "e \<noteq> None" using assms c by (auto simp: AddTimer_def Timer_new_def split: if_splits)
    then show ?thesis by (intro exI [of _ "[]"]) (simp add: grows_def)
  next
    case True
    then obtain h where h: "b" "handler = Some h" by blast
    let ?t = "\<lparr>timer_tick_handler = h, expiration = at_time, interval = interv\<rparr>"
    let ?q = "q\<lparr>added := added q @ [?t], timers := emplace at_time ?t (timers q)\<rparr>"
    have g: "grows q [?t] ?q" by (simp add: grows_def mset_snd_emplace keyed_emplace del: mset_map)
    show ?thesis
    proof (cases "timers q = [] \<or> at_time < fst (hd (timers q))")
      case True
      then have r: "ResetTimerFD env at_time ?q = (q', e)" using assms unfolding c h(2) using h(1) by (simp add: AddTimer_eq Let_def)
      then have "grows q ([?t] @ []) q'" using grows_trans [OF g] ResetTimerFD_grows by blast
      moreover have "e = None \<Longrightarrow> wake_ok q'"
        using r ResetTimerFD_wakes [of env at_time ?q q'] ResetTimerFD_grows [OF r] True by (simp add: wake_ok_def hd_emplace)
      ultimately show ?thesis by (intro exI [of _ "[?t]"]) simp
    next
      case False
      then have "q' = ?q" using assms unfolding c h(2) using h(1) by (simp add: AddTimer_eq Let_def)
      moreover have "wake_ok q \<longrightarrow> wake_ok ?q" using False by (simp add: wake_ok_def hd_emplace wakes_for_def)
      ultimately show ?thesis using g by (intro exI [of _ "[?t]"]) simp
    qed
  qed
qed

lemma add_timers_grows: "add_timers env cs throws q = (q', e) \<Longrightarrow> \<exists>new. grows q new q'"
proof (induction env cs throws q rule: add_timers.induct)
  case (1 env throws q)
  then show ?case by (intro exI [of _ "[]"]) (auto simp: grows_def)
next
  case (2 env c cs throws q)
  obtain q1 e1 where q1: "AddTimer env True c q = (q1, e1)" by (cases "AddTimer env True c q")
  obtain n1 where n1: "grows q n1 q1" using AddTimer_grows [OF q1] by blast
  show ?case
  proof (cases e1)
    case None
    then obtain n2 where "grows q1 n2 q'" using "2.IH" [OF q1 [symmetric]] "2.prems" q1 by auto
    then show ?thesis using grows_trans [OF n1] by blast
  qed (use "2.prems" q1 n1 in auto)
qed

lemma Tick_grows:
  assumes "Tick env s t q = (q', e)"
  shows "\<exists>new. grows (q\<lparr>ticked := ticked q @ [(t, s)]\<rparr>) new q'"
  using assms add_timers_grows unfolding Tick_def by (auto split: prod.splits)

text \<open>One-shot timers, and repeating ones without their changing expiration.\<close>

definition oneshots :: "'h timer list \<Rightarrow> 'h timer multiset" where
  "oneshots ts = filter_mset (\<lambda>t. \<not> is_repeating t) (mset ts)"

definition repeats :: "'h timer list \<Rightarrow> ('h \<times> int) multiset" where
  "repeats ts = image_mset (\<lambda>t. (timer_tick_handler t, interval t)) (filter_mset is_repeating (mset ts))"

text \<open>The accounts of the queue while the timers in \<open>due\<close> have been taken out and not called yet.\<close>

definition timers_acc :: "'h timer list \<Rightarrow> 'h timer_queue \<Rightarrow> bool" where
  "timers_acc due q \<longleftrightarrow> keyed (timers q) \<and>
     oneshots (added q) = oneshots (map fst (ticked q)) + oneshots (map snd (timers q)) + oneshots (lost q) + oneshots due \<and>
     repeats (added q) = repeats (map snd (timers q)) + repeats (lost q) + repeats due \<and>
     (\<forall>(t, s) \<in> set (ticked q). expiration t < s)"

lemma bags_simps [simp]:
  "oneshots [] = {#}" "repeats [] = {#}"
  "oneshots (xs @ ys) = oneshots xs + oneshots ys"
  "repeats (xs @ ys) = repeats xs + repeats ys"
  by (simp_all add: oneshots_def repeats_def)

lemma bags_Cons:
  "oneshots (t # ts) = (if is_repeating t then oneshots ts else add_mset t (oneshots ts))"
  "repeats (t # ts) = (if is_repeating t then add_mset (timer_tick_handler t, interval t) (repeats ts) else repeats ts)"
  by (simp_all add: oneshots_def repeats_def)

lemma grows_acc: "grows q new q' \<Longrightarrow> timers_acc due q \<Longrightarrow> timers_acc due q'"
proof -
  assume g: "grows q new q'" and a: "timers_acc due q"
  have "oneshots (map snd (timers q')) = oneshots (map snd (timers q)) + oneshots new"
    "repeats (map snd (timers q')) = repeats (map snd (timers q)) + repeats new"
    using g by (simp_all add: grows_def oneshots_def repeats_def del: mset_map)
  then show "timers_acc due q'" using g a by (simp add: timers_acc_def grows_def)
qed

lemma Restart_Inr:
  "Restart now t = Inr t' \<longleftrightarrow> is_repeating t \<and> in_i64 (interval t * 1000) \<and>
     in_i64 (now + interval t * 1000) \<and> t' = t\<lparr>expiration := now + interval t * 1000\<rparr>"
  by (auto simp: Restart_def fault_simps)

lemma is_repeating_expiration [simp]: "is_repeating (t\<lparr>expiration := e\<rparr>) \<longleftrightarrow> is_repeating t"
  by (simp add: is_repeating_def)

lemma tick_one_acc:
  assumes "tick_one env s t q = (q', e)" and "timers_acc (t # due) q" and "expiration t < s"
  shows "timers_acc due q'"
proof -
  obtain q1 e1 where q1: "Tick env s t q = (q1, e1)" by (cases "Tick env s t q")
  let ?due = "if is_repeating t then t # due else due"
  have "timers_acc ?due (q\<lparr>ticked := ticked q @ [(t, s)]\<rparr>)" using assms(2,3) by (auto simp: timers_acc_def bags_Cons)
  then have a1: "timers_acc ?due q1" using Tick_grows [OF q1] grows_acc by blast
  then have gone: "timers_acc due (if is_repeating t then q1\<lparr>lost := lost q1 @ [t]\<rparr> else q1)"
    by (auto simp: timers_acc_def bags_Cons)
  show ?thesis
  proof (cases e1)
    case (Some f)
    then show ?thesis using assms(1) q1 gone by (simp add: tick_one_def)
  next
    case None
    show ?thesis
    proof (cases "is_repeating t")
      case False
      then show ?thesis using assms(1) q1 None a1 by (simp add: tick_one_def)
    next
      case True
      show ?thesis
      proof (cases "Restart s t")
        case (Inl f)
        then show ?thesis using assms(1) q1 None True gone by (simp add: tick_one_def)
      next
        case (Inr t')
        then have q': "q' = q1\<lparr>timers := emplace (expiration t') t' (timers q1)\<rparr>"
          using assms(1) q1 None True by (simp add: tick_one_def timer_Insert_def Let_def)
        have t': "t' = t\<lparr>expiration := s + interval t * 1000\<rparr>" using Inr Restart_Inr by blast
        have "oneshots (map snd (timers q')) = oneshots (map snd (timers q1))"
          "repeats (map snd (timers q')) = add_mset (timer_tick_handler t, interval t) (repeats (map snd (timers q1)))"
          using True by (simp_all add: q' t' oneshots_def repeats_def mset_snd_emplace del: mset_map)
        then show ?thesis using a1 True by (simp add: timers_acc_def q' keyed_emplace bags_Cons)
      qed
    qed
  qed
qed

lemma tick_all_acc:
  "tick_all env s ts q = (q', e) \<Longrightarrow> timers_acc ts q \<Longrightarrow> \<forall>t \<in> set ts. expiration t < s \<Longrightarrow> timers_acc [] q'"
proof (induction env s ts q rule: tick_all.induct)
  case (2 env s t ts q)
  obtain q1 e1 where q1: "tick_one env s t q = (q1, e1)" by (cases "tick_one env s t q")
  have a1: "timers_acc ts q1" using tick_one_acc [OF q1 "2.prems"(2)] "2.prems"(3) by simp
  show ?case
  proof (cases e1)
    case None
    then show ?thesis using "2.IH" [OF q1 [symmetric]] "2.prems" q1 a1 by simp
  next
    case (Some f)
    then have "q' = q1\<lparr>lost := lost q1 @ ts\<rparr>" using "2.prems"(1) q1 by simp
    then show ?thesis using a1 by (simp add: timers_acc_def)
  qed
qed simp

text \<open>A loop that does not throw: every timer is called, and the repeating ones are queued again, one interval from now.\<close>

definition again :: "int \<Rightarrow> 'h timer \<Rightarrow> 'h timer" where
  "again s t = t\<lparr>expiration := s + interval t * 1000\<rparr>"

lemma tick_one_done:
  assumes "tick_one env s t q = (q', None)"
  shows "\<exists>new. added q' = added q @ new \<and> ticked q' = ticked q @ [(t, s)] \<and> lost q' = lost q \<and>
    mset (map snd (timers q')) = mset (map snd (timers q)) + mset new + (if is_repeating t then {#again s t#} else {#})"
proof -
  obtain q1 e1 where q1: "Tick env s t q = (q1, e1)" by (cases "Tick env s t q")
  obtain new where n: "grows (q\<lparr>ticked := ticked q @ [(t, s)]\<rparr>) new q1" using Tick_grows [OF q1] by blast
  have e1: "e1 = None" using assms q1 by (cases e1) (simp_all add: tick_one_def)
  show ?thesis
  proof (cases "is_repeating t")
    case False
    then have "q' = q1" using assms q1 e1 by (simp add: tick_one_def)
    then show ?thesis using n False by (auto simp: grows_def)
  next
    case True
    obtain t' where t': "Restart s t = Inr t'" using assms q1 e1 True by (cases "Restart s t") (simp_all add: tick_one_def)
    then have q': "q' = q1\<lparr>timers := emplace (expiration t') t' (timers q1)\<rparr>"
      using assms q1 e1 True by (simp add: tick_one_def timer_Insert_def Let_def)
    have "t' = again s t" using t' Restart_Inr [of s t t'] by (simp add: again_def)
    then show ?thesis using n True by (intro exI [of _ new]) (simp add: grows_def q' mset_snd_emplace del: mset_map)
  qed
qed

lemma tick_all_done:
  "tick_all env s ts q = (q', None) \<Longrightarrow> \<exists>new. added q' = added q @ new \<and>
    ticked q' = ticked q @ map (\<lambda>t. (t, s)) ts \<and> lost q' = lost q \<and>
    mset (map snd (timers q')) = mset (map snd (timers q)) + mset new + image_mset (again s) (filter_mset is_repeating (mset ts))"
proof (induction env s ts q rule: tick_all.induct)
  case (2 env s t ts q)
  obtain q1 e1 where q1: "tick_one env s t q = (q1, e1)" by (cases "tick_one env s t q")
  have e1: "e1 = None" using "2.prems" q1 by (cases e1) simp_all
  obtain n1 where n1: "added q1 = added q @ n1" "ticked q1 = ticked q @ [(t, s)]" "lost q1 = lost q"
    "mset (map snd (timers q1)) = mset (map snd (timers q)) + mset n1 + (if is_repeating t then {#again s t#} else {#})"
    using tick_one_done q1 e1 by blast
  obtain n2 where n2: "added q' = added q1 @ n2" "ticked q' = ticked q1 @ map (\<lambda>t. (t, s)) ts" "lost q' = lost q1"
    "mset (map snd (timers q')) = mset (map snd (timers q1)) + mset n2 + image_mset (again s) (filter_mset is_repeating (mset ts))"
    using "2.IH" [OF q1 [symmetric] e1] "2.prems" q1 e1 by auto
  show ?case using n1 n2 by (intro exI [of _ "n1 @ n2"]) (simp del: mset_map)
qed simp

lemma keyed_takeWhile:
  assumes "keyed m"
  shows "map snd (takeWhile (\<lambda>e. fst e < s) m) = filter (\<lambda>t. expiration t < s) (map snd m)"
    and "map snd (dropWhile (\<lambda>e. fst e < s) m) = filter (\<lambda>t. \<not> expiration t < s) (map snd m)"
    and "keyed (dropWhile (\<lambda>e. fst e < s) m)"
proof -
  have "takeWhile (\<lambda>e. fst e < s) m = filter (\<lambda>e. fst e < s) m \<and> dropWhile (\<lambda>e. fst e < s) m = filter (\<lambda>e. \<not> fst e < s) m \<and>
      sorted (map fst (dropWhile (\<lambda>e. fst e < s) m))"
    using assms unfolding keyed_def by (induction m) (auto 0 3 simp: filter_empty_conv eq_commute [of "[]"] intro!: filter_True [symmetric])
  moreover have "filter (\<lambda>e. fst e < s) m = filter (\<lambda>e. expiration (snd e) < s) m" "filter (\<lambda>e. \<not> fst e < s) m = filter (\<lambda>e. \<not> expiration (snd e) < s) m"
    using assms by (intro filter_cong; auto simp: keyed_def)+
  moreover have "set (dropWhile (\<lambda>e. fst e < s) m) \<subseteq> set m" by (auto dest: set_dropWhileD)
  ultimately show "map snd (takeWhile (\<lambda>e. fst e < s) m) = filter (\<lambda>t. expiration t < s) (map snd m)"
    and "map snd (dropWhile (\<lambda>e. fst e < s) m) = filter (\<lambda>t. \<not> expiration t < s) (map snd m)"
    and "keyed (dropWhile (\<lambda>e. fst e < s) m)"
    using assms by (auto simp: keyed_def filter_map comp_def)
qed

text \<open>A tick: it fails before it takes timers out, or it takes out those that are due.\<close>

lemma OnTick_cases:
  assumes "timers_acc [] q"
  obtains (fails) e where "OnTick env b q = (q, Some e) \<or> OnTick env b q = (q\<lparr>reads := Suc (reads q), fired := False\<rparr>, Some e)"
  | (takes) q0 q1 e1 where "b" and "timers_acc (filter (\<lambda>t. expiration t < clock env (reads q)) (map snd (timers q))) q0"
      and "map snd (timers q0) = filter (\<lambda>t. \<not> expiration t < clock env (reads q)) (map snd (timers q))"
      and "added q0 = added q" and "ticked q0 = ticked q" and "lost q0 = lost q"
      and "tick_all env (clock env (reads q)) (filter (\<lambda>t. expiration t < clock env (reads q)) (map snd (timers q))) q0 = (q1, e1)"
      and "OnTick env b q = (case e1 of Some e \<Rightarrow> (q1, Some e) | None \<Rightarrow>
        if timers q1 \<noteq> [] then ResetTimerFD env (fst (hd (timers q1))) q1 else (q1, None))"
proof -
  let ?s = "clock env (reads q)" and ?m = "timers q"
  let ?q0 = "q\<lparr>reads := Suc (reads q), fired := False\<rparr>"
  note key = keyed_takeWhile [of ?m ?s]
  have k: "keyed ?m" using assms by (simp add: timers_acc_def)
  show ?thesis
  proof (cases "b \<and> ExtractExpired ?s ?m = Inr (map snd (takeWhile (\<lambda>e. fst e < ?s) ?m), dropWhile (\<lambda>e. fst e < ?s) ?m)")
    case False
    have "\<exists>e. OnTick env b q = (q, Some e) \<or> OnTick env b q = (?q0, Some e)"
    proof (cases b)
      case True
      then obtain e where "ExtractExpired ?s ?m = Inl e" using False by (auto simp: ExtractExpired_def Let_def guard_def split: if_splits)
      then show ?thesis using True by (intro exI [of _ e] disjI2) (simp add: OnTick_def ConsumeTimerFD_def Let_def)
    next
      case False
      then show ?thesis by (intro exI [of _ Ensure_failed] disjI1) (simp add: OnTick_def)
    qed
    then show ?thesis using fails by blast
  next
    case True
    let ?due = "filter (\<lambda>t. expiration t < ?s) (map snd ?m)" and ?rest = "dropWhile (\<lambda>e. fst e < ?s) ?m"
    let ?q1 = "?q0\<lparr>timers := ?rest\<rparr>"
    obtain q1 e1 where q1: "tick_all env ?s ?due ?q1 = (q1, e1)" by (cases "tick_all env ?s ?due ?q1")
    have "mset (map snd ?m) = mset (map snd ?rest) + mset ?due" unfolding key(2) [OF k]
      by (simp add: mset_filter del: mset_map)
    then have "oneshots (map snd ?m) = oneshots (map snd ?rest) + oneshots ?due" "repeats (map snd ?m) = repeats (map snd ?rest) + repeats ?due"
      by (simp_all add: oneshots_def repeats_def del: mset_map mset_filter)
    then have acc: "timers_acc ?due ?q1" using assms key(3) [OF k] by (simp add: timers_acc_def)
    have "OnTick env b q = (case e1 of Some e \<Rightarrow> (q1, Some e) | None \<Rightarrow>
        if timers q1 \<noteq> [] then ResetTimerFD env (fst (hd (timers q1))) q1 else (q1, None))"
      using True q1 key(1) [OF k] by (simp add: OnTick_def ConsumeTimerFD_def Let_def split: option.splits)
    from takes [OF _ acc _ _ _ _ q1 this] show ?thesis using True key(2) [OF k] by simp
  qed
qed

lemma OnTick_acc:
  assumes "OnTick env b q = (q', e)" and "timers_acc [] q"
  shows "timers_acc [] q'" and "e = None \<Longrightarrow> wake_ok q'"
proof -
  have "timers_acc [] q' \<and> (e = None \<longrightarrow> wake_ok q')"
  proof (cases rule: OnTick_cases [OF assms(2), of env b, case_names fails takes])
    case (fails f)
    then show ?thesis using assms by (auto simp: timers_acc_def)
  next
    case (takes q0 q1 e1)
    have a1: "timers_acc [] q1" by (rule tick_all_acc [OF takes(7,2)]) simp
    show ?thesis
    proof (cases e1)
      case (Some f)
      then show ?thesis using takes(8) assms(1) a1 by simp
    next
      case None
      show ?thesis
      proof (cases "timers q1 = []")
        case True
        then show ?thesis using takes(8) assms(1) a1 None by (auto simp: wake_ok_def)
      next
        case False
        then have r: "ResetTimerFD env (fst (hd (timers q1))) q1 = (q', e)" using takes(8) assms(1) None by simp
        show ?thesis using ResetTimerFD_grows [OF r] grows_acc a1 ResetTimerFD_wakes [of env _ q1 q'] r by (auto simp: wake_ok_def)
      qed
    qed
  qed
  then show "timers_acc [] q'" and "e = None \<Longrightarrow> wake_ok q'" by simp_all
qed

lemma OnTick_done:
  assumes "OnTick env b q = (q', None)" and "timers_acc [] q"
  defines "s \<equiv> clock env (reads q)"
  shows "ticked q' = ticked q @ map (\<lambda>t. (t, s)) (filter (\<lambda>t. expiration t < s) (map snd (timers q)))" and "lost q' = lost q"
    and "\<exists>new. added q' = added q @ new \<and> mset (map snd (timers q')) =
      mset (filter (\<lambda>t. \<not> expiration t < s) (map snd (timers q))) +
      mset (map (again s) (filter is_repeating (filter (\<lambda>t. expiration t < s) (map snd (timers q))))) + mset new"
proof -
  let ?due = "filter (\<lambda>t. expiration t < s) (map snd (timers q))"
  have "ticked q' = ticked q @ map (\<lambda>t. (t, s)) ?due \<and> lost q' = lost q \<and> (\<exists>new. added q' = added q @ new \<and> mset (map snd (timers q')) =
      mset (filter (\<lambda>t. \<not> expiration t < s) (map snd (timers q))) + mset (map (again s) (filter is_repeating ?due)) + mset new)"
  proof (cases rule: OnTick_cases [OF assms(2), of env b, case_names fails takes])
    case (takes q0 q1 e1)
    have e1: "e1 = None" using takes(8) assms(1) by (cases e1) simp_all
    then obtain new where n: "added q1 = added q0 @ new" "ticked q1 = ticked q0 @ map (\<lambda>t. (t, s)) ?due" "lost q1 = lost q0"
      "mset (map snd (timers q1)) = mset (map snd (timers q0)) + mset new + image_mset (again s) (filter_mset is_repeating (mset ?due))"
      using tick_all_done takes(7) unfolding s_def by blast
    have "timers q' = timers q1 \<and> added q' = added q1 \<and> ticked q' = ticked q1 \<and> lost q' = lost q1"
    proof (cases "timers q1 = []")
      case False
      then have r: "ResetTimerFD env (fst (hd (timers q1))) q1 = (q', None)" using takes(8) assms(1) e1 by simp
      show ?thesis using ResetTimerFD_grows [OF r] by (simp add: grows_def)
    qed (use takes(8) assms(1) e1 in simp)
    moreover from this have "mset (map snd (timers q')) = mset (map snd (timers q0)) + mset (map (again s) (filter is_repeating ?due)) + mset new"
      using n(4) by (simp only: mset_map mset_filter ac_simps)
    moreover have "map snd (timers q0) = filter (\<lambda>t. \<not> expiration t < s) (map snd (timers q))" using takes(3) unfolding s_def .
    ultimately show ?thesis using n(1-3) takes(4-6) by (intro conjI exI [of _ new]) simp_all
  qed (use assms(1) in auto)
  then show "ticked q' = ticked q @ map (\<lambda>t. (t, s)) ?due" and "lost q' = lost q"
    and "\<exists>new. added q' = added q @ new \<and> mset (map snd (timers q')) =
      mset (filter (\<lambda>t. \<not> expiration t < s) (map snd (timers q))) + mset (map (again s) (filter is_repeating ?due)) + mset new"
    by blast+
qed

lemma timer_step_acc: "timer_step env q op = (q', e) \<Longrightarrow> timers_acc [] q \<Longrightarrow> timers_acc [] q'"
proof (cases op)
  case (Op_Add h w i)
  assume "timer_step env q op = (q', e)" "timers_acc [] q"
  then show ?thesis using Op_Add AddTimer_grows [of env True "(h, w, i)" q q' e] grows_acc by auto
next
  case Op_Fire
  assume "timer_step env q op = (q', e)" "timers_acc [] q"
  then show ?thesis using Op_Fire by (cases "armed q") (auto simp: timer_fires_def timers_acc_def)
next
  case Op_Tick
  assume "timer_step env q op = (q', e)" "timers_acc [] q"
  then show ?thesis using Op_Tick OnTick_acc(1) by auto
qed

lemma timer_new_acc: "timers_acc [] TimerQueue_new"
  by (simp add: TimerQueue_new_def timers_acc_def keyed_def)

lemma timer_run_acc: "timers_acc [] (timer_run env ops)"
proof (induction ops rule: rev_induct)
  case (snoc op ops)
  obtain q' e where "timer_step env (timer_run env ops) op = (q', e)" by fastforce
  then show ?case using timer_step_acc [OF _ snoc.IH] by (auto simp: timer_run_def)
qed (simp add: timer_run_def timer_new_acc)

lemma strict_step_Inr: "strict_step env q op = Inr q' \<longleftrightarrow> timer_step env q op = (q', None)"
  by (auto simp: strict_step_def split: prod.splits option.splits)

lemma strict_run: "rfold (strict_step env) ops q = Inr q' \<Longrightarrow> foldl (\<lambda>q op. fst (timer_step env q op)) q ops = q'"
  by (induction ops arbitrary: q) (auto simp: rbind_Inr_iff strict_step_Inr)

lemma strict_wakes:
  assumes "rfold (strict_step env) ops TimerQueue_new = Inr q"
  shows "timers_acc [] q \<and> wake_ok q"
proof -
  have step: "timers_acc [] q' \<and> wake_ok q'" if "timers_acc [] q \<and> wake_ok q" "strict_step env q op = Inr q'" for q op q'
  proof -
    have s: "timer_step env q op = (q', None)" using that(2) strict_step_Inr by blast
    have "wake_ok q'"
    proof (cases op)
      case (Op_Add h w i)
      then show ?thesis using AddTimer_grows [of env True "(h, w, i)" q q' None] s that(1) by auto
    next
      case Op_Fire
      then show ?thesis using s that(1) by (cases "armed q") (auto simp: timer_fires_def wake_ok_def wakes_for_def)
    next
      case Op_Tick
      then show ?thesis using OnTick_acc(2) [OF _ _ refl, of env True q q'] s that(1) by simp
    qed
    then show ?thesis using timer_step_acc [OF s] that(1) by blast
  qed
  have "timers_acc [] (TimerQueue_new :: 'a timer_queue) \<and> wake_ok (TimerQueue_new :: 'a timer_queue)"
    using timer_new_acc by (simp add: TimerQueue_new_def wake_ok_def)
  from rfold_invariant [of "\<lambda>q. timers_acc [] q \<and> wake_ok q" "strict_step env", OF step this assms]
  show ?thesis .
qed

section \<open>Runs without a fault\<close>

text \<open>
  The documented contract of \<open>timerfd_settime\<close> (a normalised, non-negative time is accepted) and
  the range in which the arithmetic of time points does not overflow: 73 years on either side.
\<close>

definition small_time :: "int \<Rightarrow> bool" where
  "small_time x \<longleftrightarrow> \<bar>x\<bar> \<le> 2 ^ 61"

definition small_interval :: "int \<Rightarrow> bool" where
  "small_interval x \<longleftrightarrow> x * 1000 \<le> 2 ^ 61"

definition timerfd_contract :: "(timespec \<Rightarrow> bool) \<Rightarrow> bool" where
  "timerfd_contract f \<longleftrightarrow>
     (\<forall>spec. 0 \<le> tv_sec spec \<and> 0 \<le> tv_nsec spec \<and> tv_nsec spec < 1000000000 \<longrightarrow> f spec)"

definition call_ok :: "'h option \<times> int \<times> int \<Rightarrow> bool" where
  "call_ok c \<longleftrightarrow> fst c \<noteq> None \<and> small_time (fst (snd c)) \<and> small_interval (snd (snd c))"

definition env_ok :: "'h timer_env \<Rightarrow> bool" where
  "env_ok env \<longleftrightarrow> timerfd_contract (settime env) \<and> (\<forall>n. small_time (clock env n)) \<and>
     (\<forall>h n. (\<forall>c \<in> set (fst (calls env h n)). call_ok c) \<and> \<not> snd (calls env h n))"

lemma Convert_normal:
  "0 \<le> tv_sec (ConvertDurationToTimespec d) \<and> 0 \<le> tv_nsec (ConvertDurationToTimespec d) \<and>
   tv_nsec (ConvertDurationToTimespec d) < 1000000000"
proof -
  let ?m = "if d < 100 then 100 else d"
  have "0 \<le> ?m - ?m div 1000000 * 1000000" "?m - ?m div 1000000 * 1000000 < 1000000"
    by (simp_all add: minus_div_mult_eq_mod)
  then show ?thesis
    by (auto simp: ConvertDurationToTimespec_def kMinDuration_def cdiv_nonneg Let_def)
qed

text \<open>Every timer in the queue is in range; a restarted one may be one interval further.\<close>

definition timers_bounded :: "'h timer_queue \<Rightarrow> bool" where
  "timers_bounded q \<longleftrightarrow> (\<forall>e \<in> set (timers q). \<bar>fst e\<bar> \<le> 2 ^ 62)"

lemma ResetTimerFD_ok:
  assumes "env_ok env" and "\<bar>w\<bar> \<le> 2 ^ 62"
  shows "\<exists>q'. ResetTimerFD env w q = (q', None)"
proof -
  have "in_i64 (w - clock env (reads q))"
    using assms by (auto simp: in_i64_def env_ok_def small_time_def dest!: spec [of _ "reads q"])
  then show ?thesis
    using assms(1) Convert_normal by (auto simp: ResetTimerFD_def Let_def chk64_def env_ok_def timerfd_contract_def)
qed

lemma ResetTimerFD_timers: "timers (fst (ResetTimerFD env w q)) = timers q"
  using ResetTimerFD_grows [of env w q] by (cases "ResetTimerFD env w q") auto

lemma AddTimer_ok:
  assumes "env_ok env" and "call_ok c" and "timers_bounded q"
  shows "\<exists>q'. AddTimer env True c q = (q', None) \<and> timers_bounded q'"
proof -
  obtain h w i where c: "c = (Some h, w, i)" "\<bar>w\<bar> \<le> 2 ^ 61"
    using assms(2) by (cases c) (auto simp: call_ok_def small_time_def)
  define t where "t = \<lparr>timer_tick_handler = h, expiration = w, interval = i\<rparr>"
  define q0 where "q0 = q\<lparr>added := added q @ [t], timers := emplace w t (timers q)\<rparr>"
  have b: "timers_bounded q0" using assms(3) c(2) by (simp add: timers_bounded_def q0_def)
  have eq: "AddTimer env True c q = (if timers q = [] \<or> w < fst (hd (timers q)) then ResetTimerFD env w q0 else (q0, None))"
    by (simp add: c(1) AddTimer_eq t_def q0_def Let_def)
  obtain q1 where q1: "ResetTimerFD env w q0 = (q1, None)" using ResetTimerFD_ok [OF assms(1), of w q0] c(2) by auto
  then have "timers_bounded q1" using b ResetTimerFD_timers [of env w q0] by (simp add: timers_bounded_def)
  then show ?thesis using eq b q1 by auto
qed

lemma add_timers_ok:
  assumes "env_ok env" and "\<forall>c \<in> set cs. call_ok c" and "timers_bounded q"
  shows "\<exists>q'. add_timers env cs False q = (q', None) \<and> timers_bounded q'"
  using assms(2,3)
proof (induction cs arbitrary: q)
  case (Cons c cs)
  then obtain q1 where "AddTimer env True c q = (q1, None)" "timers_bounded q1"
    using AddTimer_ok [OF assms(1), of c q] by auto
  then show ?case using Cons by simp
qed simp

lemma tick_one_ok:
  assumes "env_ok env" and "small_interval (interval t)" and "timers_bounded q" and "small_time s"
  shows "\<exists>q'. tick_one env s t q = (q', None) \<and> timers_bounded q'"
proof -
  let ?q0 = "q\<lparr>ticked := ticked q @ [(t, s)]\<rparr>"
  obtain cs throws where cs: "calls env (timer_tick_handler t) (length (ticked q)) = (cs, throws)" by fastforce
  have "(\<forall>c \<in> set (fst (cs, throws)). call_ok c) \<and> \<not> snd (cs, throws)" using assms(1) unfolding env_ok_def cs [symmetric] by blast
  then obtain q1 where q1: "add_timers env cs throws ?q0 = (q1, None)" "timers_bounded q1"
    using add_timers_ok [OF assms(1), of cs ?q0] assms(3) by (auto simp: timers_bounded_def)
  then have tick: "Tick env s t q = (q1, None)" by (simp add: Tick_def cs)
  show ?thesis
  proof (cases "is_repeating t")
    case True
    then have i: "0 < interval t" "interval t * 1000 \<le> 2 ^ 61"
      using assms(2) by (auto simp: is_repeating_def small_interval_def)
    have e: "in_i64 (interval t * 1000)" "in_i64 (s + interval t * 1000)" "\<bar>s + interval t * 1000\<bar> \<le> 2 ^ 62"
      using i assms(4) by (auto simp: in_i64_def small_time_def)
    then have "Restart s t = Inr (again s t)" using True by (simp add: Restart_Inr again_def)
    moreover have "timers_bounded (snd (timer_Insert (again s t) q1))"
      using q1(2) e(3) by (auto simp: timer_Insert_def timers_bounded_def again_def Let_def)
    ultimately show ?thesis using True tick by (simp add: tick_one_def)
  qed (use q1(2) tick in \<open>simp add: tick_one_def\<close>)
qed

lemma tick_all_ok:
  assumes "env_ok env" and "\<forall>t \<in> set ts. small_interval (interval t)" and "timers_bounded q" and "small_time s"
  shows "\<exists>q'. tick_all env s ts q = (q', None) \<and> timers_bounded q'"
  using assms(2,3)
proof (induction ts arbitrary: q)
  case (Cons t ts)
  then obtain q1 where "tick_one env s t q = (q1, None)" "timers_bounded q1"
    using tick_one_ok [OF assms(1) _ _ assms(4), of t q] by auto
  then show ?case using Cons by simp
qed simp

text \<open>The queue is fit for a tick: the values are in range, and no timer expires at the very time of the tick.\<close>

definition tick_ready :: "'h timer_env \<Rightarrow> 'h timer_queue \<Rightarrow> bool" where
  "tick_ready env q \<longleftrightarrow> timers_bounded q \<and>
     (\<forall>t \<in> snd ` set (timers q). small_interval (interval t) \<and> expiration t \<noteq> clock env (reads q))"

lemma OnTick_returns:
  assumes "timers_acc [] q" and "env_ok env" and "tick_ready env q"
  shows "\<exists>q'. OnTick env True q = (q', None)"
proof -
  let ?s = "clock env (reads q)"
  let ?before = "takeWhile (\<lambda>e. fst e < ?s) (timers q)" and ?rest = "dropWhile (\<lambda>e. fst e < ?s) (timers q)"
  let ?q = "q\<lparr>reads := Suc (reads q), fired := False, timers := ?rest\<rparr>"
  have sub: "set ?rest \<subseteq> set (timers q)" "set ?before \<subseteq> set (timers q)"
    by (auto dest: set_dropWhileD set_takeWhileD)
  have "?rest = [] \<or> ?s < fst (hd ?rest)"
  proof (cases "?rest = []")
    case False
    then have "hd ?rest \<in> set (timers q)" "\<not> fst (hd ?rest) < ?s"
      using subsetD [OF sub(1) hd_in_set [OF False]] hd_dropWhile [OF False] by simp_all
    then show ?thesis using assms(1,3) by (force simp: timers_acc_def keyed_def tick_ready_def)
  qed simp
  then have ex: "ExtractExpired ?s (timers q) = Inr (map snd ?before, ?rest)" by (simp add: ExtractExpired_def Let_def guard_def del: dropWhile_eq_Nil_conv)
  have "\<forall>t \<in> set (map snd ?before). small_interval (interval t)" using sub(2) assms(3) by (auto simp: tick_ready_def)
  moreover have "timers_bounded ?q" using sub(1) assms(3) by (auto simp: timers_bounded_def tick_ready_def)
  moreover have "small_time ?s" using assms(2) by (simp add: env_ok_def)
  ultimately obtain q1 where q1: "tick_all env ?s (map snd ?before) ?q = (q1, None)" "timers_bounded q1"
    using tick_all_ok [OF assms(2)] by blast
  have "\<exists>q'. ResetTimerFD env (fst (hd (timers q1))) q1 = (q', None)" if "timers q1 \<noteq> []"
    using that q1(2) by (intro ResetTimerFD_ok [OF assms(2)]) (simp add: timers_bounded_def)
  then show ?thesis using ex q1(1) by (simp add: OnTick_def ConsumeTimerFD_def Let_def)
qed

section \<open>Properties\<close>

text \<open>
  Fact. Whatever timers are added and however ticks and expirations of the descriptor are interleaved, as long as none of these operations throws,
  the loop is woken for the earliest timer: as long as a timer is in the queue, the descriptor has
  fired already or is armed with a positive time (a zero would disarm it) that ends when the
  earliest timer expires, or 100 microseconds after it was set when that is later.
\<close>

theorem timers_always_armed:
  assumes "rfold (strict_step env) ops TimerQueue_new = Inr q" and "timers q \<noteq> []"
  shows "fired q \<or> (\<exists>now spec. armed q = Some (now, spec) \<and> 0 < spec_ns spec \<and>
           now + spec_ns spec \<le> max (Min (expiration ` snd ` set (timers q))) (now + 100000))"
proof -
  have key: "keyed (timers q)" using strict_wakes [OF assms(1)] by (simp add: timers_acc_def)
  obtain e m where m: "timers q = e # m" using assms(2) by (cases "timers q") auto
  then have "Min (expiration ` snd ` set (timers q)) = fst e"
    using key by (intro Min_eqI) (fastforce simp: keyed_def)+
  then show ?thesis
    using strict_wakes [OF assms(1)] m by (simp add: wake_ok_def wakes_for_def)
qed

definition example_env :: "nat timer_env" where
  "example_env = \<lparr>clock = (\<lambda>n. min (1000000 * int n) (2 ^ 60)), settime = (\<lambda>spec. 0 \<le> tv_sec spec \<and> 0 \<le> tv_nsec spec \<and> tv_nsec spec < 1000000000),
     calls = (\<lambda>h n. (if h = 1 then [(Some 3, 9000000, 0)] else [], False))\<rparr>"

definition example_ops :: "nat timer_op list" where
  "example_ops = [Op_Add (Some 1) 1500000 0, Op_Add (Some 2) 500000 4000, Op_Fire]"

definition example_waiting :: "nat timer_queue" where
  "example_waiting =
     \<lparr>timers = [(500000, \<lparr>timer_tick_handler = 2, expiration = 500000, interval = 4000\<rparr>),
                (1500000, \<lparr>timer_tick_handler = 1, expiration = 1500000, interval = 0\<rparr>)],
      armed = None, fired = True, reads = 2,
      added = [\<lparr>timer_tick_handler = 1, expiration = 1500000, interval = 0\<rparr>,
               \<lparr>timer_tick_handler = 2, expiration = 500000, interval = 4000\<rparr>],
      ticked = [], lost = []\<rparr>"

definition example_queue :: "nat timer_queue" where
  "example_queue =
     \<lparr>timers = [(6000000, \<lparr>timer_tick_handler = 2, expiration = 6000000, interval = 4000\<rparr>),
                (9000000, \<lparr>timer_tick_handler = 3, expiration = 9000000, interval = 0\<rparr>)],
      armed = Some (3000000, \<lparr>tv_sec = 0, tv_nsec = 3000000\<rparr>), fired = False, reads = 4,
      added = [\<lparr>timer_tick_handler = 1, expiration = 1500000, interval = 0\<rparr>,
               \<lparr>timer_tick_handler = 2, expiration = 500000, interval = 4000\<rparr>,
               \<lparr>timer_tick_handler = 3, expiration = 9000000, interval = 0\<rparr>],
      ticked = [(\<lparr>timer_tick_handler = 2, expiration = 500000, interval = 4000\<rparr>, 2000000),
                (\<lparr>timer_tick_handler = 1, expiration = 1500000, interval = 0\<rparr>, 2000000)], lost = []\<rparr>"

lemma example_waiting_run: "example_waiting = timer_run example_env example_ops"
  by code_simp

lemma example_run: "rfold (strict_step example_env) (example_ops @ [Op_Tick]) TimerQueue_new = Inr example_queue"
  by code_simp

theorem timers_always_armed_witness:
  "fired example_queue \<or> (\<exists>now spec. armed example_queue = Some (now, spec) \<and> 0 < spec_ns spec \<and>
     now + spec_ns spec \<le> max (Min (expiration ` snd ` set (timers example_queue))) (now + 100000))"
  by (rule timers_always_armed [OF example_run]) (simp add: example_queue_def)

lemma example_env_ok: "env_ok example_env"
  by (auto simp: env_ok_def example_env_def timerfd_contract_def small_time_def small_interval_def call_ok_def min_def split: if_splits)

lemma example_tick_ready: "tick_ready example_env example_waiting"
  by (auto simp: tick_ready_def example_waiting_def timers_bounded_def example_env_def small_interval_def)

text \<open>
  Property C36. Every timer is called when it is due, once per round, and never early. After any sequence of additions, expirations
  of the descriptor and ticks, with handlers that may add timers and throw, differently on every call: (1) the one-shot timers added are,
  with multiplicity, those called, those in the queue and those lost; the repeating timers added are those in the
  queue and those lost; and every call was made later than the expiration of its timer. (2) A tick that does not throw
  calls exactly the timers that expire before the time it read at its start, each once, in the order of the queue, loses none, and leaves in the queue the timers
  not yet due, every repeating timer it called, due again one interval after that time, and
  the timers its handlers added. (3) A tick does not throw if the times
  are in range, no timer expires at the very nanosecond of the tick, no handler throws and none adds a timer without a handler,
  and \<open>timerfd_settime\<close> accepts normalised times. So timers are lost in a tick that throws only: the
  expired ones were taken out before.
\<close>

theorem timers_called_exactly_once:
  assumes "q = timer_run env ops"
  shows "(oneshots (added q) = oneshots (map fst (ticked q)) + oneshots (map snd (timers q)) + oneshots (lost q) \<and>
      repeats (added q) = repeats (map snd (timers q)) + repeats (lost q) \<and>
      (\<forall>(t, s) \<in> set (ticked q). expiration t < s)) \<and>
    (\<forall>q'. OnTick env True q = (q', None) \<longrightarrow>
      (let s = clock env (reads q); due = filter (\<lambda>t. expiration t < s) (map snd (timers q)) in
       ticked q' = ticked q @ map (\<lambda>t. (t, s)) due \<and> lost q' = lost q \<and>
       (\<exists>new. added q' = added q @ new \<and>
         mset (map snd (timers q')) = mset (filter (\<lambda>t. \<not> expiration t < s) (map snd (timers q))) +
           mset (map (\<lambda>t. t\<lparr>expiration := s + interval t * 1000\<rparr>) (filter (\<lambda>t. 0 < interval t) due)) + mset new))) \<and>
    (env_ok env \<and> tick_ready env q \<longrightarrow> (\<exists>q'. OnTick env True q = (q', None)))"
proof (intro conjI allI impI)
  have acc: "timers_acc [] q" unfolding assms by (rule timer_run_acc)
  then show "oneshots (added q) = oneshots (map fst (ticked q)) + oneshots (map snd (timers q)) + oneshots (lost q)"
    and "repeats (added q) = repeats (map snd (timers q)) + repeats (lost q)"
    and "\<forall>(t, s) \<in> set (ticked q). expiration t < s"
    by (simp_all add: timers_acc_def)
  show "\<exists>q'. OnTick env True q = (q', None)" if "env_ok env \<and> tick_ready env q"
    using OnTick_returns [OF acc] that by blast
  fix q' assume t: "OnTick env True q = (q', None)"
  have rep: "is_repeating = (\<lambda>t :: 'a timer. 0 < interval t)" by (simp add: fun_eq_iff is_repeating_def)
  have "again s = (\<lambda>t :: 'a timer. t\<lparr>expiration := s + interval t * 1000\<rparr>)" for s by (simp add: fun_eq_iff again_def)
  then show "let s = clock env (reads q); due = filter (\<lambda>t. expiration t < s) (map snd (timers q)) in
       ticked q' = ticked q @ map (\<lambda>t. (t, s)) due \<and> lost q' = lost q \<and>
       (\<exists>new. added q' = added q @ new \<and>
         mset (map snd (timers q')) = mset (filter (\<lambda>t. \<not> expiration t < s) (map snd (timers q))) +
           mset (map (\<lambda>t. t\<lparr>expiration := s + interval t * 1000\<rparr>) (filter (\<lambda>t. 0 < interval t) due)) + mset new)"
    using OnTick_done [OF t acc] unfolding Let_def rep by simp
qed

theorem timers_called_exactly_once_witness:
  "\<exists>q'. OnTick example_env True example_waiting = (q', None) \<and> map (timer_tick_handler \<circ> fst) (ticked q') = [2, 1] \<and> lost q' = []"
  using timers_called_exactly_once [OF example_waiting_run] example_env_ok example_tick_ready
  by (auto simp: Let_def example_waiting_def example_env_def)

text \<open>
  Fact. A handler that throws costs the timers that were due with it: here the first of two due timers throws. It was
  called, the other was not, and neither is in the queue any more.
\<close>

theorem throwing_handler_loses_timers:
  "let q = timer_run (example_env\<lparr>calls := (\<lambda>h n. ([], h = 2))\<rparr>) (example_ops @ [Op_Tick]) in
   map (timer_tick_handler \<circ> fst) (ticked q) = [2] \<and> map timer_tick_handler (lost q) = [2, 1] \<and> timers q = []"
  by code_simp

text \<open>
  Fact. A timer that expires exactly at the time of the tick makes the tick fail: \<open>ExtractExpired\<close>
  takes the timers before the time with \<open>lower_bound\<close>, and then checks that the next one expires
  strictly after it. No handler of the other due timers is called.
\<close>

theorem OnTick_fails_at_exact_expiration:
  assumes "keyed (timers q)" and "\<exists>e \<in> set (timers q). expiration (snd e) = clock env (reads q)"
  shows "\<exists>q'. OnTick env True q = (q', Some Ensure_failed) \<and> ticked q' = ticked q"
proof -
  let ?s = "clock env (reads q)" and ?rest = "dropWhile (\<lambda>e. fst e < clock env (reads q)) (timers q)"
  obtain e where e: "e \<in> set (timers q)" "fst e = ?s" using assms by (auto simp: keyed_def)
  have "e \<notin> set (takeWhile (\<lambda>e. fst e < ?s) (timers q))" using e(2) by (auto dest: set_takeWhileD)
  moreover have "set (timers q) = set (takeWhile (\<lambda>e. fst e < ?s) (timers q)) \<union> set ?rest"
    using arg_cong [OF takeWhile_dropWhile_id [of "\<lambda>e. fst e < ?s" "timers q"], of set] by (simp only: set_append)
  ultimately have "e \<in> set ?rest" using e(1) by blast
  then obtain x m where rest: "?rest = x # m" "e = x \<or> e \<in> set m" by (cases ?rest) auto
  moreover have "sorted (map fst ?rest)" using keyed_takeWhile(3) [OF assms(1), of ?s] unfolding keyed_def by blast
  ultimately have "\<not> ?s < fst x" using e(2) by auto
  then show ?thesis
    using rest(1) by (simp add: OnTick_def ExtractExpired_def ConsumeTimerFD_def Let_def del: dropWhile_eq_Nil_conv)
qed

theorem OnTick_fails_at_exact_expiration_witness:
  "\<exists>q'. OnTick (example_env\<lparr>clock := (\<lambda>n. 6000000)\<rparr>) True example_queue = (q', Some Ensure_failed) \<and> ticked q' = ticked example_queue"
  by (rule OnTick_fails_at_exact_expiration) (simp_all add: keyed_def example_queue_def example_env_def)

end
