(* ===== verification/Event_Loop.thy ===== *)
theory Event_Loop
  imports Simulation
begin

text \<open>
  The event loop (\<open>src/NetworkInfra/src/event_loop.cpp\<close>) as the thread that owns it and any other
  threads see it: tasks are queued under a mutex, and a thread that blocks in \<open>poll\<close> is woken through
  an event descriptor. Queueing a task and waking the loop are separate steps of a thread, the loop
  is at any of its phases meanwhile. The theory shows that every task runs once and in the order in
  which it was queued, that the loop never goes to sleep on a task or on a request to stop, and that
  a task queued by the loop's own thread outside of \<open>Run\<close> is the exception.
\<close>

section \<open>The loop\<close>

text \<open>A task is a client's function, or the addition of a timer that \<open>RunTaskAt\<close> binds.\<close>

datatype task = Task nat | Task_AddTimer "nat option" int int

text \<open>
  Where the owner thread is: outside \<open>Run\<close>; at the condition of its loop; in \<open>poll\<close>; calling the
  handlers of the active channels, the wake-up channel still among them or not; or running the
  tasks it has taken.
\<close>

datatype phase = Outside | Check | Polling | Dispatching bool | Executing "task list"

text \<open>
  \<open>wake_count\<close>: the counter of the event descriptor; \<open>wakers\<close> and \<open>quitters\<close>: other threads that have
  queued a task or called \<open>Quit\<close> and have not written to the descriptor yet. The last five fields are not the code's:
  what was queued, what was run from the queue, what \<open>RunTask\<close> ran at once, what the owner thread queued outside of \<open>Run\<close>
  since the loop last took tasks, and whether \<open>Quit\<close> was called since the last call of \<open>Run\<close>.
\<close>

record event_loop =
  is_running :: bool
  executing_pending_task :: bool
  pending_tasks :: "task list"
  at_phase :: phase
  wake_count :: nat
  wakers :: nat
  quitters :: nat
  queued :: "task list"
  executed :: "task list"
  immediate :: "task list"
  early :: "task list"
  asked :: bool

definition EventLoop_new :: event_loop where
  "EventLoop_new = \<lparr>is_running = False, executing_pending_task = False, pending_tasks = [], at_phase = Outside,
     wake_count = 0, wakers = 0, quitters = 0, queued = [], executed = [], immediate = [],
     early = [], asked = False\<rparr>"

text \<open>
  An event descriptor adds what is written to a 64-bit counter, whose largest value is
  \<open>2 ^ 64 - 2\<close>; reading takes the counter back to 0. Both fail instead of blocking.
\<close>

definition Wakeup :: "event_loop \<Rightarrow> event_loop res" where
  "Wakeup l =
     rbind (guard (wake_count l + 1 \<le> 2 ^ 64 - 2) Ensure_failed) (\<lambda>_. Inr (l\<lparr>wake_count := wake_count l + 1\<rparr>))"

definition OnWakeup :: "event_loop \<Rightarrow> event_loop res" where
  "OnWakeup l = rbind (guard (wake_count l \<noteq> 0) Ensure_failed) (\<lambda>_. Inr (l\<lparr>wake_count := 0\<rparr>))"

text \<open>The critical section of \<open>QueueTask\<close>, and the rest of it on the owner thread.\<close>

definition push_task :: "task \<Rightarrow> event_loop \<Rightarrow> event_loop" where
  "push_task t l = l\<lparr>pending_tasks := pending_tasks l @ [t], queued := queued l @ [t]\<rparr>"

definition QueueTask :: "task \<Rightarrow> event_loop \<Rightarrow> event_loop res" where
  "QueueTask t l = (let l = push_task t l in if executing_pending_task l then Wakeup l else Inr l)"

text \<open>On another thread the test short-circuits: the critical section, then \<open>Wakeup\<close>.\<close>

definition QueueTask_remote :: "task \<Rightarrow> event_loop \<Rightarrow> event_loop" where
  "QueueTask_remote t l = (push_task t l)\<lparr>wakers := wakers l + 1\<rparr>"

definition RunTask :: "bool \<Rightarrow> task \<Rightarrow> event_loop \<Rightarrow> event_loop" where
  "RunTask on_loop_thread t l =
     (if on_loop_thread then l\<lparr>immediate := immediate l @ [t]\<rparr> else QueueTask_remote t l)"

definition RunTaskAt :: "bool \<Rightarrow> int \<Rightarrow> nat option \<Rightarrow> event_loop \<Rightarrow> event_loop" where
  "RunTaskAt on_loop_thread time handler l = RunTask on_loop_thread (Task_AddTimer handler time 0) l"

definition RunTaskAfter :: "bool \<Rightarrow> int \<Rightarrow> int \<Rightarrow> nat option \<Rightarrow> event_loop \<Rightarrow> event_loop res" where
  "RunTaskAfter on_loop_thread now delay handler l =
     rbind (chk64 (delay * 1000)) (\<lambda>ns. rbind (chk64 (now + ns)) (\<lambda>time.
     Inr (RunTask on_loop_thread (Task_AddTimer handler time 0) l)))"

definition Quit :: "bool \<Rightarrow> event_loop \<Rightarrow> event_loop" where
  "Quit on_loop_thread l =
     (let l = l\<lparr>is_running := False, asked := True\<rparr> in if \<not> on_loop_thread then l\<lparr>quitters := quitters l + 1\<rparr> else l)"

definition Run_begin :: "event_loop \<Rightarrow> event_loop res" where
  "Run_begin l =
     rbind (guard (\<not> is_running l) Ensure_failed) (\<lambda>_. Inr (l\<lparr>is_running := True, at_phase := Check, asked := False\<rparr>))"

definition loop_condition :: "event_loop \<Rightarrow> event_loop" where
  "loop_condition l = l\<lparr>at_phase := (if is_running l then Polling else Outside)\<rparr>"

text \<open>\<open>poll\<close> returns: the wake-up channel is active when the counter is not 0.\<close>

definition poll_returns :: "event_loop \<Rightarrow> event_loop" where
  "poll_returns l = l\<lparr>at_phase := Dispatching (0 < wake_count l)\<rparr>"

definition ProcessPendingTasks_begin :: "event_loop \<Rightarrow> event_loop" where
  "ProcessPendingTasks_begin l =
     l\<lparr>executing_pending_task := True, at_phase := Executing (pending_tasks l), pending_tasks := [], early := []\<rparr>"

definition ProcessPendingTasks_next :: "task \<Rightarrow> task list \<Rightarrow> event_loop \<Rightarrow> event_loop" where
  "ProcessPendingTasks_next t ts l = l\<lparr>at_phase := Executing ts, executed := executed l @ [t]\<rparr>"

definition ProcessPendingTasks_end :: "event_loop \<Rightarrow> event_loop" where
  "ProcessPendingTasks_end l = l\<lparr>executing_pending_task := False, at_phase := Check\<rparr>"

text \<open>Client code runs on the owner thread inside handlers and tasks, and outside of \<open>Run\<close>.\<close>

definition in_callback :: "event_loop \<Rightarrow> bool" where
  "in_callback l \<longleftrightarrow> (case at_phase l of Dispatching _ \<Rightarrow> True | Executing _ \<Rightarrow> True | _ \<Rightarrow> False)"

inductive el_step :: "event_loop \<Rightarrow> event_loop \<Rightarrow> bool" where
  run: "at_phase l = Outside \<Longrightarrow> Run_begin l = Inr l' \<Longrightarrow> el_step l l'"
| condition: "at_phase l = Check \<Longrightarrow> el_step l (loop_condition l)"
| poll: "at_phase l = Polling \<Longrightarrow> el_step l (poll_returns l)"
| on_wakeup: "at_phase l = Dispatching True \<Longrightarrow> OnWakeup l = Inr l' \<Longrightarrow> el_step l (l'\<lparr>at_phase := Dispatching False\<rparr>)"
| process: "at_phase l = Dispatching False \<Longrightarrow> el_step l (ProcessPendingTasks_begin l)"
| run_next: "at_phase l = Executing (t # ts) \<Longrightarrow> el_step l (ProcessPendingTasks_next t ts l)"
| process_end: "at_phase l = Executing [] \<Longrightarrow> el_step l (ProcessPendingTasks_end l)"
| queue: "in_callback l \<Longrightarrow> QueueTask t l = Inr l' \<Longrightarrow> el_step l l'"
| run_here: "in_callback l \<Longrightarrow> el_step l (RunTask True t l)"
| quit: "in_callback l \<Longrightarrow> el_step l (Quit True l)"
| queue_outside: "at_phase l = Outside \<Longrightarrow> QueueTask t l = Inr l' \<Longrightarrow> el_step l (l'\<lparr>early := early l @ [t]\<rparr>)"
| run_outside: "at_phase l = Outside \<Longrightarrow> el_step l (RunTask True t l)"
| quit_outside: "at_phase l = Outside \<Longrightarrow> el_step l (Quit True l)"
| remote_queue: "el_step l (RunTask False t l)"
| remote_wake: "0 < wakers l \<Longrightarrow> Wakeup l = Inr l' \<Longrightarrow> el_step l (l'\<lparr>wakers := wakers l - 1\<rparr>)"
| remote_quit: "el_step l (Quit False l)"
| remote_quit_wake: "0 < quitters l \<Longrightarrow> Wakeup l = Inr l' \<Longrightarrow> el_step l (l'\<lparr>quitters := quitters l - 1\<rparr>)"

section \<open>Invariant\<close>

fun taken :: "phase \<Rightarrow> task list" where
  "taken (Executing ts) = ts"
| "taken _ = []"

fun is_dispatching :: "phase \<Rightarrow> bool" where
  "is_dispatching (Dispatching _) = True"
| "is_dispatching _ = False"

fun is_executing :: "phase \<Rightarrow> bool" where
  "is_executing (Executing _) = True"
| "is_executing _ = False"

definition el_inv :: "event_loop \<Rightarrow> bool" where
  "el_inv l \<longleftrightarrow>
     queued l = executed l @ taken (at_phase l) @ pending_tasks l \<and>
     (executing_pending_task l \<longleftrightarrow> is_executing (at_phase l)) \<and>
     (at_phase l = Dispatching True \<longrightarrow> 0 < wake_count l) \<and>
     (pending_tasks l \<noteq> early l \<and> \<not> is_dispatching (at_phase l) \<longrightarrow> 0 < wake_count l \<or> 0 < wakers l) \<and>
     (\<not> is_running l \<and> at_phase l = Polling \<longrightarrow> 0 < wake_count l \<or> 0 < quitters l) \<and>
     (at_phase l \<noteq> Outside \<longrightarrow> (is_running l \<longleftrightarrow> \<not> asked l))"

lemmas el_defs = Run_begin_def loop_condition_def poll_returns_def OnWakeup_def ProcessPendingTasks_begin_def
  ProcessPendingTasks_next_def ProcessPendingTasks_end_def QueueTask_def QueueTask_remote_def push_task_def
  RunTask_def Quit_def Wakeup_def in_callback_def

lemma el_step_inv: "el_step l l' \<Longrightarrow> el_inv l \<Longrightarrow> el_inv l'"
  by (induction rule: el_step.induct)
     (auto simp: el_inv_def el_defs fault_simps Let_def split: if_splits phase.splits)

interpretation el: invariant_system EventLoop_new el_step el_inv
proof unfold_locales
  show "el_inv EventLoop_new" by (simp add: el_inv_def EventLoop_new_def)
qed (rule el_step_inv)

section \<open>Properties\<close>

text \<open>
  Fact. Every task queued runs once and in the order of queueing: at any moment, under any interleaving
  of the loop with other threads, the tasks queued are those run, followed by those the loop has
  taken, followed by those pending; and reading the event descriptor never fails its check.
\<close>

theorem loop_runs_tasks_in_order:
  assumes "el_step\<^sup>*\<^sup>* EventLoop_new l"
  shows "queued l = executed l @ taken (at_phase l) @ pending_tasks l \<and>
    (at_phase l = Dispatching True \<longrightarrow> (\<exists>l'. OnWakeup l = Inr l'))"
  using el.reachable_law [OF assms] by (auto simp: el_inv_def OnWakeup_def)

text \<open>The loop runs; another thread has queued a task and not written to the descriptor yet.\<close>

definition example_loop :: event_loop where
  "example_loop = EventLoop_new\<lparr>is_running := True, at_phase := Polling, pending_tasks := [Task 1], queued := [Task 1], wakers := 1\<rparr>"

lemma example_loop_reachable: "el_step\<^sup>*\<^sup>* EventLoop_new example_loop"
proof -
  let ?l1 = "EventLoop_new\<lparr>is_running := True, at_phase := Check\<rparr>" and ?l2 = "EventLoop_new\<lparr>is_running := True, at_phase := Polling\<rparr>"
  have "el_step EventLoop_new ?l1" by (rule el_step.run) (simp_all add: el_defs EventLoop_new_def)
  moreover have "el_step ?l1 ?l2" using el_step.condition [of ?l1] by (simp add: el_defs)
  moreover have "el_step ?l2 example_loop"
    using el_step.remote_queue [of ?l2 "Task 1"] by (simp add: el_defs example_loop_def EventLoop_new_def)
  ultimately show ?thesis by (meson converse_rtranclp_into_rtranclp rtranclp.rtrancl_refl)
qed

theorem loop_runs_tasks_in_order_witness:
  "queued example_loop = executed example_loop @ taken (at_phase example_loop) @ pending_tasks example_loop"
  using loop_runs_tasks_in_order [OF example_loop_reachable] by simp

text \<open>
  Property C3. The loop blocks in \<open>poll\<close> only when there is nothing to do: in any state that its own thread and
  others can lead to, if the loop is there, the event descriptor is not readable and no other thread is on its way to write
  to it, then every task ever queued has been run, except those that the loop's own thread queued outside of
  \<open>Run\<close> since the loop last took tasks, and nobody has called \<open>Quit\<close> since the call of \<open>Run\<close>.
\<close>

theorem loop_sleeps_only_when_idle:
  assumes "el_step\<^sup>*\<^sup>* EventLoop_new l" and "at_phase l = Polling"
    and "wake_count l = 0" and "wakers l = 0" and "quitters l = 0"
  shows "executed l @ early l = queued l \<and> is_running l \<and> \<not> asked l"
  using el.reachable_law [OF assms(1)] assms(2-5) by (auto simp: el_inv_def)

lemma idle_loop_reachable: "el_step\<^sup>*\<^sup>* EventLoop_new (EventLoop_new\<lparr>is_running := True, at_phase := Polling\<rparr>)"
proof -
  let ?l1 = "EventLoop_new\<lparr>is_running := True, at_phase := Check\<rparr>" and ?l2 = "EventLoop_new\<lparr>is_running := True, at_phase := Polling\<rparr>"
  have "el_step EventLoop_new ?l1" by (rule el_step.run) (simp_all add: el_defs EventLoop_new_def)
  moreover have "el_step ?l1 ?l2" using el_step.condition [of ?l1] by (simp add: el_defs)
  ultimately show ?thesis by (meson converse_rtranclp_into_rtranclp rtranclp.rtrancl_refl)
qed

theorem loop_sleeps_only_when_idle_witness:
  "executed (EventLoop_new\<lparr>is_running := True, at_phase := Polling\<rparr>) = [] \<and>
   is_running (EventLoop_new\<lparr>is_running := True, at_phase := Polling\<rparr>)"
  using loop_sleeps_only_when_idle [OF idle_loop_reachable] by (simp add: EventLoop_new_def)

text \<open>Running the tasks that were taken.\<close>

lemma run_taken:
  "at_phase l = Executing ts \<Longrightarrow>
   el_step\<^sup>*\<^sup>* l (l\<lparr>at_phase := Executing [], executed := executed l @ ts\<rparr>)"
proof (induction ts arbitrary: l)
  case Nil
  then have "l\<lparr>at_phase := Executing [], executed := executed l @ []\<rparr> = l" by simp
  then show ?case by simp
next
  case (Cons t ts)
  let ?l = "ProcessPendingTasks_next t ts l"
  have "el_step l ?l" using Cons.prems by (rule el_step.run_next)
  moreover have "el_step\<^sup>*\<^sup>* ?l (?l\<lparr>at_phase := Executing [], executed := executed ?l @ ts\<rparr>)"
    by (rule Cons.IH) (simp add: el_defs)
  ultimately show ?case by (simp add: el_defs converse_rtranclp_into_rtranclp)
qed

text \<open>
  Fact. A woken loop runs all its tasks: from any reachable state in which the loop is in \<open>poll\<close> and the
  descriptor is readable, one turn of the owner thread alone, with no step of another thread, runs
  every task queued so far and comes back to the condition of the loop with the descriptor drained.
\<close>

theorem woken_loop_runs_all_tasks:
  assumes "el_step\<^sup>*\<^sup>* EventLoop_new l" and "at_phase l = Polling" and "0 < wake_count l"
  shows "\<exists>l'. el_step\<^sup>*\<^sup>* l l' \<and> at_phase l' = Check \<and> executed l' = queued l \<and> pending_tasks l' = [] \<and> wake_count l' = 0"
proof -
  let ?l2 = "l\<lparr>wake_count := 0, at_phase := Dispatching False\<rparr>"
  let ?l3 = "ProcessPendingTasks_begin ?l2"
  let ?l4 = "?l3\<lparr>at_phase := Executing [], executed := executed ?l3 @ pending_tasks l\<rparr>"
  have q: "queued l = executed l @ pending_tasks l"
    using el.reachable_law [OF assms(1)] assms(2) by (simp add: el_inv_def)
  have "el_step l (poll_returns l)" using assms(2) by (rule el_step.poll)
  moreover have "el_step (poll_returns l) ?l2"
    using el_step.on_wakeup [of "poll_returns l"] assms(3) by (simp add: el_defs)
  moreover have "el_step ?l2 ?l3" by (rule el_step.process) simp
  moreover have "el_step\<^sup>*\<^sup>* ?l3 ?l4" by (rule run_taken) (simp add: el_defs)
  moreover have "el_step ?l4 (ProcessPendingTasks_end ?l4)" by (rule el_step.process_end) simp
  ultimately have "el_step\<^sup>*\<^sup>* l (ProcessPendingTasks_end ?l4)"
    by (meson converse_rtranclp_into_rtranclp rtranclp.rtrancl_into_rtrancl)
  then show ?thesis using q by (intro exI conjI) (auto simp: el_defs)
qed

definition woken_loop :: event_loop where
  "woken_loop = example_loop\<lparr>wake_count := 1, wakers := 0\<rparr>"

lemma woken_loop_reachable: "el_step\<^sup>*\<^sup>* EventLoop_new woken_loop"
proof -
  have "el_step example_loop woken_loop"
    using el_step.remote_wake [of example_loop "example_loop\<lparr>wake_count := 1\<rparr>"]
    by (simp add: el_defs example_loop_def woken_loop_def EventLoop_new_def)
  then show ?thesis using example_loop_reachable by (rule rtranclp.rtrancl_into_rtrancl [rotated])
qed

theorem woken_loop_runs_all_tasks_witness: "\<exists>l'. el_step\<^sup>*\<^sup>* woken_loop l' \<and> executed l' = [Task 1]"
  using woken_loop_runs_all_tasks [OF woken_loop_reachable] by (auto simp: woken_loop_def example_loop_def EventLoop_new_def)

text \<open>
  Fact. The exception: a task that the owner thread queues before it calls \<open>Run\<close> does not wake the
  loop, which then blocks in \<open>poll\<close> with the task pending, until the time-out of ten seconds or some
  other event.
\<close>

theorem task_queued_before_run_sleeps:
  "\<exists>l. el_step\<^sup>*\<^sup>* EventLoop_new l \<and> at_phase l = Polling \<and> pending_tasks l = [Task 1] \<and>
     wake_count l = 0 \<and> wakers l = 0 \<and> quitters l = 0"
proof -
  let ?l1 = "(push_task (Task 1) EventLoop_new)\<lparr>early := [Task 1]\<rparr>"
  let ?l2 = "?l1\<lparr>is_running := True, at_phase := Check\<rparr>" and ?l3 = "?l1\<lparr>is_running := True, at_phase := Polling\<rparr>"
  have "el_step EventLoop_new ?l1"
    using el_step.queue_outside [of EventLoop_new "Task 1"] by (simp add: el_defs EventLoop_new_def)
  moreover have "el_step ?l1 ?l2"
    by (rule el_step.run) (simp_all add: el_defs EventLoop_new_def)
  moreover have "el_step ?l2 ?l3"
    using el_step.condition [of ?l2] by (simp add: el_defs)
  ultimately have "el_step\<^sup>*\<^sup>* EventLoop_new ?l3" by (meson converse_rtranclp_into_rtranclp rtranclp.rtrancl_refl)
  then show ?thesis by (intro exI [of _ ?l3]) (simp add: el_defs EventLoop_new_def)
qed

end
