(* ===== verification/Poller.thy ===== *)
theory Poller
  imports Simulation
begin

text \<open>
  Channels and the poller (\<open>src/NetworkInfra/src/channel.h\<close>, \<open>channel.cpp\<close>, \<open>poller.cpp\<close>). The poller
  keeps the array for \<open>poll\<close> and a table from descriptors to channels; a channel remembers its place
  in the array, and removal moves the last entry into the gap. Channels are objects in a store,
  named by their address. The theory shows that the two structures and the remembered places stay
  consistent, so that the poller refines a plain registry of descriptors; that \<open>Poll\<close> reports the
  channels the kernel named; and what happens to a channel that is enabled again after it was
  disabled.
\<close>

section \<open>Channels\<close>

definition POLLIN :: "32 word" where "POLLIN = 0x1"
definition POLLPRI :: "32 word" where "POLLPRI = 0x2"
definition POLLOUT :: "32 word" where "POLLOUT = 0x4"
definition POLLERR :: "32 word" where "POLLERR = 0x8"
definition POLLHUP :: "32 word" where "POLLHUP = 0x10"
definition POLLNVAL :: "32 word" where "POLLNVAL = 0x20"
definition POLLRDHUP :: "32 word" where "POLLRDHUP = 0x2000"

definition IOEvent_None :: "32 word" where "IOEvent_None = 0"
definition IOEvent_Read :: "32 word" where "IOEvent_Read = POLLIN OR POLLPRI"
definition IOEvent_Write :: "32 word" where "IOEvent_Write = POLLOUT"

datatype handler = Close_handler | Error_handler | Read_handler | Write_handler

record channel =
  ch_fd :: int
  events :: "32 word"
  received_events :: "32 word"
  ch_index :: int
  handling_events :: bool
  handlers :: "handler set"

definition Channel_new :: "int \<Rightarrow> channel" where
  "Channel_new fd = \<lparr>ch_fd = fd, events = IOEvent_None, received_events = IOEvent_None, ch_index = - 1,
     handling_events = False, handlers = {}\<rparr>"

definition none_event :: "channel \<Rightarrow> bool" where
  "none_event ch \<longleftrightarrow> events ch = IOEvent_None"

definition IsWritingEnabled :: "channel \<Rightarrow> bool" where
  "IsWritingEnabled ch \<longleftrightarrow> events ch AND IOEvent_Write \<noteq> 0"

text \<open>The handlers \<open>HandleEvents\<close> calls, in its order; a handler that is not set is skipped.\<close>

definition dispatch :: "channel \<Rightarrow> handler list" where
  "dispatch ch =
     (let r = received_events ch in filter (\<lambda>h. h \<in> handlers ch)
       ((if r AND POLLHUP \<noteq> 0 \<and> r AND POLLIN = 0 then [Close_handler] else []) @
        (if r AND (POLLERR OR POLLNVAL) \<noteq> 0 then [Error_handler] else []) @
        (if r AND (POLLIN OR POLLPRI OR POLLRDHUP) \<noteq> 0 then [Read_handler] else []) @
        (if r AND POLLOUT \<noteq> 0 then [Write_handler] else [])))"

text \<open>\<open>call\<close> runs a handler of the channel's owner; \<open>mark\<close> sets its \<open>handling_events_\<close>.\<close>

definition HandleEvents :: "(handler \<Rightarrow> 's \<Rightarrow> 's res) \<Rightarrow> (bool \<Rightarrow> 's \<Rightarrow> 's) \<Rightarrow> channel \<Rightarrow> 's \<Rightarrow> 's res" where
  "HandleEvents call mark ch s =
     rbind (rfold (\<lambda>s h. call h s) (dispatch ch) (mark True s)) (\<lambda>s. Inr (mark False s))"

text \<open>The destructor's check: a channel must not be destroyed by one of its own handlers.\<close>

definition Channel_destroy :: "channel \<Rightarrow> unit res" where
  "Channel_destroy ch = guard (\<not> handling_events ch) Ensure_failed"

section \<open>The poller\<close>

record pollfd =
  pfd_fd :: int
  pfd_events :: "16 word"
  revents :: "16 word"

record poller =
  pfds :: "pollfd list"
  channel_table :: "int \<rightharpoonup> nat"
  channels :: "nat \<rightharpoonup> channel"

definition Poller_new :: poller where
  "Poller_new = \<lparr>pfds = [], channel_table = Map.empty, channels = Map.empty\<rparr>"

definition deref :: "poller \<Rightarrow> nat \<Rightarrow> channel res" where
  "deref p ptr = (case channels p ptr of None \<Rightarrow> Inl Null_deref | Some ch \<Rightarrow> Inr ch)"

definition set_channel :: "nat \<Rightarrow> channel \<Rightarrow> poller \<Rightarrow> poller" where
  "set_channel ptr ch p = p\<lparr>channels := (channels p)(ptr \<mapsto> ch)\<rparr>"

text \<open>\<open>static_cast<int>\<close> of a \<open>size_t\<close>.\<close>

definition to_int32 :: "nat \<Rightarrow> int" where
  "to_int32 n = signed_take_bit 31 (int n)"

text \<open>\<open>pfd.fd = -pfd.fd - 1\<close>, its own inverse.\<close>

definition flip_fd :: "pollfd \<Rightarrow> pollfd res" where
  "flip_fd pfd = rbind (chk32 (- pfd_fd pfd)) (\<lambda>x. rbind (chk32 (x - 1)) (\<lambda>x. Inr (pfd\<lparr>pfd_fd := x\<rparr>)))"

definition UpdateChannel :: "nat \<Rightarrow> poller \<Rightarrow> poller res" where
  "UpdateChannel ptr p =
     rbind (deref p ptr) (\<lambda>ch.
     if channel_table p (ch_fd ch) \<noteq> None then
       rbind (guard (0 \<le> ch_index ch) Out_of_bounds) (\<lambda>_.
       rbind (at (pfds p) (nat (ch_index ch))) (\<lambda>pfd.
       let pfd = pfd\<lparr>pfd_events := ucast (events ch), revents := 0\<rparr> in
       rbind (if none_event ch then flip_fd pfd else Inr pfd) (\<lambda>pfd.
       Inr (p\<lparr>pfds := (pfds p)[nat (ch_index ch) := pfd]\<rparr>))))
     else
       let new_pfd = \<lparr>pfd_fd = ch_fd ch, pfd_events = ucast (events ch), revents = 0\<rparr>;
           p = p\<lparr>pfds := pfds p @ [new_pfd]\<rparr>;
           p = set_channel ptr (ch\<lparr>ch_index := to_int32 (length (pfds p) - 1)\<rparr>) p
       in Inr (p\<lparr>channel_table := (channel_table p)(ch_fd ch \<mapsto> ptr)\<rparr>))"

definition real_fd :: "int \<Rightarrow> int" where
  "real_fd victim_fd = (if victim_fd < 0 then - victim_fd - 1 else victim_fd)"

text \<open>\<open>operator[]\<close> of the table gives a null pointer for a descriptor that is not there.\<close>

definition RemoveChannel :: "nat \<Rightarrow> poller \<Rightarrow> poller res" where
  "RemoveChannel ptr p =
     rbind (deref p ptr) (\<lambda>ch.
     let index = ch_index ch in
     rbind (guard (0 \<le> index \<and> index < int (length (pfds p))) Ensure_failed) (\<lambda>_.
     rbind (guard (channel_table p (ch_fd ch) \<noteq> None) Ensure_failed) (\<lambda>_.
     let p = p\<lparr>channel_table := (channel_table p)(ch_fd ch := None)\<rparr> in
     if nat index = length (pfds p) - 1 then Inr (p\<lparr>pfds := butlast (pfds p)\<rparr>)
     else
       let back = last (pfds p); victim_fd = real_fd (pfd_fd back); pfd = pfds p ! nat index;
           p = p\<lparr>pfds := (pfds p)[nat index := back, length (pfds p) - 1 := pfd]\<rparr>
       in case channel_table p victim_fd of
            None \<Rightarrow> Inl Null_deref
          | Some v \<Rightarrow> rbind (deref p v) (\<lambda>victim.
              let p = set_channel v (victim\<lparr>ch_index := index\<rparr>) p in
              Inr (p\<lparr>pfds := butlast (pfds p)\<rparr>)))))"

text \<open>The loop of \<open>FillActiveChannels\<close> over the rest of the array.\<close>

fun fill_loop :: "pollfd list \<Rightarrow> int \<Rightarrow> nat list \<Rightarrow> poller \<Rightarrow> (nat list \<times> poller) res" where
  "fill_loop [] active_count chs p = Inr (chs, p)"
| "fill_loop (it # its) active_count chs p =
     (if active_count > 0 then
        if revents it \<noteq> 0 then
          case channel_table p (pfd_fd it) of
            None \<Rightarrow> Inl Ensure_failed
          | Some ptr \<Rightarrow>
              rbind (deref p ptr) (\<lambda>ch.
              rbind (guard (ch_fd ch = pfd_fd it) Ensure_failed) (\<lambda>_.
              fill_loop its (active_count - 1) (chs @ [ptr])
                (set_channel ptr (ch\<lparr>received_events := scast (revents it)\<rparr>) p)))
        else fill_loop its active_count chs p
      else Inr (chs, p))"

definition FillActiveChannels :: "int \<Rightarrow> nat list \<Rightarrow> poller \<Rightarrow> (nat list \<times> poller) res" where
  "FillActiveChannels active_count chs p = fill_loop (pfds p) active_count chs p"

text \<open>\<open>poll\<close> returns a count and overwrites the \<open>revents\<close> of the array; both are arguments.\<close>

definition set_revents :: "16 word list \<Rightarrow> pollfd list \<Rightarrow> pollfd list" where
  "set_revents rs ps = map (\<lambda>(pfd, r). pfd\<lparr>revents := r\<rparr>) (zip ps rs)"

definition Poll :: "int \<Rightarrow> 16 word list \<Rightarrow> nat list \<Rightarrow> poller \<Rightarrow> (nat list \<times> poller) res" where
  "Poll active_fd_count rs active_channels p =
     (let p = p\<lparr>pfds := set_revents rs (pfds p)\<rparr> in
      if active_fd_count \<le> 0 then Inr (active_channels, p)
      else FillActiveChannels active_fd_count active_channels p)"

text \<open>The switches of a channel: its events are changed, then the poller is told.\<close>

definition with_events :: "(32 word \<Rightarrow> 32 word) \<Rightarrow> nat \<Rightarrow> poller \<Rightarrow> poller res" where
  "with_events f ptr p =
     rbind (deref p ptr) (\<lambda>ch. UpdateChannel ptr (set_channel ptr (ch\<lparr>events := f (events ch)\<rparr>) p))"

definition EnableReading :: "nat \<Rightarrow> poller \<Rightarrow> poller res" where
  "EnableReading = with_events (\<lambda>e. e OR IOEvent_Read)"

definition EnableWriting :: "nat \<Rightarrow> poller \<Rightarrow> poller res" where
  "EnableWriting = with_events (\<lambda>e. e OR IOEvent_Write)"

definition DisableWriting :: "nat \<Rightarrow> poller \<Rightarrow> poller res" where
  "DisableWriting = with_events (\<lambda>e. e AND NOT IOEvent_Write)"

definition DisableAll :: "nat \<Rightarrow> poller \<Rightarrow> poller res" where
  "DisableAll = with_events (\<lambda>e. IOEvent_None)"

section \<open>The registry\<close>

text \<open>
  What the poller stands for: the descriptor and events of each channel object, and for each
  registered descriptor its channel and whether the kernel is told to ignore it. The registry is
  undefined where a client breaks the contract: a channel that does not exist, two channels for one
  descriptor, removal of one that is not registered, destruction of one that is.
\<close>

record registry =
  reg_channels :: "nat \<rightharpoonup> int \<times> 32 word"
  reg_fds :: "int \<rightharpoonup> nat \<times> bool"

datatype poller_op =
    Op_Create nat int
  | Op_EnableReading nat
  | Op_EnableWriting nat
  | Op_DisableWriting nat
  | Op_DisableAll nat
  | Op_Remove nat
  | Op_Destroy nat

definition reg_events :: "(32 word \<Rightarrow> 32 word) \<Rightarrow> nat \<Rightarrow> registry \<Rightarrow> registry option" where
  "reg_events f ptr a = (case reg_channels a ptr of
     None \<Rightarrow> None
   | Some (fd, e) \<Rightarrow>
       let chs = (reg_channels a)(ptr \<mapsto> (fd, f e)) in
       case reg_fds a fd of
         None \<Rightarrow> Some \<lparr>reg_channels = chs, reg_fds = (reg_fds a)(fd \<mapsto> (ptr, False))\<rparr>
       | Some (owner, ignored) \<Rightarrow>
           if owner = ptr
           then Some \<lparr>reg_channels = chs, reg_fds = (reg_fds a)(fd \<mapsto> (ptr, ignored \<noteq> (f e = 0)))\<rparr>
           else None)"

definition reg_owner :: "registry \<Rightarrow> nat \<Rightarrow> int \<Rightarrow> bool" where
  "reg_owner a ptr fd \<longleftrightarrow> (case reg_fds a fd of None \<Rightarrow> False | Some (owner, _) \<Rightarrow> owner = ptr)"

fun reg_step :: "registry \<Rightarrow> poller_op \<Rightarrow> registry option" where
  "reg_step a (Op_Create ptr fd) =
     (if reg_channels a ptr = None \<and> 0 \<le> fd \<and> fd < 2 ^ 31 - 1
      then Some (a\<lparr>reg_channels := (reg_channels a)(ptr \<mapsto> (fd, 0))\<rparr>) else None)"
| "reg_step a (Op_EnableReading ptr) = reg_events (\<lambda>e. e OR IOEvent_Read) ptr a"
| "reg_step a (Op_EnableWriting ptr) = reg_events (\<lambda>e. e OR IOEvent_Write) ptr a"
| "reg_step a (Op_DisableWriting ptr) = reg_events (\<lambda>e. e AND NOT IOEvent_Write) ptr a"
| "reg_step a (Op_DisableAll ptr) = reg_events (\<lambda>e. IOEvent_None) ptr a"
| "reg_step a (Op_Remove ptr) = (case reg_channels a ptr of
     None \<Rightarrow> None
   | Some (fd, e) \<Rightarrow> if reg_owner a ptr fd then Some (a\<lparr>reg_fds := (reg_fds a)(fd := None)\<rparr>) else None)"
| "reg_step a (Op_Destroy ptr) = (case reg_channels a ptr of
     None \<Rightarrow> None
   | Some (fd, e) \<Rightarrow>
       if reg_owner a ptr fd then None else Some (a\<lparr>reg_channels := (reg_channels a)(ptr := None)\<rparr>))"

fun poller_step :: "poller \<Rightarrow> poller_op \<Rightarrow> poller res" where
  "poller_step p (Op_Create ptr fd) = Inr (set_channel ptr (Channel_new fd) p)"
| "poller_step p (Op_EnableReading ptr) = EnableReading ptr p"
| "poller_step p (Op_EnableWriting ptr) = EnableWriting ptr p"
| "poller_step p (Op_DisableWriting ptr) = DisableWriting ptr p"
| "poller_step p (Op_DisableAll ptr) = DisableAll ptr p"
| "poller_step p (Op_Remove ptr) = RemoveChannel ptr p"
| "poller_step p (Op_Destroy ptr) =
     rbind (deref p ptr) (\<lambda>ch. rbind (Channel_destroy ch) (\<lambda>_. Inr (p\<lparr>channels := (channels p)(ptr := None)\<rparr>)))"

definition registry_of :: "poller \<Rightarrow> registry" where
  "registry_of p =
     \<lparr>reg_channels = (\<lambda>ptr. map_option (\<lambda>ch. (ch_fd ch, events ch)) (channels p ptr)),
      reg_fds = (\<lambda>fd. map_option (\<lambda>ptr. (ptr, pfd_fd (pfds p ! nat (ch_index (the (channels p ptr)))) < 0))
        (channel_table p fd))\<rparr>"

section \<open>Invariant\<close>

text \<open>A registered channel: it is in the table, and its place in the array is its own.\<close>

definition registered :: "poller \<Rightarrow> nat \<Rightarrow> channel \<Rightarrow> nat \<Rightarrow> bool" where
  "registered p ptr ch i \<longleftrightarrow> channels p ptr = Some ch \<and> channel_table p (ch_fd ch) = Some ptr \<and>
     ch_index ch = int i \<and> i < length (pfds p) \<and> real_fd (pfd_fd (pfds p ! i)) = ch_fd ch \<and>
     pfd_events (pfds p ! i) = ucast (events ch)"

definition poller_inv :: "nat \<Rightarrow> poller \<Rightarrow> bool" where
  "poller_inv n p \<longleftrightarrow> length (pfds p) \<le> n \<and>
     (\<forall>fd ptr. channel_table p fd = Some ptr \<longrightarrow> (\<exists>ch i. registered p ptr ch i \<and> ch_fd ch = fd)) \<and>
     (\<forall>i < length (pfds p). \<exists>ptr ch. registered p ptr ch i) \<and>
     (\<forall>ptr ch. channels p ptr = Some ch \<longrightarrow> 0 \<le> ch_fd ch \<and> ch_fd ch < 2 ^ 31 - 1 \<and> \<not> handling_events ch)"

lemma registered_unique:
  assumes "registered p a ca i" and "registered p b cb j"
  shows "a = b \<longleftrightarrow> i = j" and "a = b \<longleftrightarrow> ch_fd ca = ch_fd cb"
  using assms by (auto simp: registered_def)

lemma table_registered:
  "poller_inv n p \<Longrightarrow> channel_table p fd = Some b \<Longrightarrow> \<exists>cb j. registered p b cb j \<and> ch_fd cb = fd"
  by (simp add: poller_inv_def)

lemma place_registered: "poller_inv n p \<Longrightarrow> i < length (pfds p) \<Longrightarrow> \<exists>b cb. registered p b cb i"
  by (simp add: poller_inv_def)

lemma reg_fds_registered:
  "registered p ptr ch i \<Longrightarrow> reg_fds (registry_of p) (ch_fd ch) = Some (ptr, pfd_fd (pfds p ! i) < 0)"
  by (simp add: registered_def registry_of_def)

lemma to_int32_small: "n < 2 ^ 31 \<Longrightarrow> to_int32 n = int n"
  by (simp add: to_int32_def signed_take_bit_int_eq_self)

text \<open>A registered channel and its entry are replaced.\<close>

definition poke :: "nat \<Rightarrow> channel \<Rightarrow> nat \<Rightarrow> pollfd \<Rightarrow> poller \<Rightarrow> poller" where
  "poke ptr ch i pfd p = p\<lparr>channels := (channels p)(ptr \<mapsto> ch), pfds := (pfds p)[i := pfd]\<rparr>"

lemma poke_simps [simp]:
  "channels (poke ptr ch i pfd p) = (channels p)(ptr \<mapsto> ch)"
  "pfds (poke ptr ch i pfd p) = (pfds p)[i := pfd]"
  "channel_table (poke ptr ch i pfd p) = channel_table p"
  by (simp_all add: poke_def)

lemma registered_poke:
  assumes "registered p ptr ch i" and "ch_fd ch' = ch_fd ch" and "ch_index ch' = ch_index ch"
    and "real_fd (pfd_fd pfd) = ch_fd ch" and "pfd_events pfd = ucast (events ch')"
  shows "registered (poke ptr ch' i pfd p) ptr ch' i"
    and "registered p b cb j \<Longrightarrow> b \<noteq> ptr \<Longrightarrow> registered (poke ptr ch' i pfd p) b cb j"
  using assms registered_unique(1) [OF assms(1), of b cb j] by (auto simp: registered_def nth_list_update)

lemma poke_inv:
  assumes "poller_inv n p" and reg: "registered p ptr ch i"
    and "ch_fd ch' = ch_fd ch" and "ch_index ch' = ch_index ch" and "\<not> handling_events ch'"
    and "real_fd (pfd_fd pfd) = ch_fd ch" and "pfd_events pfd = ucast (events ch')"
  shows "poller_inv n (poke ptr ch' i pfd p)"
proof -
  note poke = registered_poke [OF reg assms(3,4,6,7)]
  have "\<exists>ch i'. registered (poke ptr ch' i pfd p) b ch i' \<and> ch_fd ch = fd" if tab: "channel_table p fd = Some b" for fd b
  proof -
    obtain cb j where b: "registered p b cb j" "ch_fd cb = fd" using table_registered [OF assms(1) tab] by blast
    show ?thesis
    proof (cases "b = ptr")
      case True
      then have "ch_fd ch' = fd" using b reg assms(3) by (auto simp: registered_def)
      then show ?thesis using poke(1) True by blast
    qed (use poke(2) b in blast)
  qed
  moreover have "\<exists>b cb. registered (poke ptr ch' i pfd p) b cb j" if len: "j < length (pfds p)" for j
  proof -
    obtain b cb where b: "registered p b cb j" using place_registered [OF assms(1) len] by blast
    then show ?thesis using poke(1) poke(2) [OF b] registered_unique(1) [OF reg b] by (cases "b = ptr") blast+
  qed
  moreover have "channels p ptr = Some ch" using reg by (simp add: registered_def)
  ultimately show ?thesis using assms(1,3,5) by (auto simp: poller_inv_def split: if_splits)
qed

lemma registry_poke:
  assumes "poller_inv n p" and reg: "registered p ptr ch i"
    and "ch_fd ch' = ch_fd ch" and "ch_index ch' = ch_index ch"
    and "real_fd (pfd_fd pfd) = ch_fd ch" and "pfd_events pfd = ucast (events ch')"
  shows "registry_of (poke ptr ch' i pfd p) =
    \<lparr>reg_channels = (reg_channels (registry_of p))(ptr \<mapsto> (ch_fd ch, events ch')),
     reg_fds = (reg_fds (registry_of p))(ch_fd ch \<mapsto> (ptr, pfd_fd pfd < 0))\<rparr>"
proof -
  let ?p = "poke ptr ch' i pfd p"
  note poke = registered_poke [OF reg assms(3-6)]
  have "reg_fds (registry_of ?p) fd = ((reg_fds (registry_of p))(ch_fd ch \<mapsto> (ptr, pfd_fd pfd < 0))) fd" for fd
  proof (cases "channel_table p fd")
    case None
    then show ?thesis using reg by (auto simp: registry_of_def registered_def)
  next
    case (Some b)
    then obtain cb j where b: "registered p b cb j" "ch_fd cb = fd" using table_registered [OF assms(1)] by blast
    show ?thesis
    proof (cases "b = ptr")
      case True
      then have "fd = ch_fd ch" using b reg by (auto simp: registered_def)
      then show ?thesis
        using reg_fds_registered [OF poke(1)] reg assms(3) by (simp add: registered_def)
    next
      case False
      then have "j \<noteq> i" "fd \<noteq> ch_fd ch" using registered_unique [OF b(1) reg] b(2) by auto
      then show ?thesis using reg_fds_registered [OF b(1)] reg_fds_registered [OF poke(2) [OF b(1) False]] b(2) by simp
    qed
  qed
  moreover have "reg_channels (registry_of ?p) = (reg_channels (registry_of p))(ptr \<mapsto> (ch_fd ch, events ch'))"
    using assms(3) by (auto simp: registry_of_def)
  ultimately show ?thesis by (auto intro!: registry.equality)
qed

lemma flip_fd_ok:
  assumes "real_fd (pfd_fd pfd) = fd" and "fd < 2 ^ 31 - 1"
  shows "flip_fd pfd = Inr (pfd\<lparr>pfd_fd := - pfd_fd pfd - 1\<rparr>)"
proof -
  have "in_i32 (- pfd_fd pfd)" "in_i32 (- pfd_fd pfd - 1)"
    using assms by (auto simp: real_fd_def in_i32_def split: if_splits)
  then show ?thesis by (simp add: flip_fd_def chk32_def)
qed

lemma real_fd_flip: "real_fd (- x - 1) = real_fd x"
  by (simp add: real_fd_def)

lemma update_registered:
  assumes inv: "poller_inv n p" and reg: "registered p ptr ch i"
  shows "\<exists>p'. UpdateChannel ptr (set_channel ptr (ch\<lparr>events := e\<rparr>) p) = Inr p' \<and> poller_inv n p' \<and>
    registry_of p' =
      \<lparr>reg_channels = (reg_channels (registry_of p))(ptr \<mapsto> (ch_fd ch, e)),
       reg_fds = (reg_fds (registry_of p))(ch_fd ch \<mapsto> (ptr, (pfd_fd (pfds p ! i) < 0) \<noteq> (e = 0)))\<rparr>"
proof -
  let ?ch = "ch\<lparr>events := e\<rparr>" and ?pfd = "(pfds p ! i)\<lparr>pfd_events := ucast e, revents := 0\<rparr>"
  define pfd where "pfd = (if e = 0 then ?pfd\<lparr>pfd_fd := - pfd_fd ?pfd - 1\<rparr> else ?pfd)"
  have ch: "ch_fd ch < 2 ^ 31 - 1" "\<not> handling_events ch"
    using inv reg by (auto simp: poller_inv_def registered_def)
  have real: "real_fd (pfd_fd ?pfd) = ch_fd ch" using reg by (simp add: registered_def)
  have "(if none_event ?ch then flip_fd ?pfd else Inr ?pfd) = Inr pfd"
    using flip_fd_ok [OF real ch(1)] by (cases "e = 0") (simp_all add: none_event_def IOEvent_None_def pfd_def)
  then have "UpdateChannel ptr (set_channel ptr ?ch p) = Inr (poke ptr ?ch i pfd p)"
    using reg by (simp add: UpdateChannel_def set_channel_def deref_def registered_def mem_simps poke_def)
  moreover have "real_fd (pfd_fd pfd) = ch_fd ch" "pfd_events pfd = ucast (events ?ch)"
    using real by (simp_all add: pfd_def real_fd_flip)
  moreover have "pfd_fd pfd < 0 \<longleftrightarrow> (pfd_fd (pfds p ! i) < 0) \<noteq> (e = 0)" by (auto simp: pfd_def)
  ultimately show ?thesis
    using poke_inv [OF inv reg, of ?ch pfd] registry_poke [OF inv reg, of ?ch pfd] ch(2) by simp
qed

lemma reg_fds_None: "channel_table p fd = None \<Longrightarrow> reg_fds (registry_of p) fd = None"
  by (simp add: registry_of_def)

lemma update_unregistered:
  assumes inv: "poller_inv n p" and "n < 2 ^ 31" and ch: "channels p ptr = Some ch" "channel_table p (ch_fd ch) = None"
  shows "\<exists>p'. UpdateChannel ptr (set_channel ptr (ch\<lparr>events := e\<rparr>) p) = Inr p' \<and> poller_inv (Suc n) p' \<and>
    registry_of p' =
      \<lparr>reg_channels = (reg_channels (registry_of p))(ptr \<mapsto> (ch_fd ch, e)),
       reg_fds = (reg_fds (registry_of p))(ch_fd ch \<mapsto> (ptr, False))\<rparr>"
proof -
  let ?i = "length (pfds p)"
  let ?ch = "ch\<lparr>events := e, ch_index := int ?i\<rparr>" and ?pfd = "\<lparr>pfd_fd = ch_fd ch, pfd_events = ucast e, revents = 0\<rparr>"
  let ?p = "p\<lparr>channels := (channels p)(ptr \<mapsto> ?ch), pfds := pfds p @ [?pfd],
      channel_table := (channel_table p)(ch_fd ch \<mapsto> ptr)\<rparr>"
  have other: "b \<noteq> ptr \<and> registered ?p b cb j \<and> j < ?i" if "registered p b cb j" for b cb j
    using that ch by (auto simp: registered_def nth_append)
  have fd: "0 \<le> ch_fd ch" "ch_fd ch < 2 ^ 31 - 1" "\<not> handling_events ch" "?i \<le> n" using inv ch(1) by (auto simp: poller_inv_def)
  have new: "registered ?p ptr ?ch ?i" using fd by (simp add: registered_def real_fd_def)
  have "UpdateChannel ptr (set_channel ptr (ch\<lparr>events := e\<rparr>) p) = Inr ?p"
    using ch(2) fd(4) assms(2) by (simp add: UpdateChannel_def set_channel_def deref_def Let_def to_int32_small)
  moreover have "poller_inv (Suc n) ?p"
  proof -
    have "\<exists>cb j. registered ?p b cb j \<and> ch_fd cb = fd" if tab: "channel_table ?p fd = Some b" for fd b
    proof (cases "fd = ch_fd ch")
      case False
      then show ?thesis using table_registered [OF inv, of fd b] tab other by force
    qed (use new tab in auto)
    moreover have "\<exists>b cb. registered ?p b cb j" if len: "j < length (pfds ?p)" for j
      using len new other place_registered [OF inv, of j] by (cases "j = ?i") force+
    ultimately show ?thesis using inv fd unfolding poller_inv_def by auto
  qed
  moreover have "reg_fds (registry_of ?p) fd = ((reg_fds (registry_of p))(ch_fd ch \<mapsto> (ptr, False))) fd" for fd
  proof (cases "fd = ch_fd ch")
    case True
    then show ?thesis using reg_fds_registered [OF new] fd(1) by simp
  next
    case False
    show ?thesis
    proof (cases "channel_table p fd")
      case None
      then show ?thesis using False reg_fds_None [of p fd] reg_fds_None [of ?p fd] by simp
    next
      case (Some b)
      then obtain cb j where b: "registered p b cb j" "ch_fd cb = fd" using table_registered [OF inv] by blast
      then show ?thesis
        using False other [OF b(1)] reg_fds_registered [OF b(1)] reg_fds_registered [of ?p b cb j] by (simp add: nth_append)
    qed
  qed
  moreover have "reg_channels (registry_of ?p) = (reg_channels (registry_of p))(ptr \<mapsto> (ch_fd ch, e))"
    by (auto simp: registry_of_def)
  ultimately show ?thesis by (intro exI [of _ ?p]) (auto intro!: registry.equality)
qed

text \<open>The array after \<open>RemoveChannel\<close>: the last entry has moved into place \<open>i\<close>.\<close>

definition without :: "nat \<Rightarrow> 'a list \<Rightarrow> 'a list" where
  "without i xs = butlast (xs[i := last xs])"

lemma without_simps:
  assumes "i < length xs"
  shows "length (without i xs) = length xs - 1"
    and "j < length xs - 1 \<Longrightarrow> without i xs ! j = (if j = i then last xs else xs ! j)"
  using assms by (auto simp: without_def nth_butlast nth_list_update)

definition taken_out :: "nat \<Rightarrow> nat \<Rightarrow> channel \<Rightarrow> nat \<Rightarrow> int \<Rightarrow> poller \<Rightarrow> poller" where
  "taken_out i v victim index fd p =
     p\<lparr>channel_table := (channel_table p)(fd := None), channels := (channels p)(v \<mapsto> victim\<lparr>ch_index := int index\<rparr>),
       pfds := without i (pfds p)\<rparr>"

lemma RemoveChannel_eq:
  assumes reg: "registered p ptr ch i" and vic: "registered p v victim (length (pfds p) - 1)"
  shows "RemoveChannel ptr p =
    Inr (if i = length (pfds p) - 1 then p\<lparr>channel_table := (channel_table p)(ch_fd ch := None), pfds := butlast (pfds p)\<rparr>
         else taken_out i v victim i (ch_fd ch) p)"
proof (cases "i = length (pfds p) - 1")
  case True
  moreover have "nat (int (length (pfds p)) - 1) = length (pfds p) - Suc 0" by arith
  moreover have "pfds p \<noteq> []" using reg by (auto simp: registered_def)
  ultimately show ?thesis using reg by (simp add: RemoveChannel_def deref_def registered_def Let_def)
next
  case False
  have ne: "pfds p \<noteq> []" using reg by (auto simp: registered_def)
  have "v \<noteq> ptr" using registered_unique(1) [OF vic reg] False by simp
  then have "ch_fd victim \<noteq> ch_fd ch" using registered_unique(2) [OF vic reg] by simp
  moreover have "real_fd (pfd_fd (last (pfds p))) = ch_fd victim"
    using vic ne by (simp add: registered_def last_conv_nth)
  moreover have "butlast ((pfds p)[i := last (pfds p), length (pfds p) - 1 := pfds p ! i]) = without i (pfds p)"
    using False by (simp add: without_def butlast_list_update)
  ultimately show ?thesis
    using reg vic False
    by (simp add: RemoveChannel_def deref_def registered_def Let_def set_channel_def taken_out_def)
qed

text \<open>
  What removal changes, and that every other registered channel stays registered, at its place or,
  if it was the last, at the place that became free.
\<close>

definition removed :: "poller \<Rightarrow> nat \<Rightarrow> channel \<Rightarrow> nat \<Rightarrow> nat \<Rightarrow> channel \<Rightarrow> poller \<Rightarrow> bool" where
  "removed p ptr ch i v victim p' \<longleftrightarrow> registered p ptr ch i \<and> registered p v victim (length (pfds p) - 1) \<and>
     channel_table p' = (channel_table p)(ch_fd ch := None) \<and> pfds p' = without i (pfds p) \<and>
     channels p' = (if i = length (pfds p) - 1 then channels p else (channels p)(v \<mapsto> victim\<lparr>ch_index := int i\<rparr>))"

lemma RemoveChannel_removed:
  assumes "poller_inv n p" and reg: "registered p ptr ch i"
  shows "\<exists>p' v victim. RemoveChannel ptr p = Inr p' \<and> removed p ptr ch i v victim p'"
proof -
  have "length (pfds p) - 1 < length (pfds p)" using reg by (auto simp: registered_def)
  then obtain v victim where vic: "registered p v victim (length (pfds p) - 1)"
    using place_registered [OF assms(1)] by blast
  from RemoveChannel_eq [OF reg this] show ?thesis
    using vic reg by (auto simp: removed_def taken_out_def without_def butlast_list_update split: if_splits)
qed

lemma removed_moves:
  assumes rem: "removed p ptr ch i v victim p'" and b: "registered p b cb j" "b \<noteq> ptr"
  shows "\<exists>cb'. registered p' b cb' (if j = length (pfds p) - 1 then i else j) \<and> ch_fd cb' = ch_fd cb \<and>
    pfds p' ! (if j = length (pfds p) - 1 then i else j) = pfds p ! j"
proof -
  from rem have reg: "registered p ptr ch i" and vic: "registered p v victim (length (pfds p) - 1)"
    and tab: "channel_table p' = (channel_table p)(ch_fd ch := None)" and pfds: "pfds p' = without i (pfds p)"
    and chans: "channels p' = (if i = length (pfds p) - 1 then channels p else (channels p)(v \<mapsto> victim\<lparr>ch_index := int i\<rparr>))"
    by (simp_all add: removed_def)
  have i: "i < length (pfds p)" and ne: "pfds p \<noteq> []" and j: "j \<noteq> i" "ch_fd cb \<noteq> ch_fd ch" "j < length (pfds p)"
    using registered_unique [OF b(1) reg] b reg by (auto simp: registered_def)
  show ?thesis
  proof (cases "j = length (pfds p) - 1")
    case True
    then have "b = v" using registered_unique(1) [OF b(1) vic] by blast
    moreover have "channels p b = Some cb" "channels p v = Some victim" using b(1) vic by (simp_all add: registered_def)
    ultimately have "cb = victim" by simp
    have lt: "i < length (pfds p) - 1" "i < length (pfds p')" using i j True by (simp_all add: pfds without_simps(1) [OF i])
    have "pfds p' ! i = last (pfds p)" using without_simps(2) [OF i lt(1)] by (simp add: pfds)
    then have nth: "pfds p' ! i = pfds p ! j" using ne True by (simp add: last_conv_nth)
    have "channels p' b = Some (cb\<lparr>ch_index := int i\<rparr>)"
      using lt(1) chans \<open>b = v\<close> \<open>cb = victim\<close> by simp
    then have "registered p' b (cb\<lparr>ch_index := int i\<rparr>) i \<and> pfds p' ! i = pfds p ! j"
      using b(1) j(2) nth lt(2) by (simp add: registered_def tab)
    then show ?thesis using True by (intro exI [of _ "cb\<lparr>ch_index := int i\<rparr>"]) simp
  next
    case False
    then have "b \<noteq> v" "j < length (pfds p) - 1" using registered_unique(1) [OF b(1) vic] j by auto
    then have "registered p' b cb j \<and> pfds p' ! j = pfds p ! j"
      using b(1) j by (auto simp: registered_def tab pfds chans without_simps [OF i])
    then show ?thesis using False by auto
  qed
qed

lemma removed_table:
  assumes "poller_inv n p" and rem: "removed p ptr ch i v victim p'" and "channel_table p' fd = Some b"
  shows "\<exists>cb j. registered p b cb j \<and> ch_fd cb = fd \<and> b \<noteq> ptr"
proof -
  have fd: "fd \<noteq> ch_fd ch" "channel_table p fd = Some b" using rem assms(3) by (auto simp: removed_def split: if_splits)
  then obtain cb j where b: "registered p b cb j" "ch_fd cb = fd" using table_registered [OF assms(1)] by blast
  moreover have "registered p ptr ch i" using rem by (simp add: removed_def)
  ultimately show ?thesis using registered_unique(2) [OF b(1)] fd(1) by blast
qed

lemma removed_inv:
  assumes inv: "poller_inv n p" and rem: "removed p ptr ch i v victim p'"
  shows "poller_inv n p'"
proof -
  let ?l = "length (pfds p) - 1"
  have reg: "registered p ptr ch i" and vic: "registered p v victim ?l" and pfds: "pfds p' = without i (pfds p)"
    using rem by (simp_all add: removed_def)
  have i: "i < length (pfds p)" using reg by (simp add: registered_def)
  have "\<exists>cb j. registered p' b cb j \<and> ch_fd cb = fd" if "channel_table p' fd = Some b" for fd b
    using removed_table [OF inv rem that] removed_moves [OF rem] by blast
  moreover have "\<exists>b cb. registered p' b cb j" if len: "j < length (pfds p')" for j
  proof -
    have j: "j < ?l" using len by (simp add: pfds without_simps(1) [OF i])
    define k where "k = (if j = i then ?l else j)"
    then have "k < length (pfds p)" "k \<noteq> i" "(if k = ?l then i else k) = j" using i j by auto
    moreover from this obtain b cb where b: "registered p b cb k" using place_registered [OF inv] by blast
    ultimately show ?thesis using removed_moves [OF rem b] registered_unique(1) [OF b reg] by metis
  qed
  moreover have "0 \<le> ch_fd c \<and> ch_fd c < 2 ^ 31 - 1 \<and> \<not> handling_events c" if "channels p' b = Some c" for b c
    using that inv vic rem unfolding poller_inv_def by (auto simp: removed_def registered_def split: if_splits)
  moreover have "length (pfds p') \<le> n" using inv by (auto simp: pfds without_simps(1) [OF i] poller_inv_def)
  ultimately show ?thesis by (simp add: poller_inv_def)
qed

lemma remove_registered:
  assumes inv: "poller_inv n p" and reg: "registered p ptr ch i"
  shows "\<exists>p'. RemoveChannel ptr p = Inr p' \<and> poller_inv n p' \<and>
    registry_of p' = (registry_of p)\<lparr>reg_fds := (reg_fds (registry_of p))(ch_fd ch := None)\<rparr>"
proof -
  obtain p' v victim where p': "RemoveChannel ptr p = Inr p'" and rem: "removed p ptr ch i v victim p'"
    using RemoveChannel_removed [OF inv reg] by blast
  have "reg_fds (registry_of p') fd = ((reg_fds (registry_of p))(ch_fd ch := None)) fd" for fd
  proof (cases "channel_table p' fd")
    case None
    then show ?thesis
      using rem reg_fds_None [of p' fd] reg_fds_None [of p fd] by (auto simp: removed_def split: if_splits)
  next
    case (Some b)
    then obtain cb j where b: "registered p b cb j" "ch_fd cb = fd" "b \<noteq> ptr"
      using removed_table [OF inv rem] by blast
    obtain cb' j' where b': "registered p' b cb' j'" "ch_fd cb' = fd" "pfds p' ! j' = pfds p ! j"
      using removed_moves [OF rem b(1,3)] b(2) by blast
    have "fd \<noteq> ch_fd ch" using b registered_unique(2) [OF b(1) reg] by simp
    then show ?thesis using reg_fds_registered [OF b(1)] reg_fds_registered [OF b'(1)] b b' by simp
  qed
  moreover have "reg_channels (registry_of p') = reg_channels (registry_of p)"
    using rem by (auto simp: registry_of_def removed_def registered_def fun_eq_iff)
  ultimately show ?thesis using p' removed_inv [OF inv rem] by (auto intro!: registry.equality)
qed

text \<open>An object that is not registered may come and go.\<close>

lemma set_unregistered:
  assumes inv: "poller_inv n p" and free: "\<And>fd. channel_table p fd \<noteq> Some ptr"
    and x: "\<And>ch. x = Some ch \<Longrightarrow> 0 \<le> ch_fd ch \<and> ch_fd ch < 2 ^ 31 - 1 \<and> \<not> handling_events ch"
  shows "poller_inv n (p\<lparr>channels := (channels p)(ptr := x)\<rparr>)"
    and "reg_fds (registry_of (p\<lparr>channels := (channels p)(ptr := x)\<rparr>)) = reg_fds (registry_of p)"
proof -
  let ?p = "p\<lparr>channels := (channels p)(ptr := x)\<rparr>"
  have reg: "registered p b cb j \<Longrightarrow> registered ?p b cb j \<and> b \<noteq> ptr" for b cb j
    using free by (auto simp: registered_def)
  have "\<exists>cb j. registered ?p b cb j \<and> ch_fd cb = fd" if "channel_table p fd = Some b" for fd b
    using table_registered [OF inv that] reg by blast
  moreover have "\<exists>b cb. registered ?p b cb j" if "j < length (pfds p)" for j
    using place_registered [OF inv that] reg by blast
  ultimately show "poller_inv n ?p"
    using inv x by (auto simp: poller_inv_def split: if_splits)
  have "reg_fds (registry_of ?p) fd = reg_fds (registry_of p) fd" for fd
    using free [of fd] by (cases "channel_table p fd") (auto simp: registry_of_def)
  then show "reg_fds (registry_of ?p) = reg_fds (registry_of p)" by blast
qed

lemma poller_inv_mono: "poller_inv n p \<Longrightarrow> n \<le> m \<Longrightarrow> poller_inv m p"
  by (auto simp: poller_inv_def)

lemma registry_channel_iff:
  "reg_channels (registry_of p) ptr = Some (fd, e) \<longleftrightarrow> (\<exists>ch. channels p ptr = Some ch \<and> ch_fd ch = fd \<and> events ch = e)"
  by (auto simp: registry_of_def)

lemma reg_owner_registered:
  assumes "poller_inv n p" and "channels p ptr = Some ch"
  shows "reg_owner (registry_of p) ptr (ch_fd ch) \<longleftrightarrow> (\<exists>i. registered p ptr ch i)"
proof (cases "channel_table p (ch_fd ch)")
  case None
  then show ?thesis using reg_fds_None [of p] by (auto simp: reg_owner_def registered_def)
next
  case (Some b)
  then obtain cb j where b: "registered p b cb j" "ch_fd cb = ch_fd ch" using table_registered [OF assms(1)] by blast
  then show ?thesis
    using reg_fds_registered [OF b(1)] assms(2) by (cases "b = ptr") (auto simp: reg_owner_def registered_def)
qed

lemma not_owner_free:
  assumes inv: "poller_inv n p" and ch: "channels p ptr = Some ch" and "\<not> reg_owner (registry_of p) ptr (ch_fd ch)"
  shows "channel_table p fd \<noteq> Some ptr"
proof
  assume tab: "channel_table p fd = Some ptr"
  then obtain cb j where "registered p ptr cb j" using table_registered [OF inv] by blast
  moreover from this have "cb = ch" using ch by (simp add: registered_def)
  ultimately show False using reg_owner_registered [OF inv ch] assms(3) by blast
qed

lemma with_events_sim:
  assumes inv: "poller_inv n p" and "n < 2 ^ 31" and a: "reg_events f ptr (registry_of p) = Some a"
  shows "\<exists>p'. with_events f ptr p = Inr p' \<and> poller_inv (Suc n) p' \<and> registry_of p' = a"
proof -
  obtain ch where ch: "channels p ptr = Some ch"
    using a by (auto simp: reg_events_def registry_of_def split: option.splits)
  then have reg_ch: "reg_channels (registry_of p) ptr = Some (ch_fd ch, events ch)" by (simp add: registry_of_def)
  have eq: "with_events f ptr p = UpdateChannel ptr (set_channel ptr (ch\<lparr>events := f (events ch)\<rparr>) p)"
    using ch by (simp add: with_events_def deref_def)
  show ?thesis
  proof (cases "channel_table p (ch_fd ch)")
    case None
    then show ?thesis
      using update_unregistered [OF inv assms(2) ch None, of "f (events ch)"] eq a reg_ch reg_fds_None [OF None]
      by (simp add: reg_events_def Let_def)
  next
    case (Some b)
    then have "reg_owner (registry_of p) ptr (ch_fd ch)"
      using a reg_ch by (auto simp: reg_events_def reg_owner_def registry_of_def Let_def split: if_splits)
    then obtain i where reg: "registered p ptr ch i" using reg_owner_registered [OF inv ch] by blast
    from update_registered [OF inv reg, of "f (events ch)"] obtain p' where
      p': "with_events f ptr p = Inr p'" "poller_inv n p'" "registry_of p' =
        \<lparr>reg_channels = (reg_channels (registry_of p))(ptr \<mapsto> (ch_fd ch, f (events ch))),
         reg_fds = (reg_fds (registry_of p))(ch_fd ch \<mapsto> (ptr, (pfd_fd (pfds p ! i) < 0) \<noteq> (f (events ch) = 0)))\<rparr>"
      unfolding eq by blast
    moreover from this(3) have "registry_of p' = a"
      using a reg_ch reg_fds_registered [OF reg] by (simp add: reg_events_def Let_def)
    ultimately show ?thesis using poller_inv_mono [OF p'(2), of "Suc n"] by auto
  qed
qed

lemma poller_step_sim:
  assumes inv: "poller_inv n p" and n: "n < 2 ^ 31" and a: "reg_step (registry_of p) op = Some a"
  shows "\<exists>p'. poller_step p op = Inr p' \<and> poller_inv (Suc n) p' \<and> registry_of p' = a"
proof (cases op)
  case (Op_Create ptr fd)
  then have c: "channels p ptr = None" "0 \<le> fd" "fd < 2 ^ 31 - 1"
      "a = (registry_of p)\<lparr>reg_channels := (reg_channels (registry_of p))(ptr \<mapsto> (fd, 0))\<rparr>"
    using a by (auto simp: registry_of_def split: if_splits)
  have "channel_table p fd' \<noteq> Some ptr" for fd'
    using c(1) table_registered [OF inv, of fd' ptr] by (auto simp: registered_def)
  from set_unregistered [OF inv this, of "Some (Channel_new fd)"] have
    "poller_inv n (set_channel ptr (Channel_new fd) p) \<and> registry_of (set_channel ptr (Channel_new fd) p) = a"
    using c(2-4) by (auto simp: set_channel_def Channel_new_def registry_of_def IOEvent_None_def)
  then show ?thesis using Op_Create poller_inv_mono [of n _ "Suc n"] by auto
next
  case (Op_Remove ptr)
  then obtain ch where ch: "channels p ptr = Some ch" "reg_owner (registry_of p) ptr (ch_fd ch)"
      "a = (registry_of p)\<lparr>reg_fds := (reg_fds (registry_of p))(ch_fd ch := None)\<rparr>"
    using a by (auto simp: registry_channel_iff split: option.splits if_splits)
  then obtain i where "registered p ptr ch i" using reg_owner_registered [OF inv] by blast
  from remove_registered [OF inv this] show ?thesis
    using Op_Remove ch(3) poller_inv_mono [of n _ "Suc n"] by auto
next
  case (Op_Destroy ptr)
  then obtain ch where ch: "channels p ptr = Some ch" "\<not> reg_owner (registry_of p) ptr (ch_fd ch)"
      "a = (registry_of p)\<lparr>reg_channels := (reg_channels (registry_of p))(ptr := None)\<rparr>"
    using a by (auto simp: registry_channel_iff split: option.splits if_splits)
  note free = set_unregistered [OF inv not_owner_free [OF inv ch(1,2)], of None]
  moreover have "\<not> handling_events ch" using inv ch(1) by (simp add: poller_inv_def)
  moreover have "registry_of (p\<lparr>channels := (channels p)(ptr := None)\<rparr>) = a"
    using free(2) ch(3) by (auto simp: registry_of_def)
  ultimately show ?thesis
    using Op_Destroy ch(1) poller_inv_mono [of n _ "Suc n"] by (auto simp: deref_def Channel_destroy_def)
qed (use with_events_sim [OF inv n] a in \<open>simp_all add: EnableReading_def EnableWriting_def DisableWriting_def DisableAll_def\<close>)

text \<open>The steps of a registered channel, in terms of the registry.\<close>

lemma registry_registered:
  assumes inv: "poller_inv n p" and "reg_channels (registry_of p) a = Some (fd, e)" and "reg_fds (registry_of p) fd = Some (a, ign)"
  obtains ch i where "registered p a ch i" and "ch_fd ch = fd" and "events ch = e" and "pfd_fd (pfds p ! i) < 0 \<longleftrightarrow> ign"
proof -
  obtain ch where ch: "channels p a = Some ch" "ch_fd ch = fd" "events ch = e" using assms(2) by (auto simp: registry_channel_iff)
  then obtain i where reg: "registered p a ch i"
    using reg_owner_registered [OF inv ch(1)] assms(3) by (auto simp: reg_owner_def)
  then show ?thesis using that ch reg_fds_registered [OF reg] assms(3) by auto
qed

lemma with_events_registered:
  assumes inv: "poller_inv n p" and ch: "reg_channels (registry_of p) a = Some (fd, e)" and "reg_fds (registry_of p) fd = Some (a, ign)"
  shows "\<exists>p'. with_events f a p = Inr p' \<and> poller_inv n p' \<and> registry_of p' =
    \<lparr>reg_channels = (reg_channels (registry_of p))(a \<mapsto> (fd, f e)), reg_fds = (reg_fds (registry_of p))(fd \<mapsto> (a, ign \<noteq> (f e = 0)))\<rparr>"
proof -
  from assms obtain c i where reg: "registered p a c i" "ch_fd c = fd" "events c = e" "pfd_fd (pfds p ! i) < 0 \<longleftrightarrow> ign"
    by (rule registry_registered)
  have "with_events f a p = UpdateChannel a (set_channel a (c\<lparr>events := f e\<rparr>) p)"
    using reg by (simp add: with_events_def deref_def registered_def)
  then show ?thesis using update_registered [OF inv reg(1), of "f e"] reg(2-4) by simp
qed

lemma RemoveChannel_registered:
  assumes inv: "poller_inv n p" and ch: "reg_channels (registry_of p) a = Some (fd, e)" and "reg_fds (registry_of p) fd = Some (a, ign)"
  shows "\<exists>p'. RemoveChannel a p = Inr p' \<and> poller_inv n p' \<and>
    registry_of p' = (registry_of p)\<lparr>reg_fds := (reg_fds (registry_of p))(fd := None)\<rparr>"
proof -
  from assms obtain c i where "registered p a c i" "ch_fd c = fd" by (rule registry_registered)
  then show ?thesis using remove_registered [OF inv] by blast
qed

interpretation pl: simulation poller_inv registry_of poller_step reg_step "2 ^ 31"
  by unfold_locales (rule poller_step_sim)

section \<open>What the kernel is asked and what it reports\<close>

definition kernel_watches :: "poller \<Rightarrow> (int \<times> 16 word) set" where
  "kernel_watches p = {(pfd_fd e, pfd_events e) | e. e \<in> set (pfds p) \<and> 0 \<le> pfd_fd e}"

definition reg_watches :: "registry \<Rightarrow> (int \<times> 16 word) set" where
  "reg_watches a = {(fd, ucast e) | fd e ptr. reg_fds a fd = Some (ptr, False) \<and> reg_channels a ptr = Some (fd, e)}"

lemma real_fd_nonneg: "0 \<le> x \<Longrightarrow> real_fd x = x"
  by (simp add: real_fd_def)

lemma kernel_watches_iff:
  "(fd, e) \<in> kernel_watches p \<longleftrightarrow> (\<exists>i < length (pfds p). pfd_fd (pfds p ! i) = fd \<and> pfd_events (pfds p ! i) = e \<and> 0 \<le> fd)"
  by (auto simp: kernel_watches_def in_set_conv_nth)

lemma kernel_watches_registry:
  assumes inv: "poller_inv n p"
  shows "kernel_watches p = reg_watches (registry_of p)"
proof -
  have "(fd, e) \<in> kernel_watches p \<longleftrightarrow> (fd, e) \<in> reg_watches (registry_of p)" for fd e
  proof
    assume "(fd, e) \<in> kernel_watches p"
    then obtain i where i: "i < length (pfds p)" "pfd_fd (pfds p ! i) = fd" "pfd_events (pfds p ! i) = e" "0 \<le> fd"
      by (auto simp: kernel_watches_iff)
    then obtain ptr ch where reg: "registered p ptr ch i" using place_registered [OF inv] by blast
    then have "ch_fd ch = fd" "e = ucast (events ch)" using i by (auto simp: registered_def real_fd_nonneg)
    moreover have "reg_channels (registry_of p) ptr = Some (ch_fd ch, events ch)"
      using reg by (auto simp: registry_channel_iff registered_def)
    ultimately show "(fd, e) \<in> reg_watches (registry_of p)"
      using reg_fds_registered [OF reg] i by (auto simp: reg_watches_def)
  next
    assume "(fd, e) \<in> reg_watches (registry_of p)"
    then obtain ev ptr where ev: "reg_fds (registry_of p) fd = Some (ptr, False)" "e = ucast ev"
        "reg_channels (registry_of p) ptr = Some (fd, ev)" by (auto simp: reg_watches_def)
    then have "channel_table p fd = Some ptr" by (auto simp: registry_of_def)
    then obtain ch i where reg: "registered p ptr ch i" "ch_fd ch = fd" using table_registered [OF inv] by blast
    then have "\<not> pfd_fd (pfds p ! i) < 0" using reg_fds_registered [OF reg(1)] ev(1) by simp
    then show "(fd, e) \<in> kernel_watches p"
      using reg ev(2,3) by (auto simp: kernel_watches_iff registered_def registry_channel_iff real_fd_def)
  qed
  then show ?thesis by auto
qed

lemma distinct_fds:
  assumes inv: "poller_inv n p"
  shows "distinct (map (real_fd \<circ> pfd_fd) (pfds p))"
proof (unfold distinct_conv_nth length_map, intro allI impI)
  fix i j
  assume ij: "i < length (pfds p)" "j < length (pfds p)" "i \<noteq> j"
  then obtain a ca b cb where "registered p a ca i" "registered p b cb j" using place_registered [OF inv] by metis
  then show "map (real_fd \<circ> pfd_fd) (pfds p) ! i \<noteq> map (real_fd \<circ> pfd_fd) (pfds p) ! j"
    using registered_unique [of p a ca i b cb j] ij by (simp add: registered_def)
qed

text \<open>Storing the events the kernel reported for one entry.\<close>

definition deliver :: "pollfd \<Rightarrow> poller \<Rightarrow> poller" where
  "deliver it p = (case channel_table p (pfd_fd it) of
     None \<Rightarrow> p
   | Some ptr \<Rightarrow> set_channel ptr ((the (channels p ptr))\<lparr>received_events := scast (revents it)\<rparr>) p)"

definition reportable :: "poller \<Rightarrow> pollfd \<Rightarrow> bool" where
  "reportable p it \<longleftrightarrow> (\<exists>ptr ch. channel_table p (pfd_fd it) = Some ptr \<and> channels p ptr = Some ch \<and> ch_fd ch = pfd_fd it)"

lemma deliver_simps [simp]:
  "channel_table (deliver it p) = channel_table p"
  "pfds (deliver it p) = pfds p"
  by (auto simp: deliver_def set_channel_def split: option.split)

lemma reportable_deliver: "reportable p it \<Longrightarrow> reportable p it' \<Longrightarrow> reportable (deliver it' p) it"
  by (auto simp: reportable_def deliver_def set_channel_def)

lemma fill_loop_eq:
  assumes "\<forall>it \<in> set its. revents it \<noteq> 0 \<longrightarrow> reportable p it" and "cnt = int (length (filter (\<lambda>it. revents it \<noteq> 0) its))"
  shows "fill_loop its cnt chs p =
    Inr (chs @ map (\<lambda>it. the (channel_table p (pfd_fd it))) (filter (\<lambda>it. revents it \<noteq> 0) its),
         fold deliver (filter (\<lambda>it. revents it \<noteq> 0) its) p)"
  using assms
proof (induction its arbitrary: cnt chs p)
  case (Cons it its)
  show ?case
  proof (cases "revents it = 0")
    case True
    then show ?thesis using Cons.IH [of p cnt chs] Cons.prems by (auto simp: filter_empty_conv)
  next
    case False
    then obtain ptr ch where ch: "channel_table p (pfd_fd it) = Some ptr" "channels p ptr = Some ch" "ch_fd ch = pfd_fd it"
      using Cons.prems(1) by (auto simp: reportable_def)
    have "\<forall>it' \<in> set its. revents it' \<noteq> 0 \<longrightarrow> reportable (deliver it p) it'"
      using Cons.prems(1) False by (auto intro: reportable_deliver)
    from Cons.IH [OF this, of "cnt - 1" "chs @ [ptr]"] show ?thesis
      using Cons.prems(2) False ch by (simp add: deref_def deliver_def set_channel_def)
  qed
qed simp

lemma fold_deliver:
  assumes "\<forall>it \<in> set its. reportable p it" and "channels p ptr = Some ch" and "channel_table p (ch_fd ch) = Some ptr"
    and "distinct (map pfd_fd its)"
  shows "channels (fold deliver its p) ptr =
    (case find (\<lambda>it. pfd_fd it = ch_fd ch) its of
       None \<Rightarrow> Some ch | Some it \<Rightarrow> Some (ch\<lparr>received_events := scast (revents it)\<rparr>))"
  using assms
proof (induction its arbitrary: p ch)
  case (Cons it its)
  have rep: "\<forall>it' \<in> set its. reportable (deliver it p) it'"
    using Cons.prems(1) by (auto intro: reportable_deliver)
  show ?case
  proof (cases "pfd_fd it = ch_fd ch")
    case True
    then have "channels (deliver it p) ptr = Some (ch\<lparr>received_events := scast (revents it)\<rparr>)"
      using Cons.prems(2,3) by (simp add: deliver_def set_channel_def)
    moreover have "find (\<lambda>it. pfd_fd it = ch_fd ch) its = None"
      using Cons.prems(4) True by (force simp: find_None_iff)
    ultimately show ?thesis using Cons.IH [OF rep] Cons.prems(3,4) True by simp
  next
    case False
    then have "channels (deliver it p) ptr = Some ch"
      using Cons.prems(1,2) by (auto simp: deliver_def set_channel_def reportable_def)
    then show ?thesis using Cons.IH [OF rep] Cons.prems(3,4) False by simp
  qed
qed simp

lemma nth_set_revents:
  "length rs = length ps \<Longrightarrow> length (set_revents rs ps) = length ps \<and>
     (\<forall>i < length ps. set_revents rs ps ! i = (ps ! i)\<lparr>revents := rs ! i\<rparr>)"
  by (simp add: set_revents_def)

text \<open>
  The documented contract of \<open>poll\<close>: it reports for each entry, never for an ignored one, and
  returns the number of entries reported on.
\<close>

definition poll_contract :: "pollfd list \<Rightarrow> 16 word list \<Rightarrow> int \<Rightarrow> bool" where
  "poll_contract ps rs n \<longleftrightarrow> length rs = length ps \<and> n = int (length (filter (\<lambda>r. r \<noteq> 0) rs)) \<and>
     (\<forall>i < length ps. pfd_fd (ps ! i) < 0 \<longrightarrow> rs ! i = 0)"

text \<open>The entries reported on, with their events.\<close>

definition reported :: "16 word list \<Rightarrow> poller \<Rightarrow> pollfd list" where
  "reported rs p = map (\<lambda>i. (pfds p ! i)\<lparr>revents := rs ! i\<rparr>) (filter (\<lambda>i. rs ! i \<noteq> 0) [0..<length rs])"

lemma reported_eq:
  assumes "length rs = length (pfds p)"
  shows "filter (\<lambda>it. revents it \<noteq> 0) (set_revents rs (pfds p)) = reported rs p"
proof -
  have "set_revents rs (pfds p) = map (\<lambda>i. (pfds p ! i)\<lparr>revents := rs ! i\<rparr>) [0..<length rs]"
    using nth_set_revents [OF assms] assms by (intro nth_equalityI) auto
  then show ?thesis by (simp add: reported_def filter_map comp_def)
qed

lemma length_reported: "length (reported rs p) = length (filter (\<lambda>r. r \<noteq> 0) rs)"
proof -
  have "filter (\<lambda>r. r \<noteq> 0) rs = filter (\<lambda>r. r \<noteq> 0) (map ((!) rs) [0..<length rs])" by (simp add: map_nth)
  then show ?thesis by (simp add: reported_def filter_map comp_def)
qed

lemma reportedE:
  assumes "it \<in> set (reported rs p)" and con: "poll_contract (pfds p) rs cnt"
  obtains i where "i < length (pfds p)" and "rs ! i \<noteq> 0" and "it = (pfds p ! i)\<lparr>revents := rs ! i\<rparr>"
    and "0 \<le> pfd_fd (pfds p ! i)"
proof -
  from assms obtain i where i: "i < length (pfds p)" "rs ! i \<noteq> 0" "it = (pfds p ! i)\<lparr>revents := rs ! i\<rparr>"
    by (auto simp: reported_def poll_contract_def)
  moreover from this have "0 \<le> pfd_fd (pfds p ! i)" using con unfolding poll_contract_def by (meson not_le)
  ultimately show ?thesis using that by blast
qed

lemma reported_reportable:
  assumes inv: "poller_inv n p" and con: "poll_contract (pfds p) rs cnt"
  shows "\<forall>it \<in> set (reported rs p). reportable (p\<lparr>pfds := ps\<rparr>) it"
proof
  fix it assume "it \<in> set (reported rs p)"
  from this con obtain i where i: "i < length (pfds p)" "it = (pfds p ! i)\<lparr>revents := rs ! i\<rparr>" "0 \<le> pfd_fd (pfds p ! i)"
    by (rule reportedE)
  then obtain ptr ch where "registered p ptr ch i" using place_registered [OF inv, of i] by auto
  then show "reportable (p\<lparr>pfds := ps\<rparr>) it" using i by (auto simp: registered_def reportable_def real_fd_nonneg)
qed

lemma places_distinct:
  assumes "poller_inv n p" and "i < length (pfds p)" and "j < length (pfds p)"
    and "real_fd (pfd_fd (pfds p ! i)) = real_fd (pfd_fd (pfds p ! j))"
  shows "i = j"
  using distinct_fds [OF assms(1)] assms(2-4) by (auto simp: distinct_conv_nth)

lemma reported_distinct:
  assumes "poller_inv n p" and "poll_contract (pfds p) rs cnt"
  shows "distinct (map pfd_fd (reported rs p))"
proof -
  have "inj_on (\<lambda>i. pfd_fd (pfds p ! i)) {i. i < length rs \<and> rs ! i \<noteq> 0}"
    using places_distinct [OF assms(1)] assms(2) unfolding poll_contract_def by (intro inj_onI) auto
  then show ?thesis by (simp add: reported_def distinct_map comp_def inj_on_def)
qed

lemma find_unique:
  assumes "x \<in> set xs" and "P x" and "\<And>y. y \<in> set xs \<Longrightarrow> P y \<Longrightarrow> y = x"
  shows "find P xs = Some x"
proof (cases "find P xs")
  case None
  then show ?thesis using assms(1,2) by (simp add: find_None_iff)
next
  case (Some y)
  then have "y \<in> set xs" "P y" by (auto simp: find_Some_iff)
  then show ?thesis using Some assms(3) by blast
qed

lemma fill_loop_0: "fill_loop its 0 chs p = Inr (chs, p)"
  by (cases its) simp_all

lemma find_reported:
  assumes inv: "poller_inv n p" and con: "poll_contract (pfds p) rs cnt" and reg: "registered p ptr ch i"
  shows "find (\<lambda>it. pfd_fd it = ch_fd ch) (reported rs p) =
    (if rs ! i = 0 then None else Some ((pfds p ! i)\<lparr>revents := rs ! i\<rparr>))"
proof -
  have i: "i < length (pfds p)" "real_fd (pfd_fd (pfds p ! i)) = ch_fd ch" using reg by (auto simp: registered_def)
  have only: "rs ! i \<noteq> 0 \<and> it = (pfds p ! i)\<lparr>revents := rs ! i\<rparr>"
    if it: "it \<in> set (reported rs p)" "pfd_fd it = ch_fd ch" for it
  proof -
    from it(1) con obtain k where k: "k < length (pfds p)" "rs ! k \<noteq> 0" "it = (pfds p ! k)\<lparr>revents := rs ! k\<rparr>"
        "0 \<le> pfd_fd (pfds p ! k)" by (rule reportedE)
    then have "k = i" using places_distinct [OF inv k(1) i(1)] i(2) it(2) by (simp add: real_fd_nonneg)
    then show ?thesis using k by simp
  qed
  show ?thesis
  proof (cases "rs ! i = 0")
    case True
    then show ?thesis using only by (auto simp: find_None_iff)
  next
    case False
    have "(pfds p ! i)\<lparr>revents := rs ! i\<rparr> \<in> set (reported rs p)" "0 \<le> pfd_fd (pfds p ! i)"
      using False i(1) con unfolding poll_contract_def reported_def by (auto simp: linorder_not_less [symmetric])
    moreover from this have "pfd_fd ((pfds p ! i)\<lparr>revents := rs ! i\<rparr>) = ch_fd ch" using i(2) by (simp add: real_fd_nonneg)
    ultimately have "find (\<lambda>it. pfd_fd it = ch_fd ch) (reported rs p) = Some ((pfds p ! i)\<lparr>revents := rs ! i\<rparr>)"
      by (intro find_unique) (blast dest: only)+
    then show ?thesis using False by simp
  qed
qed

section \<open>Properties\<close>

text \<open>
  Property C4. The poller refines the registry: for every sequence of creations, switches, removals and
  destructions that keeps to the registry's contract, no check of the poller fails, the table and
  the remembered places agree with the registry, the array has one entry for each descriptor, and
  the kernel is asked to watch exactly the registered descriptors that are not ignored, each for
  the events its channel has enabled.
\<close>

theorem poller_refines_registry:
  assumes "ofold reg_step ops (registry_of Poller_new) = Some a" and "length ops \<le> 2 ^ 31"
  shows "\<exists>p. rfold poller_step ops Poller_new = Inr p \<and> registry_of p = a \<and>
    kernel_watches p = reg_watches a \<and> distinct (map (real_fd \<circ> pfd_fd) (pfds p))"
proof -
  have "poller_inv 0 Poller_new" by (simp add: poller_inv_def Poller_new_def)
  from pl.run_law [OF this _ assms(1)] obtain p where p: "rfold poller_step ops Poller_new = Inr p"
      "poller_inv (length ops) p" "registry_of p = a" using assms(2) by auto
  then show ?thesis using kernel_watches_registry [OF p(2)] distinct_fds [OF p(2)] by blast
qed

definition example_poller_ops :: "poller_op list" where
  "example_poller_ops =
     [Op_Create 1 5, Op_Create 2 7, Op_Create 3 9, Op_EnableReading 1, Op_EnableReading 2, Op_EnableReading 3,
      Op_EnableWriting 3, Op_DisableAll 2, Op_Remove 1, Op_Destroy 1]"

theorem poller_refines_registry_witness:
  "\<exists>p a. rfold poller_step example_poller_ops Poller_new = Inr p \<and> registry_of p = a \<and>
    kernel_watches p = reg_watches a \<and> reg_fds a 9 = Some (3, False) \<and> reg_fds a 7 = Some (2, True) \<and> reg_fds a 5 = None"
proof -
  have "\<exists>a. ofold reg_step example_poller_ops (registry_of Poller_new) = Some a \<and>
      reg_fds a 9 = Some (3, False) \<and> reg_fds a 7 = Some (2, True) \<and> reg_fds a 5 = None"
    by (simp add: example_poller_ops_def registry_of_def Poller_new_def reg_events_def reg_owner_def Let_def
        IOEvent_Read_def IOEvent_Write_def IOEvent_None_def POLLIN_def POLLPRI_def POLLOUT_def)
  then show ?thesis
    using poller_refines_registry [of example_poller_ops] by (force simp: example_poller_ops_def)
qed

text \<open>
  Fact. \<open>Poll\<close> reports what the kernel reports: whatever entries \<open>poll\<close> has marked, the channels
  handed to the loop are those of the marked entries, in the order of the array, each has received
  the events of its own entry, no other channel is touched, and no check fails.
\<close>

theorem Poll_reports_active_channels:
  assumes inv: "poller_inv n p" and con: "poll_contract (pfds p) rs cnt"
  shows "\<exists>p'. Poll cnt rs [] p =
      Inr (map (\<lambda>i. the (channel_table p (pfd_fd (pfds p ! i)))) (filter (\<lambda>i. rs ! i \<noteq> 0) [0..<length rs]), p') \<and>
    (\<forall>ptr ch i. registered p ptr ch i \<longrightarrow>
      channels p' ptr = Some (if rs ! i = 0 then ch else ch\<lparr>received_events := scast (rs ! i)\<rparr>))"
proof -
  let ?q = "p\<lparr>pfds := set_revents rs (pfds p)\<rparr>"
  have len: "length rs = length (pfds p)" and cnt: "cnt = int (length (reported rs p))"
    using con by (simp_all add: poll_contract_def length_reported)
  note its = reported_eq [OF len]
  have "\<forall>it \<in> set (set_revents rs (pfds p)). revents it \<noteq> 0 \<longrightarrow> reportable ?q it"
    using reported_reportable [OF inv con, of "set_revents rs (pfds p)"] unfolding its [symmetric] by simp
  from fill_loop_eq [OF this, of cnt "[]"] have
    "fill_loop (pfds ?q) cnt [] ?q = Inr (map (\<lambda>it. the (channel_table p (pfd_fd it))) (reported rs p), fold deliver (reported rs p) ?q)"
    using cnt its by simp
  moreover have "Poll cnt rs [] p = fill_loop (pfds ?q) cnt [] ?q"
    using cnt by (cases "reported rs p") (auto simp: Poll_def FillActiveChannels_def Let_def fill_loop_0)
  moreover have "channels (fold deliver (reported rs p) ?q) ptr =
      Some (if rs ! i = 0 then ch else ch\<lparr>received_events := scast (rs ! i)\<rparr>)" if reg: "registered p ptr ch i" for ptr ch i
    using fold_deliver [where ptr = ptr and ch = ch, OF reported_reportable [OF inv con, of "set_revents rs (pfds p)"] _ _ reported_distinct [OF inv con]]
      find_reported [OF inv con reg] reg by (simp add: registered_def)
  ultimately show ?thesis
    by (intro exI [of _ "fold deliver (reported rs p) ?q"]) (simp add: reported_def comp_def)
qed

text \<open>Two channels that read, on descriptors 5 and 7.\<close>

definition example_poller :: poller where
  "example_poller =
     \<lparr>pfds = [\<lparr>pfd_fd = 5, pfd_events = 3, revents = 0\<rparr>, \<lparr>pfd_fd = 7, pfd_events = 3, revents = 0\<rparr>],
      channel_table = [5 \<mapsto> 1, 7 \<mapsto> 2],
      channels = [1 \<mapsto> (Channel_new 5)\<lparr>events := 3, ch_index := 0\<rparr>, 2 \<mapsto> (Channel_new 7)\<lparr>events := 3, ch_index := 1\<rparr>]\<rparr>"

lemmas event_flags = IOEvent_Read_def IOEvent_Write_def IOEvent_None_def POLLIN_def POLLPRI_def POLLOUT_def

lemma example_poller_inv: "poller_inv 4 example_poller"
proof -
  let ?ops = "[Op_Create 1 5, Op_Create 2 7, Op_EnableReading 1, Op_EnableReading 2]"
  have run: "rfold poller_step ?ops Poller_new = Inr example_poller"
    by (simp add: Poller_new_def example_poller_def EnableReading_def with_events_def deref_def set_channel_def
        UpdateChannel_def Channel_new_def event_flags to_int32_small Let_def)
  have "\<exists>a. ofold reg_step ?ops (registry_of Poller_new) = Some a"
    by (simp add: registry_of_def Poller_new_def reg_events_def Let_def)
  then obtain a where a: "ofold reg_step ?ops (registry_of Poller_new) = Some a" by blast
  have "poller_inv 0 Poller_new" by (simp add: poller_inv_def Poller_new_def)
  from pl.run_law [OF this _ a] have "poller_inv (length ?ops) example_poller" unfolding run by simp
  moreover have "length ?ops = 4" by simp
  ultimately show ?thesis by (simp only:)
qed

lemma example_poll: "poll_contract (pfds example_poller) [0, 1] 1"
  by (simp add: poll_contract_def example_poller_def nth_Cons')

theorem Poll_reports_active_channels_witness: "\<exists>p'. Poll 1 [0, 1] [] example_poller = Inr ([2], p')"
  using Poll_reports_active_channels [OF example_poller_inv example_poll]
  by (auto simp: example_poller_def upt_rec)

text \<open>
  Fact. A channel that is enabled again stays deaf: \<open>DisableAll\<close> makes the kernel ignore the descriptor
  by flipping its sign, and a later \<open>EnableReading\<close> updates the events of the entry without flipping
  it back. The channel believes that it is reading, and no entry of the array has its descriptor.
\<close>

theorem reenabled_channel_is_ignored:
  assumes inv: "poller_inv n p" and "n < 2 ^ 31 - 1" and reg: "registered p ptr ch i" and fd: "pfd_fd (pfds p ! i) = ch_fd ch"
  shows "\<exists>p1 p2 ch2. DisableAll ptr p = Inr p1 \<and> EnableReading ptr p1 = Inr p2 \<and> channels p2 ptr = Some ch2 \<and>
    events ch2 = IOEvent_Read \<and> (\<forall>e \<in> set (pfds p2). pfd_fd e \<noteq> ch_fd ch)"
proof -
  let ?a = "registry_of p"
  let ?a1 = "\<lparr>reg_channels = (reg_channels ?a)(ptr \<mapsto> (ch_fd ch, 0)), reg_fds = (reg_fds ?a)(ch_fd ch \<mapsto> (ptr, True))\<rparr>"
  let ?a2 = "\<lparr>reg_channels = (reg_channels ?a1)(ptr \<mapsto> (ch_fd ch, IOEvent_Read)), reg_fds = (reg_fds ?a1)(ch_fd ch \<mapsto> (ptr, True))\<rparr>"
  have ch: "reg_channels ?a ptr = Some (ch_fd ch, events ch)" "0 \<le> ch_fd ch"
    using reg inv by (auto simp: registry_channel_iff registered_def poller_inv_def)
  have "reg_step ?a (Op_DisableAll ptr) = Some ?a1" "reg_step ?a1 (Op_EnableReading ptr) = Some ?a2"
    using ch reg_fds_registered [OF reg] fd by (auto simp: reg_events_def Let_def event_flags)
  from this(2) poller_step_sim [OF inv _ this(1)] obtain p1 where
    p1: "DisableAll ptr p = Inr p1" "poller_inv (Suc n) p1" "reg_step (registry_of p1) (Op_EnableReading ptr) = Some ?a2"
    using assms(2) by auto
  from poller_step_sim [OF p1(2) _ p1(3)] obtain p2 where
    p2: "EnableReading ptr p1 = Inr p2" "poller_inv (Suc (Suc n)) p2" "registry_of p2 = ?a2" using assms(2) by auto
  have "reg_channels (registry_of p2) ptr = Some (ch_fd ch, IOEvent_Read)" using p2(3) by simp
  then obtain ch2 where "channels p2 ptr = Some ch2" "events ch2 = IOEvent_Read" by (auto simp: registry_channel_iff)
  moreover have "\<forall>e. (ch_fd ch, e) \<notin> kernel_watches p2"
    using kernel_watches_registry [OF p2(2)] p2(3) by (simp add: reg_watches_def)
  then have "\<forall>e \<in> set (pfds p2). pfd_fd e \<noteq> ch_fd ch" using ch(2) by (auto simp: kernel_watches_def)
  ultimately show ?thesis using p1(1) p2(1) by blast
qed

theorem reenabled_channel_is_ignored_witness:
  "\<exists>p1 p2 ch2. DisableAll 2 example_poller = Inr p1 \<and> EnableReading 2 p1 = Inr p2 \<and> channels p2 2 = Some ch2 \<and>
    events ch2 = IOEvent_Read \<and> 7 \<notin> pfd_fd ` set (pfds p2)"
  using reenabled_channel_is_ignored [OF example_poller_inv, of 2 "(Channel_new 7)\<lparr>events := 3, ch_index := 1\<rparr>" 1]
  by (fastforce simp: registered_def example_poller_def Channel_new_def real_fd_def)

end
