(* ===== verification/Tcp_Connection.thy ===== *)
theory Tcp_Connection
  imports Net_Buffer Poller
begin

text \<open>
  A connection of the server (\<open>src/NetworkInfra/src/tcp_connection.cpp\<close> and the part of
  \<open>tcp_server.cpp\<close> that closes it) on top of its two buffers, the poller of its loop and the queue of
  tasks of that loop. The kernel decides how many bytes it takes and delivers; a client's message
  handler decides how many it consumes. The theory gives the connection as an abstract machine over
  byte streams and shows that the code refines it; that bytes go out in order and completely before
  the connection is shut down; and three ways in which the code goes wrong: an empty message keeps
  the connection from shutting down, a message sent by another thread while the connection closes
  puts it back into the poller, and closing without a connection handler throws.
\<close>

section \<open>The connection\<close>

datatype State = Connecting | Connected | Disconnecting | Disconnted

datatype conn_task = Send_task "byte list" | Shutdown_task | Destroy_task

text \<open>
  \<open>conn_channel\<close> is the address of the channel; \<open>in_server\<close> says whether the table of the server holds
  the connection; \<open>tasks\<close> are the tasks of this connection that the loop has queued; \<open>socket_sent\<close> and
  \<open>socket_shut\<close> are what the kernel was given: bytes, and \<open>shutdown(SHUT_WR)\<close>. The last three fields
  record the bytes submitted for sending, delivered by the kernel and consumed by the client.
\<close>

record connection =
  state :: State
  conn_channel :: nat
  connection_handler :: bool
  message_handler :: bool
  input_buf :: buffer
  output_buf :: buffer
  loop_poller :: poller
  in_server :: bool
  tasks :: "conn_task list"
  socket_sent :: "byte list"
  socket_shut :: bool
  submitted :: "byte list"
  delivered :: "byte list"
  consumed :: "byte list"

definition TCPConnection_new :: "nat \<Rightarrow> bool \<Rightarrow> bool \<Rightarrow> poller \<Rightarrow> connection" where
  "TCPConnection_new chan conn_handler msg_handler p =
     \<lparr>state = Connecting, conn_channel = chan, connection_handler = conn_handler, message_handler = msg_handler,
      input_buf = Buffer_default, output_buf = Buffer_default, loop_poller = p, in_server = True, tasks = [],
      socket_sent = [], socket_shut = False, submitted = [], delivered = [], consumed = []\<rparr>"

text \<open>A switch of the connection's channel, and its \<open>IsWritingEnabled\<close>.\<close>

definition on_channel :: "(nat \<Rightarrow> poller \<Rightarrow> poller res) \<Rightarrow> connection \<Rightarrow> connection res" where
  "on_channel f c = rbind (f (conn_channel c) (loop_poller c)) (\<lambda>p. Inr (c\<lparr>loop_poller := p\<rparr>))"

definition conn_writing :: "connection \<Rightarrow> bool res" where
  "conn_writing c = rbind (deref (loop_poller c) (conn_channel c)) (\<lambda>ch. Inr (IsWritingEnabled ch))"

definition EstablishConnection :: "bool \<Rightarrow> connection \<Rightarrow> connection res" where
  "EstablishConnection on_loop_thread c =
     rbind (guard on_loop_thread Ensure_failed) (\<lambda>_.
     rbind (guard (state c = Connecting) Ensure_failed) (\<lambda>_.
     on_channel EnableReading (c\<lparr>state := Connected\<rparr>)))"

text \<open>
  \<open>connection_handler_\<close> is called unchecked; calling an empty function object throws. In this state
  no call that the handler may make on the connection has an effect.
\<close>

definition DestroyConnection :: "bool \<Rightarrow> connection \<Rightarrow> connection res" where
  "DestroyConnection on_loop_thread c =
     rbind (guard on_loop_thread Ensure_failed) (\<lambda>_.
     rbind (on_channel DisableAll (c\<lparr>state := Disconnted\<rparr>)) (\<lambda>c.
     rbind (guard (connection_handler c) (Thrown ''bad_function_call'')) (\<lambda>_.
     on_channel RemoveChannel c)))"

definition SendInLoop :: "bool \<Rightarrow> byte list \<Rightarrow> connection \<Rightarrow> connection res" where
  "SendInLoop on_loop_thread msg c =
     rbind (guard on_loop_thread Ensure_failed) (\<lambda>_.
     rbind (Write (output_buf c) msg) (\<lambda>b.
     let c = c\<lparr>output_buf := b, submitted := submitted c @ msg\<rparr> in
     rbind (conn_writing c) (\<lambda>writing.
     if \<not> writing then on_channel EnableWriting c else Inr c)))"

definition ShutdownInLoop :: "connection \<Rightarrow> connection res" where
  "ShutdownInLoop c =
     rbind (conn_writing c) (\<lambda>writing. if \<not> writing then Inr (c\<lparr>socket_shut := True\<rparr>) else Inr c)"

text \<open>\<open>RunTask\<close> runs the task at once on the loop thread and queues it on any other.\<close>

definition Send :: "bool \<Rightarrow> byte list \<Rightarrow> connection \<Rightarrow> connection res" where
  "Send on_loop_thread msg c =
     (if state c \<noteq> Connected then Inr c
      else if on_loop_thread then SendInLoop True msg c
      else Inr (c\<lparr>tasks := tasks c @ [Send_task msg]\<rparr>))"

definition Shutdown :: "bool \<Rightarrow> connection \<Rightarrow> connection res" where
  "Shutdown on_loop_thread c =
     (if state c = Connected then
        let c = c\<lparr>state := Disconnecting\<rparr> in
        if on_loop_thread then ShutdownInLoop c else Inr (c\<lparr>tasks := tasks c @ [Shutdown_task]\<rparr>)
      else Inr c)"

text \<open>\<open>TCPServer::RemoveConnection\<close>, the close handler the server installs.\<close>

definition RemoveConnection :: "connection \<Rightarrow> connection res" where
  "RemoveConnection c =
     rbind (guard (in_server c) Ensure_failed) (\<lambda>_.
     Inr (c\<lparr>in_server := False, tasks := tasks c @ [Destroy_task]\<rparr>))"

definition HandleClose :: "connection \<Rightarrow> connection res" where
  "HandleClose c =
     rbind (guard (state c = Connected \<or> state c = Disconnecting) Ensure_failed) (\<lambda>_.
     rbind (on_channel DisableAll c) RemoveConnection)"

text \<open>
  \<open>HandleRead\<close>: the bytes \<open>readv\<close> delivers and the number of bytes the message handler consumes are
  arguments. \<open>HandleError\<close> only logs.
\<close>

definition HandleRead :: "byte list option \<Rightarrow> nat \<Rightarrow> connection \<Rightarrow> connection res" where
  "HandleRead bytes k c =
     rbind (ReadFD bytes (input_buf c)) (\<lambda>(n, b).
     let c = c\<lparr>input_buf := b, delivered := delivered c @ (case bytes of None \<Rightarrow> [] | Some bs \<Rightarrow> bs)\<rparr> in
     if n > 0 then
       if message_handler c then
         rbind (Consume (input_buf c) k) (\<lambda>b. Inr (c\<lparr>input_buf := b, consumed := consumed c @ take k (contents (input_buf c))\<rparr>))
       else Inr c
     else if n = 0 then HandleClose c
     else Inr c)"

text \<open>\<open>n\<close> is what \<open>write\<close> returns: it takes the first bytes of the buffer.\<close>

definition HandleWrite :: "bool \<Rightarrow> int \<Rightarrow> connection \<Rightarrow> connection res" where
  "HandleWrite on_loop_thread n c =
     rbind (guard on_loop_thread Ensure_failed) (\<lambda>_.
     rbind (conn_writing c) (\<lambda>writing.
     if \<not> writing then Inr c
     else if n \<le> 0 then Inr c
     else
       rbind (load (buf (output_buf c)) (Peek (output_buf c)) (nat n)) (\<lambda>bs.
       rbind (Consume (output_buf c) (nat n)) (\<lambda>b.
       let c = c\<lparr>output_buf := b, socket_sent := socket_sent c @ bs\<rparr> in
       if readable_size (output_buf c) = 0 then
         rbind (on_channel DisableWriting c) (\<lambda>c.
         if state c = Disconnecting then ShutdownInLoop c else Inr c)
       else Inr c))))"

definition run_conn_task :: "conn_task \<Rightarrow> connection \<Rightarrow> connection res" where
  "run_conn_task t c = (case t of
     Send_task msg \<Rightarrow> SendInLoop True msg c
   | Shutdown_task \<Rightarrow> ShutdownInLoop c
   | Destroy_task \<Rightarrow> DestroyConnection True c)"

text \<open>
  The events of a connection: calls of clients on the loop thread or another one, readiness
  reported by the poller, and the loop running the next queued task.
\<close>

datatype conn_op =
    Op_Send bool "byte list"
  | Op_Shutdown bool
  | Op_Readable "byte list option" nat
  | Op_Writable int
  | Op_Hangup
  | Op_Task

fun conn_step :: "connection \<Rightarrow> conn_op \<Rightarrow> connection res" where
  "conn_step c (Op_Send here msg) = Send here msg c"
| "conn_step c (Op_Shutdown here) = Shutdown here c"
| "conn_step c (Op_Readable bytes k) = HandleRead bytes k c"
| "conn_step c (Op_Writable n) = HandleWrite True n c"
| "conn_step c Op_Hangup = HandleClose c"
| "conn_step c Op_Task = (case tasks c of [] \<Rightarrow> Inr c | t # ts \<Rightarrow> run_conn_task t (c\<lparr>tasks := ts\<rparr>))"

section \<open>The abstract connection\<close>

text \<open>
  Streams instead of buffers and flags instead of a poller. The machine is undefined where the
  contract is broken: the kernel takes more than there is or delivers nothing that fits, the client
  consumes more than there is, readiness is reported for a connection that is closed, another
  thread uses a closed connection, or there is no connection handler to call at the end.
\<close>

record spec =
  sp_state :: State
  sp_open :: bool
  sp_handlers :: "bool \<times> bool"
  sp_tasks :: "conn_task list"
  sp_writing :: bool
  sp_out :: "byte list"
  sp_sent :: "byte list"
  sp_shut :: bool
  sp_submitted :: "byte list"
  sp_in :: "byte list"
  sp_consumed :: "byte list"
  sp_delivered :: "byte list"

definition spec_send :: "byte list \<Rightarrow> spec \<Rightarrow> spec" where
  "spec_send msg a = a\<lparr>sp_out := sp_out a @ msg, sp_submitted := sp_submitted a @ msg, sp_writing := True\<rparr>"

definition spec_shutdown :: "spec \<Rightarrow> spec" where
  "spec_shutdown a = (if sp_writing a then a else a\<lparr>sp_shut := True\<rparr>)"

definition spec_close :: "spec \<Rightarrow> spec" where
  "spec_close a = a\<lparr>sp_open := False, sp_writing := False, sp_tasks := sp_tasks a @ [Destroy_task]\<rparr>"

definition spec_write :: "nat \<Rightarrow> spec \<Rightarrow> spec" where
  "spec_write n a =
     (let a = a\<lparr>sp_out := drop n (sp_out a), sp_sent := sp_sent a @ take n (sp_out a)\<rparr> in
      if sp_out a = [] then
        let a = a\<lparr>sp_writing := False\<rparr> in if sp_state a = Disconnecting then a\<lparr>sp_shut := True\<rparr> else a
      else a)"

fun spec_task :: "conn_task \<Rightarrow> spec \<Rightarrow> spec option" where
  "spec_task (Send_task msg) a = Some (spec_send msg a)"
| "spec_task Shutdown_task a = Some (spec_shutdown a)"
| "spec_task Destroy_task a =
     (if fst (sp_handlers a) then Some (a\<lparr>sp_state := Disconnted, sp_writing := False\<rparr>) else None)"

fun spec_step :: "spec \<Rightarrow> conn_op \<Rightarrow> spec option" where
  "spec_step a (Op_Send here msg) =
     (if sp_state a \<noteq> Connected then Some a
      else if here then Some (spec_send msg a)
      else if sp_open a then Some (a\<lparr>sp_tasks := sp_tasks a @ [Send_task msg]\<rparr>) else None)"
| "spec_step a (Op_Shutdown here) =
     (if sp_state a \<noteq> Connected then Some a
      else if here then Some (spec_shutdown (a\<lparr>sp_state := Disconnecting\<rparr>))
      else if sp_open a then Some (a\<lparr>sp_state := Disconnecting, sp_tasks := sp_tasks a @ [Shutdown_task]\<rparr>) else None)"
| "spec_step a (Op_Readable bytes k) =
     (if \<not> sp_open a then None
      else case bytes of
        None \<Rightarrow> Some a
      | Some [] \<Rightarrow> Some (spec_close a)
      | Some bs \<Rightarrow>
          let a = a\<lparr>sp_in := sp_in a @ bs, sp_delivered := sp_delivered a @ bs\<rparr> in
          if \<not> snd (sp_handlers a) then Some a
          else if k \<le> length (sp_in a)
          then Some (a\<lparr>sp_in := drop k (sp_in a), sp_consumed := sp_consumed a @ take k (sp_in a)\<rparr>) else None)"
| "spec_step a (Op_Writable n) =
     (if \<not> sp_open a \<or> n > int (length (sp_out a)) then None
      else if \<not> sp_writing a \<or> n \<le> 0 then Some a
      else Some (spec_write (nat n) a))"
| "spec_step a Op_Hangup = (if sp_open a then Some (spec_close a) else None)"
| "spec_step a Op_Task = (case sp_tasks a of [] \<Rightarrow> Some a | t # ts \<Rightarrow> spec_task t (a\<lparr>sp_tasks := ts\<rparr>))"

definition chan_events :: "connection \<Rightarrow> 32 word" where
  "chan_events c = (case channels (loop_poller c) (conn_channel c) of None \<Rightarrow> 0 | Some ch \<Rightarrow> events ch)"

definition spec_of :: "connection \<Rightarrow> spec" where
  "spec_of c =
     \<lparr>sp_state = state c, sp_open = in_server c, sp_handlers = (connection_handler c, message_handler c),
      sp_tasks = tasks c, sp_writing = (chan_events c AND IOEvent_Write \<noteq> 0), sp_out = contents (output_buf c),
      sp_sent = socket_sent c, sp_shut = socket_shut c, sp_submitted = submitted c, sp_in = contents (input_buf c),
      sp_consumed = consumed c, sp_delivered = delivered c\<rparr>"

section \<open>Invariant\<close>

text \<open>The channel's descriptor, events, and whether the poller ignores it.\<close>

definition chan_reg :: "connection \<Rightarrow> int \<Rightarrow> 32 word \<Rightarrow> bool \<Rightarrow> bool" where
  "chan_reg c fd e ign \<longleftrightarrow> reg_channels (registry_of (loop_poller c)) (conn_channel c) = Some (fd, e) \<and>
     reg_fds (registry_of (loop_poller c)) fd = Some (conn_channel c, ign)"

definition chan_unreg :: "connection \<Rightarrow> bool" where
  "chan_unreg c \<longleftrightarrow> (\<exists>fd. reg_channels (registry_of (loop_poller c)) (conn_channel c) = Some (fd, IOEvent_None) \<and>
     reg_fds (registry_of (loop_poller c)) fd = None)"

definition open_events :: "bool \<Rightarrow> 32 word set" where
  "open_events op = (if op then {IOEvent_Read, IOEvent_Read OR IOEvent_Write} else {IOEvent_None, IOEvent_Write})"

text \<open>
  An open connection reads, and writes or not; a closed one is ignored by the poller and waits for
  its destruction, the last of its tasks; after that it is out of the poller.
\<close>

definition conn_inv :: "nat \<Rightarrow> connection \<Rightarrow> bool" where
  "conn_inv n c \<longleftrightarrow> poller_inv n (loop_poller c) \<and> buffer_inv (input_buf c) \<and> buffer_inv (output_buf c) \<and>
     state c \<noteq> Connecting \<and>
     (if state c = Disconnted then
        \<not> in_server c \<and> tasks c = [] \<and> chan_unreg c
      else
        (\<exists>fd e. chan_reg c fd e (\<not> in_server c) \<and> e \<in> open_events (in_server c)) \<and>
        (\<exists>ts. tasks c = ts @ (if in_server c then [] else [Destroy_task]) \<and> Destroy_task \<notin> set ts))"

lemma chan_reg_cong [simp]:
  "chan_reg (c\<lparr>state := s\<rparr>) = chan_reg c"
  "chan_reg (c\<lparr>tasks := ts\<rparr>) = chan_reg c"
  "chan_reg (c\<lparr>in_server := b\<rparr>) = chan_reg c"
  "chan_reg (c\<lparr>output_buf := ob\<rparr>) = chan_reg c"
  "chan_reg (c\<lparr>input_buf := ib\<rparr>) = chan_reg c"
  "chan_reg (c\<lparr>submitted := x\<rparr>) = chan_reg c"
  "chan_reg (c\<lparr>delivered := x\<rparr>) = chan_reg c"
  "chan_reg (c\<lparr>consumed := x\<rparr>) = chan_reg c"
  "chan_reg (c\<lparr>socket_sent := x\<rparr>) = chan_reg c"
  "chan_reg (c\<lparr>socket_shut := b\<rparr>) = chan_reg c"
  by (simp_all add: chan_reg_def fun_eq_iff)

lemma chan_unreg_cong [simp]:
  "chan_unreg (c\<lparr>state := s\<rparr>) = chan_unreg c"
  "chan_unreg (c\<lparr>tasks := ts\<rparr>) = chan_unreg c"
  "chan_unreg (c\<lparr>output_buf := ob\<rparr>) = chan_unreg c"
  "chan_unreg (c\<lparr>input_buf := ib\<rparr>) = chan_unreg c"
  "chan_unreg (c\<lparr>submitted := x\<rparr>) = chan_unreg c"
  "chan_unreg (c\<lparr>delivered := x\<rparr>) = chan_unreg c"
  "chan_unreg (c\<lparr>consumed := x\<rparr>) = chan_unreg c"
  "chan_unreg (c\<lparr>socket_sent := x\<rparr>) = chan_unreg c"
  "chan_unreg (c\<lparr>socket_shut := b\<rparr>) = chan_unreg c"
  by (simp_all add: chan_unreg_def)

lemma chan_events_cong [simp]:
  "chan_events (c\<lparr>state := s\<rparr>) = chan_events c"
  "chan_events (c\<lparr>tasks := ts\<rparr>) = chan_events c"
  "chan_events (c\<lparr>in_server := b\<rparr>) = chan_events c"
  "chan_events (c\<lparr>output_buf := ob\<rparr>) = chan_events c"
  "chan_events (c\<lparr>input_buf := ib\<rparr>) = chan_events c"
  "chan_events (c\<lparr>submitted := x\<rparr>) = chan_events c"
  "chan_events (c\<lparr>delivered := x\<rparr>) = chan_events c"
  "chan_events (c\<lparr>consumed := x\<rparr>) = chan_events c"
  "chan_events (c\<lparr>socket_sent := x\<rparr>) = chan_events c"
  "chan_events (c\<lparr>socket_shut := b\<rparr>) = chan_events c"
  by (simp_all add: chan_events_def)

lemma chan_reg_events: "chan_reg c fd e ign \<Longrightarrow> chan_events c = e \<and> channels (loop_poller c) (conn_channel c) \<noteq> None"
  by (auto simp: chan_reg_def chan_events_def registry_channel_iff)

lemma chan_unreg_events: "chan_unreg c \<Longrightarrow> chan_events c = IOEvent_None \<and> channels (loop_poller c) (conn_channel c) \<noteq> None"
  by (auto simp: chan_unreg_def chan_events_def registry_channel_iff)

lemma conn_writing_eq:
  "channels (loop_poller c) (conn_channel c) \<noteq> None \<Longrightarrow> conn_writing c = Inr (chan_events c AND IOEvent_Write \<noteq> 0)"
  by (auto simp: conn_writing_def chan_events_def deref_def IsWritingEnabled_def)

lemma switch_ok:
  assumes "poller_inv n (loop_poller c)" and "chan_reg c fd e ign"
  shows "\<exists>p. on_channel (with_events f) c = Inr (c\<lparr>loop_poller := p\<rparr>) \<and> poller_inv n p \<and>
    chan_reg (c\<lparr>loop_poller := p\<rparr>) fd (f e) (ign \<noteq> (f e = 0))"
proof -
  from with_events_registered [OF assms(1), of "conn_channel c" fd e ign f] assms(2) obtain p where
    "with_events f (conn_channel c) (loop_poller c) = Inr p" "poller_inv n p" "registry_of p =
      \<lparr>reg_channels = (reg_channels (registry_of (loop_poller c)))(conn_channel c \<mapsto> (fd, f e)),
       reg_fds = (reg_fds (registry_of (loop_poller c)))(fd \<mapsto> (conn_channel c, ign \<noteq> (f e = 0)))\<rparr>"
    by (auto simp: chan_reg_def)
  then show ?thesis by (intro exI [of _ p]) (simp add: on_channel_def chan_reg_def)
qed

lemma conn_inv_channel: "conn_inv n c \<Longrightarrow> channels (loop_poller c) (conn_channel c) \<noteq> None"
  by (auto simp: conn_inv_def dest: chan_reg_events chan_unreg_events split: if_splits)

lemma conn_inv_writing: "conn_inv n c \<Longrightarrow> conn_writing c = Inr (sp_writing (spec_of c))"
  using conn_writing_eq [OF conn_inv_channel] by (simp add: spec_of_def)

lemma word_events [simp]:
  "IOEvent_Read AND IOEvent_Write = 0" "(IOEvent_Read OR IOEvent_Write) AND IOEvent_Write \<noteq> 0"
  "IOEvent_Write AND IOEvent_Write \<noteq> 0" "IOEvent_None AND IOEvent_Write = 0"
  "IOEvent_Read OR IOEvent_Write \<noteq> 0" "IOEvent_None OR IOEvent_Write = IOEvent_Write" "IOEvent_Write \<noteq> 0" "IOEvent_Read \<noteq> 0"
  "(IOEvent_Read OR IOEvent_Write) AND NOT IOEvent_Write = IOEvent_Read"
  by (simp_all add: event_flags)

lemma SendInLoop_sim:
  assumes inv: "conn_inv n c" and alive: "state c \<noteq> Disconnted"
  shows "\<exists>c'. SendInLoop True msg c = Inr c' \<and> conn_inv n c' \<and> spec_of c' = spec_send msg (spec_of c)"
proof -
  from inv obtain b where b: "Write (output_buf c) msg = Inr b" "buffer_inv b" "contents b = contents (output_buf c) @ msg"
    using Write_ok [of "output_buf c" msg] by (auto simp: conn_inv_def)
  let ?c = "c\<lparr>output_buf := b, submitted := submitted c @ msg\<rparr>"
  have inv': "conn_inv n ?c" using inv b(2) by (simp add: conn_inv_def)
  obtain fd e where e: "chan_reg c fd e (\<not> in_server c)" "e \<in> open_events (in_server c)"
    using inv alive by (auto simp: conn_inv_def)
  have ev: "chan_events ?c = e" using chan_reg_events [OF e(1)] by simp
  show ?thesis
  proof (cases "e AND IOEvent_Write = 0")
    case False
    then have "SendInLoop True msg c = Inr ?c \<and> spec_of ?c = spec_send msg (spec_of c)"
      using b(1,3) conn_inv_writing [OF inv'] ev by (simp add: SendInLoop_def spec_of_def spec_send_def)
    then show ?thesis using inv' by blast
  next
    case True
    then have e': "e OR IOEvent_Write \<in> open_events (in_server c)" "e OR IOEvent_Write \<noteq> 0"
        "(e OR IOEvent_Write) AND IOEvent_Write \<noteq> 0"
      using e(2) by (auto simp: open_events_def split: if_splits)
    from switch_ok [of n ?c fd e "\<not> in_server c" "\<lambda>e. e OR IOEvent_Write"] inv e(1) obtain p where
      p: "on_channel EnableWriting ?c = Inr (?c\<lparr>loop_poller := p\<rparr>)" "poller_inv n p"
        "chan_reg (?c\<lparr>loop_poller := p\<rparr>) fd (e OR IOEvent_Write) (\<not> in_server c)"
      using e'(2) by (auto simp: conn_inv_def EnableWriting_def)
    have "SendInLoop True msg c = Inr (?c\<lparr>loop_poller := p\<rparr>)"
      using b(1) conn_inv_writing [OF inv'] ev True p(1) by (simp add: SendInLoop_def spec_of_def)
    moreover have "conn_inv n (?c\<lparr>loop_poller := p\<rparr>)"
      using inv' alive p(2,3) e'(1) by (auto simp: conn_inv_def)
    moreover have "spec_of (?c\<lparr>loop_poller := p\<rparr>) = spec_send msg (spec_of c)"
      using chan_reg_events [OF p(3)] e'(3) b(3) by (simp add: spec_of_def spec_send_def)
    ultimately show ?thesis by blast
  qed
qed

lemma ShutdownInLoop_sim:
  assumes inv: "conn_inv n c"
  shows "\<exists>c'. ShutdownInLoop c = Inr c' \<and> conn_inv n c' \<and> spec_of c' = spec_shutdown (spec_of c)"
proof -
  have "conn_inv n (c\<lparr>socket_shut := True\<rparr>)" using inv by (simp add: conn_inv_def)
  then show ?thesis
    using inv conn_inv_writing [OF inv] by (auto simp: ShutdownInLoop_def spec_shutdown_def spec_of_def)
qed

lemma HandleClose_sim:
  assumes inv: "conn_inv n c" and op: "in_server c"
  shows "\<exists>c'. HandleClose c = Inr c' \<and> conn_inv n c' \<and> spec_of c' = spec_close (spec_of c)"
proof -
  from inv op obtain fd e ts where e: "chan_reg c fd e False" and ts: "tasks c = ts" "Destroy_task \<notin> set ts"
    and st: "state c = Connected \<or> state c = Disconnecting"
    by (cases "state c") (auto simp: conn_inv_def split: if_splits)
  from switch_ok [of n c fd e False "\<lambda>_. IOEvent_None"] inv e obtain p where
    p: "on_channel DisableAll c = Inr (c\<lparr>loop_poller := p\<rparr>)" "poller_inv n p"
      "chan_reg (c\<lparr>loop_poller := p\<rparr>) fd IOEvent_None True"
    by (auto simp: conn_inv_def DisableAll_def IOEvent_None_def)
  let ?c = "c\<lparr>loop_poller := p, in_server := False, tasks := tasks c @ [Destroy_task]\<rparr>"
  have "HandleClose c = Inr ?c"
    using st p(1) op by (auto simp: HandleClose_def RemoveConnection_def)
  moreover have "conn_inv n ?c" using inv st p ts by (auto simp: conn_inv_def open_events_def)
  moreover have "spec_of ?c = spec_close (spec_of c)"
    using chan_reg_events [OF p(3)] by (simp add: spec_of_def spec_close_def)
  ultimately show ?thesis by blast
qed

lemma Destroy_sim:
  assumes inv: "conn_inv n c" and e: "chan_reg c fd e True" and "\<not> in_server c" and "connection_handler c"
  shows "\<exists>c'. DestroyConnection True (c\<lparr>tasks := []\<rparr>) = Inr c' \<and> conn_inv n c' \<and>
    reg_channels (registry_of (loop_poller c')) (conn_channel c') = Some (fd, IOEvent_None) \<and>
    reg_fds (registry_of (loop_poller c')) fd = None \<and>
    spec_of c' = (spec_of c)\<lparr>sp_tasks := [], sp_state := Disconnted, sp_writing := False\<rparr>"
proof -
  let ?c = "c\<lparr>tasks := [], state := Disconnted\<rparr>"
  from switch_ok [of n ?c fd e True "\<lambda>_. IOEvent_None"] inv e obtain p where
    p: "on_channel DisableAll ?c = Inr (?c\<lparr>loop_poller := p\<rparr>)" "poller_inv n p"
      "chan_reg (?c\<lparr>loop_poller := p\<rparr>) fd IOEvent_None False"
    by (auto simp: conn_inv_def DisableAll_def IOEvent_None_def)
  from RemoveChannel_registered [OF p(2), of "conn_channel c" fd IOEvent_None False] p(3) obtain p' where
    p': "RemoveChannel (conn_channel c) p = Inr p'" "poller_inv n p'"
      "registry_of p' = (registry_of p)\<lparr>reg_fds := (reg_fds (registry_of p))(fd := None)\<rparr>"
    by (auto simp: chan_reg_def)
  have reg: "reg_channels (registry_of p') (conn_channel c) = Some (fd, IOEvent_None)" "reg_fds (registry_of p') fd = None"
    using p'(3) p(3) by (simp_all add: chan_reg_def)
  then have un: "chan_unreg (?c\<lparr>loop_poller := p'\<rparr>)" by (simp add: chan_unreg_def)
  have "DestroyConnection True (c\<lparr>tasks := []\<rparr>) = Inr (?c\<lparr>loop_poller := p'\<rparr>)"
    using p(1) p'(1) assms(4) by (simp add: DestroyConnection_def on_channel_def [of RemoveChannel])
  moreover have "conn_inv n (?c\<lparr>loop_poller := p'\<rparr>)" using inv assms(3) un p'(2) by (simp add: conn_inv_def)
  moreover have "spec_of (?c\<lparr>loop_poller := p'\<rparr>) = (spec_of c)\<lparr>sp_tasks := [], sp_state := Disconnted, sp_writing := False\<rparr>"
    using chan_unreg_events [OF un] by (simp add: spec_of_def)
  ultimately show ?thesis using reg by (intro exI [of _ "?c\<lparr>loop_poller := p'\<rparr>"]) simp
qed

lemma Destroy_tasks:
  "DestroyConnection True (c\<lparr>tasks := []\<rparr>) = Inr d \<Longrightarrow> DestroyConnection True (c\<lparr>tasks := ts\<rparr>) = Inr (d\<lparr>tasks := ts\<rparr>)"
  by (auto simp: DestroyConnection_def on_channel_def fault_simps)

lemma HandleRead_sim:
  assumes inv: "conn_inv n c" and a: "spec_step (spec_of c) (Op_Readable bytes k) = Some a"
  shows "\<exists>c'. HandleRead bytes k c = Inr c' \<and> conn_inv n c' \<and> spec_of c' = a"
proof (cases bytes)
  case None
  then have "spec_of c = a" "c\<lparr>input_buf := input_buf c, delivered := delivered c @ []\<rparr> = c" using a by (auto split: if_splits)
  then show ?thesis using None inv by (simp add: HandleRead_def ReadFD_def)
next
  case (Some bs)
  have op: "in_server c" using a by (auto simp: spec_of_def split: if_splits)
  from inv obtain b where b: "ReadFD (Some bs) (input_buf c) = Inr (int (length bs), b)" "buffer_inv b"
      "contents b = contents (input_buf c) @ bs"
    using ReadFD_ok [of "input_buf c" bs] by (auto simp: conn_inv_def)
  let ?c = "c\<lparr>input_buf := b, delivered := delivered c @ bs\<rparr>"
  have inv': "conn_inv n ?c" using inv b(2) by (simp add: conn_inv_def)
  have sp: "spec_of ?c = (spec_of c)\<lparr>sp_in := sp_in (spec_of c) @ bs, sp_delivered := sp_delivered (spec_of c) @ bs\<rparr>"
    using b(3) by (simp add: spec_of_def)
  show ?thesis
  proof (cases bs)
    case Nil
    then have "HandleRead bytes k c = HandleClose ?c" "spec_close (spec_of c) = a" "spec_of ?c = spec_of c"
      using Some b(1,3) a op by (simp_all add: HandleRead_def spec_of_def)
    then show ?thesis using HandleClose_sim [OF inv'] op by simp
  next
    case (Cons x xs)
    show ?thesis
    proof (cases "message_handler c")
      case False
      then have "HandleRead bytes k c = Inr ?c" "spec_of ?c = a"
        using Some Cons b(1) a op sp by (simp_all add: HandleRead_def spec_of_def Let_def)
      then show ?thesis using inv' by blast
    next
      case True
      have k: "k \<le> length (contents b)"
        and a': "a = (spec_of ?c)\<lparr>sp_in := drop k (contents b), sp_consumed := consumed c @ take k (contents b)\<rparr>"
        using a Some Cons True op b(3) by (auto simp: spec_of_def Let_def split: if_splits)
      from bq.consume_law [OF b(2) k] obtain b2 where b2: "Consume b k = Inr b2" "buffer_inv b2" "contents b2 = drop k (contents b)"
        by blast
      let ?d = "?c\<lparr>input_buf := b2, consumed := consumed c @ take k (contents b)\<rparr>"
      have "HandleRead bytes k c = Inr ?d" using Some Cons True b(1) b2(1) by (simp add: HandleRead_def)
      moreover have "conn_inv n ?d" using inv b2(2) by (simp add: conn_inv_def)
      moreover have "spec_of ?d = a" using a' b2(3) by (simp add: spec_of_def)
      ultimately show ?thesis by blast
    qed
  qed
qed

lemma DisableWriting_sim:
  assumes inv: "conn_inv n c" and op: "in_server c" and "sp_writing (spec_of c)"
  shows "\<exists>c'. on_channel DisableWriting c = Inr c' \<and> conn_inv n c' \<and> spec_of c' = (spec_of c)\<lparr>sp_writing := False\<rparr> \<and> state c' = state c"
proof -
  from inv op obtain fd e where e: "chan_reg c fd e False" "e \<in> open_events True" and st: "state c \<noteq> Disconnted"
    by (auto simp: conn_inv_def split: if_splits)
  then have "e = IOEvent_Read OR IOEvent_Write"
    using chan_reg_events [OF e(1)] assms(3) by (auto simp: open_events_def spec_of_def)
  with switch_ok [of n c fd e False "\<lambda>e. e AND NOT IOEvent_Write"] inv e(1) obtain p where
    p: "on_channel DisableWriting c = Inr (c\<lparr>loop_poller := p\<rparr>)" "poller_inv n p"
      "chan_reg (c\<lparr>loop_poller := p\<rparr>) fd IOEvent_Read False"
    by (auto simp: conn_inv_def DisableWriting_def)
  have "IOEvent_Read \<in> open_events True" by (simp add: open_events_def)
  then have "conn_inv n (c\<lparr>loop_poller := p\<rparr>)" using inv op st p(2,3) by (auto simp: conn_inv_def)
  moreover have "spec_of (c\<lparr>loop_poller := p\<rparr>) = (spec_of c)\<lparr>sp_writing := False\<rparr>"
    using chan_reg_events [OF p(3)] by (simp add: spec_of_def)
  ultimately show ?thesis using p(1) by (intro exI [of _ "c\<lparr>loop_poller := p\<rparr>"]) simp
qed

lemma HandleWrite_sim:
  assumes inv: "conn_inv n c" and a: "spec_step (spec_of c) (Op_Writable m) = Some a"
  shows "\<exists>c'. HandleWrite True m c = Inr c' \<and> conn_inv n c' \<and> spec_of c' = a"
proof (cases "\<not> sp_writing (spec_of c) \<or> m \<le> 0")
  case True
  then have "HandleWrite True m c = Inr c" "a = spec_of c"
    using a conn_inv_writing [OF inv] by (auto simp: HandleWrite_def split: if_splits)
  then show ?thesis using inv by blast
next
  case False
  let ?k = "nat m" and ?out = "contents (output_buf c)"
  have op: "in_server c" and k: "?k \<le> length ?out" and a': "a = spec_write ?k (spec_of c)"
    using a False by (auto simp: spec_of_def split: if_splits)
  have ob: "buffer_inv (output_buf c)" using inv by (simp add: conn_inv_def)
  note ld = bq.peek_law [OF ob k]
  from bq.consume_law [OF ob k] obtain b where b: "Consume (output_buf c) ?k = Inr b" "buffer_inv b" "contents b = drop ?k ?out"
    by blast
  let ?c = "c\<lparr>output_buf := b, socket_sent := socket_sent c @ take ?k ?out\<rparr>"
  have inv': "conn_inv n ?c" using inv b(2) by (simp add: conn_inv_def)
  have sp: "spec_of ?c = (spec_of c)\<lparr>sp_out := drop ?k ?out, sp_sent := socket_sent c @ take ?k ?out\<rparr>"
    using b(3) by (simp add: spec_of_def)
  have size: "readable_size b = 0 \<longleftrightarrow> drop ?k ?out = []" using length_contents [OF b(2)] b(3) by auto
  have eq: "HandleWrite True m c = (if drop ?k ?out = []
      then rbind (on_channel DisableWriting ?c) (\<lambda>c. if state c = Disconnecting then ShutdownInLoop c else Inr c) else Inr ?c)"
    using False conn_inv_writing [OF inv] ld b(1) by (simp add: HandleWrite_def size Let_def)
  show ?thesis
  proof (cases "drop ?k ?out = []")
    case False
    then show ?thesis using eq inv' sp a' by (auto simp: spec_write_def spec_of_def Let_def)
  next
    case True
    have "sp_writing (spec_of ?c)" using sp \<open>\<not> (\<not> sp_writing (spec_of c) \<or> m \<le> 0)\<close> by simp
    from DisableWriting_sim [OF inv' _ this] op obtain c1 where c1: "on_channel DisableWriting ?c = Inr c1" "conn_inv n c1"
        "spec_of c1 = (spec_of ?c)\<lparr>sp_writing := False\<rparr>" "state c1 = state c" by auto
    have a2: "a = (if state c = Disconnecting then (spec_of c1)\<lparr>sp_shut := True\<rparr> else spec_of c1)"
      using True a' sp c1(3) by (simp add: spec_write_def spec_of_def Let_def)
    show ?thesis
    proof (cases "state c = Disconnecting")
      case False
      then show ?thesis using eq \<open>drop ?k ?out = []\<close> c1 a2 by auto
    next
      case dis: True
      have "spec_shutdown (spec_of c1) = (spec_of c1)\<lparr>sp_shut := True\<rparr>" using c1(3) by (simp add: spec_shutdown_def)
      moreover have "HandleWrite True m c = ShutdownInLoop c1" using eq True c1(1,4) dis by simp
      ultimately show ?thesis using ShutdownInLoop_sim [OF c1(2)] a2 dis by auto
    qed
  qed
qed

lemma conn_inv_tasks:
  assumes "conn_inv n c" and "tasks c = t # ts" and "t \<noteq> Destroy_task"
  shows "conn_inv n (c\<lparr>tasks := ts\<rparr>) \<and> state c \<noteq> Disconnted"
proof -
  have alive: "state c \<noteq> Disconnted" using assms(1,2) by (auto simp: conn_inv_def)
  then obtain us where us: "t # ts = us @ (if in_server c then [] else [Destroy_task])" "Destroy_task \<notin> set us"
    using assms(1,2) by (auto simp: conn_inv_def)
  then obtain us' where "us = t # us'" using assms(3) by (cases us) (auto split: if_splits)
  then have "ts = us' @ (if in_server c then [] else [Destroy_task])" "Destroy_task \<notin> set us'" using us by auto
  then show ?thesis using assms(1) alive by (auto simp: conn_inv_def)
qed

lemma Task_sim:
  assumes inv: "conn_inv n c" and a: "spec_step (spec_of c) Op_Task = Some a"
  shows "\<exists>c'. conn_step c Op_Task = Inr c' \<and> conn_inv n c' \<and> spec_of c' = a"
proof (cases "tasks c")
  case Nil
  then show ?thesis using inv a by (simp add: spec_of_def)
next
  case (Cons t ts)
  have sp: "spec_of (c\<lparr>tasks := ts\<rparr>) = (spec_of c)\<lparr>sp_tasks := ts\<rparr>" by (simp add: spec_of_def)
  have a': "spec_task t (spec_of (c\<lparr>tasks := ts\<rparr>)) = Some a" using a Cons sp by (simp add: spec_of_def)
  show ?thesis
  proof (cases t)
    case (Send_task msg)
    then show ?thesis
      using conn_inv_tasks [OF inv Cons] SendInLoop_sim [of n "c\<lparr>tasks := ts\<rparr>" msg] Cons a' by (simp add: run_conn_task_def)
  next
    case Shutdown_task
    then show ?thesis
      using conn_inv_tasks [OF inv Cons] ShutdownInLoop_sim [of n "c\<lparr>tasks := ts\<rparr>"] Cons a' by (simp add: run_conn_task_def)
  next
    case Destroy_task
    then obtain fd e where "ts = []" "\<not> in_server c" "chan_reg c fd e True"
      using inv Cons by (auto simp: conn_inv_def Cons_eq_append_conv split: if_splits)
    moreover have "connection_handler c" using a' Destroy_task by (auto simp: spec_of_def split: if_splits)
    ultimately show ?thesis
      using Destroy_sim [OF inv] Cons Destroy_task a' sp by (auto simp: run_conn_task_def spec_of_def)
  qed
qed

lemma conn_step_sim:
  assumes inv: "conn_inv n c" and a: "spec_step (spec_of c) op = Some a"
  shows "\<exists>c'. conn_step c op = Inr c' \<and> conn_inv n c' \<and> spec_of c' = a"
proof (cases op)
  case (Op_Send here msg)
  have push: "conn_inv n (c\<lparr>tasks := tasks c @ [Send_task msg]\<rparr>)" if "in_server c"
    using inv that by (auto simp: conn_inv_def split: if_splits)
  show ?thesis
  proof (cases "state c = Connected \<and> here")
    case True
    then show ?thesis using SendInLoop_sim [OF inv, of msg] Op_Send a by (auto simp: Send_def spec_of_def)
  next
    case False
    then show ?thesis
      using Op_Send a inv push
      by (auto simp: Send_def spec_of_def split: if_splits)
  qed
next
  case (Op_Shutdown here)
  have push: "conn_inv n (c\<lparr>state := Disconnecting, tasks := tasks c @ [Shutdown_task]\<rparr>)" if "in_server c"
    using inv that by (auto simp: conn_inv_def split: if_splits)
  have dis: "conn_inv n (c\<lparr>state := Disconnecting\<rparr>)" if "state c = Connected" using inv that by (auto simp: conn_inv_def)
  show ?thesis
  proof (cases "state c = Connected \<and> here")
    case True
    have sp: "spec_of (c\<lparr>state := Disconnecting\<rparr>) = (spec_of c)\<lparr>sp_state := Disconnecting\<rparr>" by (simp add: spec_of_def)
    have "sp_state (spec_of c) = Connected" using True by (simp add: spec_of_def)
    then show ?thesis using ShutdownInLoop_sim [OF dis] True Op_Shutdown a sp by (auto simp: Shutdown_def)
  next
    case False
    then show ?thesis
      using Op_Shutdown a inv push
      by (auto simp: Shutdown_def spec_of_def split: if_splits)
  qed
next
  case Op_Hangup
  then have "in_server c" "spec_close (spec_of c) = a" using a by (auto simp: spec_of_def split: if_splits)
  then show ?thesis using HandleClose_sim [OF inv] Op_Hangup by simp
qed (use HandleRead_sim [OF inv] HandleWrite_sim [OF inv] Task_sim [OF inv] a in auto)

interpretation tcp: simulation "\<lambda>_. conn_inv n" spec_of conn_step spec_step bound for n bound :: nat
  by unfold_locales (rule conn_step_sim)

section \<open>The abstract machine\<close>

definition spec_new :: "bool \<Rightarrow> bool \<Rightarrow> spec" where
  "spec_new conn_handler msg_handler =
     \<lparr>sp_state = Connected, sp_open = True, sp_handlers = (conn_handler, msg_handler), sp_tasks = [], sp_writing = False,
      sp_out = [], sp_sent = [], sp_shut = False, sp_submitted = [], sp_in = [], sp_consumed = [], sp_delivered = []\<rparr>"

text \<open>Nothing is lost in either direction, and an open connection with bytes to send is writing.\<close>

definition spec_inv :: "spec \<Rightarrow> bool" where
  "spec_inv a \<longleftrightarrow> sp_submitted a = sp_sent a @ sp_out a \<and> sp_delivered a = sp_consumed a @ sp_in a \<and>
     (sp_open a \<and> sp_out a \<noteq> [] \<longrightarrow> sp_writing a) \<and> (sp_open a \<longrightarrow> Destroy_task \<notin> set (sp_tasks a))"

lemmas spec_defs = spec_send_def spec_shutdown_def spec_close_def spec_write_def

lemma spec_step_inv: "spec_inv a \<Longrightarrow> spec_step a op = Some a' \<Longrightarrow> spec_inv a'"
proof (cases op)
  case Op_Task
  assume "spec_inv a" and "spec_step a op = Some a'"
  then show ?thesis
    using Op_Task by (cases "sp_tasks a"; cases "hd (sp_tasks a)") (auto simp: spec_inv_def spec_defs Let_def split: if_splits)
next
  case (Op_Readable bytes k)
  assume "spec_inv a" and "spec_step a op = Some a'"
  then show ?thesis
    using Op_Readable
    by (auto simp: spec_inv_def spec_defs Let_def simp del: take_append drop_append split: if_splits option.splits list.splits)
qed (auto simp: spec_inv_def spec_defs Let_def split: if_splits)

lemma spec_run_inv: "ofold spec_step ops a = Some a' \<Longrightarrow> spec_inv a \<Longrightarrow> spec_inv a'"
  by (induction ops arbitrary: a) (auto split: option.splits intro: spec_step_inv)

lemma spec_new_inv: "spec_inv (spec_new h m)"
  by (simp add: spec_inv_def spec_new_def)

lemma spec_step_shut:
  assumes "spec_inv a" and "spec_step a op = Some a'" and "sp_open a" and "\<not> sp_shut a" and "sp_shut a'"
  shows "sp_out a' = []"
proof (cases op)
  case Op_Task
  then show ?thesis
    using assms by (cases "sp_tasks a"; cases "hd (sp_tasks a)") (auto simp: spec_inv_def spec_defs Let_def split: if_splits)
next
  case (Op_Readable bytes k)
  then show ?thesis
    using assms by (auto simp: spec_inv_def spec_defs Let_def split: if_splits option.splits list.splits)
qed (use assms in \<open>auto simp: spec_inv_def spec_defs Let_def split: if_splits\<close>)

lemma spec_handlers_step: "spec_step a op = Some a' \<Longrightarrow> sp_handlers a' = sp_handlers a"
proof (cases op)
  case Op_Task
  assume "spec_step a op = Some a'"
  then show ?thesis
    using Op_Task by (cases "sp_tasks a"; cases "hd (sp_tasks a)") (auto simp: spec_defs Let_def split: if_splits)
next
  case (Op_Readable bytes k)
  assume "spec_step a op = Some a'"
  then show ?thesis using Op_Readable by (auto simp: spec_defs Let_def split: if_splits option.splits list.splits)
qed (auto simp: spec_defs Let_def split: if_splits)

lemma spec_handlers_run: "ofold spec_step ops a = Some a' \<Longrightarrow> sp_handlers a' = sp_handlers a"
  by (induction ops arbitrary: a) (auto split: option.splits dest: spec_handlers_step)

text \<open>Once closed, running the queued tasks ends the connection.\<close>

lemma spec_drain:
  "sp_tasks a = ts @ [Destroy_task] \<Longrightarrow> Destroy_task \<notin> set ts \<Longrightarrow> fst (sp_handlers a) \<Longrightarrow>
   \<exists>a'. ofold spec_step (replicate (length ts + 1) Op_Task) a = Some a' \<and> sp_state a' = Disconnted"
proof (induction ts arbitrary: a)
  case (Cons t ts)
  then obtain a1 where a1: "spec_task t (a\<lparr>sp_tasks := ts @ [Destroy_task]\<rparr>) = Some a1"
      "sp_tasks a1 = ts @ [Destroy_task]" "sp_handlers a1 = sp_handlers a"
    by (cases t) (auto simp: spec_defs)
  then have "spec_step a Op_Task = Some a1" using Cons.prems(1) by simp
  then show ?case using Cons.IH [OF a1(2)] Cons.prems(2,3) a1(3) by simp
qed simp

section \<open>Properties\<close>

text \<open>A connection the server has just made: its channel exists, its descriptor is not registered.\<close>

definition accepted :: "nat \<Rightarrow> nat \<Rightarrow> int \<Rightarrow> poller \<Rightarrow> bool" where
  "accepted n chan fd p \<longleftrightarrow> poller_inv n p \<and> n < 2 ^ 31 \<and> channels p chan = Some (Channel_new fd) \<and> channel_table p fd = None"

lemma Establish_sim:
  assumes "accepted n chan fd p"
  shows "\<exists>c. EstablishConnection True (TCPConnection_new chan h m p) = Inr c \<and> conn_inv (Suc n) c \<and> spec_of c = spec_new h m"
proof -
  let ?c = "(TCPConnection_new chan h m p)\<lparr>state := Connected\<rparr>"
  have reg: "reg_channels (registry_of p) chan = Some (fd, 0)" "reg_fds (registry_of p) fd = None"
    using assms by (auto simp: accepted_def registry_of_def Channel_new_def IOEvent_None_def)
  then have "reg_events (\<lambda>e. e OR IOEvent_Read) chan (registry_of p) =
      Some \<lparr>reg_channels = (reg_channels (registry_of p))(chan \<mapsto> (fd, IOEvent_Read)), reg_fds = (reg_fds (registry_of p))(fd \<mapsto> (chan, False))\<rparr>"
    by (simp add: reg_events_def Let_def)
  from with_events_sim [OF _ _ this, of n] assms obtain p' where p': "EnableReading chan p = Inr p'" "poller_inv (Suc n) p'" "registry_of p' =
      \<lparr>reg_channels = (reg_channels (registry_of p))(chan \<mapsto> (fd, IOEvent_Read)), reg_fds = (reg_fds (registry_of p))(fd \<mapsto> (chan, False))\<rparr>"
    by (auto simp: accepted_def EnableReading_def)
  have ch: "chan_reg (?c\<lparr>loop_poller := p'\<rparr>) fd IOEvent_Read False" using p'(3) by (simp add: chan_reg_def TCPConnection_new_def)
  have "EstablishConnection True (TCPConnection_new chan h m p) = Inr (?c\<lparr>loop_poller := p'\<rparr>)"
    using p'(1) by (simp add: EstablishConnection_def on_channel_def TCPConnection_new_def)
  moreover have "conn_inv (Suc n) (?c\<lparr>loop_poller := p'\<rparr>)"
    using p'(2) ch by (auto simp: conn_inv_def open_events_def TCPConnection_new_def Buffer_default_def buffer_inv_sized)
  moreover have "spec_of (?c\<lparr>loop_poller := p'\<rparr>) = spec_new h m"
    using chan_reg_events [OF ch] by (simp add: spec_of_def spec_new_def TCPConnection_new_def Buffer_default_def contents_sized)
  ultimately show ?thesis by blast
qed

definition conn_run :: "nat \<Rightarrow> bool \<Rightarrow> bool \<Rightarrow> poller \<Rightarrow> conn_op list \<Rightarrow> connection res" where
  "conn_run chan h m p ops = rbind (EstablishConnection True (TCPConnection_new chan h m p)) (rfold conn_step ops)"

lemma conn_run_sim:
  assumes "accepted n chan fd p" and "ofold spec_step ops (spec_new h m) = Some a"
  shows "\<exists>c. conn_run chan h m p ops = Inr c \<and> conn_inv (Suc n) c \<and> spec_of c = a"
proof -
  obtain c where c: "EstablishConnection True (TCPConnection_new chan h m p) = Inr c" "conn_inv (Suc n) c" "spec_of c = spec_new h m"
    using Establish_sim [OF assms(1)] by blast
  from tcp.run_law [OF c(2), of 0 ops "length ops" a] assms(2) c show ?thesis by (simp add: conn_run_def)
qed

text \<open>
  Property C2. A connection refines the abstract machine and loses no byte: for every sequence of sends and
  shutdowns from any thread, of readiness events with any partial reads and writes, and of tasks of
  the loop, that keeps to the contract, no check of the connection, its buffers or the poller fails;
  the bytes given to the socket followed by those in the output buffer are the bytes submitted, in
  order; those consumed followed by those in the input buffer are the bytes delivered; and while the
  connection is open and has bytes left, it is registered for writing.
\<close>

theorem connection_refines_streams:
  assumes "accepted n chan fd p" and "ofold spec_step ops (spec_new h m) = Some a"
  shows "\<exists>c. conn_run chan h m p ops = Inr c \<and> spec_of c = a \<and>
    submitted c = socket_sent c @ contents (output_buf c) \<and> delivered c = consumed c @ contents (input_buf c) \<and>
    (in_server c \<and> contents (output_buf c) \<noteq> [] \<longrightarrow> conn_writing c = Inr True)"
proof -
  obtain c where c: "conn_run chan h m p ops = Inr c" "conn_inv (Suc n) c" "spec_of c = a"
    using conn_run_sim [OF assms] by blast
  have "spec_inv (spec_of c)" using spec_run_inv [OF assms(2) spec_new_inv] c(3) by simp
  then show ?thesis using c conn_inv_writing [OF c(2)] by (auto simp: spec_inv_def spec_of_def)
qed

definition example_net :: poller where
  "example_net = set_channel 1 (Channel_new 5) Poller_new"

lemma example_net_accepted: "accepted 0 1 5 example_net"
  by (simp add: accepted_def example_net_def set_channel_def Poller_new_def poller_inv_def Channel_new_def)

definition example_conn_ops :: "conn_op list" where
  "example_conn_ops = [Op_Send True [1, 2, 3], Op_Send False [4], Op_Writable 2, Op_Readable (Some [9, 8]) 1, Op_Task, Op_Shutdown True, Op_Writable 2]"

theorem connection_refines_streams_witness:
  "\<exists>c. conn_run 1 True True example_net example_conn_ops = Inr c \<and> socket_sent c = [1, 2, 3, 4] \<and>
     consumed c = [9] \<and> contents (input_buf c) = [8] \<and> socket_shut c"
proof -
  have "\<exists>a. ofold spec_step example_conn_ops (spec_new True True) = Some a \<and>
      sp_sent a = [1, 2, 3, 4] \<and> sp_consumed a = [9] \<and> sp_in a = [8] \<and> sp_shut a"
    by (simp add: example_conn_ops_def spec_new_def spec_defs Let_def)
  then obtain a where a: "ofold spec_step example_conn_ops (spec_new True True) = Some a"
      "sp_sent a = [1, 2, 3, 4]" "sp_consumed a = [9]" "sp_in a = [8]" "sp_shut a" by blast
  from connection_refines_streams [OF example_net_accepted a(1)] show ?thesis using a(2-5) by (auto simp: spec_of_def)
qed

text \<open>
  Fact. The socket is shut down only when everything has been written: in any run, at the step that calls
  \<open>shutdown(SHUT_WR)\<close> on an open connection, every byte submitted so far has been given to the socket.
\<close>

theorem shutdown_after_all_bytes:
  assumes "accepted n chan fd p" and "ofold spec_step (ops @ [op]) (spec_new h m) = Some a"
    and "conn_run chan h m p ops = Inr c" and "conn_step c op = Inr c'"
    and "in_server c" and "\<not> socket_shut c" and "socket_shut c'"
  shows "socket_sent c' = submitted c'"
proof -
  obtain a0 where a0: "ofold spec_step ops (spec_new h m) = Some a0" "spec_step a0 op = Some a"
    using assms(2) by (auto simp: ofold_append split: option.splits)
  have c: "conn_inv (Suc n) c" "spec_of c = a0" using conn_run_sim [OF assms(1) a0(1)] assms(3) by auto
  from conn_step_sim [OF c(1), of op a] c(2) a0(2) assms(4) have c': "spec_of c' = a" by auto
  have inv0: "spec_inv a0" by (rule spec_run_inv [OF a0(1) spec_new_inv])
  have "sp_out a = []"
    by (rule spec_step_shut [OF inv0 a0(2)]) (use assms(5-7) c(2) c' in \<open>auto simp: spec_of_def\<close>)
  moreover have "spec_inv a" by (rule spec_step_inv [OF inv0 a0(2)])
  ultimately show ?thesis using c' by (auto simp: spec_inv_def spec_of_def)
qed

theorem shutdown_after_all_bytes_witness:
  "\<exists>c c'. conn_run 1 True True example_net [Op_Send True [1, 2]] = Inr c \<and>
     rfold conn_step [Op_Shutdown True, Op_Writable 2] c = Inr c' \<and> socket_shut c' \<and> socket_sent c' = submitted c'"
proof -
  let ?ops = "[Op_Send True [1, 2], Op_Shutdown True]"
  have a1: "\<exists>a. ofold spec_step ?ops (spec_new True True) = Some a \<and> \<not> sp_shut a \<and> sp_open a"
    and a2: "\<exists>a. ofold spec_step (?ops @ [Op_Writable 2]) (spec_new True True) = Some a \<and> sp_shut a"
    by (simp_all add: spec_new_def spec_defs Let_def)
  from a1 conn_run_sim [OF example_net_accepted, of ?ops True True] obtain c where
    c: "conn_run 1 True True example_net ?ops = Inr c" "\<not> socket_shut c" "in_server c" by (auto simp: spec_of_def)
  from a2 conn_run_sim [OF example_net_accepted, of "?ops @ [Op_Writable 2]" True True] obtain c' where
    c': "conn_run 1 True True example_net (?ops @ [Op_Writable 2]) = Inr c'" "socket_shut c'" by (auto simp: spec_of_def)
  have step: "conn_step c (Op_Writable 2) = Inr c'"
    using c(1) c'(1) by (auto simp: conn_run_def rfold_append fault_simps)
  from a2 shutdown_after_all_bytes [OF example_net_accepted _ c(1) step c(3,2) c'(2)] have "socket_sent c' = submitted c'" by blast
  moreover from c(1) obtain c0 where "conn_run 1 True True example_net [Op_Send True [1, 2]] = Inr c0"
      "rfold conn_step [Op_Shutdown True] c0 = Inr c" by (auto simp: conn_run_def fault_simps)
  ultimately show ?thesis using step c'(2) by (auto simp: fault_simps)
qed

text \<open>
  Fact. A connection that hangs up is taken apart: from any state of an open connection with a connection
  handler, the hang-up followed by the tasks queued so far and by the destruction ends without a
  fault, in the final state, and with no entry of the poller's table left for the channel.
\<close>

theorem closed_connection_leaves_poller:
  assumes "accepted n chan fd p" and "ofold spec_step ops (spec_new True m) = Some a"
    and "conn_run chan True m p ops = Inr c" and "in_server c"
  shows "\<exists>c'. rfold conn_step (Op_Hangup # replicate (length (tasks c) + 1) Op_Task) c = Inr c' \<and>
    state c' = Disconnted \<and> tasks c' = [] \<and> (\<forall>x. channel_table (loop_poller c') x \<noteq> Some (conn_channel c'))"
proof -
  have c: "conn_inv (Suc n) c" "spec_of c = a" using conn_run_sim [OF assms(1,2)] assms(3) by auto
  have h: "fst (sp_handlers a)" using spec_handlers_run [OF assms(2)] by (simp add: spec_new_def)
  have op: "sp_open a" "sp_tasks a = tasks c" using c(2) assms(4) by (auto simp: spec_of_def)
  have "Destroy_task \<notin> set (sp_tasks a)" using spec_run_inv [OF assms(2) spec_new_inv] op(1) by (simp add: spec_inv_def)
  with spec_drain [of "spec_close a" "sp_tasks a"] h obtain a' where
    a': "ofold spec_step (replicate (length (tasks c) + 1) Op_Task) (spec_close a) = Some a'" "sp_state a' = Disconnted"
    using op(2) by (auto simp: spec_close_def)
  let ?ops = "Op_Hangup # replicate (length (tasks c) + 1) Op_Task"
  have "ofold spec_step ?ops (spec_of c) = Some a'" using a'(1) op(1) c(2) by simp
  from tcp.run_law [OF c(1) _ this, of 0 "length ?ops"] obtain c' where
    c': "rfold conn_step ?ops c = Inr c'" "conn_inv (Suc n) c'" "spec_of c' = a'" by auto
  then have gone: "state c' = Disconnted" using a'(2) by (auto simp: spec_of_def)
  then have un: "chan_unreg c'" "tasks c' = []" and pinv: "poller_inv (Suc n) (loop_poller c')" using c'(2) by (simp_all add: conn_inv_def)
  then obtain ch where ch: "channels (loop_poller c') (conn_channel c') = Some ch" "reg_fds (registry_of (loop_poller c')) (ch_fd ch) = None"
    by (auto simp: chan_unreg_def registry_channel_iff)
  have "\<not> reg_owner (registry_of (loop_poller c')) (conn_channel c') (ch_fd ch)" using ch(2) by (simp add: reg_owner_def)
  from not_owner_free [OF pinv ch(1) this] show ?thesis using c'(1) gone un(2) by blast
qed

theorem closed_connection_leaves_poller_witness:
  "\<exists>c c'. conn_run 1 True True example_net [Op_Send False [4]] = Inr c \<and>
     rfold conn_step [Op_Hangup, Op_Task, Op_Task] c = Inr c' \<and> state c' = Disconnted"
proof -
  have "\<exists>a. ofold spec_step [Op_Send False [4]] (spec_new True True) = Some a \<and> sp_open a \<and> length (sp_tasks a) = 1"
    by (simp add: spec_new_def)
  then obtain a where a: "ofold spec_step [Op_Send False [4]] (spec_new True True) = Some a" "sp_open a" "length (sp_tasks a) = 1" by blast
  from conn_run_sim [OF example_net_accepted a(1)] obtain c where
    c: "conn_run 1 True True example_net [Op_Send False [4]] = Inr c" "in_server c" "length (tasks c) = 1"
    using a(2,3) by (auto simp: spec_of_def)
  from closed_connection_leaves_poller [OF example_net_accepted a(1) c(1,2)] show ?thesis
    using c(1,3) by (auto simp: numeral_2_eq_2)
qed

text \<open>
  Fact. An empty message keeps the connection from shutting down: after \<open>Send("")\<close> on an idle connection
  the channel is registered for writing with nothing to write; \<open>write\<close> of no bytes returns 0, which
  \<open>HandleWrite\<close> takes for a failure, so that however often the socket is reported writable, writing
  stays enabled and a \<open>Shutdown\<close> that followed is never carried out.
\<close>

theorem empty_send_blocks_shutdown:
  assumes "conn_inv n c" and "state c = Connected" and "in_server c" and "contents (output_buf c) = []"
    and "\<not> socket_shut c" and "\<forall>r \<in> set rs. r \<le> 0"
  shows "\<exists>c'. rfold conn_step ([Op_Send True [], Op_Shutdown True] @ map Op_Writable rs) c = Inr c' \<and>
    conn_writing c' = Inr True \<and> state c' = Disconnecting \<and> \<not> socket_shut c'"
proof -
  let ?a = "(spec_of c)\<lparr>sp_writing := True, sp_state := Disconnecting\<rparr>"
  have "ofold spec_step [Op_Send True [], Op_Shutdown True] (spec_of c) = Some ?a"
    using assms(2) by (simp add: spec_of_def spec_defs)
  moreover have "ofold spec_step (map Op_Writable rs) ?a = Some ?a"
    using assms(3,4,6) by (induction rs) (auto simp: spec_of_def)
  ultimately have run: "ofold spec_step ([Op_Send True [], Op_Shutdown True] @ map Op_Writable rs) (spec_of c) = Some ?a"
    by (simp only: ofold_append option.case)
  from tcp.run_law [OF assms(1) _ run, of 0 "length rs + 2"] obtain c' where
    c': "rfold conn_step ([Op_Send True [], Op_Shutdown True] @ map Op_Writable rs) c = Inr c'" "conn_inv n c'" "spec_of c' = ?a"
    by auto
  have "conn_writing c' = Inr True" using conn_inv_writing [OF c'(2)] c'(3) by simp
  moreover have "state c' = Disconnecting" using arg_cong [OF c'(3), of sp_state] by (simp add: spec_of_def)
  moreover have "\<not> socket_shut c'" using arg_cong [OF c'(3), of sp_shut] assms(5) by (simp add: spec_of_def)
  ultimately show ?thesis using c'(1) by blast
qed

lemma example_conn: "\<exists>c. conn_run 1 h True example_net ops = Inr c \<and> conn_inv 1 c \<and> spec_of c = a"
  if "ofold spec_step ops (spec_new h True) = Some a"
  using conn_run_sim [OF example_net_accepted that] by simp

theorem empty_send_blocks_shutdown_witness:
  "\<exists>c c'. conn_run 1 True True example_net [] = Inr c \<and>
     rfold conn_step [Op_Send True [], Op_Shutdown True, Op_Writable 0, Op_Writable (- 1)] c = Inr c' \<and> \<not> socket_shut c'"
proof -
  obtain c where c: "conn_run 1 True True example_net [] = Inr c" "conn_inv 1 c" "spec_of c = spec_new True True"
    using example_conn [of "[]" True] by auto
  then have "state c = Connected" "in_server c" "contents (output_buf c) = []" "\<not> socket_shut c"
    by (auto simp: spec_of_def spec_new_def)
  from empty_send_blocks_shutdown [OF c(2) this, of "[0, - 1]"] show ?thesis using c(1) by auto
qed

text \<open>
  Fact. Closing without a connection handler throws: \<open>EstablishConnection\<close> calls the handler only when
  one is set, \<open>DestroyConnection\<close> calls it unchecked, so that on a server that was given no connection
  handler the first connection to close throws out of the loop, before its channel is removed.
\<close>

theorem destroy_without_handler_throws:
  assumes "conn_inv n c" and "state c \<noteq> Disconnted" and "\<not> in_server c" and "\<not> connection_handler c"
    and "tasks c = [Destroy_task]"
  shows "conn_step c Op_Task = Inl (Thrown ''bad_function_call'')"
proof -
  let ?c = "c\<lparr>tasks := [], state := Disconnted\<rparr>"
  from assms obtain fd e where "chan_reg c fd e True" by (auto simp: conn_inv_def)
  then obtain p where "on_channel DisableAll ?c = Inr (?c\<lparr>loop_poller := p\<rparr>)"
    using switch_ok [of n ?c fd e True "\<lambda>_. IOEvent_None"] assms(1) by (auto simp: conn_inv_def DisableAll_def)
  then show ?thesis using assms(4,5) by (simp add: run_conn_task_def DestroyConnection_def)
qed

theorem destroy_without_handler_throws_witness:
  "\<exists>c. conn_run 1 False True example_net [Op_Hangup] = Inr c \<and> conn_step c Op_Task = Inl (Thrown ''bad_function_call'')"
proof -
  obtain c where c: "conn_run 1 False True example_net [Op_Hangup] = Inr c" "conn_inv 1 c" "spec_of c = spec_close (spec_new False True)"
    using example_conn [of "[Op_Hangup]" False "spec_close (spec_new False True)"] by (auto simp: spec_new_def)
  then have "state c \<noteq> Disconnted" "\<not> in_server c" "\<not> connection_handler c" "tasks c = [Destroy_task]"
    by (auto simp: spec_of_def spec_new_def spec_close_def)
  from destroy_without_handler_throws [OF c(2) this] show ?thesis using c(1) by blast
qed

text \<open>
  Fact. A message sent by another thread while the connection closes puts it back into the poller: the
  state is still \<open>Connected\<close> between \<open>HandleClose\<close> and \<open>DestroyConnection\<close>, so \<open>Send\<close> queues its task
  behind the destruction; the task then finds writing disabled and enables it, which registers the
  channel again. The kernel is asked to watch the descriptor of a connection that has been destroyed,
  on behalf of a channel whose memory the loop releases with the task.
\<close>

theorem send_while_closing_reregisters:
  assumes inv: "conn_inv n c" and n: "n < 2 ^ 31" and "state c = Connected" and "\<not> in_server c" and "connection_handler c"
    and "tasks c = [Destroy_task]" and fd: "chan_reg c fd e True"
  shows "\<exists>c'. rfold conn_step [Op_Send False msg, Op_Task, Op_Task] c = Inr c' \<and> state c' = Disconnted \<and>
    (fd, ucast IOEvent_Write) \<in> kernel_watches (loop_poller c')"
proof -
  from Destroy_sim [OF inv fd assms(4,5)] obtain d where
    d: "DestroyConnection True (c\<lparr>tasks := []\<rparr>) = Inr d" "conn_inv n d"
      "reg_channels (registry_of (loop_poller d)) (conn_channel d) = Some (fd, IOEvent_None)"
      "reg_fds (registry_of (loop_poller d)) fd = None" "sp_state (spec_of d) = Disconnted" by auto
  then have st: "state d = Disconnted" "tasks d = []" by (auto simp: spec_of_def conn_inv_def)
  from d(2) obtain b where b: "Write (output_buf d) msg = Inr b" using Write_ok by (auto simp: conn_inv_def)
  let ?d = "d\<lparr>output_buf := b, submitted := submitted d @ msg\<rparr>"
  let ?r = "\<lparr>reg_channels = (reg_channels (registry_of (loop_poller d)))(conn_channel d \<mapsto> (fd, IOEvent_Write)),
    reg_fds = (reg_fds (registry_of (loop_poller d)))(fd \<mapsto> (conn_channel d, False))\<rparr>"
  have "reg_events (\<lambda>e. e OR IOEvent_Write) (conn_channel d) (registry_of (loop_poller d)) = Some ?r"
    using d(3,4) by (simp add: reg_events_def Let_def)
  from with_events_sim [OF _ n this] d(2) obtain p where
    p: "EnableWriting (conn_channel d) (loop_poller d) = Inr p" "poller_inv (Suc n) p" "registry_of p = ?r"
    by (auto simp: conn_inv_def EnableWriting_def)
  have ev: "chan_events ?d = IOEvent_None" "channels (loop_poller ?d) (conn_channel ?d) \<noteq> None"
    using d(3) by (auto simp: chan_events_def registry_channel_iff)
  have "SendInLoop True msg d = Inr (?d\<lparr>loop_poller := p\<rparr>)"
    using b conn_writing_eq [OF ev(2)] ev(1) p(1) by (simp add: SendInLoop_def on_channel_def)
  moreover have "DestroyConnection True (c\<lparr>tasks := [Send_task msg]\<rparr>) = Inr (d\<lparr>tasks := [Send_task msg]\<rparr>)"
    by (rule Destroy_tasks [OF d(1)])
  moreover have "d\<lparr>tasks := []\<rparr> = d" using st(2) by simp
  ultimately have "rfold conn_step [Op_Send False msg, Op_Task, Op_Task] c = Inr (?d\<lparr>loop_poller := p\<rparr>)"
    using assms(3,6) by (simp add: Send_def run_conn_task_def)
  moreover have "(fd, ucast IOEvent_Write) \<in> kernel_watches p"
    using kernel_watches_registry [OF p(2)] p(3) by (auto simp: reg_watches_def)
  ultimately show ?thesis using st(1) by (intro exI [of _ "?d\<lparr>loop_poller := p\<rparr>"]) simp
qed

theorem send_while_closing_reregisters_witness:
  "\<exists>c c'. conn_run 1 True True example_net [Op_Hangup] = Inr c \<and>
     rfold conn_step [Op_Send False [7], Op_Task, Op_Task] c = Inr c' \<and> state c' = Disconnted \<and> kernel_watches (loop_poller c') \<noteq> {}"
proof -
  obtain c where c: "conn_run 1 True True example_net [Op_Hangup] = Inr c" "conn_inv 1 c" "spec_of c = spec_close (spec_new True True)"
    using example_conn [of "[Op_Hangup]" True "spec_close (spec_new True True)"] by (auto simp: spec_new_def)
  then have st: "state c = Connected" "\<not> in_server c" "connection_handler c" "tasks c = [Destroy_task]"
    by (auto simp: spec_of_def spec_new_def spec_close_def)
  then obtain fd e where fd: "chan_reg c fd e True" using c(2) by (auto simp: conn_inv_def)
  from send_while_closing_reregisters [OF c(2) _ st fd] show ?thesis using c(1) by fastforce
qed

text \<open>
  Fact. A hang-up reported together with urgent data closes twice and fails: \<open>HandleEvents\<close> calls the
  close handler and then, for the urgent data, the read handler; when the read finds the end of the
  stream, the connection is no longer in the server's table.
\<close>

theorem hangup_with_urgent_data_fails:
  assumes "conn_inv n c" and "in_server c"
  shows "dispatch (ch\<lparr>received_events := POLLHUP OR POLLPRI, handlers := UNIV\<rparr>) = [Close_handler, Read_handler] \<and>
    (\<exists>c'. HandleClose c = Inr c' \<and> HandleRead (Some []) k c' = Inl Ensure_failed)"
proof -
  from HandleClose_sim [OF assms] obtain c' where c': "HandleClose c = Inr c'" "conn_inv n c'" "spec_of c' = spec_close (spec_of c)" by blast
  have st: "\<not> in_server c'" "state c' = state c"
    using arg_cong [OF c'(3), of sp_open] arg_cong [OF c'(3), of sp_state] by (simp_all add: spec_of_def spec_close_def)
  have "state c = Connected \<or> state c = Disconnecting" using assms by (cases "state c") (auto simp: conn_inv_def)
  then obtain fd e where e: "chan_reg c' fd e True" using c'(2) st by (auto simp: conn_inv_def)
  obtain b where b: "ReadFD (Some []) (input_buf c') = Inr (0, b)"
    using ReadFD_ok [of "input_buf c'" "[]"] c'(2) by (auto simp: conn_inv_def)
  let ?c = "c'\<lparr>input_buf := b, delivered := delivered c'\<rparr>"
  from switch_ok [of n ?c fd e True "\<lambda>_. IOEvent_None"] c'(2) e obtain p where
    "on_channel DisableAll ?c = Inr (?c\<lparr>loop_poller := p\<rparr>)" by (auto simp: conn_inv_def DisableAll_def)
  then have "HandleRead (Some []) k c' = Inl Ensure_failed"
    using b st by (simp add: HandleRead_def HandleClose_def RemoveConnection_def guard_def)
  then show ?thesis
    using c'(1) by (simp add: dispatch_def Let_def POLLHUP_def POLLPRI_def POLLIN_def POLLERR_def POLLNVAL_def POLLRDHUP_def POLLOUT_def)
qed

end
