(* ===== verification/Tcp_Server.thy ===== *)
theory Tcp_Server
  imports Poller
begin

text \<open>
  The acceptor and the connection table of the server (\<open>src/NetworkInfra/src/acceptor.cpp\<close>,
  \<open>tcp_server.cpp\<close>). A connection is filed under a name made of the server's name and a 32-bit
  counter; making the name is the business of a formatting library, here a function that tells
  different numbers apart. The theory shows that the table holds exactly the connections that were
  accepted and not removed, up to \<open>2 ^ 32\<close> connections, and what happens after that.
\<close>

section \<open>The acceptor\<close>

record acceptor =
  listenning :: bool
  listener_channel :: nat
  new_connection_handler :: bool
  acceptor_poller :: poller

text \<open>The result of \<open>listen\<close> is an argument.\<close>

definition Listen :: "bool \<Rightarrow> bool \<Rightarrow> acceptor \<Rightarrow> acceptor res" where
  "Listen on_loop_thread listen_ok a =
     rbind (guard on_loop_thread Ensure_failed) (\<lambda>_.
     let a = a\<lparr>listenning := True\<rparr> in
     rbind (guard listen_ok Ensure_failed) (\<lambda>_.
     rbind (EnableReading (listener_channel a) (acceptor_poller a)) (\<lambda>p. Inr (a\<lparr>acceptor_poller := p\<rparr>))))"

text \<open>\<open>fd\<close> is what \<open>accept4\<close> returned: the descriptor handed on, if there is a handler; else it is closed.\<close>

definition HandleNewConnection_fd :: "int \<Rightarrow> acceptor \<Rightarrow> int option res" where
  "HandleNewConnection_fd fd a =
     rbind (guard (fd \<noteq> - 1) Ensure_failed) (\<lambda>_. Inr (if new_connection_handler a then Some fd else None))"

text \<open>The task \<open>Start\<close> runs on the loop thread.\<close>

definition Start_task :: "bool \<Rightarrow> acceptor \<Rightarrow> acceptor res" where
  "Start_task listen_ok a = (if \<not> listenning a then Listen True listen_ok a else Inr a)"

section \<open>The table of connections\<close>

record 'c server =
  server_name :: string
  next_conn_id :: "32 word"
  connections :: "string \<rightharpoonup> 'c"

definition TCPServer_new :: "string \<Rightarrow> 'c server" where
  "TCPServer_new name = \<lparr>server_name = name, next_conn_id = 0, connections = Map.empty\<rparr>"

text \<open>\<open>unordered_map::insert\<close> keeps an entry that is already there.\<close>

definition HandleNewConnection :: "(string \<Rightarrow> 32 word \<Rightarrow> string) \<Rightarrow> 'c \<Rightarrow> 'c server \<Rightarrow> string \<times> 'c server" where
  "HandleNewConnection format conn s =
     (let conn_name = format (server_name s) (next_conn_id s);
          s = s\<lparr>next_conn_id := next_conn_id s + 1\<rparr>
      in (conn_name, if connections s conn_name = None then s\<lparr>connections := (connections s)(conn_name \<mapsto> conn)\<rparr> else s))"

definition server_RemoveConnection :: "string \<Rightarrow> 'c server \<Rightarrow> 'c server res" where
  "server_RemoveConnection name s =
     rbind (guard (connections s name \<noteq> None) Ensure_failed) (\<lambda>_.
     Inr (s\<lparr>connections := (connections s)(name := None)\<rparr>))"

datatype 'c server_op = Op_Accept 'c | Op_Close nat

text \<open>\<open>Op_Close i\<close> closes the connection that was accepted as number \<open>i\<close>.\<close>

fun server_step :: "(string \<Rightarrow> 32 word \<Rightarrow> string) \<Rightarrow> 'c server \<Rightarrow> 'c server_op \<Rightarrow> 'c server res" where
  "server_step format s (Op_Accept conn) = Inr (snd (HandleNewConnection format conn s))"
| "server_step format s (Op_Close i) = server_RemoveConnection (format (server_name s) (of_nat i)) s"

section \<open>The specification\<close>

text \<open>The connections accepted so far, each with a mark whether it is still open.\<close>

type_synonym 'c conns = "('c \<times> bool) list"

fun conns_step :: "'c conns \<Rightarrow> 'c server_op \<Rightarrow> 'c conns option" where
  "conns_step cs (Op_Accept conn) = Some (cs @ [(conn, True)])"
| "conns_step cs (Op_Close i) =
     (if i < length cs \<and> snd (cs ! i) then Some (cs[i := (fst (cs ! i), False)]) else None)"

definition server_inv :: "(string \<Rightarrow> 32 word \<Rightarrow> string) \<Rightarrow> string \<Rightarrow> 'c conns \<Rightarrow> 'c server \<Rightarrow> bool" where
  "server_inv format name cs s \<longleftrightarrow> server_name s = name \<and> next_conn_id s = of_nat (length cs) \<and>
     (\<forall>i < length cs. connections s (format name (of_nat i)) = (if snd (cs ! i) then Some (fst (cs ! i)) else None)) \<and>
     (\<forall>x. connections s x \<noteq> None \<longrightarrow> (\<exists>i < length cs. x = format name (of_nat i)))"

lemma name_eq:
  assumes "inj (format name)" and "i < 2 ^ 32" and "j < 2 ^ 32"
  shows "format name (of_nat i :: 32 word) = format name (of_nat j) \<longleftrightarrow> i = j"
  using assms by (auto simp: inj_eq word_of_nat_eq_iff take_bit_nat_eq_self)

lemma server_step_inv:
  assumes inj: "inj (format name)" and inv: "server_inv format name cs s"
    and step: "conns_step cs op = Some cs'" and len: "length cs' \<le> 2 ^ 32"
  shows "\<exists>s'. server_step format s op = Inr s' \<and> server_inv format name cs' s'"
proof (cases op)
  case (Op_Accept conn)
  then have cs': "cs' = cs @ [(conn, True)]" "length cs < 2 ^ 32" using step len by auto
  let ?new = "format name (of_nat (length cs))"
  have other: "i < length cs \<Longrightarrow> format name (of_nat i) \<noteq> ?new" for i using name_eq [of format name i "length cs", OF inj] cs'(2) by simp
  then have "connections s ?new = None" using inv unfolding server_inv_def by metis
  then have "server_step format s op = Inr (s\<lparr>next_conn_id := next_conn_id s + 1, connections := (connections s)(?new \<mapsto> conn)\<rparr>)"
    using inv Op_Accept by (simp add: HandleNewConnection_def server_inv_def Let_def)
  moreover have "server_inv format name cs' (s\<lparr>next_conn_id := next_conn_id s + 1, connections := (connections s)(?new \<mapsto> conn)\<rparr>)"
    using inv other unfolding server_inv_def cs'(1) by (auto simp: nth_append less_Suc_eq)
  ultimately show ?thesis by blast
next
  case (Op_Close i)
  then have i: "i < length cs" "snd (cs ! i)" "cs' = cs[i := (fst (cs ! i), False)]" using step by (auto split: if_splits)
  let ?s = "s\<lparr>connections := (connections s)(format name (of_nat i) := None)\<rparr>"
  have "connections s (format name (of_nat i)) = Some (fst (cs ! i))" "server_name s = name" using inv i by (auto simp: server_inv_def)
  then have "server_step format s op = Inr ?s" using Op_Close by (simp add: server_RemoveConnection_def)
  moreover have "server_inv format name cs' ?s"
  proof -
    have "format name (of_nat j) = format name (of_nat i) \<longleftrightarrow> j = i" if "j < length cs" for j
      using name_eq [of format name j i, OF inj] that i len by simp
    then show ?thesis using inv i unfolding server_inv_def by (auto simp: nth_list_update)
  qed
  ultimately show ?thesis by blast
qed

lemma conns_length: "ofold conns_step ops cs = Some cs' \<Longrightarrow> length cs \<le> length cs'"
proof (induction ops arbitrary: cs)
  case (Cons op ops)
  then obtain cs1 where "conns_step cs op = Some cs1" "length cs1 \<le> length cs'" by (auto split: option.splits)
  then show ?case by (cases op) (auto split: if_splits)
qed simp

lemma server_run:
  assumes "inj (format name)" and "server_inv format name cs s"
    and "ofold conns_step ops cs = Some cs'" and "length cs' \<le> 2 ^ 32"
  shows "\<exists>s'. rfold (server_step format) ops s = Inr s' \<and> server_inv format name cs' s'"
  using assms(2,3)
proof (induction ops arbitrary: cs s)
  case (Cons op ops)
  then obtain cs1 where cs1: "conns_step cs op = Some cs1" "ofold conns_step ops cs1 = Some cs'" by (auto split: option.splits)
  have "length cs1 \<le> 2 ^ 32" using conns_length [OF cs1(2)] assms(4) by simp
  from server_step_inv [of format name, OF assms(1) Cons.prems(1) cs1(1) this] show ?case using Cons.IH [OF _ cs1(2)] by auto
qed simp

lemma server_new_inv: "server_inv format name [] (TCPServer_new name)"
  by (simp add: server_inv_def TCPServer_new_def)

section \<open>Properties\<close>

text \<open>
  Fact. The table of the server is exact: after any sequence of at most \<open>2 ^ 32\<close> accepted connections and
  of closings of open ones, no check has failed, every connection still open is in the table under
  its own name, every closed one is gone, and nothing else is there.
\<close>

theorem server_table_exact:
  assumes "inj (format name)" and "ofold conns_step ops [] = Some cs" and "length cs \<le> 2 ^ 32"
  shows "\<exists>s. rfold (server_step format) ops (TCPServer_new name) = Inr s \<and>
    (\<forall>i < length cs. connections s (format name (of_nat i)) = (if snd (cs ! i) then Some (fst (cs ! i)) else None)) \<and>
    (\<forall>x. connections s x \<noteq> None \<longrightarrow> (\<exists>i < length cs. x = format name (of_nat i)))"
  using server_run [of format name, OF assms(1) server_new_inv assms(2,3)] by (auto simp: server_inv_def)

text \<open>A formatting function with the property the server relies on.\<close>

definition unary_format :: "string \<Rightarrow> 32 word \<Rightarrow> string" where
  "unary_format name i = name @ replicate (unat i) CHR ''#''"

lemma unary_format_inj: "inj (unary_format name)"
proof (rule injI)
  fix x y :: "32 word"
  assume "unary_format name x = unary_format name y"
  then have "length (replicate (unat x) CHR ''#'') = length (replicate (unat y) CHR ''#'')"
    unfolding unary_format_def by (metis same_append_eq)
  then show "x = y" by (simp add: word_unat_eq_iff)
qed

theorem server_table_exact_witness:
  "\<exists>s. rfold (server_step unary_format) [Op_Accept 10, Op_Accept (20 :: nat), Op_Close 0] (TCPServer_new ''srv'') = Inr s \<and>
     connections s ''srv'' = None \<and> connections s ''srv#'' = Some 20"
proof -
  have run: "ofold conns_step [Op_Accept 10, Op_Accept (20 :: nat), Op_Close 0] [] = Some [(10, False), (20, True)]" by simp
  from server_table_exact [of unary_format "''srv''", OF unary_format_inj run] obtain s where
    s: "rfold (server_step unary_format) [Op_Accept 10, Op_Accept (20 :: nat), Op_Close 0] (TCPServer_new ''srv'') = Inr s"
      "connections s (unary_format ''srv'' (of_nat 0)) = None" "connections s (unary_format ''srv'' (of_nat 1)) = Some 20"
    by fastforce
  then show ?thesis by (simp add: unary_format_def)
qed

text \<open>
  Fact. After \<open>2 ^ 32\<close> connections the counter starts again: if the first connection is still open, the next
  one is given its name, \<open>insert\<close> keeps the old entry, and the new connection is in no table, so
  that nothing owns it once the handler returns.
\<close>

theorem server_loses_connection_after_wrap:
  assumes "inj (format name)" and "ofold conns_step ops [] = Some cs" and "length cs = 2 ^ 32" and "snd (cs ! 0)"
  shows "\<exists>s. rfold (server_step format) ops (TCPServer_new name) = Inr s \<and>
    connections (snd (HandleNewConnection format conn s)) = connections s"
proof -
  from server_run [of format name, OF assms(1) server_new_inv assms(2)] assms(3) obtain s where
    s: "rfold (server_step format) ops (TCPServer_new name) = Inr s" "server_inv format name cs s" by auto
  have "next_conn_id s = 0" using s(2) assms(3) by (simp add: server_inv_def)
  moreover have "connections s (format name 0) \<noteq> None" "server_name s = name"
    using s(2) assms(3,4) unfolding server_inv_def by (auto dest!: spec [of _ 0])
  ultimately show ?thesis using s(1) by (auto simp: HandleNewConnection_def Let_def)
qed

text \<open>
  Fact. \<open>Start\<close> may be called twice: a second task finds the server listening and changes nothing.
\<close>

theorem Start_twice: "Start_task ok a = Inr a' \<Longrightarrow> Start_task ok' a' = Inr a'"
  by (auto simp: Start_task_def Listen_def fault_simps split: if_splits)

end
