(* ===== verification/Signal_Slot.thy ===== *)
theory Signal_Slot
  imports Simulation
begin

text \<open>
  Signals and slots (\<open>src/Signal-Slot/src/signals.h\<close>). A signal keeps its slots in a vector behind a
  shared pointer; an invocation takes a reference to the vector under the mutex and walks over it
  without, and a change under the mutex copies the vector first when somebody else refers to it.
  Handlers and other threads may connect and disconnect in the middle of an invocation. The theory
  keeps the vectors in an explicit store with the references to them and shows that the signal
  refines one where every invocation walks over its own copy. It also shows that the argument of an
  invocation is given away to the first slot.
\<close>

section \<open>The signal\<close>

text \<open>
  A slot: the identity of its control block, its function, and the object it is bound to weakly.
\<close>

record slot =
  slot_id :: nat
  fn :: nat
  weakly_bound_object :: "nat option"

text \<open>
  An invocation in progress: the vector it holds a reference to, the position and the end of its
  loop, both fixed by the loop, and the slots it has called.
\<close>

record invocation =
  held :: nat
  pos :: nat
  until :: nat
  called :: "slot list"

text \<open>
  \<open>vectors\<close> is the store, \<open>fresh_vector\<close> its next free address, \<open>slots\<close> the pointer \<open>slots_\<close>, \<open>running\<close>
  the invocations in progress and \<open>alive\<close> the objects that slots may be bound to.
\<close>

record signal =
  vectors :: "nat \<Rightarrow> slot list"
  fresh_vector :: nat
  slots :: nat
  running :: "nat \<rightharpoonup> invocation"
  alive :: "nat set"

definition Signal_new :: "nat set \<Rightarrow> signal" where
  "Signal_new objs = \<lparr>vectors = (\<lambda>_. []), fresh_vector = 1, slots = 0, running = Map.empty, alive = objs\<rparr>"

text \<open>\<open>slots_.unique()\<close>: no invocation refers to the vector.\<close>

definition unique :: "signal \<Rightarrow> bool" where
  "unique s \<longleftrightarrow> (\<forall>t i. running s t = Some i \<longrightarrow> held i \<noteq> slots s)"

definition CopyIfNeeded :: "signal \<Rightarrow> signal" where
  "CopyIfNeeded s =
     (if \<not> unique s
      then s\<lparr>vectors := (vectors s)(fresh_vector s := vectors s (slots s)), slots := fresh_vector s,
             fresh_vector := fresh_vector s + 1\<rparr>
      else s)"

definition AddSlot :: "slot \<Rightarrow> signal \<Rightarrow> signal" where
  "AddSlot sl s =
     (let s = CopyIfNeeded s in s\<lparr>vectors := (vectors s)(slots s := vectors s (slots s) @ [sl])\<rparr>)"

text \<open>\<open>find_if\<close> with the comparison of owners, and \<open>erase\<close>.\<close>

fun erase_slot :: "nat \<Rightarrow> slot list \<Rightarrow> slot list" where
  "erase_slot x [] = []"
| "erase_slot x (sl # sls) = (if slot_id sl = x then sls else sl # erase_slot x sls)"

definition RemoveSlot :: "nat \<Rightarrow> signal \<Rightarrow> signal" where
  "RemoveSlot x s =
     (let s = CopyIfNeeded s in s\<lparr>vectors := (vectors s)(slots s := erase_slot x (vectors s (slots s)))\<rparr>)"

definition RemoveAllSlots :: "signal \<Rightarrow> signal" where
  "RemoveAllSlots s = (let s = CopyIfNeeded s in s\<lparr>vectors := (vectors s)(slots s := [])\<rparr>)"

definition Connect :: "nat \<Rightarrow> nat \<Rightarrow> nat option \<Rightarrow> signal \<Rightarrow> signal" where
  "Connect x f obj s = AddSlot \<lparr>slot_id = x, fn = f, weakly_bound_object = obj\<rparr> s"

text \<open>
  \<open>Slot::Disconnect\<close>, \<open>SlotImpl::Dispose\<close>: nothing when the slot has gone already, that is when neither
  the signal's vector nor one that an invocation holds refers to it.
\<close>

definition slot_alive :: "nat \<Rightarrow> signal \<Rightarrow> bool" where
  "slot_alive x s \<longleftrightarrow> x \<in> slot_id ` set (vectors s (slots s)) \<or>
     (\<exists>t i. running s t = Some i \<and> x \<in> slot_id ` set (vectors s (held i)))"

definition Disconnect :: "nat \<Rightarrow> signal \<Rightarrow> signal" where
  "Disconnect x s = (if slot_alive x s then RemoveSlot x s else s)"

text \<open>\<open>Invoke\<close>: taking the reference, one round of the loop, and letting the reference go.\<close>

definition Invoke_begin :: "nat \<Rightarrow> signal \<Rightarrow> signal" where
  "Invoke_begin t s =
     s\<lparr>running := (running s)(t \<mapsto> \<lparr>held = slots s, pos = 0, until = length (vectors s (slots s)), called = []\<rparr>)\<rparr>"

definition may_call :: "nat set \<Rightarrow> slot \<Rightarrow> bool" where
  "may_call objs sl \<longleftrightarrow> (case weakly_bound_object sl of None \<Rightarrow> True | Some obj \<Rightarrow> obj \<in> objs)"

definition Invoke_next :: "nat \<Rightarrow> signal \<Rightarrow> signal res" where
  "Invoke_next t s = (case running s t of
     None \<Rightarrow> Inl Null_deref
   | Some i \<Rightarrow>
       rbind (guard (pos i < until i \<and> until i = length (vectors s (held i))) Out_of_bounds) (\<lambda>_.
       let sl = vectors s (held i) ! pos i;
           i = i\<lparr>pos := pos i + 1, called := (if may_call (alive s) sl then called i @ [sl] else called i)\<rparr>
       in Inr (s\<lparr>running := (running s)(t \<mapsto> i)\<rparr>)))"

definition Invoke_end :: "nat \<Rightarrow> signal \<Rightarrow> signal" where
  "Invoke_end t s = s\<lparr>running := (running s)(t := None)\<rparr>"

datatype signal_op =
    Op_Connect nat nat "nat option"
  | Op_Disconnect nat
  | Op_DisconnectAll
  | Op_Die nat
  | Op_Begin nat
  | Op_Next nat
  | Op_End nat

fun signal_step :: "signal \<Rightarrow> signal_op \<Rightarrow> signal res" where
  "signal_step s (Op_Connect x f obj) = Inr (Connect x f obj s)"
| "signal_step s (Op_Disconnect x) = Inr (Disconnect x s)"
| "signal_step s Op_DisconnectAll = Inr (RemoveAllSlots s)"
| "signal_step s (Op_Die obj) = Inr (s\<lparr>alive := alive s - {obj}\<rparr>)"
| "signal_step s (Op_Begin t) = Inr (Invoke_begin t s)"
| "signal_step s (Op_Next t) = Invoke_next t s"
| "signal_step s (Op_End t) = Inr (Invoke_end t s)"

section \<open>The specification\<close>

text \<open>
  The slots connected now, and for each invocation the slots it still has to visit and those it has
  called. An invocation number is used by one invocation at a time and ends when nothing is left;
  control blocks have different identities.
\<close>

record signal_spec =
  connected :: "slot list"
  visiting :: "nat \<rightharpoonup> slot list \<times> slot list"
  living :: "nat set"

fun spec_step :: "signal_spec \<Rightarrow> signal_op \<Rightarrow> signal_spec option" where
  "spec_step a (Op_Connect x f obj) =
     (if x \<in> slot_id ` set (connected a) then None
      else Some (a\<lparr>connected := connected a @ [\<lparr>slot_id = x, fn = f, weakly_bound_object = obj\<rparr>]\<rparr>))"
| "spec_step a (Op_Disconnect x) = Some (a\<lparr>connected := filter (\<lambda>sl. slot_id sl \<noteq> x) (connected a)\<rparr>)"
| "spec_step a Op_DisconnectAll = Some (a\<lparr>connected := []\<rparr>)"
| "spec_step a (Op_Die obj) = Some (a\<lparr>living := living a - {obj}\<rparr>)"
| "spec_step a (Op_Begin t) =
     (if visiting a t = None then Some (a\<lparr>visiting := (visiting a)(t \<mapsto> (connected a, []))\<rparr>) else None)"
| "spec_step a (Op_Next t) = (case visiting a t of
     Some (sl # rest, cs) \<Rightarrow>
       Some (a\<lparr>visiting := (visiting a)(t \<mapsto> (rest, if may_call (living a) sl then cs @ [sl] else cs))\<rparr>)
   | _ \<Rightarrow> None)"
| "spec_step a (Op_End t) = (case visiting a t of
     Some ([], cs) \<Rightarrow> Some (a\<lparr>visiting := (visiting a)(t := None)\<rparr>)
   | _ \<Rightarrow> None)"

definition signal_abs :: "signal \<Rightarrow> signal_spec" where
  "signal_abs s =
     \<lparr>connected = vectors s (slots s),
      visiting = (\<lambda>t. map_option (\<lambda>i. (drop (pos i) (vectors s (held i)), called i)) (running s t)),
      living = alive s\<rparr>"

text \<open>
  Addresses in use are below the next free one, and the loop of an invocation ends where its vector
  ends.
\<close>

definition signal_inv :: "signal \<Rightarrow> bool" where
  "signal_inv s \<longleftrightarrow> slots s < fresh_vector s \<and> distinct (map slot_id (vectors s (slots s))) \<and>
     (\<forall>t i. running s t = Some i \<longrightarrow> held i < fresh_vector s \<and> until i = length (vectors s (held i)))"

section \<open>Refinement\<close>

lemma unique_held: "unique s \<Longrightarrow> running s t = Some i \<Longrightarrow> held i \<noteq> slots s"
  by (simp add: unique_def)

text \<open>After \<open>CopyIfNeeded\<close> the signal has its vector for itself, and nothing else has changed.\<close>

lemma CopyIfNeeded_spec:
  assumes "signal_inv s"
  shows "signal_inv (CopyIfNeeded s)" and "signal_abs (CopyIfNeeded s) = signal_abs s" and "unique (CopyIfNeeded s)"
proof -
  have "running s t = Some i \<Longrightarrow> held i < fresh_vector s" for t i using assms unfolding signal_inv_def by blast
  then show "signal_abs (CopyIfNeeded s) = signal_abs s"
    by (auto simp: signal_abs_def CopyIfNeeded_def fun_eq_iff map_option_case split: option.split dest: less_imp_neq)
  show "signal_inv (CopyIfNeeded s)" using assms by (fastforce simp: signal_inv_def CopyIfNeeded_def)
  show "unique (CopyIfNeeded s)" using assms by (fastforce simp: unique_def signal_inv_def CopyIfNeeded_def)
qed

text \<open>Changing a vector that nobody else refers to is not seen by any invocation.\<close>

lemma modify_spec:
  assumes "signal_inv s" and "distinct (map slot_id sls)"
  shows "signal_inv (let s = CopyIfNeeded s in s\<lparr>vectors := (vectors s)(slots s := sls)\<rparr>)"
    and "signal_abs (let s = CopyIfNeeded s in s\<lparr>vectors := (vectors s)(slots s := sls)\<rparr>) = (signal_abs s)\<lparr>connected := sls\<rparr>"
proof -
  let ?s = "CopyIfNeeded s"
  note copy = CopyIfNeeded_spec [OF assms(1)]
  have keep: "((vectors ?s)(slots ?s := sls)) (held i) = vectors ?s (held i)" if "running ?s t = Some i" for t i
    using unique_held [OF copy(3) that] by simp
  show "signal_inv (let s = ?s in s\<lparr>vectors := (vectors s)(slots s := sls)\<rparr>)"
    using copy(1) keep assms(2) by (simp add: signal_inv_def Let_def)
  have "signal_abs (?s\<lparr>vectors := (vectors ?s)(slots ?s := sls)\<rparr>) = (signal_abs ?s)\<lparr>connected := sls\<rparr>"
    using keep by (auto simp: signal_abs_def fun_eq_iff map_option_case split: option.split)
  then show "signal_abs (let s = ?s in s\<lparr>vectors := (vectors s)(slots s := sls)\<rparr>) = (signal_abs s)\<lparr>connected := sls\<rparr>"
    using copy(2) by (simp add: Let_def)
qed

lemma connected_abs: "connected (signal_abs s) = vectors s (slots s)"
  by (simp add: signal_abs_def)

lemma current_after_copy: "signal_inv s \<Longrightarrow> vectors (CopyIfNeeded s) (slots (CopyIfNeeded s)) = vectors s (slots s)"
  using CopyIfNeeded_spec(2) [of s] connected_abs by metis

lemma erase_slot_filter:
  "distinct (map slot_id sls) \<Longrightarrow> erase_slot x sls = filter (\<lambda>sl. slot_id sl \<noteq> x) sls"
  by (induction sls) (auto simp: image_iff intro!: filter_True [symmetric])

lemma distinct_filter_ids: "distinct (map slot_id sls) \<Longrightarrow> distinct (map slot_id (filter P sls))"
  by (induction sls) auto

lemma signal_step_sim:
  assumes inv: "signal_inv s" and a: "spec_step (signal_abs s) op = Some a"
  shows "\<exists>s'. signal_step s op = Inr s' \<and> signal_inv s' \<and> signal_abs s' = a"
proof (cases op)
  case (Op_Connect x f obj)
  let ?sls = "vectors s (slots s) @ [\<lparr>slot_id = x, fn = f, weakly_bound_object = obj\<rparr>]"
  have "distinct (map slot_id ?sls)" using inv a Op_Connect by (auto simp: signal_inv_def connected_abs split: if_splits)
  from modify_spec [OF inv this] show ?thesis
    using a Op_Connect current_after_copy [OF inv]
    by (auto simp: Connect_def AddSlot_def connected_abs Let_def split: if_splits)
next
  case (Op_Disconnect x)
  let ?old = "vectors s (slots s)"
  have d: "distinct (map slot_id ?old)" using inv by (simp add: signal_inv_def)
  show ?thesis
  proof (cases "slot_alive x s")
    case True
    from modify_spec [OF inv distinct_filter_ids [OF d]] show ?thesis
      using a Op_Disconnect True current_after_copy [OF inv] erase_slot_filter [OF d]
      by (auto simp: Disconnect_def RemoveSlot_def connected_abs Let_def)
  next
    case False
    then have "filter (\<lambda>sl. slot_id sl \<noteq> x) ?old = ?old" by (auto simp: slot_alive_def intro!: filter_True)
    then show ?thesis using a Op_Disconnect False inv by (auto simp: Disconnect_def signal_abs_def)
  qed
next
  case Op_DisconnectAll
  from modify_spec [OF inv, of "[]"] show ?thesis using a Op_DisconnectAll by (simp add: RemoveAllSlots_def)
next
  case (Op_Next t)
  then obtain sl rest cs where v: "visiting (signal_abs s) t = Some (sl # rest, cs)"
    using a by (auto split: option.splits list.splits prod.splits)
  then obtain i where i: "running s t = Some i" "drop (pos i) (vectors s (held i)) = sl # rest" "called i = cs"
    by (auto simp: signal_abs_def)
  have pos: "pos i < length (vectors s (held i))" using i(2) by (metis drop_eq_Nil2 list.distinct(1) not_le)
  then have sl: "vectors s (held i) ! pos i = sl" "drop (Suc (pos i)) (vectors s (held i)) = rest"
    using i(2) by (auto simp: nth_via_drop dest: Cons_nth_drop_Suc)
  let ?i = "i\<lparr>pos := pos i + 1, called := (if may_call (alive s) sl then called i @ [sl] else called i)\<rparr>"
  have "signal_step s op = Inr (s\<lparr>running := (running s)(t \<mapsto> ?i)\<rparr>)"
    using Op_Next i(1) inv pos sl(1) by (simp add: Invoke_next_def signal_inv_def Let_def)
  moreover have "signal_inv (s\<lparr>running := (running s)(t \<mapsto> ?i)\<rparr>)" using inv i(1) by (simp add: signal_inv_def)
  moreover have "signal_abs (s\<lparr>running := (running s)(t \<mapsto> ?i)\<rparr>) = a"
    using a v Op_Next sl(2) i(3) by (auto simp: signal_abs_def fun_eq_iff split: if_splits)
  ultimately show ?thesis by blast
next
  case (Op_End t)
  then have "a = (signal_abs s)\<lparr>visiting := (visiting (signal_abs s))(t := None)\<rparr>"
    using a by (auto split: option.splits list.splits prod.splits)
  then show ?thesis using Op_End inv by (auto simp: Invoke_end_def signal_inv_def signal_abs_def fun_eq_iff)
qed (use inv a in \<open>auto simp: Invoke_begin_def signal_inv_def signal_abs_def fun_eq_iff split: if_splits\<close>)

interpretation sig: simulation "\<lambda>_. signal_inv" signal_abs signal_step spec_step bound for bound :: nat
  by unfold_locales (rule signal_step_sim)

section \<open>Properties\<close>

text \<open>
  What an invocation calls, for what is done in the meantime: each of its rounds takes the next slot of the list it began with and
  calls it unless it is bound to an object that has died by then. The second result is what is left of the list.
\<close>

fun walk :: "nat \<Rightarrow> nat set \<Rightarrow> signal_op list \<Rightarrow> slot list \<Rightarrow> slot list \<times> slot list" where
  "walk t objs (Op_Die obj # ops) sls = walk t (objs - {obj}) ops sls"
| "walk t objs (Op_Next u # ops) (sl # sls) =
     (if u = t
      then let (cs, rest) = walk t objs ops sls in (if weakly_bound_object sl \<in> insert None (Some ` objs) then sl # cs else cs, rest)
      else walk t objs ops (sl # sls))"
| "walk t objs (_ # ops) sls = walk t objs ops sls"
| "walk t objs [] sls = ([], sls)"

lemma may_call_iff: "may_call objs sl \<longleftrightarrow> weakly_bound_object sl \<in> insert None (Some ` objs)"
  by (auto simp: may_call_def split: option.splits)

lemma spec_run_walk:
  assumes "ofold spec_step ops a = Some a'" and "visiting a t = Some (rest, cs)" and "Op_End t \<notin> set ops"
  shows "visiting a' t = Some (snd (walk t (living a) ops rest), cs @ fst (walk t (living a) ops rest))"
  using assms
proof (induction ops arbitrary: a rest cs)
  case (Cons op ops)
  then obtain a1 where a1: "spec_step a op = Some a1" "ofold spec_step ops a1 = Some a'" by (auto split: option.splits)
  have no_end: "op \<noteq> Op_End t" "Op_End t \<notin> set ops" using Cons.prems(3) by auto
  note IH = Cons.IH [OF a1(2) _ no_end(2)]
  show ?case
  proof (cases op)
    case (Op_Next u)
    then obtain sl rest' cs' where v: "visiting a u = Some (sl # rest', cs')"
      "a1 = a\<lparr>visiting := (visiting a)(u \<mapsto> (rest', if may_call (living a) sl then cs' @ [sl] else cs'))\<rparr>"
      using a1(1) by (auto split: option.splits list.splits prod.splits)
    show ?thesis
    proof (cases "u = t")
      case True
      then have v1: "visiting a1 t = Some (rest', if may_call (living a) sl then cs @ [sl] else cs)" "living a1 = living a" "rest = sl # rest'"
        using v Cons.prems(2) by auto
      show ?thesis using IH [OF v1(1)] v1(2-) Op_Next True by (auto simp: may_call_iff case_prod_beta Let_def)
    next
      case False
      then have v1: "visiting a1 t = Some (rest, cs)" "living a1 = living a" using v Cons.prems(2) by auto
      show ?thesis using IH [OF v1(1)] v1(2-) Op_Next False by (cases rest) simp_all
    qed
  next
    case (Op_End u)
    then have v1: "visiting a1 t = Some (rest, cs)" "living a1 = living a"
      using a1(1) Cons.prems(2) no_end(1) by (auto split: option.splits list.splits prod.splits)
    show ?thesis using IH [OF v1(1)] v1(2-) Op_End by simp
  next
    case (Op_Begin u)
    then have v1: "visiting a1 t = Some (rest, cs)" "living a1 = living a" using a1(1) Cons.prems(2) by (auto split: if_splits)
    show ?thesis using IH [OF v1(1)] v1(2-) Op_Begin by simp
  next
    case (Op_Connect x f obj)
    then have v1: "visiting a1 t = Some (rest, cs)" "living a1 = living a" using a1(1) Cons.prems(2) by (auto split: if_splits)
    show ?thesis using IH [OF v1(1)] v1(2-) Op_Connect by simp
  qed (use a1(1) Cons.prems(2) IH [of rest cs] in auto)
qed simp

lemma signal_run_sim:
  assumes "ofold spec_step ops (signal_abs (Signal_new objs)) = Some a"
  shows "\<exists>s. rfold signal_step ops (Signal_new objs) = Inr s \<and> signal_inv s \<and> signal_abs s = a"
proof -
  have "signal_inv (Signal_new objs)" by (simp add: signal_inv_def Signal_new_def)
  from sig.run_law [OF this _ assms, of 0 "length ops"] show ?thesis by simp
qed

text \<open>
  Property C35. An invocation walks over the slots that were connected when it began, whatever happens meanwhile:
  for every run in which handlers and other threads connect and disconnect slots and bound objects die in the middle of
  invocations, no access leaves a vector, and at any point of an invocation the slots it has called
  are those of the visited part of the original list that were bound to no object or to one still alive when the invocation came
  to them, in their order. (An invocation ends when nothing is left to visit.)
\<close>

theorem invocation_walks_over_snapshot:
  assumes "ofold spec_step (ops @ Op_Begin t # ops') (signal_abs (Signal_new objs)) = Some a" and "Op_End t \<notin> set ops'"
  shows "\<exists>s s' i. rfold signal_step ops (Signal_new objs) = Inr s \<and>
    rfold signal_step (ops @ Op_Begin t # ops') (Signal_new objs) = Inr s' \<and> running s' t = Some i \<and>
    (called i, drop (pos i) (vectors s' (held i))) = walk t (alive s) ops' (vectors s (slots s))"
proof -
  from assms(1) obtain a0 a1 where a0: "ofold spec_step ops (signal_abs (Signal_new objs)) = Some a0"
      "spec_step a0 (Op_Begin t) = Some a1" "ofold spec_step ops' a1 = Some a"
    by (auto simp: ofold_append split: option.splits)
  obtain s where s: "rfold signal_step ops (Signal_new objs) = Inr s" "signal_abs s = a0"
    using signal_run_sim [OF a0(1)] by blast
  obtain s' where s': "rfold signal_step (ops @ Op_Begin t # ops') (Signal_new objs) = Inr s'" "signal_abs s' = a"
    using signal_run_sim [OF assms(1)] by blast
  have a1: "a1 = a0\<lparr>visiting := (visiting a0)(t \<mapsto> (connected a0, []))\<rparr>" using a0(2) by (simp split: if_splits)
  with spec_run_walk [OF a0(3), of t "connected a0" "[]"] assms(2)
  have v: "visiting a t = Some (snd (walk t (living a0) ops' (connected a0)), fst (walk t (living a0) ops' (connected a0)))" by simp
  then obtain i where "running s' t = Some i" "drop (pos i) (vectors s' (held i)) = snd (walk t (living a0) ops' (connected a0))"
      "called i = fst (walk t (living a0) ops' (connected a0))"
    using s'(2) by (auto simp: signal_abs_def)
  moreover have "connected a0 = vectors s (slots s)" "living a0 = alive s" using s(2) by (auto simp: signal_abs_def)
  ultimately show ?thesis
    using s(1) s'(1) by (intro exI [of _ s] exI [of _ s'] exI [of _ i]) simp
qed

text \<open>
  Slots 1 to 3 are connected, the last two bound to objects; an invocation has called the first, and the handler has disconnected
  the third, connected a fourth, and let the second one's object die: the invocation goes on over slots 2 and 3 and calls the third.
\<close>

theorem invocation_walks_over_snapshot_witness:
  "\<exists>s' i. rfold signal_step ([Op_Connect 1 10 None, Op_Connect 2 20 (Some 5), Op_Connect 3 30 (Some 6)] @
       Op_Begin 0 # [Op_Next 0, Op_Disconnect 3, Op_Connect 4 40 None, Op_Die 5, Op_Next 0, Op_Next 0]) (Signal_new {5, 6}) = Inr s' \<and>
     running s' 0 = Some i \<and> map slot_id (called i) = [1, 3] \<and> drop (pos i) (vectors s' (held i)) = []"
proof -
  let ?ops = "[Op_Connect 1 10 None, Op_Connect 2 20 (Some 5), Op_Connect 3 30 (Some 6)]"
    and ?ops' = "[Op_Next 0, Op_Disconnect 3, Op_Connect 4 40 None, Op_Die 5, Op_Next 0, Op_Next 0]"
  have "\<exists>a. ofold spec_step (?ops @ Op_Begin 0 # ?ops') (signal_abs (Signal_new {5, 6})) = Some a"
    by (simp add: signal_abs_def Signal_new_def may_call_def)
  then obtain a where a: "ofold spec_step (?ops @ Op_Begin 0 # ?ops') (signal_abs (Signal_new {5, 6})) = Some a" by blast
  from invocation_walks_over_snapshot [OF this] obtain s s' i where
    s: "rfold signal_step ?ops (Signal_new {5, 6}) = Inr s" and s': "rfold signal_step (?ops @ Op_Begin 0 # ?ops') (Signal_new {5, 6}) = Inr s'"
    and i: "running s' 0 = Some i" "(called i, drop (pos i) (vectors s' (held i))) = walk 0 (alive s) ?ops' (vectors s (slots s))" by auto
  from s have "alive s = {5, 6}" "vectors s (slots s) = [\<lparr>slot_id = 1, fn = 10, weakly_bound_object = None\<rparr>,
      \<lparr>slot_id = 2, fn = 20, weakly_bound_object = Some 5\<rparr>, \<lparr>slot_id = 3, fn = 30, weakly_bound_object = Some 6\<rparr>]"
    by (auto simp: Connect_def AddSlot_def CopyIfNeeded_def unique_def Signal_new_def Let_def)
  then have "map slot_id (called i) = [1, 3]" "drop (pos i) (vectors s' (held i)) = []" using i(2) by (simp_all add: Let_def)
  with s' i(1) show ?thesis by (intro exI [of _ s'] exI [of _ i] conjI)
qed

section \<open>The arguments\<close>

text \<open>
  \<open>slot->fn(std::forward<Args>(args)...)\<close> in the loop: for an argument type that is not a reference the
  forward is a move into the parameter of the function; \<open>moved\<close> is what a move leaves behind.
\<close>

fun forward_loop :: "('v \<Rightarrow> 'v) \<Rightarrow> nat set \<Rightarrow> 'v \<Rightarrow> slot list \<Rightarrow> (slot \<times> 'v) list" where
  "forward_loop moved objs args [] = []"
| "forward_loop moved objs args (sl # sls) =
     (if \<not> may_call objs sl then forward_loop moved objs args sls
      else (sl, args) # forward_loop moved objs (moved args) sls)"

text \<open>
  Fact. Only the first slot is sure to get the argument: the invocation moves it at every call, so a slot
  receives what the moves for the slots before it have left; for a string that a move leaves empty,
  every slot but the first is called with the empty string.
\<close>

theorem later_slots_get_moved_argument:
  assumes "k < length (filter (may_call objs) sls)"
  shows "forward_loop moved objs args sls ! k = (filter (may_call objs) sls ! k, (moved ^^ k) args)"
  using assms
proof (induction sls arbitrary: args k)
  case (Cons sl sls)
  then show ?case by (cases k) (auto simp: funpow_swap1)
qed simp

theorem later_slots_get_moved_argument_witness:
  "forward_loop (\<lambda>_. []) {} ''hello'' [\<lparr>slot_id = 1, fn = 10, weakly_bound_object = None\<rparr>, \<lparr>slot_id = 2, fn = 20, weakly_bound_object = None\<rparr>] ! 1 =
     (\<lparr>slot_id = 2, fn = 20, weakly_bound_object = None\<rparr>, [])"
  using later_slots_get_moved_argument [of 1 "{}" "[\<lparr>slot_id = 1, fn = 10, weakly_bound_object = None\<rparr>, \<lparr>slot_id = 2, fn = 20, weakly_bound_object = None\<rparr>]"
      "\<lambda>_. []" "''hello''"] by (simp add: may_call_def)

end
