(* ===== verification/Text.thy ===== *)
theory Text
  imports Prelude
begin

text \<open>Searching in text, and numbers as text, for the components that print or read them.\<close>

section \<open>Searching\<close>

text \<open>\<open>find\<close> of strings and string views: the first occurrence at or after a position, \<open>None\<close> for \<open>npos\<close>.\<close>

definition occurs_at :: "string \<Rightarrow> string \<Rightarrow> nat \<Rightarrow> bool" where
  "occurs_at needle str i \<longleftrightarrow> take (length needle) (drop i str) = needle"

definition find_from :: "string \<Rightarrow> string \<Rightarrow> nat \<Rightarrow> nat option" where
  "find_from needle str i = find (occurs_at needle str) [i..<Suc (length str)]"

lemma find_from_None: "find_from needle str start = None \<longleftrightarrow> (\<forall>i. start \<le> i \<and> i \<le> length str \<longrightarrow> \<not> occurs_at needle str i)"
  by (auto simp: find_from_def find_None_iff less_Suc_eq_le)

lemma find_from_Some:
  assumes "find_from needle str start = Some i" and "needle \<noteq> []"
  shows "start \<le> i" and "i + length needle \<le> length str" and "occurs_at needle str i"
proof -
  have i: "start \<le> i \<and> i \<le> length str \<and> occurs_at needle str i"
    using assms(1) unfolding find_from_def find_Some_iff by (metis add_leD1 atLeastLessThan_iff less_Suc_eq_le nth_mem set_upt)
  then show "start \<le> i" "occurs_at needle str i" by simp_all
  have "length (take (length needle) (drop i str)) = length needle" using i by (simp add: occurs_at_def)
  then have le: "length needle \<le> length str - i" by simp
  have "i \<le> length str" using i by simp
  then show "i + length needle \<le> length str" using le by linarith
qed

section \<open>Numbers\<close>

text \<open>The digits of a number.\<close>

fun decimal :: "nat \<Rightarrow> string" where
  "decimal n = (if n < 10 then [char_of (48 + n)] else decimal (n div 10) @ [char_of (48 + n mod 10)])"

declare decimal.simps [simp del]

lemma length_decimal: "n < 10 ^ Suc k \<Longrightarrow> length (decimal n) \<le> Suc k"
proof (induction k arbitrary: n)
  case 0
  then show ?case by (simp add: decimal.simps)
next
  case (Suc k)
  then have "n div 10 < 10 ^ Suc k" by (simp add: div_less_iff_less_mult)
  then show ?case using Suc.IH [of "n div 10"] by (simp add: decimal.simps [of n])
qed

lemma length_decimal_ge: "10 ^ k \<le> n \<Longrightarrow> k < length (decimal n)"
proof (induction k arbitrary: n)
  case 0
  show ?case by (subst decimal.simps) simp
next
  case (Suc k)
  then have "10 ^ k \<le> n div 10" by (simp add: less_eq_div_iff_mult_less_eq mult.commute)
  moreover have "\<not> n < 10" using Suc.prems by (metis le_trans less_le_not_le one_le_numeral one_le_power power_Suc mult_le_mono2 mult.right_neutral)
  ultimately show ?case using Suc.IH [of "n div 10"] by (simp add: decimal.simps [of n])
qed

text \<open>The number that digits stand for.\<close>

definition digits_value :: "string \<Rightarrow> nat" where
  "digits_value s = foldl (\<lambda>acc c. acc * 10 + (of_char c - 48)) 0 s"

lemma digit_char: "d < 10 \<Longrightarrow> (of_char (char_of (48 + d) :: char) :: nat) - 48 = d"
  by (simp add: of_char_of)

lemma digits_value_snoc: "d < 10 \<Longrightarrow> digits_value (s @ [char_of (48 + d)]) = digits_value s * 10 + d"
  by (simp add: digits_value_def of_char_of)

lemma digits_value_decimal [simp]: "digits_value (decimal n) = n"
proof (induction n rule: decimal.induct)
  case (1 n)
  show ?case
  proof (cases "n < 10")
    case True
    then show ?thesis using digits_value_snoc [of n "[]"] by (simp add: decimal.simps [of n]) (simp add: digits_value_def)
  next
    case False
    then show ?thesis using 1 digits_value_snoc [of "n mod 10" "decimal (n div 10)"] by (simp add: decimal.simps [of n])
  qed
qed

lemma digits_value_zeros [simp]: "digits_value (replicate k (CHR ''0'') @ s) = digits_value s"
  by (induction k) (simp_all add: digits_value_def)

lemma decimal_inject [simp]: "decimal m = decimal n \<longleftrightarrow> m = n"
  by (metis digits_value_decimal)

end
