(* ===== verification/Multipart.thy ===== *)
theory Multipart
  imports Text "HOL-Library.Char_ord"
begin

text \<open>
  The reader of multipart forms (\<open>src/http-multipart/multipart/multipart.h\<close>, \<open>multipart.cpp\<close>). A string
  view is the list of its characters; removing more than there is would be undefined behaviour and is
  a fault. The string helpers come from a library outside the repository: they are a record of
  functions, with their documented behaviour as the hypothesis \<open>esl_contract\<close>. The theory shows that
  parsing returns for every input and never leaves a view, that it inverts rendering, that a form
  with an empty field is rejected, and so is data that begins with the boundary's own text.
\<close>

section \<open>Strings\<close>

record esl =
  starts_with :: "string \<Rightarrow> string \<Rightarrow> bool"
  starts_with_ignore_ascii_case :: "string \<Rightarrow> string \<Rightarrow> bool"
  equals_ignore_ascii_case :: "string \<Rightarrow> string \<Rightarrow> bool"
  trim :: "string \<Rightarrow> string \<Rightarrow> string"
  split_by :: "string \<Rightarrow> string \<Rightarrow> string list"

definition remove_prefix :: "nat \<Rightarrow> string \<Rightarrow> string res" where
  "remove_prefix n s = (if n \<le> length s then Inr (drop n s) else Inl Out_of_bounds)"

definition remove_suffix :: "nat \<Rightarrow> string \<Rightarrow> string res" where
  "remove_suffix n s = (if n \<le> length s then Inr (take (length s - n) s) else Inl Out_of_bounds)"

text \<open>\<open>string_view::substr\<close> throws when the position is behind the end.\<close>

definition substr_from :: "string \<Rightarrow> nat \<Rightarrow> string res" where
  "substr_from s i = (if i \<le> length s then Inr (drop i s) else Inl (Thrown ''out_of_range''))"

section \<open>The reader\<close>

definition newline :: string where
  "newline = [CHR 0x0D, CHR 0x0A]"

definition dashes :: string where
  "dashes = ''--''"

definition hdr_content_disposition :: string where
  "hdr_content_disposition = ''Content-Disposition:''"

definition hdr_content_type :: string where
  "hdr_content_type = ''Content-Type:''"

definition param_name :: string where
  "param_name = ''name=''"

definition param_filename :: string where
  "param_filename = ''filename=''"

definition quote_char :: char where
  "quote_char = CHR 0x22"

datatype read_status = ready | finished | malformed

record content_header =
  hd_name :: string
  hd_filename :: string
  hd_content_type :: string

record content_part =
  part_header :: content_header
  part_data :: string

record multipart_reader =
  body :: string
  boundary :: string
  status :: read_status

definition multipart_reader_new :: "string \<Rightarrow> string \<Rightarrow> multipart_reader res" where
  "multipart_reader_new bd bnd =
     (if bd = [] then Inl (Thrown ''empty body'')
      else if bnd = [] then Inl (Thrown ''invalid boundary'')
      else Inr \<lparr>body = bd, boundary = bnd, status = ready\<rparr>)"

definition delim_prefix :: string where
  "delim_prefix = newline @ dashes"

text \<open>The loop of \<open>find_dashed_boundary\<close> from a position; the boundary is not empty.\<close>

function dashed_loop :: "esl \<Rightarrow> string \<Rightarrow> string \<Rightarrow> nat \<Rightarrow> nat option" where
  "dashed_loop e str bnd i =
     (if bnd = [] then None
      else case find_from bnd str i of
        None \<Rightarrow> None
      | Some xpos \<Rightarrow>
          if xpos < length delim_prefix then None
          else if starts_with e (drop (xpos - length delim_prefix) str) delim_prefix then Some (xpos - length dashes)
          else dashed_loop e str bnd (xpos + length bnd))"
  by pat_completeness auto

termination
proof (relation "measure (\<lambda>(e, str, bnd, i). Suc (length str) - i)", simp)
  fix e str i xpos and bnd :: string
  assume "bnd \<noteq> []" and "find_from bnd str i = Some xpos"
  then have "i \<le> xpos" "xpos < Suc (length str)" "0 < length bnd"
    unfolding find_from_def by (auto simp: find_Some_iff simp del: upt_Suc)
  then show "((e, str, bnd, xpos + length bnd), (e, str, bnd, i)) \<in> measure (\<lambda>(e, str, bnd, i). Suc (length str) - i)"
    by (simp del: length_greater_0_conv)
qed

declare dashed_loop.simps [simp del]

definition find_dashed_boundary :: "esl \<Rightarrow> string \<Rightarrow> string \<Rightarrow> nat option" where
  "find_dashed_boundary e str bnd = dashed_loop e str bnd 0"

definition read_header_content_type :: "esl \<Rightarrow> string \<Rightarrow> content_header \<Rightarrow> (bool \<times> content_header) res" where
  "read_header_content_type e header_line h =
     rbind (substr_from header_line (length hdr_content_type)) (\<lambda>v.
     let type_value = trim e v '' '' in
     Inr (if type_value = [] then (False, h) else (True, h\<lparr>hd_content_type := type_value\<rparr>)))"

definition read_header_content_disposition :: "esl \<Rightarrow> string \<Rightarrow> content_header \<Rightarrow> (bool \<times> content_header) res" where
  "read_header_content_disposition e header_line h =
     rbind (substr_from header_line (length hdr_content_disposition)) (\<lambda>v.
     let params = map (\<lambda>token. trim e token '' '') (split_by e v '';'') in
     if length params \<noteq> 2 \<and> length params \<noteq> 3 then Inr (False, h)
     else if \<not> equals_ignore_ascii_case e (params ! 0) ''form-data'' \<or> \<not> starts_with e (params ! 1) param_name
     then Inr (False, h)
     else
       rbind (if length params = 3
              then if \<not> starts_with e (params ! 2) param_filename then Inr None
                   else rbind (remove_prefix (length param_filename) (params ! 2)) (\<lambda>p2.
                     Inr (Some (h\<lparr>hd_filename := trim e p2 [quote_char]\<rparr>)))
              else Inr (Some h)) (\<lambda>r. case r of
         None \<Rightarrow> Inr (False, h)
       | Some h \<Rightarrow>
           rbind (remove_prefix (length param_name) (params ! 1)) (\<lambda>p1.
           Inr (True, h\<lparr>hd_name := trim e p1 [quote_char]\<rparr>))))"

definition consume_any :: "esl \<Rightarrow> string \<Rightarrow> multipart_reader \<Rightarrow> (bool \<times> multipart_reader) res" where
  "consume_any e data r =
     (if \<not> starts_with e (body r) data then Inr (False, r)
      else rbind (remove_prefix (length data) (body r)) (\<lambda>b. Inr (True, r\<lparr>body := b\<rparr>)))"

definition consume_content_header ::
  "esl \<Rightarrow> content_header \<Rightarrow> multipart_reader \<Rightarrow> (bool \<times> content_header \<times> multipart_reader) res" where
  "consume_content_header e h r = (case find_from newline (body r) 0 of
     None \<Rightarrow> Inr (False, h, r)
   | Some p \<Rightarrow>
       let header_line = take p (body r) in
       rbind (if starts_with_ignore_ascii_case e header_line hdr_content_disposition
              then read_header_content_disposition e header_line h
              else if starts_with_ignore_ascii_case e header_line hdr_content_type
              then read_header_content_type e header_line h
              else Inr (False, h)) (\<lambda>(ok, h).
       if \<not> ok then Inr (False, h, r)
       else rbind (remove_prefix (length header_line + length newline) (body r)) (\<lambda>b.
         Inr (True, h, r\<lparr>body := b\<rparr>))))"

definition consume_data_part :: "esl \<Rightarrow> multipart_reader \<Rightarrow> (string \<times> multipart_reader) res" where
  "consume_data_part e r = (case find_dashed_boundary e (body r) (boundary r) of
     None \<Rightarrow> Inr ([], r)
   | Some p \<Rightarrow>
       rbind (remove_suffix (length newline) (take p (body r))) (\<lambda>data.
       rbind (remove_prefix p (body r)) (\<lambda>b. Inr (data, r\<lparr>body := b\<rparr>))))"

definition empty_header :: content_header where
  "empty_header = \<lparr>hd_name = [], hd_filename = [], hd_content_type = []\<rparr>"

text \<open>The two headers of a part, as the condition of the code reads them.\<close>

definition consume_headers :: "esl \<Rightarrow> multipart_reader \<Rightarrow> (bool \<times> content_header \<times> multipart_reader) res" where
  "consume_headers e r =
     rbind (consume_content_header e empty_header r) (\<lambda>(ok, h, r).
     if \<not> ok then Inr (False, h, r)
     else
       rbind (if \<not> starts_with e (body r) newline then consume_content_header e h r else Inr (True, h, r)) (\<lambda>(ok, h, r).
       Inr (ok \<and> hd_name h \<noteq> [], h, r)))"

text \<open>A part when there was one, with the reader after it.\<close>

definition read_next_part :: "esl \<Rightarrow> multipart_reader \<Rightarrow> (content_part option \<times> multipart_reader) res" where
  "read_next_part e r =
     (if status r \<noteq> ready then Inr (None, r)
      else
        let r = r\<lparr>status := malformed\<rparr> in
        rbind (consume_any e dashes r) (\<lambda>(ok, r). if \<not> ok then Inr (None, r) else
        rbind (consume_any e (boundary r) r) (\<lambda>(ok, r). if \<not> ok then Inr (None, r) else
        rbind (consume_any e dashes r) (\<lambda>(at_end, r).
        if at_end then Inr (None, if body r = newline then r\<lparr>status := finished\<rparr> else r)
        else
          rbind (consume_any e newline r) (\<lambda>(ok, r). if \<not> ok then Inr (None, r) else
          rbind (consume_headers e r) (\<lambda>(ok, h, r). if \<not> ok then Inr (None, r) else
          rbind (consume_any e newline r) (\<lambda>(ok, r). if \<not> ok then Inr (None, r) else
          rbind (consume_data_part e r) (\<lambda>(data, r). if data = [] then Inr (None, r) else
          Inr (Some \<lparr>part_header = h, part_data = data\<rparr>, r\<lparr>status := ready\<rparr>)))))))))"

section \<open>The form\<close>

record form_file =
  file_name :: string
  file_data :: string

record multipart_form =
  form_values :: "string \<rightharpoonup> string"
  form_files :: "string \<rightharpoonup> form_file"

definition empty_form :: multipart_form where
  "empty_form = \<lparr>form_values = Map.empty, form_files = Map.empty\<rparr>"

text \<open>\<open>unordered_map::emplace\<close> keeps an entry that is already there.\<close>

definition map_emplace :: "'k \<Rightarrow> 'v \<Rightarrow> ('k \<rightharpoonup> 'v) \<Rightarrow> ('k \<rightharpoonup> 'v)" where
  "map_emplace k v m = (if m k = None then m(k \<mapsto> v) else m)"

definition add_part :: "content_part \<Rightarrow> multipart_form \<Rightarrow> multipart_form" where
  "add_part p f =
     (let h = part_header p in
      if hd_filename h = [] then f\<lparr>form_values := map_emplace (hd_name h) (part_data p) (form_values f)\<rparr>
      else f\<lparr>form_files := map_emplace (hd_name h) \<lparr>file_name = hd_filename h, file_data = part_data p\<rparr> (form_files f)\<rparr>)"

text \<open>The loop of \<open>parse_multipart_form\<close>; a part that is read takes at least one character off the body.\<close>

fun parse_loop :: "nat \<Rightarrow> esl \<Rightarrow> multipart_reader \<Rightarrow> multipart_form \<Rightarrow> (multipart_form \<times> read_status) res" where
  "parse_loop 0 e r f = Inl No_return"
| "parse_loop (Suc n) e r f =
     rbind (read_next_part e r) (\<lambda>(p, r). case p of
       None \<Rightarrow> Inr (f, status r)
     | Some p \<Rightarrow> parse_loop n e r (add_part p f))"

definition parse_multipart_form :: "esl \<Rightarrow> string \<Rightarrow> string \<Rightarrow> multipart_form res" where
  "parse_multipart_form e bd bnd =
     rbind (multipart_reader_new bd bnd) (\<lambda>r.
     rbind (parse_loop (length bd + 1) e r empty_form) (\<lambda>(f, st).
     if st \<noteq> finished then Inl (Thrown ''malformed request body'') else Inr f))"

section \<open>The contract of the helpers\<close>

definition lower :: "char \<Rightarrow> char" where
  "lower c = (if CHR ''A'' \<le> c \<and> c \<le> CHR ''Z'' then char_of (of_char c + 32 :: nat) else c)"

definition trimmed :: "string \<Rightarrow> string \<Rightarrow> string" where
  "trimmed s cs = rev (dropWhile (\<lambda>c. c \<in> set cs) (rev (dropWhile (\<lambda>c. c \<in> set cs) s)))"

fun pieces :: "char \<Rightarrow> string \<Rightarrow> string list" where
  "pieces d [] = [[]]"
| "pieces d (c # s) = (if c = d then [] # pieces d s else (case pieces d s of p # ps \<Rightarrow> (c # p) # ps | [] \<Rightarrow> [[c]]))"

definition esl_contract :: "esl \<Rightarrow> bool" where
  "esl_contract e \<longleftrightarrow>
     (\<forall>s p. starts_with e s p \<longleftrightarrow> take (length p) s = p) \<and>
     (\<forall>s p. starts_with_ignore_ascii_case e s p \<longleftrightarrow> map lower (take (length p) s) = map lower p) \<and>
     (\<forall>s t. equals_ignore_ascii_case e s t \<longleftrightarrow> map lower s = map lower t) \<and>
     (\<forall>s cs. trim e s cs = trimmed s cs) \<and>
     (\<forall>s d. split_by e s [d] = pieces d s)"

lemma lower_length: "map lower (take n s) = map lower p \<Longrightarrow> n = length p \<Longrightarrow> length p \<le> length s"
  by (drule arg_cong [of _ _ length]) auto

lemma prefix_length: "take (length p) s = p \<Longrightarrow> length p \<le> length s"
  by (drule arg_cong [of _ _ length]) auto

lemma find_from_Some_iff:
  "find_from needle str i = Some k \<longleftrightarrow>
     i \<le> k \<and> k \<le> length str \<and> occurs_at needle str k \<and> (\<forall>j. i \<le> j \<and> j < k \<longrightarrow> \<not> occurs_at needle str j)"
proof
  assume "find_from needle str i = Some k"
  then obtain n where n: "n < Suc (length str) - i" "k = i + n" "occurs_at needle str (i + n)"
      "\<forall>j < n. \<not> occurs_at needle str (i + j)"
    unfolding find_from_def by (auto simp: find_Some_iff simp del: upt_Suc)
  moreover have "\<not> occurs_at needle str j" if "i \<le> j" "j < k" for j
    using n(2,4) that by (metis le_add_diff_inverse nat_add_left_cancel_less)
  ultimately show "i \<le> k \<and> k \<le> length str \<and> occurs_at needle str k \<and> (\<forall>j. i \<le> j \<and> j < k \<longrightarrow> \<not> occurs_at needle str j)"
    by auto
next
  assume k: "i \<le> k \<and> k \<le> length str \<and> occurs_at needle str k \<and> (\<forall>j. i \<le> j \<and> j < k \<longrightarrow> \<not> occurs_at needle str j)"
  then show "find_from needle str i = Some k"
    unfolding find_from_def find_Some_iff by (intro exI [of _ "k - i"]) (auto simp del: upt_Suc)
qed

lemma occurs_at_length: "occurs_at needle str k \<Longrightarrow> k \<le> length str \<Longrightarrow> k + length needle \<le> length str"
  using prefix_length [of needle "drop k str"] by (auto simp: occurs_at_def)

lemma dashed_loop_Some:
  "dashed_loop e str bnd i = Some p \<Longrightarrow> 2 \<le> p \<and> p \<le> length str"
proof (induction e str bnd i rule: dashed_loop.induct)
  case (1 e str bnd i)
  then show ?case
    by (subst (asm) (2) dashed_loop.simps)
       (auto simp: find_from_Some_iff delim_prefix_def newline_def dashes_def split: if_splits option.splits)
qed

text \<open>Same boundary and status, and not a longer body.\<close>

definition shrinks :: "multipart_reader \<Rightarrow> multipart_reader \<Rightarrow> bool" where
  "shrinks r r' \<longleftrightarrow> boundary r' = boundary r \<and> status r' = status r \<and> length (body r') \<le> length (body r)"

lemma shrinks_trans: "shrinks r r1 \<Longrightarrow> shrinks r1 r2 \<Longrightarrow> shrinks r r2"
  by (auto simp: shrinks_def)

lemma consume_any_eq:
  assumes "esl_contract e"
  shows "consume_any e data r =
    Inr (if take (length data) (body r) = data then (True, r\<lparr>body := drop (length data) (body r)\<rparr>) else (False, r))"
  using assms prefix_length [of data "body r"] by (auto simp: consume_any_def esl_contract_def remove_prefix_def)

lemma read_type_ok:
  assumes "esl_contract e" and "starts_with_ignore_ascii_case e l hdr_content_type"
  shows "\<exists>ok h'. read_header_content_type e l h = Inr (ok, h')"
  using assms lower_length [of "length hdr_content_type" l hdr_content_type]
  by (simp add: read_header_content_type_def esl_contract_def substr_from_def Let_def)

lemma read_disposition_ok:
  assumes "esl_contract e" and "starts_with_ignore_ascii_case e l hdr_content_disposition"
  shows "\<exists>ok h'. read_header_content_disposition e l h = Inr (ok, h')"
proof -
  have len: "length hdr_content_disposition \<le> length l"
    using assms lower_length [of "length hdr_content_disposition" l hdr_content_disposition] by (simp add: esl_contract_def)
  have sw: "starts_with e s p \<Longrightarrow> remove_prefix (length p) s = Inr (drop (length p) s)" for s p
    using assms(1) prefix_length [of p s] by (simp add: esl_contract_def remove_prefix_def)
  show ?thesis using len sw by (auto simp: read_header_content_disposition_def substr_from_def Let_def)
qed

lemma consume_content_header_ok:
  assumes "esl_contract e"
  shows "\<exists>ok h' r'. consume_content_header e h r = Inr (ok, h', r') \<and> shrinks r r'"
proof (cases "find_from newline (body r) 0")
  case None
  then show ?thesis by (auto simp: consume_content_header_def shrinks_def)
next
  case (Some p)
  then have p: "p + 2 \<le> length (body r)"
    using occurs_at_length [of newline "body r" p] by (auto simp: find_from_Some_iff newline_def)
  let ?l = "take p (body r)"
  let ?m = "if starts_with_ignore_ascii_case e ?l hdr_content_disposition then read_header_content_disposition e ?l h
     else if starts_with_ignore_ascii_case e ?l hdr_content_type then read_header_content_type e ?l h else Inr (False, h)"
  have "\<exists>ok h'. ?m = Inr (ok, h')" using read_type_ok [OF assms, of ?l h] read_disposition_ok [OF assms, of ?l h]
    by (auto intro: exI [of _ False])
  then obtain ok h' where "?m = Inr (ok, h')" by blast
  then show ?thesis
    using Some p by (cases ok) (auto simp: consume_content_header_def Let_def remove_prefix_def newline_def shrinks_def)
qed

lemma consume_data_part_ok: "\<exists>data r'. consume_data_part e r = Inr (data, r') \<and> shrinks r r'"
proof (cases "find_dashed_boundary e (body r) (boundary r)")
  case None
  then show ?thesis by (simp add: consume_data_part_def shrinks_def)
next
  case (Some p)
  then have "2 \<le> p" "p \<le> length (body r)" using dashed_loop_Some by (auto simp: find_dashed_boundary_def)
  then show ?thesis
    using Some by (simp add: consume_data_part_def remove_suffix_def remove_prefix_def newline_def shrinks_def)
qed

lemma consume_headers_ok:
  assumes "esl_contract e"
  shows "\<exists>ok h r'. consume_headers e r = Inr (ok, h, r') \<and> shrinks r r'"
proof -
  obtain ok h r1 where 1: "consume_content_header e empty_header r = Inr (ok, h, r1)" "shrinks r r1"
    using consume_content_header_ok [OF assms] by blast
  obtain ok2 h2 r2 where 2: "consume_content_header e h r1 = Inr (ok2, h2, r2)" "shrinks r1 r2"
    using consume_content_header_ok [OF assms] by blast
  have "shrinks r r2" using 1(2) 2(2) by (rule shrinks_trans)
  then show ?thesis using 1 2(1) by (cases ok) (auto simp: consume_headers_def intro: exI [of _ False])
qed

lemma read_next_part_ok:
  assumes e: "esl_contract e"
  shows "\<exists>p r'. read_next_part e r = Inr (p, r') \<and> (p \<noteq> None \<longrightarrow> length (body r') < length (body r))"
proof (cases "status r = ready \<and> take (length dashes) (body r) = dashes")
  case False
  then show ?thesis by (auto simp: read_next_part_def consume_any_eq [OF e] Let_def)
next
  case True
  then have two: "length dashes \<le> length (body r)" "0 < length dashes" using prefix_length [of dashes "body r"] by (simp_all add: dashes_def)
  define r4 where "r4 = r\<lparr>status := malformed,
    body := drop (length newline) (drop (length (boundary r)) (drop (length dashes) (body r)))\<rparr>"
  obtain ok h r5 where 5: "consume_headers e r4 = Inr (ok, h, r5)" "shrinks r4 r5" using consume_headers_ok [OF e] by blast
  define r6 where "r6 = r5\<lparr>body := drop (length newline) (body r5)\<rparr>"
  obtain data r7 where 7: "consume_data_part e r6 = Inr (data, r7)" "shrinks r6 r7" using consume_data_part_ok by blast
  have "length (body r7) < length (body r)"
    using two 5(2) 7(2) by (auto simp: shrinks_def r4_def r6_def dashes_def)
  then show ?thesis
    using True 5(1) 7(1)
    by (auto simp: read_next_part_def consume_any_eq [OF e] Let_def simp del: drop_drop simp flip: r4_def r6_def)
qed

lemma parse_loop_returns:
  assumes "esl_contract e"
  shows "length (body r) < n \<Longrightarrow> \<exists>f' st. parse_loop n e r f = Inr (f', st)"
proof (induction n arbitrary: r f)
  case (Suc n)
  obtain p r' where p: "read_next_part e r = Inr (p, r')" "p \<noteq> None \<longrightarrow> length (body r') < length (body r)"
    using read_next_part_ok [OF assms] by blast
  then show ?case using Suc by (cases p) auto
qed simp

section \<open>Rendering\<close>

definition quoted :: "string \<Rightarrow> string" where
  "quoted s = quote_char # s @ [quote_char]"

definition disposition_line :: "content_header \<Rightarrow> string" where
  "disposition_line h = hdr_content_disposition @ '' form-data; name='' @ quoted (hd_name h) @
     (if hd_filename h = [] then [] else ''; filename='' @ quoted (hd_filename h))"

definition type_line :: "content_header \<Rightarrow> string" where
  "type_line h = (if hd_content_type h = [] then [] else hdr_content_type @ '' '' @ hd_content_type h @ newline)"

definition render_part :: "string \<Rightarrow> content_part \<Rightarrow> string" where
  "render_part bnd p = dashes @ bnd @ newline @ disposition_line (part_header p) @ newline @
     type_line (part_header p) @ newline @ part_data p @ newline"

definition render :: "string \<Rightarrow> content_part list \<Rightarrow> string" where
  "render bnd ps = concat (map (render_part bnd) ps) @ dashes @ bnd @ dashes @ newline"

text \<open>
  What can be written between quotes and on a header line; and data in which the boundary is first
  found behind the delimiter that follows the data.
\<close>

definition plain :: "string \<Rightarrow> bool" where
  "plain s \<longleftrightarrow> CHR 0x0D \<notin> set s \<and> CHR '';'' \<notin> set s \<and> quote_char \<notin> set s"

definition header_ok :: "content_header \<Rightarrow> bool" where
  "header_ok h \<longleftrightarrow> hd_name h \<noteq> [] \<and> plain (hd_name h) \<and> plain (hd_filename h) \<and> CHR 0x0D \<notin> set (hd_content_type h) \<and>
     (hd_content_type h \<noteq> [] \<longrightarrow> hd (hd_content_type h) \<noteq> CHR '' '' \<and> last (hd_content_type h) \<noteq> CHR '' '')"

definition clean_data :: "string \<Rightarrow> string \<Rightarrow> bool" where
  "clean_data bnd data \<longleftrightarrow> (\<forall>i < length data + 4. \<not> occurs_at bnd (data @ delim_prefix @ bnd) i)"

definition part_ok :: "string \<Rightarrow> content_part \<Rightarrow> bool" where
  "part_ok bnd p \<longleftrightarrow> header_ok (part_header p) \<and> part_data p \<noteq> [] \<and> clean_data bnd (part_data p)"

lemma trimmed_middle:
  assumes "set l \<subseteq> set cs" and "set r \<subseteq> set cs" and "m \<noteq> []" and "hd m \<notin> set cs" and "last m \<notin> set cs"
  shows "trimmed (l @ m @ r) cs = m"
proof -
  have "dropWhile (\<lambda>c. c \<in> set cs) (l @ m @ r) = m @ r"
    using assms(1,3,4) by (cases m) (auto simp: dropWhile_append2 subset_iff)
  moreover have "dropWhile (\<lambda>c. c \<in> set cs) (rev r @ rev m) = dropWhile (\<lambda>c. c \<in> set cs) (rev m)"
    using assms(2) by (intro dropWhile_append2) auto
  moreover have "dropWhile (\<lambda>c. c \<in> set cs) (rev m) = rev m"
    using assms(3,5) by (cases m rule: rev_cases) auto
  ultimately show ?thesis by (simp add: trimmed_def)
qed

lemma trimmed_quoted:
  assumes "quote_char \<notin> set s"
  shows "trimmed (quoted s) [quote_char] = s"
proof (cases "s = []")
  case False
  then have "hd s \<noteq> quote_char" "last s \<noteq> quote_char"
    using assms hd_in_set [OF False] last_in_set [OF False] by metis+
  then show ?thesis
    using trimmed_middle [of "[quote_char]" "[quote_char]" "[quote_char]" s] False by (simp add: quoted_def)
qed (simp add: quoted_def trimmed_def)

lemma pieces_free: "d \<notin> set s \<Longrightarrow> pieces d s = [s]"
  by (induction s) auto

lemma pieces_append: "d \<notin> set s \<Longrightarrow> pieces d (s @ d # t) = s # pieces d t"
  by (induction s) auto

lemma find_newline:
  assumes "CHR 0x0D \<notin> set l"
  shows "find_from newline (l @ newline @ rest) 0 = Some (length l)"
proof -
  have "\<not> occurs_at newline (l @ newline @ rest) j" if "j < length l" for j
  proof
    assume "occurs_at newline (l @ newline @ rest) j"
    then have "take (length newline) (drop j (l @ newline @ rest)) ! 0 = newline ! 0" by (simp only: occurs_at_def)
    then have "l ! j = CHR 0x0D" using that by (simp add: newline_def nth_append)
    then show False using that assms nth_mem [of j l] by simp
  qed
  then show ?thesis by (simp add: find_from_Some_iff occurs_at_def)
qed

lemma occurs_inside: "j + n \<le> length x \<Longrightarrow> take n (drop j (x @ rest)) = take n (drop j x)"
  by simp

lemma find_data_end:
  assumes "esl_contract e" and "clean_data bnd data" and "bnd \<noteq> []"
  shows "find_dashed_boundary e (data @ newline @ dashes @ bnd @ rest) bnd = Some (length data + 2)"
proof -
  let ?s = "data @ newline @ dashes @ bnd @ rest"
  have "\<not> occurs_at bnd ?s j" if "j < length data + 4" for j
  proof -
    have "take (length bnd) (drop j ((data @ newline @ dashes @ bnd) @ rest)) =
        take (length bnd) (drop j (data @ newline @ dashes @ bnd))"
      using that by (intro occurs_inside) (simp add: newline_def dashes_def)
    then show ?thesis
      using assms(2) that by (simp add: clean_data_def occurs_at_def delim_prefix_def del: take_append drop_append)
  qed
  then have "find_from bnd ?s 0 = Some (length data + 4)"
    by (simp add: find_from_Some_iff occurs_at_def newline_def dashes_def)
  then show ?thesis
    using assms(1,3)
    by (subst find_dashed_boundary_def, subst dashed_loop.simps)
       (simp add: esl_contract_def delim_prefix_def newline_def dashes_def)
qed

lemma consume_line:
  assumes "CHR 0x0D \<notin> set l" and "body r = l @ newline @ rest"
    and "(if starts_with_ignore_ascii_case e l hdr_content_disposition then read_header_content_disposition e l h
          else if starts_with_ignore_ascii_case e l hdr_content_type then read_header_content_type e l h
          else Inr (False, h)) = Inr (True, h')"
  shows "consume_content_header e h r = Inr (True, h', r\<lparr>body := rest\<rparr>)"
proof -
  have "find_from newline (body r) 0 = Some (length l)" using find_newline [OF assms(1)] assms(2) by simp
  moreover have "take (length l) (body r) = l" and "drop (length l + length newline) (body r) = rest"
    using assms(2) by simp_all
  moreover have "length l + length newline \<le> length (body r)" using assms(2) by simp
  ultimately show ?thesis using assms(3) by (simp add: consume_content_header_def remove_prefix_def)
qed

lemma trimmed_parameter: "n \<noteq> [] \<Longrightarrow> hd n \<noteq> CHR '' '' \<Longrightarrow> trimmed (CHR '' '' # n @ quoted s) '' '' = n @ quoted s"
  using trimmed_middle [of "'' ''" "'' ''" "[]" "n @ quoted s"] by (simp add: quoted_def quote_char_def)

lemma plain_quoted: "plain s \<Longrightarrow> CHR '';'' \<notin> set (quoted s)"
  by (simp add: plain_def quoted_def quote_char_def)

lemma read_disposition_line:
  assumes e: "esl_contract e" and h: "header_ok k"
  shows "read_header_content_disposition e (disposition_line k) empty_header =
    Inr (True, empty_header\<lparr>hd_name := hd_name k, hd_filename := hd_filename k\<rparr>)"
proof -
  define f where "f = CHR '' '' # ''filename='' @ quoted (hd_filename k)"
  define n where "n = CHR '' '' # ''name='' @ quoted (hd_name k)"
  have free: "CHR '';'' \<notin> set '' form-data''" "CHR '';'' \<notin> set n" "CHR '';'' \<notin> set f"
    using h plain_quoted by (auto simp: n_def f_def header_ok_def)
  have line: "drop (length hdr_content_disposition) (disposition_line k) =
      '' form-data'' @ CHR '';'' # n @ (if hd_filename k = [] then [] else CHR '';'' # f)"
    by (simp add: disposition_line_def n_def f_def)
  have params: "map (\<lambda>t. trimmed t '' '') (pieces (CHR '';'') (drop (length hdr_content_disposition) (disposition_line k))) =
      [''form-data'', ''name='' @ quoted (hd_name k)] @
      (if hd_filename k = [] then [] else [''filename='' @ quoted (hd_filename k)])"
    using pieces_append [OF free(1)] pieces_free [OF free(2)] pieces_append [OF free(2)] pieces_free [OF free(3)]
      trimmed_parameter [of "''name=''" "hd_name k"] trimmed_parameter [of "''filename=''" "hd_filename k"]
    unfolding line by (simp add: n_def f_def trimmed_def)
  have len: "length hdr_content_disposition \<le> length (disposition_line k)" by (simp add: disposition_line_def)
  have esl: "split_by e s '';'' = pieces (CHR '';'') s"
      "equals_ignore_ascii_case e s t \<longleftrightarrow> map lower s = map lower t" "starts_with e s t \<longleftrightarrow> take (length t) s = t"
      "trim e s t = trimmed s t" for s t
    using e by (simp_all add: esl_contract_def)
  have quoted: "trimmed (quoted (hd_name k)) [quote_char] = hd_name k"
      "trimmed (quoted (hd_filename k)) [quote_char] = hd_filename k"
    using h by (simp_all add: header_ok_def plain_def trimmed_quoted)
  show ?thesis
    unfolding read_header_content_disposition_def substr_from_def if_P [OF len] rbind_simps Let_def esl params
    using quoted
    by (cases "hd_filename k = []") (simp_all add: remove_prefix_def param_name_def param_filename_def empty_header_def)
qed

lemma read_type_line:
  assumes "esl_contract e" and "header_ok k" and "hd_content_type k \<noteq> []"
  shows "read_header_content_type e (hdr_content_type @ '' '' @ hd_content_type k) h = Inr (True, h\<lparr>hd_content_type := hd_content_type k\<rparr>)"
  using assms trimmed_middle [of "'' ''" "'' ''" "[]" "hd_content_type k"]
  by (simp add: read_header_content_type_def substr_from_def esl_contract_def header_ok_def)

lemma lower_simps: "lower (CHR ''D'') \<noteq> lower (CHR ''T'')"
  by code_simp

lemma type_is_not_disposition:
  "map lower (take (length hdr_content_disposition) (hdr_content_type @ t)) \<noteq> map lower hdr_content_disposition"
  by (auto simp: hdr_content_disposition_def hdr_content_type_def lower_simps [symmetric] dest!: arg_cong [of _ _ "\<lambda>s. s ! 8"])

lemma disposition_is_disposition:
  assumes "esl_contract e"
  shows "starts_with_ignore_ascii_case e (disposition_line k) hdr_content_disposition"
  using assms by (simp add: esl_contract_def disposition_line_def)

lemma line_without_CR: "header_ok k \<Longrightarrow> CHR 0x0D \<notin> set (disposition_line k)"
  by (auto simp: disposition_line_def header_ok_def plain_def quoted_def quote_char_def hdr_content_disposition_def)

lemma consume_rendered_headers:
  assumes e: "esl_contract e" and k: "header_ok k"
    and b: "body r = disposition_line k @ newline @ type_line k @ newline @ rest"
  shows "consume_headers e r = Inr (True, k, r\<lparr>body := newline @ rest\<rparr>)"
proof -
  let ?h = "empty_header\<lparr>hd_name := hd_name k, hd_filename := hd_filename k\<rparr>"
  have one: "consume_content_header e empty_header r = Inr (True, ?h, r\<lparr>body := type_line k @ newline @ rest\<rparr>)"
    using disposition_is_disposition [OF e] read_disposition_line [OF e k] by (intro consume_line [OF line_without_CR [OF k] b]) simp
  have sw: "starts_with e s t \<longleftrightarrow> take (length t) s = t" for s t using e by (simp add: esl_contract_def)
  show ?thesis
  proof (cases "hd_content_type k = []")
    case True
    then have "?h = k" by (cases k) (simp add: empty_header_def)
    then show ?thesis using True one k by (simp add: consume_headers_def sw type_line_def header_ok_def)
  next
    case False
    let ?l = "hdr_content_type @ '' '' @ hd_content_type k" and ?r = "r\<lparr>body := type_line k @ newline @ rest\<rparr>"
    have h: "?h\<lparr>hd_content_type := hd_content_type k\<rparr> = k" by (cases k) (simp add: empty_header_def)
    have "consume_content_header e ?h ?r = Inr (True, k, ?r\<lparr>body := newline @ rest\<rparr>)"
    proof (rule consume_line)
      show "CHR 0x0D \<notin> set ?l" using k by (auto simp: hdr_content_type_def header_ok_def)
      show "body ?r = ?l @ newline @ newline @ rest" using False by (simp add: type_line_def)
      show "(if starts_with_ignore_ascii_case e ?l hdr_content_disposition then read_header_content_disposition e ?l ?h
          else if starts_with_ignore_ascii_case e ?l hdr_content_type then read_header_content_type e ?l ?h
          else Inr (False, ?h)) = Inr (True, k)"
        using e read_type_line [OF e k False, of ?h] type_is_not_disposition h by (simp add: esl_contract_def)
    qed
    moreover have "\<not> starts_with e (type_line k @ newline @ rest) newline"
      using False by (simp add: sw type_line_def newline_def hdr_content_type_def)
    ultimately show ?thesis using one k by (simp add: consume_headers_def header_ok_def)
  qed
qed

lemma consume_rendered_data:
  assumes "esl_contract e" and "clean_data bnd data" and "bnd \<noteq> []" and "boundary r = bnd"
    and "body r = data @ newline @ dashes @ bnd @ rest"
  shows "consume_data_part e r = Inr (data, r\<lparr>body := dashes @ bnd @ rest\<rparr>)"
  using find_data_end [OF assms(1-3), of rest] assms(4,5)
  by (simp add: consume_data_part_def remove_suffix_def remove_prefix_def newline_def)

text \<open>What is left of a reading after the headers of a part.\<close>

lemma read_part_headers:
  assumes e: "esl_contract e" and k: "header_ok k" and r: "boundary r = bnd" "status r = ready"
    and b: "body r = dashes @ bnd @ newline @ disposition_line k @ newline @ type_line k @ newline @ s"
  shows "read_next_part e r = rbind (consume_data_part e (r\<lparr>status := malformed, body := s\<rparr>)) (\<lambda>(data, r).
    if data = [] then Inr (None, r) else Inr (Some \<lparr>part_header = k, part_data = data\<rparr>, r\<lparr>status := ready\<rparr>))"
proof -
  let ?r = "r\<lparr>status := malformed\<rparr>"
  have hs: "consume_headers e (?r\<lparr>body := disposition_line k @ newline @ type_line k @ newline @ s\<rparr>) =
      Inr (True, k, ?r\<lparr>body := newline @ s\<rparr>)"
    using consume_rendered_headers [OF e k, of "?r\<lparr>body := disposition_line k @ newline @ type_line k @ newline @ s\<rparr>" s] by simp
  have nd: "take (length dashes) (newline @ s) \<noteq> dashes" for s by (simp add: dashes_def newline_def)
  have ap: "take (length s) (s @ t) = s" "drop (length s) (s @ t) = t" for s t :: string by simp_all
  show ?thesis
    using r b hs nd ap
    by (simp add: read_next_part_def consume_any_eq [OF e] Let_def del: take_append drop_append)
qed

lemma read_rendered_part:
  assumes e: "esl_contract e" and p: "part_ok bnd p" and bnd: "bnd \<noteq> []" and r: "boundary r = bnd" "status r = ready"
    and b: "body r = render_part bnd p @ dashes @ bnd @ rest"
  shows "read_next_part e r = Inr (Some p, r\<lparr>body := dashes @ bnd @ rest\<rparr>)"
proof -
  let ?d = "part_data p" and ?r = "r\<lparr>status := malformed\<rparr>"
  have k: "header_ok (part_header p)" and d: "?d \<noteq> []" "clean_data bnd ?d" using p by (simp_all add: part_ok_def)
  have data: "consume_data_part e (?r\<lparr>body := ?d @ newline @ dashes @ bnd @ rest\<rparr>) = Inr (?d, ?r\<lparr>body := dashes @ bnd @ rest\<rparr>)"
    using consume_rendered_data [OF e d(2) bnd, of "?r\<lparr>body := ?d @ newline @ dashes @ bnd @ rest\<rparr>" rest] r by simp
  show ?thesis
    using read_part_headers [OF e k r, of "?d @ newline @ dashes @ bnd @ rest"] b data d(1) r
    by (cases p) (simp add: render_part_def)
qed

lemma read_end:
  assumes e: "esl_contract e" and r: "boundary r = bnd" "status r = ready" and b: "body r = dashes @ bnd @ dashes @ newline"
  shows "\<exists>r'. read_next_part e r = Inr (None, r') \<and> status r' = finished"
  using r b by (simp add: read_next_part_def consume_any_eq [OF e])

lemma render_starts: "\<exists>rest. render bnd ps = dashes @ bnd @ rest"
  by (cases ps) (auto simp: render_def render_part_def)

lemma render_Cons: "render bnd (p # ps) = render_part bnd p @ render bnd ps"
  by (simp add: render_def)

lemma parse_rendered:
  assumes e: "esl_contract e" and bnd: "bnd \<noteq> []"
  shows "boundary r = bnd \<Longrightarrow> status r = ready \<Longrightarrow> list_all (part_ok bnd) ps \<Longrightarrow> body r = render bnd ps \<Longrightarrow> length ps < n \<Longrightarrow>
    parse_loop n e r f = Inr (fold add_part ps f, finished)"
proof (induction ps arbitrary: r f n)
  case Nil
  then obtain r' where "read_next_part e r = Inr (None, r')" "status r' = finished"
    using read_end [OF e] by (auto simp: render_def)
  then show ?case using Nil by (cases n) simp_all
next
  case (Cons p ps)
  obtain rest where rest: "render bnd ps = dashes @ bnd @ rest" using render_starts by blast
  have "read_next_part e r = Inr (Some p, r\<lparr>body := render bnd ps\<rparr>)"
    using Cons.prems rest by (simp add: read_rendered_part [OF e _ bnd] render_Cons)
  then show ?case using Cons by (cases n) simp_all
qed

lemma render_length: "length ps < length (render bnd ps)"
  by (induction ps) (simp_all add: render_Cons, simp_all add: render_def render_part_def newline_def dashes_def)

section \<open>Rejected data\<close>

lemma rejected_form:
  assumes e: "esl_contract e" and k: "header_ok (part_header p)" and bnd: "bnd \<noteq> []"
    and data: "\<exists>b. consume_data_part e \<lparr>body = part_data p @ newline @ render bnd ps, boundary = bnd, status = malformed\<rparr> =
      Inr ([], \<lparr>body = b, boundary = bnd, status = malformed\<rparr>)"
  shows "parse_multipart_form e (render bnd (p # ps)) bnd = Inl (Thrown ''malformed request body'')"
proof -
  let ?r = "\<lparr>body = render bnd (p # ps), boundary = bnd, status = ready\<rparr>"
  obtain b where b: "read_next_part e ?r = Inr (None, \<lparr>body = b, boundary = bnd, status = malformed\<rparr>)"
    using read_part_headers [OF e k, of ?r bnd "part_data p @ newline @ render bnd ps"] data
    by (auto simp: render_Cons render_part_def)
  have "render bnd (p # ps) \<noteq> []" using render_length [of "p # ps" bnd] by auto
  then show ?thesis using b bnd by (simp add: parse_multipart_form_def multipart_reader_new_def)
qed

lemma empty_data_is_not_read:
  assumes "esl_contract e" and "clean_data bnd []" and "bnd \<noteq> []"
  shows "\<exists>b. consume_data_part e \<lparr>body = newline @ render bnd ps, boundary = bnd, status = malformed\<rparr> =
      Inr ([], \<lparr>body = b, boundary = bnd, status = malformed\<rparr>)"
proof -
  obtain rest where "render bnd ps = dashes @ bnd @ rest" using render_starts by blast
  then show ?thesis
    using consume_rendered_data [OF assms, of "\<lparr>body = newline @ render bnd ps, boundary = bnd, status = malformed\<rparr>" rest] by simp
qed

lemma early_boundary_is_not_read:
  assumes "length x < 4"
  shows "consume_data_part e \<lparr>body = x @ bnd @ y, boundary = bnd, status = malformed\<rparr> =
      Inr ([], \<lparr>body = x @ bnd @ y, boundary = bnd, status = malformed\<rparr>)"
proof -
  have "occurs_at bnd (x @ bnd @ y) (length x)" by (simp add: occurs_at_def)
  then obtain k where "find_from bnd (x @ bnd @ y) 0 = Some k" "k \<le> length x"
    by (cases "find_from bnd (x @ bnd @ y) 0")
       (force simp: find_from_def find_None_iff simp del: upt_Suc, metis find_from_Some_iff le_eq_less_or_eq linorder_not_less zero_le)
  then have "find_dashed_boundary e (x @ bnd @ y) bnd = None"
    using assms by (subst find_dashed_boundary_def, subst dashed_loop.simps) (simp add: delim_prefix_def newline_def dashes_def)
  then show ?thesis by (simp add: consume_data_part_def)
qed

section \<open>Properties\<close>

text \<open>One implementation of the helpers, with the documented behaviour.\<close>

definition std_esl :: esl where
  "std_esl = \<lparr>starts_with = \<lambda>s p. take (length p) s = p,
     starts_with_ignore_ascii_case = \<lambda>s p. map lower (take (length p) s) = map lower p,
     equals_ignore_ascii_case = \<lambda>s t. map lower s = map lower t,
     trim = trimmed, split_by = \<lambda>s d. pieces (hd d) s\<rparr>"

lemma std_esl_contract: "esl_contract std_esl"
  by (simp add: esl_contract_def std_esl_def)

definition sample_part :: content_part where
  "sample_part = \<lparr>part_header = \<lparr>hd_name = ''f'', hd_filename = ''a.txt'', hd_content_type = ''text/plain''\<rparr>, part_data = ''hi''\<rparr>"

definition sample_field :: content_part where
  "sample_field = \<lparr>part_header = \<lparr>hd_name = ''x'', hd_filename = '''', hd_content_type = ''''\<rparr>, part_data = ''1''\<rparr>"

lemma clean_data_code [code]: "clean_data bnd data \<longleftrightarrow> list_all (\<lambda>i. \<not> occurs_at bnd (data @ delim_prefix @ bnd) i) [0..<length data + 4]"
  by (auto simp: clean_data_def list_all_iff)

text \<open>
  Fact. Reading a form always comes to an answer: for every body and every boundary
  \<open>parse_multipart_form\<close> returns a form or throws one of its exceptions; it does not loop, and no view
  is ever cut beyond its end.
\<close>

theorem form_parser_always_answers:
  assumes "esl_contract e"
  shows "(\<exists>f. parse_multipart_form e bd bnd = Inr f) \<or> (\<exists>msg. parse_multipart_form e bd bnd = Inl (Thrown msg))"
proof -
  obtain f st where "parse_loop (length bd + 1) e \<lparr>body = bd, boundary = bnd, status = ready\<rparr> empty_form = Inr (f, st)"
    using parse_loop_returns [OF assms, of "\<lparr>body = bd, boundary = bnd, status = ready\<rparr>" "length bd + 1" empty_form] by auto
  then show ?thesis by (auto simp: parse_multipart_form_def multipart_reader_new_def)
qed

theorem form_parser_always_answers_witness:
  "esl_contract std_esl \<and> ((\<exists>f. parse_multipart_form std_esl ''--b'' ''b'' = Inr f) \<or> (\<exists>msg. parse_multipart_form std_esl ''--b'' ''b'' = Inl (Thrown msg)))"
  using form_parser_always_answers [OF std_esl_contract] std_esl_contract by simp

lemma map_emplace_apply: "map_emplace k v m n = (if n = k \<and> m n = None then Some v else m n)"
  by (auto simp: map_emplace_def)

lemma form_values_fold:
  "form_values (fold add_part ps f) n = (case form_values f n of Some v \<Rightarrow> Some v
     | None \<Rightarrow> map_option part_data (find (\<lambda>p. hd_filename (part_header p) = [] \<and> hd_name (part_header p) = n) ps))"
proof (induction ps arbitrary: f)
  case (Cons p ps)
  then show ?case by (auto simp: add_part_def Let_def map_emplace_apply split: option.splits)
qed (simp split: option.splits)

lemma form_files_fold:
  "form_files (fold add_part ps f) n = (case form_files f n of Some v \<Rightarrow> Some v
     | None \<Rightarrow> map_option (\<lambda>p. \<lparr>file_name = hd_filename (part_header p), file_data = part_data p\<rparr>)
         (find (\<lambda>p. hd_filename (part_header p) \<noteq> [] \<and> hd_name (part_header p) = n) ps))"
proof (induction ps arbitrary: f)
  case (Cons p ps)
  then show ?case by (auto simp: add_part_def Let_def map_emplace_apply split: option.splits)
qed (simp split: option.splits)

text \<open>
  Property C34. A form that was rendered as the RFC says is read back: the value under a name is the data of the first part with
  that name and no file name, and the file under a name is the file name and the data of the first part with that name and a file
  name; there are no others. The boundary and the names are not empty; names and file names do not have a quote, a semicolon or
  a carriage return, content types no carriage return and no blank at either end; the data is not empty and the boundary is not found in
  it, nor across its end and the delimiter behind it.
\<close>

theorem form_roundtrip:
  assumes "esl_contract e" and "bnd \<noteq> []" and "list_all (part_ok bnd) ps"
  shows "\<exists>f. parse_multipart_form e (render bnd ps) bnd = Inr f \<and>
    (\<forall>n. form_values f n = map_option part_data (find (\<lambda>p. hd_filename (part_header p) = [] \<and> hd_name (part_header p) = n) ps)) \<and>
    (\<forall>n. form_files f n = map_option (\<lambda>p. \<lparr>file_name = hd_filename (part_header p), file_data = part_data p\<rparr>)
      (find (\<lambda>p. hd_filename (part_header p) \<noteq> [] \<and> hd_name (part_header p) = n) ps))"
proof -
  let ?r = "\<lparr>body = render bnd ps, boundary = bnd, status = ready\<rparr>"
  have "parse_loop (length (render bnd ps) + 1) e ?r empty_form = Inr (fold add_part ps empty_form, finished)"
    using assms render_length [of ps bnd] by (intro parse_rendered) simp_all
  moreover have "render bnd ps \<noteq> []" using render_length [of ps bnd] by auto
  ultimately have "parse_multipart_form e (render bnd ps) bnd = Inr (fold add_part ps empty_form)"
    using assms(2) by (simp add: parse_multipart_form_def multipart_reader_new_def)
  then show ?thesis by (simp add: form_values_fold form_files_fold empty_form_def)
qed

theorem form_roundtrip_witness:
  "list_all (part_ok ''XyZ'') [sample_part, sample_field, sample_field\<lparr>part_data := ''again''\<rparr>] \<and>
   (\<exists>f. parse_multipart_form std_esl (render ''XyZ'' [sample_part, sample_field, sample_field\<lparr>part_data := ''again''\<rparr>]) ''XyZ'' = Inr f \<and>
     form_values f (hd_name (part_header sample_field)) = Some (part_data sample_field) \<and>
     form_files f (hd_name (part_header sample_part)) =
       Some \<lparr>file_name = hd_filename (part_header sample_part), file_data = part_data sample_part\<rparr>)"
proof -
  let ?ps = "[sample_part, sample_field, sample_field\<lparr>part_data := ''again''\<rparr>]"
  have ok: "list_all (part_ok ''XyZ'') ?ps" by code_simp
  obtain f where f: "parse_multipart_form std_esl (render ''XyZ'' ?ps) ''XyZ'' = Inr f"
    "\<forall>n. form_values f n = map_option part_data (find (\<lambda>p. hd_filename (part_header p) = [] \<and> hd_name (part_header p) = n) ?ps)"
    "\<forall>n. form_files f n = map_option (\<lambda>p. \<lparr>file_name = hd_filename (part_header p), file_data = part_data p\<rparr>)
      (find (\<lambda>p. hd_filename (part_header p) \<noteq> [] \<and> hd_name (part_header p) = n) ?ps)"
    using form_roundtrip [OF std_esl_contract _ ok] by auto
  have "hd_filename (part_header sample_field) = []" "hd_filename (part_header sample_part) \<noteq> []" by code_simp+
  then show ?thesis using f ok by simp
qed

text \<open>
  Fact. A field that was left empty makes the whole form malformed: browsers send it as a part
  without data, and \<open>read_next_part\<close> takes empty data for a missing delimiter.
\<close>

theorem empty_field_is_malformed:
  assumes "esl_contract e" and "header_ok (part_header p)" and "part_data p = []" and "bnd \<noteq> []" and "clean_data bnd []"
  shows "parse_multipart_form e (render bnd (p # ps)) bnd = Inl (Thrown ''malformed request body'')"
  using assms empty_data_is_not_read [OF assms(1,5,4), of ps] by (intro rejected_form) simp_all

theorem empty_field_is_malformed_witness:
  "esl_contract std_esl \<and>
   parse_multipart_form std_esl (render ''XyZ'' [sample_field\<lparr>part_data := []\<rparr>, sample_part]) ''XyZ'' = Inl (Thrown ''malformed request body'')"
proof -
  have "header_ok (part_header (sample_field\<lparr>part_data := []\<rparr>))" "clean_data ''XyZ'' []"
    by code_simp+
  then show ?thesis
    using empty_field_is_malformed [OF std_esl_contract, of "sample_field\<lparr>part_data := []\<rparr>" "''XyZ''" "[sample_part]"] std_esl_contract by simp
qed

text \<open>
  Fact. Data in which the boundary's characters stand within the first four is rejected,
  although no delimiter is there: the search gives up instead of looking further.
\<close>

theorem early_boundary_text_is_malformed:
  assumes "esl_contract e" and "header_ok (part_header p)" and "part_data p = x @ bnd @ y" and "length x < 4" and "bnd \<noteq> []"
  shows "parse_multipart_form e (render bnd (p # ps)) bnd = Inl (Thrown ''malformed request body'')"
  using assms early_boundary_is_not_read [OF assms(4), of e bnd "y @ newline @ render bnd ps"] by (intro rejected_form) simp_all

theorem early_boundary_text_is_malformed_witness:
  "esl_contract std_esl \<and>
   parse_multipart_form std_esl (render ''XyZ'' [sample_field\<lparr>part_data := ''a XyZ b''\<rparr>]) ''XyZ'' = Inl (Thrown ''malformed request body'')"
proof -
  have "header_ok (part_header (sample_field\<lparr>part_data := ''a XyZ b''\<rparr>))"
    by (simp add: sample_field_def header_ok_def plain_def quote_char_def)
  then show ?thesis
    using early_boundary_text_is_malformed [OF std_esl_contract, of "sample_field\<lparr>part_data := ''a XyZ b''\<rparr>" "''a ''" "''XyZ''" "'' b''" "[]"] std_esl_contract by simp
qed

end
