(* ===== verification/Http_Router.thy ===== *)
theory Http_Router
  imports Simulation
begin

text \<open>
  The tree of routes (\<open>src/learn-cxx/beast/http_router/tree.h\<close>): a radix tree whose edges are pieces of
  routes, with one child for a parameter \<open>:name\<close> or a catch-all \<open>*name\<close>. A handler is a number (a
  function object that is not empty); texts of exceptions are not modelled, only their kinds. The
  theory shows that the tree refines a table of routes, also when a route is rejected, and that every
  path that is an instance of a route is located with its handler and its parameters; and that paths
  of the right length are located which are instances of no route.
\<close>

section \<open>Wildcards\<close>

type_synonym param = "string \<times> string"

text \<open>\<open>string_view::find_first_of\<close> from a position.\<close>

definition find_first_of :: "string \<Rightarrow> string \<Rightarrow> nat \<Rightarrow> nat option" where
  "find_first_of cs s i =
     (let k = i + length (takeWhile (\<lambda>c. c \<notin> set cs) (drop i s)) in if k < length s then Some k else None)"

text \<open>A wildcard that is found, with its name and position; the name is empty when it is invalid.\<close>

definition find_wildcard :: "string \<Rightarrow> (string \<times> nat) option" where
  "find_wildcard path = (case find_first_of '':*'' path 0 of
     None \<Rightarrow> None
   | Some start \<Rightarrow> (case find_first_of '':*/'' path (start + 1) of
       None \<Rightarrow> Some (drop start path, start)
     | Some stop \<Rightarrow>
         if path ! stop = CHR ''/'' then Some (take (stop - start) (drop start path), start)
         else Some ([], start)))"

definition valid_name :: "string \<Rightarrow> bool" where
  "valid_name name \<longleftrightarrow> length name > 1"

fun longest_common_prefix :: "string \<Rightarrow> string \<Rightarrow> nat" where
  "longest_common_prefix (c # s) (d # t) = (if c = d then Suc (longest_common_prefix s t) else 0)"
| "longest_common_prefix _ _ = 0"

section \<open>Nodes\<close>

datatype node_type = type_plain | type_root | type_param | type_catch_all

datatype node = Node (node_path: string) (indices: string) (has_wild_child: bool) (node_kind: node_type)
    (priority: int) (children: "node list") (handler: "nat option")

definition new_node :: node where
  "new_node = Node [] [] False type_plain 0 [] None"

primrec add_priority :: "node \<Rightarrow> node" where
  "add_priority (Node p ix w t pr cs h) = Node p ix w t (pr + 1) cs h"

primrec set_children :: "node \<Rightarrow> node list \<Rightarrow> node" where
  "set_children (Node p ix w t pr cs h) cs' = Node p ix w t pr cs' h"

primrec set_handler :: "node \<Rightarrow> nat \<Rightarrow> node" where
  "set_handler (Node p ix w t pr cs h) k = Node p ix w t pr cs (Some k)"

primrec set_type :: "node \<Rightarrow> node_type \<Rightarrow> node" where
  "set_type (Node p ix w t pr cs h) t' = Node p ix w t' pr cs h"

datatype route_error =
    Duplicate
  | Wildcard_conflict
  | Invalid_wildcard
  | Wildcard_conflicts_children
  | Catch_all_not_last
  | Catch_all_conflict
  | No_slash_before_catch_all

text \<open>How adding a route ends: an exception leaves the tree as it was changed so far.\<close>

datatype route_result = Added | Rejected route_error | Faulted fault

section \<open>Inserting\<close>

text \<open>The loop that finds the new place of a child, and moving it there (\<open>std::shift_right\<close>).\<close>

fun climb :: "int \<Rightarrow> node list \<Rightarrow> nat \<Rightarrow> nat" where
  "climb prio cs 0 = 0"
| "climb prio cs (Suc k) = (if priority (cs ! k) < prio then climb prio cs k else Suc k)"

definition move_to :: "nat \<Rightarrow> nat \<Rightarrow> 'a list \<Rightarrow> 'a list" where
  "move_to new pos xs = take new xs @ xs ! pos # take (pos - new) (drop new xs) @ drop (Suc pos) xs"

primrec increment_child_priority :: "nat \<Rightarrow> node \<Rightarrow> (nat \<times> node) res" where
  "increment_child_priority pos (Node p ix w t pr cs h) =
     rbind (guard (length ix = length cs) Assert_failed) (\<lambda>_.
     rbind (guard (pos < length cs) Out_of_bounds) (\<lambda>_.
     let cs = cs[pos := add_priority (cs ! pos)];
         new_pos = climb (priority (cs ! pos)) cs pos
     in Inr (new_pos,
          if new_pos \<noteq> pos then Node p (move_to new_pos pos ix) w t pr (move_to new_pos pos cs) h
          else Node p ix w t pr cs h)))"

text \<open>
  \<open>insert_path\<close>; every caller passes the unknown wildcard, so the path is always scanned.
\<close>

definition catch_all_nodes :: "string \<Rightarrow> nat \<Rightarrow> node" where
  "catch_all_nodes name k =
     Node [] [] True type_catch_all 1 [Node name [] False type_catch_all 1 [] (Some k)] None"

lemma find_wildcard_shorter:
  "find_wildcard path = Some (name, pos) \<Longrightarrow> name \<noteq> [] \<Longrightarrow> pos < length path"
  by (auto simp: find_wildcard_def find_first_of_def Let_def split: option.splits if_splits)

function insert_path :: "node \<Rightarrow> string \<Rightarrow> nat \<Rightarrow> route_result \<times> node" where
  "insert_path (Node p ix w t pr cs h) path k = (case find_wildcard path of
     None \<Rightarrow> (Added, Node path ix w t pr cs (Some k))
   | Some (name, pos) \<Rightarrow>
       if \<not> valid_name name then (Rejected Invalid_wildcard, Node p ix w t pr cs h)
       else if cs \<noteq> [] then (Rejected Wildcard_conflicts_children, Node p ix w t pr cs h)
       else if hd name = CHR '':'' then
         let p' = (if pos \<noteq> 0 then take pos path else p);
             rest = drop (length name) (drop pos path)
         in if length (drop pos path) = length name
            then (Added, Node p' ix True t pr (cs @ [Node name [] False type_param 1 [] (Some k)]) h)
            else (let (r, grand_child) = insert_path (Node [] [] False type_plain 1 [] None) rest k
                  in (r, Node p' ix True t pr (cs @ [Node name [] False type_param 1 [grand_child] None]) h))
       else if pos + length name \<noteq> length path then (Rejected Catch_all_not_last, Node p ix w t pr cs h)
       else if p \<noteq> [] \<and> last p = CHR ''/'' then (Rejected Catch_all_conflict, Node p ix w t pr cs h)
       else if \<not> pos > 0 then (Faulted Assert_failed, Node p ix w t pr cs h)
       else if path ! (pos - 1) \<noteq> CHR ''/'' then (Rejected No_slash_before_catch_all, Node p ix w t pr cs h)
       else (Added, Node (take (pos - 1) path) ''/'' w t pr (cs @ [catch_all_nodes (drop (pos - 1) path) k]) h))"
  by pat_completeness auto

termination
proof (relation "measure (\<lambda>(n, path, k). length path)", simp)
  fix path name :: string and pos :: nat and x :: "string \<times> nat"
  fix p ix w t pr cs h k p' rest
  assume "find_wildcard path = Some x" and "(name, pos) = x" and "\<not> \<not> valid_name name"
    and r: "rest = drop (length name) (drop pos path)"
  then have "find_wildcard path = Some (name, pos)" "name \<noteq> []" by (auto simp: valid_name_def)
  then have "pos < length path" "0 < length name" using find_wildcard_shorter by auto
  then show "((Node [] [] False type_plain 1 [] None, rest, k), Node p ix w t pr cs h, path, k)
      \<in> measure (\<lambda>(n, path, k). length path)" using r by (simp del: length_greater_0_conv)
qed

declare insert_path.simps [simp del]

text \<open>The split of a node whose path goes on after the common prefix.\<close>

primrec split_node :: "nat \<Rightarrow> node \<Rightarrow> node" where
  "split_node len (Node p ix w t pr cs h) =
     (if len < length p
      then Node (take len p) [p ! len] False t pr [Node (drop len p) ix w type_plain (pr - 1) cs h] None
      else Node p ix w t pr cs h)"

definition find_index :: "char \<Rightarrow> string \<Rightarrow> nat option" where
  "find_index c ix = (let i = length (takeWhile (\<lambda>x. x \<noteq> c) ix) in if i < length ix then Some i else None)"

text \<open>
  \<open>insert_route\<close> up to its recursive calls: it ends, or it goes on in a child with the rest of the path.
\<close>

datatype route_step = Finished route_result node | Descend nat node string

definition end_here :: "route_result \<times> node \<Rightarrow> route_step" where
  "end_here rn = Finished (fst rn) (snd rn)"

definition add_child :: "char \<Rightarrow> string \<Rightarrow> nat \<Rightarrow> node \<Rightarrow> route_step" where
  "add_child idxc path k n =
     (let n = Node (node_path n) (indices n @ [idxc]) (has_wild_child n) (node_kind n) (priority n) (children n @ [new_node]) (handler n)
      in case increment_child_priority (length (indices n) - 1) n of
           Inl f \<Rightarrow> Finished (Faulted f) n
         | Inr (i, n) \<Rightarrow>
             let (r, child) = insert_path (children n ! i) path k in Finished r (set_children n ((children n)[i := child])))"

definition route_next :: "node \<Rightarrow> string \<Rightarrow> nat \<Rightarrow> route_step" where
  "route_next n0 path0 k =
     (let len = longest_common_prefix path0 (node_path n0);
          n = split_node len n0
      in if len = length path0
         then if handler n \<noteq> None then Finished (Rejected Duplicate) n else Finished Added (set_handler n k)
         else
           let path = drop len path0 in
           if has_wild_child n
           then case children n of
                  [] \<Rightarrow> Finished (Faulted Out_of_bounds) n
                | child # rest \<Rightarrow>
                    let n = set_children n (add_priority child # rest) in
                    if take (length (node_path child)) path = node_path child \<and> node_kind child \<noteq> type_catch_all \<and>
                       (length (node_path child) = length path \<or> path ! length (node_path child) = CHR ''/'')
                    then Descend 0 n path
                    else Finished (Rejected Wildcard_conflict) n
           else
             let idxc = hd path in
             if node_kind n = type_param \<and> idxc = CHR ''/'' \<and> children n \<noteq> []
             then if length (children n) \<noteq> 1 then Finished (Faulted Assert_failed) n
                  else Descend 0 (set_children n [add_priority (hd (children n))]) path
             else case find_index idxc (indices n) of
                    Some i \<Rightarrow> (case increment_child_priority i n of
                        Inl f \<Rightarrow> Finished (Faulted f) n
                      | Inr (i, n) \<Rightarrow> Descend i n path)
                  | None \<Rightarrow>
                      if idxc \<noteq> CHR '':'' \<and> idxc \<noteq> CHR ''*'' then add_child idxc path k n
                      else end_here (insert_path n path k))"

text \<open>A measure for the descent: parameters weigh more, since a split turns them into plain nodes.\<close>

fun weight :: "node \<Rightarrow> nat" where
  "weight (Node p ix w t pr cs h) = 1 + (if t = type_param then 2 else 0) + sum_list (map weight cs)"

lemma weight_add_priority [simp]: "weight (add_priority n) = weight n"
  by (cases n) simp

lemma weight_child: "c \<in> set cs \<Longrightarrow> weight c < weight (Node p ix w t pr cs h)"
  using member_le_sum_list [of "weight c" "map weight cs"] by simp

lemma set_move_to: "new \<le> pos \<Longrightarrow> pos < length xs \<Longrightarrow> set (move_to new pos xs) = set xs"
proof -
  assume a: "new \<le> pos" "pos < length xs"
  then have "xs = take new xs @ take (pos - new) (drop new xs) @ xs ! pos # drop (Suc pos) xs"
    by (metis append_take_drop_id id_take_nth_drop le_add_diff_inverse take_add append.assoc)
  then have "set xs = set (take new xs @ take (pos - new) (drop new xs) @ xs ! pos # drop (Suc pos) xs)" by simp
  then show ?thesis by (auto simp: move_to_def)
qed

lemma climb_le: "climb prio cs k \<le> k"
  by (induction k) auto

lemma lcp_zero: "longest_common_prefix s t = 0 \<Longrightarrow> s \<noteq> [] \<Longrightarrow> t \<noteq> [] \<Longrightarrow> hd s \<noteq> hd t"
  by (cases s; cases t) (auto split: if_splits)

lemma lcp_split:
  "\<exists>s' t'. s = take (longest_common_prefix s t) t @ s' \<and> t = take (longest_common_prefix s t) t @ t' \<and>
     longest_common_prefix s t \<le> length t \<and> longest_common_prefix s t \<le> length s \<and>
     (s' \<noteq> [] \<longrightarrow> t' \<noteq> [] \<longrightarrow> hd s' \<noteq> hd t')"
  by (induction s t rule: longest_common_prefix.induct) auto

lemma takeWhile_index:
  "c \<in> set ix \<Longrightarrow> length (takeWhile (\<lambda>x. x \<noteq> c) ix) < length ix \<and> ix ! length (takeWhile (\<lambda>x. x \<noteq> c) ix) = c"
  by (induction ix) auto

lemma takeWhile_no_index: "c \<notin> set ix \<Longrightarrow> takeWhile (\<lambda>x. x \<noteq> c) ix = ix"
  by (induction ix) auto

lemma find_index_None: "find_index c ix = None \<longleftrightarrow> c \<notin> set ix"
  using takeWhile_index [of c ix] by (cases "c \<in> set ix") (simp_all add: find_index_def Let_def takeWhile_no_index)

lemma find_index_Some: "find_index c ix = Some i \<Longrightarrow> i < length ix \<and> ix ! i = c"
  using takeWhile_index [of c ix] takeWhile_no_index [of c ix]
  by (cases "c \<in> set ix") (auto simp: find_index_def Let_def split: if_splits)

lemma increment_child_priority_Inr:
  assumes "increment_child_priority i n = Inr (j, n')"
  shows "length (indices n) = length (children n) \<and> i < length (children n) \<and> j \<le> i \<and>
    n' = Node (node_path n) (move_to j i (indices n)) (has_wild_child n) (node_kind n) (priority n)
      (move_to j i ((children n)[i := add_priority (children n ! i)])) (handler n)"
proof -
  have id: "move_to i i xs = xs" if "i < length xs" for xs :: "'a list"
    using that by (simp add: move_to_def id_take_nth_drop [symmetric])
  show ?thesis using assms climb_le id [of "indices n"] id [of "(children n)[i := add_priority (children n ! i)]"]
    by (cases n) (auto simp: guard_def rbind_def Let_def split: if_splits)
qed

lemma move_to_new: "new \<le> pos \<Longrightarrow> pos < length xs \<Longrightarrow> move_to new pos xs ! new = xs ! pos"
  by (simp add: move_to_def nth_append)

lemma length_move_to: "new \<le> pos \<Longrightarrow> pos < length xs \<Longrightarrow> length (move_to new pos xs) = length xs"
  by (simp add: move_to_def)

lemma end_here_not_Descend [simp]: "end_here rn \<noteq> Descend i n' path'"
  by (simp add: end_here_def)

lemma add_child_not_Descend [simp]: "add_child c path k n \<noteq> Descend i n' path'"
  by (auto simp: add_child_def Let_def split: sum.splits prod.splits)

lemma split_weight:
  assumes "c \<in> set (children (split_node len n))" and "len = 0 \<Longrightarrow> len < length (node_path n) \<Longrightarrow> node_kind n = type_param"
  shows "weight c < weight n + len"
proof (cases n)
  case (Node p ix w t pr cs h)
  show ?thesis
  proof (cases "len < length p")
    case True
    then show ?thesis using assms Node by (cases "len = 0") (auto split: if_splits)
  next
    case False
    then show ?thesis using assms(1) Node weight_child [of c cs p ix w t pr h] by (simp del: weight.simps)
  qed
qed

lemma route_next_descends:
  assumes "route_next n path k = Descend i n' path'" and "i < length (children n')"
  shows "weight (children n' ! i) + length path' < weight n + length path"
proof -
  define len where "len = longest_common_prefix path (node_path n)"
  define m where "m = split_node len n"
  have lp: "len \<le> length path" using lcp_split [of path "node_path n"] by (auto simp: len_def)
  have kind: "node_kind m = node_kind n" by (cases n) (simp add: m_def)
  have "\<exists>c \<in> set (children m). children n' ! i = add_priority c \<and> path' = drop len path \<and>
      (len = 0 \<and> len < length (node_path n) \<longrightarrow> node_kind n = type_param)"
  proof (cases "has_wild_child m")
    case True
    have "\<not> len < length (node_path n)" using True by (cases n) (auto simp: m_def)
    moreover have "\<exists>c rest. children m = c # rest \<and> n' = set_children m (add_priority c # rest) \<and> i = 0 \<and> path' = drop len path"
      using assms(1) True by (auto simp: route_next_def Let_def simp flip: len_def m_def split: list.splits if_splits)
    ultimately show ?thesis by (cases m) auto
  next
    case False
    show ?thesis
    proof (cases "node_kind m = type_param \<and> hd (drop len path) = CHR ''/'' \<and> children m \<noteq> []")
      case True
      then have "length (children m) = 1 \<and> n' = set_children m [add_priority (hd (children m))] \<and> i = 0 \<and> path' = drop len path"
        using assms(1) False by (auto simp: route_next_def Let_def simp flip: len_def m_def split: if_splits)
      then show ?thesis using True kind by (cases m) (auto simp: length_Suc_conv)
    next
      case no: False
      then have "len \<noteq> length path" and "path' = drop len path" and
        "\<exists>i0. find_index (hd (drop len path)) (indices m) = Some i0 \<and> increment_child_priority i0 m = Inr (i, n')"
        using assms(1) False
        by (auto simp: route_next_def Let_def simp flip: len_def m_def split: if_splits option.splits sum.splits prod.splits)
      then obtain i0 where i0: "find_index (hd (drop len path)) (indices m) = Some i0" "increment_child_priority i0 m = Inr (i, n')"
        by blast
      note inc = increment_child_priority_Inr [OF i0(2)]
      have "children n' ! i = add_priority (children m ! i0)" using inc by (simp add: move_to_new)
      moreover have "\<not> (len = 0 \<and> len < length (node_path n))"
      proof
        assume z: "len = 0 \<and> len < length (node_path n)"
        then have "indices m = [hd (node_path n)]" by (cases n) (auto simp: m_def hd_conv_nth)
        then have "hd path = hd (node_path n)" using find_index_Some [OF i0(1)] z by auto
        then show False using lcp_zero [of path "node_path n"] z \<open>len \<noteq> length path\<close> by (auto simp: len_def)
      qed
      ultimately show ?thesis using inc \<open>path' = drop len path\<close> by auto
    qed
  qed
  then obtain c where c: "c \<in> set (children m)" "children n' ! i = add_priority c" "path' = drop len path"
      "len = 0 \<and> len < length (node_path n) \<longrightarrow> node_kind n = type_param" by blast
  have "weight c < weight n + len" using c(1,4) by (intro split_weight) (auto simp: m_def)
  then show ?thesis using c lp by simp
qed

function insert_route :: "node \<Rightarrow> string \<Rightarrow> nat \<Rightarrow> route_result \<times> node" where
  "insert_route n path k = (case route_next n path k of
     Finished r n' \<Rightarrow> (r, n')
   | Descend i n' path' \<Rightarrow>
       if i < length (children n')
       then (let (r, child) = insert_route (children n' ! i) path' k in (r, set_children n' ((children n')[i := child])))
       else (Faulted Out_of_bounds, n'))"
  by pat_completeness auto

termination
  by (relation "measure (\<lambda>(n, path, k). weight n + length path)") (auto dest: route_next_descends)

declare insert_route.simps [simp del]

definition add_route :: "node \<Rightarrow> string \<Rightarrow> nat \<Rightarrow> route_result \<times> node" where
  "add_route n path k =
     (let n = add_priority n in
      if node_path n = [] \<and> indices n = []
      then (let (r, n) = insert_path n path k in (r, if r = Added then set_type n type_root else n))
      else insert_route n path k)"

section \<open>Locating\<close>

text \<open>\<open>string_view::substr\<close> of a node's path, which throws when the path is too short.\<close>

definition substr_of :: "string \<Rightarrow> nat \<Rightarrow> string res" where
  "substr_of s i = (if i \<le> length s then Inr (drop i s) else Inl (Thrown ''out_of_range''))"

lemma weight_grand_child:
  "g \<in> set ccs \<Longrightarrow> weight g < weight (Node p ix w t pr (Node cp cix cw ct cpr ccs ch # cs) h)"
  using weight_child [of g ccs cp cix cw ct cpr ch]
    weight_child [of "Node cp cix cw ct cpr ccs ch" "Node cp cix cw ct cpr ccs ch # cs" p ix w t pr h] by (simp del: weight.simps)

function locate :: "node \<Rightarrow> string \<Rightarrow> param list \<Rightarrow> (nat option \<times> param list) res" where
  "locate (Node p ix w t pr cs h) path params =
     (if length path = length p then Inr (h, params)
      else if length path > length p \<and> take (length p) path = p then
        let path = drop (length p) path in
        if \<not> w then
          (case find_index (hd path) ix of
             None \<Rightarrow> Inr (None, params)
           | Some i \<Rightarrow> if i < length cs then locate (cs ! i) path params else Inl Out_of_bounds)
        else (case cs of
            [] \<Rightarrow> Inl Out_of_bounds
          | Node cp cix cw ct cpr ccs ch # _ \<Rightarrow>
              if ct = type_param then
                rbind (substr_of cp 1) (\<lambda>key.
                let value = takeWhile (\<lambda>c. c \<noteq> CHR ''/'') path;
                    rest = dropWhile (\<lambda>c. c \<noteq> CHR ''/'') path;
                    params = params @ [(key, value)]
                in if rest = [] then Inr (ch, params)
                   else (case ccs of
                       grand_child # _ \<Rightarrow> locate grand_child rest params
                     | [] \<Rightarrow> Inr (None, params)))
              else if ct = type_catch_all then
                rbind (substr_of cp 2) (\<lambda>key. Inr (ch, params @ [(key, path)]))
              else Inl (Thrown ''node type of route is invalid''))
      else Inr (None, params))"
  by pat_completeness auto

termination
  by (relation "measure (\<lambda>(n, path, params). weight n)") (auto simp del: weight.simps intro: weight_child weight_grand_child)

declare locate.simps [simp del]

section \<open>Routes\<close>

text \<open>The routes below a node, as the table they stand for.\<close>

definition prefixed :: "string \<Rightarrow> (string \<times> nat) set \<Rightarrow> (string \<times> nat) set" where
  "prefixed p R = (\<lambda>(q, k). (p @ q, k)) ` R"

definition own_route :: "nat option \<Rightarrow> (string \<times> nat) set" where
  "own_route h = (case h of None \<Rightarrow> {} | Some k \<Rightarrow> {([], k)})"

fun routes :: "node \<Rightarrow> (string \<times> nat) set" where
  "routes (Node p ix w t pr cs h) = prefixed p (own_route h \<union> (\<Union>c \<in> set cs. routes c))"

definition special :: "char set" where
  "special = {CHR '':'', CHR ''*''}"

definition no_special :: "string \<Rightarrow> bool" where
  "no_special s \<longleftrightarrow> set s \<inter> special = {}"

definition static_node :: "node \<Rightarrow> bool" where
  "static_node n \<longleftrightarrow> node_kind n = type_plain \<or> node_kind n = type_root"

definition holder_node :: "node \<Rightarrow> bool" where
  "holder_node n \<longleftrightarrow> node_kind n = type_catch_all \<and> has_wild_child n"

definition begins :: "char \<Rightarrow> node \<Rightarrow> bool" where
  "begins x n \<longleftrightarrow> (\<forall>r \<in> routes n. fst r \<noteq> [] \<and> hd (fst r) = x)"

definition name_ok :: "string \<Rightarrow> bool" where
  "name_ok name \<longleftrightarrow> name \<noteq> [] \<and> no_special name \<and> CHR ''/'' \<notin> set name"

text \<open>
  What a node looks like, by its type. A static node has children by their first characters, or one
  child for a parameter; a parameter has at most one child; the two nodes of a catch-all are as they
  were made.
\<close>

definition static_shape :: "string \<Rightarrow> string \<Rightarrow> bool \<Rightarrow> node list \<Rightarrow> nat option \<Rightarrow> bool" where
  "static_shape p ix w cs h \<longleftrightarrow> no_special p \<and> (p = [] \<longrightarrow> h = None \<and> \<not> w) \<and>
     (if w then ix = [] \<and> (\<exists>c. cs = [c] \<and> node_kind c = type_param)
      else length ix = length cs \<and> distinct ix \<and> no_special ix \<and>
        (\<forall>(x, c) \<in> set (zip ix cs). begins x c \<and> (static_node c \<or> holder_node c)))"

definition param_shape :: "string \<Rightarrow> string \<Rightarrow> bool \<Rightarrow> node list \<Rightarrow> bool" where
  "param_shape p ix w cs \<longleftrightarrow> \<not> w \<and> (\<exists>name. p = CHR '':'' # name \<and> name_ok name) \<and>
     (cs = [] \<and> ix = [] \<or> (\<exists>c. cs = [c] \<and> static_node c \<and> begins (CHR ''/'') c \<and> (ix = [] \<or> ix = ''/'')))"

definition catch_all_shape :: "string \<Rightarrow> string \<Rightarrow> bool \<Rightarrow> node list \<Rightarrow> nat option \<Rightarrow> bool" where
  "catch_all_shape p ix w cs h \<longleftrightarrow> ix = [] \<and>
     (if w then p = [] \<and> h = None \<and> (\<exists>c. cs = [c] \<and> node_kind c = type_catch_all \<and> \<not> has_wild_child c)
      else cs = [] \<and> h \<noteq> None \<and> (\<exists>name. p = CHR ''/'' # CHR ''*'' # name \<and> name_ok name))"

definition shape :: "node \<Rightarrow> bool" where
  "shape n = (case node_kind n of
     type_param \<Rightarrow> param_shape (node_path n) (indices n) (has_wild_child n) (children n)
   | type_catch_all \<Rightarrow> catch_all_shape (node_path n) (indices n) (has_wild_child n) (children n) (handler n)
   | _ \<Rightarrow> static_shape (node_path n) (indices n) (has_wild_child n) (children n) (handler n))"

fun tree_ok :: "node \<Rightarrow> bool" where
  "tree_ok (Node p ix w t pr cs h) \<longleftrightarrow> (\<forall>c \<in> set cs. tree_ok c) \<and> shape (Node p ix w t pr cs h)"

lemma tree_ok_alt: "tree_ok n \<longleftrightarrow> (\<forall>c \<in> set (children n). tree_ok c) \<and> shape n"
  by (cases n) simp

lemma routes_alt: "routes n = prefixed (node_path n) (own_route (handler n) \<union> (\<Union>c \<in> set (children n). routes c))"
  by (cases n) simp

lemma prefixed_simps [simp]:
  "prefixed [] R = R" "prefixed p {} = {}" "prefixed p (insert (q, k) R) = insert (p @ q, k) (prefixed p R)"
  "prefixed p (R \<union> S) = prefixed p R \<union> prefixed p S" "prefixed p (prefixed q R) = prefixed (p @ q) R"
  by (force simp: prefixed_def)+

lemma in_prefixed: "(r, k) \<in> prefixed p R \<longleftrightarrow> (\<exists>q. r = p @ q \<and> (q, k) \<in> R)"
  by (auto simp: prefixed_def)

lemma own_route_simps [simp]: "own_route None = {}" "own_route (Some k) = {([], k)}"
  by (simp_all add: own_route_def)

lemma routes_add_priority [simp]: "routes (add_priority n) = routes n"
  by (cases n) simp

lemma same_add_priority [simp]:
  "node_path (add_priority n) = node_path n" "indices (add_priority n) = indices n" "children (add_priority n) = children n"
  "has_wild_child (add_priority n) = has_wild_child n" "node_kind (add_priority n) = node_kind n" "handler (add_priority n) = handler n"
  by (cases n, simp)+

lemma same_set_children [simp]:
  "node_path (set_children n cs) = node_path n" "indices (set_children n cs) = indices n" "children (set_children n cs) = cs"
  "has_wild_child (set_children n cs) = has_wild_child n" "node_kind (set_children n cs) = node_kind n" "handler (set_children n cs) = handler n"
  by (cases n, simp)+

lemma kind_add_priority [simp]:
  "static_node (add_priority n) = static_node n" "holder_node (add_priority n) = holder_node n" "begins x (add_priority n) = begins x n"
  "shape (add_priority n) = shape n"
  by (simp_all add: static_node_def holder_node_def begins_def shape_def split: node_type.split)

lemma tree_ok_add_priority [simp]: "tree_ok (add_priority n) = tree_ok n"
  using tree_ok_alt [of n] tree_ok_alt [of "add_priority n"] by simp

lemma find_first_of_None: "find_first_of cs s i = None \<longleftrightarrow> set (drop i s) \<inter> set cs = {}"
proof -
  let ?t = "takeWhile (\<lambda>c. c \<notin> set cs) (drop i s)"
  have "length ?t \<le> length (drop i s)" by (rule length_takeWhile_le)
  then have "find_first_of cs s i = None \<longleftrightarrow> length ?t = length (drop i s)" by (auto simp: find_first_of_def Let_def)
  also have "\<dots> \<longleftrightarrow> ?t = drop i s" using takeWhile_eq_take [of "\<lambda>c. c \<notin> set cs" "drop i s"] by (metis take_all_iff order_refl)
  also have "\<dots> \<longleftrightarrow> set (drop i s) \<inter> set cs = {}" by (auto simp: takeWhile_eq_all_conv)
  finally show ?thesis .
qed

lemma find_first_of_split:
  "find_first_of cs s i = Some k \<Longrightarrow> i \<le> k \<and> k < length s \<and> s ! k \<in> set cs \<and> set (take (k - i) (drop i s)) \<inter> set cs = {}"
proof -
  assume a: "find_first_of cs s i = Some k"
  let ?t = "takeWhile (\<lambda>c. c \<notin> set cs) (drop i s)"
  have k: "k = i + length ?t" "k < length s" using a by (auto simp: find_first_of_def Let_def split: if_splits)
  then have "length ?t < length (drop i s)" by simp
  from nth_length_takeWhile [OF this] have "s ! k \<in> set cs" using k by simp
  moreover have "take (k - i) (drop i s) = ?t" using k takeWhile_eq_take [of "\<lambda>c. c \<notin> set cs" "drop i s"] by simp
  ultimately show ?thesis using k by (auto dest: set_takeWhileD)
qed

lemma find_wildcard_None: "find_wildcard path = None \<longleftrightarrow> no_special path"
proof -
  have "find_wildcard path = None \<longleftrightarrow> find_first_of '':*'' path 0 = None"
    by (auto simp: find_wildcard_def split: option.splits if_splits)
  then show ?thesis by (simp add: find_first_of_None no_special_def special_def)
qed

lemma find_wildcard_Some:
  assumes "find_wildcard path = Some (name, pos)" and "valid_name name"
  shows "\<exists>c nm rest. path = take pos path @ name @ rest \<and> pos < length path \<and> no_special (take pos path) \<and>
    name = c # nm \<and> c \<in> special \<and> name_ok nm \<and> (rest = [] \<or> hd rest = CHR ''/'')"
proof -
  from assms have f: "find_first_of '':*'' path 0 = Some pos"
    by (auto simp: find_wildcard_def split: option.splits if_splits)
  from find_first_of_split [OF f] have pos: "pos < length path" "path ! pos \<in> special" "no_special (take pos path)"
    by (auto simp: special_def no_special_def)
  have dp: "drop pos path = path ! pos # drop (Suc pos) path" using pos(1) by (simp add: Cons_nth_drop_Suc)
  have path: "path = take pos path @ drop pos path" by simp
  show ?thesis
  proof (cases "find_first_of '':*/'' path (pos + 1)")
    case None
    then have n: "name = drop pos path" using assms f by (simp add: find_wildcard_def)
    then have "name_ok (drop (Suc pos) path)"
      using None assms(2) dp by (auto simp: find_first_of_None name_ok_def no_special_def special_def valid_name_def)
    then show ?thesis
      using n dp pos path by (intro exI [of _ "path ! pos"] exI [of _ "drop (Suc pos) path"] exI [of _ "[]"]) simp
  next
    case (Some stop)
    with assms f have n: "path ! stop = CHR ''/''" "name = take (stop - pos) (drop pos path)"
      by (auto simp: find_wildcard_def valid_name_def split: if_splits)
    note st = find_first_of_split [OF Some]
    let ?nm = "take (stop - (pos + 1)) (drop (pos + 1) path)"
    have "stop - pos = Suc (stop - (pos + 1))" using st by linarith
    then have "name = path ! pos # ?nm" unfolding n(2) dp by simp
    moreover have "name_ok ?nm"
      using st assms(2) calculation by (auto simp: name_ok_def no_special_def special_def valid_name_def)
    moreover have "drop pos path = name @ drop stop path"
      using n(2) st append_take_drop_id [of "stop - pos" "drop pos path"] by simp
    moreover have "hd (drop stop path) = CHR ''/''" using n(1) st by (simp add: hd_drop_conv_nth)
    ultimately show ?thesis
      using pos path by (intro exI [of _ "path ! pos"] exI [of _ ?nm] exI [of _ "drop stop path"]) simp
  qed
qed

lemmas shape_defs = shape_def static_shape_def param_shape_def catch_all_shape_def

lemma static_cases: "static_node n \<Longrightarrow> shape n = static_shape (node_path n) (indices n) (has_wild_child n) (children n) (handler n)"
  by (auto simp: static_node_def shape_def)

text \<open>A parameter with what follows it, below a node.\<close>

lemma param_below:
  assumes "no_special p" and "p \<noteq> []" and "name_ok nm" and "t = type_plain \<or> t = type_root"
    and "cs = [] \<or> (\<exists>g. cs = [g] \<and> tree_ok g \<and> static_node g \<and> begins (CHR ''/'') g)"
  shows "tree_ok (Node p [] True t pr [Node (CHR '':'' # nm) [] False type_param 1 cs ch] h)"
  using assms by (auto simp: shape_defs)

text \<open>The cases of \<open>insert_path\<close> on a node without children.\<close>

lemma insert_path_plain:
  "no_special path \<Longrightarrow> insert_path (Node p ix w t pr cs h) path k = (Added, Node path ix w t pr cs (Some k))"
  by (simp add: insert_path.simps find_wildcard_None [symmetric])

lemma insert_path_invalid:
  "find_wildcard path = Some (name, pos) \<Longrightarrow> \<not> valid_name name \<Longrightarrow>
    insert_path (Node p ix w t pr cs h) path k = (Rejected Invalid_wildcard, Node p ix w t pr cs h)"
  by (simp add: insert_path.simps)

lemma insert_path_param:
  assumes "find_wildcard path = Some (CHR '':'' # nm, pos)" and "valid_name (CHR '':'' # nm)"
    and "drop pos path = CHR '':'' # nm @ rest"
  shows "insert_path (Node p ix w t pr [] h) path k =
    (if rest = [] then (Added, Node (if pos \<noteq> 0 then take pos path else p) ix True t pr [Node (CHR '':'' # nm) [] False type_param 1 [] (Some k)] h)
     else (let (r, g) = insert_path (Node [] [] False type_plain 1 [] None) rest k in
       (r, Node (if pos \<noteq> 0 then take pos path else p) ix True t pr [Node (CHR '':'' # nm) [] False type_param 1 [g] None] h)))"
  using assms by (simp add: insert_path.simps [of p] Let_def del: drop_drop length_drop)

lemma insert_path_star:
  assumes "find_wildcard path = Some (CHR ''*'' # nm, pos)" and "valid_name (CHR ''*'' # nm)"
    and "drop pos path = CHR ''*'' # nm @ rest"
  shows "insert_path (Node p ix w t pr [] h) path k =
    (if rest \<noteq> [] then (Rejected Catch_all_not_last, Node p ix w t pr [] h)
     else if p \<noteq> [] \<and> last p = CHR ''/'' then (Rejected Catch_all_conflict, Node p ix w t pr [] h)
     else if pos = 0 then (Faulted Assert_failed, Node p ix w t pr [] h)
     else if path ! (pos - 1) \<noteq> CHR ''/'' then (Rejected No_slash_before_catch_all, Node p ix w t pr [] h)
     else (Added, Node (take (pos - 1) path) ''/'' w t pr [catch_all_nodes (drop (pos - 1) path) k] h))"
proof -
  have "length (drop pos path) = length (CHR ''*'' # nm @ rest)" using assms(3) by simp
  then have "length path = pos + length (CHR ''*'' # nm) + length rest" unfolding length_drop length_Cons length_append by linarith
  then have "pos + length (CHR ''*'' # nm) = length path \<longleftrightarrow> rest = []" by simp
  then show ?thesis using assms(1,2) by (simp add: insert_path.simps [of p])
qed

text \<open>A wildcard of a path, and what insertion does with it; the two kinds, with their place.\<close>

lemma wildcard_cases:
  assumes "path \<noteq> []"
  obtains (plain) "no_special path"
    | (invalid) name pos where "find_wildcard path = Some (name, pos)" "\<not> valid_name name"
    | (wild) c nm pos rest where "find_wildcard path = Some (c # nm, pos)" "valid_name (c # nm)" "c = CHR '':'' \<or> c = CHR ''*''"
        "name_ok nm" "drop pos path = c # nm @ rest" "no_special (take pos path)" "rest = [] \<or> hd rest = CHR ''/''"
        "pos = 0 \<longleftrightarrow> hd path \<in> special" "length rest < length path"
proof (cases "find_wildcard path")
  case None
  then show ?thesis using plain find_wildcard_None by blast
next
  case (Some w)
  then obtain name pos where w: "find_wildcard path = Some (name, pos)" by (cases w) auto
  show ?thesis
  proof (cases "valid_name name")
    case True
    from find_wildcard_Some [OF w True] obtain c nm rest where
      f: "path = take pos path @ name @ rest" "pos < length path" "no_special (take pos path)" "name = c # nm" "c \<in> special"
        "name_ok nm" "rest = [] \<or> hd rest = CHR ''/''" by blast
    have dp: "drop pos path = c # nm @ rest" using f(1,2,4) by (metis append_Cons append_take_drop_id same_append_eq)
    have "pos = 0 \<longleftrightarrow> hd path \<in> special"
    proof
      assume "pos = 0"
      then show "hd path \<in> special" using dp f(5) by simp
    next
      assume h: "hd path \<in> special"
      show "pos = 0"
      proof (rule ccontr)
        assume "pos \<noteq> 0"
        then have "hd path \<in> set (take pos path)" using assms by (cases path; cases pos) auto
        then show False using f(3) h by (auto simp: no_special_def)
      qed
    qed
    moreover have "length rest < length path" using arg_cong [OF dp, of length] f(2) by simp
    ultimately show ?thesis using wild [of c nm pos rest] w True f dp by (auto simp: special_def)
  qed (use w invalid in blast)
qed

lemma insert_path_fresh:
  assumes "path \<noteq> []" and "hd path \<notin> special" and "t = type_plain \<or> t = type_root"
  shows "\<exists>r n'. insert_path (Node [] [] False t pr [] None) path k = (r, n') \<and> (\<forall>f. r \<noteq> Faulted f) \<and>
    tree_ok n' \<and> node_kind n' = t \<and> routes n' = (if r = Added then {(path, k)} else {})"
  using assms
proof (induction "length path" arbitrary: path t pr rule: less_induct)
  case less
  let ?n = "Node [] [] False t pr [] None"
  have same: "tree_ok ?n" "routes ?n = {}" using less.prems(3) by (auto simp: shape_defs no_special_def)
  from less.prems(1) show ?case
  proof (cases path rule: wildcard_cases)
    case plain
    then show ?thesis using less.prems(1,3) by (auto simp: insert_path_plain shape_defs no_special_def)
  next
    case (invalid name pos)
    then show ?thesis using same by (simp add: insert_path_invalid)
  next
    case (wild c nm pos rest)
    have pos: "pos \<noteq> 0" using wild(8) less.prems(2) by simp
    have path: "path = take pos path @ c # nm @ rest" using wild(5) by (metis append_take_drop_id)
    show ?thesis
    proof (cases "c = CHR '':''")
      case True
      note eq = insert_path_param [OF wild(1,2,5) [unfolded True]]
      have tp: "take pos path \<noteq> []" using pos less.prems(1) by auto
      show ?thesis
      proof (cases "rest = []")
        case True
        then show ?thesis
          using eq pos path \<open>c = CHR '':''\<close> param_below [OF wild(6) tp wild(4) less.prems(3), of "[]"] by (simp del: tree_ok.simps)
      next
        case False
        then have "hd rest \<notin> special" using wild(7) by (simp add: special_def)
        then obtain r g where g: "insert_path (Node [] [] False type_plain 1 [] None) rest k = (r, g)" "\<forall>f. r \<noteq> Faulted f"
          "tree_ok g" "node_kind g = type_plain" "routes g = (if r = Added then {(rest, k)} else {})"
          using less.hyps [OF wild(9) False, of type_plain 1] by blast
        have "static_node g" "begins (CHR ''/'') g" using g(4,5) wild(7) False by (auto simp: static_node_def begins_def)
        then show ?thesis
          using eq pos path \<open>c = CHR '':''\<close> g False param_below [OF wild(6) tp wild(4) less.prems(3), of "[g]"]
          by (simp del: tree_ok.simps)
      qed
    next
      case False
      then have c: "c = CHR ''*''" using wild(3) by simp
      note eq = insert_path_star [OF wild(1,2,5) [unfolded c]]
      show ?thesis
      proof (cases "rest = [] \<and> path ! (pos - 1) = CHR ''/''")
        case False
        then show ?thesis using eq same pos by auto
      next
        case True
        have "pos \<le> length path" using wild(5) by (metis drop_eq_Nil2 list.distinct(1) nat_le_linear)
        then have d: "drop (pos - 1) path = CHR ''/'' # CHR ''*'' # nm"
          using Cons_nth_drop_Suc [of "pos - 1" path] pos c wild(5) True by simp
        have "path = take (pos - 1) path @ CHR ''/'' # CHR ''*'' # nm" using d by (metis append_take_drop_id)
        moreover have "tree_ok (Node (take (pos - 1) path) ''/'' False t pr [catch_all_nodes (CHR ''/'' # CHR ''*'' # nm) k] None)"
          using wild(4,6) less.prems(3) set_take_subset_set_take [of "pos - 1" pos path]
          by (auto simp: catch_all_nodes_def shape_defs begins_def holder_node_def no_special_def special_def)
        ultimately show ?thesis
          using eq d pos True by (simp add: catch_all_nodes_def del: tree_ok.simps)
      qed
    qed
  qed
qed

text \<open>What inserting a path below a node promises.\<close>

definition insert_spec :: "node \<Rightarrow> string \<Rightarrow> nat \<Rightarrow> route_result \<times> node \<Rightarrow> bool" where
  "insert_spec n path k rn = (case rn of (r, n') \<Rightarrow>
     if \<exists>f. r = Faulted f then r = Faulted Assert_failed \<and> (\<exists>a x b. path = a @ x # CHR ''*'' # b \<and> x \<noteq> CHR ''/'')
     else tree_ok n' \<and> node_kind n' = node_kind n \<and> (holder_node n \<longrightarrow> holder_node n') \<and>
       routes n' = (if r = Added then insert (path, k) (routes n) else routes n) \<and>
       (r = Added \<longrightarrow> path \<notin> fst ` routes n))"

lemma insert_spec_Rejected:
  "tree_ok n' \<Longrightarrow> node_kind n' = node_kind n \<Longrightarrow> has_wild_child n' = has_wild_child n \<Longrightarrow> routes n' = routes n \<Longrightarrow>
    insert_spec n path k (Rejected e, n')"
  by (simp add: insert_spec_def holder_node_def)

lemma tree_ok_static:
  assumes "static_node n"
  shows "tree_ok n \<longleftrightarrow> (\<forall>c \<in> set (children n). tree_ok c) \<and>
    static_shape (node_path n) (indices n) (has_wild_child n) (children n) (handler n)"
  using static_cases [OF assms] tree_ok_alt [of n] by simp

lemma insert_path_here:
  assumes n: "tree_ok n" "static_node n" "\<not> has_wild_child n" "node_path n \<noteq> []" and path: "path \<noteq> []" "hd path \<in> special"
  shows "insert_spec n (node_path n @ path) k (insert_path n path k)"
proof -
  obtain p ix t pr cs h where N: "n = Node p ix False t pr cs h" using n(3) by (cases n) auto
  have t: "t = type_plain \<or> t = type_root" using n(2) N by (auto simp: static_node_def)
  have p: "no_special p" "p \<noteq> []" "length ix = length cs" using n N t by (auto simp: shape_defs)
  have same: "insert_spec n q k (Rejected e, n)" for q e using n by (simp add: insert_spec_def)
  from path(1) show ?thesis
  proof (cases path rule: wildcard_cases)
    case plain
    then show ?thesis using path by (auto simp: no_special_def dest: hd_in_set)
  next
    case (invalid name pos)
    then show ?thesis using same N by (simp add: insert_path_invalid)
  next
    case (wild c nm pos rest)
    have pos: "pos = 0" using wild(8) path by simp
    show ?thesis
    proof (cases "cs = []")
      case False
      then show ?thesis using wild(1,2) N same by (simp add: insert_path.simps)
    next
      case True
      then have ix: "ix = []" using p(3) by simp
      show ?thesis
      proof (cases "c = CHR '':''")
        case False
        then have c: "c = CHR ''*''" using wild(3) by simp
        have fault: "insert_spec n (p @ path) k (Faulted Assert_failed, n)" if "last p \<noteq> CHR ''/''"
        proof -
          have "p @ path = butlast p @ last p # CHR ''*'' # nm @ rest" using wild(5) pos p(2) c by simp
          then show ?thesis using that by (auto simp: insert_spec_def)
        qed
        show ?thesis using insert_path_star [OF wild(1,2,5) [unfolded c], of p ix False t pr h k] N True p(2) pos same fault by auto
      next
        case c: True
        note eq = insert_path_param [OF wild(1,2,5) [unfolded c], of p ix False t pr h k]
        have pth: "path = CHR '':'' # nm @ rest" using wild(5) pos c by simp
        have hn: "\<not> holder_node n" "p @ path \<notin> fst ` routes n"
          using N t True path(1) by (auto simp: holder_node_def own_route_def split: option.splits)
        show ?thesis
        proof (cases "rest = []")
          case r: True
          then show ?thesis
            using eq pos pth hn N True ix param_below [OF p(1,2) wild(4) t, of "[]"] by (auto simp: insert_spec_def simp del: tree_ok.simps)
        next
          case False
          then have "hd rest \<notin> special" using wild(7) by (simp add: special_def)
          then obtain r g where g: "insert_path (Node [] [] False type_plain 1 [] None) rest k = (r, g)" "\<forall>f. r \<noteq> Faulted f"
            "tree_ok g" "node_kind g = type_plain" "routes g = (if r = Added then {(rest, k)} else {})"
            using insert_path_fresh [OF False, of type_plain 1 k] by blast
          have "static_node g" "begins (CHR ''/'') g" using g(4,5) wild(7) False by (auto simp: static_node_def begins_def)
          then show ?thesis
            using eq pos pth hn N True ix g False param_below [OF p(1,2) wild(4) t, of "[g]"]
            by (auto simp: insert_spec_def simp del: tree_ok.simps)
        qed
      qed
    qed
  qed
qed

section \<open>Descending\<close>

lemma Union_split:
  assumes "i < length cs"
  shows "(\<Union>c \<in> set cs. f c) = f (cs ! i) \<union> (\<Union>j \<in> {j. j < length cs \<and> j \<noteq> i}. f (cs ! j))"
proof -
  have "set cs = (\<lambda>j. cs ! j) ` {j. j < length cs}" by (auto simp: set_conv_nth)
  also have "{j. j < length cs} = insert i {j. j < length cs \<and> j \<noteq> i}" using assms by auto
  finally show ?thesis by simp
qed

lemma Union_update:
  assumes "i < length cs"
  shows "(\<Union>c \<in> set (cs[i := c']). f c) = f c' \<union> (\<Union>j \<in> {j. j < length cs \<and> j \<noteq> i}. f (cs ! j))"
  using assms Union_split [of i "cs[i := c']" f] by simp

lemma zip_nth: "length xs = length ys \<Longrightarrow> (\<forall>(x, y) \<in> set (zip xs ys). P x y) \<longleftrightarrow> (\<forall>i < length xs. P (xs ! i) (ys ! i))"
  by (auto simp: set_zip)

lemma begins_child:
  assumes "tree_ok m" and "static_node m" and "\<not> has_wild_child m" and "j < length (children m)"
  shows "begins (indices m ! j) (children m ! j)" and "static_node (children m ! j) \<or> holder_node (children m ! j)"
  using assms tree_ok_static [OF assms(2)] by (auto simp: static_shape_def zip_nth)

text \<open>Where the rest of a path may go on below a node.\<close>

definition way :: "node \<Rightarrow> nat \<Rightarrow> string \<Rightarrow> bool" where
  "way m i q \<longleftrightarrow> i < length (children m) \<and> q \<noteq> [] \<and> node_kind m \<noteq> type_catch_all \<and>
     (static_node m \<and> \<not> has_wild_child m \<longrightarrow> hd q = indices m ! i) \<and> (node_kind m = type_param \<longrightarrow> hd q = CHR ''/'')"

lemma kinds: "static_node n \<longleftrightarrow> node_kind n \<noteq> type_param \<and> node_kind n \<noteq> type_catch_all"
  by (cases "node_kind n") (auto simp: static_node_def)

lemma way_unique:
  assumes "tree_ok m" and "way m i q" and "j < length (children m)" and "j \<noteq> i"
  shows "q \<notin> fst ` routes (children m ! j)"
proof (cases "static_node m \<and> \<not> has_wild_child m")
  case True
  have "distinct (indices m)" "length (indices m) = length (children m)"
    using assms(1) True tree_ok_static [of m] by (auto simp: static_shape_def)
  then have "indices m ! j \<noteq> indices m ! i" using assms(2-4) by (simp add: nth_eq_iff_index_eq way_def)
  then show ?thesis using begins_child [OF assms(1) _ _ assms(3)] True assms(2) by (auto simp: begins_def way_def)
next
  case False
  then have "length (children m) \<le> 1"
    using assms(1,2) tree_ok_alt [of m] by (cases "node_kind m") (auto simp: shape_defs way_def static_node_def split: if_splits)
  then show ?thesis using assms(2-4) by (auto simp: way_def)
qed

lemma replace_child:
  assumes m: "tree_ok m" and w: "way m i q" and spec: "insert_spec (children m ! i) q k (r, c')"
  shows "insert_spec m (node_path m @ q) k (r, set_children m ((children m)[i := c']))"
proof (cases "\<exists>f. r = Faulted f")
  case True
  then show ?thesis using spec by (auto simp: insert_spec_def) (metis append.assoc)
next
  case False
  let ?c = "children m ! i" and ?cs = "(children m)[i := c']"
  let ?m = "set_children m ?cs"
  have i: "i < length (children m)" using w by (simp add: way_def)
  have c': "tree_ok c'" "node_kind c' = node_kind ?c" "holder_node ?c \<longrightarrow> holder_node c'"
      "routes c' = (if r = Added then insert (q, k) (routes ?c) else routes ?c)" "r = Added \<longrightarrow> q \<notin> fst ` routes ?c"
    using spec False by (simp_all add: insert_spec_def)
  have static: "static_node c' = static_node ?c" using c'(2) by (simp add: static_node_def)
  have begins: "begins x c'" if "begins x ?c" "hd q = x" for x using that c'(4) w by (auto simp: begins_def way_def)
  have kids: "\<forall>c \<in> set ?cs. tree_ok c" using m c'(1) tree_ok_alt [of m] set_update_subset_insert [of "children m" i c'] by auto
  have "shape ?m"
  proof (cases "static_node m")
    case True
    then have st: "static_shape (node_path m) (indices m) (has_wild_child m) (children m) (handler m)"
      using m tree_ok_static by blast
    have "static_shape (node_path m) (indices m) (has_wild_child m) ?cs (handler m)"
    proof (cases "has_wild_child m")
      case True
      then show ?thesis using st i c'(2) by (auto simp: static_shape_def)
    next
      case nw: False
      have "begins (indices m ! j) (?cs ! j) \<and> (static_node (?cs ! j) \<or> holder_node (?cs ! j))" if "j < length (children m)" for j
        using begins_child [OF m True nw that] begins [of "indices m ! i"] static c'(3) w nw True i that
        by (cases "j = i") (auto simp: way_def)
      then show ?thesis using st nw by (auto simp: static_shape_def zip_nth)
    qed
    then show ?thesis using True static_cases [of ?m] by (simp add: static_node_def)
  next
    case False
    then have "node_kind m = type_param" using w by (auto simp: kinds way_def)
    then show ?thesis
      using m tree_ok_alt [of m] i static begins w by (auto simp: shape_def param_shape_def way_def)
  qed
  then have "tree_ok ?m" using kids tree_ok_alt [of ?m] by simp
  moreover have "routes ?m = (if r = Added then insert (node_path m @ q, k) (routes m) else routes m)"
    unfolding routes_alt [of ?m] routes_alt [of m] same_set_children Union_update [OF i] Union_split [OF i] c'(4) by auto
  moreover have "node_path m @ q \<notin> fst ` routes m" if "r = Added"
  proof
    assume "node_path m @ q \<in> fst ` routes m"
    then have "q \<in> fst ` own_route (handler m) \<or> (\<exists>c \<in> set (children m). q \<in> fst ` routes c)"
      unfolding routes_alt [of m] prefixed_def by force
    moreover have "q \<notin> fst ` own_route (handler m)" using w by (auto simp: own_route_def way_def split: option.splits)
    ultimately obtain j where "j < length (children m)" "q \<in> fst ` routes (children m ! j)" by (metis in_set_conv_nth)
    then show False using way_unique [OF m w] c'(5) that by blast
  qed
  ultimately show ?thesis using False by (auto simp: insert_spec_def holder_node_def)
qed

lemma zip_move_to:
  "new \<le> pos \<Longrightarrow> pos < length xs \<Longrightarrow> length xs = length ys \<Longrightarrow>
    zip (move_to new pos xs) (move_to new pos ys) = move_to new pos (zip xs ys)"
  by (simp add: move_to_def zip_append take_zip drop_zip)

lemma distinct_move_to: "new \<le> pos \<Longrightarrow> pos < length xs \<Longrightarrow> distinct (move_to new pos xs) = distinct xs"
  by (metis card_distinct distinct_card length_move_to set_move_to)

lemma increment_ok:
  assumes inc: "increment_child_priority i m = Inr (j, m')" and m: "tree_ok m" "\<not> has_wild_child m" "node_kind m \<noteq> type_catch_all"
  shows "tree_ok m' \<and> routes m' = routes m \<and> node_path m' = node_path m \<and> node_kind m' = node_kind m \<and>
    has_wild_child m' = has_wild_child m \<and> j < length (children m') \<and> children m' ! j = add_priority (children m ! i) \<and>
    indices m' ! j = indices m ! i"
proof -
  note n = increment_child_priority_Inr [OF inc]
  let ?cs = "(children m)[i := add_priority (children m ! i)]"
  have ij: "j \<le> i" "i < length (children m)" "length (indices m) = length (children m)" using n by auto
  have cs: "set (move_to j i ?cs) = set ?cs" using ij by (intro set_move_to) auto
  have rts: "(\<Union>c \<in> set ?cs. routes c) = (\<Union>c \<in> set (children m). routes c)"
    unfolding Union_update [OF ij(2)] Union_split [OF ij(2)] by simp
  have kids: "\<forall>c \<in> set ?cs. tree_ok c"
    using m(1) tree_ok_alt [of m] ij(2) set_update_subset_insert [of "children m" i "add_priority (children m ! i)"] by auto
  have "shape m'"
  proof (cases "static_node m")
    case True
    have "begins (indices m ! l) (?cs ! l) \<and> (static_node (?cs ! l) \<or> holder_node (?cs ! l))" if "l < length (children m)" for l
      using begins_child [OF m(1) True m(2) that] that by (cases "l = i") auto
    then have "\<forall>(x, c) \<in> set (zip (indices m) ?cs). begins x c \<and> (static_node c \<or> holder_node c)"
      using ij(3) by (auto simp: zip_nth)
    moreover have "set (zip (move_to j i (indices m)) (move_to j i ?cs)) = set (zip (indices m) ?cs)"
      using ij by (simp add: zip_move_to set_move_to)
    moreover have "static_shape (node_path m) (indices m) False (children m) (handler m)"
      using m tree_ok_static [OF True] by simp
    ultimately have "static_shape (node_path m) (move_to j i (indices m)) False (move_to j i ?cs) (handler m)"
      using ij by (simp add: static_shape_def length_move_to distinct_move_to set_move_to no_special_def)
    then show ?thesis using n m(2) True by (auto simp: shape_def static_node_def)
  next
    case False
    then have pm: "node_kind m = type_param" using m(3) by (simp add: kinds)
    then have "length (children m) = 1" using m(1) ij(2) tree_ok_alt [of m] by (auto simp: shape_def param_shape_def)
    then obtain c x where "children m = [c]" "indices m = [x]" "i = 0" "j = 0" using ij by (auto simp: length_Suc_conv)
    then show ?thesis using n m(1) pm tree_ok_alt [of m] by (auto simp: shape_def param_shape_def move_to_def)
  qed
  then have "tree_ok m'" using kids cs n tree_ok_alt [of m'] by auto
  moreover have "routes m' = routes m" using n cs rts by (simp add: routes_alt [of m])
  ultimately show ?thesis using n ij by (simp add: move_to_new length_move_to)
qed

lemma new_node_ok: "tree_ok new_node" "routes new_node = {}" "static_node new_node" "begins x new_node"
  by (simp_all add: new_node_def shape_defs no_special_def static_node_def begins_def)

lemma increment_Inr:
  assumes "length (indices n) = length (children n)" and "i < length (children n)"
  shows "\<exists>j n'. increment_child_priority i n = Inr (j, n')"
  using assms by (cases n) (auto simp: Let_def)

definition ready :: "node \<Rightarrow> string \<Rightarrow> bool" where
  "ready n path \<longleftrightarrow> tree_ok n \<and> path \<noteq> [] \<and> (static_node n \<longrightarrow> hd path \<notin> special) \<and>
     (node_kind n = type_param \<longrightarrow> (\<exists>rest. path = node_path n @ rest \<and> (rest = [] \<or> hd rest = CHR ''/''))) \<and>
     (node_kind n = type_catch_all \<longrightarrow> has_wild_child n)"

lemma insert_spec_cong:
  assumes "routes m = routes n" and "node_kind m = node_kind n" and "holder_node n \<longrightarrow> holder_node m"
  shows "insert_spec m path k rn \<Longrightarrow> insert_spec n path k rn"
  using assms by (cases rn) (simp add: insert_spec_def split: if_splits)

lemma add_child_ok:
  assumes m: "tree_ok m" "\<not> has_wild_child m" "node_kind m \<noteq> type_catch_all" and c: "idxc \<notin> special" "idxc \<notin> set (indices m)"
    and p: "node_kind m = type_param \<longrightarrow> children m = [] \<and> idxc = CHR ''/''" and q: "q \<noteq> []" "hd q = idxc"
  shows "\<exists>r n'. add_child idxc q k m = Finished r n' \<and> insert_spec m (node_path m @ q) k (r, n')"
proof -
  let ?n = "Node (node_path m) (indices m @ [idxc]) (has_wild_child m) (node_kind m) (priority m) (children m @ [new_node]) (handler m)"
  have len: "length (indices m) = length (children m)"
    using m p tree_ok_alt [of m] by (cases "node_kind m") (auto simp: shape_defs)
  have "shape ?n"
  proof (cases "static_node m")
    case True
    then show ?thesis
      using m(1,2) c tree_ok_static [OF True] new_node_ok
      by (auto simp: shape_def static_node_def static_shape_def no_special_def)
  next
    case False
    then show ?thesis using m p new_node_ok tree_ok_alt [of m] by (auto simp: kinds shape_def param_shape_def)
  qed
  then have n: "tree_ok ?n" "routes ?n = routes m"
    using m(1) tree_ok_alt [of m] tree_ok_alt [of ?n] new_node_ok routes_alt [of m] by auto
  obtain j n2 where j: "increment_child_priority (length (indices m)) ?n = Inr (j, n2)"
    using increment_Inr [of ?n "length (indices m)"] len by auto
  have n2: "tree_ok n2" "routes n2 = routes m" "node_path n2 = node_path m" "node_kind n2 = node_kind m" "\<not> has_wild_child n2"
      "j < length (children n2)" "children n2 ! j = add_priority new_node" "indices n2 ! j = idxc"
    using increment_ok [OF j n(1)] m n(2) len by (auto simp: nth_append)
  obtain r g where g: "insert_path (children n2 ! j) q k = (r, g)" "\<forall>f. r \<noteq> Faulted f"
      "tree_ok g" "node_kind g = type_plain" "routes g = (if r = Added then {(q, k)} else {})"
    using insert_path_fresh [OF q(1), of type_plain 1 k] c(1) q(2) n2(7) by (auto simp: new_node_def)
  then have "insert_spec (children n2 ! j) q k (r, g)"
    using n2(7) new_node_ok by (auto simp: insert_spec_def holder_node_def new_node_def)
  moreover have "way n2 j q" using n2 m(3) q p by (auto simp: way_def static_node_def)
  ultimately have "insert_spec n2 (node_path m @ q) k (r, set_children n2 ((children n2)[j := g]))"
    unfolding n2(3) [symmetric] by (intro replace_child [OF n2(1)])
  then have "insert_spec m (node_path m @ q) k (r, set_children n2 ((children n2)[j := g]))"
    by (rule insert_spec_cong [rotated 3]) (use n2(2,4) m(3) in \<open>auto simp: holder_node_def\<close>)
  moreover have "add_child idxc q k m = Finished r (set_children n2 ((children n2)[j := g]))"
    using j g(1) by (simp add: add_child_def)
  ultimately show ?thesis by blast
qed

text \<open>The node after the split: its path is what the path shares with it.\<close>

lemma lcp_prefix: "longest_common_prefix (p @ rest) p = length p"
  by (induction p) (cases rest, simp_all)

lemma split_ok:
  assumes r: "ready n path" and len: "len = longest_common_prefix path (node_path n)" and m: "m = split_node len n"
  shows "tree_ok m" and "node_kind m = node_kind n" and "holder_node n \<longleftrightarrow> holder_node m" and "routes m = routes n"
    and "path = node_path m @ drop len path" and "len \<le> length path"
proof -
  obtain s' t' where st: "path = take len (node_path n) @ s'" "node_path n = take len (node_path n) @ t'"
      "len \<le> length (node_path n)" "len \<le> length path"
    using lcp_split [of path "node_path n"] len by blast
  obtain p ix w t pr cs h where N: "n = Node p ix w t pr cs h" by (cases n)
  show "len \<le> length path" by (rule st(4))
  show "path = node_path m @ drop len path" using st N m
    by (cases "len < length p") (auto simp: append_eq_conv_conj min_def)
  show "routes m = routes n" using N m by simp
  show "node_kind m = node_kind n" using N m by simp
  have holder: "\<not> len < length p" if "node_kind n \<noteq> type_plain" "node_kind n \<noteq> type_root"
  proof (cases "node_kind n = type_param")
    case True
    then obtain rest where "path = p @ rest" using r N by (auto simp: ready_def)
    then show ?thesis using N len lcp_prefix [of p rest] by simp
  next
    case False
    then have "node_kind n = type_catch_all" using that by (cases "node_kind n") auto
    then show ?thesis using r N tree_ok_alt [of n] by (auto simp: ready_def shape_defs)
  qed
  show "holder_node n \<longleftrightarrow> holder_node m"
    using N m holder by (cases "len < length p") (auto simp: holder_node_def)
  show "tree_ok m"
  proof (cases "len < length p")
    case False
    then show ?thesis using r N m by (simp add: ready_def)
  next
    case True
    then have t: "t = type_plain \<or> t = type_root" using holder N by auto
    have ok: "tree_ok n" using r by (simp add: ready_def)
    have sp: "static_shape p ix w cs h" and kids: "\<forall>c \<in> set cs. tree_ok c" using ok N t by (auto simp: shape_def)
    have dr: "drop len p \<noteq> []" "p ! len \<in> set p" "hd (drop len p) = p ! len" using True by (auto simp: hd_drop_conv_nth)
    let ?c = "Node (drop len p) ix w type_plain (pr - 1) cs h"
    have c: "tree_ok ?c"
      using sp kids dr(1) by (auto simp: shape_def static_shape_def no_special_def dest: in_set_dropD)
    have b: "begins (p ! len) ?c" using dr by (auto simp: begins_def prefixed_def)
    have "no_special (take len p)" "no_special [p ! len]" using sp dr(2) by (auto simp: static_shape_def no_special_def dest: in_set_takeD)
    then show ?thesis using N m True t c b by (auto simp: shape_def static_shape_def static_node_def simp del: tree_ok.simps(1) intro: tree_ok.simps [THEN iffD2])
  qed
qed

text \<open>One step of the insertion: it ends as promised, or it goes on where it may.\<close>

definition step_spec :: "node \<Rightarrow> string \<Rightarrow> nat \<Rightarrow> route_step \<Rightarrow> bool" where
  "step_spec n path k st = (case st of
     Finished r n' \<Rightarrow> insert_spec n path k (r, n')
   | Descend i n' path' \<Rightarrow> tree_ok n' \<and> way n' i path' \<and> ready (children n' ! i) path' \<and> path = node_path n' @ path' \<and>
       routes n' = routes n \<and> node_kind n' = node_kind n)"

lemma step_spec_cong:
  assumes "routes m = routes n" and "node_kind m = node_kind n" and "holder_node n \<longleftrightarrow> holder_node m"
  shows "step_spec m path k st \<Longrightarrow> step_spec n path k st"
  using assms insert_spec_cong [of m n path k] by (cases st) (auto simp: step_spec_def)

lemma set_handler_simps [simp]:
  "node_path (set_handler n k) = node_path n" "indices (set_handler n k) = indices n" "children (set_handler n k) = children n"
  "has_wild_child (set_handler n k) = has_wild_child n" "node_kind (set_handler n k) = node_kind n" "handler (set_handler n k) = Some k"
  by (cases n, simp)+

lemma child_routes_not_empty:
  assumes "tree_ok m" and "node_kind m \<noteq> type_catch_all" and "c \<in> set (children m)"
  shows "[] \<notin> fst ` routes c"
proof (cases "static_node m \<and> \<not> has_wild_child m")
  case True
  then show ?thesis using begins_child(1) [OF assms(1)] assms(3) by (force simp: begins_def in_set_conv_nth)
next
  case False
  show ?thesis
  proof (cases "static_node m")
    case True
    then have "tree_ok c" "node_kind c = type_param"
      using False assms(1,3) tree_ok_static [OF True] by (auto simp: static_shape_def)
    then have "node_path c \<noteq> []" using tree_ok_alt [of c] by (auto simp: shape_def param_shape_def)
    then show ?thesis by (auto simp: routes_alt [of c] prefixed_def)
  next
    case False
    then have "node_kind m = type_param" using assms(2) by (simp add: kinds)
    then have "begins (CHR ''/'') c" using assms(1,3) tree_ok_alt [of m] by (auto simp: shape_def param_shape_def)
    then show ?thesis by (force simp: begins_def)
  qed
qed

lemma ends_here_ok:
  assumes m: "tree_ok m" "node_path m \<noteq> []"
  shows "insert_spec m (node_path m) k (if handler m \<noteq> None then (Rejected Duplicate, m) else (Added, set_handler m k))"
proof (cases "handler m = None")
  case True
  have nc: "node_kind m \<noteq> type_catch_all" using m True tree_ok_alt [of m] by (auto simp: shape_def catch_all_shape_def split: if_splits)
  have "shape (set_handler m k)"
    using m nc tree_ok_alt [of m] by (cases "node_kind m") (auto simp: shape_def static_shape_def)
  then have "tree_ok (set_handler m k)" using m(1) tree_ok_alt [of m] tree_ok_alt [of "set_handler m k"] by simp
  moreover have "routes (set_handler m k) = insert (node_path m, k) (routes m)"
    using True by (simp add: routes_alt [of m] routes_alt [of "set_handler m k"])
  moreover have "node_path m \<notin> fst ` routes m"
    using child_routes_not_empty [OF m(1) nc] True by (auto simp: routes_alt [of m] prefixed_def) force
  ultimately show ?thesis using True nc by (simp add: insert_spec_def holder_node_def)
qed (use m in \<open>simp add: insert_spec_def\<close>)

lemma ready_param:
  assumes "tree_ok m" and "static_node m" and "has_wild_child m"
  shows "\<exists>c. children m = [c] \<and> tree_ok c \<and> node_kind c = type_param"
  using assms(1,3) tree_ok_static [OF assms(2)] by (auto simp: static_shape_def)

lemma wild_next_ok:
  assumes m: "tree_ok m" "has_wild_child m" and q: "q \<noteq> []"
    and eq: "st = (case children m of
       [] \<Rightarrow> Finished (Faulted Out_of_bounds) m
     | child # rest \<Rightarrow>
         let n = set_children m (add_priority child # rest) in
         if take (length (node_path child)) q = node_path child \<and> node_kind child \<noteq> type_catch_all \<and>
            (length (node_path child) = length q \<or> q ! length (node_path child) = CHR ''/'')
         then Descend 0 n q
         else Finished (Rejected Wildcard_conflict) n)"
  shows "step_spec m (node_path m @ q) k st"
proof -
  have "\<exists>c. children m = [c] \<and> tree_ok c \<and> (static_node m \<and> node_kind c = type_param \<or> node_kind m = type_catch_all \<and> node_kind c = type_catch_all)"
    using m tree_ok_alt [of m] by (cases "node_kind m") (auto simp: shape_defs static_node_def)
  then obtain c where c: "children m = [c]" "tree_ok c"
    "static_node m \<and> node_kind c = type_param \<or> node_kind m = type_catch_all \<and> node_kind c = type_catch_all" by blast
  let ?n = "set_children m [add_priority c]"
  have n: "tree_ok ?n" "routes ?n = routes m"
  proof -
    have "shape m" using m(1) tree_ok_alt [of m] by simp
    then have "shape ?n" using m(2) c(1) by (auto simp: shape_defs holder_node_def static_node_def split: node_type.splits)
    then show "tree_ok ?n" using c(2) tree_ok_alt [of ?n] by simp
    show "routes ?n = routes m" using c(1) by (simp add: routes_alt [of m] routes_alt [of ?n])
  qed
  show ?thesis
  proof (cases "take (length (node_path c)) q = node_path c \<and> node_kind c \<noteq> type_catch_all \<and>
            (length (node_path c) = length q \<or> q ! length (node_path c) = CHR ''/'')")
    case True
    have st: "st = Descend 0 ?n q" using eq c(1) True by simp
    define rest where "rest = drop (length (node_path c)) q"
    have qr: "q = node_path c @ rest" using True by (metis append_take_drop_id rest_def)
    have "rest = [] \<or> hd rest = CHR ''/''"
      using True by (cases "length (node_path c) < length q") (auto simp: hd_drop_conv_nth rest_def)
    moreover have "node_kind c = type_param" using True c(3) by auto
    ultimately have "ready (add_priority c) q" using c(2) q unfolding ready_def qr by (auto simp: kinds)
    moreover have "way ?n 0 q" using q True c m(2) by (auto simp: way_def static_node_def)
    ultimately show ?thesis using n st by (simp add: step_spec_def)
  next
    case False
    then have "st = Finished (Rejected Wildcard_conflict) ?n" using eq c(1) by auto
    then show ?thesis using n by (simp add: step_spec_def insert_spec_Rejected)
  qed
qed

lemma index_next_ok:
  assumes m: "tree_ok m" "\<not> has_wild_child m" "static_node m" and q: "q \<noteq> []"
    and i: "find_index (hd q) (indices m) = Some i"
  shows "\<exists>j n'. increment_child_priority i m = Inr (j, n') \<and> step_spec m (node_path m @ q) k (Descend j n' q)"
proof -
  have st: "length (indices m) = length (children m)" "no_special (indices m)"
    using m tree_ok_static [of m] by (auto simp: static_shape_def)
  have ix: "i < length (children m)" "indices m ! i = hd q" using find_index_Some [OF i] st(1) by auto
  obtain j n' where inc: "increment_child_priority i m = Inr (j, n')" using increment_Inr [OF st(1) ix(1)] by blast
  have nc: "node_kind m \<noteq> type_catch_all" using m(3) by (simp add: kinds)
  note n = increment_ok [OF inc m(1,2) nc]
  have "hd q \<notin> special" using ix st by (auto simp: no_special_def disjoint_iff) (metis nth_mem)
  moreover have "tree_ok (children m ! i)" using m(1) ix(1) tree_ok_alt [of m] by auto
  ultimately have "ready (children n' ! j) q"
    using n q begins_child(2) [OF m(1) m(3) m(2) ix(1)] by (auto simp: ready_def static_node_def holder_node_def)
  moreover have "way n' j q" using n q ix(2) m(3) by (auto simp: way_def static_node_def)
  ultimately show ?thesis using inc n by (auto simp: step_spec_def)
qed

lemma param_next_ok:
  assumes m: "tree_ok m" "node_kind m = type_param" "children m \<noteq> []" and q: "q \<noteq> []" "hd q = CHR ''/''"
  shows "length (children m) = 1"
    and "step_spec m (node_path m @ q) k (Descend 0 (set_children m [add_priority (hd (children m))]) q)"
proof -
  obtain c where c: "children m = [c]" "static_node c" "begins (CHR ''/'') c" "tree_ok c"
    using m tree_ok_alt [of m] by (auto simp: shape_def param_shape_def)
  then show "length (children m) = 1" by simp
  let ?n = "set_children m [add_priority c]"
  have "shape ?n" using m c tree_ok_alt [of m] by (auto simp: shape_def param_shape_def)
  then have "tree_ok ?n" using c(4) tree_ok_alt [of ?n] by simp
  moreover have "routes ?n = routes m" using c(1) by (simp add: routes_alt [of m] routes_alt [of ?n])
  moreover have "ready (add_priority c) q" using c q by (auto simp: ready_def kinds special_def)
  moreover have "way ?n 0 q" using q m by (auto simp: way_def kinds)
  ultimately show "step_spec m (node_path m @ q) k (Descend 0 (set_children m [add_priority (hd (children m))]) q)"
    using c(1) by (simp add: step_spec_def)
qed

lemma route_next_ok:
  assumes r: "ready n path"
  shows "step_spec n path k (route_next n path k)"
proof -
  define len where "len = longest_common_prefix path (node_path n)"
  define m where "m = split_node len n"
  define q where "q = drop len path"
  note sp = split_ok [OF r len_def m_def]
  have path: "path = node_path m @ q" using sp(5) by (simp add: q_def)
  have "step_spec m (node_path m @ q) k (route_next n path k)"
  proof (cases "q = []")
    case True
    then have "len = length path" using sp(6) by (simp add: q_def)
    then have "route_next n path k = (if handler m \<noteq> None then Finished (Rejected Duplicate) m else Finished Added (set_handler m k))"
      unfolding route_next_def Let_def len_def [symmetric] m_def [symmetric] by simp
    moreover have "node_path m \<noteq> []" using True path r by (auto simp: ready_def)
    ultimately show ?thesis using ends_here_ok [OF sp(1), of k] True by (auto simp: step_spec_def)
  next
    case False
    then have nl: "len \<noteq> length path" by (auto simp: q_def)
    show ?thesis
    proof (cases "has_wild_child m")
      case True
      show ?thesis by (rule wild_next_ok [OF sp(1) True False])
          (unfold route_next_def Let_def len_def [symmetric] m_def [symmetric] q_def [symmetric], simp add: nl True)
    next
      case nw: False
      have nc: "node_kind m \<noteq> type_catch_all" using r nw sp(2,3) by (auto simp: ready_def holder_node_def)
      show ?thesis
      proof (cases "node_kind m = type_param \<and> hd q = CHR ''/'' \<and> children m \<noteq> []")
        case True
        then show ?thesis
          using nl nw param_next_ok(1) [OF sp(1) _ _ False] param_next_ok(2) [OF sp(1) _ _ False, of k]
          unfolding route_next_def Let_def len_def [symmetric] m_def [symmetric] q_def [symmetric] by simp
      next
        case np: False
        have param: "node_kind m = type_param \<longrightarrow> hd q = CHR ''/'' \<and> children m = [] \<and> indices m = []"
        proof
          assume pm: "node_kind m = type_param"
          then obtain rest where "path = node_path n @ rest" "rest = [] \<or> hd rest = CHR ''/''" using r sp(2) by (auto simp: ready_def)
          moreover have "m = n"
          proof -
            have "len = length (node_path n)" using calculation(1) lcp_prefix by (simp add: len_def)
            then show ?thesis by (cases n) (simp add: m_def)
          qed
          ultimately have "hd q = CHR ''/''" using path False by auto
          then show "hd q = CHR ''/'' \<and> children m = [] \<and> indices m = []"
            using np pm sp(1) tree_ok_alt [of m] by (auto simp: shape_def param_shape_def)
        qed
        have next_eq: "route_next n path k = (case find_index (hd q) (indices m) of
            Some i \<Rightarrow> (case increment_child_priority i m of Inl f \<Rightarrow> Finished (Faulted f) m | Inr (i, n) \<Rightarrow> Descend i n q)
          | None \<Rightarrow> if hd q \<noteq> CHR '':'' \<and> hd q \<noteq> CHR ''*'' then add_child (hd q) q k m else end_here (insert_path m q k))"
          unfolding route_next_def Let_def len_def [symmetric] m_def [symmetric] q_def [symmetric]
            if_not_P [OF nl] if_not_P [OF nw] if_not_P [OF np] by (rule refl)
        show ?thesis
        proof (cases "find_index (hd q) (indices m)")
          case (Some i)
          then have "static_node m" using nc param by (auto simp: kinds find_index_def)
          from index_next_ok [OF sp(1) nw this False Some, of k] show ?thesis using next_eq Some by auto
        next
          case None
          then have ix: "hd q \<notin> set (indices m)" using find_index_None by metis
          show ?thesis
          proof (cases "hd q \<in> special")
            case True
            then have st: "static_node m" using nc param by (auto simp: kinds special_def)
            have "node_path m \<noteq> []"
              using path True r sp(2) st by (auto simp: ready_def static_node_def)
            from insert_path_here [OF sp(1) st nw this False True, of k] show ?thesis
              using next_eq None True by (auto simp: special_def end_here_def step_spec_def)
          next
            case sq: False
            from add_child_ok [OF sp(1) nw nc sq ix _ False refl, of k] param show ?thesis
              using next_eq None sq by (auto simp: special_def step_spec_def)
          qed
        qed
      qed
    qed
  qed
  then show ?thesis using step_spec_cong [OF sp(4,2,3)] path by metis
qed

lemma insert_route_ok: "ready n path \<Longrightarrow> insert_spec n path k (insert_route n path k)"
proof (induction n path k rule: insert_route.induct)
  case (1 n path k)
  note spec = route_next_ok [OF 1(2), of k]
  show ?case
  proof (cases "route_next n path k")
    case (Finished r n')
    then show ?thesis using spec by (simp add: insert_route.simps [of n] step_spec_def)
  next
    case (Descend i n' path')
    then have d: "tree_ok n'" "way n' i path'" "ready (children n' ! i) path'" "path = node_path n' @ path'"
      "routes n' = routes n" "node_kind n' = node_kind n"
      using spec by (simp_all add: step_spec_def)
    have i: "i < length (children n')" using d(2) by (simp add: way_def)
    obtain r c where rc: "insert_route (children n' ! i) path' k = (r, c)" by (cases "insert_route (children n' ! i) path' k")
    have "insert_spec (children n' ! i) path' k (r, c)" using 1(1) [OF Descend i d(3)] rc by simp
    from replace_child [OF d(1,2) this] have "insert_spec n' path k (r, set_children n' ((children n')[i := c]))" using d(4) by simp
    then have "insert_spec n path k (r, set_children n' ((children n')[i := c]))"
      by (rule insert_spec_cong [rotated 3]) (use d in \<open>auto simp: holder_node_def way_def\<close>)
    then show ?thesis using Descend i rc by (simp add: insert_route.simps [of n])
  qed
qed

text \<open>Adding a route to a router: paths start at the root, and a catch-all stands behind a slash.\<close>

definition router_ok :: "node \<Rightarrow> bool" where
  "router_ok n \<longleftrightarrow> tree_ok n \<and> static_node n"

lemma router_ok_new: "router_ok new_node"
  by (simp add: router_ok_def new_node_ok)

lemma add_route_ok:
  assumes n: "router_ok n" and path: "path \<noteq> []" "hd path = CHR ''/''"
    and stars: "\<nexists>a x b. path = a @ x # CHR ''*'' # b \<and> x \<noteq> CHR ''/''"
    and add: "add_route n path k = (r, n')"
  shows "router_ok n' \<and> (\<forall>f. r \<noteq> Faulted f) \<and> routes n' = (if r = Added then insert (path, k) (routes n) else routes n) \<and>
    (r = Added \<longrightarrow> path \<notin> fst ` routes n)"
proof -
  let ?n = "add_priority n"
  have sp: "hd path \<notin> special" using path(2) by (simp add: special_def)
  have n1: "tree_ok ?n" "static_node ?n" "routes ?n = routes n" using n by (simp_all add: router_ok_def)
  show ?thesis
  proof (cases "node_path ?n = [] \<and> indices ?n = []")
    case True
    then have e: "children n = []" "handler n = None" "\<not> has_wild_child n"
      using n tree_ok_static [of n] by (auto simp: router_ok_def static_shape_def)
    then have N: "?n = Node [] [] False (node_kind n) (priority n + 1) [] None" using True by (cases n) auto
    have t: "node_kind n = type_plain \<or> node_kind n = type_root" using n by (simp add: router_ok_def static_node_def)
    from insert_path_fresh [OF path(1) sp t, of "priority n + 1" k] obtain r0 n0 where
      i: "insert_path ?n path k = (r0, n0)" "\<forall>f. r0 \<noteq> Faulted f" "tree_ok n0" "node_kind n0 = node_kind n"
        "routes n0 = (if r0 = Added then {(path, k)} else {})" unfolding N by blast
    have st: "tree_ok (set_type n0 type_root) \<and> routes (set_type n0 type_root) = routes n0"
      using i(3,4) t by (cases n0) (auto simp: shape_def)
    have "(r, n') = (r0, if r0 = Added then set_type n0 type_root else n0)"
      using add True i(1) by (auto simp: add_route_def Let_def)
    moreover have "routes n = {}" using e routes_alt [of n] by simp
    moreover have "static_node n0" "static_node (set_type n0 type_root)" using i(4) t by (cases n0, auto simp: static_node_def)+
    ultimately show ?thesis using i st by (auto simp: router_ok_def)
  next
    case False
    have "ready ?n path" using n1 path(1) sp by (simp add: ready_def kinds)
    moreover have "insert_route ?n path k = (r, n')" using add False by (auto simp: add_route_def Let_def)
    ultimately have "insert_spec ?n path k (r, n')" using insert_route_ok [of ?n path k] by simp
    then show ?thesis using n1 stars by (auto simp: insert_spec_def router_ok_def static_node_def split: if_splits)
  qed
qed

section \<open>Locating\<close>

text \<open>
  When a path is an instance of a route, with the parameters: a parameter takes the rest of its segment
  (which may be empty when something follows), a catch-all the rest of the path with its slash.
\<close>

function match_route :: "string \<Rightarrow> string \<Rightarrow> param list option" where
  "match_route [] s = (if s = [] then Some [] else None)"
| "match_route (c # p) s =
     (if s = [] then None
      else if c = CHR '':'' then
        map_option (\<lambda>ps. (takeWhile (\<lambda>c. c \<noteq> CHR ''/'') p, takeWhile (\<lambda>c. c \<noteq> CHR ''/'') s) # ps)
          (match_route (dropWhile (\<lambda>c. c \<noteq> CHR ''/'') p) (dropWhile (\<lambda>c. c \<noteq> CHR ''/'') s))
      else if c = CHR ''/'' \<and> p \<noteq> [] \<and> hd p = CHR ''*'' then (if hd s = CHR ''/'' then Some [(tl p, s)] else None)
      else if hd s = c then match_route p (tl s) else None)"
  by pat_completeness auto

termination
  by (relation "measure (\<lambda>(p, s). length p)") (auto simp: less_Suc_eq_le length_dropWhile_le)

lemma match_static:
  assumes "no_special p" and "q \<noteq> [] \<longrightarrow> hd q \<noteq> CHR ''*''"
  shows "match_route (p @ q) s = Some ps \<longleftrightarrow> (\<exists>s'. s = p @ s' \<and> match_route q s' = Some ps)"
  using assms
proof (induction p arbitrary: s)
  case (Cons c p)
  then have c: "c \<noteq> CHR '':''" "no_special p" "\<not> (p @ q \<noteq> [] \<and> hd (p @ q) = CHR ''*'')"
    by (cases p, auto simp: no_special_def special_def)+
  show ?case using Cons.IH [OF c(2) Cons.prems(2), of "tl s"] c(1,3) by (cases s) auto
qed simp

lemma match_param:
  assumes "name_ok nm" and "q = [] \<or> hd q = CHR ''/''"
  shows "match_route (CHR '':'' # nm @ q) s =
    (if s = [] then None
     else map_option (\<lambda>ps. (nm, takeWhile (\<lambda>c. c \<noteq> CHR ''/'') s) # ps) (match_route q (dropWhile (\<lambda>c. c \<noteq> CHR ''/'') s)))"
proof -
  have "takeWhile (\<lambda>c. c \<noteq> CHR ''/'') (nm @ q) = nm" "dropWhile (\<lambda>c. c \<noteq> CHR ''/'') (nm @ q) = q"
    using assms by (cases q; auto simp: name_ok_def takeWhile_append dropWhile_append takeWhile_eq_all_conv)+
  then show ?thesis by simp
qed

lemma match_not_empty: "q \<noteq> [] \<Longrightarrow> match_route q s = Some ps \<Longrightarrow> s \<noteq> []"
  by (cases q) (auto split: if_splits)

lemma match_first: "q \<noteq> [] \<Longrightarrow> hd q \<notin> special \<Longrightarrow> match_route q s = Some ps \<Longrightarrow> hd s = hd q"
  by (cases q) (auto simp: special_def split: if_splits)

lemma find_index_nth: "distinct ix \<Longrightarrow> j < length ix \<Longrightarrow> find_index (ix ! j) ix = Some j"
  using find_index_None [of "ix ! j" ix] find_index_Some [of "ix ! j" ix] nth_eq_iff_index_eq [of ix]
  by (cases "find_index (ix ! j) ix") auto

text \<open>The four forms a node has in a good tree.\<close>

lemma holder_cases:
  assumes "tree_ok n" and "holder_node n"
  obtains nm pr lpr k where "n = Node [] [] True type_catch_all pr [Node (CHR ''/'' # CHR ''*'' # nm) [] False type_catch_all lpr [] (Some k)] None"
    "name_ok nm"
proof -
  obtain c where c: "node_path n = []" "indices n = []" "handler n = None" "children n = [c]" "node_kind c = type_catch_all"
      "\<not> has_wild_child c" "tree_ok c"
    using assms tree_ok_alt [of n] by (auto simp: holder_node_def shape_def catch_all_shape_def)
  then obtain nm k where "indices c = []" "children c = []" "handler c = Some k" "node_path c = CHR ''/'' # CHR ''*'' # nm" "name_ok nm"
    using tree_ok_alt [of c] by (auto simp: shape_def catch_all_shape_def)
  then have "c = Node (CHR ''/'' # CHR ''*'' # nm) [] False type_catch_all (priority c) [] (Some k)" using c by (cases c) simp
  then show ?thesis using that [of "priority n" nm "priority c" k] c assms(2) \<open>name_ok nm\<close>
    by (cases n) (simp add: holder_node_def)
qed

lemma param_cases:
  assumes "tree_ok c" and "node_kind c = type_param"
  obtains (leaf) nm pr h where "c = Node (CHR '':'' # nm) [] False type_param pr [] h" "name_ok nm"
    | (inner) nm ix pr g h where "c = Node (CHR '':'' # nm) ix False type_param pr [g] h" "name_ok nm" "tree_ok g" "static_node g"
      "begins (CHR ''/'') g"
proof -
  obtain nm where nm: "node_path c = CHR '':'' # nm" "name_ok nm" "\<not> has_wild_child c"
      "children c = [] \<and> indices c = [] \<or> (\<exists>g. children c = [g] \<and> static_node g \<and> begins (CHR ''/'') g)"
    using assms tree_ok_alt [of c] by (auto simp: shape_def param_shape_def)
  from nm(4) show ?thesis
  proof
    assume "children c = [] \<and> indices c = []"
    then show ?thesis using leaf [of nm "priority c" "handler c"] nm assms(2) by (cases c) simp
  next
    assume "\<exists>g. children c = [g] \<and> static_node g \<and> begins (CHR ''/'') g"
    then obtain g where g: "children c = [g]" "static_node g" "begins (CHR ''/'') g" by blast
    then have "tree_ok g" using assms(1) tree_ok_alt [of c] by simp
    then show ?thesis using inner [of nm "indices c" "priority c" g "handler c"] g nm assms(2) by (cases c) simp
  qed
qed

lemma locate_complete:
  assumes "tree_ok n" and "static_node n \<or> holder_node n" and "(pat, k) \<in> routes n" and "match_route pat s = Some ps"
  shows "locate n s acc = Inr (Some k, acc @ ps)"
  using assms
proof (induction "weight n" arbitrary: n pat s ps acc rule: less_induct)
  case less
  show ?case
  proof (cases "holder_node n")
    case True
    then obtain nm pr lpr k' where N: "n = Node [] [] True type_catch_all pr [Node (CHR ''/'' # CHR ''*'' # nm) [] False type_catch_all lpr [] (Some k')] None"
      using holder_cases [OF less.prems(1)] by metis
    then have "pat = CHR ''/'' # CHR ''*'' # nm" "k' = k" using less.prems(3) by auto
    then show ?thesis using less.prems(4) N by (simp add: locate.simps [of "[]"] substr_of_def split: if_splits)
  next
    case False
    then have st: "static_node n" using less.prems(2) by simp
    obtain p ix w t pr cs h where N: "n = Node p ix w t pr cs h" by (cases n)
    have shp: "static_shape p ix w cs h" "\<forall>c \<in> set cs. tree_ok c" using less.prems(1) st tree_ok_static [OF st] N by simp_all
    have p: "no_special p" using shp by (simp add: static_shape_def)
    from less.prems(3) N obtain q where q: "pat = p @ q" "(q, k) \<in> own_route h \<or> (\<exists>c \<in> set cs. (q, k) \<in> routes c)"
      by (auto simp: in_prefixed)
    show ?thesis
    proof (cases "(q, k) \<in> own_route h")
      case True
      then have "q = []" "h = Some k" by (auto simp: own_route_def split: option.splits)
      then show ?thesis using less.prems(4) q(1) match_static [OF p, of "[]" s ps] N by (auto simp: locate.simps split: if_splits)
    next
      case False
      then obtain c where c: "c \<in> set cs" "(q, k) \<in> routes c" using q(2) by blast
      have tc: "tree_ok c" "weight c < weight n" using shp(2) c(1) weight_child N by auto
      show ?thesis
      proof (cases w)
        case nw: False
        obtain j where j: "j < length cs" "c = cs ! j" using c(1) by (metis in_set_conv_nth)
        have b: "begins (ix ! j) c" "static_node c \<or> holder_node c"
          using begins_child [OF less.prems(1) st] nw N j by auto
        have ix: "distinct ix" "length ix = length cs" "no_special ix" using shp nw by (auto simp: static_shape_def)
        have hq: "q \<noteq> []" "hd q = ix ! j" using b(1) c(2) by (force simp: begins_def)+
        then have sq: "hd q \<notin> special" using ix j by (auto simp: no_special_def disjoint_iff)
        obtain s' where s': "s = p @ s'" "match_route q s' = Some ps"
          using less.prems(4) q(1) match_static [OF p, of q s ps] sq by (auto simp: special_def)
        have "s' \<noteq> []" "hd s' = ix ! j" using match_not_empty [OF hq(1) s'(2)] match_first [OF hq(1) sq s'(2)] hq(2) by auto
        then have "locate n s acc = locate c s' acc"
          using N nw s'(1) find_index_nth [OF ix(1)] ix(2) j by (simp add: locate.simps [of p])
        then show ?thesis using less.hyps [OF tc(2,1) b(2) c(2) s'(2)] by simp
      next
        case wl: True
        then have cs: "cs = [c]" "node_kind c = type_param" using shp(1) c(1) by (auto simp: static_shape_def)
        from tc(1) cs(2) show ?thesis
        proof (cases c rule: param_cases)
          case (leaf nm cpr ch)
          then have lq: "q = CHR '':'' # nm" "ch = Some k" using c(2) by (auto simp: own_route_def split: option.splits)
          obtain s' where s': "s = p @ s'" "match_route (CHR '':'' # nm) s' = Some ps"
            using less.prems(4) q(1) match_static [OF p, of q s ps] lq by auto
          then show ?thesis
            using N wl cs(1) leaf lq match_param [OF leaf(2), of "[]" s'] by (auto simp: locate.simps [of p] substr_of_def split: if_splits)
        next
          case (inner nm cix cpr g ch)
          then consider (own) "q = CHR '':'' # nm" "ch = Some k" | (sub) q2 where "q = CHR '':'' # nm @ q2" "(q2, k) \<in> routes g"
            using c(2) by (auto simp: own_route_def in_prefixed split: option.splits)
          then show ?thesis
          proof cases
            case own
            obtain s' where s': "s = p @ s'" "match_route (CHR '':'' # nm) s' = Some ps"
              using less.prems(4) q(1) match_static [OF p, of q s ps] own by auto
            then show ?thesis
              using N wl cs(1) inner(1) own match_param [OF inner(2), of "[]" s'] by (auto simp: locate.simps [of p] substr_of_def split: if_splits)
          next
            case sub
            have q2: "q2 \<noteq> []" "hd q2 = CHR ''/''" using sub(2) inner(5) by (force simp: begins_def)+
            obtain s' where s': "s = p @ s'" "match_route (CHR '':'' # nm @ q2) s' = Some ps"
              using less.prems(4) q(1) match_static [OF p, of q s ps] sub(1) by auto
            let ?v = "takeWhile (\<lambda>c. c \<noteq> CHR ''/'') s'" and ?r = "dropWhile (\<lambda>c. c \<noteq> CHR ''/'') s'"
            obtain ps2 where ps2: "s' \<noteq> []" "match_route q2 ?r = Some ps2" "ps = (nm, ?v) # ps2"
              using s'(2) unfolding match_param [OF inner(2) disjI2 [OF q2(2)]] by (auto split: if_splits)
            have "?r \<noteq> []" using match_not_empty [OF q2(1) ps2(2)] .
            moreover have "weight g < weight n" using N cs(1) inner(1) weight_grand_child [of g "[g]"] by simp
            ultimately show ?thesis
              using less.hyps [of g q2 ?r ps2 "acc @ [(nm, ?v)]"] inner(3,4) sub(2) ps2 N wl cs(1) inner(1) s'(1)
              by (auto simp: locate.simps [of p] substr_of_def Let_def)
          qed
        qed
      qed
    qed
  qed
qed

lemma dropWhile_head: "dropWhile P s \<noteq> [] \<Longrightarrow> \<not> P (hd (dropWhile P s))"
  by (rule hd_dropWhile)

text \<open>
  Locating always answers, and what it finds is the handler of a route that has an instance of the
  same length: the characters of the last piece are not compared.
\<close>

lemma locate_sound:
  assumes "tree_ok n" and "static_node n \<or> holder_node n" and "s \<noteq> []"
  shows "\<exists>h out. locate n s acc = Inr (h, out) \<and>
    (\<forall>k. h = Some k \<longrightarrow> (\<exists>pat s'. (pat, k) \<in> routes n \<and> length s' = length s \<and> match_route pat s' \<noteq> None))"
  using assms
proof (induction "weight n" arbitrary: n s acc rule: less_induct)
  case less
  show ?case
  proof (cases "holder_node n")
    case True
    then obtain nm pr lpr k' where N: "n = Node [] [] True type_catch_all pr [Node (CHR ''/'' # CHR ''*'' # nm) [] False type_catch_all lpr [] (Some k')] None"
      using holder_cases [OF less.prems(1)] by metis
    have "match_route (CHR ''/'' # CHR ''*'' # nm) (replicate (length s) (CHR ''/'')) \<noteq> None" using less.prems(3) by (cases s) auto
    then show ?thesis using less.prems(3) N by (auto simp: locate.simps [of "[]"] substr_of_def intro!: exI [of _ "replicate (length s) (CHR ''/'')"])
  next
    case False
    then have st: "static_node n" using less.prems(2) by simp
    obtain p ix w t pr cs h where N: "n = Node p ix w t pr cs h" by (cases n)
    have shp: "static_shape p ix w cs h" "\<forall>c \<in> set cs. tree_ok c" using less.prems(1) st tree_ok_static [OF st] N by simp_all
    have p: "no_special p" using shp by (simp add: static_shape_def)
    consider (eq) "length s = length p" | (no) "length s \<noteq> length p" "\<not> (length s > length p \<and> take (length p) s = p)"
      | (down) s2 where "s = p @ s2" "s2 \<noteq> []"
      by (metis append_take_drop_id drop_eq_Nil linorder_not_less order_refl)
    then show ?thesis
    proof cases
      case eq
      have "(p, k) \<in> routes n \<and> match_route p p \<noteq> None" if "h = Some k" for k
        using that N match_static [OF p, of "[]" p "[]"] by (simp add: in_prefixed)
      moreover have "locate n s acc = Inr (h, acc)" using N eq by (simp add: locate.simps [of p])
      ultimately show ?thesis using eq by (intro exI [of _ h] exI [of _ acc]) metis
    next
      case no
      then show ?thesis using N by (auto simp: locate.simps [of p])
    next
      case down
      have up: "\<exists>pat s'. (pat, k) \<in> routes n \<and> length s' = length s \<and> match_route pat s' \<noteq> None"
        if "c \<in> set cs" "(q, k) \<in> routes c" "length s2' = length s2" "match_route q s2' \<noteq> None" "hd q \<noteq> CHR ''*''" for c q k s2'
      proof (intro exI conjI)
        show "(p @ q, k) \<in> routes n" using N that(1,2) by (auto simp: in_prefixed)
        show "length (p @ s2') = length s" using down that(3) by simp
        show "match_route (p @ q) (p @ s2') \<noteq> None" using match_static [OF p, of q "p @ s2'"] that(4,5) by auto
      qed
      show ?thesis
      proof (cases w)
        case nw: False
        show ?thesis
        proof (cases "find_index (hd s2) ix")
          case None
          then show ?thesis using N down nw by (simp add: locate.simps [of p])
        next
          case (Some j)
          have ix: "length ix = length cs" "no_special ix" using shp nw by (auto simp: static_shape_def)
          have j: "j < length cs" "ix ! j = hd s2" using find_index_Some [OF Some] ix by auto
          have b: "begins (ix ! j) (cs ! j)" "static_node (cs ! j) \<or> holder_node (cs ! j)"
            using begins_child [OF less.prems(1) st, of j] nw N j(1) by auto
          have c: "cs ! j \<in> set cs" "tree_ok (cs ! j)" "weight (cs ! j) < weight n" using j shp(2) weight_child N by auto
          obtain h2 out where r: "locate (cs ! j) s2 acc = Inr (h2, out)"
            "\<forall>k. h2 = Some k \<longrightarrow> (\<exists>pat s'. (pat, k) \<in> routes (cs ! j) \<and> length s' = length s2 \<and> match_route pat s' \<noteq> None)"
            using less.hyps [OF c(3,2) b(2) down(2)] by blast
          have "hd q \<noteq> CHR ''*''" if "(q, k) \<in> routes (cs ! j)" for q k
            using that b(1) ix(2) j(1) ix(1) by (force simp: begins_def no_special_def special_def disjoint_iff)
          then show ?thesis using N down nw Some j r up [OF c(1)] by (simp add: locate.simps [of p]) metis
        qed
      next
        case wl: True
        then obtain c where cs: "cs = [c]" "node_kind c = type_param" "tree_ok c" using shp by (auto simp: static_shape_def)
        let ?v = "takeWhile (\<lambda>c. c \<noteq> CHR ''/'') s2" and ?r = "dropWhile (\<lambda>c. c \<noteq> CHR ''/'') s2"
        have own: "\<exists>pat s'. (pat, k) \<in> routes n \<and> length s' = length s \<and> match_route pat s' \<noteq> None"
          if "(CHR '':'' # nm, k) \<in> routes c" "?r = []" "name_ok nm" for nm k
        proof (rule up [of c "CHR '':'' # nm" k s2])
          have "match_route (CHR '':'' # nm @ []) s2 \<noteq> None"
            using match_param [OF that(3), of "[]" s2] that(2) down(2) by (simp del: dropWhile_eq_Nil_conv match_route.simps(2))
          then show "match_route (CHR '':'' # nm) s2 \<noteq> None" by simp
        qed (use that cs(1) in simp_all)
        from cs(3,2) show ?thesis
        proof (cases c rule: param_cases)
          case (leaf nm cpr ch)
          have o: "(CHR '':'' # nm, k) \<in> routes c" if "ch = Some k" for k using leaf(1) that by simp
          have "locate n s acc = Inr (if ?r = [] then ch else None, acc @ [(nm, ?v)])"
            using leaf(1) N wl down cs(1) by (auto simp: locate.simps [of p] substr_of_def Let_def)
          moreover have "\<exists>pat s'. (pat, k) \<in> routes n \<and> length s' = length s \<and> match_route pat s' \<noteq> None"
            if "(if ?r = [] then ch else None) = Some k" for k
            using own [OF o _ leaf(2)] that by (cases "?r = []") (simp_all del: dropWhile_eq_Nil_conv)
          ultimately show ?thesis by blast
        next
          case (inner nm cix cpr g ch)
          have o: "(CHR '':'' # nm, k) \<in> routes c" if "ch = Some k" for k using inner(1) that by simp
          show ?thesis
          proof (cases "?r = []")
            case True
            then have "locate n s acc = Inr (ch, acc @ [(nm, ?v)])"
              using inner(1) N wl down cs(1) by (simp add: locate.simps [of p] substr_of_def Let_def)
            then show ?thesis using own [OF o True inner(2)] by blast
          next
            case False
            have "weight g < weight n" using N cs(1) inner(1) weight_grand_child [of g "[g]"] by simp
            then obtain h2 out where r: "locate g ?r (acc @ [(nm, ?v)]) = Inr (h2, out)"
              "\<forall>k. h2 = Some k \<longrightarrow> (\<exists>pat s'. (pat, k) \<in> routes g \<and> length s' = length ?r \<and> match_route pat s' \<noteq> None)"
              using less.hyps [of g ?r "acc @ [(nm, ?v)]"] inner(3,4) False by blast
            have "\<exists>pat s'. (pat, k) \<in> routes n \<and> length s' = length s \<and> match_route pat s' \<noteq> None" if k: "h2 = Some k" for k
            proof -
              obtain q2 s' where q2: "(q2, k) \<in> routes g" "length s' = length ?r" "match_route q2 s' \<noteq> None" using r(2) k by blast
              have h: "q2 \<noteq> []" "hd q2 = CHR ''/''" using q2(1) inner(5) by (force simp: begins_def)+
              then have s': "s' \<noteq> []" "hd s' = CHR ''/''"
                using q2(3) match_not_empty [OF h(1)] match_first [OF h(1)] by (auto simp: special_def)
              have v: "\<forall>c \<in> set ?v. c \<noteq> CHR ''/''" by (auto dest: set_takeWhileD)
              have "takeWhile (\<lambda>c. c \<noteq> CHR ''/'') (?v @ s') = ?v" "dropWhile (\<lambda>c. c \<noteq> CHR ''/'') (?v @ s') = s'"
                using s' v by (cases s'; simp add: takeWhile_append dropWhile_append)+
              then have m: "match_route (CHR '':'' # nm @ q2) (?v @ s') \<noteq> None"
                using match_param [OF inner(2) disjI2 [OF h(2)], of "?v @ s'"] s'(1) q2(3) by simp
              have "length (?v @ s') = length s2" using q2(2) by (metis length_append takeWhile_dropWhile_id)
              moreover have "(CHR '':'' # nm @ q2, k) \<in> routes c" using inner(1) q2(1) by (auto simp: in_prefixed)
              ultimately show ?thesis using up [of c "CHR '':'' # nm @ q2" k "?v @ s'"] m cs(1) by simp
            qed
            moreover have "locate n s acc = Inr (h2, out)"
              using r(1) False inner(1) N wl down cs(1) by (auto simp: locate.simps [of p] substr_of_def Let_def)
            ultimately show ?thesis by blast
          qed
        qed
      qed
    qed
  qed
qed

section \<open>Routers\<close>

fun stars_ok :: "string \<Rightarrow> bool" where
  "stars_ok (x # y # s) \<longleftrightarrow> (y = CHR ''*'' \<longrightarrow> x = CHR ''/'') \<and> stars_ok (y # s)"
| "stars_ok _ \<longleftrightarrow> True"

lemma stars_ok_split: "stars_ok path \<Longrightarrow> path = a @ x # CHR ''*'' # b \<Longrightarrow> x = CHR ''/''"
proof (induction a arbitrary: path)
  case (Cons c a)
  then show ?case by (cases a) auto
qed simp

definition route_ok :: "string \<Rightarrow> bool" where
  "route_ok path \<longleftrightarrow> path \<noteq> [] \<and> hd path = CHR ''/'' \<and> stars_ok path"

text \<open>Adding routes one after the other; the outcome of each.\<close>

fun add_routes :: "(string \<times> nat) list \<Rightarrow> node \<Rightarrow> route_result list \<times> node" where
  "add_routes [] n = ([], n)"
| "add_routes ((path, k) # rs) n =
     (let (r, n) = add_route n path k; (outs, n) = add_routes rs n in (r # outs, n))"

definition accepted :: "(string \<times> nat) list \<Rightarrow> route_result list \<Rightarrow> (string \<times> nat) list" where
  "accepted rs outs = map fst (filter (\<lambda>(_, r). r = Added) (zip rs outs))"

lemma add_routes_ok:
  assumes "router_ok n" and "list_all (\<lambda>(path, _). route_ok path) rs" and "add_routes rs n = (outs, n')"
  shows "router_ok n' \<and> length outs = length rs \<and> (\<forall>f. Faulted f \<notin> set outs) \<and> routes n' = routes n \<union> set (accepted rs outs) \<and>
    distinct (map fst (accepted rs outs)) \<and> fst ` routes n \<inter> fst ` set (accepted rs outs) = {}"
  using assms
proof (induction rs arbitrary: n outs)
  case (Cons pk rs)
  obtain path k where pk: "pk = (path, k)" by (cases pk)
  obtain r n1 where r: "add_route n path k = (r, n1)" by (cases "add_route n path k")
  obtain outs1 where o: "add_routes rs n1 = (outs1, n')" "outs = r # outs1"
    using Cons.prems(3) pk r by (auto split: prod.splits)
  have "path \<noteq> []" "hd path = CHR ''/''" "\<nexists>a x b. path = a @ x # CHR ''*'' # b \<and> x \<noteq> CHR ''/''"
    using Cons.prems(2) pk stars_ok_split [of path] by (auto simp: route_ok_def)
  note one = add_route_ok [OF Cons.prems(1) this r]
  have "router_ok n1" "list_all (\<lambda>(path, _). route_ok path) rs" using one Cons.prems(2) by auto
  note rest = Cons.IH [OF this o(1)]
  show ?case
  proof (cases "r = Added")
    case True
    then have "accepted (pk # rs) outs = (path, k) # accepted rs outs1" by (simp add: accepted_def o(2) pk)
    then show ?thesis using one rest o(2) True by (auto simp: image_iff)
  next
    case False
    then have "accepted (pk # rs) outs = accepted rs outs1" by (simp add: accepted_def o(2))
    then show ?thesis using one rest o(2) False by auto
  qed
qed (simp add: accepted_def)

lemma router_after:
  assumes "list_all (\<lambda>(path, _). route_ok path) rs" and "add_routes rs new_node = (outs, n)"
  shows "router_ok n" and "routes n = set (accepted rs outs)"
  using add_routes_ok [OF router_ok_new assms] new_node_ok by auto

section \<open>Properties\<close>

text \<open>
  Property C8. The tree of routes refines a table: after any sequence of additions the routes of the tree are
  exactly the ones that were accepted, no path is accepted twice, a rejected addition takes and loses no
  route although it may have split nodes on its way, and no assertion fails. The paths begin with a
  slash and have their catch-alls behind slashes.
\<close>

theorem router_refines_table:
  assumes "list_all (\<lambda>(path, _). route_ok path) rs"
  shows "case add_routes rs new_node of (outs, n) \<Rightarrow>
    tree_ok n \<and> routes n = set (accepted rs outs) \<and> distinct (map fst (accepted rs outs)) \<and> (\<forall>f. Faulted f \<notin> set outs)"
proof -
  obtain outs n where r: "add_routes rs new_node = (outs, n)" by (cases "add_routes rs new_node")
  show ?thesis using add_routes_ok [OF router_ok_new assms r] new_node_ok r by (simp add: router_ok_def)
qed

definition sample_routes :: "(string \<times> nat) list" where
  "sample_routes = [(''/user/:id'', 1), (''/user/:id/posts'', 2), (''/us'', 3), (''/src/*path'', 4), (''/us'', 5), (''/user/x'', 6)]"

lemma sample_routes_ok: "list_all (\<lambda>(path, _). route_ok path) sample_routes"
  by code_simp

theorem router_refines_table_witness:
  "list_all (\<lambda>(path, _). route_ok path) sample_routes \<and>
   (case add_routes sample_routes new_node of (outs, n) \<Rightarrow>
      tree_ok n \<and> routes n = set (accepted sample_routes outs) \<and> distinct (map fst (accepted sample_routes outs)) \<and> (\<forall>f. Faulted f \<notin> set outs))"
  using router_refines_table [OF sample_routes_ok] sample_routes_ok by simp

text \<open>
  Property C10. Every accepted route is found: a path that is an instance of an accepted route is located with the
  handler of that route and with its parameters in order, whatever routes were accepted or rejected
  before and after it.
\<close>

theorem accepted_routes_are_located:
  assumes "list_all (\<lambda>(path, _). route_ok path) rs" and "add_routes rs new_node = (outs, n)"
    and "(pat, k) \<in> set (accepted rs outs)" and "match_route pat s = Some ps"
  shows "locate n s [] = Inr (Some k, ps)"
  using locate_complete [of n pat k s ps "[]"] router_after [OF assms(1,2)] assms(3,4) by (simp add: router_ok_def)

lemma sample_run:
  "fst (add_routes sample_routes new_node) = [Added, Added, Added, Added, Rejected Duplicate, Rejected Wildcard_conflict]"
  by code_simp

theorem accepted_routes_are_located_witness:
  "locate (snd (add_routes sample_routes new_node)) ''/user/7/posts'' [] = Inr (Some 2, [(''id'', ''7'')])"
proof (rule accepted_routes_are_located [OF sample_routes_ok])
  show "add_routes sample_routes new_node =
      ([Added, Added, Added, Added, Rejected Duplicate, Rejected Wildcard_conflict], snd (add_routes sample_routes new_node))"
    using sample_run by (metis prod.collapse)
  show "(''/user/:id/posts'', 2) \<in> set (accepted sample_routes [Added, Added, Added, Added, Rejected Duplicate, Rejected Wildcard_conflict])"
    by (simp add: accepted_def sample_routes_def)
  show "match_route ''/user/:id/posts'' ''/user/7/posts'' = Some [(''id'', ''7'')]" by code_simp
qed

text \<open>
  Fact. Locating a path always answers, and a handler it returns is that of an accepted route which has an
  instance of the path's length.
\<close>

theorem located_handler_is_accepted:
  assumes "list_all (\<lambda>(path, _). route_ok path) rs" and "add_routes rs new_node = (outs, n)" and "s \<noteq> []"
  shows "\<exists>h ps. locate n s [] = Inr (h, ps) \<and>
    (\<forall>k. h = Some k \<longrightarrow> (\<exists>pat s'. (pat, k) \<in> set (accepted rs outs) \<and> length s' = length s \<and> match_route pat s' \<noteq> None))"
  using locate_sound [OF _ _ assms(3), of n "[]"] router_after [OF assms(1,2)] by (auto simp: router_ok_def)

theorem located_handler_is_accepted_witness:
  "\<exists>h ps. locate (snd (add_routes sample_routes new_node)) ''/src/a/b'' [] = Inr (h, ps)"
  using located_handler_is_accepted [OF sample_routes_ok prod.collapse [symmetric], of "''/src/a/b''"] by auto

text \<open>
  Fact. A router finds a route for paths that are none of its routes: when the route \<open>path\<close> without
  wildcards is the only one, every path of the same length is located with its handler, since \<open>locate\<close>
  compares the sizes of the last piece but not its characters.
\<close>

theorem locate_compares_only_sizes:
  assumes "path \<noteq> []" and "no_special path" and "length s = length path"
  shows "locate (snd (add_route new_node path k)) s [] = Inr (Some k, [])"
  using assms insert_path_plain [of path] by (simp add: add_route_def new_node_def locate.simps)

theorem locate_compares_only_sizes_witness:
  "locate (snd (add_route new_node ''/admin'' 1)) ''/login'' [] = Inr (Some 1, [])"
  using locate_compares_only_sizes [of "''/admin''" "''/login''" 1] by (simp add: no_special_def special_def)

text \<open>
  Fact. A route that was rejected can block others: after \<open>p:name/:\<close> was rejected for its empty wildcard the
  router has no route, but the parameter's node has stayed, and every route that goes on with another
  character after \<open>p\<close> conflicts with it.
\<close>

theorem rejected_route_blocks:
  assumes "p \<noteq> []" and "no_special p" and "name_ok nm" and "c \<notin> special" and "n = snd (add_route new_node (p @ CHR '':'' # nm @ ''/:'') k)"
  shows "routes n = {} \<and> fst (add_route n (p @ [c]) k') = Rejected Wildcard_conflict"
proof -
  let ?path = "p @ CHR '':'' # nm @ ''/:''"
  have tw: "takeWhile (\<lambda>c. c \<notin> set '':*'') ?path = p"
    using assms(2) by (auto simp: takeWhile_append no_special_def special_def takeWhile_eq_all_conv)
  have tw2: "takeWhile (\<lambda>c. c \<notin> set '':*/'') (nm @ ''/:'') = nm"
    using assms(3) by (auto simp: takeWhile_append name_ok_def no_special_def special_def takeWhile_eq_all_conv)
  have w: "find_wildcard ?path = Some (CHR '':'' # nm, length p)"
    using tw tw2 by (simp add: find_wildcard_def find_first_of_def nth_append)
  have v: "valid_name (CHR '':'' # nm)" using assms(3) by (cases nm) (auto simp: valid_name_def name_ok_def)
  have inv: "insert_path (Node [] [] False type_plain 1 [] None) ''/:'' k =
      (Rejected Invalid_wildcard, Node [] [] False type_plain 1 [] None)"
    by (rule insert_path_invalid [of _ "'':''" 1]) (simp_all add: find_wildcard_def find_first_of_def valid_name_def)
  let ?n = "Node p [] True type_plain 1 [Node (CHR '':'' # nm) [] False type_param 1 [Node [] [] False type_plain 1 [] None] None] None"
  have n: "n = ?n"
    using insert_path_param [OF w v, of "''/:''" "[]" "[]" False type_plain 1 None k] inv assms(1,5)
    by (simp add: add_route_def new_node_def)
  have lcp: "longest_common_prefix (p @ [c]) p = length p" by (rule lcp_prefix)
  have "c \<noteq> CHR '':''" using assms(4) by (simp add: special_def)
  then have "route_next (add_priority ?n) (p @ [c]) k' =
      Finished (Rejected Wildcard_conflict) (set_children (add_priority ?n) [add_priority (hd (children ?n))])"
    using lcp by (simp add: route_next_def)
  then show ?thesis using n assms(1) by (simp add: add_route_def insert_route.simps)
qed

theorem rejected_route_blocks_witness:
  "routes (snd (add_route new_node ''/a/:id/:'' 1)) = {} \<and>
   fst (add_route (snd (add_route new_node ''/a/:id/:'' 1)) ''/a/b'' 2) = Rejected Wildcard_conflict"
  using rejected_route_blocks [of "''/a/''" "''id''" "CHR ''b''" _ 1 2] by (simp add: no_special_def special_def name_ok_def)

text \<open>
  Fact. A catch-all right behind a plain route is not rejected but runs into an assertion: with the route \<open>p\<close>,
  which does not end with a slash, adding \<open>p*name\<close> fails \<open>assert(wildcard.pos > 0)\<close>.
\<close>

theorem star_without_slash_asserts:
  assumes "p \<noteq> []" and "no_special p" and "last p \<noteq> CHR ''/''" and "name_ok nm"
  shows "fst (add_route (snd (add_route new_node p k)) (p @ CHR ''*'' # nm) k') = Faulted Assert_failed"
proof -
  let ?n = "Node p [] False type_root 2 [] (Some k)"
  have n: "add_priority (snd (add_route new_node p k)) = ?n"
    using insert_path_plain [OF assms(2), of "[]" "[]" False type_plain 1 "[]" None k] by (simp add: add_route_def new_node_def)
  have "takeWhile (\<lambda>c. c \<notin> set '':*/'') nm = nm"
    using assms(4) by (auto simp: name_ok_def no_special_def special_def takeWhile_eq_all_conv)
  then have tw: "length (takeWhile (\<lambda>c. c \<notin> set '':*/'') nm) = length nm" by (rule arg_cong)
  have w: "find_wildcard (CHR ''*'' # nm) = Some (CHR ''*'' # nm, 0)" using tw by (simp add: find_wildcard_def find_first_of_def)
  have v: "valid_name (CHR ''*'' # nm)" using assms(4) by (cases nm) (auto simp: valid_name_def name_ok_def)
  have i: "insert_path ?n (CHR ''*'' # nm) k' = (Faulted Assert_failed, ?n)"
    using insert_path_star [OF w v, of "[]" p "[]" False type_root 2 "Some k" k'] assms(3) by simp
  have "longest_common_prefix (p @ CHR ''*'' # nm) p = length p" by (rule lcp_prefix)
  then have "route_next ?n (p @ CHR ''*'' # nm) k' = Finished (Faulted Assert_failed) ?n"
    using i by (simp add: route_next_def find_index_def end_here_def)
  moreover have "node_path (snd (add_route new_node p k)) = p"
    using arg_cong [OF n, of node_path] by simp
  ultimately show ?thesis using n assms(1) by (simp add: add_route_def [of "snd (add_route new_node p k)"] insert_route.simps)
qed

theorem star_without_slash_asserts_witness:
  "fst (add_route (snd (add_route new_node ''/src'' 1)) ''/src*file'' 2) = Faulted Assert_failed"
  using star_without_slash_asserts [of "''/src''" "''file''" 1 2] by (simp add: no_special_def special_def name_ok_def)

end
