(* ===== verification/Node_Chain.thy ===== *)
theory Node_Chain
  imports Simulation
begin

text \<open>
  Linked lists in a store of nodes, as the lock-free stack and the queue with two locks have them: the
  list of the nodes from a pointer on, and how writing the link of a node changes it.
\<close>

fun chain :: "(nat \<Rightarrow> nat option) \<Rightarrow> nat option \<Rightarrow> nat list \<Rightarrow> bool" where
  "chain nx p [] \<longleftrightarrow> p = None"
| "chain nx p (n # ns) \<longleftrightarrow> p = Some n \<and> chain nx (nx n) ns"

lemma chain_upd: "n \<notin> set ns \<Longrightarrow> chain (nx(n := q)) p ns = chain nx p ns"
  by (induction ns arbitrary: p) auto

lemma chain_None [simp]: "chain nx None ns \<longleftrightarrow> ns = []"
  by (cases ns) auto

lemma chain_Some: "chain nx (Some n) ns \<longleftrightarrow> (\<exists>ms. ns = n # ms \<and> chain nx (nx n) ms)"
  by (cases ns) auto

text \<open>Linking a node behind the last one.\<close>

lemma chain_link:
  "chain nx (nx h) ns \<Longrightarrow> distinct (h # ns) \<Longrightarrow> n \<notin> set (h # ns) \<Longrightarrow> nx n = None \<Longrightarrow>
    chain (nx(last (h # ns) := Some n)) ((nx(last (h # ns) := Some n)) h) (ns @ [n])"
proof (induction ns arbitrary: h)
  case (Cons k ns)
  let ?l = "last (k # ns)"
  have "chain (nx(?l := Some n)) ((nx(?l := Some n)) k) (ns @ [n])"
    using Cons.prems by (intro Cons.IH) auto
  moreover have "?l \<noteq> h" using Cons.prems(2) by (metis distinct.simps(2) last_in_set list.distinct(1))
  moreover have "last (h # k # ns) = ?l" by simp
  moreover have "nx h = Some k" using Cons.prems(1) by simp
  ultimately show ?case by (simp del: last.simps fun_upd_apply add: fun_upd_other)
qed simp

lemma chain_last: "chain nx (nx h) ns \<Longrightarrow> nx (last (h # ns)) = None"
  by (induction ns arbitrary: h) auto

lemma chain_upto:
  "k \<le> m \<Longrightarrow> chain (\<lambda>i. if i < m - 1 then Some (i + 1) else None) (if k < m then Some k else None) [k..<m]"
proof (induction "m - k" arbitrary: k)
  case (Suc d)
  then have k: "k < m" by simp
  have "chain (\<lambda>i. if i < m - 1 then Some (i + 1) else None) (if Suc k < m then Some (Suc k) else None) [Suc k..<m]"
    using Suc k by (intro Suc(1)) auto
  moreover have "(if Suc k < m then Some (Suc k) else None) = (if k < m - 1 then Some (k + 1) else None)" using k by auto
  ultimately show ?case using k by (simp add: upt_conv_Cons)
qed simp

end
