(* ===== verification/Lock_Free_Stack.thy ===== *)
theory Lock_Free_Stack
  imports Node_Chain
begin

text \<open>
  The lock-free stack (\<open>src/LockfreeStack/lstack.h\<close>) under any interleaving of its callers: every load,
  compare-and-swap and access of a node is one step. The theory shows that it is linearizable - every
  run is explained by one sequence of stack operations, in which each call takes effect while it runs -
  that no node is lost or given out twice, and that a call that is left alone ends.
\<close>

section \<open>The stack\<close>

text \<open>
  A node is its index in \<open>node_buf_\<close>. The tag counts the successful exchanges; what the word of the
  machine keeps of it, and all that a comparison sees, is its value modulo \<open>2 ^ 64\<close>.
\<close>

record head =
  aba_tag :: nat
  top_node :: "nat option"

definition same_head :: "head \<Rightarrow> head \<Rightarrow> bool" where
  "same_head h k \<longleftrightarrow> aba_tag h mod 2 ^ 64 = aba_tag k mod 2 ^ 64 \<and> top_node h = top_node k"

datatype 'a call = Push 'a | Pop

datatype 'a answer = Pushed bool | Popped "'a option"

text \<open>
  Where a thread is. \<open>Loading\<close>, \<open>Testing\<close> and \<open>Swapping\<close> are the loop of \<open>PopHead\<close>, \<open>Giving\<close>, \<open>Linking\<close> and
  \<open>Exchanging\<close> that of \<open>PushHead\<close>; \<open>Took\<close> and \<open>Sized\<close> lie between the two, \<open>Counting\<close> behind them. Each carries
  the local variables.
\<close>

datatype 'a place =
    Idle
  | Loading "'a call"
  | Testing "'a call" head
  | Swapping "'a call" head nat "nat option"
  | Took "'a call" nat
  | Sized nat
  | Giving "'a call" nat 'a
  | Linking "'a call" nat 'a head
  | Exchanging "'a call" nat 'a head
  | Counting 'a
  | Answered "'a answer"

text \<open>A call begins; and what happens to the stack at the moment a call takes effect.\<close>

datatype 'a event = Ev_Call "'a call" | Ev_Push 'a | Ev_Pop 'a | Ev_Full | Ev_Empty

record 'a lstack =
  maxsize :: nat
  node_value :: "nat \<Rightarrow> 'a"
  node_next :: "nat \<Rightarrow> nat option"
  stack_head :: head
  free_head :: head
  lsize :: "64 word"
  places :: "nat \<Rightarrow> 'a place"
  history :: "(nat \<times> 'a event) list"

fun source_head :: "'a call \<Rightarrow> 'a lstack \<Rightarrow> head" where
  "source_head (Push v) s = free_head s"
| "source_head Pop s = stack_head s"

fun target_head :: "'a call \<Rightarrow> 'a lstack \<Rightarrow> head" where
  "target_head (Push v) s = stack_head s"
| "target_head Pop s = free_head s"

fun set_source :: "'a call \<Rightarrow> head \<Rightarrow> 'a lstack \<Rightarrow> 'a lstack" where
  "set_source (Push v) h s = s\<lparr>free_head := h\<rparr>"
| "set_source Pop h s = s\<lparr>stack_head := h\<rparr>"

fun set_target :: "'a call \<Rightarrow> head \<Rightarrow> 'a lstack \<Rightarrow> 'a lstack" where
  "set_target (Push v) h s = s\<lparr>stack_head := h\<rparr>"
| "set_target Pop h s = s\<lparr>free_head := h\<rparr>"

text \<open>\<open>LStack(maxsize)\<close>; the values of the nodes are whatever the memory holds.\<close>

definition lstack_new :: "nat \<Rightarrow> (nat \<Rightarrow> 'a) \<Rightarrow> 'a lstack res" where
  "lstack_new m junk =
     (if m = 0 then Inl Out_of_bounds
      else Inr \<lparr>maxsize = m, node_value = junk, node_next = (\<lambda>i. if i < m - 1 then Some (i + 1) else None),
        stack_head = \<lparr>aba_tag = 0, top_node = None\<rparr>, free_head = \<lparr>aba_tag = 0, top_node = Some 0\<rparr>,
        lsize = 0, places = (\<lambda>_. Idle), history = []\<rparr>)"

definition goto :: "nat \<Rightarrow> 'a place \<Rightarrow> 'a lstack \<Rightarrow> 'a lstack" where
  "goto t p s = s\<lparr>places := (places s)(t := p)\<rparr>"

definition note_event :: "nat \<Rightarrow> 'a event \<Rightarrow> 'a lstack \<Rightarrow> 'a lstack" where
  "note_event t e s = s\<lparr>history := history s @ [(t, e)]\<rparr>"

fun failure :: "'a call \<Rightarrow> 'a event \<times> 'a answer" where
  "failure (Push v) = (Ev_Full, Pushed False)"
| "failure Pop = (Ev_Empty, Popped None)"

text \<open>
  Reading the head in \<open>PopHead\<close>, by the load before the loop or by an exchange that fails. A call that
  reads a null pointer here takes effect here.
\<close>

definition read_source :: "nat \<Rightarrow> 'a call \<Rightarrow> 'a lstack \<Rightarrow> 'a lstack" where
  "read_source t c s =
     (let h = source_head c s
      in goto t (Testing c h) (if top_node h = None then note_event t (fst (failure c)) s else s))"

definition swap_source :: "nat \<Rightarrow> 'a call \<Rightarrow> nat \<Rightarrow> nat option \<Rightarrow> 'a lstack \<Rightarrow> 'a lstack" where
  "swap_source t c n nx s =
     (let s' = set_source c \<lparr>aba_tag = aba_tag (source_head c s) + 1, top_node = nx\<rparr> s
      in goto t (Took c n) (case c of Push v \<Rightarrow> s' | Pop \<Rightarrow> note_event t (Ev_Pop (node_value s n)) s'))"

definition swap_target :: "nat \<Rightarrow> 'a call \<Rightarrow> nat \<Rightarrow> 'a \<Rightarrow> 'a lstack \<Rightarrow> 'a lstack" where
  "swap_target t c n v s =
     (let s' = set_target c \<lparr>aba_tag = aba_tag (target_head c s) + 1, top_node = Some n\<rparr> s
      in case c of
           Push w \<Rightarrow> goto t (Counting v) (note_event t (Ev_Push v) s')
         | Pop \<Rightarrow> goto t (Answered (Popped (Some v))) s')"

text \<open>
  One step of a thread. A call begins when the thread is at rest; an exchange may fail for no reason
  (\<open>Fail\<close>), as \<open>compare_exchange_weak\<close> is allowed to.
\<close>

datatype 'a action = Begin "'a call" | Go | Fail

fun begin_call :: "nat \<Rightarrow> 'a action \<Rightarrow> 'a lstack \<Rightarrow> 'a lstack" where
  "begin_call t (Begin c) s = goto t (Loading c) (note_event t (Ev_Call c) s)"
| "begin_call t _ s = s"

definition deref_node :: "'a lstack \<Rightarrow> nat \<Rightarrow> unit res" where
  "deref_node s n = guard (n < maxsize s) Out_of_bounds"

definition thread_step :: "'a lstack \<Rightarrow> nat \<Rightarrow> 'a action \<Rightarrow> 'a lstack res" where
  "thread_step s t a = (case places s t of
     Idle \<Rightarrow> Inr (begin_call t a s)
   | Answered r \<Rightarrow> Inr (begin_call t a s)
   | Loading c \<Rightarrow> Inr (read_source t c s)
   | Testing c h \<Rightarrow> (case top_node h of
       None \<Rightarrow> Inr (goto t (Answered (snd (failure c))) s)
     | Some n \<Rightarrow> rbind (deref_node s n) (\<lambda>_. Inr (goto t (Swapping c h n (node_next s n)) s)))
   | Swapping c h n nx \<Rightarrow>
       if a \<noteq> Fail \<and> same_head (source_head c s) h then Inr (swap_source t c n nx s) else Inr (read_source t c s)
   | Took c n \<Rightarrow> (case c of
       Push v \<Rightarrow> rbind (deref_node s n) (\<lambda>_. Inr (goto t (Giving c n v) (s\<lparr>node_value := (node_value s)(n := v)\<rparr>)))
     | Pop \<Rightarrow> Inr (goto t (Sized n) (s\<lparr>lsize := lsize s - 1\<rparr>)))
   | Sized n \<Rightarrow> rbind (deref_node s n) (\<lambda>_. Inr (goto t (Giving Pop n (node_value s n)) s))
   | Giving c n v \<Rightarrow> Inr (goto t (Linking c n v (target_head c s)) s)
   | Linking c n v h \<Rightarrow>
       rbind (deref_node s n) (\<lambda>_. Inr (goto t (Exchanging c n v h) (s\<lparr>node_next := (node_next s)(n := top_node h)\<rparr>)))
   | Exchanging c n v h \<Rightarrow>
       if a \<noteq> Fail \<and> same_head (target_head c s) h then Inr (swap_target t c n v s)
       else Inr (goto t (Linking c n v (target_head c s)) s)
   | Counting v \<Rightarrow> Inr (goto t (Answered (Pushed True)) (s\<lparr>lsize := lsize s + 1\<rparr>)))"

definition lstack_step :: "'a lstack \<Rightarrow> nat \<times> 'a action \<Rightarrow> 'a lstack res" where
  "lstack_step s ta = thread_step s (fst ta) (snd ta)"

definition lstack_size :: "'a lstack \<Rightarrow> 64 word" where
  "lstack_size s = lsize s"

section \<open>The specification\<close>

text \<open>The stack that a sequence of events leads to; an event that does not fit leads nowhere.\<close>

fun replay :: "'a event list \<Rightarrow> 'a list \<Rightarrow> 'a list option" where
  "replay [] xs = Some xs"
| "replay (Ev_Push v # es) xs = replay es (v # xs)"
| "replay (Ev_Pop v # es) xs = (case xs of [] \<Rightarrow> None | x # xs \<Rightarrow> if x = v then replay es xs else None)"
| "replay (Ev_Call c # es) xs = replay es xs"
| "replay (Ev_Full # es) xs = replay es xs"
| "replay (Ev_Empty # es) xs = (if xs = [] then replay es xs else None)"

lemma replay_append: "replay (es @ fs) xs = (case replay es xs of None \<Rightarrow> None | Some ys \<Rightarrow> replay fs ys)"
  by (induction es xs rule: replay.induct) (auto split: list.splits)

section \<open>The invariant\<close>

fun owned :: "'a place \<Rightarrow> nat option" where
  "owned (Took c n) = Some n"
| "owned (Sized n) = Some n"
| "owned (Giving c n v) = Some n"
| "owned (Linking c n v h) = Some n"
| "owned (Exchanging c n v h) = Some n"
| "owned _ = None"

text \<open>A head that was read: as long as the tag is the same, so is the head.\<close>

definition seen :: "head \<Rightarrow> head \<Rightarrow> bool" where
  "seen cur h \<longleftrightarrow> aba_tag h \<le> aba_tag cur \<and> (aba_tag h = aba_tag cur \<longrightarrow> h = cur)"

fun of_call :: "'a call \<Rightarrow> 'b \<Rightarrow> 'b \<Rightarrow> 'b" where
  "of_call (Push v) x y = x"
| "of_call Pop x y = y"

definition carries :: "(nat \<Rightarrow> 'a) \<Rightarrow> 'a event option \<Rightarrow> 'a call \<Rightarrow> nat \<Rightarrow> 'a \<Rightarrow> bool" where
  "carries val ev c n v \<longleftrightarrow> val n = v \<and> of_call c (c = Push v) (ev = Some (Ev_Pop v))"

text \<open>
  What a thread knows at its place: \<open>sh\<close> and \<open>fh\<close> are the heads, \<open>ev\<close> is the last event of the thread.
\<close>

fun place_ok :: "nat \<Rightarrow> (nat \<Rightarrow> 'a) \<Rightarrow> (nat \<Rightarrow> nat option) \<Rightarrow> head \<Rightarrow> head \<Rightarrow> 'a event option \<Rightarrow> 'a place \<Rightarrow> bool" where
  "place_ok m val nx sh fh ev Idle \<longleftrightarrow> True"
| "place_ok m val nx sh fh ev (Loading c) \<longleftrightarrow> True"
| "place_ok m val nx sh fh ev (Testing c h) \<longleftrightarrow> seen (of_call c fh sh) h \<and>
     (case top_node h of None \<Rightarrow> ev = Some (fst (failure c)) | Some n \<Rightarrow> n < m)"
| "place_ok m val nx sh fh ev (Swapping c h n q) \<longleftrightarrow> seen (of_call c fh sh) h \<and> top_node h = Some n \<and> n < m \<and>
     (h = of_call c fh sh \<longrightarrow> q = nx n)"
| "place_ok m val nx sh fh ev (Took c n) \<longleftrightarrow> of_call c True (ev = Some (Ev_Pop (val n)))"
| "place_ok m val nx sh fh ev (Sized n) \<longleftrightarrow> ev = Some (Ev_Pop (val n))"
| "place_ok m val nx sh fh ev (Giving c n v) \<longleftrightarrow> carries val ev c n v"
| "place_ok m val nx sh fh ev (Linking c n v h) \<longleftrightarrow> carries val ev c n v \<and> seen (of_call c sh fh) h"
| "place_ok m val nx sh fh ev (Exchanging c n v h) \<longleftrightarrow> carries val ev c n v \<and> seen (of_call c sh fh) h \<and> nx n = top_node h"
| "place_ok m val nx sh fh ev (Counting v) \<longleftrightarrow> ev = Some (Ev_Push v)"
| "place_ok m val nx sh fh ev (Answered r) \<longleftrightarrow> (case r of
     Pushed b \<Rightarrow> if b then (\<exists>v. ev = Some (Ev_Push v)) else ev = Some Ev_Full
   | Popped (Some v) \<Rightarrow> ev = Some (Ev_Pop v)
   | Popped None \<Rightarrow> ev = Some Ev_Empty)"

definition last_event :: "nat \<Rightarrow> 'a lstack \<Rightarrow> 'a event option" where
  "last_event t s = map_of (rev (history s)) t"

definition lstack_ok :: "'a lstack \<Rightarrow> nat list \<Rightarrow> nat list \<Rightarrow> nat \<Rightarrow> bool" where
  "lstack_ok s fs ss N \<longleftrightarrow>
     chain (node_next s) (top_node (free_head s)) fs \<and> chain (node_next s) (top_node (stack_head s)) ss \<and>
     distinct (fs @ ss) \<and> set (fs @ ss) \<subseteq> {..<maxsize s} \<and>
     (\<forall>t n. owned (places s t) = Some n \<longrightarrow> n < maxsize s \<and> n \<notin> set (fs @ ss)) \<and>
     (\<forall>t u n. owned (places s t) = Some n \<longrightarrow> owned (places s u) = Some n \<longrightarrow> t = u) \<and>
     (\<forall>n < maxsize s. n \<in> set (fs @ ss) \<or> (\<exists>t. owned (places s t) = Some n)) \<and>
     replay (map snd (history s)) [] = Some (map (node_value s) ss) \<and>
     aba_tag (free_head s) \<le> N \<and> aba_tag (stack_head s) \<le> N \<and>
     (\<forall>t. place_ok (maxsize s) (node_value s) (node_next s) (stack_head s) (free_head s) (last_event t s) (places s t))"

lemma place_ok_stack_head:
  assumes "place_ok m val nx sh fh ev p" and "aba_tag sh < aba_tag sh'"
  shows "place_ok m val nx sh' fh ev p"
  using assms
proof (cases p)
  case (Testing c h) then show ?thesis using assms by (cases c) (auto simp: seen_def split: option.splits)
next
  case (Swapping c h n q) then show ?thesis using assms by (cases c) (auto simp: seen_def)
next
  case (Linking c n v h) then show ?thesis using assms by (cases c) (auto simp: seen_def)
next
  case (Exchanging c n v h) then show ?thesis using assms by (cases c) (auto simp: seen_def)
qed simp_all

lemma place_ok_free_head:
  assumes "place_ok m val nx sh fh ev p" and "aba_tag fh < aba_tag fh'"
  shows "place_ok m val nx sh fh' ev p"
  using assms
proof (cases p)
  case (Testing c h) then show ?thesis using assms by (cases c) (auto simp: seen_def split: option.splits)
next
  case (Swapping c h n q) then show ?thesis using assms by (cases c) (auto simp: seen_def)
next
  case (Linking c n v h) then show ?thesis using assms by (cases c) (auto simp: seen_def)
next
  case (Exchanging c n v h) then show ?thesis using assms by (cases c) (auto simp: seen_def)
qed simp_all

lemma place_ok_next:
  assumes "place_ok m val nx sh fh ev p" and "top_node sh \<noteq> Some n" and "top_node fh \<noteq> Some n" and "owned p \<noteq> Some n"
  shows "place_ok m val (nx(n := q)) sh fh ev p"
  using assms
proof (cases p)
  case (Swapping c h k q') then show ?thesis using assms by (cases c) auto
qed auto

lemma place_ok_value:
  assumes "place_ok m val nx sh fh ev p" and "owned p \<noteq> Some n"
  shows "place_ok m (val(n := v)) nx sh fh ev p"
  using assms
proof (cases p)
  case (Took c k) then show ?thesis using assms by (cases c) auto
qed (auto simp: carries_def)

lemma same_headD:
  assumes "same_head cur h" and "seen cur h" and "aba_tag cur < 2 ^ 64"
  shows "h = cur"
  using assms by (auto simp: same_head_def seen_def)

lemma last_event_note [simp]:
  "last_event u (note_event t e s) = (if u = t then Some e else last_event u s)"
  by (simp add: last_event_def note_event_def)

section \<open>Steps\<close>

lemma lists_ok:
  assumes "lstack_ok s fs ss N"
  shows "chain (node_next s) (top_node (free_head s)) fs" and "chain (node_next s) (top_node (stack_head s)) ss"
    and "distinct fs" and "distinct ss" and "set fs \<inter> set ss = {}"
  using assms by (simp_all add: lstack_ok_def)

lemma owned_out:
  assumes "lstack_ok s fs ss N" and "owned (places s t) = Some n"
  shows "n < maxsize s" and "n \<notin> set fs" and "n \<notin> set ss"
proof -
  have "\<forall>t n. owned (places s t) = Some n \<longrightarrow> n < maxsize s \<and> n \<notin> set (fs @ ss)"
    using assms(1) unfolding lstack_ok_def by (elim conjE)
  then show "n < maxsize s" "n \<notin> set fs" "n \<notin> set ss" using assms(2) by auto
qed

text \<open>A step that leaves both lists as they are; it may write into the node that the thread owns.\<close>

lemma keeps_lists:
  assumes ok: "lstack_ok s fs ss N"
    and same: "maxsize s' = maxsize s" "stack_head s' = stack_head s" "free_head s' = free_head s"
      "places s' = (places s)(t := p)" "owned p = owned (places s t)"
    and nx: "node_next s' = node_next s \<or> (\<exists>n q. owned (places s t) = Some n \<and> node_next s' = (node_next s)(n := q))"
    and val: "node_value s' = node_value s \<or> (\<exists>n v. owned (places s t) = Some n \<and> node_value s' = (node_value s)(n := v))"
    and ev: "replay (map snd (history s')) [] = Some (map (node_value s) ss)" "\<forall>u. u \<noteq> t \<longrightarrow> last_event u s' = last_event u s"
    and p: "place_ok (maxsize s) (node_value s') (node_next s') (stack_head s) (free_head s) (last_event t s') p"
  shows "lstack_ok s' fs ss (Suc N)"
proof -
  have own: "owned (places s' u) = owned (places s u)" for u using same(4,5) by auto
  have nodes: "n \<notin> set (fs @ ss)" if "owned (places s t) = Some n" for n using ok that by (auto simp: lstack_ok_def)
  have chains: "chain (node_next s') (top_node (free_head s)) fs" "chain (node_next s') (top_node (stack_head s)) ss"
    using ok nx nodes by (auto simp: lstack_ok_def chain_upd)
  have vals: "map (node_value s') ss = map (node_value s) ss" using val nodes by auto
  have tops: "top_node (free_head s) \<noteq> Some n" "top_node (stack_head s) \<noteq> Some n" if "owned (places s t) = Some n" for n
    using ok nodes [OF that] by (auto simp: lstack_ok_def chain_Some)
  have "place_ok (maxsize s) (node_value s') (node_next s') (stack_head s) (free_head s) (last_event u s') (places s' u)" for u
  proof (cases "u = t")
    case True
    then show ?thesis using p same(4) by simp
  next
    case False
    have "owned (places s u) \<noteq> Some n" if "owned (places s t) = Some n" for n using ok that False by (auto simp: lstack_ok_def)
    moreover have "place_ok (maxsize s) (node_value s) (node_next s) (stack_head s) (free_head s) (last_event u s') (places s u)"
      using ok ev(2) False by (simp add: lstack_ok_def)
    ultimately show ?thesis
      using False nx val tops same(4) by (auto intro!: place_ok_next place_ok_value)
  qed
  then show ?thesis
    using ok chains vals ev(1) same(1-3) unfolding lstack_ok_def own by simp
qed

lemma lstack_okD:
  assumes "lstack_ok s fs ss N"
  shows "place_ok (maxsize s) (node_value s) (node_next s) (stack_head s) (free_head s) (last_event t s) (places s t)"
    and "owned (places s t) = Some n \<Longrightarrow> n < maxsize s"
    and "aba_tag (stack_head s) \<le> N" and "aba_tag (free_head s) \<le> N"
    and "replay (map snd (history s)) [] = Some (map (node_value s) ss)"
    and "top_node (stack_head s) = None \<longleftrightarrow> ss = []" and "top_node (stack_head s) = Some k \<Longrightarrow> k < maxsize s"
    and "top_node (free_head s) = Some k \<Longrightarrow> k < maxsize s"
  using assms by (auto simp: lstack_ok_def chain_Some; cases ss; auto)+

lemma source_of_call: "source_head c s = of_call c (free_head s) (stack_head s)"
  and target_of_call: "target_head c s = of_call c (stack_head s) (free_head s)"
  by (cases c; simp)+

lemma seen_refl [simp]: "seen h h"
  by (simp add: seen_def)

lemma read_source_ok:
  assumes ok: "lstack_ok s fs ss N" and o: "owned (places s t) = None"
  shows "lstack_ok (read_source t c s) fs ss (Suc N)"
proof (cases "top_node (source_head c s)")
  case None
  then have "read_source t c s = goto t (Testing c (source_head c s)) (note_event t (fst (failure c)) s)"
    by (simp add: read_source_def)
  moreover have "replay (map snd (history s @ [(t, fst (failure c))])) [] = Some (map (node_value s) ss)"
    using lstack_okD(5,6) [OF ok] None by (cases c) (auto simp: replay_append)
  ultimately show ?thesis
    using o None by (intro keeps_lists [OF ok, where t = t and p = "Testing c (source_head c s)"]) (auto simp: goto_def note_event_def last_event_def source_of_call)
next
  case (Some n)
  then have "n < maxsize s" using lstack_okD(7,8) [OF ok] by (cases c) auto
  then show ?thesis
    using o Some lstack_okD(5) [OF ok]
    by (intro keeps_lists [OF ok, where t = t and p = "Testing c (source_head c s)"]) (auto simp: read_source_def goto_def last_event_def source_of_call)
qed

text \<open>A step that moves a node between a list and the thread.\<close>

lemma moves_node:
  assumes ok: "lstack_ok s fs ss N"
    and same: "maxsize s' = maxsize s" "node_next s' = node_next s" "node_value s' = node_value s" "places s' = (places s)(t := p)"
    and heads: "stack_head s' = stack_head s \<or> aba_tag (stack_head s') = aba_tag (stack_head s) + 1"
      "free_head s' = free_head s \<or> aba_tag (free_head s') = aba_tag (free_head s) + 1"
    and chains: "chain (node_next s) (top_node (free_head s')) fs'" "chain (node_next s) (top_node (stack_head s')) ss'"
      "distinct (fs' @ ss')"
    and node: "owned (places s t) = None \<and> owned p = Some n \<and> set (fs @ ss) = insert n (set (fs' @ ss')) \<and> n \<notin> set (fs' @ ss') \<or>
      owned (places s t) = Some n \<and> owned p = None \<and> set (fs' @ ss') = insert n (set (fs @ ss))"
    and ev: "replay (map snd (history s')) [] = Some (map (node_value s) ss')" "\<forall>u. u \<noteq> t \<longrightarrow> last_event u s' = last_event u s"
    and p: "place_ok (maxsize s) (node_value s) (node_next s) (stack_head s') (free_head s') (last_event t s') p"
  shows "lstack_ok s' fs' ss' (Suc N)"
proof -
  have own: "owned (places s' u) = (if u = t then owned p else owned (places s u))" for u using same(4) by auto
  note old = ok [unfolded lstack_ok_def]
  have sub: "set (fs @ ss) \<subseteq> {..<maxsize s}" using old by blast
  have sub': "set (fs' @ ss') \<subseteq> {..<maxsize s}" using node sub lstack_okD(2) [OF ok, of t n] by auto
  have owned_lt: "n < maxsize s" using node sub lstack_okD(2) [OF ok, of t n] by auto
  have o: "\<forall>u k. owned (places s' u) = Some k \<longrightarrow> k < maxsize s \<and> k \<notin> set (fs' @ ss')"
  proof (intro allI impI)
    fix u k
    assume k: "owned (places s' u) = Some k"
    show "k < maxsize s \<and> k \<notin> set (fs' @ ss')"
    proof (cases "u = t")
      case True
      then show ?thesis using k own node owned_lt by auto
    next
      case False
      then have uk: "owned (places s u) = Some k" using k own by simp
      then have "k < maxsize s" "k \<notin> set (fs @ ss)" using old by blast+
      moreover have "k \<noteq> n" if "owned (places s t) = Some n" using old uk that False by blast
      ultimately show ?thesis using node by auto
    qed
  qed
  have u: "\<forall>u v k. owned (places s' u) = Some k \<longrightarrow> owned (places s' v) = Some k \<longrightarrow> u = v"
  proof (intro allI impI)
    fix u v k
    assume k: "owned (places s' u) = Some k" "owned (places s' v) = Some k"
    have fresh: "owned (places s w) \<noteq> Some n" if "owned p = Some n" for w
      using owned_out [OF ok, of w n] node that by auto
    show "u = v" using k own fresh node old by (metis option.distinct(1) option.sel)
  qed
  have cov: "\<forall>k < maxsize s. k \<in> set (fs' @ ss') \<or> (\<exists>u. owned (places s' u) = Some k)"
  proof (intro allI impI)
    fix k
    assume "k < maxsize s"
    then consider "k \<in> set (fs @ ss)" | w where "owned (places s w) = Some k" using old by blast
    then show "k \<in> set (fs' @ ss') \<or> (\<exists>u. owned (places s' u) = Some k)"
    proof cases
      case 1
      then show ?thesis using node own by (metis insert_iff)
    next
      case 2
      then show ?thesis using node own by (metis insertI1 option.sel option.distinct(1))
    qed
  qed
  have "place_ok (maxsize s) (node_value s) (node_next s) (stack_head s') (free_head s') (last_event w s') (places s' w)" for w
  proof (cases "w = t")
    case True
    then show ?thesis using p same(4) by simp
  next
    case False
    then have "place_ok (maxsize s) (node_value s) (node_next s) (stack_head s) (free_head s) (last_event w s') (places s' w)"
      using old ev(2) same(4) by simp
    then have "place_ok (maxsize s) (node_value s) (node_next s) (stack_head s') (free_head s) (last_event w s') (places s' w)"
      using heads(1) place_ok_stack_head by (metis less_add_one)
    then show ?thesis using heads(2) place_ok_free_head by (metis less_add_one)
  qed
  moreover have "aba_tag (stack_head s') \<le> Suc N" "aba_tag (free_head s') \<le> Suc N"
    using heads lstack_okD(3,4) [OF ok] by auto
  ultimately show ?thesis
    using chains sub' o u cov ev(1) unfolding lstack_ok_def same(1-3) by blast
qed

lemma swap_source_ok:
  assumes ok: "lstack_ok s fs ss N" and at: "owned (places s t) = None" and n: "top_node (source_head c s) = Some n"
  shows "\<exists>fs' ss'. lstack_ok (swap_source t c n (node_next s n) s) fs' ss' (Suc N)"
proof (cases c)
  case (Push v)
  then obtain fs' where fs: "fs = n # fs'" "chain (node_next s) (node_next s n) fs'" using lists_ok(1) [OF ok] n by (auto simp: chain_Some)
  have "lstack_ok (swap_source t c n (node_next s n) s) fs' ss (Suc N)"
    by (rule moves_node [OF ok, where t = t and p = "Took c n" and n = n])
      (use lists_ok [OF ok] lstack_okD(5) [OF ok] fs at Push in \<open>simp_all add: swap_source_def goto_def last_event_def\<close>)
  then show ?thesis by blast
next
  case Pop
  then obtain ss' where ss: "ss = n # ss'" "chain (node_next s) (node_next s n) ss'" using lists_ok(2) [OF ok] n by (auto simp: chain_Some)
  have "lstack_ok (swap_source t c n (node_next s n) s) fs ss' (Suc N)"
    by (rule moves_node [OF ok, where t = t and p = "Took c n" and n = n])
      (use lists_ok [OF ok] lstack_okD(5) [OF ok] ss at Pop in \<open>simp_all add: swap_source_def goto_def note_event_def last_event_def replay_append\<close>)
  then show ?thesis by blast
qed

lemma swap_target_ok:
  assumes ok: "lstack_ok s fs ss N" and at: "places s t = Exchanging c n v (target_head c s)"
  shows "\<exists>fs' ss'. lstack_ok (swap_target t c n v s) fs' ss' (Suc N)"
proof -
  have n: "node_next s n = top_node (target_head c s)" "carries (node_value s) (last_event t s) c n v"
    using lstack_okD(1) [OF ok, of t] at by simp_all
  have out: "n \<notin> set (fs @ ss)" using owned_out [OF ok, of t n] at by simp
  show ?thesis
  proof (cases c)
    case (Push w)
    have "lstack_ok (swap_target t c n v s) fs (n # ss) (Suc N)"
      by (rule moves_node [OF ok, where t = t and p = "Counting v" and n = n])
        (use lists_ok [OF ok] lstack_okD(5) [OF ok] n out at Push in \<open>simp_all add: swap_target_def goto_def note_event_def last_event_def replay_append carries_def\<close>)
    then show ?thesis by blast
  next
    case Pop
    have "lstack_ok (swap_target t c n v s) (n # fs) ss (Suc N)"
      by (rule moves_node [OF ok, where t = t and p = "Answered (Popped (Some v))" and n = n])
        (use lists_ok [OF ok] lstack_okD(5) [OF ok] n out at Pop in \<open>simp_all add: swap_target_def goto_def last_event_def carries_def\<close>)
    then show ?thesis by blast
  qed
qed

lemma deref_ok: "owned (places s t) = Some n \<Longrightarrow> lstack_ok s fs ss N \<Longrightarrow> deref_node s n = Inr ()"
  using owned_out(1) [of s fs ss N t n] by (simp add: deref_node_def)

text \<open>Going on without touching anything that is shared.\<close>

lemma goto_ok:
  assumes ok: "lstack_ok s fs ss N" and o: "owned p = owned (places s t)"
    and p: "place_ok (maxsize s) (node_value s) (node_next s) (stack_head s) (free_head s) (last_event t s) p"
  shows "lstack_ok (goto t p s) fs ss (Suc N)"
  by (rule keeps_lists [OF ok, where t = t and p = p]) (use lstack_okD(5) [OF ok] o p in \<open>simp_all add: goto_def last_event_def\<close>)

lemma stays_ok:
  assumes "lstack_ok s fs ss N"
  shows "lstack_ok s fs ss (Suc N)"
proof -
  have "goto 0 (places s 0) s = s" by (simp add: goto_def)
  then show ?thesis using goto_ok [OF assms, of "places s 0" 0] lstack_okD(1) [OF assms, of 0] by simp
qed

lemma begin_call_ok:
  assumes "lstack_ok s fs ss N" and "owned (places s t) = None"
  shows "lstack_ok (begin_call t a s) fs ss (Suc N)"
proof (cases a)
  case (Begin c)
  show ?thesis
    unfolding Begin begin_call.simps
    by (rule keeps_lists [OF assms(1), where t = t and p = "Loading c"])
      (use assms(2) lstack_okD(5) [OF assms(1)] in \<open>simp_all add: goto_def note_event_def last_event_def replay_append\<close>)
qed (use stays_ok [OF assms(1)] in simp_all)

lemma thread_step_ok:
  assumes ok: "lstack_ok s fs ss N" and N: "N < 2 ^ 64"
  shows "\<exists>s' fs' ss'. thread_step s t a = Inr s' \<and> lstack_ok s' fs' ss' (Suc N)"
proof (cases "places s t")
  case Idle
  then show ?thesis using begin_call_ok [OF ok, of t a] by (auto simp: thread_step_def)
next
  case (Answered r)
  then show ?thesis using begin_call_ok [OF ok, of t a] by (auto simp: thread_step_def)
next
  case (Loading c)
  then show ?thesis using read_source_ok [OF ok, of t c] by (auto simp: thread_step_def)
next
  case (Testing c h)
  have p: "seen (of_call c (free_head s) (stack_head s)) h"
      "case top_node h of None \<Rightarrow> last_event t s = Some (fst (failure c)) | Some n \<Rightarrow> n < maxsize s"
    using lstack_okD(1) [OF ok, of t] Testing by simp_all
  show ?thesis
  proof (cases "top_node h")
    case None
    have "lstack_ok (goto t (Answered (snd (failure c))) s) fs ss (Suc N)"
      by (rule goto_ok [OF ok]) (use Testing None p in \<open>cases c; auto\<close>)+
    then show ?thesis using Testing None by (auto simp: thread_step_def)
  next
    case (Some n)
    have "lstack_ok (goto t (Swapping c h n (node_next s n)) s) fs ss (Suc N)"
      by (rule goto_ok [OF ok]) (use Testing Some p in auto)
    then show ?thesis using Testing Some p(2) by (auto simp: thread_step_def deref_node_def)
  qed
next
  case (Swapping c h n q)
  have p: "seen (source_head c s) h" "top_node h = Some n" "h = source_head c s \<longrightarrow> q = node_next s n"
    using lstack_okD(1) [OF ok, of t] Swapping by (simp_all add: source_of_call)
  show ?thesis
  proof (cases "a \<noteq> Fail \<and> same_head (source_head c s) h")
    case True
    have "aba_tag (source_head c s) < 2 ^ 64" using lstack_okD(3,4) [OF ok] N by (cases c) simp_all
    then have h: "h = source_head c s" using same_headD [OF _ p(1)] True by simp
    then show ?thesis using swap_source_ok [OF ok, of t c n] p Swapping True by (auto simp: thread_step_def)
  next
    case False
    then have "thread_step s t a = Inr (read_source t c s)" using Swapping by (auto simp: thread_step_def)
    then show ?thesis using read_source_ok [OF ok, of t c] Swapping by auto
  qed
next
  case (Took c n)
  have p: "of_call c True (last_event t s = Some (Ev_Pop (node_value s n)))" using lstack_okD(1) [OF ok, of t] Took by simp
  have d: "deref_node s n = Inr ()" using deref_ok [OF _ ok, of t n] Took by simp
  show ?thesis
  proof (cases c)
    case (Push v)
    have "lstack_ok (goto t (Giving c n v) (s\<lparr>node_value := (node_value s)(n := v)\<rparr>)) fs ss (Suc N)"
      by (rule keeps_lists [OF ok, where t = t and p = "Giving c n v"])
        (use Took Push lstack_okD(5) [OF ok] in \<open>auto simp: goto_def last_event_def carries_def\<close>)
    then show ?thesis using Took Push d by (auto simp: thread_step_def)
  next
    case Pop
    have "lstack_ok (goto t (Sized n) (s\<lparr>lsize := lsize s - 1\<rparr>)) fs ss (Suc N)"
      by (rule keeps_lists [OF ok, where t = t and p = "Sized n"])
        (use Took Pop p lstack_okD(5) [OF ok] in \<open>auto simp: goto_def last_event_def\<close>)
    then show ?thesis using Took Pop by (auto simp: thread_step_def)
  qed
next
  case (Sized n)
  have "lstack_ok (goto t (Giving Pop n (node_value s n)) s) fs ss (Suc N)"
    by (rule goto_ok [OF ok]) (use Sized lstack_okD(1) [OF ok, of t] in \<open>auto simp: carries_def\<close>)
  then show ?thesis using deref_ok [OF _ ok, of t n] Sized by (auto simp: thread_step_def)
next
  case (Giving c n v)
  have "lstack_ok (goto t (Linking c n v (target_head c s)) s) fs ss (Suc N)"
    by (rule goto_ok [OF ok]) (use Giving lstack_okD(1) [OF ok, of t] in \<open>auto simp: target_of_call\<close>)
  then show ?thesis using Giving by (auto simp: thread_step_def)
next
  case (Linking c n v h)
  have "lstack_ok (goto t (Exchanging c n v h) (s\<lparr>node_next := (node_next s)(n := top_node h)\<rparr>)) fs ss (Suc N)"
    by (rule keeps_lists [OF ok, where t = t and p = "Exchanging c n v h"])
      (use Linking lstack_okD(1) [OF ok, of t] lstack_okD(5) [OF ok] in \<open>auto simp: goto_def last_event_def\<close>)
  then show ?thesis using deref_ok [OF _ ok, of t n] Linking by (auto simp: thread_step_def)
next
  case (Exchanging c n v h)
  have p: "seen (target_head c s) h" using lstack_okD(1) [OF ok, of t] Exchanging by (simp add: target_of_call)
  show ?thesis
  proof (cases "a \<noteq> Fail \<and> same_head (target_head c s) h")
    case True
    have "aba_tag (target_head c s) < 2 ^ 64" using lstack_okD(3,4) [OF ok] N by (cases c) simp_all
    then have h: "h = target_head c s" using same_headD [OF _ p] True by simp
    then show ?thesis using swap_target_ok [OF ok, of t c n v] Exchanging True by (auto simp: thread_step_def)
  next
    case False
    have "lstack_ok (goto t (Linking c n v (target_head c s)) s) fs ss (Suc N)"
      by (rule goto_ok [OF ok]) (use Exchanging lstack_okD(1) [OF ok, of t] in \<open>auto simp: target_of_call\<close>)
    then show ?thesis using Exchanging False by (auto simp: thread_step_def)
  qed
next
  case (Counting v)
  have "lstack_ok (goto t (Answered (Pushed True)) (s\<lparr>lsize := lsize s + 1\<rparr>)) fs ss (Suc N)"
    by (rule keeps_lists [OF ok, where t = t and p = "Answered (Pushed True)"])
      (use Counting lstack_okD(1) [OF ok, of t] lstack_okD(5) [OF ok] in \<open>auto simp: goto_def last_event_def\<close>)
  then show ?thesis using Counting by (auto simp: thread_step_def)
qed

section \<open>Calls and their effects\<close>

fun fits :: "'a call \<Rightarrow> 'a event \<Rightarrow> bool" where
  "fits (Push v) e \<longleftrightarrow> e = Ev_Push v \<or> e = Ev_Full"
| "fits Pop e \<longleftrightarrow> e = Ev_Empty \<or> (\<exists>v. e = Ev_Pop v)"

text \<open>The events of one thread alternate between a call and an effect that fits it; the call that is open.\<close>

fun track :: "'a event list \<Rightarrow> 'a call option \<Rightarrow> 'a call option option" where
  "track [] st = Some st"
| "track (e # es) None = (case e of Ev_Call c \<Rightarrow> track es (Some c) | _ \<Rightarrow> None)"
| "track (e # es) (Some c) = (if fits c e then track es None else None)"

lemma track_append: "track (es @ fs) st = (case track es st of None \<Rightarrow> None | Some st' \<Rightarrow> track fs st')"
  by (induction es st rule: track.induct) (auto split: event.splits)

definition events_of :: "nat \<Rightarrow> 'a lstack \<Rightarrow> 'a event list" where
  "events_of t s = map snd (filter (\<lambda>e. fst e = t) (history s))"

fun pending :: "'a place \<Rightarrow> 'a call option" where
  "pending (Loading c) = Some c"
| "pending (Testing c h) = (if top_node h = None then None else Some c)"
| "pending (Swapping c h n q) = Some c"
| "pending (Took c n) = of_call c (Some c) None"
| "pending (Giving c n v) = of_call c (Some c) None"
| "pending (Linking c n v h) = of_call c (Some c) None"
| "pending (Exchanging c n v h) = of_call c (Some c) None"
| "pending _ = None"

definition calls_ok :: "'a lstack \<Rightarrow> bool" where
  "calls_ok s \<longleftrightarrow> (\<forall>t. track (events_of t s) None = Some (pending (places s t)))"

lemma events_of_simps [simp]:
  "events_of u (goto t p s) = events_of u s"
  "events_of u (note_event t e s) = (if u = t then events_of u s @ [e] else events_of u s)"
  "events_of u (s\<lparr>stack_head := h\<rparr>) = events_of u s" "events_of u (s\<lparr>free_head := h\<rparr>) = events_of u s"
  "events_of u (s\<lparr>node_value := val\<rparr>) = events_of u s" "events_of u (s\<lparr>node_next := nx\<rparr>) = events_of u s"
  "events_of u (s\<lparr>lsize := w\<rparr>) = events_of u s"
  by (simp_all add: events_of_def goto_def note_event_def)

lemma places_simps [simp]:
  "places (goto t p s) = (places s)(t := p)" "places (note_event t e s) = places s"
  by (simp_all add: goto_def note_event_def)

lemma calls_same:
  assumes "calls_ok s" and "\<forall>u. events_of u s' = events_of u s" and "places s' = (places s)(t := p)"
    and "pending p = pending (places s t)"
  shows "calls_ok s'"
  using assms by (simp add: calls_ok_def)

lemma calls_note:
  assumes "calls_ok s" and "events_of t s' = events_of t s @ [e]" and "\<forall>u. u \<noteq> t \<longrightarrow> events_of u s' = events_of u s"
    and "places s' = (places s)(t := p)" and "track [e] (pending (places s t)) = Some (pending p)"
  shows "calls_ok s'"
  using assms by (auto simp: calls_ok_def track_append)

lemma fits_failure [simp]: "fits c (fst (failure c))"
  by (cases c) simp_all

lemma calls_read_source:
  assumes "calls_ok s" and "pending (places s t) = Some c"
  shows "calls_ok (read_source t c s)"
proof (cases "top_node (source_head c s)")
  case None
  show ?thesis
    by (rule calls_note [OF assms(1), where t = t and e = "fst (failure c)" and p = "Testing c (source_head c s)"])
      (use None assms(2) in \<open>simp_all add: read_source_def\<close>)
next
  case (Some n)
  show ?thesis
    by (rule calls_same [OF assms(1), where t = t and p = "Testing c (source_head c s)"])
      (use Some assms(2) in \<open>simp_all add: read_source_def\<close>)
qed

lemma calls_begin:
  assumes "calls_ok s" and "pending (places s t) = None"
  shows "calls_ok (begin_call t a s)"
proof (cases a)
  case (Begin c)
  show ?thesis
    by (rule calls_note [OF assms(1), where t = t and e = "Ev_Call c" and p = "Loading c"]) (use assms(2) Begin in simp_all)
qed (use assms in simp_all)

lemma calls_swap_source:
  assumes "calls_ok s" and "pending (places s t) = Some c"
  shows "calls_ok (swap_source t c n q s)"
proof (cases c)
  case (Push v)
  show ?thesis
    by (rule calls_same [OF assms(1), where t = t and p = "Took c n"]) (use assms(2) Push in \<open>simp_all add: swap_source_def\<close>)
next
  case Pop
  show ?thesis
    by (rule calls_note [OF assms(1), where t = t and e = "Ev_Pop (node_value s n)" and p = "Took c n"])
      (use assms(2) Pop in \<open>simp_all add: swap_source_def\<close>)
qed

lemma calls_swap_target:
  assumes "calls_ok s" and "pending (places s t) = of_call c (Some c) None" and "of_call c (c = Push v) True"
  shows "calls_ok (swap_target t c n v s)"
proof (cases c)
  case (Push w)
  show ?thesis
    by (rule calls_note [OF assms(1), where t = t and e = "Ev_Push v" and p = "Counting v"])
      (use assms(2,3) Push in \<open>simp_all add: swap_target_def\<close>)
next
  case Pop
  show ?thesis
    by (rule calls_same [OF assms(1), where t = t and p = "Answered (Popped (Some v))"])
      (use assms(2) Pop in \<open>simp_all add: swap_target_def\<close>)
qed

lemma thread_step_calls:
  assumes c: "calls_ok s" and ok: "lstack_ok s fs ss N" and step: "thread_step s t a = Inr s'"
  shows "calls_ok s'"
proof -
  have quiet: "calls_ok s'" if "s' = goto t p s1" "\<forall>u. events_of u s1 = events_of u s" "places s1 = places s" "pending p = pending (places s t)" for p s1
    by (rule calls_same [OF c, where t = t and p = p]) (use that in simp_all)
  show ?thesis
  proof (cases "places s t")
    case Idle
    then show ?thesis using calls_begin [OF c, of t a] step by (simp add: thread_step_def)
  next
    case (Answered r)
    then show ?thesis using calls_begin [OF c, of t a] step by (simp add: thread_step_def)
  next
    case (Loading c')
    then show ?thesis using calls_read_source [OF c, of t c'] step by (simp add: thread_step_def)
  next
    case (Testing c' h)
    then show ?thesis using step quiet by (auto simp: thread_step_def rbind_Inr_iff split: option.splits)
  next
    case (Swapping c' h n q)
    then show ?thesis
      using step calls_read_source [OF c, of t c'] calls_swap_source [OF c, of t c' n q] by (auto simp: thread_step_def split: if_splits)
  next
    case (Took c' n)
    then show ?thesis using step quiet by (cases c') (auto simp: thread_step_def rbind_Inr_iff)
  next
    case (Sized n)
    then show ?thesis using step quiet by (auto simp: thread_step_def rbind_Inr_iff)
  next
    case (Giving c' n v)
    then show ?thesis using step quiet by (auto simp: thread_step_def)
  next
    case (Linking c' n v h)
    then show ?thesis using step quiet by (auto simp: thread_step_def rbind_Inr_iff)
  next
    case (Exchanging c' n v h)
    then have "of_call c' (c' = Push v) True" using lstack_okD(1) [OF ok, of t] by (cases c') (simp_all add: carries_def)
    then show ?thesis
      using step quiet Exchanging calls_swap_target [OF c, of t c' v n] by (auto simp: thread_step_def split: if_splits)
  next
    case (Counting v)
    then show ?thesis using step quiet by (auto simp: thread_step_def)
  qed
qed

section \<open>Runs\<close>

definition all_ok :: "nat \<Rightarrow> 'a lstack \<Rightarrow> bool" where
  "all_ok N s \<longleftrightarrow> (\<exists>fs ss. lstack_ok s fs ss N) \<and> calls_ok s"

lemma new_ok:
  assumes "lstack_new m junk = Inr s"
  shows "all_ok 0 s"
proof -
  have m: "0 < m" using assms by (auto simp: lstack_new_def split: if_splits)
  then have "lstack_ok s [0..<m] [] 0"
    using assms chain_upto [of 0 m] by (auto simp: lstack_new_def lstack_ok_def split: if_splits)
  moreover have "calls_ok s" using assms by (auto simp: lstack_new_def calls_ok_def events_of_def split: if_splits)
  ultimately show ?thesis by (auto simp: all_ok_def)
qed

lemma lstack_step_ok:
  assumes "all_ok N s" and "N < 2 ^ 64"
  shows "\<exists>s'. lstack_step s ta = Inr s' \<and> all_ok (Suc N) s'"
proof -
  obtain fs ss where ok: "lstack_ok s fs ss N" and c: "calls_ok s" using assms(1) by (auto simp: all_ok_def)
  from thread_step_ok [OF ok assms(2)] obtain s' fs' ss' where
    "thread_step s (fst ta) (snd ta) = Inr s'" "lstack_ok s' fs' ss' (Suc N)" by blast
  then show ?thesis using thread_step_calls [OF c ok] by (auto simp: all_ok_def lstack_step_def)
qed

lemma lstack_run_ok:
  "all_ok N s \<Longrightarrow> N + length acts \<le> 2 ^ 64 \<Longrightarrow> \<exists>s'. rfold lstack_step acts s = Inr s' \<and> all_ok (N + length acts) s'"
proof (induction acts arbitrary: N s)
  case (Cons a acts)
  obtain s1 where "lstack_step s a = Inr s1" "all_ok (Suc N) s1" using lstack_step_ok [OF Cons.prems(1), of a] Cons.prems(2) by auto
  then show ?case using Cons.IH [of "Suc N" s1] Cons.prems(2) by simp
qed simp

section \<open>The counter\<close>

definition popped_place :: "'a place \<Rightarrow> bool" where
  "popped_place p \<longleftrightarrow> (\<exists>n. p = Took Pop n)"

definition counting_place :: "'a place \<Rightarrow> bool" where
  "counting_place p \<longleftrightarrow> (\<exists>v. p = Counting v)"

definition threads_at :: "('a place \<Rightarrow> bool) \<Rightarrow> 'a lstack \<Rightarrow> nat" where
  "threads_at P s = card {t. P (places s t)}"

definition stack_of :: "'a lstack \<Rightarrow> 'a list" where
  "stack_of s = the (replay (map snd (history s)) [])"

definition size_ok :: "'a lstack \<Rightarrow> bool" where
  "size_ok s \<longleftrightarrow> finite {t. places s t \<noteq> Idle} \<and>
     lsize s + of_nat (threads_at counting_place s) = of_nat (length (stack_of s) + threads_at popped_place s)"

lemma threads_at_upd:
  assumes "finite {t. places s t \<noteq> Idle}" and "\<not> P Idle" and "places s' = (places s)(t := p)"
  shows "threads_at P s' + (if P (places s t) then 1 else 0) = threads_at P s + (if P p then 1 else 0)"
proof -
  let ?A = "{u. P (places s u)}"
  have "?A \<subseteq> {t. places s t \<noteq> Idle}" using assms(2) by auto
  then have fin: "finite ?A" using assms(1) finite_subset by blast
  have "{u. P (places s' u)} = (if P p then insert t (?A - {t}) else ?A - {t})" using assms(3) by auto
  then show ?thesis using fin by (auto simp: threads_at_def card_insert_if card_Diff_singleton_if)
      (metis One_nat_def Suc_pred card_gt_0_iff empty_iff mem_Collect_eq)+
qed

lemma stack_of_ok: "lstack_ok s fs ss N \<Longrightarrow> replay (map snd (history s)) [] = Some (stack_of s)"
  using lstack_okD(5) [of s fs ss N] by (simp add: stack_of_def)

lemma finite_upd: "finite {t. places s t \<noteq> Idle} \<Longrightarrow> places s' = (places s)(t := p) \<Longrightarrow> finite {t. places s' t \<noteq> Idle}"
  by (rule finite_subset [of _ "insert t {t. places s t \<noteq> Idle}"]) auto

text \<open>What a step does to the number of elements and to the counter, seen from the places.\<close>

lemma word_balance:
  fixes l :: "64 word"
  assumes "l' + n + a + b = l + n' + c + d" and "l + x = n + y"
  shows "l' + (x + a - d) = n' + (y + c - b)"
proof -
  have "l' + (x + a - d) = (l' + n + a + b) + x - d - n - b" by (simp add: algebra_simps)
  also have "\<dots> = (l + x) + n' + c - n - b" unfolding assms(1) by (simp add: algebra_simps)
  also have "\<dots> = n' + (y + c - b)" unfolding assms(2) by (simp add: algebra_simps)
  finally show ?thesis .
qed

lemma size_step:
  assumes "size_ok s" and "places s' = (places s)(t := p)"
    and "lsize s' + of_nat (length (stack_of s) + (if counting_place p then 1 else 0) + (if popped_place (places s t) then 1 else 0)) =
      lsize s + of_nat (length (stack_of s') + (if popped_place p then 1 else 0) + (if counting_place (places s t) then 1 else 0))"
  shows "size_ok s'"
proof -
  have fin: "finite {t. places s t \<noteq> Idle}" using assms(1) by (simp add: size_ok_def)
  let ?c = "threads_at counting_place s" and ?p = "threads_at popped_place s"
  let ?c' = "threads_at counting_place s'" and ?p' = "threads_at popped_place s'"
  let ?oc = "if counting_place (places s t) then 1 else 0 :: nat" and ?op = "if popped_place (places s t) then 1 else 0 :: nat"
  let ?nc = "if counting_place p then 1 else 0 :: nat" and ?np = "if popped_place p then 1 else 0 :: nat"
  have c: "?c' + ?oc = ?c + ?nc" by (rule threads_at_upd [OF fin _ assms(2)]) (simp add: counting_place_def)
  have pp: "?p' + ?op = ?p + ?np" by (rule threads_at_upd [OF fin _ assms(2)]) (simp add: popped_place_def)
  have c64: "(of_nat ?c' :: 64 word) = of_nat ?c + of_nat ?nc - of_nat ?oc" using arg_cong [OF c, of "of_nat :: nat \<Rightarrow> 64 word"] by (simp add: algebra_simps)
  have p64: "(of_nat ?p' :: 64 word) = of_nat ?p + of_nat ?np - of_nat ?op" using arg_cong [OF pp, of "of_nat :: nat \<Rightarrow> 64 word"] by (simp add: algebra_simps)
  have old: "lsize s + of_nat ?c = of_nat (length (stack_of s)) + of_nat ?p" using assms(1) by (simp add: size_ok_def)
  have "lsize s' + of_nat (length (stack_of s)) + of_nat ?nc + of_nat ?op = lsize s + of_nat (length (stack_of s')) + of_nat ?np + of_nat ?oc"
    using assms(3) by (simp only: of_nat_add) (simp add: algebra_simps)
  then have "lsize s' + of_nat ?c' = of_nat (length (stack_of s')) + of_nat ?p'"
    unfolding c64 p64 using old by (rule word_balance)
  then show ?thesis using finite_upd [OF fin assms(2)] by (simp add: size_ok_def)
qed

lemma stack_of_quiet: "history s' = history s \<Longrightarrow> stack_of s' = stack_of s"
  by (simp add: stack_of_def)

lemma stack_of_note:
  assumes "lstack_ok s fs ss N" and "lstack_ok s' fs' ss' M" and "history s' = history s @ [(t, e)]"
  shows "replay [e] (stack_of s) = Some (stack_of s')"
  using stack_of_ok [OF assms(1)] stack_of_ok [OF assms(2)] assms(3) by (simp add: replay_append)

lemmas place_defs = popped_place_def counting_place_def goto_def note_event_def

lemma size_read_source:
  assumes s: "size_ok s" and "lstack_ok s fs ss N" and "lstack_ok (read_source t c s) fs' ss' M"
    and "\<not> popped_place (places s t)" and "\<not> counting_place (places s t)"
  shows "size_ok (read_source t c s)"
proof (rule size_step [OF s, where t = t and p = "Testing c (source_head c s)"])
  have "stack_of (read_source t c s) = stack_of s"
  proof (cases "top_node (source_head c s)")
    case None
    then have h: "history (read_source t c s) = history s @ [(t, fst (failure c))]" by (simp add: read_source_def goto_def note_event_def)
    show ?thesis using stack_of_note [OF assms(2,3) h] by (cases c) (auto split: if_splits)
  next
    case (Some n)
    then show ?thesis by (intro stack_of_quiet) (simp add: read_source_def goto_def)
  qed
  moreover have "lsize (read_source t c s) = lsize s" by (simp add: read_source_def goto_def note_event_def Let_def)
  ultimately show "lsize (read_source t c s) +
      of_nat (length (stack_of s) + (if counting_place (Testing c (source_head c s)) then 1 else 0) + (if popped_place (places s t) then 1 else 0)) =
    lsize s +
      of_nat (length (stack_of (read_source t c s)) + (if popped_place (Testing c (source_head c s)) then 1 else 0) + (if counting_place (places s t) then 1 else 0))"
    using assms(4,5) by (simp add: place_defs)
qed (simp add: read_source_def Let_def)

lemma thread_step_size:
  assumes s: "size_ok s" and ok: "lstack_ok s fs ss N" and ok': "lstack_ok s' fs' ss' M" and step: "thread_step s t a = Inr s'"
  shows "size_ok s'"
proof -
  have quiet: "size_ok s'" if "s' = goto t p s1" "history s1 = history s" "places s1 = places s" "\<not> popped_place p" "\<not> counting_place p"
    "lsize s1 + of_nat (if popped_place (places s t) then 1 else 0) = lsize s + of_nat (if counting_place (places s t) then 1 else 0)" for p s1
  proof (rule size_step [OF s, where t = t and p = p])
    have "stack_of s' = stack_of s" using that(1,2) by (intro stack_of_quiet) (simp add: goto_def)
    then show "lsize s' + of_nat (length (stack_of s) + (if counting_place p then 1 else 0) + (if popped_place (places s t) then 1 else 0)) =
      lsize s + of_nat (length (stack_of s') + (if popped_place p then 1 else 0) + (if counting_place (places s t) then 1 else 0))"
      using that by (auto simp: goto_def algebra_simps)
  qed (use that in simp)
  have begins: "size_ok (begin_call t a s)" if "\<not> popped_place (places s t)" "\<not> counting_place (places s t)"
  proof (cases a)
    case (Begin c)
    have "stack_of (begin_call t a s) = stack_of s"
      using lstack_okD(5) [OF ok] Begin by (simp add: stack_of_def goto_def note_event_def replay_append)
    then show ?thesis
      by (intro size_step [OF s, where t = t and p = "Loading c"]) (use Begin that in \<open>simp_all add: place_defs\<close>)
  qed (use s in simp_all)
  show ?thesis
  proof (cases "places s t")
    case Idle
    then show ?thesis using begins step by (simp add: thread_step_def place_defs)
  next
    case (Answered r)
    then show ?thesis using begins step by (simp add: thread_step_def place_defs)
  next
    case (Loading c)
    then have s': "s' = read_source t c s" using step by (simp add: thread_step_def)
    show ?thesis using size_read_source [OF s ok ok' [unfolded s']] Loading s' by (simp add: place_defs)
  next
    case (Testing c h)
    then show ?thesis using step quiet by (auto simp: thread_step_def rbind_Inr_iff place_defs split: option.splits)
  next
    case (Swapping c h n q)
    show ?thesis
    proof (cases "a \<noteq> Fail \<and> same_head (source_head c s) h")
      case False
      then have s': "s' = read_source t c s" using step Swapping by (auto simp: thread_step_def)
      show ?thesis using size_read_source [OF s ok ok' [unfolded s']] Swapping s' by (simp add: place_defs)
    next
      case True
      then have s': "s' = swap_source t c n q s" using step Swapping by (simp add: thread_step_def)
      show ?thesis
      proof (cases c)
        case (Push v)
        then show ?thesis using s' Swapping quiet by (auto simp: swap_source_def place_defs)
      next
        case Pop
        have "replay [Ev_Pop (node_value s n)] (stack_of s) = Some (stack_of s')"
          using s' Pop by (intro stack_of_note [OF ok ok', where t = t]) (simp add: swap_source_def goto_def note_event_def)
        then have "length (stack_of s) = length (stack_of s') + 1" by (auto split: list.splits if_splits)
        then show ?thesis
          by (intro size_step [OF s, where t = t and p = "Took Pop n"]) (use s' Pop Swapping in \<open>simp_all add: swap_source_def place_defs\<close>)
      qed
    qed
  next
    case (Took c n)
    then show ?thesis using step quiet by (cases c) (auto simp: thread_step_def rbind_Inr_iff place_defs)
  next
    case (Sized n)
    then show ?thesis using step quiet by (auto simp: thread_step_def rbind_Inr_iff place_defs)
  next
    case (Giving c n v)
    then show ?thesis using step quiet by (auto simp: thread_step_def place_defs)
  next
    case (Linking c n v h)
    then show ?thesis using step quiet by (auto simp: thread_step_def rbind_Inr_iff place_defs)
  next
    case (Exchanging c n v h)
    show ?thesis
    proof (cases "(a \<noteq> Fail \<and> same_head (target_head c s) h) \<and> c \<noteq> Pop")
      case False
      then show ?thesis using step Exchanging quiet by (cases c) (auto simp: thread_step_def swap_target_def place_defs split: if_splits)
    next
      case True
      then have s': "s' = swap_target t c n v s" using step Exchanging by (simp add: thread_step_def)
      obtain w where c: "c = Push w" using True by (cases c) auto
      have "replay [Ev_Push v] (stack_of s) = Some (stack_of s')"
        using s' c by (intro stack_of_note [OF ok ok', where t = t]) (simp add: swap_target_def goto_def note_event_def)
      then have "stack_of s' = v # stack_of s" by simp
      then have "length (stack_of s') = length (stack_of s) + 1" by simp
      then show ?thesis
        by (intro size_step [OF s, where t = t and p = "Counting v"]) (use s' c Exchanging in \<open>simp_all add: swap_target_def place_defs\<close>)
    qed
  next
    case (Counting v)
    then show ?thesis using step quiet by (auto simp: thread_step_def place_defs)
  qed
qed

lemma run_size_ok:
  "all_ok N s \<Longrightarrow> size_ok s \<Longrightarrow> N + length acts \<le> 2 ^ 64 \<Longrightarrow> rfold lstack_step acts s = Inr s' \<Longrightarrow> size_ok s'"
proof (induction acts arbitrary: N s)
  case (Cons a acts)
  obtain s1 where s1: "lstack_step s a = Inr s1" "all_ok (Suc N) s1" using lstack_step_ok [OF Cons.prems(1), of a] Cons.prems(3) by auto
  then have "size_ok s1"
    using Cons.prems(1,2) thread_step_size [of s _ _ N s1] by (auto simp: all_ok_def lstack_step_def)
  then show ?case using Cons.IH [OF s1(2)] Cons.prems(3,4) s1(1) by simp
qed simp

lemma new_size_ok: "lstack_new m junk = Inr s \<Longrightarrow> size_ok s"
  by (auto simp: lstack_new_def size_ok_def stack_of_def threads_at_def place_defs split: if_splits)

section \<open>A thread alone\<close>

text \<open>How many steps a call still takes when no other thread moves.\<close>

fun work :: "'a lstack \<Rightarrow> 'a place \<Rightarrow> nat" where
  "work s Idle = 0"
| "work s (Answered r) = 0"
| "work s (Counting v) = 1"
| "work s (Exchanging c n v h) = (if same_head (target_head c s) h then 2 else 4)"
| "work s (Linking c n v h) = (if same_head (target_head c s) h then 3 else 5)"
| "work s (Giving c n v) = 4"
| "work s (Sized n) = 5"
| "work s (Took c n) = 6"
| "work s (Swapping c h n q) = (if same_head (source_head c s) h then 7 else 9)"
| "work s (Testing c h) = (if same_head (source_head c s) h then 8 else 10)"
| "work s (Loading c) = 9"

lemma same_head_refl [simp]: "same_head h h"
  by (simp add: same_head_def)

lemma heads_simps [simp]:
  "source_head c (goto t p s) = source_head c s" "target_head c (goto t p s) = target_head c s"
  "source_head c (note_event t e s) = source_head c s" "target_head c (note_event t e s) = target_head c s"
  "source_head c (s\<lparr>node_value := val\<rparr>) = source_head c s" "target_head c (s\<lparr>node_value := val\<rparr>) = target_head c s"
  "source_head c (s\<lparr>node_next := nx\<rparr>) = source_head c s" "target_head c (s\<lparr>node_next := nx\<rparr>) = target_head c s"
  "source_head c (s\<lparr>lsize := w\<rparr>) = source_head c s" "target_head c (s\<lparr>lsize := w\<rparr>) = target_head c s"
  by (cases c; simp add: goto_def note_event_def)+

lemma work_decreases:
  assumes "thread_step s t Go = Inr s'"
  shows "work s' (places s' t) \<le> work s (places s t) - 1" and "(places s' t = Idle) = (places s t = Idle)"
proof -
  have read: "places (read_source t c s) t = Testing c (source_head c s) \<and> source_head c (read_source t c s) = source_head c s" for c
    by (simp add: read_source_def Let_def)
  have "work s' (places s' t) \<le> work s (places s t) - 1 \<and> (places s' t = Idle) = (places s t = Idle)"
    using assms read
    by (cases "places s t")
      (auto simp: thread_step_def rbind_Inr_iff swap_source_def swap_target_def Let_def split: option.splits call.splits if_splits)
  then show "work s' (places s' t) \<le> work s (places s t) - 1" "(places s' t = Idle) = (places s t = Idle)" by simp_all
qed

lemma work_bound: "work s p \<le> 10"
  by (cases p) auto

lemma solo_run:
  "all_ok N s \<Longrightarrow> N + k \<le> 2 ^ 64 \<Longrightarrow> \<exists>s'. rfold lstack_step (replicate k (t, Go)) s = Inr s' \<and>
    work s' (places s' t) \<le> work s (places s t) - k \<and> (places s' t = Idle) = (places s t = Idle)"
proof (induction k arbitrary: N s)
  case (Suc k)
  obtain s1 where s1: "lstack_step s (t, Go) = Inr s1" "all_ok (Suc N) s1" using lstack_step_ok [OF Suc.prems(1), of "(t, Go)"] Suc.prems(2) by auto
  have w: "work s1 (places s1 t) \<le> work s (places s t) - 1" "(places s1 t = Idle) = (places s t = Idle)"
    using s1(1) work_decreases [of s t s1] by (simp_all add: lstack_step_def)
  from Suc.IH [OF s1(2)] Suc.prems(2) obtain s' where "rfold lstack_step (replicate k (t, Go)) s1 = Inr s'"
    "work s' (places s' t) \<le> work s1 (places s1 t) - k" "(places s' t = Idle) = (places s1 t = Idle)" by auto
  then show ?case using s1(1) w by auto
qed simp

lemma work_zero: "work s p = 0 \<longleftrightarrow> p = Idle \<or> (\<exists>r. p = Answered r)"
  by (cases p) auto

section \<open>Properties\<close>

text \<open>
  What an answer says is what the last event of the thread says.
\<close>

definition explains :: "'a event option \<Rightarrow> 'a answer \<Rightarrow> bool" where
  "explains ev r \<longleftrightarrow> (case r of
     Pushed b \<Rightarrow> if b then (\<exists>v. ev = Some (Ev_Push v)) else ev = Some Ev_Full
   | Popped (Some v) \<Rightarrow> ev = Some (Ev_Pop v)
   | Popped None \<Rightarrow> ev = Some Ev_Empty)"

text \<open>
  Property C6. The lock-free stack is linearizable: every run of up to \<open>2 ^ 64\<close> steps of any threads stays inside
  the nodes and has a history in which each call takes effect once between its begin and its answer,
  the effects in their order are operations of one stack - what is popped is the top, and it is empty
  when a \<open>Pop\<close> fails - and every answer is that of its effect.
\<close>

theorem lstack_linearizable:
  assumes "lstack_new m junk = Inr s0" and "length acts \<le> 2 ^ 64"
  shows "\<exists>s stack. rfold lstack_step acts s0 = Inr s \<and> replay (map snd (history s)) [] = Some stack \<and>
    (\<forall>t. track (events_of t s) None = Some (pending (places s t))) \<and>
    (\<forall>t r. places s t = Answered r \<longrightarrow> explains (last_event t s) r)"
proof -
  obtain s where s: "rfold lstack_step acts s0 = Inr s" "all_ok (length acts) s"
    using lstack_run_ok [OF new_ok [OF assms(1)], of acts] assms(2) by auto
  then obtain fs ss where ok: "lstack_ok s fs ss (length acts)" "calls_ok s" by (auto simp: all_ok_def)
  have "explains (last_event t s) r" if "places s t = Answered r" for t r
    using lstack_okD(1) [OF ok(1), of t] that by (simp add: explains_def)
  then show ?thesis using s(1) lstack_okD(5) [OF ok(1)] ok(2) by (auto simp: calls_ok_def)
qed

definition sample_acts :: "(nat \<times> nat action) list" where
  "sample_acts = (1, Begin (Push 7)) # replicate 8 (1, Go) @ (2, Begin Pop) # replicate 4 (2, Go)"

theorem lstack_linearizable_witness:
  "\<exists>s stack. rfold lstack_step sample_acts \<lparr>maxsize = 2, node_value = (\<lambda>_. 0), node_next = (\<lambda>i. if i < 2 - 1 then Some (i + 1) else None),
      stack_head = \<lparr>aba_tag = 0, top_node = None\<rparr>, free_head = \<lparr>aba_tag = 0, top_node = Some 0\<rparr>,
      lsize = 0, places = (\<lambda>_. Idle), history = []\<rparr> = Inr s \<and> replay (map snd (history s)) [] = Some stack"
  using lstack_linearizable [of 2 "\<lambda>_. 0 :: nat" _ sample_acts] by (force simp: lstack_new_def sample_acts_def)

text \<open>
  Fact. No node is lost or given out twice: after any run the two lists and the nodes that threads hold
  are all the nodes, each in one place.
\<close>

theorem lstack_nodes_partition:
  assumes "lstack_new m junk = Inr s0" and "length acts \<le> 2 ^ 64" and "rfold lstack_step acts s0 = Inr s"
  shows "\<exists>fs ss. chain (node_next s) (top_node (free_head s)) fs \<and> chain (node_next s) (top_node (stack_head s)) ss \<and>
    distinct (fs @ ss) \<and> (\<forall>n. n < m \<longleftrightarrow> n \<in> set (fs @ ss) \<or> (\<exists>t. owned (places s t) = Some n)) \<and>
    (\<forall>t u n. owned (places s t) = Some n \<longrightarrow> n \<notin> set (fs @ ss) \<and> (owned (places s u) = Some n \<longrightarrow> t = u))"
proof -
  obtain s1 where s1: "rfold lstack_step acts s0 = Inr s1" "all_ok (length acts) s1"
    using lstack_run_ok [OF new_ok [OF assms(1)], of acts] assms(2) by auto
  then obtain fs ss where ok: "lstack_ok s fs ss (length acts)" using assms(3) by (auto simp: all_ok_def)
  have "maxsize s = m"
  proof -
    have "lstack_step x a = Inr y \<Longrightarrow> maxsize x = m \<Longrightarrow> maxsize y = m" for x y :: "'a lstack" and a
      by (cases "snd a"; cases "places x (fst a)")
        (auto simp: lstack_step_def thread_step_def rbind_Inr_iff goto_def note_event_def read_source_def swap_source_def
          swap_target_def Let_def split: option.splits call.splits if_splits elim!: set_source.elims)
    moreover have "maxsize s0 = m" using assms(1) by (auto simp: lstack_new_def split: if_splits)
    ultimately show ?thesis using rfold_invariant [of "\<lambda>x. maxsize x = m" lstack_step s0 acts s] assms(3) by blast
  qed
  then show ?thesis using ok unfolding lstack_ok_def by (intro exI [of _ fs] exI [of _ ss]) blast
qed

theorem lstack_nodes_partition_witness:
  "\<exists>s. lstack_new 3 (\<lambda>_. 0 :: nat) = Inr s \<and> (\<exists>fs ss. chain (node_next s) (top_node (free_head s)) fs \<and>
    chain (node_next s) (top_node (stack_head s)) ss \<and> distinct (fs @ ss))"
proof -
  obtain s where s: "lstack_new 3 (\<lambda>_. 0 :: nat) = Inr s" by (simp add: lstack_new_def)
  show ?thesis using lstack_nodes_partition [OF s, of "[]" s] s by auto
qed

text \<open>
  Property C26. A call that is left alone ends: from any state that a run can reach, if the other threads stop and
  no exchange fails without reason, a thread inside a call has its answer after ten of its own steps.
\<close>

theorem lstack_call_alone_ends:
  assumes "lstack_new m junk = Inr s0" and "length acts + 10 \<le> 2 ^ 64" and "rfold lstack_step acts s0 = Inr s" and "places s t \<noteq> Idle"
  shows "\<exists>s' r. rfold lstack_step (replicate 10 (t, Go)) s = Inr s' \<and> places s' t = Answered r"
proof -
  obtain s1 where "rfold lstack_step acts s0 = Inr s1" "all_ok (length acts) s1"
    using lstack_run_ok [OF new_ok [OF assms(1)], of acts] assms(2) by auto
  then have "all_ok (length acts) s" using assms(3) by simp
  from solo_run [OF this assms(2), of t] obtain s' where s': "rfold lstack_step (replicate 10 (t, Go)) s = Inr s'"
    "work s' (places s' t) \<le> work s (places s t) - 10" "(places s' t = Idle) = (places s t = Idle)" by blast
  then have "work s' (places s' t) = 0" using work_bound [of s "places s t"] by simp
  then show ?thesis using s' assms(4) work_zero by metis
qed

theorem lstack_call_alone_ends_witness:
  "\<exists>s s' r. places s 1 = Swapping (Push 7) \<lparr>aba_tag = 0, top_node = Some 0\<rparr> 0 (Some 1) \<and>
     rfold lstack_step (replicate 10 (1, Go)) (s :: nat lstack) = Inr s' \<and> places s' 1 = Answered r"
proof -
  obtain s0 where s0: "lstack_new 2 (\<lambda>_. 0 :: nat) = Inr s0" by (simp add: lstack_new_def)
  obtain s where s: "rfold lstack_step [(1, Begin (Push 7)), (1, Go), (1, Go)] s0 = Inr s"
      "places s 1 = Swapping (Push 7) \<lparr>aba_tag = 0, top_node = Some 0\<rparr> 0 (Some 1)"
    using s0 by (auto simp: lstack_new_def lstack_step_def thread_step_def read_source_def goto_def note_event_def deref_node_def Let_def)
  show ?thesis using lstack_call_alone_ends [OF s0 _ s(1), of 1] s(2) by auto
qed

text \<open>
  Fact. At rest the counter is right: when no thread is inside a call, \<open>size()\<close> is the number of elements
  (modulo \<open>2 ^ 64\<close>).
\<close>

theorem lstack_size_at_rest:
  assumes "lstack_new m junk = Inr s0" and "length acts \<le> 2 ^ 64" and "rfold lstack_step acts s0 = Inr s"
    and "\<forall>t. places s t = Idle \<or> (\<exists>r. places s t = Answered r)" and "replay (map snd (history s)) [] = Some xs"
  shows "lstack_size s = of_nat (length xs)"
proof -
  have "size_ok s" using run_size_ok [OF new_ok [OF assms(1)] new_size_ok [OF assms(1)], of acts s] assms(2,3) by simp
  moreover have "{t. counting_place (places s t)} = {}" "{t. popped_place (places s t)} = {}"
    using assms(4) by (auto simp: place_defs) (metis place.distinct)+
  ultimately show ?thesis using assms(5)
    by (simp add: size_ok_def stack_of_def lstack_size_def threads_at_def)
qed

theorem lstack_size_at_rest_witness:
  "\<exists>s. lstack_new 3 (\<lambda>_. 0 :: nat) = Inr s \<and> lstack_size s = of_nat (length ([] :: nat list))"
proof -
  obtain s where s: "lstack_new 3 (\<lambda>_. 0 :: nat) = Inr s" by (simp add: lstack_new_def)
  show ?thesis using lstack_size_at_rest [OF s, of "[]" s "[]"] s by (auto simp: lstack_new_def)
qed

text \<open>
  Fact. In the middle of calls \<open>size()\<close> can be far off: the stack counts a \<open>Push\<close> only after its element can be
  popped, so a \<open>Pop\<close> that comes first takes the counter from 0 to \<open>2 ^ 64 - 1\<close>.
\<close>

definition early_pop :: "(nat \<times> nat action) list" where
  "early_pop = [(1, Begin (Push 7)), (1, Go), (1, Go), (1, Go), (1, Go), (1, Go), (1, Go), (1, Go),
     (2, Begin Pop), (2, Go), (2, Go), (2, Go), (2, Go)]"

theorem lstack_size_wraps:
  "case lstack_new 2 (\<lambda>_. 0 :: nat) of Inl e \<Rightarrow> False
   | Inr s0 \<Rightarrow> (case rfold lstack_step early_pop s0 of Inl e \<Rightarrow> False | Inr s \<Rightarrow> lstack_size s = 2 ^ 64 - 1)"
  by (simp add: lstack_new_def early_pop_def lstack_step_def thread_step_def read_source_def swap_source_def swap_target_def
      goto_def note_event_def deref_node_def Let_def lstack_size_def)

text \<open>
  Fact. The constructor needs room for one node: for a size of 0 the bound of its loop wraps around and it
  writes outside of the nodes.
\<close>

theorem lstack_of_size_zero: "lstack_new 0 junk = Inl Out_of_bounds"
  by (simp add: lstack_new_def)

text \<open>
  Fact. The link of a node is read and written at the same time: there is a run after which one thread is
  about to read the \<open>next\<close> of a node in \<open>PopHead\<close> and another one, which has popped that node, is about to
  write it in \<open>PushHead\<close>. The field is not atomic, so this is a data race; the value that is read is not
  used, since the exchange fails.
\<close>

definition racing_acts :: "(nat \<times> nat action) list" where
  "racing_acts = [(1, Begin (Push 7)), (1, Go), (1, Go), (1, Go), (1, Go), (1, Go), (1, Go), (1, Go), (1, Go),
     (2, Begin Pop), (2, Go), (1, Begin Pop), (1, Go), (1, Go), (1, Go), (1, Go), (1, Go), (1, Go)]"

definition reads_next :: "'a place \<Rightarrow> nat option" where
  "reads_next p = (case p of Testing c h \<Rightarrow> top_node h | _ \<Rightarrow> None)"

definition writes_next :: "'a place \<Rightarrow> nat option" where
  "writes_next p = (case p of Linking c n v h \<Rightarrow> Some n | _ \<Rightarrow> None)"

theorem lstack_next_is_raced:
  "case lstack_new 2 (\<lambda>_. 0 :: nat) of Inl e \<Rightarrow> False
   | Inr s0 \<Rightarrow> (case rfold lstack_step racing_acts s0 of Inl e \<Rightarrow> False
       | Inr s \<Rightarrow> reads_next (places s 2) = Some 0 \<and> writes_next (places s 1) = Some 0)"
  by (simp add: lstack_new_def racing_acts_def lstack_step_def thread_step_def read_source_def swap_source_def swap_target_def
      goto_def note_event_def deref_node_def Let_def reads_next_def writes_next_def)
end
