(* ===== verification/Two_Lock_Queue.thy ===== *)
theory Two_Lock_Queue
  imports Node_Chain
begin

text \<open>
  The queue with one lock for each end (\<open>src/ConcurrentQueue/two_lock.h\<close>) under any interleaving of its
  callers. Nodes live in an explicit store, so that using a deleted node is a fault; taking a lock, each
  access under it and deleting a node are separate steps. The theory shows that the queue is
  linearizable as a first-in first-out queue, never touches a deleted node, and leaks none.
\<close>

section \<open>The queue\<close>

datatype 'a qcall = Enqueue 'a | Dequeue

datatype 'a qanswer = Enqueued 'a | Dequeued "'a option"

text \<open>
  Where a thread is; \<open>Linking\<close> and \<open>Moving\<close> hold the lock of the tail, \<open>Testing\<close>, \<open>Reading\<close> and \<open>Advancing\<close>
  that of the head.
\<close>

datatype 'a qplace =
    Idle
  | Allocating 'a
  | Waiting_tail nat 'a
  | Linking nat 'a
  | Moving nat 'a
  | Waiting_head
  | Testing
  | Reading nat nat
  | Advancing nat nat 'a
  | Deleting nat 'a
  | Answered "'a qanswer"

datatype 'a qevent = Q_Call "'a qcall" | Q_In 'a | Q_Out 'a | Q_Nothing

record 'a tlq =
  node_value :: "nat \<Rightarrow> 'a"
  node_next :: "nat \<Rightarrow> nat option"
  live :: "nat set"
  fresh_node :: nat
  head_node :: nat
  tail_node :: nat
  head_mtx :: "nat option"
  tail_mtx :: "nat option"
  places :: "nat \<Rightarrow> 'a qplace"
  history :: "(nat \<times> 'a qevent) list"

text \<open>The constructor: one sentinel, whose value is never read.\<close>

definition tlq_new :: "(nat \<Rightarrow> 'a) \<Rightarrow> 'a tlq" where
  "tlq_new junk = \<lparr>node_value = junk, node_next = (\<lambda>_. None), live = {0}, fresh_node = 1, head_node = 0, tail_node = 0,
     head_mtx = None, tail_mtx = None, places = (\<lambda>_. Idle), history = []\<rparr>"

definition goto :: "nat \<Rightarrow> 'a qplace \<Rightarrow> 'a tlq \<Rightarrow> 'a tlq" where
  "goto t p s = s\<lparr>places := (places s)(t := p)\<rparr>"

definition note_event :: "nat \<Rightarrow> 'a qevent \<Rightarrow> 'a tlq \<Rightarrow> 'a tlq" where
  "note_event t e s = s\<lparr>history := history s @ [(t, e)]\<rparr>"

definition deref_node :: "'a tlq \<Rightarrow> nat \<Rightarrow> unit res" where
  "deref_node s n = guard (n \<in> live s) Null_deref"

text \<open>\<open>new Node(value)\<close> and \<open>delete\<close>.\<close>

definition new_node :: "'a \<Rightarrow> 'a tlq \<Rightarrow> nat \<times> 'a tlq" where
  "new_node v s = (fresh_node s, s\<lparr>node_value := (node_value s)(fresh_node s := v), node_next := (node_next s)(fresh_node s := None),
     live := insert (fresh_node s) (live s), fresh_node := fresh_node s + 1\<rparr>)"

definition delete_node :: "nat \<Rightarrow> 'a tlq \<Rightarrow> 'a tlq res" where
  "delete_node n s = rbind (deref_node s n) (\<lambda>_. Inr (s\<lparr>live := live s - {n}\<rparr>))"

fun begin_call :: "nat \<Rightarrow> 'a qcall option \<Rightarrow> 'a tlq \<Rightarrow> 'a tlq" where
  "begin_call t (Some (Enqueue v)) s = goto t (Allocating v) (note_event t (Q_Call (Enqueue v)) s)"
| "begin_call t (Some Dequeue) s = goto t Waiting_head (note_event t (Q_Call Dequeue) s)"
| "begin_call t None s = s"

text \<open>One step of a thread; a thread at rest may begin a call. Waiting for a lock that is taken does nothing.\<close>

definition tlq_step :: "'a tlq \<Rightarrow> nat \<Rightarrow> 'a qcall option \<Rightarrow> 'a tlq res" where
  "tlq_step s t call = (case places s t of
     Idle \<Rightarrow> Inr (begin_call t call s)
   | Answered r \<Rightarrow> Inr (begin_call t call s)
   | Allocating v \<Rightarrow> (let (n, s) = new_node v s in Inr (goto t (Waiting_tail n v) s))
   | Waiting_tail n v \<Rightarrow>
       if tail_mtx s = None then Inr (goto t (Linking n v) (s\<lparr>tail_mtx := Some t\<rparr>)) else Inr s
   | Linking n v \<Rightarrow>
       rbind (deref_node s (tail_node s)) (\<lambda>_.
       Inr (goto t (Moving n v) (note_event t (Q_In v) (s\<lparr>node_next := (node_next s)(tail_node s := Some n)\<rparr>))))
   | Moving n v \<Rightarrow> Inr (goto t (Answered (Enqueued v)) (s\<lparr>tail_node := n, tail_mtx := None\<rparr>))
   | Waiting_head \<Rightarrow>
       if head_mtx s = None then Inr (goto t Testing (s\<lparr>head_mtx := Some t\<rparr>)) else Inr s
   | Testing \<Rightarrow>
       rbind (deref_node s (head_node s)) (\<lambda>_. case node_next s (head_node s) of
         None \<Rightarrow> Inr (goto t (Answered (Dequeued None)) (note_event t Q_Nothing (s\<lparr>head_mtx := None\<rparr>)))
       | Some new_head \<Rightarrow> Inr (goto t (Reading new_head (head_node s)) s))
   | Reading new_head old_head \<Rightarrow>
       rbind (deref_node s new_head) (\<lambda>_. Inr (goto t (Advancing new_head old_head (node_value s new_head)) s))
   | Advancing new_head old_head v \<Rightarrow>
       Inr (goto t (Deleting old_head v) (note_event t (Q_Out v) (s\<lparr>head_node := new_head, head_mtx := None\<rparr>)))
   | Deleting old_head v \<Rightarrow>
       rbind (delete_node old_head s) (\<lambda>s. Inr (goto t (Answered (Dequeued (Some v))) s)))"

text \<open>The destructor, with fuel for the number of nodes.\<close>

fun delete_all :: "nat \<Rightarrow> nat option \<Rightarrow> 'a tlq \<Rightarrow> 'a tlq res" where
  "delete_all fuel None s = Inr s"
| "delete_all 0 (Some n) s = Inl No_return"
| "delete_all (Suc fuel) (Some n) s =
     rbind (deref_node s n) (\<lambda>_.
     let next_node = node_next s n in
     rbind (delete_node n s) (\<lambda>s. delete_all fuel next_node s))"

definition tlq_destroy :: "nat \<Rightarrow> 'a tlq \<Rightarrow> 'a tlq res" where
  "tlq_destroy fuel s = delete_all fuel (Some (head_node s)) s"

section \<open>The specification\<close>

text \<open>What an event does to a queue; an event that does not fit does nothing sensible.\<close>

fun queue_effect :: "'a list \<Rightarrow> 'a qevent \<Rightarrow> 'a list option" where
  "queue_effect xs (Q_Call c) = Some xs"
| "queue_effect xs (Q_In v) = Some (xs @ [v])"
| "queue_effect xs (Q_Out v) = (case xs of [] \<Rightarrow> None | x # xs \<Rightarrow> if x = v then Some xs else None)"
| "queue_effect xs Q_Nothing = (if xs = [] then Some [] else None)"

section \<open>The invariant\<close>

fun owned :: "'a qplace \<Rightarrow> nat option" where
  "owned (Waiting_tail n v) = Some n"
| "owned (Linking n v) = Some n"
| "owned (Deleting n v) = Some n"
| "owned _ = None"

fun holds_tail :: "'a qplace \<Rightarrow> bool" where
  "holds_tail (Linking n v) \<longleftrightarrow> True"
| "holds_tail (Moving n v) \<longleftrightarrow> True"
| "holds_tail _ \<longleftrightarrow> False"

fun holds_head :: "'a qplace \<Rightarrow> bool" where
  "holds_head Testing \<longleftrightarrow> True"
| "holds_head (Reading n m) \<longleftrightarrow> True"
| "holds_head (Advancing n m v) \<longleftrightarrow> True"
| "holds_head _ \<longleftrightarrow> False"

text \<open>What a thread knows at its place; \<open>l\<close> is the last node, \<open>ev\<close> the last event of the thread.\<close>

fun place_ok :: "(nat \<Rightarrow> 'a) \<Rightarrow> (nat \<Rightarrow> nat option) \<Rightarrow> nat \<Rightarrow> nat \<Rightarrow> 'a qevent option \<Rightarrow> 'a qplace \<Rightarrow> bool" where
  "place_ok val nx h l ev (Waiting_tail n v) \<longleftrightarrow> val n = v \<and> nx n = None"
| "place_ok val nx h l ev (Linking n v) \<longleftrightarrow> val n = v \<and> nx n = None"
| "place_ok val nx h l ev (Moving n v) \<longleftrightarrow> ev = Some (Q_In v) \<and> l = n"
| "place_ok val nx h l ev (Reading n m) \<longleftrightarrow> m = h \<and> nx h = Some n"
| "place_ok val nx h l ev (Advancing n m v) \<longleftrightarrow> m = h \<and> nx h = Some n \<and> val n = v"
| "place_ok val nx h l ev (Deleting n v) \<longleftrightarrow> ev = Some (Q_Out v)"
| "place_ok val nx h l ev (Answered r) \<longleftrightarrow> ev = Some (case r of
     Enqueued v \<Rightarrow> Q_In v
   | Dequeued None \<Rightarrow> Q_Nothing
   | Dequeued (Some v) \<Rightarrow> Q_Out v)"
| "place_ok val nx h l ev _ \<longleftrightarrow> True"

definition last_event :: "nat \<Rightarrow> 'a tlq \<Rightarrow> 'a qevent option" where
  "last_event t s = map_of (rev (history s)) t"

definition own :: "'a tlq \<Rightarrow> nat \<Rightarrow> nat option" where
  "own s = (\<lambda>t. owned (places s t))"

definition nodes_ok :: "'a tlq \<Rightarrow> nat list \<Rightarrow> bool" where
  "nodes_ok s ns \<longleftrightarrow> chain (node_next s) (node_next s (head_node s)) ns \<and> distinct (head_node s # ns) \<and>
     live s = set (head_node s # ns) \<union> ran (own s) \<and>
     ran (own s) \<inter> set (head_node s # ns) = {} \<and> inj_on (own s) (dom (own s)) \<and> live s \<subseteq> {..<fresh_node s}"

definition moving :: "'a qplace \<Rightarrow> bool" where
  "moving p \<longleftrightarrow> (case p of Moving n v \<Rightarrow> True | _ \<Rightarrow> False)"

definition locks_ok :: "'a tlq \<Rightarrow> nat list \<Rightarrow> bool" where
  "locks_ok s ns \<longleftrightarrow> (\<forall>t. holds_tail (places s t) \<longleftrightarrow> tail_mtx s = Some t) \<and> (\<forall>t. holds_head (places s t) \<longleftrightarrow> head_mtx s = Some t) \<and>
     ((\<exists>t. moving (places s t)) \<or> tail_node s = last (head_node s # ns))"

definition places_ok :: "'a tlq \<Rightarrow> nat list \<Rightarrow> bool" where
  "places_ok s ns \<longleftrightarrow>
     (\<forall>t. place_ok (node_value s) (node_next s) (head_node s) (last (head_node s # ns)) (last_event t s) (places s t))"

text \<open>The history of a thread: a call, its effect, a call, and so on.\<close>

fun fits :: "'a qcall \<Rightarrow> 'a qevent \<Rightarrow> bool" where
  "fits (Enqueue v) (Q_In w) \<longleftrightarrow> v = w"
| "fits Dequeue (Q_Out v) \<longleftrightarrow> True"
| "fits Dequeue Q_Nothing \<longleftrightarrow> True"
| "fits c e \<longleftrightarrow> False"

fun track :: "'a qevent list \<Rightarrow> 'a qcall option \<Rightarrow> 'a qcall option option" where
  "track [] st = Some st"
| "track (e # es) None = (case e of Q_Call c \<Rightarrow> track es (Some c) | _ \<Rightarrow> None)"
| "track (e # es) (Some c) = (if fits c e then track es None else None)"

lemma tlq_track_append: "track (es @ fs) st = (case track es st of None \<Rightarrow> None | Some st' \<Rightarrow> track fs st')"
  by (induction es st rule: track.induct) (auto split: qevent.splits)

definition events_of :: "nat \<Rightarrow> 'a tlq \<Rightarrow> 'a qevent list" where
  "events_of t s = map snd (filter (\<lambda>e. fst e = t) (history s))"

fun pending :: "'a qplace \<Rightarrow> 'a qcall option" where
  "pending (Allocating v) = Some (Enqueue v)"
| "pending (Waiting_tail n v) = Some (Enqueue v)"
| "pending (Linking n v) = Some (Enqueue v)"
| "pending Waiting_head = Some Dequeue"
| "pending Testing = Some Dequeue"
| "pending (Reading n m) = Some Dequeue"
| "pending (Advancing n m v) = Some Dequeue"
| "pending _ = None"

definition calls_ok :: "'a tlq \<Rightarrow> bool" where
  "calls_ok s \<longleftrightarrow> (\<forall>t. track (events_of t s) None = Some (pending (places s t)))"

definition queue_of :: "'a tlq \<Rightarrow> 'a list option" where
  "queue_of s = ofold queue_effect (map snd (history s)) []"

definition tlq_ok :: "'a tlq \<Rightarrow> nat list \<Rightarrow> bool" where
  "tlq_ok s ns \<longleftrightarrow> nodes_ok s ns \<and> locks_ok s ns \<and> places_ok s ns \<and> calls_ok s \<and> queue_of s = Some (map (node_value s) ns)"

section \<open>Steps\<close>

lemma queue_effects [simp]:
  "queue_of (goto t p s) = queue_of s"
  "queue_of (note_event t e s) = (case queue_of s of None \<Rightarrow> None | Some xs \<Rightarrow> queue_effect xs e)"
  by (simp_all add: queue_of_def goto_def note_event_def ofold_append split: option.splits)

lemma events_of_effects [simp]:
  "events_of u (goto t p s) = events_of u s"
  "events_of u (note_event t e s) = (if u = t then events_of u s @ [e] else events_of u s)"
  by (simp_all add: events_of_def goto_def note_event_def)

lemma last_event_effects [simp]:
  "last_event u (goto t p s) = last_event u s"
  "last_event u (note_event t e s) = (if u = t then Some e else last_event u s)"
  by (simp_all add: last_event_def goto_def note_event_def)

lemma goto_fields [simp]:
  "node_value (goto t p s) = node_value s" "node_next (goto t p s) = node_next s" "live (goto t p s) = live s"
  "fresh_node (goto t p s) = fresh_node s" "head_node (goto t p s) = head_node s" "tail_node (goto t p s) = tail_node s"
  "head_mtx (goto t p s) = head_mtx s" "tail_mtx (goto t p s) = tail_mtx s" "places (goto t p s) = (places s)(t := p)"
  by (simp_all add: goto_def)

lemma note_event_fields [simp]:
  "node_value (note_event t e s) = node_value s" "node_next (note_event t e s) = node_next s" "live (note_event t e s) = live s"
  "fresh_node (note_event t e s) = fresh_node s" "head_node (note_event t e s) = head_node s"
  "tail_node (note_event t e s) = tail_node s" "head_mtx (note_event t e s) = head_mtx s"
  "tail_mtx (note_event t e s) = tail_mtx s" "places (note_event t e s) = places s"
  by (simp_all add: note_event_def)

lemma history_frames [simp]:
  "queue_of (s\<lparr>node_value := a\<rparr>) = queue_of s" "queue_of (s\<lparr>node_next := b\<rparr>) = queue_of s" "queue_of (s\<lparr>live := c\<rparr>) = queue_of s" "queue_of (s\<lparr>fresh_node := d\<rparr>) = queue_of s"
  "queue_of (s\<lparr>head_node := n\<rparr>) = queue_of s" "queue_of (s\<lparr>tail_node := m\<rparr>) = queue_of s" "queue_of (s\<lparr>head_mtx := e\<rparr>) = queue_of s" "queue_of (s\<lparr>tail_mtx := f\<rparr>) = queue_of s"
  "events_of u (s\<lparr>node_value := a\<rparr>) = events_of u s" "events_of u (s\<lparr>node_next := b\<rparr>) = events_of u s" "events_of u (s\<lparr>live := c\<rparr>) = events_of u s" "events_of u (s\<lparr>fresh_node := d\<rparr>) = events_of u s"
  "events_of u (s\<lparr>head_node := n\<rparr>) = events_of u s" "events_of u (s\<lparr>tail_node := m\<rparr>) = events_of u s" "events_of u (s\<lparr>head_mtx := e\<rparr>) = events_of u s" "events_of u (s\<lparr>tail_mtx := f\<rparr>) = events_of u s"
  "last_event u (s\<lparr>node_value := a\<rparr>) = last_event u s" "last_event u (s\<lparr>node_next := b\<rparr>) = last_event u s" "last_event u (s\<lparr>live := c\<rparr>) = last_event u s" "last_event u (s\<lparr>fresh_node := d\<rparr>) = last_event u s"
  "last_event u (s\<lparr>head_node := n\<rparr>) = last_event u s" "last_event u (s\<lparr>tail_node := m\<rparr>) = last_event u s" "last_event u (s\<lparr>head_mtx := e\<rparr>) = last_event u s" "last_event u (s\<lparr>tail_mtx := f\<rparr>) = last_event u s"
  by (simp_all add: queue_of_def events_of_def last_event_def)

text \<open>The history of the calls is kept by every step.\<close>

lemma tlq_step_calls:
  assumes "calls_ok s" and "tlq_step s t call = Inr s'"
  shows "calls_ok s'"
proof -
  have start: "calls_ok (begin_call t call s)" if "pending (places s t) = None"
    using assms(1) that by (cases "(t, call, s)" rule: begin_call.cases) (auto simp: calls_ok_def tlq_track_append)
  have q: "track (events_of t s) None = Some (pending (places s t))" using assms(1) by (simp add: calls_ok_def)
  show ?thesis
    using assms start q
    by (cases "places s t")
      (auto simp: tlq_step_def new_node_def delete_node_def rbind_Inr_iff calls_ok_def tlq_track_append Let_def
        split: if_splits option.splits)
qed

text \<open>How a step changes each part of the invariant.\<close>

lemma last_Cons_in: "last (h # ns) \<in> set (h # ns)"
  by (rule last_in_set) simp

lemma own_goto: "own (goto t p s) = (own s)(t := owned p)"
  by (auto simp: own_def)

lemma ran_at: "own s t = Some n \<Longrightarrow> n \<in> ran (own s)"
  by (auto simp: ran_def)

lemma ran_take:
  assumes "inj_on f (dom f)" and "f t = Some n"
  shows "ran (f(t := None)) = ran f - {n}" and "inj_on (f(t := None)) (dom (f(t := None)))"
proof -
  have "u = t" if "f u = Some n" for u using inj_onD [OF assms(1), of u t] assms(2) that by auto
  note only = this
  show "ran (f(t := None)) = ran f - {n}"
  proof (rule set_eqI)
    fix m
    show "m \<in> ran (f(t := None)) \<longleftrightarrow> m \<in> ran f - {n}"
    proof
      assume "m \<in> ran (f(t := None))"
      then obtain u where "u \<noteq> t" "f u = Some m" by (auto simp: ran_def split: if_splits)
      then show "m \<in> ran f - {n}" using only by (auto simp: ran_def)
    next
      assume "m \<in> ran f - {n}"
      then obtain u where "f u = Some m" "m \<noteq> n" by (auto simp: ran_def)
      then show "m \<in> ran (f(t := None))" using assms(2) by (intro ranI [of _ u]) auto
    qed
  qed
  show "inj_on (f(t := None)) (dom (f(t := None)))" using assms(1) by (auto simp: inj_on_def)
qed

lemma ran_give:
  assumes "inj_on f (dom f)" and "f t = None" and "n \<notin> ran f"
  shows "ran (f(t := Some n)) = insert n (ran f)" and "inj_on (f(t := Some n)) (dom (f(t := Some n)))"
proof -
  show "ran (f(t := Some n)) = insert n (ran f)" using assms(2) by simp
  show "inj_on (f(t := Some n)) (dom (f(t := Some n)))" using assms by (auto simp: inj_on_def ran_def)
qed

lemma ran_same: "owned p = own s t \<Longrightarrow> own (goto t p s) = own s"
  by (auto simp: own_goto)

lemma nodes_okD:
  assumes "nodes_ok s ns"
  shows "head_node s \<in> live s" and "last (head_node s # ns) \<in> live s" and "set ns \<subseteq> live s"
    and "own s t = Some n \<Longrightarrow> n \<in> live s \<and> n \<notin> set (head_node s # ns)" and "fresh_node s \<notin> live s"
  using assms last_Cons_in [of "head_node s" ns] by (auto simp: nodes_ok_def ran_def)

lemma own_place: "places s t = p \<Longrightarrow> own s t = owned p"
  by (simp add: own_def)

lemma own_frames [simp]:
  "own (note_event t e s) = own s" "own (s\<lparr>node_value := a\<rparr>) = own s" "own (s\<lparr>node_next := b\<rparr>) = own s" "own (s\<lparr>live := c\<rparr>) = own s"
  "own (s\<lparr>fresh_node := d\<rparr>) = own s" "own (s\<lparr>head_node := n\<rparr>) = own s" "own (s\<lparr>tail_node := m\<rparr>) = own s"
  "own (s\<lparr>head_mtx := e'\<rparr>) = own s" "own (s\<lparr>tail_mtx := f\<rparr>) = own s"
  by (simp_all add: own_def)

text \<open>A step that changes no node keeps what holds of the nodes.\<close>

lemma nodes_ok_same:
  assumes "nodes_ok s ns" and "own s' = own s" and "node_next s' = node_next s" and "live s' = live s"
    and "head_node s' = head_node s" and "fresh_node s' = fresh_node s"
  shows "nodes_ok s' ns"
  using assms(1) unfolding nodes_ok_def assms(2-6) .

lemma places_ok_same:
  assumes "places_ok s ns" and "places s' = (places s)(t := p)" and "\<And>u. u \<noteq> t \<Longrightarrow> last_event u s' = last_event u s"
    and "node_next s' = node_next s" and "node_value s' = node_value s" and "head_node s' = head_node s"
    and "place_ok (node_value s) (node_next s) (head_node s) (last (head_node s # ns)) (last_event t s') p"
  shows "places_ok s' ns"
  using assms by (auto simp: places_ok_def)

lemma locks_ok_same:
  assumes "locks_ok s ns" and "places s' = (places s)(t := p)" and "tail_mtx s' = tail_mtx s" and "head_mtx s' = head_mtx s"
    and "holds_tail p = holds_tail (places s t)" and "holds_head p = holds_head (places s t)" and "moving p = moving (places s t)"
    and "tail_node s' = tail_node s" and "last (head_node s' # ns') = last (head_node s # ns)"
  shows "locks_ok s' ns'"
  using assms by (auto simp: locks_ok_def)

lemma moving_simps [simp]:
  "moving (Moving n v)" "\<not> moving Idle" "\<not> moving (Allocating v)" "\<not> moving (Waiting_tail n v)" "\<not> moving (Linking n v)"
  "\<not> moving Waiting_head" "\<not> moving Testing" "\<not> moving (Reading n k)" "\<not> moving (Advancing n k v)" "\<not> moving (Deleting n v)"
  "\<not> moving (Answered r)"
  by (simp_all add: moving_def)

lemma begin_ok:
  assumes "nodes_ok s ns" "locks_ok s ns" "places_ok s ns" and "places s t = Idle \<or> places s t = Answered r"
  shows "nodes_ok (begin_call t call s) ns" and "locks_ok (begin_call t call s) ns" and "places_ok (begin_call t call s) ns"
proof -
  have o: "own s t = None" using assms(4) by (auto simp: own_def)
  have "nodes_ok (goto t p (note_event t e s)) ns \<and> locks_ok (goto t p (note_event t e s)) ns \<and> places_ok (goto t p (note_event t e s)) ns"
    if "p = Waiting_head \<or> p = Allocating v" for p e v
  proof -
    have "own (goto t p (note_event t e s)) = own s" using o that by (auto simp: own_goto fun_upd_idem)
    then have "nodes_ok (goto t p (note_event t e s)) ns" by (intro nodes_ok_same [OF assms(1)]) simp_all
    moreover have "locks_ok (goto t p (note_event t e s)) ns"
      using that assms(4) by (intro locks_ok_same [OF assms(2), where t = t and p = p]) auto
    moreover have "places_ok (goto t p (note_event t e s)) ns"
      using that assms(4) by (intro places_ok_same [OF assms(3), where t = t and p = p]) auto
    ultimately show ?thesis by blast
  qed
  then show "nodes_ok (begin_call t call s) ns" "locks_ok (begin_call t call s) ns" "places_ok (begin_call t call s) ns"
    using assms by (cases "(t, call, s)" rule: begin_call.cases; simp)+
qed

lemma alloc_ok:
  assumes "nodes_ok s ns" "locks_ok s ns" "places_ok s ns" and p: "places s t = Allocating v" and "new_node v s = (n, s1)"
  shows "nodes_ok (goto t (Waiting_tail n v) s1) ns" and "locks_ok (goto t (Waiting_tail n v) s1) ns"
    and "places_ok (goto t (Waiting_tail n v) s1) ns"
proof -
  have f: "fresh_node s \<notin> live s" by (rule nodes_okD [OF assms(1)])
  have n: "n = fresh_node s" and s1: "s1 = s\<lparr>node_value := (node_value s)(n := v), node_next := (node_next s)(n := None), live := insert n (live s), fresh_node := n + 1\<rparr>"
    using assms(5) by (auto simp: new_node_def)
  have ns: "n \<notin> set (head_node s # ns)" using f nodes_okD [OF assms(1)] n by (auto simp: subset_iff)
  have own: "n \<notin> ran (own s)" using f nodes_okD(4) [OF assms(1)] n by (auto simp: ran_def)
  have t: "own s t = None" using p by (simp add: own_def)
  have inj: "inj_on (own s) (dom (own s))" using assms(1) by (simp add: nodes_ok_def)
  have c: "chain ((node_next s)(n := None)) (node_next s (head_node s)) ns"
    using assms(1) ns by (simp add: nodes_ok_def chain_upd)
  show "nodes_ok (goto t (Waiting_tail n v) s1) ns"
    using assms(1) ns own ran_give [OF inj t own] c n
    by (auto simp: nodes_ok_def s1 own_goto)
  show "locks_ok (goto t (Waiting_tail n v) s1) ns" by (rule locks_ok_same [OF assms(2), where t = t and p = "Waiting_tail n v"]) (simp_all add: s1 p)
  have "place_ok ((node_value s)(n := v)) ((node_next s)(n := None)) (head_node s) (last (head_node s # ns)) (last_event u s) (places s u)" if "u \<noteq> t" for u
  proof -
    have "place_ok (node_value s) (node_next s) (head_node s) (last (head_node s # ns)) (last_event u s) (places s u)"
      using assms(3) by (simp add: places_ok_def)
    moreover have "owned (places s u) \<noteq> Some n" using own ran_at [of s u n] by (auto simp: own_def)
    moreover have "node_next s (head_node s) \<noteq> Some n" using assms(1) ns by (cases ns) (auto simp: nodes_ok_def)
    ultimately show ?thesis using ns by (cases "places s u") auto
  qed
  then show "places_ok (goto t (Waiting_tail n v) s1) ns" by (simp add: places_ok_def s1 del: last.simps)
qed

lemma place_okD:
  assumes "places_ok s ns" and "places s t = p"
  shows "place_ok (node_value s) (node_next s) (head_node s) (last (head_node s # ns)) (last_event t s) p"
  using assms by (auto simp: places_ok_def)

lemma locks_okI:
  assumes "locks_ok s ns" and "places s' = (places s)(t := p)"
    and "holds_tail p \<longleftrightarrow> tail_mtx s' = Some t" and "\<And>u. u \<noteq> t \<Longrightarrow> tail_mtx s' = Some u \<longleftrightarrow> tail_mtx s = Some u"
    and "holds_head p \<longleftrightarrow> head_mtx s' = Some t" and "\<And>u. u \<noteq> t \<Longrightarrow> head_mtx s' = Some u \<longleftrightarrow> head_mtx s = Some u"
    and "moving p = moving (places s t)" and "tail_node s' = tail_node s" and "last (head_node s' # ns') = last (head_node s # ns)"
  shows "locks_ok s' ns'"
proof -
  have "moving (places s' u) = moving (places s u)" for u using assms(2,7) by simp
  then show ?thesis using assms unfolding locks_ok_def by simp
qed

lemma locks_at:
  assumes "locks_ok s ns"
  shows "tail_mtx s = Some t \<longleftrightarrow> holds_tail (places s t)" and "head_mtx s = Some t \<longleftrightarrow> holds_head (places s t)"
  using assms by (simp_all add: locks_ok_def)

text \<open>Taking a lock.\<close>

lemma lock_tail_ok:
  assumes "nodes_ok s ns" "locks_ok s ns" "places_ok s ns" and p: "places s t = Waiting_tail n v" and m: "tail_mtx s = None"
  shows "nodes_ok (goto t (Linking n v) (s\<lparr>tail_mtx := Some t\<rparr>)) ns" and "locks_ok (goto t (Linking n v) (s\<lparr>tail_mtx := Some t\<rparr>)) ns"
    and "places_ok (goto t (Linking n v) (s\<lparr>tail_mtx := Some t\<rparr>)) ns"
proof -
  show "nodes_ok (goto t (Linking n v) (s\<lparr>tail_mtx := Some t\<rparr>)) ns"
    by (rule nodes_ok_same [OF assms(1)]) (simp_all add: own_goto own_place [OF p] fun_upd_idem)
  show "places_ok (goto t (Linking n v) (s\<lparr>tail_mtx := Some t\<rparr>)) ns"
    using place_okD [OF assms(3) p] by (intro places_ok_same [OF assms(3), where t = t and p = "Linking n v"]) simp_all
  show "locks_ok (goto t (Linking n v) (s\<lparr>tail_mtx := Some t\<rparr>)) ns"
    using m p locks_at [OF assms(2), of t] by (intro locks_okI [OF assms(2), where t = t and p = "Linking n v"]) auto
qed

lemma lock_head_ok:
  assumes "nodes_ok s ns" "locks_ok s ns" "places_ok s ns" and p: "places s t = Waiting_head" and m: "head_mtx s = None"
  shows "nodes_ok (goto t Testing (s\<lparr>head_mtx := Some t\<rparr>)) ns" and "locks_ok (goto t Testing (s\<lparr>head_mtx := Some t\<rparr>)) ns"
    and "places_ok (goto t Testing (s\<lparr>head_mtx := Some t\<rparr>)) ns"
proof -
  show "nodes_ok (goto t Testing (s\<lparr>head_mtx := Some t\<rparr>)) ns"
    by (rule nodes_ok_same [OF assms(1)]) (simp_all add: own_goto own_place [OF p] fun_upd_idem)
  show "places_ok (goto t Testing (s\<lparr>head_mtx := Some t\<rparr>)) ns"
    by (intro places_ok_same [OF assms(3), where t = t and p = Testing]) simp_all
  show "locks_ok (goto t Testing (s\<lparr>head_mtx := Some t\<rparr>)) ns"
    using m p locks_at [OF assms(2), of t] by (intro locks_okI [OF assms(2), where t = t and p = Testing]) auto
qed

lemma tail_unique:
  assumes "locks_ok s ns" and "holds_tail (places s t)"
  shows "holds_tail (places s u) \<longleftrightarrow> u = t"
  using assms by (auto simp: locks_ok_def)

lemma head_unique:
  assumes "locks_ok s ns" and "holds_head (places s t)"
  shows "holds_head (places s u) \<longleftrightarrow> u = t"
  using assms by (auto simp: locks_ok_def)

lemma moving_holds: "moving p \<Longrightarrow> holds_tail p"
  by (auto simp: moving_def split: qplace.splits)

lemma tail_is_last:
  assumes "locks_ok s ns" and "places s t = Linking n v"
  shows "tail_node s = last (head_node s # ns)"
proof -
  have "\<not> moving (places s u)" for u using tail_unique [OF assms(1), of t u] assms(2) moving_holds by (cases "u = t") auto
  then show ?thesis using assms(1) by (auto simp: locks_ok_def)
qed

text \<open>Linking a node to the last one.\<close>

lemma link_ok:
  assumes "nodes_ok s ns" "locks_ok s ns" "places_ok s ns" and p: "places s t = Linking n v"
    and s': "s' = goto t (Moving n v) (note_event t (Q_In v) (s\<lparr>node_next := (node_next s)(tail_node s := Some n)\<rparr>))"
  shows "nodes_ok s' (ns @ [n])" and "locks_ok s' (ns @ [n])" and "places_ok s' (ns @ [n])"
proof -
  let ?l = "last (head_node s # ns)"
  have l: "tail_node s = ?l" by (rule tail_is_last [OF assms(2) p])
  have o: "own s t = Some n" using own_place [OF p] by simp
  have nn: "node_next s n = None" using place_okD [OF assms(3) p] by simp
  have fresh: "n \<notin> set (head_node s # ns)" "n \<in> live s" using nodes_okD(4) [OF assms(1) o] by auto
  have ok: "chain (node_next s) (node_next s (head_node s)) ns" "distinct (head_node s # ns)" "inj_on (own s) (dom (own s))"
      "live s = set (head_node s # ns) \<union> ran (own s)" "ran (own s) \<inter> set (head_node s # ns) = {}" "live s \<subseteq> {..<fresh_node s}"
    using assms(1) unfolding nodes_ok_def by blast+
  have ln: "?l \<noteq> n" using fresh last_Cons_in [of "head_node s" ns] by metis
  have end_: "node_next s ?l = None" by (rule chain_last [OF ok(1)])
  have "own s' = (own s)(t := None)" by (simp add: s' own_goto)
  moreover have "chain (node_next s') (node_next s' (head_node s')) (ns @ [n])"
    using chain_link [OF ok(1,2) fresh(1) nn] by (simp add: s' l del: last.simps)
  ultimately show "nodes_ok s' (ns @ [n])"
    using ok fresh ran_take [OF ok(3) o] ran_at [OF o] unfolding nodes_ok_def by (auto simp: s')
  show "locks_ok s' (ns @ [n])"
    using locks_at [OF assms(2)] locks_at [OF assms(2), of t] p unfolding locks_ok_def by (simp add: s') (metis moving_simps(1))
  have "place_ok (node_value s) ((node_next s)(?l := Some n)) (head_node s) n (last_event u s) (places s u)" if "u \<noteq> t" for u
  proof -
    note q = place_okD [OF assms(3), of u "places s u"]
    have "owned (places s u) \<noteq> Some ?l"
      using nodes_okD(4) [OF assms(1), of u ?l] last_Cons_in [of "head_node s" ns] by (auto simp: own_def simp del: last.simps)
    moreover have "\<not> holds_tail (places s u)" using tail_unique [OF assms(2), of t u] p that by simp
    moreover have "node_next s (head_node s) = Some k \<Longrightarrow> ?l \<noteq> head_node s" for k using end_ by auto
    ultimately show ?thesis using q by (cases "places s u") (auto simp del: last.simps)
  qed
  then show "places_ok s' (ns @ [n])" by (simp add: places_ok_def s' l del: last.simps) simp
qed

text \<open>Moving the tail.\<close>

lemma move_ok:
  assumes "nodes_ok s ns" "locks_ok s ns" "places_ok s ns" and p: "places s t = Moving n v"
    and s': "s' = goto t (Answered (Enqueued v)) (s\<lparr>tail_node := n, tail_mtx := None\<rparr>)"
  shows "nodes_ok s' ns" and "locks_ok s' ns" and "places_ok s' ns"
proof -
  show "nodes_ok s' ns"
    by (rule nodes_ok_same [OF assms(1)]) (simp_all add: s' own_goto own_place [OF p] fun_upd_idem)
  have q: "last_event t s = Some (Q_In v)" "last (head_node s # ns) = n" using place_okD [OF assms(3) p] by simp_all
  show "places_ok s' ns"
    by (intro places_ok_same [OF assms(3), where t = t and p = "Answered (Enqueued v)"]) (simp_all add: s' q del: last.simps)
  have "holds_tail (places s t)" using p by simp
  note u = tail_unique [OF assms(2) this]
  have "tail_mtx s = Some t" "head_mtx s \<noteq> Some t" using locks_at [OF assms(2), of t] p by simp_all
  then show "locks_ok s' ns" using locks_at [OF assms(2)] u p q(2) unfolding locks_ok_def by (simp add: s' del: last.simps)
qed

text \<open>The steps of \<open>Dequeue\<close>.\<close>

lemma empty_ok:
  assumes "nodes_ok s ns" "locks_ok s ns" "places_ok s ns" and p: "places s t = Testing"
    and s': "s' = goto t (Answered (Dequeued None)) (note_event t Q_Nothing (s\<lparr>head_mtx := None\<rparr>))"
  shows "nodes_ok s' ns" and "locks_ok s' ns" and "places_ok s' ns"
proof -
  show "nodes_ok s' ns"
    by (rule nodes_ok_same [OF assms(1)]) (simp_all add: s' own_goto own_place [OF p] fun_upd_idem)
  show "places_ok s' ns"
    by (intro places_ok_same [OF assms(3), where t = t and p = "Answered (Dequeued None)"]) (simp_all add: s')
  show "locks_ok s' ns"
    using p locks_at [OF assms(2), of t] by (intro locks_okI [OF assms(2), where t = t and p = "Answered (Dequeued None)"]) (auto simp: s')
qed

lemma quiet_ok:
  assumes "nodes_ok s ns" "locks_ok s ns" "places_ok s ns"
    and p: "owned p = owned (places s t)" "holds_tail p = holds_tail (places s t)" "holds_head p = holds_head (places s t)"
      "moving p = moving (places s t)"
    and "place_ok (node_value s) (node_next s) (head_node s) (last (head_node s # ns)) (last_event t s) p"
  shows "nodes_ok (goto t p s) ns" and "locks_ok (goto t p s) ns" and "places_ok (goto t p s) ns"
proof -
  have "own (goto t p s) = own s" using p by (auto simp: own_def)
  then show "nodes_ok (goto t p s) ns" by (intro nodes_ok_same [OF assms(1)]) simp_all
  show "locks_ok (goto t p s) ns"
    using p by (intro locks_ok_same [OF assms(2), where t = t and p = p]) simp_all
  show "places_ok (goto t p s) ns"
    using assms(8) by (intro places_ok_same [OF assms(3), where t = t and p = p]) simp_all
qed

lemma advance_ok:
  assumes "nodes_ok s (n # ns)" "locks_ok s (n # ns)" "places_ok s (n # ns)" and p: "places s t = Advancing n h v"
    and s': "s' = goto t (Deleting h v) (note_event t (Q_Out v) (s\<lparr>head_node := n, head_mtx := None\<rparr>))" and h: "h = head_node s"
  shows "nodes_ok s' ns" and "locks_ok s' ns" and "places_ok s' ns"
proof -
  have ok: "chain (node_next s) (node_next s n) ns" "distinct (h # n # ns)" "inj_on (own s) (dom (own s))"
      "live s = set (h # n # ns) \<union> ran (own s)" "ran (own s) \<inter> set (h # n # ns) = {}" "live s \<subseteq> {..<fresh_node s}"
    using assms(1) unfolding nodes_ok_def h by auto
  have o: "own s t = None" "h \<notin> ran (own s)" using own_place [OF p] ok by auto
  have "own s' = (own s)(t := Some h)" by (simp add: s' own_goto)
  then show "nodes_ok s' ns"
    using ok ran_give [OF ok(3) o] unfolding nodes_ok_def by (auto simp: s')
  have "tail_mtx s \<noteq> Some t" "head_mtx s = Some t" using locks_at [OF assms(2), of t] p by simp_all
  then show "locks_ok s' ns"
    using p by (intro locks_okI [OF assms(2), where t = t and p = "Deleting h v"]) (auto simp: s')
  have "place_ok (node_value s) (node_next s) n (last (n # ns)) (last_event u s) (places s u)" if "u \<noteq> t" for u
  proof -
    have "\<not> holds_head (places s u)" using head_unique [OF assms(2), of t u] p that by simp
    then show ?thesis using place_okD [OF assms(3), of u "places s u"] by (cases "places s u") auto
  qed
  then show "places_ok s' ns" by (simp add: places_ok_def s' del: last.simps)
qed

lemma delete_ok:
  assumes "nodes_ok s ns" "locks_ok s ns" "places_ok s ns" and p: "places s t = Deleting n v"
    and s': "s' = goto t (Answered (Dequeued (Some v))) (s\<lparr>live := live s - {n}\<rparr>)"
  shows "nodes_ok s' ns" and "locks_ok s' ns" and "places_ok s' ns"
proof -
  have o: "own s t = Some n" using own_place [OF p] by simp
  have inj: "inj_on (own s) (dom (own s))" using assms(1) by (simp add: nodes_ok_def)
  have "n \<notin> set (head_node s # ns)" using nodes_okD(4) [OF assms(1) o] by simp
  moreover have "own s' = (own s)(t := None)" by (simp add: s' own_goto)
  ultimately show "nodes_ok s' ns"
    using assms(1) ran_take [OF inj o] unfolding nodes_ok_def by (auto simp: s')
  have q: "last_event t s = Some (Q_Out v)" using place_okD [OF assms(3) p] by simp
  show "places_ok s' ns"
    by (intro places_ok_same [OF assms(3), where t = t and p = "Answered (Dequeued (Some v))"]) (simp_all add: s' q)
  show "locks_ok s' ns"
    using p by (intro locks_ok_same [OF assms(2), where t = t and p = "Answered (Dequeued (Some v))"]) (simp_all add: s')
qed

text \<open>No step fails, and every step keeps the invariant.\<close>

lemma tlq_okD:
  assumes "tlq_ok s ns"
  shows "nodes_ok s ns" and "locks_ok s ns" and "places_ok s ns" and "calls_ok s" and "queue_of s = Some (map (node_value s) ns)"
  using assms by (simp_all add: tlq_ok_def)

lemma first_node:
  assumes "nodes_ok s ns" and "node_next s (head_node s) = Some n"
  shows "ns = n # tl ns" and "n \<in> live s"
  using assms by (cases ns; auto simp: nodes_ok_def)+

lemma begin_keeps_queue [simp]: "queue_of (begin_call t call s) = queue_of s" "node_value (begin_call t call s) = node_value s"
  by (cases "(t, call, s)" rule: begin_call.cases; simp split: option.split)+

lemma tlq_step_ok:
  assumes "tlq_ok s ns"
  shows "\<exists>s' ns'. tlq_step s t call = Inr s' \<and> tlq_ok s' ns'"
proof -
  note ok = tlq_okD [OF assms]
  have "\<exists>s' ns'. tlq_step s t call = Inr s' \<and> nodes_ok s' ns' \<and> locks_ok s' ns' \<and> places_ok s' ns' \<and>
      queue_of s' = Some (map (node_value s') ns')"
  proof (cases "places s t")
    case Idle
    then show ?thesis using begin_ok [OF ok(1,2,3), of t] ok(5) by (auto simp: tlq_step_def)
  next
    case (Answered r)
    then show ?thesis using begin_ok [OF ok(1,2,3), of t r] ok(5) by (auto simp: tlq_step_def)
  next
    case (Allocating v)
    obtain n s1 where n: "new_node v s = (n, s1)" by fastforce
    have "n \<notin> set ns" using n nodes_okD(3,5) [OF ok(1)] by (auto simp: new_node_def)
    then have "queue_of s1 = Some (map (node_value s1) ns)" using n ok(5) by (auto simp: new_node_def)
    then show ?thesis using alloc_ok [OF ok(1,2,3) Allocating n] n Allocating by (auto simp: tlq_step_def)
  next
    case (Waiting_tail n v)
    then show ?thesis using lock_tail_ok [OF ok(1,2,3) Waiting_tail] ok by (auto simp: tlq_step_def)
  next
    case (Linking n v)
    have "tail_node s \<in> live s" using tail_is_last [OF ok(2) Linking] nodes_okD(2) [OF ok(1)] by simp
    moreover have "node_value s n = v" using place_okD [OF ok(3) Linking] by simp
    ultimately show ?thesis using link_ok [OF ok(1,2,3) Linking refl] Linking ok(5)
      by (intro exI [of _ "goto t (Moving n v) (note_event t (Q_In v) (s\<lparr>node_next := (node_next s)(tail_node s := Some n)\<rparr>))"]
          exI [of _ "ns @ [n]"]) (simp add: tlq_step_def deref_node_def)
  next
    case (Moving n v)
    then show ?thesis using move_ok [OF ok(1,2,3) Moving refl] ok(5) by (auto simp: tlq_step_def)
  next
    case Waiting_head
    then show ?thesis using lock_head_ok [OF ok(1,2,3) Waiting_head] ok by (auto simp: tlq_step_def)
  next
    case Testing
    have h: "head_node s \<in> live s" by (rule nodes_okD [OF ok(1)])
    show ?thesis
    proof (cases "node_next s (head_node s)")
      case None
      then have "ns = []" using ok(1) by (simp add: nodes_ok_def)
      then show ?thesis using empty_ok [OF ok(1,2,3) Testing refl] ok(5) Testing h None by (auto simp: tlq_step_def deref_node_def)
    next
      case (Some n)
      have "place_ok (node_value s) (node_next s) (head_node s) (last (head_node s # ns)) (last_event t s) (Reading n (head_node s))"
        using Some by simp
      then show ?thesis using quiet_ok [OF ok(1,2,3), of "Reading n (head_node s)" t] Testing ok(5) h Some
        by (auto simp: tlq_step_def deref_node_def)
    qed
  next
    case (Reading n h)
    have q: "h = head_node s" "node_next s (head_node s) = Some n" using place_okD [OF ok(3) Reading] by simp_all
    then show ?thesis using quiet_ok [OF ok(1,2,3), of "Advancing n h (node_value s n)" t] first_node [OF ok(1)] Reading ok(5)
      by (auto simp: tlq_step_def deref_node_def)
  next
    case (Advancing n h v)
    have q: "h = head_node s" "node_next s (head_node s) = Some n" "node_value s n = v" using place_okD [OF ok(3) Advancing] by simp_all
    obtain ns' where ns: "ns = n # ns'" using first_node [OF ok(1) q(2)] by blast
    show ?thesis using advance_ok [OF ok(1,2,3) [unfolded ns] Advancing refl q(1)] ok(5) Advancing ns q(3) by (auto simp: tlq_step_def)
  next
    case (Deleting n v)
    have "n \<in> live s" using nodes_okD(4) [OF ok(1), of t n] own_place [OF Deleting] by simp
    then show ?thesis using delete_ok [OF ok(1,2,3) Deleting refl] Deleting ok(5)
      by (auto simp: tlq_step_def delete_node_def deref_node_def)
  qed
  then show ?thesis using tlq_step_calls [OF ok(4)] unfolding tlq_ok_def by blast
qed

lemma tlq_new_ok: "tlq_ok (tlq_new junk) []"
  by (simp add: tlq_ok_def tlq_new_def nodes_ok_def locks_ok_def places_ok_def calls_ok_def events_of_def queue_of_def own_def)


text \<open>Runs: a list of the threads that move, each with the call it may begin.\<close>

definition queue_step :: "'a tlq \<Rightarrow> nat \<times> 'a qcall option \<Rightarrow> 'a tlq res" where
  "queue_step s tc = tlq_step s (fst tc) (snd tc)"

lemma tlq_run_ok: "tlq_ok s ns \<Longrightarrow> \<exists>s' ns'. rfold queue_step acts s = Inr s' \<and> tlq_ok s' ns'"
proof (induction acts arbitrary: s ns)
  case (Cons a acts)
  obtain s1 ns1 where "queue_step s a = Inr s1" "tlq_ok s1 ns1"
    using tlq_step_ok [OF Cons.prems] by (metis queue_step_def)
  then show ?case using Cons.IH by simp
qed auto

section \<open>A thread alone\<close>

fun steps_left :: "'a qplace \<Rightarrow> nat" where
  "steps_left (Allocating v) = 4"
| "steps_left (Waiting_tail n v) = 3"
| "steps_left (Linking n v) = 2"
| "steps_left (Moving n v) = 1"
| "steps_left Waiting_head = 5"
| "steps_left Testing = 4"
| "steps_left (Reading n m) = 3"
| "steps_left (Advancing n m v) = 2"
| "steps_left (Deleting n v) = 1"
| "steps_left _ = 0"

fun blocked :: "'a tlq \<Rightarrow> 'a qplace \<Rightarrow> bool" where
  "blocked s (Allocating v) \<longleftrightarrow> tail_mtx s \<noteq> None"
| "blocked s (Waiting_tail n v) \<longleftrightarrow> tail_mtx s \<noteq> None"
| "blocked s Waiting_head \<longleftrightarrow> head_mtx s \<noteq> None"
| "blocked s _ \<longleftrightarrow> False"

lemma steps_left_decreases:
  assumes "tlq_step s t None = Inr s'" and "\<not> blocked s (places s t)"
  shows "steps_left (places s' t) \<le> steps_left (places s t) - 1 \<and> \<not> blocked s' (places s' t) \<and>
    (places s' t = Idle) = (places s t = Idle)"
  using assms
  by (cases "places s t")
    (auto simp: tlq_step_def new_node_def delete_node_def rbind_Inr_iff Let_def split: if_splits option.splits)

lemma tlq_solo_run:
  "tlq_ok s ns \<Longrightarrow> \<not> blocked s (places s t) \<Longrightarrow> \<exists>s'. rfold queue_step (replicate k (t, None)) s = Inr s' \<and>
    steps_left (places s' t) \<le> steps_left (places s t) - k \<and> (places s' t = Idle) = (places s t = Idle)"
proof (induction k arbitrary: s ns)
  case (Suc k)
  obtain s1 ns1 where s1: "queue_step s (t, None) = Inr s1" "tlq_ok s1 ns1"
    using tlq_step_ok [OF Suc.prems(1), of t None] by (auto simp: queue_step_def)
  then have w: "steps_left (places s1 t) \<le> steps_left (places s t) - 1" "\<not> blocked s1 (places s1 t)"
      "(places s1 t = Idle) = (places s t = Idle)"
    using steps_left_decreases [of s t s1] Suc.prems(2) by (simp_all add: queue_step_def)
  obtain s' where "rfold queue_step (replicate k (t, None)) s1 = Inr s'"
      "steps_left (places s' t) \<le> steps_left (places s1 t) - k" "(places s' t = Idle) = (places s1 t = Idle)"
    using Suc.IH [OF s1(2) w(2)] by auto
  then show ?case using s1(1) w by auto
qed simp

lemma steps_left_bound: "steps_left p \<le> 5"
  by (cases p) auto

lemma steps_left_zero: "steps_left p = 0 \<longleftrightarrow> p = Idle \<or> (\<exists>r. p = Answered r)"
  by (cases p) auto

text \<open>Who waits for a lock waits for a thread that does not wait.\<close>

lemma unblocked_thread:
  assumes "locks_ok s ns" and "steps_left (places s t) \<noteq> 0"
  shows "\<exists>u. steps_left (places s u) \<noteq> 0 \<and> \<not> blocked s (places s u)"
proof -
  have holder: "steps_left (places s u) \<noteq> 0 \<and> \<not> blocked s (places s u)" if "holds_tail (places s u) \<or> holds_head (places s u)" for u
    using that by (cases "places s u") auto
  show ?thesis
  proof (cases "blocked s (places s t)")
    case True
    then obtain u where "tail_mtx s = Some u \<or> head_mtx s = Some u" by (cases "places s t") auto
    then show ?thesis using holder [of u] locks_at [OF assms(1), of u] by blast
  qed (use assms(2) in blast)
qed

section \<open>The destructor\<close>

lemma delete_all_ok:
  "chain (node_next s) p ns \<Longrightarrow> distinct ns \<Longrightarrow> set ns \<subseteq> live s \<Longrightarrow>
    delete_all (length ns) p s = Inr (s\<lparr>live := live s - set ns\<rparr>)"
proof (induction ns arbitrary: p s)
  case (Cons n ns)
  let ?s = "s\<lparr>live := live s - {n}\<rparr>"
  have "delete_all (length ns) (node_next s n) ?s = Inr (?s\<lparr>live := live ?s - set ns\<rparr>)"
    using Cons.prems by (intro Cons.IH) auto
  then show ?case using Cons.prems by (simp add: delete_node_def deref_node_def Let_def set_diff_eq)
qed simp

section \<open>Properties\<close>

definition answer_event :: "'a qanswer \<Rightarrow> 'a qevent" where
  "answer_event r = (case r of Enqueued v \<Rightarrow> Q_In v | Dequeued None \<Rightarrow> Q_Nothing | Dequeued (Some v) \<Rightarrow> Q_Out v)"

text \<open>
  Property C14. The queue is linearizable: any run of any threads ends without touching a deleted node, and has a
  history in which each call takes effect once, between its begin and its answer, the effects in their
  order are those of one first-in first-out queue, and every answer is that of its effect.
\<close>

theorem tlq_linearizable:
  "\<exists>s xs. rfold queue_step acts (tlq_new junk) = Inr s \<and> ofold queue_effect (map snd (history s)) [] = Some xs \<and>
    (\<forall>t. track (events_of t s) None = Some (pending (places s t))) \<and>
    (\<forall>t r. places s t = Answered r \<longrightarrow> last_event t s = Some (answer_event r))"
proof -
  obtain s ns where s: "rfold queue_step acts (tlq_new junk) = Inr s" "tlq_ok s ns" using tlq_run_ok [OF tlq_new_ok] by blast
  have "last_event t s = Some (answer_event r)" if "places s t = Answered r" for t r
    using place_okD [OF tlq_okD(3) [OF s(2)] that] by (simp add: answer_event_def)
  then show ?thesis using s(1) tlq_okD(4,5) [OF s(2)] by (auto simp: calls_ok_def queue_of_def)
qed

definition sample_calls :: "(nat \<times> nat qcall option) list" where
  "sample_calls = (1, Some (Enqueue 7)) # replicate 3 (1, None) @ (2, Some Dequeue) # replicate 3 (2, None) @ [(1, None), (2, None)]"

theorem tlq_linearizable_witness:
  "\<exists>s xs. rfold queue_step sample_calls (tlq_new (\<lambda>_. 0)) = Inr s \<and> ofold queue_effect (map snd (history s)) [] = Some xs"
  using tlq_linearizable [of sample_calls "\<lambda>_. 0"] by blast

text \<open>
  Fact. Nothing leaks: when no thread is inside a call, the nodes in memory are the sentinel and one for each
  element, and the destructor deletes all of them.
\<close>

theorem tlq_no_leak:
  assumes "rfold queue_step acts (tlq_new junk) = Inr s" and "\<forall>t. places s t = Idle \<or> (\<exists>r. places s t = Answered r)"
    and "ofold queue_effect (map snd (history s)) [] = Some xs"
  shows "card (live s) = length xs + 1 \<and> (\<exists>s'. tlq_destroy (length xs + 1) s = Inr s' \<and> live s' = {})"
proof -
  obtain ns where ok: "tlq_ok s ns" using tlq_run_ok [OF tlq_new_ok, of acts junk] assms(1) by auto
  have xs: "xs = map (node_value s) ns" using tlq_okD(5) [OF ok] assms(3) by (simp add: queue_of_def)
  have "own s t = None" for t using assms(2) by (auto simp: own_def dest: spec [of _ t])
  then have l: "live s = set (head_node s # ns)" "distinct (head_node s # ns)" "chain (node_next s) (Some (head_node s)) (head_node s # ns)"
    using tlq_okD(1) [OF ok] by (auto simp: nodes_ok_def ran_def)
  then have "tlq_destroy (length xs + 1) s = Inr (s\<lparr>live := live s - set (head_node s # ns)\<rparr>)"
    using delete_all_ok [OF l(3,2)] xs by (simp add: tlq_destroy_def)
  then show ?thesis using l distinct_card [OF l(2)] xs by simp
qed

theorem tlq_no_leak_witness:
  "card (live (tlq_new (\<lambda>_. 0 :: nat))) = length ([] :: nat list) + 1"
  using tlq_no_leak [of "[]" "\<lambda>_. 0 :: nat" "tlq_new (\<lambda>_. 0)" "[]"] by (simp add: tlq_new_def)

text \<open>
  Fact. There is no deadlock: whenever some thread is inside a call, there is one that is not waiting for a
  lock that another holds, and five steps of it alone answer its call.
\<close>

theorem tlq_no_deadlock:
  assumes "rfold queue_step acts (tlq_new junk) = Inr s" and "places s t \<noteq> Idle" and "\<forall>r. places s t \<noteq> Answered r"
  shows "\<exists>u s' r. steps_left (places s u) \<noteq> 0 \<and> rfold queue_step (replicate 5 (u, None)) s = Inr s' \<and> places s' u = Answered r"
proof -
  obtain ns where ok: "tlq_ok s ns" using tlq_run_ok [OF tlq_new_ok, of acts junk] assms(1) by auto
  obtain u where u: "steps_left (places s u) \<noteq> 0" "\<not> blocked s (places s u)"
    using unblocked_thread [OF tlq_okD(2) [OF ok], of t] assms(2,3) steps_left_zero by blast
  obtain s' where s': "rfold queue_step (replicate 5 (u, None)) s = Inr s'" "steps_left (places s' u) \<le> steps_left (places s u) - 5"
      "(places s' u = Idle) = (places s u = Idle)"
    using tlq_solo_run [OF ok u(2), of 5] by blast
  then have "steps_left (places s' u) = 0" using steps_left_bound [of "places s u"] by simp
  then show ?thesis using u(1) s' steps_left_zero by metis
qed

theorem tlq_no_deadlock_witness:
  "\<exists>u s s' r. rfold queue_step [(1, Some (Enqueue 7)), (1, None)] (tlq_new (\<lambda>_. 0 :: nat)) = Inr s \<and>
    rfold queue_step (replicate 5 (u, None)) s = Inr s' \<and> places s' u = Answered r"
proof -
  obtain s where s: "rfold queue_step [(1, Some (Enqueue 7)), (1, None)] (tlq_new (\<lambda>_. 0 :: nat)) = Inr s"
      "places s 1 = Waiting_tail 1 7"
    by (simp add: queue_step_def tlq_step_def tlq_new_def goto_def note_event_def new_node_def)
  show ?thesis using tlq_no_deadlock [OF s(1), of 1] s by auto
qed

text \<open>
  Fact. The link of the sentinel is read and written at the same time: with an empty queue, \<open>Dequeue\<close> is about to
  read \<open>head_->next\<close> under one lock while \<open>Enqueue\<close> is about to write \<open>tail_->next\<close>, the same field, under the
  other. The field is not atomic.
\<close>

definition racing_calls :: "(nat \<times> nat qcall option) list" where
  "racing_calls = [(1, Some (Enqueue 7)), (1, None), (1, None), (2, Some Dequeue), (2, None)]"

theorem tlq_next_is_raced:
  "case rfold queue_step racing_calls (tlq_new (\<lambda>_. 0 :: nat)) of Inl e \<Rightarrow> False
   | Inr s \<Rightarrow> places s 1 = Linking 1 7 \<and> places s 2 = Testing \<and> head_node s = tail_node s"
  by (simp add: racing_calls_def queue_step_def tlq_step_def tlq_new_def goto_def note_event_def new_node_def)

end
