(* ===== verification/Relay.thy ===== *)
theory Relay
  imports Endian Simulation "HOL-Library.Sublist"
begin

text \<open>
  The part the SOCKS tunnels share (\<open>src/learn-cxx/asio/socks5/tunnel.cpp\<close> and \<open>socks4a/tunnel.cpp\<close>):
  bytes are passed on between the client and the remote host in both directions at once, each direction
  reading and writing in turn. Sockets are an environment that answers each asynchronous operation.
\<close>

section \<open>Sockets\<close>

text \<open>What a socket has delivered to the program and taken from it, and whether its sending side is shut.\<close>

record sock =
  received :: "byte list"
  sent :: "byte list"
  send_shut :: bool

definition sock_new :: sock where
  "sock_new = \<lparr>received = [], sent = [], send_shut = False\<rparr>"

definition deliver :: "byte list \<Rightarrow> sock \<Rightarrow> sock" where
  "deliver bs s = s\<lparr>received := received s @ bs\<rparr>"

definition take_in :: "byte list \<Rightarrow> sock \<Rightarrow> sock" where
  "take_in bs s = s\<lparr>sent := sent s @ bs\<rparr>"

text \<open>
  How an operation ends. A shutdown may fail, and the address of the peer, which the message about that
  failure asks for, may be unknown by then: both are part of \<open>Eof\<close>.
\<close>

datatype outcome = Got "byte list" | Eof bool bool | Failed | Done | Broke nat

text \<open>What a direction waits for. The flag of a write, which no handler reads, tells that the sending side was open when it began.\<close>

datatype flow = Reading | Writing "byte list" bool | Stopped

record relay =
  client :: sock
  dial :: sock
  client_gone :: bool
  dial_gone :: bool
  upload :: flow
  download :: flow
  forced :: bool

text \<open>\<open>ShutdownWriteSafe\<close>.\<close>

definition ShutdownWriteSafe :: "sock \<Rightarrow> bool \<Rightarrow> bool \<Rightarrow> bool \<Rightarrow> sock res" where
  "ShutdownWriteSafe s flag shut_fine peer_known =
     (if flag then Inr s
      else rbind (guard (shut_fine \<or> peer_known) (Thrown ''remote_endpoint'')) (\<lambda>_. Inr (s\<lparr>send_shut := True\<rparr>)))"

text \<open>\<open>forced\<close> records that the connection was given up; no other step reads it.\<close>

definition ForceShutdown :: "relay \<Rightarrow> relay" where
  "ForceShutdown r = r\<lparr>client := (client r)\<lparr>send_shut := True\<rparr>, dial := (dial r)\<lparr>send_shut := True\<rparr>, forced := True\<rparr>"

definition kIOBufSize :: nat where
  "kIOBufSize = 4 * 1024"

text \<open>
  The handlers of one direction. \<open>None\<close>: the environment cannot end the operation this way - a read
  delivers at least one byte and no more than the buffer holds; a write completes or stops short, and one that began when
  the sending side was shut already stops before its first byte. A write that began before may have finished when the side was shut: it may
  still complete afterwards.
\<close>

definition ForwardClientRequest :: "relay \<Rightarrow> outcome \<Rightarrow> relay res option" where
  "ForwardClientRequest r out = (case (upload r, out) of
     (Reading, Got bs) \<Rightarrow>
       if 0 < length bs \<and> length bs \<le> kIOBufSize
       then Some (Inr (r\<lparr>client := deliver bs (client r), upload := Writing bs (\<not> send_shut (dial r))\<rparr>)) else None
   | (Reading, Eof shut_fine peer_known) \<Rightarrow>
       (let r = r\<lparr>client_gone := True\<rparr>
        in Some (rbind (ShutdownWriteSafe (dial r) (dial_gone r) shut_fine peer_known) (\<lambda>d.
             Inr (r\<lparr>dial := d, upload := Stopped\<rparr>))))
   | (Reading, Failed) \<Rightarrow> Some (Inr ((ForceShutdown r)\<lparr>upload := Stopped\<rparr>))
   | (Writing bs opened, Done) \<Rightarrow>
       if opened then Some (Inr (r\<lparr>dial := take_in bs (dial r), upload := Reading\<rparr>)) else None
   | (Writing bs opened, Broke k) \<Rightarrow>
       if k < length bs \<and> (opened \<or> k = 0)
       then Some (Inr ((ForceShutdown (r\<lparr>dial := take_in (take k bs) (dial r)\<rparr>))\<lparr>upload := Stopped\<rparr>)) else None
   | _ \<Rightarrow> None)"

definition ForwardRemoteResponse :: "relay \<Rightarrow> outcome \<Rightarrow> relay res option" where
  "ForwardRemoteResponse r out = (case (download r, out) of
     (Reading, Got bs) \<Rightarrow>
       if 0 < length bs \<and> length bs \<le> kIOBufSize
       then Some (Inr (r\<lparr>dial := deliver bs (dial r), download := Writing bs (\<not> send_shut (client r))\<rparr>)) else None
   | (Reading, Eof shut_fine peer_known) \<Rightarrow>
       (let r = r\<lparr>dial_gone := True\<rparr>
        in Some (rbind (ShutdownWriteSafe (client r) (client_gone r) shut_fine peer_known) (\<lambda>c.
             Inr (r\<lparr>client := c, download := Stopped\<rparr>))))
   | (Reading, Failed) \<Rightarrow> Some (Inr ((ForceShutdown r)\<lparr>download := Stopped\<rparr>))
   | (Writing bs opened, Done) \<Rightarrow>
       if opened then Some (Inr (r\<lparr>client := take_in bs (client r), download := Reading\<rparr>)) else None
   | (Writing bs opened, Broke k) \<Rightarrow>
       if k < length bs \<and> (opened \<or> k = 0)
       then Some (Inr ((ForceShutdown (r\<lparr>client := take_in (take k bs) (client r)\<rparr>))\<lparr>download := Stopped\<rparr>)) else None
   | _ \<Rightarrow> None)"

datatype side = Up outcome | Down outcome

definition relay_step :: "relay \<Rightarrow> side \<Rightarrow> relay res option" where
  "relay_step r e = (case e of Up out \<Rightarrow> ForwardClientRequest r out | Down out \<Rightarrow> ForwardRemoteResponse r out)"

section \<open>What lies outside\<close>

datatype address = IPv4 "32 word" | IPv6 "byte list"

type_synonym endpoint = "address \<times> 16 word"

text \<open>
  What lies outside: the byte order of the host, \<open>esl::byteswap\<close> for both widths, the resolver, and the
  port of the local end of the client's connection (only SOCKS5 asks for it).
\<close>

record outside =
  host :: endianness
  swap16 :: "16 word \<Rightarrow> 16 word"
  swap32 :: "32 word \<Rightarrow> 32 word"
  resolve :: "byte list \<Rightarrow> 16 word \<Rightarrow> endpoint list option"
  local_port :: "16 word"

definition outside_ok :: "outside \<Rightarrow> bool" where
  "outside_ok x \<longleftrightarrow> host x = Little_endian \<and> swap16 x = bswap \<and> swap32 x = bswap"

definition relay_new :: relay where
  "relay_new = \<lparr>client = sock_new, dial = sock_new, client_gone = False, dial_gone = False,
     upload = Stopped, download = Stopped, forced = False\<rparr>"

lemma be_bytes_le_word [simp]:
  "length bs = LENGTH('a::len) div 8 \<Longrightarrow> be_bytes (le_word (rev bs) :: 'a word) = bs"
  by (simp add: be_bytes_def)

lemma bswap_le_word: "length bs = LENGTH('a::len) div 8 \<Longrightarrow> bswap (le_word bs :: 'a word) = le_word (rev bs)"
  by (simp add: bswap_def be_bytes_def)

section \<open>What is passed on\<close>

fun in_flight :: "flow \<Rightarrow> byte list" where
  "in_flight (Writing bs opened) = bs"
| "in_flight _ = []"

text \<open>
  One direction, from \<open>a\<close> to \<open>b\<close>: \<open>b\<close> has been sent a prefix of what \<open>a\<close> has delivered since \<open>h\<close> bytes of it
  and \<open>g\<close> bytes sent; nothing is lost as long as the direction runs, or when it stopped at the end of \<open>a\<close>.
\<close>

definition passes :: "nat \<Rightarrow> nat \<Rightarrow> sock \<Rightarrow> sock \<Rightarrow> flow \<Rightarrow> bool \<Rightarrow> bool" where
  "passes h g a b fl gone \<longleftrightarrow> h \<le> length (received a) \<and> g \<le> length (sent b) \<and>
     prefix (drop g (sent b) @ in_flight fl) (drop h (received a)) \<and>
     (fl \<noteq> Stopped \<or> gone \<longrightarrow> drop g (sent b) @ in_flight fl = drop h (received a)) \<and> (gone \<longrightarrow> fl = Stopped)"

lemma sock_simps [simp]:
  "received (deliver bs s) = received s @ bs" "sent (deliver bs s) = sent s" "send_shut (deliver bs s) = send_shut s"
  "received (take_in bs s) = received s" "sent (take_in bs s) = sent s @ bs" "send_shut (take_in bs s) = send_shut s"
  by (simp_all add: deliver_def take_in_def)

lemma force_simps [simp]:
  "received (client (ForceShutdown r)) = received (client r)" "received (dial (ForceShutdown r)) = received (dial r)"
  "sent (client (ForceShutdown r)) = sent (client r)" "sent (dial (ForceShutdown r)) = sent (dial r)"
  "send_shut (client (ForceShutdown r))" "send_shut (dial (ForceShutdown r))" "forced (ForceShutdown r)"
  "client_gone (ForceShutdown r) = client_gone r" "dial_gone (ForceShutdown r) = dial_gone r"
  "upload (ForceShutdown r) = upload r" "download (ForceShutdown r) = download r"
  by (simp_all add: ForceShutdown_def)

text \<open>One direction through its operations.\<close>

lemma passes_frame:
  "passes h g a b fl gone \<Longrightarrow> received a' = received a \<Longrightarrow> sent b' = sent b \<Longrightarrow> passes h g a' b' fl gone"
  by (simp add: passes_def)

lemma passes_got:
  "passes h g a b Reading gone \<Longrightarrow> passes h g (deliver bs a) b (Writing bs opened) gone"
  by (auto simp: passes_def)

lemma passes_done:
  "passes h g a b (Writing bs opened) gone \<Longrightarrow> passes h g a (take_in bs b) Reading gone"
  by (auto simp: passes_def)

lemma passes_broke:
  assumes "passes h g a b (Writing bs opened) gone"
  shows "passes h g a (take_in (take k bs) b) Stopped gone"
proof -
  have "prefix (drop g (sent b) @ take k bs) (drop g (sent b) @ bs)" by (simp add: take_is_prefix)
  then have "prefix (drop g (sent b) @ take k bs) (drop h (received a))"
    using assms by (auto simp: passes_def simp del: same_prefix_prefix)
  then show ?thesis using assms by (auto simp: passes_def)
qed

lemma passes_fail: "passes h g a b Reading gone \<Longrightarrow> passes h g a b Stopped gone"
  by (auto simp: passes_def)

lemma passes_eof: "passes h g a b Reading gone \<Longrightarrow> passes h g a b Stopped True"
  by (auto simp: passes_def)

lemma passes_running: "passes h g a b fl gone \<Longrightarrow> fl \<noteq> Stopped \<Longrightarrow> \<not> gone"
  by (auto simp: passes_def)

lemma ShutdownWriteSafe_Inr:
  "ShutdownWriteSafe s flag f k = Inr s' \<Longrightarrow>
    received s' = received s \<and> sent s' = sent s \<and> (if flag then s' = s else send_shut s')"
  by (auto simp: ShutdownWriteSafe_def rbind_Inr_iff split: if_splits)

text \<open>The rest of the invariant, on the flags only.\<close>

definition flags_ok :: "bool \<Rightarrow> bool \<Rightarrow> bool \<Rightarrow> bool \<Rightarrow> bool \<Rightarrow> flow \<Rightarrow> flow \<Rightarrow> bool" where
  "flags_ok cs ds cg dg f u d \<longleftrightarrow> (ds \<longrightarrow> cg \<or> f) \<and> (cs \<longrightarrow> dg \<or> f) \<and>
     (\<not> f \<longrightarrow> (u = Stopped \<longrightarrow> cg) \<and> (d = Stopped \<longrightarrow> dg)) \<and> (cg \<longrightarrow> ds \<or> dg) \<and> (dg \<longrightarrow> cs \<or> cg) \<and>
     (f \<longrightarrow> cs \<and> ds \<and> (u = Stopped \<or> d = Stopped))"

definition relay_ok :: "nat \<Rightarrow> nat \<Rightarrow> relay \<Rightarrow> bool" where
  "relay_ok h g r \<longleftrightarrow> passes h 0 (client r) (dial r) (upload r) (client_gone r) \<and>
     passes 0 g (dial r) (client r) (download r) (dial_gone r) \<and>
     flags_ok (send_shut (client r)) (send_shut (dial r)) (client_gone r) (dial_gone r) (forced r) (upload r) (download r)"

lemma relay_okD:
  assumes "relay_ok h g r"
  shows "passes h 0 (client r) (dial r) (upload r) (client_gone r)" and "passes 0 g (dial r) (client r) (download r) (dial_gone r)"
    and "flags_ok (send_shut (client r)) (send_shut (dial r)) (client_gone r) (dial_gone r) (forced r) (upload r) (download r)"
  using assms by (simp_all add: relay_ok_def)

lemma relay_okI:
  assumes "passes h 0 (client r) (dial r) (upload r) (client_gone r)" and "passes 0 g (dial r) (client r) (download r) (dial_gone r)"
    and "flags_ok (send_shut (client r)) (send_shut (dial r)) (client_gone r) (dial_gone r) (forced r) (upload r) (download r)"
  shows "relay_ok h g r"
  using assms by (simp add: relay_ok_def)

lemma upload_ok:
  assumes ok: "relay_ok h g r" and step: "ForwardClientRequest r out = Some (Inr r')"
  shows "relay_ok h g r'"
proof (cases "upload r")
  case Reading
  note run = relay_okD(1) [OF ok, unfolded Reading] and down = relay_okD(2) [OF ok] and fl = relay_okD(3) [OF ok, unfolded Reading]
  consider (got) bs where "out = Got bs" | (eof) f k where "out = Eof f k" | (failed) "out = Failed"
    using step Reading by (cases out) (auto simp: ForwardClientRequest_def)
  then show ?thesis
  proof cases
    case got
    then have r': "r' = r\<lparr>client := deliver bs (client r), upload := Writing bs (\<not> send_shut (dial r))\<rparr>"
      using step Reading by (simp add: ForwardClientRequest_def split: if_splits)
    show ?thesis using fl
      by (intro relay_okI) (simp_all add: r' passes_got [OF run] passes_frame [OF down] flags_ok_def)
  next
    case eof
    then obtain d where d: "ShutdownWriteSafe (dial r) (dial_gone r) f k = Inr d"
        and r': "r' = r\<lparr>client_gone := True, dial := d, upload := Stopped\<rparr>"
      using step Reading by (auto simp: ForwardClientRequest_def rbind_Inr_iff Let_def)
    note s = ShutdownWriteSafe_Inr [OF d]
    show ?thesis using fl s passes_frame [OF passes_eof [OF run]] passes_frame [OF down]
      by (intro relay_okI) (auto simp: r' flags_ok_def split: if_splits)
  next
    case failed
    then have r': "r' = (ForceShutdown r)\<lparr>upload := Stopped\<rparr>" using step Reading by (simp add: ForwardClientRequest_def)
    show ?thesis using passes_frame [OF passes_fail [OF run]] passes_frame [OF down]
      by (intro relay_okI) (simp_all add: r' flags_ok_def)
  qed
next
  case (Writing bs opened)
  note run = relay_okD(1) [OF ok, unfolded Writing] and down = relay_okD(2) [OF ok] and fl = relay_okD(3) [OF ok, unfolded Writing]
  consider (done_) "out = Done" | (broke) k where "out = Broke k" using step Writing by (cases out) (auto simp: ForwardClientRequest_def)
  then show ?thesis
  proof cases
    case done_
    then have r': "r' = r\<lparr>dial := take_in bs (dial r), upload := Reading\<rparr>"
      using step Writing by (simp add: ForwardClientRequest_def split: if_splits)
    show ?thesis using fl
      by (intro relay_okI) (simp_all add: r' passes_done [OF run] passes_frame [OF down] flags_ok_def)
  next
    case broke
    then have r': "r' = (ForceShutdown (r\<lparr>dial := take_in (take k bs) (dial r)\<rparr>))\<lparr>upload := Stopped\<rparr>"
      using step Writing by (simp add: ForwardClientRequest_def split: if_splits)
    show ?thesis using passes_frame [OF passes_broke [OF run, of k]] passes_frame [OF down]
      by (intro relay_okI) (simp_all add: r' flags_ok_def)
  qed
qed (use step in \<open>simp add: ForwardClientRequest_def\<close>)

lemma download_ok:
  assumes ok: "relay_ok h g r" and step: "ForwardRemoteResponse r out = Some (Inr r')"
  shows "relay_ok h g r'"
proof (cases "download r")
  case Reading
  note run = relay_okD(2) [OF ok, unfolded Reading] and up = relay_okD(1) [OF ok] and fl = relay_okD(3) [OF ok, unfolded Reading]
  consider (got) bs where "out = Got bs" | (eof) f k where "out = Eof f k" | (failed) "out = Failed"
    using step Reading by (cases out) (auto simp: ForwardRemoteResponse_def)
  then show ?thesis
  proof cases
    case got
    then have r': "r' = r\<lparr>dial := deliver bs (dial r), download := Writing bs (\<not> send_shut (client r))\<rparr>"
      using step Reading by (simp add: ForwardRemoteResponse_def split: if_splits)
    show ?thesis using fl
      by (intro relay_okI) (simp_all add: r' passes_got [OF run] passes_frame [OF up] flags_ok_def)
  next
    case eof
    then obtain c where c: "ShutdownWriteSafe (client r) (client_gone r) f k = Inr c"
        and r': "r' = r\<lparr>dial_gone := True, client := c, download := Stopped\<rparr>"
      using step Reading by (auto simp: ForwardRemoteResponse_def rbind_Inr_iff Let_def)
    note s = ShutdownWriteSafe_Inr [OF c]
    show ?thesis using fl s passes_frame [OF passes_eof [OF run]] passes_frame [OF up]
      by (intro relay_okI) (auto simp: r' flags_ok_def split: if_splits)
  next
    case failed
    then have r': "r' = (ForceShutdown r)\<lparr>download := Stopped\<rparr>" using step Reading by (simp add: ForwardRemoteResponse_def)
    show ?thesis using passes_frame [OF passes_fail [OF run]] passes_frame [OF up]
      by (intro relay_okI) (simp_all add: r' flags_ok_def)
  qed
next
  case (Writing bs opened)
  note run = relay_okD(2) [OF ok, unfolded Writing] and up = relay_okD(1) [OF ok] and fl = relay_okD(3) [OF ok, unfolded Writing]
  consider (done_) "out = Done" | (broke) k where "out = Broke k" using step Writing by (cases out) (auto simp: ForwardRemoteResponse_def)
  then show ?thesis
  proof cases
    case done_
    then have r': "r' = r\<lparr>client := take_in bs (client r), download := Reading\<rparr>"
      using step Writing by (simp add: ForwardRemoteResponse_def split: if_splits)
    show ?thesis using fl
      by (intro relay_okI) (simp_all add: r' passes_done [OF run] passes_frame [OF up] flags_ok_def)
  next
    case broke
    then have r': "r' = (ForceShutdown (r\<lparr>client := take_in (take k bs) (client r)\<rparr>))\<lparr>download := Stopped\<rparr>"
      using step Writing by (simp add: ForwardRemoteResponse_def split: if_splits)
    show ?thesis using passes_frame [OF passes_broke [OF run, of k]] passes_frame [OF up]
      by (intro relay_okI) (simp_all add: r' flags_ok_def)
  qed
qed (use step in \<open>simp add: ForwardRemoteResponse_def\<close>)

lemma relay_step_ok: "relay_ok h g r \<Longrightarrow> relay_step r e = Some (Inr r') \<Longrightarrow> relay_ok h g r'"
  using upload_ok [of h g r _ r'] download_ok [of h g r _ r'] by (cases e) (simp_all add: relay_step_def)

lemma received_grows:
  assumes "relay_step r e = Some (Inr r')"
  shows "prefix (received (client r)) (received (client r'))" and "prefix (sent (client r)) (sent (client r'))"
  using assms
  by (cases e; auto simp: relay_step_def ForwardClientRequest_def ForwardRemoteResponse_def Let_def rbind_Inr_iff
      dest: ShutdownWriteSafe_Inr split: flow.splits outcome.splits if_splits)+

text \<open>A tunnel that does not relay yet.\<close>

definition idle_relay :: "relay \<Rightarrow> byte list \<Rightarrow> byte list \<Rightarrow> bool" where
  "idle_relay r rc sc \<longleftrightarrow> r = relay_new\<lparr>client := \<lparr>received = rc, sent = sc, send_shut = False\<rparr>\<rparr>"

definition unrelayed :: "relay \<Rightarrow> bool" where
  "unrelayed r \<longleftrightarrow> dial r = sock_new \<and> \<not> client_gone r \<and> \<not> dial_gone r \<and> \<not> forced r \<and> upload r = Stopped \<and> download r = Stopped"

lemma idle_simps [simp]:
  "idle_relay r rc sc \<Longrightarrow> idle_relay (r\<lparr>client := deliver bs (client r)\<rparr>) (rc @ bs) sc"
  "idle_relay r rc sc \<Longrightarrow> idle_relay (r\<lparr>client := take_in bs (client r)\<rparr>) rc (sc @ bs)"
  "idle_relay r rc sc \<Longrightarrow> unrelayed r"
  by (simp_all add: idle_relay_def relay_new_def deliver_def take_in_def unrelayed_def)

lemma unrelayed_client [simp]: "unrelayed (r\<lparr>client := c\<rparr>) = unrelayed r"
  by (simp add: unrelayed_def)

section \<open>Ending\<close>

text \<open>How many operations can still complete in a direction whose new writes fail.\<close>

fun flow_left :: "flow \<Rightarrow> nat" where
  "flow_left Reading = 2"
| "flow_left (Writing bs opened) = (if opened then 3 else 1)"
| "flow_left Stopped = 0"

lemma forced_step:
  assumes "forced r" and "send_shut (client r)" and "send_shut (dial r)" and "relay_step r e = Some (Inr r')"
  shows "forced r' \<and> send_shut (client r') \<and> send_shut (dial r') \<and>
    flow_left (upload r') + flow_left (download r') < flow_left (upload r) + flow_left (download r)"
proof (cases e)
  case (Up out)
  then show ?thesis using assms
    by (cases "upload r"; cases out)
      (auto simp: relay_step_def ForwardClientRequest_def ShutdownWriteSafe_def Let_def rbind_Inr_iff split: if_splits)
next
  case (Down out)
  then show ?thesis using assms
    by (cases "download r"; cases out)
      (auto simp: relay_step_def ForwardRemoteResponse_def ShutdownWriteSafe_def Let_def rbind_Inr_iff split: if_splits)
qed

lemma forced_run:
  assumes "forced r" and "send_shut (client r)" and "send_shut (dial r)" and "orun relay_step es r = Some (Inr r')"
  shows "length es \<le> flow_left (upload r) + flow_left (download r)"
  using assms
proof (induction es arbitrary: r)
  case (Cons e es)
  then obtain r1 where r1: "relay_step r e = Some (Inr r1)" "orun relay_step es r1 = Some (Inr r')"
    by (auto split: option.splits sum.splits if_splits)
  show ?case using forced_step [OF Cons.prems(1-3) r1(1)] Cons.IH [OF _ _ _ r1(2)] by fastforce
qed simp

end
