(* ===== verification/Socks5.thy ===== *)
theory Socks5
  imports Relay
begin

text \<open>
  The SOCKS5 tunnel (\<open>src/learn-cxx/asio/socks5/tunnel.cpp\<close>, \<open>packets.h\<close>): the greeting and the request of the
  client are read piece by piece, each piece by an asynchronous operation; then the remote host is
  connected and bytes are relayed. The theory shows that the bytes read are parsed as the protocol says,
  whatever the environment does in between, that the client is connected to the destination it asked for,
  and where the code departs from the protocol.
\<close>

section \<open>Packets\<close>

record packet =
  ver :: byte
  cmd :: byte
  reserved :: byte
  addr_type :: byte
  dest_addr :: "byte list"
  dest_port :: "16 word"

definition packet_new :: packet where
  "packet_new = \<lparr>ver = 0, cmd = 0, reserved = 0, addr_type = 0, dest_addr = [], dest_port = 0\<rparr>"

definition kSocks5Ver :: byte where "kSocks5Ver = 5"
definition kCmdConnect :: byte where "kCmdConnect = 1"
definition kAddrIPv4 :: byte where "kAddrIPv4 = 1"
definition kAddrDomain :: byte where "kAddrDomain = 3"
definition kAddrIPv6 :: byte where "kAddrIPv6 = 4"

datatype reject_reason = GeneralFailure | HostUnreachable | CommandNotSupported

fun reason_code :: "reject_reason \<Rightarrow> byte" where
  "reason_code GeneralFailure = 1"
| "reason_code HostUnreachable = 4"
| "reason_code CommandNotSupported = 7"

section \<open>The tunnel\<close>

text \<open>
  The asynchronous operation that is under way, with what its handler holds. \<open>Ended\<close>: no operation refers to the
  tunnel any more.
\<close>

datatype op =
    Read_preamble
  | Read_methods byte
  | Write_greeting
  | Read_request
  | Read_domain_length packet
  | Read_domain packet nat
  | Read_address packet nat
  | Read_port packet
  | Connecting "endpoint list"
  | Write_reply "byte list"
  | Write_reject "byte list"
  | Tunneling
  | Ended

record tunnel =
  rel :: relay
  op :: op
  remote_addr :: "endpoint option"

text \<open>The constructor and \<open>Run\<close>, both of which ask for the address of the client.\<close>

definition Tunnel_Run :: "bool \<Rightarrow> tunnel res" where
  "Tunnel_Run peer_known =
     rbind (guard peer_known (Thrown ''remote_endpoint'')) (\<lambda>_. Inr \<lparr>rel = relay_new, op = Read_preamble, remote_addr = None\<rparr>)"

text \<open>\<open>shutdown_both\<close>: nothing is read afterwards, since no operation is started.\<close>

definition ShutdownClient :: "tunnel \<Rightarrow> tunnel" where
  "ShutdownClient t = t\<lparr>rel := (rel t)\<lparr>client := (client (rel t))\<lparr>send_shut := True\<rparr>\<rparr>, op := Ended\<rparr>"

definition RejectClient :: "reject_reason \<Rightarrow> tunnel \<Rightarrow> tunnel" where
  "RejectClient reason t = t\<lparr>op := Write_reject [kSocks5Ver, reason_code reason, 0, kAddrIPv4, 0, 0, 0, 0, 0, 0]\<rparr>"

definition ReplyGreeting :: "tunnel \<Rightarrow> tunnel" where
  "ReplyGreeting t = t\<lparr>op := Write_greeting\<rparr>"

definition kReplyGreeting :: "byte list" where
  "kReplyGreeting = [5, 0]"

definition ConnetRemote :: "outside \<Rightarrow> packet \<Rightarrow> tunnel \<Rightarrow> tunnel res" where
  "ConnetRemote x p t =
     (if addr_type p = kAddrIPv4 then
        rbind (guard (length (dest_addr p) = 4) Assert_failed) (\<lambda>_.
        Inr (t\<lparr>op := Connecting [(IPv4 (swap32 x (obj_word (host x) (dest_addr p))), dest_port p)]\<rparr>))
      else if addr_type p = kAddrIPv6 then
        rbind (guard (length (dest_addr p) = 16) Assert_failed) (\<lambda>_.
        Inr (t\<lparr>op := Connecting [(IPv6 (dest_addr p), dest_port p)]\<rparr>))
      else case resolve x (dest_addr p) (dest_port p) of
        None \<Rightarrow> Inr (RejectClient HostUnreachable t)
      | Some endpoints \<Rightarrow> Inr (t\<lparr>op := Connecting endpoints\<rparr>))"

definition reply_bytes :: "outside \<Rightarrow> byte list" where
  "reply_bytes x = [5, 0, 0, 1, 0, 0, 0, 0] @ obj_bytes (host x) (swap16 x (local_port x))"

definition ReplyRequest :: "outside \<Rightarrow> tunnel \<Rightarrow> tunnel" where
  "ReplyRequest x t = t\<lparr>op := Write_reply (reply_bytes x)\<rparr>"

definition StartTunneling :: "tunnel \<Rightarrow> tunnel" where
  "StartTunneling t = t\<lparr>rel := (rel t)\<lparr>upload := Reading, download := Reading\<rparr>, op := Tunneling\<rparr>"

text \<open>The handlers of the reads, given all the bytes they asked for.\<close>

definition bytes_wanted :: "op \<Rightarrow> nat option" where
  "bytes_wanted o' = (case o' of Read_preamble \<Rightarrow> Some 2 | Read_methods n \<Rightarrow> Some (unat n) | Read_request \<Rightarrow> Some 4
     | Read_domain_length p \<Rightarrow> Some 1 | Read_domain p n \<Rightarrow> Some n | Read_address p n \<Rightarrow> Some n | Read_port p \<Rightarrow> Some 2 | _ \<Rightarrow> None)"

definition ReadGreetingPacket_preamble :: "byte list \<Rightarrow> tunnel \<Rightarrow> tunnel" where
  "ReadGreetingPacket_preamble bs t =
     (if bs ! 0 \<noteq> kSocks5Ver \<or> bs ! 1 = 0 then ShutdownClient t else t\<lparr>op := Read_methods (bs ! 1)\<rparr>)"

definition ReadRequestpacket_preamble :: "byte list \<Rightarrow> tunnel \<Rightarrow> tunnel" where
  "ReadRequestpacket_preamble bs t =
     (let p = packet_new\<lparr>ver := bs ! 0, cmd := bs ! 1, reserved := bs ! 2, addr_type := bs ! 3\<rparr>
      in if ver p \<noteq> kSocks5Ver then RejectClient GeneralFailure t
         else if cmd p \<noteq> kCmdConnect then RejectClient CommandNotSupported t
         else if addr_type p = kAddrDomain then t\<lparr>op := Read_domain_length p\<rparr>
         else t\<lparr>op := Read_address p (if addr_type p = kAddrIPv4 then 4 else 16)\<rparr>)"

definition read_handler :: "outside \<Rightarrow> byte list \<Rightarrow> tunnel \<Rightarrow> tunnel res" where
  "read_handler x bs t = (case op t of
     Read_preamble \<Rightarrow> Inr (ReadGreetingPacket_preamble bs t)
   | Read_methods n \<Rightarrow> Inr (ReplyGreeting t)
   | Read_request \<Rightarrow> Inr (ReadRequestpacket_preamble bs t)
   | Read_domain_length p \<Rightarrow> Inr (t\<lparr>op := Read_domain p (unat (bs ! 0))\<rparr>)
   | Read_domain p n \<Rightarrow> Inr (t\<lparr>op := Read_port (p\<lparr>dest_addr := bs\<rparr>)\<rparr>)
   | Read_address p n \<Rightarrow> Inr (t\<lparr>op := Read_port (p\<lparr>dest_addr := bs\<rparr>)\<rparr>)
   | Read_port p \<Rightarrow> ConnetRemote x (p\<lparr>dest_port := swap16 x (obj_word (host x) bs)\<rparr>) t
   | _ \<Rightarrow> Inr t)"

text \<open>A read that fails.\<close>

definition read_failure :: "tunnel \<Rightarrow> tunnel" where
  "read_failure t = (case op t of
     Read_preamble \<Rightarrow> ShutdownClient t
   | Read_methods n \<Rightarrow> ShutdownClient t
   | Read_request \<Rightarrow> ShutdownClient t
   | _ \<Rightarrow> RejectClient GeneralFailure t)"

text \<open>The handlers of the writes: the bytes to write, and what follows.\<close>

definition bytes_offered :: "op \<Rightarrow> byte list option" where
  "bytes_offered o' = (case o' of Write_greeting \<Rightarrow> Some kReplyGreeting | Write_reply bs \<Rightarrow> Some bs | Write_reject bs \<Rightarrow> Some bs | _ \<Rightarrow> None)"

definition write_handler :: "bool \<Rightarrow> nat \<Rightarrow> tunnel \<Rightarrow> tunnel res" where
  "write_handler failed bytes t = (case op t of
     Write_greeting \<Rightarrow> Inr (if failed then ShutdownClient t else t\<lparr>op := Read_request\<rparr>)
   | Write_reply bs \<Rightarrow>
       rbind (guard (bytes = 10) Assert_failed) (\<lambda>_. Inr (if failed then ShutdownClient t else StartTunneling t))
   | Write_reject bs \<Rightarrow> Inr (ShutdownClient t)
   | _ \<Rightarrow> Inr t)"

text \<open>
  One completed operation. \<open>None\<close>: the operation under way cannot end this way - \<open>async_read\<close> delivers exactly
  the bytes it was asked for or fails with fewer, \<open>async_write\<close> writes everything or fails with less, and
  \<open>async_connect\<close> connects to one of the endpoints it was given.
\<close>

datatype event =
    Read_ok "byte list"
  | Read_fail "byte list"
  | Write_ok
  | Write_fail nat
  | Connect_ok endpoint
  | Connect_fail
  | Relay_event side

definition got :: "byte list \<Rightarrow> tunnel \<Rightarrow> tunnel" where
  "got bs t = t\<lparr>rel := (rel t)\<lparr>client := deliver bs (client (rel t))\<rparr>\<rparr>"

definition put :: "byte list \<Rightarrow> tunnel \<Rightarrow> tunnel" where
  "put bs t = t\<lparr>rel := (rel t)\<lparr>client := take_in bs (client (rel t))\<rparr>\<rparr>"

definition tunnel_step :: "outside \<Rightarrow> tunnel \<Rightarrow> event \<Rightarrow> tunnel res option" where
  "tunnel_step x t e = (case e of
     Read_ok bs \<Rightarrow> if bytes_wanted (op t) = Some (length bs) then Some (read_handler x bs (got bs t)) else None
   | Read_fail bs \<Rightarrow> (case bytes_wanted (op t) of
       Some n \<Rightarrow> if length bs < n then Some (Inr (read_failure (got bs t))) else None
     | None \<Rightarrow> None)
   | Write_ok \<Rightarrow> (case bytes_offered (op t) of
       Some bs \<Rightarrow> Some (write_handler False (length bs) (put bs t))
     | None \<Rightarrow> None)
   | Write_fail k \<Rightarrow> (case bytes_offered (op t) of
       Some bs \<Rightarrow> if k < length bs then Some (write_handler True k (put (take k bs) t)) else None
     | None \<Rightarrow> None)
   | Connect_ok ep \<Rightarrow> (case op t of
       Connecting eps \<Rightarrow> if ep \<in> set eps then Some (Inr (ReplyRequest x (t\<lparr>remote_addr := Some ep\<rparr>))) else None
     | _ \<Rightarrow> None)
   | Connect_fail \<Rightarrow> (case op t of Connecting eps \<Rightarrow> Some (Inr (RejectClient HostUnreachable t)) | _ \<Rightarrow> None)
   | Relay_event ev \<Rightarrow> (case op t of
       Tunneling \<Rightarrow> (case relay_step (rel t) ev of
         None \<Rightarrow> None
       | Some (Inl f) \<Rightarrow> Some (Inl f)
       | Some (Inr r) \<Rightarrow> Some (Inr (t\<lparr>rel := r, op := if upload r = Stopped \<and> download r = Stopped then Ended else Tunneling\<rparr>)))
     | _ \<Rightarrow> None))"

section \<open>The protocol\<close>

text \<open>
  What a client says, as in RFC 1928. \<open>Unknown_type\<close> is not part of it: the code reads 16 bytes for an
  address type that it does not know, and looks them up as a name.
\<close>

datatype destination = Host_v4 "32 word" | Host_v6 "byte list" | Host_name "byte list" | Unknown_type byte "byte list"

fun dest_ok :: "destination \<Rightarrow> bool" where
  "dest_ok (Host_v4 w) \<longleftrightarrow> True"
| "dest_ok (Host_v6 bs) \<longleftrightarrow> length bs = 16"
| "dest_ok (Host_name bs) \<longleftrightarrow> length bs < 256"
| "dest_ok (Unknown_type a bs) \<longleftrightarrow> a \<notin> {1, 3, 4} \<and> length bs = 16"

fun dest_bytes :: "destination \<Rightarrow> byte list" where
  "dest_bytes (Host_v4 w) = 1 # be_bytes w"
| "dest_bytes (Host_v6 bs) = 4 # bs"
| "dest_bytes (Host_name bs) = 3 # of_nat (length bs) # bs"
| "dest_bytes (Unknown_type a bs) = a # bs"

definition methods_ok :: "byte list \<Rightarrow> bool" where
  "methods_ok ms \<longleftrightarrow> 0 < length ms \<and> length ms < 256"

definition greeting :: "byte list \<Rightarrow> byte list" where
  "greeting ms = [5, of_nat (length ms)] @ ms"

definition request :: "byte \<Rightarrow> destination \<Rightarrow> 16 word \<Rightarrow> byte list" where
  "request rsv d port = [5, 1, rsv] @ dest_bytes d @ be_bytes port"

text \<open>Where a tunnel to a destination leads.\<close>

fun endpoints :: "outside \<Rightarrow> destination \<Rightarrow> 16 word \<Rightarrow> endpoint list option" where
  "endpoints x (Host_v4 w) port = Some [(IPv4 w, port)]"
| "endpoints x (Host_v6 bs) port = Some [(IPv6 bs, port)]"
| "endpoints x (Host_name bs) port = resolve x bs port"
| "endpoints x (Unknown_type a bs) port = resolve x bs port"

section \<open>The invariant\<close>

definition dest_of :: "packet \<Rightarrow> destination" where
  "dest_of p = (if addr_type p = 1 then Host_v4 (le_word (rev (dest_addr p))) else if addr_type p = 4 then Host_v6 (dest_addr p)
     else if addr_type p = 3 then Host_name (dest_addr p) else Unknown_type (addr_type p) (dest_addr p))"

definition requested :: "outside \<Rightarrow> endpoint list \<Rightarrow> byte list \<Rightarrow> bool" where
  "requested x eps rc \<longleftrightarrow> (\<exists>ms rsv d port. methods_ok ms \<and> dest_ok d \<and> endpoints x d port = Some eps \<and>
     rc = greeting ms @ request rsv d port)"

text \<open>The relay of an established tunnel: the handshake, and what is passed on behind it.\<close>

definition established :: "outside \<Rightarrow> tunnel \<Rightarrow> bool" where
  "established x t \<longleftrightarrow> (\<exists>eps ep hs d e. requested x eps hs \<and> remote_addr t = Some ep \<and> ep \<in> set eps \<and>
     received (client (rel t)) = hs @ d \<and> sent (client (rel t)) = kReplyGreeting @ reply_bytes x @ e \<and>
     relay_ok (length hs) (length (kReplyGreeting @ reply_bytes x)) (rel t))"

definition tunnel_ok :: "outside \<Rightarrow> tunnel \<Rightarrow> bool" where
  "tunnel_ok x t \<longleftrightarrow> (case op t of
     Read_preamble \<Rightarrow> idle_relay (rel t) [] []
   | Read_methods n \<Rightarrow> n \<noteq> 0 \<and> idle_relay (rel t) [5, n] []
   | Write_greeting \<Rightarrow> (\<exists>ms. methods_ok ms \<and> idle_relay (rel t) (greeting ms) [])
   | Read_request \<Rightarrow> (\<exists>ms. methods_ok ms \<and> idle_relay (rel t) (greeting ms) kReplyGreeting)
   | Read_domain_length p \<Rightarrow> addr_type p = 3 \<and>
       (\<exists>ms. methods_ok ms \<and> idle_relay (rel t) (greeting ms @ [5, 1, reserved p, 3]) kReplyGreeting)
   | Read_domain p n \<Rightarrow> addr_type p = 3 \<and> n < 256 \<and>
       (\<exists>ms. methods_ok ms \<and> idle_relay (rel t) (greeting ms @ [5, 1, reserved p, 3, of_nat n]) kReplyGreeting)
   | Read_address p n \<Rightarrow> addr_type p \<noteq> 3 \<and> n = (if addr_type p = 1 then 4 else 16) \<and>
       (\<exists>ms. methods_ok ms \<and> idle_relay (rel t) (greeting ms @ [5, 1, reserved p, addr_type p]) kReplyGreeting)
   | Read_port p \<Rightarrow> dest_ok (dest_of p) \<and> (addr_type p = 1 \<longrightarrow> length (dest_addr p) = 4) \<and>
       (\<exists>ms. methods_ok ms \<and> idle_relay (rel t) (greeting ms @ [5, 1, reserved p] @ dest_bytes (dest_of p)) kReplyGreeting)
   | Connecting eps \<Rightarrow> (\<exists>rc. requested x eps rc \<and> idle_relay (rel t) rc kReplyGreeting)
   | Write_reply bs \<Rightarrow> bs = reply_bytes x \<and>
       (\<exists>eps ep rc. requested x eps rc \<and> remote_addr t = Some ep \<and> ep \<in> set eps \<and> idle_relay (rel t) rc kReplyGreeting)
   | Write_reject bs \<Rightarrow> (\<exists>reason. bs = [5, reason_code reason, 0, 1, 0, 0, 0, 0, 0, 0]) \<and> unrelayed (rel t)
   | Tunneling \<Rightarrow> established x t
   | Ended \<Rightarrow> established x t \<or> unrelayed (rel t))"

lemma got_put_simps [simp]:
  "op (got bs t) = op t" "op (put bs t) = op t" "rel (got bs t) = (rel t)\<lparr>client := deliver bs (client (rel t))\<rparr>"
  "rel (put bs t) = (rel t)\<lparr>client := take_in bs (client (rel t))\<rparr>" "remote_addr (put bs t) = remote_addr t"
  by (simp_all add: got_def put_def)

lemma shutdown_ok: "unrelayed (rel t) \<Longrightarrow> tunnel_ok x (ShutdownClient t)"
  by (simp add: tunnel_ok_def ShutdownClient_def)

lemma reject_ok: "unrelayed (rel t) \<Longrightarrow> tunnel_ok x (RejectClient reason t)"
  by (auto simp: tunnel_ok_def RejectClient_def kSocks5Ver_def kAddrIPv4_def)

lemma list_length_2: "length xs = 2 \<Longrightarrow> xs = [xs ! 0, xs ! 1]"
  by (cases xs; cases "tl xs"; auto)

lemma list_length_4: "length xs = 4 \<Longrightarrow> xs = [xs ! 0, xs ! 1, xs ! 2, xs ! 3]"
  by (cases xs; cases "tl xs"; cases "tl (tl xs)"; cases "tl (tl (tl xs))"; auto simp: numeral_3_eq_3)

section \<open>Steps\<close>

lemmas op_facts = tunnel_ok_def bytes_wanted_def read_handler_def bytes_offered_def write_handler_def

lemma read_ok_ok:
  assumes x: "outside_ok x" and ok: "tunnel_ok x t" and n: "bytes_wanted (op t) = Some (length bs)"
    and step: "read_handler x bs (got bs t) = Inr t'"
  shows "tunnel_ok x t'"
proof (cases "op t")
  case Read_preamble
  then have idle: "idle_relay (rel t) [] []" and b: "bs = [bs ! 0, bs ! 1]"
    using ok n list_length_2 [of bs] by (simp_all add: tunnel_ok_def bytes_wanted_def)
  have t': "t' = ReadGreetingPacket_preamble bs (got bs t)" using step Read_preamble by (simp add: read_handler_def)
  show ?thesis
  proof (cases "bs ! 0 \<noteq> kSocks5Ver \<or> bs ! 1 = 0")
    case True
    then show ?thesis using t' idle by (auto simp: ReadGreetingPacket_preamble_def intro!: shutdown_ok)
  next
    case False
    then have "bs = [5, bs ! 1]" using b by (simp add: kSocks5Ver_def)
    then show ?thesis using t' idle False idle_simps(1) [OF idle, of bs]
      by (simp add: ReadGreetingPacket_preamble_def tunnel_ok_def)
  qed
next
  case (Read_methods k)
  then have idle: "idle_relay (rel t) [5, k] []" and k: "k \<noteq> 0" "length bs = unat k"
    using ok n by (auto simp: tunnel_ok_def bytes_wanted_def)
  have "unat k < 256" using unsigned_less [of k, where 'a = nat] by simp
  then have "methods_ok bs" using k by (simp add: methods_ok_def unat_gt_0)
  moreover have "[5, k] @ bs = greeting bs" using k by (simp add: greeting_def)
  ultimately show ?thesis using idle_simps(1) [OF idle, of bs] step Read_methods
    by (auto simp: read_handler_def ReplyGreeting_def tunnel_ok_def)
next
  case Read_request
  then obtain ms where ms: "methods_ok ms" and idle: "idle_relay (rel t) (greeting ms) kReplyGreeting" and b: "bs = [bs ! 0, bs ! 1, bs ! 2, bs ! 3]"
    using ok n list_length_4 [of bs] by (auto simp: tunnel_ok_def bytes_wanted_def)
  have t': "t' = ReadRequestpacket_preamble bs (got bs t)" using step Read_request by (simp add: read_handler_def)
  show ?thesis
  proof (cases "bs ! 0 = kSocks5Ver \<and> bs ! 1 = kCmdConnect")
    case True
    then obtain rsv a where bs: "bs = [5, 1, rsv, a]" using b by (auto simp: kSocks5Ver_def kCmdConnect_def)
    show ?thesis using t' idle_simps(1) [OF idle, of bs] ms unfolding bs
      by (auto simp: ReadRequestpacket_preamble_def tunnel_ok_def kAddrDomain_def kAddrIPv4_def kSocks5Ver_def kCmdConnect_def Let_def)
  next
    case False
    then show ?thesis using t' idle by (auto simp: ReadRequestpacket_preamble_def Let_def intro!: reject_ok)
  qed
next
  case (Read_domain_length p)
  then obtain ms where ms: "methods_ok ms" "addr_type p = 3" and idle: "idle_relay (rel t) (greeting ms @ [5, 1, reserved p, 3]) kReplyGreeting"
      and b: "length bs = 1"
    using ok n by (auto simp: tunnel_ok_def bytes_wanted_def)
  have "bs = [bs ! 0]" using b by (cases bs) auto
  moreover have "unat (bs ! 0) < 256" using unsigned_less [of "bs ! 0", where 'a = nat] by simp
  ultimately show ?thesis using idle_simps(1) [OF idle, of bs] ms step Read_domain_length
    by (auto simp: read_handler_def tunnel_ok_def)
next
  case (Read_domain p k)
  have b: "length bs = k" using n unfolding bytes_wanted_def Read_domain by simp
  have "addr_type p = 3 \<and> k < 256 \<and>
      (\<exists>ms. methods_ok ms \<and> idle_relay (rel t) (greeting ms @ [5, 1, reserved p, 3, of_nat k]) kReplyGreeting)"
    using ok unfolding tunnel_ok_def Read_domain op.case .
  then obtain ms where ms: "methods_ok ms" "addr_type p = 3" "k < 256"
      and idle: "idle_relay (rel t) (greeting ms @ [5, 1, reserved p, 3, of_nat k]) kReplyGreeting" by blast
  have d: "dest_of (p\<lparr>dest_addr := bs\<rparr>) = Host_name bs" using ms by (simp add: dest_of_def)
  have "t' = got bs t\<lparr>op := Read_port (p\<lparr>dest_addr := bs\<rparr>)\<rparr>" using step Read_domain by (simp add: read_handler_def)
  moreover have "idle_relay (rel (got bs t)) (greeting ms @ [5, 1, reserved p] @ dest_bytes (Host_name bs)) kReplyGreeting"
    using idle_simps(1) [OF idle, of bs] b by simp
  ultimately show ?thesis using ms b d by (auto simp: tunnel_ok_def)
next
  case (Read_address p k)
  have b: "length bs = k" using n unfolding bytes_wanted_def Read_address by simp
  have "addr_type p \<noteq> 3 \<and> k = (if addr_type p = 1 then 4 else 16) \<and>
      (\<exists>ms. methods_ok ms \<and> idle_relay (rel t) (greeting ms @ [5, 1, reserved p, addr_type p]) kReplyGreeting)"
    using ok unfolding tunnel_ok_def Read_address op.case .
  then obtain ms where ms: "methods_ok ms" "addr_type p \<noteq> 3" "k = (if addr_type p = 1 then 4 else 16)"
      and idle: "idle_relay (rel t) (greeting ms @ [5, 1, reserved p, addr_type p]) kReplyGreeting" by blast
  let ?p = "p\<lparr>dest_addr := bs\<rparr>"
  have d: "dest_ok (dest_of ?p)" "addr_type ?p = 1 \<longrightarrow> length (dest_addr ?p) = 4" "dest_bytes (dest_of ?p) = addr_type p # bs"
    using ms b by (auto simp: dest_of_def)
  have "t' = got bs t\<lparr>op := Read_port ?p\<rparr>" using step Read_address by (simp add: read_handler_def)
  moreover have "idle_relay (rel (got bs t)) (greeting ms @ [5, 1, reserved p] @ dest_bytes (dest_of ?p)) kReplyGreeting"
    using idle_simps(1) [OF idle, of bs] d(3) by simp
  ultimately show ?thesis using ms(1) d(1,2) by (simp add: tunnel_ok_def) blast
next
  case (Read_port p)
  have b: "length bs = 2" using n unfolding bytes_wanted_def Read_port by simp
  have "dest_ok (dest_of p) \<and> (addr_type p = 1 \<longrightarrow> length (dest_addr p) = 4) \<and>
      (\<exists>ms. methods_ok ms \<and> idle_relay (rel t) (greeting ms @ [5, 1, reserved p] @ dest_bytes (dest_of p)) kReplyGreeting)"
    using ok unfolding tunnel_ok_def Read_port op.case .
  then obtain ms where ms: "methods_ok ms" "dest_ok (dest_of p)" "addr_type p = 1 \<longrightarrow> length (dest_addr p) = 4"
      and idle: "idle_relay (rel t) (greeting ms @ [5, 1, reserved p] @ dest_bytes (dest_of p)) kReplyGreeting" by blast
  let ?port = "le_word (rev bs) :: 16 word"
  let ?rc = "greeting ms @ request (reserved p) (dest_of p) ?port"
  have port: "swap16 x (obj_word (host x) bs) = ?port" using x b by (simp add: outside_ok_def obj_word_def bswap_le_word)
  have idle': "idle_relay (rel (got bs t)) ?rc kReplyGreeting"
    using idle_simps(1) [OF idle, of bs] b by (simp add: request_def)
  have ok': "tunnel_ok x (got bs t\<lparr>op := Connecting eps\<rparr>)" if "endpoints x (dest_of p) ?port = Some eps" for eps
  proof -
    have "requested x eps ?rc" unfolding requested_def using that ms(1,2) by blast
    then have "\<exists>rc. requested x eps rc \<and> idle_relay (rel (got bs t)) rc kReplyGreeting" using idle' by blast
    then show ?thesis by (simp add: tunnel_ok_def)
  qed
  have "ConnetRemote x (p\<lparr>dest_port := ?port\<rparr>) (got bs t) = Inr t'" using step Read_port port by (simp add: read_handler_def)
  then show ?thesis using ok' ms x reject_ok [of "got bs t"] idle
    by (auto simp: ConnetRemote_def dest_of_def kAddrIPv4_def kAddrIPv6_def outside_ok_def obj_word_def bswap_le_word rbind_Inr_iff
        split: if_splits option.splits)
qed (use n in \<open>simp_all add: bytes_wanted_def\<close>)

lemma read_fail_ok:
  assumes ok: "tunnel_ok x t" and n: "bytes_wanted (op t) = Some n"
  shows "tunnel_ok x (read_failure (got bs t))"
proof -
  have "unrelayed (rel t)" using ok n by (auto simp: tunnel_ok_def bytes_wanted_def split: op.splits)
  then show ?thesis using n
    by (auto simp: read_failure_def bytes_wanted_def split: op.splits intro!: shutdown_ok reject_ok)
qed

lemma established_start:
  assumes "requested x eps rc" and "remote_addr t = Some ep" and "ep \<in> set eps"
    and "idle_relay (rel t) rc (kReplyGreeting @ reply_bytes x)"
  shows "established x (StartTunneling t)"
  using assms unfolding established_def
  by (intro exI [of _ eps] exI [of _ ep] exI [of _ rc] exI [of _ "[]"])
    (auto simp: StartTunneling_def idle_relay_def relay_new_def sock_new_def relay_ok_def passes_def flags_ok_def)

lemma write_ok_ok:
  assumes ok: "tunnel_ok x t" and n: "bytes_offered (op t) = Some bs" and step: "write_handler False (length bs) (put bs t) = Inr t'"
  shows "tunnel_ok x t'"
proof (cases "op t")
  case Write_greeting
  then obtain ms where ms: "methods_ok ms" and idle: "idle_relay (rel t) (greeting ms) []" using ok by (auto simp: tunnel_ok_def)
  have "bs = kReplyGreeting" using n Write_greeting by (simp add: bytes_offered_def)
  then show ?thesis using ms idle_simps(2) [OF idle, of bs] step Write_greeting by (auto simp: write_handler_def tunnel_ok_def)
next
  case (Write_reply cs)
  then obtain eps ep rc where r: "requested x eps rc" "remote_addr t = Some ep" "ep \<in> set eps" "bs = reply_bytes x"
      and idle: "idle_relay (rel t) rc kReplyGreeting"
    using ok n by (auto simp: tunnel_ok_def bytes_offered_def)
  have t': "t' = StartTunneling (put bs t)" using step Write_reply by (simp add: write_handler_def rbind_Inr_iff)
  have "established x t'" unfolding t' using r idle_simps(2) [OF idle, of bs] by (intro established_start) auto
  moreover have "op t' = Tunneling" by (simp add: t' StartTunneling_def)
  ultimately show ?thesis by (simp add: tunnel_ok_def)
next
  case (Write_reject cs)
  then have "t' = ShutdownClient (put bs t)" using step by (simp add: write_handler_def)
  then show ?thesis using ok Write_reject by (auto simp: tunnel_ok_def [of x t] intro!: shutdown_ok)
qed (use n in \<open>simp_all add: bytes_offered_def\<close>)

lemma write_fail_ok:
  assumes ok: "tunnel_ok x t" and n: "bytes_offered (op t) = Some bs" and step: "write_handler True k (put cs t) = Inr t'"
  shows "tunnel_ok x t'"
proof -
  have "unrelayed (rel t)" using ok n by (auto simp: tunnel_ok_def bytes_offered_def split: op.splits)
  moreover have "t' = ShutdownClient (put cs t)"
    using step n by (auto simp: write_handler_def bytes_offered_def rbind_Inr_iff split: op.splits)
  ultimately show ?thesis by (auto intro!: shutdown_ok)
qed

lemma established_step:
  assumes est: "established x t" and step: "relay_step (rel t) e = Some (Inr r)"
  shows "established x (t\<lparr>rel := r, op := o'\<rparr>)"
proof -
  obtain eps ep hs d e' where h: "requested x eps hs" "remote_addr t = Some ep" "ep \<in> set eps"
      "received (client (rel t)) = hs @ d" "sent (client (rel t)) = kReplyGreeting @ reply_bytes x @ e'"
      "relay_ok (length hs) (length (kReplyGreeting @ reply_bytes x)) (rel t)"
    using est by (auto simp: established_def)
  obtain d' where d': "received (client r) = hs @ d'" using received_grows(1) [OF step] h(4) by (auto simp: prefix_def)
  obtain f where f: "sent (client r) = kReplyGreeting @ reply_bytes x @ f" using received_grows(2) [OF step] h(5) by (auto simp: prefix_def)
  show ?thesis
    using h(1-3) d' f relay_step_ok [OF h(6) step] unfolding established_def
    by (intro exI [of _ eps] exI [of _ ep] exI [of _ hs] exI [of _ d'] exI [of _ f]) simp
qed

lemma tunnel_step_ok:
  assumes x: "outside_ok x" and ok: "tunnel_ok x t" and step: "tunnel_step x t e = Some (Inr t')"
  shows "tunnel_ok x t'"
proof (cases e)
  case (Read_ok bs)
  then show ?thesis using read_ok_ok [OF x ok, of bs t'] step by (simp add: tunnel_step_def split: if_splits)
next
  case (Read_fail bs)
  then show ?thesis using read_fail_ok [OF ok] step by (auto simp: tunnel_step_def split: option.splits if_splits)
next
  case Write_ok
  then show ?thesis using write_ok_ok [OF ok] step by (auto simp: tunnel_step_def split: option.splits)
next
  case (Write_fail k)
  then show ?thesis using write_fail_ok [OF ok] step by (auto simp: tunnel_step_def split: option.splits if_splits)
next
  case (Connect_ok ep)
  then obtain eps where "op t = Connecting eps" "ep \<in> set eps" "t' = ReplyRequest x (t\<lparr>remote_addr := Some ep\<rparr>)"
    using step by (auto simp: tunnel_step_def split: op.splits if_splits)
  then show ?thesis using ok by (simp add: tunnel_ok_def ReplyRequest_def del: split_paired_Ex) blast
next
  case Connect_fail
  then show ?thesis using step ok by (auto simp: tunnel_step_def tunnel_ok_def [of x t] split: op.splits intro!: reject_ok)
next
  case (Relay_event ev)
  then obtain r where r: "op t = Tunneling" "relay_step (rel t) ev = Some (Inr r)"
      "t' = t\<lparr>rel := r, op := if upload r = Stopped \<and> download r = Stopped then Ended else Tunneling\<rparr>"
    using step by (auto simp: tunnel_step_def split: op.splits option.splits sum.splits)
  have "established x t'" using ok r established_step [of x t ev r] by (simp add: tunnel_ok_def)
  then show ?thesis using r(3) by (cases "upload r = Stopped \<and> download r = Stopped") (simp_all add: tunnel_ok_def)
qed

lemma tunnel_run_ok:
  assumes "outside_ok x" and "Tunnel_Run True = Inr t0" and "orun (tunnel_step x) es t0 = Some (Inr t)"
  shows "tunnel_ok x t"
proof (rule orun_invariant [where P = "tunnel_ok x", OF _ _ assms(3)])
  show "tunnel_ok x t0" using assms(2) by (auto simp: Tunnel_Run_def rbind_Inr_iff tunnel_ok_def idle_relay_def relay_new_def sock_new_def)
qed (rule tunnel_step_ok [OF assms(1)])

lemma relayed_established:
  assumes "outside_ok x" and "Tunnel_Run True = Inr t0" and "orun (tunnel_step x) es t0 = Some (Inr t)" and "\<not> unrelayed (rel t)"
  shows "established x t"
  using tunnel_run_ok [OF assms(1-3)] assms(4) by (auto simp: tunnel_ok_def split: op.splits)

section \<open>Ending\<close>

fun ops_left :: "op \<Rightarrow> nat" where
  "ops_left Read_preamble = 9"
| "ops_left (Read_methods n) = 8"
| "ops_left Write_greeting = 7"
| "ops_left Read_request = 6"
| "ops_left (Read_domain_length p) = 5"
| "ops_left (Read_domain p n) = 4"
| "ops_left (Read_address p n) = 4"
| "ops_left (Read_port p) = 3"
| "ops_left (Connecting eps) = 2"
| "ops_left (Write_reply bs) = 1"
| "ops_left (Write_reject bs) = 1"
| "ops_left Tunneling = 0"
| "ops_left Ended = 0"

definition shaking :: "event \<Rightarrow> bool" where
  "shaking e \<longleftrightarrow> (case e of Relay_event s \<Rightarrow> False | _ \<Rightarrow> True)"

lemma ops_left_simps [simp]:
  "ops_left (op (ShutdownClient t)) = 0" "ops_left (op (RejectClient r t)) = 1" "ops_left (op (StartTunneling t)) = 0"
  "ops_left (op (ReplyGreeting t)) = 7" "ops_left (op (ReplyRequest x t)) = 1"
  by (simp_all add: ShutdownClient_def RejectClient_def StartTunneling_def ReplyGreeting_def ReplyRequest_def)

lemma read_step_left:
  assumes "bytes_wanted (op t) = Some n" and "read_handler x bs (got bs t) = Inr t'"
  shows "ops_left (op t') < ops_left (op t)"
  using assms
  by (cases "op t")
    (auto simp: bytes_wanted_def read_handler_def ReadGreetingPacket_preamble_def ReadRequestpacket_preamble_def ConnetRemote_def
      Let_def rbind_Inr_iff split: if_splits option.splits)

lemma shaking_step:
  assumes "tunnel_step x t e = Some (Inr t')" and "shaking e"
  shows "ops_left (op t') < ops_left (op t)"
proof (cases e)
  case (Read_ok bs)
  then show ?thesis using assms(1) read_step_left by (auto simp: tunnel_step_def split: if_splits)
next
  case (Read_fail bs)
  then show ?thesis using assms(1)
    by (auto simp: tunnel_step_def read_failure_def bytes_wanted_def split: option.splits if_splits op.splits)
next
  case Write_ok
  then show ?thesis using assms(1)
    by (auto simp: tunnel_step_def write_handler_def bytes_offered_def rbind_Inr_iff split: option.splits op.splits)
next
  case (Write_fail k)
  then show ?thesis using assms(1)
    by (auto simp: tunnel_step_def write_handler_def bytes_offered_def rbind_Inr_iff split: option.splits op.splits if_splits)
next
  case (Connect_ok ep)
  then show ?thesis using assms(1) by (auto simp: tunnel_step_def split: op.splits if_splits)
next
  case Connect_fail
  then show ?thesis using assms(1) by (auto simp: tunnel_step_def split: op.splits)
next
  case (Relay_event s)
  then show ?thesis using assms(2) by (simp add: shaking_def)
qed

lemma shaking_run:
  "orun (tunnel_step x) es t = Some (Inr t') \<Longrightarrow> list_all shaking es \<Longrightarrow> length es + ops_left (op t') \<le> ops_left (op t)"
proof (induction es arbitrary: t)
  case (Cons e es)
  then obtain t1 where "tunnel_step x t e = Some (Inr t1)" "orun (tunnel_step x) es t1 = Some (Inr t')"
    by (auto split: option.splits sum.splits if_splits)
  then show ?case using shaking_step [of x t e t1] Cons.IH [of t1] Cons.prems(2) by simp
qed simp

section \<open>Sample runs\<close>

definition sample_outside :: outside where
  "sample_outside = \<lparr>host = Little_endian, swap16 = bswap, swap32 = bswap, resolve = (\<lambda>n port. None), local_port = 1080\<rparr>"

fun dest_type :: "destination \<Rightarrow> byte" where
  "dest_type (Host_v4 w) = 1"
| "dest_type (Host_v6 bs) = 4"
| "dest_type (Host_name bs) = 3"
| "dest_type (Unknown_type a bs) = a"

fun dest_reads :: "destination \<Rightarrow> event list" where
  "dest_reads (Host_v4 w) = [Read_ok (be_bytes w)]"
| "dest_reads (Host_v6 bs) = [Read_ok bs]"
| "dest_reads (Host_name bs) = [Read_ok [of_nat (length bs)], Read_ok bs]"
| "dest_reads (Unknown_type a bs) = [Read_ok bs]"

text \<open>The operations of a handshake, in which every read delivers the next piece of the greeting and the request.\<close>

definition handshake :: "byte list \<Rightarrow> byte \<Rightarrow> destination \<Rightarrow> 16 word \<Rightarrow> event list" where
  "handshake ms rsv d port =
     [Read_ok [5, of_nat (length ms)], Read_ok ms, Write_ok, Read_ok [5, 1, rsv, dest_type d]] @ dest_reads d @ [Read_ok (be_bytes port)]"

definition sample_run :: "event list" where
  "sample_run = handshake [0] 0 (Host_v4 0x7F000001) 80 @
     [Connect_ok (IPv4 0x7F000001, 80), Write_ok, Relay_event (Up (Got [1, 2])), Relay_event (Up Done), Relay_event (Down (Got [3])),
      Relay_event (Down Done), Relay_event (Up (Eof True True)), Relay_event (Down (Eof True True))]"

lemma sample_outside_ok: "outside_ok sample_outside"
  by (simp add: outside_ok_def sample_outside_def)

definition t_start :: tunnel where
  "t_start = \<lparr>rel = relay_new, op = Read_preamble, remote_addr = None\<rparr>"

lemma sample_start: "Tunnel_Run True = Inr t_start"
  by (simp add: Tunnel_Run_def t_start_def)

lemma short_reply_result:
  "yields (orun (tunnel_step sample_outside) (handshake [0] 0 (Host_v4 0x7F000001) 80 @ [Connect_ok (IPv4 0x7F000001, 80)]) t_start)
     (\<lambda>t. tunnel_step sample_outside t (Write_fail 3) = Some (Inl Assert_failed))"
  by code_simp

lemma sample_handshake_result:
  "yields (orun (tunnel_step sample_outside) (handshake [0] 0 (Host_v4 0x7F000001) 80) t_start)
     (\<lambda>t. op t = Connecting [(IPv4 0x7F000001, 80)])"
  by code_simp

text \<open>The host disappears while bytes are on their way to it.\<close>

definition broken_run :: "event list" where
  "broken_run = handshake [0] 0 (Host_v4 0x7F000001) 80 @
     [Connect_ok (IPv4 0x7F000001, 80), Write_ok, Relay_event (Up (Got [1, 2])), Relay_event (Up (Broke 1))]"

lemma broken_run_result:
  "yields (orun (tunnel_step sample_outside) broken_run t_start)
     (\<lambda>t. forced (rel t) \<and> yields (orun relay_step [Down (Got [5]), Down (Broke 0)] (rel t)) (\<lambda>r. True))"
  by code_simp

lemma sample_run_result:
  "yields (orun (tunnel_step sample_outside) sample_run t_start)
     (\<lambda>t. sent (dial (rel t)) = [1, 2] \<and> client_gone (rel t) \<and> dial_gone (rel t) \<and> op t = Ended)"
  by code_simp

section \<open>Properties\<close>

text \<open>
  Property C15. The tunnel leads where the client asked for, and passes bytes on unaltered: in every state that completed
  operations can lead to, if bytes have been sent to or received from a remote host, then the client's bytes
  start with a greeting and a request, the host is an endpoint of its destination, what the
  client was sent is the two replies and then a prefix of the host's bytes, and what the host was sent is a
  prefix of the client's bytes behind the request. The request is a CONNECT of RFC 1928 for an address of
  version 4 or 6 or for a domain name, and the endpoints are that address with the port or those the resolver gives; or else its address type is
  none of the three, which is no request of the protocol: the code lets it pass with sixteen bytes for the address, and the endpoints are those
  the resolver gives for these bytes. A write that finished before the sending side was shut may complete after that; the host is little-endian
  and the library swaps bytes.
\<close>

theorem socks5_leads_to_destination:
  assumes "outside_ok x" and "Tunnel_Run True = Inr t0" and "orun (tunnel_step x) es t0 = Some (Inr t)"
    and "sent (dial (rel t)) \<noteq> [] \<or> received (dial (rel t)) \<noteq> []"
  shows "\<exists>ms rsv d port eps ep data back. methods_ok ms \<and> dest_ok d \<and> remote_addr t = Some ep \<and> ep \<in> set eps \<and>
    (case d of
       Host_v4 w \<Rightarrow> eps = [(IPv4 w, port)]
     | Host_v6 bs \<Rightarrow> length bs = 16 \<and> eps = [(IPv6 bs, port)]
     | Host_name bs \<Rightarrow> length bs < 256 \<and> resolve x bs port = Some eps
     | Unknown_type a bs \<Rightarrow> a \<notin> {1, 3, 4} \<and> length bs = 16 \<and> resolve x bs port = Some eps) \<and>
    received (client (rel t)) = greeting ms @ request rsv d port @ data \<and> prefix (sent (dial (rel t))) data \<and>
    sent (client (rel t)) = [5, 0] @ reply_bytes x @ back \<and> prefix back (received (dial (rel t)))"
proof -
  have "\<not> unrelayed (rel t)" using assms(4) by (auto simp: unrelayed_def sock_new_def)
  then have "established x t" by (rule relayed_established [OF assms(1-3)])
  then obtain eps ep hs d e where h: "requested x eps hs" "remote_addr t = Some ep" "ep \<in> set eps"
      "received (client (rel t)) = hs @ d" "sent (client (rel t)) = kReplyGreeting @ reply_bytes x @ e"
      "relay_ok (length hs) (length (kReplyGreeting @ reply_bytes x)) (rel t)"
    by (auto simp: established_def)
  have "prefix (sent (dial (rel t))) d" "prefix e (received (dial (rel t)))"
    using relay_okD(1,2) [OF h(6)] h(4,5) by (auto simp: passes_def dest: append_prefixD)
  moreover obtain ms rsv dst port where q: "methods_ok ms" "dest_ok dst" "endpoints x dst port = Some eps" "hs = greeting ms @ request rsv dst port"
    using h(1) by (auto simp: requested_def)
  moreover have "case dst of
       Host_v4 w \<Rightarrow> eps = [(IPv4 w, port)]
     | Host_v6 bs \<Rightarrow> length bs = 16 \<and> eps = [(IPv6 bs, port)]
     | Host_name bs \<Rightarrow> length bs < 256 \<and> resolve x bs port = Some eps
     | Unknown_type a bs \<Rightarrow> a \<notin> {1, 3, 4} \<and> length bs = 16 \<and> resolve x bs port = Some eps"
    using q(2,3) by (cases dst) auto
  ultimately show ?thesis using h(2-5)
    by (intro exI [of _ ms] exI [of _ rsv] exI [of _ dst] exI [of _ port] exI [of _ eps] exI [of _ ep] exI [of _ d] exI [of _ e])
      (simp add: kReplyGreeting_def)
qed

theorem socks5_leads_to_destination_witness:
  "\<exists>t ms rsv d port data. orun (tunnel_step sample_outside) sample_run t_start = Some (Inr t) \<and>
    sent (dial (rel t)) = [1, 2] \<and> received (client (rel t)) = greeting ms @ request rsv d port @ data \<and> prefix [1, 2] data"
proof -
  obtain t where t: "orun (tunnel_step sample_outside) sample_run t_start = Some (Inr t)"
      "sent (dial (rel t)) = [1, 2]"
    using yieldsD [OF sample_run_result] by blast
  have "sent (dial (rel t)) \<noteq> [] \<or> received (dial (rel t)) \<noteq> []" using t(2) by simp
  from socks5_leads_to_destination [OF sample_outside_ok sample_start t(1) this] obtain ms rsv d port data
    where "received (client (rel t)) = greeting ms @ request rsv d port @ data" "prefix (sent (dial (rel t))) data" by blast
  then show ?thesis using t by (intro exI [of _ t] exI [of _ ms] exI [of _ rsv] exI [of _ d] exI [of _ port] exI [of _ data]) simp
qed

lemma byte_of_nat: "n < 256 \<Longrightarrow> unat (of_nat n :: byte) = n \<and> ((of_nat n :: byte) = 0 \<longrightarrow> n = 0)"
  by (auto simp: unat_of_nat word_of_nat_eq_0_iff dest: dvd_imp_le)

lemmas handshake_facts = handshake_def Tunnel_Run_def rbind_Inr_iff guard_Inr_iff tunnel_step_def bytes_wanted_def bytes_offered_def
  read_handler_def write_handler_def ReadGreetingPacket_preamble_def ReadRequestpacket_preamble_def ReplyGreeting_def ConnetRemote_def
  kSocks5Ver_def kCmdConnect_def kAddrIPv4_def kAddrDomain_def kAddrIPv6_def kReplyGreeting_def packet_new_def got_def put_def
  deliver_def take_in_def relay_new_def sock_new_def greeting_def request_def Let_def

text \<open>
  Property C22. Every request of the protocol is understood: a client that sends a greeting and a request for a
  destination makes the tunnel connect to just the endpoints of that destination.
\<close>

theorem socks5_understands_requests:
  assumes "outside_ok x" and "Tunnel_Run True = Inr t0" and "methods_ok ms" and "dest_ok d" and "endpoints x d port = Some eps"
  shows "\<exists>t. orun (tunnel_step x) (handshake ms rsv d port) t0 = Some (Inr t) \<and> op t = Connecting eps \<and>
    received (client (rel t)) = greeting ms @ request rsv d port"
proof -
  have t0: "t0 = \<lparr>rel = relay_new, op = Read_preamble, remote_addr = None\<rparr>"
    using assms(2) by (simp add: Tunnel_Run_def rbind_Inr_iff)
  have ms: "unat (of_nat (length ms) :: byte) = length ms" "(of_nat (length ms) :: byte) \<noteq> 0"
    using assms(3) byte_of_nat [of "length ms"] by (auto simp: methods_ok_def)
  have port: "swap16 x (obj_word (host x) (be_bytes port)) = port" and v4: "swap32 x (obj_word (host x) (be_bytes w)) = w" for w
    using assms(1) by (simp_all add: outside_ok_def obj_word_def bswap_le_word) (simp_all add: be_bytes_def)
  show ?thesis
  proof (cases d)
    case (Host_v4 w)
    then show ?thesis using assms(5) ms port v4 by (simp add: t0 handshake_facts)
  next
    case (Host_v6 bs)
    then show ?thesis using assms(4,5) ms port by (simp add: t0 handshake_facts)
  next
    case (Host_name bs)
    then have "unat (of_nat (length bs) :: byte) = length bs" using assms(4) byte_of_nat [of "length bs"] by auto
    then show ?thesis using Host_name assms(4,5) ms port by (simp add: t0 handshake_facts)
  next
    case (Unknown_type a bs)
    then show ?thesis using assms(4,5) ms port by (auto simp: t0 handshake_facts)
  qed
qed

theorem socks5_understands_requests_witness:
  "\<exists>t. orun (tunnel_step sample_outside) (handshake [0, 2] 0 (Host_v6 (replicate 15 0 @ [1])) 443) t_start = Some (Inr t) \<and>
    op t = Connecting [(IPv6 (replicate 15 0 @ [1]), 443)]"
  using socks5_understands_requests [OF sample_outside_ok sample_start, of "[0, 2]" "Host_v6 (replicate 15 0 @ [1])" 443 _ 0]
  by (simp add: methods_ok_def) blast

text \<open>
  Fact. Nothing is lost at the end of a stream: once the end of the client's bytes has been seen, the host has
  been sent all of them behind the request; once the end of the host's bytes has been seen, the client has
  been sent all of them behind the replies.
\<close>

theorem socks5_loses_nothing:
  assumes "outside_ok x" and "Tunnel_Run True = Inr t0" and "orun (tunnel_step x) es t0 = Some (Inr t)"
    and "client_gone (rel t) \<or> dial_gone (rel t)"
  shows "\<exists>hs. received (client (rel t)) = hs @ drop (length hs) (received (client (rel t))) \<and>
    (\<exists>ms rsv d port. hs = greeting ms @ request rsv d port) \<and>
    (client_gone (rel t) \<longrightarrow> sent (dial (rel t)) = drop (length hs) (received (client (rel t)))) \<and>
    (dial_gone (rel t) \<longrightarrow> sent (client (rel t)) = [5, 0] @ reply_bytes x @ received (dial (rel t)))"
proof -
  have "\<not> unrelayed (rel t)" using assms(4) by (auto simp: unrelayed_def)
  then have "established x t" by (rule relayed_established [OF assms(1-3)])
  then obtain eps ep hs d e where h: "requested x eps hs" "received (client (rel t)) = hs @ d" "sent (client (rel t)) = kReplyGreeting @ reply_bytes x @ e"
      "relay_ok (length hs) (length (kReplyGreeting @ reply_bytes x)) (rel t)"
    by (auto simp: established_def)
  have "client_gone (rel t) \<longrightarrow> sent (dial (rel t)) = d" "dial_gone (rel t) \<longrightarrow> e = received (dial (rel t))"
    using relay_okD(1,2) [OF h(4)] h(2,3) by (auto simp: passes_def)
  then show ?thesis using h unfolding requested_def by (intro exI [of _ hs]) (auto simp: kReplyGreeting_def)
qed

theorem socks5_loses_nothing_witness:
  "\<exists>t hs. orun (tunnel_step sample_outside) sample_run t_start = Some (Inr t) \<and>
    sent (dial (rel t)) = drop (length hs) (received (client (rel t))) \<and> (\<exists>ms rsv d port. hs = greeting ms @ request rsv d port)"
proof -
  obtain t where t: "orun (tunnel_step sample_outside) sample_run t_start = Some (Inr t)"
      "client_gone (rel t)"
    using yieldsD [OF sample_run_result] by blast
  show ?thesis using socks5_loses_nothing [OF sample_outside_ok sample_start t(1)] t by blast
qed

text \<open>
  Property C37. The handshake ends: before the tunnel relays bytes or gives up, at most nine operations complete, whatever
  the client sends and however they end.
\<close>

theorem socks5_handshake_ends:
  assumes "Tunnel_Run True = Inr t0" and "list_all shaking es" and "orun (tunnel_step x) es t0 = Some (Inr t)"
  shows "length es \<le> 9"
  using shaking_run [OF assms(3,2)] assms(1) by (auto simp: Tunnel_Run_def rbind_Inr_iff)

theorem socks5_handshake_ends_witness:
  "length (handshake [0] 0 (Host_v4 0x7F000001) 80) \<le> 9"
proof -
  obtain t where t: "orun (tunnel_step sample_outside) (handshake [0] 0 (Host_v4 0x7F000001) 80)
      t_start = Some (Inr t)"
    using yieldsD [OF sample_handshake_result] by blast
  show ?thesis by (rule socks5_handshake_ends [OF sample_start _ t]) (simp add: handshake_def shaking_def)
qed

text \<open>
  Fact. Once the tunnel gives up, it ends: after a read or a write of the relay has failed, at most three more
  operations complete.
\<close>

theorem socks5_gives_up_soon:
  assumes "outside_ok x" and "Tunnel_Run True = Inr t0" and "orun (tunnel_step x) es t0 = Some (Inr t)" and "forced (rel t)"
    and "orun relay_step ev (rel t) = Some (Inr r)"
  shows "length ev \<le> 3"
proof -
  have "\<not> unrelayed (rel t)" using assms(4) by (auto simp: unrelayed_def)
  then have "established x t" by (rule relayed_established [OF assms(1-3)])
  then obtain h g where "relay_ok h g (rel t)" by (auto simp: established_def)
  then have "send_shut (client (rel t))" "send_shut (dial (rel t))" "upload (rel t) = Stopped \<or> download (rel t) = Stopped"
    using relay_okD(3) assms(4) by (auto simp: flags_ok_def)
  moreover have "flow_left fl \<le> 3" for fl by (cases fl) auto
  ultimately show ?thesis using forced_run [OF assms(4) _ _ assms(5)] by (metis (no_types, lifting) add_cancel_left_left add_cancel_right_right flow_left.simps(3) le_trans)
qed


theorem socks5_gives_up_soon_witness:
  "\<exists>t r. orun (tunnel_step sample_outside) broken_run t_start = Some (Inr t) \<and>
    orun relay_step [Down (Got [5]), Down (Broke 0)] (rel t) = Some (Inr r) \<and> length [Down (Got [5]), Down (Broke 0)] \<le> 3"
proof -
  obtain t r where t: "orun (tunnel_step sample_outside) broken_run t_start = Some (Inr t)"
      "forced (rel t)" "orun relay_step [Down (Got [5]), Down (Broke 0)] (rel t) = Some (Inr r)"
    using yieldsD [OF broken_run_result] yieldsD by blast
  show ?thesis using socks5_gives_up_soon [OF sample_outside_ok sample_start t(1,2,3)] t(1,3) by blast
qed

text \<open>
  Fact. The two ways in which a tunnel can fault: the write of the reply stops short, which an assertion does not
  expect, or a socket cannot be shut down and its peer is unknown, which the message about that asks for. No
  other assertion fails: the addresses always have their length.
\<close>

theorem socks5_faults_only_so:
  assumes "outside_ok x" and "Tunnel_Run True = Inr t0" and "orun (tunnel_step x) es t0 = Some (Inr t)"
    and "tunnel_step x t e = Some (Inl f)"
  shows "(\<exists>k. e = Write_fail k \<and> k < 10 \<and> op t = Write_reply (reply_bytes x) \<and> f = Assert_failed) \<or>
    (f = Thrown ''remote_endpoint'' \<and> (e = Relay_event (Up (Eof False False)) \<or> e = Relay_event (Down (Eof False False))))"
proof (cases e)
  case (Read_ok bs)
  have ok: "tunnel_ok x t" by (rule tunnel_run_ok [OF assms(1-3)])
  obtain p where p: "op t = Read_port p" "ConnetRemote x (p\<lparr>dest_port := swap16 x (obj_word (host x) bs)\<rparr>) (got bs t) = Inl f"
    using assms(4) Read_ok by (auto simp: tunnel_step_def read_handler_def split: if_splits op.splits)
  have "dest_ok (dest_of p) \<and> (addr_type p = 1 \<longrightarrow> length (dest_addr p) = 4)"
    using ok unfolding tunnel_ok_def p(1) op.case by blast
  then show ?thesis using p(2)
    by (auto simp: ConnetRemote_def dest_of_def kAddrIPv4_def kAddrIPv6_def guard_def split: if_splits option.splits)
next
  case Write_ok
  have ok: "tunnel_ok x t" by (rule tunnel_run_ok [OF assms(1-3)])
  obtain bs where "op t = Write_reply bs" "length bs \<noteq> 10"
    using assms(4) Write_ok
    by (auto simp: tunnel_step_def write_handler_def bytes_offered_def guard_def split: option.splits op.splits if_splits)
  then show ?thesis using ok by (auto simp: tunnel_ok_def reply_bytes_def)
next
  case (Write_fail k)
  have ok: "tunnel_ok x t" by (rule tunnel_run_ok [OF assms(1-3)])
  obtain bs where bs: "op t = Write_reply bs" "k < length bs" "f = Assert_failed"
    using assms(4) Write_fail
    by (auto simp: tunnel_step_def write_handler_def bytes_offered_def guard_def split: option.splits op.splits if_splits)
  then have "bs = reply_bytes x" using ok by (auto simp: tunnel_ok_def)
  then show ?thesis using bs Write_fail by (auto simp: reply_bytes_def)
next
  case (Relay_event s)
  then have "relay_step (rel t) s = Some (Inl f)" using assms(4) by (auto simp: tunnel_step_def split: op.splits option.splits sum.splits)
  then show ?thesis using Relay_event
    by (auto simp: relay_step_def ForwardClientRequest_def ForwardRemoteResponse_def ShutdownWriteSafe_def guard_def Let_def
        split: side.splits flow.splits outcome.splits if_splits)
qed (use assms(4) in \<open>auto simp: tunnel_step_def split: option.splits op.splits if_splits\<close>)

theorem socks5_faults_only_so_witness:
  "\<exists>t f k. orun (tunnel_step sample_outside) (handshake [0] 0 (Host_v4 0x7F000001) 80 @ [Connect_ok (IPv4 0x7F000001, 80)])
      t_start = Some (Inr t) \<and>
    tunnel_step sample_outside t (Write_fail 3) = Some (Inl f) \<and> Write_fail 3 = Write_fail k \<and> k < 10 \<and> f = Assert_failed"
proof -
  obtain t f where t: "orun (tunnel_step sample_outside) (handshake [0] 0 (Host_v4 0x7F000001) 80 @ [Connect_ok (IPv4 0x7F000001, 80)])
      t_start = Some (Inr t)" "tunnel_step sample_outside t (Write_fail 3) = Some (Inl f)"
    using yieldsD [OF short_reply_result] by blast
  show ?thesis using socks5_faults_only_so [OF sample_outside_ok sample_start t] t by auto
qed

text \<open>
  Fact. When the client goes away while the reply is written, the program stops: the handler asserts that all
  ten bytes were written before it looks at the error.
\<close>

theorem socks5_short_reply_asserts:
  "case orun (tunnel_step sample_outside) (handshake [0] 0 (Host_v4 0x7F000001) 80 @ [Connect_ok (IPv4 0x7F000001, 80), Write_fail 0])
     t_start of
     Some (Inl f) \<Rightarrow> f = Assert_failed
   | _ \<Rightarrow> False"
  by code_simp

text \<open>
  Fact. The methods that a client offers are not looked at: one that offers only a password (method 2) is told
  that no authentication was chosen (method 0), instead of being turned away with 255.
\<close>

theorem socks5_ignores_methods:
  "case orun (tunnel_step sample_outside) [Read_ok [5, 1], Read_ok [2], Write_ok] t_start of
     Some (Inr t) \<Rightarrow> sent (client (rel t)) = [5, 0] \<and> op t = Read_request
   | _ \<Rightarrow> False"
  by code_simp

end
