(* ===== verification/Socks4a.thy ===== *)
theory Socks4a
  imports Relay
begin

text \<open>
  The SOCKS4a tunnel (\<open>src/learn-cxx/asio/socks4a/tunnel.cpp\<close>, \<open>tunnel.h\<close>): the request is a preamble of fixed
  length and one or two strings that end with a null byte, which are read up to that byte and some way
  beyond. The theory shows that the client is led where it asked for, and that what it sends along with the
  request is dropped.
\<close>

section \<open>The request\<close>

record packet4 =
  ver4 :: byte
  cmd4 :: byte
  dest_port4 :: "16 word"
  dest_ip4 :: "32 word"
  user_id :: "byte list"
  domain :: "byte list"

definition kPreambleSize :: nat where "kPreambleSize = 1 + 1 + 2 + 4"
definition kVer4 :: byte where "kVer4 = 4"
definition kCmdConnect4 :: byte where "kCmdConnect4 = 1"
definition k4aMask :: "32 word" where "k4aMask = 256"

definition Valid :: "packet4 \<Rightarrow> bool" where
  "Valid p = (if ver4 p \<noteq> kVer4 \<or> cmd4 p \<noteq> kCmdConnect4 \<or> dest_port4 p = 0 \<or> dest_ip4 p = 0 then False
     else \<not> (dest_ip4 p < k4aMask \<and> domain p = []))"

section \<open>The tunnel\<close>

datatype op4 =
    Read_preamble
  | Read_user_id packet4
  | Read_domain packet4
  | Connecting "endpoint list"
  | Write_ack
  | Write_reject
  | Tunneling
  | Ended

record tunnel4 =
  rel :: relay
  op :: op4
  io_client_buf :: "byte list"
  remote_addr :: "endpoint option"

definition tunnel4_Run :: tunnel4 where
  "tunnel4_Run = \<lparr>rel = relay_new, op = Read_preamble, io_client_buf = [], remote_addr = None\<rparr>"

definition kRejectedResp :: "byte list" where
  "kRejectedResp = [0x00, 0x5B, 0x2B, 0x2B, 0x2B, 0x2B, 0x2B, 0x2B]"

definition RejectClient4 :: "tunnel4 \<Rightarrow> tunnel4" where
  "RejectClient4 t = t\<lparr>op := Write_reject\<rparr>"

definition ForceClose :: "tunnel4 \<Rightarrow> tunnel4" where
  "ForceClose t = t\<lparr>rel := ForceShutdown (rel t), op := Ended\<rparr>"

definition ConnectRemote :: "outside \<Rightarrow> packet4 \<Rightarrow> tunnel4 \<Rightarrow> tunnel4" where
  "ConnectRemote x p t =
     (if domain p \<noteq> [] then
        (case resolve x (domain p) (dest_port4 p) of
           None \<Rightarrow> RejectClient4 t
         | Some eps \<Rightarrow> t\<lparr>op := Connecting eps\<rparr>)
      else t\<lparr>op := Connecting [(IPv4 (dest_ip4 p), dest_port4 p)]\<rparr>)"

definition ReadRequestPacket_complete :: "outside \<Rightarrow> packet4 \<Rightarrow> tunnel4 \<Rightarrow> tunnel4" where
  "ReadRequestPacket_complete x p t = (if \<not> Valid p then RejectClient4 t else ConnectRemote x p t)"

text \<open>The three reads. A string lies in the buffer in front of its null byte; \<open>bytes\<close> counts that byte too.\<close>

definition ReadRequestPacket_preamble :: "outside \<Rightarrow> byte list \<Rightarrow> tunnel4 \<Rightarrow> tunnel4" where
  "ReadRequestPacket_preamble x bs t = t\<lparr>op := Read_user_id
     \<lparr>ver4 = bs ! 0, cmd4 = bs ! 1, dest_port4 = swap16 x (obj_word (host x) (take 2 (drop 2 bs))),
      dest_ip4 = swap32 x (obj_word (host x) (take 4 (drop 4 bs))), user_id = [], domain = []\<rparr>\<rparr>"

definition string_bytes :: "byte list \<Rightarrow> nat" where
  "string_bytes buf = length (takeWhile (\<lambda>b. b \<noteq> 0) buf) + 1"

definition ReadRequestPacket_user_id :: "outside \<Rightarrow> packet4 \<Rightarrow> tunnel4 \<Rightarrow> tunnel4" where
  "ReadRequestPacket_user_id x p t =
     (let bytes = string_bytes (io_client_buf t);
          p = (if bytes > 1 then p\<lparr>user_id := take (bytes - 1) (io_client_buf t)\<rparr> else p);
          t = t\<lparr>io_client_buf := drop bytes (io_client_buf t)\<rparr>
      in if dest_ip4 p < 256 then t\<lparr>op := Read_domain p\<rparr> else ReadRequestPacket_complete x p t)"

definition ReadRequestPacket_domain :: "outside \<Rightarrow> packet4 \<Rightarrow> tunnel4 \<Rightarrow> tunnel4" where
  "ReadRequestPacket_domain x p t =
     (let bytes = string_bytes (io_client_buf t);
          p = (if bytes > 1 then p\<lparr>domain := take (bytes - 1) (io_client_buf t)\<rparr> else p);
          t = t\<lparr>io_client_buf := []\<rparr>
      in ReadRequestPacket_complete x p t)"

text \<open>
  The acknowledgement goes into the buffer, over whatever is in it. An endpoint that is not of IPv4 throws.
\<close>

definition granted_resp :: "outside \<Rightarrow> 32 word \<Rightarrow> 16 word \<Rightarrow> byte list" where
  "granted_resp x ip port = [0x00, 0x5A] @ obj_bytes (host x) (swap16 x port) @ be_bytes ip"

definition connected :: "outside \<Rightarrow> endpoint \<Rightarrow> tunnel4 \<Rightarrow> tunnel4 res" where
  "connected x ep t =
     (let t = t\<lparr>remote_addr := Some ep\<rparr> in
      case fst ep of
        IPv6 bs \<Rightarrow> Inl (Thrown ''bad_address_cast'')
      | IPv4 ip \<Rightarrow> Inr (t\<lparr>io_client_buf := granted_resp x ip (snd ep), op := Write_ack\<rparr>))"

definition ForwardTransmission :: "tunnel4 \<Rightarrow> tunnel4" where
  "ForwardTransmission t = t\<lparr>rel := (rel t)\<lparr>upload := Reading, download := Reading\<rparr>, op := Tunneling\<rparr>"

text \<open>
  One completed operation. \<open>None\<close>: it cannot end this way - \<open>async_read\<close> delivers the bytes asked for or fails
  with fewer, \<open>async_read_until\<close> reads nothing if the null byte is in the buffer already, and otherwise up to
  that byte and perhaps beyond.
\<close>

datatype event4 =
    Read_ok "byte list"
  | Read_fail "byte list"
  | Write_ok
  | Write_fail nat
  | Connect_ok endpoint
  | Connect_fail
  | Relay_event side

definition got :: "byte list \<Rightarrow> tunnel4 \<Rightarrow> tunnel4" where
  "got bs t = t\<lparr>rel := (rel t)\<lparr>client := deliver bs (client (rel t))\<rparr>\<rparr>"

definition got_string :: "byte list \<Rightarrow> tunnel4 \<Rightarrow> tunnel4" where
  "got_string bs t = (got bs t)\<lparr>io_client_buf := io_client_buf t @ bs\<rparr>"

definition put :: "byte list \<Rightarrow> tunnel4 \<Rightarrow> tunnel4" where
  "put bs t = t\<lparr>rel := (rel t)\<lparr>client := take_in bs (client (rel t))\<rparr>\<rparr>"

definition until_ok :: "byte list \<Rightarrow> byte list \<Rightarrow> bool" where
  "until_ok buf bs \<longleftrightarrow> (if 0 \<in> set buf then bs = [] else 0 \<in> set bs)"

definition read_step :: "outside \<Rightarrow> byte list \<Rightarrow> tunnel4 \<Rightarrow> tunnel4 option" where
  "read_step x bs t = (case op t of
     Read_preamble \<Rightarrow> if length bs = kPreambleSize then Some (ReadRequestPacket_preamble x bs (got bs t)) else None
   | Read_user_id p \<Rightarrow> if until_ok (io_client_buf t) bs then Some (ReadRequestPacket_user_id x p (got_string bs t)) else None
   | Read_domain p \<Rightarrow> if until_ok (io_client_buf t) bs then Some (ReadRequestPacket_domain x p (got_string bs t)) else None
   | _ \<Rightarrow> None)"

definition read_fail_step :: "byte list \<Rightarrow> tunnel4 \<Rightarrow> tunnel4 option" where
  "read_fail_step bs t = (case op t of
     Read_preamble \<Rightarrow> if length bs < kPreambleSize then Some (RejectClient4 (got bs t)) else None
   | Read_user_id p \<Rightarrow> if 0 \<notin> set (io_client_buf t @ bs) then Some (RejectClient4 (got_string bs t)) else None
   | Read_domain p \<Rightarrow> if 0 \<notin> set (io_client_buf t @ bs) then Some (RejectClient4 (got_string bs t)) else None
   | _ \<Rightarrow> None)"

definition shut_client :: "tunnel4 \<Rightarrow> tunnel4" where
  "shut_client t = t\<lparr>rel := (rel t)\<lparr>client := (client (rel t))\<lparr>send_shut := True\<rparr>\<rparr>, op := Ended\<rparr>"

definition write_step :: "nat option \<Rightarrow> tunnel4 \<Rightarrow> tunnel4 option" where
  "write_step short t = (case op t of
     Write_ack \<Rightarrow> (case short of
       None \<Rightarrow> Some (ForwardTransmission (put (io_client_buf t) t))
     | Some k \<Rightarrow> if k < length (io_client_buf t) then Some (ForceClose (put (take k (io_client_buf t)) t)) else None)
   | Write_reject \<Rightarrow> (case short of
       None \<Rightarrow> Some (shut_client (put kRejectedResp t))
     | Some k \<Rightarrow> if k < length kRejectedResp then Some (shut_client (put (take k kRejectedResp) t)) else None)
   | _ \<Rightarrow> None)"

definition lift_step :: "tunnel4 option \<Rightarrow> tunnel4 res option" where
  "lift_step r = map_option Inr r"

definition tunnel4_step :: "outside \<Rightarrow> tunnel4 \<Rightarrow> event4 \<Rightarrow> tunnel4 res option" where
  "tunnel4_step x t e = (case e of
     Read_ok bs \<Rightarrow> lift_step (read_step x bs t)
   | Read_fail bs \<Rightarrow> lift_step (read_fail_step bs t)
   | Write_ok \<Rightarrow> lift_step (write_step None t)
   | Write_fail k \<Rightarrow> lift_step (write_step (Some k) t)
   | Connect_ok ep \<Rightarrow> (case op t of
       Connecting eps \<Rightarrow> if ep \<in> set eps then Some (connected x ep t) else None
     | _ \<Rightarrow> None)
   | Connect_fail \<Rightarrow> (case op t of Connecting eps \<Rightarrow> Some (Inr (RejectClient4 t)) | _ \<Rightarrow> None)
   | Relay_event ev \<Rightarrow> (case op t of
       Tunneling \<Rightarrow> (case relay_step (rel t) ev of
         None \<Rightarrow> None
       | Some (Inl f) \<Rightarrow> Some (Inl f)
       | Some (Inr r) \<Rightarrow> Some (Inr (t\<lparr>rel := r, op := if upload r = Stopped \<and> download r = Stopped then Ended else Tunneling\<rparr>)))
     | _ \<Rightarrow> None))"

section \<open>The protocol\<close>

definition preamble :: "packet4 \<Rightarrow> byte list" where
  "preamble p = [ver4 p, cmd4 p] @ be_bytes (dest_port4 p) @ be_bytes (dest_ip4 p)"

definition request4 :: "packet4 \<Rightarrow> byte list" where
  "request4 p = preamble p @ user_id p @ [0] @ (if dest_ip4 p < 256 then domain p @ [0] else [])"

definition request_ok :: "packet4 \<Rightarrow> bool" where
  "request_ok p \<longleftrightarrow> ver4 p = 4 \<and> cmd4 p = 1 \<and> dest_port4 p \<noteq> 0 \<and> dest_ip4 p \<noteq> 0 \<and> 0 \<notin> set (user_id p) \<and> 0 \<notin> set (domain p) \<and>
     (dest_ip4 p < 256 \<longleftrightarrow> domain p \<noteq> [])"

definition endpoints4 :: "outside \<Rightarrow> packet4 \<Rightarrow> endpoint list option" where
  "endpoints4 x p = (if domain p = [] then Some [(IPv4 (dest_ip4 p), dest_port4 p)] else resolve x (domain p) (dest_port4 p))"

section \<open>The invariant\<close>

definition requested4 :: "outside \<Rightarrow> packet4 \<Rightarrow> endpoint list \<Rightarrow> bool" where
  "requested4 x p eps \<longleftrightarrow> request_ok p \<and> endpoints4 x p = Some eps"

definition established4 :: "outside \<Rightarrow> tunnel4 \<Rightarrow> bool" where
  "established4 x t \<longleftrightarrow> (\<exists>p eps ip port early d e. requested4 x p eps \<and> remote_addr t = Some (IPv4 ip, port) \<and> (IPv4 ip, port) \<in> set eps \<and>
     received (client (rel t)) = request4 p @ early @ d \<and> sent (client (rel t)) = granted_resp x ip port @ e \<and>
     relay_ok (length (request4 p @ early)) (length (granted_resp x ip port)) (rel t))"

definition quiet :: "relay \<Rightarrow> bool" where
  "quiet r \<longleftrightarrow> sent (dial r) = [] \<and> received (dial r) = [] \<and> \<not> client_gone r \<and> \<not> dial_gone r"

definition tunnel4_ok :: "outside \<Rightarrow> tunnel4 \<Rightarrow> bool" where
  "tunnel4_ok x t \<longleftrightarrow> (case op t of
     Read_preamble \<Rightarrow> idle_relay (rel t) [] [] \<and> io_client_buf t = []
   | Read_user_id p \<Rightarrow> idle_relay (rel t) (preamble p @ io_client_buf t) [] \<and> user_id p = [] \<and> domain p = []
   | Read_domain p \<Rightarrow> idle_relay (rel t) (preamble p @ user_id p @ [0] @ io_client_buf t) [] \<and> 0 \<notin> set (user_id p) \<and> domain p = [] \<and>
       dest_ip4 p < 256
   | Connecting eps \<Rightarrow> (\<exists>p early. requested4 x p eps \<and> idle_relay (rel t) (request4 p @ early) [])
   | Write_ack \<Rightarrow> (\<exists>p eps ip port early. requested4 x p eps \<and> remote_addr t = Some (IPv4 ip, port) \<and> (IPv4 ip, port) \<in> set eps \<and>
       idle_relay (rel t) (request4 p @ early) [] \<and> io_client_buf t = granted_resp x ip port)
   | Write_reject \<Rightarrow> quiet (rel t)
   | Tunneling \<Rightarrow> established4 x t
   | Ended \<Rightarrow> established4 x t \<or> quiet (rel t))"

lemma idle_quiet [simp]: "idle_relay r rc sc \<Longrightarrow> quiet r"
  by (simp add: idle_relay_def quiet_def relay_new_def sock_new_def)

lemma quiet_simps [simp]: "quiet (r\<lparr>client := c\<rparr>) = quiet r" "quiet (ForceShutdown r) = quiet r"
  by (simp_all add: quiet_def)

lemma got4_simps [simp]:
  "op (got bs t) = op t" "rel (got bs t) = (rel t)\<lparr>client := deliver bs (client (rel t))\<rparr>" "io_client_buf (got bs t) = io_client_buf t"
  "rel (got_string bs t) = (rel t)\<lparr>client := deliver bs (client (rel t))\<rparr>" "io_client_buf (got_string bs t) = io_client_buf t @ bs"
  "rel (put bs t) = (rel t)\<lparr>client := take_in bs (client (rel t))\<rparr>" "remote_addr (put bs t) = remote_addr t"
  by (simp_all add: got_def got_string_def put_def)

lemma reject4_ok: "quiet (rel t) \<Longrightarrow> tunnel4_ok x (RejectClient4 t)"
  by (simp add: tunnel4_ok_def RejectClient4_def)

lemma split_string:
  assumes "0 \<in> set buf"
  shows "buf = take (string_bytes buf - 1) buf @ [0] @ drop (string_bytes buf) buf" and "0 \<notin> set (take (string_bytes buf - 1) buf)"
proof -
  let ?n = "length (takeWhile (\<lambda>b. b \<noteq> 0) buf)"
  have n: "?n < length buf" using assms by (induction buf) auto
  have "buf ! ?n = 0" using nth_length_takeWhile [OF n] by simp
  then show "buf = take (string_bytes buf - 1) buf @ [0] @ drop (string_bytes buf) buf"
    using id_take_nth_drop [OF n] by (simp add: string_bytes_def)
  show "0 \<notin> set (take (string_bytes buf - 1) buf)"
    by (simp add: string_bytes_def takeWhile_eq_take [symmetric]) (metis (mono_tags, lifting) set_takeWhileD)
qed

lemma until_null: "until_ok buf bs \<Longrightarrow> 0 \<in> set (buf @ bs)"
  by (auto simp: until_ok_def split: if_splits)

lemma complete_ok:
  assumes "idle_relay (rel t) (request4 p @ early) []" and "0 \<notin> set (user_id p)" and "0 \<notin> set (domain p)"
    and "domain p \<noteq> [] \<longrightarrow> dest_ip4 p < 256"
  shows "tunnel4_ok x (ReadRequestPacket_complete x p t)"
proof (cases "Valid p")
  case True
  then have "request_ok p" using assms(2-4) by (auto simp: Valid_def request_ok_def kVer4_def kCmdConnect4_def k4aMask_def split: if_splits)
  then have "tunnel4_ok x (t\<lparr>op := Connecting eps\<rparr>)" if "endpoints4 x p = Some eps" for eps
    using that assms(1) by (auto simp: tunnel4_ok_def requested4_def)
  then show ?thesis using True assms(1) by (auto simp: ReadRequestPacket_complete_def ConnectRemote_def endpoints4_def intro!: reject4_ok split: option.splits)
next
  case False
  then show ?thesis using assms(1) by (auto simp: ReadRequestPacket_complete_def intro!: reject4_ok)
qed

lemma take_drop_8: "length bs = 8 \<Longrightarrow> bs = [bs ! 0, bs ! 1] @ take 2 (drop 2 bs) @ take 4 (drop 4 bs)"
  by (rule nth_equalityI) (auto simp: nth_append nth_Cons split: nat.splits)

lemma read4_ok:
  assumes x: "outside_ok x" and ok: "tunnel4_ok x t" and step: "read_step x bs t = Some t'"
  shows "tunnel4_ok x t'"
proof (cases "op t")
  case Read_preamble
  then have b: "length bs = 8" and t': "t' = ReadRequestPacket_preamble x bs (got bs t)" and idle: "idle_relay (rel t) [] []" "io_client_buf t = []"
    using step ok by (auto simp: read_step_def kPreambleSize_def tunnel4_ok_def split: if_splits)
  then show ?thesis using x idle_simps(1) [OF idle(1), of bs] take_drop_8 [OF b]
    by (simp add: ReadRequestPacket_preamble_def tunnel4_ok_def preamble_def outside_ok_def obj_word_def bswap_le_word)
next
  case (Read_user_id p)
  then have u: "until_ok (io_client_buf t) bs" and t': "t' = ReadRequestPacket_user_id x p (got_string bs t)"
      and idle: "idle_relay (rel t) (preamble p @ io_client_buf t) []" "user_id p = []" "domain p = []"
    using step ok by (auto simp: read_step_def tunnel4_ok_def split: if_splits)
  let ?buf = "io_client_buf t @ bs"
  let ?q = "p\<lparr>user_id := take (string_bytes ?buf - 1) ?buf\<rparr>"
  let ?t = "got_string bs t\<lparr>io_client_buf := drop (string_bytes ?buf) ?buf\<rparr>"
  note sp = split_string [OF until_null [OF u]]
  have q: "(if string_bytes ?buf > 1 then ?q else p) = ?q" using idle(2) by (cases p) auto
  have rc: "idle_relay (rel ?t) (preamble ?q @ user_id ?q @ [0] @ io_client_buf ?t) []"
    using idle_simps(1) [OF idle(1), of bs] sp(1) by (simp add: preamble_def)
  have ib: "io_client_buf (got_string bs t) = ?buf" by simp
  have t'': "t' = (if dest_ip4 ?q < 256 then ?t\<lparr>op := Read_domain ?q\<rparr> else ReadRequestPacket_complete x ?q ?t)"
    unfolding t' ReadRequestPacket_user_id_def Let_def ib q by (rule refl)
  show ?thesis
  proof (cases "dest_ip4 ?q < 256")
    case True
    then show ?thesis using t'' rc sp(2) idle(3) by (simp add: tunnel4_ok_def)
  next
    case False
    have "tunnel4_ok x (ReadRequestPacket_complete x ?q ?t)"
      by (rule complete_ok [where early = "io_client_buf ?t"]) (use False rc sp(2) idle(3) in \<open>simp_all add: request4_def\<close>)
    then show ?thesis using t'' False by simp
  qed
next
  case (Read_domain p)
  then have u: "until_ok (io_client_buf t) bs" and t': "t' = ReadRequestPacket_domain x p (got_string bs t)"
      and idle: "idle_relay (rel t) (preamble p @ user_id p @ [0] @ io_client_buf t) []" "0 \<notin> set (user_id p)" "domain p = []" "dest_ip4 p < 256"
    using step ok by (auto simp: read_step_def tunnel4_ok_def split: if_splits)
  let ?buf = "io_client_buf t @ bs"
  let ?q = "p\<lparr>domain := take (string_bytes ?buf - 1) ?buf\<rparr>"
  let ?t = "got_string bs t\<lparr>io_client_buf := []\<rparr>"
  note sp = split_string [OF until_null [OF u]]
  have q: "(if string_bytes ?buf > 1 then ?q else p) = ?q" using idle(3) by (cases p) auto
  have "tunnel4_ok x (ReadRequestPacket_complete x ?q ?t)"
    by (rule complete_ok [where early = "drop (string_bytes ?buf) ?buf"])
      (use idle_simps(1) [OF idle(1), of bs] sp idle in \<open>simp_all add: request4_def preamble_def\<close>)
  moreover have ib: "io_client_buf (got_string bs t) = ?buf" by simp
  ultimately show ?thesis unfolding t' ReadRequestPacket_domain_def Let_def ib q by simp
qed (use step in \<open>simp_all add: read_step_def\<close>)

lemma established4_start:
  assumes "requested4 x p eps" and "remote_addr t = Some (IPv4 ip, port)" and "(IPv4 ip, port) \<in> set eps"
    and "idle_relay (rel t) (request4 p @ early) (granted_resp x ip port)"
  shows "established4 x (ForwardTransmission t)"
  using assms unfolding established4_def
  by (intro exI [of _ p] exI [of _ eps] exI [of _ ip] exI [of _ port] exI [of _ early] exI [of _ "[]"])
    (auto simp: ForwardTransmission_def idle_relay_def relay_new_def sock_new_def relay_ok_def passes_def flags_ok_def)

lemma established4_step:
  assumes est: "established4 x t" and step: "relay_step (rel t) e = Some (Inr r)"
  shows "established4 x (t\<lparr>rel := r, op := o'\<rparr>)"
proof -
  obtain p eps ip port early d e' where h: "requested4 x p eps" "remote_addr t = Some (IPv4 ip, port)" "(IPv4 ip, port) \<in> set eps"
      "received (client (rel t)) = request4 p @ early @ d" "sent (client (rel t)) = granted_resp x ip port @ e'"
      "relay_ok (length (request4 p @ early)) (length (granted_resp x ip port)) (rel t)"
    using est unfolding established4_def by blast
  obtain d' where d': "received (client r) = request4 p @ early @ d'" using received_grows(1) [OF step] h(4) by (auto simp: prefix_def)
  obtain f where f: "sent (client r) = granted_resp x ip port @ f" using received_grows(2) [OF step] h(5) by (auto simp: prefix_def)
  show ?thesis
    using h(1-3) d' f relay_step_ok [OF h(6) step] unfolding established4_def
    by (intro exI [of _ p] exI [of _ eps] exI [of _ ip] exI [of _ port] exI [of _ early] exI [of _ d'] exI [of _ f]) simp
qed

lemma write4_ok:
  assumes ok: "tunnel4_ok x t" and step: "write_step short t = Some t'"
  shows "tunnel4_ok x t'"
proof (cases "op t")
  case Write_ack
  have "\<exists>p eps ip port early. requested4 x p eps \<and> remote_addr t = Some (IPv4 ip, port) \<and> (IPv4 ip, port) \<in> set eps \<and>
       idle_relay (rel t) (request4 p @ early) [] \<and> io_client_buf t = granted_resp x ip port"
    using ok unfolding tunnel4_ok_def Write_ack op4.case .
  then obtain p eps ip port early where w: "requested4 x p eps" "remote_addr t = Some (IPv4 ip, port)" "(IPv4 ip, port) \<in> set eps"
      and idle: "idle_relay (rel t) (request4 p @ early) []" and buf: "io_client_buf t = granted_resp x ip port" by blast
  show ?thesis
  proof (cases short)
    case None
    then have t': "t' = ForwardTransmission (put (granted_resp x ip port) t)" using step Write_ack buf by (simp add: write_step_def)
    have "established4 x t'" unfolding t' using w idle_simps(2) [OF idle, of "granted_resp x ip port"] by (intro established4_start) auto
    moreover have "op t' = Tunneling" by (simp add: t' ForwardTransmission_def)
    ultimately show ?thesis by (simp add: tunnel4_ok_def)
  next
    case (Some k)
    then have "t' = ForceClose (put (take k (io_client_buf t)) t)" using step Write_ack by (auto simp: write_step_def split: if_splits)
    then show ?thesis using idle by (simp add: ForceClose_def tunnel4_ok_def)
  qed
next
  case Write_reject
  then have "quiet (rel t)" using ok by (simp add: tunnel4_ok_def)
  then show ?thesis using step Write_reject by (auto simp: write_step_def shut_client_def tunnel4_ok_def split: option.splits if_splits)
qed (use step in \<open>simp_all add: write_step_def\<close>)

lemma read_fail4_ok:
  assumes ok: "tunnel4_ok x t" and step: "read_fail_step bs t = Some t'"
  shows "tunnel4_ok x t'"
proof -
  have "quiet (rel t)" using ok step by (auto simp: tunnel4_ok_def read_fail_step_def split: op4.splits)
  then show ?thesis using step by (auto simp: read_fail_step_def split: op4.splits if_splits intro!: reject4_ok)
qed

lemma tunnel4_step_ok:
  assumes x: "outside_ok x" and ok: "tunnel4_ok x t" and step: "tunnel4_step x t e = Some (Inr t')"
  shows "tunnel4_ok x t'"
proof (cases e)
  case (Read_ok bs)
  then show ?thesis using read4_ok [OF x ok, of bs t'] step by (simp add: tunnel4_step_def lift_step_def)
next
  case (Read_fail bs)
  then show ?thesis using read_fail4_ok [OF ok, of bs t'] step by (simp add: tunnel4_step_def lift_step_def)
next
  case Write_ok
  then show ?thesis using write4_ok [OF ok, of None t'] step by (simp add: tunnel4_step_def lift_step_def)
next
  case (Write_fail k)
  then show ?thesis using write4_ok [OF ok, of "Some k" t'] step by (simp add: tunnel4_step_def lift_step_def)
next
  case (Connect_ok ep)
  then obtain eps ip port where c: "op t = Connecting eps" "ep \<in> set eps" "ep = (IPv4 ip, port)"
      "t' = t\<lparr>remote_addr := Some ep, io_client_buf := granted_resp x ip port, op := Write_ack\<rparr>"
    using step by (cases ep) (auto simp: tunnel4_step_def connected_def Let_def split: op4.splits if_splits address.splits)
  have "\<exists>p early. requested4 x p eps \<and> idle_relay (rel t) (request4 p @ early) []"
    using ok unfolding tunnel4_ok_def c(1) op4.case .
  then show ?thesis using c(2-4) by (auto simp: tunnel4_ok_def)
next
  case Connect_fail
  then obtain eps where c: "op t = Connecting eps" "t' = RejectClient4 t" using step by (auto simp: tunnel4_step_def split: op4.splits)
  have "quiet (rel t)" using ok c(1) by (auto simp: tunnel4_ok_def)
  then show ?thesis unfolding c(2) by (rule reject4_ok)
next
  case (Relay_event ev)
  then obtain r where r: "op t = Tunneling" "relay_step (rel t) ev = Some (Inr r)"
      "t' = t\<lparr>rel := r, op := if upload r = Stopped \<and> download r = Stopped then Ended else Tunneling\<rparr>"
    using step by (auto simp: tunnel4_step_def split: op4.splits option.splits sum.splits)
  have "established4 x t'" using ok r established4_step [of x t ev r] by (simp add: tunnel4_ok_def)
  then show ?thesis using r(3) by (cases "upload r = Stopped \<and> download r = Stopped") (simp_all add: tunnel4_ok_def)
qed

lemma tunnel4_run_ok:
  assumes "outside_ok x" and "orun (tunnel4_step x) es tunnel4_Run = Some (Inr t)"
  shows "tunnel4_ok x t"
proof (rule orun_invariant [where P = "tunnel4_ok x", OF _ _ assms(2)])
  show "tunnel4_ok x tunnel4_Run" by (simp add: tunnel4_Run_def tunnel4_ok_def idle_relay_def relay_new_def sock_new_def)
qed (rule tunnel4_step_ok [OF assms(1)])

lemma relayed_established4:
  assumes "outside_ok x" and "orun (tunnel4_step x) es tunnel4_Run = Some (Inr t)" and "\<not> quiet (rel t)"
  shows "established4 x t"
  using tunnel4_run_ok [OF assms(1,2)] assms(3) by (auto simp: tunnel4_ok_def split: op4.splits)

section \<open>Sample runs\<close>

definition sample_outside4 :: outside where
  "sample_outside4 = \<lparr>host = Little_endian, swap16 = bswap, swap32 = bswap, resolve = (\<lambda>n port. Some [(IPv6 (replicate 16 0), port)]),
     local_port = 0\<rparr>"

text \<open>A request for an address, with an empty user name and two more bytes in the same segment, and then the end.\<close>

definition early_run :: "event4 list" where
  "early_run = [Read_ok [4, 1, 0, 80, 127, 0, 0, 1], Read_ok [0, 7, 8], Connect_ok (IPv4 0x7F000001, 80), Write_ok,
     Relay_event (Up (Got [9])), Relay_event (Up Done), Relay_event (Up (Eof True True))]"

lemma early_run_result:
  "yields (orun (tunnel4_step sample_outside4) early_run tunnel4_Run)
     (\<lambda>t. received (client (rel t)) = [4, 1, 0, 80, 127, 0, 0, 1, 0, 7, 8, 9] \<and> sent (dial (rel t)) = [9] \<and> client_gone (rel t))"
  by code_simp

lemma sample_outside4_ok: "outside_ok sample_outside4"
  by (simp add: outside_ok_def sample_outside4_def)

section \<open>Properties\<close>

text \<open>
  Fact. The tunnel leads where the client asked for: in every state that operations can lead to, if bytes have been
  sent to or received from a remote host, then the client's bytes start with a valid request, the host is an
  endpoint of its destination, the client was sent the acknowledgement and then a prefix of the host's bytes,
  and the host was sent a prefix of the client's bytes behind the request and what was read along with it.
\<close>

theorem socks4_leads_to_destination:
  assumes "outside_ok x" and "orun (tunnel4_step x) es tunnel4_Run = Some (Inr t)"
    and "sent (dial (rel t)) \<noteq> [] \<or> received (dial (rel t)) \<noteq> []"
  shows "\<exists>p ip port early data back. request_ok p \<and> remote_addr t = Some (IPv4 ip, port) \<and>
    (\<exists>eps. endpoints4 x p = Some eps \<and> (IPv4 ip, port) \<in> set eps) \<and>
    received (client (rel t)) = request4 p @ early @ data \<and> prefix (sent (dial (rel t))) data \<and>
    sent (client (rel t)) = granted_resp x ip port @ back \<and> prefix back (received (dial (rel t)))"
proof -
  have "\<not> quiet (rel t)" using assms(3) by (auto simp: quiet_def)
  then have "established4 x t" by (rule relayed_established4 [OF assms(1,2)])
  then obtain p eps ip port early d e where h: "requested4 x p eps" "remote_addr t = Some (IPv4 ip, port)" "(IPv4 ip, port) \<in> set eps"
      "received (client (rel t)) = request4 p @ early @ d" "sent (client (rel t)) = granted_resp x ip port @ e"
      "relay_ok (length (request4 p @ early)) (length (granted_resp x ip port)) (rel t)"
    unfolding established4_def by blast
  have "prefix (sent (dial (rel t))) d" "prefix e (received (dial (rel t)))"
    using relay_okD(1,2) [OF h(6)] h(4,5) by (auto simp: passes_def dest: append_prefixD)
  then show ?thesis using h(1-5) unfolding requested4_def by blast
qed

theorem socks4_leads_to_destination_witness:
  "\<exists>t p early data. orun (tunnel4_step sample_outside4) early_run tunnel4_Run = Some (Inr t) \<and> request_ok p \<and>
    received (client (rel t)) = request4 p @ early @ data \<and> prefix (sent (dial (rel t))) data \<and> sent (dial (rel t)) = [9]"
proof -
  obtain t where t: "orun (tunnel4_step sample_outside4) early_run tunnel4_Run = Some (Inr t)" "sent (dial (rel t)) = [9]"
    using yieldsD [OF early_run_result] by blast
  have "sent (dial (rel t)) \<noteq> [] \<or> received (dial (rel t)) \<noteq> []" using t(2) by simp
  from socks4_leads_to_destination [OF sample_outside4_ok t(1) this] obtain p early data
    where "request_ok p" "received (client (rel t)) = request4 p @ early @ data" "prefix (sent (dial (rel t))) data" by blast
  then show ?thesis using t by blast
qed

lemma string_bytes_null: "0 \<notin> set u \<Longrightarrow> string_bytes (u @ 0 # r) = length u + 1"
proof -
  assume "0 \<notin> set u"
  then have "takeWhile (\<lambda>b. b \<noteq> 0) u = u" by (induction u) auto
  then show ?thesis by (simp add: string_bytes_def takeWhile_tail)
qed

lemma length_preamble [simp]: "length (preamble p) = 8"
  by (simp add: preamble_def)

lemma preamble_step:
  assumes "outside_ok x"
  shows "read_step x (preamble p) tunnel4_Run =
    Some ((got (preamble p) tunnel4_Run)\<lparr>op := Read_user_id (p\<lparr>user_id := [], domain := []\<rparr>)\<rparr>)"
  using assms
  by (cases p) (simp add: read_step_def tunnel4_Run_def kPreambleSize_def ReadRequestPacket_preamble_def preamble_def outside_ok_def
      obj_word_def bswap_le_word, simp add: be_bytes_def)

text \<open>
  Fact. Every valid request is understood, also when its strings arrive in one piece with each other and with
  more bytes: the tunnel connects to just the endpoints of its destination.
\<close>

theorem socks4_understands_requests:
  assumes "outside_ok x" and "request_ok p" and "endpoints4 x p = Some eps"
  shows "\<exists>t. orun (tunnel4_step x) ([Read_ok (preamble p), Read_ok (drop 8 (request4 p) @ early)] @
      (if dest_ip4 p < 256 then [Read_ok []] else [])) tunnel4_Run = Some (Inr t) \<and> op t = Connecting eps"
proof -
  define t1 where "t1 = (got (preamble p) tunnel4_Run)\<lparr>op := Read_user_id (p\<lparr>user_id := [], domain := []\<rparr>)\<rparr>"
  have s1: "tunnel4_step x tunnel4_Run (Read_ok (preamble p)) = Some (Inr t1)"
    by (simp add: tunnel4_step_def lift_step_def preamble_step [OF assms(1)] t1_def)
  have u: "0 \<notin> set (user_id p)" "0 \<notin> set (domain p)" "Valid p"
    using assms(2) by (auto simp: request_ok_def Valid_def kVer4_def kCmdConnect4_def k4aMask_def)
  have buf: "io_client_buf t1 = []" "op t1 = Read_user_id (p\<lparr>user_id := [], domain := []\<rparr>)" by (simp_all add: t1_def tunnel4_Run_def)
  have conn: "op (ReadRequestPacket_complete x p t) = Connecting eps" for t
    using u(3) assms(3) by (auto simp: ReadRequestPacket_complete_def ConnectRemote_def endpoints4_def split: if_splits)
  show ?thesis
  proof (cases "dest_ip4 p < 256")
    case True
    define rest where "rest = domain p @ 0 # early"
    have d: "drop 8 (request4 p) @ early = user_id p @ 0 # rest" using True by (simp add: request4_def rest_def)
    obtain t2 where t2: "tunnel4_step x t1 (Read_ok (user_id p @ 0 # rest)) = Some (Inr t2)" "op t2 = Read_domain (p\<lparr>domain := []\<rparr>)"
        "io_client_buf t2 = rest"
      using buf u(1) True string_bytes_null [of "user_id p" rest]
      by (cases "user_id p = []")
        (auto simp: tunnel4_step_def lift_step_def read_step_def until_ok_def ReadRequestPacket_user_id_def Let_def)
    have "domain p \<noteq> []" using True assms(2) by (simp add: request_ok_def)
    then have "tunnel4_step x t2 (Read_ok []) = Some (Inr (ReadRequestPacket_complete x p (got_string [] t2\<lparr>io_client_buf := []\<rparr>)))"
      using t2(2,3) u(2) string_bytes_null [of "domain p" early]
      by (auto simp: tunnel4_step_def lift_step_def read_step_def until_ok_def ReadRequestPacket_domain_def Let_def rest_def)
    then show ?thesis using s1 t2(1) True conn d by simp
  next
    case False
    then have "domain p = []" using assms(2) by (simp add: request_ok_def)
    then have "tunnel4_step x t1 (Read_ok (user_id p @ 0 # early)) =
        Some (Inr (ReadRequestPacket_complete x p (got_string (user_id p @ 0 # early) t1\<lparr>io_client_buf := early\<rparr>)))"
      using buf u(1) False string_bytes_null [of "user_id p" early]
      by (cases p; cases "user_id p = []")
        (auto simp: tunnel4_step_def lift_step_def read_step_def until_ok_def ReadRequestPacket_user_id_def Let_def)
    then show ?thesis using s1 False conn by (simp add: request4_def)
  qed
qed

theorem socks4_understands_requests_witness:
  "\<exists>t. orun (tunnel4_step sample_outside4) [Read_ok [4, 1, 0, 80, 127, 0, 0, 1], Read_ok [65, 0, 7]] tunnel4_Run = Some (Inr t) \<and>
    op t = Connecting [(IPv4 0x7F000001, 80)]"
proof -
  let ?p = "\<lparr>ver4 = 4, cmd4 = 1, dest_port4 = 80, dest_ip4 = 0x7F000001, user_id = [65], domain = []\<rparr>"
  have "preamble ?p = [4, 1, 0, 80, 127, 0, 0, 1]" by code_simp
  then show ?thesis
    using socks4_understands_requests [OF sample_outside4_ok, of ?p _ "[7]"] by (simp add: request_ok_def endpoints4_def request4_def)
qed

text \<open>
  Fact. Bytes that the client sends along with its request are lost: what was read beyond the request lies in the
  buffer, over which the acknowledgement is written. Here the client sends 7 and 8 with the request and 9
  later; the host gets only the 9, although the end of the client's bytes has been seen.
\<close>

theorem socks4_drops_early_bytes:
  "case orun (tunnel4_step sample_outside4) early_run tunnel4_Run of
     Some (Inr t) \<Rightarrow> received (client (rel t)) = [4, 1, 0, 80, 127, 0, 0, 1, 0] @ [7, 8, 9] \<and> sent (dial (rel t)) = [9] \<and> client_gone (rel t)
   | _ \<Rightarrow> False"
  by code_simp

text \<open>
  Fact. A name that leads to a host of IPv6 stops the program: the acknowledgement holds an address of IPv4, and the
  conversion throws.
\<close>

theorem socks4_v6_host_throws:
  "orun (tunnel4_step sample_outside4) [Read_ok [4, 1, 0, 80, 0, 0, 0, 1], Read_ok [0, 97, 0], Read_ok [], Connect_ok (IPv6 (replicate 16 0), 80)]
     tunnel4_Run = Some (Inl (Thrown ''bad_address_cast''))"
  by code_simp

end
