(* ===== verification/Light_Mutex.thy ===== *)
theory Light_Mutex
  imports Simulation
begin

text \<open>
  The two mutexes of \<open>src/LightweightMutex/light_mutex\<close>: a counter that is changed by interlocked operations and
  a semaphore for the threads that find it taken. Every interlocked operation and every access of a shared
  field is one step. The theory shows that both exclude, that a waiting thread is never forgotten, and that a
  plain mutex taken by \<open>try_lock\<close> cannot be given back.
\<close>

section \<open>The plain mutex\<close>

text \<open>
  Where a thread is. \<open>Waiting\<close> and \<open>Entering\<close> lie in \<open>lock\<close>, before and after the semaphore; \<open>Leaving\<close> and
  \<open>Releasing\<close> in \<open>unlock\<close>, before the counter and before the semaphore.
\<close>

datatype place = Outside | Waiting | Entering | Inside | Leaving | Releasing

datatype action = Lock | Try_lock | Unlock

text \<open>The identifier of thread \<open>t\<close> is \<open>t + 1\<close>; 0 is none.\<close>

record light_mutex =
  sem :: nat
  owner_tid :: nat
  use_count :: int
  places :: "nat \<Rightarrow> place"

definition light_mutex_new :: light_mutex where
  "light_mutex_new = \<lparr>sem = 0, owner_tid = 0, use_count = 0, places = (\<lambda>_. Outside)\<rparr>"

definition lm_goto :: "nat \<Rightarrow> place \<Rightarrow> light_mutex \<Rightarrow> light_mutex" where
  "lm_goto t p m = m\<lparr>places := (places m)(t := p)\<rparr>"

text \<open>\<open>ReleaseSemaphore\<close> fails, which is not looked at, when the semaphore is at its maximum of 1.\<close>

definition release_sem :: "nat \<Rightarrow> nat" where
  "release_sem s = (if s < 1 then s + 1 else s)"

definition lm_unlock :: "nat \<Rightarrow> light_mutex \<Rightarrow> light_mutex res" where
  "lm_unlock t m = rbind (guard (owner_tid m = t + 1) Assert_failed) (\<lambda>_. Inr (lm_goto t Leaving (m\<lparr>owner_tid := 0\<rparr>)))"

definition lm_step :: "light_mutex \<Rightarrow> nat \<times> action \<Rightarrow> light_mutex res" where
  "lm_step m ta = (let t = fst ta in case places m t of
     Outside \<Rightarrow> (case snd ta of
       Lock \<Rightarrow> Inr (lm_goto t (if use_count m > 0 then Waiting else Entering) (m\<lparr>use_count := use_count m + 1\<rparr>))
     | Try_lock \<Rightarrow> if use_count m = 0 then Inr (lm_goto t Inside (m\<lparr>use_count := 1\<rparr>)) else Inr m
     | Unlock \<Rightarrow> lm_unlock t m)
   | Waiting \<Rightarrow> if sem m > 0 then Inr (lm_goto t Entering (m\<lparr>sem := sem m - 1\<rparr>)) else Inr m
   | Entering \<Rightarrow> Inr (lm_goto t Inside (m\<lparr>owner_tid := t + 1\<rparr>))
   | Inside \<Rightarrow> (case snd ta of Unlock \<Rightarrow> lm_unlock t m | _ \<Rightarrow> Inr m)
   | Leaving \<Rightarrow> Inr (lm_goto t (if use_count m > 1 then Releasing else Outside) (m\<lparr>use_count := use_count m - 1\<rparr>))
   | Releasing \<Rightarrow> Inr (lm_goto t Outside (m\<lparr>sem := release_sem (sem m)\<rparr>)))"

fun counted :: "place \<Rightarrow> nat" where
  "counted Outside = 0"
| "counted Releasing = 0"
| "counted _ = 1"

fun holds :: "place \<Rightarrow> nat" where
  "holds Entering = 1"
| "holds Inside = 1"
| "holds Leaving = 1"
| "holds _ = 0"

fun releases :: "place \<Rightarrow> nat" where
  "releases Releasing = 1"
| "releases _ = 0"

definition lm_ok :: "light_mutex \<Rightarrow> bool" where
  "lm_ok m \<longleftrightarrow> few counted (places m) \<and> few holds (places m) \<and> few releases (places m) \<and>
     use_count m = int (total counted (places m)) \<and>
     total holds (places m) + total releases (places m) + sem m = (if use_count m > 0 then 1 else 0) \<and>
     (\<forall>t. owner_tid m = t + 1 \<longrightarrow> places m t = Inside)"

lemma lm_goto_simps [simp]:
  "places (lm_goto t p m) = (places m)(t := p)" "sem (lm_goto t p m) = sem m" "use_count (lm_goto t p m) = use_count m"
  "owner_tid (lm_goto t p m) = owner_tid m"
  by (simp_all add: lm_goto_def)

lemma lm_step_ok:
  assumes ok: "lm_ok m" and step: "lm_step m ta = Inr m'"
  shows "lm_ok m'"
proof -
  let ?t = "fst ta"
  have fin: "few counted (places m)" "few holds (places m)" "few releases (places m)"
    and uc: "use_count m = int (total counted (places m))"
    and tok: "total holds (places m) + total releases (places m) + sem m = (if use_count m > 0 then 1 else 0)"
    and own: "\<forall>t. owner_tid m = t + 1 \<longrightarrow> places m t = Inside"
    using ok by (simp_all add: lm_ok_def)
  note upd = total_upd(1) [OF fin(1), of ?t] total_upd(1) [OF fin(2), of ?t] total_upd(1) [OF fin(3), of ?t]
  note fin' = total_upd(2) [OF fin(1), of ?t] total_upd(2) [OF fin(2), of ?t] total_upd(2) [OF fin(3), of ?t]
  note ge = total_ge [OF fin(1), of ?t] total_ge [OF fin(2), of ?t] total_ge [OF fin(3), of ?t]
  have upd': "lm_ok (lm_goto ?t p n)" if "places n = places m"
      "use_count n = use_count m + int (counted p) - int (counted (places m ?t))"
      "holds p + releases p + sem n + (if use_count m > 0 then 1 else 0) =
         holds (places m ?t) + releases (places m ?t) + sem m + (if use_count n > 0 then 1 else 0)"
      "owner_tid n = 0 \<or> (owner_tid n = owner_tid m \<and> places m ?t \<noteq> Inside) \<or> (owner_tid n = ?t + 1 \<and> p = Inside)" for p n
    using that upd(1) [of p] upd(2) [of p] upd(3) [of p] fin'(1) [of p] fin'(2) [of p] fin'(3) [of p] uc tok own unfolding lm_ok_def by auto
  show ?thesis
  proof (cases "places m ?t")
    case Outside
    then have "owner_tid m \<noteq> ?t + 1" using own by auto
    then show ?thesis using step uc ge Outside ok
      by (cases "snd ta")
        (auto simp: lm_step_def lm_unlock_def rbind_Inr_iff guard_Inr_iff Let_def intro!: upd' split: if_splits)
  next
    case Leaving
    then show ?thesis using step ge uc tok by (auto simp: lm_step_def Let_def intro!: upd' split: if_splits)
  next
    case Releasing
    then show ?thesis using step ge uc tok by (auto simp: lm_step_def release_sem_def Let_def intro!: upd' split: if_splits)
  next
    case Inside
    then show ?thesis using step ge uc ok
      by (cases "snd ta") (auto simp: lm_step_def lm_unlock_def rbind_Inr_iff Let_def intro!: upd')
  qed (use step uc ge ok in \<open>auto simp: lm_step_def Let_def intro!: upd' split: if_splits\<close>)
qed

lemma lm_new_ok: "lm_ok light_mutex_new"
  by (simp add: lm_ok_def light_mutex_new_def few_def total_def)

lemma lm_run_ok: "rfold lm_step acts light_mutex_new = Inr m \<Longrightarrow> lm_ok m"
  using rfold_invariant [of lm_ok lm_step light_mutex_new acts m] lm_step_ok lm_new_ok by blast

section \<open>The recursive mutex\<close>

text \<open>
  \<open>Checking\<close>, \<open>Sleeping\<close>, \<open>Taking\<close> and \<open>Counting\<close> lie in \<open>lock\<close>, \<open>Trying\<close> and \<open>Counting\<close> in \<open>try_lock\<close>, \<open>Returning\<close> and
  \<open>Posting\<close> in \<open>unlock\<close>. The flag says whether the thread held the mutex when it began the call; the code does not
  have it, and no step reads it.
\<close>

datatype rplace = Away | Checking bool | Sleeping | Taking bool | Trying | Counting bool | Held | Returning int | Posting

record recursive_mutex =
  rsem :: nat
  rowner_tid :: nat
  ruse_count :: int
  recursion_count :: int
  rplaces :: "nat \<Rightarrow> rplace"

definition recursive_mutex_new :: recursive_mutex where
  "recursive_mutex_new = \<lparr>rsem = 0, rowner_tid = 0, ruse_count = 0, recursion_count = 0, rplaces = (\<lambda>_. Away)\<rparr>"

definition rm_goto :: "nat \<Rightarrow> rplace \<Rightarrow> recursive_mutex \<Rightarrow> recursive_mutex" where
  "rm_goto t p m = m\<lparr>rplaces := (rplaces m)(t := p)\<rparr>"

text \<open>
  The counters are 32-bit \<open>long\<close>s: interlocked operations wrap around, and \<open>++\<close> and \<open>--\<close> outside the range are undefined.
\<close>

definition long_wrap :: "int \<Rightarrow> int" where
  "long_wrap x = (x + 2 ^ 31) mod 2 ^ 32 - 2 ^ 31"

definition rm_begin :: "nat \<Rightarrow> bool \<Rightarrow> action \<Rightarrow> recursive_mutex \<Rightarrow> recursive_mutex res" where
  "rm_begin t inside a m = (case a of
     Lock \<Rightarrow> Inr (rm_goto t (if ruse_count m > 0 then Checking inside else Taking inside) (m\<lparr>ruse_count := long_wrap (ruse_count m + 1)\<rparr>))
   | Try_lock \<Rightarrow>
       if rowner_tid m = t + 1 then Inr (rm_goto t Trying m)
       else if ruse_count m = 0 then Inr (rm_goto t (Taking inside) (m\<lparr>ruse_count := 1\<rparr>)) else Inr m
   | Unlock \<Rightarrow>
       rbind (guard (rowner_tid m = t + 1) Assert_failed) (\<lambda>_.
       rbind (chk32 (recursion_count m - 1)) (\<lambda>new_recur.
       Inr (rm_goto t (Returning new_recur)
            (m\<lparr>recursion_count := new_recur, rowner_tid := if new_recur = 0 then 0 else rowner_tid m\<rparr>)))))"

definition rm_step :: "recursive_mutex \<Rightarrow> nat \<times> action \<Rightarrow> recursive_mutex res" where
  "rm_step m ta = (let t = fst ta in case rplaces m t of
     Away \<Rightarrow> rm_begin t False (snd ta) m
   | Held \<Rightarrow> rm_begin t True (snd ta) m
   | Checking inside \<Rightarrow> Inr (rm_goto t (if rowner_tid m \<noteq> t + 1 then Sleeping else Taking inside) m)
   | Sleeping \<Rightarrow> if rsem m > 0 then Inr (rm_goto t (Taking False) (m\<lparr>rsem := rsem m - 1\<rparr>)) else Inr m
   | Taking inside \<Rightarrow> Inr (rm_goto t (Counting inside) (m\<lparr>rowner_tid := t + 1\<rparr>))
   | Trying \<Rightarrow> Inr (rm_goto t (Counting True) (m\<lparr>ruse_count := long_wrap (ruse_count m + 1)\<rparr>))
   | Counting inside \<Rightarrow> rbind (chk32 (recursion_count m + 1)) (\<lambda>r. Inr (rm_goto t Held (m\<lparr>recursion_count := r\<rparr>)))
   | Returning new_recur \<Rightarrow>
       Inr (rm_goto t (if ruse_count m > 1 \<and> new_recur = 0 then Posting else if new_recur = 0 then Away else Held)
         (m\<lparr>ruse_count := long_wrap (ruse_count m - 1)\<rparr>))
   | Posting \<Rightarrow> Inr (rm_goto t Away (m\<lparr>rsem := release_sem (rsem m)\<rparr>)))"

fun rcounted :: "rplace \<Rightarrow> nat" where
  "rcounted (Checking b) = 1"
| "rcounted Sleeping = 1"
| "rcounted (Taking b) = 1"
| "rcounted (Counting b) = 1"
| "rcounted (Returning n) = 1"
| "rcounted _ = 0"

fun rholds :: "rplace \<Rightarrow> nat" where
  "rholds (Checking b) = (if b then 1 else 0)"
| "rholds (Taking b) = 1"
| "rholds Trying = 1"
| "rholds (Counting b) = 1"
| "rholds Held = 1"
| "rholds (Returning n) = 1"
| "rholds _ = 0"

fun rposts :: "rplace \<Rightarrow> nat" where
  "rposts Posting = 1"
| "rposts _ = 0"

text \<open>What a thread knows of the depth \<open>r\<close> and the owner at its place.\<close>

fun rplace_ok :: "int \<Rightarrow> nat \<Rightarrow> nat \<Rightarrow> rplace \<Rightarrow> bool" where
  "rplace_ok r owner me (Checking b) \<longleftrightarrow> (if b then 0 < r \<and> owner = me else owner \<noteq> me)"
| "rplace_ok r owner me (Taking b) \<longleftrightarrow> (if b then 0 < r \<and> owner = me else r = 0 \<and> owner = 0)"
| "rplace_ok r owner me (Counting b) \<longleftrightarrow> owner = me \<and> (if b then 0 < r else r = 0)"
| "rplace_ok r owner me Trying \<longleftrightarrow> owner = me \<and> 0 < r"
| "rplace_ok r owner me Held \<longleftrightarrow> owner = me \<and> 0 < r"
| "rplace_ok r owner me (Returning n) \<longleftrightarrow> 0 \<le> n \<and> r = n \<and> owner = (if n = 0 then 0 else me)"
| "rplace_ok r owner me _ \<longleftrightarrow> owner \<noteq> me"

definition rm_ok :: "recursive_mutex \<Rightarrow> bool" where
  "rm_ok m \<longleftrightarrow> few rcounted (rplaces m) \<and> few rholds (rplaces m) \<and> few rposts (rplaces m) \<and>
     ruse_count m = int (total rcounted (rplaces m)) + recursion_count m \<and>
     total rholds (rplaces m) + total rposts (rplaces m) + rsem m = (if ruse_count m > 0 then 1 else 0) \<and>
     (\<forall>t. rplace_ok (recursion_count m) (rowner_tid m) (t + 1) (rplaces m t)) \<and>
     ((\<forall>t. rholds (rplaces m t) = 0) \<longrightarrow> recursion_count m = 0 \<and> rowner_tid m = 0)"

lemma rm_goto_simps [simp]:
  "rplaces (rm_goto t p m) = (rplaces m)(t := p)" "rsem (rm_goto t p m) = rsem m" "ruse_count (rm_goto t p m) = ruse_count m"
  "rowner_tid (rm_goto t p m) = rowner_tid m" "recursion_count (rm_goto t p m) = recursion_count m"
  by (simp_all add: rm_goto_def)

text \<open>
  The calls of \<open>lock\<close> and \<open>try_lock\<close> that count: those in progress and those nested in the thread that holds the mutex. While they
  are fewer than \<open>2 ^ 31\<close>, the interlocked operations do not wrap around: a step is one on unbounded integers.
\<close>

definition crowd :: "recursive_mutex \<Rightarrow> int" where
  "crowd m = int (total rcounted (rplaces m)) + recursion_count m"

definition wide_begin :: "nat \<Rightarrow> bool \<Rightarrow> action \<Rightarrow> recursive_mutex \<Rightarrow> recursive_mutex res" where
  "wide_begin t inside a m = (case a of
     Lock \<Rightarrow> Inr (rm_goto t (if ruse_count m > 0 then Checking inside else Taking inside) (m\<lparr>ruse_count := ruse_count m + 1\<rparr>))
   | Try_lock \<Rightarrow>
       if rowner_tid m = t + 1 then Inr (rm_goto t Trying m)
       else if ruse_count m = 0 then Inr (rm_goto t (Taking inside) (m\<lparr>ruse_count := 1\<rparr>)) else Inr m
   | Unlock \<Rightarrow>
       rbind (guard (rowner_tid m = t + 1) Assert_failed) (\<lambda>_.
       let new_recur = recursion_count m - 1
       in Inr (rm_goto t (Returning new_recur)
            (m\<lparr>recursion_count := new_recur, rowner_tid := if new_recur = 0 then 0 else rowner_tid m\<rparr>))))"

definition wide_step :: "recursive_mutex \<Rightarrow> nat \<times> action \<Rightarrow> recursive_mutex res" where
  "wide_step m ta = (let t = fst ta in case rplaces m t of
     Away \<Rightarrow> wide_begin t False (snd ta) m
   | Held \<Rightarrow> wide_begin t True (snd ta) m
   | Checking inside \<Rightarrow> Inr (rm_goto t (if rowner_tid m \<noteq> t + 1 then Sleeping else Taking inside) m)
   | Sleeping \<Rightarrow> if rsem m > 0 then Inr (rm_goto t (Taking False) (m\<lparr>rsem := rsem m - 1\<rparr>)) else Inr m
   | Taking inside \<Rightarrow> Inr (rm_goto t (Counting inside) (m\<lparr>rowner_tid := t + 1\<rparr>))
   | Trying \<Rightarrow> Inr (rm_goto t (Counting True) (m\<lparr>ruse_count := ruse_count m + 1\<rparr>))
   | Counting inside \<Rightarrow> Inr (rm_goto t Held (m\<lparr>recursion_count := recursion_count m + 1\<rparr>))
   | Returning new_recur \<Rightarrow>
       Inr (rm_goto t (if ruse_count m > 1 \<and> new_recur = 0 then Posting else if new_recur = 0 then Away else Held)
         (m\<lparr>ruse_count := ruse_count m - 1\<rparr>))
   | Posting \<Rightarrow> Inr (rm_goto t Away (m\<lparr>rsem := release_sem (rsem m)\<rparr>)))"

lemma long_wrap_small: "- (2 ^ 31) \<le> x \<Longrightarrow> x < 2 ^ 31 \<Longrightarrow> long_wrap x = x"
  by (simp add: long_wrap_def)

lemma crowd_goto:
  assumes "few rcounted (rplaces m)" and "rplaces n = rplaces m"
  shows "crowd (rm_goto t p n) = crowd m + int (rcounted p) - int (rcounted (rplaces m t)) + recursion_count n - recursion_count m"
  using total_upd(1) [OF assms(1), of t p] by (simp add: crowd_def assms(2))

lemma crowd_step:
  assumes "rm_step m ta = Inr m'" and "few rcounted (rplaces m)"
  shows "crowd m' \<le> crowd m + 1 \<and> few rcounted (rplaces m')"
proof (cases "rplaces m (fst ta)")
  case Away
  then show ?thesis using assms by (cases "snd ta")
    (auto simp: rm_step_def rm_begin_def rbind_Inr_iff chk32_Inr_iff Let_def crowd_goto total_upd(2) split: if_splits)
next
  case Held
  then show ?thesis using assms by (cases "snd ta")
    (auto simp: rm_step_def rm_begin_def rbind_Inr_iff chk32_Inr_iff Let_def crowd_goto total_upd(2) split: if_splits)
qed (use assms in \<open>auto simp: rm_step_def rbind_Inr_iff chk32_Inr_iff Let_def crowd_goto total_upd(2) split: if_splits\<close>)

lemma rm_depth_nonneg: "rm_ok m \<Longrightarrow> 0 \<le> recursion_count m"
proof (cases "\<forall>t. rholds (rplaces m t) = 0")
  case False
  assume ok: "rm_ok m"
  from False obtain u where "rholds (rplaces m u) \<noteq> 0" by blast
  moreover have "rplace_ok (recursion_count m) (rowner_tid m) (u + 1) (rplaces m u)" using ok by (simp add: rm_ok_def)
  ultimately show ?thesis by (cases "rplaces m u") (auto split: if_splits)
qed (simp add: rm_ok_def)

lemma step_wide:
  assumes "rm_step m ta = Inr m'" and "rm_ok m" and "crowd m' < 2 ^ 31"
  shows "wide_step m ta = Inr m'"
proof -
  have few: "few rcounted (rplaces m)" and uc: "ruse_count m = crowd m"
    using assms(2) by (simp_all add: rm_ok_def crowd_def)
  have ge: "int (rcounted (rplaces m (fst ta))) \<le> crowd m" using total_ge [OF few, of "fst ta"] rm_depth_nonneg [OF assms(2)] by (simp add: crowd_def)
  have up: "crowd m + 1 < 2 ^ 31 \<Longrightarrow> long_wrap (ruse_count m + 1) = ruse_count m + 1"
    using ge by (intro long_wrap_small) (simp_all add: uc)
  have down: "crowd m < 2 ^ 31 \<Longrightarrow> long_wrap (ruse_count m - 1) = ruse_count m - 1"
    using ge by (intro long_wrap_small) (simp_all add: uc)
  note go = crowd_goto [OF few]
  show ?thesis
  proof (cases "rplaces m (fst ta)")
    case Away
    then show ?thesis using assms(1,3) up
      by (cases "snd ta") (auto simp: rm_step_def wide_step_def rm_begin_def wide_begin_def rbind_Inr_iff chk32_Inr_iff Let_def go split: if_splits)
  next
    case Held
    then show ?thesis using assms(1,3) up
      by (cases "snd ta") (auto simp: rm_step_def wide_step_def rm_begin_def wide_begin_def rbind_Inr_iff chk32_Inr_iff Let_def go split: if_splits)
  next
    case (Returning n)
    then have "crowd m' = crowd m - 1" using assms(1) by (auto simp: rm_step_def Let_def go split: if_splits)
    then show ?thesis using assms(1,3) down Returning uc ge
      by (cases "crowd m = 2 ^ 31") (auto simp: rm_step_def wide_step_def Let_def long_wrap_def split: if_splits)
  qed (use assms(1,3) up in \<open>auto simp: rm_step_def wide_step_def rbind_Inr_iff chk32_Inr_iff Let_def go split: if_splits\<close>)
qed

text \<open>The other threads: those that do not hold the mutex know only that they do not own it.\<close>

lemma rplace_ok_other: "rholds p = 0 \<Longrightarrow> rplace_ok r owner me p \<longleftrightarrow> owner \<noteq> me"
  by (cases p) (auto split: if_splits)

lemma wide_step_ok:
  assumes ok: "rm_ok m" and step: "wide_step m ta = Inr m'"
  shows "rm_ok m'"
proof -
  let ?t = "fst ta"
  let ?pl = "rplaces m ?t"
  have fin: "few rcounted (rplaces m)" "few rholds (rplaces m)" "few rposts (rplaces m)"
    and uc: "ruse_count m = int (total rcounted (rplaces m)) + recursion_count m"
    and tok: "total rholds (rplaces m) + total rposts (rplaces m) + rsem m = (if ruse_count m > 0 then 1 else 0)"
    and known: "\<forall>t. rplace_ok (recursion_count m) (rowner_tid m) (t + 1) (rplaces m t)"
    and none: "(\<forall>t. rholds (rplaces m t) = 0) \<longrightarrow> recursion_count m = 0 \<and> rowner_tid m = 0"
    using ok by (simp_all add: rm_ok_def)
  note upd = total_upd(1) [OF fin(1), of ?t] total_upd(1) [OF fin(2), of ?t] total_upd(1) [OF fin(3), of ?t]
  note fin' = total_upd(2) [OF fin(1), of ?t] total_upd(2) [OF fin(2), of ?t] total_upd(2) [OF fin(3), of ?t]
  note ge = total_ge [OF fin(1), of ?t] total_ge [OF fin(2), of ?t] total_ge [OF fin(3), of ?t]
  have me: "rplace_ok (recursion_count m) (rowner_tid m) (?t + 1) ?pl" using known by blast
  have rec: "0 \<le> recursion_count m" by (rule rm_depth_nonneg [OF ok])
  have alone: "rholds (rplaces m u) = 0" if "u \<noteq> ?t" "rholds ?pl \<noteq> 0" for u
    using total_ge2 [OF fin(2), of u ?t] that tok by (auto split: if_splits)
  have free: "rholds (rplaces m u) = 0" if "ruse_count m \<le> 0 \<or> rsem m > 0" for u
    using total_ge [OF fin(2), of u] that tok by (auto split: if_splits)
  have free0: "recursion_count m = 0 \<and> rowner_tid m = 0" if "ruse_count m \<le> 0 \<or> rsem m > 0"
    using free [OF that] none by blast
  have upd': "rm_ok (rm_goto ?t p n)" if "rplaces n = rplaces m"
      "ruse_count n - recursion_count n = ruse_count m - recursion_count m + int (rcounted p) - int (rcounted ?pl)"
      "rholds p + rposts p + rsem n + (if ruse_count m > 0 then 1 else 0) =
         rholds ?pl + rposts ?pl + rsem m + (if ruse_count n > 0 then 1 else 0)"
      "rplace_ok (recursion_count n) (rowner_tid n) (?t + 1) p"
      "recursion_count n = recursion_count m \<and> rowner_tid n = rowner_tid m \<or> rholds ?pl \<noteq> 0 \<and> (rowner_tid n = 0 \<or> rowner_tid n = ?t + 1)"
      "(rholds p = 0 \<and> rholds ?pl \<noteq> 0 \<longrightarrow> recursion_count n = 0 \<and> rowner_tid n = 0)"
      "rholds p = 0 \<and> rholds ?pl = 0 \<longrightarrow> recursion_count n = recursion_count m \<and> rowner_tid n = rowner_tid m" for p n
  proof -
    have others: "rplace_ok (recursion_count n) (rowner_tid n) (u + 1) (rplaces m u)" if "u \<noteq> ?t" for u
    proof (cases "rholds ?pl = 0")
      case True
      then show ?thesis using \<open>_ \<or> _\<close> known by auto
    next
      case False
      then have u: "rholds (rplaces m u) = 0" using alone [OF that] by blast
      then have "rowner_tid m \<noteq> u + 1" using known rplace_ok_other by blast
      then show ?thesis unfolding rplace_ok_other [OF u] using \<open>_ \<or> _\<close> that by auto
    qed
    have gone: "recursion_count n = 0 \<and> rowner_tid n = 0" if all: "\<forall>u. rholds (rplaces (rm_goto ?t p n) u) = 0"
    proof (cases "rholds ?pl = 0")
      case True
      have p: "rholds p = 0" using all by (simp, metis)
      have "rholds (rplaces m u) = 0" for u using all True \<open>rplaces n = rplaces m\<close> by (cases "u = ?t") (simp_all, metis)
      then show ?thesis using none p True \<open>_ \<longrightarrow> recursion_count n = recursion_count m \<and> _\<close> by simp
    next
      case False
      have "rholds p = 0" using all by (simp, metis)
      then show ?thesis using False \<open>_ \<longrightarrow> recursion_count n = 0 \<and> _\<close> by simp
    qed
    show ?thesis
      unfolding rm_ok_def
      using that(1-4) others gone upd(1) [of p] upd(2) [of p] upd(3) [of p] fin'(1) [of p] fin'(2) [of p] fin'(3) [of p] uc tok by auto
  qed
  show ?thesis
  proof (cases ?pl)
    case Away
    then have "rowner_tid m \<noteq> ?t + 1" using me by simp
    then show ?thesis using step uc ge rec Away ok tok free0
      by (cases "snd ta")
        (auto simp: wide_step_def wide_begin_def rbind_Inr_iff guard_Inr_iff Let_def intro!: upd' split: if_splits)
  next
    case Held
    then show ?thesis using step me ge uc rec ok tok
      by (cases "snd ta") (auto simp: wide_step_def wide_begin_def rbind_Inr_iff Let_def intro!: upd' split: if_splits)
  next
    case (Returning n)
    then show ?thesis using step me ge uc tok by (auto simp: wide_step_def Let_def intro!: upd' split: if_splits)
  next
    case Posting
    then show ?thesis using step me ge uc tok by (auto simp: wide_step_def release_sem_def Let_def intro!: upd' split: if_splits)
  qed (use step me uc ge ok rec tok free0 in \<open>auto simp: wide_step_def Let_def intro!: upd' split: if_splits\<close>)
qed

lemma rm_step_ok: "rm_ok m \<Longrightarrow> rm_step m ta = Inr m' \<Longrightarrow> crowd m' < 2 ^ 31 \<Longrightarrow> rm_ok m'"
  using wide_step_ok step_wide by blast

lemma rm_known: "rm_ok m \<Longrightarrow> rplace_ok (recursion_count m) (rowner_tid m) (t + 1) (rplaces m t)"
  by (simp add: rm_ok_def)

lemma rm_new_ok: "rm_ok recursive_mutex_new"
  by (simp add: rm_ok_def recursive_mutex_new_def few_def total_def)

text \<open>A run in which never \<open>2 ^ 31\<close> calls count; a run of fewer steps is one.\<close>

definition moderate_run :: "(nat \<times> action) list \<Rightarrow> bool" where
  "moderate_run acts \<longleftrightarrow> (\<forall>k m. rfold rm_step (take k acts) recursive_mutex_new = Inr m \<longrightarrow> crowd m < 2 ^ 31)"

lemma rm_run_snoc:
  assumes "rfold rm_step (acts @ [a]) recursive_mutex_new = Inr m"
  obtains m1 where "rfold rm_step acts recursive_mutex_new = Inr m1" and "rm_step m1 a = Inr m"
  using assms by (auto simp: rfold_append rbind_Inr_iff)

lemma moderate_snoc: "moderate_run (acts @ [a]) \<Longrightarrow> moderate_run acts"
  unfolding moderate_run_def
proof (intro allI impI)
  fix k m
  assume a: "\<forall>k m. rfold rm_step (take k (acts @ [a])) recursive_mutex_new = Inr m \<longrightarrow> crowd m < 2 ^ 31"
    and r: "rfold rm_step (take k acts) recursive_mutex_new = Inr m"
  have "take k acts = take (min k (length acts)) (acts @ [a])" by (simp add: min_def)
  then show "crowd m < 2 ^ 31" using a r by metis
qed

lemma rm_run_ok: "rfold rm_step acts recursive_mutex_new = Inr m \<Longrightarrow> moderate_run acts \<Longrightarrow> rm_ok m"
proof (induction acts arbitrary: m rule: rev_induct)
  case Nil
  then show ?case using rm_new_ok by simp
next
  case (snoc a acts)
  obtain m1 where m1: "rfold rm_step acts recursive_mutex_new = Inr m1" "rm_step m1 a = Inr m" using rm_run_snoc [OF snoc.prems(1)] by blast
  have "rfold rm_step (take (length (acts @ [a])) (acts @ [a])) recursive_mutex_new = Inr m" using snoc.prems(1) by simp
  then have "crowd m < 2 ^ 31" using snoc.prems(2) unfolding moderate_run_def by blast
  then show ?case using rm_step_ok [OF snoc.IH [OF m1(1) moderate_snoc [OF snoc.prems(2)]] m1(2)] by blast
qed

lemma run_crowd: "rfold rm_step acts recursive_mutex_new = Inr m \<Longrightarrow> crowd m \<le> int (length acts) \<and> few rcounted (rplaces m)"
proof (induction acts arbitrary: m rule: rev_induct)
  case Nil
  then show ?case by (auto simp: crowd_def recursive_mutex_new_def few_def total_def)
next
  case (snoc a acts)
  obtain m1 where m1: "rfold rm_step acts recursive_mutex_new = Inr m1" "rm_step m1 a = Inr m" using rm_run_snoc [OF snoc.prems(1)] by blast
  then show ?case using snoc.IH [OF m1(1)] crowd_step [OF m1(2)] by simp
qed

lemma short_run_moderate: "int (length acts) < 2 ^ 31 \<Longrightarrow> moderate_run acts"
  unfolding moderate_run_def using run_crowd by fastforce

lemma few_rcounted: "rm_ok m \<Longrightarrow> few rcounted (rplaces m)"
  by (simp add: rm_ok_def)

lemma crowd_le_i32: "rm_ok m \<Longrightarrow> crowd m < 2 ^ 31 \<Longrightarrow> in_i32 (recursion_count m) \<and> in_i32 (recursion_count m - 1)"
  using rm_depth_nonneg [of m] by (auto simp: crowd_def in_i32_def)

section \<open>Properties\<close>

text \<open>
  Fact. The plain mutex excludes: whatever the threads do, through \<open>lock\<close> or \<open>try_lock\<close>, never are two of them
  between taking it and giving it back.
\<close>

theorem light_mutex_excludes:
  assumes "rfold lm_step acts light_mutex_new = Inr m" and "holds (places m t) \<noteq> 0" and "holds (places m u) \<noteq> 0"
  shows "t = u"
proof (rule ccontr)
  assume "t \<noteq> u"
  have ok: "lm_ok m" by (rule lm_run_ok [OF assms(1)])
  then have "few holds (places m)" "total holds (places m) \<le> 1" by (auto simp: lm_ok_def split: if_splits)
  then show False using total_ge2 [OF _ \<open>t \<noteq> u\<close>, of holds "places m"] assms(2,3) by simp
qed

definition contended :: "(nat \<times> action) list" where
  "contended = [(0, Lock), (0, Lock), (1, Lock), (1, Lock), (2, Try_lock)]"

lemma contended_run: "rfold lm_step contended light_mutex_new =
    Inr \<lparr>sem = 0, owner_tid = 1, use_count = 2, places = (\<lambda>_. Outside)(0 := Inside, 1 := Waiting)\<rparr>"
  by (simp add: contended_def lm_step_def light_mutex_new_def lm_goto_def Let_def)

lemma given_back_run: "rfold lm_step (contended @ [(0, Unlock), (0, Unlock), (0, Unlock)]) light_mutex_new =
    Inr \<lparr>sem = 1, owner_tid = 0, use_count = 1, places = (\<lambda>_. Outside)(1 := Waiting, 0 := Outside)\<rparr>"
  by (simp add: rfold_append contended_run lm_step_def lm_goto_def lm_unlock_def release_sem_def Let_def)

theorem light_mutex_excludes_witness:
  "\<exists>m. rfold lm_step contended light_mutex_new = Inr m \<and> holds (places m 0) \<noteq> 0 \<and> places m 1 = Waiting \<and> (holds (places m 2) \<noteq> 0 \<longrightarrow> 2 = (0 :: nat))"
proof -
  obtain m where m: "rfold lm_step contended light_mutex_new = Inr m" "holds (places m 0) \<noteq> 0" "places m 1 = Waiting"
    using contended_run by simp
  show ?thesis using light_mutex_excludes [OF m(1) _ m(2), of 2] m by blast
qed

text \<open>
  Fact. No thread is forgotten: when one waits for the plain mutex and none holds it, the semaphore is free for it
  or another thread is about to free it.
\<close>

theorem light_mutex_wakes:
  assumes "rfold lm_step acts light_mutex_new = Inr m" and "places m t = Waiting" and "\<forall>u. holds (places m u) = 0"
  shows "sem m > 0 \<or> (\<exists>u. places m u = Releasing)"
proof -
  have ok: "lm_ok m" by (rule lm_run_ok [OF assms(1)])
  then have few: "few counted (places m)" "few holds (places m)" "few releases (places m)"
    and uc: "use_count m = int (total counted (places m))"
    and tok: "total holds (places m) + total releases (places m) + sem m = (if use_count m > 0 then 1 else 0)"
    by (simp_all add: lm_ok_def)
  have "use_count m > 0" using total_ge [OF few(1), of t] assms(2) uc by simp
  then have "sem m > 0 \<or> total releases (places m) \<noteq> 0" using tok assms(3) total_zero [OF few(2)] by auto
  moreover have "\<exists>u. places m u = Releasing" if pos: "total releases (places m) \<noteq> 0"
  proof -
    have "\<not> (\<forall>t. releases (places m t) = 0)" using pos total_zero [OF few(3)] by simp
    then obtain u where "releases (places m u) \<noteq> 0" by blast
    then have "places m u = Releasing" by (cases "places m u") auto
    then show ?thesis by blast
  qed
  ultimately show ?thesis by blast
qed

theorem light_mutex_wakes_witness:
  "\<exists>m. rfold lm_step (contended @ [(0, Unlock), (0, Unlock), (0, Unlock)]) light_mutex_new = Inr m \<and>
    (sem m > 0 \<or> (\<exists>u. places m u = Releasing))"
proof -
  let ?m = "\<lparr>sem = 1, owner_tid = 0, use_count = 1, places = (\<lambda>_. Outside)(1 := Waiting, 0 := Outside)\<rparr>"
  have "sem ?m > 0 \<or> (\<exists>u. places ?m u = Releasing)"
    by (rule light_mutex_wakes [OF given_back_run, of 1]) simp_all
  then show ?thesis using given_back_run by blast
qed

text \<open>
  Fact. A plain mutex that was taken by \<open>try_lock\<close> cannot be given back: \<open>try_lock\<close> does not note the owner, and
  \<open>unlock\<close> asserts that the caller is the owner.
\<close>

theorem light_mutex_try_lock_asserts:
  "rfold lm_step [(t, Try_lock), (t, Unlock)] light_mutex_new = Inl Assert_failed"
  by (simp add: lm_step_def light_mutex_new_def lm_goto_def lm_unlock_def guard_def Let_def)

text \<open>
  Property C24. The recursive mutex excludes: never do two threads hold it, at whatever depth, as long as fewer than \<open>2 ^ 31\<close>
  calls count in its 32-bit counters at any time, those of the waiting threads and the nested ones together.
\<close>

theorem recursive_mutex_excludes:
  assumes "rfold rm_step acts recursive_mutex_new = Inr m" and "moderate_run acts"
    and "rholds (rplaces m t) \<noteq> 0" and "rholds (rplaces m u) \<noteq> 0"
  shows "t = u"
proof (rule ccontr)
  assume "t \<noteq> u"
  have ok: "rm_ok m" by (rule rm_run_ok [OF assms(1,2)])
  then have "few rholds (rplaces m)" "total rholds (rplaces m) \<le> 1" by (auto simp: rm_ok_def split: if_splits)
  then show False using total_ge2 [OF _ \<open>t \<noteq> u\<close>, of rholds "rplaces m"] assms(3,4) by simp
qed

definition nested :: "(nat \<times> action) list" where
  "nested = [(0, Lock), (0, Lock), (0, Lock), (0, Lock), (1, Lock), (0, Lock), (0, Lock), (0, Lock), (1, Lock), (2, Try_lock)]"

lemma nested_run: "rfold rm_step nested recursive_mutex_new =
    Inr \<lparr>rsem = 0, rowner_tid = 1, ruse_count = 3, recursion_count = 2, rplaces = (\<lambda>_. Away)(0 := Held, 1 := Sleeping)\<rparr>"
  by (simp add: nested_def rm_step_def recursive_mutex_new_def rm_begin_def rm_goto_def long_wrap_def chk32_def in_i32_def Let_def)

lemma unwound_run: "rfold rm_step (nested @ [(0, Unlock), (0, Unlock), (0, Unlock), (0, Unlock), (0, Unlock)]) recursive_mutex_new =
    Inr \<lparr>rsem = 1, rowner_tid = 0, ruse_count = 1, recursion_count = 0, rplaces = (\<lambda>_. Away)(1 := Sleeping, 0 := Away)\<rparr>"
  by (simp add: rfold_append nested_run rm_step_def rm_begin_def rm_goto_def release_sem_def long_wrap_def chk32_def in_i32_def Let_def)

lemma nested_moderate: "moderate_run nested"
  and unwound_moderate: "moderate_run (nested @ [(0, Unlock), (0, Unlock), (0, Unlock), (0, Unlock), (0, Unlock)])"
  by (auto intro!: short_run_moderate simp: nested_def)

theorem recursive_mutex_excludes_witness:
  "\<exists>m. rfold rm_step nested recursive_mutex_new = Inr m \<and> rplaces m 0 = Held \<and> (rholds (rplaces m 2) \<noteq> 0 \<longrightarrow> 2 = (0 :: nat))"
proof -
  obtain m where m: "rfold rm_step nested recursive_mutex_new = Inr m" "rplaces m 0 = Held" using nested_run by simp
  have "rholds (rplaces m 0) \<noteq> 0" using m(2) by simp
  then show ?thesis using recursive_mutex_excludes [OF m(1) nested_moderate, of 2 0] m by blast
qed

text \<open>
  Fact. As many \<open>unlock\<close>s as \<open>lock\<close>s give the recursive mutex back: a thread that holds it at depth \<open>n\<close> and
  calls \<open>unlock\<close> \<open>n\<close> times, each in two steps, no longer owns it, and no assertion fails.
\<close>

theorem recursive_mutex_unwinds:
  assumes "rfold rm_step acts recursive_mutex_new = Inr m" and "moderate_run acts" and "rplaces m t = Held" and "recursion_count m = int n"
  shows "\<exists>m'. rfold rm_step (replicate (2 * n) (t, Unlock)) m = Inr m' \<and> rplaces m' t \<in> {Away, Posting} \<and> rowner_tid m' = 0"
proof -
  have "\<exists>m'. rfold rm_step (replicate (2 * n) (t, Unlock)) m = Inr m' \<and> rplaces m' t \<in> {Away, Posting} \<and> rowner_tid m' = 0"
    if "rm_ok m" "rplaces m t = Held" "recursion_count m = int n" "crowd m < 2 ^ 31" for m
    using that
  proof (induction n arbitrary: m)
    case 0
    then show ?case using rm_known [OF 0(1), of t] by simp
  next
    case (Suc n)
    then have own: "rowner_tid m = t + 1" using rm_known [OF Suc.prems(1), of t] by simp
    then obtain m1 where m1: "rm_step m (t, Unlock) = Inr m1" "rplaces m1 t = Returning (int n)" "recursion_count m1 = int n"
        "rowner_tid m1 = (if n = 0 then 0 else t + 1)"
        "crowd m1 = crowd m"
      using Suc.prems crowd_le_i32 [OF Suc.prems(1,4)] crowd_goto [OF few_rcounted [OF Suc.prems(1)]] by (simp add: rm_step_def rm_begin_def chk32_def Let_def)
    have ok1: "rm_ok m1" using rm_step_ok [OF Suc.prems(1) m1(1)] m1(5) Suc.prems(4) by simp
    obtain m2 where m2: "rm_step m1 (t, Unlock) = Inr m2" "recursion_count m2 = int n" "rowner_tid m2 = (if n = 0 then 0 else t + 1)"
        "rplaces m2 t = (if n = 0 then if ruse_count m1 > 1 then Posting else Away else Held)"
        "crowd m2 = crowd m1 - 1"
      using m1(2-4) crowd_goto [OF few_rcounted [OF ok1]] by (simp add: rm_step_def Let_def)
    have c2: "crowd m2 < 2 ^ 31" using m1(5) m2(5) Suc.prems(4) by simp
    have ok2: "rm_ok m2" by (rule rm_step_ok [OF ok1 m2(1) c2])
    show ?case
    proof (cases n)
      case 0
      then show ?thesis using m1(1) m2 by (simp add: numeral_2_eq_2)
    next
      case (Suc k)
      then obtain m' where "rfold rm_step (replicate (2 * n) (t, Unlock)) m2 = Inr m'" "rplaces m' t \<in> {Away, Posting}" "rowner_tid m' = 0"
        using Suc.IH [OF ok2] m2 c2 by auto
      then show ?thesis using m1(1) m2(1) by simp
    qed
  qed
  moreover have "crowd m < 2 ^ 31" using assms(1,2) unfolding moderate_run_def by (metis take_all_iff le_refl)
  ultimately show ?thesis using rm_run_ok [OF assms(1,2)] assms(3,4) by blast
qed

theorem recursive_mutex_unwinds_witness:
  "\<exists>m m'. rfold rm_step nested recursive_mutex_new = Inr m \<and> rfold rm_step (replicate 4 (0, Unlock)) m = Inr m' \<and> rowner_tid m' = 0"
proof -
  obtain m where m: "rfold rm_step nested recursive_mutex_new = Inr m" "rplaces m 0 = Held" "recursion_count m = int 2" using nested_run by simp
  show ?thesis using recursive_mutex_unwinds [OF m(1) nested_moderate m(2,3)] m(1) by (simp add: numeral_eq_Suc) blast
qed

text \<open>
  Fact. No thread is forgotten by the recursive mutex either: when one sleeps and none holds it, the semaphore is
  free for it or another thread is about to free it.
\<close>

theorem recursive_mutex_wakes:
  assumes "rfold rm_step acts recursive_mutex_new = Inr m" and "moderate_run acts" and "rplaces m t = Sleeping" and "\<forall>u. rholds (rplaces m u) = 0"
  shows "rsem m > 0 \<or> (\<exists>u. rplaces m u = Posting)"
proof -
  have ok: "rm_ok m" by (rule rm_run_ok [OF assms(1,2)])
  then have few: "few rcounted (rplaces m)" "few rholds (rplaces m)" "few rposts (rplaces m)"
    and uc: "ruse_count m = int (total rcounted (rplaces m)) + recursion_count m" and r: "recursion_count m = 0"
    and tok: "total rholds (rplaces m) + total rposts (rplaces m) + rsem m = (if ruse_count m > 0 then 1 else 0)"
    using assms(4) by (simp_all add: rm_ok_def)
  have "ruse_count m > 0" using total_ge [OF few(1), of t] assms(3) uc r by simp
  then have "rsem m > 0 \<or> total rposts (rplaces m) \<noteq> 0" using tok assms(4) total_zero [OF few(2)] by auto
  moreover have "\<exists>u. rplaces m u = Posting" if pos: "total rposts (rplaces m) \<noteq> 0"
  proof -
    have "\<not> (\<forall>t. rposts (rplaces m t) = 0)" using pos total_zero [OF few(3)] by simp
    then obtain u where "rposts (rplaces m u) \<noteq> 0" by blast
    then have "rplaces m u = Posting" by (cases "rplaces m u") auto
    then show ?thesis by blast
  qed
  ultimately show ?thesis by blast
qed

theorem recursive_mutex_wakes_witness:
  "\<exists>m. rfold rm_step (nested @ [(0, Unlock), (0, Unlock), (0, Unlock), (0, Unlock), (0, Unlock)]) recursive_mutex_new = Inr m \<and> (rsem m > 0 \<or> (\<exists>u. rplaces m u = Posting))"
proof -
  let ?m = "\<lparr>rsem = 1, rowner_tid = 0, ruse_count = 1, recursion_count = 0, rplaces = (\<lambda>_. Away)(1 := Sleeping, 0 := Away)\<rparr>"
  have "rsem ?m > 0 \<or> (\<exists>u. rplaces ?m u = Posting)"
    by (rule recursive_mutex_wakes [OF unwound_run unwound_moderate, of 1]) simp_all
  then show ?thesis using unwound_run by blast
qed

text \<open>
  Fact. The limit is real: when a thread has locked the recursive mutex \<open>2 ^ 31 - 1\<close> times and begins to lock it once more, the
  counter of users becomes negative and another thread may enter.
\<close>

definition nested_deep :: "nat \<Rightarrow> recursive_mutex" where
  "nested_deep n = \<lparr>rsem = 0, rowner_tid = 1, ruse_count = int n, recursion_count = int n, rplaces = (\<lambda>_. Away)(0 := Held)\<rparr>"

lemma nested_deep_run:
  "int n < 2 ^ 31 - 1 \<Longrightarrow> rfold rm_step (replicate (4 * n + 3) (0, Lock)) recursive_mutex_new = Inr (nested_deep (Suc n))"
proof (induction n)
  case 0
  then show ?case
    by (simp add: numeral_3_eq_3 nested_deep_def rm_step_def recursive_mutex_new_def rm_begin_def rm_goto_def long_wrap_def chk32_def in_i32_def Let_def)
next
  case (Suc n)
  have e: "replicate (4 * Suc n + 3) (0 :: nat, Lock) = replicate (4 * n + 3) (0, Lock) @ [(0, Lock), (0, Lock), (0, Lock), (0, Lock)]"
  proof -
    have "4 * Suc n + 3 = (4 * n + 3) + 4" by simp
    then have "replicate (4 * Suc n + 3) (0 :: nat, Lock) = replicate (4 * n + 3) (0, Lock) @ replicate 4 (0, Lock)"
      by (simp only: replicate_add)
    then show ?thesis by (simp add: numeral_eq_Suc)
  qed
  have "rfold rm_step [(0, Lock), (0, Lock), (0, Lock), (0, Lock)] (nested_deep (Suc n)) = Inr (nested_deep (Suc (Suc n)))"
    using Suc.prems by (simp add: nested_deep_def rm_step_def rm_begin_def rm_goto_def long_wrap_small chk32_def in_i32_def Let_def)
  then show ?case unfolding e rfold_append using Suc by simp
qed

theorem recursive_mutex_limit:
  "\<exists>acts m. rfold rm_step acts recursive_mutex_new = Inr m \<and> rholds (rplaces m 0) \<noteq> 0 \<and> rholds (rplaces m 1) \<noteq> 0"
proof -
  obtain n where n: "int (Suc n) = 2 ^ 31 - 1" using int_Suc [of "nat (2 ^ 31 - 2)"] by auto
  let ?acts = "replicate (4 * n + 3) (0, Lock) @ [(0, Lock), (1, Lock)]"
  let ?m = "\<lparr>rsem = 0, rowner_tid = 1, ruse_count = 1 - 2 ^ 31, recursion_count = int (Suc n),
    rplaces = (\<lambda>_. Away)(0 := Checking True, 1 := Taking False)\<rparr>"
  have "rfold rm_step [(0, Lock), (1, Lock)] (nested_deep (Suc n)) = Inr ?m"
    unfolding nested_deep_def n by (simp add: rm_step_def rm_begin_def rm_goto_def long_wrap_def Let_def)
  moreover have "rfold rm_step (replicate (4 * n + 3) (0, Lock)) recursive_mutex_new = Inr (nested_deep (Suc n))"
    by (rule nested_deep_run) (use n in simp)
  ultimately have "rfold rm_step ?acts recursive_mutex_new = Inr ?m" by (simp add: rfold_append)
  then show ?thesis by (intro exI [of _ ?acts] exI [of _ ?m]) simp
qed

end
