(* ===== verification/Count_Down_Latch.thy ===== *)
theory Count_Down_Latch
  imports Prelude
begin

text \<open>
  The latch of \<open>src/CountDownLatch/src/count_down_latch.cpp\<close>: threads that wait until a counter has been counted down
  to zero. The critical sections and every wake-up, also one for no reason, are steps. The theory shows that
  nobody passes too early and that nobody sleeps once the latch is open.
\<close>

datatype latch_place = Away | Asleep | Awake | Passed

record latch =
  latch_count :: int
  latch_places :: "nat \<Rightarrow> latch_place"

definition CountDownLatch :: "int \<Rightarrow> latch res" where
  "CountDownLatch n = rbind (guard (n \<ge> 0) Assert_failed) (\<lambda>_. Inr \<lparr>latch_count = n, latch_places = (\<lambda>_. Away)\<rparr>)"

text \<open>\<open>latch_.wait(lock, pred)\<close>: the predicate is tested first, and again after every wake-up.\<close>

definition latch_Wait :: "nat \<Rightarrow> latch \<Rightarrow> latch" where
  "latch_Wait t l = l\<lparr>latch_places := (latch_places l)(t := if latch_count l \<le> 0 then Passed else Asleep)\<rparr>"

definition notify_all_waiters :: "latch \<Rightarrow> latch" where
  "notify_all_waiters l = l\<lparr>latch_places := (\<lambda>t. if latch_places l t = Asleep then Awake else latch_places l t)\<rparr>"

definition Countdown :: "latch \<Rightarrow> latch res" where
  "Countdown l = rbind (guard (latch_count l > - (2 ^ 31)) Signed_overflow) (\<lambda>_.
     let l = l\<lparr>latch_count := latch_count l - 1\<rparr>
     in Inr (if latch_count l = 0 then notify_all_waiters l else l))"

definition latch_value :: "latch \<Rightarrow> int" where
  "latch_value l = latch_count l"

datatype latch_event = Wait_by nat | Count | Spurious nat | Resume nat

definition latch_step :: "latch \<Rightarrow> latch_event \<Rightarrow> latch res" where
  "latch_step l e = (case e of
     Wait_by t \<Rightarrow> Inr (if latch_places l t \<in> {Away, Passed} then latch_Wait t l else l)
   | Count \<Rightarrow> Countdown l
   | Spurious t \<Rightarrow> Inr (if latch_places l t = Asleep then l\<lparr>latch_places := (latch_places l)(t := Awake)\<rparr> else l)
   | Resume t \<Rightarrow> Inr (if latch_places l t = Awake then latch_Wait t l else l))"

definition countdowns :: "latch_event list \<Rightarrow> int" where
  "countdowns es = int (length (filter (\<lambda>e. e = Count) es))"

definition latch_ok :: "latch \<Rightarrow> bool" where
  "latch_ok l \<longleftrightarrow> (\<forall>t. (latch_places l t = Asleep \<longrightarrow> latch_count l > 0) \<and> (latch_places l t = Passed \<longrightarrow> latch_count l \<le> 0))"

lemma latch_step_ok: "latch_ok l \<Longrightarrow> latch_step l e = Inr l' \<Longrightarrow> latch_ok l'"
  by (cases e) (auto simp: latch_ok_def latch_step_def latch_Wait_def Countdown_def notify_all_waiters_def rbind_Inr_iff Let_def split: if_splits)

lemma latch_new_ok: "CountDownLatch n = Inr l \<Longrightarrow> latch_ok l"
  by (auto simp: CountDownLatch_def latch_ok_def rbind_Inr_iff)

lemma latch_run_ok: "CountDownLatch n = Inr l0 \<Longrightarrow> rfold latch_step es l0 = Inr l \<Longrightarrow> latch_ok l"
  using rfold_invariant [of latch_ok latch_step l0 es l] latch_step_ok latch_new_ok by blast

lemma latch_counts: "rfold latch_step es l = Inr l' \<Longrightarrow> latch_count l' = latch_count l - countdowns es"
proof (induction es arbitrary: l)
  case (Cons e es)
  then obtain l1 where l1: "latch_step l e = Inr l1" "rfold latch_step es l1 = Inr l'" by (auto simp: rbind_Inr_iff split: sum.splits)
  have "latch_count l1 = latch_count l - (if e = Count then 1 else 0)"
    using l1(1) by (cases e) (auto simp: latch_step_def latch_Wait_def Countdown_def notify_all_waiters_def rbind_Inr_iff Let_def split: if_splits)
  then show ?case using Cons.IH [OF l1(2)] by (simp add: countdowns_def)
qed (simp add: countdowns_def)

text \<open>
  Fact. The latch holds until it has been counted down: a thread that has passed shows that there were at least
  as many calls of \<open>Countdown\<close> as the latch was made with.
\<close>

theorem latch_holds:
  assumes "CountDownLatch n = Inr l0" and "rfold latch_step es l0 = Inr l" and "latch_places l t = Passed"
  shows "n \<le> countdowns es"
proof -
  have "latch_count l \<le> 0" using latch_run_ok [OF assms(1,2)] assms(3) by (simp add: latch_ok_def)
  moreover have "latch_count l0 = n" using assms(1) by (auto simp: CountDownLatch_def rbind_Inr_iff)
  ultimately show ?thesis using latch_counts [OF assms(2)] by simp
qed

definition latch_run :: "latch_event list" where
  "latch_run = [Wait_by 1, Count, Spurious 1, Resume 1, Count, Resume 1, Wait_by 2]"

lemma latch_run_result:
  "case CountDownLatch 2 of Inl f \<Rightarrow> False | Inr l0 \<Rightarrow>
     (case rfold latch_step latch_run l0 of Inl f \<Rightarrow> False | Inr l \<Rightarrow> latch_places l 1 = Passed \<and> latch_places l 2 = Passed)"
  by code_simp

theorem latch_holds_witness:
  "2 \<le> countdowns latch_run"
proof -
  obtain l0 l where l: "CountDownLatch 2 = Inr l0" "rfold latch_step latch_run l0 = Inr l" "latch_places l 1 = Passed"
    using latch_run_result by (auto split: sum.splits)
  show ?thesis by (rule latch_holds [OF l])
qed

text \<open>
  Fact. Nobody is forgotten: once there were as many calls of \<open>Countdown\<close> as the latch was made with, no thread is
  asleep, although only the call that reaches zero wakes the sleepers.
\<close>

theorem latch_opens:
  assumes "CountDownLatch n = Inr l0" and "rfold latch_step es l0 = Inr l" and "n \<le> countdowns es"
  shows "latch_places l t \<noteq> Asleep"
proof -
  have "latch_count l0 = n" using assms(1) by (auto simp: CountDownLatch_def rbind_Inr_iff)
  then have "latch_count l \<le> 0" using latch_counts [OF assms(2)] assms(3) by simp
  then show ?thesis using latch_run_ok [OF assms(1,2)] by (auto simp: latch_ok_def)
qed

theorem latch_opens_witness:
  "\<exists>l0 l. CountDownLatch 2 = Inr l0 \<and> rfold latch_step latch_run l0 = Inr l \<and> latch_places l 3 \<noteq> Asleep"
proof -
  obtain l0 l where l: "CountDownLatch 2 = Inr l0" "rfold latch_step latch_run l0 = Inr l"
    using latch_run_result by (auto split: sum.splits)
  show ?thesis using latch_opens [OF l, of 3] l by (auto simp: latch_run_def countdowns_def)
qed

end
