(* ===== verification/Object_Pools.thy ===== *)
theory Object_Pools
  imports Simulation "HOL-Library.AList"
begin

text \<open>
  The two pools of shared objects (\<open>src/Object_Pool/src/object_pool.h\<close>, \<open>stock_pool.h\<close>): a table from keys to weak
  references, behind a mutex. Dropping the last reference to an object and running its deleter are two steps,
  between which other threads may use the pool. The theory shows what holds when a deleter runs at once, and
  what goes wrong when it does not.
\<close>

section \<open>Shared objects\<close>

text \<open>
  Objects are numbered as they are made. \<open>strong\<close> counts the references to an object; \<open>dying\<close> holds the objects
  whose last reference is gone and whose deleter has not run.
\<close>

record 'k pool =
  table :: "('k \<times> nat) list"
  strong :: "nat \<Rightarrow> nat"
  key_of :: "nat \<Rightarrow> 'k"
  dying :: "nat list"
  made :: nat

definition pool_new :: "(nat \<Rightarrow> 'k) \<Rightarrow> 'k pool" where
  "pool_new junk = \<lparr>table = [], strong = (\<lambda>_. 0), key_of = junk, dying = [], made = 0\<rparr>"

text \<open>\<open>weak_ptr::lock\<close> on the entry of a key; no entry is an empty reference.\<close>

definition lock_entry :: "'k pool \<Rightarrow> 'k \<Rightarrow> nat option" where
  "lock_entry p k = (case map_of (table p) k of None \<Rightarrow> None | Some n \<Rightarrow> if strong p n > 0 then Some n else None)"

definition hold :: "nat \<Rightarrow> 'k pool \<Rightarrow> 'k pool" where
  "hold n p = p\<lparr>strong := (strong p)(n := strong p n + 1)\<rparr>"

definition make_object :: "'k \<Rightarrow> 'k pool \<Rightarrow> 'k pool" where
  "make_object k p = p\<lparr>table := AList.update k (made p) (table p), strong := (strong p)(made p := 1),
     key_of := (key_of p)(made p := k), made := made p + 1\<rparr>"

text \<open>\<open>ObjectFactory::Get\<close>, under the mutex; the caller holds the object that it returns.\<close>

definition pool_Get :: "'k \<Rightarrow> 'k pool \<Rightarrow> nat \<times> 'k pool" where
  "pool_Get k p = (case lock_entry p k of Some n \<Rightarrow> (n, hold n p) | None \<Rightarrow> (made p, make_object k p))"

text \<open>A holder drops its reference.\<close>

definition drop_ref :: "nat \<Rightarrow> 'k pool \<Rightarrow> 'k pool" where
  "drop_ref n p = (if strong p n = 0 then p
     else let p = p\<lparr>strong := (strong p)(n := strong p n - 1)\<rparr>
          in if strong p n = 0 then p\<lparr>dying := dying p @ [n]\<rparr> else p)"

text \<open>\<open>DeleteObject\<close>: the entry of the key goes, and the object.\<close>

definition DeleteObject :: "nat \<Rightarrow> 'k pool \<Rightarrow> 'k pool" where
  "DeleteObject n p = (if n \<in> set (dying p)
     then p\<lparr>table := AList.delete (key_of p n) (table p), dying := remove1 n (dying p)\<rparr> else p)"

datatype 'k pool_event = Get_key 'k | Drop nat | Run_deleter nat

definition pool_step :: "'k pool \<Rightarrow> 'k pool_event \<Rightarrow> 'k pool" where
  "pool_step p e = (case e of Get_key k \<Rightarrow> snd (pool_Get k p) | Drop n \<Rightarrow> drop_ref n p | Run_deleter n \<Rightarrow> DeleteObject n p)"

section \<open>The pool of objects\<close>

text \<open>
  Every object that is held and whose deleter is not overtaken is the one of its key; \<open>calm\<close> says that a deleter
  runs before the pool is used again.
\<close>

fun calm :: "'k pool \<Rightarrow> 'k pool_event list \<Rightarrow> bool" where
  "calm p [] \<longleftrightarrow> True"
| "calm p (e # es) \<longleftrightarrow> (case e of Get_key k \<Rightarrow> dying p = [] | Drop n \<Rightarrow> dying p = [] | Run_deleter n \<Rightarrow> True) \<and> calm (pool_step p e) es"

definition pool_ok :: "'k pool \<Rightarrow> bool" where
  "pool_ok p \<longleftrightarrow> (\<forall>n. strong p n > 0 \<longrightarrow> n < made p \<and> map_of (table p) (key_of p n) = Some n) \<and>
     (\<forall>k n. map_of (table p) k = Some n \<longrightarrow> key_of p n = k \<and> n < made p \<and> (strong p n > 0 \<or> n \<in> set (dying p))) \<and>
     (\<forall>n \<in> set (dying p). strong p n = 0 \<and> n < made p \<and> map_of (table p) (key_of p n) = Some n) \<and> distinct (dying p) \<and> distinct (map fst (table p))"

lemma pool_entry: "pool_ok p \<Longrightarrow> strong p n > 0 \<Longrightarrow> map_of (table p) (key_of p n) = Some n"
  unfolding pool_ok_def by blast

lemma pool_new_ok: "pool_ok (pool_new junk)"
  by (simp add: pool_ok_def pool_new_def)

lemma get_ok:
  assumes "pool_ok p" and "dying p = []"
  shows "pool_ok (snd (pool_Get k p))" and "strong (snd (pool_Get k p)) (fst (pool_Get k p)) > 0" and "key_of (snd (pool_Get k p)) (fst (pool_Get k p)) = k"
proof -
  show "pool_ok (snd (pool_Get k p))"
  proof (cases "lock_entry p k")
    case (Some n)
    then have "map_of (table p) k = Some n" "strong p n > 0" by (auto simp: lock_entry_def split: option.splits if_splits)
    then show ?thesis using assms Some by (auto simp: pool_Get_def hold_def pool_ok_def)
  next
    case None
    have none: "map_of (table p) k = None"
      using None assms by (auto simp: lock_entry_def pool_ok_def split: option.splits if_splits)
    then have "strong p n > 0 \<longrightarrow> key_of p n \<noteq> k" for n using assms(1) by (auto simp: pool_ok_def)
    moreover have "strong p n > 0 \<longrightarrow> n < made p" "map_of (table p) k' \<noteq> Some (made p)" for n k'
      using assms(1) unfolding pool_ok_def by blast+
    ultimately show ?thesis using None assms none
      by (auto simp: pool_Get_def make_object_def pool_ok_def update_conv' distinct_update less_Suc_eq simp del: map_of_eq_Some_iff)
  qed
  show "strong (snd (pool_Get k p)) (fst (pool_Get k p)) > 0" "key_of (snd (pool_Get k p)) (fst (pool_Get k p)) = k"
    using assms by (auto simp: pool_Get_def hold_def make_object_def lock_entry_def pool_ok_def split: option.splits if_splits)
qed

lemma drop_ok:
  assumes "pool_ok p" and "dying p = []"
  shows "pool_ok (drop_ref n p)"
  using assms by (auto simp: drop_ref_def pool_ok_def Let_def simp del: map_of_eq_Some_iff)

lemma DeleteObject_ok:
  assumes "pool_ok p"
  shows "pool_ok (DeleteObject n p)"
proof (cases "n \<in> set (dying p)")
  case True
  have n: "map_of (table p) (key_of p n) = Some n" "strong p n = 0" using assms True unfolding pool_ok_def by blast+
  have alive: "map_of (table p) (key_of p m) = Some m" if "strong p m > 0 \<or> m \<in> set (dying p)" for m
    using assms that unfolding pool_ok_def by blast
  have other: "key_of p m \<noteq> key_of p n" if "strong p m > 0 \<or> m \<in> set (dying p)" "m \<noteq> n" for m
  proof
    assume "key_of p m = key_of p n"
    then show False using alive [OF that(1)] n(1) that(2) by simp
  qed
  have entry: "key_of p m = k \<and> m < made p \<and> (strong p m > 0 \<or> m \<in> set (dying p))" if "map_of (table p) k = Some m" for k m
    using assms that unfolding pool_ok_def by blast
  have d: "distinct (dying p)" "distinct (map fst (table p))" "\<And>m. m \<in> set (dying p) \<Longrightarrow> strong p m = 0 \<and> m < made p"
      "\<And>m. strong p m > 0 \<Longrightarrow> m < made p"
    using assms unfolding pool_ok_def by blast+
  let ?q = "DeleteObject n p"
  have q: "strong ?q = strong p" "key_of ?q = key_of p" "made ?q = made p" "set (dying ?q) = set (dying p) - {n}"
      "map_of (table ?q) = (map_of (table p))(key_of p n := None)" "distinct (dying ?q)" "distinct (map fst (table ?q))"
    using True d by (simp_all add: DeleteObject_def delete_conv' distinct_delete)
  have keep: "map_of (table ?q) (key_of p m) = Some m" if "strong p m > 0 \<or> m \<in> set (dying p)" "m \<noteq> n" for m
    using alive [OF that(1)] other [OF that] q(5) by simp
  have keep2: "key_of p m = k \<and> m < made p \<and> (strong p m > 0 \<or> m \<in> set (dying p) - {n})" if "map_of (table ?q) k = Some m" for k m
  proof -
    have "k \<noteq> key_of p n" "map_of (table p) k = Some m" using that q(5) by (auto split: if_splits)
    then show ?thesis using entry by blast
  qed
  show ?thesis unfolding pool_ok_def q(1-4) 
  proof (intro conjI allI ballI impI)
    fix m assume m: "strong p m > 0"
    then have "m \<noteq> n" using n(2) by auto
    then show "map_of (table ?q) (key_of p m) = Some m" using keep m by blast
    show "m < made p" using d(4) m by blast
  next
    fix k m assume m: "map_of (table ?q) k = Some m"
    show "key_of p m = k" "m < made p" "strong p m > 0 \<or> m \<in> set (dying p) - {n}" using keep2 [OF m] by blast+
  next
    fix m assume m: "m \<in> set (dying p) - {n}"
    then show "strong p m = 0" "m < made p" "map_of (table ?q) (key_of p m) = Some m" using d(3) keep [of m] by blast+
  qed (use q(6,7) in simp_all)
qed (use assms in \<open>simp add: DeleteObject_def\<close>)

lemma calm_run_ok: "pool_ok p \<Longrightarrow> calm p es \<Longrightarrow> pool_ok (fold (\<lambda>e p. pool_step p e) es p)"
proof (induction es arbitrary: p)
  case (Cons e es)
  have "pool_ok (pool_step p e)"
    using Cons.prems get_ok(1) drop_ok DeleteObject_ok by (cases e) (auto simp: pool_step_def)
  then show ?case using Cons by simp
qed simp

section \<open>The pool of stocks\<close>

text \<open>Here an entry outlives its object, and counters say how many such entries there are.\<close>

record 'k stocks =
  base :: "'k pool"
  created :: "64 word"
  dead :: "64 word"

definition stocks_new :: "(nat \<Rightarrow> 'k) \<Rightarrow> 'k stocks" where
  "stocks_new junk = \<lparr>base = pool_new junk, created = 0, dead = 0\<rparr>"

definition GetStock :: "'k \<Rightarrow> 'k stocks \<Rightarrow> nat \<times> 'k stocks" where
  "GetStock k s = (case lock_entry (base s) k of
     Some n \<Rightarrow> (n, s\<lparr>base := hold n (base s)\<rparr>)
   | None \<Rightarrow> (made (base s), s\<lparr>base := make_object k (base s), created := created s + 1\<rparr>))"

definition IncrementDead :: "'k stocks \<Rightarrow> 'k stocks" where
  "IncrementDead s = s\<lparr>dead := dead s + 1\<rparr>"

definition stock_deleter :: "nat \<Rightarrow> 'k stocks \<Rightarrow> 'k stocks" where
  "stock_deleter n s = (if n \<in> set (dying (base s))
     then IncrementDead (s\<lparr>base := (base s)\<lparr>dying := remove1 n (dying (base s))\<rparr>\<rparr>) else s)"

definition stock_count :: "'k stocks \<Rightarrow> nat" where
  "stock_count s = length (table (base s))"

text \<open>The number that \<open>Prune\<close> divides by the number of entries to report the ratio.\<close>

definition zombie_number :: "'k stocks \<Rightarrow> 64 word" where
  "zombie_number s = dead s - (created s - of_nat (stock_count s))"

definition Prune :: "'k stocks \<Rightarrow> 'k stocks" where
  "Prune s = (let t = filter (\<lambda>e. strong (base s) (snd e) > 0) (table (base s))
     in s\<lparr>base := (base s)\<lparr>table := t\<rparr>, dead := 0, created := of_nat (length t)\<rparr>)"

datatype 'k stock_event = Get_stock 'k | Drop_stock nat | Run_stock_deleter nat | Prune_stocks

definition stock_step :: "'k stocks \<Rightarrow> 'k stock_event \<Rightarrow> 'k stocks" where
  "stock_step s e = (case e of Get_stock k \<Rightarrow> snd (GetStock k s) | Drop_stock n \<Rightarrow> s\<lparr>base := drop_ref n (base s)\<rparr>
     | Run_stock_deleter n \<Rightarrow> stock_deleter n s | Prune_stocks \<Rightarrow> Prune s)"

fun pruned_at_rest :: "'k stocks \<Rightarrow> 'k stock_event list \<Rightarrow> bool" where
  "pruned_at_rest s [] \<longleftrightarrow> True"
| "pruned_at_rest s (e # es) \<longleftrightarrow> (case e of Prune_stocks \<Rightarrow> dying (base s) = [] | _ \<Rightarrow> True) \<and> pruned_at_rest (stock_step s e) es"

definition zombies :: "'k pool \<Rightarrow> ('k \<times> nat) list" where
  "zombies p = filter (\<lambda>e. strong p (snd e) = 0) (table p)"

definition stocks_ok :: "'k stocks \<Rightarrow> bool" where
  "stocks_ok s \<longleftrightarrow> (let p = base s in
     (\<forall>n. strong p n > 0 \<longrightarrow> n < made p \<and> map_of (table p) (key_of p n) = Some n) \<and>
     (\<forall>k n. map_of (table p) k = Some n \<longrightarrow> key_of p n = k \<and> n < made p) \<and> distinct (map fst (table p)) \<and> distinct (dying p) \<and>
     (\<forall>n \<in> set (dying p). strong p n = 0 \<and> n < made p) \<and>
     dead s + of_nat (length (dying p)) = created s - of_nat (length (table p)) + of_nat (length (zombies p)))"

lemma length_update: "length (AList.update k v xs) = (if k \<in> fst ` set xs then length xs else length xs + 1)"
  by (induction xs) auto

lemma zombies_update:
  "distinct (map fst xs) \<Longrightarrow> \<not> P v \<Longrightarrow>
    length (filter (\<lambda>e. P (snd e)) (AList.update k v xs)) + (case map_of xs k of Some w \<Rightarrow> if P w then 1 else 0 | None \<Rightarrow> 0) =
    length (filter (\<lambda>e. P (snd e)) xs)"
  by (induction xs) (auto split: option.splits)

lemma stocks_new_ok: "stocks_ok (stocks_new junk)"
  by (simp add: stocks_ok_def stocks_new_def pool_new_def zombies_def)

lemma stocks_okD:
  assumes "stocks_ok s"
  shows "strong (base s) n > 0 \<Longrightarrow> n < made (base s) \<and> (key_of (base s) n, n) \<in> set (table (base s))"
    and "(k, n) \<in> set (table (base s)) \<Longrightarrow> key_of (base s) n = k \<and> n < made (base s)"
    and "distinct (map fst (table (base s)))" and "distinct (dying (base s))"
    and "n \<in> set (dying (base s)) \<Longrightarrow> strong (base s) n = 0 \<and> n < made (base s)"
    and "dead s + of_nat (length (dying (base s))) = created s - of_nat (length (table (base s))) + of_nat (length (zombies (base s)))"
  using assms by (auto simp: stocks_ok_def Let_def)

lemma stocks_okI:
  assumes "\<And>n. strong (base s) n > 0 \<Longrightarrow> n < made (base s) \<and> (key_of (base s) n, n) \<in> set (table (base s))"
    and "\<And>k n. (k, n) \<in> set (table (base s)) \<Longrightarrow> key_of (base s) n = k \<and> n < made (base s)"
    and "distinct (map fst (table (base s)))" and "distinct (dying (base s))"
    and "\<And>n. n \<in> set (dying (base s)) \<Longrightarrow> strong (base s) n = 0 \<and> n < made (base s)"
    and "dead s + of_nat (length (dying (base s))) = created s - of_nat (length (table (base s))) + of_nat (length (zombies (base s)))"
  shows "stocks_ok s"
  using assms by (auto simp: stocks_ok_def Let_def)

lemma filter_one:
  assumes "distinct (map fst t)" and "(k, n) \<in> set t" and "\<And>k' m. (k', m) \<in> set t \<Longrightarrow> m = n \<Longrightarrow> k' = k" and "f n \<noteq> (0 :: nat)"
  shows "length (filter (\<lambda>e. (f(n := 0)) (snd e) = 0) t) = length (filter (\<lambda>e. f (snd e) = 0) t) + 1"
  using assms
proof (induction t)
  case (Cons e t)
  show ?case
  proof (cases "e = (k, n)")
    case True
    have "snd x \<noteq> n" if "x \<in> set t" for x
    proof
      assume "snd x = n"
      then have "fst x = k" using that Cons.prems(3) [of "fst x" "snd x"] by (cases x) auto
      then show False using that True Cons.prems(1) by (metis distinct.simps(2) fst_conv imageI image_set list.simps(9))
    qed
    then have "filter (\<lambda>e. (f(n := 0)) (snd e) = 0) t = filter (\<lambda>e. f (snd e) = 0) t" by (intro filter_cong) auto
    then show ?thesis using True Cons.prems(4) by simp
  next
    case False
    have "snd e \<noteq> n"
    proof
      assume n: "snd e = n"
      then have "fst e = k" using Cons.prems(3) [of "fst e" "snd e"] by (cases e) auto
      then show False using False n by (cases e) auto
    qed
    moreover have "length (filter (\<lambda>e. (f(n := 0)) (snd e) = 0) t) = length (filter (\<lambda>e. f (snd e) = 0) t) + 1"
    proof (rule Cons.IH)
      show "(k, n) \<in> set t" using Cons.prems(2) False by simp
      show "k' = k" if "(k', m) \<in> set t" "m = n" for k' m using Cons.prems(3) [of k' m] that by simp
    qed (use Cons.prems(1,4) in simp_all)
    ultimately show ?thesis by simp
  qed
qed simp

lemma word_count:
  assumes "(z :: 64 word) + l' = z' + l + 1" and "d = c - l + z"
  shows "d = c + 1 - l' + z'"
proof -
  have "z = z' + l + 1 - l'" using assms(1) by (simp add: eq_diff_eq)
  then show ?thesis using assms(2) by simp
qed

lemma get_stock_ok: "stocks_ok s \<Longrightarrow> stocks_ok (snd (GetStock k s))"
proof (cases "lock_entry (base s) k")
  case (Some n)
  assume ok: "stocks_ok s"
  have n: "strong (base s) n > 0" "(k, n) \<in> set (table (base s))"
    using Some stocks_okD(3) [OF ok] by (auto simp: lock_entry_def split: option.splits if_splits)
  have "zombies (hold n (base s)) = zombies (base s)" using n(1) by (auto simp: zombies_def hold_def intro!: filter_cong)
  then show ?thesis using Some n stocks_okD [OF ok] by (intro stocks_okI) (auto simp: GetStock_def hold_def split: if_splits)
next
  case None
  assume ok: "stocks_ok s"
  let ?p = "base s"
  note d = stocks_okD [OF ok]
  have dead_entry: "strong ?p w = 0" if "map_of (table ?p) k = Some w" for w using None that by (auto simp: lock_entry_def split: if_splits)
  have mem: "e \<in> set (AList.update k (made ?p) (table ?p)) \<Longrightarrow> e = (k, made ?p) \<or> (e \<in> set (table ?p) \<and> fst e \<noteq> k)" for e
    using d(3) by (cases e) (metis distinct_update fst_conv map_of_eq_Some_iff map_upd_Some_unfold option.inject update_conv)
  have len: "length (AList.update k (made ?p) (table ?p)) = (if map_of (table ?p) k = None then length (table ?p) + 1 else length (table ?p))"
    by (simp add: length_update map_of_eq_None_iff)
  let ?f = "(strong ?p)(made ?p := 1)"
  have same: "filter (\<lambda>e. ?f (snd e) = 0) (table ?p) = zombies ?p"
    unfolding zombies_def using d(2) by (intro filter_cong) (auto, fastforce)
  have new: "zombies (make_object k ?p) = filter (\<lambda>e. ?f (snd e) = 0) (AList.update k (made ?p) (table ?p))"
    unfolding zombies_def make_object_def by simp
  have z: "length (zombies (make_object k ?p)) + (if map_of (table ?p) k = None then 0 else 1) = length (zombies ?p)"
  proof (cases "map_of (table ?p) k")
    case None
    then show ?thesis using zombies_update [OF d(3), of "\<lambda>n. ?f n = 0" "made ?p" k] unfolding new same by simp
  next
    case (Some w)
    then have "?f w = 0" using dead_entry d(2,3) by auto
    then show ?thesis using Some zombies_update [OF d(3), of "\<lambda>n. ?f n = 0" "made ?p" k] unfolding new same by simp
  qed
  have s': "snd (GetStock k s) = s\<lparr>base := make_object k ?p, created := created s + 1\<rparr>" using None by (simp add: GetStock_def)
  have t': "table (make_object k ?p) = AList.update k (made ?p) (table ?p)" "dying (make_object k ?p) = dying ?p"
      "strong (make_object k ?p) = ?f" "key_of (make_object k ?p) = (key_of ?p)(made ?p := k)" "made (make_object k ?p) = made ?p + 1"
    by (simp_all add: make_object_def)
  have f: "base (snd (GetStock k s)) = make_object k ?p" "created (snd (GetStock k s)) = created s + 1" "dead (snd (GetStock k s)) = dead s"
    by (simp_all add: s')
  show ?thesis
  proof (rule stocks_okI, unfold f t')
    show "distinct (map fst (AList.update k (made ?p) (table ?p)))" using d(3) by (rule distinct_update)
    show "distinct (dying ?p)" by (rule d)
    show "?f n = 0 \<and> n < made ?p + 1" if "n \<in> set (dying ?p)" for n using d(5) [OF that] by auto
    show "((key_of ?p)(made ?p := k)) n = l \<and> n < made ?p + 1" if "(l, n) \<in> set (AList.update k (made ?p) (table ?p))" for l n
      using mem [OF that] d(2) by fastforce
    show "dead s + of_nat (length (dying ?p)) = created s + 1 - of_nat (length (AList.update k (made ?p) (table ?p))) +
        of_nat (length (zombies (make_object k ?p)))"
    proof -
      have "length (zombies ?p) + length (AList.update k (made ?p) (table ?p)) = length (zombies (make_object k ?p)) + length (table ?p) + 1"
        using z len by (simp split: if_splits)
      from arg_cong [OF this, of "of_nat :: nat \<Rightarrow> 64 word"]
      have "(of_nat (length (zombies ?p)) :: 64 word) + of_nat (length (AList.update k (made ?p) (table ?p))) =
          of_nat (length (zombies (make_object k ?p))) + of_nat (length (table ?p)) + 1"
        by (simp only: of_nat_add of_nat_1)
      then show ?thesis using d(6) by (rule word_count)
    qed
    show "n < made ?p + 1 \<and> (((key_of ?p)(made ?p := k)) n, n) \<in> set (AList.update k (made ?p) (table ?p))" if n: "?f n > 0" for n
    proof (cases "n = made ?p")
      case True
      have "map_of (AList.update k (made ?p) (table ?p)) k = Some (made ?p)" by (simp add: update_conv')
      then show ?thesis using True by (simp add: map_of_SomeD)
    next
      case False
      then have e: "n < made ?p" "(key_of ?p n, n) \<in> set (table ?p)" "strong ?p n > 0" using n d(1) by auto
      have "key_of ?p n \<noteq> k" using e dead_entry [of n] d(3) by auto
      then have "map_of (AList.update k (made ?p) (table ?p)) (key_of ?p n) = Some n" using e(2) d(3) by (simp add: update_conv')
      then show ?thesis using False e(1) by (simp add: map_of_SomeD)
    qed
  qed
qed

lemma drop_stock_ok:
  assumes ok: "stocks_ok s"
  shows "stocks_ok (s\<lparr>base := drop_ref n (base s)\<rparr>)"
proof -
  let ?p = "base s"
  note d = stocks_okD [OF ok]
  consider "strong ?p n = 0" | "strong ?p n = 1" | "strong ?p n > 1" by linarith
  then show ?thesis
  proof cases
    case 1
    then show ?thesis using ok by (simp add: drop_ref_def)
  next
    case 2
    then have n: "n < made ?p" "(key_of ?p n, n) \<in> set (table ?p)" using d(1) by auto
    have p': "drop_ref n ?p = ?p\<lparr>strong := (strong ?p)(n := 0), dying := dying ?p @ [n]\<rparr>" using 2 by (simp add: drop_ref_def)
    have "length (filter (\<lambda>e. ((strong ?p)(n := 0)) (snd e) = 0) (table ?p)) = length (zombies ?p) + 1"
      unfolding zombies_def by (rule filter_one [OF d(3) n(2)]) (use d(2) 2 in auto)
    then have z: "length (zombies (drop_ref n ?p)) = length (zombies ?p) + 1" by (simp add: zombies_def p')
    have "n \<notin> set (dying ?p)" using d(5) [of n] 2 by auto
    then show ?thesis
      by (intro stocks_okI) (use d n z in \<open>auto simp: p' split: if_splits\<close>)
  next
    case 3
    then have p': "drop_ref n ?p = ?p\<lparr>strong := (strong ?p)(n := strong ?p n - 1)\<rparr>" by (simp add: drop_ref_def)
    have "zombies (drop_ref n ?p) = zombies ?p" using 3 by (auto simp: zombies_def p' intro!: filter_cong)
    then show ?thesis using d 3 by (intro stocks_okI) (auto simp: p' split: if_splits)
  qed
qed

lemma deleter_ok:
  assumes ok: "stocks_ok s"
  shows "stocks_ok (stock_deleter n s)"
proof (cases "n \<in> set (dying (base s))")
  case True
  note d = stocks_okD [OF ok]
  have "length (dying (base s)) = length (remove1 n (dying (base s))) + 1" using True length_pos_if_in_set [OF True] by (simp add: length_remove1)
  then have "dead s + 1 + of_nat (length (remove1 n (dying (base s)))) =
      created s - of_nat (length (table (base s))) + of_nat (length (zombies (base s)))"
    using d(6) by (simp add: add.assoc [symmetric] add.commute)
  moreover have "zombies ((base s)\<lparr>dying := xs\<rparr>) = zombies (base s)" for xs by (simp add: zombies_def)
  ultimately show ?thesis
    using True d by (intro stocks_okI) (auto simp: stock_deleter_def IncrementDead_def dest: notin_set_remove1)
qed (use ok in \<open>simp add: stock_deleter_def\<close>)

lemma prune_ok:
  assumes ok: "stocks_ok s" and rest: "dying (base s) = []"
  shows "stocks_ok (Prune s)"
proof -
  note d = stocks_okD [OF ok]
  have "zombies (base (Prune s)) = []" by (auto simp: Prune_def zombies_def Let_def filter_empty_conv)
  then show ?thesis using d rest by (intro stocks_okI) (auto simp: Prune_def Let_def distinct_map_filter)
qed

lemma stock_run_ok: "stocks_ok s \<Longrightarrow> pruned_at_rest s es \<Longrightarrow> stocks_ok (fold (\<lambda>e s. stock_step s e) es s)"
proof (induction es arbitrary: s)
  case (Cons e es)
  have "stocks_ok (stock_step s e)"
    using Cons.prems get_stock_ok drop_stock_ok deleter_ok prune_ok by (cases e) (auto simp: stock_step_def)
  then show ?case using Cons by simp
qed simp

section \<open>Properties\<close>

text \<open>
  Fact. When each deleter runs before the pool is used again, there is one object for a key: two objects that are
  held and have the same key are the same, and the pool gives out that one.
\<close>

theorem pool_one_object_per_key:
  assumes "calm (pool_new junk) es" and "p = fold (\<lambda>e p. pool_step p e) es (pool_new junk)"
    and "strong p n > 0" and "strong p m > 0" and "key_of p n = key_of p m"
  shows "n = m \<and> fst (pool_Get (key_of p n) p) = n"
proof -
  have ok: "pool_ok p" unfolding assms(2) by (rule calm_run_ok [OF pool_new_ok assms(1)])
  have en: "map_of (table p) (key_of p n) = Some n" by (rule pool_entry [OF ok assms(3)])
  have em: "map_of (table p) (key_of p n) = Some m" unfolding assms(5) by (rule pool_entry [OF ok assms(4)])
  have "lock_entry p (key_of p n) = Some n" unfolding lock_entry_def en option.case if_P [OF assms(3)] by (rule refl)
  then have "fst (pool_Get (key_of p n) p) = n" unfolding pool_Get_def by simp
  moreover have "Some n = Some m" by (rule trans [OF en [symmetric] em])
  ultimately show ?thesis by simp
qed

definition calm_run :: "string pool_event list" where
  "calm_run = [Get_key ''a'', Get_key ''b'', Drop 0, Run_deleter 0, Get_key ''a'', Get_key ''a'']"

theorem pool_one_object_per_key_witness:
  "fst (pool_Get ''a'' (fold (\<lambda>e p. pool_step p e) calm_run (pool_new (\<lambda>_. [])))) = 2"
proof -
  let ?p = "fold (\<lambda>e p. pool_step p e) calm_run (pool_new (\<lambda>_. []))"
  have c: "calm (pool_new (\<lambda>_. [])) calm_run" by code_simp
  have k: "strong ?p 2 > 0" "key_of ?p 2 = ''a''" by code_simp+
  show ?thesis using pool_one_object_per_key [OF c refl k(1) k(1) refl] k(2) by simp
qed

text \<open>
  Fact. When a deleter is overtaken, the pool forgets an object that is in use: the last holder of object 0 lets
  go, another thread gets the key anew and holds object 1, then the deleter of object 0 erases the entry of
  the key, and the next thread gets a second object, 2, for it.
\<close>

theorem pool_deleter_erases_successor:
  "(let p = fold (\<lambda>e p. pool_step p e) [Get_key ''a'', Drop 0, Get_key ''a'', Run_deleter 0, Get_key ''a''] (pool_new (\<lambda>_. [])) in
    strong p 1 > 0 \<and> strong p 2 > 0 \<and> key_of p 1 = key_of p 2)"
  by code_simp

text \<open>
  Fact. The number of zombies is exact: as long as \<open>Prune\<close> is not called while a deleter is about to run, the
  number it reports and the deleters that have not run make up the entries whose object is gone, in 64-bit
  arithmetic.
\<close>

theorem stock_zombies_exact:
  assumes "pruned_at_rest (stocks_new junk) es" and "s = fold (\<lambda>e s. stock_step s e) es (stocks_new junk)"
  shows "zombie_number s + of_nat (length (dying (base s))) = of_nat (length (filter (\<lambda>e. strong (base s) (snd e) = 0) (table (base s))))"
proof -
  have "stocks_ok s" unfolding assms(2) by (rule stock_run_ok [OF stocks_new_ok assms(1)])
  from stocks_okD(6) [OF this] show ?thesis
    by (simp add: zombie_number_def stock_count_def zombies_def algebra_simps)
qed

definition stock_run :: "string stock_event list" where
  "stock_run = [Get_stock ''a'', Get_stock ''b'', Drop_stock 0, Run_stock_deleter 0, Get_stock ''c'', Drop_stock 2]"

theorem stock_zombies_exact_witness:
  "zombie_number (fold (\<lambda>e s. stock_step s e) stock_run (stocks_new (\<lambda>_. []))) + 1 = 2"
proof -
  let ?s = "fold (\<lambda>e s. stock_step s e) stock_run (stocks_new (\<lambda>_. []))"
  have "pruned_at_rest (stocks_new (\<lambda>_. [])) stock_run" by code_simp
  from stock_zombies_exact [OF this refl] have "zombie_number ?s + of_nat (length (dying (base ?s))) =
      of_nat (length (filter (\<lambda>e. strong (base ?s) (snd e) = 0) (table (base ?s))))" .
  moreover have "length (dying (base ?s)) = 1" "length (filter (\<lambda>e. strong (base ?s) (snd e) = 0) (table (base ?s))) = 2" by code_simp+
  ultimately show ?thesis by simp
qed

text \<open>
  Fact. When a name is asked for again before the deleter of its old stock has run, the number of zombies wraps
  around: \<open>Prune\<close> reports \<open>2 ^ 64 - 1\<close> of them.
\<close>

theorem stock_zombies_wrap:
  "zombie_number (fold (\<lambda>e s. stock_step s e) [Get_stock ''a'', Drop_stock 0, Get_stock ''a''] (stocks_new (\<lambda>_. []))) = 2 ^ 64 - 1"
  by code_simp

end
