(* ===== verification/Observer_List.thy ===== *)
theory Observer_List
  imports Prelude
begin

text \<open>
  The list of observers (\<open>src/Thread_Safe_Observer/src/observer_list.h\<close>): weak references in the order of
  registration, an enumerator that skips observers that are gone, and the macro that calls all of them and
  then compacts the list. The theory shows who is called when callbacks let observers go, and that callbacks
  that change the list invalidate the enumerator.
\<close>

section \<open>The list\<close>

text \<open>
  An observer is its control block. Every insertion or removal makes a new \<open>version\<close>, of which the iterators of
  older versions are not valid any more, not even to be compared.
\<close>

record observer_list =
  items :: "nat list"
  version :: nat

text \<open>The world of the callbacks: the owners of each observer, and the list.\<close>

record world =
  owners :: "nat \<Rightarrow> nat"
  observers :: observer_list

definition observers_new :: observer_list where
  "observers_new = \<lparr>items = [], version = 0\<rparr>"

definition Find :: "observer_list \<Rightarrow> nat \<Rightarrow> nat" where
  "Find l ob = length (takeWhile (\<lambda>i. i \<noteq> ob) (items l))"

definition changed :: "nat list \<Rightarrow> observer_list \<Rightarrow> observer_list" where
  "changed xs l = \<lparr>items = xs, version = version l + 1\<rparr>"

text \<open>\<open>Add\<close> in a debug build, and in a release build.\<close>

definition Add :: "bool \<Rightarrow> nat \<Rightarrow> observer_list \<Rightarrow> observer_list res" where
  "Add debug ob l =
     rbind (guard (\<not> debug \<or> Find l ob = length (items l)) (Thrown ''logic_error'')) (\<lambda>_. Inr (changed (items l @ [ob]) l))"

definition Remove :: "nat \<Rightarrow> observer_list \<Rightarrow> observer_list" where
  "Remove ob l = (let it = Find l ob in
     if it \<noteq> length (items l) then changed (take it (items l) @ drop (it + 1) (items l)) l else l)"

definition expired :: "world \<Rightarrow> nat \<Rightarrow> bool" where
  "expired w ob \<longleftrightarrow> owners w ob = 0"

definition Compact :: "world \<Rightarrow> world" where
  "Compact w =
     (let l = observers w; kept = filter (\<lambda>ob. \<not> expired w ob) (items l)
      in w\<lparr>observers := (if kept = items l then l else changed kept l)\<rparr>)"

section \<open>The enumerator\<close>

record enumerator =
  en_iter :: nat
  en_end :: nat
  en_version :: nat

definition enumerate :: "observer_list \<Rightarrow> enumerator" where
  "enumerate l = \<lparr>en_iter = 0, en_end = length (items l), en_version = version l\<rparr>"

text \<open>\<open>Next\<close>, with fuel for the places that are left; the observer that is found gets one more owner.\<close>

fun next_loop :: "nat \<Rightarrow> world \<Rightarrow> enumerator \<Rightarrow> (nat option \<times> world \<times> enumerator) res" where
  "next_loop fuel w en =
     rbind (guard (en_version en = version (observers w)) Out_of_bounds) (\<lambda>_.
     if en_iter en = en_end en then Inr (None, w, en)
     else case fuel of 0 \<Rightarrow> Inl No_return | Suc fuel \<Rightarrow>
       rbind (guard (en_iter en < length (items (observers w))) Out_of_bounds) (\<lambda>_.
       let ob = items (observers w) ! en_iter en;
           en = en\<lparr>en_iter := en_iter en + 1\<rparr>
       in if owners w ob > 0 then Inr (Some ob, w\<lparr>owners := (owners w)(ob := owners w ob + 1)\<rparr>, en) else next_loop fuel w en))"

declare next_loop.simps [simp del]

definition Next :: "world \<Rightarrow> enumerator \<Rightarrow> (nat option \<times> world \<times> enumerator) res" where
  "Next w en = next_loop (en_end en - en_iter en) w en"

definition let_go :: "nat option \<Rightarrow> world \<Rightarrow> world" where
  "let_go held w = (case held of None \<Rightarrow> w | Some ob \<Rightarrow> w\<lparr>owners := (owners w)(ob := owners w ob - 1)\<rparr>)"

text \<open>
  \<open>FOR_EACH_OBSERVER\<close>: \<open>observer = enumerator.Next()\<close> lets the last observer go after the next one is held. \<open>cb\<close> is
  the call; the result lists the observers that were called.
\<close>

fun for_each :: "nat \<Rightarrow> (nat \<Rightarrow> world \<Rightarrow> world) \<Rightarrow> nat option \<Rightarrow> world \<Rightarrow> enumerator \<Rightarrow> (nat list \<times> world) res" where
  "for_each fuel cb held w en =
     rbind (Next w en) (\<lambda>(next_ob, w, en).
     let w = let_go held w in
     case next_ob of
       None \<Rightarrow> Inr ([], w)
     | Some ob \<Rightarrow> (case fuel of 0 \<Rightarrow> Inl No_return | Suc fuel \<Rightarrow>
         rbind (for_each fuel cb (Some ob) (cb ob w) en) (\<lambda>(called, w). Inr (ob # called, w))))"

declare for_each.simps [simp del]

definition notify :: "(nat \<Rightarrow> world \<Rightarrow> world) \<Rightarrow> world \<Rightarrow> (nat list \<times> world) res" where
  "notify cb w =
     (let en = enumerate (observers w)
      in rbind (for_each (length (items (observers w))) cb None w en) (\<lambda>(called, w). Inr (called, Compact w)))"

section \<open>The reference\<close>

text \<open>
  Walking over the observers: who still has an owner is called while it is held, then let go. \<open>g ob\<close> is what the
  callback of \<open>ob\<close> does to the owners; it cannot take away the hold.
\<close>

fun visit :: "(nat \<Rightarrow> (nat \<Rightarrow> nat) \<Rightarrow> nat \<Rightarrow> nat) \<Rightarrow> nat list \<Rightarrow> (nat \<Rightarrow> nat) \<Rightarrow> nat list \<times> (nat \<Rightarrow> nat)" where
  "visit g [] ow = ([], ow)"
| "visit g (ob # obs) ow =
     (if ow ob = 0 then visit g obs ow
      else let ow = g ob (ow(ob := ow ob + 1));
               (called, ow) = visit g obs (ow(ob := ow ob - 1))
           in (ob # called, ow))"

definition calling :: "(nat \<Rightarrow> (nat \<Rightarrow> nat) \<Rightarrow> nat \<Rightarrow> nat) \<Rightarrow> nat \<Rightarrow> world \<Rightarrow> world" where
  "calling g ob w = w\<lparr>owners := g ob (owners w)\<rparr>"

section \<open>Facts\<close>

lemma next_skip:
  assumes "en_iter en < en_end en" and "en_end en = length (items (observers w))" and "en_version en = version (observers w)"
    and "owners w (items (observers w) ! en_iter en) = 0"
  shows "Next w en = Next w (en\<lparr>en_iter := en_iter en + 1\<rparr>)"
proof -
  obtain k where k: "en_end en - en_iter en = Suc k" using assms(1) by (metis Suc_diff_Suc)
  have "next_loop (Suc k) w en = next_loop k w (en\<lparr>en_iter := en_iter en + 1\<rparr>)"
    using assms by (subst next_loop.simps) simp
  moreover have "en_end en - (en_iter en + 1) = k" using k by simp
  ultimately show ?thesis using k by (simp add: Next_def)
qed

lemma next_found:
  assumes "en_iter en < en_end en" and "en_end en = length (items (observers w))" and "en_version en = version (observers w)"
    and "ob = items (observers w) ! en_iter en" and "owners w ob > 0"
  shows "Next w en = Inr (Some ob, w\<lparr>owners := (owners w)(ob := owners w ob + 1)\<rparr>, en\<lparr>en_iter := en_iter en + 1\<rparr>)"
proof -
  obtain k where k: "en_end en - en_iter en = Suc k" using assms(1) by (metis Suc_diff_Suc)
  show ?thesis unfolding Next_def k using assms by (subst next_loop.simps) (simp add: Let_def)
qed

lemma next_end: "en_iter en = en_end en \<Longrightarrow> en_version en = version (observers w) \<Longrightarrow> Next w en = Inr (None, w, en)"
  by (simp add: Next_def next_loop.simps)

lemma let_go_simps [simp]: "observers (let_go h w) = observers w"
  by (cases h) (simp_all add: let_go_def)

lemma for_each_visits:
  assumes "\<And>ob ow. ow ob > 0 \<Longrightarrow> g ob ow ob > 0" and "items (observers w) = pre @ rest" and "distinct rest"
    and "en = \<lparr>en_iter = length pre, en_end = length (pre @ rest), en_version = version (observers w)\<rparr>" and "length rest \<le> fuel"
    and "case held of None \<Rightarrow> True | Some h \<Rightarrow> h \<notin> set rest \<and> owners w h > 0"
  shows "for_each fuel (calling g) held w en =
    (case visit g rest (owners (let_go held w)) of (called, ow) \<Rightarrow> Inr (called, w\<lparr>owners := ow\<rparr>))"
  using assms(2-6)
proof (induction rest arbitrary: w pre en fuel held)
  case Nil
  then have "Next w en = Inr (None, w, en)" by (intro next_end) simp_all
  moreover have "let_go held w = w\<lparr>owners := owners (let_go held w)\<rparr>" by (cases held) (simp_all add: let_go_def)
  ultimately show ?case by (simp add: for_each.simps [of fuel])
next
  case (Cons ob rest)
  have same: "owners (let_go held w) ob = owners w ob" using Cons.prems(5) by (cases held) (auto simp: let_go_def)
  have nth: "items (observers w) ! en_iter en = ob" using Cons.prems(1,3) by simp
  show ?case
  proof (cases "owners w ob = 0")
    case True
    let ?en = "en\<lparr>en_iter := en_iter en + 1\<rparr>"
    have "Next w en = Next w ?en" using Cons.prems(1,3) nth True by (intro next_skip) simp_all
    then have "for_each fuel (calling g) held w en = for_each fuel (calling g) held w ?en" by (simp only: for_each.simps [of fuel])
    also have "\<dots> = (case visit g rest (owners (let_go held w)) of (called, ow) \<Rightarrow> Inr (called, w\<lparr>owners := ow\<rparr>))"
      by (rule Cons.IH [of w "pre @ [ob]"]) (use Cons.prems in \<open>simp_all split: option.splits\<close>)
    finally show ?thesis using True same by simp
  next
    case False
    let ?en = "en\<lparr>en_iter := en_iter en + 1\<rparr>"
    let ?w1 = "w\<lparr>owners := (owners w)(ob := owners w ob + 1)\<rparr>"
    let ?w2 = "let_go held ?w1"
    let ?w3 = "calling g ob ?w2"
    obtain k where k: "fuel = Suc k" "length rest \<le> k" using Cons.prems(4) by (cases fuel) auto
    have nx: "Next w en = Inr (Some ob, ?w1, ?en)" using Cons.prems(1,3) nth False by (intro next_found) simp_all
    have held: "owners ?w2 = (owners (let_go held w))(ob := owners (let_go held w) ob + 1)"
      using Cons.prems(5) by (cases held) (auto simp: let_go_def fun_upd_twist)
    have pos: "owners ?w3 ob > 0" using assms(1) [of "owners ?w2" ob] held by (simp add: calling_def)
    have "for_each k (calling g) (Some ob) ?w3 ?en =
        (case visit g rest (owners (let_go (Some ob) ?w3)) of (called, ow) \<Rightarrow> Inr (called, ?w3\<lparr>owners := ow\<rparr>))"
      by (rule Cons.IH [of ?w3 "pre @ [ob]"]) (use Cons.prems k pos in \<open>simp_all add: calling_def\<close>)
    moreover have "owners (let_go (Some ob) ?w3) = (g ob (owners ?w2))(ob := g ob (owners ?w2) ob - 1)"
      by (simp add: let_go_def calling_def)
    moreover have "?w3\<lparr>owners := ow\<rparr> = w\<lparr>owners := ow\<rparr>" for ow
      by (cases held) (simp_all add: calling_def let_go_def)
    ultimately have "for_each k (calling g) (Some ob) ?w3 ?en =
        (case visit g rest ((g ob (owners ?w2))(ob := g ob (owners ?w2) ob - 1)) of (called, ow) \<Rightarrow> Inr (called, w\<lparr>owners := ow\<rparr>))" by simp
    then show ?thesis using nx False same held k(1)
      by (simp add: for_each.simps [of "Suc k"] Let_def split: prod.splits)
  qed
qed

section \<open>Properties\<close>

text \<open>
  Fact. A notification walks over the observers: when the callbacks leave the list alone, the observers called are
  those that still have an owner when their turn comes, in the order of registration and each once, whatever
  the callbacks do to the owners of others; afterwards the list holds those that are still owned.
\<close>

theorem notify_visits_observers:
  assumes "distinct (items (observers w))" and "\<forall>ob ow. ow ob > 0 \<longrightarrow> g ob ow ob > 0"
  shows "\<exists>w'. notify (calling g) w = Inr (fst (visit g (items (observers w)) (owners w)), w') \<and>
    owners w' = snd (visit g (items (observers w)) (owners w)) \<and>
    items (observers w') = filter (\<lambda>ob. owners w' ob > 0) (items (observers w))"
proof -
  have "for_each (length (items (observers w))) (calling g) None w (enumerate (observers w)) =
      (case visit g (items (observers w)) (owners (let_go None w)) of (called, ow) \<Rightarrow> Inr (called, w\<lparr>owners := ow\<rparr>))"
    by (rule for_each_visits [where pre = "[]"]) (use assms in \<open>simp_all add: enumerate_def\<close>)
  then show ?thesis
    by (auto simp: notify_def let_go_def Compact_def changed_def expired_def Let_def split: prod.splits)
qed

text \<open>Three observers, of which the first lets the second go.\<close>

definition dropping :: "nat \<Rightarrow> (nat \<Rightarrow> nat) \<Rightarrow> nat \<Rightarrow> nat" where
  "dropping ob ow = (if ob = 1 then ow(2 := 0) else ow)"

definition three :: world where
  "three = \<lparr>owners = (\<lambda>ob. if ob \<in> {1, 2, 3} then 1 else 0), observers = \<lparr>items = [1, 2, 3], version = 3\<rparr>\<rparr>"

theorem notify_visits_observers_witness:
  "\<exists>w'. notify (calling dropping) three = Inr ([1, 3], w') \<and> items (observers w') = filter (\<lambda>ob. owners w' ob > 0) [1, 2, 3]"
proof -
  have v: "fst (visit dropping (items (observers three)) (owners three)) = [1, 3]" "items (observers three) = [1, 2, 3]" by code_simp+
  have d: "distinct (items (observers three))" by code_simp
  have g: "\<forall>ob ow. ow ob > 0 \<longrightarrow> dropping ob ow ob > 0" by (simp add: dropping_def)
  show ?thesis using notify_visits_observers [where w = three and g = dropping, OF d g] v by auto
qed

text \<open>
  Fact. A callback must not change the list: when the first of two observers adds a third, the iterators of the
  enumerator are not valid any more and the next step uses one.
\<close>

definition adding :: "nat \<Rightarrow> world \<Rightarrow> world" where
  "adding ob w = (case Add False 9 (observers w) of Inl f \<Rightarrow> w | Inr l \<Rightarrow> w\<lparr>observers := l\<rparr>)"

theorem notify_add_invalidates:
  "(case notify adding (three\<lparr>observers := \<lparr>items = [1, 2], version = 2\<rparr>\<rparr>) of Inl f \<Rightarrow> f = Out_of_bounds | Inr r \<Rightarrow> False)"
  by code_simp

text \<open>
  Fact. Registration is a set in the order of registration: in a debug build an observer is added once and an
  attempt to add it again throws; \<open>Remove\<close> takes out that observer and no other.
\<close>

theorem observer_list_registration:
  assumes "distinct (items l)"
  shows "(ob \<in> set (items l) \<longrightarrow> Add True ob l = Inl (Thrown ''logic_error'')) \<and>
    (ob \<notin> set (items l) \<longrightarrow> (\<exists>l'. Add True ob l = Inr l' \<and> items l' = items l @ [ob])) \<and>
    items (Remove ob l) = filter (\<lambda>i. i \<noteq> ob) (items l)"
proof -
  have f: "Find l ob = length (items l) \<longleftrightarrow> ob \<notin> set (items l)"
  proof
    assume "Find l ob = length (items l)"
    then have "takeWhile (\<lambda>i. i \<noteq> ob) (items l) = items l"
      unfolding Find_def by (metis takeWhile_eq_take take_all order_refl)
    then show "ob \<notin> set (items l)" by (metis set_takeWhileD)
  next
    assume "ob \<notin> set (items l)"
    then have "takeWhile (\<lambda>i. i \<noteq> ob) (items l) = items l" by (auto simp: takeWhile_eq_all_conv)
    then show "Find l ob = length (items l)" unfolding Find_def by (rule arg_cong [where f = length])
  qed
  have r: "take n xs @ drop (n + 1) xs = filter (\<lambda>i. i \<noteq> ob) xs"
    if "distinct xs" "n = length (takeWhile (\<lambda>i. i \<noteq> ob) xs)" for n and xs :: "nat list"
    using that
  proof (induction xs arbitrary: n)
    case (Cons a xs)
    show ?case
    proof (cases "a = ob")
      case True
      then have "filter (\<lambda>i. i \<noteq> ob) xs = xs" using Cons.prems by (intro filter_True) auto
      then show ?thesis using True Cons.prems by simp
    next
      case False
      then show ?thesis using Cons.IH [of "n - 1"] Cons.prems by auto
    qed
  qed simp
  have "items (Remove ob l) = filter (\<lambda>i. i \<noteq> ob) (items l)"
  proof (cases "ob \<in> set (items l)")
    case True
    then show ?thesis using f r [OF assms, of "Find l ob"] by (simp add: Remove_def Let_def changed_def Find_def)
  next
    case False
    then have "filter (\<lambda>i. i \<noteq> ob) (items l) = items l" by (intro filter_True) auto
    then show ?thesis using f False by (simp add: Remove_def Let_def)
  qed
  then show ?thesis using f by (auto simp: Add_def changed_def guard_def)
qed

theorem observer_list_registration_witness:
  "items (Remove 2 \<lparr>items = [1, 2, 3], version = 0\<rparr>) = [1, 3] \<and> Add True 2 \<lparr>items = [1, 2, 3], version = 0\<rparr> = Inl (Thrown ''logic_error'')"
  using observer_list_registration [of "\<lparr>items = [1, 2, 3], version = 0\<rparr>" 2] by simp

end
