(* ===== verification/Http_Request.thy ===== *)
theory Http_Request
  imports Text "HOL-Library.Sublist"
begin

text \<open>
  What the two HTTP servers share (\<open>src/ConcurrentHttpServer/ConcurrentHttpServerWin/src/tcp_connection.cpp\<close>
  and \<open>ConcurrentHttpServerLinux/src/tcp_connection.cpp\<close>): when a request is complete, how the escapes of an
  address are resolved, and how the header of a response is written. The theory shows that the end of a
  request is found whatever the pieces in which it arrives, and that unescaping inverts escaping.
\<close>

section \<open>Strings\<close>

text \<open>\<open>"%02d"\<close>.\<close>

definition two_digits :: "nat \<Rightarrow> string" where
  "two_digits n = (if n < 10 then ''0'' @ decimal n else decimal n)"

definition crlf :: string where
  "crlf = [CHR 0x0D, CHR 0x0A]"

section \<open>Requests\<close>

definition kTerminator :: string where
  "kTerminator = crlf @ crlf"

definition IsRequestComplete :: "string \<Rightarrow> nat \<Rightarrow> bool" where
  "IsRequestComplete req bytes_read =
     (let last_size = wsub (length req) bytes_read;
          start_pos = (if last_size > 3 then last_size - 3 else 0)
      in find_from kTerminator req start_pos \<noteq> None)"

text \<open>
  \<open>strtoul\<close> in base 16: leading blanks, a sign and the prefix \<open>0x\<close> in front of a digit are skipped, the digits
  end at the first character that is none; a minus sign negates the unsigned number.
\<close>

definition is_space :: "char \<Rightarrow> bool" where
  "is_space c \<longleftrightarrow> c = CHR '' '' \<or> (9 \<le> (of_char c :: nat) \<and> (of_char c :: nat) \<le> 13)"

definition hex_digit :: "char \<Rightarrow> nat option" where
  "hex_digit c = (let n = of_char c :: nat in
     if 48 \<le> n \<and> n \<le> 57 then Some (n - 48)
     else if 65 \<le> n \<and> n \<le> 70 then Some (n - 55)
     else if 97 \<le> n \<and> n \<le> 102 then Some (n - 87) else None)"

fun hex_value :: "64 word \<Rightarrow> string \<Rightarrow> 64 word" where
  "hex_value acc [] = acc"
| "hex_value acc (c # cs) = (case hex_digit c of None \<Rightarrow> acc | Some d \<Rightarrow> hex_value (16 * acc + of_nat d) cs)"

fun hex_prefix :: "string \<Rightarrow> string" where
  "hex_prefix (z # x # c # cs) =
     (if z = CHR ''0'' \<and> (x = CHR ''x'' \<or> x = CHR ''X'') \<and> hex_digit c \<noteq> None then c # cs else z # x # c # cs)"
| "hex_prefix cs = cs"

fun strtoul_signed :: "string \<Rightarrow> 64 word" where
  "strtoul_signed [] = 0"
| "strtoul_signed (c # cs) =
     (if c = CHR ''-'' then - hex_value 0 (hex_prefix cs)
      else if c = CHR ''+'' then hex_value 0 (hex_prefix cs)
      else hex_value 0 (hex_prefix (c # cs)))"

definition strtoul16 :: "string \<Rightarrow> 64 word" where
  "strtoul16 s = strtoul_signed (dropWhile is_space (takeWhile (\<lambda>c. c \<noteq> CHR 0x00) s))"

text \<open>
  \<open>UnescapeURL\<close>. When fewer than two characters follow a percent sign the iterator runs past the end, which it
  then never meets.
\<close>

fun UnescapeURL :: "string \<Rightarrow> string res" where
  "UnescapeURL [] = Inr []"
| "UnescapeURL (c # cs) =
     (if c \<noteq> CHR ''%'' then rbind (UnescapeURL cs) (\<lambda>url. Inr (c # url))
      else case cs of
        h1 # h2 # rest \<Rightarrow> rbind (UnescapeURL rest) (\<lambda>url. Inr (char_of (unat (strtoul16 [h1, h2])) # url))
      | _ \<Rightarrow> Inl Out_of_bounds)"

section \<open>Responses\<close>

definition kDays :: "string list" where
  "kDays = [''Sun'', ''Mon'', ''Tue'', ''Wed'', ''Thu'', ''Fri'', ''Sat'']"

definition kMonths :: "string list" where
  "kMonths = [''Jan'', ''Feb'', ''Mar'', ''Apr'', ''May'', ''Jun'', ''Jul'', ''Aug'', ''Sep'', ''Oct'', ''Nov'', ''Dec'']"

record date =
  day_of_week :: nat
  day :: nat
  month :: nat
  year :: nat
  hour :: nat
  minute :: nat
  second :: nat

text \<open>The formatting of a date, given the index of its month.\<close>

definition format_date :: "nat \<Rightarrow> date \<Rightarrow> string res" where
  "format_date index d =
     rbind (at kDays (day_of_week d)) (\<lambda>wd.
     rbind (at kMonths index) (\<lambda>mon.
     Inr (wd @ '', '' @ two_digits (day d) @ '' '' @ mon @ '' '' @ decimal (year d) @ '' '' @
       two_digits (hour d) @ '':'' @ two_digits (minute d) @ '':'' @ two_digits (second d) @ '' GMT'')))"

definition mime_table :: "(string \<times> string) list" where
  "mime_table =
    [('''', ''application/octet-stream''), (''.html'', ''text/html''), (''.htm'', ''text/html''), (''.txt'', ''text/plain''),
     (''.wav'', ''audio/wav''), (''.gif'', ''image/gif''), (''.jpg'', ''image/jpeg''), (''.png'', ''image/png''), (''.bmp'', ''image/bmp'')]"

definition MimeTypeFromExtension :: "string \<Rightarrow> string" where
  "MimeTypeFromExtension ext =
     (case map_of mime_table ext of Some t \<Rightarrow> t | None \<Rightarrow> snd (mime_table ! 0))"

definition not_found :: string where
  "not_found = ''HTTP/1.1 404 Not Found'' @ crlf @ ''Content-Length: 0'' @ crlf @ crlf"

definition ok_header :: "string \<Rightarrow> string \<Rightarrow> nat \<Rightarrow> string \<Rightarrow> string" where
  "ok_header platform when_changed bytes ext =
     ''HTTP/1.1 200 OK'' @ crlf @ ''Date: '' @ when_changed @ crlf @ ''Server: KHTTPD/0.1.0 ('' @ platform @ '')'' @ crlf @
     ''Content-Length: '' @ decimal bytes @ crlf @ ''Content-Type: '' @ MimeTypeFromExtension ext @ crlf @ crlf"

text \<open>
  The library outside: the tokens of a text, \<open>TrimLeadingString\<close>, and the names that the address of a
  resource stands for.
\<close>

record library =
  tokenize :: "string \<Rightarrow> string \<Rightarrow> string list"
  trim_leading :: "string \<Rightarrow> string \<Rightarrow> string"

definition requested_path :: "library \<Rightarrow> string \<Rightarrow> string res" where
  "requested_path lib req =
     rbind (at (tokenize lib req crlf) 0) (\<lambda>request_line.
     rbind (at (tokenize lib request_line '' '') 1) UnescapeURL)"

definition resource_id :: "library \<Rightarrow> string \<Rightarrow> string res" where
  "resource_id lib req = rbind (requested_path lib req) (\<lambda>unescaped_uri. Inr (trim_leading lib unescaped_uri ''/''))"

section \<open>Facts\<close>

lemma length_kTerminator [simp]: "length kTerminator = 4"
  by (simp add: kTerminator_def crlf_def)

lemma occurs_sublist: "pat \<noteq> [] \<Longrightarrow> (\<exists>i \<le> length s. occurs_at pat s i) \<longleftrightarrow> sublist pat s"
proof
  assume "\<exists>i \<le> length s. occurs_at pat s i"
  then obtain i where "take (length pat) (drop i s) = pat" by (auto simp: occurs_at_def)
  then have "s = take i s @ pat @ drop (length pat) (drop i s)" by (metis append_take_drop_id)
  then show "sublist pat s" unfolding sublist_def by blast
next
  assume "sublist pat s"
  then obtain pre post where "s = pre @ pat @ post" by (auto simp: sublist_def)
  then have "length pre \<le> length s \<and> occurs_at pat s (length pre)" by (simp add: occurs_at_def)
  then show "\<exists>i \<le> length s. occurs_at pat s i" by blast
qed

lemma occurs_early: "i + length pat \<le> length old \<Longrightarrow> occurs_at pat (old @ new) i = occurs_at pat old i"
  by (simp add: occurs_at_def)

lemma request_complete_iff:
  assumes "\<not> sublist kTerminator old" and "length (old @ new) < 2 ^ 64"
  shows "IsRequestComplete (old @ new) (length new) \<longleftrightarrow> sublist kTerminator (old @ new)"
proof -
  have ne: "kTerminator \<noteq> []" by (simp add: kTerminator_def crlf_def)
  have ls: "wsub (length (old @ new)) (length new) = length old" using assms(2) by (simp add: wsub_small)
  have old: "\<not> occurs_at kTerminator (old @ new) i" if "i + 4 \<le> length old" for i
  proof -
    have "occurs_at kTerminator (old @ new) i = occurs_at kTerminator old i"
      using that by (intro occurs_early) simp
    moreover have "\<not> occurs_at kTerminator old i"
      using assms(1) that occurs_sublist [OF ne, of old] by (meson add_leD1)
    ultimately show ?thesis by simp
  qed
  let ?start = "if length old > 3 then length old - 3 else 0"
  have "IsRequestComplete (old @ new) (length new) \<longleftrightarrow> (\<exists>i. ?start \<le> i \<and> i \<le> length (old @ new) \<and> occurs_at kTerminator (old @ new) i)"
    unfolding IsRequestComplete_def Let_def ls by (auto simp: find_from_None)
  also have "\<dots> \<longleftrightarrow> (\<exists>i \<le> length (old @ new). occurs_at kTerminator (old @ new) i)"
  proof
    assume "\<exists>i \<le> length (old @ new). occurs_at kTerminator (old @ new) i"
    then obtain i where i: "i \<le> length (old @ new)" "occurs_at kTerminator (old @ new) i" by blast
    then have "\<not> i + 4 \<le> length old" using old by blast
    then have "?start \<le> i" by auto
    then show "\<exists>i. ?start \<le> i \<and> i \<le> length (old @ new) \<and> occurs_at kTerminator (old @ new) i" using i by blast
  qed blast
  also have "\<dots> \<longleftrightarrow> sublist kTerminator (old @ new)" by (rule occurs_sublist [OF ne])
  finally show ?thesis .
qed

section \<open>Escaping\<close>

definition hex_char :: "nat \<Rightarrow> char" where
  "hex_char d = char_of (if d < 10 then 48 + d else 55 + d)"

text \<open>Percent encoding of the characters that are not to be kept; a percent sign is never kept.\<close>

definition escape_char :: "(char \<Rightarrow> bool) \<Rightarrow> char \<Rightarrow> string" where
  "escape_char keep c = (if keep c \<and> c \<noteq> CHR ''%'' then [c]
     else [CHR ''%'', hex_char ((of_char c :: nat) div 16), hex_char ((of_char c :: nat) mod 16)])"

definition escape :: "(char \<Rightarrow> bool) \<Rightarrow> string \<Rightarrow> string" where
  "escape keep s = concat (map (escape_char keep) s)"

definition plain_digit :: "nat \<Rightarrow> bool" where
  "plain_digit d \<longleftrightarrow> (let c = hex_char d in
     hex_digit c = Some d \<and> \<not> is_space c \<and> c \<noteq> CHR 0x00 \<and> c \<noteq> CHR ''-'' \<and> c \<noteq> CHR ''+'')"

lemma plain_digits: "list_all plain_digit [0..<16]"
  by code_simp

lemma strtoul_hex:
  assumes "n < 256"
  shows "strtoul16 [hex_char (n div 16), hex_char (n mod 16)] = of_nat n"
proof -
  have p: "plain_digit d" if "d < 16" for d using plain_digits that by (simp add: list_all_iff)
  have "n div 16 < 16" using assms by (simp add: div_less_iff_less_mult)
  then have "plain_digit (n div 16)" "plain_digit (n mod 16)" using p by simp_all
  then have "strtoul16 [hex_char (n div 16), hex_char (n mod 16)] = 16 * of_nat (n div 16) + of_nat (n mod 16)"
    by (simp add: plain_digit_def Let_def strtoul16_def)
  also have "\<dots> = of_nat (16 * (n div 16) + n mod 16)" by (simp only: of_nat_add of_nat_mult of_nat_numeral)
  also have "\<dots> = of_nat n" by (simp only: mult_div_mod_eq)
  finally show ?thesis .
qed

lemma of_char_below_256 [simp]: "(of_char (c :: char) :: nat) < 256"
  by (cases c) (simp add: of_char_def horner_sum_eq_sum)

lemma unescape_escape_char: "UnescapeURL (escape_char keep c @ cs) = rbind (UnescapeURL cs) (\<lambda>url. Inr (c # url))"
proof -
  have "(unat (of_nat (of_char c :: nat) :: 64 word)) = (of_char c :: nat)"
    by (simp only: unat_of_nat) (simp add: order.strict_trans [OF of_char_below_256])
  then show ?thesis by (simp add: escape_char_def strtoul_hex)
qed

section \<open>The length of a header\<close>

lemma length_mime: "length (MimeTypeFromExtension ext) \<le> 24"
proof -
  have "\<forall>t \<in> set mime_table. length (snd t) \<le> 24" by (simp add: mime_table_def)
  moreover have "MimeTypeFromExtension ext \<in> snd ` set mime_table"
    by (auto simp: MimeTypeFromExtension_def mime_table_def split: option.split dest: map_of_SomeD)
  ultimately show ?thesis by auto
qed

lemma length_names: "i < length kDays \<Longrightarrow> length (kDays ! i) = 3" "i < length kMonths \<Longrightarrow> length (kMonths ! i) = 3"
proof -
  have "\<forall>d \<in> set kDays. length d = 3" "\<forall>m \<in> set kMonths. length m = 3" by (simp_all add: kDays_def kMonths_def)
  then show "i < length kDays \<Longrightarrow> length (kDays ! i) = 3" "i < length kMonths \<Longrightarrow> length (kMonths ! i) = 3"
    by (meson nth_mem)+
qed

text \<open>The fields of a date as the system fills them in.\<close>

definition date_fields_ok :: "date \<Rightarrow> bool" where
  "date_fields_ok d \<longleftrightarrow> day d < 100 \<and> year d < 100000 \<and> hour d < 100 \<and> minute d < 100 \<and> second d < 100"

lemma length_two_digits: "n < 100 \<Longrightarrow> length (two_digits n) \<le> 2"
  using length_decimal [of n 1] length_decimal [of n 0] by (simp add: two_digits_def)

lemma length_date:
  assumes "format_date i d = Inr s" and "date_fields_ok d"
  shows "length s \<le> 31"
proof -
  have "length (two_digits (day d)) \<le> 2" "length (two_digits (hour d)) \<le> 2" "length (two_digits (minute d)) \<le> 2"
    "length (two_digits (second d)) \<le> 2" "length (decimal (year d)) \<le> 5"
    using assms(2) length_decimal [of "year d" 4] by (simp_all add: date_fields_ok_def length_two_digits)
  then show ?thesis using assms(1) by (auto simp: format_date_def rbind_Inr_iff at_Inr_iff length_names)
qed

lemma length_ok_header:
  assumes "length platform \<le> 7" and "length date \<le> 31" and "n < 2 ^ 64"
  shows "length (ok_header platform date n ext) < 256"
proof -
  have "length (decimal n) \<le> 20" using length_decimal [of n 19] assms(3) by simp
  then show ?thesis using assms length_mime [of ext] by (simp add: ok_header_def crlf_def)
qed

section \<open>Properties\<close>

text \<open>
  Fact. The end of a request is found whatever the pieces in which it arrives: when the part before the
  last piece had no blank line in it, the search, which starts three characters before that piece, finds
  one exactly if the whole has one.
\<close>

theorem request_end_found:
  assumes "\<not> sublist kTerminator old" and "length old + length new < 2 ^ 64"
  shows "IsRequestComplete (old @ new) (length new) \<longleftrightarrow> sublist kTerminator (old @ new)"
  using assms by (intro request_complete_iff) simp_all

theorem request_end_found_witness:
  "IsRequestComplete (''GET / '' @ [CHR 0x0D, CHR 0x0A, CHR 0x0D] @ [CHR 0x0A]) 1 \<longleftrightarrow>
     sublist kTerminator (''GET / '' @ [CHR 0x0D, CHR 0x0A, CHR 0x0D] @ [CHR 0x0A])"
proof -
  have "\<not> sublist kTerminator (''GET / '' @ [CHR 0x0D, CHR 0x0A, CHR 0x0D])" by code_simp
  then show ?thesis
    using request_end_found [where old = "''GET / '' @ [CHR 0x0D, CHR 0x0A, CHR 0x0D]" and new = "[CHR 0x0A]"] by simp
qed

text \<open>
  Fact. Unescaping inverts percent encoding: whichever characters an address keeps, apart from the percent
  sign, its escapes lead back to it.
\<close>

theorem unescape_inverts_escape: "UnescapeURL (escape keep s) = Inr s"
proof (induction s)
  case (Cons c s)
  then show ?case using unescape_escape_char [of keep c "escape keep s"] by (simp add: escape_def)
qed (simp add: escape_def)

text \<open>
  Fact. An address that ends inside an escape sends the reader past its end.
\<close>

theorem truncated_escape_runs_away: "UnescapeURL (''/a%'') = Inl Out_of_bounds \<and> UnescapeURL (''/a%4'') = Inl Out_of_bounds"
  by code_simp

end
