(* ===== verification/Http_Server_Win.thy ===== *)
theory Http_Server_Win
  imports Http_Request Simulation
begin

text \<open>
  The HTTP server on completion ports (\<open>src/ConcurrentHttpServer/ConcurrentHttpServerWin/src/tcp_connection.cpp\<close>,
  \<open>tcp_connection_manager.cpp\<close>): a connection is a state machine driven by the completion of the one
  operation it has under way, and the manager recycles connections. The theory shows that clients are
  sent exactly the responses to their requests, and that recycled connections are well-formed.
\<close>

section \<open>A connection\<close>

datatype state = WaitConnect | WaitRequest | WaitResponse | WaitReset

text \<open>The overlapped operation that is under way.\<close>

datatype posted = Nothing | Recv | Send nat nat | Reset

record open_file =
  content :: string
  pos :: nat

text \<open>
  The last three fields are not the code's: what arrived from the client, what was sent to it, and the requests
  that were answered. No step reads them.
\<close>

record conn =
  state :: state
  conn_socket :: bool
  opened :: "open_file option"
  io_buf :: string
  request :: string
  sent_size :: nat
  left_sent_size :: nat
  remaining_data_size :: nat
  posted :: posted
  received :: string
  wire :: string
  asked :: "string list"

definition kIOBufSize :: nat where
  "kIOBufSize = 1024"

definition TcpConnection :: "string \<Rightarrow> conn" where
  "TcpConnection junk = \<lparr>state = WaitConnect, conn_socket = False, opened = None, io_buf = junk, request = [], sent_size = 0,
     left_sent_size = 0, remaining_data_size = 0, posted = Nothing, received = [], wire = [], asked = []\<rparr>"

text \<open>
  The library and the system outside: the conversions of text, which throw where there is no value, and what a name below
  the data directory opens, if anything: the file's bytes, the date of its last change and its extension.
\<close>

type_synonym wide = "16 word list"

record system =
  lib :: library
  utf8_to_wide :: "string \<Rightarrow> wide option"
  trim_leading_wide :: "wide \<Rightarrow> wide \<Rightarrow> wide"
  wide_to_ascii :: "wide \<Rightarrow> string option"
  open_resource :: "wide \<Rightarrow> (string \<times> date \<times> wide) option"

definition converted :: "'a option \<Rightarrow> 'a res" where
  "converted x = (case x of None \<Rightarrow> Inl (Thrown ''conversion'') | Some y \<Rightarrow> Inr y)"

definition wide_resource_id :: "system \<Rightarrow> string \<Rightarrow> wide res" where
  "wide_resource_id sys req =
     rbind (requested_path (lib sys) req) (\<lambda>unescaped_uri.
     rbind (converted (utf8_to_wide sys unescaped_uri)) (\<lambda>name.
     Inr (trim_leading_wide sys name [0x2F])))"

text \<open>A file is opened without sharing it for writing, so it does not change. A read that fails reads nothing.\<close>

definition ReadFile :: "bool \<Rightarrow> nat \<Rightarrow> open_file option \<Rightarrow> string \<times> open_file option" where
  "ReadFile read_ok n f = (case f of
     None \<Rightarrow> ([], None)
   | Some f \<Rightarrow> if read_ok then let bs = take n (drop (pos f) (content f)) in (bs, Some (f\<lparr>pos := pos f + length bs\<rparr>))
       else ([], Some f))"

text \<open>\<open>HttpDateFromFileTime\<close>: the month is a number from 1 to 12.\<close>

definition HttpDateFromFileTime :: "date \<Rightarrow> string res" where
  "HttpDateFromFileTime d = format_date (month d) d"

definition Disconnect :: "conn \<Rightarrow> conn" where
  "Disconnect c = c\<lparr>state := WaitReset, posted := Reset\<rparr>"

text \<open>\<open>post_ok\<close>: whether the operation can be started.\<close>

definition ReadRequest :: "bool \<Rightarrow> conn \<Rightarrow> conn" where
  "ReadRequest post_ok c = (let c = c\<lparr>state := WaitRequest\<rparr> in if post_ok then c\<lparr>posted := Recv\<rparr> else Disconnect c)"

definition TransmitData :: "bool \<Rightarrow> conn \<Rightarrow> conn" where
  "TransmitData post_ok c = (if post_ok then c\<lparr>posted := Send (sent_size c) (left_sent_size c)\<rparr> else Disconnect c)"

definition Conncect :: "bool \<Rightarrow> conn \<Rightarrow> conn res" where
  "Conncect post_ok c = rbind (guard (\<not> conn_socket c) Ensure_failed) (\<lambda>_.
     Inr (ReadRequest post_ok (c\<lparr>conn_socket := True, received := [], wire := [], asked := []\<rparr>)))"

definition WriteResponse_missing :: "bool \<Rightarrow> conn \<Rightarrow> conn res" where
  "WriteResponse_missing post_ok c = rbind (store (io_buf c) 0 (not_found @ [CHR 0x00])) (\<lambda>buf.
     Inr (TransmitData post_ok (c\<lparr>opened := None, io_buf := buf, remaining_data_size := 0,
       left_sent_size := length not_found, sent_size := 0\<rparr>)))"

definition WriteResponse_file :: "system \<Rightarrow> bool \<Rightarrow> bool \<Rightarrow> string \<times> date \<times> wide \<Rightarrow> conn \<Rightarrow> conn res" where
  "WriteResponse_file sys post_ok read_ok r c = (case r of (data, changed, wide_ext) \<Rightarrow>
     rbind (HttpDateFromFileTime changed) (\<lambda>d.
     rbind (converted (wide_to_ascii sys wide_ext)) (\<lambda>ext.
     let header = take kIOBufSize (ok_header ''Windows'' d (length data) ext); header_size = length header in
     rbind (store (io_buf c) 0 header) (\<lambda>buf.
     rbind (guard (header_size < kIOBufSize) Ensure_failed) (\<lambda>_.
     let (bs, f) = ReadFile read_ok (kIOBufSize - header_size) (Some \<lparr>content = data, pos = 0\<rparr>) in
     rbind (store buf header_size bs) (\<lambda>buf.
     Inr (TransmitData post_ok (c\<lparr>opened := f, io_buf := buf, remaining_data_size := wsub (length data) (length bs),
       left_sent_size := wrap (header_size + length bs), sent_size := 0\<rparr>))))))))"

definition WriteResponse :: "system \<Rightarrow> bool \<Rightarrow> bool \<Rightarrow> conn \<Rightarrow> conn res" where
  "WriteResponse sys post_ok read_ok c =
     (let c = c\<lparr>state := WaitResponse, asked := asked c @ [request c]\<rparr> in
      rbind (wide_resource_id sys (request c)) (\<lambda>name.
      case open_resource sys name of
        None \<Rightarrow> WriteResponse_missing post_ok c
      | Some r \<Rightarrow> WriteResponse_file sys post_ok read_ok r c))"

definition OnReadComplete :: "system \<Rightarrow> bool \<Rightarrow> bool \<Rightarrow> nat \<Rightarrow> conn \<Rightarrow> conn res" where
  "OnReadComplete sys post_ok read_ok bytes_read c =
     (if bytes_read = 0 then Inr (Disconnect c)
      else let c = c\<lparr>request := request c @ take bytes_read (io_buf c)\<rparr>
           in if IsRequestComplete (request c) bytes_read then WriteResponse sys post_ok read_ok c
              else Inr (ReadRequest post_ok c))"

definition OnWriteComplete :: "bool \<Rightarrow> bool \<Rightarrow> nat \<Rightarrow> conn \<Rightarrow> conn res" where
  "OnWriteComplete post_ok read_ok bytes_written c =
     (if bytes_written = 0 then Inr (Disconnect c)
      else let c = c\<lparr>sent_size := wrap (sent_size c + bytes_written), left_sent_size := wsub (left_sent_size c) bytes_written\<rparr>
           in if left_sent_size c \<noteq> 0 then Inr (TransmitData post_ok c)
              else if remaining_data_size c = 0
                then Inr (ReadRequest post_ok (c\<lparr>sent_size := 0, opened := None, request := []\<rparr>))
              else let (bs, f) = ReadFile read_ok kIOBufSize (opened c) in
                rbind (store (io_buf c) 0 bs) (\<lambda>buf.
                Inr (TransmitData post_ok (c\<lparr>opened := f, io_buf := buf,
                  remaining_data_size := wsub (remaining_data_size c) (length bs), left_sent_size := length bs, sent_size := 0\<rparr>))))"

definition OnDisconnectComplete :: "conn \<Rightarrow> conn" where
  "OnDisconnectComplete c = c\<lparr>conn_socket := False, opened := None, request := [], sent_size := 0, left_sent_size := 0,
     remaining_data_size := 0, state := WaitConnect, posted := Nothing\<rparr>"

definition OnIOComplete :: "system \<Rightarrow> bool \<Rightarrow> bool \<Rightarrow> nat \<Rightarrow> conn \<Rightarrow> conn res" where
  "OnIOComplete sys post_ok read_ok bytes_transferred c = (case state c of
     WaitRequest \<Rightarrow> OnReadComplete sys post_ok read_ok bytes_transferred c
   | WaitResponse \<Rightarrow> OnWriteComplete post_ok read_ok bytes_transferred c
   | WaitReset \<Rightarrow> Inr (OnDisconnectComplete c)
   | WaitConnect \<Rightarrow> Inl Ensure_failed)"

text \<open>
  How the operation under way ends: bytes are received, at most what the buffer holds; bytes are sent, at most
  those offered; the connection is reset. Zero bytes stand for a failure. \<open>None\<close>: it cannot end this way; a client
  sends fewer than \<open>2 ^ 64\<close> bytes on one connection.
\<close>

datatype ending = Received string | Sent nat | Was_reset

definition conn_step :: "system \<Rightarrow> conn \<Rightarrow> bool \<times> bool \<times> ending \<Rightarrow> conn res option" where
  "conn_step sys c e = (case e of (post_ok, read_ok, how) \<Rightarrow> (case (posted c, how) of
     (Recv, Received bs) \<Rightarrow>
       if length bs \<le> kIOBufSize \<and> fits_size (length (received c) + length bs)
       then Some (rbind (store (io_buf c) 0 bs) (\<lambda>buf.
         OnIOComplete sys post_ok read_ok (length bs) (c\<lparr>io_buf := buf, received := received c @ bs, posted := Nothing\<rparr>)))
       else None
   | (Send off n, Sent k) \<Rightarrow>
       if k \<le> n
       then Some (rbind (load (io_buf c) off n) (\<lambda>bs.
         OnIOComplete sys post_ok read_ok k (c\<lparr>wire := wire c @ take k bs, posted := Nothing\<rparr>)))
       else None
   | (Reset, Was_reset) \<Rightarrow> Some (OnIOComplete sys post_ok read_ok 0 c)
   | _ \<Rightarrow> None))"

section \<open>What is to be sent\<close>

text \<open>
  The response to a request, written out: a file is announced with its date - which is a month late -, its length and its type, and
  follows. There is none if the address is missing or ends inside an escape, if a conversion throws, or if the file was changed in
  December.
\<close>

definition month_name :: "nat \<Rightarrow> string" where
  "month_name n =
     (if n = 1 then ''Jan'' else if n = 2 then ''Feb'' else if n = 3 then ''Mar'' else if n = 4 then ''Apr'' else if n = 5 then ''May''
      else if n = 6 then ''Jun'' else if n = 7 then ''Jul'' else if n = 8 then ''Aug'' else if n = 9 then ''Sep'' else if n = 10 then ''Oct''
      else if n = 11 then ''Nov'' else ''Dec'')"

definition day_name :: "nat \<Rightarrow> string" where
  "day_name n =
     (if n = 0 then ''Sun'' else if n = 1 then ''Mon'' else if n = 2 then ''Tue'' else if n = 3 then ''Wed'' else if n = 4 then ''Thu''
      else if n = 5 then ''Fri'' else ''Sat'')"

definition http_date :: "date \<Rightarrow> string" where
  "http_date d = day_name (day_of_week d) @ '', '' @ two_digits (day d) @ '' '' @ month_name (month d) @ '' '' @ decimal (year d) @ '' '' @
     two_digits (hour d) @ '':'' @ two_digits (minute d) @ '':'' @ two_digits (second d) @ '' GMT''"

definition content_type :: "string \<Rightarrow> string" where
  "content_type ext =
     (if ext = ''.html'' \<or> ext = ''.htm'' then ''text/html'' else if ext = ''.txt'' then ''text/plain'' else if ext = ''.wav'' then ''audio/wav''
      else if ext = ''.gif'' then ''image/gif'' else if ext = ''.jpg'' then ''image/jpeg'' else if ext = ''.png'' then ''image/png''
      else if ext = ''.bmp'' then ''image/bmp'' else ''application/octet-stream'')"

definition new_line :: string where
  "new_line = [CHR 0x0D, CHR 0x0A]"

definition expected_response :: "system \<Rightarrow> string \<Rightarrow> string res" where
  "expected_response sys req = rbind (wide_resource_id sys req) (\<lambda>name. case open_resource sys name of
     None \<Rightarrow> Inr (''HTTP/1.1 404 Not Found'' @ new_line @ ''Content-Length: 0'' @ new_line @ new_line)
   | Some (data, changed, wide_ext) \<Rightarrow>
       if month changed = 12 then Inl Out_of_bounds
       else rbind (converted (wide_to_ascii sys wide_ext)) (\<lambda>ext.
         Inr (''HTTP/1.1 200 OK'' @ new_line @ ''Date: '' @ http_date (changed\<lparr>month := month changed + 1\<rparr>) @ new_line @
           ''Server: KHTTPD/0.1.0 (Windows)'' @ new_line @ ''Content-Length: '' @ decimal (length data) @ new_line @
           ''Content-Type: '' @ content_type ext @ new_line @ new_line @ data)))"

definition answer :: "system \<Rightarrow> string \<Rightarrow> string" where
  "answer sys req = (case expected_response sys req of Inl f \<Rightarrow> [] | Inr t \<Rightarrow> t)"

text \<open>Where the pieces that arrive are cut into requests: behind the piece that completes a blank line.\<close>

definition blank_line :: string where
  "blank_line = new_line @ new_line"

fun cut_requests :: "string \<Rightarrow> string list \<Rightarrow> string list \<times> string" where
  "cut_requests acc [] = ([], acc)"
| "cut_requests acc (piece # pieces) =
     (if sublist blank_line (acc @ piece) then (case cut_requests [] pieces of (reqs, rest) \<Rightarrow> ((acc @ piece) # reqs, rest))
      else cut_requests (acc @ piece) pieces)"

fun piece_of :: "bool \<times> bool \<times> ending \<Rightarrow> string list" where
  "piece_of (p, r, Received bs) = (if bs = [] then [] else [bs])"
| "piece_of (p, r, Sent k) = []"
| "piece_of (p, r, Was_reset) = []"

definition arrived_pieces :: "(bool \<times> bool \<times> ending) list \<Rightarrow> string list" where
  "arrived_pieces es = concat (map piece_of es)"

definition answers :: "system \<Rightarrow> conn \<Rightarrow> string" where
  "answers sys c = concat (map (answer sys) (asked c))"

text \<open>The system fills in the fields of a date as its documentation says, and files have a size that fits 63 bits.\<close>

definition system_time_ok :: "date \<Rightarrow> bool" where
  "system_time_ok d \<longleftrightarrow> date_fields_ok d \<and> day_of_week d < 7 \<and> 1 \<le> month d \<and> month d \<le> 12"

definition system_ok :: "system \<Rightarrow> bool" where
  "system_ok sys \<longleftrightarrow> (\<forall>name data changed ext. open_resource sys name = Some (data, changed, ext) \<longrightarrow>
     length data < 2 ^ 63 \<and> system_time_ok changed)"

text \<open>What is left of a response: the rest of the buffer, and the rest of the file.\<close>

definition in_file :: "conn \<Rightarrow> string" where
  "in_file c = (case opened c of None \<Rightarrow> [] | Some f \<Rightarrow> drop (pos f) (content f))"

definition unsent :: "conn \<Rightarrow> string" where
  "unsent c = take (left_sent_size c) (drop (sent_size c) (io_buf c)) @ in_file c"

definition conn_ok :: "system \<Rightarrow> conn \<Rightarrow> bool" where
  "conn_ok sys c \<longleftrightarrow> length (io_buf c) = kIOBufSize \<and> list_all (sublist kTerminator) (asked c) \<and>
     (conn_socket c \<longleftrightarrow> state c \<noteq> WaitConnect) \<and> prefix (concat (asked c)) (received c) \<and> length (received c) < 2 ^ 64 \<and>
     prefix (wire c) (answers sys c) \<and>
     (case state c of
        WaitConnect \<Rightarrow> posted c = Nothing \<and> request c = []
      | WaitRequest \<Rightarrow> posted c = Recv \<and> wire c = answers sys c \<and> received c = concat (asked c) @ request c \<and>
          \<not> sublist kTerminator (request c)
      | WaitResponse \<Rightarrow> posted c = Send (sent_size c) (left_sent_size c) \<and> sent_size c + left_sent_size c \<le> kIOBufSize \<and>
          received c = concat (asked c) \<and> wire c @ unsent c = answers sys c \<and>
          length (in_file c) = remaining_data_size c \<and> remaining_data_size c < 2 ^ 64
      | WaitReset \<Rightarrow> posted c = Reset)"

section \<open>The invariant of a connection\<close>

lemma Disconnect_ok:
  assumes "length (io_buf c) = kIOBufSize" and "list_all (sublist kTerminator) (asked c)" and "conn_socket c"
    and "prefix (concat (asked c)) (received c)" and "length (received c) < 2 ^ 64" and "prefix (wire c) (answers sys c)"
  shows "conn_ok sys (Disconnect c)"
  using assms by (simp add: conn_ok_def Disconnect_def answers_def)

lemma ReadRequest_ok:
  assumes "length (io_buf c) = kIOBufSize" and "list_all (sublist kTerminator) (asked c)" and "conn_socket c"
    and "received c = concat (asked c) @ request c" and "length (received c) < 2 ^ 64" and "wire c = answers sys c"
    and "\<not> sublist kTerminator (request c)"
  shows "conn_ok sys (ReadRequest p c)"
  using assms by (cases p) (simp_all add: conn_ok_def ReadRequest_def Disconnect_def answers_def)

lemma TransmitData_ok:
  assumes "length (io_buf c) = kIOBufSize" and "list_all (sublist kTerminator) (asked c)" and "conn_socket c"
    and "received c = concat (asked c)" and "length (received c) < 2 ^ 64" and "wire c @ unsent c = answers sys c"
    and "state c = WaitResponse" and "sent_size c + left_sent_size c \<le> kIOBufSize"
    and "length (in_file c) = remaining_data_size c" and "remaining_data_size c < 2 ^ 64"
  shows "conn_ok sys (TransmitData p c)"
proof -
  have w: "prefix (wire c) (answers sys c)" using assms(6) by (metis prefixI)
  show ?thesis
  proof (cases p)
    case True
    then show ?thesis using assms w
      by (simp add: conn_ok_def TransmitData_def answers_def unsent_def in_file_def)
  next
    case False
    then show ?thesis using assms w
      by (simp add: conn_ok_def TransmitData_def Disconnect_def answers_def)
  qed
qed

lemma store_at_0: "length bs \<le> length m \<Longrightarrow> store m 0 bs = Inr (bs @ drop (length bs) m)"
  by (simp add: store_def)

lemma missing_ok:
  assumes "length (io_buf c) = kIOBufSize" and "list_all (sublist kTerminator) (asked c)" and "conn_socket c"
    and "received c = concat (asked c)" and "length (received c) < 2 ^ 64" and "wire c @ not_found = answers sys c"
    and "state c = WaitResponse"
  shows "\<exists>c'. WriteResponse_missing p c = Inr c' \<and> conn_ok sys c' \<and> asked c' = asked c \<and> state c' \<in> {WaitResponse, WaitReset}"
proof -
  have n: "length not_found = 45" by (simp add: not_found_def crlf_def)
  have st: "store (io_buf c) 0 (not_found @ [CHR 0x00]) = Inr ((not_found @ [CHR 0x00]) @ drop 46 (io_buf c))"
    using assms(1) n by (simp add: store_at_0 kIOBufSize_def)
  let ?c = "c\<lparr>opened := None, io_buf := (not_found @ [CHR 0x00]) @ drop 46 (io_buf c), remaining_data_size := 0,
       left_sent_size := length not_found, sent_size := 0\<rparr>"
  have "conn_ok sys (TransmitData p ?c)"
    by (rule TransmitData_ok) (use assms n in \<open>simp_all add: kIOBufSize_def unsent_def in_file_def answers_def\<close>)
  moreover have "asked (TransmitData p ?c) = asked c \<and> state (TransmitData p ?c) \<in> {WaitResponse, WaitReset}"
    using assms(7) by (simp add: TransmitData_def Disconnect_def)
  ultimately show ?thesis unfolding WriteResponse_missing_def st rbind_simps by blast
qed

lemma HttpDate_eq:
  assumes "system_time_ok d"
  shows "HttpDateFromFileTime d = (if month d = 12 then Inl Out_of_bounds else Inr (http_date (d\<lparr>month := month d + 1\<rparr>)))"
proof -
  have b: "day_of_week d < 7" "1 \<le> month d" "month d \<le> 12" using assms by (simp_all add: system_time_ok_def)
  have "day_of_week d = 0 \<or> day_of_week d = 1 \<or> day_of_week d = 2 \<or> day_of_week d = 3 \<or> day_of_week d = 4 \<or> day_of_week d = 5 \<or> day_of_week d = 6"
    "month d = 1 \<or> month d = 2 \<or> month d = 3 \<or> month d = 4 \<or> month d = 5 \<or> month d = 6 \<or> month d = 7 \<or> month d = 8 \<or> month d = 9 \<or>
     month d = 10 \<or> month d = 11 \<or> month d = 12"
    using b by presburger+
  then have "at kDays (day_of_week d) = Inr (day_name (day_of_week d))"
    "at kMonths (month d) = (if month d = 12 then Inl Out_of_bounds else Inr (month_name (month d + 1)))"
    by (elim disjE; simp add: at_def kDays_def kMonths_def day_name_def month_name_def)+
  then show ?thesis
    by (simp add: HttpDateFromFileTime_def format_date_def http_date_def)
qed

lemma content_type_eq: "MimeTypeFromExtension ext = content_type ext"
proof (cases "ext \<in> set (map fst mime_table)")
  case True
  have "list_all (\<lambda>ext. MimeTypeFromExtension ext = content_type ext) (map fst mime_table)" by code_simp
  then show ?thesis using True by (simp only: list_all_iff)
next
  case False
  then have "map_of mime_table ext = None" by (simp add: map_of_eq_None_iff)
  then have "MimeTypeFromExtension ext = ''application/octet-stream''" unfolding MimeTypeFromExtension_def by (simp add: mime_table_def)
  moreover have n: "ext \<noteq> k" if "k \<in> set (map fst mime_table)" for k using False that by blast
  have "ext \<noteq> ''.html''" "ext \<noteq> ''.htm''" "ext \<noteq> ''.txt''" "ext \<noteq> ''.wav''" "ext \<noteq> ''.gif''" "ext \<noteq> ''.jpg''" "ext \<noteq> ''.png''" "ext \<noteq> ''.bmp''"
    by (rule n, simp add: mime_table_def)+
  then have "content_type ext = ''application/octet-stream''" unfolding content_type_def by (simp only: if_False simp_thms)
  ultimately show ?thesis by (simp only:)
qed

lemma file_ok:
  assumes "length (io_buf c) = kIOBufSize" and "list_all (sublist kTerminator) (asked c)" and "conn_socket c"
    and "received c = concat (asked c)" and "length (received c) < 2 ^ 64" and "state c = WaitResponse"
    and "length data < 2 ^ 63" and "date_fields_ok changed"
    and "\<And>d e. HttpDateFromFileTime changed = Inr d \<Longrightarrow> converted (wide_to_ascii sys ext) = Inr e \<Longrightarrow>
        wire c @ ok_header ''Windows'' d (length data) e @ data = answers sys c"
  shows "case WriteResponse_file sys p r (data, changed, ext) c of
      Inl f \<Rightarrow> rbind (HttpDateFromFileTime changed) (\<lambda>d. converted (wide_to_ascii sys ext)) = Inl f
    | Inr c' \<Rightarrow> conn_ok sys c' \<and> asked c' = asked c \<and> state c' \<in> {WaitResponse, WaitReset} \<and>
        (\<exists>d e. HttpDateFromFileTime changed = Inr d \<and> converted (wide_to_ascii sys ext) = Inr e)"
proof (cases "rbind (HttpDateFromFileTime changed) (\<lambda>d. converted (wide_to_ascii sys ext))")
  case (Inl f)
  then show ?thesis by (cases "HttpDateFromFileTime changed") (simp_all add: WriteResponse_file_def)
next
  case (Inr e)
  then obtain d where Inr: "HttpDateFromFileTime changed = Inr d" and Inr': "converted (wide_to_ascii sys ext) = Inr e"
    by (auto simp: rbind_Inr_iff)
  let ?h = "ok_header ''Windows'' d (length data) e"
  have h: "length ?h < 256"
    using length_date [of "month changed" changed d] Inr assms(7,8) by (intro length_ok_header) (simp_all add: HttpDateFromFileTime_def)
  then have th: "take kIOBufSize ?h = ?h" by (simp add: kIOBufSize_def)
  let ?n = "kIOBufSize - length ?h"
  let ?buf = "?h @ drop (length ?h) (io_buf c)"
  have st: "store (io_buf c) 0 ?h = Inr ?buf" using h assms(1) by (simp add: store_at_0 kIOBufSize_def)
  define bs where "bs = (if r then take ?n data else [])"
  have le: "length bs \<le> length data" "length bs \<le> ?n" by (simp_all add: bs_def)
  have st2: "store ?buf (length ?h) bs = Inr (?h @ bs @ drop (length bs) (drop (length ?h) (io_buf c)))"
    using h assms(1) le by (simp add: store_def kIOBufSize_def)
  have rf: "ReadFile r ?n (Some \<lparr>content = data, pos = 0\<rparr>) = (bs, Some \<lparr>content = data, pos = length bs\<rparr>)"
    by (simp add: ReadFile_def bs_def)
  have ws: "wsub (length data) (length bs) = length data - length bs" using le assms(7) by (intro wsub_small) simp_all
  have wr: "wrap (length ?h + length bs) = length ?h + length bs" using h le by (intro wrap_small) (simp add: kIOBufSize_def)
  let ?c = "c\<lparr>opened := Some \<lparr>content = data, pos = length bs\<rparr>, io_buf := ?h @ bs @ drop (length bs) (drop (length ?h) (io_buf c)),
      remaining_data_size := length data - length bs, left_sent_size := length ?h + length bs, sent_size := 0\<rparr>"
  have "WriteResponse_file sys p r (data, changed, ext) c = Inr (TransmitData p ?c)"
    unfolding WriteResponse_file_def prod.case Inr Inr' rbind_simps Let_def th st rf st2 ws wr using h by (simp add: kIOBufSize_def)
  moreover have "conn_ok sys (TransmitData p ?c)"
  proof (rule TransmitData_ok)
    have "bs @ drop (length bs) data = data" by (simp add: bs_def min_def)
    then show "wire ?c @ unsent ?c = answers sys ?c"
      using assms(9) [OF Inr Inr'] by (simp add: unsent_def in_file_def answers_def)
  qed (use assms h le in \<open>simp_all add: in_file_def kIOBufSize_def\<close>)
  moreover have "asked (TransmitData p ?c) = asked c \<and> state (TransmitData p ?c) \<in> {WaitResponse, WaitReset}"
    using assms(6) by (simp add: TransmitData_def Disconnect_def)
  ultimately show ?thesis using Inr Inr' by simp
qed

lemma rbind_Inl_iff: "rbind m f = Inl e \<longleftrightarrow> m = Inl e \<or> (\<exists>x. m = Inr x \<and> f x = Inl e)"
  by (cases m) simp_all

text \<open>What the code makes of a request is the response to it.\<close>

lemma WriteResponse_ok:
  assumes "system_ok sys" and "length (io_buf c) = kIOBufSize" and "list_all (sublist kTerminator) (asked c)" and "conn_socket c"
    and "received c = concat (asked c) @ request c" and "length (received c) < 2 ^ 64" and "wire c = answers sys c"
    and "sublist kTerminator (request c)"
  shows "case WriteResponse sys p r c of
      Inl f \<Rightarrow> expected_response sys (request c) = Inl f
    | Inr c' \<Rightarrow> conn_ok sys c' \<and> asked c' = asked c @ [request c] \<and> state c' \<in> {WaitResponse, WaitReset} \<and>
        (\<exists>t. expected_response sys (request c) = Inr t)"
proof (cases "wide_resource_id sys (request c)")
  case (Inl f)
  then show ?thesis by (simp add: WriteResponse_def expected_response_def)
next
  case (Inr name)
  let ?c = "c\<lparr>state := WaitResponse, asked := asked c @ [request c]\<rparr>"
  show ?thesis
  proof (cases "open_resource sys name")
    case None
    have "\<exists>c'. WriteResponse_missing p ?c = Inr c' \<and> conn_ok sys c' \<and> asked c' = asked ?c \<and> state c' \<in> {WaitResponse, WaitReset}"
      by (rule missing_ok)
        (use assms Inr None in \<open>simp_all add: answers_def answer_def expected_response_def not_found_def crlf_def new_line_def\<close>)
    then show ?thesis using Inr None by (auto simp: WriteResponse_def expected_response_def)
  next
    case (Some x)
    obtain data changed ext where x: "x = (data, changed, ext)" by (cases x)
    have fine: "length data < 2 ^ 63" "system_time_ok changed" using assms(1) Some x by (auto simp: system_ok_def)
    have resp: "expected_response sys (request c) = rbind (HttpDateFromFileTime changed) (\<lambda>d. rbind (converted (wide_to_ascii sys ext)) (\<lambda>e.
        Inr (ok_header ''Windows'' d (length data) e @ data)))"
      using Inr Some x by (simp add: expected_response_def HttpDate_eq [OF fine(2)] ok_header_def content_type_eq crlf_def new_line_def)
    have "case WriteResponse_file sys p r (data, changed, ext) ?c of
        Inl f \<Rightarrow> rbind (HttpDateFromFileTime changed) (\<lambda>d. converted (wide_to_ascii sys ext)) = Inl f
      | Inr c' \<Rightarrow> conn_ok sys c' \<and> asked c' = asked ?c \<and> state c' \<in> {WaitResponse, WaitReset} \<and>
          (\<exists>d e. HttpDateFromFileTime changed = Inr d \<and> converted (wide_to_ascii sys ext) = Inr e)"
      by (rule file_ok) (use assms fine in \<open>simp_all add: answers_def answer_def resp system_time_ok_def\<close>)
    moreover have "WriteResponse sys p r c = WriteResponse_file sys p r (data, changed, ext) ?c"
      using Inr Some x by (simp add: WriteResponse_def Let_def)
    ultimately show ?thesis unfolding resp by (auto simp: rbind_Inl_iff split: sum.splits)
  qed
qed

text \<open>What a step does to the requests that were answered and to the one that arrives.\<close>

definition asks :: "system \<Rightarrow> conn \<Rightarrow> string list \<Rightarrow> conn \<Rightarrow> bool" where
  "asks sys c ps c' \<longleftrightarrow> (case ps of
     [] \<Rightarrow> asked c' = asked c \<and> (state c' = WaitRequest \<longrightarrow> request c' = []) \<and> (state c \<noteq> WaitRequest \<or> state c' \<in> {WaitReset, WaitConnect})
   | bs # _ \<Rightarrow> ps = [bs] \<and> state c = WaitRequest \<and>
       (if sublist kTerminator (request c @ bs)
        then asked c' = asked c @ [request c @ bs] \<and> state c' \<in> {WaitResponse, WaitReset} \<and> (\<exists>t. expected_response sys (request c @ bs) = Inr t)
        else asked c' = asked c \<and> state c' \<in> {WaitRequest, WaitReset} \<and> (state c' = WaitRequest \<longrightarrow> request c' = request c @ bs)))"

lemma OnReadComplete_ok:
  assumes "system_ok sys" and "conn_ok sys c" and "state c = WaitRequest" and "length bs \<le> kIOBufSize"
    and "length (received c) + length bs < 2 ^ 64" and "store (io_buf c) 0 bs = Inr buf"
  shows "case OnReadComplete sys p r (length bs) (c\<lparr>io_buf := buf, received := received c @ bs, posted := Nothing\<rparr>) of
      Inl f \<Rightarrow> expected_response sys (request c @ bs) = Inl f | Inr c' \<Rightarrow> conn_ok sys c' \<and> asks sys c (piece_of (p, r, Received bs)) c'"
proof -
  let ?c = "c\<lparr>io_buf := buf, received := received c @ bs, posted := Nothing\<rparr>"
  have c: "length (io_buf c) = kIOBufSize" "list_all (sublist kTerminator) (asked c)" "conn_socket c"
    "wire c = answers sys c" "received c = concat (asked c) @ request c" "\<not> sublist kTerminator (request c)"
    using assms(2,3) by (simp_all add: conn_ok_def)
  have buf: "buf = bs @ drop (length bs) (io_buf c)" using assms(4,6) c(1) by (simp add: store_at_0)
  have len: "length buf = kIOBufSize" using c(1) assms(4) by (simp add: buf)
  have tk: "take (length bs) buf = bs" by (simp add: buf)
  show ?thesis
  proof (cases "bs = []")
    case True
    then have "OnReadComplete sys p r (length bs) ?c = Inr (Disconnect ?c)" by (simp add: OnReadComplete_def)
    moreover have "conn_ok sys (Disconnect ?c)"
      by (rule Disconnect_ok) (use c len assms(5) True in \<open>simp_all add: answers_def\<close>)
    moreover have "asks sys c [] (Disconnect ?c)" by (simp add: asks_def Disconnect_def)
    ultimately show ?thesis using True by simp
  next
    case False
    let ?d = "?c\<lparr>request := request c @ bs\<rparr>"
    have done': "IsRequestComplete (request c @ bs) (length bs) \<longleftrightarrow> sublist kTerminator (request c @ bs)"
      using c(5,6) assms(5) by (intro request_complete_iff) simp_all
    have run: "OnReadComplete sys p r (length bs) ?c =
        (if sublist kTerminator (request c @ bs) then WriteResponse sys p r ?d else Inr (ReadRequest p ?d))"
      using False done' by (simp add: OnReadComplete_def Let_def tk)
    show ?thesis
    proof (cases "sublist kTerminator (request c @ bs)")
      case True
      have "case WriteResponse sys p r ?d of Inl f \<Rightarrow> expected_response sys (request ?d) = Inl f
        | Inr c' \<Rightarrow> conn_ok sys c' \<and> asked c' = asked ?d @ [request ?d] \<and> state c' \<in> {WaitResponse, WaitReset} \<and>
            (\<exists>t. expected_response sys (request ?d) = Inr t)"
        by (rule WriteResponse_ok) (use assms(1,5) c len True in \<open>simp_all add: answers_def\<close>)
      then show ?thesis unfolding run using True False assms(3) by (auto simp: asks_def split: sum.splits)
    next
      case no: False
      have "conn_ok sys (ReadRequest p ?d)"
        by (rule ReadRequest_ok) (use c len no assms(5) in \<open>simp_all add: answers_def\<close>)
      moreover have "asks sys c [bs] (ReadRequest p ?d)" using no assms(3) by (simp add: asks_def ReadRequest_def Disconnect_def Let_def)
      ultimately show ?thesis unfolding run using no False by simp
    qed
  qed
qed

lemma OnWriteComplete_ok:
  assumes "conn_ok sys c" and "state c = WaitResponse" and "k \<le> left_sent_size c" and "load (io_buf c) (sent_size c) (left_sent_size c) = Inr bs"
  shows "\<exists>c'. OnWriteComplete p r k (c\<lparr>wire := wire c @ take k bs, posted := Nothing\<rparr>) = Inr c' \<and> conn_ok sys c' \<and> asks sys c [] c'"
proof -
  let ?c = "c\<lparr>wire := wire c @ take k bs, posted := Nothing\<rparr>"
  have c: "length (io_buf c) = kIOBufSize" "list_all (sublist kTerminator) (asked c)" "conn_socket c"
    "wire c @ unsent c = answers sys c" "received c = concat (asked c)" "length (received c) < 2 ^ 64"
    "sent_size c + left_sent_size c \<le> kIOBufSize" "length (in_file c) = remaining_data_size c" "remaining_data_size c < 2 ^ 64"
    using assms(1,2) by (auto simp: conn_ok_def)
  have bs: "bs = take (left_sent_size c) (drop (sent_size c) (io_buf c))" using assms(4) by (simp add: load_def split: if_splits)
  have small: "sent_size c + k \<le> kIOBufSize" "left_sent_size c \<le> kIOBufSize" using c(7) assms(3) by simp_all
  have w: "wrap (sent_size c + k) = sent_size c + k" "wsub (left_sent_size c) k = left_sent_size c - k"
    using small assms(3) by (simp_all add: kIOBufSize_def wsub_small)
  have "bs = take k bs @ take (left_sent_size c - k) (drop (sent_size c + k) (io_buf c))"
  proof -
    have "take k bs = take k (drop (sent_size c) (io_buf c))" using assms(3) by (simp add: bs take_take min_absorb1)
    moreover have "bs = take k (drop (sent_size c) (io_buf c)) @ take (left_sent_size c - k) (drop (sent_size c + k) (io_buf c))"
      using take_add [of k "left_sent_size c - k" "drop (sent_size c) (io_buf c)"] assms(3) by (simp add: bs add.commute)
    ultimately show ?thesis by simp
  qed
  then have ans: "wire c @ take k bs @ take (left_sent_size c - k) (drop (sent_size c + k) (io_buf c)) @ in_file c = answers sys c"
    using c(4) by (metis append.assoc bs unsent_def)
  show ?thesis
  proof (cases "k = 0")
    case True
    have "conn_ok sys (Disconnect ?c)"
      by (rule Disconnect_ok) (use c ans True in \<open>simp_all add: answers_def\<close>, metis prefixI)
    moreover have "asks sys c [] (Disconnect ?c)" by (simp add: asks_def Disconnect_def)
    ultimately show ?thesis using True by (simp add: OnWriteComplete_def)
  next
    case k: False
    let ?d = "?c\<lparr>sent_size := sent_size c + k, left_sent_size := left_sent_size c - k\<rparr>"
    consider (more) "left_sent_size c - k \<noteq> 0" | (fin) "left_sent_size c - k = 0" "remaining_data_size c = 0"
      | (next') "left_sent_size c - k = 0" "remaining_data_size c \<noteq> 0" by blast
    then show ?thesis
    proof cases
      case more
      have "OnWriteComplete p r k ?c = Inr (TransmitData p ?d)" using k more by (simp add: OnWriteComplete_def Let_def w)
      moreover have "conn_ok sys (TransmitData p ?d)"
        by (rule TransmitData_ok) (use c ans assms(2,3) in \<open>simp_all add: unsent_def in_file_def answers_def\<close>)
      moreover have "asks sys c [] (TransmitData p ?d)" using assms(2) by (simp add: asks_def TransmitData_def Disconnect_def)
      ultimately show ?thesis by blast
    next
      case fin
      let ?e = "?d\<lparr>sent_size := 0, opened := None, request := []\<rparr>"
      have "OnWriteComplete p r k ?c = Inr (ReadRequest p ?e)" using k fin by (simp add: OnWriteComplete_def Let_def w)
      moreover have "in_file c = []" using c(8) fin by simp
      then have "conn_ok sys (ReadRequest p ?e)"
        by (intro ReadRequest_ok) (use c ans fin in \<open>simp_all add: answers_def kTerminator_def crlf_def\<close>)
      moreover have "asks sys c [] (ReadRequest p ?e)" using assms(2) by (simp add: asks_def ReadRequest_def Disconnect_def Let_def)
      ultimately show ?thesis by blast
    next
      case next'
      then obtain f where f: "opened c = Some f" using c(8) by (cases "opened c") (simp_all add: in_file_def)
      define more where "more = (if r then take kIOBufSize (drop (pos f) (content f)) else [])"
      have rf: "ReadFile r kIOBufSize (Some f) = (more, Some (f\<lparr>pos := pos f + length more\<rparr>))"
        by (simp add: ReadFile_def more_def Let_def)
      have inf: "in_file c = drop (pos f) (content f)" by (simp add: in_file_def f)
      have le: "length more \<le> kIOBufSize" "length more \<le> remaining_data_size c"
        using c(8) by (simp_all add: more_def inf)
      have split: "more @ drop (pos f + length more) (content f) = in_file c"
        by (simp add: more_def inf min_def) (metis add.commute append_take_drop_id drop_drop)
      have st: "store (io_buf c) 0 more = Inr (more @ drop (length more) (io_buf c))" using le c(1) by (simp add: store_at_0)
      have ws: "wsub (remaining_data_size c) (length more) = remaining_data_size c - length more"
        using le c(9) by (simp add: wsub_small)
      let ?e = "?d\<lparr>opened := Some (f\<lparr>pos := pos f + length more\<rparr>), io_buf := more @ drop (length more) (io_buf c),
        remaining_data_size := remaining_data_size c - length more, left_sent_size := length more, sent_size := 0\<rparr>"
      have "OnWriteComplete p r k ?c = Inr (TransmitData p ?e)"
        using k next' f by (simp add: OnWriteComplete_def Let_def w rf st ws)
      moreover have "conn_ok sys (TransmitData p ?e)"
      proof (rule TransmitData_ok)
        show "wire ?e @ unsent ?e = answers sys ?e"
          using ans next' split by (simp add: unsent_def in_file_def answers_def)
        have "length (more @ drop (pos f + length more) (content f)) = remaining_data_size c" unfolding split by (rule c(8))
        then show "length (in_file ?e) = remaining_data_size ?e" unfolding length_append by (simp add: in_file_def)
      qed (use c le assms(2) in \<open>simp_all\<close>)
      moreover have "asks sys c [] (TransmitData p ?e)" using assms(2) by (simp add: asks_def TransmitData_def Disconnect_def)
      ultimately show ?thesis by blast
    qed
  qed
qed

lemma conn_step_ok:
  assumes "system_ok sys" and "conn_ok sys c" and "conn_step sys c e = Some m"
  shows "case m of
      Inl f \<Rightarrow> (\<exists>p r bs. e = (p, r, Received bs) \<and> expected_response sys (request c @ bs) = Inl f)
    | Inr c' \<Rightarrow> conn_ok sys c' \<and> asks sys c (piece_of e) c'"
proof -
  obtain p r how where e: "e = (p, r, how)" by (cases e)
  consider (recv) bs where "posted c = Recv" "how = Received bs" "length bs \<le> kIOBufSize" "fits_size (length (received c) + length bs)"
    | (send) off n k where "posted c = Send off n" "how = Sent k" "k \<le> n"
    | (reset) "posted c = Reset" "how = Was_reset"
    using assms(3) unfolding conn_step_def e prod.case by (cases "posted c"; cases how) (simp_all split: if_splits)
  then show ?thesis
  proof cases
    case recv
    have st: "state c = WaitRequest" using assms(2) recv(1) by (cases "state c") (simp_all add: conn_ok_def)
    have b: "store (io_buf c) 0 bs = Inr (bs @ drop (length bs) (io_buf c))"
      using assms(2) recv(3) by (simp add: store_at_0 conn_ok_def)
    have "m = OnReadComplete sys p r (length bs) (c\<lparr>io_buf := bs @ drop (length bs) (io_buf c), received := received c @ bs, posted := Nothing\<rparr>)"
      using assms(3) recv st by (simp add: conn_step_def e b OnIOComplete_def)
    then show ?thesis using OnReadComplete_ok [OF assms(1,2) st recv(3) recv(4) [unfolded fits_size_def] b, of p r]
      unfolding e recv(2) by (auto split: sum.splits)
  next
    case send
    have st: "state c = WaitResponse" "off = sent_size c" "n = left_sent_size c" "off + n \<le> kIOBufSize"
      using assms(2) send(1) by (cases "state c"; simp add: conn_ok_def)+
    have l: "load (io_buf c) off n = Inr (take n (drop off (io_buf c)))"
      using assms(2) st(4) by (intro load_ok) (simp add: conn_ok_def)
    let ?d = "c\<lparr>wire := wire c @ take k (take n (drop off (io_buf c))), posted := Nothing\<rparr>"
    have "m = OnWriteComplete p r k ?d" using assms(3) send l st(1) by (simp add: conn_step_def e OnIOComplete_def)
    moreover obtain c' where "OnWriteComplete p r k ?d = Inr c'" "conn_ok sys c'" "asks sys c [] c'"
      using OnWriteComplete_ok [OF assms(2) st(1), of k "take n (drop off (io_buf c))" p r] send(3) l st(2,3) by auto
    ultimately show ?thesis by (simp add: e send(2))
  next
    case reset
    have st: "state c = WaitReset" using assms(2) reset(1) by (cases "state c") (simp_all add: conn_ok_def)
    then show ?thesis using assms(2,3) reset
      by (auto simp: conn_step_def e OnIOComplete_def OnDisconnectComplete_def conn_ok_def answers_def asks_def)
  qed
qed

lemma conn_run_ok:
  assumes "system_ok sys" and "conn_ok sys c" and "orun (conn_step sys) es c = Some (Inr c')"
  shows "conn_ok sys c'"
proof (rule orun_invariant [where P = "conn_ok sys", OF _ assms(2,3)])
  fix s e s' assume "conn_ok sys s" and "conn_step sys s e = Some (Inr s')"
  then show "conn_ok sys s'" using conn_step_ok [OF assms(1), of s e "Inr s'"] by simp
qed

section \<open>Requests\<close>

lemma terminator_blank_line: "kTerminator = blank_line"
  by (simp add: kTerminator_def blank_line_def crlf_def new_line_def)

lemma cut_snoc:
  "cut_requests acc ps = (reqs, rest) \<Longrightarrow>
   cut_requests acc (ps @ [p]) = (if sublist blank_line (rest @ p) then (reqs @ [rest @ p], []) else (reqs, rest @ p))"
  by (induction acc ps arbitrary: reqs rest rule: cut_requests.induct) (auto split: prod.splits if_splits)

text \<open>A connection has answered the requests cut from the pieces so far, and has the rest if it waits for more.\<close>

definition asked_for :: "system \<Rightarrow> string list \<Rightarrow> conn \<Rightarrow> bool" where
  "asked_for sys ps c \<longleftrightarrow> (\<exists>rest. cut_requests [] ps = (asked c, rest) \<and> (state c = WaitRequest \<longrightarrow> request c = rest) \<and>
     (state c = WaitResponse \<longrightarrow> rest = []) \<and> (\<forall>req \<in> set (asked c). \<exists>t. expected_response sys req = Inr t))"

lemma asked_for_step:
  assumes "asked_for sys ps c" and "asks sys c (piece_of e) c'" and "conn_ok sys c" and "conn_step sys c e = Some (Inr c')"
  shows "asked_for sys (ps @ piece_of e) c'"
proof -
  obtain rest where cut: "cut_requests [] ps = (asked c, rest)" "state c = WaitRequest \<longrightarrow> request c = rest"
    "state c = WaitResponse \<longrightarrow> rest = []" "\<forall>req \<in> set (asked c). \<exists>t. expected_response sys req = Inr t"
    using assms(1) by (auto simp: asked_for_def)
  show ?thesis
  proof (cases "piece_of e")
    case Nil
    have "state c = WaitRequest \<or> state c = WaitResponse \<or> state c' \<in> {WaitReset, WaitConnect}"
      using assms(3,4) by (cases "state c") (auto simp: conn_ok_def conn_step_def OnIOComplete_def OnDisconnectComplete_def split: prod.splits ending.splits)
    then show ?thesis using assms(2) cut Nil by (auto simp: asks_def asked_for_def)
  next
    case (Cons bs bss)
    then have one: "piece_of e = [bs]" "state c = WaitRequest" using assms(2) by (simp_all add: asks_def)
    show ?thesis using assms(2) cut one cut_snoc [OF cut(1), of bs]
      by (auto simp: asks_def asked_for_def terminator_blank_line split: if_splits)
  qed
qed

lemma conn_run_asked:
  "system_ok sys \<Longrightarrow> conn_ok sys c \<Longrightarrow> asked_for sys ps c \<Longrightarrow> orun (conn_step sys) es c = Some (Inr c') \<Longrightarrow>
   asked_for sys (ps @ arrived_pieces es) c'"
proof (induction es arbitrary: ps c)
  case (Cons e es)
  obtain d where d: "conn_step sys c e = Some (Inr d)" "orun (conn_step sys) es d = Some (Inr c')"
    using Cons.prems(4) by (auto split: option.splits sum.splits if_splits)
  have "conn_ok sys d" "asks sys c (piece_of e) d" using conn_step_ok [OF Cons.prems(1,2) d(1)] by simp_all
  then show ?case using Cons.IH [OF Cons.prems(1) _ asked_for_step [OF Cons.prems(3) _ Cons.prems(2) d(1)] d(2)]
    by (simp add: arrived_pieces_def)
qed (simp add: arrived_pieces_def)

lemma connect_ok:
  assumes "conn_ok sys c" and "state c = WaitConnect"
  shows "\<exists>c'. Conncect p c = Inr c' \<and> conn_ok sys c' \<and> state c' \<noteq> WaitConnect"
proof -
  have "\<not> conn_socket c" using assms by (simp add: conn_ok_def)
  moreover have "conn_ok sys (ReadRequest p (c\<lparr>conn_socket := True, received := [], wire := [], asked := []\<rparr>))"
    by (rule ReadRequest_ok) (use assms in \<open>simp_all add: conn_ok_def answers_def kTerminator_def crlf_def\<close>)
  moreover have "state (ReadRequest p d) \<noteq> WaitConnect" for d by (simp add: ReadRequest_def Disconnect_def Let_def)
  ultimately show ?thesis by (simp add: Conncect_def)
qed

lemma TcpConnection_ok: "length junk = kIOBufSize \<Longrightarrow> conn_ok sys (TcpConnection junk)"
  by (simp add: conn_ok_def TcpConnection_def answers_def)

section \<open>The manager\<close>

text \<open>
  Connections are numbered as they are made; \<open>junk\<close> is what the buffer of a new one holds. A vector's back is the
  end of the list.
\<close>

record manager =
  conns :: "nat \<Rightarrow> conn"
  made :: nat
  free :: "nat list"
  in_use :: "nat list"
  accept_conn :: bool

definition ListenForClient :: "manager \<Rightarrow> manager res" where
  "ListenForClient m = rbind (guard (\<not> accept_conn m) Ensure_failed) (\<lambda>_. Inr (m\<lparr>accept_conn := True\<rparr>))"

definition TcpConnectionManager :: "manager" where
  "TcpConnectionManager = \<lparr>conns = (\<lambda>_. TcpConnection []), made = 0, free = [], in_use = [], accept_conn = False\<rparr>"

definition take_conn :: "string \<Rightarrow> manager \<Rightarrow> nat \<times> manager" where
  "take_conn junk m =
     (if free m = [] then (made m, m\<lparr>conns := (conns m)(made m := TcpConnection junk), made := made m + 1, in_use := in_use m @ [made m]\<rparr>)
      else (last (free m), m\<lparr>free := butlast (free m), in_use := in_use m @ [last (free m)]\<rparr>))"

definition AcceptNewClient :: "string \<Rightarrow> bool \<Rightarrow> manager \<Rightarrow> manager res" where
  "AcceptNewClient junk post_ok m = (case take_conn junk m of (i, m) \<Rightarrow>
     rbind (Conncect post_ok (conns m i)) (\<lambda>c. Inr (m\<lparr>conns := (conns m)(i := c), accept_conn := False\<rparr>)))"

definition Reclaim :: "nat \<Rightarrow> manager \<Rightarrow> manager res" where
  "Reclaim i m = (let it = length (takeWhile (\<lambda>j. j \<noteq> i) (in_use m)) in
     rbind (guard (it < length (in_use m)) Out_of_bounds) (\<lambda>_.
     Inr (m\<lparr>free := free m @ [in_use m ! it], in_use := take it (in_use m) @ drop (it + 1) (in_use m)\<rparr>)))"

text \<open>
  What the workers are told: a client was accepted, or an operation of connection \<open>i\<close> ended. A connection that has
  been reset is reclaimed.
\<close>

datatype told = Accepted string bool | Ended nat "bool \<times> bool \<times> ending"

definition worker_step :: "system \<Rightarrow> manager \<Rightarrow> told \<Rightarrow> manager res option" where
  "worker_step sys m e = (case e of
     Accepted junk post_ok \<Rightarrow>
       if accept_conn m \<and> length junk = kIOBufSize then Some (rbind (AcceptNewClient junk post_ok m) ListenForClient) else None
   | Ended i how \<Rightarrow> (if i < made m then (case conn_step sys (conns m i) how of
       None \<Rightarrow> None
     | Some r \<Rightarrow> Some (rbind r (\<lambda>c. let m = m\<lparr>conns := (conns m)(i := c)\<rparr>
         in if state c = WaitConnect then Reclaim i m else Inr m))) else None))"

definition manager_ok :: "system \<Rightarrow> manager \<Rightarrow> bool" where
  "manager_ok sys m \<longleftrightarrow> distinct (free m @ in_use m) \<and> set (free m @ in_use m) = {..<made m} \<and> accept_conn m \<and>
     (\<forall>i < made m. conn_ok sys (conns m i) \<and> (i \<in> set (free m) \<longleftrightarrow> state (conns m i) = WaitConnect))"

lemma start_ok: "ListenForClient TcpConnectionManager = Inr m \<Longrightarrow> manager_ok sys m"
  by (auto simp: ListenForClient_def TcpConnectionManager_def manager_ok_def)

lemma take_conn_ok:
  assumes "manager_ok sys m" and "length junk = kIOBufSize" and "take_conn junk m = (i, m')"
  shows "distinct (free m' @ in_use m')" and "set (free m' @ in_use m') = {..<made m'}" and "accept_conn m'"
    and "i < made m'" and "i \<notin> set (free m')" and "conn_ok sys (conns m' i)" and "state (conns m' i) = WaitConnect"
    and "\<forall>j < made m'. j \<noteq> i \<longrightarrow> conn_ok sys (conns m' j) \<and> (j \<in> set (free m') \<longleftrightarrow> state (conns m' j) = WaitConnect)"
proof -
  have m: "distinct (free m @ in_use m)" "set (free m @ in_use m) = {..<made m}" "accept_conn m"
    "\<forall>j < made m. conn_ok sys (conns m j) \<and> (j \<in> set (free m) \<longleftrightarrow> state (conns m j) = WaitConnect)"
    using assms(1) by (simp_all add: manager_ok_def)
  have "distinct (free m' @ in_use m') \<and> set (free m' @ in_use m') = {..<made m'} \<and> accept_conn m' \<and> i < made m' \<and>
    i \<notin> set (free m') \<and> conn_ok sys (conns m' i) \<and> state (conns m' i) = WaitConnect \<and>
    (\<forall>j < made m'. j \<noteq> i \<longrightarrow> conn_ok sys (conns m' j) \<and> (j \<in> set (free m') \<longleftrightarrow> state (conns m' j) = WaitConnect))"
  proof (cases "free m = []")
    case True
    have "made m \<notin> set (in_use m)" using m(2) by (metis Un_iff lessThan_iff order_less_irrefl set_append)
    moreover have "state (TcpConnection junk) = WaitConnect" by (simp add: TcpConnection_def)
    ultimately show ?thesis using assms(2,3) True m TcpConnection_ok [OF assms(2)]
      by (auto simp: take_conn_def less_Suc_eq)
  next
    case False
    then have fs: "free m = butlast (free m) @ [i]" using assms(3) append_butlast_last_id [of "free m"] by (simp add: take_conn_def)
    define ns where "ns = butlast (free m)"
    have fs': "free m = ns @ [i]" using fs by (simp add: ns_def)
    have "m' = m\<lparr>free := ns, in_use := in_use m @ [i]\<rparr>" using assms(3) False by (auto simp: take_conn_def ns_def)
    moreover have "i < made m" using m(2) by (auto simp: fs')
    ultimately show ?thesis using m by (simp add: fs') (auto simp: fs')
  qed
  then show "distinct (free m' @ in_use m')" and "set (free m' @ in_use m') = {..<made m'}" and "accept_conn m'"
    and "i < made m'" and "i \<notin> set (free m')" and "conn_ok sys (conns m' i)" and "state (conns m' i) = WaitConnect"
    and "\<forall>j < made m'. j \<noteq> i \<longrightarrow> conn_ok sys (conns m' j) \<and> (j \<in> set (free m') \<longleftrightarrow> state (conns m' j) = WaitConnect)"
    by simp_all
qed

lemma accept_ok:
  assumes "manager_ok sys m" and "length junk = kIOBufSize"
  shows "\<exists>m'. rbind (AcceptNewClient junk p m) ListenForClient = Inr m' \<and> manager_ok sys m'"
proof -
  obtain i n where t: "take_conn junk m = (i, n)" by (cases "take_conn junk m")
  note n = take_conn_ok [OF assms t]
  obtain c where c: "Conncect p (conns n i) = Inr c" "conn_ok sys c" "state c \<noteq> WaitConnect" using connect_ok [OF n(6,7)] by blast
  let ?m = "n\<lparr>conns := (conns n)(i := c), accept_conn := True\<rparr>"
  have "rbind (AcceptNewClient junk p m) ListenForClient = Inr ?m" by (simp add: AcceptNewClient_def t c ListenForClient_def)
  moreover have "manager_ok sys ?m" using n c by (simp add: manager_ok_def)
  ultimately show ?thesis by blast
qed

lemma take_drop_found:
  assumes "distinct xs" and "i \<in> set xs" and "it = length (takeWhile (\<lambda>j. j \<noteq> i) xs)"
  shows "it < length xs" and "xs ! it = i" and "take it xs @ drop (it + 1) xs = remove1 i xs"
proof -
  obtain ys zs where x: "xs = ys @ i # zs" "i \<notin> set ys" using assms(2) by (metis split_list_first)
  have "takeWhile (\<lambda>j. j \<noteq> i) xs = ys" unfolding x(1) by (subst takeWhile_append2) (use x(2) in auto)
  then have "it = length ys" using assms(3) by simp
  then show "it < length xs" "xs ! it = i" "take it xs @ drop (it + 1) xs = remove1 i xs"
    using x by (simp_all add: remove1_append)
qed

lemma ended_ok:
  assumes "system_ok sys" and "manager_ok sys m" and "worker_step sys m (Ended i how) = Some r"
  shows "case r of
      Inl f \<Rightarrow> (\<exists>p rd bs. how = (p, rd, Received bs) \<and> expected_response sys (request (conns m i) @ bs) = Inl f)
    | Inr m' \<Rightarrow> manager_ok sys m'"
proof -
  have m: "distinct (free m @ in_use m)" "set (free m @ in_use m) = {..<made m}" "accept_conn m"
    "\<forall>j < made m. conn_ok sys (conns m j) \<and> (j \<in> set (free m) \<longleftrightarrow> state (conns m j) = WaitConnect)"
    using assms(2) by (simp_all add: manager_ok_def)
  obtain x where i: "i < made m" and x: "conn_step sys (conns m i) how = Some x"
    using assms(3) by (auto simp: worker_step_def split: if_splits option.splits)
  have ok: "case x of
      Inl f \<Rightarrow> (\<exists>p rd bs. how = (p, rd, Received bs) \<and> expected_response sys (request (conns m i) @ bs) = Inl f)
    | Inr c' \<Rightarrow> conn_ok sys c'"
    using conn_step_ok [OF assms(1) _ x] m(4) i by (auto split: sum.splits)
  have r: "r = rbind x (\<lambda>c. let m = m\<lparr>conns := (conns m)(i := c)\<rparr> in if state c = WaitConnect then Reclaim i m else Inr m)"
    using assms(3) i x by (simp add: worker_step_def)
  show ?thesis
  proof (cases x)
    case (Inl f)
    then show ?thesis using ok r by simp
  next
    case (Inr c)
    have "posted (conns m i) \<noteq> Nothing" using x by (auto simp: conn_step_def split: prod.splits)
    then have st: "state (conns m i) \<noteq> WaitConnect" using m(4) i by (auto simp: conn_ok_def)
    then have free: "i \<notin> set (free m)" and "i \<in> set (in_use m)" using m(2,4) i by auto
    have c: "conn_ok sys c" using ok Inr by simp
    show ?thesis
    proof (cases "state c = WaitConnect")
      case True
      note f = take_drop_found [OF _ \<open>i \<in> set (in_use m)\<close> refl]
      have "r = Inr (m\<lparr>conns := (conns m)(i := c), free := free m @ [i], in_use := remove1 i (in_use m)\<rparr>)"
        using r Inr True f m(1) by (simp add: Reclaim_def Let_def)
      moreover have "manager_ok sys (m\<lparr>conns := (conns m)(i := c), free := free m @ [i], in_use := remove1 i (in_use m)\<rparr>)"
        using m c True free i by (auto simp: manager_ok_def)
      ultimately show ?thesis by simp
    next
      case False
      have "r = Inr (m\<lparr>conns := (conns m)(i := c)\<rparr>)" using r Inr False by simp
      moreover have "manager_ok sys (m\<lparr>conns := (conns m)(i := c)\<rparr>)" using m c False free st by (simp add: manager_ok_def)
      ultimately show ?thesis by simp
    qed
  qed
qed

lemma worker_step_ok:
  assumes "system_ok sys" and "manager_ok sys m" and "worker_step sys m e = Some r"
  shows "case r of
      Inl f \<Rightarrow> (\<exists>i p rd bs. e = Ended i (p, rd, Received bs) \<and> expected_response sys (request (conns m i) @ bs) = Inl f)
    | Inr m' \<Rightarrow> manager_ok sys m'"
proof (cases e)
  case (Accepted junk p)
  then show ?thesis using assms(3) accept_ok [OF assms(2), of junk p] by (auto simp: worker_step_def split: if_splits)
next
  case (Ended i how)
  then show ?thesis using ended_ok [OF assms(1,2), of i how r] assms(3) by (auto split: sum.splits)
qed

section \<open>Properties\<close>

text \<open>
  Property C7. Clients are sent exactly the responses to their requests: however the operations of a connection end
  and whatever pieces the bytes arrive in, what was sent is the beginning of the responses to the
  requests, one after the other; all of it when the connection waits for a request. A request is what arrived since the one before, up to the
  end of the piece that completes a blank line; so two requests that share a piece count as one. The response is, for a missing resource, the one with
  status 404, and otherwise the header with the date (a month late), the length and the type of the file, and the file. Files do not change while they
  are open, and a client sends fewer than \<open>2 ^ 64\<close> bytes.
\<close>

theorem http_clients_get_their_answers:
  assumes "system_ok sys" and "length junk = kIOBufSize" and "Conncect p (TcpConnection junk) = Inr c"
    and "orun (conn_step sys) es c = Some (Inr c')"
  shows "\<exists>reqs rest ts. cut_requests [] (arrived_pieces es) = (reqs, rest) \<and> map (expected_response sys) reqs = map Inr ts \<and>
    prefix (wire c') (concat ts) \<and> (state c' = WaitRequest \<longrightarrow> wire c' = concat ts \<and> request c' = rest)"
proof -
  have ok: "conn_ok sys c" using connect_ok [OF TcpConnection_ok [OF assms(2)], where sys = sys and p = p] assms(3) by (simp add: TcpConnection_def)
  have "asked c = [] \<and> (state c = WaitRequest \<longrightarrow> request c = []) \<and> state c \<noteq> WaitResponse"
    using assms(3) by (cases p) (auto simp: Conncect_def TcpConnection_def ReadRequest_def Disconnect_def Let_def)
  then have "asked_for sys [] c" by (simp add: asked_for_def)
  then have "asked_for sys (arrived_pieces es) c'" using conn_run_asked [OF assms(1) ok _ assms(4), of "[]"] by simp
  then obtain rest where cut: "cut_requests [] (arrived_pieces es) = (asked c', rest)" "state c' = WaitRequest \<longrightarrow> request c' = rest"
    "\<forall>req \<in> set (asked c'). \<exists>t. expected_response sys req = Inr t" by (auto simp: asked_for_def)
  define ts where "ts = map (answer sys) (asked c')"
  have "map (expected_response sys) (asked c') = map Inr ts" using cut(3) by (auto simp: ts_def answer_def)
  moreover have "concat ts = answers sys c'" by (simp add: ts_def answers_def)
  moreover have "conn_ok sys c'" by (rule conn_run_ok [OF assms(1) ok assms(4)])
  ultimately show ?thesis using cut by (auto simp: conn_ok_def)
qed

text \<open>A library and a file system with one file.\<close>

fun split_at :: "string \<Rightarrow> string \<Rightarrow> string \<Rightarrow> string list" where
  "split_at delims acc [] = (if acc = [] then [] else [acc])"
| "split_at delims acc (c # cs) =
     (if c \<in> set delims then (if acc = [] then split_at delims [] cs else acc # split_at delims [] cs)
      else split_at delims (acc @ [c]) cs)"

definition sample_date :: date where
  "sample_date = \<lparr>day_of_week = 2, day = 5, month = 3, year = 2019, hour = 8, minute = 30, second = 0\<rparr>"

definition sample_system :: system where
  "sample_system = \<lparr>lib = \<lparr>tokenize = (\<lambda>s d. split_at d [] s), trim_leading = (\<lambda>s cs. dropWhile (\<lambda>c. c \<in> set cs) s)\<rparr>,
     utf8_to_wide = (\<lambda>s. Some (map of_char s)), trim_leading_wide = (\<lambda>s cs. dropWhile (\<lambda>c. c \<in> set cs) s),
     wide_to_ascii = (\<lambda>s. Some (map (\<lambda>c. char_of (unat c)) s)),
     open_resource = (\<lambda>name. if name = map of_char ''a.txt'' then Some (''hello'', sample_date, map of_char ''.txt'') else None)\<rparr>"

definition sample_get :: "string" where
  "sample_get = ''GET /b'' @ kTerminator"

definition sample_ends :: "(bool \<times> bool \<times> ending) list" where
  "sample_ends = [(True, True, Received (take 8 sample_get)), (True, True, Received (drop 8 sample_get)),
     (True, True, Sent 40), (True, True, Sent 5)]"

lemma sample_system_ok: "system_ok sample_system"
  by (simp add: system_ok_def sample_system_def sample_date_def system_time_ok_def date_fields_ok_def)

definition sample_conn :: conn where
  "sample_conn = ReadRequest True ((TcpConnection (replicate kIOBufSize CHR ''x''))\<lparr>conn_socket := True\<rparr>)"

lemma sample_conn: "Conncect True (TcpConnection (replicate kIOBufSize CHR ''x'')) = Inr sample_conn"
  by (simp add: Conncect_def sample_conn_def TcpConnection_def)

lemma sample_conn_run:
  "yields (orun (conn_step sample_system) sample_ends sample_conn) (\<lambda>c. state c = WaitRequest \<and> wire c = not_found)"
  by code_simp

theorem http_clients_get_their_answers_witness:
  "\<exists>c. orun (conn_step sample_system) sample_ends sample_conn = Some (Inr c) \<and> wire c = not_found \<and>
     (\<exists>ts. cut_requests [] (arrived_pieces sample_ends) = ([sample_get], []) \<and> expected_response sample_system sample_get = Inr ts \<and> wire c = ts)"
proof -
  obtain c where c: "orun (conn_step sample_system) sample_ends sample_conn = Some (Inr c)" "state c = WaitRequest \<and> wire c = not_found"
    using yieldsD [OF sample_conn_run] by blast
  have j: "length (replicate kIOBufSize CHR ''x'') = kIOBufSize" by simp
  have "cut_requests [] (arrived_pieces sample_ends) = ([sample_get], [])" by code_simp
  then show ?thesis using http_clients_get_their_answers [OF sample_system_ok j sample_conn c(1)] c by auto
qed

text \<open>
  Fact. A response ends: from a state that a connection can reach, no more operations can send something before
  the response is complete than it has bytes left.
\<close>

lemma sent_grows:
  assumes "conn_ok sys c" and "conn_step sys c (p, r, Sent k) = Some (Inr c')"
  shows "length (wire c') = length (wire c) + k \<and> asked c' = asked c"
proof -
  obtain off n where n: "posted c = Send off n" "k \<le> n" using assms(2) by (cases "posted c") (auto simp: conn_step_def split: if_splits)
  have st: "state c = WaitResponse" using assms(1) n(1) by (cases "state c") (simp_all add: conn_ok_def)
  then have "off = sent_size c" "n = left_sent_size c" "off + n \<le> length (io_buf c)" using assms(1) n(1) by (simp_all add: conn_ok_def)
  then have b: "load (io_buf c) off n = Inr (take n (drop off (io_buf c)))" and l: "length (take n (drop off (io_buf c))) = n"
    by (simp_all add: load_ok)
  define bs where "bs = take n (drop off (io_buf c))"
  have "OnWriteComplete p r k (c\<lparr>wire := wire c @ take k bs, posted := Nothing\<rparr>) = Inr c'"
    using assms(2) n st b by (simp add: conn_step_def OnIOComplete_def bs_def)
  then have "wire c' = wire c @ take k bs \<and> asked c' = asked c"
    by (auto simp: OnWriteComplete_def Let_def Disconnect_def TransmitData_def ReadRequest_def rbind_Inr_iff
        split: if_splits prod.splits)
  then show ?thesis using l n(2) by (simp add: bs_def)
qed

theorem http_response_ends:
  assumes "system_ok sys" and "length junk = kIOBufSize" and "Conncect p (TcpConnection junk) = Inr c0"
    and "orun (conn_step sys) es c0 = Some (Inr c)" and "orun (conn_step sys) sends c = Some (Inr c')"
    and "list_all (\<lambda>e. case e of (p, r, Sent k) \<Rightarrow> k > 0 | _ \<Rightarrow> False) sends"
  shows "length sends \<le> length (answers sys c) - length (wire c)"
proof -
  have "conn_ok sys c0" using connect_ok [OF TcpConnection_ok [OF assms(2)], where sys = sys and p = p] assms(3) by (simp add: TcpConnection_def)
  then have "conn_ok sys c" by (rule conn_run_ok [OF assms(1) _ assms(4)])
  then have "length (wire c) + length sends \<le> length (answers sys c)" using assms(5,6)
  proof (induction sends arbitrary: c)
    case Nil
    then show ?case by (auto simp: conn_ok_def dest: prefix_length_le)
  next
    case (Cons e es)
    then obtain p r k where e: "e = (p, r, Sent k)" "k > 0" by (auto split: prod.splits ending.splits)
    obtain d where d: "conn_step sys c e = Some (Inr d)" "orun (conn_step sys) es d = Some (Inr c')"
      using Cons.prems(2) by (auto split: option.splits sum.splits if_splits)
    have "conn_ok sys d" using conn_step_ok [OF assms(1) Cons.prems(1) d(1)] by simp
    then have "length (wire d) + length es \<le> length (answers sys d)" using Cons.IH d(2) Cons.prems(3) by simp
    then show ?case using sent_grows [OF Cons.prems(1)] d(1) e by (simp add: answers_def)
  qed
  then show ?thesis by simp
qed

lemma sample_requested:
  "yields (orun (conn_step sample_system) (take 2 sample_ends) sample_conn) (\<lambda>c. length (answers sample_system c) = 45 \<and> length (wire c) = 0 \<and>
     yields (orun (conn_step sample_system) (drop 2 sample_ends) c) (\<lambda>c'. True))"
  by code_simp

theorem http_response_ends_witness:
  "\<exists>c. orun (conn_step sample_system) (take 2 sample_ends) sample_conn = Some (Inr c) \<and> length (drop 2 sample_ends) \<le> length (answers sample_system c)"
proof -
  obtain c where c: "orun (conn_step sample_system) (take 2 sample_ends) sample_conn = Some (Inr c)"
    "yields (orun (conn_step sample_system) (drop 2 sample_ends) c) (\<lambda>c'. True)" using yieldsD [OF sample_requested] by blast
  obtain c' where c': "orun (conn_step sample_system) (drop 2 sample_ends) c = Some (Inr c')" using yieldsD [OF c(2)] by blast
  have j: "length (replicate kIOBufSize CHR ''x'') = kIOBufSize" by simp
  have k: "list_all (\<lambda>e. case e of (p, r, Sent k) \<Rightarrow> k > 0 | _ \<Rightarrow> False) (drop 2 sample_ends)" by (simp add: sample_ends_def)
  show ?thesis using http_response_ends [OF sample_system_ok j sample_conn c(1) c' k] c(1) by (meson diff_le_self le_trans)
qed

text \<open>
  Property C17. Recycled connections are well-formed: whatever clients are accepted and however operations end, each
  connection is either free or in use and only those in use have a socket; no check of the code fails and
  a connection that is to be reclaimed is found: the only fault is at the end of a request that has no response, because its address is missing or ends
  inside an escape, a conversion of text throws, or the file was changed in December.
\<close>

theorem http_pool_well_formed:
  assumes "system_ok sys" and "ListenForClient TcpConnectionManager = Inr m0" and "orun (worker_step sys) es m0 = Some (Inr m)"
    and "worker_step sys m e = Some r"
  shows "distinct (free m @ in_use m) \<and> set (free m @ in_use m) = {..<made m} \<and>
    (\<forall>i < made m. i \<in> set (in_use m) \<longleftrightarrow> conn_socket (conns m i)) \<and>
    (\<forall>f. r = Inl f \<longrightarrow> (\<exists>i p rd bs. e = Ended i (p, rd, Received bs) \<and> expected_response sys (request (conns m i) @ bs) = Inl f))"
proof -
  have ok: "manager_ok sys m"
  proof (rule orun_invariant [where P = "manager_ok sys", OF _ start_ok [OF assms(2)] assms(3)])
    fix s e s' assume "manager_ok sys s" and "worker_step sys s e = Some (Inr s')"
    then show "manager_ok sys s'" using worker_step_ok [OF assms(1), of s e "Inr s'"] by simp
  qed
  have "i \<in> set (in_use m) \<longleftrightarrow> conn_socket (conns m i)" if "i < made m" for i
    using ok that by (fastforce simp: manager_ok_def conn_ok_def)
  moreover have "\<exists>i p rd bs. e = Ended i (p, rd, Received bs) \<and> expected_response sys (request (conns m i) @ bs) = Inl f" if "r = Inl f" for f
    using worker_step_ok [OF assms(1) ok assms(4)] that by simp
  ultimately show ?thesis using ok by (simp add: manager_ok_def)
qed

definition sample_told :: "told list" where
  "sample_told = [Accepted (replicate kIOBufSize CHR ''x'') True, Ended 0 (True, True, Received []), Ended 0 (True, True, Was_reset),
     Accepted (replicate kIOBufSize CHR ''y'') True]"

definition sample_manager :: manager where
  "sample_manager = TcpConnectionManager\<lparr>accept_conn := True\<rparr>"

lemma sample_manager: "ListenForClient TcpConnectionManager = Inr sample_manager"
  by (simp add: ListenForClient_def sample_manager_def TcpConnectionManager_def)

lemma sample_told:
  "yields (orun (worker_step sample_system) sample_told sample_manager) (\<lambda>m. free m = [] \<and> in_use m = [0] \<and> made m = 1 \<and>
     worker_step sample_system m (Ended 0 (True, True, Received [])) \<noteq> None)"
  by code_simp

theorem http_pool_well_formed_witness:
  "\<exists>m. orun (worker_step sample_system) sample_told sample_manager = Some (Inr m) \<and> in_use m = [0] \<and> conn_socket (conns m 0)"
proof -
  obtain m r where m: "orun (worker_step sample_system) sample_told sample_manager = Some (Inr m)" "in_use m = [0]" "made m = 1"
    "worker_step sample_system m (Ended 0 (True, True, Received [])) = Some r" using yieldsD [OF sample_told] by blast
  show ?thesis using http_pool_well_formed [OF sample_system_ok sample_manager m(1) m(4)] m by auto
qed

text \<open>
  Property C40. Every date of a response is a month late, and none can be made in December: the months of a system time
  count from one, the table of names from zero. For every date that the system can give, the text is that of the month after
  it, or the read of the table is out of its bounds.
\<close>

theorem http_date_month_late:
  assumes "system_time_ok d"
  shows "HttpDateFromFileTime d = (if month d = 12 then Inl Out_of_bounds else Inr (http_date (d\<lparr>month := month d + 1\<rparr>)))"
  using assms by (rule HttpDate_eq)

theorem http_date_month_late_witness:
  "HttpDateFromFileTime sample_date = Inr ''Tue, 05 Apr 2019 08:30:00 GMT'' \<and>
   HttpDateFromFileTime (sample_date\<lparr>month := 12\<rparr>) = Inl Out_of_bounds"
proof -
  have "system_time_ok sample_date" "system_time_ok (sample_date\<lparr>month := 12\<rparr>)"
    by (simp_all add: sample_date_def system_time_ok_def date_fields_ok_def)
  moreover have "month sample_date = 3" "http_date (sample_date\<lparr>month := 3 + 1\<rparr>) = ''Tue, 05 Apr 2019 08:30:00 GMT''"
    by (simp add: sample_date_def) code_simp
  ultimately show ?thesis using http_date_month_late [of sample_date] http_date_month_late [of "sample_date\<lparr>month := 12\<rparr>"] by simp
qed

text \<open>Fact. A request can leave the data directory: dots are not looked at, escaped or not.\<close>

theorem http_request_leaves_directory:
  "wide_resource_id sample_system (''GET /%2e%2e/key HTTP/1.1'' @ kTerminator) = Inr (map of_char ''../key'')"
  by code_simp

text \<open>
  Fact. A second request that arrives together with the first is lost: both are taken for one request, and
  only one answer is sent before the connection waits for another request.
\<close>

theorem http_pipelined_request_lost:
  "yields (orun (conn_step sample_system) [(True, True, Received (sample_get @ sample_get)), (True, True, Sent 45)] sample_conn)
     (\<lambda>c. state c = WaitRequest \<and> request c = [] \<and> wire c = not_found)"
  by code_simp

end
