(* ===== verification/Http_Server_Linux.thy ===== *)
theory Http_Server_Linux
  imports Http_Request Simulation
begin

text \<open>
  The HTTP server on edge-triggered polling (\<open>src/ConcurrentHttpServer/ConcurrentHttpServerLinux/src/tcp_connection.cpp\<close>):
  a readable connection is read until a request is complete, a writable one is written to until the
  response is out. The theory shows that responses are sent whole and in order, and that a response
  describes its file unless the file changes while it is prepared.
\<close>

section \<open>A connection\<close>

text \<open>What polling waits for.\<close>

datatype interest = EPOLLIN | EPOLLOUT

text \<open>The last three fields are not the code's: what arrived, what was sent, and the responses that were prepared.\<close>

record tcp_conn =
  request :: string
  response :: string
  response_sent :: nat
  interest :: interest
  received :: string
  wire :: string
  prepared :: "string list"

definition kIOBufSize :: nat where
  "kIOBufSize = 1024"

definition TcpConnection :: tcp_conn where
  "TcpConnection = \<lparr>request = [], response = [], response_sent = 0, interest = EPOLLIN, received = [], wire = [], prepared = []\<rparr>"

text \<open>The files at one moment: size, time of the last change in local time, extension, and contents.\<close>

record file_info =
  file_size :: nat
  last_modified :: date
  extension :: string
  contents :: string

type_synonym files = "string \<Rightarrow> file_info option"

text \<open>\<open>HttpDateFromFileTime\<close>: months count from zero, years from 1900.\<close>

definition HttpDateFromFileTime :: "date \<Rightarrow> string res" where
  "HttpDateFromFileTime d = format_date (month d) (d\<lparr>year := year d + 1900\<rparr>)"

text \<open>
  \<open>PrepareResponse\<close>: the files are looked at twice, for the size and for the contents; a file that has gone
  meanwhile reads as empty.
\<close>

definition response_to :: "library \<Rightarrow> files \<Rightarrow> files \<Rightarrow> string \<Rightarrow> string res" where
  "response_to lib now later req =
     rbind (resource_id lib req) (\<lambda>name.
     case now name of
       None \<Rightarrow> Inr not_found
     | Some info \<Rightarrow>
         rbind (HttpDateFromFileTime (last_modified info)) (\<lambda>d.
         Inr (ok_header ''Linux'' d (file_size info) (extension info) @
           (case later name of None \<Rightarrow> [] | Some f \<Rightarrow> contents f))))"

definition PrepareResponse :: "library \<Rightarrow> files \<Rightarrow> files \<Rightarrow> tcp_conn \<Rightarrow> tcp_conn res" where
  "PrepareResponse lib now later c =
     rbind (response_to lib now later (request c)) (\<lambda>resp.
     Inr (c\<lparr>response := resp, response_sent := 0, interest := EPOLLOUT, prepared := prepared c @ [resp]\<rparr>))"

text \<open>
  The system calls of one \<open>Read\<close> and of one \<open>Write\<close>. \<open>None\<close>: the list is not what the loop asks the system for - it
  asks until it returns, gets at most what the buffer holds and sends at most what is left.
\<close>

datatype recv = Data string | No_data | Closed | Recv_failed
datatype send = Took nat | Full | Zero | Send_failed

fun Read :: "library \<Rightarrow> files \<Rightarrow> files \<Rightarrow> recv list \<Rightarrow> tcp_conn \<Rightarrow> tcp_conn res option" where
  "Read lib now later [] c = None"
| "Read lib now later (Data bs # rs) c =
     (if bs = [] \<or> length bs > kIOBufSize \<or> \<not> fits_size (length (request c) + length bs) then None
      else let c = c\<lparr>request := request c @ bs, received := received c @ bs\<rparr>
           in if IsRequestComplete (request c) (length bs)
              then if rs = [] then Some (PrepareResponse lib now later c) else None
              else Read lib now later rs c)"
| "Read lib now later (r # rs) c = (if rs = [] then Some (Inr c) else None)"

fun Write :: "send list \<Rightarrow> tcp_conn \<Rightarrow> tcp_conn option" where
  "Write [] c = None"
| "Write (Took k # ss) c =
     (let buf = drop (response_sent c) (response c) in
      if k = 0 \<or> k > length buf then None
      else let c = c\<lparr>response_sent := response_sent c + k, wire := wire c @ take k buf\<rparr>
           in if response_sent c = length (response c)
              then if ss = [] then Some (c\<lparr>request := [], interest := EPOLLIN\<rparr>) else None
              else Write ss c)"
| "Write (s # ss) c = (if ss = [] then Some c else None)"

text \<open>A worker handles one event of the connection.\<close>

datatype ready = Readable files files "recv list" | Writable "send list"

definition conn_event :: "library \<Rightarrow> tcp_conn \<Rightarrow> ready \<Rightarrow> tcp_conn res option" where
  "conn_event lib c e = (case e of
     Readable now later rs \<Rightarrow> if interest c = EPOLLIN then Read lib now later rs c else None
   | Writable ss \<Rightarrow> if interest c = EPOLLOUT then map_option Inr (Write ss c) else None)"

section \<open>The invariant\<close>

definition lconn_ok :: "tcp_conn \<Rightarrow> bool" where
  "lconn_ok c \<longleftrightarrow> response_sent c \<le> length (response c) \<and>
     (case interest c of
        EPOLLIN \<Rightarrow> wire c = concat (prepared c) \<and> \<not> sublist kTerminator (request c)
      | EPOLLOUT \<Rightarrow> wire c @ drop (response_sent c) (response c) = concat (prepared c) \<and> sublist kTerminator (request c) \<and>
          response_sent c < length (response c))"

lemma response_nonempty: "response_to lib now later req = Inr resp \<Longrightarrow> resp \<noteq> []"
  by (auto simp: response_to_def rbind_Inr_iff not_found_def ok_header_def split: option.splits)

lemma linux_Read_ok:
  assumes "lconn_ok c" and "interest c = EPOLLIN" and "Read lib now later rs c = Some (Inr c')"
  shows "lconn_ok c'"
  using assms
proof (induction lib now later rs c rule: Read.induct)
  case (2 lib now later bs rs c)
  let ?c = "c\<lparr>request := request c @ bs, received := received c @ bs\<rparr>"
  have fine: "bs \<noteq> []" "fits_size (length (request c) + length bs)" using "2.prems"(3) by (auto split: if_splits)
  have "\<not> sublist kTerminator (request c)" using "2.prems"(1,2) by (simp add: lconn_ok_def)
  then have comp: "IsRequestComplete (request c @ bs) (length bs) \<longleftrightarrow> sublist kTerminator (request c @ bs)"
    using fine(2) by (intro request_complete_iff) (simp_all add: fits_size_def)
  show ?case
  proof (cases "IsRequestComplete (request c @ bs) (length bs)")
    case True
    then have "PrepareResponse lib now later ?c = Inr c'" using "2.prems"(3) by (auto simp: Let_def split: if_splits)
    then show ?thesis using "2.prems"(1,2) True comp response_nonempty
      by (auto simp: PrepareResponse_def rbind_Inr_iff lconn_ok_def)
  next
    case False
    have step: "Read lib now later rs ?c = Some (Inr c')" using "2.prems"(3) False by (auto simp: Let_def split: if_splits)
    show ?thesis
      by (rule "2.IH" [OF _ refl]) (use "2.prems" fine False comp step in \<open>auto simp: lconn_ok_def split: if_splits\<close>)
  qed
qed (auto split: if_splits)

lemma linux_Write_ok:
  assumes "lconn_ok c" and "interest c = EPOLLOUT" and "Write ss c = Some c'"
  shows "lconn_ok c'"
  using assms
proof (induction ss c rule: Write.induct)
  case (2 k ss c)
  let ?c = "c\<lparr>response_sent := response_sent c + k, wire := wire c @ take k (drop (response_sent c) (response c))\<rparr>"
  have k: "k > 0" "k \<le> length (response c) - response_sent c" using "2.prems"(3) by (auto simp: Let_def split: if_splits)
  have w: "wire ?c @ drop (response_sent ?c) (response ?c) = concat (prepared ?c)"
    using "2.prems"(1,2) by (simp add: lconn_ok_def add.commute flip: drop_drop)
  show ?case
  proof (cases "response_sent ?c = length (response ?c)")
    case True
    then have "c' = ?c\<lparr>request := [], interest := EPOLLIN\<rparr>" using "2.prems"(3) k by (auto simp: Let_def split: if_splits)
    then show ?thesis using w True by (simp add: lconn_ok_def kTerminator_def crlf_def)
  next
    case False
    have step: "Write ss ?c = Some c'" using "2.prems"(3) False k by (auto simp: Let_def split: if_splits)
    show ?thesis
      by (rule "2.IH" [OF refl _ refl]) (use "2.prems" w k False step in \<open>auto simp: lconn_ok_def\<close>)
  qed
qed (auto split: if_splits)

lemma event_ok: "lconn_ok c \<Longrightarrow> conn_event lib c e = Some (Inr c') \<Longrightarrow> lconn_ok c'"
  by (cases e) (auto simp: conn_event_def split: if_splits intro: linux_Read_ok linux_Write_ok)

section \<open>Properties\<close>

text \<open>
  Fact. Responses are sent whole and in order: whatever the system calls return, what was sent is the beginning
  of the responses prepared so far, and all of them while the connection is read from.
\<close>

theorem linux_responses_in_order:
  assumes "orun (conn_event lib) es TcpConnection = Some (Inr c)"
  shows "prefix (wire c) (concat (prepared c)) \<and> (interest c = EPOLLIN \<longrightarrow> wire c = concat (prepared c))"
proof -
  have "lconn_ok c"
    by (rule orun_invariant [where P = lconn_ok, OF event_ok _ assms]) (simp_all add: lconn_ok_def TcpConnection_def kTerminator_def crlf_def)
  then show ?thesis by (cases "interest c") (auto simp: lconn_ok_def, metis prefixI)
qed

text \<open>A library without blanks to skip, and one file.\<close>

definition plain_library :: library where
  "plain_library = \<lparr>tokenize = (\<lambda>s d. if d = '' '' then [[], drop 4 s] else [takeWhile (\<lambda>c. c \<notin> set d) s]),
     trim_leading = (\<lambda>s cs. dropWhile (\<lambda>c. c \<in> set cs) s)\<rparr>"

definition sample_events :: "ready list" where
  "sample_events = [Readable (\<lambda>_. None) (\<lambda>_. None) [Data ''GET /b'', No_data], Readable (\<lambda>_. None) (\<lambda>_. None) [Data kTerminator],
     Writable [Took 40, Full], Writable [Took 5]]"

lemma sample_events:
  "yields (orun (conn_event plain_library) sample_events TcpConnection) (\<lambda>c. interest c = EPOLLIN \<and> wire c = not_found)"
  by code_simp

theorem linux_responses_in_order_witness:
  "\<exists>c. orun (conn_event plain_library) sample_events TcpConnection = Some (Inr c) \<and> wire c = not_found \<and> wire c = concat (prepared c)"
  using yieldsD [OF sample_events] linux_responses_in_order [of plain_library sample_events] by blast

text \<open>
  Fact. A response describes its file: when the file does not change between the two looks at it, the size in
  the header is the length of what follows it.
\<close>

theorem linux_response_whole:
  assumes "resource_id lib req = Inr name" and "now name = Some f" and "later name = Some f" and "file_size f = length (contents f)"
    and "response_to lib now later req = Inr resp"
  shows "\<exists>d. resp = ok_header ''Linux'' d (length (contents f)) (extension f) @ contents f"
  using assms by (auto simp: response_to_def rbind_Inr_iff)

definition sample_file :: "string \<Rightarrow> file_info" where
  "sample_file text = \<lparr>file_size = length text,
     last_modified = \<lparr>day_of_week = 2, day = 5, month = 2, year = 119, hour = 8, minute = 30, second = 0\<rparr>,
     extension = ''.txt'', contents = text\<rparr>"

lemma sample_response:
  "case response_to plain_library (\<lambda>n. Some (sample_file ''hello'')) (\<lambda>n. Some (sample_file ''hello'')) ''GET /b'' of Inl f \<Rightarrow> False | Inr r \<Rightarrow> True"
  "resource_id plain_library ''GET /b'' = Inr ''b''"
  by code_simp+

theorem linux_response_whole_witness:
  "\<exists>d. response_to plain_library (\<lambda>n. Some (sample_file ''hello'')) (\<lambda>n. Some (sample_file ''hello'')) ''GET /b'' =
     Inr (ok_header ''Linux'' d 5 ''.txt'' @ ''hello'')"
proof -
  obtain r where r: "response_to plain_library (\<lambda>n. Some (sample_file ''hello'')) (\<lambda>n. Some (sample_file ''hello'')) ''GET /b'' = Inr r"
    using sample_response(1) by (auto split: sum.splits)
  have "file_size (sample_file ''hello'') = length (contents (sample_file ''hello''))" by (simp add: sample_file_def)
  from linux_response_whole [OF sample_response(2) _ _ this r] show ?thesis using r by (simp add: sample_file_def eval_nat_numeral)
qed

text \<open>
  Fact. A file that changes while a response is prepared makes it a lie: the header promises the five bytes the
  file had, two follow.
\<close>

theorem linux_stale_length:
  "response_to plain_library (\<lambda>n. Some (sample_file ''hello'')) (\<lambda>n. Some (sample_file ''hi'')) ''GET /b'' =
     Inr (ok_header ''Linux'' ''Tue, 05 Mar 2019 08:30:00 GMT'' 5 ''.txt'' @ ''hi'')"
  by code_simp

end
