(* ===== verification/One_Time_Password.thy ===== *)
theory One_Time_Password
  imports Endian Text
begin

text \<open>
  Time-based one-time passwords (\<open>src/learn-topt/topt/topt.cpp\<close>, \<open>shared_secret_key.cpp\<close>, \<open>endian.h\<close>): the secret key
  in base 32, with blanks between groups, and the password of a moment. The keyed hash and base 32 come
  from libraries. The theory shows that keys survive being written down, and exactly when the password is
  the one of RFC 6238.
\<close>

section \<open>Byte order\<close>

text \<open>\<open>endian.h\<close>: on Windows the bytes are always swapped, elsewhere the C library knows the host.\<close>

datatype platform = Windows | Posix endianness

fun host_order :: "platform \<Rightarrow> endianness" where
  "host_order Windows = Little_endian"
| "host_order (Posix e) = e"

definition host_to_network :: "platform \<Rightarrow> 'a::len word \<Rightarrow> 'a word" where
  "host_to_network p n = (case p of Windows \<Rightarrow> bswap n | Posix e \<Rightarrow> (case e of Little_endian \<Rightarrow> bswap n | Big_endian \<Rightarrow> n))"

definition network_to_host :: "platform \<Rightarrow> 'a::len word \<Rightarrow> 'a word" where
  "network_to_host p n = (case p of Windows \<Rightarrow> bswap n | Posix e \<Rightarrow> (case e of Little_endian \<Rightarrow> bswap n | Big_endian \<Rightarrow> n))"

section \<open>The secret key\<close>

definition key_size :: nat where
  "key_size = 20"

definition generate_secret_key :: "platform \<Rightarrow> 32 word list \<Rightarrow> byte list" where
  "generate_secret_key p rands = concat (map (obj_bytes (host_order p)) rands)"

text \<open>The library: base 32 of RFC 4648, which rejects what is none or does not fit, and HMAC with SHA-1.\<close>

record crypto =
  base32_encode :: "byte list \<Rightarrow> string"
  base32_decode :: "string \<Rightarrow> nat \<Rightarrow> byte list res"
  hmac_sha1 :: "byte list \<Rightarrow> byte list \<Rightarrow> byte list"

definition ascii_to_upper :: "char \<Rightarrow> char" where
  "ascii_to_upper ch = (let n = of_char ch :: nat in if 97 \<le> n \<and> n \<le> 122 then char_of (65 + n - 97) else ch)"

text \<open>Inserting a blank after every four characters.\<close>

function insert_blanks :: "nat \<Rightarrow> string \<Rightarrow> string" where
  "insert_blanks pos enc = (if pos < length enc then insert_blanks (pos + 5) (take pos enc @ '' '' @ drop pos enc) else enc)"
  by pat_completeness auto
termination by (relation "measure (\<lambda>(pos, enc). length enc - pos)") auto

declare insert_blanks.simps [simp del]

definition encode_secret_key :: "crypto \<Rightarrow> byte list \<Rightarrow> bool \<Rightarrow> string res" where
  "encode_secret_key lib key output_in_group =
     (let enc = base32_encode lib key in
      if output_in_group then rbind (guard (length enc = 32) Assert_failed) (\<lambda>_. Inr (insert_blanks 4 enc)) else Inr enc)"

text \<open>
  The key is an array of 20 bytes that is not initialised: \<open>memory\<close> is what it holds before the library writes the
  decoded bytes to its start.
\<close>

definition decode_secret_key :: "crypto \<Rightarrow> byte list \<Rightarrow> string \<Rightarrow> byte list res" where
  "decode_secret_key lib memory encoded =
     rbind (base32_decode lib (map ascii_to_upper (filter (\<lambda>ch. ch \<noteq> CHR '' '') encoded)) key_size) (\<lambda>decoded.
     store memory 0 decoded)"

section \<open>The password\<close>

definition time_counter :: "int \<Rightarrow> 64 word" where
  "time_counter seconds = of_int (cdiv seconds 30)"

definition generate_topt :: "crypto \<Rightarrow> platform \<Rightarrow> byte list \<Rightarrow> int \<Rightarrow> string \<Rightarrow> string res" where
  "generate_topt lib p memory seconds enc_secret =
     rbind (decode_secret_key lib memory enc_secret) (\<lambda>secret_key.
     rbind (load secret_key 0 key_size) (\<lambda>hashed_key.
     let counter = host_to_network p (time_counter seconds);
         digest = hmac_sha1 lib hashed_key (obj_bytes (host_order p) counter)
     in rbind (at digest 19) (\<lambda>final.
        let offset = unat (final AND 0x0F)
        in rbind (load digest offset 4) (\<lambda>bytes.
           let value = network_to_host p (obj_word (host_order p) bytes :: 32 word)
           in Inr (decimal (unat value mod 1000000))))))"

section \<open>The standard\<close>

text \<open>
  RFC 4226 and RFC 6238: the counter as eight bytes, the most significant first; four bytes of the hash from the
  place that its last four bits name, without the topmost bit; six decimal digits.
\<close>

definition big_endian :: "byte list \<Rightarrow> nat" where
  "big_endian bs = foldl (\<lambda>acc b. acc * 256 + unat b) 0 bs"

definition truncated :: "byte list \<Rightarrow> nat" where
  "truncated digest = big_endian (take 4 (drop (unat (digest ! 19) mod 16) digest))"

definition six_digits :: "nat \<Rightarrow> string" where
  "six_digits n = replicate (6 - length (decimal n)) CHR ''0'' @ decimal n"

definition standard_totp :: "crypto \<Rightarrow> int \<Rightarrow> byte list \<Rightarrow> string" where
  "standard_totp lib seconds key =
     six_digits (truncated (hmac_sha1 lib key (be_bytes (of_int (seconds div 30) :: 64 word))) mod 2 ^ 31 mod 1000000)"

definition crypto_ok :: "crypto \<Rightarrow> bool" where
  "crypto_ok lib \<longleftrightarrow>
     (\<forall>key. length key = key_size \<longrightarrow> length (base32_encode lib key) = 32 \<and>
        list_all (\<lambda>ch. ch \<noteq> CHR '' '' \<and> ascii_to_upper ch = ch) (base32_encode lib key) \<and>
        base32_decode lib (base32_encode lib key) key_size = Inr key) \<and>
     (\<forall>s n bs. base32_decode lib s n = Inr bs \<longrightarrow> length bs \<le> n) \<and>
     (\<forall>key msg. length (hmac_sha1 lib key msg) = 20)"

text \<open>What base 32 says the secret is, and the array that the code hashes.\<close>

definition secret_of :: "crypto \<Rightarrow> string \<Rightarrow> byte list res" where
  "secret_of lib enc = base32_decode lib (map ascii_to_upper (filter (\<lambda>ch. ch \<noteq> CHR '' '') enc)) key_size"

definition key_array :: "byte list \<Rightarrow> byte list \<Rightarrow> byte list" where
  "key_array memory secret = secret @ drop (length secret) memory"

section \<open>Facts\<close>

lemma insert_blanks_filter: "filter (\<lambda>ch. ch \<noteq> CHR '' '') (insert_blanks pos enc) = filter (\<lambda>ch. ch \<noteq> CHR '' '') enc"
proof (induction pos enc rule: insert_blanks.induct)
  case (1 pos enc)
  show ?case
  proof (cases "pos < length enc")
    case True
    then have "filter (\<lambda>ch. ch \<noteq> CHR '' '') (insert_blanks pos enc) = filter (\<lambda>ch. ch \<noteq> CHR '' '') (take pos enc @ '' '' @ drop pos enc)"
      using 1 by (simp add: insert_blanks.simps [of pos enc])
    also have "\<dots> = filter (\<lambda>ch. ch \<noteq> CHR '' '') (take pos enc @ drop pos enc)" by (simp del: append_take_drop_id)
    finally show ?thesis by (metis append_take_drop_id)
  qed (simp add: insert_blanks.simps [of pos enc])
qed

lemma big_endian_be_bytes:
  assumes "length bs = LENGTH('a::len) div 8" and "8 dvd LENGTH('a)"
  shows "unat (le_word (rev bs) :: 'a word) = big_endian bs"
proof -
  have "unat (le_word xs :: 'a word) = foldr (\<lambda>b acc. acc * 256 + unat b) xs 0 \<and> foldr (\<lambda>b acc. acc * 256 + unat b) xs 0 < 2 ^ (8 * length xs)"
    if "8 * length xs \<le> LENGTH('a)" for xs :: "byte list"
    using that
  proof (induction xs)
    case (Cons b bs)
    let ?v = "foldr (\<lambda>b acc. acc * 256 + unat b) bs 0"
    have ih: "unat (le_word bs :: 'a word) = ?v" "?v < 2 ^ (8 * length bs)" using Cons by auto
    have "unat b < 2 ^ LENGTH(8)" by (rule unsigned_less)
    then have b: "unat b < 256" by simp
    have lt: "?v * 256 + unat b < 2 ^ (8 * length (b # bs))"
    proof -
      have "?v * 256 + unat b < (?v + 1) * 256" using b by simp
      also have "\<dots> \<le> 2 ^ (8 * length bs) * 256" using ih(2) by (intro mult_le_mono1) simp
      finally show ?thesis by (simp add: power_add)
    qed
    also have "\<dots> \<le> 2 ^ LENGTH('a)" using Cons.prems by (intro power_increasing) simp_all
    finally have fit: "?v * 256 + unat b < 2 ^ LENGTH('a)" .
    have "le_word (b # bs) = ucast b + push_bit 8 (le_word bs :: 'a word)"
      unfolding le_word.simps by (rule disjunctive_add [symmetric]) (auto simp: bit_simps dest: bit_imp_le_length)
    also have "\<dots> = of_nat (?v * 256 + unat b)"
      by (simp add: push_bit_eq_mult ih(1) [symmetric] flip: unsigned_ucast_eq)
    finally have e: "le_word (b # bs) = (of_nat (?v * 256 + unat b) :: 'a word)" .
    have "unat (le_word (b # bs) :: 'a word) = ?v * 256 + unat b"
      unfolding e unsigned_of_nat by (simp only: take_bit_nat_eq_self [OF fit] of_nat_id)
    then show ?case using lt by (simp only: foldr.simps comp_def)
  qed simp
  then show ?thesis using assms by (simp add: big_endian_def foldl_conv_foldr dvd_mult_div_cancel)
qed

lemma network_value:
  assumes "length bytes = LENGTH('a::len) div 8" and "8 dvd LENGTH('a)"
  shows "network_to_host p (obj_word (host_order p) bytes :: 'a word) = le_word (rev bytes)"
proof -
  have "bswap (le_word bytes :: 'a word) = le_word (rev bytes)" using assms by (simp add: bswap_def be_bytes_def)
  then show ?thesis by (cases p) (simp_all add: network_to_host_def obj_word_def split: endianness.split)
qed

lemma counter_bytes: "8 dvd LENGTH('a::len) \<Longrightarrow> obj_bytes (host_order p) (host_to_network p (w :: 'a word)) = be_bytes w"
  by (cases p) (simp_all add: host_to_network_def obj_bytes_def le_bytes_bswap split: endianness.split)

lemma low_nibble: "unat ((b :: byte) AND 0x0F) = unat b mod 16"
proof -
  have "b AND 0x0F = take_bit 4 b" by (simp add: take_bit_eq_mask mask_eq_exp_minus_1)
  moreover have "unat (take_bit 4 b) = take_bit 4 (unat b)" by (rule unsigned_take_bit_eq)
  moreover have "take_bit 4 (unat b) = unat b mod 16" unfolding take_bit_eq_mod by simp
  ultimately show ?thesis by (simp only:)
qed

lemma decode_array:
  assumes "crypto_ok lib" and "length memory = key_size" and "secret_of lib enc = Inr secret"
  shows "decode_secret_key lib memory enc = Inr (key_array memory secret)" and "length (key_array memory secret) = key_size"
proof -
  have "length secret \<le> key_size" using assms(1,3) unfolding crypto_ok_def secret_of_def by metis
  then show "decode_secret_key lib memory enc = Inr (key_array memory secret)" "length (key_array memory secret) = key_size"
    using assms(2,3) by (simp_all add: decode_secret_key_def secret_of_def key_array_def store_def)
qed

lemma generate_topt_value:
  assumes "crypto_ok lib" and "length memory = key_size" and "secret_of lib enc = Inr secret" and "0 \<le> seconds"
  shows "generate_topt lib p memory seconds enc = Inr (decimal (truncated (hmac_sha1 lib (key_array memory secret)
    (be_bytes (of_int (seconds div 30) :: 64 word))) mod 1000000))"
proof -
  let ?d = "hmac_sha1 lib (key_array memory secret) (be_bytes (of_int (seconds div 30) :: 64 word))"
  have l: "length ?d = 20" using assms(1) by (simp add: crypto_ok_def)
  have t: "time_counter seconds = of_int (seconds div 30)" using assms(4) by (simp add: time_counter_def cdiv_nonneg)
  let ?o = "unat (?d ! 19) mod 16"
  have o: "?o + 4 \<le> length ?d" using l by simp
  have "unat (network_to_host p (obj_word (host_order p) (take 4 (drop ?o ?d))) :: 32 word) = big_endian (take 4 (drop ?o ?d))"
  proof -
    have n: "length (take 4 (drop ?o ?d)) = LENGTH(32) div 8" using l by simp
    show ?thesis by (subst network_value [OF n]) (use big_endian_be_bytes [where 'a = 32, OF n] in simp_all)
  qed
  moreover have "load (key_array memory secret) 0 key_size = Inr (key_array memory secret)"
    using decode_array(2) [OF assms(1-3)] by (simp add: load_def)
  ultimately show ?thesis
    using decode_array(1) [OF assms(1-3)] l by (simp add: generate_topt_def t counter_bytes Let_def at_def low_nibble load_ok [OF o] truncated_def)
qed

lemma truncated_less: "length digest = 20 \<Longrightarrow> truncated digest < 2 ^ 32"
proof -
  assume l: "length digest = 20"
  let ?bs = "take 4 (drop (unat (digest ! 19) mod 16) digest)"
  have n: "length ?bs = LENGTH(32) div 8" using l by simp
  have "truncated digest = unat (le_word (rev ?bs) :: 32 word)" unfolding truncated_def by (rule big_endian_be_bytes [OF n, symmetric]) simp
  also have "\<dots> < 2 ^ LENGTH(32)" by (rule unsigned_less)
  finally show "truncated digest < 2 ^ 32" by simp
qed

lemma six_digits_inject: "decimal m = six_digits n \<longleftrightarrow> m = n \<and> length (decimal n) \<ge> 6"
proof
  assume a: "decimal m = six_digits n"
  then have "digits_value (decimal m) = digits_value (six_digits n)" by simp
  then have "m = n" by (simp add: six_digits_def)
  moreover have "length (decimal m) = length (six_digits n)" using a by simp
  ultimately show "m = n \<and> length (decimal n) \<ge> 6" by (simp add: six_digits_def)
qed (simp add: six_digits_def)

lemma decimal_six: "n < 1000000 \<Longrightarrow> length (decimal n) \<ge> 6 \<longleftrightarrow> 100000 \<le> n"
  using length_decimal_ge [of 5 n] length_decimal [of n 4] by (cases "100000 \<le> n") simp_all

section \<open>Properties\<close>

text \<open>
  Fact. A secret key survives being written down: what \<open>encode_secret_key\<close> writes, with or without blanks,
  is read back as that key, also when blanks are added or left out and letters change their case.
\<close>

theorem secret_key_roundtrip:
  assumes "crypto_ok lib" and "length key = key_size" and "encode_secret_key lib key grouped = Inr text"
    and "map ascii_to_upper (filter (\<lambda>ch. ch \<noteq> CHR '' '') typed) = map ascii_to_upper (filter (\<lambda>ch. ch \<noteq> CHR '' '') text)"
    and "length memory = key_size"
  shows "decode_secret_key lib memory typed = Inr key"
proof -
  have e: "list_all (\<lambda>ch. ch \<noteq> CHR '' '' \<and> ascii_to_upper ch = ch) (base32_encode lib key)"
    "base32_decode lib (base32_encode lib key) key_size = Inr key" "length (base32_encode lib key) = 32"
    using assms(1,2) by (simp_all add: crypto_ok_def)
  have "filter (\<lambda>ch. ch \<noteq> CHR '' '') text = filter (\<lambda>ch. ch \<noteq> CHR '' '') (base32_encode lib key)"
    using assms(3) e(3) by (cases grouped) (auto simp: encode_secret_key_def insert_blanks_filter)
  also have "\<dots> = base32_encode lib key" using e(1) by (simp add: list_all_iff)
  finally have "map ascii_to_upper (filter (\<lambda>ch. ch \<noteq> CHR '' '') text) = base32_encode lib key"
    using e(1) by (simp add: list_all_iff map_idI)
  then have "secret_of lib typed = Inr key" using assms(4) e(2) by (simp add: secret_of_def)
  from decode_array(1) [OF assms(1,5) this] show ?thesis using assms(2,5) by (simp add: key_array_def)
qed

text \<open>A library: base 32 as in RFC 4648 for keys of this size, and a hash of the key alone.\<close>

definition b32_alphabet :: string where
  "b32_alphabet = ''ABCDEFGHIJKLMNOPQRSTUVWXYZ234567''"

definition b32_index :: "char \<Rightarrow> nat" where
  "b32_index c = length (takeWhile (\<lambda>d. d \<noteq> c) b32_alphabet)"

fun b32_digits :: "nat \<Rightarrow> nat \<Rightarrow> string" where
  "b32_digits 0 n = []"
| "b32_digits (Suc k) n = b32_digits k (n div 32) @ [b32_alphabet ! (n mod 32)]"

fun number_bytes :: "nat \<Rightarrow> nat \<Rightarrow> byte list" where
  "number_bytes 0 n = []"
| "number_bytes (Suc k) n = number_bytes k (n div 256) @ [of_nat (n mod 256)]"

definition sample_crypto :: "(byte list \<Rightarrow> byte list) \<Rightarrow> crypto" where
  "sample_crypto h = \<lparr>base32_encode = (\<lambda>key. b32_digits 32 (big_endian key)),
     base32_decode = (\<lambda>s n. if list_all (\<lambda>c. c \<in> set b32_alphabet) s \<and> length s * 5 div 8 \<le> n
       then Inr (number_bytes (length s * 5 div 8) (foldl (\<lambda>acc c. acc * 32 + b32_index c) 0 s div 2 ^ (length s * 5 mod 8)))
       else Inl (Thrown ''symbol_error'')),
     hmac_sha1 = (\<lambda>key msg. h key)\<rparr>"

definition b32_good :: "nat \<Rightarrow> bool" where
  "b32_good d \<longleftrightarrow> (let c = b32_alphabet ! d in b32_index c = d \<and> c \<in> set b32_alphabet \<and> c \<noteq> CHR '' '' \<and> ascii_to_upper c = c)"

lemma b32_all_good: "list_all b32_good [0..<32]"
  by code_simp

lemma b32_digits_good: "list_all (\<lambda>c. c \<in> set b32_alphabet \<and> c \<noteq> CHR '' '' \<and> ascii_to_upper c = c) (b32_digits k n)"
proof (induction k arbitrary: n)
  case (Suc k)
  have "b32_good (n mod 32)" using b32_all_good by (simp add: list_all_iff)
  then show ?case using Suc.IH [of "n div 32"] by (simp add: b32_good_def Let_def)
qed simp

lemma b32_value: "foldl (\<lambda>acc c. acc * 32 + b32_index c) 0 (b32_digits k n) = n mod 32 ^ k"
proof (induction k arbitrary: n)
  case (Suc k)
  have "b32_good (n mod 32)" using b32_all_good by (simp add: list_all_iff)
  then show ?case using Suc.IH [of "n div 32"] by (simp add: b32_good_def Let_def mod_mult2_eq)
qed simp

lemma length_b32_digits [simp]: "length (b32_digits k n) = k"
  by (induction k arbitrary: n) simp_all

lemma number_bytes_big_endian: "number_bytes (length bs) (big_endian bs) = bs \<and> big_endian bs < 256 ^ length bs"
proof (induction bs rule: rev_induct)
  case (snoc b bs)
  have "unat b < 2 ^ LENGTH(8)" by (rule unsigned_less)
  then have b: "unat b < 256" by simp
  have v: "big_endian (bs @ [b]) = big_endian bs * 256 + unat b" by (simp add: big_endian_def)
  have d: "(big_endian bs * 256 + unat b) div 256 = big_endian bs" "(big_endian bs * 256 + unat b) mod 256 = unat b"
    using b by simp_all
  have "big_endian bs * 256 + unat b < (big_endian bs + 1) * 256" using b by simp
  also have "\<dots> \<le> 256 ^ length bs * 256" using snoc.IH by (intro mult_le_mono1) simp
  finally show ?case using snoc.IH d by (simp add: v)
qed (simp add: big_endian_def)

lemma length_number_bytes [simp]: "length (number_bytes k n) = k"
  by (induction k arbitrary: n) simp_all

lemma sample_crypto_ok:
  assumes "\<And>key. length (h key) = 20"
  shows "crypto_ok (sample_crypto h)"
proof -
  have "number_bytes 20 (big_endian key mod 32 ^ 32) = key" if "length key = 20" for key
  proof -
    have "big_endian key < 32 ^ 32" using number_bytes_big_endian [of key] that by simp
    then show ?thesis using number_bytes_big_endian [of key] that by simp
  qed
  then show ?thesis using assms b32_digits_good
    by (auto simp: crypto_ok_def sample_crypto_def key_size_def b32_value list_all_iff simp del: power_numeral)
qed

theorem secret_key_roundtrip_witness:
  "\<exists>text. encode_secret_key (sample_crypto (\<lambda>_. replicate 20 7)) (replicate 20 9) True = Inr text \<and>
     decode_secret_key (sample_crypto (\<lambda>_. replicate 20 7)) (replicate 20 5) (text @ '' '') = Inr (replicate 20 9)"
proof -
  let ?lib = "sample_crypto (\<lambda>_. replicate 20 7)"
  have ok: "crypto_ok ?lib" by (rule sample_crypto_ok) simp
  let ?text = "insert_blanks 4 (base32_encode ?lib (replicate 20 9))"
  have e: "encode_secret_key ?lib (replicate 20 9) True = Inr ?text"
    by (simp add: encode_secret_key_def sample_crypto_def)
  have k: "length (replicate 20 (n :: byte)) = key_size" for n by (simp add: key_size_def)
  show ?thesis using secret_key_roundtrip [OF ok k e _ k, of "?text @ '' ''" 5] e by simp
qed

text \<open>
  Property C20. From 1970 on, the password made for a secret is the standard's for the array of 20 bytes that the code hashes exactly
  when the topmost bit of the four bytes is clear, since the code does not mask it, and the number has six digits, since the code does not
  pad it. That array is the secret itself when it decodes to 20 bytes; when it decodes to fewer, they are followed by whatever the
  uninitialised array held.
\<close>

theorem topt_is_standard_iff:
  assumes "crypto_ok lib" and "length memory = key_size" and "secret_of lib enc = Inr secret" and "0 \<le> seconds"
    and "v = truncated (hmac_sha1 lib (key_array memory secret) (be_bytes (of_int (seconds div 30) :: 64 word)))"
  shows "(generate_topt lib p memory seconds enc = Inr (standard_totp lib seconds (key_array memory secret)) \<longleftrightarrow>
      v < 2 ^ 31 \<and> 100000 \<le> v mod 1000000) \<and>
    (length secret = 20 \<longrightarrow> key_array memory secret = secret)"
proof -
  have v32: "v < 2 ^ 32" unfolding assms(5) by (rule truncated_less) (use assms(1) in \<open>simp add: crypto_ok_def\<close>)
  have "generate_topt lib p memory seconds enc = Inr (standard_totp lib seconds (key_array memory secret)) \<longleftrightarrow>
      decimal (v mod 1000000) = six_digits (v mod 2 ^ 31 mod 1000000)"
    using generate_topt_value [OF assms(1-4)] assms(5) by (simp add: standard_totp_def)
  also have "\<dots> \<longleftrightarrow> v mod 1000000 = v mod 2 ^ 31 mod 1000000 \<and> 100000 \<le> v mod 2 ^ 31 mod 1000000"
    unfolding six_digits_inject using decimal_six [of "v mod 2 ^ 31 mod 1000000"] by simp
  also have "\<dots> \<longleftrightarrow> v < 2 ^ 31 \<and> 100000 \<le> v mod 1000000"
  proof (cases "v < 2 ^ 31")
    case False
    define w where "w = v - 2 ^ 31"
    have w: "v = w + 2 ^ 31" "w < 2 ^ 31" using False v32 by (simp_all add: w_def)
    have "v mod 2 ^ 31 = w" unfolding w(1) mod_add_self2 using w(2) by simp
    moreover have "v mod 1000000 \<noteq> w mod 1000000" 
    proof
      assume "v mod 1000000 = w mod 1000000"
      then have "1000000 dvd v - w" using w(1) by (simp add: mod_eq_dvd_iff_nat)
      then show False using w(1) by (simp add: dvd_eq_mod_eq_0)
    qed
    ultimately show ?thesis using False by simp
  qed simp
  finally show ?thesis using assms(2) by (simp add: key_array_def key_size_def)
qed

definition sample_digest :: "byte \<Rightarrow> byte list" where
  "sample_digest t = [t, 0x30, 0x57, 0x10] @ replicate 16 0"

lemma number_bytes_zero: "number_bytes k 0 = replicate k 0"
  by (induction k) (simp_all add: replicate_append_same)

definition zero_secret :: string where
  "zero_secret = replicate 32 CHR ''A''"

lemma secret_of_zeros: "secret_of (sample_crypto h) zero_secret = Inr (replicate 20 0)"
  and secret_of_short: "secret_of (sample_crypto h) ''AAAA'' = Inr [0, 0]"
proof -
  have "map ascii_to_upper (filter (\<lambda>ch. ch \<noteq> CHR '' '') zero_secret) = zero_secret" "list_all (\<lambda>c. c \<in> set b32_alphabet) zero_secret"
    "foldl (\<lambda>acc c. acc * 32 + b32_index c) 0 zero_secret = 0" "length zero_secret * 5 div 8 = 20" by code_simp+
  then show "secret_of (sample_crypto h) zero_secret = Inr (replicate 20 0)"
    by (simp add: secret_of_def sample_crypto_def key_size_def number_bytes_zero)
  have "map ascii_to_upper (filter (\<lambda>ch. ch \<noteq> CHR '' '') ''AAAA'') = ''AAAA''" "list_all (\<lambda>c. c \<in> set b32_alphabet) ''AAAA''"
    "foldl (\<lambda>acc c. acc * 32 + b32_index c) 0 ''AAAA'' = 0" "length ''AAAA'' * 5 div 8 = 2" by code_simp+
  then show "secret_of (sample_crypto h) ''AAAA'' = Inr [0, 0]"
    by (simp only: secret_of_def sample_crypto_def crypto.simps key_size_def number_bytes_zero) (simp add: numeral_2_eq_2)
qed

theorem topt_is_standard_iff_witness:
  "generate_topt (sample_crypto (\<lambda>_. sample_digest 0x00)) Windows (replicate 20 5) 59 zero_secret =
     Inr (standard_totp (sample_crypto (\<lambda>_. sample_digest 0x00)) 59 (replicate 20 0)) \<and>
   generate_topt (sample_crypto (\<lambda>_. sample_digest 0x80)) Windows (replicate 20 5) 59 zero_secret \<noteq>
     Inr (standard_totp (sample_crypto (\<lambda>_. sample_digest 0x80)) 59 (replicate 20 0))"
proof -
  have ok: "crypto_ok (sample_crypto (\<lambda>_. sample_digest t))" for t by (rule sample_crypto_ok) (simp add: sample_digest_def)
  have k: "length (replicate 20 (n :: byte)) = key_size" for n by (simp add: key_size_def)
  have h: "hmac_sha1 (sample_crypto (\<lambda>_. sample_digest t)) k m = sample_digest t" for t k m by (simp add: sample_crypto_def)
  have "take 4 (drop (unat (sample_digest 0 ! 19) mod 16) (sample_digest 0)) = [0, 0x30, 0x57, 0x10]"
    "take 4 (drop (unat (sample_digest 0x80 ! 19) mod 16) (sample_digest 0x80)) = [0x80, 0x30, 0x57, 0x10]" by code_simp+
  then have v: "truncated (sample_digest 0) = 3168016" "truncated (sample_digest 0x80) = 2150651664"
    by (simp_all only: truncated_def) (simp_all add: big_endian_def)
  have iff: "generate_topt (sample_crypto (\<lambda>_. sample_digest t)) Windows (replicate 20 5) 59 zero_secret =
      Inr (standard_totp (sample_crypto (\<lambda>_. sample_digest t)) 59 (replicate 20 0)) \<longleftrightarrow>
      truncated (sample_digest t) < 2 ^ 31 \<and> 100000 \<le> truncated (sample_digest t) mod 1000000" for t
    using topt_is_standard_iff [where seconds = 59 and p = Windows and memory = "replicate 20 5", OF ok [of t] k secret_of_zeros _ refl]
    by (simp add: h key_array_def)
  show ?thesis unfolding iff v by simp
qed

text \<open>
  Fact. A secret of fewer than 20 bytes, which base 32 accepts, has no password of its own: two runs that differ only in the
  memory the array was put in make different ones.
\<close>

theorem short_secret_depends_on_memory:
  "\<exists>lib m n. crypto_ok lib \<and> secret_of lib ''AAAA'' = Inr [0, 0] \<and> length m = key_size \<and> length n = key_size \<and>
    generate_topt lib Windows m 59 ''AAAA'' \<noteq> generate_topt lib Windows n 59 ''AAAA''"
proof -
  let ?lib = "sample_crypto (\<lambda>key. sample_digest (key ! 2))" and ?m = "replicate 20 0 :: byte list" and ?n = "replicate 20 0x40 :: byte list"
  have ok: "crypto_ok ?lib" by (rule sample_crypto_ok) (simp add: sample_digest_def)
  have k: "length (replicate 20 (n :: byte)) = key_size" for n by (simp add: key_size_def)
  have "take 4 (drop (unat (sample_digest 0 ! 19) mod 16) (sample_digest 0)) = [0, 0x30, 0x57, 0x10]"
    "take 4 (drop (unat (sample_digest 0x40 ! 19) mod 16) (sample_digest 0x40)) = [0x40, 0x30, 0x57, 0x10]" by code_simp+
  then have v: "truncated (sample_digest 0) = 3168016" "truncated (sample_digest 0x40) = 1076909840"
    by (simp_all only: truncated_def) (simp_all add: big_endian_def)
  have g: "generate_topt ?lib Windows (replicate 20 n) 59 ''AAAA'' = Inr (decimal (truncated (sample_digest n) mod 1000000))" for n
    using generate_topt_value [OF ok k secret_of_short, of 59 Windows n] by (simp add: key_array_def sample_crypto_def)
  have "decimal 168016 \<noteq> decimal 909840"
  proof
    assume "decimal 168016 = decimal 909840"
    then have "digits_value (decimal 168016) = digits_value (decimal 909840)" by (rule arg_cong)
    then show False by simp
  qed
  then have "generate_topt ?lib Windows ?m 59 ''AAAA'' \<noteq> generate_topt ?lib Windows ?n 59 ''AAAA''" unfolding g v by simp
  then show ?thesis using ok secret_of_short k by blast
qed

end
