(* ===== verification/Labor_Monitor.thy ===== *)
theory Labor_Monitor
  imports Prelude
begin

text \<open>
  The presence keeper (\<open>src/hey-i-am-still-working/himsw/labor_monitor.cpp\<close>): when the user has been idle for long
  enough it presses a key now and then, until the user is back or a break begins. The theory shows when it
  presses keys and when it must not, that breaks are circular intervals of the day, and that the idle time
  is wrong once the 32-bit clock of the last input has wrapped around.
\<close>

section \<open>Times of the day\<close>

record tm =
  tm_hour :: int
  tm_min :: int

definition compare :: "tm \<Rightarrow> tm \<Rightarrow> int" where
  "compare lhs rhs =
     (if tm_hour lhs < tm_hour rhs then -1
      else if tm_hour lhs > tm_hour rhs then 1
      else tm_min lhs - tm_min rhs)"

definition in_range :: "tm \<Rightarrow> tm \<times> tm \<Rightarrow> bool" where
  "in_range now r = (case r of (st, ed) \<Rightarrow>
     if compare st ed \<le> 0 then compare now st \<ge> 0 \<and> compare now ed \<le> 0
     else compare now st \<ge> 0 \<or> compare now ed \<le> 0)"

section \<open>The monitor\<close>

datatype mode = active | simulating

record monitor_config =
  max_idle :: int
  simulation_key :: "32 word"
  break_ranges :: "(tm \<times> tm) list"

definition VK_SCROLL :: "32 word" where "VK_SCROLL = 0x91"
definition k_simulation_mask :: "64 word" where "k_simulation_mask = 0xdeadbeef"
definition k_simul_interval :: int where "k_simul_interval = 30 * 10 ^ 7"

definition default_config :: monitor_config where
  "default_config = \<lparr>max_idle = 180, simulation_key = VK_SCROLL, break_ranges = []\<rparr>"

text \<open>Points in time count tenths of a microsecond. \<open>presses\<close> is not the code's: when keys were pressed, the last first.\<close>

record monitor =
  mode :: mode
  breakoff_enabled :: bool
  last_simulation :: int
  cfg :: monitor_config
  presses :: "int list"

definition labor_monitor :: "monitor_config \<Rightarrow> monitor" where
  "labor_monitor c = \<lparr>mode = active, breakoff_enabled = False, last_simulation = 0, cfg = c, presses = []\<rparr>"

text \<open>
  What a tick finds: the time of the day; how many milliseconds ago the system was started and how many milliseconds after its start the last
  input came, unless that cannot be told; the system clock; and whether \<open>SendInput\<close> takes both events. The system gives the time since its start
  as a 64-bit number and the time of the last input as a 32-bit one.
\<close>

record surroundings =
  time_of_day :: tm
  last_input :: "(nat \<times> nat) option"
  clock :: int
  input_sent :: bool

text \<open>\<open>get_idle_duration\<close>: the last input is a 32-bit number of milliseconds.\<close>

definition idle_duration :: "64 word \<Rightarrow> 32 word \<Rightarrow> int" where
  "idle_duration cur_tick dwTime = cdiv (sint (cur_tick - ucast dwTime)) 1000"

text \<open>An exception of the system calls: the state as it is then. \<open>tick\<close> catches it.\<close>

definition tick_on_simulating :: "surroundings \<Rightarrow> bool \<Rightarrow> monitor \<Rightarrow> monitor + monitor" where
  "tick_on_simulating e within_breakoff m =
     (if within_breakoff then Inr (m\<lparr>mode := active\<rparr>)
      else if clock e - last_simulation m < k_simul_interval then Inr m
      else if \<not> input_sent e then Inl m
      else Inr (m\<lparr>last_simulation := clock e, presses := clock e # presses m\<rparr>))"

definition tick_on_active :: "surroundings \<Rightarrow> bool \<Rightarrow> monitor \<Rightarrow> monitor + monitor" where
  "tick_on_active e within_breakoff m = (case last_input e of
     None \<Rightarrow> Inl m
   | Some (cur, prev) \<Rightarrow>
       if idle_duration (of_nat cur) (of_nat prev) > max_idle (cfg m) then
         (if within_breakoff then Inr m else tick_on_simulating e False (m\<lparr>mode := simulating\<rparr>))
       else Inr m)"

definition within_breakoff :: "tm \<Rightarrow> monitor \<Rightarrow> bool" where
  "within_breakoff now m \<longleftrightarrow> breakoff_enabled m \<and> list_ex (in_range now) (break_ranges (cfg m))"

definition tick :: "surroundings \<Rightarrow> monitor \<Rightarrow> monitor" where
  "tick e m =
     (let w = within_breakoff (time_of_day e) m;
          r = (if mode m = active then tick_on_active e w m else tick_on_simulating e w m)
      in case r of Inl m \<Rightarrow> m | Inr m \<Rightarrow> m)"

definition keyboard_hook_proc :: "int \<Rightarrow> 32 word \<Rightarrow> 64 word \<Rightarrow> monitor \<Rightarrow> monitor" where
  "keyboard_hook_proc code vk extra m =
     (if code \<ge> 0 \<and> mode m = simulating \<and> (vk \<noteq> simulation_key (cfg m) \<or> extra \<noteq> k_simulation_mask)
      then m\<lparr>mode := active\<rparr> else m)"

definition mouse_hook_proc :: "int \<Rightarrow> monitor \<Rightarrow> monitor" where
  "mouse_hook_proc code m = (if code \<ge> 0 \<and> mode m = simulating then m\<lparr>mode := active\<rparr> else m)"

definition enable_breakoff :: "bool \<Rightarrow> monitor \<Rightarrow> monitor" where
  "enable_breakoff enable m = m\<lparr>breakoff_enabled := enable\<rparr>"

definition update_config :: "monitor_config \<Rightarrow> monitor \<Rightarrow> monitor" where
  "update_config c m = m\<lparr>cfg := c\<rparr>"

datatype happening = Tick surroundings | Key int "32 word" "64 word" | Mouse int | Breakoff bool | Config monitor_config

definition monitor_step :: "monitor \<Rightarrow> happening \<Rightarrow> monitor" where
  "monitor_step m h = (case h of
     Tick e \<Rightarrow> tick e m
   | Key code vk extra \<Rightarrow> keyboard_hook_proc code vk extra m
   | Mouse code \<Rightarrow> mouse_hook_proc code m
   | Breakoff enable \<Rightarrow> enable_breakoff enable m
   | Config c \<Rightarrow> update_config c m)"

definition monitor_run :: "happening list \<Rightarrow> monitor \<Rightarrow> monitor" where
  "monitor_run hs m = foldl monitor_step m hs"

section \<open>The reference\<close>

definition tm_ok :: "tm \<Rightarrow> bool" where
  "tm_ok t \<longleftrightarrow> 0 \<le> tm_hour t \<and> tm_hour t < 24 \<and> 0 \<le> tm_min t \<and> tm_min t < 60"

definition minutes :: "tm \<Rightarrow> int" where
  "minutes t = 60 * tm_hour t + tm_min t"

text \<open>A time of the day within a break: one passes it on the way from the beginning to the end, which may lie on the next day.\<close>

definition in_break :: "tm \<Rightarrow> tm \<times> tm \<Rightarrow> bool" where
  "in_break now r \<longleftrightarrow> (minutes now - minutes (fst r)) mod 1440 \<le> (minutes (snd r) - minutes (fst r)) mod 1440"

text \<open>The configuration in force and whether breaks are on, after some happenings.\<close>

fun config_after :: "monitor_config \<Rightarrow> happening list \<Rightarrow> monitor_config" where
  "config_after c [] = c"
| "config_after c (Config c' # hs) = config_after c' hs"
| "config_after c (h # hs) = config_after c hs"

fun breaks_after :: "bool \<Rightarrow> happening list \<Rightarrow> bool" where
  "breaks_after b [] = b"
| "breaks_after b (Breakoff b' # hs) = breaks_after b' hs"
| "breaks_after b (h # hs) = breaks_after b hs"

text \<open>A key that does not bear the mark of the monitor, or the mouse.\<close>

fun user_acts :: "happening \<Rightarrow> bool" where
  "user_acts (Key code vk extra) \<longleftrightarrow> code \<ge> 0 \<and> extra \<noteq> 0xdeadbeef"
| "user_acts (Mouse code) \<longleftrightarrow> code \<ge> 0"
| "user_acts _ \<longleftrightarrow> False"

text \<open>A tick at which the last input is longer ago than the configured number of seconds; and a user who was idle at one, and did nothing since.\<close>

fun really_idle :: "monitor_config \<Rightarrow> happening \<Rightarrow> bool" where
  "really_idle c (Tick e) \<longleftrightarrow> (case last_input e of None \<Rightarrow> False | Some (cur, prev) \<Rightarrow> int cur - int prev > 1000 * max_idle c)"
| "really_idle c _ \<longleftrightarrow> False"

definition found_idle :: "monitor_config \<Rightarrow> happening list \<Rightarrow> bool" where
  "found_idle c hs \<longleftrightarrow> (\<exists>pre h post. hs = pre @ h # post \<and> really_idle (config_after c pre) h \<and> \<not> list_ex user_acts post)"

text \<open>The times are times of the day, and the last input came within \<open>2 ^ 32\<close> milliseconds of the start of the system.\<close>

definition config_ok :: "monitor_config \<Rightarrow> bool" where
  "config_ok c \<longleftrightarrow> list_all (\<lambda>(st, ed). tm_ok st \<and> tm_ok ed) (break_ranges c)"

fun happening_ok :: "happening \<Rightarrow> bool" where
  "happening_ok (Tick e) \<longleftrightarrow> tm_ok (time_of_day e) \<and>
     (case last_input e of None \<Rightarrow> True | Some (cur, prev) \<Rightarrow> prev \<le> cur \<and> prev < 2 ^ 32 \<and> cur < 2 ^ 63)"
| "happening_ok (Config c) \<longleftrightarrow> config_ok c"
| "happening_ok _ \<longleftrightarrow> True"

section \<open>What happens\<close>

text \<open>What the code takes for an idle user.\<close>

fun too_idle :: "monitor_config \<Rightarrow> happening \<Rightarrow> bool" where
  "too_idle c (Tick e) \<longleftrightarrow> (case last_input e of None \<Rightarrow> False | Some (cur, prev) \<Rightarrow> idle_duration (of_nat cur) (of_nat prev) > max_idle c)"
| "too_idle c _ \<longleftrightarrow> False"

definition spaced :: "int list \<Rightarrow> bool" where
  "spaced ts \<longleftrightarrow> (\<forall>i. Suc i < length ts \<longrightarrow> ts ! i - ts ! Suc i \<ge> k_simul_interval)"

text \<open>What a tick does.\<close>

definition pressed :: "surroundings \<Rightarrow> monitor \<Rightarrow> monitor" where
  "pressed e m = m\<lparr>mode := simulating, last_simulation := clock e, presses := clock e # presses m\<rparr>"

lemma tick_simulating_forms:
  assumes "mode m = simulating" and "r = tick_on_simulating e w m"
  shows "r = Inr (m\<lparr>mode := active\<rparr>) \<or> r = Inl m \<or> r = Inr m \<or>
    \<not> w \<and> r = Inr (pressed e m) \<and> clock e - last_simulation m \<ge> k_simul_interval"
  using assms by (cases w; cases "clock e - last_simulation m < k_simul_interval"; cases "input_sent e")
    (simp_all add: tick_on_simulating_def pressed_def)

lemma tick_forms:
  "tick e m = m \<or> tick e m = m\<lparr>mode := active\<rparr> \<or>
   tick e m = m\<lparr>mode := simulating\<rparr> \<and> too_idle (cfg m) (Tick e) \<or>
   tick e m = pressed e m \<and> clock e - last_simulation m \<ge> k_simul_interval \<and> \<not> within_breakoff (time_of_day e) m \<and>
     (mode m = simulating \<or> too_idle (cfg m) (Tick e))"
proof (cases "mode m = active")
  case False
  then have m: "mode m = simulating" using mode.exhaust by blast
  show ?thesis using tick_simulating_forms [OF m refl, of e "within_breakoff (time_of_day e) m"] False m
    by (auto simp: tick_def Let_def)
next
  case act: True
  show ?thesis
  proof (cases "too_idle (cfg m) (Tick e) \<and> \<not> within_breakoff (time_of_day e) m")
    case True
    then obtain cur prev where i: "last_input e = Some (cur, prev)" "idle_duration (of_nat cur) (of_nat prev) > max_idle (cfg m)"
      by (auto split: option.splits)
    let ?n = "m\<lparr>mode := simulating\<rparr>"
    have "tick e m = (case tick_on_simulating e False ?n of Inl m \<Rightarrow> m | Inr m \<Rightarrow> m)"
      using act i True by (simp add: tick_def tick_on_active_def Let_def)
    moreover have "?n\<lparr>mode := active\<rparr> = m" using act by simp
    moreover have "pressed e ?n = pressed e m" by (simp add: pressed_def)
    ultimately show ?thesis using tick_simulating_forms [of ?n _ e False, OF _ refl] True by auto
  next
    case False
    then have "tick e m = m" using act
      by (auto simp: tick_def tick_on_active_def Let_def split: option.splits prod.splits)
    then show ?thesis by blast
  qed
qed

lemmas hook_defs = keyboard_hook_proc_def mouse_hook_proc_def enable_breakoff_def update_config_def

lemma monitor_step_simps [simp]:
  "monitor_step m (Tick e) = tick e m" "monitor_step m (Key code vk extra) = keyboard_hook_proc code vk extra m"
  "monitor_step m (Mouse code) = mouse_hook_proc code m" "monitor_step m (Breakoff b) = enable_breakoff b m"
  "monitor_step m (Config c) = update_config c m"
  by (simp_all add: monitor_step_def)

lemma compare_minutes: "tm_ok a \<Longrightarrow> tm_ok b \<Longrightarrow> (compare a b \<le> 0 \<longleftrightarrow> minutes a \<le> minutes b) \<and> (compare a b \<ge> 0 \<longleftrightarrow> minutes a \<ge> minutes b)"
  by (auto simp: compare_def minutes_def tm_ok_def)

lemma settings_step:
  "cfg (monitor_step m h) = config_after (cfg m) [h]" "breakoff_enabled (monitor_step m h) = breaks_after (breakoff_enabled m) [h]"
proof -
  show "cfg (monitor_step m h) = config_after (cfg m) [h]"
  proof (cases h)
    case (Tick e)
    then show ?thesis using tick_forms [of e m] by (auto simp: pressed_def)
  qed (simp_all add: hook_defs)
  show "breakoff_enabled (monitor_step m h) = breaks_after (breakoff_enabled m) [h]"
  proof (cases h)
    case (Tick e)
    then show ?thesis using tick_forms [of e m] by (auto simp: pressed_def)
  qed (simp_all add: hook_defs)
qed

lemma config_after_Cons: "config_after c (h # hs) = config_after (config_after c [h]) hs"
  by (cases h) simp_all

lemma breaks_after_Cons: "breaks_after c (h # hs) = breaks_after (breaks_after c [h]) hs"
  by (cases h) simp_all

lemma settings_run:
  "cfg (monitor_run hs m) = config_after (cfg m) hs \<and> breakoff_enabled (monitor_run hs m) = breaks_after (breakoff_enabled m) hs"
proof (induction hs arbitrary: m)
  case (Cons h hs)
  have run: "monitor_run (h # hs) m = monitor_run hs (monitor_step m h)" by (simp add: monitor_run_def)
  show ?case unfolding run config_after_Cons [of _ h hs] breaks_after_Cons [of _ h hs] settings_step [symmetric] by (rule Cons.IH)
qed (simp_all add: monitor_run_def)

lemma config_after_ok: "config_ok c \<Longrightarrow> list_all happening_ok hs \<Longrightarrow> config_ok (config_after c hs)"
  by (induction c hs rule: config_after.induct) simp_all

lemma idle_value:
  assumes "prev \<le> cur" and "cur < 2 ^ 63"
  shows "idle_duration (of_nat cur) (of_nat prev) = int ((cur - prev mod 2 ^ 32) div 1000)"
proof -
  have le: "prev mod 2 ^ 32 \<le> cur" using assms(1) by (meson le_trans mod_less_eq_dividend)
  have l: "(ucast (of_nat prev :: 32 word) :: 64 word) = of_nat (prev mod 2 ^ 32)"
    by (simp add: unsigned_of_nat take_bit_eq_mod)
  have w: "of_nat cur - ucast (of_nat prev :: 32 word) = (of_nat (cur - prev mod 2 ^ 32) :: 64 word)"
    using le by (simp add: l of_nat_diff)
  have "sint (of_nat (cur - prev mod 2 ^ 32) :: 64 word) = int (cur - prev mod 2 ^ 32)"
  proof -
    have "int (cur - prev mod 2 ^ 32) < 2 ^ 63" using assms(2) by simp
    then have "signed_take_bit 63 (int (cur - prev mod 2 ^ 32)) = int (cur - prev mod 2 ^ 32)"
      by (intro signed_take_bit_int_eq_self) simp_all
    then show ?thesis by (simp add: signed_of_nat)
  qed
  then show ?thesis by (simp add: idle_duration_def w cdiv_nonneg zdiv_int)
qed

lemma too_idle_really:
  assumes "too_idle c h" and "happening_ok h"
  shows "really_idle c h"
proof -
  obtain e cur prev where h: "h = Tick e" "last_input e = Some (cur, prev)" and i: "idle_duration (of_nat cur) (of_nat prev) > max_idle c"
    using assms(1) by (cases h) (auto split: option.splits)
  have b: "prev \<le> cur" "prev < 2 ^ 32" "cur < 2 ^ 63" using assms(2) h by simp_all
  have "max_idle c < int ((cur - prev) div 1000)" using i idle_value [OF b(1,3)] b(2) by simp
  also have "\<dots> = (int cur - int prev) div 1000" using b(1) by (simp add: zdiv_int of_nat_diff)
  finally have "1000 * max_idle c < int cur - int prev" by linarith
  then show ?thesis using h by simp
qed

lemma simulating_step:
  assumes "mode (monitor_step m h) = simulating"
  shows "too_idle (cfg m) h \<or> mode m = simulating \<and> \<not> user_acts h"
proof (cases h)
  case (Tick e)
  then show ?thesis using assms tick_forms [of e m] by auto
qed (use assms in \<open>auto simp: hook_defs k_simulation_mask_def split: if_splits\<close>)

lemma found_idle_snoc: "really_idle (config_after c hs) h \<or> found_idle c hs \<and> \<not> user_acts h \<Longrightarrow> found_idle c (hs @ [h])"
proof (elim disjE conjE)
  assume "really_idle (config_after c hs) h"
  then show ?thesis unfolding found_idle_def by (intro exI [of _ hs] exI [of _ h] exI [of _ "[]"]) simp
next
  assume "found_idle c hs" and n: "\<not> user_acts h"
  then obtain pre g post where "hs = pre @ g # post" "really_idle (config_after c pre) g" "\<not> list_ex user_acts post" unfolding found_idle_def by blast
  then show ?thesis unfolding found_idle_def using n by (intro exI [of _ pre] exI [of _ g] exI [of _ "post @ [h]"]) simp
qed

lemma simulating_only_if_idle:
  "mode (monitor_run hs (labor_monitor c)) = simulating \<Longrightarrow> list_all happening_ok hs \<Longrightarrow> found_idle c hs"
proof (induction hs rule: rev_induct)
  case Nil
  then show ?case by (simp add: monitor_run_def labor_monitor_def)
next
  case (snoc h hs)
  let ?m = "monitor_run hs (labor_monitor c)"
  have c: "cfg ?m = config_after c hs" by (simp add: settings_run) (simp add: labor_monitor_def)
  have ok: "happening_ok h" "list_all happening_ok hs" using snoc.prems(2) by simp_all
  have "mode (monitor_step ?m h) = simulating" using snoc.prems by (simp add: monitor_run_def)
  from simulating_step [OF this] show ?case using snoc.IH ok c too_idle_really by (intro found_idle_snoc) auto
qed

lemma in_range_break:
  assumes "tm_ok now" and "tm_ok st" and "tm_ok ed"
  shows "in_range now (st, ed) \<longleftrightarrow> in_break now (st, ed)"
proof -
  have m: "0 \<le> minutes t \<and> minutes t < 1440" if "tm_ok t" for t using that by (auto simp: tm_ok_def minutes_def)
  have d: "(a - b) mod 1440 = (if b \<le> a then a - b else a - b + 1440)" if "0 \<le> a" "a < 1440" "0 \<le> b" "b < 1440" for a b :: int
  proof (cases "b \<le> a")
    case False
    then have "(a - b + 1440) mod 1440 = a - b + 1440" using that by (intro mod_pos_pos_trivial) auto
    then show ?thesis using False by simp
  qed (use that in \<open>simp add: mod_pos_pos_trivial\<close>)
  show ?thesis
    using m [OF assms(1)] m [OF assms(2)] m [OF assms(3)] compare_minutes [OF assms(2,3)] compare_minutes [OF assms(1,2)] compare_minutes [OF assms(1,3)]
    by (auto simp: in_range_def in_break_def d)
qed

lemma within_breakoff_iff:
  assumes "tm_ok now" and "config_ok (cfg m)"
  shows "within_breakoff now m \<longleftrightarrow> breakoff_enabled m \<and> list_ex (in_break now) (break_ranges (cfg m))"
proof -
  have "in_range now r \<longleftrightarrow> in_break now r" if "r \<in> set (break_ranges (cfg m))" for r
    using that assms in_range_break by (cases r) (auto simp: config_ok_def list_all_iff)
  then show ?thesis by (auto simp: within_breakoff_def list_ex_iff)
qed

lemma press_step:
  assumes "presses (monitor_step m h) \<noteq> presses m"
  shows "\<exists>e. h = Tick e \<and> \<not> within_breakoff (time_of_day e) m \<and> mode (monitor_step m h) = simulating \<and>
    clock e - last_simulation m \<ge> k_simul_interval \<and> presses (monitor_step m h) = clock e # presses m"
proof (cases h)
  case (Tick e)
  then show ?thesis using assms tick_forms [of e m] by (auto simp: pressed_def)
qed (use assms in \<open>simp_all add: hook_defs split: if_splits\<close>)

lemma last_press_step:
  assumes "presses m \<noteq> [] \<longrightarrow> hd (presses m) = last_simulation m"
  shows "presses (monitor_step m h) \<noteq> [] \<longrightarrow> hd (presses (monitor_step m h)) = last_simulation (monitor_step m h)"
proof (cases h)
  case (Tick e)
  then show ?thesis using assms tick_forms [of e m] by (auto simp: pressed_def)
qed (use assms in \<open>simp_all add: hook_defs\<close>)

lemma spaced_Cons: "spaced ts \<Longrightarrow> (ts \<noteq> [] \<longrightarrow> t - hd ts \<ge> k_simul_interval) \<Longrightarrow> spaced (t # ts)"
  by (auto simp: spaced_def nth_Cons hd_conv_nth split: nat.split)

section \<open>Properties\<close>

text \<open>
  Property C27. Keys are pressed only for an idle user, and never in a break: whenever a tick presses a key, at an earlier tick or this one
  the user's last input was longer ago than the number of seconds configured then, the user has not touched keyboard or mouse since, and, if
  breaks are on, the time of the day lies in none of the breaks configured. The configuration may change at any time. The times in it are times of a day, and the last
  input came within \<open>2 ^ 32\<close> milliseconds, about 49 days, of the start of the system; after that the code takes users for idle that are not.
\<close>

theorem keys_pressed_only_when_idle:
  assumes "config_ok c" and "list_all happening_ok (hs @ [h])"
    and "m = monitor_run hs (labor_monitor c)" and "presses (monitor_step m h) \<noteq> presses m"
  shows "found_idle c (hs @ [h]) \<and>
    (\<exists>e. h = Tick e \<and> \<not> (breaks_after False hs \<and> list_ex (in_break (time_of_day e)) (break_ranges (config_after c hs))))"
proof -
  obtain e where e: "h = Tick e" "\<not> within_breakoff (time_of_day e) m" "mode (monitor_step m h) = simulating"
    using press_step [OF assms(4)] by blast
  have m: "cfg m = config_after c hs" "breakoff_enabled m = breaks_after False hs"
    by (simp_all add: assms(3) settings_run) (simp_all add: labor_monitor_def)
  have "config_ok (cfg m)" "tm_ok (time_of_day e)" using config_after_ok [OF assms(1)] assms(2) m e(1) by simp_all
  then have "\<not> (breaks_after False hs \<and> list_ex (in_break (time_of_day e)) (break_ranges (config_after c hs)))"
    using e(2) within_breakoff_iff m by simp
  moreover have "mode (monitor_run (hs @ [h]) (labor_monitor c)) = simulating" using e(3) by (simp add: monitor_run_def assms(3))
  ultimately show ?thesis using simulating_only_if_idle [of "hs @ [h]" c] assms(2) e(1) by blast
qed

definition at_noon :: "nat \<Rightarrow> int \<Rightarrow> surroundings" where
  "at_noon cur now = \<lparr>time_of_day = \<lparr>tm_hour = 12, tm_min = 0\<rparr>, last_input = Some (cur, 1000), clock = now, input_sent = True\<rparr>"

text \<open>A user who is not idle long enough for the first configuration is for the second, outside of its break.\<close>

definition sample_day :: "happening list" where
  "sample_day = [Breakoff True, Tick (at_noon 100000 (10 ^ 9)),
     Config \<lparr>max_idle = 60, simulation_key = VK_SCROLL, break_ranges = [(\<lparr>tm_hour = 22, tm_min = 0\<rparr>, \<lparr>tm_hour = 6, tm_min = 0\<rparr>)]\<rparr>]"

theorem keys_pressed_only_when_idle_witness:
  "found_idle default_config (sample_day @ [Tick (at_noon 120000 (2 * 10 ^ 9))]) \<and>
   \<not> in_break \<lparr>tm_hour = 12, tm_min = 0\<rparr> (\<lparr>tm_hour = 22, tm_min = 0\<rparr>, \<lparr>tm_hour = 6, tm_min = 0\<rparr>)"
proof -
  let ?m = "monitor_run sample_day (labor_monitor default_config)" and ?h = "Tick (at_noon 120000 (2 * 10 ^ 9))"
  have "idle_duration 120000 1000 = 119" "idle_duration 100000 1000 = 99"
    using idle_value [of 1000 120000] idle_value [of 1000 100000] by simp_all
  then have p: "presses (monitor_step ?m ?h) \<noteq> presses ?m"
    by (simp add: sample_day_def monitor_run_def monitor_step_def hook_defs labor_monitor_def default_config_def at_noon_def tick_def
        tick_on_active_def tick_on_simulating_def within_breakoff_def in_range_def compare_def k_simul_interval_def Let_def)
  have ok: "config_ok default_config" "list_all happening_ok (sample_day @ [?h])"
    by (simp_all add: config_ok_def default_config_def sample_day_def at_noon_def tm_ok_def)
  show ?thesis using keys_pressed_only_when_idle [OF ok refl p] by (simp add: sample_day_def at_noon_def)
qed

text \<open>Fact. Keys are not pressed more often than every thirty seconds, whatever happens and however the clock moves.\<close>

theorem keys_pressed_apart: "spaced (presses (monitor_run hs (labor_monitor c)))"
proof -
  have "spaced (presses (monitor_run hs (labor_monitor c))) \<and>
    (presses (monitor_run hs (labor_monitor c)) \<noteq> [] \<longrightarrow> hd (presses (monitor_run hs (labor_monitor c))) = last_simulation (monitor_run hs (labor_monitor c)))"
  proof (induction hs rule: rev_induct)
    case Nil
    show ?case by (simp add: monitor_run_def labor_monitor_def spaced_def)
  next
    case (snoc h hs)
    let ?m = "monitor_run hs (labor_monitor c)"
    have r: "monitor_run (hs @ [h]) (labor_monitor c) = monitor_step ?m h" by (simp add: monitor_run_def)
    have "spaced (presses (monitor_step ?m h))"
    proof (cases "presses (monitor_step ?m h) = presses ?m")
      case False
      then obtain e :: surroundings where "clock e - last_simulation ?m \<ge> k_simul_interval" "presses (monitor_step ?m h) = clock e # presses ?m"
        using press_step [OF False] by metis
      then show ?thesis using snoc.IH by (simp add: spaced_Cons)
    qed (use snoc.IH in simp)
    then show ?case unfolding r using last_press_step snoc.IH by blast
  qed
  then show ?thesis by blast
qed

text \<open>
  Fact. Breaks are circular: a break from one time of the day to another, which may lie on the next day, has
  exactly the minutes that one passes on the way, both ends included.
\<close>

theorem breaks_are_circular:
  assumes "tm_ok now" and "tm_ok st" and "tm_ok ed"
  shows "in_range now (st, ed) \<longleftrightarrow> (minutes now - minutes st) mod 1440 \<le> (minutes ed - minutes st) mod 1440"
  using in_range_break [OF assms] by (simp add: in_break_def)

theorem breaks_are_circular_witness:
  "in_range \<lparr>tm_hour = 1, tm_min = 30\<rparr> (\<lparr>tm_hour = 22, tm_min = 0\<rparr>, \<lparr>tm_hour = 6, tm_min = 0\<rparr>) \<and>
   (minutes \<lparr>tm_hour = 1, tm_min = 30\<rparr> - minutes \<lparr>tm_hour = 22, tm_min = 0\<rparr>) mod 1440 \<le>
   (minutes \<lparr>tm_hour = 6, tm_min = 0\<rparr> - minutes \<lparr>tm_hour = 22, tm_min = 0\<rparr>) mod 1440"
  using breaks_are_circular [of "\<lparr>tm_hour = 1, tm_min = 30\<rparr>" "\<lparr>tm_hour = 22, tm_min = 0\<rparr>" "\<lparr>tm_hour = 6, tm_min = 0\<rparr>"]
  by (simp add: tm_ok_def in_range_def compare_def minutes_def)

text \<open>
  Fact. The idle time is right as long as the last input came within \<open>2 ^ 32\<close> milliseconds, about 49 days, of the
  start of the system; afterwards it is too long by a multiple of that.
\<close>

theorem idle_time_wraps:
  assumes "prev \<le> cur" and "cur < 2 ^ 63"
  shows "idle_duration (of_nat cur) (of_nat prev) = int ((cur - prev mod 2 ^ 32) div 1000)"
  by (rule idle_value [OF assms])

theorem idle_time_wraps_witness:
  "idle_duration (of_nat (2 ^ 32 + 5000)) (of_nat (2 ^ 32 + 1000)) = 4294971 \<and> (4294971 :: int) > max_idle default_config"
  using idle_time_wraps [of "2 ^ 32 + 1000" "2 ^ 32 + 5000"] by (simp add: default_config_def)

text \<open>
  Fact. The keys the monitor presses do not count as the user's only if they are the configured key: it always
  presses the scroll key, so another key in the configuration makes it stop itself.
\<close>

theorem own_key_stops_monitor:
  assumes "mode m = simulating"
  shows "mode (keyboard_hook_proc 0 VK_SCROLL k_simulation_mask m) = simulating \<longleftrightarrow> simulation_key (cfg m) = VK_SCROLL"
  using assms by (auto simp: keyboard_hook_proc_def)

theorem own_key_stops_monitor_witness:
  "mode (keyboard_hook_proc 0 VK_SCROLL k_simulation_mask ((labor_monitor default_config)\<lparr>mode := simulating\<rparr>)) = simulating"
  using own_key_stops_monitor [of "(labor_monitor default_config)\<lparr>mode := simulating\<rparr>"]
  by (simp add: labor_monitor_def default_config_def)

end
