(* ===== verification/Public_Suffix.thy ===== *)
theory Public_Suffix
  imports Text "HOL-Library.Sublist"
begin

text \<open>
  The public suffix list (\<open>src/esld/esld/psl.cpp\<close>): the rules are put in an order and joined to one text, in
  which a domain is looked up label by label. The theory shows that the lookup ends and finds an end of
  the domain, and where it goes wrong. The string helpers come from a library outside the repository.
\<close>

section \<open>The library\<close>

record strings =
  starts_with :: "string \<Rightarrow> string \<Rightarrow> bool"
  ends_with :: "string \<Rightarrow> string \<Rightarrow> bool"
  trim_left :: "string \<Rightarrow> string \<Rightarrow> string"
  split_any :: "string \<Rightarrow> string \<Rightarrow> string list"

definition strings_contract :: "strings \<Rightarrow> bool" where
  "strings_contract lib \<longleftrightarrow> (\<forall>s p. starts_with lib s p = prefix p s) \<and> (\<forall>s p. ends_with lib s p = suffix p s) \<and>
     (\<forall>s cs. trim_left lib s cs = dropWhile (\<lambda>c. c \<in> set cs) s) \<and> (\<forall>s cs. split_any lib s cs \<noteq> [])"

section \<open>The rules\<close>

definition rule_delim :: string where
  "rule_delim = [CHR 0x00]"

definition is_rule :: "strings \<Rightarrow> string \<Rightarrow> bool" where
  "is_rule lib sv \<longleftrightarrow> sv \<noteq> [] \<and> \<not> starts_with lib sv ''//''"

text \<open>\<open>std::lexicographical_compare\<close> with the order of \<open>char\<close>, which the platform chooses.\<close>

fun lexicographical_compare :: "('a \<Rightarrow> 'a \<Rightarrow> bool) \<Rightarrow> 'a list \<Rightarrow> 'a list \<Rightarrow> bool" where
  "lexicographical_compare lt xs [] = False"
| "lexicographical_compare lt [] (y # ys) = True"
| "lexicographical_compare lt (x # xs) (y # ys) = (lt x y \<or> \<not> lt y x \<and> lexicographical_compare lt xs ys)"

fun compare_parts :: "(char \<Rightarrow> char \<Rightarrow> bool) \<Rightarrow> string list \<Rightarrow> string list \<Rightarrow> bool" where
  "compare_parts lt (l # ls) (r # rs) =
     (if lexicographical_compare lt l r then True else if lexicographical_compare lt r l then False else compare_parts lt ls rs)"
| "compare_parts lt ls rs \<longleftrightarrow> ls = []"

definition rtl_cmp :: "strings \<Rightarrow> (char \<Rightarrow> char \<Rightarrow> bool) \<Rightarrow> string \<Rightarrow> string \<Rightarrow> bool res" where
  "rtl_cmp lib lt lhs rhs =
     (let l_parts = split_any lib lhs ''.''; r_parts = split_any lib rhs ''.'' in
      rbind (guard (l_parts \<noteq> []) Assert_failed) (\<lambda>_.
      rbind (guard (r_parts \<noteq> []) Assert_failed) (\<lambda>_.
      Inr (compare_parts lt (rev l_parts) (rev r_parts)))))"

fun join :: "string list \<Rightarrow> string \<Rightarrow> string" where
  "join [] delim = []"
| "join [r] delim = r"
| "join (r # rs) delim = r @ delim @ join rs delim"

text \<open>\<open>sorter\<close> is \<open>std::sort\<close>, given the comparison.\<close>

definition from_data :: "strings \<Rightarrow> ((string \<Rightarrow> string \<Rightarrow> bool res) \<Rightarrow> string list \<Rightarrow> string list) \<Rightarrow> (char \<Rightarrow> char \<Rightarrow> bool) \<Rightarrow> string \<Rightarrow> string" where
  "from_data lib sorter lt txt = join (sorter (rtl_cmp lib lt) (filter (is_rule lib) (split_any lib txt [CHR 0x0D, CHR 0x0A]))) rule_delim"

section \<open>The lookup\<close>

text \<open>\<open>rfind\<close> of a character: the last occurrence at or before a position.\<close>

definition rfind :: "string \<Rightarrow> char \<Rightarrow> nat \<Rightarrow> nat option" where
  "rfind s c p = find (\<lambda>i. s ! i = c) (rev [0..<min (Suc p) (length s)])"

text \<open>One more than a position, where \<open>npos\<close> wraps around to 0.\<close>

definition after :: "nat option \<Rightarrow> nat" where
  "after p = (case p of None \<Rightarrow> 0 | Some i \<Rightarrow> i + 1)"

definition substr :: "string \<Rightarrow> nat \<Rightarrow> nat \<Rightarrow> string res" where
  "substr s p n = (if p \<le> length s then Inr (take n (drop p s)) else Inl (Thrown ''out_of_range''))"

datatype rule_type = normal | wildcard | exception

definition classify :: "strings \<Rightarrow> string \<Rightarrow> rule_type \<times> string" where
  "classify lib rule =
     (if starts_with lib rule ''!'' then (exception, trim_left lib rule ''!'')
      else if starts_with lib rule ''*.'' then (wildcard, trim_left lib rule ''*.'')
      else (normal, rule))"

text \<open>
  The label to look for: the next label of the domain and all behind it, with the null character that ends the
  domain's storage.
\<close>

definition test_label :: "string \<Rightarrow> string \<Rightarrow> string res" where
  "test_label domain tld =
     (let dot_chk_pos = wsub (length domain - 1) (length tld) in
      rbind (at domain dot_chk_pos) (\<lambda>c.
      let dot_chk_pos = (if c = CHR ''.'' then wsub dot_chk_pos 1 else dot_chk_pos)
      in Inr (drop (after (rfind domain CHR ''.'' dot_chk_pos)) domain @ [CHR 0x00])))"

text \<open>The rule around a hit, without its mark.\<close>

definition hit_rule :: "strings \<Rightarrow> string \<Rightarrow> string \<Rightarrow> nat \<Rightarrow> (rule_type \<times> string) res" where
  "hit_rule lib rule_data label pos =
     (let rule_begin = after (rfind rule_data CHR 0x00 pos);
          rule_len = wsub (wsub (pos + length label) 1) rule_begin
      in rbind (substr rule_data rule_begin rule_len) (\<lambda>rule. Inr (classify lib rule)))"

text \<open>What a hit that matches leads to: the answer, or a longer suffix to go on with.\<close>

definition accept_rule :: "string \<Rightarrow> rule_type \<Rightarrow> string \<Rightarrow> (string + string) res" where
  "accept_rule domain hit_type rule = (case hit_type of
     exception \<Rightarrow> rbind (substr rule (after (find_from ''.'' rule 0)) (length rule)) (\<lambda>r. Inr (Inl r))
   | wildcard \<Rightarrow>
       if length domain = length rule then Inr (Inl rule)
       else let chk_pos = length domain - 1 - length rule in
         rbind (at domain chk_pos) (\<lambda>c.
         rbind (guard (c \<noteq> CHR ''.'' \<or> chk_pos > 0) Assert_failed) (\<lambda>_.
         let chk_pos = (if c = CHR ''.'' then chk_pos - 1 else chk_pos)
         in Inr (Inr (takeWhile (\<lambda>c. c \<noteq> CHR 0x00) (drop (after (rfind domain CHR ''.'' chk_pos)) domain)))))
   | normal \<Rightarrow> Inr (Inr rule))"

text \<open>
  The two loops; the inner one goes on to the next hit of the same label. Every hit moves \<open>start\<close> forward, so the
  length of the rules is enough fuel.
\<close>

fun next_hit :: "nat \<Rightarrow> strings \<Rightarrow> string \<Rightarrow> string \<Rightarrow> string \<Rightarrow> string \<Rightarrow> nat \<Rightarrow> ((string + string) \<times> nat) res" where
  "next_hit fuel lib rule_data domain label tld start = (case find_from label rule_data start of
     None \<Rightarrow> Inr (Inl tld, start)
   | Some pos \<Rightarrow> (case fuel of 0 \<Rightarrow> Inl No_return | Suc fuel \<Rightarrow>
       rbind (hit_rule lib rule_data label pos) (\<lambda>(hit_type, rule).
       let start = pos + length label in
       if \<not> ends_with lib domain rule then next_hit fuel lib rule_data domain label tld start
       else rbind (accept_rule domain hit_type rule) (\<lambda>r. Inr (r, start)))))"

declare next_hit.simps [simp del]

fun match_loop :: "nat \<Rightarrow> strings \<Rightarrow> string \<Rightarrow> string \<Rightarrow> string \<Rightarrow> nat \<Rightarrow> string res" where
  "match_loop fuel lib rule_data domain tld start =
     rbind (guard (length tld \<le> length domain) Assert_failed) (\<lambda>_.
     if length domain = length tld then Inr tld
     else rbind (test_label domain tld) (\<lambda>label.
       rbind (next_hit (length rule_data) lib rule_data domain label tld start) (\<lambda>(r, start).
       case r of Inl answer \<Rightarrow> Inr answer
       | Inr tld \<Rightarrow> (case fuel of 0 \<Rightarrow> Inl No_return | Suc fuel \<Rightarrow> match_loop fuel lib rule_data domain tld start))))"

declare match_loop.simps [simp del]

definition match_tld :: "strings \<Rightarrow> string \<Rightarrow> string \<Rightarrow> string res" where
  "match_tld lib rule_data domain =
     rbind (guard (domain \<noteq> []) (Thrown ''invalid_argument'')) (\<lambda>_. match_loop (length rule_data) lib rule_data domain [] 0)"

section \<open>Facts\<close>

definition host_ok :: "string \<Rightarrow> bool" where
  "host_ok domain \<longleftrightarrow> domain \<noteq> [] \<and> hd domain \<noteq> CHR ''.'' \<and> CHR 0x00 \<notin> set domain \<and> length domain < 2 ^ 64"

lemma rfind_Some:
  assumes "rfind s c p = Some i"
  shows "i \<le> p" and "i < length s" and "s ! i = c"
proof -
  have "i \<in> set (rev [0..<min (Suc p) (length s)]) \<and> s ! i = c"
  proof -
    obtain j where j: "j < length (rev [0..<min (Suc p) (length s)])" "s ! i = c" "i = rev [0..<min (Suc p) (length s)] ! j"
      using assms unfolding rfind_def find_Some_iff by blast
    have "i \<in> set (rev [0..<min (Suc p) (length s)])" unfolding j(3) by (rule nth_mem [OF j(1)])
    then show ?thesis using j(2) by blast
  qed
  then show "i \<le> p" "i < length s" "s ! i = c" by auto
qed

lemma suffix_drop: "suffix (drop n s) s"
  by (metis append_take_drop_id suffixI)

lemma test_label_ok:
  assumes "host_ok domain" and "suffix tld domain" and "length domain \<noteq> length tld"
  shows "\<exists>l. test_label domain tld = Inr (l @ [CHR 0x00]) \<and> l \<noteq> [] \<and> CHR 0x00 \<notin> set l"
proof -
  let ?p = "length domain - 1 - length tld"
  have lt: "length tld < length domain" using assms(2,3) by (metis suffix_length_le le_neq_implies_less)
  have p: "wsub (length domain - 1) (length tld) = ?p" using assms(1) lt by (intro wsub_small) (auto simp: host_ok_def)
  have pl: "?p < length domain" using lt by simp
  let ?q = "if domain ! ?p = CHR ''.'' then wsub ?p 1 else ?p"
  have q: "?q < length domain \<and> (\<forall>i. rfind domain CHR ''.'' ?q = Some i \<longrightarrow> i + 1 < length domain)"
  proof (cases "domain ! ?p = CHR ''.''")
    case True
    have "?p \<noteq> 0" using True assms(1) by (auto simp: host_ok_def hd_conv_nth)
    moreover have "wsub ?p 1 = ?p - 1" by (rule wsub_small) (use \<open>?p \<noteq> 0\<close> pl assms(1) in \<open>auto simp: host_ok_def\<close>)
    ultimately have "?q = ?p - 1" using True by simp
    moreover have "?p - 1 + 1 < length domain" using pl \<open>?p \<noteq> 0\<close> by simp
    ultimately show ?thesis using rfind_Some(1) by fastforce
  next
    case False
    have "i + 1 < length domain" if "rfind domain CHR ''.'' ?p = Some i" for i
    proof -
      have "i \<noteq> ?p" using rfind_Some(3) [OF that] False by auto
      then show ?thesis using rfind_Some(1) [OF that] pl by simp
    qed
    then show ?thesis using False pl by simp
  qed
  let ?l = "drop (after (rfind domain CHR ''.'' ?q)) domain"
  have "test_label domain tld = Inr (?l @ [CHR 0x00])"
    unfolding test_label_def Let_def p using pl by (simp add: at_ok)
  moreover have "?l \<noteq> []" using q assms(1) by (auto simp: after_def host_ok_def split: option.split)
  moreover have "CHR 0x00 \<notin> set ?l" using assms(1) by (meson host_ok_def in_set_dropD)
  ultimately show ?thesis by blast
qed

lemma hit_rule_ok:
  assumes "find_from (l @ [CHR 0x00]) rule_data start = Some pos" and "l \<noteq> []" and "CHR 0x00 \<notin> set l" and "length rule_data < 2 ^ 64"
  shows "\<exists>h. hit_rule lib rule_data (l @ [CHR 0x00]) pos = Inr h"
proof -
  have f: "pos + length (l @ [CHR 0x00]) \<le> length rule_data" "occurs_at (l @ [CHR 0x00]) rule_data pos"
    using find_from_Some [OF assms(1)] by simp_all
  have "rule_data ! pos = (take (length (l @ [CHR 0x00])) (drop pos rule_data)) ! 0" using f(1) by simp
  also have "\<dots> = l ! 0" using f(2) assms(2) by (simp add: occurs_at_def nth_append)
  finally have "rule_data ! pos \<noteq> CHR 0x00" using assms(2,3) by (metis length_greater_0_conv nth_mem)
  then have b: "after (rfind rule_data CHR 0x00 pos) \<le> pos"
    using rfind_Some [of rule_data "CHR 0x00" pos] by (cases "rfind rule_data CHR 0x00 pos") (auto simp: after_def le_eq_less_or_eq)
  then show ?thesis using f(1) by (simp add: hit_rule_def Let_def substr_def)
qed

lemma accept_rule_ok:
  assumes "host_ok domain" and "suffix rule domain"
  shows "\<exists>r. accept_rule domain t rule = Inr r \<and> (case r of Inl a \<Rightarrow> suffix a domain | Inr tld \<Rightarrow> suffix tld domain)"
proof (cases t)
  case exception
  have "after (find_from ''.'' rule 0) \<le> length rule" using find_from_Some(2) [of "''.''" rule 0] by (auto simp: after_def split: option.split)
  then show ?thesis using exception assms(2) by (simp add: accept_rule_def substr_def) (metis suffix_drop suffix_order.trans)
next
  case wildcard
  show ?thesis
  proof (cases "length domain = length rule")
    case True
    then show ?thesis using wildcard assms(2) by (simp add: accept_rule_def)
  next
    case False
    let ?p = "length domain - 1 - length rule"
    have p: "?p < length domain" using assms(1) by (simp add: host_ok_def)
    have "domain ! ?p \<noteq> CHR ''.'' \<or> ?p > 0"
      by (cases "?p = 0") (use assms(1) in \<open>auto simp: host_ok_def hd_conv_nth simp del: diff_is_0_eq\<close>)
    moreover have "suffix (takeWhile (\<lambda>c. c \<noteq> CHR 0x00) (drop n domain)) domain" for n
    proof -
      have "takeWhile (\<lambda>c. c \<noteq> CHR 0x00) (drop n domain) = drop n domain"
        by (subst takeWhile_eq_all_conv) (use assms(1) in \<open>auto simp: host_ok_def dest: in_set_dropD\<close>)
      then show ?thesis using suffix_drop [of n domain] by (simp only:)
    qed
    ultimately show ?thesis using wildcard False p by (simp add: accept_rule_def Let_def at_ok suffix_drop)
  qed
qed (use assms in \<open>simp add: accept_rule_def\<close>)

lemma next_hit_ok:
  assumes "strings_contract lib" and "host_ok domain" and "suffix tld domain" and "l \<noteq> []" and "CHR 0x00 \<notin> set l"
    and "length rule_data < 2 ^ 64" and "length rule_data - start \<le> fuel"
  shows "\<exists>r start'. next_hit fuel lib rule_data domain (l @ [CHR 0x00]) tld start = Inr (r, start') \<and>
    (case r of Inl a \<Rightarrow> suffix a domain | Inr tld' \<Rightarrow> suffix tld' domain \<and> start < start' \<and> start' \<le> length rule_data)"
  using assms(7)
proof (induction fuel arbitrary: start)
  case (0 start)
  have "find_from (l @ [CHR 0x00]) rule_data start = None"
  proof (rule ccontr)
    assume "find_from (l @ [CHR 0x00]) rule_data start \<noteq> None"
    then obtain i where "find_from (l @ [CHR 0x00]) rule_data start = Some i" by blast
    from find_from_Some [OF this] show False using 0 by simp
  qed
  then show ?case using assms(3) by (subst next_hit.simps) simp
next
  case (Suc fuel start)
  show ?case
  proof (cases "find_from (l @ [CHR 0x00]) rule_data start")
    case None
    then show ?thesis using assms(3) by (subst next_hit.simps) simp
  next
    case (Some pos)
    obtain t rule where h: "hit_rule lib rule_data (l @ [CHR 0x00]) pos = Inr (t, rule)"
      using hit_rule_ok [OF Some assms(4,5,6)] by (metis surj_pair)
    note f = find_from_Some [OF Some]
    let ?s = "pos + length (l @ [CHR 0x00])"
    have s: "start < ?s" "?s \<le> length rule_data" using f by simp_all
    show ?thesis
    proof (cases "ends_with lib domain rule")
      case False
      obtain r s' where r: "next_hit fuel lib rule_data domain (l @ [CHR 0x00]) tld ?s = Inr (r, s')"
        "case r of Inl a \<Rightarrow> suffix a domain | Inr tld' \<Rightarrow> suffix tld' domain \<and> ?s < s' \<and> s' \<le> length rule_data"
      proof -
        have "length rule_data - ?s \<le> fuel" using Suc.prems s by linarith
        from Suc.IH [OF this] show thesis using that by blast
      qed
      then show ?thesis using s Some h False by (subst next_hit.simps) (auto split: sum.splits)
    next
      case True
      then have "suffix rule domain" using assms(1) by (simp add: strings_contract_def)
      then obtain r where "accept_rule domain t rule = Inr r" "case r of Inl a \<Rightarrow> suffix a domain | Inr tld \<Rightarrow> suffix tld domain"
        using accept_rule_ok [OF assms(2)] by blast
      then show ?thesis using s Some h True by (subst next_hit.simps) (auto split: sum.splits)
    qed
  qed
qed

lemma match_loop_ok:
  assumes "strings_contract lib" and "host_ok domain" and "length rule_data < 2 ^ 64"
    and "suffix tld domain" and "length rule_data - start \<le> fuel"
  shows "\<exists>t. match_loop fuel lib rule_data domain tld start = Inr t \<and> suffix t domain"
  using assms(4,5)
proof (induction fuel arbitrary: tld start)
  have common: "length domain = length tld \<and> match_loop fuel lib rule_data domain tld start = Inr tld \<or>
      (\<exists>r s. match_loop fuel lib rule_data domain tld start = (case r of Inl answer \<Rightarrow> Inr answer
         | Inr tld \<Rightarrow> (case fuel of 0 \<Rightarrow> Inl No_return | Suc fuel \<Rightarrow> match_loop fuel lib rule_data domain tld s)) \<and>
       (case r of Inl a \<Rightarrow> suffix a domain | Inr tld' \<Rightarrow> suffix tld' domain \<and> start < s \<and> s \<le> length rule_data))"
    if tld: "suffix tld domain" for fuel tld start
  proof (cases "length domain = length tld")
    case True
    then show ?thesis by (subst match_loop.simps) simp
  next
    case False
    obtain l where l: "test_label domain tld = Inr (l @ [CHR 0x00])" "l \<noteq> []" "CHR 0x00 \<notin> set l"
      using test_label_ok [OF assms(2) tld False] by blast
    obtain r s where r: "next_hit (length rule_data) lib rule_data domain (l @ [CHR 0x00]) tld start = Inr (r, s)"
      "case r of Inl a \<Rightarrow> suffix a domain | Inr tld' \<Rightarrow> suffix tld' domain \<and> start < s \<and> s \<le> length rule_data"
      using next_hit_ok [OF assms(1,2) tld l(2,3) assms(3)] by (metis diff_le_self)
    have "length tld \<le> length domain" using tld by (rule suffix_length_le)
    then have "match_loop fuel lib rule_data domain tld start = (case r of Inl answer \<Rightarrow> Inr answer
        | Inr tld \<Rightarrow> (case fuel of 0 \<Rightarrow> Inl No_return | Suc fuel \<Rightarrow> match_loop fuel lib rule_data domain tld s))"
      using l(1) r(1) False by (subst match_loop.simps) simp
    then show ?thesis using r(2) by blast
  qed
  {
    case (0 tld start)
    from common [OF 0(1), of 0 start] show ?case
      by (elim disjE exE conjE) (use 0 in \<open>auto split: sum.splits\<close>)
  next
    case (Suc fuel tld start)
    from common [OF Suc.prems(1), of "Suc fuel" start] show ?case
    proof (elim disjE exE conjE)
      fix r s assume r: "match_loop (Suc fuel) lib rule_data domain tld start = (case r of Inl answer \<Rightarrow> Inr answer
          | Inr tld \<Rightarrow> (case Suc fuel of 0 \<Rightarrow> Inl No_return | Suc fuel \<Rightarrow> match_loop fuel lib rule_data domain tld s))"
        and s: "case r of Inl a \<Rightarrow> suffix a domain | Inr tld' \<Rightarrow> suffix tld' domain \<and> start < s \<and> s \<le> length rule_data"
      show ?thesis
      proof (cases r)
        case (Inr tld')
        then have "start < s" "s \<le> length rule_data" "suffix tld' domain" using s by simp_all
        moreover from this have "length rule_data - s \<le> fuel" using Suc.prems(2) by linarith
        ultimately show ?thesis using Inr r Suc.IH [of tld' s] by simp
      qed (use r s in simp)
    qed (use Suc.prems in auto)
  }
qed

section \<open>Properties\<close>

text \<open>
  Property C23. A lookup ends and finds an end of the domain: for every text of rules and every domain that does not
  begin with a dot and has no null character, the loops stop, no assertion fails, nothing outside of the strings is read, and the
  suffix found is a suffix of the domain; for an empty domain the lookup throws.
\<close>

theorem psl_lookup_finds_suffix:
  assumes "strings_contract lib" and "length rule_data < 2 ^ 64" and "length domain < 2 ^ 64"
    and "take 1 domain \<noteq> ''.''" and "CHR 0x00 \<notin> set domain"
  shows "if domain = [] then match_tld lib rule_data domain = Inl (Thrown ''invalid_argument'')
    else \<exists>t. match_tld lib rule_data domain = Inr t \<and> suffix t domain"
proof (cases domain)
  case (Cons c cs)
  then have "host_ok domain" using assms(3-5) by (simp add: host_ok_def)
  from match_loop_ok [OF assms(1) this assms(2), of "[]" 0 "length rule_data"] this show ?thesis
    by (simp add: match_tld_def host_ok_def)
qed (simp add: match_tld_def)

text \<open>A library.\<close>

fun split_at :: "string \<Rightarrow> string \<Rightarrow> string \<Rightarrow> string list" where
  "split_at acc [] cs = [acc]"
| "split_at acc (c # s) cs = (if c \<in> set cs then acc # split_at [] s cs else split_at (acc @ [c]) s cs)"

lemma split_at_nonempty [simp]: "split_at acc s cs \<noteq> []"
  by (induction acc s cs rule: split_at.induct) auto

definition plain_strings :: strings where
  "plain_strings = \<lparr>starts_with = (\<lambda>s p. take (length p) s = p), ends_with = (\<lambda>s p. length p \<le> length s \<and> drop (length s - length p) s = p),
     trim_left = (\<lambda>s cs. dropWhile (\<lambda>c. c \<in> set cs) s), split_any = (\<lambda>s cs. split_at [] s cs)\<rparr>"

lemma plain_strings_ok: "strings_contract plain_strings"
  by (auto simp: strings_contract_def plain_strings_def prefix_def suffix_def)
    (metis append_take_drop_id, metis append_take_drop_id)

definition sample_rules :: string where
  "sample_rules = join [''jp'', ''aichi.jp'', ''!city.kobe.jp'', ''*.kobe.jp'', ''uk'', ''co.xy''] rule_delim"

theorem psl_lookup_finds_suffix_witness:
  "match_tld plain_strings sample_rules ''a.b.kobe.jp'' = Inr ''b.kobe.jp'' \<and> suffix ''b.kobe.jp'' ''a.b.kobe.jp''"
proof -
  have l: "length sample_rules < 2 ^ 64" by (simp add: sample_rules_def rule_delim_def)
  have "match_tld plain_strings sample_rules ''a.b.kobe.jp'' = Inr ''b.kobe.jp''" by code_simp
  then show ?thesis using psl_lookup_finds_suffix [OF plain_strings_ok l, of "''a.b.kobe.jp''"] by simp
qed

text \<open>
  Fact. What is excluded does go wrong: with a null character, which is what separates the rules, a domain can be given a suffix that it
  does not end with.
\<close>

theorem psl_null_in_domain:
  "match_tld plain_strings (join [''*.ck'', ''c.ck''] rule_delim) (''b.a'' @ CHR 0x00 # ''c.ck'') = Inr ''a''"
  by code_simp

text \<open>
  Fact. The order given to the sort is none: every rule counts as less than itself, where \<open>std::sort\<close> asks for a
  strict order.
\<close>

theorem psl_order_not_strict:
  assumes "strings_contract lib" and "\<forall>c. \<not> lt c c"
  shows "rtl_cmp lib lt rule rule = Inr True"
proof -
  have l: "\<not> lexicographical_compare lt xs xs" for xs using assms(2) by (induction xs) auto
  have "compare_parts lt ps ps" for ps by (induction ps) (simp_all add: l)
  then show ?thesis using assms(1) by (simp add: rtl_cmp_def Let_def strings_contract_def)
qed

theorem psl_order_not_strict_witness:
  "rtl_cmp plain_strings (\<lambda>a b. (of_char a :: nat) < of_char b) ''co.uk'' ''co.uk'' = Inr True"
  by (rule psl_order_not_strict [OF plain_strings_ok]) simp

text \<open>
  Fact. The last rule is never found, since only the rules before it are followed by the delimiter that the
  lookup searches for: the rules \<open>jp\<close> and \<open>uk\<close> give no suffix for a domain in \<open>uk\<close>.
\<close>

theorem psl_last_rule_unmatched:
  "match_tld plain_strings (join [''jp'', ''uk''] rule_delim) ''a.uk'' = Inr [] \<and>
   match_tld plain_strings (join [''jp'', ''uk''] rule_delim) ''a.jp'' = Inr ''jp''"
  by code_simp

text \<open>
  Fact. A suffix may begin inside a label: without a rule for \<open>xy\<close> itself, the domain \<open>taco.xy\<close> is said to lie
  below \<open>co.xy\<close>.
\<close>

theorem psl_suffix_splits_label:
  "match_tld plain_strings (join [''co.xy'', ''zz''] rule_delim) ''taco.xy'' = Inr ''co.xy''"
  by code_simp

text \<open>Fact. A domain that begins with a dot makes an assertion fail below a wildcard.\<close>

theorem psl_leading_dot_asserts:
  "match_tld plain_strings (join [''*.ck'', ''zz''] rule_delim) ''.ck'' = Inl Assert_failed"
  by code_simp

end
