(* ===== verification/Calculator.thy ===== *)
theory Calculator
  imports Text
begin

text \<open>
  The calculator (\<open>src/ExpressionCalculator/EvaluateExp.cpp\<close>): an expression is evaluated in one pass with a stack
  of operands and one of operators. The theory shows that expressions whose minus signs do not follow a
  parenthesis get their value, and what happens to the others.
\<close>

section \<open>The state\<close>

record num_data =
  sz :: string
  signal :: bool
  pos :: nat

definition NUM_LEN :: nat where
  "NUM_LEN = 10"

definition NumData :: num_data where
  "NumData = \<lparr>sz = replicate NUM_LEN CHR 0x00, signal = False, pos = 0\<rparr>"

text \<open>The backs of the vectors are the heads of the lists.\<close>

record calc =
  oprand :: "int list"
  oprator :: string
  isNumbericMode :: bool
  data :: num_data

definition pop :: "'a list \<Rightarrow> ('a \<times> 'a list) res" where
  "pop xs = (case xs of [] \<Rightarrow> Inl Out_of_bounds | x # xs \<Rightarrow> Inr (x, xs))"

section \<open>The functions\<close>

definition Calculate :: "int \<Rightarrow> int \<Rightarrow> char \<Rightarrow> int res" where
  "Calculate num num2 op =
     rbind (if op = CHR ''+'' then chk32 (num + num2)
            else if op = CHR ''-'' then chk32 (num - num2)
            else if op = CHR ''*'' then chk32 (num * num2)
            else if op = CHR ''/'' then rbind (guard (num2 \<noteq> 0) Div_by_zero) (\<lambda>_. chk32 (cdiv num num2))
            else Inr (- (2 ^ 31))) (\<lambda>ret.
     rbind (guard (ret \<noteq> - (2 ^ 31)) Assert_failed) (\<lambda>_. Inr ret))"

definition GetPriority :: "char \<Rightarrow> int res" where
  "GetPriority op =
     (let priority = (if op = CHR ''#'' then 0 else if op \<in> {CHR ''+'', CHR ''-''} then 2 else if op \<in> {CHR ''*'', CHR ''/''} then 3
        else if op \<in> {CHR ''('', CHR '')''} then 1 else - 1)
      in rbind (guard (priority \<noteq> - 1) Assert_failed) (\<lambda>_. Inr priority))"

text \<open>\<open>_wtoi\<close> on a buffer that holds digits and then zeros; without a zero it reads on behind the buffer.\<close>

definition wtoi :: "string \<Rightarrow> int res" where
  "wtoi s = rbind (guard (CHR 0x00 \<in> set s) Out_of_bounds) (\<lambda>_. Inr (int (digits_value (takeWhile (\<lambda>c. c \<noteq> CHR 0x00) s))))"

lemma wtoi_code [code]:
  "wtoi s = (if CHR 0x00 \<in> set s then Inr (int (digits_value (takeWhile (\<lambda>c. c \<noteq> CHR 0x00) s))) else Inl Out_of_bounds)"
  by (simp add: wtoi_def)

definition FormatNumtoInt :: "num_data \<Rightarrow> (int \<times> num_data) res" where
  "FormatNumtoInt d =
     rbind (guard (pos d \<noteq> 0) Assert_failed) (\<lambda>_.
     rbind (wtoi (sz d)) (\<lambda>num. Inr (if signal d then - num else num, NumData)))"

text \<open>The number that an operator finds: the one just read, or the top of the operands.\<close>

definition current :: "calc \<Rightarrow> (int \<times> calc) res" where
  "current c =
     (if pos (data c) \<noteq> 0 then rbind (FormatNumtoInt (data c)) (\<lambda>(num, d). Inr (num, c\<lparr>data := d\<rparr>))
      else rbind (pop (oprand c)) (\<lambda>(num, st). Inr (num, c\<lparr>oprand := st\<rparr>)))"

text \<open>The loop for a closing parenthesis; every round takes an operator.\<close>

fun close_loop :: "string \<Rightarrow> int \<Rightarrow> int list \<Rightarrow> (int list \<times> string) res" where
  "close_loop [] num st = Inl Out_of_bounds"
| "close_loop (op # ops) num st =
     (if op = CHR ''('' then Inr (num # st, ops)
      else rbind (pop st) (\<lambda>(num2, st). rbind (Calculate num2 num op) (\<lambda>num. close_loop ops num st)))"

text \<open>The loop for another operator.\<close>

fun operator_loop :: "char \<Rightarrow> string \<Rightarrow> int \<Rightarrow> int list \<Rightarrow> (int list \<times> string) res" where
  "operator_loop p [] num st = Inr (num # st, [p])"
| "operator_loop p (op # ops) num st =
     rbind (GetPriority p) (\<lambda>pr. rbind (GetPriority op) (\<lambda>top.
     if pr > top then Inr (num # st, p # op # ops)
     else rbind (pop st) (\<lambda>(num2, st). rbind (Calculate num2 num op) (\<lambda>num. operator_loop p ops num st))))"

definition is_digit :: "char \<Rightarrow> bool" where
  "is_digit c \<longleftrightarrow> 48 \<le> (of_char c :: nat) \<and> (of_char c :: nat) \<le> 57"

definition calc_step :: "calc \<Rightarrow> char \<Rightarrow> calc res" where
  "calc_step c p =
     (if is_digit p then
        rbind (set_at (sz (data c)) (pos (data c)) p) (\<lambda>s.
        Inr (c\<lparr>data := (data c)\<lparr>sz := s, pos := pos (data c) + 1\<rparr>, isNumbericMode := False\<rparr>))
      else if p = CHR ''-'' \<and> isNumbericMode c then Inr (c\<lparr>data := (data c)\<lparr>signal := \<not> signal (data c)\<rparr>\<rparr>)
      else let c = c\<lparr>isNumbericMode := True\<rparr> in
        if p = CHR ''('' then Inr (c\<lparr>oprator := p # oprator c\<rparr>)
        else rbind (current c) (\<lambda>(num, c).
          rbind (if p = CHR '')'' then close_loop (oprator c) num (oprand c) else operator_loop p (oprator c) num (oprand c)) (\<lambda>(st, ops).
          Inr (c\<lparr>oprand := st, oprator := ops\<rparr>))))"

definition EvaluateExpression :: "string \<Rightarrow> int res" where
  "EvaluateExpression pszExpression =
     rbind (rfold calc_step (takeWhile (\<lambda>c. c \<noteq> CHR 0x00) pszExpression)
       \<lparr>oprand = [], oprator = [], isNumbericMode = True, data = NumData\<rparr>) (\<lambda>c.
     rbind (pop (oprand c)) (\<lambda>(v, _). Inr v))"

section \<open>Expressions\<close>

text \<open>The grammar; a number is written with any number of minus signs in front.\<close>

datatype expr = Term trm | Sum expr char trm
  and trm = Factor fac | Product trm char fac
  and fac = Number nat nat | Paren expr

fun show_expr :: "expr \<Rightarrow> string" and show_trm :: "trm \<Rightarrow> string" and show_fac :: "fac \<Rightarrow> string" where
  "show_expr (Term t) = show_trm t"
| "show_expr (Sum e op t) = show_expr e @ [op] @ show_trm t"
| "show_trm (Factor f) = show_fac f"
| "show_trm (Product t op f) = show_trm t @ [op] @ show_fac f"
| "show_fac (Number signs n) = replicate signs CHR ''-'' @ decimal n"
| "show_fac (Paren e) = ''('' @ show_expr e @ '')''"

text \<open>The value, in the arithmetic of \<open>Calculate\<close>.\<close>

fun expr_value :: "expr \<Rightarrow> int res" and trm_value :: "trm \<Rightarrow> int res" and fac_value :: "fac \<Rightarrow> int res" where
  "expr_value (Term t) = trm_value t"
| "expr_value (Sum e op t) = rbind (expr_value e) (\<lambda>a. rbind (trm_value t) (\<lambda>b. Calculate a b op))"
| "trm_value (Factor f) = fac_value f"
| "trm_value (Product t op f) = rbind (trm_value t) (\<lambda>a. rbind (fac_value f) (\<lambda>b. Calculate a b op))"
| "fac_value (Number signs n) = Inr (if odd signs then - int n else int n)"
| "fac_value (Paren e) = expr_value e"

text \<open>
  Numbers have at most nine digits, operators are those of the level, and no minus follows a parenthesis.
\<close>

fun ends_in_number :: "trm \<Rightarrow> bool" where
  "ends_in_number (Factor (Number signs n)) = True"
| "ends_in_number (Factor (Paren e)) = False"
| "ends_in_number (Product t op (Number signs n)) = True"
| "ends_in_number (Product t op (Paren e)) = False"

fun expr_ends_in_number :: "expr \<Rightarrow> bool" where
  "expr_ends_in_number (Term t) = ends_in_number t"
| "expr_ends_in_number (Sum e op t) = ends_in_number t"

fun expr_ok :: "expr \<Rightarrow> bool" and trm_ok :: "trm \<Rightarrow> bool" and fac_ok :: "fac \<Rightarrow> bool" where
  "expr_ok (Term t) = trm_ok t"
| "expr_ok (Sum e op t) \<longleftrightarrow> expr_ok e \<and> trm_ok t \<and> (op = CHR ''+'' \<or> op = CHR ''-'' \<and> expr_ends_in_number e)"
| "trm_ok (Factor f) = fac_ok f"
| "trm_ok (Product t op f) \<longleftrightarrow> trm_ok t \<and> fac_ok f \<and> (op = CHR ''*'' \<or> op = CHR ''/'')"
| "fac_ok (Number signs n) \<longleftrightarrow> n < 10 ^ 9"
| "fac_ok (Paren e) = expr_ok e"

section \<open>Reading a number\<close>

definition start :: "int list \<Rightarrow> string \<Rightarrow> calc" where
  "start S O' = \<lparr>oprand = S, oprator = O', isNumbericMode = True, data = NumData\<rparr>"

lemma decimal_digits: "list_all is_digit (decimal n)"
proof (induction n rule: decimal.induct)
  case (1 n)
  have "list_all is_digit (decimal (n div 10))" if "\<not> n < 10" using 1 that by simp
  moreover have "is_digit (char_of (48 + n mod 10))" by (simp add: is_digit_def of_char_of)
  moreover have "is_digit (char_of (48 + n))" if "n < 10" using that by (simp add: is_digit_def of_char_of)
  ultimately show ?case by (subst decimal.simps) simp
qed

lemma decimal_nonempty [simp]: "decimal n \<noteq> []"
  by (subst decimal.simps) simp

lemma rfold_one: "rfold f [x] s = rbind (f s x) Inr"
  by (cases "f s x") simp_all

lemma sign_step:
  "calc_step ((start S O')\<lparr>data := NumData\<lparr>signal := b\<rparr>\<rparr>) CHR ''-'' = Inr ((start S O')\<lparr>data := NumData\<lparr>signal := \<not> b\<rparr>\<rparr>)"
  by (simp add: calc_step_def is_digit_def start_def)

lemma read_signs:
  "rfold calc_step (replicate k CHR ''-'') (start S O') = Inr ((start S O')\<lparr>data := NumData\<lparr>signal := odd k\<rparr>\<rparr>)"
proof (induction k)
  case 0
  show ?case by (simp add: start_def NumData_def)
next
  case (Suc k)
  have "rfold calc_step (replicate (Suc k) CHR ''-'') (start S O') =
      rbind (rfold calc_step (replicate k CHR ''-'') (start S O')) (rfold calc_step ''-'')"
    unfolding replicate_Suc replicate_append_same [symmetric] by (rule rfold_append)
  also have "\<dots> = rbind (calc_step ((start S O')\<lparr>data := NumData\<lparr>signal := odd k\<rparr>\<rparr>) CHR ''-'') Inr"
    by (simp only: Suc.IH rbind_simps rfold_one)
  also have "\<dots> = Inr ((start S O')\<lparr>data := NumData\<lparr>signal := odd (Suc k)\<rparr>\<rparr>)"
    by (simp only: sign_step rbind_simps even_Suc)
  finally show ?case .
qed

definition held :: "string \<Rightarrow> bool \<Rightarrow> num_data" where
  "held ds b = \<lparr>sz = ds @ replicate (NUM_LEN - length ds) CHR 0x00, signal = b, pos = length ds\<rparr>"

lemma digit_step:
  assumes "is_digit d" and "length ds \<le> 8"
  shows "calc_step ((start S O')\<lparr>isNumbericMode := m, data := held ds b\<rparr>) d =
    Inr ((start S O')\<lparr>isNumbericMode := False, data := held (ds @ [d]) b\<rparr>)"
proof -
  have "replicate (NUM_LEN - length ds) CHR 0x00 = CHR 0x00 # replicate (NUM_LEN - Suc (length ds)) CHR 0x00"
    using assms(2) by (simp add: NUM_LEN_def Suc_diff_Suc flip: replicate_Suc)
  then have "set_at (ds @ replicate (NUM_LEN - length ds) CHR 0x00) (length ds) d =
      Inr ((ds @ [d]) @ replicate (NUM_LEN - length (ds @ [d])) CHR 0x00)"
    by (simp add: set_at_def)
  then show ?thesis using assms(1) by (simp add: calc_step_def held_def start_def)
qed

lemma read_digits:
  "list_all is_digit ds \<Longrightarrow> length ds \<le> 9 \<Longrightarrow>
    rfold calc_step ds ((start S O')\<lparr>isNumbericMode := True, data := held [] b\<rparr>) =
    Inr ((start S O')\<lparr>isNumbericMode := (ds = []), data := held ds b\<rparr>)"
proof (induction ds rule: rev_induct)
  case Nil
  show ?case by simp
next
  case (snoc d ds)
  have "rfold calc_step (ds @ [d]) ((start S O')\<lparr>isNumbericMode := True, data := held [] b\<rparr>) =
      rbind (rfold calc_step ds ((start S O')\<lparr>isNumbericMode := True, data := held [] b\<rparr>)) (rfold calc_step [d])"
    by (rule rfold_append)
  also have "\<dots> = rbind (calc_step ((start S O')\<lparr>isNumbericMode := (ds = []), data := held ds b\<rparr>) d) Inr"
    using snoc by (simp only: list_all_append length_append rbind_simps rfold_one)
  also have "\<dots> = Inr ((start S O')\<lparr>isNumbericMode := False, data := held (ds @ [d]) b\<rparr>)"
    using snoc.prems digit_step [where d = d and ds = ds and S = S and O' = O' and m = "ds = []" and b = b] by simp
  finally show ?case by simp
qed

definition ready :: "calc \<Rightarrow> int \<Rightarrow> int list \<Rightarrow> string \<Rightarrow> bool" where
  "ready c num st ops \<longleftrightarrow> (\<exists>b. current c = Inr (num, \<lparr>oprand = st, oprator = ops, isNumbericMode = b, data = NumData\<rparr>))"

lemma read_number:
  assumes "n < 10 ^ 9"
  shows "\<exists>c. rfold calc_step (show_fac (Number signs n)) (start S O') = Inr c \<and> \<not> isNumbericMode c \<and>
    ready c (if odd signs then - int n else int n) S O'"
proof -
  have len: "length (decimal n) \<le> 9" using length_decimal [of n 8] assms by simp
  let ?c = "(start S O')\<lparr>isNumbericMode := False, data := held (decimal n) (odd signs)\<rparr>"
  have s: "(start S O')\<lparr>data := NumData\<lparr>signal := odd signs\<rparr>\<rparr> = (start S O')\<lparr>isNumbericMode := True, data := held [] (odd signs)\<rparr>"
    by (simp add: start_def held_def NumData_def)
  have run: "rfold calc_step (show_fac (Number signs n)) (start S O') = Inr ?c"
    using read_digits [OF decimal_digits len, where S = S and O' = O' and b = "odd signs"] by (simp only: show_fac.simps rfold_append read_signs s rbind_simps decimal_nonempty)
  have nz: "CHR 0x00 \<notin> set (decimal n)" using decimal_digits [of n] by (auto simp: list_all_iff is_digit_def)
  obtain k where k: "NUM_LEN - length (decimal n) = Suc k" using len by (cases "NUM_LEN - length (decimal n)") (auto simp: NUM_LEN_def)
  have "takeWhile (\<lambda>c. c \<noteq> CHR 0x00) (decimal n @ CHR 0x00 # replicate k CHR 0x00) = decimal n"
    by (subst takeWhile_append2) (use nz in auto)
  then have w: "wtoi (sz (held (decimal n) (odd signs))) = Inr (int n)" by (simp add: wtoi_def held_def k)
  have p: "pos (held (decimal n) (odd signs)) \<noteq> 0" by (simp add: held_def)
  have "signal (held (decimal n) (odd signs)) = odd signs" by (simp add: held_def)
  then have "current ?c = Inr (if odd signs then - int n else int n, (start S O')\<lparr>isNumbericMode := False, data := NumData\<rparr>)"
    using w p by (simp add: current_def FormatNumtoInt_def)
  then have "ready ?c (if odd signs then - int n else int n) S O'" by (auto simp: ready_def start_def)
  then show ?thesis using run by fastforce
qed

section \<open>Reducing\<close>

text \<open>Applying operators of at least a priority to the number at hand.\<close>

inductive reduces :: "int \<Rightarrow> int \<Rightarrow> int list \<Rightarrow> string \<Rightarrow> int \<Rightarrow> int list \<Rightarrow> string \<Rightarrow> bool" for k where
  reduces_refl: "reduces k num st ops num st ops"
| reduces_step: "GetPriority op = Inr q \<Longrightarrow> q \<ge> k \<Longrightarrow> Calculate num2 num op = Inr r \<Longrightarrow> reduces k r st ops v S O' \<Longrightarrow>
    reduces k num (num2 # st) (op # ops) v S O'"

lemma reduces_trans: "reduces k a st ops b st' ops' \<Longrightarrow> reduces k b st' ops' c S O' \<Longrightarrow> reduces k a st ops c S O'"
  by (induction rule: reduces.induct) (auto intro: reduces_step)

lemma reduces_mono: "reduces k a st ops b S O' \<Longrightarrow> j \<le> k \<Longrightarrow> reduces j a st ops b S O'"
  by (induction rule: reduces.induct) (auto intro: reduces.intros)

lemma operator_loop_reduces:
  "reduces k num st ops v S O' \<Longrightarrow> GetPriority p = Inr q \<Longrightarrow> q \<le> k \<Longrightarrow> operator_loop p ops num st = operator_loop p O' v S"
  by (induction rule: reduces.induct) (simp_all add: pop_def)

lemma close_loop_reduces: "reduces k num st ops v S O' \<Longrightarrow> k \<ge> 2 \<Longrightarrow> close_loop ops num st = close_loop O' v S"
  by (induction rule: reduces.induct) (auto simp: pop_def GetPriority_def)

definition low :: "int \<Rightarrow> string \<Rightarrow> bool" where
  "low k ops \<longleftrightarrow> (case ops of [] \<Rightarrow> True | op # _ \<Rightarrow> (\<exists>q. GetPriority op = Inr q \<and> q < k))"

definition reached :: "calc \<Rightarrow> int \<Rightarrow> int \<Rightarrow> int list \<Rightarrow> string \<Rightarrow> bool" where
  "reached c k v S O' \<longleftrightarrow> (\<exists>num st ops. ready c num st ops \<and> reduces k num st ops v S O')"

lemma reached_trans: "reached c k v S O' \<Longrightarrow> j \<le> k \<Longrightarrow> reduces j v S O' w T P \<Longrightarrow> reached c j w T P"
  unfolding reached_def by (meson reduces_mono reduces_trans)

lemma current_mode:
  assumes "ready c num st ops"
  shows "current (c\<lparr>isNumbericMode := True\<rparr>) = Inr (num, start st ops)"
proof -
  obtain b where b: "current c = Inr (num, \<lparr>oprand = st, oprator = ops, isNumbericMode = b, data = NumData\<rparr>)"
    using assms by (auto simp: ready_def)
  have "current (c\<lparr>isNumbericMode := True\<rparr>) = rbind (current c) (\<lambda>(num, c). Inr (num, c\<lparr>isNumbericMode := True\<rparr>))"
    by (cases "FormatNumtoInt (data c)"; cases "pop (oprand c)") (auto simp: current_def)
  then show ?thesis using b by (simp add: start_def)
qed

lemma operator_step:
  assumes "reached c k v S O'" and "GetPriority p = Inr q" and "q \<le> k" and "low q O'" and "\<not> is_digit p" and "p \<noteq> CHR ''(''" and "p \<noteq> CHR '')''"
    and "p = CHR ''-'' \<longrightarrow> \<not> isNumbericMode c"
  shows "calc_step c p = Inr (start (v # S) (p # O'))"
proof -
  obtain num st ops where r: "ready c num st ops" "reduces k num st ops v S O'" using assms(1) by (auto simp: reached_def)
  have "operator_loop p ops num st = operator_loop p O' v S" by (rule operator_loop_reduces [OF r(2) assms(2,3)])
  also have "\<dots> = Inr (v # S, p # O')" using assms(2,4) by (cases O') (auto simp: low_def)
  finally have l: "operator_loop p ops num st = Inr (v # S, p # O')" .
  have "\<not> (p = CHR ''-'' \<and> isNumbericMode c)" using assms(8) by blast
  then have "calc_step c p = rbind (current (c\<lparr>isNumbericMode := True\<rparr>)) (\<lambda>(num, c).
      rbind (operator_loop p (oprator c) num (oprand c)) (\<lambda>(st, ops). Inr (c\<lparr>oprand := st, oprator := ops\<rparr>)))"
    using assms(5-7) by (simp only: calc_step_def if_False Let_def)
  then show ?thesis using l by (simp add: current_mode [OF r(1)]) (simp add: start_def)
qed

lemma close_step:
  assumes "reached c k v S (CHR ''('' # O')" and "k \<ge> 2"
  shows "\<exists>c'. calc_step c CHR '')'' = Inr c' \<and> isNumbericMode c' \<and> ready c' v S O'"
proof -
  obtain num st ops where r: "ready c num st ops" "reduces k num st ops v S (CHR ''('' # O')" using assms(1) by (auto simp: reached_def)
  have "close_loop ops num st = Inr (v # S, O')" using close_loop_reduces [OF r(2) assms(2)] by simp
  then have "calc_step c CHR '')'' = Inr (start (v # S) O')"
    by (simp add: calc_step_def is_digit_def current_mode [OF r(1)]) (simp add: start_def)
  moreover have "ready (start (v # S) O') v S O'" 
    unfolding ready_def by (intro exI [of _ True]) (simp add: current_def start_def NumData_def pop_def)
  ultimately show ?thesis by (simp add: start_def)
qed

section \<open>Evaluation\<close>

lemma evaluation:
  "expr_ok e \<Longrightarrow> expr_value e = Inr v \<Longrightarrow> low 2 O' \<Longrightarrow>
    \<exists>c. rfold calc_step (show_expr e) (start S O') = Inr c \<and> reached c 2 v S O' \<and> (isNumbericMode c \<longrightarrow> \<not> expr_ends_in_number e)"
  "trm_ok t \<Longrightarrow> trm_value t = Inr v \<Longrightarrow> low 3 O' \<Longrightarrow>
    \<exists>c. rfold calc_step (show_trm t) (start S O') = Inr c \<and> reached c 3 v S O' \<and> (isNumbericMode c \<longrightarrow> \<not> ends_in_number t)"
  "fac_ok f \<Longrightarrow> fac_value f = Inr v \<Longrightarrow>
    \<exists>c. rfold calc_step (show_fac f) (start S O') = Inr c \<and> ready c v S O' \<and> (isNumbericMode c \<longrightarrow> (\<exists>e. f = Paren e))"
proof (induction e and t and f arbitrary: v S O' and v S O' and v S O')
  case (Term t)
  have "low 3 O'" using Term.prems(3) by (cases O') (auto simp: low_def)
  then obtain c where "rfold calc_step (show_trm t) (start S O') = Inr c" "reached c 3 v S O'" "isNumbericMode c \<longrightarrow> \<not> ends_in_number t"
    using Term.IH [of v O' S] Term.prems by auto
  then show ?case using reached_trans [OF _ _ reduces_refl] by fastforce
next
  case (Sum e op t)
  obtain a b where v: "expr_value e = Inr a" "trm_value t = Inr b" "Calculate a b op = Inr v" using Sum.prems(2) by (auto simp: rbind_Inr_iff)
  obtain c where c: "rfold calc_step (show_expr e) (start S O') = Inr c" "reached c 2 a S O'" "isNumbericMode c \<longrightarrow> \<not> expr_ends_in_number e"
    using Sum.IH(1) [OF _ v(1) Sum.prems(3)] Sum.prems(1) by auto
  have pr: "GetPriority op = Inr 2" "\<not> is_digit op" "op \<noteq> CHR ''(''" "op \<noteq> CHR '')''" "op = CHR ''-'' \<longrightarrow> \<not> isNumbericMode c"
    using Sum.prems(1) c(3) by (auto simp: GetPriority_def is_digit_def)
  have st: "calc_step c op = Inr (start (a # S) (op # O'))" using operator_step [OF c(2) pr(1)] Sum.prems(3) pr by simp
  have "low 3 (op # O')" using pr by (simp add: low_def)
  then obtain d where d: "rfold calc_step (show_trm t) (start (a # S) (op # O')) = Inr d" "reached d 3 b (a # S) (op # O')"
    "isNumbericMode d \<longrightarrow> \<not> ends_in_number t" using Sum.IH(2) [OF _ v(2)] Sum.prems(1) by auto
  have "reduces 2 b (a # S) (op # O') v S O'" using pr(1) v(3) by (auto intro: reduces.intros)
  then have "reached d 2 v S O'" using reached_trans [OF d(2)] by simp
  then show ?case using c(1) st d(1,3) by (simp add: rfold_append)
next
  case (Factor f)
  then have "fac_ok f" "fac_value f = Inr v" by simp_all
  then obtain c where "rfold calc_step (show_fac f) (start S O') = Inr c" "ready c v S O'" "isNumbericMode c \<longrightarrow> (\<exists>e. f = Paren e)"
    using Factor.IH [of v S O'] by blast
  then show ?case by (auto simp: reached_def intro: reduces_refl)
next
  case (Product t op f)
  obtain a b where v: "trm_value t = Inr a" "fac_value f = Inr b" "Calculate a b op = Inr v" using Product.prems(2) by (auto simp: rbind_Inr_iff)
  obtain c where c: "rfold calc_step (show_trm t) (start S O') = Inr c" "reached c 3 a S O'"
    using Product.IH(1) [OF _ v(1) Product.prems(3)] Product.prems(1) by auto
  have pr: "GetPriority op = Inr 3" "\<not> is_digit op" "op \<noteq> CHR ''(''" "op \<noteq> CHR '')''" "op \<noteq> CHR ''-''"
    using Product.prems(1) by (auto simp: GetPriority_def is_digit_def)
  have st: "calc_step c op = Inr (start (a # S) (op # O'))" using operator_step [OF c(2) pr(1)] Product.prems(3) pr by simp
  obtain d where d: "rfold calc_step (show_fac f) (start (a # S) (op # O')) = Inr d" "ready d b (a # S) (op # O')"
    "isNumbericMode d \<longrightarrow> (\<exists>e. f = Paren e)" using Product.IH(2) [OF _ v(2)] Product.prems(1) by fastforce
  have "reduces 3 b (a # S) (op # O') v S O'" using pr(1) v(3) by (auto intro: reduces.intros)
  then have "reached d 3 v S O'" using d(2) by (auto simp: reached_def)
  moreover have "isNumbericMode d \<longrightarrow> \<not> ends_in_number (Product t op f)" using d(3) by auto
  ultimately show ?case using c(1) st d(1) by (simp add: rfold_append)
next
  case (Number signs n)
  then show ?case using read_number [of n signs S O'] by auto
next
  case (Paren e)
  have o: "calc_step (start S O') CHR ''('' = Inr (start S (CHR ''('' # O'))" by (simp add: calc_step_def is_digit_def start_def)
  have "low 2 (CHR ''('' # O')" by (simp add: low_def GetPriority_def)
  then obtain c where c: "rfold calc_step (show_expr e) (start S (CHR ''('' # O')) = Inr c" "reached c 2 v S (CHR ''('' # O')"
    using Paren.IH [of v "CHR ''('' # O'" S] Paren.prems by auto
  moreover obtain d where "calc_step c CHR '')'' = Inr d" "ready d v S O'" using close_step [OF c(2)] by auto
  ultimately show ?case using o by (simp add: rfold_append rfold_one)
qed

lemma no_nul:
  "expr_ok e \<Longrightarrow> CHR 0x00 \<notin> set (show_expr e)"
  "trm_ok t \<Longrightarrow> CHR 0x00 \<notin> set (show_trm t)"
  "fac_ok f \<Longrightarrow> CHR 0x00 \<notin> set (show_fac f)"
proof (induction e and t and f)
  case (Number signs n)
  then show ?case using decimal_digits [of n] by (auto simp: list_all_iff is_digit_def)
qed auto

section \<open>Properties\<close>

text \<open>
  The value by the usual rules, on unbounded integers; a quotient is rounded towards zero. It stays in bounds when no divisor is zero
  and every intermediate result lies strictly between \<open>- 2 ^ 31\<close> and \<open>2 ^ 31\<close>.
\<close>

definition usual_op :: "char \<Rightarrow> int \<Rightarrow> int \<Rightarrow> int" where
  "usual_op op a b = (if op = CHR ''+'' then a + b else if op = CHR ''-'' then a - b else if op = CHR ''*'' then a * b
     else sgn a * sgn b * (\<bar>a\<bar> div \<bar>b\<bar>))"

fun usual_expr :: "expr \<Rightarrow> int" and usual_trm :: "trm \<Rightarrow> int" and usual_fac :: "fac \<Rightarrow> int" where
  "usual_expr (Term t) = usual_trm t"
| "usual_expr (Sum e op t) = usual_op op (usual_expr e) (usual_trm t)"
| "usual_trm (Factor f) = usual_fac f"
| "usual_trm (Product t op f) = usual_op op (usual_trm t) (usual_fac f)"
| "usual_fac (Number signs n) = (- 1) ^ signs * int n"
| "usual_fac (Paren e) = usual_expr e"

definition bounded_op :: "char \<Rightarrow> int \<Rightarrow> int \<Rightarrow> bool" where
  "bounded_op op a b \<longleftrightarrow> (op = CHR ''/'' \<longrightarrow> b \<noteq> 0) \<and> - (2 ^ 31) < usual_op op a b \<and> usual_op op a b < 2 ^ 31"

fun bounded_expr :: "expr \<Rightarrow> bool" and bounded_trm :: "trm \<Rightarrow> bool" and bounded_fac :: "fac \<Rightarrow> bool" where
  "bounded_expr (Term t) = bounded_trm t"
| "bounded_expr (Sum e op t) \<longleftrightarrow> bounded_expr e \<and> bounded_trm t \<and> bounded_op op (usual_expr e) (usual_trm t)"
| "bounded_trm (Factor f) = bounded_fac f"
| "bounded_trm (Product t op f) \<longleftrightarrow> bounded_trm t \<and> bounded_fac f \<and> bounded_op op (usual_trm t) (usual_fac f)"
| "bounded_fac (Number signs n) = True"
| "bounded_fac (Paren e) = bounded_expr e"

lemma Calculate_usual:
  assumes "bounded_op op a b" and "op \<in> {CHR ''+'', CHR ''-'', CHR ''*'', CHR ''/''}"
  shows "Calculate a b op = Inr (usual_op op a b)"
proof -
  have c: "chk32 x = Inr x" if "- (2 ^ 31) < x" "x < 2 ^ 31" for x using that by (simp add: chk32_def in_i32_def)
  have u: "- (2 ^ 31) < usual_op op a b" "usual_op op a b < 2 ^ 31" "op = CHR ''/'' \<longrightarrow> b \<noteq> 0"
    using assms(1) by (simp_all add: bounded_op_def)
  consider "op = CHR ''+''" | "op = CHR ''-''" | "op = CHR ''*''" | "op = CHR ''/''" using assms(2) by blast
  then show ?thesis
  proof cases
    case 4
    then have "usual_op op a b = cdiv a b" by (simp add: usual_op_def cdiv_def)
    then show ?thesis using 4 u c [of "cdiv a b"] by (simp add: Calculate_def)
  qed (use u c in \<open>simp_all add: Calculate_def usual_op_def\<close>)
qed

lemma value_usual:
  "expr_ok e \<Longrightarrow> bounded_expr e \<Longrightarrow> expr_value e = Inr (usual_expr e)"
  "trm_ok t \<Longrightarrow> bounded_trm t \<Longrightarrow> trm_value t = Inr (usual_trm t)"
  "fac_ok f \<Longrightarrow> bounded_fac f \<Longrightarrow> fac_value f = Inr (usual_fac f)"
proof (induction e and t and f)
  case (Number signs n)
  then show ?case by simp
qed (auto intro!: Calculate_usual)

text \<open>
  Property C25. An expression gets its value: sums, products, numbers with signs and parentheses, followed by \<open>#\<close>, are
  evaluated by the usual rules, quotients rounded towards zero, as long as numbers have at most nine digits, no minus follows a
  parenthesis, no divisor is zero and every intermediate result lies strictly between \<open>- 2 ^ 31\<close> and \<open>2 ^ 31\<close>.
\<close>

theorem calculator_evaluates:
  assumes "expr_ok e" and "bounded_expr e"
  shows "EvaluateExpression (show_expr e @ ''#'') = Inr (usual_expr e)"
proof -
  have v: "expr_value e = Inr (usual_expr e)" by (rule value_usual(1) [OF assms])
  have "low 2 []" by (simp add: low_def)
  then obtain c where c: "rfold calc_step (show_expr e) (start [] []) = Inr c" "reached c 2 (usual_expr e) [] []"
    using evaluation(1) [OF assms(1) v] by blast
  have "calc_step c CHR ''#'' = Inr (start [usual_expr e] ''#'')"
    by (rule operator_step [OF c(2), where q = 0]) (simp_all add: GetPriority_def low_def is_digit_def)
  moreover have "takeWhile (\<lambda>c. c \<noteq> CHR 0x00) (show_expr e @ ''#'') = show_expr e @ ''#''"
    using no_nul(1) [OF assms(1)] by (subst takeWhile_eq_all_conv) auto
  ultimately show ?thesis using c(1) by (simp add: EvaluateExpression_def rfold_append start_def [symmetric])
    (simp add: start_def pop_def)
qed

definition sample_expr :: expr where
  "sample_expr = Sum (Sum (Term (Factor (Number 1 7))) CHR ''-'' (Product (Factor (Number 0 2)) CHR ''*'' (Paren (Sum (Term (Factor (Number 0 3))) CHR ''+'' (Factor (Number 0 4))))))
     CHR ''+'' (Factor (Number 2 30))"

theorem calculator_evaluates_witness:
  "show_expr sample_expr = ''-7-2*(3+4)+--30'' \<and> EvaluateExpression (show_expr sample_expr @ ''#'') = Inr 9"
proof -
  have s: "show_expr sample_expr = ''-7-2*(3+4)+--30''" by code_simp
  have "expr_ok sample_expr" "bounded_expr sample_expr" "usual_expr sample_expr = 9"
    by (simp_all add: sample_expr_def bounded_op_def usual_op_def)
  then show ?thesis using calculator_evaluates [of sample_expr] s by simp
qed

text \<open>
  Fact. A minus after a parenthesis is taken for a sign, and so the parenthesis is forgotten; a sign before a
  parenthesis goes to the first number in it; and without the final \<open>#\<close> the last operator is not applied.
\<close>

theorem calculator_misreads:
  "EvaluateExpression ''(7)-2#'' = Inr (- 2) \<and> EvaluateExpression ''-(3+4)#'' = Inr 1 \<and> EvaluateExpression ''1+2'' = Inr 1"
  by code_simp

text \<open>Fact. A number of ten digits leaves no zero in the buffer, and one of eleven overruns it.\<close>

theorem calculator_overruns:
  "EvaluateExpression ''1234567890#'' = Inl Out_of_bounds \<and> EvaluateExpression ''12345678901#'' = Inl Out_of_bounds"
  by code_simp

end
