(* ===== verification/Win_Connection.thy ===== *)
theory Win_Connection
  imports Net_Buffer Simulation "HOL-Library.Sublist"
begin

text \<open>
  A connection of the network library on completion ports (\<open>src/NetworkInfraWin/src/tcp_connection.cpp\<close>, with the
  closing part of \<open>tcp_server.cpp\<close>, \<open>notifier.cpp\<close> and the tasks of \<open>event_loop.cpp\<close>): reads and writes are started on the
  memory of the two buffers and reported when they are complete. The theory shows that bytes go out and come
  in unaltered and in order, what a client must do so that nothing dangles, and that a connection is closed
  when its input buffer is full.
\<close>

section \<open>The connection\<close>

datatype State = Connecting | Connected | Disconnecting | Disconnected

datatype IOEvent = ReadProbe | Read | Write_event

datatype conn_task = Send_task "byte list" | Shutdown_task | Destroy_task

text \<open>
  \<open>tasks\<close> are the tasks of this connection in the queue of the loop, and \<open>batch\<close> those taken out that still have to run. The
  connection is \<open>freed\<close> when the batch with its destruction is, since clients are taken to hold no
  reference of their own. \<open>read_posted\<close> and \<open>write_posted\<close> are the operations under way: where in the buffer, and how
  many bytes. The last five fields are not the code's: the bytes sent, those sent before \<open>shutdown\<close>, those submitted for
  sending, those delivered and those the client consumed.
\<close>

record win_conn =
  state :: State
  connection_handler :: bool
  message_handler :: bool
  input_buf :: buffer
  output_buf :: buffer
  read_event :: IOEvent
  oustanding_writes :: int
  in_server :: bool
  tasks :: "conn_task list"
  batch :: "conn_task list"
  freed :: bool
  read_posted :: "(nat \<times> nat) option"
  write_posted :: "(nat \<times> nat) option"
  wire :: "byte list"
  shut :: "byte list option"
  submitted :: "byte list"
  delivered :: "byte list"
  consumed :: "byte list"

definition TCPConnection :: "bool \<Rightarrow> bool \<Rightarrow> win_conn" where
  "TCPConnection conn_handler msg_handler =
     \<lparr>state = Connecting, connection_handler = conn_handler, message_handler = msg_handler, input_buf = Buffer_default,
      output_buf = Buffer_default, read_event = ReadProbe, oustanding_writes = 0, in_server = True, tasks = [], batch = [],
      freed = False, read_posted = None, write_posted = None, wire = [], shut = None, submitted = [], delivered = [], consumed = []\<rparr>"

section \<open>Starting operations\<close>

text \<open>\<open>post_ok\<close>: whether the operation could be started; otherwise the code only logs.\<close>

definition PostReadProbe :: "bool \<Rightarrow> win_conn \<Rightarrow> win_conn" where
  "PostReadProbe post_ok c = (if post_ok then c\<lparr>read_posted := Some (0, 0)\<rparr> else c)"

definition PostRead :: "bool \<Rightarrow> win_conn \<Rightarrow> win_conn res" where
  "PostRead post_ok c =
     rbind (guard (read_event c = Read) Ensure_failed) (\<lambda>_.
     Inr (if post_ok then c\<lparr>read_posted := Some (BeginWrite (input_buf c), writable_size (input_buf c))\<rparr> else c))"

definition PostWrite :: "bool \<Rightarrow> win_conn \<Rightarrow> win_conn" where
  "PostWrite post_ok c =
     (let c = c\<lparr>oustanding_writes := oustanding_writes c + 1\<rparr>
      in if post_ok then c\<lparr>write_posted := Some (Peek (output_buf c), readable_size (output_buf c))\<rparr> else c)"

section \<open>Operations\<close>

text \<open>The connection handler may send or shut down; that commutes with starting the probe and is a step of its own.\<close>

definition EstablishConnection :: "bool \<Rightarrow> bool \<Rightarrow> win_conn \<Rightarrow> win_conn res" where
  "EstablishConnection on_loop_thread post_ok c =
     rbind (guard on_loop_thread Ensure_failed) (\<lambda>_.
     rbind (guard (state c = Connecting) Ensure_failed) (\<lambda>_.
     Inr (PostReadProbe post_ok (c\<lparr>state := Connected\<rparr>))))"

definition DestroyConnection :: "win_conn \<Rightarrow> win_conn res" where
  "DestroyConnection c =
     (let c = c\<lparr>state := Disconnected\<rparr>
      in rbind (guard (connection_handler c) (Thrown ''bad_function_call'')) (\<lambda>_. Inr c))"

text \<open>
  Memory handed to the system must stay as it is until the operation is complete: making room in the buffer, which moves
  its bytes or its storage, leaves the system with dangling memory.
\<close>

definition stays :: "buffer \<Rightarrow> buffer \<Rightarrow> bool" where
  "stays b b' \<longleftrightarrow> length (buf b') = length (buf b) \<and> reader_index b' = reader_index b"

definition SendInLoop :: "bool \<Rightarrow> byte list \<Rightarrow> win_conn \<Rightarrow> win_conn res" where
  "SendInLoop post_ok msg c =
     rbind (Write (output_buf c) msg) (\<lambda>b.
     rbind (guard (write_posted c = None \<or> stays (output_buf c) b) Null_deref) (\<lambda>_.
     let c = c\<lparr>output_buf := b, submitted := submitted c @ msg\<rparr>
     in Inr (if oustanding_writes c = 0 then PostWrite post_ok c else c)))"

definition ShutdownInLoop :: "win_conn \<Rightarrow> win_conn" where
  "ShutdownInLoop c = (if oustanding_writes c = 0 then c\<lparr>shut := Some (submitted c)\<rparr> else c)"

definition Send :: "bool \<Rightarrow> bool \<Rightarrow> byte list \<Rightarrow> win_conn \<Rightarrow> win_conn res" where
  "Send on_loop_thread post_ok msg c =
     (if state c \<noteq> Connected then Inr c
      else if on_loop_thread then SendInLoop post_ok msg c
      else Inr (c\<lparr>tasks := tasks c @ [Send_task msg]\<rparr>))"

definition Shutdown :: "bool \<Rightarrow> win_conn \<Rightarrow> win_conn" where
  "Shutdown on_loop_thread c =
     (if state c = Connected then
        let c = c\<lparr>state := Disconnecting\<rparr>
        in if on_loop_thread then ShutdownInLoop c else c\<lparr>tasks := tasks c @ [Shutdown_task]\<rparr>
      else c)"

text \<open>\<open>TCPServer::RemoveConnection\<close>, the close handler.\<close>

definition RemoveConnection :: "win_conn \<Rightarrow> win_conn res" where
  "RemoveConnection c =
     rbind (guard (in_server c) Ensure_failed) (\<lambda>_.
     Inr (c\<lparr>in_server := False, tasks := tasks c @ [Destroy_task]\<rparr>))"

definition HandleClose :: "win_conn \<Rightarrow> win_conn res" where
  "HandleClose c =
     rbind (guard (state c = Connected \<or> state c = Disconnecting) Ensure_failed) (\<lambda>_. RemoveConnection c)"

text \<open>The message handler is called, also after the probe, and consumes \<open>k\<close> bytes.\<close>

definition call_message_handler :: "nat \<Rightarrow> win_conn \<Rightarrow> win_conn res" where
  "call_message_handler k c =
     (if message_handler c then
        rbind (Consume (input_buf c) k) (\<lambda>b. Inr (c\<lparr>input_buf := b, consumed := consumed c @ take k (contents (input_buf c))\<rparr>))
      else Inr c)"

definition HandleReadCompletion :: "bool \<Rightarrow> nat \<Rightarrow> nat \<Rightarrow> win_conn \<Rightarrow> win_conn res" where
  "HandleReadCompletion post_ok bytes_transferred k c =
     (if read_event c \<noteq> ReadProbe \<and> bytes_transferred = 0 then HandleClose c
      else
        rbind (if read_event c = ReadProbe then Inr (c\<lparr>read_event := Read\<rparr>)
               else rbind (EndWrite (input_buf c) bytes_transferred) (\<lambda>b. Inr (c\<lparr>input_buf := b\<rparr>))) (\<lambda>c.
        rbind (call_message_handler k c) (PostRead post_ok)))"

definition HandleWriteCompletion :: "bool \<Rightarrow> nat \<Rightarrow> win_conn \<Rightarrow> win_conn res" where
  "HandleWriteCompletion post_ok bytes_transferred c =
     (let c = c\<lparr>oustanding_writes := oustanding_writes c - 1\<rparr> in
      rbind (Consume (output_buf c) bytes_transferred) (\<lambda>b.
      let c = c\<lparr>output_buf := b\<rparr> in
      Inr (if readable_size (output_buf c) > 0 then PostWrite post_ok c
           else if state c = Disconnecting then ShutdownInLoop c else c)))"

text \<open>\<open>Notifier::HandleCompletionEvent\<close>; \<open>EventPump::Pump\<close> has put the number of bytes into the context.\<close>

definition HandleCompletionEvent :: "bool \<Rightarrow> IOEvent \<Rightarrow> nat \<Rightarrow> nat \<Rightarrow> win_conn \<Rightarrow> win_conn res" where
  "HandleCompletionEvent post_ok io_event bytes_transferred k c = (case io_event of
     ReadProbe \<Rightarrow> HandleReadCompletion post_ok bytes_transferred k c
   | Read \<Rightarrow> HandleReadCompletion post_ok bytes_transferred k c
   | Write_event \<Rightarrow> HandleWriteCompletion post_ok bytes_transferred c)"

definition run_conn_task :: "bool \<Rightarrow> conn_task \<Rightarrow> win_conn \<Rightarrow> win_conn res" where
  "run_conn_task post_ok t c = (case t of
     Send_task msg \<Rightarrow> SendInLoop post_ok msg c
   | Shutdown_task \<Rightarrow> Inr (ShutdownInLoop c)
   | Destroy_task \<Rightarrow> DestroyConnection c)"

section \<open>Steps\<close>

text \<open>
  Calls of clients, operations that end, and the loop taking out its tasks and running them. The system delivers at
  most as many bytes as there is room for, none after the peer has closed, and sends at most what it was
  given. Completions are handled between batches of tasks. Whatever concerns a freed connection goes through a dangling pointer.
\<close>

datatype win_op =
    Call_send bool bool "byte list"
  | Call_shutdown bool
  | Read_done bool "byte list" nat
  | Write_done bool nat
  | Take_tasks
  | Run_task bool

definition not_freed :: "win_conn \<Rightarrow> win_conn res \<Rightarrow> win_conn res" where
  "not_freed c r = rbind (guard (\<not> freed c) Null_deref) (\<lambda>_. r)"

definition end_batch :: "win_conn \<Rightarrow> win_conn" where
  "end_batch c = (if batch c = [] \<and> state c = Disconnected then c\<lparr>freed := True\<rparr> else c)"

definition win_step :: "win_conn \<Rightarrow> win_op \<Rightarrow> win_conn res option" where
  "win_step c e = (case e of
     Call_send here post_ok msg \<Rightarrow> Some (not_freed c (Send here post_ok msg c))
   | Call_shutdown here \<Rightarrow> Some (not_freed c (Inr (Shutdown here c)))
   | Read_done post_ok bs k \<Rightarrow> (case read_posted c of
       None \<Rightarrow> None
     | Some (off, n) \<Rightarrow>
         if batch c \<noteq> [] \<or> length bs > n \<or> message_handler c \<and> k > readable_size (input_buf c) + length bs then None
         else Some (not_freed c (rbind (store (buf (input_buf c)) off bs) (\<lambda>m.
           HandleCompletionEvent post_ok (read_event c) (length bs) k
             (c\<lparr>input_buf := (input_buf c)\<lparr>buf := m\<rparr>, delivered := delivered c @ bs, read_posted := None\<rparr>)))))
   | Write_done post_ok k \<Rightarrow> (case write_posted c of
       None \<Rightarrow> None
     | Some (off, n) \<Rightarrow>
         if batch c \<noteq> [] \<or> k > n then None
         else Some (not_freed c (rbind (load (buf (output_buf c)) off n) (\<lambda>bs.
           HandleCompletionEvent post_ok Write_event k 0 (c\<lparr>wire := wire c @ take k bs, write_posted := None\<rparr>)))))
   | Take_tasks \<Rightarrow> if batch c \<noteq> [] then None else Some (Inr (c\<lparr>batch := tasks c, tasks := []\<rparr>))
   | Run_task post_ok \<Rightarrow> (case batch c of
       [] \<Rightarrow> None
     | t # ts \<Rightarrow> Some (not_freed c (rbind (run_conn_task post_ok t (c\<lparr>batch := ts\<rparr>)) (\<lambda>c. Inr (end_batch c))))))"

section \<open>The invariant\<close>

definition write_ok :: "(nat \<times> nat) option \<Rightarrow> buffer \<Rightarrow> bool" where
  "write_ok p b \<longleftrightarrow> (\<forall>off n. p = Some (off, n) \<longrightarrow> off = Peek b \<and> n \<le> readable_size b)"

definition read_ok :: "IOEvent \<Rightarrow> (nat \<times> nat) option \<Rightarrow> buffer \<Rightarrow> bool" where
  "read_ok ev p b \<longleftrightarrow> (\<forall>off n. p = Some (off, n) \<longrightarrow>
     (if ev = ReadProbe then off = 0 \<and> n = 0 else off = BeginWrite b \<and> n = writable_size b))"

definition shut_ok :: "byte list option \<Rightarrow> byte list \<Rightarrow> bool" where
  "shut_ok sh w \<longleftrightarrow> (\<forall>s. sh = Some s \<longrightarrow> prefix s w)"

definition win_ok :: "win_conn \<Rightarrow> bool" where
  "win_ok c \<longleftrightarrow> buffer_inv (input_buf c) \<and> buffer_inv (output_buf c) \<and>
     submitted c = wire c @ contents (output_buf c) \<and> delivered c = consumed c @ contents (input_buf c) \<and>
     (oustanding_writes c = 0 \<and> contents (output_buf c) = [] \<and> write_posted c = None \<or> oustanding_writes c = 1) \<and>
     write_ok (write_posted c) (output_buf c) \<and> read_event c \<noteq> Write_event \<and>
     read_ok (read_event c) (read_posted c) (input_buf c) \<and> shut_ok (shut c) (wire c) \<and>
     length (buf (input_buf c)) = kDefaultInitialSize + kDefaultPrependSize \<and> (read_event c = ReadProbe \<longrightarrow> delivered c = []) \<and>
     (consumed c = [] \<longrightarrow> reader_index (input_buf c) = kDefaultPrependSize)"

lemma posted_simps [simp]:
  "write_ok None b" "write_ok (Some (off, n)) b \<longleftrightarrow> off = Peek b \<and> n \<le> readable_size b" "read_ok ev None b"
  "read_ok ReadProbe (Some (off, n)) b \<longleftrightarrow> off = 0 \<and> n = 0" "shut_ok None w" "shut_ok (Some s) w \<longleftrightarrow> prefix s w"
  "ev \<noteq> ReadProbe \<Longrightarrow> read_ok ev (Some (off, n)) b \<longleftrightarrow> off = BeginWrite b \<and> n = writable_size b"
  by (simp_all add: write_ok_def read_ok_def shut_ok_def)

definition established :: "bool \<Rightarrow> bool \<Rightarrow> win_conn \<Rightarrow> bool" where
  "established conn_handler msg_handler c \<longleftrightarrow>
     (\<exists>post_ok. EstablishConnection True post_ok (TCPConnection conn_handler msg_handler) = Inr c)"

lemma established_ok: "established ch mh c \<Longrightarrow> win_ok c"
  by (auto simp: established_def EstablishConnection_def TCPConnection_def win_ok_def PostReadProbe_def Buffer_default_def
    buffer_inv_def contents_def size_defs Buffer_sized_def fault_simps
    split: if_splits)

lemma readable_zero: "buffer_inv b \<Longrightarrow> readable_size b = 0 \<longleftrightarrow> contents b = []"
  using length_contents [of b] by (metis length_0_conv)

lemma PostWrite_ok:
  assumes "win_ok (c\<lparr>oustanding_writes := 1, write_posted := None\<rparr>)" and "oustanding_writes c = 0" and "write_posted c = None"
  shows "win_ok (PostWrite post_ok c)"
  using assms by (auto simp: win_ok_def PostWrite_def Let_def)

lemma SendInLoop_ok:
  assumes "win_ok c" and "SendInLoop post_ok msg c = Inr c'"
  shows "win_ok c'"
proof -
  have inv: "buffer_inv (output_buf c)" using assms(1) by (simp add: win_ok_def)
  obtain b where b: "Write (output_buf c) msg = Inr b" "buffer_inv b" "contents b = contents (output_buf c) @ msg" using Write_ok [OF inv] by blast
  let ?c = "c\<lparr>output_buf := b, submitted := submitted c @ msg\<rparr>"
  have st: "write_posted c = None \<or> stays (output_buf c) b" and c': "c' = (if oustanding_writes c = 0 then PostWrite post_ok ?c else ?c)"
    using assms(2) b(1) by (auto simp: SendInLoop_def rbind_Inr_iff guard_Inr_iff Let_def)
  have r: "readable_size b \<ge> readable_size (output_buf c)"
    using length_contents [OF b(2)] length_contents [OF inv] b(3) by simp
  have p: "Peek b = Peek (output_buf c)" if "write_posted c \<noteq> None" using st that by (simp add: stays_def Peek_def cbegin_def)
  have base: "win_ok (?c\<lparr>oustanding_writes := 1\<rparr>)"
    using assms(1) b(2,3) r p by (cases "write_posted c") (auto simp: win_ok_def)
  show ?thesis
  proof (cases "oustanding_writes c = 0")
    case True
    then have n: "write_posted c = None" using assms(1) by (simp add: win_ok_def)
    then have eq: "?c\<lparr>oustanding_writes := 1\<rparr> = ?c\<lparr>oustanding_writes := 1, write_posted := None\<rparr>" by simp
    have "win_ok (?c\<lparr>oustanding_writes := 1, write_posted := None\<rparr>)" using base by (simp only: eq [symmetric])
    moreover have "oustanding_writes ?c = 0" "write_posted ?c = None" using n True by simp_all
    ultimately have "win_ok (PostWrite post_ok ?c)" by (rule PostWrite_ok)
    then show ?thesis using True c' by simp
  next
    case False
    then have "oustanding_writes c = 1" using assms(1) by (auto simp: win_ok_def)
    then have "?c\<lparr>oustanding_writes := 1\<rparr> = ?c" by simp
    then show ?thesis using base False c' by simp
  qed
qed

lemma ShutdownInLoop_ok: "win_ok c \<Longrightarrow> win_ok (ShutdownInLoop c)"
  by (auto simp: win_ok_def ShutdownInLoop_def)

lemma win_ok_frame:
  "win_ok c \<Longrightarrow> win_ok (c\<lparr>state := s\<rparr>)" "win_ok c \<Longrightarrow> win_ok (c\<lparr>tasks := ts\<rparr>)" "win_ok c \<Longrightarrow> win_ok (c\<lparr>batch := bs\<rparr>)"
  "win_ok c \<Longrightarrow> win_ok (c\<lparr>freed := f\<rparr>)" "win_ok c \<Longrightarrow> win_ok (c\<lparr>in_server := i\<rparr>)" "win_ok c \<Longrightarrow> win_ok (c\<lparr>read_posted := None\<rparr>)"
  by (auto simp: win_ok_def)

lemma Send_ok: "win_ok c \<Longrightarrow> Send here post_ok msg c = Inr c' \<Longrightarrow> win_ok c'"
  by (auto simp: Send_def intro: SendInLoop_ok win_ok_frame split: if_splits)

lemma Shutdown_ok: "win_ok c \<Longrightarrow> win_ok (Shutdown here c)"
  by (auto simp: Shutdown_def Let_def intro!: ShutdownInLoop_ok win_ok_frame)

lemma run_conn_task_ok: "win_ok c \<Longrightarrow> run_conn_task post_ok t c = Inr c' \<Longrightarrow> win_ok c'"
  by (cases t) (auto simp: run_conn_task_def DestroyConnection_def rbind_Inr_iff Let_def
    intro: SendInLoop_ok ShutdownInLoop_ok win_ok_frame)

lemma HandleWriteCompletion_ok:
  assumes "win_ok c" and "write_posted c = Some (off, n)" and "k \<le> n"
  shows "\<exists>bs c'. load (buf (output_buf c)) off n = Inr bs \<and>
    HandleWriteCompletion post_ok k (c\<lparr>wire := wire c @ take k bs, write_posted := None\<rparr>) = Inr c' \<and> win_ok c'"
proof -
  have w: "buffer_inv (output_buf c)" "off = Peek (output_buf c)" "n \<le> readable_size (output_buf c)" "oustanding_writes c = 1"
    using assms(1,2) by (auto simp: win_ok_def)
  let ?o = "contents (output_buf c)"
  have l: "load (buf (output_buf c)) off n = Inr (take n ?o)" using load_contents [OF w(1,3)] w(2) by simp
  obtain b where b: "Consume (output_buf c) k = Inr b" "buffer_inv b" "contents b = drop k ?o"
    using Consume_ok [OF w(1), of k] assms(3) w(3) by auto
  let ?c = "c\<lparr>wire := wire c @ take k (take n ?o), write_posted := None, oustanding_writes := 0, output_buf := b\<rparr>"
  have sh: "prefix s (wire c @ take k ?o)" if "shut c = Some s" for s using assms(1) that by (auto simp: win_ok_def)
  then have "shut_ok (shut c) (wire c @ take k ?o)" by (simp add: shut_ok_def)
  then have base: "win_ok (?c\<lparr>oustanding_writes := 1, write_posted := None\<rparr>)"
    using assms(1,3) b(2,3) by (auto simp: win_ok_def min_absorb1)
  have fin: "win_ok ?c" if "contents b = []" using base that by (auto simp: win_ok_def)
  have "HandleWriteCompletion post_ok k (c\<lparr>wire := wire c @ take k (take n ?o), write_posted := None\<rparr>) =
      Inr (if readable_size b > 0 then PostWrite post_ok ?c else if state c = Disconnecting then ShutdownInLoop ?c else ?c)"
    using b(1) w(4) by (simp add: HandleWriteCompletion_def Let_def)
  moreover have "win_ok (if readable_size b > 0 then PostWrite post_ok ?c else if state c = Disconnecting then ShutdownInLoop ?c else ?c)"
    using PostWrite_ok [OF base] fin readable_zero [OF b(2)] ShutdownInLoop_ok [OF fin] by simp
  ultimately show ?thesis using l by blast
qed

lemma HandleClose_ok: "win_ok c \<Longrightarrow> HandleClose c = Inr c' \<Longrightarrow> win_ok c'"
  by (auto simp: HandleClose_def RemoveConnection_def rbind_Inr_iff guard_Inr_iff win_ok_def)

text \<open>What the message handler does, and the next read.\<close>

lemma handled_ok:
  assumes "win_ok c" and "read_event c = Read" and "read_posted c = None" and "message_handler c \<Longrightarrow> k \<le> readable_size (input_buf c)"
  shows "\<exists>c'. rbind (call_message_handler k c) (PostRead post_ok) = Inr c' \<and> win_ok c' \<and>
    (\<exists>b w r. c' = c\<lparr>input_buf := b, consumed := w, read_posted := r\<rparr>)"
proof -
  have post: "\<exists>c'. PostRead post_ok d = Inr c' \<and> win_ok c' \<and> (\<exists>r. c' = d\<lparr>read_posted := r\<rparr>)"
    if "win_ok d" "read_event d = Read" "read_posted d = None" for d
  proof (cases post_ok)
    case True
    let ?d = "d\<lparr>read_posted := Some (BeginWrite (input_buf d), writable_size (input_buf d))\<rparr>"
    have "win_ok ?d" using that by (simp add: win_ok_def)
    then show ?thesis using True that(2) by (auto simp: PostRead_def)
  next
    case False
    have "d = d\<lparr>read_posted := None\<rparr>" using that(3) by simp
    then have "\<exists>r. d = d\<lparr>read_posted := r\<rparr>" by (rule exI)
    then show ?thesis using False that by (simp add: PostRead_def)
  qed
  show ?thesis
  proof (cases "message_handler c")
    case True
    have inv: "buffer_inv (input_buf c)" using assms(1) by (simp add: win_ok_def)
    obtain b where b: "Consume (input_buf c) k = Inr b" "buffer_inv b" "contents b = drop k (contents (input_buf c))"
      using Consume_ok [OF inv assms(4) [OF True]] by blast
    have len: "length (buf b) = length (buf (input_buf c))" and idx: "consumed c @ take k (contents (input_buf c)) = [] \<Longrightarrow>
        reader_index (input_buf c) = kDefaultPrependSize \<Longrightarrow> reader_index b = kDefaultPrependSize"
      using b(1) length_contents [OF inv] by (auto simp: Consume_def ConsumeAll_def rbind_Inr_iff guard_Inr_iff Let_def split: if_splits)
    let ?d = "c\<lparr>input_buf := b, consumed := consumed c @ take k (contents (input_buf c))\<rparr>"
    have "win_ok ?d" using assms(1,3) b(2,3) len idx by (auto simp: win_ok_def)
    then obtain c' r where "PostRead post_ok ?d = Inr c'" "win_ok c'" "c' = ?d\<lparr>read_posted := r\<rparr>" using post [of ?d] assms(2,3) by auto
    then show ?thesis using True b(1) by (intro exI [of _ c']) (auto simp: call_message_handler_def intro: exI)
  next
    case False
    obtain c' r where c': "PostRead post_ok c = Inr c'" "win_ok c'" "c' = c\<lparr>read_posted := r\<rparr>" using post [OF assms(1-3)] by auto
    have "c' = c\<lparr>input_buf := input_buf c, consumed := consumed c, read_posted := r\<rparr>" using c'(3) by simp
    then show ?thesis using False c'(1,2) by (simp only: call_message_handler_def if_False rbind_simps) blast
  qed
qed

lemma HandleReadCompletion_ok:
  assumes "win_ok c" and "read_posted c = Some (off, n)" and "length bs \<le> n"
    and "message_handler c \<Longrightarrow> k \<le> readable_size (input_buf c) + length bs"
  shows "\<exists>m. store (buf (input_buf c)) off bs = Inr m \<and>
    (let d = c\<lparr>input_buf := (input_buf c)\<lparr>buf := m\<rparr>, delivered := delivered c @ bs, read_posted := None\<rparr>;
         r = HandleReadCompletion post_ok (length bs) k d
     in if read_event c = Read \<and> bs = [] then r = HandleClose d \<and> win_ok d
        else \<exists>c'. r = Inr c' \<and> win_ok c' \<and> (\<exists>b w rp dv. c' = c\<lparr>input_buf := b, consumed := w, delivered := dv, read_event := Read, read_posted := rp\<rparr>))"
proof -
  have inv: "buffer_inv (input_buf c)" and ev: "read_event c = ReadProbe \<or> read_event c = Read"
    using assms(1) by (auto simp: win_ok_def intro: IOEvent.exhaust)
  show ?thesis
  proof (cases "read_event c = ReadProbe")
    case True
    then have p: "off = 0" "bs = []" using assms(1-3) by (auto simp: win_ok_def)
    have st: "store (buf (input_buf c)) off bs = Inr (buf (input_buf c))" using p by (simp add: store_def)
    let ?d = "c\<lparr>input_buf := (input_buf c)\<lparr>buf := buf (input_buf c)\<rparr>, delivered := delivered c @ bs, read_posted := None, read_event := Read\<rparr>"
    have "win_ok ?d" using assms(1) p by (simp add: win_ok_def)
    moreover have "message_handler ?d \<Longrightarrow> k \<le> readable_size (input_buf ?d)" using assms(4) p by simp
    ultimately obtain c' b w r where c': "rbind (call_message_handler k ?d) (PostRead post_ok) = Inr c'" "win_ok c'" "c' = ?d\<lparr>input_buf := b, consumed := w, read_posted := r\<rparr>"
      using handled_ok [of ?d k post_ok] by auto
    have "c' = c\<lparr>input_buf := b, consumed := w, delivered := delivered c @ bs, read_event := Read, read_posted := r\<rparr>" using c'(3) by simp
    moreover have "HandleReadCompletion post_ok (length bs) k
        (c\<lparr>input_buf := (input_buf c)\<lparr>buf := buf (input_buf c)\<rparr>, delivered := delivered c @ bs, read_posted := None\<rparr>) = Inr c'"
      using c'(1) True by (simp add: HandleReadCompletion_def)
    ultimately show ?thesis using st True c'(2) by (auto simp: Let_def)
  next
    case False
    then have r: "read_event c = Read" using ev by simp
    have p: "off = BeginWrite (input_buf c)" "n = writable_size (input_buf c)" using assms(1,2) r by (auto simp: win_ok_def)
    obtain m where m: "store (buf (input_buf c)) off bs = Inr m" "length m = length (buf (input_buf c))"
      "buffer_inv ((input_buf c)\<lparr>buf := m, writer_index := writer_index (input_buf c) + length bs\<rparr>)"
      "contents ((input_buf c)\<lparr>buf := m, writer_index := writer_index (input_buf c) + length bs\<rparr>) = contents (input_buf c) @ bs"
      using fill_ok [OF inv] assms(3) p by auto
    let ?b = "(input_buf c)\<lparr>buf := m, writer_index := writer_index (input_buf c) + length bs\<rparr>"
    let ?d = "c\<lparr>input_buf := (input_buf c)\<lparr>buf := m\<rparr>, delivered := delivered c @ bs, read_posted := None\<rparr>"
    let ?e = "?d\<lparr>input_buf := ?b\<rparr>"
    have ee: "win_ok ?e" using assms(1) m(2-4) r by (simp add: win_ok_def)
    show ?thesis
    proof (cases "bs = []")
      case True
      have eq: "?b = (input_buf c)\<lparr>buf := m\<rparr>" using True by simp
      have "win_ok ?d" using assms(1) m(2-4) r unfolding eq by (simp add: win_ok_def)
      then show ?thesis using m(1) r True by (simp add: HandleReadCompletion_def)
    next
      case nonempty: False
      have "message_handler ?e \<Longrightarrow> k \<le> readable_size (input_buf ?e)"
        using assms(4) inv by (auto simp: readable_size_def buffer_inv_def)
      then obtain c' b w rp where c': "rbind (call_message_handler k ?e) (PostRead post_ok) = Inr c'" "win_ok c'" "c' = ?e\<lparr>input_buf := b, consumed := w, read_posted := rp\<rparr>"
        using handled_ok [OF ee, of k post_ok] r by auto
      have "length bs \<le> writable_size ((input_buf c)\<lparr>buf := m\<rparr>)" using assms(3) p m(2) by (simp add: writable_size_def)
      then have "HandleReadCompletion post_ok (length bs) k ?d = Inr c'"
        using c'(1) r nonempty by (simp add: HandleReadCompletion_def EndWrite_ok)
      moreover have "c' = c\<lparr>input_buf := b, consumed := w, delivered := delivered c @ bs, read_event := Read, read_posted := rp\<rparr>" using c'(3) r by simp
      ultimately show ?thesis using m(1) nonempty c'(2) by (auto simp: Let_def)
    qed
  qed
qed

lemma win_step_ok:
  assumes "win_ok c" and "win_step c e = Some (Inr c')"
  shows "win_ok c'"
proof (cases e)
  case (Call_send here post_ok msg)
  then show ?thesis using assms by (auto simp: win_step_def not_freed_def rbind_Inr_iff intro: Send_ok)
next
  case (Call_shutdown here)
  then show ?thesis using assms by (auto simp: win_step_def not_freed_def rbind_Inr_iff intro: Shutdown_ok)
next
  case (Read_done post_ok bs k)
  obtain off n where p: "read_posted c = Some (off, n)" "length bs \<le> n" "message_handler c \<Longrightarrow> k \<le> readable_size (input_buf c) + length bs"
    using assms(2) Read_done by (auto simp: win_step_def split: option.splits if_splits)
  obtain m where m: "store (buf (input_buf c)) off bs = Inr m"
    "let d = c\<lparr>input_buf := (input_buf c)\<lparr>buf := m\<rparr>, delivered := delivered c @ bs, read_posted := None\<rparr>;
         r = HandleReadCompletion post_ok (length bs) k d
     in if read_event c = Read \<and> bs = [] then r = HandleClose d \<and> win_ok d
        else \<exists>c'. r = Inr c' \<and> win_ok c' \<and> (\<exists>b w rp dv. c' = c\<lparr>input_buf := b, consumed := w, delivered := dv, read_event := Read, read_posted := rp\<rparr>)"
    using HandleReadCompletion_ok [OF assms(1) p, of post_ok] by blast
  let ?d = "c\<lparr>input_buf := (input_buf c)\<lparr>buf := m\<rparr>, delivered := delivered c @ bs, read_posted := None\<rparr>"
  have ev: "HandleCompletionEvent post_ok (read_event c) (length bs) k ?d = HandleReadCompletion post_ok (length bs) k ?d"
    using assms(1) by (cases "read_event c") (simp_all add: HandleCompletionEvent_def win_ok_def)
  have "HandleReadCompletion post_ok (length bs) k ?d = Inr c'"
    using assms(2) Read_done p m(1) ev by (auto simp: win_step_def not_freed_def rbind_Inr_iff split: if_splits)
  then show ?thesis using m(2) HandleClose_ok by (auto simp: Let_def split: if_splits)
next
  case (Write_done post_ok k)
  obtain off n where p: "write_posted c = Some (off, n)" "k \<le> n"
    using assms(2) Write_done by (auto simp: win_step_def split: option.splits if_splits)
  then show ?thesis using assms(2) Write_done HandleWriteCompletion_ok [OF assms(1) p, of post_ok]
    by (auto simp: win_step_def not_freed_def HandleCompletionEvent_def rbind_Inr_iff split: if_splits)
next
  case Take_tasks
  then show ?thesis using assms by (auto simp: win_step_def win_ok_def split: if_splits)
next
  case (Run_task post_ok)
  then obtain t ts d where d: "batch c = t # ts" "run_conn_task post_ok t (c\<lparr>batch := ts\<rparr>) = Inr d" "c' = end_batch d"
    using assms(2) by (auto simp: win_step_def not_freed_def rbind_Inr_iff split: list.splits)
  have "win_ok d" using run_conn_task_ok [OF _ d(2)] assms(1) win_ok_frame(3) by blast
  then show ?thesis using d(3) by (simp add: end_batch_def win_ok_frame)
qed

lemma win_run_ok: "established ch mh c \<Longrightarrow> orun win_step ops c = Some (Inr c') \<Longrightarrow> win_ok c'"
  using orun_invariant [where P = win_ok and f = win_step] win_step_ok established_ok by blast

text \<open>
  What a client has to see to: a message is sent only while the connection is in the server, and while a write is
  under way only if there is room for it; the connection is not closed while a write is under way.
\<close>

definition room :: "win_conn \<Rightarrow> byte list \<Rightarrow> bool" where
  "room c msg \<longleftrightarrow> write_posted c = None \<or> length msg \<le> writable_size (output_buf c)"

definition careful :: "win_conn \<Rightarrow> win_op \<Rightarrow> bool" where
  "careful c e = (case e of
     Call_send here post_ok msg \<Rightarrow> in_server c \<and> (here \<longrightarrow> room c msg)
   | Call_shutdown here \<Rightarrow> in_server c
   | Run_task post_ok \<Rightarrow> (case batch c of
       Send_task msg # ts \<Rightarrow> room c msg
     | Destroy_task # ts \<Rightarrow> write_posted c = None
     | _ \<Rightarrow> True)
   | _ \<Rightarrow> True)"

fun careful_run :: "win_op list \<Rightarrow> win_conn \<Rightarrow> bool" where
  "careful_run [] c = True"
| "careful_run (e # es) c = (careful c e \<and> (case win_step c e of
     None \<Rightarrow> False | Some (Inl f) \<Rightarrow> True | Some (Inr c') \<Rightarrow> careful_run es c'))"

text \<open>The life of a connection: in the server, waiting for its destruction, freed.\<close>

definition in_life :: "win_conn \<Rightarrow> bool" where
  "in_life c \<longleftrightarrow> connection_handler c \<and>
     (if in_server c then (state c = Connected \<or> state c = Disconnecting) \<and> Destroy_task \<notin> set (batch c @ tasks c) \<and> \<not> freed c
      else read_posted c = None \<and>
        (if freed c then write_posted c = None \<and> batch c = [] \<and> tasks c = []
         else (state c = Connected \<or> state c = Disconnecting) \<and> (\<exists>ts. batch c @ tasks c = ts @ [Destroy_task] \<and> Destroy_task \<notin> set ts)))"

lemma SendInLoop_room:
  assumes "win_ok c" and "room c msg"
  shows "\<exists>b w o'. SendInLoop post_ok msg c = Inr (c\<lparr>output_buf := b, submitted := submitted c @ msg, oustanding_writes := o', write_posted := w\<rparr>)"
proof -
  have inv: "buffer_inv (output_buf c)" using assms(1) by (simp add: win_ok_def)
  obtain b where b: "Write (output_buf c) msg = Inr b" using Write_ok [OF inv] by blast
  have "stays (output_buf c) b" if "length msg \<le> writable_size (output_buf c)"
    using b that by (auto simp: Write_def ReserveWritable_def EndWrite_def store_def stays_def rbind_Inr_iff guard_Inr_iff split: if_splits)
  then have st: "write_posted c = None \<or> stays (output_buf c) b" using assms(2) by (auto simp: room_def)
  let ?c = "c\<lparr>output_buf := b, submitted := submitted c @ msg\<rparr>"
  have r: "SendInLoop post_ok msg c = Inr (if oustanding_writes c = 0 then PostWrite post_ok ?c else ?c)"
    using b st by (simp add: SendInLoop_def Let_def)
  have "\<exists>w o'. (if oustanding_writes c = 0 then PostWrite post_ok ?c else ?c) = ?c\<lparr>oustanding_writes := o', write_posted := w\<rparr>"
  proof (cases "oustanding_writes c = 0 \<and> post_ok")
    case True
    then have "PostWrite post_ok ?c = ?c\<lparr>oustanding_writes := 1, write_posted := Some (Peek b, readable_size b)\<rparr>"
      by (simp add: PostWrite_def Let_def)
    then show ?thesis using True by (simp only: if_True simp_thms) blast
  next
    case False
    have "(if oustanding_writes c = 0 then PostWrite post_ok ?c else ?c) =
        ?c\<lparr>oustanding_writes := (if oustanding_writes c = 0 then 1 else oustanding_writes c), write_posted := write_posted c\<rparr>"
      using False by (auto simp: PostWrite_def Let_def)
    then show ?thesis by blast
  qed
  then obtain w o' where "SendInLoop post_ok msg c = Inr (?c\<lparr>oustanding_writes := o', write_posted := w\<rparr>)" using r by auto
  then show ?thesis by blast
qed

lemma PostWrite_form: "\<exists>w o'. PostWrite post_ok c = c\<lparr>oustanding_writes := o', write_posted := w\<rparr>"
proof (cases post_ok)
  case True
  then show ?thesis by (auto simp: PostWrite_def Let_def)
next
  case False
  then have "PostWrite post_ok c = c\<lparr>oustanding_writes := oustanding_writes c + 1, write_posted := write_posted c\<rparr>"
    by (simp add: PostWrite_def Let_def)
  then show ?thesis by blast
qed

lemma ShutdownInLoop_form: "\<exists>sh. ShutdownInLoop c = c\<lparr>shut := sh\<rparr>"
proof (cases "oustanding_writes c = 0")
  case False
  then have "ShutdownInLoop c = c\<lparr>shut := shut c\<rparr>" by (simp add: ShutdownInLoop_def)
  then show ?thesis by blast
qed (auto simp: ShutdownInLoop_def)

lemma in_life_frame:
  "in_life c \<Longrightarrow> \<not> freed c \<Longrightarrow> in_life (c\<lparr>output_buf := b, submitted := s, oustanding_writes := o', write_posted := w\<rparr>)"
  "in_life (c\<lparr>shut := sh\<rparr>) = in_life c" "in_life (c\<lparr>oustanding_writes := o'\<rparr>) = in_life c" "in_life (c\<lparr>output_buf := b\<rparr>) = in_life c"
  "in_life (c\<lparr>wire := wr\<rparr>) = in_life c" "in_life c \<Longrightarrow> \<not> freed c \<Longrightarrow> in_life (c\<lparr>write_posted := w\<rparr>)"
  "in_life c \<Longrightarrow> in_server c \<Longrightarrow> in_life (c\<lparr>input_buf := ib, consumed := cs, delivered := d, read_event := ev, read_posted := rp\<rparr>)"
  "in_life c \<Longrightarrow> \<not> freed c \<Longrightarrow> in_life (c\<lparr>oustanding_writes := o', write_posted := w\<rparr>)"
  by (auto simp: in_life_def)

lemma split_end: "x # xs @ ys = zs @ [d] \<Longrightarrow> x \<noteq> d \<Longrightarrow> d \<notin> set zs \<Longrightarrow> \<exists>zs'. xs @ ys = zs' @ [d] \<and> d \<notin> set zs'"
  by (cases zs) auto

lemma split_end_last: "d # xs @ ys = zs @ [d] \<Longrightarrow> d \<notin> set zs \<Longrightarrow> xs = [] \<and> ys = []"
  by (cases zs) auto

lemma step_in_life_task:
  assumes "win_ok c" and "in_life c" and "batch c = t # ts" and "t = Destroy_task \<Longrightarrow> write_posted c = None"
    and "\<And>msg. t = Send_task msg \<Longrightarrow> room c msg"
  shows "\<exists>d. run_conn_task post_ok t (c\<lparr>batch := ts\<rparr>) = Inr d \<and> in_life (end_batch d)"
proof -
  have nf: "\<not> freed c" using assms(2,3) by (auto simp: in_life_def split: if_splits)
  show ?thesis
  proof (cases "t = Destroy_task")
    case True
    then have out: "\<not> in_server c" using assms(2,3) by (auto simp: in_life_def)
    then have "ts = [] \<and> tasks c = []" using assms(2,3) True nf split_end_last [of Destroy_task ts "tasks c"] by (auto simp: in_life_def)
    then show ?thesis using True assms(2,4) out nf
      by (simp add: run_conn_task_def DestroyConnection_def in_life_def end_batch_def Let_def)
  next
    case False
    let ?c = "c\<lparr>batch := ts\<rparr>"
    have st: "state c \<noteq> Disconnected" using assms(2) nf by (auto simp: in_life_def split: if_splits)
    have life: "in_life ?c"
      using assms(2,3) nf False split_end [of t ts "tasks c" _ Destroy_task] by (auto simp: in_life_def)
    show ?thesis
    proof (cases t)
      case (Send_task msg)
      have "room ?c msg" using assms(5) Send_task by (simp add: room_def)
      then obtain b w o' where "SendInLoop post_ok msg ?c = Inr (?c\<lparr>output_buf := b, submitted := submitted ?c @ msg, oustanding_writes := o', write_posted := w\<rparr>)"
        using SendInLoop_room [OF win_ok_frame(3) [OF assms(1)]] by blast
      then show ?thesis using Send_task in_life_frame(1) [OF life] nf st by (simp add: run_conn_task_def end_batch_def)
    next
      case Shutdown_task
      then show ?thesis using ShutdownInLoop_form [of ?c] in_life_frame(2) [where c = ?c] life st by (auto simp: run_conn_task_def end_batch_def)
    next
      case Destroy_task
      then show ?thesis using False by simp
    qed
  qed
qed

lemma careful_step:
  assumes "win_ok c" and "in_life c" and "careful c e" and "win_step c e = Some r"
  shows "\<exists>c'. r = Inr c' \<and> in_life c'"
proof (cases e)
  case (Call_send here post_ok msg)
  then have in': "in_server c" and rm: "here \<Longrightarrow> room c msg" using assms(3) by (simp_all add: careful_def)
  then have nf: "\<not> freed c" using assms(2) by (simp add: in_life_def)
  have r: "r = Send here post_ok msg c" using assms(4) Call_send nf by (simp add: win_step_def not_freed_def)
  show ?thesis
  proof (cases "state c = Connected \<and> here")
    case True
    then show ?thesis using r SendInLoop_room [OF assms(1) rm, of post_ok] in_life_frame(1) [OF assms(2) nf] by (auto simp: Send_def)
  next
    case False
    then show ?thesis using r assms(2) in' by (auto simp: Send_def in_life_def)
  qed
next
  case (Call_shutdown here)
  then have in': "in_server c" using assms(3) by (simp add: careful_def)
  then have nf: "\<not> freed c" using assms(2) by (simp add: in_life_def)
  have r: "r = Inr (Shutdown here c)" using assms(4) Call_shutdown nf by (simp add: win_step_def not_freed_def)
  have "in_life (c\<lparr>state := Disconnecting\<rparr>)" using assms(2) in' by (simp add: in_life_def)
  then show ?thesis using r assms(2) in' ShutdownInLoop_form [of "c\<lparr>state := Disconnecting\<rparr>"] in_life_frame(2) [where c = "c\<lparr>state := Disconnecting\<rparr>"]
    by (cases here) (auto simp: Shutdown_def Let_def in_life_def)
next
  case (Read_done post_ok bs k)
  obtain off n where p: "read_posted c = Some (off, n)" "length bs \<le> n" "message_handler c \<Longrightarrow> k \<le> readable_size (input_buf c) + length bs" "batch c = []"
    using assms(4) Read_done by (auto simp: win_step_def split: option.splits if_splits)
  have in': "in_server c" using assms(2) p(1) by (auto simp: in_life_def split: if_splits)
  then have nf: "\<not> freed c" using assms(2) by (simp add: in_life_def)
  obtain m where m: "store (buf (input_buf c)) off bs = Inr m"
    "let d = c\<lparr>input_buf := (input_buf c)\<lparr>buf := m\<rparr>, delivered := delivered c @ bs, read_posted := None\<rparr>;
         r = HandleReadCompletion post_ok (length bs) k d
     in if read_event c = Read \<and> bs = [] then r = HandleClose d \<and> win_ok d
        else \<exists>c'. r = Inr c' \<and> win_ok c' \<and> (\<exists>b w rp dv. c' = c\<lparr>input_buf := b, consumed := w, delivered := dv, read_event := Read, read_posted := rp\<rparr>)"
    using HandleReadCompletion_ok [OF assms(1) p(1-3), of post_ok] by blast
  let ?d = "c\<lparr>input_buf := (input_buf c)\<lparr>buf := m\<rparr>, delivered := delivered c @ bs, read_posted := None\<rparr>"
  have ev: "HandleCompletionEvent post_ok (read_event c) (length bs) k ?d = HandleReadCompletion post_ok (length bs) k ?d"
    using assms(1) by (cases "read_event c") (simp_all add: HandleCompletionEvent_def win_ok_def)
  have r: "r = HandleReadCompletion post_ok (length bs) k ?d"
    using assms(4) Read_done p m(1) ev nf by (auto simp: win_step_def not_freed_def split: if_splits)
  show ?thesis
  proof (cases "read_event c = Read \<and> bs = []")
    case True
    have "HandleClose ?d = Inr (?d\<lparr>in_server := False, tasks := tasks c @ [Destroy_task]\<rparr>)"
      using assms(2) in' by (auto simp: HandleClose_def RemoveConnection_def in_life_def)
    moreover have "in_life (?d\<lparr>in_server := False, tasks := tasks c @ [Destroy_task]\<rparr>)"
      using assms(2) in' p(4) by (auto simp: in_life_def)
    ultimately show ?thesis using r m(2) True by (simp add: Let_def)
  next
    case False
    then obtain c' b w rp dv where c': "r = Inr c'" "c' = c\<lparr>input_buf := b, consumed := w, delivered := dv, read_event := Read, read_posted := rp\<rparr>"
      using m(2) r by (auto simp: Let_def)
    then show ?thesis using in_life_frame(7) [OF assms(2) in'] by simp
  qed
next
  case (Write_done post_ok k)
  obtain off n where p: "write_posted c = Some (off, n)" "k \<le> n"
    using assms(4) Write_done by (auto simp: win_step_def split: option.splits if_splits)
  have nf: "\<not> freed c" using assms(2) p(1) by (auto simp: in_life_def split: if_splits)
  obtain bs c' where b: "load (buf (output_buf c)) off n = Inr bs"
    "HandleWriteCompletion post_ok k (c\<lparr>wire := wire c @ take k bs, write_posted := None\<rparr>) = Inr c'"
    using HandleWriteCompletion_ok [OF assms(1) p, of post_ok] by blast
  then have "r = Inr c'" using assms(4) Write_done p nf by (auto simp: win_step_def not_freed_def HandleCompletionEvent_def split: if_splits)
  moreover have "in_life c'"
  proof -
    let ?c = "c\<lparr>wire := wire c @ take k bs, write_posted := None\<rparr>"
    have l: "in_life ?c" using in_life_frame(6) [OF assms(2) nf, where w = None] assms(2) nf by (auto simp: in_life_def)
    obtain ob where c': "c' = (let d = ?c\<lparr>oustanding_writes := oustanding_writes c - 1, output_buf := ob\<rparr> in
        if readable_size ob > 0 then PostWrite post_ok d else if state d = Disconnecting then ShutdownInLoop d else d)"
      using b(2) by (auto simp: HandleWriteCompletion_def rbind_Inr_iff Let_def)
    let ?d = "?c\<lparr>oustanding_writes := oustanding_writes c - 1, output_buf := ob\<rparr>"
    have d: "in_life ?d" "\<not> freed ?d" using l nf by (simp_all add: in_life_frame(3,4))
    have "in_life (PostWrite post_ok ?d)"
    proof -
      obtain w o' where e: "PostWrite post_ok ?d = ?d\<lparr>oustanding_writes := o', write_posted := w\<rparr>" using PostWrite_form by blast
      show ?thesis unfolding e by (rule in_life_frame(8) [OF d])
    qed
    moreover have "in_life (ShutdownInLoop ?d)" using ShutdownInLoop_form [of ?d] d(1) in_life_frame(2) by metis
    ultimately show ?thesis using c' d(1) by (simp add: Let_def)
  qed
  ultimately show ?thesis by blast
next
  case Take_tasks
  then have b: "batch c = []" and r: "r = Inr (c\<lparr>batch := tasks c, tasks := []\<rparr>)" using assms(4) by (auto simp: win_step_def split: if_splits)
  have "in_life (c\<lparr>batch := tasks c, tasks := []\<rparr>)"
  proof (cases "in_server c \<or> freed c")
    case True
    then show ?thesis using assms(2) b by (simp add: in_life_def split: if_splits)
  next
    case False
    then show ?thesis using assms(2) b by (simp add: in_life_def)
  qed
  then show ?thesis using r by blast
next
  case (Run_task post_ok)
  then obtain t ts where t: "batch c = t # ts" "r = not_freed c (rbind (run_conn_task post_ok t (c\<lparr>batch := ts\<rparr>)) (\<lambda>c. Inr (end_batch c)))"
    using assms(4) by (auto simp: win_step_def split: list.splits)
  have nf: "\<not> freed c" using assms(2) t(1) by (auto simp: in_life_def split: if_splits)
  have care: "t = Destroy_task \<Longrightarrow> write_posted c = None" "\<And>msg. t = Send_task msg \<Longrightarrow> room c msg"
    using assms(3) Run_task t(1) by (auto simp: careful_def)
  obtain d where "run_conn_task post_ok t (c\<lparr>batch := ts\<rparr>) = Inr d" "in_life (end_batch d)"
    using step_in_life_task [OF assms(1,2) t(1) care, of post_ok] by blast
  then show ?thesis using t(2) nf by (simp add: not_freed_def)
qed

section \<open>Properties\<close>

text \<open>
  Fact. Whatever the client and the system do, the bytes sent followed by those waiting in the output buffer are the
  bytes submitted, the bytes consumed followed by those waiting in the input buffer are the bytes delivered, and the
  sending side is shut down only after all that was submitted before has been sent.
\<close>

theorem win_bytes_in_order:
  assumes "established ch mh c" and "orun win_step ops c = Some (Inr c')"
  shows "submitted c' = wire c' @ contents (output_buf c') \<and> delivered c' = consumed c' @ contents (input_buf c') \<and>
    shut_ok (shut c') (wire c')"
proof -
  have "win_ok c'" by (rule win_run_ok [OF assms])
  then show ?thesis by (simp add: win_ok_def)
qed

definition served :: "win_conn" where
  "served = PostReadProbe True (TCPConnection True True\<lparr>state := Connected\<rparr>)"

lemma served_established: "established True True served"
  unfolding established_def by (intro exI [of _ True]) (simp add: EstablishConnection_def TCPConnection_def served_def)

lemma established_life: "established True mh c \<Longrightarrow> in_life c"
  by (auto simp: established_def EstablishConnection_def TCPConnection_def PostReadProbe_def in_life_def fault_simps split: if_splits)

theorem win_bytes_in_order_witness:
  "\<exists>c'. orun win_step [Call_send True True [1, 2, 3], Write_done True 2, Read_done True [] 0, Read_done True [7, 8] 1] served = Some (Inr c') \<and>
     submitted c' = wire c' @ contents (output_buf c') \<and> delivered c' = consumed c' @ contents (input_buf c') \<and> wire c' = [1, 2]"
proof -
  have "yields (orun win_step [Call_send True True [1, 2, 3], Write_done True 2, Read_done True [] 0, Read_done True [7, 8] 1] served) (\<lambda>c'. wire c' = [1, 2])"
    by code_simp
  from yieldsD [OF this] show ?thesis using win_bytes_in_order [OF served_established] by blast
qed

text \<open>
  Property C9. A connection with a connection handler never runs into a fault when its client is careful: sends only
  while it is open, during a write only what fits into the free space of the output buffer, and the
  peer does not close during a write.
\<close>

theorem win_careful_clients_are_safe:
  assumes "established True mh c" and "careful_run ops c"
  shows "\<exists>c'. orun win_step ops c = Some (Inr c')"
proof -
  have "\<exists>c'. orun win_step ops c = Some (Inr c')" if "win_ok c" "in_life c" "careful_run ops c" for c
    using that
  proof (induction ops arbitrary: c)
    case (Cons e es)
    then obtain r where r: "win_step c e = Some r" "careful c e" by (auto split: option.splits)
    then obtain c' where c': "r = Inr c'" "in_life c'" using careful_step Cons.prems(1,2) by blast
    have "win_ok c'" using win_step_ok [OF Cons.prems(1)] r(1) c'(1) by simp
    then show ?case using Cons.IH [of c'] c' r(1) Cons.prems(3) by simp
  qed simp
  then show ?thesis using established_ok [OF assms(1)] established_life [OF assms(1)] assms(2) by blast
qed

theorem win_careful_clients_are_safe_witness:
  "\<exists>c'. orun win_step [Call_send False True [1, 2], Call_send True True [3], Take_tasks, Run_task True, Write_done True 1, Write_done True 2,
     Read_done True [] 0, Read_done True [] 0, Take_tasks, Run_task True] served = Some (Inr c')"
proof (rule win_careful_clients_are_safe [OF served_established])
  show "careful_run [Call_send False True [1, 2], Call_send True True [3], Take_tasks, Run_task True, Write_done True 1, Write_done True 2,
     Read_done True [] 0, Read_done True [] 0, Take_tasks, Run_task True] served"
    by code_simp
qed

text \<open>
  Property C30. A connection is closed while its peer is alive: once all the bytes that the input buffer was made for have been
  delivered and none was consumed, the next read asks for nothing, and its end is taken for the end of the stream.
\<close>

theorem win_full_buffer_closes:
  assumes "established ch mh c" and "orun win_step ops c = Some (Inr d)" and "consumed d = []" and "length (delivered d) = 1024"
    and "win_step d (Read_done post_ok bs k) = Some (Inr d')"
  shows "bs = [] \<and> \<not> in_server d'"
proof -
  have ok: "win_ok d" by (rule win_run_ok [OF assms(1,2)])
  obtain off n where p: "read_posted d = Some (off, n)" "length bs \<le> n" "message_handler d \<Longrightarrow> k \<le> readable_size (input_buf d) + length bs" "batch d = []"
    using assms(5) by (auto simp: win_step_def split: option.splits if_splits)
  have b: "buffer_inv (input_buf d)" "length (buf (input_buf d)) = 1032" "reader_index (input_buf d) = 8" "readable_size (input_buf d) = 1024"
    using ok assms(3,4) length_contents [of "input_buf d"]
    by (auto simp: win_ok_def kDefaultInitialSize_def kDefaultPrependSize_def)
  then have w: "writable_size (input_buf d) = 0" by (simp add: writable_size_def readable_size_def)
  have "delivered d \<noteq> []" using assms(4) by auto
  then have ev: "read_event d = Read" using ok by (cases "read_event d") (auto simp: win_ok_def)
  have n: "n = 0" using ok p(1) w ev by (auto simp: win_ok_def)
  then have bs: "bs = []" using p(2) by simp
  obtain m where m: "HandleReadCompletion post_ok (length bs) k
      (d\<lparr>input_buf := (input_buf d)\<lparr>buf := m\<rparr>, delivered := delivered d @ bs, read_posted := None\<rparr>) = Inr d'"
    using assms(5) p ev by (auto simp: win_step_def not_freed_def HandleCompletionEvent_def rbind_Inr_iff split: if_splits)
  then have "\<not> in_server d'" using ev bs by (auto simp: HandleReadCompletion_def HandleClose_def RemoveConnection_def rbind_Inr_iff)
  then show ?thesis using bs by simp
qed

definition filled :: win_conn where
  "filled = served\<lparr>read_event := Read, input_buf := \<lparr>buf = replicate 8 0 @ replicate 1024 1, reader_index = 8, writer_index = 1032\<rparr>,
     delivered := replicate 1024 1, read_posted := Some (1032, 0)\<rparr>"

lemma filled_run: "orun win_step [Read_done True [] 0, Read_done True (replicate 1024 1) 0] served = Some (Inr filled)"
proof -
  let ?c = "served\<lparr>read_event := Read, read_posted := Some (8, 1024)\<rparr>"
  note defs = win_step_def not_freed_def HandleCompletionEvent_def HandleReadCompletion_def call_message_handler_def PostRead_def served_def PostReadProbe_def
    TCPConnection_def Buffer_default_def Buffer_sized_def store_def size_defs kDefaultInitialSize_def Consume_def EndWrite_def ConsumeAll_def
  have "win_step served (Read_done True [] 0) = Some (Inr ?c)" by (simp add: defs)
  moreover have "win_step ?c (Read_done True (replicate 1024 1) 0) = Some (Inr filled)"
    by (simp add: defs filled_def contents_def)
  ultimately show ?thesis by simp
qed

theorem win_full_buffer_closes_witness:
  "\<exists>d'. win_step filled (Read_done True [] 0) = Some (Inr d') \<and> \<not> in_server d'"
proof -
  have "yields (win_step filled (Read_done True [] 0)) (\<lambda>_. True)" by code_simp
  then obtain d' where d': "win_step filled (Read_done True [] 0) = Some (Inr d')" using yieldsD by blast
  have "consumed filled = []" "length (delivered filled) = 1024" by (simp_all add: filled_def served_def PostReadProbe_def TCPConnection_def)
  then show ?thesis using win_full_buffer_closes [OF served_established filled_run _ _ d'] d' by simp
qed

text \<open>
  Fact. Sending during a write makes the system read moved memory when the message does not fit, and a write that ends
  after the connection was destroyed is reported to a dangling pointer.
\<close>

theorem win_dangling:
  "orun win_step [Call_send True True (replicate 1000 0), Call_send True True (replicate 25 0)] served = Some (Inl Null_deref) \<and>
   orun win_step [Call_send True True [1], Read_done True [] 0, Read_done True [] 0, Take_tasks, Run_task True, Write_done True 1] served =
     Some (Inl Null_deref)"
proof
  show "orun win_step [Call_send True True [1], Read_done True [] 0, Read_done True [] 0, Take_tasks, Run_task True, Write_done True 1] served =
     Some (Inl Null_deref)" by code_simp
  show "orun win_step [Call_send True True (replicate 1000 0), Call_send True True (replicate 25 0)] served = Some (Inl Null_deref)"
    by (simp add: win_step_def not_freed_def Send_def SendInLoop_def Write_def ReserveWritable_def PostWrite_def stays_def served_def PostReadProbe_def
      TCPConnection_def Buffer_default_def Buffer_sized_def store_def size_defs kDefaultInitialSize_def EndWrite_def load_def resize_def)
qed

definition stalled :: "byte list \<Rightarrow> byte list option \<Rightarrow> win_conn \<Rightarrow> bool" where
  "stalled w sh c \<longleftrightarrow> oustanding_writes c = 1 \<and> write_posted c = None \<and> wire c = w \<and> shut c = sh"

lemma stalled_frame [simp]:
  "stalled w sh (c\<lparr>state := s\<rparr>) = stalled w sh c" "stalled w sh (c\<lparr>tasks := ts\<rparr>) = stalled w sh c" "stalled w sh (c\<lparr>batch := ts\<rparr>) = stalled w sh c"
  "stalled w sh (c\<lparr>freed := f\<rparr>) = stalled w sh c" "stalled w sh (c\<lparr>in_server := i\<rparr>) = stalled w sh c" "stalled w sh (c\<lparr>read_posted := rp\<rparr>) = stalled w sh c"
  "stalled w sh (c\<lparr>input_buf := b\<rparr>) = stalled w sh c" "stalled w sh (c\<lparr>consumed := cs\<rparr>) = stalled w sh c" "stalled w sh (c\<lparr>delivered := d\<rparr>) = stalled w sh c"
  "stalled w sh (c\<lparr>read_event := ev\<rparr>) = stalled w sh c" "stalled w sh (c\<lparr>output_buf := b\<rparr>) = stalled w sh c" "stalled w sh (c\<lparr>submitted := sb\<rparr>) = stalled w sh c"
  by (simp_all add: stalled_def)

lemma stalled_send: "stalled w sh c \<Longrightarrow> SendInLoop post_ok msg c = Inr c' \<Longrightarrow> stalled w sh c'"
  by (auto simp: SendInLoop_def rbind_Inr_iff Let_def stalled_def)

lemma stalled_shutdown: "stalled w sh c \<Longrightarrow> ShutdownInLoop c = c"
  by (simp add: stalled_def ShutdownInLoop_def)

lemma stalled_close: "stalled w sh c \<Longrightarrow> HandleClose c = Inr c' \<Longrightarrow> stalled w sh c'"
  by (auto simp: HandleClose_def RemoveConnection_def rbind_Inr_iff guard_Inr_iff)

lemma stalled_call: "stalled w sh c \<Longrightarrow> call_message_handler k c = Inr c' \<Longrightarrow> stalled w sh c'"
  by (auto simp: call_message_handler_def rbind_Inr_iff split: if_splits)

lemma stalled_post: "stalled w sh c \<Longrightarrow> PostRead post_ok c = Inr c' \<Longrightarrow> stalled w sh c'"
  by (auto simp: PostRead_def rbind_Inr_iff guard_Inr_iff split: if_splits)

lemma stalled_read:
  assumes "stalled w sh c" and "HandleReadCompletion post_ok n k c = Inr c'"
  shows "stalled w sh c'"
proof (cases "read_event c \<noteq> ReadProbe \<and> n = 0")
  case True
  then show ?thesis using assms stalled_close by (simp add: HandleReadCompletion_def)
next
  case False
  then obtain d e where d: "(if read_event c = ReadProbe then Inr (c\<lparr>read_event := Read\<rparr>)
      else rbind (EndWrite (input_buf c) n) (\<lambda>b. Inr (c\<lparr>input_buf := b\<rparr>))) = Inr d"
    "call_message_handler k d = Inr e" "PostRead post_ok e = Inr c'"
    using assms(2) unfolding HandleReadCompletion_def by (auto simp only: if_False rbind_Inr_iff)
  have "stalled w sh d" using d(1) assms(1) by (auto simp: rbind_Inr_iff split: if_splits)
  then show ?thesis using stalled_call [OF _ d(2)] stalled_post [OF _ d(3)] by blast
qed

lemma stalled_task: "stalled w sh c \<Longrightarrow> run_conn_task post_ok t c = Inr c' \<Longrightarrow> stalled w sh c'"
  by (cases t) (auto simp: run_conn_task_def DestroyConnection_def rbind_Inr_iff Let_def stalled_shutdown intro: stalled_send)

lemma stalled_step:
  assumes "stalled w sh c" and "win_step c e = Some (Inr c')" and "read_event c \<noteq> Write_event"
  shows "stalled w sh c'"
proof (cases e)
  case (Call_send here post_ok msg)
  then show ?thesis using assms by (auto simp: win_step_def not_freed_def Send_def rbind_Inr_iff intro: stalled_send split: if_splits)
next
  case (Call_shutdown here)
  have "stalled w sh (c\<lparr>state := Disconnecting\<rparr>)" using assms(1) by simp
  then show ?thesis using Call_shutdown assms stalled_shutdown by (auto simp: win_step_def not_freed_def Shutdown_def rbind_Inr_iff Let_def split: if_splits)
next
  case (Read_done post_ok bs k)
  then obtain m where "HandleReadCompletion post_ok (length bs) k (c\<lparr>input_buf := (input_buf c)\<lparr>buf := m\<rparr>, delivered := delivered c @ bs, read_posted := None\<rparr>) = Inr c'"
    using assms(2,3) by (cases "read_event c") (auto simp: win_step_def not_freed_def HandleCompletionEvent_def rbind_Inr_iff split: if_splits option.splits)
  then show ?thesis using stalled_read assms(1) by (metis stalled_frame(6,7,9))
next
  case (Write_done post_ok k)
  then show ?thesis using assms by (simp add: win_step_def stalled_def)
next
  case Take_tasks
  then show ?thesis using assms by (auto simp: win_step_def split: if_splits)
next
  case (Run_task post_ok)
  then obtain t ts d where "run_conn_task post_ok t (c\<lparr>batch := ts\<rparr>) = Inr d" "c' = end_batch d"
    using assms(2) by (auto simp: win_step_def not_freed_def rbind_Inr_iff split: list.splits)
  then show ?thesis using stalled_task [of w sh "c\<lparr>batch := ts\<rparr>"] assms(1) by (auto simp: end_batch_def)
qed

text \<open>Fact. When a write cannot be started it is counted as outstanding all the same: nothing is sent any more.\<close>

theorem win_failed_write_stalls:
  assumes "win_ok c" and "oustanding_writes c = 1" and "write_posted c = None" and "orun win_step ops c = Some (Inr c')"
  shows "wire c' = wire c \<and> shut c' = shut c"
proof -
  have "win_ok c' \<and> stalled (wire c) (shut c) c'"
  proof (rule orun_invariant [where P = "\<lambda>d. win_ok d \<and> stalled (wire c) (shut c) d" and f = win_step, OF _ _ assms(4)])
    show "win_ok c \<and> stalled (wire c) (shut c) c" using assms(1-3) by (simp add: stalled_def)
    show "win_ok d' \<and> stalled (wire c) (shut c) d'" if "win_ok d \<and> stalled (wire c) (shut c) d" "win_step d e = Some (Inr d')" for d e d'
      using that stalled_step [of "wire c" "shut c" d e d'] win_step_ok [of d e d'] by (auto simp: win_ok_def)
  qed
  then show ?thesis by (simp add: stalled_def)
qed

theorem win_failed_write_stalls_witness:
  "\<exists>c'. orun win_step [Call_send True False [1], Call_send True True [2], Call_shutdown True] served = Some (Inr c') \<and> wire c' = [] \<and> shut c' = None"
proof -
  have "yields (win_step served (Call_send True False [1])) (\<lambda>c. oustanding_writes c = 1 \<and> write_posted c = None \<and> wire c = [] \<and> shut c = None \<and>
      yields (orun win_step [Call_send True True [2], Call_shutdown True] c) (\<lambda>_. True))" by code_simp
  then obtain c where c: "win_step served (Call_send True False [1]) = Some (Inr c)" "oustanding_writes c = 1" "write_posted c = None" "wire c = []" "shut c = None"
    "yields (orun win_step [Call_send True True [2], Call_shutdown True] c) (\<lambda>_. True)" using yieldsD by blast
  obtain c' where c': "orun win_step [Call_send True True [2], Call_shutdown True] c = Some (Inr c')" using yieldsD [OF c(6)] by blast
  have "win_ok c" using win_step_ok [OF established_ok [OF served_established] c(1)] .
  then show ?thesis using win_failed_write_stalls [OF _ c(2,3) c'] c(1,4,5) c' by auto
qed

end
