(* ===== verification/Expr_Store.thy ===== *)
theory Expr_Store
  imports Expr_Tree Text
begin

text \<open>
  The nodes of the expression tree in a store (\<open>src/Expression Tree/exptree.cpp\<close>): construction, evaluation, printing and
  destruction through pointers. Every node that a conversion allocates is in the tree it returns once, the
  functions on the store do what those on trees do, and the destructor frees the nodes of the tree and no other.
\<close>

section \<open>The program\<close>

record cell =
  data :: int
  left_child :: "nat option"
  right_child :: "nat option"

text \<open>The addresses from \<open>unused\<close> on have never been allocated.\<close>

record store =
  nodes :: "nat \<rightharpoonup> cell"
  unused :: nat

definition CreateTree_at :: "int \<Rightarrow> nat option \<Rightarrow> nat option \<Rightarrow> store \<Rightarrow> nat \<times> store" where
  "CreateTree_at d l r h = (unused h,
     h\<lparr>nodes := (nodes h)(unused h \<mapsto> \<lparr>data = d, left_child = l, right_child = r\<rparr>), unused := unused h + 1\<rparr>)"

fun construct_at :: "string \<Rightarrow> nat list \<Rightarrow> store \<Rightarrow> (nat list \<times> store) res" where
  "construct_at [] st h = Inr (st, h)"
| "construct_at (c # cs) st h =
     (if is_digit c
      then case CreateTree_at (of_char c - of_char CHR ''0'') None None h of (p, h) \<Rightarrow> construct_at cs (p # st) h
      else case st of
          r # l # st' \<Rightarrow> (case CreateTree_at (of_char c) (Some l) (Some r) h of (p, h) \<Rightarrow> construct_at cs (p # st') h)
        | _ \<Rightarrow> Inl Out_of_bounds)"

definition ConstructExpTree_at :: "string \<Rightarrow> store \<Rightarrow> (nat \<times> store) res" where
  "ConstructExpTree_at postfix_exp h = rbind (construct_at postfix_exp [] h)
     (\<lambda>(st, h). case st of [] \<Rightarrow> Inl Out_of_bounds | root # _ \<Rightarrow> Inr (root, h))"

text \<open>The recursive functions may not end on nodes that form a cycle.\<close>

partial_function (option) Eval_at :: "store \<Rightarrow> nat option \<Rightarrow> int res option" where
  "Eval_at h p = (case p of None \<Rightarrow> Some (Inl Null_deref) | Some a \<Rightarrow>
     (case nodes h a of None \<Rightarrow> Some (Inl Null_deref) | Some c \<Rightarrow>
       if left_child c = None \<and> right_child c = None then Some (Inr (data c))
       else Option.bind (Eval_at h (left_child c)) (\<lambda>num1. case num1 of Inl e \<Rightarrow> Some (Inl e) | Inr num1 \<Rightarrow>
         Option.bind (Eval_at h (right_child c)) (\<lambda>num2. case num2 of Inl e \<Rightarrow> Some (Inl e) | Inr num2 \<Rightarrow>
           Some (Calculate num1 num2 (data c))))))"

definition show_int :: "int \<Rightarrow> string" where
  "show_int n = (if n < 0 then CHR ''-'' # decimal (nat (- n)) else decimal (nat n))"

partial_function (option) Visit_at :: "store \<Rightarrow> nat option \<Rightarrow> string res option" where
  "Visit_at h p = (case p of None \<Rightarrow> Some (Inr []) | Some a \<Rightarrow>
     (case nodes h a of None \<Rightarrow> Some (Inl Null_deref) | Some c \<Rightarrow>
       Option.bind (Visit_at h (left_child c)) (\<lambda>s. case s of Inl e \<Rightarrow> Some (Inl e) | Inr s \<Rightarrow>
         Option.bind (Visit_at h (right_child c)) (\<lambda>t. case t of Inl e \<Rightarrow> Some (Inl e) | Inr t \<Rightarrow>
           Some (Inr (s @ (if data c < 10 then show_int (data c) else [char_of (data c)]) @ t))))))"

partial_function (option) DestroyExpTree_at :: "nat option \<Rightarrow> store \<Rightarrow> store res option" where
  "DestroyExpTree_at p h = (case p of None \<Rightarrow> Some (Inr h) | Some a \<Rightarrow>
     (case nodes h a of None \<Rightarrow> Some (Inl Null_deref) | Some c \<Rightarrow>
       Option.bind (DestroyExpTree_at (left_child c) (h\<lparr>nodes := (nodes h)(a := None)\<rparr>)) (\<lambda>h. case h of Inl e \<Rightarrow> Some (Inl e) | Inr h \<Rightarrow>
         DestroyExpTree_at (right_child c) h)))"

section \<open>Trees in the store\<close>

primrec rep :: "node \<Rightarrow> (nat \<rightharpoonup> cell) \<Rightarrow> nat option \<Rightarrow> nat set \<Rightarrow> bool" where
  "rep NULL m p A \<longleftrightarrow> p = None \<and> A = {}"
| "rep (node d l r) m p A \<longleftrightarrow> (\<exists>a c B C. p = Some a \<and> m a = Some c \<and> data c = d \<and> rep l m (left_child c) B \<and> rep r m (right_child c) C \<and>
     a \<notin> B \<and> a \<notin> C \<and> B \<inter> C = {} \<and> A = insert a (B \<union> C))"

primrec reps :: "node list \<Rightarrow> (nat \<rightharpoonup> cell) \<Rightarrow> nat list \<Rightarrow> nat set \<Rightarrow> bool" where
  "reps [] m ps A \<longleftrightarrow> ps = [] \<and> A = {}"
| "reps (t # ts) m ps A \<longleftrightarrow> (\<exists>p qs B C. ps = p # qs \<and> rep t m (Some p) B \<and> reps ts m qs C \<and> B \<inter> C = {} \<and> A = B \<union> C)"

lemma rep_frame: "rep t m p A \<Longrightarrow> (\<And>a. a \<in> A \<Longrightarrow> m' a = m a) \<Longrightarrow> rep t m' p A"
proof (induction t arbitrary: p A)
  case (node d l r)
  from node.prems(1) obtain a c B C where r: "p = Some a" "m a = Some c" "data c = d" "rep l m (left_child c) B" "rep r m (right_child c) C"
    "a \<notin> B" "a \<notin> C" "B \<inter> C = {}" "A = insert a (B \<union> C)" by auto
  then have "rep l m' (left_child c) B" "rep r m' (right_child c) C" "m' a = Some c" using node by auto
  then show ?case using r by auto
qed simp

lemma reps_frame: "reps ts m ps A \<Longrightarrow> (\<And>a. a \<in> A \<Longrightarrow> m' a = m a) \<Longrightarrow> reps ts m' ps A"
proof (induction ts arbitrary: ps A)
  case (Cons t ts)
  from Cons.prems(1) obtain p qs B C where r: "ps = p # qs" "rep t m (Some p) B" "reps ts m qs C" "B \<inter> C = {}" "A = B \<union> C" by auto
  then have "rep t m' (Some p) B" "reps ts m' qs C" using Cons rep_frame [of t m "Some p" B m'] by auto
  then show ?case using r by auto
qed simp

lemma rep_leaf: "rep (node d NULL NULL) (m(a \<mapsto> \<lparr>data = d, left_child = None, right_child = None\<rparr>)) (Some a) {a}"
  by simp

text \<open>What the nodes on the stack hold is all that was allocated; the rest of the store \<open>m\<close> is as before.\<close>

definition stacked :: "(nat \<rightharpoonup> cell) \<Rightarrow> node list \<Rightarrow> nat list \<Rightarrow> store \<Rightarrow> bool" where
  "stacked m ts ps h \<longleftrightarrow> (\<forall>a \<ge> unused h. nodes h a = None) \<and>
     (\<exists>A. reps ts (nodes h) ps A \<and> (\<forall>a \<in> A. a < unused h \<and> m a = None) \<and> (\<forall>a. a \<notin> A \<longrightarrow> nodes h a = m a))"

lemma stacked_leaf:
  assumes "stacked m ts ps h" and "CreateTree_at d None None h = (p, h')"
  shows "stacked m (node d NULL NULL # ts) (p # ps) h'"
proof -
  obtain A where A: "reps ts (nodes h) ps A" "\<And>a. a \<in> A \<Longrightarrow> a < unused h \<and> m a = None" "\<And>a. a \<notin> A \<Longrightarrow> nodes h a = m a"
    and f: "\<And>a. unused h \<le> a \<Longrightarrow> nodes h a = None" using assms(1) by (auto simp: stacked_def)
  have p: "p = unused h" "nodes h' = (nodes h)(p \<mapsto> \<lparr>data = d, left_child = None, right_child = None\<rparr>)" "unused h' = unused h + 1"
    using assms(2) by (auto simp: CreateTree_at_def)
  have n1: "p \<notin> A" using A(2) [of p] p(1) by auto
  have n: "p \<notin> A" "m p = None" using n1 A(3) [OF n1] f [of p] p(1) by simp_all
  have "reps ts (nodes h') ps A" using A(1) by (rule reps_frame) (use n p(2) in auto)
  moreover have "rep (node d NULL NULL) (nodes h') (Some p) {p}" unfolding p(2) by (rule rep_leaf)
  ultimately have "reps (node d NULL NULL # ts) (nodes h') (p # ps) (insert p A)" using n(1) unfolding reps.simps by blast
  moreover have "a < unused h' \<and> m a = None" if "a \<in> insert p A" for a using that A(2) [of a] n(2) p(1,3) by auto
  moreover have "nodes h' a = m a" if "a \<notin> insert p A" for a using that A(3) [of a] p(2) by auto
  moreover have "nodes h' a = None" if "unused h' \<le> a" for a using that f [of a] p by auto
  ultimately show ?thesis unfolding stacked_def by blast
qed

lemma stacked_join:
  assumes "stacked m (r # l # ts) (pr # pl # ps) h" and "CreateTree_at d (Some pl) (Some pr) h = (p, h')"
  shows "stacked m (node d l r # ts) (p # ps) h'"
proof -
  obtain A B C where A: "rep r (nodes h) (Some pr) B" "rep l (nodes h) (Some pl) C" "reps ts (nodes h) ps A"
      "B \<inter> (C \<union> A) = {}" "C \<inter> A = {}" "\<And>a. a \<in> B \<union> (C \<union> A) \<Longrightarrow> a < unused h \<and> m a = None" "\<And>a. a \<notin> B \<union> (C \<union> A) \<Longrightarrow> nodes h a = m a"
    and f: "\<And>a. unused h \<le> a \<Longrightarrow> nodes h a = None" using assms(1) by (auto simp: stacked_def)
  let ?c = "\<lparr>data = d, left_child = Some pl, right_child = Some pr\<rparr>"
  have p: "p = unused h" "nodes h' = (nodes h)(p \<mapsto> ?c)" "unused h' = unused h + 1" using assms(2) by (auto simp: CreateTree_at_def)
  have n1: "p \<notin> B \<union> (C \<union> A)" using A(6) [of p] p(1) by auto
  have n: "p \<notin> B \<union> (C \<union> A)" "m p = None" using n1 A(7) [OF n1] f [of p] p(1) by simp_all
  have fr: "a \<in> B \<union> (C \<union> A) \<Longrightarrow> nodes h' a = nodes h a" for a using n p(2) by auto
  have "reps ts (nodes h') ps A" using A(3) by (rule reps_frame) (use fr in auto)
  moreover have "rep r (nodes h') (Some pr) B" using A(1) by (rule rep_frame) (use fr in auto)
  moreover have "rep l (nodes h') (Some pl) C" using A(2) by (rule rep_frame) (use fr in auto)
  moreover have "nodes h' p = Some ?c" by (simp add: p(2))
  ultimately have "rep (node d l r) (nodes h') (Some p) (insert p (C \<union> B))" using n(1) A(4) unfolding rep.simps
    by (intro exI [of _ p] exI [of _ ?c] exI [of _ C] exI [of _ B]) auto
  with \<open>reps ts (nodes h') ps A\<close> have "reps (node d l r # ts) (nodes h') (p # ps) (insert p (C \<union> B) \<union> A)"
    using n(1) A(4,5) unfolding reps.simps by blast
  moreover have "a < unused h' \<and> m a = None" if "a \<in> insert p (C \<union> B) \<union> A" for a using that A(6) [of a] n(2) p(1,3) by auto
  moreover have "nodes h' a = m a" if "a \<notin> insert p (C \<union> B) \<union> A" for a using that A(7) [of a] p(2) by auto
  moreover have "nodes h' a = None" if "unused h' \<le> a" for a using that f [of a] p by auto
  ultimately show ?thesis unfolding stacked_def by blast
qed

lemma construct_sim:
  "stacked m ts ps h \<Longrightarrow> construct_loop cs ts = Inr us \<Longrightarrow> \<exists>qs h'. construct_at cs ps h = Inr (qs, h') \<and> stacked m us qs h'"
proof (induction cs arbitrary: ts ps h)
  case (Cons c cs)
  show ?case
  proof (cases "is_digit c")
    case True
    obtain p h1 where ct: "CreateTree_at (of_char c - of_char CHR ''0'') None None h = (p, h1)" by fastforce
    have "stacked m (node (of_char c - of_char CHR ''0'') NULL NULL # ts) (p # ps) h1" using stacked_leaf [OF Cons.prems(1) ct] .
    then show ?thesis using Cons.IH [of _ "p # ps" h1] Cons.prems(2) True ct by (simp add: CreateTree_def)
  next
    case False
    then obtain r l ts' where ts: "ts = r # l # ts'" and cl: "construct_loop cs (node (of_char c) l r # ts') = Inr us"
      using Cons.prems(2) by (auto simp: CreateTree_def split: list.splits)
    then obtain pr pl ps' where ps: "ps = pr # pl # ps'" using Cons.prems(1) by (auto simp: stacked_def)
    obtain p h1 where ct: "CreateTree_at (of_char c) (Some pl) (Some pr) h = (p, h1)" by fastforce
    have "stacked m (node (of_char c) l r # ts') (p # ps') h1" using stacked_join [OF _ ct] Cons.prems(1) ts ps by simp
    then show ?thesis using Cons.IH [of _ "p # ps'" h1] cl False ct ps by simp
  qed
qed simp

lemma Eval_at_rep: "rep t (nodes h) p A \<Longrightarrow> t \<noteq> NULL \<Longrightarrow> Eval_at h p = Some (Eval t)"
proof (induction t arbitrary: p A)
  case (node d l r)
  from node.prems(1) obtain a c B C where r: "p = Some a" "nodes h a = Some c" "data c = d" "rep l (nodes h) (left_child c) B" "rep r (nodes h) (right_child c) C"
    by auto
  have n: "t = NULL \<longleftrightarrow> q = None" if "rep t (nodes h) q D" for t q D using that by (cases t) auto
  have "Eval_at h q = Some (Eval u)" if "rep u (nodes h) q D" "u = l \<or> u = r" for u q D
  proof (cases "u = NULL")
    case True
    then show ?thesis using n [OF that(1)] by (simp add: Eval_at.simps)
  next
    case False
    then show ?thesis using that node.IH by blast
  qed
  then have "Eval_at h (left_child c) = Some (Eval l)" "Eval_at h (right_child c) = Some (Eval r)" using r by blast+
  then show ?case using r(1-3) n [OF r(4)] n [OF r(5)]
    by (subst Eval_at.simps) (auto simp: rbind_def split: sum.splits)
qed simp

lemma DestroyExpTree_at_rep:
  "rep t (nodes h) p A \<Longrightarrow> DestroyExpTree_at p h = Some (Inr (h\<lparr>nodes := (\<lambda>a. if a \<in> A then None else nodes h a)\<rparr>))"
proof (induction t arbitrary: p A h)
  case NULL
  then show ?case by (simp add: DestroyExpTree_at.simps)
next
  case (node d l r)
  from node.prems obtain a c B C where r: "p = Some a" "nodes h a = Some c" "data c = d" "rep l (nodes h) (left_child c) B" "rep r (nodes h) (right_child c) C"
    "a \<notin> B" "a \<notin> C" "B \<inter> C = {}" "A = insert a (B \<union> C)" by auto
  let ?h1 = "h\<lparr>nodes := (nodes h)(a := None)\<rparr>"
  have "rep l (nodes ?h1) (left_child c) B" using r(4) by (rule rep_frame) (use r(6) in auto)
  note l = node.IH(1) [OF this]
  let ?h2 = "?h1\<lparr>nodes := (\<lambda>x. if x \<in> B then None else nodes ?h1 x)\<rparr>"
  have "rep r (nodes ?h2) (right_child c) C" using r(5) by (rule rep_frame) (use r(7,8) in auto)
  note rr = node.IH(2) [OF this]
  have "(\<lambda>x. if x \<in> C then None else nodes ?h2 x) = (\<lambda>x. if x \<in> A then None else nodes h x)" using r(9) by auto
  then show ?case using l rr r(1,2) by (subst DestroyExpTree_at.simps) simp
qed

primrec shown :: "node \<Rightarrow> string" where
  "shown NULL = []"
| "shown (node d l r) = shown l @ (if d < 10 then show_int d else [char_of d]) @ shown r"

lemma Visit_at_rep: "rep t (nodes h) p A \<Longrightarrow> Visit_at h p = Some (Inr (shown t))"
proof (induction t arbitrary: p A)
  case NULL
  then show ?case by (simp add: Visit_at.simps)
next
  case (node d l r)
  from node.prems obtain a c B C where r: "p = Some a" "nodes h a = Some c" "data c = d" "rep l (nodes h) (left_child c) B" "rep r (nodes h) (right_child c) C"
    by auto
  show ?case using r(1-3) node.IH(1) [OF r(4)] node.IH(2) [OF r(5)] by (subst Visit_at.simps) simp
qed

lemma show_digit: "d < 10 \<Longrightarrow> show_int (int d) = [digit_char d]"
proof -
  assume "d < 10"
  then have "d \<in> {0, 1, 2, 3, 4, 5, 6, 7, 8, 9}" by auto
  then show ?thesis by (auto simp: show_int_def digit_char_def decimal.simps char_of_eq_iff)
qed

definition without_parens :: "string \<Rightarrow> string" where
  "without_parens s = filter (\<lambda>c. c \<noteq> CHR ''('' \<and> c \<noteq> CHR '')'') s"

lemma digit_no_paren: "d < 10 \<Longrightarrow> digit_char d \<noteq> CHR ''('' \<and> digit_char d \<noteq> CHR '')''"
  using is_digit_char [of d] by (auto simp: is_digit_def)

lemma shown_tree:
  "wf_expr x \<Longrightarrow> shown (tree_expr x) = without_parens (show_expr x)"
  "wf_term t \<Longrightarrow> shown (tree_term t) = without_parens (show_term t)"
  "wf_factor f \<Longrightarrow> shown (tree_factor f) = without_parens (show_factor f)"
proof (induction x and t and f)
  case (SumOf x c t)
  then show ?case by (cases c) (simp_all add: without_parens_def char_of_eq_iff)
next
  case (ProductOf t c f)
  then show ?case by (cases c) (simp_all add: without_parens_def char_of_eq_iff)
next
  case (Digit d)
  then show ?case by (simp add: without_parens_def show_digit digit_no_paren)
qed (simp_all add: without_parens_def)

section \<open>Properties\<close>

text \<open>
  Property C32. From an expression of the grammar the passes build a tree in the store whose printing is the expression without its
  parentheses, and whose evaluation is the value of the expression when every intermediate value lies above \<open>INT_MIN\<close> and
  below \<open>2 ^ 31\<close> and no divisor is zero; the destructor then ends, deletes each node of the tree once, and leaves the store as it was before.
\<close>

theorem expression_store_clean:
  assumes "wf_expr x" and "\<forall>a \<ge> unused h. nodes h a = None"
  shows "\<exists>root h1 h2. rbind (InfixToPostfix (show_expr x)) (\<lambda>p. ConstructExpTree_at p h) = Inr (root, h1) \<and>
     (safe_expr x \<longrightarrow> Eval_at h1 (Some root) = Some (Inr (val_expr x))) \<and> Visit_at h1 (Some root) = Some (Inr (without_parens (show_expr x))) \<and>
     DestroyExpTree_at (Some root) h1 = Some (Inr h2) \<and> nodes h2 = nodes h"
proof -
  have "stacked (nodes h) [] [] h" using assms(2) by (simp add: stacked_def)
  moreover have "construct_loop (post_expr x) [] = Inr [tree_expr x]" using construct_tree(1) [OF assms(1), of "[]" "[]"] by simp
  ultimately obtain qs h1 where c: "construct_at (post_expr x) [] h = Inr (qs, h1)" "stacked (nodes h) [tree_expr x] qs h1"
    using construct_sim by blast
  then obtain root A where r: "qs = [root]" "rep (tree_expr x) (nodes h1) (Some root) A" "\<forall>a \<in> A. nodes h a = None" "\<forall>a. a \<notin> A \<longrightarrow> nodes h1 a = nodes h a"
    by (auto simp: stacked_def)
  have "(\<lambda>a. if a \<in> A then None else nodes h1 a) = nodes h" using r(3,4) by auto
  then show ?thesis
    using c(1) r(1) InfixToPostfix_show [OF assms(1)] Eval_at_rep [OF r(2) tree_not_NULL(1)] Eval_tree(1) [of x]
      Visit_at_rep [OF r(2)] shown_tree(1) [OF assms(1)] DestroyExpTree_at_rep [OF r(2)]
    by (simp add: ConstructExpTree_at_def)
qed

theorem expression_store_clean_witness:
  "\<exists>root h1 h2. rbind (InfixToPostfix ''1-8/(3+1)'') (\<lambda>p. ConstructExpTree_at p \<lparr>nodes = (\<lambda>_. None), unused = 7\<rparr>) = Inr (root, h1) \<and>
     Eval_at h1 (Some root) = Some (Inr (- 1)) \<and> Visit_at h1 (Some root) = Some (Inr ''1-8/3+1'') \<and>
     DestroyExpTree_at (Some root) h1 = Some (Inr h2) \<and> nodes h2 = (\<lambda>_. None)"
proof -
  let ?d = "\<lambda>d. Factor (Digit d)"
  let ?x = "SumOf (Term (?d 1)) Minus (ProductOf (?d 8) Divide (Paren (SumOf (Term (?d 3)) Plus (?d 1))))"
  have "wf_expr ?x" "safe_expr ?x" "\<forall>a \<ge> unused \<lparr>nodes = (\<lambda>_. None), unused = 7\<rparr>. nodes \<lparr>nodes = (\<lambda>_. None), unused = 7\<rparr> a = None"
    by (simp_all add: fits_int_def INT_MIN_def cdiv_def)
  from expression_store_clean [OF this(1,3)] this(2) show ?thesis by (simp add: digit_char_def cdiv_def without_parens_def)
qed

end
