(* ===== verification/Slot_Handles.thy ===== *)
theory Slot_Handles
  imports Signal_Slot
begin

text \<open>
  The handles of slots (\<open>src/Signal-Slot/src/signals.h\<close>, class \<open>Slot\<close>). A handle refers weakly to the control block of one connection; it
  can be moved but not copied, and its end does not disconnect. The theory shows that a connection has at most one handle,
  and that it stays for good once the handle is gone, until all slots are disconnected.
\<close>

section \<open>Handles\<close>

text \<open>The variables of the client that hold a handle, each with its weak pointer; \<open>blocks\<close> control blocks have been made.\<close>

record client =
  source :: signal
  handles :: "nat \<rightharpoonup> nat option"
  blocks :: nat

definition client_new :: "nat set \<Rightarrow> client" where
  "client_new objs = \<lparr>source = Signal_new objs, handles = Map.empty, blocks = 0\<rparr>"

definition Signal_Connect :: "nat \<Rightarrow> nat \<Rightarrow> nat option \<Rightarrow> client \<Rightarrow> client" where
  "Signal_Connect v f obj c =
     c\<lparr>source := Connect (blocks c) f obj (source c), handles := (handles c)(v \<mapsto> Some (blocks c)), blocks := blocks c + 1\<rparr>"

definition Slot_move :: "nat \<Rightarrow> nat \<Rightarrow> nat option \<Rightarrow> client \<Rightarrow> client" where
  "Slot_move v u impl c = c\<lparr>handles := (handles c)(u \<mapsto> None, v \<mapsto> impl)\<rparr>"

definition Slot_assign :: "nat \<Rightarrow> nat \<Rightarrow> nat option \<Rightarrow> client \<Rightarrow> client" where
  "Slot_assign v u impl c = (if v \<noteq> u then c\<lparr>handles := (handles c)(u \<mapsto> None, v \<mapsto> impl)\<rparr> else c)"

definition Slot_Disconnect :: "nat option \<Rightarrow> client \<Rightarrow> client" where
  "Slot_Disconnect impl c = (case impl of None \<Rightarrow> c | Some x \<Rightarrow> c\<lparr>source := Disconnect x (source c)\<rparr>)"

datatype handle_op =
    H_Connect nat nat "nat option"
  | H_Move nat nat
  | H_Assign nat nat
  | H_End nat
  | H_Disconnect nat
  | H_DisconnectAll
  | H_Signal signal_op

text \<open>\<open>None\<close>: the program has no such variable, or has it already. Invocations go on in between.\<close>

fun handle_step :: "client \<Rightarrow> handle_op \<Rightarrow> client res option" where
  "handle_step c (H_Connect v f obj) = (if handles c v = None then Some (Inr (Signal_Connect v f obj c)) else None)"
| "handle_step c (H_Move v u) = (case handles c u of
     Some impl \<Rightarrow> if handles c v = None then Some (Inr (Slot_move v u impl c)) else None
   | None \<Rightarrow> None)"
| "handle_step c (H_Assign v u) = (case handles c u of
     Some impl \<Rightarrow> if handles c v \<noteq> None then Some (Inr (Slot_assign v u impl c)) else None
   | None \<Rightarrow> None)"
| "handle_step c (H_End v) = (if handles c v \<noteq> None then Some (Inr (c\<lparr>handles := (handles c)(v := None)\<rparr>)) else None)"
| "handle_step c (H_Disconnect v) = (case handles c v of Some impl \<Rightarrow> Some (Inr (Slot_Disconnect impl c)) | None \<Rightarrow> None)"
| "handle_step c H_DisconnectAll = Some (Inr (c\<lparr>source := RemoveAllSlots (source c)\<rparr>))"
| "handle_step c (H_Signal op) = (case op of
     Op_Connect x f obj \<Rightarrow> None
   | Op_Disconnect x \<Rightarrow> None
   | Op_DisconnectAll \<Rightarrow> None
   | _ \<Rightarrow> Some (rbind (signal_step (source c) op) (\<lambda>s. Inr (c\<lparr>source := s\<rparr>))))"

section \<open>What is connected\<close>

definition connected_slots :: "client \<Rightarrow> slot list" where
  "connected_slots c = vectors (source c) (slots (source c))"

lemma conn_simps [simp]:
  "vectors (AddSlot sl s) (slots (AddSlot sl s)) = vectors s (slots s) @ [sl]"
  "vectors (RemoveSlot x s) (slots (RemoveSlot x s)) = erase_slot x (vectors s (slots s))"
  "vectors (RemoveAllSlots s) (slots (RemoveAllSlots s)) = []"
  by (simp_all add: AddSlot_def RemoveSlot_def RemoveAllSlots_def CopyIfNeeded_def Let_def)

lemma erase_keeps: "sl \<in> set sls \<Longrightarrow> slot_id sl \<noteq> x \<Longrightarrow> sl \<in> set (erase_slot x sls)"
  by (induction sls) auto

lemma erase_subset: "set (erase_slot x sls) \<subseteq> set sls"
  by (induction sls) auto

lemma conn_Disconnect:
  "vectors (Disconnect x s) (slots (Disconnect x s)) = (if slot_alive x s then erase_slot x (vectors s (slots s)) else vectors s (slots s))"
  by (simp add: Disconnect_def)

lemma Invoke_next_same: "Invoke_next t s = Inr s' \<Longrightarrow> vectors s' = vectors s \<and> slots s' = slots s"
  by (auto simp: Invoke_next_def Let_def rbind_Inr_iff split: option.splits)

text \<open>A control block has at most one handle, and every one that occurs has been made.\<close>

definition handles_ok :: "client \<Rightarrow> bool" where
  "handles_ok c \<longleftrightarrow> (\<forall>v u x. handles c v = Some (Some x) \<longrightarrow> handles c u = Some (Some x) \<longrightarrow> v = u) \<and>
     (\<forall>v x. handles c v = Some (Some x) \<longrightarrow> x < blocks c) \<and> (\<forall>sl \<in> set (connected_slots c). slot_id sl < blocks c)"

definition orphan :: "client \<Rightarrow> slot \<Rightarrow> bool" where
  "orphan c sl \<longleftrightarrow> sl \<in> set (connected_slots c) \<and> (\<forall>v. handles c v \<noteq> Some (Some (slot_id sl)))"

lemma signal_rest:
  assumes "handle_step c (H_Signal op) = Some (Inr c')"
  shows "handles c' = handles c \<and> blocks c' = blocks c \<and> connected_slots c' = connected_slots c"
  using assms by (cases op) (auto simp: rbind_Inr_iff connected_slots_def Invoke_begin_def Invoke_end_def dest: Invoke_next_same)

lemma handles_ok_step:
  assumes "handles_ok c" and "handle_step c e = Some (Inr c')"
  shows "handles_ok c'"
proof (cases e)
  case (H_Connect v f obj)
  have "handles c u \<noteq> Some (Some (blocks c))" for u using assms(1) by (auto simp: handles_ok_def)
  with H_Connect show ?thesis using assms
    by (auto simp: handles_ok_def Signal_Connect_def Connect_def connected_slots_def less_Suc_eq dest: less_imp_neq split: if_splits)
next
  case (H_Move v u)
  then obtain impl where "handles c u = Some impl" "handles c v = None" "c' = Slot_move v u impl c" using assms(2) by (auto split: option.splits if_splits)
  then show ?thesis using assms(1) by (auto simp: handles_ok_def Slot_move_def connected_slots_def)
next
  case (H_Assign v u)
  then obtain impl where "handles c u = Some impl" "c' = Slot_assign v u impl c" using assms(2) by (auto split: option.splits if_splits)
  then show ?thesis using assms(1) by (auto simp: handles_ok_def Slot_assign_def connected_slots_def)
next
  case (H_End v)
  then show ?thesis using assms by (auto simp: handles_ok_def connected_slots_def split: if_splits)
next
  case (H_Disconnect v)
  then obtain impl where i: "handles c v = Some impl" "c' = Slot_Disconnect impl c" using assms(2) by (auto split: option.splits)
  show ?thesis
  proof (cases impl)
    case (Some x)
    then show ?thesis using assms(1) i erase_subset [of x "connected_slots c"]
      by (auto simp: handles_ok_def Slot_Disconnect_def connected_slots_def conn_Disconnect)
  qed (use assms(1) i in \<open>simp add: Slot_Disconnect_def\<close>)
next
  case H_DisconnectAll
  then show ?thesis using assms by (auto simp: handles_ok_def connected_slots_def)
next
  case (H_Signal op)
  then show ?thesis using assms(1) signal_rest [of c op c'] assms(2) by (simp add: handles_ok_def)
qed

lemma orphan_step:
  assumes "handles_ok c" and "orphan c sl" and "handle_step c e = Some (Inr c')" and "e \<noteq> H_DisconnectAll"
  shows "orphan c' sl"
proof (cases e)
  case (H_Connect v f obj)
  moreover have "slot_id sl < blocks c" using assms(1,2) by (auto simp: handles_ok_def orphan_def)
  ultimately show ?thesis using assms(2,3) by (auto simp: orphan_def Signal_Connect_def Connect_def connected_slots_def split: if_splits)
next
  case (H_Move v u)
  then obtain impl where "handles c u = Some impl" "c' = Slot_move v u impl c" using assms(3) by (auto split: option.splits if_splits)
  then show ?thesis using assms(2) by (auto simp: orphan_def Slot_move_def connected_slots_def)
next
  case (H_Assign v u)
  then obtain impl where "handles c u = Some impl" "c' = Slot_assign v u impl c" using assms(3) by (auto split: option.splits if_splits)
  then show ?thesis using assms(2) by (auto simp: orphan_def Slot_assign_def connected_slots_def)
next
  case (H_End v)
  then show ?thesis using assms(2,3) by (auto simp: orphan_def connected_slots_def split: if_splits)
next
  case (H_Disconnect v)
  then obtain impl where i: "handles c v = Some impl" "c' = Slot_Disconnect impl c" using assms(3) by (auto split: option.splits)
  show ?thesis
  proof (cases impl)
    case (Some x)
    then have "slot_id sl \<noteq> x" using i(1) assms(2) by (auto simp: orphan_def)
    then show ?thesis using Some assms(2) i(2) by (auto simp: orphan_def Slot_Disconnect_def connected_slots_def conn_Disconnect intro: erase_keeps)
  qed (use assms(2) i in \<open>simp add: Slot_Disconnect_def\<close>)
next
  case (H_Signal op)
  then show ?thesis using assms(2) signal_rest [of c op c'] assms(3) by (simp add: orphan_def)
qed (use assms(4) in simp)

lemma handle_run:
  "handles_ok c \<Longrightarrow> orun handle_step es c = Some (Inr c') \<Longrightarrow>
   handles_ok c' \<and> (\<forall>sl. orphan c sl \<longrightarrow> H_DisconnectAll \<notin> set es \<longrightarrow> orphan c' sl)"
proof (induction es arbitrary: c)
  case (Cons e es)
  then obtain c1 where "handle_step c e = Some (Inr c1)" "orun handle_step es c1 = Some (Inr c')"
    by (auto split: option.splits sum.splits if_splits)
  then show ?case using Cons.IH [of c1] handles_ok_step [OF Cons.prems(1)] orphan_step [OF Cons.prems(1)] by fastforce
qed simp

section \<open>Properties\<close>

text \<open>
  Fact. However handles are moved, overwritten and ended, two of them never refer to one connection; and a connection
  whose handle was overwritten or has ended stays in every later state, unless all slots are disconnected.
\<close>

theorem lost_handle_stays_connected:
  assumes "orun handle_step es (client_new objs) = Some (Inr c)" and "orun handle_step es' c = Some (Inr c')"
    and "H_DisconnectAll \<notin> set es'"
  shows "(\<forall>v u x. handles c' v = Some (Some x) \<longrightarrow> handles c' u = Some (Some x) \<longrightarrow> v = u) \<and>
    {sl \<in> set (connected_slots c). \<forall>v. handles c v \<noteq> Some (Some (slot_id sl))} \<subseteq> set (connected_slots c')"
proof -
  have "handles_ok (client_new objs)" by (simp add: handles_ok_def client_new_def connected_slots_def Signal_new_def)
  then have "handles_ok c" using handle_run assms(1) by blast
  then show ?thesis using handle_run [OF _ assms(2)] assms(3) by (auto simp: handles_ok_def orphan_def)
qed

theorem lost_handle_stays_connected_witness:
  "\<exists>c'. orun handle_step [H_Disconnect 0, H_Disconnect 1, H_Move 2 0, H_Disconnect 2]
     (case orun handle_step [H_Connect 0 10 None, H_Connect 1 20 None, H_Assign 0 1] (client_new {}) of Some (Inr c) \<Rightarrow> c | _ \<Rightarrow> client_new {}) = Some (Inr c') \<and>
     map fn (connected_slots c') = [10]"
proof -
  let ?es = "[H_Connect 0 10 None, H_Connect 1 20 None, H_Assign 0 1]"
  let ?es' = "[H_Disconnect 0, H_Disconnect 1, H_Move 2 0, H_Disconnect 2]"
  note d = client_new_def Signal_new_def Signal_Connect_def Connect_def AddSlot_def CopyIfNeeded_def unique_def Let_def Slot_assign_def
    Slot_Disconnect_def Disconnect_def slot_alive_def RemoveSlot_def Slot_move_def
  obtain c where c: "orun handle_step ?es (client_new {}) = Some (Inr c)" by (simp add: d)
  obtain c' where c': "orun handle_step ?es' c = Some (Inr c')" "map fn (connected_slots c') = [10]"
    using c by (auto simp: d connected_slots_def)
  have "map fn (connected_slots c') = [10]" using lost_handle_stays_connected [OF c c'(1)] c'(2) by simp
  then show ?thesis using c c'(1) by auto
qed

end
