(* ===== verification/Loop_Threads.thy ===== *)
theory Loop_Threads
  imports Simulation
begin

text \<open>
  Event loops and threads (\<open>src/NetworkInfra/src/event_loop.cpp\<close>): the thread-local pointer that the constructor sets and
  the destructor clears. A thread has at most one loop, and finds it, as long as loops are destroyed on the
  thread that made them.
\<close>

section \<open>Loops of several threads\<close>

text \<open>\<open>owner_thread_id\<close> has the loops there are; their addresses may be used again.\<close>

record loop_world =
  tls_loop_in_thread :: "nat \<Rightarrow> nat option"
  owner_thread_id :: "nat \<rightharpoonup> nat"
  loops_running :: "nat set"

definition no_loops :: loop_world where
  "no_loops = \<lparr>tls_loop_in_thread = (\<lambda>_. None), owner_thread_id = Map.empty, loops_running = {}\<rparr>"

definition EventLoop_construct :: "nat \<Rightarrow> nat \<Rightarrow> loop_world \<Rightarrow> loop_world res" where
  "EventLoop_construct i t w = rbind (guard (tls_loop_in_thread w t = None) Ensure_failed) (\<lambda>_.
     Inr (w\<lparr>owner_thread_id := (owner_thread_id w)(i \<mapsto> t), tls_loop_in_thread := (tls_loop_in_thread w)(t := Some i)\<rparr>))"

definition EventLoop_destroy :: "nat \<Rightarrow> nat \<Rightarrow> loop_world \<Rightarrow> loop_world res" where
  "EventLoop_destroy i t w = rbind (guard (i \<notin> loops_running w) Ensure_failed) (\<lambda>_.
     Inr (w\<lparr>owner_thread_id := (owner_thread_id w)(i := None), tls_loop_in_thread := (tls_loop_in_thread w)(t := None)\<rparr>))"

definition loop_Run :: "nat \<Rightarrow> loop_world \<Rightarrow> loop_world res" where
  "loop_Run i w = rbind (guard (i \<notin> loops_running w) Ensure_failed) (\<lambda>_. Inr (w\<lparr>loops_running := insert i (loops_running w)\<rparr>))"

definition loop_stopped :: "nat \<Rightarrow> loop_world \<Rightarrow> loop_world" where
  "loop_stopped i w = w\<lparr>loops_running := loops_running w - {i}\<rparr>"

definition loop_current :: "nat \<Rightarrow> loop_world \<Rightarrow> nat option" where
  "loop_current t w = tls_loop_in_thread w t"

definition BelongsToCurrentThread :: "nat \<Rightarrow> nat \<Rightarrow> loop_world \<Rightarrow> bool" where
  "BelongsToCurrentThread i t w \<longleftrightarrow> owner_thread_id w i = Some t"

datatype loop_op = L_Construct nat nat | L_Destroy nat nat | L_Run nat | L_Stop nat

text \<open>A thread that fails a check gets an exception and the loop is as it was: the run goes on without it.\<close>

fun loop_step :: "loop_world \<Rightarrow> loop_op \<Rightarrow> loop_world option" where
  "loop_step w (L_Construct i t) = (if owner_thread_id w i = None
     then Some (case EventLoop_construct i t w of Inl _ \<Rightarrow> w | Inr w' \<Rightarrow> w') else None)"
| "loop_step w (L_Destroy i t) = (if owner_thread_id w i \<noteq> None
     then (case EventLoop_destroy i t w of Inl _ \<Rightarrow> None | Inr w' \<Rightarrow> Some w') else None)"
| "loop_step w (L_Run i) = (if owner_thread_id w i \<noteq> None
     then Some (case loop_Run i w of Inl _ \<Rightarrow> w | Inr w' \<Rightarrow> w') else None)"
| "loop_step w (L_Stop i) = Some (loop_stopped i w)"

text \<open>Every loop is destroyed by the thread that owns it.\<close>

fun at_home :: "loop_world \<Rightarrow> loop_op list \<Rightarrow> bool" where
  "at_home w [] = True"
| "at_home w (e # es) \<longleftrightarrow> (case e of L_Destroy i t \<Rightarrow> BelongsToCurrentThread i t w | _ \<Rightarrow> True) \<and>
     (case loop_step w e of None \<Rightarrow> True | Some w' \<Rightarrow> at_home w' es)"

definition loops_found :: "loop_world \<Rightarrow> bool" where
  "loops_found w \<longleftrightarrow> (\<forall>i t. loop_current t w = Some i \<longleftrightarrow> owner_thread_id w i = Some t)"

lemma loops_found_step:
  "loops_found w \<Longrightarrow> loop_step w e = Some w' \<Longrightarrow> (case e of L_Destroy i t \<Rightarrow> BelongsToCurrentThread i t w | _ \<Rightarrow> True) \<Longrightarrow> loops_found w'"
  by (cases e; auto simp: loops_found_def loop_current_def EventLoop_construct_def EventLoop_destroy_def BelongsToCurrentThread_def loop_Run_def
      loop_stopped_def guard_def rbind_def split: if_splits; metis option.distinct(1) option.inject)

section \<open>Properties\<close>

text \<open>
  Fact. While loops are destroyed on their own threads, the loop that a thread finds is the one it owns, it finds it as
  long as it is there, and so no thread owns two.
\<close>

theorem thread_finds_its_loop:
  assumes "ofold loop_step es no_loops = Some w" and "at_home no_loops es"
  shows "(loop_current t w = Some i \<longleftrightarrow> BelongsToCurrentThread i t w) \<and>
    (BelongsToCurrentThread i t w \<and> BelongsToCurrentThread j t w \<longrightarrow> i = j)"
proof -
  have "loops_found w" if "loops_found v" "ofold loop_step es v = Some w" "at_home v es" for v
    using that by (induction es arbitrary: v) (auto split: option.splits dest: loops_found_step)
  moreover have "loops_found no_loops" by (simp add: loops_found_def no_loops_def loop_current_def)
  ultimately have "loops_found w" using assms by blast
  then show ?thesis unfolding loops_found_def BelongsToCurrentThread_def by (metis option.inject)
qed

theorem thread_finds_its_loop_witness:
  "\<exists>w. ofold loop_step [L_Construct 0 1, L_Construct 1 2, L_Construct 2 1, L_Run 0, L_Stop 0, L_Destroy 0 1, L_Construct 2 1] no_loops = Some w \<and>
     loop_current 1 w = Some 2 \<and> loop_current 2 w = Some 1"
proof -
  let ?es = "[L_Construct 0 1, L_Construct 1 2, L_Construct 2 1, L_Run 0, L_Stop 0, L_Destroy 0 1, L_Construct 2 1]"
  note d = no_loops_def EventLoop_construct_def EventLoop_destroy_def loop_Run_def loop_stopped_def BelongsToCurrentThread_def guard_def
  obtain w where w: "ofold loop_step ?es no_loops = Some w" "BelongsToCurrentThread 2 1 w" "BelongsToCurrentThread 1 2 w" by (simp add: d)
  have "at_home no_loops ?es" by (simp add: d)
  from thread_finds_its_loop [OF w(1) this] show ?thesis using w by blast
qed

text \<open>
  Fact. A loop destroyed on another thread leaves its owner with a pointer to it, so that the owner can never make
  another, and the thread that destroyed it no longer finds a loop of its own.
\<close>

theorem foreign_destruction_dangles:
  assumes "loops_found w" and "owner_thread_id w i = Some t" and "u \<noteq> t" and "EventLoop_destroy i u w = Inr w'"
  shows "loop_current t w' = Some i \<and> owner_thread_id w' i = None \<and> EventLoop_construct j t w' = Inl Ensure_failed \<and> loop_current u w' = None"
  using assms by (auto simp: loops_found_def loop_current_def EventLoop_destroy_def EventLoop_construct_def guard_def rbind_def split: if_splits)

theorem foreign_destruction_dangles_witness:
  "\<exists>w'. EventLoop_destroy 0 2 \<lparr>tls_loop_in_thread = [1 \<mapsto> 0, 2 \<mapsto> 5], owner_thread_id = [0 \<mapsto> 1, 5 \<mapsto> 2], loops_running = {}\<rparr> = Inr w' \<and>
     loop_current 1 w' = Some 0 \<and> owner_thread_id w' 0 = None \<and> loop_current 2 w' = None"
proof -
  let ?w = "\<lparr>tls_loop_in_thread = [1 \<mapsto> 0, 2 \<mapsto> 5], owner_thread_id = [0 \<mapsto> 1, 5 \<mapsto> 2], loops_running = {}\<rparr>"
  obtain w' where w': "EventLoop_destroy 0 2 ?w = Inr w'" by (simp add: EventLoop_destroy_def)
  have "loops_found ?w" "owner_thread_id ?w 0 = Some 1" by (auto simp: loops_found_def loop_current_def)
  from foreign_destruction_dangles [OF this _ w'] w' show ?thesis by auto
qed

end
