(* ===== verification/Socket_Address.thy ===== *)
theory Socket_Address
  imports Endian Text Tcp_Server
begin

text \<open>
  Addresses of sockets (\<open>src/NetworkInfra/src/socket_address.cpp\<close>, and the same file of \<open>src/NetworkInfraWin\<close>) and the making of
  a listening socket (\<open>src/NetworkInfra/src/acceptor.cpp\<close>). The conversions \<open>inet_pton\<close> and \<open>inet_ntop\<close> of the system are
  parameters: the first reads a text, the second writes one for a buffer of a given size. An address and its text
  determine each other.
\<close>

section \<open>Addresses\<close>

record sockaddr_in =
  sin_family :: "16 word"
  sin_port :: "16 word"
  sin_addr :: "32 word"

definition AF_INET :: "16 word" where
  "AF_INET = 2"

definition INADDR_ANY :: "32 word" where
  "INADDR_ANY = 0"

definition SocketAddress_any :: "endianness \<Rightarrow> 16 word \<Rightarrow> sockaddr_in" where
  "SocketAddress_any e p = \<lparr>sin_family = AF_INET, sin_port = HostToNetwork e p, sin_addr = INADDR_ANY\<rparr>"

definition SocketAddress_ip :: "(string \<Rightarrow> 32 word option) \<Rightarrow> endianness \<Rightarrow> string option \<Rightarrow> 16 word \<Rightarrow> sockaddr_in res" where
  "SocketAddress_ip inet_pton e ip p = (case ip of
     None \<Rightarrow> Inl Ensure_failed
   | Some ip \<Rightarrow> (case inet_pton ip of
       None \<Rightarrow> Inl Ensure_failed
     | Some a \<Rightarrow> Inr \<lparr>sin_family = AF_INET, sin_port = HostToNetwork e p, sin_addr = a\<rparr>))"

definition port :: "endianness \<Rightarrow> sockaddr_in \<Rightarrow> 16 word" where
  "port e s = NetworkToHost e (sin_port s)"

definition kBufSize :: nat where
  "kBufSize = 16"

definition ToHostPort :: "(32 word \<Rightarrow> nat \<Rightarrow> string option) \<Rightarrow> endianness \<Rightarrow> sockaddr_in \<Rightarrow> string res" where
  "ToHostPort inet_ntop e s = (case inet_ntop (sin_addr s) kBufSize of
     None \<Rightarrow> Inl Ensure_failed
   | Some ip \<Rightarrow> Inr (ip @ '':'' @ decimal (unat (port e s))))"

text \<open>The constructor of the acceptor; \<open>fd\<close>, \<open>rv\<close> and \<open>rv'\<close> are what \<open>socket\<close>, \<open>setsockopt\<close> and \<open>bind\<close> return.\<close>

definition CreateNonBlockingSocketFD :: "int \<Rightarrow> int res" where
  "CreateNonBlockingSocketFD fd = rbind (guard (fd \<noteq> - 1) Ensure_failed) (\<lambda>_. Inr fd)"

definition Acceptor_new :: "int \<Rightarrow> int \<Rightarrow> int \<Rightarrow> nat \<Rightarrow> poller \<Rightarrow> acceptor res" where
  "Acceptor_new fd rv rv' ch p = rbind (CreateNonBlockingSocketFD fd) (\<lambda>_.
     rbind (guard (rv = 0) Ensure_failed) (\<lambda>_. rbind (guard (rv' = 0) Ensure_failed) (\<lambda>_.
     Inr \<lparr>listenning = False, listener_channel = ch, new_connection_handler = False, acceptor_poller = p\<rparr>)))"

definition set_new_connection_handler :: "bool \<Rightarrow> acceptor \<Rightarrow> acceptor" where
  "set_new_connection_handler handler a = a\<lparr>new_connection_handler := handler\<rparr>"

section \<open>Properties\<close>

text \<open>What the manual pages say of the conversions: every address has a text that fits the buffer, is read back, and has no colon.\<close>

definition inet_inverse :: "(string \<Rightarrow> 32 word option) \<Rightarrow> (32 word \<Rightarrow> nat \<Rightarrow> string option) \<Rightarrow> bool" where
  "inet_inverse inet_pton inet_ntop \<longleftrightarrow> (\<forall>a. \<exists>s. inet_ntop a 16 = Some s \<and> inet_pton s = Some a \<and> CHR '':'' \<notin> set s)"

lemma port_HostToNetwork [simp]: "port e \<lparr>sin_family = f, sin_port = HostToNetwork e p, sin_addr = a\<rparr> = p"
  by (simp add: port_def NetworkToHost_HostToNetwork)

lemma HostToNetwork_port [simp]: "HostToNetwork e (port e s) = sin_port s"
  using NetworkToHost_HostToNetwork [of e "sin_port s"]
  by (cases e) (simp_all add: port_def NetworkToHost_def HostToNetwork_def)

text \<open>
  Fact. The text of an address is the text of its host, a colon and its port in the order of the machine;
  the constructor makes the same address from these parts, and no other address has the same text.
\<close>

theorem address_text_roundtrip:
  assumes "inet_inverse inet_pton inet_ntop" and "sin_family s = AF_INET"
  shows "\<exists>ip. ToHostPort inet_ntop e s = Inr (ip @ '':'' @ decimal (unat (port e s))) \<and>
     SocketAddress_ip inet_pton e (Some ip) (port e s) = Inr s \<and>
     (\<forall>s'. sin_family s' = AF_INET \<and> ToHostPort inet_ntop e s' = ToHostPort inet_ntop e s \<longrightarrow> s' = s)"
proof -
  obtain ip where ip: "inet_ntop (sin_addr s) 16 = Some ip" "inet_pton ip = Some (sin_addr s)" "CHR '':'' \<notin> set ip"
    using assms(1) by (auto simp: inet_inverse_def)
  have "s' = s" if "sin_family s' = AF_INET" "ToHostPort inet_ntop e s' = ToHostPort inet_ntop e s" for s'
  proof -
    obtain ip' where ip': "inet_ntop (sin_addr s') 16 = Some ip'" "inet_pton ip' = Some (sin_addr s')" "CHR '':'' \<notin> set ip'"
      using assms(1) by (auto simp: inet_inverse_def)
    have eq: "ip' @ CHR '':'' # decimal (unat (port e s')) = ip @ CHR '':'' # decimal (unat (port e s))"
      using that(2) ip(1) ip'(1) by (simp add: ToHostPort_def kBufSize_def)
    have tw: "takeWhile (\<lambda>c. c \<noteq> CHR '':'') (u @ CHR '':'' # v) = u" if "CHR '':'' \<notin> set u" for u v
      using that by (induction u) auto
    have "ip' = ip" using tw [OF ip(3)] tw [OF ip'(3)] eq by metis
    moreover from this have "unat (port e s') = unat (port e s)" using eq by simp
    ultimately have "sin_addr s' = sin_addr s" "port e s' = port e s" using ip ip' by (simp_all only: word_unat_eq_iff option.inject)
    then have "sin_port s' = sin_port s" using HostToNetwork_port [of e s'] HostToNetwork_port [of e s] by simp
    then show ?thesis using \<open>sin_addr s' = sin_addr s\<close> that(1) assms(2) by simp
  qed
  then show ?thesis using ip assms(2) by (auto simp: ToHostPort_def kBufSize_def SocketAddress_ip_def)
qed

text \<open>Numbers are texts of addresses, too, and one system might write them.\<close>

definition plain_ntop :: "32 word \<Rightarrow> nat \<Rightarrow> string option" where
  "plain_ntop a n = (let s = decimal (unat a) in if length s < n then Some s else None)"

definition plain_pton :: "string \<Rightarrow> 32 word option" where
  "plain_pton s = (if decimal (digits_value s) = s \<and> int (digits_value s) < 2 ^ 32 then Some (of_nat (digits_value s)) else None)"

lemma decimal_no_colon: "CHR '':'' \<notin> set (decimal n)"
proof (induction n rule: decimal.induct)
  case (1 n)
  have c: "CHR '':'' \<noteq> char_of (48 + d)" if "d < 10" for d :: nat
    using that char_of_eq_iff [of "48 + d" "CHR '':''"] by (auto simp: take_bit_eq_mod)
  show ?case
  proof (cases "n < 10")
    case True
    then show ?thesis using c [of n] by (subst decimal.simps) simp
  next
    case False
    then show ?thesis using 1 c [of "n mod 10"] by (subst decimal.simps) simp
  qed
qed

theorem address_text_roundtrip_witness:
  "ToHostPort plain_ntop Little_endian (SocketAddress_any Little_endian 8080) = Inr ''0:8080'' \<and>
   SocketAddress_ip plain_pton Little_endian (Some ''0'') 8080 = Inr (SocketAddress_any Little_endian 8080)"
proof -
  have "inet_inverse plain_pton plain_ntop"
  proof (unfold inet_inverse_def, intro allI exI conjI)
    fix a :: "32 word"
    have u: "unat a < 2 ^ 32" using unsigned_less [of a] by simp
    then have "length (decimal (unat a)) \<le> Suc 9" by (intro length_decimal) simp
    then show "plain_ntop a 16 = Some (decimal (unat a))" by (simp add: plain_ntop_def Let_def)
    show "plain_pton (decimal (unat a)) = Some a" using uint_bounded [of a] by (simp add: plain_pton_def)
    show "CHR '':'' \<notin> set (decimal (unat a))" by (rule decimal_no_colon)
  qed
  then obtain ip where "ToHostPort plain_ntop Little_endian (SocketAddress_any Little_endian 8080) = Inr (ip @ '':'' @ decimal (unat (8080 :: 16 word)))"
      "SocketAddress_ip plain_pton Little_endian (Some ip) 8080 = Inr (SocketAddress_any Little_endian 8080)"
    using address_text_roundtrip [of plain_pton plain_ntop "SocketAddress_any Little_endian 8080" Little_endian] by (auto simp: SocketAddress_any_def)
  moreover have "ToHostPort plain_ntop Little_endian (SocketAddress_any Little_endian 8080) = Inr ''0:8080''"
    by (simp add: ToHostPort_def SocketAddress_any_def plain_ntop_def INADDR_ANY_def kBufSize_def decimal.simps char_of_eq_iff)
  ultimately show ?thesis by (auto simp: decimal.simps)
qed

end
