(* ===== verification/UUID_Windows.thy ===== *)
theory UUID_Windows
  imports Prelude
begin

text \<open>
  The node identifier of the UUID library on Windows (\<open>src/uuid/uuid/mac_address.cpp\<close>): the adapters are asked for with a buffer of
  16 KB, and once more with the size that the system demands. \<open>GetAdaptersAddresses\<close> is a parameter. The theory shows
  when an adapter is found, and that the second try is lost if an adapter was added meanwhile.
\<close>

section \<open>The adapters\<close>

record adapter_addresses =
  PhysicalAddress :: "byte list"
  PhysicalAddressLength :: nat

datatype status = ERROR_SUCCESS | ERROR_BUFFER_OVERFLOW | ERROR_OTHER

text \<open>One call: the status, the size it leaves in \<open>buf_len\<close>, and the list it wrote.\<close>

type_synonym adapters_call = "nat \<Rightarrow> status \<times> nat \<times> adapter_addresses list"

fun first_address :: "adapter_addresses list \<Rightarrow> byte list option res" where
  "first_address [] = Inr None"
| "first_address (a # rest) = (if 6 \<le> PhysicalAddressLength a then rbind (load (PhysicalAddress a) 0 6) (\<lambda>nid. Inr (Some nid)) else first_address rest)"

text \<open>The two calls may give different answers.\<close>

definition load_adapter_address_win :: "adapters_call \<Rightarrow> adapters_call \<Rightarrow> byte list option res" where
  "load_adapter_address_win GetAdaptersAddresses GetAdaptersAddresses' =
     (case GetAdaptersAddresses (16 * 1024) of (rv, buf_len, addrs) \<Rightarrow>
       if rv \<noteq> ERROR_SUCCESS
       then if rv \<noteq> ERROR_BUFFER_OVERFLOW then Inr None
         else (case GetAdaptersAddresses' buf_len of (rv, buf_len, addrs) \<Rightarrow>
           if rv \<noteq> ERROR_SUCCESS then Inr None else first_address addrs)
       else first_address addrs)"

section \<open>Properties\<close>

text \<open>A system that has these adapters, which take \<open>need\<close> bytes: it writes them when the buffer is large enough and says what it needs otherwise.\<close>

definition holds_adapters :: "adapter_addresses list \<Rightarrow> nat \<Rightarrow> adapters_call \<Rightarrow> bool" where
  "holds_adapters addrs need get \<longleftrightarrow> (\<forall>n. if n < need then fst (get n) = ERROR_BUFFER_OVERFLOW \<and> fst (snd (get n)) = need
     else fst (get n) = ERROR_SUCCESS \<and> snd (snd (get n)) = addrs)"

definition adapter_fine :: "adapter_addresses \<Rightarrow> bool" where
  "adapter_fine a \<longleftrightarrow> PhysicalAddressLength a \<le> length (PhysicalAddress a)"

lemma first_address_ok:
  "\<forall>a \<in> set addrs. adapter_fine a \<Longrightarrow>
   first_address addrs = Inr (map_option (\<lambda>a. take 6 (PhysicalAddress a)) (find (\<lambda>a. 6 \<le> PhysicalAddressLength a) addrs))"
  by (induction addrs) (auto simp: adapter_fine_def load_ok)

text \<open>
  Fact. While the adapters stay the same, however many there are, the identifier is the address of the first adapter
  with an address of six bytes or more.
\<close>

theorem windows_node_id:
  assumes "holds_adapters addrs need get" and "\<forall>a \<in> set addrs. adapter_fine a"
  shows "load_adapter_address_win get get = Inr (map_option (\<lambda>a. take 6 (PhysicalAddress a)) (find (\<lambda>a. 6 \<le> PhysicalAddressLength a) addrs))"
proof -
  obtain rv n as where g: "get (16 * 1024) = (rv, n, as)" by (cases "get (16 * 1024)")
  obtain rv' n' as' where g': "get n = (rv', n', as')" by (cases "get n")
  have h: "if k < need then fst (get k) = ERROR_BUFFER_OVERFLOW \<and> fst (snd (get k)) = need else fst (get k) = ERROR_SUCCESS \<and> snd (snd (get k)) = addrs" for k
    using assms(1) by (simp add: holds_adapters_def)
  have f: "rv' = ERROR_SUCCESS \<and> as' = addrs \<and> rv = ERROR_BUFFER_OVERFLOW \<or> rv = ERROR_SUCCESS \<and> as = addrs"
    using h [of "16 * 1024"] h [of n] g g' by (auto split: if_splits)
  show ?thesis using f g g' by (auto simp: load_adapter_address_win_def first_address_ok [OF assms(2)])
qed

definition two_adapters :: adapters_call where
  "two_adapters n = (let as = [\<lparr>PhysicalAddress = replicate 8 0, PhysicalAddressLength = 0\<rparr>, \<lparr>PhysicalAddress = [1, 2, 3, 4, 5, 6, 0, 0], PhysicalAddressLength = 6\<rparr>]
     in if n < 20000 then (ERROR_BUFFER_OVERFLOW, 20000, []) else (ERROR_SUCCESS, n, as))"

theorem windows_node_id_witness:
  "load_adapter_address_win two_adapters two_adapters = Inr (Some [1, 2, 3, 4, 5, 6])"
proof -
  let ?as = "[\<lparr>PhysicalAddress = replicate 8 0, PhysicalAddressLength = 0\<rparr>, \<lparr>PhysicalAddress = [1, 2, 3, 4, 5, 6, 0, 0], PhysicalAddressLength = 6\<rparr>]"
  have "holds_adapters ?as 20000 two_adapters" by (simp add: holds_adapters_def two_adapters_def)
  moreover have "\<forall>a \<in> set ?as. adapter_fine a" by (simp add: adapter_fine_def)
  ultimately show ?thesis using windows_node_id by fastforce
qed

text \<open>
  Fact. There is one second try: if the adapters outgrow the new buffer between the calls, no adapter is found although each of
  them would do.
\<close>

theorem windows_second_try_fails:
  assumes "holds_adapters addrs need get" and "16 * 1024 < need" and "holds_adapters addrs' need' get'" and "need < need'"
  shows "load_adapter_address_win get get' = Inr None"
proof -
  obtain rv n as where g: "get (16 * 1024) = (rv, n, as)" by (cases "get (16 * 1024)")
  obtain rv' n' as' where g': "get' need = (rv', n', as')" by (cases "get' need")
  have "rv = ERROR_BUFFER_OVERFLOW" "n = need"
    using assms(1,2) g unfolding holds_adapters_def by (metis fst_conv, metis fst_conv snd_conv)
  moreover have "rv' = ERROR_BUFFER_OVERFLOW" using assms(3,4) g' unfolding holds_adapters_def by (metis fst_conv)
  ultimately show ?thesis using g g' by (simp add: load_adapter_address_win_def)
qed

theorem windows_second_try_fails_witness:
  "load_adapter_address_win (\<lambda>n. if n < 17000 then (ERROR_BUFFER_OVERFLOW, 17000, []) else (ERROR_SUCCESS, n, [])) two_adapters = Inr None"
proof -
  let ?as = "[\<lparr>PhysicalAddress = replicate 8 0, PhysicalAddressLength = 0\<rparr>, \<lparr>PhysicalAddress = [1, 2, 3, 4, 5, 6, 0, 0], PhysicalAddressLength = 6\<rparr>]"
  have "holds_adapters [] 17000 (\<lambda>n. if n < 17000 then (ERROR_BUFFER_OVERFLOW, 17000, []) else (ERROR_SUCCESS, n, []))"
    "holds_adapters ?as 20000 two_adapters" by (simp_all add: holds_adapters_def two_adapters_def)
  then show ?thesis using windows_second_try_fails by fastforce
qed

end
