(* ===== verification/Spec2Isabelle.thy ===== *)
theory Spec2Isabelle
  imports Net_Buffer Buffer_Sizes Token_Bucket Backoff Conn_Pool Ternary_Tree Trie_Dict Buddy_Allocator Bloom
    Hashids Expr_Tree UUID RC_String TS_String Date_Functions Blocking_Queue Thread_Pool
    Timer_Queue Event_Loop Tcp_Connection Tcp_Server Signal_Slot Multipart Http_Router
    Lock_Free_Stack Two_Lock_Queue Socks5 Socks4a Light_Mutex Count_Down_Latch
    Object_Pools Observer_List Http_Server_Win Http_Server_Linux One_Time_Password
    Labor_Monitor Public_Suffix Calculator Win_Connection
    Expr_Store Slot_Handles Loop_Threads Socket_Address UUID_Windows
begin

text \<open>
  A verification library for the C++ components of the Eureka repository.

  \<^bold>\<open>The repository\<close> is a collection of independent projects. The library models those that carry an
  algorithm or a protocol of their own: a reactor-style network library, a buddy allocator, a
  reference-counted string, a thread pool and a blocking queue, a connection pool, a rate limiter, a
  retry policy, signals and slots, two HTTP servers, two SOCKS proxies, a reader of multipart forms, a router of
  requests, two dictionaries, a Bloom filter, the public suffix list, one-time passwords, the
  hashids and UUID codecs with their MD5, two expression evaluators, a presence keeper and calendar functions.

  \<^bold>\<open>Conventions\<close> (\<open>Prelude\<close>). An operation that may throw, fail an \<open>ENSURE\<close> or an \<open>assert\<close>, or run into
  undefined behaviour, returns \<open>'a res\<close>: \<open>Inl\<close> of a fault or \<open>Inr\<close> of its result; assertions are enabled.
  Memory accesses are bounds-checked, signed arithmetic that matters is checked for overflow,
  unsigned arithmetic is on words or wraps explicitly. State is passed explicitly as records with
  the data members of the classes; where objects are shared through pointers the state has a store
  from addresses to objects. Threads are step relations in which a critical section is one step and
  everything outside it is interleaved. Operating-system calls, clocks, random sources,
  floating-point functions and client callbacks are parameters; what is assumed of them is a named
  hypothesis. \<open>Simulation\<close> holds the two contracts the components share: \<open>simulation\<close>, a step that may
  fault against a partial abstract step, lifted to sequences, and \<open>invariant_system\<close>, an inductive
  invariant of a step relation.

  \<^bold>\<open>The network library\<close> (\<open>src/NetworkInfra/src\<close>).
  \<^item> \<open>Endian\<close>, \<open>Net_Buffer\<close>: byte order and the growable buffer (\<open>endian_utils.h\<close>, \<open>buffer.cpp\<close>). The buffer
    refines a queue of bytes, integers survive the wire, scattered reads append. Contract:
    \<open>byte_queue\<close>. \<open>Buffer_Sizes\<close>: the same operations with sizes that wrap around at \<open>2 ^ 64\<close>, for up to
    \<open>2 ^ 62\<close> bytes; which operations fail a check.
  \<^item> \<open>Timer_Queue\<close> (\<open>timer.cpp\<close>, \<open>timer_queue.cpp\<close>): every timer is called when it is due, once per round and never
    early, and the descriptor is armed for the earliest; timers are lost only in a tick whose handlers throw or fail
    a check; a timer due exactly at the tick fails one before any is taken out.
  \<^item> \<open>Poller\<close> (\<open>channel.cpp\<close>, \<open>poller.cpp\<close>): the array for \<open>poll\<close>, the table and the places channels
    remember refine a registry of descriptors; a channel enabled again stays ignored.
  \<^item> \<open>Event_Loop\<close> (\<open>event_loop.cpp\<close>): tasks run once and in order, and the loop sleeps only when idle; what is queued or asked
    before it runs may be missed.
    \<open>Loop_Threads\<close>: a thread finds its one loop, unless another thread destroys it.
  \<^item> \<open>Tcp_Connection\<close> (\<open>tcp_connection.cpp\<close> and \<open>TCPServer::RemoveConnection\<close>): built on the buffer and
    the poller, a connection refines an abstract machine of byte streams; it is shut down only after
    its last byte and leaves the poller when it closes; three defects are shown.
  \<^item> \<open>Tcp_Server\<close> (\<open>tcp_server.cpp\<close>, \<open>acceptor.cpp\<close>): the table of connections is exact.
  \<^item> \<open>Socket_Address\<close> (\<open>socket_address.cpp\<close>, \<open>acceptor.cpp\<close>): an address and its text determine each other.
  \<^item> \<open>Win_Connection\<close> (\<open>src/NetworkInfraWin/src/tcp_connection.cpp\<close>): the connection on completion ports: bytes stay in
    order; careful clients are safe; what dangles, stalls or closes otherwise.

  \<^bold>\<open>The SOCKS proxies\<close> (\<open>src/learn-cxx/asio/socks5\<close>, \<open>src/learn-cxx/asio/socks4a\<close>). An asynchronous operation
  that completes is one step, in any order; how it completes is chosen by the environment.
  \<^item> \<open>Relay\<close>: the two directions in which bytes are passed on, shared by both tunnels.
  \<^item> \<open>Socks5\<close> (\<open>tunnel.cpp\<close>, \<open>packets.h\<close>): whatever the environment does, a tunnel leads where the client
    asked for (also for address types the protocol does not know, as names) and passes bytes on unaltered; every request is understood; the handshake ends.
  \<^item> \<open>Socks4a\<close> (\<open>tunnel.cpp\<close>, \<open>tunnel.h\<close>): likewise, except that bytes sent with the request are lost.

  \<^bold>\<open>The HTTP servers\<close> (\<open>src/ConcurrentHttpServer\<close>).
  \<^item> \<open>Http_Request\<close>: what both share (\<open>IsRequestComplete\<close>, \<open>UnescapeURL\<close>, dates and headers). The end of a
    request is found however it is cut; unescaping inverts escaping.
  \<^item> \<open>Http_Server_Win\<close> (\<open>ConcurrentHttpServerWin/src/tcp_connection.cpp\<close>, \<open>tcp_connection_manager.cpp\<close>, \<open>worker.cpp\<close>): a
    connection as the state machine of its one overlapped operation, and the pool that recycles connections.
    Whatever pieces the system moves, clients get the answers to their requests, in order and whole.
  \<^item> \<open>Http_Server_Linux\<close> (\<open>ConcurrentHttpServerLinux/src/tcp_connection.cpp\<close>): the same for edge-triggered polling.

  \<^bold>\<open>Memory and concurrency.\<close>
  \<^item> \<open>Buddy_Util\<close>, \<open>Bin_Manager\<close>, \<open>Buddy_Allocator\<close> (\<open>src/BuddyAllocator/src\<close>): the implicit tree of slot
    counts against a tree of bins: allocation finds a block whenever one fits, freeing merges
    buddies exactly, blocks handed out are disjoint. Contract: \<open>bin_provider\<close>.
  \<^item> \<open>RC_String\<close> (\<open>src/RCString/src/rc_string.cpp\<close>): strings that share and copy on write, in an explicit
    store, behave as values; a reference to a character is never seen by another string.
  \<^item> \<open>TS_String\<close> (\<open>src/RCString/src/thread_safe_rc_string.cpp\<close>): the variant with an atomic count, whose accesses
    by several threads interleave: as long as each object is used by one thread at a time, copying apart, nothing faults, and
    strings are still values.
  \<^item> \<open>Blocking_Queue\<close> (\<open>src/BlockingQueue/src/blocking_queue.h\<close>) and \<open>Thread_Pool\<close> (\<open>src/TinyThreadPool\<close>): order
    of elements and tasks, no lost wake-up, and that shutting down ends after the blocking tasks.
  \<^item> \<open>Node_Chain\<close>, \<open>Lock_Free_Stack\<close> (\<open>src/LockfreeStack/lstack.h\<close>), \<open>Two_Lock_Queue\<close> (\<open>src/ConcurrentQueue/two_lock.h\<close>):
    linked nodes in a store, accessed by any interleaving of threads: both are linearizable, neither
    loses a node, and calls end. The memory is sequentially consistent; the data races are shown.
  \<^item> \<open>Light_Mutex\<close> (\<open>src/LightweightMutex/light_mutex\<close>): the plain and the recursive mutex over an interlocked
    counter and a semaphore exclude, and forget no waiting thread; \<open>try_lock\<close> breaks \<open>unlock\<close>.
  \<^item> \<open>Count_Down_Latch\<close> (\<open>src/CountDownLatch/src\<close>): nobody passes early, nobody is left asleep.
  \<^item> \<open>Object_Pools\<close> (\<open>src/Object_Pool/src\<close>): one object per key, exact counts of dead entries, and what
    happens when a deleter is overtaken.
  \<^item> \<open>Observer_List\<close> (\<open>src/Thread_Safe_Observer/src/observer_list.h\<close>): who is notified while observers vanish.
  \<^item> \<open>Conn_Pool\<close> (\<open>src/conn-pool/conn_pool/pool.h\<close>): the size kept is exact and never exceeds the capacity under concurrent use; connections
    taken off the idle list live a little longer.
  \<^item> \<open>Signal_Slot\<close> (\<open>src/Signal-Slot/src/signals.h\<close>): an invocation walks over the slots connected when it
    began, whatever is connected or disconnected meanwhile; its argument reaches only the first slot.
    \<open>Slot_Handles\<close>: a connection has one handle at most, and stays for good once it is lost.

  \<^bold>\<open>Policies, dictionaries and codecs.\<close>
  \<^item> \<open>Token_Bucket\<close> (\<open>src/token-bucket-rate-limit\<close>): the rate limit over any interval, and exact waits.
  \<^item> \<open>Backoff\<close> (\<open>src/backoff-retry/backoff\<close>): every policy's delays and the end of the retry loop.
    Contract: \<open>delay_policy\<close>, interpreted by each policy.
  \<^item> \<open>Dictionary\<close>, \<open>Ternary_Tree\<close>, \<open>Trie_Dict\<close> (\<open>src/TernarySearchTree/src\<close>, \<open>src/TrieFoDict/src\<close>): membership and
    prefix search. Contract: \<open>word_dictionary\<close>, interpreted by both trees.
  \<^item> \<open>Bloom\<close> (\<open>src/bloom-filter/bloom-filter\<close>): no false negatives. Contract: \<open>approximate_set\<close>.
  \<^item> \<open>Hex\<close>, \<open>Hashids\<close> (\<open>src/hashids/hashids\<close>): decoding inverts encoding, and accepts nothing else.
  \<^item> \<open>MD5\<close>, \<open>UUID\<close> (\<open>src/uuid/uuid\<close>): the digest does not depend on how the input is cut and equals a
    reference definition; time-based identifiers never repeat; name-based ones are those of RFC 4122.
    \<open>UUID_Windows\<close> has the search for an adapter on Windows.
  \<^item> \<open>Multipart\<close> (\<open>src/http-multipart/multipart\<close>): parsing answers for every input and inverts rendering;
    empty fields are rejected. The outside string library is a parameter with a contract.
  \<^item> \<open>Http_Router\<close> (\<open>src/learn-cxx/beast/http_router/tree.h\<close>): the radix tree refines a table of routes, also
    when routes are rejected, and locates every instance of a route; it also finds paths that are none.
  \<^item> \<open>Public_Suffix\<close> (\<open>src/esld/esld/psl.cpp\<close>): a lookup ends, finds an end of the domain, and where it goes wrong.
  \<^item> \<open>One_Time_Password\<close> (\<open>src/learn-topt/topt\<close>): keys survive being written down; when passwords are those of RFC 6238.
  \<^item> \<open>Labor_Monitor\<close> (\<open>src/hey-i-am-still-working/himsw/labor_monitor.cpp\<close>): when keys are pressed for the user.
  \<^item> \<open>Calculator\<close> (\<open>src/ExpressionCalculator/EvaluateExp.cpp\<close>): the evaluator with two stacks against a grammar.
  \<^item> \<open>Text\<close>: searching in text and decimal numbers, for the components above.
  \<^item> \<open>Expr_Tree\<close> (\<open>src/Expression Tree\<close>): the pipeline from infix text to a value computes the value.
    \<open>Expr_Store\<close>: the same with nodes in a store, whose destructor frees each of them once.
  \<^item> \<open>Date_Functions\<close> (\<open>src/Date Functions\<close>): differences of dates count days; calendars are laid out right.

  \<^bold>\<open>Bounds and fuel.\<close> Arenas of the allocator have at most \<open>2 ^ 32\<close> slots; vectors at most \<open>2 ^ 60 - 1\<close>
  elements. Reference counts are 32-bit: a run of string operations has fewer than \<open>2 ^ 32 - 1\<close> steps
  and strings at most \<open>2 ^ 60\<close> bytes. The digit loop of hashids has fuel 64, enough for any 64-bit
  number in base 2. Calendar years lie within a million of 0. A run of time-based identifiers has at
  most \<open>2 ^ 14\<close> members at one time stamp. The poller registers fewer than \<open>2 ^ 31\<close> descriptors, timers lie
  within 73 years of the epoch of the clock, a server accepts \<open>2 ^ 32\<close> connections before names repeat.
  The thread-safe strings have
  at most \<open>2 ^ 30\<close> objects and threads, so that counts of holders stay below the mark. A run of the lock-free stack has at most \<open>2 ^ 64\<close> steps, so that its tags do not repeat. The counters of
  the recursive mutex are 32-bit: fewer than \<open>2 ^ 31\<close> calls, nested or waiting, count at any time; those of the plain mutex count
  threads and are unbounded, and so are the priorities in the router, \<open>int\<close> in the code, which count routes. The tunnels run on a little-endian host, on
  which their byte swaps are right; setting options of their sockets does not fail. A client of an HTTP server
  sends fewer than \<open>2 ^ 64\<close> bytes on one connection, and files have fewer than \<open>2 ^ 63\<close>. The loops of the lookup in the
  public suffix list have the length of the list as fuel: every hit moves on in it.
  What else the properties assume: the bytes in a buffer stay below \<open>2 ^ 62\<close>; delays have a base that is not negative and below
  \<open>2 ^ 33\<close> milliseconds, with up to 31 retries; the counts of a token bucket stay below \<open>2 ^ 63\<close> and its calls follow each other in time; passwords are made for times from
  1970 on; the last input that the presence keeper sees comes within 49 days of the start of the system, whose clock for it has 32 bits; a connection pool lives as long as
  its connections. Domains, trie words and the alphabets of hashids contain no null character; \<open>Public_Suffix\<close>, \<open>Trie_Dict\<close> and \<open>Hashids\<close>
  show what happens with one.

  \<^bold>\<open>Not modelled.\<close> Logging, console programs and operating-system calls, whose results are arguments; the accept loops
  and command lines of the proxies; the event loop and the acceptor on completion ports. Vendored code (the crow framework, libstdc++ headers), exercises of books and
  courses, studies of third-party libraries (asio, beast, spdlog, JSON), compile-time
  metaprogramming, wrappers over operating-system interfaces, and the projects in other languages
  are left out.
\<close>

end
